(* ===== verification/Prelude.thy ===== *)
theory Prelude
  imports Main "HOL-Library.Word" "HOL-Library.State_Monad"
begin

text \<open>
  Shared vocabulary of the development: the machine integers of \<open>core/types.h\<close> as word types,
  bit strings (least significant bit first, the order of \<open>proto/bitstream.h\<close>) and the generic
  lemmas on lists, words and the state monad that the component theories use.
\<close>

unbundle bit_operations_syntax

named_theorems unat_simps \<open>reading unsigned arithmetic as arithmetic on natural numbers\<close>
named_theorems emits_intros \<open>what a writer operation appends to the bit string\<close>
named_theorems decodes_intros \<open>what a reader operation consumes and returns\<close>

type_synonym u8 = "8 word"
type_synonym u16 = "16 word"
type_synonym u32 = "32 word"
type_synonym u64 = "64 word"

text \<open>A \<open>float\<close> is its binary32 bit pattern; its arithmetic is in the theory of floats.\<close>

type_synonym f32 = "32 word"


section \<open>Unsigned arithmetic without wrap-around\<close>

lemma unat_add_u32 [unat_simps]:
  "unat a + unat b < 4294967296 \<Longrightarrow> unat (a + b :: u32) = unat a + unat b"
  by (simp add: unat_word_ariths)

lemma unat_mult_u32 [unat_simps]:
  "unat a * unat b < 4294967296 \<Longrightarrow> unat (a * b :: u32) = unat a * unat b"
  by (simp add: unat_word_ariths)

lemma unat_sub_le [unat_simps]: "b \<le> a \<Longrightarrow> unat (a - b :: 'a::len word) = unat a - unat b"
  by (rule unat_sub)

lemma unat_of_nat_less [unat_simps]: "n < 2 ^ LENGTH('a) \<Longrightarrow> unat (word_of_nat n :: 'a::len word) = n"
  by (simp add: unat_of_nat take_bit_eq_mod)

lemma unat_less_u8: "unat (b :: u8) < 256"
  using unsigned_less [of b] by simp

lemma unat_less_u16: "unat (b :: u16) < 65536"
  using unsigned_less [of b] by simp

lemma unat_less_u32: "unat (b :: u32) < 4294967296"
  using unsigned_less [of b] by simp

lemma unat_less_u64: "unat (b :: u64) < 18446744073709551616"
  using unsigned_less [of b] by simp


text \<open>Signed 32-bit numbers.\<close>

lemma sint_diff:
  assumes "sint a \<le> sint (b :: 32 word)"
  shows "int (unat (b - a)) = sint b - sint a"
proof -
  let ?d = "sint b - sint a"
  have "0 \<le> ?d" "?d < 2 ^ 32" using assms sint_lt [of b] sint_ge [of a] by simp_all
  then have "uint (word_of_int ?d :: u32) = ?d"
    unfolding uint_word_of_int by (intro mod_pos_pos_trivial) simp_all
  moreover have "word_of_int ?d = b - a" by simp
  ultimately show ?thesis by (metis uint_nat)
qed

lemma sint_nonneg: "0 \<le> sint (b :: u32) \<Longrightarrow> int (unat b) = sint b"
  using sint_diff [of 0 b] by simp

lemma sint_of_nat_small: "k < 2147483648 \<Longrightarrow> sint (word_of_nat k :: u32) = int k"
  by (simp add: signed_of_nat signed_take_bit_int_eq_self)

lemma sint_small: "unat (b :: u32) < 2147483648 \<Longrightarrow> sint b = int (unat b)"
  using sint_of_nat_small [of "unat b"] by simp

text \<open>An \<open>i32\<close> clamped to the indices below \<open>n\<close>.\<close>

lemma clamped_index:
  fixes n :: u32
  assumes t: "- (2 ^ 31) \<le> t" "t < 2 ^ 31" and n: "0 < unat n" "unat n < 2147483648"
  defines "i \<equiv> (if word_of_int t <s (0 :: u32) then 0 else word_of_int t)"
  shows "int (unat (if n \<le>s i then n - 1 else i)) = max 0 (min t (int (unat n) - 1))"
proof -
  have st: "sint (word_of_int t :: u32) = t" using t by (simp add: signed_of_int signed_take_bit_int_eq_self)
  have sn: "sint n = int (unat n)" by (rule sint_small [OF n(2)])
  have i: "sint i = max 0 t" using st by (simp add: i_def word_sless_alt)
  then have u: "int (unat i) = max 0 t" using sint_nonneg [of i] by simp
  have pred: "unat (n - 1) = unat n - 1" using n(1) by (subst unat_minus_one) auto
  have pu: "uint (n - 1) = uint n - 1" unfolding uint_nat pred using n(1) by (subst of_nat_diff) auto
  have "0 < int (unat n)" using n(1) by (simp only: of_nat_0_less_iff)
  then have "0 < uint n" by (simp only: uint_nat)
  with i u sn pu show ?thesis by (auto simp: word_sle_eq)
qed


section \<open>Bit strings\<close>

text \<open>The low \<open>n\<close> bits of a word, least significant first, and their inverse.\<close>

definition bits_of :: "'a::len word \<Rightarrow> nat \<Rightarrow> bool list" where
  "bits_of v n = map (bit v) [0..<n]"

definition of_bits :: "bool list \<Rightarrow> 'a::len word" where
  "of_bits bs = horner_sum of_bool 2 bs"

definition bytes_bits :: "u8 list \<Rightarrow> bool list" where
  "bytes_bits bs = concat (map (\<lambda>b. bits_of b 8) bs)"

lemma length_bits_of [simp]: "length (bits_of v n) = n"
  by (simp add: bits_of_def)

lemma bits_of_0 [simp]: "bits_of v 0 = []"
  by (simp add: bits_of_def)

lemma nth_bits_of [simp]: "i < n \<Longrightarrow> bits_of v n ! i = bit v i"
  by (simp add: bits_of_def)

lemma bits_of_add: "bits_of v (m + n) = bits_of v m @ bits_of (drop_bit m v) n"
proof (rule nth_equalityI)
  show "length (bits_of v (m + n)) = length (bits_of v m @ bits_of (drop_bit m v) n)" by simp
next
  fix i assume i: "i < length (bits_of v (m + n))"
  then show "bits_of v (m + n) ! i = (bits_of v m @ bits_of (drop_bit m v) n) ! i"
    by (simp add: nth_append bit_drop_bit_eq)
qed

lemma bit_of_bits: "bit (of_bits bs :: 'a::len word) i \<longleftrightarrow> i < LENGTH('a) \<and> i < length bs \<and> bs ! i"
  by (auto simp add: of_bits_def bit_horner_sum_bit_iff)

lemma of_bits_bits_of: "of_bits (bits_of v n) = take_bit n v"
  by (simp add: of_bits_def bits_of_def horner_sum_bit_eq_take_bit)

lemma of_bits_bits_of_full [simp]: "LENGTH('a) \<le> n \<Longrightarrow> of_bits (bits_of (v :: 'a::len word) n) = v"
  by (simp add: of_bits_bits_of take_bit_word_eq_self)

lemma bits_of_ucast:
  "n \<le> LENGTH('a) \<Longrightarrow> n \<le> LENGTH('b) \<Longrightarrow> bits_of (ucast (v :: 'a::len word) :: 'b::len word) n = bits_of v n"
  by (rule nth_equalityI) (auto simp: bit_simps)

lemma bits_of_cong_bit: "(\<And>i. i < n \<Longrightarrow> bit v i = bit u i) \<Longrightarrow> bits_of v n = bits_of u n"
  by (rule nth_equalityI) auto

lemma bits_of_inj_eq: "LENGTH('a) \<le> n \<Longrightarrow> bits_of (v :: 'a::len word) n = bits_of u n \<Longrightarrow> v = u"
  by (metis of_bits_bits_of_full)

lemma bytes_bits_Nil [simp]: "bytes_bits [] = []"
  by (simp add: bytes_bits_def)

lemma bytes_bits_Cons [simp]: "bytes_bits (b # bs) = bits_of b 8 @ bytes_bits bs"
  by (simp add: bytes_bits_def)

lemma bytes_bits_append [simp]: "bytes_bits (xs @ ys) = bytes_bits xs @ bytes_bits ys"
  by (simp add: bytes_bits_def)

lemma length_bytes_bits [simp]: "length (bytes_bits bs) = 8 * length bs"
  by (induction bs) auto

lemma nth_bytes_bits: "i < 8 * length bs \<Longrightarrow> bytes_bits bs ! i = bit (bs ! (i div 8)) (i mod 8)"
proof (induction bs arbitrary: i)
  case Nil
  then show ?case by simp
next
  case (Cons b bs)
  show ?case
  proof (cases "i < 8")
    case True
    then show ?thesis by (simp add: nth_append)
  next
    case False
    then obtain j where i: "i = 8 + j" by (metis le_add_diff_inverse not_less)
    with Cons.prems have "j < 8 * length bs" by simp
    moreover have "(8 + j) div 8 = Suc (j div 8)" by simp
    moreover note Cons.IH [OF calculation(1)]
    ultimately show ?thesis by (simp add: i nth_append)
  qed
qed

lemma bytes_bits_inj: "length xs = length ys \<Longrightarrow> bytes_bits xs = bytes_bits ys \<Longrightarrow> xs = ys"
  by (induction xs ys rule: list_induct2) (auto intro: bits_of_inj_eq)

lemma take_bytes_bits: "take (8 * n) (bytes_bits bs) = bytes_bits (take n bs)"
proof (induction bs arbitrary: n)
  case Nil
  then show ?case by simp
next
  case (Cons b bs)
  then show ?case by (cases n) auto
qed

lemma drop_bytes_bits: "drop (8 * n) (bytes_bits bs) = bytes_bits (drop n bs)"
proof (induction bs arbitrary: n)
  case Nil
  then show ?case by simp
next
  case (Cons b bs)
  then show ?case by (cases n) auto
qed

lemma take_Suc_update: "n < length xs \<Longrightarrow> take (Suc n) (xs[n := x]) = take n xs @ [x]"
  by (simp add: take_Suc_conv_app_nth)


section \<open>The state monad\<close>

text \<open>Running a command once per element of a list, as the source's range-based loops do.\<close>

fun for_each :: "('a \<Rightarrow> ('s, unit) state) \<Rightarrow> 'a list \<Rightarrow> ('s, unit) state" where
  "for_each f [] = State_Monad.return ()"
| "for_each f (x # xs) = do { f x; for_each f xs }"

text \<open>Reading \<open>n\<close> items in sequence, as a counted loop with \<open>push_back\<close> does.\<close>

fun repeat_read :: "nat \<Rightarrow> ('s, 'a) state \<Rightarrow> ('s, 'a list) state" where
  "repeat_read 0 m = State_Monad.return []"
| "repeat_read (Suc n) m = do { x \<leftarrow> m; xs \<leftarrow> repeat_read n m; State_Monad.return (x # xs) }"

end
