(* ===== verification/Codec.thy ===== *)
theory Codec
  imports Prelude "HOL-Library.Sublist"
begin

text \<open>
  The two interfaces of \<open>proto/bitstream.h\<close> that every message codec is a client of: a sink that
  appends fields of up to 32 bits and latches a failure when it is full, and a source that consumes
  them again and latches a failure when it runs dry. Each interface is a locale with the laws the
  provider promises; what follows from the laws for whole messages (sequences, branches and loops of
  fields) is proved here once. The interpretations are in the theory of the bit streams.
\<close>

section \<open>Sinks\<close>

locale bit_sink =
  fixes ok :: "'s \<Rightarrow> bool"
    and emitted :: "'s \<Rightarrow> bool list"
    and room :: "'s \<Rightarrow> nat"
    and failed :: "'s \<Rightarrow> bool"
    and put :: "u32 \<Rightarrow> u32 \<Rightarrow> ('s, unit) state"
  assumes put_fits:
      "ok s \<Longrightarrow> 0 < unat n \<Longrightarrow> unat n \<le> 32 \<Longrightarrow> unat n \<le> room s \<Longrightarrow> run_state (put v n) s = (u, s') \<Longrightarrow>
       ok s' \<and> emitted s' = emitted s @ bits_of v (unat n) \<and> room s' + unat n = room s \<and> failed s' = failed s"
    and put_full:
      "ok s \<Longrightarrow> 0 < unat n \<Longrightarrow> unat n \<le> 32 \<Longrightarrow> room s < unat n \<Longrightarrow> run_state (put v n) s = (u, s') \<Longrightarrow>
       ok s' \<and> emitted s' = emitted s \<and> room s' = room s \<and> failed s'"
begin

text \<open>A command emits a bit string if it appends exactly it when it fits and fails otherwise.\<close>

definition emits :: "('s, 'x) state \<Rightarrow> bool list \<Rightarrow> bool" where
  "emits m bs \<longleftrightarrow> (\<forall>s x s'. ok s \<longrightarrow> run_state m s = (x, s') \<longrightarrow>
     ok s' \<and> (failed s \<longrightarrow> failed s') \<and>
     (if length bs \<le> room s
      then emitted s' = emitted s @ bs \<and> room s' + length bs = room s \<and> failed s' = failed s
      else failed s'))"

lemma emitsI:
  assumes "\<And>s x s'. ok s \<Longrightarrow> run_state m s = (x, s') \<Longrightarrow>
     ok s' \<and> (failed s \<longrightarrow> failed s') \<and>
     (if length bs \<le> room s
      then emitted s' = emitted s @ bs \<and> room s' + length bs = room s \<and> failed s' = failed s
      else failed s')"
  shows "emits m bs"
  unfolding emits_def using assms by blast

lemma emits_step:
  assumes "emits m bs" and "ok s" and "run_state m s = (x, s')"
  shows "ok s'" and "failed s \<Longrightarrow> failed s'"
    and "length bs \<le> room s \<Longrightarrow> emitted s' = emitted s @ bs"
    and "length bs \<le> room s \<Longrightarrow> room s' + length bs = room s"
    and "length bs \<le> room s \<Longrightarrow> failed s' = failed s"
    and "room s < length bs \<Longrightarrow> failed s'"
  using assms by (auto simp: emits_def split: if_splits)

lemma emits_put: "0 < unat n \<Longrightarrow> unat n \<le> 32 \<Longrightarrow> emits (put v n) (bits_of v (unat n))"
proof (rule emitsI)
  fix s x s'
  assume n: "0 < unat n" "unat n \<le> 32" and ok: "ok s" and run: "run_state (put v n) s = (x, s')"
  show "ok s' \<and> (failed s \<longrightarrow> failed s') \<and>
     (if length (bits_of v (unat n)) \<le> room s
      then emitted s' = emitted s @ bits_of v (unat n) \<and> room s' + length (bits_of v (unat n)) = room s \<and>
           failed s' = failed s
      else failed s')"
  proof (cases "unat n \<le> room s")
    case True
    from put_fits [OF ok n True run] True show ?thesis by simp
  next
    case False
    then have "room s < unat n" by simp
    from put_full [OF ok n this run] False show ?thesis by simp
  qed
qed

lemma emits_return: "emits (State_Monad.return x) []"
  by (rule emitsI) simp

lemma emits_bind:
  assumes "emits m a" and "\<And>x. emits (f x) b"
  shows "emits (State_Monad.bind m f) (a @ b)"
proof (rule emitsI)
  fix s y s'
  assume ok: "ok s" and run: "run_state (State_Monad.bind m f) s = (y, s')"
  obtain x s1 where m: "run_state m s = (x, s1)" by (cases "run_state m s")
  with run have f: "run_state (f x) s1 = (y, s')" by simp
  note first = emits_step [OF assms(1) ok m]
  note second = emits_step [OF assms(2) first(1) f]
  show "ok s' \<and> (failed s \<longrightarrow> failed s') \<and>
     (if length (a @ b) \<le> room s
      then emitted s' = emitted s @ a @ b \<and> room s' + length (a @ b) = room s \<and> failed s' = failed s
      else failed s')"
  proof (cases "length a \<le> room s")
    case True
    with first second show ?thesis by (cases "length b \<le> room s1") auto
  next
    case False
    with first second show ?thesis by auto
  qed
qed

lemma emits_for_each:
  "(\<And>x. x \<in> set xs \<Longrightarrow> emits (f x) (g x)) \<Longrightarrow> emits (for_each f xs) (concat (map g xs))"
  by (induction xs) (auto intro: emits_return emits_bind)

lemma emits_if: "(b \<Longrightarrow> emits m x) \<Longrightarrow> (\<not> b \<Longrightarrow> emits n y) \<Longrightarrow> emits (if b then m else n) (if b then x else y)"
  by simp

lemma emits_cong: "emits m a \<Longrightarrow> a = b \<Longrightarrow> emits m b"
  by simp

end


section \<open>Sources\<close>

locale bit_source =
  fixes ok :: "'s \<Rightarrow> bool"
    and remaining :: "'s \<Rightarrow> bool list"
    and failed :: "'s \<Rightarrow> bool"
    and get :: "u32 \<Rightarrow> ('s, u32) state"
  assumes get_enough:
      "ok s \<Longrightarrow> 0 < unat n \<Longrightarrow> unat n \<le> 32 \<Longrightarrow> unat n \<le> length (remaining s) \<Longrightarrow> run_state (get n) s = (v, s') \<Longrightarrow>
       ok s' \<and> v = of_bits (take (unat n) (remaining s)) \<and> remaining s' = drop (unat n) (remaining s) \<and>
       failed s' = failed s"
    and get_short:
      "ok s \<Longrightarrow> 0 < unat n \<Longrightarrow> unat n \<le> 32 \<Longrightarrow> length (remaining s) < unat n \<Longrightarrow> run_state (get n) s = (v, s') \<Longrightarrow>
       ok s' \<and> v = 0 \<and> remaining s' = remaining s \<and> failed s'"
begin

text \<open>A command that keeps the source well-formed and never clears a latched failure.\<close>

definition safe :: "('s, 'x) state \<Rightarrow> bool" where
  "safe m \<longleftrightarrow> (\<forall>s x s'. ok s \<longrightarrow> run_state m s = (x, s') \<longrightarrow> ok s' \<and> (failed s \<longrightarrow> failed s'))"

text \<open>
  A command decodes a value from a bit string if it returns the value and consumes exactly the
  string, and if it fails on every proper prefix of the string.
\<close>

definition decodes :: "('s, 'x) state \<Rightarrow> bool list \<Rightarrow> 'x \<Rightarrow> bool" where
  "decodes m bs v \<longleftrightarrow> safe m \<and>
     (\<forall>s rest x s'. ok s \<longrightarrow> remaining s = bs @ rest \<longrightarrow> run_state m s = (x, s') \<longrightarrow>
        x = v \<and> remaining s' = rest \<and> failed s' = failed s) \<and>
     (\<forall>s x s'. ok s \<longrightarrow> strict_prefix (remaining s) bs \<longrightarrow> run_state m s = (x, s') \<longrightarrow> failed s')"

lemma safeD: "safe m \<Longrightarrow> ok s \<Longrightarrow> run_state m s = (x, s') \<Longrightarrow> ok s' \<and> (failed s \<longrightarrow> failed s')"
  by (auto simp: safe_def)

lemma safe_return: "safe (State_Monad.return x)"
  by (auto simp: safe_def)

lemma safe_bind:
  assumes "safe m" and "\<And>x. safe (f x)"
  shows "safe (State_Monad.bind m f)"
  unfolding safe_def
proof (intro allI impI)
  fix s y s'
  assume ok: "ok s" and run: "run_state (State_Monad.bind m f) s = (y, s')"
  obtain x s1 where m: "run_state m s = (x, s1)" by (cases "run_state m s")
  with run have f: "run_state (f x) s1 = (y, s')" by simp
  from safeD [OF assms(1) ok m] safeD [OF assms(2) _ f] show "ok s' \<and> (failed s \<longrightarrow> failed s')"
    by simp
qed

lemma safe_if: "(b \<Longrightarrow> safe m) \<Longrightarrow> (\<not> b \<Longrightarrow> safe n) \<Longrightarrow> safe (if b then m else n)"
  by simp

lemma safe_get: "0 < unat n \<Longrightarrow> unat n \<le> 32 \<Longrightarrow> safe (get n)"
  unfolding safe_def by (metis get_enough get_short not_less)

lemma safe_repeat: "safe m \<Longrightarrow> safe (repeat_read n m)"
  by (induction n) (auto intro: safe_bind safe_return)

lemmas safe_intros = safe_return safe_bind safe_if safe_get safe_repeat

lemma decodes_safe: "decodes m bs v \<Longrightarrow> safe m"
  by (simp add: decodes_def)

lemma decodesD:
  assumes "decodes m bs v" and "ok s" and "remaining s = bs @ rest" and "run_state m s = (x, s')"
  shows "x = v" and "remaining s' = rest" and "failed s' = failed s"
proof -
  from assms(1) have "\<forall>s rest x s'. ok s \<longrightarrow> remaining s = bs @ rest \<longrightarrow> run_state m s = (x, s') \<longrightarrow>
        x = v \<and> remaining s' = rest \<and> failed s' = failed s"
    unfolding decodes_def by (elim conjE)
  from this [rule_format, OF assms(2-4)]
  show "x = v" and "remaining s' = rest" and "failed s' = failed s" by simp_all
qed

lemma decodes_run:
  assumes "decodes m bs v" and "ok s" and "remaining s = bs @ rest"
  obtains s' where "run_state m s = (v, s')" and "ok s'" and "remaining s' = rest" and "failed s' = failed s"
proof -
  obtain x s' where run: "run_state m s = (x, s')" by (cases "run_state m s")
  note * = decodesD [OF assms run]
  have "ok s'" using safeD [OF decodes_safe [OF assms(1)] assms(2) run] by simp
  with * run that show thesis by simp
qed

lemma decodes_short:
  assumes "decodes m bs v" and "ok s" and "strict_prefix (remaining s) bs" and "run_state m s = (x, s')"
  shows "failed s'"
proof -
  from assms(1) have "\<forall>s x s'. ok s \<longrightarrow> strict_prefix (remaining s) bs \<longrightarrow> run_state m s = (x, s') \<longrightarrow> failed s'"
    unfolding decodes_def by (elim conjE)
  from this [rule_format, OF assms(2-4)] show ?thesis .
qed

lemma decodes_return: "decodes (State_Monad.return x) [] x"
  by (simp add: decodes_def safe_return)

lemma decodes_get:
  "0 < unat n \<Longrightarrow> unat n \<le> 32 \<Longrightarrow> length bs = unat n \<Longrightarrow> v = of_bits bs \<Longrightarrow> decodes (get n) bs v"
  unfolding decodes_def
proof (intro conjI allI impI)
  assume n: "0 < unat n" "unat n \<le> 32" and len: "length bs = unat n" and v: "v = of_bits bs"
  then show "safe (get n)" by (simp add: safe_get)
  fix s x s'
  assume ok: "ok s" and run: "run_state (get n) s = (x, s')"
  show "failed s'" if "strict_prefix (remaining s) bs"
    using get_short [OF ok n _ run] prefix_length_less [OF that] len by simp
  fix rest
  assume rem: "remaining s = bs @ rest"
  note * = get_enough [OF ok n _ run]
  show "x = v" and "remaining s' = rest" and "failed s' = failed s"
    using * rem len v by simp_all
qed

lemma strict_prefix_append_cases:
  assumes "strict_prefix xs (a @ b)"
  obtains "strict_prefix xs a" | rest where "xs = a @ rest" and "strict_prefix rest b"
proof -
  from assms have p: "prefix xs (a @ b)" and ne: "xs \<noteq> a @ b" by (auto simp: strict_prefix_def)
  from p consider "prefix xs a" | rest where "xs = a @ rest" "prefix rest b"
    by (auto simp: prefix_append)
  then show thesis
  proof cases
    case 1
    show thesis
    proof (cases "xs = a")
      case True
      with ne have "xs = a @ []" and "strict_prefix [] b" by (auto simp: strict_prefix_def)
      then show ?thesis by (rule that(2))
    next
      case False
      with 1 have "strict_prefix xs a" by (simp add: strict_prefix_def)
      then show ?thesis by (rule that(1))
    qed
  next
    case (2 rest)
    with ne have "strict_prefix rest b" by (auto simp: strict_prefix_def)
    with 2(1) show thesis by (rule that(2))
  qed
qed

lemma decodes_bind:
  assumes m: "decodes m a v" and f: "decodes (f v) b w" and safe: "\<And>x. safe (f x)"
  shows "decodes (State_Monad.bind m f) (a @ b) w"
  unfolding decodes_def
proof (intro conjI allI impI)
  show "safe (State_Monad.bind m f)" by (rule safe_bind [OF decodes_safe [OF m] safe])
  fix s y s'
  assume ok: "ok s" and run: "run_state (State_Monad.bind m f) s = (y, s')"
  obtain x s1 where s1: "run_state m s = (x, s1)" by (cases "run_state m s")
  with run have s2: "run_state (f x) s1 = (y, s')" by simp
  have ok1: "ok s1" using safeD [OF decodes_safe [OF m] ok s1] by simp
  show "failed s'" if "strict_prefix (remaining s) (a @ b)"
    using that
  proof (cases rule: strict_prefix_append_cases)
    case 1
    then have "failed s1" by (rule decodes_short [OF m ok _ s1])
    with safeD [OF safe ok1 s2] show ?thesis by simp
  next
    case (2 rest)
    note * = decodesD [OF m ok 2(1) s1]
    with 2(2) s2 show ?thesis by (intro decodes_short [OF f ok1]) simp_all
  qed
  fix rest
  assume rem: "remaining s = (a @ b) @ rest"
  then have "remaining s = a @ b @ rest" by simp
  note 1 = decodesD [OF m ok this s1]
  note 2 = decodesD [OF f ok1 1(2) s2 [unfolded 1(1)]]
  with 1 show "y = w" and "remaining s' = rest" and "failed s' = failed s" by simp_all
qed

lemma decodes_map:
  "decodes m a v \<Longrightarrow> w = g v \<Longrightarrow> decodes (State_Monad.bind m (\<lambda>x. State_Monad.return (g x))) a w"
  using decodes_bind [of m a v "\<lambda>x. State_Monad.return (g x)" "[]" w] decodes_return [of w]
  by (simp add: safe_return)

lemma decodes_repeat:
  "(\<And>x. x \<in> set xs \<Longrightarrow> decodes m (g x) x) \<Longrightarrow> safe m \<Longrightarrow>
   decodes (repeat_read (length xs) m) (concat (map g xs)) xs"
proof (induction xs)
  case Nil
  then show ?case by (simp add: decodes_return)
next
  case (Cons x xs)
  then have "decodes (repeat_read (length xs) m) (concat (map g xs)) xs" by simp
  from decodes_map [OF this refl, of "(#) x"] Cons.prems show ?case
    by (auto intro!: decodes_bind safe_intros)
qed

text \<open>
  Commands that look at the failure flag themselves decode only from a source that has not failed.
\<close>

definition parses :: "('s, 'x) state \<Rightarrow> bool list \<Rightarrow> 'x \<Rightarrow> bool" where
  "parses m bs v \<longleftrightarrow> (\<forall>s rest x s'. ok s \<longrightarrow> \<not> failed s \<longrightarrow> remaining s = bs @ rest \<longrightarrow> run_state m s = (x, s') \<longrightarrow>
     x = v \<and> ok s' \<and> \<not> failed s' \<and> remaining s' = rest)"

lemma parsesD:
  assumes "parses m bs v" and "ok s" and "\<not> failed s" and "remaining s = bs @ rest" and "run_state m s = (x, s')"
  shows "x = v" and "ok s'" and "\<not> failed s'" and "remaining s' = rest"
  using assms(1) [unfolded parses_def, rule_format, OF assms(2-5)] by simp_all

lemma parses_run:
  assumes "parses m bs v" and "ok s" and "\<not> failed s" and "remaining s = bs @ rest"
  obtains s' where "run_state m s = (v, s')" and "ok s'" and "\<not> failed s'" and "remaining s' = rest"
proof -
  obtain x s' where run: "run_state m s = (x, s')" by (cases "run_state m s")
  from parsesD [OF assms run] run that show thesis by simp
qed

lemma parses_decodes: "decodes m bs v \<Longrightarrow> parses m bs v"
  unfolding parses_def
proof (intro allI impI)
  fix s rest x s'
  assume m: "decodes m bs v" and s: "ok s" "\<not> failed s" "remaining s = bs @ rest" "run_state m s = (x, s')"
  from decodesD [OF m s(1,3,4)] safeD [OF decodes_safe [OF m] s(1,4)] s(2)
  show "x = v \<and> ok s' \<and> \<not> failed s' \<and> remaining s' = rest" by simp
qed

lemma parses_bind:
  assumes m: "parses m a v" and f: "parses (f v) b w"
  shows "parses (State_Monad.bind m f) (a @ b) w"
  unfolding parses_def
proof (intro allI impI)
  fix s rest y s'
  assume s: "ok s" "\<not> failed s" and rem: "remaining s = (a @ b) @ rest"
    and run: "run_state (State_Monad.bind m f) s = (y, s')"
  obtain x s1 where s1: "run_state m s = (x, s1)" by (cases "run_state m s")
  have "remaining s = a @ b @ rest" using rem by simp
  note 1 = parsesD [OF m s this s1]
  have "run_state (f v) s1 = (y, s')" using run s1 1(1) by simp
  from parsesD [OF f 1(2,3,4) this] show "y = w \<and> ok s' \<and> \<not> failed s' \<and> remaining s' = rest" by simp
qed

lemma parses_return: "parses (State_Monad.return x) [] x"
  by (simp add: parses_def)

end


section \<open>Sources whose clients check the failure flag\<close>

text \<open>
  A decoder ends with a look at the failure flag and reports nothing when it is set. Composed of fields
  and such checks it accepts exactly whole messages.
\<close>

locale checked_source = bit_source +
  fixes flag :: "('a, bool) state"
  assumes flag: "run_state flag s = (failed s, s)"
begin

definition guarded :: "('a, 'x option) state \<Rightarrow> bool" where
  "guarded m \<longleftrightarrow> (\<forall>s x s'. ok s \<longrightarrow> failed s \<longrightarrow> run_state m s = (x, s') \<longrightarrow> x = None)"

definition frames :: "('a, 'x option) state \<Rightarrow> bool list \<Rightarrow> 'x \<Rightarrow> bool" where
  "frames m bs v \<longleftrightarrow>
     (\<forall>s rest x s'. ok s \<longrightarrow> \<not> failed s \<longrightarrow> remaining s = bs @ rest \<longrightarrow> run_state m s = (x, s') \<longrightarrow> x = Some v) \<and>
     (\<forall>s x s'. ok s \<longrightarrow> strict_prefix (remaining s) bs \<longrightarrow> run_state m s = (x, s') \<longrightarrow> x = None)"

lemma guardedD: "guarded m \<Longrightarrow> ok s \<Longrightarrow> failed s \<Longrightarrow> run_state m s = (x, s') \<Longrightarrow> x = None"
  unfolding guarded_def by blast

lemma framesD: "frames m bs v \<Longrightarrow> ok s \<Longrightarrow> \<not> failed s \<Longrightarrow> remaining s = bs @ rest \<Longrightarrow> fst (run_state m s) = Some v"
  unfolding frames_def by (cases "run_state m s") simp

lemma frames_truncated: "frames m bs v \<Longrightarrow> ok s \<Longrightarrow> strict_prefix (remaining s) bs \<Longrightarrow> fst (run_state m s) = None"
  unfolding frames_def by (cases "run_state m s") simp

lemma guarded_none: "guarded (State_Monad.return None)"
  by (auto simp: guarded_def)

lemma guarded_if: "(b \<Longrightarrow> guarded m) \<Longrightarrow> (\<not> b \<Longrightarrow> guarded n) \<Longrightarrow> guarded (if b then m else n)"
  by simp

lemma guarded_check: "guarded (f True) \<Longrightarrow> guarded (State_Monad.bind flag f)"
  unfolding guarded_def by (auto simp: flag)

lemma guarded_bind:
  assumes "safe m" and "\<And>x. guarded (f x)"
  shows "guarded (State_Monad.bind m f)"
  unfolding guarded_def
proof (intro allI impI)
  fix s y s'
  assume s: "ok s" "failed s" and run: "run_state (State_Monad.bind m f) s = (y, s')"
  obtain x s1 where m: "run_state m s = (x, s1)" by (cases "run_state m s")
  with run have "run_state (f x) s1 = (y, s')" by simp
  with safeD [OF assms(1) s(1) m] s(2) show "y = None" by (intro guardedD [OF assms(2)]) simp_all
qed

lemma frames_bind:
  assumes m: "decodes m a v" and f: "frames (f v) b w" and g: "\<And>x. guarded (f x)"
  shows "frames (State_Monad.bind m f) (a @ b) w"
  unfolding frames_def
proof (intro conjI allI impI)
  fix s y s'
  assume ok: "ok s" and run: "run_state (State_Monad.bind m f) s = (y, s')"
  obtain x s1 where s1: "run_state m s = (x, s1)" by (cases "run_state m s")
  with run have s2: "run_state (f x) s1 = (y, s')" by simp
  have ok1: "ok s1" using safeD [OF decodes_safe [OF m] ok s1] by simp
  show "y = None" if "strict_prefix (remaining s) (a @ b)"
    using that
  proof (cases rule: strict_prefix_append_cases)
    case 1
    then have "failed s1" by (rule decodes_short [OF m ok _ s1])
    with g ok1 s2 show ?thesis by (intro guardedD) simp_all
  next
    case (2 rest)
    note * = decodesD [OF m ok 2(1) s1]
    with 2(2) s2 frames_truncated [OF f ok1] show ?thesis by simp
  qed
  fix rest
  assume nf: "\<not> failed s" and rem: "remaining s = (a @ b) @ rest"
  then have "remaining s = a @ b @ rest" by simp
  note 1 = decodesD [OF m ok this s1]
  from framesD [OF f ok1] 1 nf s2 show "y = Some w" by simp
qed

lemma frames_check:
  assumes "frames (f False) bs w" and "guarded (f True)"
  shows "frames (State_Monad.bind flag f) bs w"
  unfolding frames_def
proof (intro conjI allI impI)
  fix s x s'
  assume ok: "ok s" and run: "run_state (State_Monad.bind flag f) s = (x, s')"
  then have run': "run_state (f (failed s)) s = (x, s')" by (simp add: flag)
  show "x = None" if "strict_prefix (remaining s) bs"
    using frames_truncated [OF assms(1) ok that] guardedD [OF assms(2) ok] run' by (cases "failed s") auto
  fix rest
  assume "\<not> failed s" and "remaining s = bs @ rest"
  with framesD [OF assms(1) ok] run' show "x = Some w" by simp
qed

lemma frames_done: "v = Some w \<Longrightarrow> frames (State_Monad.return v) [] w"
  by (auto simp: frames_def)

end

end
