(* ===== verification/Bitstream.thy ===== *)
theory Bitstream
  imports Codec
begin

text \<open>
  \<open>proto/bitstream.h\<close>: the bit writer over a caller-owned buffer, the bit reader that mirrors it,
  and the field encodings built on them (fixed widths, ranged integers, varints, strings, byte
  blocks). The writer is shown to implement appending to a bit string without ever storing past its
  capacity; the reader consumes that string again.
\<close>

section \<open>The writer\<close>

record bit_writer =
  bw_buffer :: "u8 list"
  bw_capacity_bits :: u32
  bw_bit_pos :: u32
  bw_accumulator :: u64
  bw_pending_bits :: u32
  bw_flushed_bytes :: u32
  bw_overflow :: bool

definition mk_writer :: "u8 list \<Rightarrow> u32 \<Rightarrow> bit_writer" where
  "mk_writer buffer capacity =
     \<lparr>bw_buffer = buffer, bw_capacity_bits = capacity * 8, bw_bit_pos = 0, bw_accumulator = 0,
      bw_pending_bits = 0, bw_flushed_bytes = 0, bw_overflow = False\<rparr>"

text \<open>The loop of \<open>write_bits\<close> that moves complete bytes from the accumulator to the buffer.\<close>

function flush_bytes :: "u8 list \<Rightarrow> u64 \<Rightarrow> u32 \<Rightarrow> u32 \<Rightarrow> u8 list \<times> u64 \<times> u32 \<times> u32" where
  "flush_bytes buffer accumulator pending flushed =
     (if 8 \<le> pending
      then flush_bytes (buffer[unat flushed := ucast accumulator]) (drop_bit 8 accumulator)
             (pending - 8) (flushed + 1)
      else (buffer, accumulator, pending, flushed))"
  by pat_completeness auto
termination
  by (relation "measure (\<lambda>(b, a, p, f). unat p)") (auto simp: unat_sub_le word_le_nat_alt)

declare flush_bytes.simps [simp del]

definition bw_write_bits :: "u32 \<Rightarrow> u32 \<Rightarrow> bit_writer \<Rightarrow> bit_writer" where
  "bw_write_bits value bits w =
     (if bits = 0 then w
      else if bw_bit_pos w + bits > bw_capacity_bits w then w\<lparr>bw_overflow := True\<rparr>
      else
        let value = (if bits < 32 then value AND (push_bit (unat bits) 1 - 1) else value);
            (buffer, accumulator, pending, flushed) =
              flush_bytes (bw_buffer w)
                (bw_accumulator w OR push_bit (unat (bw_pending_bits w)) (ucast value))
                (bw_pending_bits w + bits) (bw_flushed_bytes w)
        in w\<lparr>bw_buffer := buffer, bw_accumulator := accumulator, bw_pending_bits := pending,
             bw_flushed_bytes := flushed, bw_bit_pos := bw_bit_pos w + bits\<rparr>)"

definition write_bits :: "u32 \<Rightarrow> u32 \<Rightarrow> (bit_writer, unit) state" where
  "write_bits value bits = State (\<lambda>w. ((), bw_write_bits value bits w))"

definition write_bool :: "bool \<Rightarrow> (bit_writer, unit) state" where
  "write_bool value = write_bits (if value then 1 else 0) 1"

definition write_u8 :: "u8 \<Rightarrow> (bit_writer, unit) state" where
  "write_u8 value = write_bits (ucast value) 8"

definition write_u16 :: "u16 \<Rightarrow> (bit_writer, unit) state" where
  "write_u16 value = write_bits (ucast value) 16"

definition write_u32 :: "u32 \<Rightarrow> (bit_writer, unit) state" where
  "write_u32 value = write_bits value 32"

definition write_u64 :: "u64 \<Rightarrow> (bit_writer, unit) state" where
  "write_u64 value = do {
     write_bits (ucast (value AND 0xffffffff)) 32;
     write_bits (ucast (drop_bit 32 value)) 32 }"

definition write_float :: "f32 \<Rightarrow> (bit_writer, unit) state" where
  "write_float value = write_bits value 32"

text \<open>\<open>bits_required\<close>: the range is computed in 64 bits and then cast to 32.\<close>

function count_bits :: "u32 \<Rightarrow> u32 \<Rightarrow> u32" where
  "count_bits rng bits = (if rng > 0 then count_bits (drop_bit 1 rng) (bits + 1) else bits)"
  by pat_completeness auto
termination
proof (relation "measure (\<lambda>(r, b). unat r)", goal_cases)
  case (2 rng bits)
  then have "0 < unat rng" by (simp add: word_less_nat_alt)
  then show ?case by (simp add: drop_bit_eq_div unat_div)
qed simp

declare count_bits.simps [simp del]

definition bits_required :: "32 word \<Rightarrow> 32 word \<Rightarrow> u32" where
  "bits_required mn mx =
     (let rng = word_of_int (sint mx - sint mn);
          bits = count_bits rng 0
      in if bits = 0 then 1 else bits)"

text \<open>The \<open>i32\<close> arguments are words compared as signed numbers.\<close>

definition write_ranged :: "32 word \<Rightarrow> 32 word \<Rightarrow> 32 word \<Rightarrow> (bit_writer, unit) state" where
  "write_ranged value mn mx =
     (let bits = bits_required mn mx;
          value = (if value <s mn then mn else value);
          value = (if mx <s value then mx else value)
      in write_bits (value - mn) bits)"

function write_varint :: "u32 \<Rightarrow> (bit_writer, unit) state" where
  "write_varint value =
     (if 0x80 \<le> value
      then do { write_bits ((value AND 0x7f) OR 0x80) 8; write_varint (drop_bit 7 value) }
      else write_bits (value AND 0x7f) 8)"
  by pat_completeness auto
termination
proof (relation "measure unat", goal_cases)
  case (2 v)
  then have "0 < unat v" by (simp add: word_le_nat_alt)
  then show ?case by (simp add: drop_bit_eq_div unat_div)
qed simp

declare write_varint.simps [simp del]

text \<open>A \<open>std::string\<close> is its list of bytes.\<close>

definition write_string :: "u8 list \<Rightarrow> (bit_writer, unit) state" where
  "write_string value =
     (let len = (if length value > 1023 then 1023 else length value)
      in do { write_varint (word_of_nat len); for_each write_u8 (take len value) })"

text \<open>\<open>memcpy\<close> into the buffer at an offset.\<close>

definition copy_into :: "'a list \<Rightarrow> nat \<Rightarrow> 'a list \<Rightarrow> 'a list" where
  "copy_into dst i src = take i dst @ src @ drop (i + length src) dst"

definition write_bytes :: "u8 list \<Rightarrow> u32 \<Rightarrow> (bit_writer, unit) state" where
  "write_bytes data count = do {
     w \<leftarrow> State_Monad.get;
     if bw_pending_bits w \<noteq> 0 then for_each write_u8 (take (unat count) data)
     else if ucast (bw_bit_pos w) + ucast count * 8 > (ucast (bw_capacity_bits w) :: u64)
     then State_Monad.set (w\<lparr>bw_overflow := True\<rparr>)
     else State_Monad.set (w\<lparr>
       bw_buffer := copy_into (bw_buffer w) (unat (bw_flushed_bytes w)) (take (unat count) data),
       bw_flushed_bytes := bw_flushed_bytes w + count,
       bw_bit_pos := bw_bit_pos w + count * 8\<rparr>) }"

definition write_align :: "(bit_writer, unit) state" where
  "write_align = do {
     w \<leftarrow> State_Monad.get;
     let rem = bw_bit_pos w AND 7;
     if rem \<noteq> 0 then write_bits 0 (8 - rem) else State_Monad.return () }"

definition bw_bits_remaining :: "bit_writer \<Rightarrow> u32" where
  "bw_bits_remaining w = bw_capacity_bits w - bw_bit_pos w"

text \<open>\<open>bytes_written\<close> stores the trailing partial byte and returns the length in bytes.\<close>

definition bytes_written :: "(bit_writer, u32) state" where
  "bytes_written = do {
     w \<leftarrow> State_Monad.get;
     (if bw_pending_bits w > 0
      then State_Monad.set (w\<lparr>bw_buffer := (bw_buffer w)[unat (bw_flushed_bytes w) := ucast (bw_accumulator w)]\<rparr>)
      else State_Monad.return ());
     State_Monad.return (bw_flushed_bytes w + (if bw_pending_bits w > 0 then 1 else 0)) }"


section \<open>The reader\<close>

record bit_reader =
  br_buffer :: "u8 list"
  br_capacity_bits :: u32
  br_bit_pos :: u32
  br_overflow :: bool

definition mk_reader :: "u8 list \<Rightarrow> u32 \<Rightarrow> bit_reader" where
  "mk_reader buffer len =
     \<lparr>br_buffer = buffer, br_capacity_bits = len * 8, br_bit_pos = 0, br_overflow = False\<rparr>"

lemma and_7_u32: "unat ((x :: u32) AND 7) = unat x mod 8"
proof -
  have "x AND 7 = take_bit 3 x" by (simp add: take_bit_eq_mask mask_eq_exp_minus_1)
  then show ?thesis by (simp add: take_bit_eq_mod unat_mod)
qed

function read_loop :: "u8 list \<Rightarrow> u32 \<Rightarrow> u32 \<Rightarrow> u32 \<Rightarrow> u32 \<Rightarrow> u32 \<times> u32" where
  "read_loop buffer bit_pos remaining written result =
     (if remaining > 0
      then
        let byte_index = drop_bit 3 bit_pos;
            bit_offset = bit_pos AND 7;
            avail_in_byte = 8 - bit_offset;
            tk = (if remaining < avail_in_byte then remaining else avail_in_byte);
            chunk = drop_bit (unat bit_offset) (ucast (buffer ! unat byte_index)) AND
                      (push_bit (unat tk) 1 - 1)
        in read_loop buffer (bit_pos + tk) (remaining - tk) (written + tk)
             (result OR push_bit (unat written) chunk)
      else (result, bit_pos))"
  by pat_completeness auto
termination
proof (relation "measure (\<lambda>(b, p, r, w, x). unat r)", goal_cases)
  case 1
  then show ?case by simp
next
  case (2 b p r w x bi bo av tk ch)
  have "unat bo < 8" using 2(3) by (simp add: and_7_u32)
  then have "unat av = 8 - unat bo" using 2(4) by (simp add: unat_sub_le word_le_nat_alt)
  then have "0 < unat tk" and "tk \<le> r" using 2(1,5) \<open>unat bo < 8\<close>
    by (auto simp: word_less_nat_alt word_le_nat_alt)
  then show ?case by (simp add: unat_sub_le word_le_nat_alt)
qed

declare read_loop.simps [simp del]

definition br_read_bits :: "u32 \<Rightarrow> bit_reader \<Rightarrow> u32 \<times> bit_reader" where
  "br_read_bits bits r =
     (if bits = 0 then (0, r)
      else if br_bit_pos r + bits > br_capacity_bits r then (0, r\<lparr>br_overflow := True\<rparr>)
      else
        let (result, bit_pos) = read_loop (br_buffer r) (br_bit_pos r) bits 0 0
        in (result, r\<lparr>br_bit_pos := bit_pos\<rparr>))"

definition read_bits :: "u32 \<Rightarrow> (bit_reader, u32) state" where
  "read_bits bits = State (br_read_bits bits)"

definition read_bool :: "(bit_reader, bool) state" where
  "read_bool = do { b \<leftarrow> read_bits 1; State_Monad.return (b \<noteq> 0) }"

definition read_u8 :: "(bit_reader, u8) state" where
  "read_u8 = do { b \<leftarrow> read_bits 8; State_Monad.return (ucast b) }"

definition read_u16 :: "(bit_reader, u16) state" where
  "read_u16 = do { b \<leftarrow> read_bits 16; State_Monad.return (ucast b) }"

definition read_u32 :: "(bit_reader, u32) state" where
  "read_u32 = read_bits 32"

definition read_u64 :: "(bit_reader, u64) state" where
  "read_u64 = do {
     low \<leftarrow> read_bits 32;
     high \<leftarrow> read_bits 32;
     State_Monad.return (ucast low OR push_bit 32 (ucast high)) }"

definition read_float :: "(bit_reader, f32) state" where
  "read_float = read_bits 32"

definition read_ranged :: "32 word \<Rightarrow> 32 word \<Rightarrow> (bit_reader, 32 word) state" where
  "read_ranged mn mx = do { v \<leftarrow> read_bits (bits_required mn mx); State_Monad.return (v + mn) }"

fun read_varint_loop :: "nat \<Rightarrow> u32 \<Rightarrow> nat \<Rightarrow> (bit_reader, u32) state" where
  "read_varint_loop 0 result shift = State_Monad.return result"
| "read_varint_loop (Suc i) result shift = do {
     byte \<leftarrow> read_bits 8;
     let result = result OR push_bit shift (byte AND 0x7f);
     if byte AND 0x80 = 0 then State_Monad.return result
     else read_varint_loop i result (shift + 7) }"

definition read_varint :: "(bit_reader, u32) state" where
  "read_varint = read_varint_loop 5 0 0"

definition set_overflow :: "(bit_reader, unit) state" where
  "set_overflow = State (\<lambda>r. ((), r\<lparr>br_overflow := True\<rparr>))"

definition read_string :: "(bit_reader, u8 list) state" where
  "read_string = do {
     len \<leftarrow> read_varint;
     if len > 1023 then do { set_overflow; State_Monad.return [] }
     else repeat_read (unat len) read_u8 }"

text \<open>\<open>read_bytes\<close> fills a caller-owned array whose old contents survive a refused copy.\<close>

definition read_bytes :: "u8 list \<Rightarrow> u32 \<Rightarrow> (bit_reader, u8 list) state" where
  "read_bytes out count = do {
     r \<leftarrow> State_Monad.get;
     if br_bit_pos r AND 7 \<noteq> 0 then repeat_read (unat count) read_u8
     else if ucast (br_bit_pos r) + ucast count * 8 > (ucast (br_capacity_bits r) :: u64)
     then do { set_overflow; State_Monad.return out }
     else do {
       State_Monad.set (r\<lparr>br_bit_pos := br_bit_pos r + count * 8\<rparr>);
       State_Monad.return (take (unat count) (drop (unat (drop_bit 3 (br_bit_pos r))) (br_buffer r))) } }"

definition read_align :: "(bit_reader, unit) state" where
  "read_align = do {
     r \<leftarrow> State_Monad.get;
     let rem = br_bit_pos r AND 7;
     if rem \<noteq> 0 then do { _ \<leftarrow> read_bits (8 - rem); State_Monad.return () } else State_Monad.return () }"

definition read_overflowed :: "(bit_reader, bool) state" where
  "read_overflowed = State (\<lambda>r. (br_overflow r, r))"

definition bytes_read :: "bit_reader \<Rightarrow> u32" where
  "bytes_read r = drop_bit 3 (br_bit_pos r + 7)"


section \<open>The writer appends to a bit string\<close>

definition bw_wf :: "bit_writer \<Rightarrow> bool" where
  "bw_wf w \<longleftrightarrow>
     unat (bw_pending_bits w) < 8 \<and>
     unat (bw_bit_pos w) = 8 * unat (bw_flushed_bytes w) + unat (bw_pending_bits w) \<and>
     unat (bw_bit_pos w) \<le> unat (bw_capacity_bits w) \<and>
     unat (bw_capacity_bits w) \<le> 8 * length (bw_buffer w) \<and>
     8 dvd unat (bw_capacity_bits w) \<and>
     unat (bw_capacity_bits w) < 2147483648 \<and>
     drop_bit (unat (bw_pending_bits w)) (bw_accumulator w) = 0"

definition bw_bits :: "bit_writer \<Rightarrow> bool list" where
  "bw_bits w = bytes_bits (take (unat (bw_flushed_bytes w)) (bw_buffer w)) @
     bits_of (bw_accumulator w) (unat (bw_pending_bits w))"

definition bw_room :: "bit_writer \<Rightarrow> nat" where
  "bw_room w = unat (bw_capacity_bits w) - unat (bw_bit_pos w)"

lemma drop_update_safe: "i < k \<Longrightarrow> drop k (xs[i := x]) = drop k xs"
  by (simp add: drop_update_swap)

lemma flush_bytes_spec:
  assumes "flush_bytes buf acc pend fl = (buf', acc', pend', fl')"
    and "8 * unat fl + unat pend \<le> 8 * k" and "k \<le> length buf" and "8 * k < 4294967296"
    and "drop_bit (unat pend) acc = 0"
  shows "unat pend' < 8 \<and> 8 * unat fl' + unat pend' = 8 * unat fl + unat pend \<and>
    bytes_bits (take (unat fl') buf') @ bits_of acc' (unat pend') =
      bytes_bits (take (unat fl) buf) @ bits_of acc (unat pend) \<and>
    length buf' = length buf \<and> drop k buf' = drop k buf \<and> drop_bit (unat pend') acc' = 0"
  using assms
proof (induction buf acc pend fl arbitrary: buf' acc' pend' fl' rule: flush_bytes.induct)
  case (1 buf acc pend fl)
  show ?case
  proof (cases "8 \<le> pend")
    case False
    with "1.prems" show ?thesis by (simp add: flush_bytes.simps [of buf] word_le_nat_alt)
  next
    case True
    then have p: "unat (pend - 8) = unat pend - 8" and p8: "8 \<le> unat pend"
      by (simp_all add: unat_sub_le word_le_nat_alt)
    have f: "unat (fl + 1) = unat fl + 1"
      using "1.prems"(2,4) p8 by (subst unat_add_u32) simp_all
    have fk: "unat fl < k" using "1.prems"(2) p8 by linarith
    have run: "flush_bytes (buf[unat fl := ucast acc]) (drop_bit 8 acc) (pend - 8) (fl + 1) =
        (buf', acc', pend', fl')"
      using "1.prems"(1) True by (simp add: flush_bytes.simps [of buf])
    have "drop_bit (unat (pend - 8)) (drop_bit 8 acc) = 0"
      using "1.prems"(5) p8 by (simp add: p drop_bit_drop_bit)
    note IH = "1.IH" [OF True run _ _ "1.prems"(4) this]
    have "bits_of acc (unat pend) = bits_of acc 8 @ bits_of (drop_bit 8 acc) (unat pend - 8)"
      using p8 bits_of_add [of acc 8 "unat pend - 8"] by simp
    moreover have "bits_of (ucast acc :: u8) 8 = bits_of acc 8" by (simp add: bits_of_ucast)
    moreover have "take (unat (fl + 1)) (buf[unat fl := ucast acc]) = take (unat fl) buf @ [ucast acc]"
      using fk "1.prems"(3) by (simp add: f take_Suc_update)
    ultimately show ?thesis
      using IH "1.prems"(2,3) fk p8 by (simp add: p f drop_update_safe)
  qed
qed

lemma append_accumulator:
  assumes "drop_bit p (acc :: u64) = 0" and "p + n \<le> 64" and "n \<le> 32"
  shows "bits_of (acc OR push_bit p (ucast (v :: u32))) (p + n) = bits_of acc p @ bits_of v n"
proof (rule nth_equalityI)
  show "length (bits_of (acc OR push_bit p (ucast v)) (p + n)) = length (bits_of acc p @ bits_of v n)"
    by simp
next
  fix i assume "i < length (bits_of (acc OR push_bit p (ucast v)) (p + n))"
  then have i: "i < p + n" by simp
  have hi: "\<not> bit acc j" if "p \<le> j" for j
  proof -
    have "bit (drop_bit p acc) (j - p) = bit acc j" using that by (simp add: bit_drop_bit_eq)
    then show ?thesis using assms(1) by simp
  qed
  show "bits_of (acc OR push_bit p (ucast v)) (p + n) ! i = (bits_of acc p @ bits_of v n) ! i"
    using i assms(2,3) hi by (auto simp: nth_append bit_simps)
qed

lemma accumulator_bound:
  assumes "drop_bit p (acc :: u64) = 0" and "n \<le> 32"
  shows "drop_bit (p + n) (acc OR push_bit p (ucast (take_bit n v :: u32))) = 0"
proof (rule bit_eqI)
  fix i
  have hi: "\<not> bit acc j" if "p \<le> j" for j
  proof -
    have "bit (drop_bit p acc) (j - p) = bit acc j" using that by (simp add: bit_drop_bit_eq)
    then show ?thesis using assms(1) by simp
  qed
  show "bit (drop_bit (p + n) (acc OR push_bit p (ucast (take_bit n v)))) i = bit (0 :: u64) i"
    using hi [of "p + n + i"] by (auto simp: bit_simps)
qed

lemma mask_bits: "(v :: u32) AND (2 ^ n - 1) = take_bit n v"
  by (simp add: take_bit_eq_mask mask_eq_exp_minus_1)

lemma bits_of_take_bit: "bits_of (take_bit n v) n = bits_of v n"
  by (rule bits_of_cong_bit) (simp add: bit_take_bit_iff)

lemma write_bits_value:
  "unat (n :: u32) \<le> 32 \<Longrightarrow> (if n < 32 then v AND (push_bit (unat n) 1 - 1) else v) = take_bit (unat n) (v :: u32)"
  by (auto simp: mask_bits word_less_nat_alt take_bit_word_eq_self)

lemma bw_write_bits_fits:
  assumes wf: "bw_wf w" and n: "0 < unat n" "unat n \<le> 32" and room: "unat n \<le> bw_room w"
  shows "bw_wf (bw_write_bits v n w)"
    and "bw_bits (bw_write_bits v n w) = bw_bits w @ bits_of v (unat n)"
    and "bw_room (bw_write_bits v n w) + unat n = bw_room w"
    and "bw_overflow (bw_write_bits v n w) = bw_overflow w"
    and "bw_capacity_bits (bw_write_bits v n w) = bw_capacity_bits w"
    and "drop (unat (bw_capacity_bits w) div 8) (bw_buffer (bw_write_bits v n w)) =
         drop (unat (bw_capacity_bits w) div 8) (bw_buffer w)"
proof -
  let ?p = "unat (bw_pending_bits w)" and ?k = "unat (bw_capacity_bits w) div 8"
  let ?acc = "bw_accumulator w OR push_bit ?p (ucast (take_bit (unat n) v))"
  obtain buf acc pend fl where run: "flush_bytes (bw_buffer w) ?acc (bw_pending_bits w + n)
      (bw_flushed_bytes w) = (buf, acc, pend, fl)" by (metis prod_cases4)
  have pend: "unat (bw_pending_bits w + n) = ?p + unat n"
    using wf n by (subst unat_add_u32) (auto simp: bw_wf_def)
  have pos: "unat (bw_bit_pos w + n) = unat (bw_bit_pos w) + unat n"
    using wf n room by (subst unat_add_u32) (auto simp: bw_wf_def bw_room_def)
  have "drop_bit ?p (bw_accumulator w) = 0" using wf by (simp add: bw_wf_def)
  from accumulator_bound [OF this n(2), of v] append_accumulator [OF this _ n(2), of "take_bit (unat n) v"]
  have acc: "drop_bit (unat (bw_pending_bits w + n)) ?acc = 0"
      "bits_of ?acc (?p + unat n) = bits_of (bw_accumulator w) ?p @ bits_of v (unat n)"
    using wf n by (simp_all add: pend bits_of_take_bit bw_wf_def)
  have k: "8 * unat (bw_flushed_bytes w) + unat (bw_pending_bits w + n) \<le> 8 * ?k"
      "?k \<le> length (bw_buffer w)" "8 * ?k < 4294967296"
    using wf room by (auto simp: pend bw_wf_def bw_room_def)
  note spec = flush_bytes_spec [OF run k acc(1)]
  have eq: "bw_write_bits v n w = w\<lparr>bw_buffer := buf, bw_accumulator := acc, bw_pending_bits := pend,
      bw_flushed_bytes := fl, bw_bit_pos := bw_bit_pos w + n\<rparr>"
  proof -
    have "n \<noteq> 0" and "\<not> bw_bit_pos w + n > bw_capacity_bits w"
      using n room wf pos by (auto simp: word_less_nat_alt bw_room_def bw_wf_def)
    then show ?thesis
      unfolding bw_write_bits_def Let_def write_bits_value [OF n(2)] by (simp add: run)
  qed
  show "bw_wf (bw_write_bits v n w)"
    and "bw_bits (bw_write_bits v n w) = bw_bits w @ bits_of v (unat n)"
    and "bw_room (bw_write_bits v n w) + unat n = bw_room w"
    and "bw_overflow (bw_write_bits v n w) = bw_overflow w"
    and "bw_capacity_bits (bw_write_bits v n w) = bw_capacity_bits w"
    and "drop ?k (bw_buffer (bw_write_bits v n w)) = drop ?k (bw_buffer w)"
    using spec wf room n pos acc(2)
    by (auto simp: eq bw_wf_def bw_room_def bw_bits_def pend)
qed

lemma bw_write_bits_full:
  assumes "bw_wf w" and "0 < unat n" "unat n \<le> 32" and "bw_room w < unat n"
  shows "bw_write_bits v n w = w\<lparr>bw_overflow := True\<rparr>"
proof -
  have "unat (bw_bit_pos w + n) = unat (bw_bit_pos w) + unat n"
    using assms by (subst unat_add_u32) (auto simp: bw_wf_def)
  then show ?thesis
    using assms by (auto simp: bw_write_bits_def word_less_nat_alt bw_room_def)
qed

lemma bw_wf_overflow [simp]: "bw_wf (w\<lparr>bw_overflow := b\<rparr>) = bw_wf w"
  and bw_bits_overflow [simp]: "bw_bits (w\<lparr>bw_overflow := b\<rparr>) = bw_bits w"
  and bw_room_overflow [simp]: "bw_room (w\<lparr>bw_overflow := b\<rparr>) = bw_room w"
  by (simp_all add: bw_wf_def bw_bits_def bw_room_def)

interpretation bw: bit_sink bw_wf bw_bits bw_room bw_overflow write_bits
proof (unfold_locales, goal_cases)
  case (1 s n v u s')
  then show ?case by (auto simp: write_bits_def bw_write_bits_fits)
next
  case (2 s n v u s')
  then show ?case by (auto simp: write_bits_def bw_write_bits_full)
qed


section \<open>What each field encoding appends\<close>

function varint_bytes :: "u32 \<Rightarrow> u8 list" where
  "varint_bytes v =
     (if 0x80 \<le> v then ucast ((v AND 0x7f) OR 0x80) # varint_bytes (drop_bit 7 v) else [ucast (v AND 0x7f)])"
  by pat_completeness auto
termination
proof (relation "measure unat", goal_cases)
  case (2 v)
  then have "0 < unat v" by (simp add: word_le_nat_alt)
  then show ?case by (simp add: drop_bit_eq_div unat_div)
qed simp

declare varint_bytes.simps [simp del]

definition string_bits :: "u8 list \<Rightarrow> bool list" where
  "string_bits s = bytes_bits (varint_bytes (word_of_nat (min 1023 (length s)))) @ bytes_bits (take 1023 s)"

lemma emits_write_bool [emits_intros]: "bw.emits (write_bool b) [b]"
  using bw.emits_put [of 1 "if b then 1 else 0"]
  by (auto simp: write_bool_def bits_of_def)

lemma emits_write_u8 [emits_intros]: "bw.emits (write_u8 v) (bits_of v 8)"
  using bw.emits_put [of 8 "ucast v"] by (simp add: write_u8_def bits_of_ucast)

lemma emits_write_u16 [emits_intros]: "bw.emits (write_u16 v) (bits_of v 16)"
  using bw.emits_put [of 16 "ucast v"] by (simp add: write_u16_def bits_of_ucast)

lemma emits_write_u32 [emits_intros]: "bw.emits (write_u32 v) (bits_of v 32)"
  using bw.emits_put [of 32 v] by (simp add: write_u32_def)

lemma emits_write_float [emits_intros]: "bw.emits (write_float v) (bits_of v 32)"
  using bw.emits_put [of 32 v] by (simp add: write_float_def)

lemma bits_of_low_half: "bits_of (ucast ((v :: u64) AND 0xffffffff) :: u32) 32 = bits_of v 32"
proof (rule nth_equalityI)
  fix i assume "i < length (bits_of (ucast (v AND 0xffffffff) :: u32) 32)"
  moreover have "v AND 0xffffffff = take_bit 32 v" by (simp add: take_bit_eq_mask mask_eq_exp_minus_1)
  ultimately show "bits_of (ucast (v AND 0xffffffff) :: u32) 32 ! i = bits_of v 32 ! i"
    by (simp add: bit_simps)
qed simp

lemma emits_write_u64 [emits_intros]: "bw.emits (write_u64 v) (bits_of v 64)"
proof -
  have "bits_of (ucast (drop_bit 32 v) :: u32) 32 = bits_of (drop_bit 32 v) 32"
    by (simp add: bits_of_ucast)
  then have "bits_of v 64 = bits_of (ucast (v AND 0xffffffff) :: u32) 32 @ bits_of (ucast (drop_bit 32 v) :: u32) 32"
    using bits_of_add [of v 32 32] by (simp add: bits_of_low_half)
  then show ?thesis
    using bw.emits_put [of 32 "ucast (v AND 0xffffffff)"] bw.emits_put [of 32 "ucast (drop_bit 32 v)"]
    by (auto simp: write_u64_def intro: bw.emits_bind)
qed


lemma emits_write_varint [emits_intros]: "bw.emits (write_varint v) (bytes_bits (varint_bytes v))"
proof (induction v rule: write_varint.induct)
  case (1 v)
  show ?case
  proof (cases "0x80 \<le> v")
    case True
    have "bw.emits (write_bits ((v AND 0x7f) OR 0x80) 8) (bits_of (ucast ((v AND 0x7f) OR 0x80) :: u8) 8)"
      using bw.emits_put [of 8 "(v AND 0x7f) OR 0x80"] by (simp add: bits_of_ucast)
    from bw.emits_bind [OF this "1.IH" [OF True]] True show ?thesis
      by (simp add: write_varint.simps [of v] varint_bytes.simps [of v])
  next
    case False
    have "bw.emits (write_bits (v AND 0x7f) 8) (bits_of (ucast (v AND 0x7f) :: u8) 8)"
      using bw.emits_put [of 8 "v AND 0x7f"] by (simp add: bits_of_ucast)
    with False show ?thesis
      by (simp add: write_varint.simps [of v] varint_bytes.simps [of v])
  qed
qed

lemma emits_bytes [emits_intros]: "bw.emits (for_each write_u8 bs) (bytes_bits bs)"
  unfolding bytes_bits_def by (rule bw.emits_for_each) (rule emits_write_u8)

lemma emits_write_string [emits_intros]: "bw.emits (write_string s) (string_bits s)"
proof (cases "1023 < length s")
  case True
  then show ?thesis
    using bw.emits_bind [OF emits_write_varint emits_bytes, of 1023 "take 1023 s"]
    by (simp add: write_string_def string_bits_def)
next
  case False
  then have "min 1023 (length s) = length s" and "take 1023 s = s" by simp_all
  then show ?thesis
    using False bw.emits_bind [OF emits_write_varint emits_bytes, of "word_of_nat (length s)" s]
    by (simp add: write_string_def string_bits_def)
qed

lemma copy_into_props:
  assumes "i + length src \<le> k" and "k \<le> length dst"
  shows "length (copy_into dst i src) = length dst" and "drop k (copy_into dst i src) = drop k dst"
    and "take (i + length src) (copy_into dst i src) = take i dst @ src"
  using assms by (simp_all add: copy_into_def)

lemma emits_write_bytes [emits_intros]:
  assumes len: "length data = unat n"
  shows "bw.emits (write_bytes data n) (bytes_bits data)"
proof (rule bw.emitsI)
  fix w x w'
  assume wf: "bw_wf w" and run: "run_state (write_bytes data n) w = (x, w')"
  show "bw_wf w' \<and> (bw_overflow w \<longrightarrow> bw_overflow w') \<and>
    (if length (bytes_bits data) \<le> bw_room w
     then bw_bits w' = bw_bits w @ bytes_bits data \<and> bw_room w' + length (bytes_bits data) = bw_room w \<and>
          bw_overflow w' = bw_overflow w
     else bw_overflow w')"
  proof (cases "bw_pending_bits w = 0")
    case False
    with run len have "run_state (for_each write_u8 data) w = (x, w')" by (simp add: write_bytes_def)
    from bw.emits_step [OF emits_bytes wf this] show ?thesis by auto
  next
    case True
    let ?pos = "unat (bw_bit_pos w)" and ?cap = "unat (bw_capacity_bits w)" and ?fl = "unat (bw_flushed_bytes w)"
    have pos: "?pos = 8 * ?fl" and cap: "?cap < 2147483648" "?pos \<le> ?cap" "?cap \<le> 8 * length (bw_buffer w)"
      using wf True by (auto simp: bw_wf_def)
    have "unat (ucast (bw_bit_pos w) + ucast n * 8 :: u64) = ?pos + unat n * 8"
      using unat_less_u32 [of n] unat_less_u32 [of "bw_bit_pos w"]
      by (simp add: unat_word_ariths unsigned_ucast_eq take_bit_eq_mod)
    then have guard: "ucast (bw_bit_pos w) + ucast n * 8 > (ucast (bw_capacity_bits w) :: u64) \<longleftrightarrow>
        bw_room w < length (bytes_bits data)"
      using cap len by (auto simp: word_less_nat_alt bw_room_def unsigned_ucast_eq take_bit_eq_mod)
    show ?thesis
    proof (cases "bw_room w < length (bytes_bits data)")
      case over: True
      with run True guard have "w' = w\<lparr>bw_overflow := True\<rparr>" by (simp add: write_bytes_def)
      with wf over show ?thesis by simp
    next
      case fits: False
      with run True guard len have w': "w' = w\<lparr>
          bw_buffer := copy_into (bw_buffer w) ?fl data,
          bw_flushed_bytes := bw_flushed_bytes w + n, bw_bit_pos := bw_bit_pos w + n * 8\<rparr>"
        by (simp add: write_bytes_def)
      have n8: "unat (n * 8) = unat n * 8"
        using fits len cap by (subst unat_mult_u32) (auto simp: bw_room_def)
      have u: "unat (bw_flushed_bytes w + n) = ?fl + unat n" "unat (bw_bit_pos w + n * 8) = ?pos + unat n * 8"
        using fits len cap n8 pos by (subst unat_add_u32; auto simp: bw_room_def)+
      have "?fl + length data \<le> length (bw_buffer w)" using fits len cap pos by (simp add: bw_room_def)
      note copy = copy_into_props [OF this order.refl]
      from copy u len have bits: "bw_bits w' = bw_bits w @ bytes_bits data"
        using True by (simp add: w' bw_bits_def)
      show ?thesis
        using fits wf True u len cap pos copy bits by (auto simp: bw_wf_def bw_room_def w')
    qed
  qed
qed

lemma bw_wf_pending: "bw_wf w \<Longrightarrow> unat (bw_bit_pos w AND 7) = unat (bw_pending_bits w)"
  by (simp add: bw_wf_def and_7_u32)


text \<open>Padding to the next byte boundary, and the bytes the buffer holds at the end.\<close>

lemma write_align_bits:
  assumes wf: "bw_wf w" and run: "run_state write_align w = (u, w')"
  shows "bw_wf w'" and "bw_overflow w' = bw_overflow w" and "bw_pending_bits w' = 0"
    and "bw_bits w' = bw_bits w @ replicate ((8 - length (bw_bits w) mod 8) mod 8) False"
    and "bw_room w' + (8 - length (bw_bits w) mod 8) mod 8 = bw_room w"
proof -
  let ?p = "unat (bw_pending_bits w)"
  have p: "?p < 8" "unat (bw_bit_pos w AND 7) = ?p" "length (bw_bits w) mod 8 = ?p"
  proof -
    show "?p < 8" "unat (bw_bit_pos w AND 7) = ?p" using wf by (simp_all add: bw_wf_def bw_wf_pending)
    have "unat (bw_flushed_bytes w) \<le> length (bw_buffer w)" using wf by (simp add: bw_wf_def)
    then show "length (bw_bits w) mod 8 = ?p" using \<open>?p < 8\<close> by (simp add: bw_bits_def)
  qed
  have "bw_wf w' \<and> bw_overflow w' = bw_overflow w \<and> bw_pending_bits w' = 0 \<and>
    bw_bits w' = bw_bits w @ replicate ((8 - length (bw_bits w) mod 8) mod 8) False \<and> bw_room w' + (8 - length (bw_bits w) mod 8) mod 8 = bw_room w"
  proof (cases "?p = 0")
    case True
    then have "bw_bit_pos w AND 7 = 0" and z: "bw_pending_bits w = 0" using p(2) by (simp_all add: unat_eq_0)
    then have "w' = w" using run by (simp add: write_align_def)
    with wf z p True show ?thesis by simp
  next
    case False
    then have nz: "bw_bit_pos w AND 7 \<noteq> 0" using p(2) by auto
    have n: "unat (8 - (bw_bit_pos w AND 7)) = 8 - ?p" using p by (simp add: unat_sub_le word_le_nat_alt)
    have w': "w' = bw_write_bits 0 (8 - (bw_bit_pos w AND 7)) w"
      using run nz by (simp add: write_align_def write_bits_def)
    have "8 - ?p \<le> bw_room w"
    proof -
      obtain c where "unat (bw_capacity_bits w) = 8 * c" using wf by (auto simp: bw_wf_def)
      moreover from this have "unat (bw_flushed_bytes w) < c" using wf False p(1) by (auto simp: bw_wf_def)
      ultimately show ?thesis using wf by (auto simp: bw_wf_def bw_room_def)
    qed
    then have fit: "unat (8 - (bw_bit_pos w AND 7)) \<le> bw_room w" by (simp add: n)
    have n32: "0 < unat (8 - (bw_bit_pos w AND 7))" "unat (8 - (bw_bit_pos w AND 7)) \<le> 32"
      using p by (simp_all add: n)
    note spec = bw_write_bits_fits [OF wf n32 fit, of 0]
    have "bits_of (0 :: u32) (8 - ?p) = replicate (8 - ?p) False"
      by (rule nth_equalityI) simp_all
    moreover have "unat (bw_pending_bits w') = 0"
    proof -
      have "length (bw_bits w') mod 8 = 0"
        using spec(2) p(1,3) unfolding w' n by simp presburger
      moreover have "length (bw_bits w') mod 8 = unat (bw_pending_bits w')"
        using spec(1) unfolding w' [symmetric] by (simp add: bw_bits_def bw_wf_def)
      ultimately show ?thesis by simp
    qed
    moreover have "(8 - ?p) mod 8 = 8 - ?p" using False by simp
    moreover have "bw_room w' + (8 - ?p) = bw_room w" using spec(3) unfolding w' n by simp
    ultimately show ?thesis
      using spec p unfolding w' [symmetric] n by (simp add: unat_eq_0)
  qed
  then show "bw_wf w'" and "bw_overflow w' = bw_overflow w" and "bw_pending_bits w' = 0"
    and "bw_bits w' = bw_bits w @ replicate ((8 - length (bw_bits w) mod 8) mod 8) False"
    and "bw_room w' + (8 - length (bw_bits w) mod 8) mod 8 = bw_room w" by simp_all
qed

lemma length_bw_bits: "bw_wf w \<Longrightarrow> length (bw_bits w) = unat (bw_bit_pos w)"
  by (simp add: bw_wf_def bw_bits_def)

lemma byte_of_accumulator:
  assumes "drop_bit p (acc :: u64) = 0" and "p < 8"
  shows "bits_of (ucast acc :: u8) 8 = bits_of acc p @ replicate (8 - p) False"
proof (rule nth_equalityI)
  show "length (bits_of (ucast acc :: u8) 8) = length (bits_of acc p @ replicate (8 - p) False)"
    using assms(2) by simp
  fix i assume "i < length (bits_of (ucast acc :: u8) 8)"
  moreover have "\<not> bit acc i" if "p \<le> i"
  proof -
    have "bit (drop_bit p acc) (i - p) = bit acc i" using that by (simp add: bit_drop_bit_eq)
    then show ?thesis using assms(1) by simp
  qed
  ultimately show "bits_of (ucast acc :: u8) 8 ! i = (bits_of acc p @ replicate (8 - p) False) ! i"
    using assms(2) by (auto simp: nth_append bit_simps)
qed

lemma bytes_written_bits:
  assumes wf: "bw_wf w" and run: "run_state bytes_written w = (n, w')"
  shows "bw_wf w'" and "bw_bits w' = bw_bits w" and "bw_overflow w' = bw_overflow w"
    and "unat n = (length (bw_bits w) + 7) div 8"
    and "unat n \<le> length (bw_buffer w')"
    and "bytes_bits (take (unat n) (bw_buffer w')) =
         bw_bits w @ replicate (8 * unat n - length (bw_bits w)) False"
    and "bw_room w' = bw_room w"
proof -
  let ?p = "unat (bw_pending_bits w)" and ?f = "unat (bw_flushed_bytes w)"
  have p: "?p < 8" and acc: "drop_bit ?p (bw_accumulator w) = 0" and len: "length (bw_bits w) = 8 * ?f + ?p"
    using wf by (auto simp: bw_wf_def length_bw_bits)
  have f: "?f \<le> length (bw_buffer w)" "?f < 2147483648" using wf by (auto simp: bw_wf_def)
  have "bw_wf w' \<and> bw_bits w' = bw_bits w \<and> bw_overflow w' = bw_overflow w \<and>
    unat n = (length (bw_bits w) + 7) div 8 \<and> unat n \<le> length (bw_buffer w') \<and>
    bytes_bits (take (unat n) (bw_buffer w')) = bw_bits w @ replicate (8 * unat n - length (bw_bits w)) False \<and> bw_room w' = bw_room w"
  proof (cases "?p = 0")
    case True
    then have "\<not> bw_pending_bits w > 0" by (simp add: word_less_nat_alt)
    with run have "w' = w" and "n = bw_flushed_bytes w" by (auto simp: bytes_written_def)
    with wf True len f show ?thesis by (simp add: bw_bits_def)
  next
    case False
    then have "bw_pending_bits w > 0" by (simp add: word_less_nat_alt)
    with run have w': "w' = w\<lparr>bw_buffer := (bw_buffer w)[?f := ucast (bw_accumulator w)]\<rparr>"
      and n: "n = bw_flushed_bytes w + 1" by (simp_all add: bytes_written_def)
    obtain c where c: "unat (bw_capacity_bits w) = 8 * c" using wf by (auto simp: bw_wf_def)
    have f': "?f < length (bw_buffer w)" using wf False c p by (auto simp: bw_wf_def)
    have un: "unat n = ?f + 1" using f unfolding n by (subst unat_add_u32) simp_all
    have "take (unat n) (bw_buffer w') = take ?f (bw_buffer w) @ [ucast (bw_accumulator w)]"
      using f' by (simp add: w' un take_Suc_update)
    moreover have "take ?f (bw_buffer w') = take ?f (bw_buffer w)" by (simp add: w')
    ultimately show ?thesis
      using wf f' len p False byte_of_accumulator [OF acc p]
      by (simp add: bw_bits_def un) (simp add: w' bw_wf_def bw_room_def)
  qed
  then show "bw_wf w'" and "bw_bits w' = bw_bits w" and "bw_overflow w' = bw_overflow w"
    and "unat n = (length (bw_bits w) + 7) div 8" and "unat n \<le> length (bw_buffer w')"
    and "bytes_bits (take (unat n) (bw_buffer w')) =
         bw_bits w @ replicate (8 * unat n - length (bw_bits w)) False"
    and "bw_room w' = bw_room w" by blast+
qed

lemma mk_writer_wf:
  assumes "unat c \<le> length buf" and "unat c < 268435456"
  shows "bw_wf (mk_writer buf c)" and "bw_bits (mk_writer buf c) = []" and "bw_room (mk_writer buf c) = 8 * unat c"
    and "\<not> bw_overflow (mk_writer buf c)"
proof -
  have "unat (c * 8) = unat c * 8" using assms(2) by (subst unat_mult_u32) simp_all
  then show "bw_wf (mk_writer buf c)" and "bw_bits (mk_writer buf c) = []" and "bw_room (mk_writer buf c) = 8 * unat c"
    and "\<not> bw_overflow (mk_writer buf c)"
    using assms by (simp_all add: mk_writer_def bw_wf_def bw_bits_def bw_room_def)
qed



section \<open>The reader consumes the bit string\<close>

definition br_wf :: "bit_reader \<Rightarrow> bool" where
  "br_wf r \<longleftrightarrow> unat (br_bit_pos r) \<le> unat (br_capacity_bits r) \<and>
     unat (br_capacity_bits r) \<le> 8 * length (br_buffer r) \<and> unat (br_capacity_bits r) < 2147483648"

definition br_remaining :: "bit_reader \<Rightarrow> bool list" where
  "br_remaining r = drop (unat (br_bit_pos r)) (take (unat (br_capacity_bits r)) (bytes_bits (br_buffer r)))"

lemma div_mod_8_add:
  fixes p j :: nat
  assumes "p mod 8 + j < 8"
  shows "(p + j) div 8 = p div 8" and "(p + j) mod 8 = p mod 8 + j"
  using assms by (simp_all add: div_add1_eq [of p j] mod_add_eq [of p 8 j, symmetric])

lemma read_loop_spec:
  assumes "read_loop buf pos rem wr res = (res', pos')"
    and "unat pos + unat rem \<le> 8 * length buf" and "unat pos + unat rem < 2147483648"
    and "unat wr + unat rem \<le> 32"
  shows "unat pos' = unat pos + unat rem \<and>
    (\<forall>i. bit res' i \<longleftrightarrow> bit res i \<or>
       (unat wr \<le> i \<and> i < unat wr + unat rem \<and> bytes_bits buf ! (unat pos + (i - unat wr))))"
  using assms
proof (induction buf pos rem wr res arbitrary: res' pos' rule: read_loop.induct)
  case (1 buf pos rem wr res)
  show ?case
  proof (cases "rem > 0")
    case False
    with "1.prems" show ?thesis by (auto simp: read_loop.simps [of buf] word_less_nat_alt)
  next
    case True
    define off where "off = pos AND 7"
    define tk where "tk = (if rem < 8 - off then rem else 8 - off)"
    define chunk where "chunk = drop_bit (unat off) (ucast (buf ! unat (drop_bit 3 pos)) :: u32) AND
        (push_bit (unat tk) 1 - 1)"
    have off: "unat off = unat pos mod 8" by (simp add: off_def and_7_u32)
    then have avail: "unat (8 - off) = 8 - unat pos mod 8" by (simp add: unat_sub_le word_le_nat_alt)
    have tk: "0 < unat tk" "unat tk \<le> unat rem" "unat tk \<le> 8 - unat pos mod 8"
      using True by (auto simp: tk_def word_less_nat_alt avail)
    have upos: "unat (pos + tk) = unat pos + unat tk" and uwr: "unat (wr + tk) = unat wr + unat tk"
      using "1.prems"(3,4) tk by (simp_all add: unat_add_u32)
    have urem: "unat (rem - tk) = unat rem - unat tk" using tk by (simp add: unat_sub_le word_le_nat_alt)
    have run: "read_loop buf (pos + tk) (rem - tk) (wr + tk) (res OR push_bit (unat wr) chunk) = (res', pos')"
      using "1.prems"(1) unfolding read_loop.simps [of buf pos] if_P [OF True] Let_def
        off_def [symmetric] tk_def [symmetric] chunk_def [symmetric] .
    have byte: "unat (drop_bit 3 pos) = unat pos div 8" by (simp add: drop_bit_eq_div unat_div)
    have chunk_bit: "bit chunk j \<longleftrightarrow> j < unat tk \<and> bytes_bits buf ! (unat pos + j)" for j
    proof (cases "j < unat tk")
      case True
      have j: "unat pos mod 8 + j < 8" using True tk(3) by linarith
      have "unat pos + j < 8 * length buf" using True tk "1.prems"(2) by linarith
      then have "bytes_bits buf ! (unat pos + j) = bit (buf ! (unat pos div 8)) (unat pos mod 8 + j)"
        by (simp only: nth_bytes_bits div_mod_8_add [OF j])
      moreover have "bit chunk j = bit (buf ! (unat pos div 8)) (unat pos mod 8 + j)"
        using True j by (simp add: chunk_def mask_bits bit_take_bit_iff bit_drop_bit_eq bit_ucast_iff byte off)
      ultimately show ?thesis using True by simp
    next
      case False
      then show ?thesis by (simp add: chunk_def mask_bits bit_simps)
    qed
    have IH: "unat pos' = unat (pos + tk) + unat (rem - tk) \<and>
      (\<forall>i. bit res' i \<longleftrightarrow> bit (res OR push_bit (unat wr) chunk) i \<or>
        (unat (wr + tk) \<le> i \<and> i < unat (wr + tk) + unat (rem - tk) \<and>
         bytes_bits buf ! (unat (pos + tk) + (i - unat (wr + tk)))))"
      by (rule "1.IH" [OF True refl refl refl refl refl, folded off_def, folded tk_def, folded chunk_def, OF run])
        (use tk "1.prems" in \<open>simp_all add: upos uwr urem\<close>)
    show ?thesis
    proof (intro conjI allI)
      show "unat pos' = unat pos + unat rem" using IH tk by (simp add: upos urem)
      fix i
      have "bit (res OR push_bit (unat wr) chunk) i \<longleftrightarrow> bit res i \<or>
          (unat wr \<le> i \<and> i < unat wr + unat tk \<and> bytes_bits buf ! (unat pos + (i - unat wr)))"
        using "1.prems"(4) tk by (auto simp: bit_simps chunk_bit)
      moreover have "bit res' i \<longleftrightarrow> bit (res OR push_bit (unat wr) chunk) i \<or>
          (unat wr + unat tk \<le> i \<and> i < unat wr + unat rem \<and>
           bytes_bits buf ! (unat pos + unat tk + (i - (unat wr + unat tk))))"
        using IH tk by (simp add: upos uwr urem)
      moreover have "unat pos + unat tk + (i - (unat wr + unat tk)) = unat pos + (i - unat wr)"
        if "unat wr + unat tk \<le> i" using that by simp
      ultimately show "bit res' i \<longleftrightarrow> bit res i \<or>
          (unat wr \<le> i \<and> i < unat wr + unat rem \<and> bytes_bits buf ! (unat pos + (i - unat wr)))"
        using tk(2) by (cases "unat wr + unat tk \<le> i") simp_all
    qed
  qed
qed

lemma br_read_bits_enough:
  assumes wf: "br_wf r" and n: "0 < unat n" "unat n \<le> 32" and len: "unat n \<le> length (br_remaining r)"
    and run: "br_read_bits n r = (v, r')"
  shows "br_wf r' \<and> v = of_bits (take (unat n) (br_remaining r)) \<and>
    br_remaining r' = drop (unat n) (br_remaining r) \<and> br_overflow r' = br_overflow r"
proof -
  have room: "unat (br_bit_pos r) + unat n \<le> unat (br_capacity_bits r)"
    using len wf by (auto simp: br_remaining_def br_wf_def)
  then have pos: "unat (br_bit_pos r + n) = unat (br_bit_pos r) + unat n"
    using wf by (simp add: unat_add_u32 br_wf_def)
  have "n \<noteq> 0" and "\<not> br_bit_pos r + n > br_capacity_bits r"
    using n room by (auto simp: word_less_nat_alt pos)
  with run obtain p where loop: "read_loop (br_buffer r) (br_bit_pos r) n 0 0 = (v, p)"
    and r': "r' = r\<lparr>br_bit_pos := p\<rparr>" by (auto simp: br_read_bits_def split: prod.splits)
  have spec: "unat p = unat (br_bit_pos r) + unat n \<and>
    (\<forall>i. bit v i \<longleftrightarrow> i < unat n \<and> bytes_bits (br_buffer r) ! (unat (br_bit_pos r) + i))"
    using read_loop_spec [OF loop] room wf n by (simp add: br_wf_def)
  have "v = of_bits (take (unat n) (br_remaining r))"
  proof (rule bit_eqI)
    fix i
    have "take (unat n) (br_remaining r) ! i = bytes_bits (br_buffer r) ! (unat (br_bit_pos r) + i)" if "i < unat n"
      using that room wf by (simp add: br_remaining_def br_wf_def)
    then show "bit v i = bit (of_bits (take (unat n) (br_remaining r)) :: u32) i"
      using spec len n(2) by (cases "i < unat n") (simp_all add: bit_of_bits)
  qed
  moreover have "br_remaining r' = drop (unat n) (br_remaining r)"
    using spec by (simp add: r' br_remaining_def add.commute)
  ultimately show ?thesis using wf spec room by (simp add: r' br_wf_def)
qed

lemma br_read_bits_short:
  assumes wf: "br_wf r" and n: "0 < unat n" "unat n \<le> 32" and len: "length (br_remaining r) < unat n"
  shows "br_read_bits n r = (0, r\<lparr>br_overflow := True\<rparr>)"
proof -
  have "unat (br_bit_pos r + n) = unat (br_bit_pos r) + unat n"
    using wf n by (simp add: unat_add_u32 br_wf_def)
  then show ?thesis
    using assms by (auto simp: br_read_bits_def word_less_nat_alt br_remaining_def br_wf_def)
qed

lemma br_overflow_simps [simp]:
  "br_wf (r\<lparr>br_overflow := b\<rparr>) = br_wf r" "br_remaining (r\<lparr>br_overflow := b\<rparr>) = br_remaining r"
  by (simp_all add: br_wf_def br_remaining_def)

interpretation br: bit_source br_wf br_remaining br_overflow read_bits
proof (unfold_locales, goal_cases)
  case (1 s n v s')
  then show ?case using br_read_bits_enough [of s n v s'] by (simp add: read_bits_def)
next
  case (2 s n v s')
  then show ?case using br_read_bits_short [of s n] by (auto simp: read_bits_def)
qed

interpretation brc: checked_source br_wf br_remaining br_overflow read_bits read_overflowed
  by unfold_locales (simp add: read_overflowed_def)

end
