(* ===== verification/Stream_Fields.thy ===== *)
theory Stream_Fields
  imports Bitstream
begin

text \<open>
  The field readers of \<open>proto/bitstream.h\<close> against the field writers: each reader returns the value
  from exactly the bits the matching writer appended, and fails on a truncated field. Also the width
  that \<open>bits_required\<close> chooses for a ranged integer, and how the bytes of a finished buffer become
  the input of a reader.
\<close>

section \<open>Safety: a latched overflow stays latched\<close>

lemma safe_read_bool [decodes_intros]: "br.safe read_bool"
  unfolding read_bool_def by (intro br.safe_intros) simp_all

lemma safe_read_u8 [decodes_intros]: "br.safe read_u8"
  unfolding read_u8_def by (intro br.safe_intros) simp_all

lemma safe_read_u16 [decodes_intros]: "br.safe read_u16"
  unfolding read_u16_def by (intro br.safe_intros) simp_all

lemma safe_read_u32 [decodes_intros]: "br.safe read_u32"
  unfolding read_u32_def by (intro br.safe_intros) simp_all

lemma safe_read_float [decodes_intros]: "br.safe read_float"
  unfolding read_float_def by (intro br.safe_intros) simp_all

lemma safe_read_u64 [decodes_intros]: "br.safe read_u64"
  unfolding read_u64_def by (intro br.safe_intros) simp_all

lemma safe_read_varint_loop: "br.safe (read_varint_loop k res sh)"
  by (induction k arbitrary: res sh) (auto intro!: br.safe_intros simp: Let_def)

lemma safe_read_varint [decodes_intros]: "br.safe read_varint"
  by (simp add: read_varint_def safe_read_varint_loop)

lemma safe_set_overflow [decodes_intros]: "br.safe set_overflow"
  by (auto simp: br.safe_def set_overflow_def)

lemma safe_read_string [decodes_intros]: "br.safe read_string"
  unfolding read_string_def by (intro br.safe_intros decodes_intros)

lemma safe_read_overflowed [decodes_intros]: "br.safe read_overflowed"
  by (auto simp: br.safe_def read_overflowed_def)

lemma parses_read_overflowed: "br.parses read_overflowed [] False"
  by (auto simp: br.parses_def read_overflowed_def)

lemma bytes_advance:
  assumes "br_wf r" and "unat n * 8 \<le> length (br_remaining r)"
  shows "unat (br_bit_pos r + n * 8) = unat (br_bit_pos r) + unat n * 8"
    and "br_wf (r\<lparr>br_bit_pos := br_bit_pos r + n * 8\<rparr>)"
    and "br_remaining (r\<lparr>br_bit_pos := br_bit_pos r + n * 8\<rparr>) = drop (unat n * 8) (br_remaining r)"
proof -
  have room: "unat (br_bit_pos r) + unat n * 8 \<le> unat (br_capacity_bits r)"
    using assms by (auto simp: br_wf_def br_remaining_def)
  have "unat (n * 8) = unat n * 8" using room assms(1) by (subst unat_mult_u32) (auto simp: br_wf_def)
  then show pos: "unat (br_bit_pos r + n * 8) = unat (br_bit_pos r) + unat n * 8"
    using room assms(1) by (subst unat_add_u32) (auto simp: br_wf_def)
  show "br_wf (r\<lparr>br_bit_pos := br_bit_pos r + n * 8\<rparr>)"
    and "br_remaining (r\<lparr>br_bit_pos := br_bit_pos r + n * 8\<rparr>) = drop (unat n * 8) (br_remaining r)"
    using room assms(1) pos by (simp_all add: br_wf_def br_remaining_def add.commute)
qed

lemma read_bytes_guard:
  assumes "br_wf r"
  shows "ucast (br_bit_pos r) + ucast (n :: u32) * 8 > (ucast (br_capacity_bits r) :: u64) \<longleftrightarrow>
    length (br_remaining r) < unat n * 8"
proof -
  have "unat (ucast (br_bit_pos r) + ucast n * 8 :: u64) = unat (br_bit_pos r) + unat n * 8"
    using unat_less_u32 [of n] unat_less_u32 [of "br_bit_pos r"]
    by (simp add: unat_word_ariths unsigned_ucast_eq take_bit_eq_mod)
  moreover have "unat (ucast (br_capacity_bits r) :: u64) = unat (br_capacity_bits r)"
    using unat_less_u32 [of "br_capacity_bits r"] by (simp add: unsigned_ucast_eq take_bit_eq_mod)
  ultimately show ?thesis
    using assms by (auto simp: word_less_nat_alt br_wf_def br_remaining_def)
qed

lemma safe_read_bytes [decodes_intros]: "br.safe (read_bytes out n)"
  unfolding br.safe_def
proof (intro allI impI)
  fix r x r'
  assume wf: "br_wf r" and run: "run_state (read_bytes out n) r = (x, r')"
  show "br_wf r' \<and> (br_overflow r \<longrightarrow> br_overflow r')"
  proof (cases "br_bit_pos r AND 7 = 0")
    case False
    with run have "run_state (repeat_read (unat n) read_u8) r = (x, r')" by (simp add: read_bytes_def)
    from br.safeD [OF br.safe_repeat [OF safe_read_u8] wf this] show ?thesis .
  next
    case True
    with run read_bytes_guard [OF wf, of n] bytes_advance [OF wf, of n] wf show ?thesis
      by (auto simp: read_bytes_def set_overflow_def split: if_splits)
  qed
qed


section \<open>Values\<close>

lemma decodes_read_bool [decodes_intros]: "br.decodes read_bool [b] b"
  unfolding read_bool_def
  by (rule br.decodes_map [OF br.decodes_get [of 1 "[b]" "of_bool b"]]) (simp_all add: of_bits_def)

lemma decodes_read_u8 [decodes_intros]: "br.decodes read_u8 (bits_of v 8) v"
proof -
  have "v = ucast (of_bits (bits_of v 8) :: u32)"
    by (rule bit_eqI) (auto simp: bit_ucast_iff bit_of_bits)
  then show ?thesis
    unfolding read_u8_def by (intro br.decodes_map [OF br.decodes_get]) simp_all
qed

lemma decodes_read_u16 [decodes_intros]: "br.decodes read_u16 (bits_of v 16) v"
proof -
  have "v = ucast (of_bits (bits_of v 16) :: u32)"
    by (rule bit_eqI) (auto simp: bit_ucast_iff bit_of_bits)
  then show ?thesis
    unfolding read_u16_def by (intro br.decodes_map [OF br.decodes_get]) simp_all
qed

lemma decodes_read_bits: "0 < unat n \<Longrightarrow> unat n \<le> 32 \<Longrightarrow> br.decodes (read_bits n) (bits_of v (unat n)) (take_bit (unat n) v)"
  by (rule br.decodes_get) (simp_all add: of_bits_bits_of)

lemma decodes_read_u32 [decodes_intros]: "br.decodes read_u32 (bits_of v 32) v"
  unfolding read_u32_def by (rule br.decodes_get) simp_all

lemma decodes_read_float [decodes_intros]: "br.decodes read_float (bits_of v 32) v"
  unfolding read_float_def by (rule br.decodes_get) simp_all

lemma u64_halves:
  "ucast (of_bits (bits_of v 32) :: u32) OR push_bit 32 (ucast (of_bits (bits_of (drop_bit 32 v) 32) :: u32)) = (v :: u64)"
proof (rule bit_eqI)
  fix i assume "possible_bit TYPE(u64) i"
  then have "i < 64" by simp
  then show "bit (ucast (of_bits (bits_of v 32) :: u32) OR
      push_bit 32 (ucast (of_bits (bits_of (drop_bit 32 v) 32) :: u32)) :: u64) i = bit v i"
    by (cases "i < 32") (auto simp add: bit_or_iff bit_push_bit_iff bit_ucast_iff bit_of_bits bit_drop_bit_eq)
qed

lemma decodes_read_u64 [decodes_intros]: "br.decodes read_u64 (bits_of v 64) v"
proof -
  let ?lo = "of_bits (bits_of v 32) :: u32" and ?hi = "of_bits (bits_of (drop_bit 32 v) 32) :: u32"
  have hi: "br.decodes (read_bits 32 \<bind> (\<lambda>high. State_Monad.return (ucast ?lo OR push_bit 32 (ucast high))))
      (bits_of (drop_bit 32 v) 32) v"
    by (rule br.decodes_map [OF br.decodes_get [of 32 _ ?hi]]) (simp_all add: u64_halves)
  have lo: "br.decodes (read_bits 32) (bits_of v 32) ?lo" by (rule br.decodes_get) simp_all
  have "br.decodes read_u64 (bits_of v 32 @ bits_of (drop_bit 32 v) 32) v"
    unfolding read_u64_def 
  proof (rule br.decodes_bind [OF lo])
    show "br.safe (read_bits 32 \<bind> (\<lambda>high. State_Monad.return (ucast x OR push_bit 32 (ucast high))))" for x
      by (intro br.safe_intros) simp_all
  qed (rule hi)
  with bits_of_add [of v 32 32] show ?thesis by simp
qed


section \<open>Varints and strings\<close>

lemma bit_127: "bit (127 :: u32) i \<longleftrightarrow> i < 7"
proof -
  have "(127 :: u32) = mask 7" by (simp add: mask_eq_exp_minus_1)
  then show ?thesis by (simp only: bit_mask_iff) auto
qed

lemma bit_128: "bit (128 :: u32) i \<longleftrightarrow> i = 7"
proof -
  have "(128 :: u32) = push_bit 7 1" by simp
  then show ?thesis by (simp only: bit_push_bit_iff bit_1_iff) auto
qed

lemma varint_step:
  "(res OR push_bit sh (((v AND 0x7f) OR 0x80) AND 0x7f)) OR push_bit (sh + 7) (drop_bit 7 v) = res OR push_bit sh (v :: u32)"
  (is "?l = ?r")
proof (rule bit_eqI)
  fix i
  have "sh + 7 \<le> i \<Longrightarrow> 7 + (i - (sh + 7)) = i - sh" by simp
  then show "bit ?l i = bit ?r i"
    by (cases "sh + 7 \<le> i") (auto simp: bit_or_iff bit_and_iff bit_push_bit_iff bit_drop_bit_eq bit_127 bit_128 simp del: bit_numeral_word_iff)
qed

lemma decodes_varint_loop:
  "unat v < 2 ^ (7 * k) \<Longrightarrow> 0 < k \<Longrightarrow>
   br.decodes (read_varint_loop k res sh) (bytes_bits (varint_bytes v)) (res OR push_bit sh v)"
proof (induction k arbitrary: v res sh)
  case 0
  then show ?case by simp
next
  case (Suc k)
  show ?case
  proof (cases "0x80 \<le> v")
    case True
    let ?b = "(v AND 0x7f) OR 0x80"
    have "128 \<le> unat v" using True by (simp add: word_le_nat_alt)
    then have k: "0 < k" using Suc.prems(1) by (cases k) auto
    have "unat (drop_bit 7 v) < 2 ^ (7 * k)"
      using Suc.prems(1) by (simp add: drop_bit_eq_div unat_div power_add less_mult_imp_div_less mult.commute)
    note rest = Suc.IH [OF this k, of "res OR push_bit sh (?b AND 0x7f)" "sh + 7", unfolded varint_step]
    have "of_bits (bits_of (ucast ?b :: u8) 8) = ?b"
      by (rule bit_eqI) (auto simp: bit_of_bits bit_ucast_iff bit_or_iff bit_and_iff bit_127 bit_128 simp del: bit_numeral_word_iff)
    then have "br.decodes (read_bits 8) (bits_of (ucast ?b :: u8) 8) ?b"
      by (intro br.decodes_get) simp_all
    moreover have "bit (?b AND 0x80) 7" by (simp add: bit_or_iff bit_and_iff bit_128 del: bit_numeral_word_iff)
    then have "?b AND 0x80 \<noteq> 0" by (metis bit_0_eq bot_apply bot_bool_def)
    ultimately show ?thesis
      using rest True by (auto simp: varint_bytes.simps [of v] Let_def
          intro!: br.decodes_bind br.safe_intros safe_read_varint_loop)
  next
    case False
    let ?b = "v AND 0x7f"
    have b: "v AND 0x7f = v"
    proof -
      have "v AND 0x7f = take_bit 7 v" by (simp add: take_bit_eq_mask mask_eq_exp_minus_1)
      moreover have "unat v < 128" using False by (simp add: word_le_nat_alt)
      ultimately show ?thesis by (simp add: take_bit_eq_mod word_unat_eq_iff unat_mod)
    qed
    have "of_bits (bits_of (ucast ?b :: u8) 8) = ?b"
      by (rule bit_eqI) (auto simp: bit_of_bits bit_ucast_iff bit_and_iff bit_127 simp del: bit_numeral_word_iff)
    then have rd: "br.decodes (read_bits 8) (bits_of (ucast ?b :: u8) 8) v"
      by (intro br.decodes_get) (simp_all add: b)
    have "?b AND 0x80 = 0"
      by (rule bit_eqI) (auto simp: bit_and_iff bit_127 bit_128 simp del: bit_numeral_word_iff)
    then have tail: "br.decodes (if v AND 0x80 = 0 then State_Monad.return (res OR push_bit sh (v AND 0x7f))
        else read_varint_loop k (res OR push_bit sh (v AND 0x7f)) (sh + 7)) [] (res OR push_bit sh v)"
      by (simp add: b br.decodes_return)
    have "br.decodes (read_varint_loop (Suc k) res sh) (bits_of (ucast ?b :: u8) 8 @ []) (res OR push_bit sh v)"
      unfolding read_varint_loop.simps Let_def
      by (rule br.decodes_bind [OF rd]) (rule tail, intro br.safe_intros safe_read_varint_loop)
    with False show ?thesis by (simp add: varint_bytes.simps [of v])
  qed
qed

lemma decodes_read_varint [decodes_intros]: "br.decodes read_varint (bytes_bits (varint_bytes v)) v"
  using decodes_varint_loop [of v 5 0 0] unat_less_u32 [of v] by (simp add: read_varint_def)


lemma length_varint_bytes: "unat v < 2 ^ (7 * k) \<Longrightarrow> 0 < k \<Longrightarrow> length (varint_bytes v) \<le> k"
proof (induction k arbitrary: v)
  case 0
  then show ?case by simp
next
  case (Suc k)
  show ?case
  proof (cases "0x80 \<le> v")
    case True
    then have "128 \<le> unat v" by (simp add: word_le_nat_alt)
    then have k: "0 < k" using Suc.prems(1) by (cases k) auto
    have "unat (drop_bit 7 v) < 2 ^ (7 * k)"
      using Suc.prems(1) by (simp add: drop_bit_eq_div unat_div power_add less_mult_imp_div_less mult.commute)
    from Suc.IH [OF this k] True show ?thesis by (simp add: varint_bytes.simps [of v])
  next
    case False
    then show ?thesis by (simp add: varint_bytes.simps [of v])
  qed
qed

lemma length_varint_bytes_5: "length (varint_bytes v) \<le> 5"
  using length_varint_bytes [of v 5] unat_less_u32 [of v] by simp

lemma decodes_bytes: "br.decodes (repeat_read (length bs) read_u8) (bytes_bits bs) bs"
  unfolding bytes_bits_def by (rule br.decodes_repeat) (simp_all add: decodes_intros)

lemma decodes_read_string [decodes_intros]:
  assumes "length s \<le> 1023"
  shows "br.decodes read_string (string_bits s) s"
proof -
  have len: "unat (word_of_nat (length s) :: u32) = length s" "min 1023 (length s) = length s" "take 1023 s = s"
    using assms by (simp_all add: unat_of_nat_less)
  then have "\<not> (word_of_nat (length s) :: u32) > 1023" using assms by (simp add: word_less_nat_alt)
  then have tail: "br.decodes (if (word_of_nat (length s) :: u32) > 1023 then do { set_overflow; State_Monad.return [] }
      else repeat_read (unat (word_of_nat (length s) :: u32)) read_u8) (bytes_bits s) s"
    using decodes_bytes [of s] by (simp add: len)
  show ?thesis
    unfolding read_string_def string_bits_def len
    by (rule br.decodes_bind [OF decodes_read_varint]) (rule tail, intro br.safe_intros decodes_intros)
qed

lemma decodes_read_bytes [decodes_intros]:
  assumes len: "length bs = unat n"
  shows "br.decodes (read_bytes out n) (bytes_bits bs) bs"
  unfolding br.decodes_def
proof (intro conjI allI impI safe_read_bytes)
  fix r x r'
  assume wf: "br_wf r" and run: "run_state (read_bytes out n) r = (x, r')"
  have slow: "br.decodes (repeat_read (unat n) read_u8) (bytes_bits bs) bs"
    using decodes_bytes [of bs] len by simp
  show "br_overflow r'" if "strict_prefix (br_remaining r) (bytes_bits bs)"
  proof (cases "br_bit_pos r AND 7 = 0")
    case False
    with run have "run_state (repeat_read (unat n) read_u8) r = (x, r')" by (simp add: read_bytes_def)
    with slow wf that show ?thesis by (rule br.decodes_short)
  next
    case True
    from prefix_length_less [OF that] have "length (br_remaining r) < unat n * 8" by (simp add: len)
    with run True read_bytes_guard [OF wf] show ?thesis by (simp add: read_bytes_def set_overflow_def) auto
  qed
  fix rest
  assume rem: "br_remaining r = bytes_bits bs @ rest"
  show "x = bs" and "br_remaining r' = rest" and "br_overflow r' = br_overflow r"
  proof (atomize (full), cases "br_bit_pos r AND 7 = 0")
    case False
    with run have "run_state (repeat_read (unat n) read_u8) r = (x, r')" by (simp add: read_bytes_def)
    from br.decodesD [OF slow wf rem this] show "x = bs \<and> br_remaining r' = rest \<and> br_overflow r' = br_overflow r"
      by simp
  next
    case True
    have enough: "unat n * 8 \<le> length (br_remaining r)" by (simp add: rem len)
    then have "\<not> length (br_remaining r) < unat n * 8" by simp
    with run True read_bytes_guard [OF wf, of n]
    have r': "r' = r\<lparr>br_bit_pos := br_bit_pos r + n * 8\<rparr>"
      and x: "x = take (unat n) (drop (unat (drop_bit 3 (br_bit_pos r))) (br_buffer r))"
      by (auto simp: read_bytes_def)
    let ?p = "unat (br_bit_pos r)"
    have p: "?p = 8 * (?p div 8)" using True and_7_u32 [of "br_bit_pos r"] by (metis mult_div_mod_eq unat_0 add.right_neutral)
    have byte: "unat (drop_bit 3 (br_bit_pos r)) = ?p div 8" by (simp add: drop_bit_eq_div unat_div)
    have room: "?p + unat n * 8 \<le> unat (br_capacity_bits r)" "unat (br_capacity_bits r) \<le> 8 * length (br_buffer r)"
      using enough wf by (auto simp: br_wf_def br_remaining_def)
    have "bytes_bits bs = take (8 * unat n) (br_remaining r)" by (simp add: rem len)
    also have "\<dots> = take (8 * unat n) (drop ?p (bytes_bits (br_buffer r)))"
      using room by (simp add: br_remaining_def min_def drop_take)
    also have "\<dots> = bytes_bits x"
      by (subst p) (simp only: x byte drop_bytes_bits take_bytes_bits)
    finally have "bytes_bits x = bytes_bits bs" ..
    moreover have "length x = length bs" using room p by (simp add: x byte len)
    ultimately have "x = bs" by (rule bytes_bits_inj [rotated])
    then show "x = bs \<and> br_remaining r' = rest \<and> br_overflow r' = br_overflow r"
      using bytes_advance [OF wf enough] rem len by (simp add: r')
  qed
qed



section \<open>Ranged integers\<close>

definition ranged_bits :: "32 word \<Rightarrow> 32 word \<Rightarrow> 32 word \<Rightarrow> bool list" where
  "ranged_bits v mn mx = bits_of (v - mn) (unat (bits_required mn mx))"

lemma count_bits_bound:
  "unat r < 2 ^ m \<Longrightarrow> unat b + m < 4294967296 \<Longrightarrow>
   \<exists>k \<le> m. unat (count_bits r b) = unat b + k \<and> unat r < 2 ^ k"
proof (induction m arbitrary: r b)
  case 0
  then have "\<not> r > 0" by (simp add: word_less_nat_alt)
  then show ?case using 0 by (simp add: count_bits.simps [of r])
next
  case (Suc m)
  show ?case
  proof (cases "r > 0")
    case False
    then show ?thesis by (intro exI [of _ 0]) (simp add: count_bits.simps [of r] word_less_nat_alt)
  next
    case True
    have half: "unat (drop_bit 1 r) = unat r div 2" by (simp add: drop_bit_eq_div unat_div)
    have b: "unat (b + 1) = unat b + 1" using Suc.prems(2) by (simp add: unat_add_u32)
    from Suc.IH [of "drop_bit 1 r" "b + 1"] Suc.prems half b
    obtain k where "k \<le> m" "unat (count_bits (drop_bit 1 r) (b + 1)) = unat b + 1 + k" "unat r div 2 < 2 ^ k"
      by fastforce
    then have "Suc k \<le> Suc m \<and> unat (count_bits r b) = unat b + Suc k \<and> unat r < 2 ^ Suc k"
      using True by (simp add: count_bits.simps [of r])
    then show ?thesis by blast
  qed
qed

lemma bits_required_bound:
  assumes "sint mn \<le> sint mx"
  shows "0 < unat (bits_required mn mx)" and "unat (bits_required mn mx) \<le> 32"
    and "unat (mx - mn) < 2 ^ unat (bits_required mn mx)"
proof -
  have r: "word_of_int (sint mx - sint mn) = mx - mn" by simp
  obtain k where k: "k \<le> 32" "unat (count_bits (mx - mn) 0) = k" "unat (mx - mn) < 2 ^ k"
    using count_bits_bound [of "mx - mn" 32 0] unat_less_u32 [of "mx - mn"] by auto
  have c: "(count_bits (mx - mn) 0 = 0) = (k = 0)" using k(2) by (metis unat_eq_0)
  show "0 < unat (bits_required mn mx)" and "unat (bits_required mn mx) \<le> 32"
    and "unat (mx - mn) < 2 ^ unat (bits_required mn mx)"
    using k by (auto simp: bits_required_def r Let_def c)
qed

lemma emits_write_ranged:
  assumes "sint mn \<le> sint v" and "sint v \<le> sint mx"
  shows "bw.emits (write_ranged v mn mx) (ranged_bits v mn mx)"
proof -
  have "write_ranged v mn mx = write_bits (v - mn) (bits_required mn mx)"
    using assms by (simp add: write_ranged_def word_sless_alt)
  moreover have "sint mn \<le> sint mx" using assms by simp
  ultimately show ?thesis
    by (simp add: ranged_bits_def bw.emits_put bits_required_bound)
qed

lemma safe_read_ranged [decodes_intros]: "sint mn \<le> sint mx \<Longrightarrow> br.safe (read_ranged mn mx)"
  unfolding read_ranged_def by (intro br.safe_intros bits_required_bound)

lemma decodes_read_ranged:
  assumes "sint mn \<le> sint v" and "sint v \<le> sint mx"
  shows "br.decodes (read_ranged mn mx) (ranged_bits v mn mx) v"
proof -
  let ?n = "unat (bits_required mn mx)"
  have m: "sint mn \<le> sint mx" using assms by simp
  have "unat (v - mn) \<le> unat (mx - mn)" using sint_diff [OF assms(1)] sint_diff [OF m] assms(2) by linarith
  with bits_required_bound [OF m] have "unat (v - mn) < 2 ^ ?n" by simp
  then have "take_bit ?n (v - mn) = v - mn"
    unfolding word_unat_eq_iff unsigned_take_bit_eq by (rule take_bit_nat_eq_self)
  with bits_required_bound [OF m] decodes_read_bits [of "bits_required mn mx" "v - mn"]
  have "br.decodes (read_bits (bits_required mn mx)) (ranged_bits v mn mx) (v - mn)"
    by (simp add: ranged_bits_def)
  from br.decodes_map [OF this, of v "\<lambda>x. x + mn"] show ?thesis by (simp add: read_ranged_def)
qed


section \<open>Whole messages\<close>

text \<open>
  The idiom that ends every encoder, \<open>return writer.overflowed() ? 0 : writer.bytes_written()\<close>: the
  length and the buffer.
\<close>

definition finish_writer :: "(bit_writer, 'a) state \<Rightarrow> u8 list \<Rightarrow> u32 \<Rightarrow> u32 \<times> u8 list" where
  "finish_writer m out capacity =
     (let w = snd (run_state m (mk_writer out capacity))
      in if bw_overflow w then (0, bw_buffer w)
         else case run_state bytes_written w of (n, w) \<Rightarrow> (n, bw_buffer w))"

lemma finish_writer_fits:
  assumes "bw.emits m bs" and cap: "unat c \<le> length buf" "unat c < 268435456" and fit: "length bs \<le> 8 * unat c"
    and run: "finish_writer m buf c = (n, out)"
  shows "unat n = (length bs + 7) div 8" and "unat n \<le> length out" and "unat n \<le> unat c"
    and "bytes_bits (take (unat n) out) = bs @ replicate (8 * unat n - length bs) False"
proof -
  note w0 = mk_writer_wf [OF cap]
  obtain x w where m: "run_state m (mk_writer buf c) = (x, w)" by (cases "run_state m (mk_writer buf c)")
  note w = bw.emits_step [OF assms(1) w0(1) m]
  have bits: "bw_bits w = bs" and ok: "\<not> bw_overflow w" using w w0 fit by simp_all
  obtain k w' where k: "run_state bytes_written w = (k, w')" by (cases "run_state bytes_written w")
  note bytes = bytes_written_bits [OF w(1) k]
  have "n = k" and "out = bw_buffer w'" using run m ok k by (simp_all add: finish_writer_def)
  with bytes bits fit show "unat n = (length bs + 7) div 8" and "unat n \<le> length out" and "unat n \<le> unat c"
    and "bytes_bits (take (unat n) out) = bs @ replicate (8 * unat n - length bs) False" by auto
qed

lemma finish_writer_full:
  assumes "bw.emits m bs" and cap: "unat c \<le> length buf" "unat c < 268435456" and over: "8 * unat c < length bs"
  shows "fst (finish_writer m buf c) = 0"
proof -
  note w0 = mk_writer_wf [OF cap]
  obtain x w where m: "run_state m (mk_writer buf c) = (x, w)" by (cases "run_state m (mk_writer buf c)")
  have "bw_overflow w" using bw.emits_step(6) [OF assms(1) w0(1) m] w0 over by simp
  then show ?thesis by (simp add: finish_writer_def m)
qed

lemma mk_reader_wf:
  assumes "unat n \<le> length bytes" and "unat n < 268435456"
  shows "br_wf (mk_reader bytes n)" and "br_remaining (mk_reader bytes n) = bytes_bits (take (unat n) bytes)"
    and "\<not> br_overflow (mk_reader bytes n)"
proof -
  have "unat (n * 8) = unat n * 8" using assms(2) by (subst unat_mult_u32) simp_all
  then show "br_wf (mk_reader bytes n)" and "br_remaining (mk_reader bytes n) = bytes_bits (take (unat n) bytes)"
    and "\<not> br_overflow (mk_reader bytes n)"
    using assms take_bytes_bits [of "unat n" bytes]
    by (simp_all add: mk_reader_def br_wf_def br_remaining_def mult.commute)
qed

lemma reader_decodes:
  assumes "br.decodes m bs v" and "unat n \<le> length bytes" and "unat n < 268435456"
    and "bytes_bits (take (unat n) bytes) = bs @ rest"
  obtains r where "run_state m (mk_reader bytes n) = (v, r)" and "br_wf r" and "\<not> br_overflow r"
    and "br_remaining r = rest"
proof -
  note r0 = mk_reader_wf [OF assms(2,3)]
  show thesis by (rule br.decodes_run [OF assms(1) r0(1)]) (use r0 assms(4) that in auto)
qed

lemma reader_truncated:
  assumes "br.decodes m bs v" and "unat n \<le> length bytes" and "unat n < 268435456"
    and "strict_prefix (bytes_bits (take (unat n) bytes)) bs" and "run_state m (mk_reader bytes n) = (x, r)"
  shows "br_overflow r"
  using br.decodes_short [OF assms(1) mk_reader_wf(1) _ assms(5)] mk_reader_wf [OF assms(2,3)] assms by simp


lemma strict_prefix_short_bits:
  assumes "bytes_bits (take n out) = bs @ pad" and "n \<le> length out" and "k < n" and "n = (length bs + 7) div 8"
  shows "strict_prefix (bytes_bits (take k out)) bs"
proof -
  have "bytes_bits (take k out) = take (8 * k) (bytes_bits (take n out))"
    using assms(2,3) by (simp add: take_bytes_bits min_def)
  also have "\<dots> = take (8 * k) bs" using assms by simp
  finally have "bytes_bits (take k out) = take (8 * k) bs" .
  moreover have "8 * k < length bs" using assms(3,4) by linarith
  then have "length (take (8 * k) bs) \<noteq> length bs" by simp
  then have "take (8 * k) bs \<noteq> bs" by metis
  ultimately show ?thesis by (simp add: strict_prefix_def take_is_prefix)
qed

text \<open>An encoder and a decoder of the same bits: what is sent is received, and nothing shorter is.\<close>

lemma message_roundtrip:
  assumes m: "bw.emits m bs" and d: "brc.frames d bs v"
    and cap: "unat c \<le> length buf" "unat c < 268435456" and fit: "length bs \<le> 8 * unat c"
    and run: "finish_writer m buf c = (n, out)"
  shows "unat n = (length bs + 7) div 8" and "unat n \<le> unat c" and "unat n \<le> length out"
    and "fst (run_state d (mk_reader out n)) = Some v"
    and "unat k < unat n \<Longrightarrow> fst (run_state d (mk_reader out k)) = None"
proof -
  note out = finish_writer_fits [OF m cap fit run]
  from out show "unat n = (length bs + 7) div 8" "unat n \<le> unat c" "unat n \<le> length out" by simp_all
  have small: "unat n < 268435456" using out(3) cap(2) by simp
  note r = mk_reader_wf [OF out(2) small]
  show "fst (run_state d (mk_reader out n)) = Some v"
    using brc.framesD [OF d r(1) r(3)] r(2) out(4) by simp
  assume k: "unat k < unat n"
  then have kb: "unat k \<le> length out" "unat k < 268435456" using out(2) small by simp_all
  note rk = mk_reader_wf [OF kb]
  show "fst (run_state d (mk_reader out k)) = None"
    using brc.frames_truncated [OF d rk(1)] rk(2) strict_prefix_short_bits [OF out(4,2) k out(1)] by simp
qed


section \<open>Streams of fields\<close>

text \<open>
  A message is a sequence of fields. A field carries its value; its shape is what the reader knows
  in advance (the width, the range, the byte count).
\<close>

datatype field =
    F_bits u32 u32 | F_bool bool | F_u8 u8 | F_u16 u16 | F_u32 u32 | F_u64 u64 | F_float f32
  | F_ranged u32 u32 u32 | F_varint u32 | F_string "u8 list" | F_bytes "u8 list"

datatype shape =
    S_bits u32 | S_bool | S_u8 | S_u16 | S_u32 | S_u64 | S_float
  | S_ranged u32 u32 | S_varint | S_string | S_bytes u32

fun shape_of :: "field \<Rightarrow> shape" where
  "shape_of (F_bits v n) = S_bits n"
| "shape_of (F_bool b) = S_bool"
| "shape_of (F_u8 v) = S_u8"
| "shape_of (F_u16 v) = S_u16"
| "shape_of (F_u32 v) = S_u32"
| "shape_of (F_u64 v) = S_u64"
| "shape_of (F_float v) = S_float"
| "shape_of (F_ranged v mn mx) = S_ranged mn mx"
| "shape_of (F_varint v) = S_varint"
| "shape_of (F_string s) = S_string"
| "shape_of (F_bytes bs) = S_bytes (word_of_nat (length bs))"

fun write_field :: "field \<Rightarrow> (bit_writer, unit) state" where
  "write_field (F_bits v n) = write_bits v n"
| "write_field (F_bool b) = write_bool b"
| "write_field (F_u8 v) = write_u8 v"
| "write_field (F_u16 v) = write_u16 v"
| "write_field (F_u32 v) = write_u32 v"
| "write_field (F_u64 v) = write_u64 v"
| "write_field (F_float v) = write_float v"
| "write_field (F_ranged v mn mx) = write_ranged v mn mx"
| "write_field (F_varint v) = write_varint v"
| "write_field (F_string s) = write_string s"
| "write_field (F_bytes bs) = write_bytes bs (word_of_nat (length bs))"

fun read_field :: "shape \<Rightarrow> (bit_reader, field) state" where
  "read_field (S_bits n) = do { v \<leftarrow> read_bits n; State_Monad.return (F_bits v n) }"
| "read_field S_bool = do { b \<leftarrow> read_bool; State_Monad.return (F_bool b) }"
| "read_field S_u8 = do { v \<leftarrow> read_u8; State_Monad.return (F_u8 v) }"
| "read_field S_u16 = do { v \<leftarrow> read_u16; State_Monad.return (F_u16 v) }"
| "read_field S_u32 = do { v \<leftarrow> read_u32; State_Monad.return (F_u32 v) }"
| "read_field S_u64 = do { v \<leftarrow> read_u64; State_Monad.return (F_u64 v) }"
| "read_field S_float = do { v \<leftarrow> read_float; State_Monad.return (F_float v) }"
| "read_field (S_ranged mn mx) = do { v \<leftarrow> read_ranged mn mx; State_Monad.return (F_ranged v mn mx) }"
| "read_field S_varint = do { v \<leftarrow> read_varint; State_Monad.return (F_varint v) }"
| "read_field S_string = do { s \<leftarrow> read_string; State_Monad.return (F_string s) }"
| "read_field (S_bytes n) = do { bs \<leftarrow> read_bytes [] n; State_Monad.return (F_bytes bs) }"

fun read_fields :: "shape list \<Rightarrow> (bit_reader, field list) state" where
  "read_fields [] = State_Monad.return []"
| "read_fields (s # ss) = do { f \<leftarrow> read_field s; fs \<leftarrow> read_fields ss; State_Monad.return (f # fs) }"

fun field_bits :: "field \<Rightarrow> bool list" where
  "field_bits (F_bits v n) = bits_of v (unat n)"
| "field_bits (F_bool b) = [b]"
| "field_bits (F_u8 v) = bits_of v 8"
| "field_bits (F_u16 v) = bits_of v 16"
| "field_bits (F_u32 v) = bits_of v 32"
| "field_bits (F_u64 v) = bits_of v 64"
| "field_bits (F_float v) = bits_of v 32"
| "field_bits (F_ranged v mn mx) = ranged_bits v mn mx"
| "field_bits (F_varint v) = bytes_bits (varint_bytes v)"
| "field_bits (F_string s) = string_bits s"
| "field_bits (F_bytes bs) = bytes_bits bs"

text \<open>The fields the stream represents exactly: the value is within its width, range or length.\<close>

fun field_ok :: "field \<Rightarrow> bool" where
  "field_ok (F_bits v n) \<longleftrightarrow> 0 < unat n \<and> unat n \<le> 32 \<and> unat v < 2 ^ unat n"
| "field_ok (F_ranged v mn mx) \<longleftrightarrow> sint mn \<le> sint v \<and> sint v \<le> sint mx"
| "field_ok (F_string s) \<longleftrightarrow> length s \<le> 1023"
| "field_ok (F_bytes bs) \<longleftrightarrow> length bs < 4294967296"
| "field_ok _ \<longleftrightarrow> True"

lemma take_bit_small: "unat v < 2 ^ n \<Longrightarrow> take_bit n v = (v :: 'a::len word)"
  unfolding word_unat_eq_iff unsigned_take_bit_eq by (rule take_bit_nat_eq_self)

lemma emits_write_field: "field_ok f \<Longrightarrow> bw.emits (write_field f) (field_bits f)"
  by (cases f) (auto intro!: emits_intros emits_write_ranged bw.emits_put simp: unat_of_nat_less)

lemma decodes_read_field: "field_ok f \<Longrightarrow> br.decodes (read_field (shape_of f)) (field_bits f) f"
proof (cases f)
  case (F_bits v n)
  assume "field_ok f"
  with F_bits have "br.decodes (read_bits n) (bits_of v (unat n)) v"
    using decodes_read_bits [of n v] by (simp add: take_bit_small)
  from br.decodes_map [OF this refl, of "\<lambda>v. F_bits v n"] F_bits show ?thesis by simp
qed (auto intro!: br.decodes_map decodes_intros decodes_read_ranged simp: unat_of_nat_less)

lemma decodes_read_fields:
  "list_all field_ok fs \<Longrightarrow> br.decodes (read_fields (map shape_of fs)) (concat (map field_bits fs)) fs"
proof (induction fs)
  case Nil
  then show ?case by (simp add: br.decodes_return)
next
  case (Cons f fs)
  have rest: "br.decodes (read_fields (map shape_of fs)) (concat (map field_bits fs)) fs" using Cons by simp
  have f: "br.decodes (read_field (shape_of f)) (field_bits f) f" using Cons by (simp add: decodes_read_field)
  have "br.decodes (read_fields (map shape_of fs) \<bind> (\<lambda>fs. State_Monad.return (f # fs))) (concat (map field_bits fs)) (f # fs)"
    by (rule br.decodes_map [OF rest refl])
  then show ?case
    by (auto intro!: br.decodes_bind [OF f] br.safe_intros br.decodes_safe [OF rest])
qed

text \<open>
  C11: the bit stream is a faithful channel. Writing any sequence of in-range fields into a buffer
  that has room for their bits gives, without an overflow, the number of bytes that hold those bits,
  within the capacity, and reading the same shapes back from that many bytes returns the same fields
  without an overflow.
\<close>

theorem fields_roundtrip:
  assumes "list_all field_ok fs" and "unat c \<le> length buf" and "unat c < 268435456"
    and "length (concat (map field_bits fs)) \<le> 8 * unat c"
    and "finish_writer (for_each write_field fs) buf c = (n, out)"
  shows "unat n = (length (concat (map field_bits fs)) + 7) div 8 \<and> unat n \<le> unat c \<and>
    (\<exists>r. run_state (read_fields (map shape_of fs)) (mk_reader out n) = (fs, r) \<and> \<not> br_overflow r)"
proof -
  have "bw.emits (for_each write_field fs) (concat (map field_bits fs))"
    using assms(1) by (intro bw.emits_for_each emits_write_field) (simp add: list_all_iff)
  note out = finish_writer_fits [OF this assms(2-5)]
  have small: "unat n < 268435456" using out(3) assms(3) by simp
  obtain r where "run_state (read_fields (map shape_of fs)) (mk_reader out n) = (fs, r)" "\<not> br_overflow r"
    by (rule reader_decodes [OF decodes_read_fields [OF assms(1)] out(2) small out(4)])
  with out show ?thesis by auto
qed


definition sample_fields :: "field list" where
  "sample_fields = [F_bits 5 3, F_bool True, F_varint 300, F_ranged 7 (- 2) 20, F_string [104, 105]]"

theorem fields_roundtrip_witness:
  "\<exists>n out r. finish_writer (for_each write_field sample_fields) (replicate 16 0) 16 = (n, out) \<and> unat n = 7 \<and>
     run_state (read_fields (map shape_of sample_fields)) (mk_reader out n) = (sample_fields, r) \<and> \<not> br_overflow r"
proof -
  obtain n out where run: "finish_writer (for_each write_field sample_fields) (replicate 16 0) 16 = (n, out)"
    by (cases "finish_writer (for_each write_field sample_fields) (replicate 16 0) 16")
  have ok: "list_all field_ok sample_fields" by code_simp
  have len: "length (concat (map field_bits sample_fields)) = 49" by code_simp
  from fields_roundtrip [OF ok _ _ _ run] run show ?thesis by (simp add: len)
qed


text \<open>
  No partial messages. A sequence of in-range fields that does not fit the capacity is reported
  as length 0 by the writer, and a message that fits but arrives cut short by at least one byte
  latches the reader's overflow flag.
\<close>

theorem fields_all_or_nothing:
  assumes "list_all field_ok fs" and "unat c \<le> length buf" and "unat c < 268435456"
    and "finish_writer (for_each write_field fs) buf c = (n, out)"
  shows "(8 * unat c < length (concat (map field_bits fs)) \<longrightarrow> n = 0) \<and>
    (length (concat (map field_bits fs)) \<le> 8 * unat c \<longrightarrow> (\<forall>k. unat k < unat n \<longrightarrow>
       br_overflow (snd (run_state (read_fields (map shape_of fs)) (mk_reader out k)))))"
proof (intro conjI impI allI)
  let ?bs = "concat (map field_bits fs)"
  have em: "bw.emits (for_each write_field fs) ?bs"
    using assms(1) by (intro bw.emits_for_each emits_write_field) (simp add: list_all_iff)
  show "n = 0" if "8 * unat c < length ?bs"
    using finish_writer_full [OF em assms(2,3) that] assms(4) by simp
  fix k :: u32
  assume fit: "length ?bs \<le> 8 * unat c" and k: "unat k < unat n"
  note out = finish_writer_fits [OF em assms(2,3) fit assms(4)]
  obtain x r where run: "run_state (read_fields (map shape_of fs)) (mk_reader out k) = (x, r)"
    by (cases "run_state (read_fields (map shape_of fs)) (mk_reader out k)")
  have "br_overflow r"
    by (rule reader_truncated [OF decodes_read_fields [OF assms(1)] _ _ _ run])
      (use out assms(3) k strict_prefix_short_bits [OF out(4,2) k out(1)] in auto)
  with run show "br_overflow (snd (run_state (read_fields (map shape_of fs)) (mk_reader out k)))" by simp
qed

theorem fields_all_or_nothing_witness:
  "fst (finish_writer (for_each write_field sample_fields) (replicate 16 0) 6) = 0 \<and>
   (\<exists>n out. finish_writer (for_each write_field sample_fields) (replicate 16 0) 16 = (n, out) \<and>
     br_overflow (snd (run_state (read_fields (map shape_of sample_fields)) (mk_reader out 6))))"
proof -
  obtain n out where run: "finish_writer (for_each write_field sample_fields) (replicate 16 0) 16 = (n, out)"
    by (cases "finish_writer (for_each write_field sample_fields) (replicate 16 0) 16")
  obtain m out' where run': "finish_writer (for_each write_field sample_fields) (replicate 16 0) 6 = (m, out')"
    by (cases "finish_writer (for_each write_field sample_fields) (replicate 16 0) 6")
  have ok: "list_all field_ok sample_fields" by code_simp
  have len: "length (concat (map field_bits sample_fields)) = 49" by code_simp
  have "m = 0" using fields_all_or_nothing [OF ok _ _ run'] by (simp add: len)
  moreover have "bw.emits (for_each write_field sample_fields) (concat (map field_bits sample_fields))"
    using ok by (intro bw.emits_for_each emits_write_field) (simp add: list_all_iff)
  from finish_writer_fits(1) [OF this _ _ _ run] have "unat n = 7" by (simp add: len)
  then have "br_overflow (snd (run_state (read_fields (map shape_of sample_fields)) (mk_reader out 6)))"
    using fields_all_or_nothing [OF ok _ _ run] by (simp add: len)
  ultimately show ?thesis using run run' by auto
qed

text \<open>
  The writer stays inside its buffer. On a well-formed writer \<open>write_bits\<close> of 1 to 32 bits keeps
  the writer well-formed and never touches a byte at or behind the capacity; it appends exactly the
  low bits of the value when they fit, and otherwise only sets the overflow flag.
\<close>

theorem write_bits_appends:
  assumes "bw_wf w" and "0 < unat n" and "unat n \<le> 32"
  shows "bw_wf (bw_write_bits v n w) \<and>
    drop (unat (bw_capacity_bits w) div 8) (bw_buffer (bw_write_bits v n w)) =
      drop (unat (bw_capacity_bits w) div 8) (bw_buffer w) \<and>
    (if unat n \<le> bw_room w
     then bw_bits (bw_write_bits v n w) = bw_bits w @ bits_of v (unat n) \<and>
          bw_room (bw_write_bits v n w) = bw_room w - unat n \<and>
          bw_overflow (bw_write_bits v n w) = bw_overflow w
     else bw_write_bits v n w = w\<lparr>bw_overflow := True\<rparr>)"
proof (cases "unat n \<le> bw_room w")
  case True
  note fits = bw_write_bits_fits [OF assms True, of v]
  have "bw_room (bw_write_bits v n w) = bw_room w - unat n" using fits(3) by linarith
  with fits True show ?thesis by simp
next
  case False
  with assms show ?thesis by (simp add: bw_write_bits_full)
qed

theorem write_bits_appends_witness:
  "bw_wf (mk_writer [1, 2, 3] 2) \<and> bw_bits (bw_write_bits 5 3 (mk_writer [1, 2, 3] 2)) = [True, False, True] \<and>
   drop 2 (bw_buffer (bw_write_bits 5 3 (mk_writer [1, 2, 3] 2))) = [3]"
proof -
  have wf: "bw_wf (mk_writer [1, 2, 3] 2)" and room: "bw_room (mk_writer [1, 2, 3] 2) = 16"
    and bits: "bw_bits (mk_writer [1, 2, 3] 2) = []"
    using mk_writer_wf [of 2 "[1, 2, 3]"] by simp_all
  have "bits_of (5 :: u32) 3 = [True, False, True]" by code_simp
  with write_bits_appends [OF wf, of 3 5] wf room bits show ?thesis by (simp add: mk_writer_def)
qed

end
