(* ===== verification/F32.thy ===== *)
theory F32
  imports Prelude Complex_Main
begin

text \<open>
  The \<open>float\<close> arithmetic of the program: IEEE 754 binary32, round to nearest even, on bit patterns.
  Every finite value is an integer number of units of \<open>2 ^ -149\<close>, so the operations are exact integer
  computations followed by one rounding. The rounding is the provider of the locale below; the
  bounds and the monotonicity that the quantizer, the grid and the regions rely on follow from its
  laws. The C++ sources are taken to be compiled for binary32 with no excess precision and no
  contraction of products and sums. All NaNs an operation produces are the same quiet NaN.
\<close>

section \<open>Rounding\<close>

text \<open>The magnitude of a finite bit pattern (sign removed), in units of the least subnormal.\<close>

definition mag_units :: "int \<Rightarrow> int" where
  "mag_units b = (if b < 2 ^ 23 then b else (2 ^ 23 + b mod 2 ^ 23) * 2 ^ nat (b div 2 ^ 23 - 1))"

abbreviation inf_mag :: int where
  "inf_mag \<equiv> 255 * 2 ^ 23"

text \<open>How often a magnitude has to be halved until it fits the 24-bit significand.\<close>

function expo :: "int \<Rightarrow> nat" where
  "expo n = (if n < 2 ^ 24 then 0 else Suc (expo (n div 2)))"
  by pat_completeness auto
termination
  by (relation "measure nat") auto

declare expo.simps [simp del]

text \<open>The magnitude pattern nearest to \<open>num / den\<close> units, ties to even, infinity when too large.\<close>

definition rnd :: "int \<Rightarrow> int \<Rightarrow> int" where
  "rnd num den =
     (let e = expo (num div den);
          d = den * 2 ^ e;
          m = num div d;
          r = num mod d;
          b = int e * 2 ^ 23 + (if d < 2 * r \<or> d = 2 * r \<and> odd m then m + 1 else m)
      in min b inf_mag)"

lemma expo_bounds:
  "0 \<le> n \<Longrightarrow> n div 2 ^ expo n < 2 ^ 24 \<and> (expo n \<noteq> 0 \<longrightarrow> 2 ^ 23 \<le> n div 2 ^ expo n)"
proof (induction n rule: expo.induct)
  case (1 n)
  show ?case
  proof (cases "n < 2 ^ 24")
    case True
    then show ?thesis by (simp add: expo.simps [of n])
  next
    case False
    have e: "expo n = Suc (expo (n div 2))" using False by (simp add: expo.simps [of n])
    have IH: "n div 2 div 2 ^ expo (n div 2) < 2 ^ 24 \<and>
        (expo (n div 2) \<noteq> 0 \<longrightarrow> 2 ^ 23 \<le> n div 2 div 2 ^ expo (n div 2))"
      by (rule "1.IH") (use False 1 in auto)
    have d: "n div 2 ^ Suc k = n div 2 div 2 ^ k" for k by (simp add: zdiv_zmult2_eq)
    show ?thesis
    proof (cases "expo (n div 2) = 0")
      case True
      have "2 ^ 23 \<le> n div 2" using False by simp
      with IH True show ?thesis unfolding e d by simp
    next
      case nz: False
      with IH show ?thesis unfolding e d by simp
    qed
  qed
qed

lemma mag_units_pattern:
  assumes "0 \<le> m" and "m \<le> 2 ^ 24" and "e \<noteq> 0 \<Longrightarrow> 2 ^ 23 \<le> m"
  shows "mag_units (int e * 2 ^ 23 + m) = m * 2 ^ e"
proof -
  consider "m < 2 ^ 23" | "2 ^ 23 \<le> m" "m < 2 ^ 24" | "m = 2 ^ 24" using assms(2) by linarith
  then show ?thesis
  proof cases
    case 1
    with assms(3) have "e = 0" by linarith
    with 1 show ?thesis by (simp add: mag_units_def)
  next
    case 2
    define k where "k = m - 2 ^ 23"
    have k: "m = 2 ^ 23 + k" "0 \<le> k" "k < 2 ^ 23" using 2 by (simp_all add: k_def)
    have "int e * 2 ^ 23 + m = k + (int e + 1) * 2 ^ 23" by (simp add: k algebra_simps)
    moreover have "(k + (int e + 1) * 2 ^ 23) div 2 ^ 23 = int e + 1"
      and "(k + (int e + 1) * 2 ^ 23) mod 2 ^ 23 = k"
      using k by (simp_all del: power_numeral add: div_mult_self1 mod_mult_self1)
    moreover have "\<not> k + (int e + 1) * 2 ^ 23 < 2 ^ 23" using k by (simp add: algebra_simps)
    ultimately show ?thesis unfolding mag_units_def by (simp add: k(1))
  next
    case 3
    have "int e * 2 ^ 23 + m = (int e + 2) * 2 ^ 23" by (simp add: 3 algebra_simps)
    then show ?thesis by (simp add: mag_units_def 3 nat_add_distrib)
  qed
qed

lemma mag_units_Suc:
  assumes "0 \<le> b"
  shows "mag_units (b + 1) = mag_units b + 2 ^ nat (b div 2 ^ 23 - 1)"
proof (cases "b < 2 ^ 23")
  case True
  have "mag_units (b + 1) = b + 1"
    using mag_units_pattern [of "b + 1" 0] assms True by simp
  moreover have "b div 2 ^ 23 = 0" using assms True by simp
  ultimately show ?thesis using True by (simp add: mag_units_def)
next
  case False
  define e where "e = nat (b div 2 ^ 23 - 1)"
  define m where "m = 2 ^ 23 + b mod 2 ^ 23"
  have "1 \<le> b div 2 ^ 23" using False by (simp add: zdiv_mono1 [of "2 ^ 23" b "2 ^ 23", simplified])
  then have e: "int e = b div 2 ^ 23 - 1" by (simp add: e_def)
  have b: "b = int e * 2 ^ 23 + m"
    using mult_div_mod_eq [of "2 ^ 23" b] by (simp add: e m_def algebra_simps)
  have m: "2 ^ 23 \<le> m" "m < 2 ^ 24" by (simp_all add: m_def)
  have "mag_units b = m * 2 ^ e" unfolding b using m by (intro mag_units_pattern) simp_all
  moreover have "mag_units (b + 1) = (m + 1) * 2 ^ e"
    unfolding b add.assoc using m by (intro mag_units_pattern) simp_all
  ultimately show ?thesis unfolding e_def [symmetric] by (simp add: algebra_simps)
qed

lemma mag_units_step: "0 \<le> b \<Longrightarrow> mag_units b < mag_units (b + 1)"
proof -
  assume "0 \<le> b"
  moreover have "0 < (2 :: int) ^ nat (b div 2 ^ 23 - 1)" by (rule zero_less_power) simp
  ultimately show ?thesis using mag_units_Suc [of b] by linarith
qed

lemma mag_units_mono: "a \<le> b \<Longrightarrow> 0 \<le> a \<Longrightarrow> mag_units a \<le> mag_units b"
proof (induction b rule: int_ge_induct)
  case base
  then show ?case by simp
next
  case (step i)
  then show ?case using mag_units_step [of i] by simp
qed

lemma mag_units_less: "a < b \<Longrightarrow> 0 \<le> a \<Longrightarrow> mag_units a < mag_units b"
  using mag_units_step [of a] mag_units_mono [of "a + 1" b] by simp

lemma mag_units_0 [simp]: "mag_units 0 = 0"
  by (simp add: mag_units_def)

lemma mag_units_nonneg: "0 \<le> b \<Longrightarrow> 0 \<le> mag_units b"
  using mag_units_mono [of 0 b] by simp

lemma mag_units_le_iff: "0 \<le> a \<Longrightarrow> 0 \<le> b \<Longrightarrow> mag_units a \<le> mag_units b \<longleftrightarrow> a \<le> b"
  using mag_units_mono [of a b] mag_units_less [of b a] by linarith

text \<open>
  The rounding picks, of the two neighbouring patterns around the exact value, the nearer one, and
  the even one half-way.
\<close>

lemma rnd_neighbours:
  assumes "0 \<le> num" and "0 < den"
  obtains b where "0 \<le> b" and "mag_units b * den \<le> num" and "num < mag_units (b + 1) * den"
    and "rnd num den =
      min (if (mag_units b + mag_units (b + 1)) * den < 2 * num \<or>
              (mag_units b + mag_units (b + 1)) * den = 2 * num \<and> odd b then b + 1 else b) inf_mag"
proof -
  define e where "e = expo (num div den)"
  define d where "d = den * 2 ^ e"
  define m where "m = num div d"
  define r where "r = num mod d"
  define b where "b = int e * 2 ^ 23 + m"
  have q: "0 \<le> num div den" using assms by (simp add: pos_imp_zdiv_nonneg_iff)
  have d: "0 < d" using assms by (simp add: d_def)
  have m_eq: "m = num div den div 2 ^ e" using assms by (simp add: m_def d_def zdiv_zmult2_eq)
  have m: "0 \<le> m" "m < 2 ^ 24" "e \<noteq> 0 \<Longrightarrow> 2 ^ 23 \<le> m"
    using expo_bounds [OF q] q by (simp_all add: m_eq e_def pos_imp_zdiv_nonneg_iff)
  have lo: "mag_units b = m * 2 ^ e" unfolding b_def using m by (intro mag_units_pattern) simp_all
  have "mag_units (int e * 2 ^ 23 + (m + 1)) = (m + 1) * 2 ^ e" using m by (intro mag_units_pattern) simp_all
  then have hi: "mag_units (b + 1) = (m + 1) * 2 ^ e" by (simp add: b_def add.assoc)
  have lo': "mag_units b * den = m * d" and hi': "mag_units (b + 1) * den = m * d + d"
    unfolding lo hi d_def by (simp_all add: algebra_simps)
  have num: "num = m * d + r" by (simp add: m_def r_def)
  have r: "0 \<le> r" "r < d" using d by (simp_all add: r_def)
  have "odd b \<longleftrightarrow> odd m" by (simp add: b_def)
  moreover have "(mag_units b + mag_units (b + 1)) * den = 2 * (m * d) + d"
    using lo' hi' by (simp add: distrib_right)
  moreover have "rnd num den = min (int e * 2 ^ 23 + (if d < 2 * r \<or> d = 2 * r \<and> odd m then m + 1 else m)) inf_mag"
    unfolding rnd_def Let_def e_def [symmetric] d_def [symmetric] m_def [symmetric] r_def [symmetric] ..
  ultimately have "rnd num den = min (if (mag_units b + mag_units (b + 1)) * den < 2 * num \<or>
              (mag_units b + mag_units (b + 1)) * den = 2 * num \<and> odd b then b + 1 else b) inf_mag"
    unfolding num by (simp add: b_def algebra_simps)
  moreover have "0 \<le> b" using m(1) by (simp add: b_def)
  ultimately show thesis by (rule that [rotated 3]) (use lo' hi' num r in simp_all)
qed

lemma rnd_mono:
  assumes "0 \<le> n1" and "0 \<le> n2" and "0 < d1" and "0 < d2" and le: "n1 * d2 \<le> n2 * d1"
  shows "rnd n1 d1 \<le> rnd n2 d2"
proof -
  obtain b1 where b1: "0 \<le> b1" "mag_units b1 * d1 \<le> n1" "n1 < mag_units (b1 + 1) * d1"
    and r1: "rnd n1 d1 = min (if (mag_units b1 + mag_units (b1 + 1)) * d1 < 2 * n1 \<or>
              (mag_units b1 + mag_units (b1 + 1)) * d1 = 2 * n1 \<and> odd b1 then b1 + 1 else b1) inf_mag"
    using assms(1,3) by (rule rnd_neighbours)
  obtain b2 where b2: "0 \<le> b2" "mag_units b2 * d2 \<le> n2" "n2 < mag_units (b2 + 1) * d2"
    and r2: "rnd n2 d2 = min (if (mag_units b2 + mag_units (b2 + 1)) * d2 < 2 * n2 \<or>
              (mag_units b2 + mag_units (b2 + 1)) * d2 = 2 * n2 \<and> odd b2 then b2 + 1 else b2) inf_mag"
    using assms(2,4) by (rule rnd_neighbours)
  have cross: "x * d1 * d2 < y * d2 * d1 \<longleftrightarrow> x < y" "x * d1 * d2 \<le> y * d2 * d1 \<longleftrightarrow> x \<le> y" for x y
    using assms(3,4) by (simp_all add: mult.assoc mult.commute [of d1 d2])
  have "mag_units b1 * d1 * d2 \<le> n1 * d2" using b1(2) assms(4) by simp
  also have "\<dots> \<le> n2 * d1" by (rule le)
  also have "\<dots> < mag_units (b2 + 1) * d2 * d1" using b2(3) assms(3) by simp
  finally have "mag_units b1 < mag_units (b2 + 1)" by (simp only: cross)
  then have "b1 < b2 + 1" using mag_units_le_iff [of "b2 + 1" b1] b1(1) b2(1) by linarith
  then consider "b1 < b2" | "b1 = b2" by linarith
  then show ?thesis
  proof cases
    case 1
    then show ?thesis unfolding r1 r2 by auto
  next
    case 2
    let ?s = "mag_units b1 + mag_units (b1 + 1)"
    have 1: "?s * d2 < 2 * n2" if "?s * d1 < 2 * n1"
    proof -
      have "?s * d1 * d2 < 2 * n1 * d2" using that assms(4) by simp
      also have "\<dots> \<le> 2 * n2 * d1" using le by simp
      finally have "?s * d2 * d1 < 2 * n2 * d1" by (simp only: mult.assoc mult.commute [of d1 d2])
      then show ?thesis using assms(3) by simp
    qed
    have 2: "?s * d2 \<le> 2 * n2" if "?s * d1 = 2 * n1"
    proof -
      have "?s * d2 * d1 = 2 * n1 * d2" using that by (metis mult.assoc mult.commute)
      also have "\<dots> \<le> 2 * n2 * d1" using le by simp
      finally show ?thesis using assms(3) by simp
    qed
    from 1 2 show ?thesis unfolding r1 r2 \<open>b1 = b2\<close> [symmetric] by fastforce
  qed
qed

lemma rnd_exact:
  assumes "0 \<le> b" and "b \<le> inf_mag" and "0 < den"
  shows "rnd (mag_units b * den) den = b"
proof -
  have "0 \<le> mag_units b * den" using assms mag_units_nonneg [of b] by simp
  then obtain c where c: "0 \<le> c" "mag_units c * den \<le> mag_units b * den" "mag_units b * den < mag_units (c + 1) * den"
    and r: "rnd (mag_units b * den) den = min (if (mag_units c + mag_units (c + 1)) * den < 2 * (mag_units b * den) \<or>
              (mag_units c + mag_units (c + 1)) * den = 2 * (mag_units b * den) \<and> odd c then c + 1 else c) inf_mag"
    using assms(3) by (rule rnd_neighbours)
  have "c \<le> b" using c assms mag_units_le_iff [of c b] by simp
  moreover have "b \<le> c" using c assms mag_units_le_iff [of "c + 1" b] by simp
  ultimately have "c = b" by simp
  moreover have "mag_units b * den < mag_units (b + 1) * den" using assms mag_units_step [of b] by simp
  ultimately show ?thesis using r assms(2,3) by (auto simp: distrib_right mult.commute [of den])
qed

text \<open>The interface the clients of the rounding rely on: it is monotone and exact on the patterns.\<close>

locale rounding =
  fixes units :: "int \<Rightarrow> int" and rounded :: "int \<Rightarrow> int \<Rightarrow> int" and top :: int
  assumes rounded_mono: "0 \<le> n1 \<Longrightarrow> 0 \<le> n2 \<Longrightarrow> 0 < d1 \<Longrightarrow> 0 < d2 \<Longrightarrow> n1 * d2 \<le> n2 * d1 \<Longrightarrow> rounded n1 d1 \<le> rounded n2 d2"
    and rounded_exact: "0 \<le> b \<Longrightarrow> b \<le> top \<Longrightarrow> 0 < d \<Longrightarrow> rounded (units b * d) d = b"
    and units_nonneg: "0 \<le> b \<Longrightarrow> 0 \<le> units b"
    and units_zero: "units 0 = 0"
    and top_nonneg: "0 \<le> top"
begin

lemma rounded_le: "0 \<le> n \<Longrightarrow> 0 < d \<Longrightarrow> 0 \<le> b \<Longrightarrow> b \<le> top \<Longrightarrow> n \<le> units b * d \<Longrightarrow> rounded n d \<le> b"
  using rounded_mono [of n "units b * d" d d] rounded_exact [of b d] units_nonneg [of b] by simp

lemma rounded_ge: "0 \<le> n \<Longrightarrow> 0 < d \<Longrightarrow> 0 \<le> b \<Longrightarrow> b \<le> top \<Longrightarrow> units b * d \<le> n \<Longrightarrow> b \<le> rounded n d"
  using rounded_mono [of "units b * d" n d d] rounded_exact [of b d] units_nonneg [of b] by simp

lemma rounded_nonneg: "0 \<le> n \<Longrightarrow> 0 < d \<Longrightarrow> 0 \<le> rounded n d"
  using rounded_ge [of n d 0] units_zero top_nonneg by simp

lemma rounded_zero: "0 < d \<Longrightarrow> rounded 0 d = 0"
  using rounded_exact [of 0 d] units_zero top_nonneg by simp

end

interpretation f32: rounding mag_units rnd inf_mag
  by unfold_locales (simp_all add: rnd_mono rnd_exact mag_units_nonneg)

lemma rnd_le_inf: "rnd n d \<le> inf_mag"
  by (simp add: rnd_def Let_def)


section \<open>Bit patterns\<close>

definition f_sign :: "f32 \<Rightarrow> bool" where
  "f_sign x = bit x 31"

definition f_mag :: "f32 \<Rightarrow> int" where
  "f_mag x = uint (x AND 0x7fffffff)"

definition f_finite :: "f32 \<Rightarrow> bool" where
  "f_finite x \<longleftrightarrow> f_mag x < inf_mag"

definition f_isinf :: "f32 \<Rightarrow> bool" where
  "f_isinf x \<longleftrightarrow> f_mag x = inf_mag"

definition f_isnan :: "f32 \<Rightarrow> bool" where
  "f_isnan x \<longleftrightarrow> inf_mag < f_mag x"

definition f_make :: "bool \<Rightarrow> int \<Rightarrow> f32" where
  "f_make s m = (if s then 0x80000000 else 0) OR word_of_int m"

definition f_nan :: f32 where
  "f_nan = 0x7fc00000"

text \<open>The value of a finite pattern in units, and the position of a pattern in the order of values.\<close>

definition f_units :: "f32 \<Rightarrow> int" where
  "f_units x = (if f_sign x then - mag_units (f_mag x) else mag_units (f_mag x))"

definition f_key :: "f32 \<Rightarrow> int" where
  "f_key x = (if f_sign x then - f_mag x else f_mag x)"

text \<open>The pattern nearest to a ratio of units; the flag is the sign of a zero result.\<close>

definition f_of_ratio :: "bool \<Rightarrow> int \<Rightarrow> int \<Rightarrow> f32" where
  "f_of_ratio neg_zero num den = f_make (num < 0 \<or> num = 0 \<and> neg_zero) (rnd \<bar>num\<bar> den)"


section \<open>Operations\<close>

definition f_neg :: "f32 \<Rightarrow> f32" where
  "f_neg x = x XOR 0x80000000"

definition f_abs :: "f32 \<Rightarrow> f32" where
  "f_abs x = x AND 0x7fffffff"

definition f_add :: "f32 \<Rightarrow> f32 \<Rightarrow> f32" where
  "f_add x y =
     (if f_isnan x \<or> f_isnan y then f_nan
      else if f_isinf x then (if f_isinf y \<and> f_sign x \<noteq> f_sign y then f_nan else x)
      else if f_isinf y then y
      else f_of_ratio (f_sign x \<and> f_sign y) (f_units x + f_units y) 1)"

definition f_sub :: "f32 \<Rightarrow> f32 \<Rightarrow> f32" where
  "f_sub x y = f_add x (f_neg y)"

definition f_mul :: "f32 \<Rightarrow> f32 \<Rightarrow> f32" where
  "f_mul x y =
     (let s = (f_sign x \<noteq> f_sign y)
      in if f_isnan x \<or> f_isnan y then f_nan
         else if f_isinf x \<or> f_isinf y
         then (if f_mag x = 0 \<or> f_mag y = 0 then f_nan else f_make s inf_mag)
         else f_of_ratio s (f_units x * f_units y) (2 ^ 149))"

definition f_div :: "f32 \<Rightarrow> f32 \<Rightarrow> f32" where
  "f_div x y =
     (let s = (f_sign x \<noteq> f_sign y)
      in if f_isnan x \<or> f_isnan y then f_nan
         else if f_isinf x then (if f_isinf y then f_nan else f_make s inf_mag)
         else if f_isinf y then f_make s 0
         else if f_mag y = 0 then (if f_mag x = 0 then f_nan else f_make s inf_mag)
         else f_make s (rnd (mag_units (f_mag x) * 2 ^ 149) (mag_units (f_mag y))))"

definition f_lt :: "f32 \<Rightarrow> f32 \<Rightarrow> bool" where
  "f_lt x y \<longleftrightarrow> \<not> f_isnan x \<and> \<not> f_isnan y \<and> f_key x < f_key y"

definition f_le :: "f32 \<Rightarrow> f32 \<Rightarrow> bool" where
  "f_le x y \<longleftrightarrow> \<not> f_isnan x \<and> \<not> f_isnan y \<and> f_key x \<le> f_key y"

definition f_eq :: "f32 \<Rightarrow> f32 \<Rightarrow> bool" where
  "f_eq x y \<longleftrightarrow> \<not> f_isnan x \<and> \<not> f_isnan y \<and> f_key x = f_key y"

definition f_of_int :: "int \<Rightarrow> f32" where
  "f_of_int n = f_of_ratio False (n * 2 ^ 149) 1"

text \<open>
  Conversion to an integer type drops the fraction. A value whose integer part does not fit the type
  is undefined behaviour in C++ and has no result here.
\<close>

definition f_trunc :: "f32 \<Rightarrow> int option" where
  "f_trunc x =
     (if f_finite x
      then Some (if f_sign x then - (mag_units (f_mag x) div 2 ^ 149) else mag_units (f_mag x) div 2 ^ 149)
      else None)"

definition f_to_u32 :: "f32 \<Rightarrow> u32 option" where
  "f_to_u32 x = Option.bind (f_trunc x) (\<lambda>n. if 0 \<le> n \<and> n < 2 ^ 32 then Some (word_of_int n) else None)"

definition f_to_i32 :: "f32 \<Rightarrow> u32 option" where
  "f_to_i32 x = Option.bind (f_trunc x) (\<lambda>n. if - (2 ^ 31) \<le> n \<and> n < 2 ^ 31 then Some (word_of_int n) else None)"

text \<open>
  Square root: the integer square root of the scaled value has at least 75 bits, so one sticky bit
  below it decides the rounding as the exact root would.
\<close>

function isqrt :: "int \<Rightarrow> int" where
  "isqrt n = (if n < 1 then 0 else let r = 2 * isqrt (n div 4) in if (r + 1) * (r + 1) \<le> n then r + 1 else r)"
  by pat_completeness auto
termination
  by (relation "measure nat") auto

declare isqrt.simps [simp del]

definition f_sqrt :: "f32 \<Rightarrow> f32" where
  "f_sqrt x =
     (if f_isnan x then f_nan
      else if f_mag x = 0 then x
      else if f_sign x then f_nan
      else if f_isinf x then x
      else let v = mag_units (f_mag x) * 2 ^ 149;
               r = isqrt v
           in f_make False (rnd (2 * r + (if r * r = v then 0 else 1)) 2))"

end
