(* ===== verification/F32_Laws.thy ===== *)
theory F32_Laws
  imports F32
begin

text \<open>
  Laws of the \<open>float\<close> operations: the order of patterns is the order of values, every operation on
  finite operands is the signed rounding of the exact result and therefore monotone, and small
  integers convert exactly.
\<close>

section \<open>Patterns\<close>

lemma and_7fffffff: "x AND 0x7fffffff = take_bit 31 (x :: f32)"
  by (simp add: take_bit_eq_mask mask_eq_exp_minus_1)

lemma f_mag_bounds: "0 \<le> f_mag x" "f_mag x < 2 ^ 31"
proof -
  have "f_mag x = uint x mod 2 ^ 31"
    unfolding f_mag_def and_7fffffff unsigned_take_bit_eq by (simp add: take_bit_eq_mod)
  then show "0 \<le> f_mag x" "f_mag x < 2 ^ 31" by simp_all
qed

lemma f_classes: "f_isnan x \<longleftrightarrow> \<not> f_finite x \<and> \<not> f_isinf x"
  by (auto simp: f_isnan_def f_finite_def f_isinf_def)

lemma f_finite_not_nan [simp]: "f_finite x \<Longrightarrow> \<not> f_isnan x"
  and f_finite_not_inf [simp]: "f_finite x \<Longrightarrow> \<not> f_isinf x"
  by (auto simp: f_isnan_def f_finite_def f_isinf_def)

lemma f_make_parts:
  assumes "0 \<le> m" and "m < 2 ^ 31"
  shows "f_sign (f_make s m) = s" and "f_mag (f_make s m) = m"
proof -
  have m: "take_bit 31 m = m" using assms by (simp add: take_bit_eq_mod)
  have bits: "bit m 31 = False" using assms by (metis bit_take_bit_iff less_irrefl m)
  have hi: "bit (0x80000000 :: f32) i \<longleftrightarrow> i = 31" for i
  proof -
    have "(0x80000000 :: f32) = push_bit 31 1" by simp
    then show ?thesis by (simp only: bit_push_bit_iff bit_1_iff) auto
  qed
  show "f_sign (f_make s m) = s"
    by (simp add: f_sign_def f_make_def bit_or_iff hi bit_word_of_int_iff bits del: bit_numeral_word_iff)
  have "take_bit 31 (f_make s m) = word_of_int m"
  proof (rule bit_eqI)
    fix n
    have "bit m n \<Longrightarrow> n < 31" using m by (metis bit_take_bit_iff)
    then show "bit (take_bit 31 (f_make s m)) n = bit (word_of_int m :: f32) n"
      by (auto simp: f_make_def bit_take_bit_iff bit_or_iff hi bit_word_of_int_iff simp del: bit_numeral_word_iff)
  qed
  then show "f_mag (f_make s m) = m"
    unfolding f_mag_def and_7fffffff using assms by (simp add: uint_word_of_int)
qed

lemma f_neg_parts [simp]: "f_mag (f_neg x) = f_mag x" "f_sign (f_neg x) = (\<not> f_sign x)"
proof -
  have hi: "bit (0x80000000 :: f32) i \<longleftrightarrow> i = 31" for i
  proof -
    have "(0x80000000 :: f32) = push_bit 31 1" by simp
    then show ?thesis by (simp only: bit_push_bit_iff bit_1_iff) auto
  qed
  have "take_bit 31 (f_neg x) = take_bit 31 x"
    by (rule bit_eqI) (auto simp: f_neg_def bit_take_bit_iff bit_xor_iff hi simp del: bit_numeral_word_iff)
  then show "f_mag (f_neg x) = f_mag x" by (simp add: f_mag_def and_7fffffff)
  show "f_sign (f_neg x) = (\<not> f_sign x)"
    by (simp add: f_sign_def f_neg_def bit_xor_iff hi del: bit_numeral_word_iff)
qed

lemma f_neg_values [simp]:
  "f_units (f_neg x) = - f_units x" "f_key (f_neg x) = - f_key x"
  "f_finite (f_neg x) = f_finite x" "f_isnan (f_neg x) = f_isnan x" "f_isinf (f_neg x) = f_isinf x"
  by (simp_all add: f_units_def f_key_def f_finite_def f_isnan_def f_isinf_def)

lemma f_units_le_iff: "f_units x \<le> f_units y \<longleftrightarrow> f_key x \<le> f_key y"
proof -
  have pos: "0 \<le> mag_units (f_mag z)" "mag_units (f_mag z) = 0 \<longleftrightarrow> f_mag z = 0" for z
    using f_mag_bounds(1) [of z] mag_units_nonneg [of "f_mag z"] mag_units_less [of 0 "f_mag z"]
    by (auto simp: order.order_iff_strict)
  have le: "mag_units (f_mag a) \<le> mag_units (f_mag b) \<longleftrightarrow> f_mag a \<le> f_mag b" for a b
    by (simp add: mag_units_le_iff f_mag_bounds)
  show ?thesis
    using pos [of x] pos [of y] le [of x y] le [of y x] f_mag_bounds(1) [of x] f_mag_bounds(1) [of y]
    unfolding f_units_def f_key_def by (cases "f_sign x"; cases "f_sign y"; simp; linarith)
qed

lemma f_units_key_0: "f_units x = 0 \<longleftrightarrow> f_key x = 0"
proof -
  have "mag_units (f_mag x) = 0 \<longleftrightarrow> f_mag x = 0"
    using f_mag_bounds(1) [of x] mag_units_less [of 0 "f_mag x"] by (auto simp: order.order_iff_strict)
  then show ?thesis by (auto simp: f_units_def f_key_def)
qed

lemma f_le_finite: "f_finite x \<Longrightarrow> f_finite y \<Longrightarrow> f_le x y \<longleftrightarrow> f_units x \<le> f_units y"
  by (simp add: f_le_def f_units_le_iff)

lemma f_lt_finite: "f_finite x \<Longrightarrow> f_finite y \<Longrightarrow> f_lt x y \<longleftrightarrow> f_units x < f_units y"
  using f_units_le_iff [of y x] by (auto simp: f_lt_def)


section \<open>Signed rounding\<close>

definition rkey :: "int \<Rightarrow> int \<Rightarrow> int" where
  "rkey num den = (if num < 0 then - rnd (- num) den else rnd num den)"

lemma rkey_bounds: "0 < den \<Longrightarrow> \<bar>rkey num den\<bar> \<le> inf_mag"
  using rnd_le_inf [of "\<bar>num\<bar>" den] f32.rounded_nonneg [of "\<bar>num\<bar>" den] by (auto simp: rkey_def)

lemma rkey_mono:
  assumes "0 < d1" and "0 < d2" and le: "n1 * d2 \<le> n2 * d1"
  shows "rkey n1 d1 \<le> rkey n2 d2"
proof -
  consider "0 \<le> n1" "0 \<le> n2" | "n1 < 0" "0 \<le> n2" | "n1 < 0" "n2 < 0" | "0 \<le> n1" "n2 < 0" by linarith
  then show ?thesis
  proof cases
    case 1
    with assms show ?thesis by (simp add: rkey_def rnd_mono)
  next
    case 2
    then show ?thesis
      using assms f32.rounded_nonneg [of n2 d2] f32.rounded_nonneg [of "- n1" d1] by (simp add: rkey_def)
  next
    case 3
    then show ?thesis using assms rnd_mono [of "- n2" "- n1" d2 d1] by (simp add: rkey_def)
  next
    case 4
    have "0 \<le> n1 * d2" using 4 assms by simp
    moreover have "n2 * d1 < 0" using 4 assms by (simp add: mult_neg_pos)
    ultimately show ?thesis using le by linarith
  qed
qed

lemma f_key_of_ratio: "0 < den \<Longrightarrow> f_key (f_of_ratio z num den) = rkey num den"
  and f_not_nan_of_ratio: "0 < den \<Longrightarrow> \<not> f_isnan (f_of_ratio z num den)"
  and f_finite_of_ratio: "0 < den \<Longrightarrow> f_finite (f_of_ratio z num den) \<longleftrightarrow> \<bar>rkey num den\<bar> < inf_mag"
proof -
  assume d: "0 < den"
  have r: "0 \<le> rnd \<bar>num\<bar> den" "rnd \<bar>num\<bar> den \<le> inf_mag"
    using f32.rounded_nonneg [of "\<bar>num\<bar>" den] rnd_le_inf [of "\<bar>num\<bar>" den] d by simp_all
  have p: "f_mag (f_of_ratio z num den) = rnd \<bar>num\<bar> den"
      "f_sign (f_of_ratio z num den) = (num < 0 \<or> num = 0 \<and> z)"
    using r by (simp_all add: f_of_ratio_def f_make_parts)
  show "f_key (f_of_ratio z num den) = rkey num den"
    using f32.rounded_zero [OF d] unfolding f_key_def p rkey_def by auto
  show "\<not> f_isnan (f_of_ratio z num den)" using r by (simp add: f_isnan_def p)
  show "f_finite (f_of_ratio z num den) \<longleftrightarrow> \<bar>rkey num den\<bar> < inf_mag"
    using r by (auto simp: f_finite_def p rkey_def)
qed

lemma rkey_exact: "f_finite x \<Longrightarrow> 0 < d \<Longrightarrow> rkey (f_units x * d) d = f_key x"
proof -
  assume x: "f_finite x" and d: "0 < d"
  have m: "0 \<le> f_mag x" "f_mag x \<le> inf_mag" using x f_mag_bounds(1) [of x] by (simp_all add: f_finite_def)
  note e = rnd_exact [OF m d] and z = f32.rounded_zero [OF d]
  have nn: "0 \<le> mag_units (f_mag x)" by (rule mag_units_nonneg) (rule m(1))
  show ?thesis
  proof (cases "f_sign x \<and> 0 < mag_units (f_mag x)")
    case True
    then have "- mag_units (f_mag x) * d < 0" using d by (simp add: mult_neg_pos)
    with True e show ?thesis by (simp add: rkey_def f_units_def f_key_def)
  next
    case False
    moreover have "0 \<le> mag_units (f_mag x) * d" using nn d by simp
    ultimately show ?thesis using e z nn by (auto simp: rkey_def f_units_def f_key_def not_less)
  qed
qed

lemma rkey_le: "f_finite x \<Longrightarrow> 0 < d \<Longrightarrow> n \<le> f_units x * d \<Longrightarrow> rkey n d \<le> f_key x"
  using rkey_mono [of d d n "f_units x * d"] rkey_exact [of x d] by simp

lemma rkey_ge: "f_finite x \<Longrightarrow> 0 < d \<Longrightarrow> f_units x * d \<le> n \<Longrightarrow> f_key x \<le> rkey n d"
  using rkey_mono [of d d "f_units x * d" n] rkey_exact [of x d] by simp

lemma f_key_add: "f_finite x \<Longrightarrow> f_finite y \<Longrightarrow> f_key (f_add x y) = rkey (f_units x + f_units y) 1"
  and f_not_nan_add: "f_finite x \<Longrightarrow> f_finite y \<Longrightarrow> \<not> f_isnan (f_add x y)"
  by (simp_all add: f_add_def f_key_of_ratio f_not_nan_of_ratio)

lemma f_key_sub: "f_finite x \<Longrightarrow> f_finite y \<Longrightarrow> f_key (f_sub x y) = rkey (f_units x - f_units y) 1"
  and f_not_nan_sub: "f_finite x \<Longrightarrow> f_finite y \<Longrightarrow> \<not> f_isnan (f_sub x y)"
  by (simp_all add: f_sub_def f_key_add f_not_nan_add)

lemma f_key_mul: "f_finite x \<Longrightarrow> f_finite y \<Longrightarrow> f_key (f_mul x y) = rkey (f_units x * f_units y) (2 ^ 149)"
  and f_not_nan_mul: "f_finite x \<Longrightarrow> f_finite y \<Longrightarrow> \<not> f_isnan (f_mul x y)"
  by (simp_all add: f_mul_def Let_def f_key_of_ratio f_not_nan_of_ratio)

lemma f_key_div:
  assumes "f_finite x" and "f_finite y" and "0 < f_units y"
  shows "f_key (f_div x y) = rkey (f_units x * 2 ^ 149) (f_units y)" and "\<not> f_isnan (f_div x y)"
proof -
  have "\<not> f_sign y"
    using assms(3) mag_units_nonneg [OF f_mag_bounds(1) [of y]] by (auto simp: f_units_def split: if_splits)
  then have y: "\<not> f_sign y" "0 < mag_units (f_mag y)" "f_mag y \<noteq> 0" using assms(3) by (auto simp: f_units_def)
  have x: "0 \<le> mag_units (f_mag x)" by (rule mag_units_nonneg) (rule f_mag_bounds)
  let ?r = "rnd (mag_units (f_mag x) * 2 ^ 149) (mag_units (f_mag y))"
  have r: "0 \<le> ?r" "?r \<le> inf_mag"
    using f32.rounded_nonneg [of "mag_units (f_mag x) * 2 ^ 149" "mag_units (f_mag y)"] x y rnd_le_inf by simp_all
  have eq: "f_div x y = f_make (f_sign x) ?r" using assms(1,2) y by (simp add: f_div_def)
  have parts: "f_mag (f_div x y) = ?r" "f_sign (f_div x y) = f_sign x"
    unfolding eq using r by (simp_all add: f_make_parts)
  show "\<not> f_isnan (f_div x y)" using r by (simp add: f_isnan_def parts)
  have "?r = 0" if "mag_units (f_mag x) = 0" using that f32.rounded_zero [of "mag_units (f_mag y)"] y by simp
  then show "f_key (f_div x y) = rkey (f_units x * 2 ^ 149) (f_units y)"
    using x y by (auto simp: f_key_def parts rkey_def f_units_def)
qed

lemma f_key_of_int: "f_key (f_of_int n) = rkey (n * 2 ^ 149) 1"
  and f_not_nan_of_int: "\<not> f_isnan (f_of_int n)"
  by (simp_all add: f_of_int_def f_key_of_ratio f_not_nan_of_ratio)

lemma f_key_bounds: "\<not> f_isnan x \<Longrightarrow> \<bar>f_key x\<bar> \<le> inf_mag"
  using f_mag_bounds(1) [of x] by (auto simp: f_key_def f_isnan_def)

lemma f_finite_key: "f_finite x \<longleftrightarrow> \<bar>f_key x\<bar> < inf_mag"
  using f_mag_bounds(1) [of x] by (auto simp: f_key_def f_finite_def)


section \<open>Bounds of rounded results\<close>

lemma f_units_key_eq: "f_key x = f_key y \<Longrightarrow> f_units x = f_units y"
  using f_units_le_iff [of x y] f_units_le_iff [of y x] by simp

text \<open>A result that rounds a number between two finite values lies between them.\<close>

lemma rounded_between:
  assumes r: "f_key r = rkey n d" and d: "0 < d" and fin: "f_finite lo" "f_finite hi"
    and le: "f_units lo * d \<le> n" "n \<le> f_units hi * d"
  shows "f_finite r" and "f_units lo \<le> f_units r" and "f_units r \<le> f_units hi"
proof -
  have k: "f_key lo \<le> f_key r" "f_key r \<le> f_key hi"
    unfolding r using rkey_ge [OF fin(1) d le(1)] rkey_le [OF fin(2) d le(2)] by simp_all
  then show "f_finite r" using fin by (simp add: f_finite_key)
  show "f_units lo \<le> f_units r" and "f_units r \<le> f_units hi" using k by (simp_all add: f_units_le_iff)
qed

text \<open>The same with a bound on the magnitude.\<close>

lemma rounded_abs:
  assumes r: "f_key r = rkey n d" and d: "0 < d" and b: "f_finite b" and le: "\<bar>n\<bar> \<le> f_units b * d"
  shows "f_finite r" and "\<bar>f_units r\<bar> \<le> f_units b"
proof -
  have "f_units (f_neg b) * d \<le> n" "n \<le> f_units b * d" using le by (simp_all add: abs_le_iff)
  from rounded_between [OF r d _ b this] b show "f_finite r" and "\<bar>f_units r\<bar> \<le> f_units b" by simp_all
qed

lemma add_bounded:
  assumes "f_finite x" "f_finite y" "f_finite b" and "\<bar>f_units x\<bar> + \<bar>f_units y\<bar> \<le> f_units b"
  shows "f_finite (f_add x y)" and "\<bar>f_units (f_add x y)\<bar> \<le> f_units b"
  using rounded_abs [OF f_key_add [OF assms(1,2)] _ assms(3)] assms(4) by simp_all

lemma mul_bounded:
  assumes "f_finite x" "f_finite y" "f_finite b" and "\<bar>f_units x\<bar> * \<bar>f_units y\<bar> \<le> f_units b * 2 ^ 149"
  shows "f_finite (f_mul x y)" and "\<bar>f_units (f_mul x y)\<bar> \<le> f_units b"
  using rounded_abs [OF f_key_mul [OF assms(1,2)] _ assms(3)] assms(4) by (simp_all add: abs_mult)

text \<open>Scaling by a factor of at most 1 does not enlarge.\<close>

lemma shrink_bounded:
  assumes x: "f_finite x" and y: "f_finite y" "\<bar>f_units y\<bar> \<le> 2 ^ 149"
  shows "f_finite (f_mul x y)" and "\<bar>f_units (f_mul x y)\<bar> \<le> \<bar>f_units x\<bar>"
proof -
  define b where "b = (if f_units x < 0 then f_neg x else x)"
  have b: "f_finite b" "f_units b = \<bar>f_units x\<bar>" using x by (auto simp: b_def)
  have "\<bar>f_units x\<bar> * \<bar>f_units y\<bar> \<le> f_units b * 2 ^ 149" unfolding b using y(2) by (intro mult_left_mono) simp_all
  from mul_bounded [OF x y(1) b(1) this] show "f_finite (f_mul x y)" and "\<bar>f_units (f_mul x y)\<bar> \<le> \<bar>f_units x\<bar>"
    by (simp_all add: b(2))
qed

lemma mul_nonneg: "f_finite x \<Longrightarrow> f_finite y \<Longrightarrow> 0 \<le> f_units x * f_units y \<Longrightarrow> 0 \<le> f_key (f_mul x y)"
  using f32.rounded_nonneg [of "f_units x * f_units y" "2 ^ 149"] by (simp add: f_key_mul rkey_def)

lemma zero_units: "f_finite 0" "f_units 0 = 0" "f_key 0 = 0"
  by (simp_all add: f_finite_def f_units_def f_key_def f_mag_def)

lemma f_units_nonneg_iff: "0 \<le> f_units x \<longleftrightarrow> 0 \<le> f_key x"
  using f_units_le_iff [of 0 x] by (simp add: zero_units)

lemma representable_mag:
  "0 \<le> m \<Longrightarrow> m \<le> 2 ^ 24 \<Longrightarrow> \<exists>b. 0 \<le> b \<and> b \<le> (int e + 2) * 2 ^ 23 \<and> mag_units b = m * 2 ^ e"
proof (induction e arbitrary: m)
  case 0
  then show ?case using mag_units_pattern [of m 0] by (intro exI [of _ m]) simp
next
  case (Suc e)
  show ?case
  proof (cases "m < 2 ^ 23")
    case True
    with Suc.IH [of "2 * m"] Suc.prems obtain b where "0 \<le> b" "b \<le> (int e + 2) * 2 ^ 23" "mag_units b = 2 * m * 2 ^ e"
      by auto
    then show ?thesis by (intro exI [of _ b]) (simp add: algebra_simps)
  next
    case False
    with Suc.prems show ?thesis
      using mag_units_pattern [of m "Suc e"] by (intro exI [of _ "int (Suc e) * 2 ^ 23 + m"]) (simp add: algebra_simps)
  qed
qed

lemma representable:
  assumes "0 \<le> m" and "m \<le> 2 ^ 24" and "e \<le> 252"
  obtains x where "f_finite x" and "f_units x = m * 2 ^ e"
proof -
  obtain b where b: "0 \<le> b" "b \<le> (int e + 2) * 2 ^ 23" "mag_units b = m * 2 ^ e"
    using representable_mag [OF assms(1,2)] by blast
  have "b < inf_mag" using b(2) assms(3) by simp
  then have "f_mag (f_make False b) = b" "\<not> f_sign (f_make False b)" using b(1) by (simp_all add: f_make_parts)
  with \<open>b < inf_mag\<close> b(3) that [of "f_make False b"] show thesis by (simp add: f_finite_def f_units_def)
qed

lemma rounded_exact:
  assumes r: "f_key r = rkey (u * d) d" and d: "0 < d" and x: "f_finite x" "f_units x = u"
  shows "f_finite r" and "f_units r = u"
  using rounded_between [OF r d x(1) x(1)] x(2) by auto

lemma f_of_int_exact:
  assumes "0 \<le> n" and "n \<le> 2 ^ 24"
  shows "f_finite (f_of_int n)" and "f_units (f_of_int n) = n * 2 ^ 149"
proof -
  obtain x where x: "f_finite x" "f_units x = n * 2 ^ 149" using representable [OF assms, of 149] by auto
  have "f_key (f_of_int n) = rkey (n * 2 ^ 149 * 1) 1" by (simp add: f_key_of_int)
  from rounded_exact [OF this _ x] show "f_finite (f_of_int n)" and "f_units (f_of_int n) = n * 2 ^ 149" by simp_all
qed


section \<open>The error of a rounding\<close>

lemma mag_units_gap:
  assumes "0 \<le> b"
  shows "2 ^ 23 * (mag_units (b + 1) - mag_units b) \<le> max (2 ^ 23) (mag_units b)"
proof (cases "b < 2 ^ 23")
  case True
  then have "b div 2 ^ 23 = 0" using assms by simp
  then show ?thesis using mag_units_Suc [OF assms] by simp
next
  case False
  let ?e = "nat (b div 2 ^ 23 - 1)"
  have "mag_units b = (2 ^ 23 + b mod 2 ^ 23) * 2 ^ ?e" using False by (simp add: mag_units_def)
  moreover have "(0 :: int) \<le> b mod 2 ^ 23 * 2 ^ ?e" by simp
  ultimately have "2 ^ 23 * 2 ^ ?e \<le> mag_units b" by (simp add: distrib_right)
  then show ?thesis using mag_units_Suc [OF assms] by simp
qed

lemma rnd_error:
  assumes num: "0 \<le> num" and den: "0 < den" and fin: "rnd num den < inf_mag"
  shows "2 ^ 24 * \<bar>mag_units (rnd num den) * den - num\<bar> \<le> max (2 ^ 23 * den) num"
proof -
  obtain b where b: "0 \<le> b" "mag_units b * den \<le> num" "num < mag_units (b + 1) * den"
    and r: "rnd num den = min (if (mag_units b + mag_units (b + 1)) * den < 2 * num \<or>
              (mag_units b + mag_units (b + 1)) * den = 2 * num \<and> odd b then b + 1 else b) inf_mag"
    using num den by (rule rnd_neighbours)
  let ?lo = "mag_units b * den" and ?hi = "mag_units (b + 1) * den"
  have s: "(mag_units b + mag_units (b + 1)) * den = ?lo + ?hi" by (simp add: distrib_right)
  have "2 * \<bar>mag_units (rnd num den) * den - num\<bar> \<le> ?hi - ?lo"
    using r fin b unfolding s by (auto simp: min_def mult.commute [of den] split: if_splits)
  moreover have "2 ^ 23 * (?hi - ?lo) \<le> max (2 ^ 23 * den) ?lo"
  proof -
    have "2 ^ 23 * (mag_units (b + 1) - mag_units b) * den \<le> max (2 ^ 23) (mag_units b) * den"
      using mag_units_gap [OF b(1)] den by (intro mult_right_mono) simp_all
    also have "\<dots> = max (2 ^ 23 * den) ?lo" using den by (auto simp: max_def)
    finally show ?thesis by (simp add: algebra_simps)
  qed
  ultimately show ?thesis using b(2) by simp
qed

text \<open>A finite result is within a relative \<open>2 ^ -24\<close> of the exact one, and of any bound on it.\<close>

lemma rounded_error:
  fixes B :: real
  assumes r: "f_key r = rkey n d" and d: "0 < d" and fin: "f_finite r"
    and B: "\<bar>real_of_int n / real_of_int d\<bar> \<le> B" "2 ^ 23 \<le> B"
  shows "\<bar>real_of_int (f_units r) - real_of_int n / real_of_int d\<bar> \<le> B / 2 ^ 24"
proof -
  let ?m = "rnd \<bar>n\<bar> d"
  have m: "0 \<le> ?m" using f32.rounded_nonneg d by simp
  have k: "f_key r = (if n < 0 then - ?m else ?m)" unfolding r rkey_def by auto
  have lt: "?m < inf_mag" using fin m by (simp add: f_finite_key k split: if_splits)
  have u: "f_units r = (if n < 0 then - mag_units ?m else mag_units ?m)"
  proof (cases "?m = 0")
    case True
    then have "f_key r = 0" unfolding k by auto
    then have "f_units r = 0" by (simp add: f_units_key_0)
    then show ?thesis unfolding True by simp
  next
    case False
    then have "f_mag r = ?m" "f_sign r = (n < 0)"
      using k m f_mag_bounds(1) [of r] by (auto simp: f_key_def split: if_splits)
    then show ?thesis by (simp add: f_units_def)
  qed
  have "2 ^ 24 * \<bar>mag_units ?m * d - \<bar>n\<bar>\<bar> \<le> max (2 ^ 23 * d) \<bar>n\<bar>" using rnd_error [of "\<bar>n\<bar>" d] d lt by simp
  moreover have "\<bar>mag_units ?m * d - \<bar>n\<bar>\<bar> = \<bar>f_units r * d - n\<bar>" by (auto simp: u)
  ultimately have "2 ^ 24 * \<bar>f_units r * d - n\<bar> \<le> max (2 ^ 23 * d) \<bar>n\<bar>" by simp
  then have e: "2 ^ 24 * \<bar>real_of_int (f_units r) * d - n\<bar> \<le> max (2 ^ 23 * real_of_int d) \<bar>real_of_int n\<bar>"
    by (simp only: of_int_le_iff [where ?'a = real, symmetric] of_int_max) simp
  have "\<bar>real_of_int n\<bar> \<le> B * d" using B(1) d by (simp add: field_simps abs_divide)
  moreover have "2 ^ 23 * real_of_int d \<le> B * d" using B(2) d by simp
  ultimately have "2 ^ 24 * \<bar>real_of_int (f_units r) * d - n\<bar> \<le> B * d" using e by linarith
  moreover have "\<bar>real_of_int (f_units r) * d - n\<bar> = \<bar>real_of_int (f_units r) - n / d\<bar> * d"
    using d by (simp add: field_simps abs_mult [symmetric] abs_divide)
  ultimately have "2 ^ 24 * \<bar>real_of_int (f_units r) - n / d\<bar> * d \<le> B * d" by simp
  then have "2 ^ 24 * \<bar>real_of_int (f_units r) - n / d\<bar> \<le> B" using d by simp
  then show ?thesis by simp
qed

lemma square_le_imp: "0 \<le> b \<Longrightarrow> a * a \<le> b * b \<Longrightarrow> \<bar>a\<bar> \<le> (b :: int)"
  by (metis abs_le_square_iff abs_of_nonneg power2_eq_square)


section \<open>Square roots\<close>

lemma isqrt_bounds: "0 \<le> n \<Longrightarrow> 0 \<le> isqrt n \<and> isqrt n * isqrt n \<le> n \<and> n < (isqrt n + 1) * (isqrt n + 1)"
proof (induction n rule: isqrt.induct)
  case (1 n)
  show ?case
  proof (cases "n < 1")
    case True
    with 1 show ?thesis by (simp add: isqrt.simps [of n])
  next
    case False
    define q where "q = isqrt (n div 4)"
    have q: "0 \<le> q" "q * q \<le> n div 4" "n div 4 < (q + 1) * (q + 1)" using "1.IH" False by (simp_all add: q_def)
    have lo: "(2 * q) * (2 * q) \<le> n" using q(2) by (simp add: algebra_simps)
    have hi: "n < (2 * q + 2) * (2 * q + 2)" using q(3) by (simp add: algebra_simps)
    have eq: "isqrt n = (if (2 * q + 1) * (2 * q + 1) \<le> n then 2 * q + 1 else 2 * q)"
      using False by (subst isqrt.simps) (simp add: q_def Let_def)
    show ?thesis using q(1) lo hi by (simp add: eq algebra_simps)
  qed
qed

lemma isqrt_ge: "0 \<le> k \<Longrightarrow> k * k \<le> n \<Longrightarrow> k \<le> isqrt n"
proof (rule ccontr)
  assume k: "0 \<le> k" "k * k \<le> n" and "\<not> k \<le> isqrt n"
  then have "isqrt n + 1 \<le> k" by simp
  moreover have n: "0 \<le> n" using k zero_le_square [of k] by linarith
  ultimately have "(isqrt n + 1) * (isqrt n + 1) \<le> k * k" using isqrt_bounds [OF n] by (intro mult_mono) simp_all
  with k isqrt_bounds [OF n] show False by simp
qed

lemma f_sqrt_key:
  assumes "f_finite x" and "0 < f_units x"
  defines "r \<equiv> isqrt (f_units x * 2 ^ 149)"
  obtains s where "f_key (f_sqrt x) = rkey (2 * r + s) 2" and "0 \<le> s" and "s \<le> 1" and "f_key (f_sqrt x) = f_mag (f_sqrt x)"
proof -
  have sg: "\<not> f_sign x" "f_mag x \<noteq> 0" "f_units x = mag_units (f_mag x)"
    using assms(2) mag_units_nonneg [OF f_mag_bounds(1) [of x]] by (auto simp: f_units_def split: if_splits)
  define s :: int where "s = (if r * r = f_units x * 2 ^ 149 then 0 else 1)"
  have "0 \<le> f_units x * 2 ^ 149" using assms(2) by simp
  then have r: "0 \<le> r" using isqrt_bounds by (simp add: r_def)
  have eq: "f_sqrt x = f_make False (rnd (2 * r + s) 2)"
    unfolding f_sqrt_def using assms(1) sg by (simp add: Let_def r_def s_def)
  have s: "0 \<le> s" "s \<le> 1" by (simp_all add: s_def)
  have b: "0 \<le> rnd (2 * r + s) 2" "rnd (2 * r + s) 2 \<le> inf_mag" using f32.rounded_nonneg [of "2 * r + s" 2] rnd_le_inf r s by simp_all
  then have "f_mag (f_sqrt x) = rnd (2 * r + s) 2" "\<not> f_sign (f_sqrt x)" unfolding eq by (simp_all add: f_make_parts)
  then show thesis using r s by (intro that [of s]) (simp_all add: f_key_def rkey_def)
qed

text \<open>A root is finite, at least the root of any exact square below, and squares back to within a tenth.\<close>

lemma f_sqrt_bounds:
  assumes x: "f_finite x" and big: "2 ^ 24 \<le> f_units x"
  shows "f_finite (f_sqrt x)" and "0 < f_units (f_sqrt x)"
    and "9 * (f_units x * 2 ^ 149) \<le> 10 * (f_units (f_sqrt x) * f_units (f_sqrt x))"
    and "2 ^ 149 \<le> f_units x \<Longrightarrow> 2 ^ 149 \<le> f_units (f_sqrt x)"
proof -
  define n where "n = f_units x * 2 ^ 149"
  define r where "r = isqrt n"
  have n: "2 ^ 173 \<le> n" using big by (simp add: n_def)
  have pos: "0 < f_units x" using big by simp
  obtain s where k: "f_key (f_sqrt x) = rkey (2 * r + s) 2" and s: "0 \<le> s" "s \<le> 1" and m: "f_key (f_sqrt x) = f_mag (f_sqrt x)"
    using f_sqrt_key [OF x pos] unfolding r_def n_def by blast
  have r: "2 ^ 86 \<le> r" unfolding r_def using n by (intro isqrt_ge) simp_all
  have sq: "r * r \<le> n" "n < (r + 1) * (r + 1)" using isqrt_bounds [of n] n by (simp_all add: r_def)
  have top: "f_units x < 2 ^ 277"
  proof -
    have "f_units x \<le> mag_units (f_mag x)" using mag_units_nonneg [OF f_mag_bounds(1) [of x]] by (simp add: f_units_def)
    also have "\<dots> < mag_units inf_mag" using x f_mag_bounds(1) [of x] by (intro mag_units_less) (simp_all add: f_finite_def)
    also have "mag_units inf_mag = 2 ^ 277" by (simp add: mag_units_def)
    finally show ?thesis .
  qed
  have "r < 2 ^ 213"
  proof (rule ccontr)
    assume "\<not> r < 2 ^ 213"
    then have "2 ^ 213 * 2 ^ 213 \<le> r * r" by (intro mult_mono) simp_all
    with sq(1) top show False by (simp add: n_def)
  qed
  then have up: "2 * r + s \<le> 2 ^ 213 * 2" using s by simp
  obtain hi where hi: "f_finite hi" "f_units hi = 2 ^ 213" using representable [of 1 213] by auto
  obtain one where one: "f_finite one" "f_units one = 2 ^ 149" using representable [of 1 149] by auto
  have nn: "0 \<le> 2 * r + s" using r s by simp
  show fin: "f_finite (f_sqrt x)"
    using rounded_between(1) [OF k _ zero_units(1) hi(1)] nn up by (simp add: zero_units hi)
  show "2 ^ 149 \<le> f_units (f_sqrt x)" if "2 ^ 149 \<le> f_units x"
  proof -
    have "2 ^ 149 \<le> r" unfolding r_def n_def using that by (intro isqrt_ge) simp_all
    then show ?thesis using rounded_between(2) [OF k _ one(1) hi(1)] up s by (simp add: one hi)
  qed
  let ?l = "f_units (f_sqrt x)"
  have l: "?l = mag_units (rnd (2 * r + s) 2)" using k m nn by (auto simp: f_units_def f_key_def rkey_def split: if_splits)
  have "rnd (2 * r + s) 2 < inf_mag" using fin k nn by (simp add: f_finite_key rkey_def)
  from rnd_error [OF nn _ this] have "16777216 * \<bar>?l * 2 - (2 * r + s)\<bar> \<le> 2 * r + s" using r s by (simp add: l)
  moreover have "16777216 * ((2 * r + s) - ?l * 2) \<le> 16777216 * \<bar>?l * 2 - (2 * r + s)\<bar>" by (intro mult_left_mono) simp_all
  ultimately have "16777216 * ((2 * r + s) - ?l * 2) \<le> 2 * r + s" by (rule order_trans [rotated])
  moreover have "1000 \<le> r" using r by simp
  ultimately have lr: "99 * r \<le> 100 * ?l" "0 < ?l" using s by (simp_all add: algebra_simps)
  then show "0 < ?l" by simp
  have "(99 * r) * (99 * r) \<le> (100 * ?l) * (100 * ?l)" using lr r by - (rule mult_mono, simp_all)
  then have "9801 * (r * r) \<le> 10000 * (?l * ?l)" by simp
  moreover have "(100 * (r + 1)) * (100 * (r + 1)) \<le> (101 * r) * (101 * r)" using r by - (rule mult_mono, simp_all)
  then have "10000 * ((r + 1) * (r + 1)) \<le> 10201 * (r * r)" by (simp add: algebra_simps)
  moreover have "0 \<le> r * r" by simp
  ultimately show "9 * (f_units x * 2 ^ 149) \<le> 10 * (?l * ?l)" using sq(2) unfolding n_def [symmetric] by linarith
qed

section \<open>Truncation\<close>

definition trunc_units :: "int \<Rightarrow> int" where
  "trunc_units u = (if u < 0 then - ((- u) div 2 ^ 149) else u div 2 ^ 149)"

lemma f_trunc_finite: "f_finite x \<Longrightarrow> f_trunc x = Some (trunc_units (f_units x))"
proof -
  assume "f_finite x"
  moreover have "0 \<le> mag_units (f_mag x)" by (rule mag_units_nonneg) (rule f_mag_bounds)
  ultimately show ?thesis by (auto simp: f_trunc_def f_units_def trunc_units_def)
qed

lemma trunc_units_mono: "u \<le> v \<Longrightarrow> trunc_units u \<le> trunc_units v"
proof -
  assume le: "u \<le> v"
  have nn: "0 \<le> w div 2 ^ 149" if "0 \<le> w" for w :: int using that by (simp add: pos_imp_zdiv_nonneg_iff)
  consider "0 \<le> u" | "u < 0" "0 \<le> v" | "v < 0" using le by linarith
  then show ?thesis
  proof cases
    case 1
    with le zdiv_mono1 [of u v "2 ^ 149"] show ?thesis by (simp add: trunc_units_def)
  next
    case 2
    with nn [of "- u"] nn [of v] show ?thesis by (simp add: trunc_units_def)
  next
    case 3
    with le zdiv_mono1 [of "- v" "- u" "2 ^ 149"] show ?thesis by (simp add: trunc_units_def)
  qed
qed

lemma trunc_units_of_int: "trunc_units (n * 2 ^ 149) = n"
  by (auto simp: trunc_units_def)

end
