(* ===== verification/Core_Types.thy ===== *)
theory Core_Types
  imports F32_Laws
begin

text \<open>
  \<open>core/types.h\<close> and \<open>net/protocol.h\<close>: the vectors, the clamp, the wrapping sequence comparison and
  the constants of the protocol.
\<close>

section \<open>Vectors\<close>

record vec2 =
  vx :: f32
  vy :: f32

definition vec :: "f32 \<Rightarrow> f32 \<Rightarrow> vec2" where
  "vec x y = \<lparr>vx = x, vy = y\<rparr>"

definition vec_add :: "vec2 \<Rightarrow> vec2 \<Rightarrow> vec2" where
  "vec_add a b = vec (f_add (vx a) (vx b)) (f_add (vy a) (vy b))"

definition vec_sub :: "vec2 \<Rightarrow> vec2 \<Rightarrow> vec2" where
  "vec_sub a b = vec (f_sub (vx a) (vx b)) (f_sub (vy a) (vy b))"

definition vec_scale :: "vec2 \<Rightarrow> f32 \<Rightarrow> vec2" where
  "vec_scale a s = vec (f_mul (vx a) s) (f_mul (vy a) s)"

definition length_sq :: "vec2 \<Rightarrow> f32" where
  "length_sq a = f_add (f_mul (vx a) (vx a)) (f_mul (vy a) (vy a))"

definition vec_length :: "vec2 \<Rightarrow> f32" where
  "vec_length a = f_sqrt (length_sq a)"

definition vec_eq :: "vec2 \<Rightarrow> vec2 \<Rightarrow> bool" where
  "vec_eq a b \<longleftrightarrow> f_eq (vx a) (vx b) \<and> f_eq (vy a) (vy b)"

text \<open>The constant \<open>1e-6f\<close> guards the division.\<close>

definition vec_normalized :: "vec2 \<Rightarrow> vec2" where
  "vec_normalized a =
     (let len = vec_length a
      in if f_lt len 0x358637bd then vec 0 0 else vec (f_div (vx a) len) (f_div (vy a) len))"

definition dot :: "vec2 \<Rightarrow> vec2 \<Rightarrow> f32" where
  "dot a b = f_add (f_mul (vx a) (vx b)) (f_mul (vy a) (vy b))"

definition vec_clamped :: "vec2 \<Rightarrow> f32 \<Rightarrow> vec2" where
  "vec_clamped a max_len =
     (let len_sq = length_sq a
      in if f_le len_sq (f_mul max_len max_len) then a
         else let len = f_sqrt len_sq
              in vec (f_mul (f_div (vx a) len) max_len) (f_mul (f_div (vy a) len) max_len))"

definition distance_sq :: "vec2 \<Rightarrow> vec2 \<Rightarrow> f32" where
  "distance_sq a b =
     (let dx = f_sub (vx a) (vx b); dy = f_sub (vy a) (vy b)
      in f_add (f_mul dx dx) (f_mul dy dy))"

definition lerp :: "f32 \<Rightarrow> f32 \<Rightarrow> f32 \<Rightarrow> f32" where
  "lerp a b t = f_add a (f_mul (f_sub b a) t)"

definition vec_lerp :: "vec2 \<Rightarrow> vec2 \<Rightarrow> f32 \<Rightarrow> vec2" where
  "vec_lerp a b t = vec (lerp (vx a) (vx b) t) (lerp (vy a) (vy b) t)"

definition clampf :: "f32 \<Rightarrow> f32 \<Rightarrow> f32 \<Rightarrow> f32" where
  "clampf v lo hi = (if f_lt v lo then lo else if f_lt hi v then hi else v)"

lemma clampf_between:
  assumes "\<not> f_isnan v" and "f_finite lo" and "f_finite hi" and "f_units lo \<le> f_units hi"
  shows "f_finite (clampf v lo hi)" and "f_units lo \<le> f_units (clampf v lo hi)"
    and "f_units (clampf v lo hi) \<le> f_units hi"
proof -
  have k: "f_key lo \<le> f_key hi" using assms(4) by (simp add: f_units_le_iff)
  let ?c = "clampf v lo hi"
  have c: "f_key lo \<le> f_key ?c" "f_key ?c \<le> f_key hi"
    using k assms(1-3) by (auto simp: clampf_def f_lt_def)
  show "f_finite ?c" using c assms(2,3) by (simp add: f_finite_key)
  show "f_units lo \<le> f_units ?c" "f_units ?c \<le> f_units hi" using c by (simp_all add: f_units_le_iff)
qed


section \<open>Sequence numbers\<close>

definition sequence_greater16 :: "u16 \<Rightarrow> u16 \<Rightarrow> bool" where
  "sequence_greater16 a b \<longleftrightarrow> (a > b \<and> a - b \<le> 32768) \<or> (a < b \<and> b - a > 32768)"

definition sequence_greater32 :: "u32 \<Rightarrow> u32 \<Rightarrow> bool" where
  "sequence_greater32 a b \<longleftrightarrow> (a > b \<and> a - b \<le> 2147483648) \<or> (a < b \<and> b - a > 2147483648)"

lemma wrap_distance_sum: "(a :: 'a::len word) \<noteq> b \<Longrightarrow> unat (a - b) + unat (b - a) = 2 ^ LENGTH('a)"
proof -
  assume ne: "a \<noteq> b"
  let ?s = "unat (a - b) + unat (b - a)"
  have "(a - b) + (b - a) = 0" by simp
  then have "?s mod 2 ^ LENGTH('a) = 0" by (metis unat_word_ariths(1) unat_0)
  moreover have "?s < 2 * 2 ^ LENGTH('a)"
    using unsigned_less [of "a - b", where ?'a = nat] unsigned_less [of "b - a", where ?'a = nat] by linarith
  moreover have "0 < ?s" using ne unat_gt_0 [of "a - b"] by simp
  moreover from calculation(1) obtain k where k: "?s = 2 ^ LENGTH('a) * k" by blast
  ultimately have "k = 1" by (cases k) (auto simp: k)
  with k show ?thesis by simp
qed

text \<open>The same comparison over the wrapped distance from the older to the newer number.\<close>

locale wrapping_order =
  fixes greater :: "'a::len word \<Rightarrow> 'a word \<Rightarrow> bool" and half :: nat
  assumes half: "2 * half = 2 ^ LENGTH('a)"
    and greater_iff: "greater a b \<longleftrightarrow> (0 < unat (a - b) \<and> unat (a - b) < half) \<or> (unat (a - b) = half \<and> unat b < unat a)"
begin

lemma distance_opposite: "(a :: 'a word) \<noteq> b \<Longrightarrow> unat (a - b) + unat (b - a) = 2 * half"
  using wrap_distance_sum [of a b] half by simp

lemma asym: "greater a b \<Longrightarrow> \<not> greater b a"
proof (cases "a = b")
  case False
  then show "greater a b \<Longrightarrow> \<not> greater b a" using distance_opposite [OF False] unfolding greater_iff by linarith
qed (simp add: greater_iff)

lemma total: "a \<noteq> b \<Longrightarrow> greater a b \<or> greater b a"
proof -
  assume ne: "a \<noteq> b"
  then have "0 < unat (a - b)" "0 < unat (b - a)" "unat a \<noteq> unat b"
    by (auto simp: unat_gt_0 word_unat_eq_iff [symmetric])
  with distance_opposite [OF ne] show ?thesis unfolding greater_iff by linarith
qed

lemma irrefl: "\<not> greater a a"
  by (simp add: greater_iff)

lemma advanced: "0 < k \<Longrightarrow> k < half \<Longrightarrow> greater (a + word_of_nat k) a"
  using half by (simp add: greater_iff unat_of_nat take_bit_eq_mod)

lemma near_trans:
  "greater a b \<Longrightarrow> greater b c \<Longrightarrow> unat (a - b) + unat (b - c) < half \<Longrightarrow> greater a c"
proof -
  assume ab: "greater a b" and bc: "greater b c" and near: "unat (a - b) + unat (b - c) < half"
  have "a - c = (a - b) + (b - c)" by simp
  then have "unat (a - c) = unat (a - b) + unat (b - c)"
    using near half by (simp only: unat_word_ariths) simp
  with ab near show "greater a c" by (auto simp: greater_iff)
qed

end

lemma wrap_distance: "(a :: 'a::len word) < b \<Longrightarrow> unat (a - b) = 2 ^ LENGTH('a) - unat (b - a)"
  using wrap_distance_sum [of a b] by (simp add: less_imp_neq)

interpretation seq16: wrapping_order sequence_greater16 32768
proof
  fix a b :: u16
  show "sequence_greater16 a b \<longleftrightarrow> (0 < unat (a - b) \<and> unat (a - b) < 32768) \<or> (unat (a - b) = 32768 \<and> unat b < unat a)"
  proof (cases a b rule: linorder_cases)
    case less
    with wrap_distance [OF less] unat_less_u16 [of "b - a"] show ?thesis
      by (auto simp: sequence_greater16_def word_less_nat_alt word_le_nat_alt)
  next
    case greater
    then have "unat (a - b) = unat a - unat b" by (simp add: unat_sub_le)
    with greater show ?thesis by (auto simp: sequence_greater16_def word_less_nat_alt word_le_nat_alt)
  qed (simp add: sequence_greater16_def)
qed simp

interpretation seq32: wrapping_order sequence_greater32 2147483648
proof
  fix a b :: u32
  show "sequence_greater32 a b \<longleftrightarrow> (0 < unat (a - b) \<and> unat (a - b) < 2147483648) \<or>
      (unat (a - b) = 2147483648 \<and> unat b < unat a)"
  proof (cases a b rule: linorder_cases)
    case less
    with wrap_distance [OF less] unat_less_u32 [of "b - a"] show ?thesis
      by (auto simp: sequence_greater32_def word_less_nat_alt word_le_nat_alt)
  next
    case greater
    then have "unat (a - b) = unat a - unat b" by (simp add: unat_sub_le)
    with greater show ?thesis by (auto simp: sequence_greater32_def word_less_nat_alt word_le_nat_alt)
  qed (simp add: sequence_greater32_def)
qed simp


section \<open>Protocol constants\<close>

definition kInvalidEntity :: u32 where "kInvalidEntity = 0"

definition kProtocolId :: u32 where "kProtocolId = 0x4d525401"

datatype packet_type =
    kConnectionRequest | kChallenge | kChallengeResponse | kConnectionAccepted | kConnectionDenied
  | kPayload | kDisconnect

primrec packet_type_code :: "packet_type \<Rightarrow> u8" where
  "packet_type_code kConnectionRequest = 1"
| "packet_type_code kChallenge = 2"
| "packet_type_code kChallengeResponse = 3"
| "packet_type_code kConnectionAccepted = 4"
| "packet_type_code kConnectionDenied = 5"
| "packet_type_code kPayload = 6"
| "packet_type_code kDisconnect = 7"

datatype deny_reason = kServerFull | kBadToken | kWrongRegion | kShardDraining

primrec deny_reason_code :: "deny_reason \<Rightarrow> u8" where
  "deny_reason_code kServerFull = 1"
| "deny_reason_code kBadToken = 2"
| "deny_reason_code kWrongRegion = 3"
| "deny_reason_code kShardDraining = 4"

definition channel_kInput :: u8 where "channel_kInput = 1"
definition channel_kSnapshot :: u8 where "channel_kSnapshot = 2"
definition channel_kEvent :: u8 where "channel_kEvent = 3"

definition event_kMigrateRedirect :: u8 where "event_kMigrateRedirect = 1"
definition event_kWorldConfig :: u8 where "event_kWorldConfig = 3"

definition kMaxReliablePerPacket :: u32 where "kMaxReliablePerPacket = 8"
definition kMaxReliableMessageSize :: u32 where "kMaxReliableMessageSize = 512"
definition kAckWindowSize :: u32 where "kAckWindowSize = 1024"
definition kConnectTokenBytes :: u32 where "kConnectTokenBytes = 32"

end
