(* ===== verification/Sequence_Buffer.thy ===== *)
theory Sequence_Buffer
  imports Core_Types
begin

text \<open>
  \<open>net/sequence_buffer.h\<close>: a ring of slots keyed by wrapping 16-bit sequence numbers. The template
  parameter \<open>Capacity\<close> is the length of the slot arrays. A pointer into \<open>values_\<close> that \<open>insert\<close> and
  \<open>find\<close> hand out is modelled by the value found and by \<open>sb_store\<close>, the write through it.
\<close>

section \<open>The buffer\<close>

record 'a seq_buffer =
  sb_keys :: "u32 list"
  sb_values :: "'a list"
  sb_latest :: u16
  sb_has_latest :: bool

definition kEmpty :: u32 where "kEmpty = 0xffffffff"

abbreviation sb_capacity :: "'a seq_buffer \<Rightarrow> nat" where
  "sb_capacity b \<equiv> length (sb_keys b)"

definition sb_reset :: "'a seq_buffer \<Rightarrow> 'a seq_buffer" where
  "sb_reset b = b\<lparr>sb_keys := replicate (sb_capacity b) kEmpty, sb_latest := 0, sb_has_latest := False\<rparr>"

definition mk_seq_buffer :: "nat \<Rightarrow> 'a \<Rightarrow> 'a seq_buffer" where
  "mk_seq_buffer capacity dflt =
     sb_reset \<lparr>sb_keys = replicate capacity 0, sb_values = replicate capacity dflt, sb_latest = 0, sb_has_latest = False\<rparr>"

text \<open>The loop of \<open>remove_range\<close>, with both ends included and the counter wrapping.\<close>

function clear_slots :: "u32 list \<Rightarrow> u16 \<Rightarrow> u16 \<Rightarrow> u32 list" where
  "clear_slots keys s stop =
     (let keys = keys[unat s mod length keys := kEmpty]
      in if s = stop then keys else clear_slots keys (s + 1) stop)"
  by pat_completeness auto
termination
proof (relation "measure (\<lambda>(k, s, e). unat (e - s))", goal_cases)
  case (2 k s e k')
  then have "e - s \<noteq> 0" by simp
  then have "unat (e - s - 1) < unat (e - s)" by (metis diff_less unat_gt_0 unat_minus_one zero_less_one)
  then show ?case by (simp add: diff_diff_eq)
qed simp

declare clear_slots.simps [simp del]

definition remove_range :: "u32 list \<Rightarrow> u16 \<Rightarrow> u16 \<Rightarrow> u32 list" where
  "remove_range keys start stop =
     (let span = stop - start
      in if length keys \<le> unat span then replicate (length keys) kEmpty else clear_slots keys start stop)"

definition sb_insert :: "'a \<Rightarrow> u16 \<Rightarrow> 'a seq_buffer \<Rightarrow> 'a seq_buffer option" where
  "sb_insert dflt s b =
     (if sb_has_latest b \<and> sequence_greater16 (sb_latest b) s \<and> sb_capacity b \<le> unat (sb_latest b - s) then None
      else
        let b = (if \<not> sb_has_latest b \<or> sequence_greater16 s (sb_latest b)
                 then b\<lparr>sb_keys := remove_range (sb_keys b) (if sb_has_latest b then sb_latest b + 1 else s) s,
                        sb_latest := s, sb_has_latest := True\<rparr>
                 else b);
            index = unat s mod sb_capacity b
        in Some (b\<lparr>sb_keys := (sb_keys b)[index := ucast s], sb_values := (sb_values b)[index := dflt]\<rparr>))"

definition sb_find :: "u16 \<Rightarrow> 'a seq_buffer \<Rightarrow> 'a option" where
  "sb_find s b =
     (let index = unat s mod sb_capacity b
      in if sb_keys b ! index = ucast s then Some (sb_values b ! index) else None)"

definition sb_store :: "u16 \<Rightarrow> 'a \<Rightarrow> 'a seq_buffer \<Rightarrow> 'a seq_buffer" where
  "sb_store s v b = b\<lparr>sb_values := (sb_values b)[unat s mod sb_capacity b := v]\<rparr>"

definition sb_exists :: "u16 \<Rightarrow> 'a seq_buffer \<Rightarrow> bool" where
  "sb_exists s b \<longleftrightarrow> sb_keys b ! (unat s mod sb_capacity b) = ucast s"

definition sb_remove :: "u16 \<Rightarrow> 'a seq_buffer \<Rightarrow> 'a seq_buffer" where
  "sb_remove s b = b\<lparr>sb_keys := (sb_keys b)[unat s mod sb_capacity b := kEmpty]\<rparr>"


section \<open>Invariant\<close>

definition slot_ok :: "nat \<Rightarrow> u32 \<Rightarrow> nat \<Rightarrow> bool \<Rightarrow> u16 \<Rightarrow> bool" where
  "slot_ok cap key i has latest \<longleftrightarrow>
     key = kEmpty \<or> (has \<and> (\<exists>s :: u16. key = ucast s \<and> unat s mod cap = i \<and> unat (latest - s) < cap))"

definition sb_wf :: "'a seq_buffer \<Rightarrow> bool" where
  "sb_wf b \<longleftrightarrow> sb_capacity b dvd 65536 \<and> sb_capacity b \<le> 32768 \<and> length (sb_values b) = sb_capacity b \<and>
     (\<forall>i < sb_capacity b. slot_ok (sb_capacity b) (sb_keys b ! i) i (sb_has_latest b) (sb_latest b))"

lemma sb_wf_pos: "sb_wf b \<Longrightarrow> 0 < sb_capacity b"
  by (cases "sb_capacity b") (auto simp: sb_wf_def)

lemma ucast_u16_inj [simp]: "(ucast (s :: u16) :: u32) = ucast t \<longleftrightarrow> s = t"
  by (auto simp: word_unat_eq_iff unsigned_ucast_eq take_bit_eq_mod
      mod_less [OF order.strict_trans [OF unat_less_u16]])

lemma ucast_u16_not_empty [simp]: "(ucast (s :: u16) :: u32) \<noteq> kEmpty" "kEmpty \<noteq> ucast (s :: u16)"
proof -
  have "unat (ucast s :: u32) < 65536"
    using unat_less_u16 [of s] by (simp add: unsigned_ucast_eq take_bit_eq_mod)
  then show "(ucast (s :: u16) :: u32) \<noteq> kEmpty" "kEmpty \<noteq> ucast (s :: u16)"
    by (auto simp: kEmpty_def)
qed

lemma mk_seq_buffer_wf: "cap dvd 65536 \<Longrightarrow> cap \<le> 32768 \<Longrightarrow> sb_wf (mk_seq_buffer cap d)"
  by (simp add: mk_seq_buffer_def sb_reset_def sb_wf_def slot_ok_def)

lemma mk_seq_buffer_empty: "0 < cap \<Longrightarrow> sb_find s (mk_seq_buffer cap d) = None"
  by (simp add: mk_seq_buffer_def sb_reset_def sb_find_def)

text \<open>Two sequence numbers in one slot are a multiple of the capacity apart, also across the wrap.\<close>

lemma distance_mod:
  assumes "cap dvd 65536"
  shows "int (unat (s - t :: u16)) mod int cap = (int (unat s) - int (unat t)) mod int cap"
proof -
  have "int (unat (s - t)) = (int (unat s) - int (unat t)) mod 65536"
    by (simp add: uint_nat [symmetric] uint_word_ariths)
  moreover have "int cap dvd 65536" using assms by (metis int_dvd_int_iff of_nat_numeral)
  ultimately show ?thesis by (simp add: mod_mod_cancel)
qed

lemma slot_congruent:
  assumes "cap dvd 65536" and "unat (s :: u16) mod cap = unat t mod cap"
  shows "unat (w - s) mod cap = unat (w - t) mod cap"
proof -
  have "int (unat s) mod int cap = int (unat t) mod int cap" unfolding of_nat_mod [symmetric] assms(2) ..
  then have "int (unat (w - s)) mod int cap = int (unat (w - t)) mod int cap"
    unfolding distance_mod [OF assms(1)] by (intro mod_diff_cong refl)
  then have "int (unat (w - s) mod cap) = int (unat (w - t) mod cap)" by (simp only: of_nat_mod)
  then show ?thesis by (simp only: of_nat_eq_iff)
qed

lemma slot_mod_diff:
  assumes "cap dvd 65536" and "unat (s :: u16) mod cap = unat t mod cap"
  shows "unat (s - t) mod cap = 0"
  using slot_congruent [OF assms, of s] by simp

lemma length_clear_slots [simp]: "length (clear_slots keys s e) = length keys"
proof (induction keys s e rule: clear_slots.induct)
  case (1 keys s e)
  then show ?case by (cases "s = e") (simp_all add: clear_slots.simps [of keys] Let_def)
qed

lemma length_remove_range [simp]: "length (remove_range keys s e) = length keys"
  by (simp add: remove_range_def Let_def)

lemma span_pred: "0 < unat (s - l) \<Longrightarrow> unat (s - (l + 1) :: u16) = unat (s - l) - 1"
proof -
  assume "0 < unat (s - l)"
  then have nz: "s - l \<noteq> 0" by (metis less_numeral_extra(3) unat_0)
  have "s - (l + 1) = s - l - 1" by simp
  then show ?thesis using unat_minus_one [OF nz] by (simp only:)
qed

lemma nth_clear_slots:
  assumes "i < length keys"
  shows "clear_slots keys s e ! i =
    (if \<exists>k \<le> unat (e - s). unat (s + word_of_nat k) mod length keys = i then kEmpty else keys ! i)"
  using assms
proof (induction keys s e rule: clear_slots.induct)
  case (1 keys s e)
  let ?keys = "keys[unat s mod length keys := kEmpty]"
  show ?case
  proof (cases "s = e")
    case True
    with "1.prems" show ?thesis by (auto simp: clear_slots.simps [of keys] Let_def nth_list_update)
  next
    case False
    have "0 < unat (e - s)" using False by (simp add: unat_gt_0)
    with span_pred [OF this] have d: "unat (e - s) = Suc (unat (e - (s + 1)))" by linarith
    have IH: "clear_slots ?keys (s + 1) e ! i =
        (if \<exists>k \<le> unat (e - (s + 1)). unat (s + 1 + word_of_nat k) mod length keys = i then kEmpty else ?keys ! i)"
      using "1.IH" [OF refl False] "1.prems" by simp
    have step: "(\<exists>k \<le> Suc n. P k) \<longleftrightarrow> P 0 \<or> (\<exists>k \<le> n. P (Suc k))" for n and P :: "nat \<Rightarrow> bool"
    proof
      assume "\<exists>k \<le> Suc n. P k"
      then obtain k where k: "k \<le> Suc n" "P k" by blast
      then show "P 0 \<or> (\<exists>k \<le> n. P (Suc k))" by (cases k) auto
    qed auto
    have assoc: "s + 1 + word_of_nat k = s + word_of_nat (Suc k)" for k by (simp add: add.assoc)
    show ?thesis
      unfolding clear_slots.simps [of keys s] Let_def if_not_P [OF False] IH d step assoc
      using "1.prems" by (cases "unat s mod length keys = i") (simp_all del: of_nat_Suc, blast)
  qed
qed


section \<open>Refinement of a sliding window\<close>

lemma unat_add_u16: "unat a + unat b < 65536 \<Longrightarrow> unat (a + b :: u16) = unat a + unat b"
  by (simp add: unat_word_ariths)

lemma distance_split:
  assumes "unat (s - l) + unat (l - k) < 65536"
  shows "unat (s - k :: u16) = unat (s - l) + unat (l - k)"
proof -
  have "s - k = (s - l) + (l - k)" by simp
  then show ?thesis using unat_add_u16 [OF assms] by (simp only:)
qed

lemma newer_distance: "sequence_greater16 s l \<Longrightarrow> 0 < unat (s - l) \<and> unat (s - l) \<le> 32768"
  by (auto simp: seq16.greater_iff)

lemma clear_slots_reaches:
  assumes cap: "length keys dvd 65536" "length keys \<le> 32768" and i: "i < length keys"
    and k: "unat (k :: u16) mod length keys = i" "unat (l - k) < length keys"
    and s: "0 < unat (s - l)" "unat (s - l) \<le> 32768"
  shows "(\<exists>j \<le> unat (s - (l + 1)). unat (l + 1 + word_of_nat j) mod length keys = i) \<longleftrightarrow> length keys \<le> unat (s - k)"
proof -
  let ?cap = "length keys"
  have sk: "unat (s - k) = unat (s - l) + unat (l - k)" using k(2) s(2) cap(2) by (intro distance_split) linarith
  note span = span_pred [OF s(1)]
  have tk: "unat (l + 1 + word_of_nat j - k) = unat (l - k) + (j + 1)" if "j < unat (s - l)" for j
  proof -
    have j: "unat (word_of_nat (j + 1) :: u16) = j + 1" using that s(2) by (intro unat_of_nat_less) simp
    have "l + 1 + word_of_nat j - k = (l - k) + word_of_nat (j + 1)" by simp
    moreover have "unat (l - k) + unat (word_of_nat (j + 1) :: u16) < 65536"
      unfolding j using that k(2) s(2) cap(2) by linarith
    note unat_add_u16 [OF this, unfolded j]
    ultimately show ?thesis by (simp only:)
  qed
  show ?thesis
  proof
    assume "\<exists>j \<le> unat (s - (l + 1)). unat (l + 1 + word_of_nat j) mod ?cap = i"
    then obtain j where "j \<le> unat (s - l) - 1" and t: "unat (l + 1 + word_of_nat j) mod ?cap = unat k mod ?cap"
      unfolding span k(1) by blast
    then have j: "j < unat (s - l)" using s(1) by linarith
    have "(unat (l - k) + (j + 1)) mod ?cap = 0" using slot_mod_diff [OF cap(1) t] tk [OF j] by (simp only:)
    then have "?cap \<le> unat (l - k) + (j + 1)" by (metis Suc_eq_plus1 add_Suc_right mod_less nat.distinct(1) not_less)
    then show "?cap \<le> unat (s - k)" using sk j by linarith
  next
    assume far: "?cap \<le> unat (s - k)"
    define j where "j = ?cap - 1 - unat (l - k)"
    have j: "j < unat (s - l)" "j \<le> unat (s - l) - 1" "unat (l - k) + (j + 1) = ?cap"
      using far sk k(2) by (auto simp: j_def)
    define t where "t = l + 1 + word_of_nat j"
    have "unat (t - k) = ?cap" using tk [OF j(1)] j(3) by (simp only: t_def)
    moreover have "unat (k + (t - k)) = (unat k + unat (t - k)) mod 65536" by (simp only: unat_word_ariths) simp
    ultimately have "unat (l + 1 + word_of_nat j) = (unat k + ?cap) mod 65536" by (simp add: t_def [symmetric])
    then have "unat (l + 1 + word_of_nat j) mod ?cap = i"
      using mod_mod_cancel [OF cap(1), of "unat k + ?cap"] k(1) by simp
    with j(2) show "\<exists>j \<le> unat (s - (l + 1)). unat (l + 1 + word_of_nat j) mod ?cap = i" unfolding span by blast
  qed
qed

text \<open>Moving the window forward empties exactly the slots whose number has fallen out of it.\<close>

lemma remove_range_window:
  assumes wf: "sb_wf b" and has: "sb_has_latest b" and newer: "sequence_greater16 s (sb_latest b)"
    and i: "i < sb_capacity b" and k: "sb_keys b ! i = ucast (k :: u16)"
  shows "remove_range (sb_keys b) (sb_latest b + 1) s ! i = (if unat (s - k) < sb_capacity b then ucast k else kEmpty)"
proof -
  let ?cap = "sb_capacity b" and ?l = "sb_latest b"
  have cap: "?cap dvd 65536" "?cap \<le> 32768" using wf by (simp_all add: sb_wf_def)
  have slot: "unat k mod ?cap = i" "unat (?l - k) < ?cap"
    using wf i k by (auto simp: sb_wf_def slot_ok_def)
  have s: "0 < unat (s - ?l)" "unat (s - ?l) \<le> 32768" using newer_distance [OF newer] by auto
  have sk: "unat (s - k) = unat (s - ?l) + unat (?l - k)" using slot(2) s(2) cap(2) by (intro distance_split) linarith
  note span = span_pred [OF s(1)]
  show ?thesis
  proof (cases "?cap \<le> unat (s - (?l + 1))")
    case True
    then have "\<not> unat (s - k) < ?cap" using sk span by linarith
    with True i show ?thesis by (simp add: remove_range_def)
  next
    case False
    then show ?thesis
      unfolding remove_range_def Let_def if_not_P [OF False] nth_clear_slots [OF i]
        clear_slots_reaches [OF cap i slot s] by (simp add: k not_less [symmetric])
  qed
qed

lemma remove_range_empty: "i < length keys \<Longrightarrow> keys ! i = kEmpty \<Longrightarrow> remove_range keys s e ! i = kEmpty"
  by (simp add: remove_range_def Let_def nth_clear_slots)

text \<open>The window after an insertion that is not refused.\<close>

definition window_latest :: "u16 \<Rightarrow> 'a seq_buffer \<Rightarrow> u16" where
  "window_latest s b = (if \<not> sb_has_latest b \<or> sequence_greater16 s (sb_latest b) then s else sb_latest b)"

lemma advanced_keys:
  assumes wf: "sb_wf b" and i: "i < sb_capacity b"
    and acc: "\<not> (sb_has_latest b \<and> sequence_greater16 (sb_latest b) s \<and> sb_capacity b \<le> unat (sb_latest b - s))"
  shows "(if \<not> sb_has_latest b \<or> sequence_greater16 s (sb_latest b)
           then remove_range (sb_keys b) (if sb_has_latest b then sb_latest b + 1 else s) s else sb_keys b) ! i =
    (if \<exists>t :: u16. sb_keys b ! i = ucast t \<and> unat (window_latest s b - t) < sb_capacity b then sb_keys b ! i else kEmpty)"
proof (cases "sb_keys b ! i = kEmpty")
  case True
  then show ?thesis using i by (simp add: remove_range_empty)
next
  case False
  with wf i obtain t :: u16 where t: "sb_has_latest b" "sb_keys b ! i = ucast t" "unat (sb_latest b - t) < sb_capacity b"
    by (auto simp: sb_wf_def slot_ok_def)
  show ?thesis
  proof (cases "sequence_greater16 s (sb_latest b)")
    case True
    then show ?thesis using remove_range_window [OF wf t(1) True i t(2)] t by (simp add: window_latest_def)
  next
    case False
    with t show ?thesis by (simp add: window_latest_def)
  qed
qed

lemma window_latest_inside:
  assumes wf: "sb_wf b"
    and acc: "\<not> (sb_has_latest b \<and> sequence_greater16 (sb_latest b) s \<and> sb_capacity b \<le> unat (sb_latest b - s))"
  shows "unat (window_latest s b - s) < sb_capacity b"
proof (cases "\<not> sb_has_latest b \<or> sequence_greater16 s (sb_latest b)")
  case True
  then show ?thesis using sb_wf_pos [OF wf] by (simp add: window_latest_def)
next
  case False
  then have "s = sb_latest b \<or> sequence_greater16 (sb_latest b) s" using seq16.total [of s "sb_latest b"] by blast
  with False acc sb_wf_pos [OF wf] show ?thesis by (auto simp: window_latest_def)
qed

lemma sb_insert_spec:
  assumes wf: "sb_wf b" and ins: "sb_insert d s b = Some b'"
  shows "sb_wf b'" and "sb_has_latest b'" and "sb_latest b' = window_latest s b"
    and "sb_capacity b' = sb_capacity b"
    and "sb_find t b' = (if t = s then Some d
           else if unat (window_latest s b - t) < sb_capacity b then sb_find t b else None)"
proof -
  let ?cap = "sb_capacity b" and ?w = "window_latest s b" and ?i = "unat s mod sb_capacity b"
  have acc: "\<not> (sb_has_latest b \<and> sequence_greater16 (sb_latest b) s \<and> ?cap \<le> unat (sb_latest b - s))"
    using ins by (auto simp: sb_insert_def)
  define keys where "keys = (if \<not> sb_has_latest b \<or> sequence_greater16 s (sb_latest b)
           then remove_range (sb_keys b) (if sb_has_latest b then sb_latest b + 1 else s) s else sb_keys b)"
  have len: "length keys = ?cap" by (simp add: keys_def)
  note pos = sb_wf_pos [OF wf]
  have cap: "?cap dvd 65536" "?cap \<le> 32768" "length (sb_values b) = ?cap" using wf by (simp_all add: sb_wf_def)
  have b': "b' = b\<lparr>sb_keys := keys[?i := ucast s], sb_values := (sb_values b)[?i := d],
      sb_latest := ?w, sb_has_latest := True\<rparr>"
    using ins unfolding sb_insert_def if_not_P [OF acc] Let_def by (auto simp: keys_def window_latest_def)
  have nth: "keys ! i = (if \<exists>t :: u16. sb_keys b ! i = ucast t \<and> unat (?w - t) < ?cap then sb_keys b ! i else kEmpty)"
    if "i < ?cap" for i unfolding keys_def by (rule advanced_keys [OF wf that acc])
  note w = window_latest_inside [OF wf acc]
  show "sb_has_latest b'" "sb_latest b' = ?w" "sb_capacity b' = ?cap" by (simp_all add: b' len)
  show "sb_wf b'"
  proof -
    have "slot_ok ?cap (keys[?i := ucast s] ! j) j True ?w" if j: "j < ?cap" for j
    proof (cases "j = ?i")
      case True
      with j w show ?thesis by (auto simp: slot_ok_def len)
    next
      case False
      with wf j nth [OF j] show ?thesis by (auto simp: sb_wf_def slot_ok_def len)
    qed
    with cap show ?thesis by (simp add: b' sb_wf_def len)
  qed
  show "sb_find t b' = (if t = s then Some d else if unat (?w - t) < ?cap then sb_find t b else None)"
  proof -
    let ?j = "unat t mod ?cap"
    have j: "?j < ?cap" using pos by simp
    consider "t = s" | "t \<noteq> s" "?j = ?i" | "?j \<noteq> ?i" by auto
    then show ?thesis
    proof cases
      case 1
      with pos cap(3) show ?thesis by (simp add: b' sb_find_def len)
    next
      case 2
      have "unat (?w - t) \<ge> ?cap \<or> sb_keys b ! ?j \<noteq> ucast t"
      proof (rule ccontr)
        assume "\<not> ?thesis"
        then have near: "unat (?w - t) < ?cap" by simp
        have "unat (?w - t) mod ?cap = unat (?w - s) mod ?cap" by (rule slot_congruent [OF cap(1) 2(2)])
        with near w have "unat (?w - t) = unat (?w - s)" by simp
        then have "?w - t = ?w - s" by (simp only: word_unat_eq_iff)
        with 2(1) show False by simp
      qed
      with 2 pos show ?thesis by (auto simp: b' sb_find_def len)
    next
      case 3
      have "keys ! ?j = ucast t \<longleftrightarrow> sb_keys b ! ?j = ucast t \<and> unat (?w - t) < ?cap"
        unfolding nth [OF j] by auto
      with 3 show ?thesis by (auto simp: b' sb_find_def len Let_def)
    qed
  qed
qed

lemma sb_store_spec:
  assumes "sb_wf b" and "sb_find s b \<noteq> None"
  shows "sb_wf (sb_store s v b)" and "sb_find t (sb_store s v b) = (if t = s then Some v else sb_find t b)"
proof -
  show "sb_wf (sb_store s v b)" using assms(1) by (simp add: sb_wf_def sb_store_def)
  have i: "unat u mod sb_capacity b < length (sb_values b)" for u :: u16
    using assms(1) sb_wf_pos [OF assms(1)] by (simp add: sb_wf_def)
  have k: "sb_keys b ! (unat s mod sb_capacity b) = ucast s" using assms(2) by (auto simp: sb_find_def Let_def split: if_splits)
  show "sb_find t (sb_store s v b) = (if t = s then Some v else sb_find t b)"
  proof (cases "unat t mod sb_capacity b = unat s mod sb_capacity b")
    case True
    with k i [of s] show ?thesis by (auto simp: sb_find_def sb_store_def Let_def)
  next
    case False
    then show ?thesis by (auto simp: sb_find_def sb_store_def Let_def)
  qed
qed

lemma sb_store_twice: "sb_store s v (sb_store s u b) = sb_store s v b"
  by (simp add: sb_store_def)

lemma sb_exists_find: "sb_exists s b \<longleftrightarrow> sb_find s b \<noteq> None"
  by (simp add: sb_exists_def sb_find_def Let_def)

lemma sb_store_simps [simp]:
  "sb_latest (sb_store s v b) = sb_latest b" "sb_has_latest (sb_store s v b) = sb_has_latest b"
  "sb_capacity (sb_store s v b) = sb_capacity b"
  by (simp_all add: sb_store_def)

text \<open>The interface of a sequence-keyed store as its clients use it.\<close>

locale sequence_store =
  fixes ok :: "'b \<Rightarrow> bool" and lookup :: "u16 \<Rightarrow> 'b \<Rightarrow> 'a option" and insert :: "'a \<Rightarrow> u16 \<Rightarrow> 'b \<Rightarrow> 'b option"
    and store :: "u16 \<Rightarrow> 'a \<Rightarrow> 'b \<Rightarrow> 'b"
  assumes insert_ok: "ok b \<Longrightarrow> insert d s b = Some b' \<Longrightarrow> ok b'"
    and lookup_insert_same: "ok b \<Longrightarrow> insert d s b = Some b' \<Longrightarrow> lookup s b' = Some d"
    and lookup_insert_other: "ok b \<Longrightarrow> insert d s b = Some b' \<Longrightarrow> t \<noteq> s \<Longrightarrow> lookup t b' = lookup t b \<or> lookup t b' = None"
    and store_ok: "ok b \<Longrightarrow> lookup s b \<noteq> None \<Longrightarrow> ok (store s v b)"
    and lookup_store: "ok b \<Longrightarrow> lookup s b \<noteq> None \<Longrightarrow> lookup t (store s v b) = (if t = s then Some v else lookup t b)"
begin

text \<open>An insertion whose slot is then filled in: nothing appears but the new entry.\<close>

definition record_at :: "'a \<Rightarrow> 'a \<Rightarrow> u16 \<Rightarrow> 'b \<Rightarrow> 'b option" where
  "record_at d v s b = map_option (store s v) (insert d s b)"

lemma record_at_spec:
  assumes "ok b" and "record_at d v s b = Some b'"
  shows "ok b'" and "lookup s b' = Some v" and "t \<noteq> s \<Longrightarrow> lookup t b' = lookup t b \<or> lookup t b' = None"
proof -
  obtain b1 where b1: "insert d s b = Some b1" and b': "b' = store s v b1"
    using assms(2) by (auto simp: record_at_def)
  note ok1 = insert_ok [OF assms(1) b1] and same = lookup_insert_same [OF assms(1) b1]
  show "ok b'" using store_ok [OF ok1] same by (simp add: b')
  show "lookup s b' = Some v" using lookup_store [OF ok1] same by (simp add: b')
  assume "t \<noteq> s"
  with lookup_insert_other [OF assms(1) b1 this] show "lookup t b' = lookup t b \<or> lookup t b' = None"
    using lookup_store [OF ok1, of s t v] same by (simp add: b')
qed

text \<open>No aliasing: an entry that is found was recorded under the very same number.\<close>

lemma record_at_origin:
  assumes "ok b" and "record_at d v s b = Some b'" and "lookup t b' = Some u"
  shows "(t = s \<and> u = v) \<or> lookup t b = Some u"
  using record_at_spec [OF assms(1,2)] assms(3) by (cases "t = s") fastforce+

end

interpretation sb: sequence_store sb_wf sb_find sb_insert sb_store
proof (unfold_locales, goal_cases)
  case (1 b d s b')
  then show ?case by (rule sb_insert_spec)
next
  case (2 b d s b')
  then show ?case by (simp add: sb_insert_spec(5))
next
  case (3 b d s b' t)
  then show ?case by (simp add: sb_insert_spec(5))
next
  case (4 b s v)
  then show ?case by (rule sb_store_spec)
next
  case (5 b s t v)
  then show ?case by (rule sb_store_spec)
qed

text \<open>
  C12: the sequence buffer is a sliding window. On a well-formed buffer \<open>insert\<close> is refused exactly
  for a number at least a capacity older than the newest one; otherwise the buffer stays
  well-formed, the number maps to a fresh entry, every other number still in the window of the
  (possibly new) newest number keeps its entry, and every number that left the window is gone, so no
  stale entry can be found under a number that reuses its slot.
\<close>

theorem sb_insert_refines_window:
  assumes "sb_wf b"
  shows "case sb_insert d s b of
      None \<Rightarrow> sb_has_latest b \<and> sequence_greater16 (sb_latest b) s \<and> sb_capacity b \<le> unat (sb_latest b - s)
    | Some b' \<Rightarrow> sb_wf b' \<and> sb_latest b' = window_latest s b \<and>
        (\<forall>t. sb_find t b' = (if t = s then Some d
             else if unat (window_latest s b - t) < sb_capacity b then sb_find t b else None))"
proof (cases "sb_insert d s b")
  case None
  then show ?thesis by (auto simp: sb_insert_def Let_def split: if_splits)
next
  case (Some b')
  with sb_insert_spec [OF assms Some] show ?thesis by simp
qed

theorem sb_insert_refines_window_witness:
  "\<exists>b. sb_insert 7 5 (mk_seq_buffer 4 (0 :: nat)) = Some b \<and> sb_find 5 b = Some 7 \<and> sb_find 1 b = None"
proof -
  have wf: "sb_wf (mk_seq_buffer 4 (0 :: nat))" by (rule mk_seq_buffer_wf) simp_all
  have "\<not> sb_has_latest (mk_seq_buffer 4 (0 :: nat))" by (simp add: mk_seq_buffer_def sb_reset_def)
  then obtain b where b: "sb_insert 7 5 (mk_seq_buffer 4 (0 :: nat)) = Some b" by (auto simp: sb_insert_def Let_def)
  with sb_insert_refines_window [OF wf, of 5 7] show ?thesis by (simp add: mk_seq_buffer_empty)
qed

end
