(* ===== verification/Reliability.thy ===== *)
theory Reliability
  imports Stream_Fields Sequence_Buffer
begin

text \<open>
  \<open>net/reliability.h\<close> and \<open>net/reliability.cpp\<close>: the sequence and ack layer that carries reliable
  messages over datagrams. An endpoint is a record with the fields of \<open>ReliableEndpoint\<close>; a member
  function is a function from the endpoint to its result and the new endpoint. A packet is the list
  of bytes in the caller's buffer. The time is the argument \<open>now_us\<close>.
\<close>

section \<open>State\<close>

record reliable_message =
  rm_id :: u16
  rm_channel :: u8
  rm_sends :: u32
  rm_payload :: "u8 list"

record network_stats =
  ns_rtt_ms :: f32
  ns_rtt_jitter_ms :: f32
  ns_rtt_min_ms :: f32
  ns_sent_loss_percent :: f32
  ns_recv_loss_percent :: f32
  ns_sent_kbps :: f32
  ns_recv_kbps :: f32
  ns_packets_sent :: u64
  ns_packets_received :: u64
  ns_packets_acked :: u64
  ns_packets_lost :: u64
  ns_reliable_retransmits :: u64

definition mk_stats :: network_stats where
  "mk_stats = \<lparr>ns_rtt_ms = 0, ns_rtt_jitter_ms = 0, ns_rtt_min_ms = 0, ns_sent_loss_percent = 0,
     ns_recv_loss_percent = 0, ns_sent_kbps = 0, ns_recv_kbps = 0, ns_packets_sent = 0,
     ns_packets_received = 0, ns_packets_acked = 0, ns_packets_lost = 0, ns_reliable_retransmits = 0\<rparr>"

record sent_packet =
  sp_send_time_us :: u64
  sp_size :: u32
  sp_acked :: bool
  sp_message_count :: u32
  sp_message_ids :: "u16 list"

definition mk_sent_packet :: sent_packet where
  "mk_sent_packet = \<lparr>sp_send_time_us = 0, sp_size = 0, sp_acked = False, sp_message_count = 0,
     sp_message_ids = replicate 8 0\<rparr>"

record received_packet =
  rp_recv_time_us :: u64
  rp_size :: u32

definition mk_received_packet :: received_packet where
  "mk_received_packet = \<lparr>rp_recv_time_us = 0, rp_size = 0\<rparr>"

record endpoint =
  ep_sequence :: u16
  ep_next_message_id :: u16
  ep_expected_message_id :: u16
  ep_sent :: "sent_packet seq_buffer"
  ep_received :: "received_packet seq_buffer"
  ep_unacked :: "reliable_message list"
  ep_reorder_buffer :: "u16 \<rightharpoonup> reliable_message"
  ep_stats :: network_stats
  ep_rtt_ewma_ms :: f32
  ep_rtt_min_ms :: f32
  ep_jitter_ewma_ms :: f32
  ep_rtt_initialized :: bool
  ep_rate_window_start_us :: u64
  ep_bytes_sent_window :: u64
  ep_bytes_recv_window :: u64
  ep_packets_recv_window :: u64
  ep_packets_expected_window :: u64
  ep_packets_acked_window :: u64
  ep_packets_lost_window :: u64
  ep_highest_received :: u16
  ep_has_received :: bool
  ep_rates_initialized :: bool
  ep_loss_cursor :: u16
  ep_has_loss_cursor :: bool

text \<open>A constructed endpoint, which is also what \<open>reset\<close> leaves (the arrays keep their sizes).\<close>

definition mk_endpoint :: endpoint where
  "mk_endpoint = \<lparr>ep_sequence = 0, ep_next_message_id = 0, ep_expected_message_id = 0,
     ep_sent = mk_seq_buffer (unat kAckWindowSize) mk_sent_packet,
     ep_received = mk_seq_buffer (unat kAckWindowSize) mk_received_packet,
     ep_unacked = [], ep_reorder_buffer = Map.empty, ep_stats = mk_stats,
     ep_rtt_ewma_ms = 0, ep_rtt_min_ms = 0, ep_jitter_ewma_ms = 0, ep_rtt_initialized = False,
     ep_rate_window_start_us = 0, ep_bytes_sent_window = 0, ep_bytes_recv_window = 0,
     ep_packets_recv_window = 0, ep_packets_expected_window = 0, ep_packets_acked_window = 0,
     ep_packets_lost_window = 0, ep_highest_received = 0, ep_has_received = False,
     ep_rates_initialized = False, ep_loss_cursor = 0, ep_has_loss_cursor = False\<rparr>"

definition ep_reset :: "endpoint \<Rightarrow> endpoint" where
  "ep_reset ep = mk_endpoint\<lparr>ep_sent := sb_reset (ep_sent ep), ep_received := sb_reset (ep_received ep)\<rparr>"


section \<open>Sending\<close>

definition queue_reliable :: "u8 \<Rightarrow> u8 list \<Rightarrow> endpoint \<Rightarrow> endpoint" where
  "queue_reliable channel data ep =
     (if length data = 0 \<or> unat kMaxReliableMessageSize < length data then ep
      else ep\<lparr>ep_next_message_id := ep_next_message_id ep + 1,
              ep_unacked := ep_unacked ep @
                [\<lparr>rm_id = ep_next_message_id ep, rm_channel = channel, rm_sends = 0, rm_payload = data\<rparr>]\<rparr>)"

definition ack_history :: "endpoint \<Rightarrow> u32" where
  "ack_history ep =
     (if ep_has_received ep
      then foldl (\<lambda>ack_bits i.
             let previous = ep_highest_received ep - (word_of_nat i + 1)
             in if sb_exists previous (ep_received ep) then ack_bits OR push_bit i 1 else ack_bits) 0 [0..<32]
      else 0)"

text \<open>
  How many messages the packet takes: the loop compares the space left behind the header, which the
  loop does not reduce, with each message on its own.
\<close>

fun count_included :: "u32 \<Rightarrow> u32 \<Rightarrow> reliable_message list \<Rightarrow> u32 \<Rightarrow> u32" where
  "count_included bits_remaining unreliable_size [] include_count = include_count"
| "count_included bits_remaining unreliable_size (m # ms) include_count =
     (if kMaxReliablePerPacket \<le> include_count then include_count
      else let needed_bits = word_of_nat (16 + 8 + 16 + length (rm_payload m) * 8)
           in if bits_remaining < needed_bits + unreliable_size * 8 + 32 then include_count
              else count_included bits_remaining unreliable_size ms (include_count + 1))"

definition write_message :: "reliable_message \<Rightarrow> (bit_writer, unit) state" where
  "write_message m = do {
     write_u16 (rm_id m);
     write_u8 (rm_channel m);
     write_u16 (word_of_nat (length (rm_payload m)));
     write_bytes (rm_payload m) (word_of_nat (length (rm_payload m))) }"

definition note_message :: "u16 \<Rightarrow> sent_packet \<Rightarrow> sent_packet" where
  "note_message i r = r\<lparr>sp_message_ids := (sp_message_ids r)[unat (sp_message_count r) := i],
     sp_message_count := sp_message_count r + 1\<rparr>"

text \<open>The loop that writes the messages: writer, packet record, retransmit counter and the queue.\<close>

fun write_messages ::
  "u32 \<Rightarrow> reliable_message list \<Rightarrow> u32 \<Rightarrow> bit_writer \<Rightarrow> sent_packet \<Rightarrow> u64 \<Rightarrow>
   reliable_message list \<times> bit_writer \<times> sent_packet \<times> u64" where
  "write_messages include_count [] written w r retransmits = ([], w, r, retransmits)"
| "write_messages include_count (m # ms) written w r retransmits =
     (if include_count \<le> written then (m # ms, w, r, retransmits)
      else
        let w = snd (run_state (write_message m) w);
            r = note_message (rm_id m) r;
            retransmits = (if 0 < rm_sends m then retransmits + 1 else retransmits);
            (ms, w, r, retransmits) = write_messages include_count ms (written + 1) w r retransmits
        in (m\<lparr>rm_sends := rm_sends m + 1\<rparr> # ms, w, r, retransmits))"

definition write_packet ::
  "u8 list \<Rightarrow> u32 \<Rightarrow> u8 list \<Rightarrow> u32 \<Rightarrow> u64 \<Rightarrow> endpoint \<Rightarrow> u32 \<times> u8 list \<times> endpoint" where
  "write_packet out capacity unreliable unreliable_size now_us ep =
     (let sequence = ep_sequence ep;
          ack = (if ep_has_received ep then ep_highest_received ep else 0);
          ack_bits = ack_history ep;
          w = snd (run_state (do { write_u16 sequence; write_u16 ack; write_u32 ack_bits }) (mk_writer out capacity));
          ep = ep\<lparr>ep_sequence := sequence + 1\<rparr>
      in case sb_insert mk_sent_packet sequence (ep_sent ep) of
           None \<Rightarrow> (0, bw_buffer w, ep)
         | Some sent \<Rightarrow>
             let r = mk_sent_packet\<lparr>sp_send_time_us := now_us, sp_acked := False, sp_message_count := 0\<rparr>;
                 include_count = count_included (bw_bits_remaining w) unreliable_size (ep_unacked ep) 0;
                 w = snd (run_state (write_u8 (ucast include_count)) w);
                 (unacked, w, r, retransmits) =
                   write_messages include_count (ep_unacked ep) 0 w r (ns_reliable_retransmits (ep_stats ep));
                 w = snd (run_state (do {
                       write_u16 (ucast unreliable_size);
                       if 0 < unreliable_size then write_bytes unreliable unreliable_size
                       else State_Monad.return () }) w);
                 ep = ep\<lparr>ep_unacked := unacked, ep_sent := sb_store sequence r sent,
                         ep_stats := (ep_stats ep)\<lparr>ns_reliable_retransmits := retransmits\<rparr>\<rparr>
             in if bw_overflow w then (0, bw_buffer w, ep)
                else
                  let (size, w) = run_state bytes_written w
                  in (size, bw_buffer w,
                      ep\<lparr>ep_sent := sb_store sequence (r\<lparr>sp_size := size\<rparr>) (ep_sent ep),
                         ep_stats := (ep_stats ep)\<lparr>ns_packets_sent := ns_packets_sent (ep_stats ep) + 1\<rparr>,
                         ep_bytes_sent_window := ep_bytes_sent_window ep + ucast size\<rparr>))"


section \<open>Acknowledgements\<close>

definition kRttSmoothing :: f32 where "kRttSmoothing = 0x3dcccccd"
definition kJitterSmoothing :: f32 where "kJitterSmoothing = 0x3dcccccd"
definition kRateSmoothing :: f32 where "kRateSmoothing = 0x3dcccccd"
definition kRateWindowUs :: u64 where "kRateWindowUs = 250000"
definition kLossHorizon :: u16 where "kLossHorizon = 32"

text \<open>The \<open>float\<close> constants \<open>1000.f\<close>, \<open>8.f\<close>, \<open>100.f\<close> and \<open>1e6f\<close>.\<close>

definition f_1000 :: f32 where "f_1000 = 0x447a0000"
definition f_8 :: f32 where "f_8 = 0x41000000"
definition f_100 :: f32 where "f_100 = 0x42c80000"
definition f_1e6 :: f32 where "f_1e6 = 0x49742400"

fun erase_message :: "u16 \<Rightarrow> reliable_message list \<Rightarrow> reliable_message list" where
  "erase_message i [] = []"
| "erase_message i (m # ms) = (if rm_id m = i then ms else m # erase_message i ms)"

definition sample_rtt :: "u64 \<Rightarrow> u64 \<Rightarrow> endpoint \<Rightarrow> endpoint" where
  "sample_rtt now_us send_time_us ep =
     (let sample_ms = f_div (f_of_int (uint (now_us - send_time_us))) f_1000;
          ep = (if \<not> ep_rtt_initialized ep
                then ep\<lparr>ep_rtt_ewma_ms := sample_ms, ep_rtt_min_ms := sample_ms, ep_rtt_initialized := True\<rparr>
                else
                  ep\<lparr>ep_jitter_ewma_ms := f_add (ep_jitter_ewma_ms ep)
                       (f_mul (f_sub (f_abs (f_sub sample_ms (ep_rtt_ewma_ms ep))) (ep_jitter_ewma_ms ep)) kJitterSmoothing),
                     ep_rtt_ewma_ms := f_add (ep_rtt_ewma_ms ep)
                       (f_mul (f_sub sample_ms (ep_rtt_ewma_ms ep)) kRttSmoothing),
                     ep_rtt_min_ms := (if f_lt sample_ms (ep_rtt_min_ms ep) then sample_ms else ep_rtt_min_ms ep)\<rparr>)
      in ep\<lparr>ep_stats := (ep_stats ep)\<lparr>ns_rtt_ms := ep_rtt_ewma_ms ep, ns_rtt_jitter_ms := ep_jitter_ewma_ms ep,
              ns_rtt_min_ms := ep_rtt_min_ms ep\<rparr>\<rparr>)"

definition on_packet_acked :: "u16 \<Rightarrow> u64 \<Rightarrow> endpoint \<Rightarrow> endpoint" where
  "on_packet_acked sequence now_us ep =
     (case sb_find sequence (ep_sent ep) of
        None \<Rightarrow> ep
      | Some r \<Rightarrow>
          if sp_acked r then ep
          else
            let ep = ep\<lparr>ep_sent := sb_store sequence (r\<lparr>sp_acked := True\<rparr>) (ep_sent ep),
                        ep_stats := (ep_stats ep)\<lparr>ns_packets_acked := ns_packets_acked (ep_stats ep) + 1\<rparr>,
                        ep_packets_acked_window := ep_packets_acked_window ep + 1\<rparr>;
                ep = sample_rtt now_us (sp_send_time_us r) ep
            in ep\<lparr>ep_unacked := foldl (\<lambda>unacked i. erase_message i unacked) (ep_unacked ep)
                    (take (unat (sp_message_count r)) (sp_message_ids r))\<rparr>)"

definition process_acks :: "u16 \<Rightarrow> u32 \<Rightarrow> u64 \<Rightarrow> endpoint \<Rightarrow> endpoint" where
  "process_acks ack ack_bits now_us ep =
     foldl (\<lambda>ep i. if ack_bits AND push_bit i 1 \<noteq> 0 then on_packet_acked (ack - (word_of_nat i + 1)) now_us ep else ep)
       (on_packet_acked ack now_us ep) [0..<32]"


section \<open>Receiving\<close>

text \<open>One message of a packet; no result is the early return of a malformed packet.\<close>

definition read_message :: "(bit_reader, reliable_message option) state" where
  "read_message = do {
     i \<leftarrow> read_u16;
     channel \<leftarrow> read_u8;
     payload_size \<leftarrow> read_u16;
     overflowed \<leftarrow> read_overflowed;
     if unat kMaxReliableMessageSize < unat payload_size \<or> overflowed then State_Monad.return None
     else do {
       payload \<leftarrow> read_bytes (replicate (unat payload_size) 0) (ucast payload_size);
       overflowed \<leftarrow> read_overflowed;
       if overflowed then State_Monad.return None
       else State_Monad.return (Some \<lparr>rm_id = i, rm_channel = channel, rm_sends = 0, rm_payload = payload\<rparr>) } }"

definition already_delivered :: "u16 \<Rightarrow> u16 \<Rightarrow> bool" where
  "already_delivered i expected \<longleftrightarrow> \<not> sequence_greater16 i expected \<and> i \<noteq> expected"

definition buffer_message :: "u16 \<Rightarrow> reliable_message \<Rightarrow> (u16 \<rightharpoonup> reliable_message) \<Rightarrow> (u16 \<rightharpoonup> reliable_message)" where
  "buffer_message expected m buf =
     (if already_delivered (rm_id m) expected then buf
      else if buf (rm_id m) \<noteq> None then buf
      else buf(rm_id m \<mapsto> m))"

text \<open>The loop over the messages of a packet; the flag is whether it ran to its end.\<close>

fun read_messages ::
  "nat \<Rightarrow> u16 \<Rightarrow> (u16 \<rightharpoonup> reliable_message) \<Rightarrow> bit_reader \<Rightarrow> bool \<times> (u16 \<rightharpoonup> reliable_message) \<times> bit_reader" where
  "read_messages 0 expected buf r = (True, buf, r)"
| "read_messages (Suc n) expected buf r =
     (case run_state read_message r of
        (None, r) \<Rightarrow> (False, buf, r)
      | (Some m, r) \<Rightarrow> read_messages n expected (buffer_message expected m buf) r)"

function deliver_in_order ::
  "u16 \<Rightarrow> (u16 \<rightharpoonup> reliable_message) \<Rightarrow> reliable_message list \<times> u16 \<times> (u16 \<rightharpoonup> reliable_message)" where
  "deliver_in_order expected buf =
     (case buf expected of
        None \<Rightarrow> ([], expected, buf)
      | Some m \<Rightarrow>
          let (out, expected', buf') = deliver_in_order (expected + 1) (buf(expected := None))
          in (m # out, expected', buf'))"
  by pat_completeness auto
termination
proof (relation "measure (\<lambda>(e, buf). card (dom buf))", goal_cases)
  case (2 expected buf m)
  then have "expected \<in> dom buf" by auto
  then have "0 < card (dom buf)" by (auto simp: card_gt_0_iff)
  with \<open>expected \<in> dom buf\<close> show ?case by (simp add: dom_fun_upd)
qed simp

declare deliver_in_order.simps [simp del]

definition note_received :: "u16 \<Rightarrow> u32 \<Rightarrow> endpoint \<Rightarrow> endpoint" where
  "note_received sequence nbytes ep =
     (let ep = (if \<not> ep_has_received ep
                then ep\<lparr>ep_highest_received := sequence, ep_has_received := True,
                        ep_packets_expected_window := ep_packets_expected_window ep + 1\<rparr>
                else if sequence_greater16 sequence (ep_highest_received ep)
                then ep\<lparr>ep_packets_expected_window := ep_packets_expected_window ep + ucast (sequence - ep_highest_received ep),
                        ep_highest_received := sequence\<rparr>
                else ep)
      in ep\<lparr>ep_stats := (ep_stats ep)\<lparr>ns_packets_received := ns_packets_received (ep_stats ep) + 1\<rparr>,
            ep_packets_recv_window := ep_packets_recv_window ep + 1,
            ep_bytes_recv_window := ep_bytes_recv_window ep + ucast nbytes\<rparr>)"

text \<open>
  The result is the unreliable payload (nothing for size 0) and the delivered messages, or nothing
  where the code returns false. The endpoint changes in both cases.
\<close>

definition read_packet ::
  "u8 list \<Rightarrow> u32 \<Rightarrow> u64 \<Rightarrow> endpoint \<Rightarrow> (u8 list option \<times> reliable_message list) option \<times> endpoint" where
  "read_packet data nbytes now_us ep =
     (let ((sequence, ack, ack_bits), r) =
        run_state (do { s \<leftarrow> read_u16; a \<leftarrow> read_u16; b \<leftarrow> read_u32; State_Monad.return (s, a, b) }) (mk_reader data nbytes)
      in if br_overflow r then (None, ep)
         else if sb_exists sequence (ep_received ep) then (None, ep)
         else case sb_insert mk_received_packet sequence (ep_received ep) of
           None \<Rightarrow> (None, ep)
         | Some received \<Rightarrow>
             let ep = ep\<lparr>ep_received := sb_store sequence \<lparr>rp_recv_time_us = now_us, rp_size = nbytes\<rparr> received\<rparr>;
                 ep = note_received sequence nbytes ep;
                 ep = process_acks ack ack_bits now_us ep;
                 (message_count, r) = run_state read_u8 r
             in if unat kMaxReliablePerPacket < unat message_count then (None, ep)
                else
                  let (complete, buf, r) =
                        read_messages (unat message_count) (ep_expected_message_id ep) (ep_reorder_buffer ep) r;
                      ep = ep\<lparr>ep_reorder_buffer := buf\<rparr>
                  in if \<not> complete then (None, ep)
                     else
                       let (unreliable_size, r) = run_state read_u16 r
                       in if br_overflow r then (None, ep)
                          else if nbytes < bytes_read r + ucast unreliable_size then (None, ep)
                          else
                            let payload = (if 0 < unreliable_size
                                  then Some (take (unat unreliable_size) (drop (unat (bytes_read r)) data))
                                  else None);
                                (out, expected, buf) = deliver_in_order (ep_expected_message_id ep) (ep_reorder_buffer ep)
                            in (Some (payload, out),
                                ep\<lparr>ep_expected_message_id := expected, ep_reorder_buffer := buf\<rparr>))"


section \<open>Periodic update\<close>

function scan_lost :: "u16 \<Rightarrow> sent_packet seq_buffer \<Rightarrow> u16 \<Rightarrow> u64 \<Rightarrow> u64 \<Rightarrow> u16 \<times> u64 \<times> u64" where
  "scan_lost horizon_end sent cursor lost lost_window =
     (if sequence_greater16 horizon_end cursor
      then case sb_find cursor sent of
             None \<Rightarrow> scan_lost horizon_end sent (cursor + 1) lost lost_window
           | Some r \<Rightarrow>
               if \<not> sp_acked r then scan_lost horizon_end sent (cursor + 1) (lost + 1) (lost_window + 1)
               else scan_lost horizon_end sent (cursor + 1) lost lost_window
      else (cursor, lost, lost_window))"
  by pat_completeness auto
termination
proof -
  have step: "unat (h - (c + 1)) < unat (h - c)" if "sequence_greater16 h c" for h c :: u16
    using newer_distance [OF that] span_pred [of h c] by linarith
  show ?thesis by (relation "measure (\<lambda>(h, s, c, l, w). unat (h - c))") (simp_all add: step)
qed

declare scan_lost.simps [simp del]

definition blend :: "bool \<Rightarrow> f32 \<Rightarrow> f32 \<Rightarrow> f32" where
  "blend rates_initialized target sample =
     (if rates_initialized then f_add target (f_mul (f_sub sample target) kRateSmoothing) else sample)"

definition ep_update :: "u64 \<Rightarrow> endpoint \<Rightarrow> endpoint" where
  "ep_update now_us ep =
     (let ep = (if ep_rate_window_start_us ep = 0 then ep\<lparr>ep_rate_window_start_us := now_us\<rparr> else ep);
          horizon_end = ep_sequence ep - kLossHorizon;
          ep = (if \<not> ep_has_loss_cursor ep then ep\<lparr>ep_loss_cursor := horizon_end, ep_has_loss_cursor := True\<rparr> else ep);
          (cursor, lost, lost_window) =
            scan_lost horizon_end (ep_sent ep) (ep_loss_cursor ep) (ns_packets_lost (ep_stats ep)) (ep_packets_lost_window ep);
          ep = ep\<lparr>ep_loss_cursor := cursor, ep_packets_lost_window := lost_window,
                  ep_stats := (ep_stats ep)\<lparr>ns_packets_lost := lost\<rparr>\<rparr>;
          elapsed_us = now_us - ep_rate_window_start_us ep
      in if elapsed_us < kRateWindowUs then ep
         else
           let elapsed_s = f_div (f_of_int (uint elapsed_us)) f_1e6;
               sent_kbps = f_div (f_div (f_mul (f_of_int (uint (ep_bytes_sent_window ep))) f_8) f_1000) elapsed_s;
               recv_kbps = f_div (f_div (f_mul (f_of_int (uint (ep_bytes_recv_window ep))) f_8) f_1000) elapsed_s;
               sent_judged = ep_packets_acked_window ep + ep_packets_lost_window ep;
               missing = (if ep_packets_recv_window ep < ep_packets_expected_window ep
                          then ep_packets_expected_window ep - ep_packets_recv_window ep else 0);
               bl = blend (ep_rates_initialized ep);
               st = ep_stats ep;
               st = st\<lparr>ns_sent_kbps := bl (ns_sent_kbps st) sent_kbps, ns_recv_kbps := bl (ns_recv_kbps st) recv_kbps\<rparr>;
               st = (if 0 < sent_judged
                     then st\<lparr>ns_sent_loss_percent := bl (ns_sent_loss_percent st)
                            (f_div (f_mul (f_of_int (uint (ep_packets_lost_window ep))) f_100) (f_of_int (uint sent_judged)))\<rparr>
                     else st);
               st = (if 0 < ep_packets_expected_window ep
                     then st\<lparr>ns_recv_loss_percent := bl (ns_recv_loss_percent st)
                            (f_div (f_mul (f_of_int (uint missing)) f_100) (f_of_int (uint (ep_packets_expected_window ep))))\<rparr>
                     else st);
               st = st\<lparr>ns_rtt_ms := ep_rtt_ewma_ms ep, ns_rtt_jitter_ms := ep_jitter_ewma_ms ep, ns_rtt_min_ms := ep_rtt_min_ms ep\<rparr>
           in ep\<lparr>ep_stats := st, ep_rates_initialized := True, ep_rate_window_start_us := now_us,
                 ep_bytes_sent_window := 0, ep_bytes_recv_window := 0, ep_packets_recv_window := 0,
                 ep_packets_expected_window := 0, ep_packets_acked_window := 0, ep_packets_lost_window := 0\<rparr>)"

end
