(* ===== verification/Reliable_Packets.thy ===== *)
theory Reliable_Packets
  imports Reliability
begin

text \<open>
  The bytes of a reliability packet: what \<open>write_packet\<close> puts into a packet it returns, and that
  \<open>read_packet\<close> recovers it.
\<close>

section \<open>The packet as a bit string\<close>

definition message_bits :: "reliable_message \<Rightarrow> bool list" where
  "message_bits m = bits_of (rm_id m) 16 @ bits_of (rm_channel m) 8 @
     bits_of (word_of_nat (length (rm_payload m)) :: u16) 16 @ bytes_bits (rm_payload m)"

definition packet_bits :: "u16 \<Rightarrow> u16 \<Rightarrow> u32 \<Rightarrow> reliable_message list \<Rightarrow> u8 list \<Rightarrow> bool list" where
  "packet_bits sequence ack ack_bits ms unreliable =
     (bits_of sequence 16 @ bits_of ack 16 @ bits_of ack_bits 32) @ bits_of (word_of_nat (length ms) :: u8) 8 @
     concat (map message_bits ms) @ bits_of (word_of_nat (length unreliable) :: u16) 16 @ bytes_bits unreliable"

definition message_ok :: "reliable_message \<Rightarrow> bool" where
  "message_ok m \<longleftrightarrow> length (rm_payload m) \<le> 512"

lemma length_message_bits: "length (message_bits m) = 8 * (5 + length (rm_payload m))"
  by (simp add: message_bits_def)

lemma packet_bits_bytes: "8 dvd length (packet_bits s a b ms u)"
proof -
  have "8 dvd length (concat (map message_bits ms))"
    by (induction ms) (simp_all add: length_message_bits)
  then have "8 dvd 88 + 8 * length u + length (concat (map message_bits ms))" by (intro dvd_add) simp_all
  then show ?thesis by (simp add: packet_bits_def algebra_simps)
qed


section \<open>Writing\<close>

lemma emits_write_message: "message_ok m \<Longrightarrow> bw.emits (write_message m) (message_bits m)"
  unfolding write_message_def message_bits_def
  by (intro bw.emits_bind emits_intros) (simp add: message_ok_def unat_of_nat_less)

abbreviation bump_sends :: "reliable_message \<Rightarrow> reliable_message" where
  "bump_sends m \<equiv> m\<lparr>rm_sends := rm_sends m + 1\<rparr>"

lemma write_messages_eq:
  assumes "unat written \<le> unat inc"
  shows "\<exists>rt'. write_messages inc ms written w r rt =
    (map bump_sends (take (unat inc - unat written) ms) @ drop (unat inc - unat written) ms,
     snd (run_state (for_each write_message (take (unat inc - unat written) ms)) w),
     fold note_message (map rm_id (take (unat inc - unat written) ms)) r, rt')"
  using assms
proof (induction ms arbitrary: written w r rt)
  case Nil
  then show ?case by simp
next
  case (Cons m ms)
  show ?case
  proof (cases "inc \<le> written")
    case True
    then have "unat inc - unat written = 0" by (simp add: word_le_nat_alt)
    with True show ?thesis by simp
  next
    case False
    then have lt: "unat written < unat inc" by (simp add: word_le_nat_alt)
    then have w1: "unat (written + 1) = unat written + 1"
      using unat_less_u32 [of inc] by (subst unat_add_u32) simp_all
    then have d: "unat inc - unat written = Suc (unat inc - unat (written + 1))" using lt by simp
    obtain rt' where "write_messages inc ms (written + 1) (snd (run_state (write_message m) w)) (note_message (rm_id m) r)
        (if 0 < rm_sends m then rt + 1 else rt) =
      (map bump_sends (take (unat inc - unat (written + 1)) ms) @ drop (unat inc - unat (written + 1)) ms,
       snd (run_state (for_each write_message (take (unat inc - unat (written + 1)) ms)) (snd (run_state (write_message m) w))),
       fold note_message (map rm_id (take (unat inc - unat (written + 1)) ms)) (note_message (rm_id m) r), rt')"
      using Cons.IH [of "written + 1" "snd (run_state (write_message m) w)" "note_message (rm_id m) r"
          "if 0 < rm_sends m then rt + 1 else rt"] w1 lt by auto
    with False show ?thesis unfolding d by (simp add: Let_def split_def)
  qed
qed

lemma count_included_bounds:
  "unat c \<le> 8 \<Longrightarrow> unat (count_included rem usz ms c) \<le> 8 \<and> unat (count_included rem usz ms c) \<le> unat c + length ms"
proof (induction ms arbitrary: c)
  case Nil
  then show ?case by simp
next
  case (Cons m ms)
  show ?case
  proof (cases "kMaxReliablePerPacket \<le> c")
    case True
    with Cons.prems show ?thesis by simp
  next
    case False
    then have c: "unat c < 8" by (simp add: kMaxReliablePerPacket_def word_le_nat_alt)
    then have c1: "unat (c + 1) = unat c + 1" by (subst unat_add_u32) simp_all
    with Cons.IH [of "c + 1"] c show ?thesis
      using Cons.prems by (simp add: Let_def)
  qed
qed

lemma note_messages:
  "length ids + unat (sp_message_count r) \<le> 8 \<Longrightarrow> length (sp_message_ids r) = 8 \<Longrightarrow>
   unat (sp_message_count (fold note_message ids r)) = unat (sp_message_count r) + length ids \<and>
   length (sp_message_ids (fold note_message ids r)) = 8 \<and>
   take (unat (sp_message_count (fold note_message ids r))) (sp_message_ids (fold note_message ids r)) =
     take (unat (sp_message_count r)) (sp_message_ids r) @ ids \<and>
   sp_acked (fold note_message ids r) = sp_acked r"
proof (induction ids arbitrary: r)
  case Nil
  then show ?case by simp
next
  case (Cons i ids)
  let ?r = "note_message i r"
  have "unat (sp_message_count r + 1) = unat (sp_message_count r) + 1"
    using Cons.prems(1) by (subst unat_add_u32) simp_all
  then have r: "unat (sp_message_count ?r) = unat (sp_message_count r) + 1" "length (sp_message_ids ?r) = 8"
      "take (unat (sp_message_count r) + 1) (sp_message_ids ?r) = take (unat (sp_message_count r)) (sp_message_ids r) @ [i]"
      "sp_acked ?r = sp_acked r"
    using Cons.prems by (simp_all add: note_message_def take_Suc_update)
  from Cons.IH [of ?r] Cons.prems show ?case unfolding r by (simp only: fold_simps list.size) auto
qed

definition sent_record :: "u64 \<Rightarrow> reliable_message list \<Rightarrow> sent_packet" where
  "sent_record now_us ms = fold note_message (map rm_id ms) (mk_sent_packet\<lparr>sp_send_time_us := now_us\<rparr>)"

lemma sent_record_ids:
  assumes "length ms \<le> 8"
  shows "take (unat (sp_message_count (sent_record now_us ms))) (sp_message_ids (sent_record now_us ms)) = map rm_id ms"
    and "\<not> sp_acked (sent_record now_us ms)"
proof -
  let ?r = "mk_sent_packet\<lparr>sp_send_time_us := now_us\<rparr>"
  have r: "length (sp_message_ids ?r) = 8" "unat (sp_message_count ?r) = 0" "\<not> sp_acked ?r"
    by (simp_all add: mk_sent_packet_def)
  have "length (map rm_id ms) + unat (sp_message_count ?r) \<le> 8" using assms r(2) by simp
  note n = note_messages [OF this r(1)]
  have "take (unat (sp_message_count ?r)) (sp_message_ids ?r) = []" unfolding r(2) by simp
  with n [THEN conjunct2, THEN conjunct2, THEN conjunct1]
  show "take (unat (sp_message_count (sent_record now_us ms))) (sp_message_ids (sent_record now_us ms)) = map rm_id ms"
    by (simp only: sent_record_def append_Nil)
  from n [THEN conjunct2, THEN conjunct2, THEN conjunct2] r(3)
  show "\<not> sp_acked (sent_record now_us ms)" by (simp add: sent_record_def)
qed

text \<open>The writer commands of \<open>write_packet\<close> for the messages it decided to include.\<close>

definition packet_writer :: "u16 \<Rightarrow> u16 \<Rightarrow> u32 \<Rightarrow> reliable_message list \<Rightarrow> u8 list \<Rightarrow> u32 \<Rightarrow> (bit_writer, unit) state" where
  "packet_writer sequence ack ack_bits ms unreliable unreliable_size = do {
     (do { write_u16 sequence; write_u16 ack; write_u32 ack_bits });
     write_u8 (word_of_nat (length ms));
     for_each write_message ms;
     write_u16 (ucast unreliable_size);
     if 0 < unreliable_size then write_bytes unreliable unreliable_size else State_Monad.return () }"

lemma emits_packet_writer:
  assumes "list_all message_ok ms" and "length unreliable = unat unreliable_size" and "unat unreliable_size < 65536"
  shows "bw.emits (packet_writer s a b ms unreliable unreliable_size) (packet_bits s a b ms unreliable)"
proof -
  have u: "(ucast unreliable_size :: u16) = word_of_nat (length unreliable)"
    using assms(2,3) by (simp add: word_unat_eq_iff unsigned_ucast_eq take_bit_eq_mod unat_of_nat)
  have tail: "bw.emits (if 0 < unreliable_size then write_bytes unreliable unreliable_size else State_Monad.return ())
      (bytes_bits unreliable)"
    using assms(2) by (cases "0 < unreliable_size") (auto intro: emits_intros bw.emits_return simp: word_less_nat_alt)
  show ?thesis
    unfolding packet_writer_def packet_bits_def u
    by (intro bw.emits_bind bw.emits_for_each emits_intros tail emits_write_message)
      (use assms(1) in \<open>auto simp: list_all_iff\<close>)
qed

text \<open>How many messages of the queue \<open>write_packet\<close> decides to include.\<close>

definition included_count :: "u8 list \<Rightarrow> u32 \<Rightarrow> u32 \<Rightarrow> endpoint \<Rightarrow> nat" where
  "included_count out capacity unreliable_size ep =
     unat (count_included (bw_bits_remaining (snd (run_state (do {
         write_u16 (ep_sequence ep);
         write_u16 (if ep_has_received ep then ep_highest_received ep else 0);
         write_u32 (ack_history ep) }) (mk_writer out capacity)))) unreliable_size (ep_unacked ep) 0)"

lemma included_count_bounds: "included_count out c usz ep \<le> 8" "included_count out c usz ep \<le> length (ep_unacked ep)"
  using count_included_bounds [of 0 _ usz "ep_unacked ep"] by (simp_all add: included_count_def)

lemma included_count_eq:
  assumes "unat c \<le> length out" and "unat c < 268435456" and "8 \<le> unat c"
  shows "included_count out c usz ep = unat (count_included (c * 8 - 64) usz (ep_unacked ep) 0)"
proof -
  let ?m = "do { write_u16 (ep_sequence ep); write_u16 (if ep_has_received ep then ep_highest_received ep else 0);
    write_u32 (ack_history ep) }"
  note w0 = mk_writer_wf [OF assms(1,2)]
  obtain x w where w: "run_state ?m (mk_writer out c) = (x, w)" by (cases "run_state ?m (mk_writer out c)")
  have "bw.emits ?m (bits_of (ep_sequence ep) 16 @ bits_of (if ep_has_received ep then ep_highest_received ep else 0) 16 @
      bits_of (ack_history ep) 32)" by (intro bw.emits_bind emits_intros)
  note st = bw.emits_step [OF this w0(1) w]
  have "bw_room w + 64 = 8 * unat c" using st(4) w0(3) assms(3) by simp
  moreover have "unat (bw_bits_remaining w) = bw_room w"
    using st(1) by (simp add: bw_bits_remaining_def bw_room_def bw_wf_def unat_sub_le word_le_nat_alt)
  moreover have "unat (c * 8) = unat c * 8" using assms(2) by (subst unat_mult_u32) simp_all
  moreover have "unat (c * 8 - 64) = unat (c * 8) - 64"
    using calculation(3) assms(3) by (subst unat_sub_le) (simp_all add: word_le_nat_alt)
  ultimately have "bw_bits_remaining w = c * 8 - 64" by (simp add: word_unat_eq_iff)
  then show ?thesis by (simp only: included_count_def w snd_conv)
qed

text \<open>
  \<open>write_packet\<close> as one writer command: the packet takes some prefix of the queue, at most eight
  messages, and is refused as a whole when that does not fit.
\<close>

lemma write_packet_eq:
  assumes "sb_insert mk_sent_packet (ep_sequence ep) (ep_sent ep) = Some sent"
  shows "\<exists>rt. 
    (let k = included_count out capacity unreliable_size ep;
         ms = take k (ep_unacked ep);
         (n, buf) = finish_writer (packet_writer (ep_sequence ep) (if ep_has_received ep then ep_highest_received ep else 0)
            (ack_history ep) ms unreliable unreliable_size) out capacity;
         overflow = bw_overflow (snd (run_state (packet_writer (ep_sequence ep)
            (if ep_has_received ep then ep_highest_received ep else 0) (ack_history ep) ms unreliable unreliable_size)
            (mk_writer out capacity)));
         ep1 = ep\<lparr>ep_sequence := ep_sequence ep + 1, ep_unacked := map bump_sends ms @ drop k (ep_unacked ep),
            ep_sent := sb_store (ep_sequence ep) (sent_record now_us ms) sent,
            ep_stats := (ep_stats ep)\<lparr>ns_reliable_retransmits := rt\<rparr>\<rparr>
     in write_packet out capacity unreliable unreliable_size now_us ep =
        (n, buf, if overflow then ep1
                 else ep1\<lparr>ep_sent := sb_store (ep_sequence ep) ((sent_record now_us ms)\<lparr>sp_size := n\<rparr>) (ep_sent ep1),
                         ep_stats := (ep_stats ep1)\<lparr>ns_packets_sent := ns_packets_sent (ep_stats ep1) + 1\<rparr>,
                         ep_bytes_sent_window := ep_bytes_sent_window ep1 + ucast n\<rparr>))"
proof -
  let ?ack = "if ep_has_received ep then ep_highest_received ep else 0"
  define w where "w = snd (run_state (do { write_u16 (ep_sequence ep); write_u16 ?ack; write_u32 (ack_history ep) })
    (mk_writer out capacity))"
  define inc where "inc = count_included (bw_bits_remaining w) unreliable_size (ep_unacked ep) 0"
  define k where "k = unat inc"
  define ms where "ms = take k (ep_unacked ep)"
  have k: "k \<le> 8" "k \<le> length (ep_unacked ep)"
    using count_included_bounds [of 0 "bw_bits_remaining w" unreliable_size "ep_unacked ep"]
    by (simp_all add: k_def inc_def)
  have ic: "included_count out capacity unreliable_size ep = k"
    by (simp only: included_count_def k_def inc_def w_def)
  have len: "length ms = k" using k by (simp add: ms_def)
  have inc8: "(ucast inc :: u8) = word_of_nat (length ms)"
    unfolding len using k(1) by (simp add: word_unat_eq_iff unsigned_ucast_eq take_bit_eq_mod unat_of_nat k_def)
  let ?w1 = "snd (run_state (write_u8 (ucast inc)) w)"
  let ?r0 = "mk_sent_packet\<lparr>sp_send_time_us := now_us\<rparr>"
  have r0: "mk_sent_packet\<lparr>sp_send_time_us := now_us, sp_acked := False, sp_message_count := 0\<rparr> = ?r0"
    by (simp add: mk_sent_packet_def)
  obtain rt where wm: "write_messages inc (ep_unacked ep) 0 ?w1 ?r0 (ns_reliable_retransmits (ep_stats ep)) =
    (map bump_sends ms @ drop k (ep_unacked ep), snd (run_state (for_each write_message ms) ?w1), sent_record now_us ms, rt)"
    using write_messages_eq [of 0 inc "ep_unacked ep" ?w1 ?r0 "ns_reliable_retransmits (ep_stats ep)"]
    by (auto simp: k_def ms_def sent_record_def)
  define pw where "pw = packet_writer (ep_sequence ep) ?ack (ack_history ep) ms unreliable unreliable_size"
  have final: "snd (run_state (do { write_u16 (ucast unreliable_size);
        if 0 < unreliable_size then write_bytes unreliable unreliable_size else State_Monad.return () })
        (snd (run_state (for_each write_message ms) ?w1))) = snd (run_state pw (mk_writer out capacity))"
    unfolding pw_def packet_writer_def w_def inc8 by (simp add: run_state_bind split_def)
  show ?thesis
    unfolding ic by (rule exI [of _ rt], cases "bw_overflow (snd (run_state pw (mk_writer out capacity)))")
      (use k in \<open>simp_all add: write_packet_def assms Let_def w_def [symmetric] inc_def [symmetric] r0 wm
        final ms_def [symmetric] pw_def [symmetric] finish_writer_def split_def
        del: run_state_bind split del: if_split\<close>)
qed


section \<open>Reading\<close>

text \<open>A reader command never exchanges the buffer or the capacity.\<close>

definition keeps_input :: "(bit_reader, 'a) state \<Rightarrow> bool" where
  "keeps_input m \<longleftrightarrow> (\<forall>r x r'. run_state m r = (x, r') \<longrightarrow> br_capacity_bits r' = br_capacity_bits r \<and> br_buffer r' = br_buffer r)"

lemma keeps_inputD: "keeps_input m \<Longrightarrow> run_state m r = (x, r') \<Longrightarrow> br_capacity_bits r' = br_capacity_bits r \<and> br_buffer r' = br_buffer r"
  by (simp add: keeps_input_def)

lemma keeps_return: "keeps_input (State_Monad.return x)"
  by (simp add: keeps_input_def)

lemma keeps_bind: "keeps_input m \<Longrightarrow> (\<And>x. keeps_input (f x)) \<Longrightarrow> keeps_input (State_Monad.bind m f)"
  by (auto simp: keeps_input_def split: prod.splits)

lemma keeps_read_bits: "keeps_input (read_bits n)"
  by (auto simp: keeps_input_def read_bits_def br_read_bits_def split: prod.splits if_splits)

lemma keeps_repeat: "keeps_input m \<Longrightarrow> keeps_input (repeat_read n m)"
  by (induction n) (auto intro: keeps_bind keeps_return)

lemma keeps_read_u8: "keeps_input read_u8"
  and keeps_read_u16: "keeps_input read_u16"
  and keeps_read_u32: "keeps_input read_u32"
  unfolding read_u8_def read_u16_def read_u32_def by (intro keeps_bind keeps_return keeps_read_bits)+

lemma keeps_read_overflowed: "keeps_input read_overflowed"
  by (simp add: keeps_input_def read_overflowed_def)

lemma keeps_read_bytes: "keeps_input (read_bytes out n)"
  using keeps_repeat [OF keeps_read_u8, of "unat n"]
  by (auto simp: keeps_input_def read_bytes_def set_overflow_def split: if_splits)

lemma keeps_if: "keeps_input a \<Longrightarrow> keeps_input b \<Longrightarrow> keeps_input (if c then a else b)"
  by simp

lemmas keeps_intros = keeps_bind keeps_return keeps_read_bits keeps_read_u8 keeps_read_u16 keeps_read_u32
  keeps_read_overflowed keeps_read_bytes keeps_if

lemma keeps_read_message: "keeps_input read_message"
  unfolding read_message_def by (intro keeps_intros)

lemma bytes_read_position:
  assumes "br_wf r" and "br_capacity_bits r = n * 8" and "unat n < 268435456" and "length (br_remaining r) = 8 * k" and "k \<le> unat n"
  shows "unat (bytes_read r) = unat n - k"
proof -
  have c: "unat (br_capacity_bits r) = unat n * 8" unfolding assms(2) using assms(3) by (subst unat_mult_u32) simp_all
  have "8 * k = unat n * 8 - unat (br_bit_pos r)"
    using assms(1,4) c by (simp add: br_wf_def br_remaining_def)
  then have p: "unat (br_bit_pos r) = 8 * (unat n - k)" using assms(1,5) c unfolding br_wf_def by linarith
  then have "unat (br_bit_pos r + 7) = 8 * (unat n - k) + 7"
    using assms(3) by (subst unat_add_u32) simp_all
  then show ?thesis by (simp add: bytes_read_def drop_bit_eq_div unat_div)
qed

abbreviation as_received :: "reliable_message \<Rightarrow> reliable_message" where
  "as_received m \<equiv> m\<lparr>rm_sends := 0\<rparr>"

lemma parses_read_message:
  assumes "message_ok m"
  shows "br.parses read_message (message_bits m) (Some (as_received m))"
proof -
  let ?n = "word_of_nat (length (rm_payload m)) :: u16"
  have n: "unat ?n = length (rm_payload m)" using assms by (simp add: message_ok_def unat_of_nat_less)
  then have n32: "length (rm_payload m) = unat (ucast ?n :: u32)"
    using assms by (simp add: unsigned_ucast_eq take_bit_eq_mod message_ok_def)
  have small: "\<not> unat kMaxReliableMessageSize < unat ?n"
    unfolding n using assms by (simp add: message_ok_def kMaxReliableMessageSize_def)
  have payload: "br.parses (read_bytes (replicate (unat ?n) 0) (ucast ?n)) (bytes_bits (rm_payload m)) (rm_payload m)"
    by (rule br.parses_decodes [OF decodes_read_bytes [OF n32]])
  have eq: "\<lparr>rm_id = rm_id m, rm_channel = rm_channel m, rm_sends = 0, rm_payload = rm_payload m\<rparr> = as_received m"
    by simp
  have inner: "br.parses (do { overflowed \<leftarrow> read_overflowed;
       if overflowed then State_Monad.return None
       else State_Monad.return (Some \<lparr>rm_id = rm_id m, rm_channel = rm_channel m, rm_sends = 0, rm_payload = rm_payload m\<rparr>) })
      ([] @ []) (Some (as_received m))"
    unfolding eq by (rule br.parses_bind [OF parses_read_overflowed]) (simp add: br.parses_return)
  have tail: "br.parses (if unat kMaxReliableMessageSize < unat ?n \<or> False then State_Monad.return None
     else do {
       payload \<leftarrow> read_bytes (replicate (unat ?n) 0) (ucast ?n);
       overflowed \<leftarrow> read_overflowed;
       if overflowed then State_Monad.return None
       else State_Monad.return (Some \<lparr>rm_id = rm_id m, rm_channel = rm_channel m, rm_sends = 0, rm_payload = payload\<rparr>) })
    (bytes_bits (rm_payload m) @ [] @ []) (Some (as_received m))"
    using small by (simp only: if_False simp_thms) (rule br.parses_bind [OF payload], rule inner)
  have "br.parses read_message (bits_of (rm_id m) 16 @ bits_of (rm_channel m) 8 @ bits_of ?n 16 @ [] @
      bytes_bits (rm_payload m) @ [] @ []) (Some (as_received m))"
    unfolding read_message_def
    by (rule br.parses_bind [OF br.parses_decodes [OF decodes_read_u16]],
        rule br.parses_bind [OF br.parses_decodes [OF decodes_read_u8]],
        rule br.parses_bind [OF br.parses_decodes [OF decodes_read_u16]],
        rule br.parses_bind [OF parses_read_overflowed], rule tail)
  then show ?thesis by (simp add: message_bits_def)
qed

lemma read_messages_parse:
  assumes "list_all message_ok ms" and "br_wf r" and "\<not> br_overflow r" and "br_remaining r = concat (map message_bits ms) @ rest"
  shows "\<exists>r'. read_messages (length ms) e buf r = (True, fold (buffer_message e) (map as_received ms) buf, r') \<and>
    br_wf r' \<and> \<not> br_overflow r' \<and> br_remaining r' = rest \<and> br_capacity_bits r' = br_capacity_bits r"
  using assms
proof (induction ms arbitrary: r buf)
  case Nil
  then show ?case by simp
next
  case (Cons m ms)
  have rem: "br_remaining r = message_bits m @ concat (map message_bits ms) @ rest" using Cons.prems(4) by simp
  have "message_ok m" using Cons.prems(1) by simp
  from br.parses_run [OF parses_read_message [OF this] Cons.prems(2,3) rem]
  obtain r1 where r1: "run_state read_message r = (Some (as_received m), r1)" "br_wf r1" "\<not> br_overflow r1"
      "br_remaining r1 = concat (map message_bits ms) @ rest" by metis
  from Cons.IH [of r1 "buffer_message e (as_received m) buf"] Cons.prems(1) r1
    keeps_inputD [OF keeps_read_message r1(1)]
  show ?case by simp
qed


text \<open>What acknowledgements leave alone.\<close>

definition same_receiver :: "endpoint \<Rightarrow> endpoint \<Rightarrow> bool" where
  "same_receiver ep ep' \<longleftrightarrow> ep_expected_message_id ep' = ep_expected_message_id ep \<and>
     ep_reorder_buffer ep' = ep_reorder_buffer ep \<and> ep_received ep' = ep_received ep \<and>
     ep_highest_received ep' = ep_highest_received ep \<and> ep_has_received ep' = ep_has_received ep \<and>
     ep_sequence ep' = ep_sequence ep \<and> ep_next_message_id ep' = ep_next_message_id ep"

lemma same_receiver_refl [simp]: "same_receiver ep ep"
  by (simp add: same_receiver_def)

lemma same_receiver_trans: "same_receiver a b \<Longrightarrow> same_receiver b c \<Longrightarrow> same_receiver a c"
  by (simp add: same_receiver_def)

lemma sample_rtt_frame: "same_receiver ep (sample_rtt now t ep)" "ep_unacked (sample_rtt now t ep) = ep_unacked ep"
  "ep_sent (sample_rtt now t ep) = ep_sent ep"
  by (simp_all add: sample_rtt_def Let_def same_receiver_def)

lemma on_packet_acked_frame: "same_receiver ep (on_packet_acked s now ep)"
proof (cases "sb_find s (ep_sent ep)")
  case None
  then show ?thesis by (simp add: on_packet_acked_def)
next
  case (Some r)
  let ?ep = "ep\<lparr>ep_sent := sb_store s (r\<lparr>sp_acked := True\<rparr>) (ep_sent ep),
      ep_stats := (ep_stats ep)\<lparr>ns_packets_acked := ns_packets_acked (ep_stats ep) + 1\<rparr>,
      ep_packets_acked_window := ep_packets_acked_window ep + 1\<rparr>"
  have "same_receiver ep ?ep" by (simp add: same_receiver_def)
  with sample_rtt_frame(1) [of ?ep now "sp_send_time_us r"] Some show ?thesis
    by (simp add: on_packet_acked_def Let_def same_receiver_def)
qed

text \<open>Induction over the acknowledgements of a packet.\<close>

lemma process_acks_induct:
  assumes "P ep" and "\<And>ep s. P ep \<Longrightarrow> s = ack \<or> (\<exists>i < 32. bit ack_bits i \<and> s = ack - (word_of_nat i + 1)) \<Longrightarrow>
    P (on_packet_acked s now ep)"
  shows "P (process_acks ack ack_bits now ep)"
proof -
  have bit: "i < 32 \<and> bit ack_bits i" if nz: "ack_bits AND push_bit i 1 \<noteq> 0" for i
  proof (rule ccontr)
    assume "\<not> ?thesis"
    then have "ack_bits AND push_bit i 1 = 0" by (intro bit_eqI) (auto simp: bit_and_iff bit_exp_iff)
    with nz show False by simp
  qed
  have "P (foldl (\<lambda>ep i. if ack_bits AND push_bit i 1 \<noteq> 0 then on_packet_acked (ack - (word_of_nat i + 1)) now ep else ep) e is)"
    if "P e" for e "is"
    using that
  proof (induction "is" arbitrary: e)
    case (Cons i "is")
    have "P (if ack_bits AND push_bit i 1 \<noteq> 0 then on_packet_acked (ack - (word_of_nat i + 1)) now e else e)"
    proof (cases "ack_bits AND push_bit i 1 \<noteq> 0")
      case True
      with bit have "\<exists>j < 32. bit ack_bits j \<and> ack - (word_of_nat i + 1) = ack - (word_of_nat j + 1)" by blast
      then have "P (on_packet_acked (ack - (word_of_nat i + 1)) now e)" by (intro assms(2) Cons.prems disjI2)
      with True show ?thesis by simp
    qed (use Cons.prems in simp)
    from Cons.IH [OF this] show ?case unfolding foldl.simps .
  qed simp
  moreover have "P (on_packet_acked ack now ep)" by (rule assms(2) [OF assms(1)]) simp
  ultimately show ?thesis unfolding process_acks_def by blast
qed

lemma process_acks_frame: "same_receiver ep (process_acks ack ack_bits now ep)"
proof (rule process_acks_induct)
  fix e s assume "same_receiver ep e"
  then show "same_receiver ep (on_packet_acked s now e)" by (rule same_receiver_trans) (rule on_packet_acked_frame)
qed simp

lemma note_received_frame:
  "ep_expected_message_id (note_received s n ep) = ep_expected_message_id ep"
  "ep_reorder_buffer (note_received s n ep) = ep_reorder_buffer ep"
  "ep_received (note_received s n ep) = ep_received ep"
  "ep_unacked (note_received s n ep) = ep_unacked ep"
  "ep_sent (note_received s n ep) = ep_sent ep"
  "ep_sequence (note_received s n ep) = ep_sequence ep"
  "ep_next_message_id (note_received s n ep) = ep_next_message_id ep"
  "ep_has_received (note_received s n ep)"
  "ep_highest_received (note_received s n ep) =
     (if \<not> ep_has_received ep \<or> sequence_greater16 s (ep_highest_received ep) then s else ep_highest_received ep)"
  by (simp_all add: note_received_def Let_def)

text \<open>The endpoint after the bookkeeping of an accepted packet header.\<close>

definition accept_header :: "u16 \<Rightarrow> u16 \<Rightarrow> u32 \<Rightarrow> u32 \<Rightarrow> u64 \<Rightarrow> received_packet seq_buffer \<Rightarrow> endpoint \<Rightarrow> endpoint" where
  "accept_header sequence ack ack_bits nbytes now_us received ep =
     process_acks ack ack_bits now_us (note_received sequence nbytes
       (ep\<lparr>ep_received := sb_store sequence \<lparr>rp_recv_time_us = now_us, rp_size = nbytes\<rparr> received\<rparr>))"

lemma accept_header_frame:
  "ep_expected_message_id (accept_header s a b n now rc ep) = ep_expected_message_id ep"
  "ep_reorder_buffer (accept_header s a b n now rc ep) = ep_reorder_buffer ep"
  "ep_received (accept_header s a b n now rc ep) = sb_store s \<lparr>rp_recv_time_us = now, rp_size = n\<rparr> rc"
  "ep_sequence (accept_header s a b n now rc ep) = ep_sequence ep"
  "ep_next_message_id (accept_header s a b n now rc ep) = ep_next_message_id ep"
  "ep_has_received (accept_header s a b n now rc ep)"
  "ep_highest_received (accept_header s a b n now rc ep) =
     (if \<not> ep_has_received ep \<or> sequence_greater16 s (ep_highest_received ep) then s else ep_highest_received ep)"
  using process_acks_frame [of "note_received s n (ep\<lparr>ep_received := sb_store s \<lparr>rp_recv_time_us = now, rp_size = n\<rparr> rc\<rparr>)" a b now]
  by (simp_all add: accept_header_def same_receiver_def note_received_frame)

lemma read_header:
  assumes "unat n \<le> length data" and "unat n < 268435456"
    and "bytes_bits (take (unat n) data) = (bits_of s 16 @ bits_of a 16 @ bits_of b 32) @ rest"
  obtains r where "run_state (do { s \<leftarrow> read_u16; a \<leftarrow> read_u16; b \<leftarrow> read_u32; State_Monad.return (s, a, b) })
      (mk_reader data n) = ((s, a, b), r)"
    and "br_wf r" and "\<not> br_overflow r" and "br_remaining r = rest" and "br_capacity_bits r = n * 8"
proof -
  let ?m = "do { s \<leftarrow> read_u16; a \<leftarrow> read_u16; b \<leftarrow> read_u32; State_Monad.return (s, a, b) }"
  note r0 = mk_reader_wf [OF assms(1,2)]
  have "br.parses ?m (bits_of s 16 @ bits_of a 16 @ bits_of b 32 @ []) (s, a, b)"
    by (rule br.parses_bind [OF br.parses_decodes [OF decodes_read_u16]],
        rule br.parses_bind [OF br.parses_decodes [OF decodes_read_u16]],
        rule br.parses_bind [OF br.parses_decodes [OF decodes_read_u32]], rule br.parses_return)
  from br.parses_run [OF this r0(1) r0(3)] r0(2) assms(3)
  obtain r where r: "run_state ?m (mk_reader data n) = ((s, a, b), r)" "br_wf r" "\<not> br_overflow r" "br_remaining r = rest"
    by (metis append.right_neutral append.assoc)
  have "keeps_input ?m" by (intro keeps_intros)
  from keeps_inputD [OF this r(1)] have "br_capacity_bits r = n * 8" by (simp add: mk_reader_def)
  with r that show thesis by blast
qed

lemma read_packet_genuine:
  assumes n: "unat n \<le> length data" "unat n < 268435456"
    and bits: "bytes_bits (take (unat n) data) = packet_bits s a b ms u"
    and ms: "list_all message_ok ms" "length ms \<le> 8" and u: "length u < 65536"
    and fresh: "\<not> sb_exists s (ep_received ep)" and ins: "sb_insert mk_received_packet s (ep_received ep) = Some rc"
  shows "read_packet data n now_us ep =
    (let ep1 = accept_header s a b n now_us rc ep;
         buf = fold (buffer_message (ep_expected_message_id ep)) (map as_received ms) (ep_reorder_buffer ep);
         (out, expected, buf') = deliver_in_order (ep_expected_message_id ep) buf
     in (Some (if u = [] then None else Some u, out),
         ep1\<lparr>ep_reorder_buffer := buf', ep_expected_message_id := expected\<rparr>))"
proof -
  obtain r where r: "run_state (do { s \<leftarrow> read_u16; a \<leftarrow> read_u16; b \<leftarrow> read_u32; State_Monad.return (s, a, b) })
      (mk_reader data n) = ((s, a, b), r)" "br_wf r" "\<not> br_overflow r" "br_capacity_bits r = n * 8"
    "br_remaining r = bits_of (word_of_nat (length ms) :: u8) 8 @
       concat (map message_bits ms) @ bits_of (word_of_nat (length u) :: u16) 16 @ bytes_bits u"
    using read_header [OF n, of s a b] bits by (metis packet_bits_def)
  obtain r1 where r1: "run_state read_u8 r = (word_of_nat (length ms), r1)" "br_wf r1" "\<not> br_overflow r1"
    "br_remaining r1 = concat (map message_bits ms) @ bits_of (word_of_nat (length u) :: u16) 16 @ bytes_bits u"
    using br.parses_run [OF br.parses_decodes [OF decodes_read_u8] r(2,3,5)] by blast
  have c1: "br_capacity_bits r1 = n * 8" using keeps_inputD [OF keeps_read_u8 r1(1)] r(4) by simp
  have count: "unat (word_of_nat (length ms) :: u8) = length ms" using ms(2) by (simp add: unat_of_nat_less)
  let ?buf = "fold (buffer_message (ep_expected_message_id ep)) (map as_received ms) (ep_reorder_buffer ep)"
  obtain r2 where r2: "read_messages (length ms) (ep_expected_message_id ep) (ep_reorder_buffer ep) r1 = (True, ?buf, r2)"
      "br_wf r2" "\<not> br_overflow r2" "br_remaining r2 = bits_of (word_of_nat (length u) :: u16) 16 @ bytes_bits u"
      "br_capacity_bits r2 = n * 8"
    using read_messages_parse [OF ms(1) r1(2,3,4)] c1 by metis
  obtain r3 where r3: "run_state read_u16 r2 = (word_of_nat (length u), r3)" "br_wf r3" "\<not> br_overflow r3"
      "br_remaining r3 = bytes_bits u"
    using br.parses_run [OF br.parses_decodes [OF decodes_read_u16] r2(2,3,4)] by blast
  have c3: "br_capacity_bits r3 = n * 8" using keeps_inputD [OF keeps_read_u16 r3(1)] r2(5) by simp
  have usz: "unat (word_of_nat (length u) :: u16) = length u" using u by (simp add: unat_of_nat_less)
  have len: "8 * unat n = length (packet_bits s a b ms u)" using arg_cong [OF bits, of length] n(1) by simp
  then have un: "length u \<le> unat n" by (simp add: packet_bits_def)
  have pos: "unat (bytes_read r3) = unat n - length u"
    by (rule bytes_read_position [OF r3(2) c3 n(2) _ un]) (simp add: r3(4))
  have usz32: "unat (ucast (word_of_nat (length u) :: u16) :: u32) = length u"
    using usz u by (simp add: unsigned_ucast_eq take_bit_eq_mod)
  have "unat (bytes_read r3 + ucast (word_of_nat (length u) :: u16)) = unat n"
    using pos usz32 un n(2) by (subst unat_add_u32) simp_all
  then have fits: "\<not> n < bytes_read r3 + ucast (word_of_nat (length u) :: u16)" by (simp add: word_less_nat_alt)
  have payload: "take (unat (word_of_nat (length u) :: u16)) (drop (unat (bytes_read r3)) data) = u"
  proof -
    have "bytes_bits (take (length u) (drop (unat n - length u) data)) =
        drop (8 * (unat n - length u)) (bytes_bits (take (unat n) data))"
      using un by (simp add: drop_bytes_bits drop_take)
    also have "\<dots> = bytes_bits u"
    proof -
      have "8 * (unat n - length u) = length (packet_bits s a b ms u) - 8 * length u" using len by simp
      then show ?thesis unfolding bits by (simp add: packet_bits_def)
    qed
    finally show ?thesis unfolding usz pos by (rule bytes_bits_inj [rotated]) (use un n in simp)
  qed
  have pos_u: "(0 < (word_of_nat (length u) :: u16)) = (u \<noteq> [])" using usz by (simp add: word_less_nat_alt)
  note fr = accept_header_frame [of s a b n now_us rc ep]
  show ?thesis
    unfolding read_packet_def r(1) Let_def prod.case
    using r(3) fresh ms(2)
    by (simp add: ins accept_header_def [symmetric] fr r1(1) count kMaxReliablePerPacket_def r2(1) r3(1,3) fits
        payload pos_u split_def Let_def)
qed


section \<open>What a built packet carries\<close>

lemma finish_writer_overflow:
  "bw_overflow (snd (run_state m (mk_writer out c))) \<Longrightarrow> fst (finish_writer m out c) = 0"
  by (simp add: finish_writer_def Let_def)

text \<open>The record kept for a sent packet lists the messages of that packet and is not acknowledged.\<close>

definition lists_messages :: "sent_packet \<Rightarrow> u16 list \<Rightarrow> bool" where
  "lists_messages r ids \<longleftrightarrow> take (unat (sp_message_count r)) (sp_message_ids r) = ids"

lemma write_packet_built:
  assumes cap: "unat c \<le> length out" "unat c < 268435456"
    and u: "length u = unat usz" "unat usz < 65536"
    and ok: "list_all message_ok (ep_unacked ep)"
    and run: "write_packet out c u usz now ep = (n, buf, ep')" and n: "n \<noteq> 0"
  obtains k sent r where "k = included_count out c usz ep" and "unat n \<le> length buf" and "unat n \<le> unat c"
    and "bytes_bits (take (unat n) buf) = packet_bits (ep_sequence ep)
      (if ep_has_received ep then ep_highest_received ep else 0) (ack_history ep) (take k (ep_unacked ep)) u"
    and "ep_unacked ep' = map bump_sends (take k (ep_unacked ep)) @ drop k (ep_unacked ep)"
    and "sb_insert mk_sent_packet (ep_sequence ep) (ep_sent ep) = Some sent"
    and "ep_sent ep' = sb_store (ep_sequence ep) r (sb_store (ep_sequence ep) (sent_record now (take k (ep_unacked ep))) sent)"
    and "lists_messages r (map rm_id (take k (ep_unacked ep)))" and "\<not> sp_acked r"
proof -
  obtain sent where sent: "sb_insert mk_sent_packet (ep_sequence ep) (ep_sent ep) = Some sent"
    using run n by (cases "sb_insert mk_sent_packet (ep_sequence ep) (ep_sent ep)") (auto simp: write_packet_def Let_def)
  let ?ack = "if ep_has_received ep then ep_highest_received ep else 0"
  define k where "k = included_count out c usz ep"
  have k: "k \<le> 8" "k \<le> length (ep_unacked ep)" unfolding k_def by (rule included_count_bounds)+
  obtain rt where eq: "let ms = take k (ep_unacked ep);
         (n, buf) = finish_writer (packet_writer (ep_sequence ep) ?ack (ack_history ep) ms u usz) out c;
         overflow = bw_overflow (snd (run_state (packet_writer (ep_sequence ep) ?ack (ack_history ep) ms u usz) (mk_writer out c)));
         ep1 = ep\<lparr>ep_sequence := ep_sequence ep + 1, ep_unacked := map bump_sends ms @ drop k (ep_unacked ep),
            ep_sent := sb_store (ep_sequence ep) (sent_record now ms) sent,
            ep_stats := (ep_stats ep)\<lparr>ns_reliable_retransmits := rt\<rparr>\<rparr>
     in write_packet out c u usz now ep =
        (n, buf, if overflow then ep1
                 else ep1\<lparr>ep_sent := sb_store (ep_sequence ep) ((sent_record now ms)\<lparr>sp_size := n\<rparr>) (ep_sent ep1),
                         ep_stats := (ep_stats ep1)\<lparr>ns_packets_sent := ns_packets_sent (ep_stats ep1) + 1\<rparr>,
                         ep_bytes_sent_window := ep_bytes_sent_window ep1 + ucast n\<rparr>)"
    using write_packet_eq [OF sent, of out c usz u now] unfolding k_def by (metis (no_types, lifting))
  define ms where "ms = take k (ep_unacked ep)"
  define pw where "pw = packet_writer (ep_sequence ep) ?ack (ack_history ep) ms u usz"
  note eq' = eq [unfolded Let_def ms_def [symmetric], folded pw_def]
  have fw: "finish_writer pw out c = (n, buf)" using eq' run by (simp add: split_def)
  have no: "\<not> bw_overflow (snd (run_state pw (mk_writer out c)))" using finish_writer_overflow [of pw out c] fw n by auto
  have ep': "ep_unacked ep' = map bump_sends ms @ drop k (ep_unacked ep)"
      "ep_sent ep' = sb_store (ep_sequence ep) ((sent_record now ms)\<lparr>sp_size := n\<rparr>) (sb_store (ep_sequence ep) (sent_record now ms) sent)"
    using eq' run no fw by auto
  have "list_all message_ok ms" using ok by (auto simp: ms_def list_all_iff dest: in_set_takeD)
  note em = emits_packet_writer [OF this u, of "ep_sequence ep" ?ack "ack_history ep", folded pw_def]
  let ?bits = "packet_bits (ep_sequence ep) ?ack (ack_history ep) ms u"
  have fit: "length ?bits \<le> 8 * unat c" using finish_writer_full [OF em cap] fw n by fastforce
  note fits = finish_writer_fits [OF em cap fit fw]
  have "8 * unat n = length ?bits" using fits(1) packet_bits_bytes [of "ep_sequence ep" ?ack "ack_history ep" ms u] by auto
  with fits(4) have bits: "bytes_bits (take (unat n) buf) = ?bits" by simp
  have "length ms \<le> 8" using k by (simp add: ms_def)
  note r = sent_record_ids [OF this, of now]
  show thesis
    by (rule that [OF k_def fits(2,3) bits [unfolded ms_def] ep'(1) [unfolded ms_def] sent ep'(2) [unfolded ms_def]])
      (use r in \<open>simp_all add: lists_messages_def ms_def\<close>)
qed

lemma write_packet_unacked:
  assumes "write_packet out c u usz now ep = (n, buf, ep')"
  obtains k where "ep_unacked ep' = map bump_sends (take k (ep_unacked ep)) @ drop k (ep_unacked ep)"
proof (cases "sb_insert mk_sent_packet (ep_sequence ep) (ep_sent ep)")
  case None
  with assms have "ep_unacked ep' = ep_unacked ep" by (auto simp: write_packet_def Let_def)
  with that [of 0] show thesis by simp
next
  case (Some sent)
  show thesis using write_packet_eq [OF Some, of out c usz u now] assms
    by (auto simp: Let_def split_def split: if_splits intro: that)
qed


section \<open>When a packet can be built\<close>

definition packet_bytes :: "reliable_message list \<Rightarrow> u8 list \<Rightarrow> nat" where
  "packet_bytes ms u = 11 + sum_list (map (\<lambda>m. 5 + length (rm_payload m)) ms) + length u"

lemma length_packet_bits: "length (packet_bits s a b ms u) = 8 * packet_bytes ms u"
proof -
  have "length (concat (map message_bits ms)) = 8 * sum_list (map (\<lambda>m. 5 + length (rm_payload m)) ms)"
    by (induction ms) (simp_all add: length_message_bits)
  then show ?thesis by (simp add: packet_bits_def packet_bytes_def)
qed

lemma write_packet_need:
  assumes cap: "unat c \<le> length out" "unat c < 268435456"
    and u: "length u = unat usz" "unat usz < 65536"
    and ok: "list_all message_ok (ep_unacked ep)"
    and sent: "sb_insert mk_sent_packet (ep_sequence ep) (ep_sent ep) = Some sent"
  shows "unat (fst (write_packet out c u usz now ep)) =
      (let need = packet_bytes (take (included_count out c usz ep) (ep_unacked ep)) u
       in if need \<le> unat c then need else 0)"
proof -
  define ms where "ms = take (included_count out c usz ep) (ep_unacked ep)"
  let ?ack = "if ep_has_received ep then ep_highest_received ep else 0"
  let ?pw = "packet_writer (ep_sequence ep) ?ack (ack_history ep) ms u usz"
  obtain n buf where fw: "finish_writer ?pw out c = (n, buf)" by (metis prod.exhaust)
  have eq: "fst (write_packet out c u usz now ep) = n"
    using write_packet_eq [OF sent, of out c usz u now] fw by (auto simp: Let_def ms_def [symmetric])
  have "list_all message_ok ms" using ok by (auto simp: ms_def list_all_iff dest: in_set_takeD)
  note em = emits_packet_writer [OF this u, of "ep_sequence ep" ?ack "ack_history ep"]
  have "unat n = (if packet_bytes ms u \<le> unat c then packet_bytes ms u else 0)"
  proof (cases "packet_bytes ms u \<le> unat c")
    case True
    then have "length (packet_bits (ep_sequence ep) ?ack (ack_history ep) ms u) \<le> 8 * unat c" by (simp add: length_packet_bits)
    from finish_writer_fits(1) [OF em cap this fw] True show ?thesis by (simp add: length_packet_bits)
  next
    case False
    then have "8 * unat c < length (packet_bits (ep_sequence ep) ?ack (ack_history ep) ms u)" by (simp add: length_packet_bits)
    from finish_writer_full [OF em cap this] fw False show ?thesis by simp
  qed
  with eq show ?thesis by (simp add: ms_def)
qed

text \<open>
  \<open>write_packet\<close> is all or nothing. When the window accepts the next sequence number, the
  returned length is the exact size of the header, the messages it decided to include and the
  unreliable payload if that fits the capacity, and 0 otherwise; in both cases the decided messages
  are the oldest ones of the queue, at most eight.
\<close>

theorem write_packet_size:
  assumes cap: "unat c \<le> length out" "unat c < 268435456"
    and u: "length u = unat usz" "unat usz < 65536"
    and ok: "list_all message_ok (ep_unacked ep)"
    and sent: "sb_insert mk_sent_packet (ep_sequence ep) (ep_sent ep) = Some sent"
  shows "included_count out c usz ep \<le> 8 \<and>
    unat (fst (write_packet out c u usz now ep)) =
      (let need = packet_bytes (take (included_count out c usz ep) (ep_unacked ep)) u
       in if need \<le> unat c then need else 0)"
  using write_packet_need [OF assms] included_count_bounds(1) by blast

text \<open>A new endpoint with one queued message, the input of the concrete instances.\<close>

definition sample_message :: reliable_message where
  "sample_message = \<lparr>rm_id = 0, rm_channel = 3, rm_sends = 0, rm_payload = [1, 2, 3]\<rparr>"

definition sample_sender :: endpoint where
  "sample_sender = queue_reliable 3 [1, 2, 3] mk_endpoint"

lemma first_insert: "\<not> sb_has_latest b \<Longrightarrow> \<exists>b'. sb_insert d s b = Some b'"
  by (simp add: sb_insert_def Let_def)

lemma mk_endpoint_windows: "\<not> sb_has_latest (ep_sent mk_endpoint)" "\<not> sb_has_latest (ep_received mk_endpoint)"
  by (simp_all add: mk_endpoint_def mk_seq_buffer_def sb_reset_def)

lemma sample_sender_simps:
  "ep_unacked sample_sender = [sample_message]" "ep_sent sample_sender = ep_sent mk_endpoint"
  "ep_received sample_sender = ep_received mk_endpoint" "ep_sequence sample_sender = 0"
  by (simp_all add: sample_sender_def sample_message_def queue_reliable_def kMaxReliableMessageSize_def) (simp_all add: mk_endpoint_def)

lemma sample_included: "included_count (replicate 32 0) 32 0 sample_sender = 1"
  by (subst included_count_eq)
    (simp_all add: sample_sender_simps kMaxReliablePerPacket_def sample_message_def)

theorem write_packet_size_witness:
  "unat (fst (write_packet (replicate 32 0) 32 [] 0 0 sample_sender)) = 19"
proof -
  obtain sent where sent: "sb_insert mk_sent_packet (ep_sequence sample_sender) (ep_sent sample_sender) = Some sent"
    using first_insert [OF mk_endpoint_windows(1)] by (metis sample_sender_simps(2))
  have "list_all message_ok (ep_unacked sample_sender)"
    by (simp add: sample_sender_simps message_ok_def sample_message_def)
  from write_packet_size [OF _ _ _ _ this sent, of 32 "replicate 32 0" "[]" 0 0] show ?thesis
    by (simp add: sample_included sample_sender_simps packet_bytes_def sample_message_def)
qed

end
