(* ===== verification/Reliable_Delivery.thy ===== *)
theory Reliable_Delivery
  imports Reliable_Packets
begin

text \<open>
  Two endpoints and a network that loses, duplicates and reorders datagrams: what the receiver of the
  reliable stream hands to its application is a prefix of what the sender queued.
\<close>

section \<open>The system\<close>

type_synonym content = "u8 \<times> u8 list"

definition content :: "reliable_message \<Rightarrow> content" where
  "content m = (rm_channel m, rm_payload m)"

text \<open>
  The sending and the receiving endpoint, and as history variables the accepted messages in the order
  they were queued, every packet ever put on the wire and everything delivered.
\<close>

record net_state =
  net_a :: endpoint
  net_b :: endpoint
  net_log :: "content list"
  net_wire :: "u8 list set"
  net_delivered :: "content list"

definition net_init :: net_state where
  "net_init = \<lparr>net_a = mk_endpoint, net_b = mk_endpoint, net_log = [], net_wire = {}, net_delivered = []\<rparr>"

definition accepted :: "u8 list \<Rightarrow> bool" where
  "accepted data \<longleftrightarrow> data \<noteq> [] \<and> length data \<le> unat kMaxReliableMessageSize"

text \<open>
  The steps: the sender queues, sends, updates and reads any bytes at all; the receiver reads any
  packet that was ever sent, any number of times, and runs its own side of the protocol.
\<close>

inductive net_step :: "net_state \<Rightarrow> net_state \<Rightarrow> bool" where
  queue: "net_step s (s\<lparr>net_a := queue_reliable channel data (net_a s),
     net_log := (if accepted data then net_log s @ [(channel, data)] else net_log s)\<rparr>)"
| send: "unat capacity \<le> length out \<Longrightarrow> unat capacity < 268435456 \<Longrightarrow>
    length unreliable = unat unreliable_size \<Longrightarrow> unat unreliable_size < 65536 \<Longrightarrow>
    write_packet out capacity unreliable unreliable_size now_us (net_a s) = (n, buf, a) \<Longrightarrow>
    net_step s (s\<lparr>net_a := a, net_wire := (if n = 0 then net_wire s else insert (take (unat n) buf) (net_wire s))\<rparr>)"
| receive: "packet \<in> net_wire s \<Longrightarrow>
    read_packet packet (word_of_nat (length packet)) now_us (net_b s) = (result, b) \<Longrightarrow>
    net_step s (s\<lparr>net_b := b, net_delivered := net_delivered s @
      (case result of None \<Rightarrow> [] | Some (payload, ms) \<Rightarrow> map content ms)\<rparr>)"
| a_receive: "net_step s (s\<lparr>net_a := snd (read_packet data n now_us (net_a s))\<rparr>)"
| a_update: "net_step s (s\<lparr>net_a := ep_update now_us (net_a s)\<rparr>)"
| b_queue: "net_step s (s\<lparr>net_b := queue_reliable channel data (net_b s)\<rparr>)"
| b_send: "net_step s (s\<lparr>net_b := snd (snd (write_packet out capacity unreliable unreliable_size now_us (net_b s)))\<rparr>)"
| b_update: "net_step s (s\<lparr>net_b := ep_update now_us (net_b s)\<rparr>)"


section \<open>Sequence numbers below the wrap\<close>

lemma of_nat_u16_eq: "i < 65536 \<Longrightarrow> j < 65536 \<Longrightarrow> (word_of_nat i :: u16) = word_of_nat j \<longleftrightarrow> i = j"
  by (auto simp: word_unat_eq_iff unat_of_nat take_bit_eq_mod)

lemma already_delivered_iff:
  assumes "i \<le> 32768" and "e \<le> 32768"
  shows "already_delivered (word_of_nat i) (word_of_nat e) \<longleftrightarrow> i < e"
proof -
  have u: "unat (word_of_nat i :: u16) = i" "unat (word_of_nat e :: u16) = e"
    using assms by (simp_all add: unat_of_nat_less)
  have g: "sequence_greater16 (word_of_nat i) (word_of_nat e) \<longleftrightarrow> e < i"
    using assms unfolding sequence_greater16_def by (auto simp: word_less_nat_alt word_le_nat_alt u unat_sub_if' )
  have "(word_of_nat i :: u16) = word_of_nat e \<longleftrightarrow> i = e" using assms by (intro of_nat_u16_eq) simp_all
  with g show ?thesis by (auto simp: already_delivered_def)
qed


section \<open>The receiver\<close>

text \<open>The reorder buffer holds messages of the log that are still to come.\<close>

definition pending_from :: "content list \<Rightarrow> nat \<Rightarrow> (u16 \<rightharpoonup> reliable_message) \<Rightarrow> bool" where
  "pending_from lg e buf \<longleftrightarrow> (\<forall>i m. buf i = Some m \<longrightarrow>
     (\<exists>k. e \<le> k \<and> k < length lg \<and> i = word_of_nat k \<and> lg ! k = content m))"

definition genuine :: "content list \<Rightarrow> reliable_message \<Rightarrow> bool" where
  "genuine lg m \<longleftrightarrow> (\<exists>k < length lg. rm_id m = word_of_nat k \<and> lg ! k = content m)"

lemma genuine_append: "genuine lg m \<Longrightarrow> genuine (lg @ xs) m"
  unfolding genuine_def
proof (elim exE conjE)
  fix k assume "k < length lg" "rm_id m = word_of_nat k" "lg ! k = content m"
  then show "\<exists>k < length (lg @ xs). rm_id m = word_of_nat k \<and> (lg @ xs) ! k = content m"
    by (intro exI [of _ k]) (simp add: nth_append)
qed

lemma pending_from_append: "pending_from lg e buf \<Longrightarrow> pending_from (lg @ xs) e buf"
  unfolding pending_from_def
proof (intro allI impI)
  fix i m
  assume "\<forall>i m. buf i = Some m \<longrightarrow> (\<exists>k\<ge>e. k < length lg \<and> i = word_of_nat k \<and> lg ! k = content m)" and "buf i = Some m"
  then obtain k where "e \<le> k" "k < length lg" "i = word_of_nat k" "lg ! k = content m" by blast
  then show "\<exists>k\<ge>e. k < length (lg @ xs) \<and> i = word_of_nat k \<and> (lg @ xs) ! k = content m"
    by (intro exI [of _ k]) (simp add: nth_append)
qed

lemma buffer_message_pending:
  assumes "pending_from lg e buf" and "genuine lg m" and "length lg \<le> 32768" and "e \<le> length lg"
  shows "pending_from lg e (buffer_message (word_of_nat e) m buf)"
proof -
  obtain k where k: "k < length lg" "rm_id m = word_of_nat k" "lg ! k = content m"
    using assms(2) by (auto simp: genuine_def)
  have "already_delivered (rm_id m) (word_of_nat e) \<longleftrightarrow> k < e"
    unfolding k(2) using k(1) assms(3,4) by (intro already_delivered_iff) simp_all
  with k assms(1) show ?thesis
    by (auto simp: buffer_message_def pending_from_def not_less)
qed

lemma buffer_messages_pending:
  assumes "pending_from lg e buf" and "list_all (genuine lg) ms" and "length lg \<le> 32768" and "e \<le> length lg"
  shows "pending_from lg e (fold (buffer_message (word_of_nat e)) ms buf)"
  using assms by (induction ms arbitrary: buf) (auto intro: buffer_message_pending)

lemma deliver_in_order_pending:
  assumes "deliver_in_order expected0 buf = (out, expected, buf')" and "expected0 = word_of_nat e"
    and "pending_from lg e buf" and "length lg \<le> 32768" and "e \<le> length lg"
  shows "\<exists>e'. e \<le> e' \<and> e' \<le> length lg \<and> expected = word_of_nat e' \<and> take e' lg = take e lg @ map content out \<and>
    pending_from lg e' buf'"
  using assms
proof (induction expected0 buf arbitrary: e out expected buf' rule: deliver_in_order.induct)
  case (1 expected0 buf)
  show ?case
  proof (cases "buf expected0")
    case None
    then have "out = []" "expected = expected0" "buf' = buf" using "1.prems"(1) by (simp_all add: deliver_in_order.simps [of expected0])
    with "1.prems" show ?thesis by (intro exI [of _ e]) simp
  next
    case (Some m)
    let ?buf = "buf(expected0 := None)"
    obtain out' where rec: "deliver_in_order (expected0 + 1) ?buf = (out', expected, buf')" and out: "out = m # out'"
      using "1.prems"(1) Some by (auto simp: deliver_in_order.simps [of expected0] Let_def split: prod.splits)
    obtain k where k: "e \<le> k" "k < length lg" "expected0 = word_of_nat k" "lg ! k = content m"
      using "1.prems"(3) Some unfolding pending_from_def by blast
    then have ke: "k = e" using "1.prems"(2,4,5) of_nat_u16_eq [of e k] by simp
    have pend: "pending_from lg (e + 1) ?buf"
      unfolding pending_from_def
    proof (intro allI impI)
      fix i m' assume "?buf i = Some m'"
      then have i: "i \<noteq> expected0" "buf i = Some m'" by (auto split: if_splits)
      with "1.prems"(3) obtain j where j: "e \<le> j" "j < length lg" "i = word_of_nat j" "lg ! j = content m'"
        unfolding pending_from_def by blast
      have "j \<noteq> e" using j(3) i(1) "1.prems"(2) by auto
      with j show "\<exists>k\<ge>e + 1. k < length lg \<and> i = word_of_nat k \<and> lg ! k = content m'"
        by (intro exI [of _ j]) simp
    qed
    have next_id: "expected0 + 1 = word_of_nat (e + 1)" using "1.prems"(2) by simp
    have "e + 1 \<le> length lg" using k(2) ke by simp
    from "1.IH" [OF Some rec next_id pend "1.prems"(4) this]
    obtain e' where e': "e + 1 \<le> e'" "e' \<le> length lg" "expected = word_of_nat e'"
        "take e' lg = take (e + 1) lg @ map content out'" "pending_from lg e' buf'" by blast
    moreover have "take (e + 1) lg = take e lg @ [content m]" using k ke by (simp add: take_Suc_conv_app_nth)
    ultimately show ?thesis unfolding out by (intro exI [of _ e']) simp
  qed
qed


section \<open>What each operation leaves alone\<close>

lemma ep_update_frame: "same_receiver ep (ep_update now ep)" "ep_unacked (ep_update now ep) = ep_unacked ep"
  "ep_sent (ep_update now ep) = ep_sent ep"
  by (simp_all add: ep_update_def Let_def same_receiver_def split: prod.splits)

lemma queue_reliable_frame:
  "ep_expected_message_id (queue_reliable c d ep) = ep_expected_message_id ep"
  "ep_reorder_buffer (queue_reliable c d ep) = ep_reorder_buffer ep"
  "ep_received (queue_reliable c d ep) = ep_received ep"
  "ep_sent (queue_reliable c d ep) = ep_sent ep"
  "ep_sequence (queue_reliable c d ep) = ep_sequence ep"
  by (simp_all add: queue_reliable_def)

lemma write_packet_frame:
  assumes "write_packet out c u usz now ep = (n, buf, ep')"
  shows "ep_expected_message_id ep' = ep_expected_message_id ep" and "ep_reorder_buffer ep' = ep_reorder_buffer ep"
    and "ep_received ep' = ep_received ep" and "ep_next_message_id ep' = ep_next_message_id ep"
    and "ep_highest_received ep' = ep_highest_received ep" and "ep_has_received ep' = ep_has_received ep"
    and "ep_sequence ep' = ep_sequence ep + 1"
  using assms by (auto simp: write_packet_def Let_def split: option.splits prod.splits if_splits)

lemma set_erase_message: "set (erase_message i ms) \<subseteq> set ms"
  by (induction ms) auto

lemma set_erase_messages: "set (foldl (\<lambda>unacked i. erase_message i unacked) ms ids) \<subseteq> set ms"
proof (induction ids arbitrary: ms)
  case (Cons i ids)
  from Cons [of "erase_message i ms"] set_erase_message [of i ms] show ?case by auto
qed simp

lemma on_packet_acked_unacked: "set (ep_unacked (on_packet_acked s now ep)) \<subseteq> set (ep_unacked ep)"
  using set_erase_messages by (auto simp: on_packet_acked_def Let_def sample_rtt_frame split: option.splits dest!: subsetD)

lemma accept_header_unacked: "set (ep_unacked (accept_header s a b n now rc ep)) \<subseteq> set (ep_unacked ep)"
  unfolding accept_header_def
proof (rule process_acks_induct)
  fix e :: endpoint and s' assume "set (ep_unacked e) \<subseteq> set (ep_unacked ep)"
  with on_packet_acked_unacked [of s' now e] show "set (ep_unacked (on_packet_acked s' now e)) \<subseteq> set (ep_unacked ep)" by simp
qed (simp add: note_received_frame)

lemma read_packet_sender:
  "ep_next_message_id (snd (read_packet data n now ep)) = ep_next_message_id ep"
  "set (ep_unacked (snd (read_packet data n now ep))) \<subseteq> set (ep_unacked ep)"
  "ep_sequence (snd (read_packet data n now ep)) = ep_sequence ep"
proof -
  obtain s a b r where hdr: "run_state (do { s \<leftarrow> read_u16; a \<leftarrow> read_u16; b \<leftarrow> read_u32; State_Monad.return (s, a, b) })
      (mk_reader data n) = ((s, a, b), r)" by (metis prod.exhaust)
  let ?F = "\<lambda>e. ep_next_message_id e = ep_next_message_id ep \<and> set (ep_unacked e) \<subseteq> set (ep_unacked ep) \<and> ep_sequence e = ep_sequence ep"
  have "?F (accept_header s a b n now rc ep)" for rc by (simp add: accept_header_unacked accept_header_frame)
  then have "?F (snd (read_packet data n now ep))"
    unfolding read_packet_def hdr Let_def prod.case accept_header_def [symmetric] by (simp add: split_def split: option.split)
  then show "ep_next_message_id (snd (read_packet data n now ep)) = ep_next_message_id ep"
    and "set (ep_unacked (snd (read_packet data n now ep))) \<subseteq> set (ep_unacked ep)"
    and "ep_sequence (snd (read_packet data n now ep)) = ep_sequence ep" by simp_all
qed

lemma read_packet_rejected:
  assumes "unat n \<le> length data" and "unat n < 268435456" and "bytes_bits (take (unat n) data) = packet_bits s a b ms u"
    and "sb_exists s (ep_received ep) \<or> sb_insert mk_received_packet s (ep_received ep) = None"
  shows "read_packet data n now ep = (None, ep)"
proof -
  obtain r where "run_state (do { s \<leftarrow> read_u16; a \<leftarrow> read_u16; b \<leftarrow> read_u32; State_Monad.return (s, a, b) })
      (mk_reader data n) = ((s, a, b), r)" "\<not> br_overflow r"
    using read_header [OF assms(1,2), of s a b] assms(3) by (metis packet_bits_def)
  with assms(4) show ?thesis by (auto simp: read_packet_def)
qed


section \<open>The invariant\<close>

text \<open>A packet on the wire is a well-formed packet whose messages come from the log.\<close>

definition wire_ok :: "content list \<Rightarrow> u8 list \<Rightarrow> bool" where
  "wire_ok lg p \<longleftrightarrow> length p < 268435456 \<and> (\<exists>s a b ms u. bytes_bits p = packet_bits s a b ms u \<and>
     list_all message_ok ms \<and> list_all (genuine lg) ms \<and> length ms \<le> 8 \<and> length u < 65536)"

definition sender_ok :: "content list \<Rightarrow> endpoint \<Rightarrow> bool" where
  "sender_ok lg a \<longleftrightarrow> ep_next_message_id a = word_of_nat (length lg) \<and>
     list_all (genuine lg) (ep_unacked a) \<and> list_all message_ok (ep_unacked a)"

definition receiver_ok :: "content list \<Rightarrow> content list \<Rightarrow> endpoint \<Rightarrow> bool" where
  "receiver_ok lg delivered b \<longleftrightarrow> sb_wf (ep_received b) \<and> (\<exists>e \<le> length lg. ep_expected_message_id b = word_of_nat e \<and>
     delivered = take e lg \<and> pending_from lg e (ep_reorder_buffer b))"

definition net_inv :: "net_state \<Rightarrow> bool" where
  "net_inv s \<longleftrightarrow> sender_ok (net_log s) (net_a s) \<and> receiver_ok (net_log s) (net_delivered s) (net_b s) \<and>
     (\<forall>p \<in> net_wire s. wire_ok (net_log s) p)"

lemma wire_ok_append: "wire_ok lg p \<Longrightarrow> wire_ok (lg @ xs) p"
  unfolding wire_ok_def by (metis (no_types, lifting) genuine_append list.pred_mono_strong)

lemma sender_ok_subset:
  "sender_ok lg a \<Longrightarrow> set (ep_unacked a') \<subseteq> set (ep_unacked a) \<Longrightarrow> ep_next_message_id a' = ep_next_message_id a \<Longrightarrow> sender_ok lg a'"
  by (auto simp: sender_ok_def list_all_iff)

lemma receiver_ok_frame:
  "receiver_ok lg d b \<Longrightarrow> ep_expected_message_id b' = ep_expected_message_id b \<Longrightarrow>
   ep_reorder_buffer b' = ep_reorder_buffer b \<Longrightarrow> ep_received b' = ep_received b \<Longrightarrow> receiver_ok lg d b'"
  by (simp add: receiver_ok_def)

lemma receiver_ok_append: "receiver_ok lg d b \<Longrightarrow> receiver_ok (lg @ xs) d b"
  unfolding receiver_ok_def
proof (elim conjE exE)
  fix e assume "sb_wf (ep_received b)" "e \<le> length lg" "ep_expected_message_id b = word_of_nat e" "d = take e lg"
    "pending_from lg e (ep_reorder_buffer b)"
  then show "sb_wf (ep_received b) \<and> (\<exists>e\<le>length (lg @ xs). ep_expected_message_id b = word_of_nat e \<and> d = take e (lg @ xs) \<and>
      pending_from (lg @ xs) e (ep_reorder_buffer b))"
    by (intro conjI exI [of _ e]) (auto intro: pending_from_append)
qed

lemma queue_sender_ok:
  assumes "sender_ok lg a"
  shows "sender_ok (if accepted data then lg @ [(c, data)] else lg) (queue_reliable c data a)"
proof (cases "accepted data")
  case True
  let ?m = "\<lparr>rm_id = ep_next_message_id a, rm_channel = c, rm_sends = 0, rm_payload = data\<rparr>"
  have "genuine (lg @ [(c, data)]) ?m"
    unfolding genuine_def by (intro exI [of _ "length lg"]) (use assms in \<open>simp add: sender_ok_def content_def\<close>)
  moreover have "message_ok ?m" using True by (simp add: accepted_def message_ok_def kMaxReliableMessageSize_def)
  moreover have "list_all (genuine (lg @ [(c, data)])) (ep_unacked a)"
    using assms by (auto simp: sender_ok_def list_all_iff intro: genuine_append)
  ultimately show ?thesis
    using assms True by (auto simp: sender_ok_def queue_reliable_def accepted_def add.commute)
next
  case False
  with assms show ?thesis by (auto simp: sender_ok_def queue_reliable_def accepted_def)
qed

lemma bumped_genuine: "genuine lg (bump_sends m) = genuine lg m" "message_ok (bump_sends m) = message_ok m"
  "genuine lg (as_received m) = genuine lg m"
  by (simp_all add: genuine_def content_def message_ok_def)

lemma send_sender_ok:
  assumes "sender_ok lg a" and "write_packet out c u usz now a = (n, buf, a')"
  shows "sender_ok lg a'"
proof -
  obtain k where k: "ep_unacked a' = map bump_sends (take k (ep_unacked a)) @ drop k (ep_unacked a)"
    using write_packet_unacked [OF assms(2)] .
  have "list_all P (take k xs)" "list_all P (drop k xs)" if "list_all P xs" for P and xs :: "reliable_message list"
    using that by (auto simp: list_all_iff dest: in_set_takeD in_set_dropD)
  with assms(1) write_packet_frame [OF assms(2)] show ?thesis
    by (auto simp: sender_ok_def k list_all_iff bumped_genuine dest: in_set_takeD in_set_dropD)
qed

lemma send_wire_ok:
  assumes "sender_ok lg a" and cap: "unat c \<le> length out" "unat c < 268435456"
    and u: "length u = unat usz" "unat usz < 65536"
    and run: "write_packet out c u usz now a = (n, buf, a')" and n: "n \<noteq> 0"
  shows "wire_ok lg (take (unat n) buf)"
proof -
  have ok: "list_all message_ok (ep_unacked a)" using assms(1) by (simp add: sender_ok_def)
  from write_packet_built [OF cap u ok run n]
  obtain k ack where k': "k = included_count out c usz a" and k: "unat n \<le> length buf" "unat n \<le> unat c"
    "bytes_bits (take (unat n) buf) = packet_bits (ep_sequence a) ack (ack_history a) (take k (ep_unacked a)) u" by blast
  have "list_all (genuine lg) (take k (ep_unacked a))" "list_all message_ok (take k (ep_unacked a))"
    using assms(1) by (auto simp: sender_ok_def list_all_iff dest: in_set_takeD)
  then show ?thesis
    unfolding wire_ok_def using k u cap included_count_bounds(1) [of out c usz a]
    by (intro conjI exI [of _ "ep_sequence a"] exI [of _ ack] exI [of _ "ack_history a"] exI [of _ "take k (ep_unacked a)"] exI [of _ u]) (auto simp: k')
qed

text \<open>The result of reading a packet from the wire, in terms of the log.\<close>

lemma receive_receiver_ok:
  assumes ok: "receiver_ok lg delivered b" and wire: "wire_ok lg p" and len: "length lg \<le> 32768"
    and run: "read_packet p (word_of_nat (length p)) now b = (result, b')"
  shows "receiver_ok lg (delivered @ (case result of None \<Rightarrow> [] | Some (payload, ms) \<Rightarrow> map content ms)) b'"
proof -
  let ?n = "word_of_nat (length p) :: u32"
  obtain s a bb ms u where p: "length p < 268435456" "bytes_bits p = packet_bits s a bb ms u"
    "list_all message_ok ms" "list_all (genuine lg) ms" "length ms \<le> 8" "length u < 65536"
    using wire by (auto simp: wire_ok_def)
  have n: "unat ?n = length p" using p(1) by (simp add: unat_of_nat_less)
  have nle: "unat ?n \<le> length p" "unat ?n < 268435456" using n p(1) by simp_all
  have bits: "bytes_bits (take (unat ?n) p) = packet_bits s a bb ms u" using n p(2) by simp
  show ?thesis
  proof (cases "sb_exists s (ep_received b) \<or> sb_insert mk_received_packet s (ep_received b) = None")
    case True
    from read_packet_rejected [OF nle bits True] run ok show ?thesis by simp
  next
    case False
    then obtain rc where fresh: "\<not> sb_exists s (ep_received b)" and rc: "sb_insert mk_received_packet s (ep_received b) = Some rc"
      by auto
    obtain e where e: "sb_wf (ep_received b)" "e \<le> length lg" "ep_expected_message_id b = word_of_nat e"
      "delivered = take e lg" "pending_from lg e (ep_reorder_buffer b)"
      using ok by (auto simp: receiver_ok_def)
    define buf where "buf = fold (buffer_message (ep_expected_message_id b)) (map as_received ms) (ep_reorder_buffer b)"
    obtain dl ex buf' where dl: "deliver_in_order (ep_expected_message_id b) buf = (dl, ex, buf')" by (metis prod.exhaust)
    have pend: "pending_from lg e buf"
      unfolding buf_def e(3) using p(4) by (intro buffer_messages_pending e len) (auto simp: list_all_iff bumped_genuine)
    obtain e' where e': "e \<le> e'" "e' \<le> length lg" "ex = word_of_nat e'" "take e' lg = take e lg @ map content dl"
      "pending_from lg e' buf'"
      using deliver_in_order_pending [OF dl e(3) pend len e(2)] by blast
    note rd = read_packet_genuine [OF nle bits p(3,5,6) fresh rc, of now]
    have res: "result = Some (if u = [] then None else Some u, dl)"
      and b': "b' = (accept_header s a bb ?n now rc b)\<lparr>ep_reorder_buffer := buf', ep_expected_message_id := ex\<rparr>"
      using run unfolding rd Let_def buf_def [symmetric] dl by simp_all
    have "sb_wf (sb_store s \<lparr>rp_recv_time_us = now, rp_size = ?n\<rparr> rc)"
      using sb_insert_spec [OF e(1) rc] by (intro sb_store_spec) simp_all
    with e' show ?thesis
      unfolding receiver_ok_def res b' by (auto simp: accept_header_frame e(4) intro!: exI [of _ e'])
  qed
qed

lemma net_step_log: "net_step s s' \<Longrightarrow> length (net_log s) \<le> length (net_log s')"
  by (induction rule: net_step.induct) simp_all

lemma net_step_inv:
  assumes "net_step s s'" and "net_inv s" and "length (net_log s') \<le> 32768"
  shows "net_inv s'"
  using assms
proof (induction rule: net_step.induct)
  case (queue s data channel)
  then have "sender_ok (if accepted data then net_log s @ [(channel, data)] else net_log s)
      (queue_reliable channel data (net_a s))" by (intro queue_sender_ok) (simp add: net_inv_def)
  with queue show ?case by (auto simp: net_inv_def intro: receiver_ok_append wire_ok_append)
next
  case (send capacity out unreliable unreliable_size now_us s n buf a)
  then show ?case by (auto simp: net_inv_def intro: send_sender_ok send_wire_ok)
next
  case (receive packet s now_us result b)
  then show ?case by (auto simp: net_inv_def intro: receive_receiver_ok)
next
  case (a_receive s data n now_us)
  then show ?case
    using sender_ok_subset [OF _ read_packet_sender(2) read_packet_sender(1)] by (auto simp: net_inv_def)
next
  case (a_update s now_us)
  then show ?case
    using ep_update_frame [where now = now_us and ep = "net_a s"] by (auto simp: net_inv_def same_receiver_def intro: sender_ok_subset)
next
  case (b_queue s channel data)
  then show ?case by (auto simp: net_inv_def queue_reliable_frame intro: receiver_ok_frame)
next
  case (b_send s out capacity unreliable unreliable_size now_us)
  obtain n buf b where w: "write_packet out capacity unreliable unreliable_size now_us (net_b s) = (n, buf, b)"
    by (metis prod.exhaust)
  from b_send show ?case using write_packet_frame [OF w] by (auto simp: net_inv_def w intro: receiver_ok_frame)
next
  case (b_update s now_us)
  then show ?case
    using ep_update_frame [where now = now_us and ep = "net_b s"] by (auto simp: net_inv_def same_receiver_def intro: receiver_ok_frame)
qed

lemma net_init_inv: "net_inv net_init"
  using mk_seq_buffer_wf [of 1024 mk_received_packet]
  by (simp add: net_inv_def net_init_def mk_endpoint_def sender_ok_def receiver_ok_def pending_from_def kAckWindowSize_def)

lemma net_reachable_inv:
  assumes "net_step\<^sup>*\<^sup>* net_init s" and "length (net_log s) \<le> 32768"
  shows "net_inv s"
  using assms
proof (induction rule: rtranclp_induct)
  case base
  show ?case by (rule net_init_inv)
next
  case (step s s')
  with net_step_log [OF step(2)] net_step_inv [OF step(2)] show ?case by simp
qed

text \<open>
  C1: reliable messages are delivered in order and exactly once. In every reachable state of two
  endpoints over a network that may lose, duplicate and reorder packets, and whatever bytes the
  sender reads, the messages the receiver has delivered are a prefix of the messages the sender has
  accepted (as long as at most 32768 have been queued, so that the 16-bit ids do not wrap around).
\<close>

theorem reliable_delivery_prefix:
  assumes "net_step\<^sup>*\<^sup>* net_init s" and "length (net_log s) \<le> 32768"
  shows "\<exists>e \<le> length (net_log s). net_delivered s = take e (net_log s)"
  using net_reachable_inv [OF assms] by (auto simp: net_inv_def receiver_ok_def)


text \<open>The packet of the sample sender and what a new endpoint makes of it.\<close>

lemma sample_packet:
  obtains n buf a where "write_packet (replicate 32 0) 32 [] 0 0 sample_sender = (n, buf, a)" and "n \<noteq> 0"
    and "unat n \<le> length buf" and "unat n \<le> 32"
    and "bytes_bits (take (unat n) buf) = packet_bits 0 0 (ack_history sample_sender) [sample_message] []"
    and "ep_unacked a = [bump_sends sample_message]"
proof -
  obtain n buf a where run: "write_packet (replicate 32 0) 32 [] 0 0 sample_sender = (n, buf, a)" by (metis prod.exhaust)
  obtain sent where sent: "sb_insert mk_sent_packet (ep_sequence sample_sender) (ep_sent sample_sender) = Some sent"
    using first_insert [OF mk_endpoint_windows(1)] by (metis sample_sender_simps(2))
  have ok: "list_all message_ok (ep_unacked sample_sender)"
    by (simp add: sample_sender_simps message_ok_def sample_message_def)
  from write_packet_need [OF _ _ _ _ ok sent, of 32 "replicate 32 0" "[]" 0 0] have "unat n = 19"
    by (simp add: run sample_included sample_sender_simps packet_bytes_def sample_message_def)
  then have nz: "n \<noteq> 0" by auto
  have nr: "\<not> ep_has_received sample_sender" by (simp add: sample_sender_def queue_reliable_def mk_endpoint_def)
  show thesis
    by (rule write_packet_built [OF _ _ _ _ ok run nz])
      (use that [OF run nz] sample_included sample_sender_simps nr \<open>unat n = 19\<close> in simp_all)
qed

theorem reliable_delivery_prefix_witness:
  "\<exists>s. net_step\<^sup>*\<^sup>* net_init s \<and> net_delivered s = [(3, [1, 2, 3])] \<and>
     (\<exists>e \<le> length (net_log s). net_delivered s = take e (net_log s))"
proof -
  obtain n buf a where run: "write_packet (replicate 32 0) 32 [] 0 0 sample_sender = (n, buf, a)" and nz: "n \<noteq> 0"
    and n: "unat n \<le> length buf" "unat n \<le> 32"
    and bits: "bytes_bits (take (unat n) buf) = packet_bits 0 0 (ack_history sample_sender) [sample_message] []"
    by (rule sample_packet)
  let ?p = "take (unat n) buf"
  have p: "unat (word_of_nat (length ?p) :: u32) \<le> length ?p" "unat (word_of_nat (length ?p) :: u32) < 268435456"
      "bytes_bits (take (unat (word_of_nat (length ?p) :: u32)) ?p) = packet_bits 0 0 (ack_history sample_sender) [sample_message] []"
    using n bits by (simp_all add: unat_of_nat_less)
  have ms: "list_all message_ok [sample_message]" "length [sample_message] \<le> 8" "length ([] :: u8 list) < 65536"
    by (simp_all add: message_ok_def sample_message_def)
  have fresh: "\<not> sb_exists 0 (ep_received mk_endpoint)"
    by (simp add: sb_exists_find mk_endpoint_def mk_seq_buffer_empty kAckWindowSize_def)
  obtain rc where rc: "sb_insert mk_received_packet 0 (ep_received mk_endpoint) = Some rc"
    using first_insert [OF mk_endpoint_windows(2)] by blast
  let ?s1 = "net_init\<lparr>net_a := sample_sender, net_log := [(3, [1, 2, 3])]\<rparr>"
  let ?s2 = "?s1\<lparr>net_a := a, net_wire := {?p}\<rparr>"
  have "accepted [1, 2, 3]" by (simp add: accepted_def kMaxReliableMessageSize_def)
  then have s1: "net_step net_init ?s1"
    using net_step.queue [of net_init "[1, 2, 3]" 3] by (simp add: net_init_def sample_sender_def)
  have s2: "net_step ?s1 ?s2"
    using net_step.send [of 32 "replicate 32 0" "[]" 0 0 ?s1 n buf a] run nz by (simp add: net_init_def)
  let ?e = "ep_expected_message_id mk_endpoint"
  have "deliver_in_order 0 [0 \<mapsto> sample_message] = ([sample_message], 1, Map.empty)"
    by (simp add: deliver_in_order.simps [of 0] deliver_in_order.simps [of 1])
  then obtain b where rd: "read_packet ?p (word_of_nat (length ?p)) 0 mk_endpoint = (Some (None, [sample_message]), b)"
    using read_packet_genuine [OF p ms fresh rc, of 0]
    by (simp add: mk_endpoint_def buffer_message_def already_delivered_def sample_message_def Let_def)
  let ?s3 = "?s2\<lparr>net_b := b, net_delivered := [(3, [1, 2, 3])]\<rparr>"
  have s3: "net_step ?s2 ?s3"
    using net_step.receive [of ?p ?s2 0 "Some (None, [sample_message])" b] rd
    by (simp add: net_init_def content_def sample_message_def)
  have r: "net_step\<^sup>*\<^sup>* net_init ?s3" using s1 s2 s3 by (meson r_into_rtranclp rtranclp_trans)
  from reliable_delivery_prefix [OF r] r show ?thesis by (intro exI [of _ ?s3]) simp
qed

end
