(* ===== verification/Reliable_Loss.thy ===== *)
theory Reliable_Loss
  imports Reliable_Delivery
begin

text \<open>
  The other half of reliability: a queued message is not forgotten before it has arrived. It holds
  for peers that acknowledge only packets they received; two theorems show where the code falls short
  of it: a peer that has received nothing acknowledges packet 0, and a queue whose messages fit a
  packet one by one but not together blocks every further packet.
\<close>

section \<open>A queue that can never be sent\<close>

lemma count_included_ge: "unat c \<le> 8 \<Longrightarrow> unat c \<le> unat (count_included rem usz ms c)"
proof (induction ms arbitrary: c)
  case Nil
  then show ?case by simp
next
  case (Cons m ms)
  show ?case
  proof (cases "kMaxReliablePerPacket \<le> c")
    case False
    then have "unat c < 8" by (simp add: kMaxReliablePerPacket_def word_le_nat_alt)
    moreover from this have "unat (c + 1) = unat c + 1" by (subst unat_add_u32) simp_all
    ultimately show ?thesis using Cons.IH [of "c + 1"] by (simp add: Let_def)
  qed simp
qed

lemma word_8_le: "\<not> (8 :: u32) \<le> 0" "\<not> (8 :: u32) \<le> 1" "\<not> (8 :: u32) \<le> 2"
  by (simp_all add: word_le_nat_alt)

definition oversized_queue :: "endpoint \<Rightarrow> bool" where
  "oversized_queue ep \<longleftrightarrow> (\<exists>m1 m2 m3 ms. ep_unacked ep = m1 # m2 # m3 # ms \<and>
     length (rm_payload m1) = 500 \<and> length (rm_payload m2) = 500 \<and> length (rm_payload m3) = 500) \<and>
     list_all message_ok (ep_unacked ep)"

text \<open>
  C14: a queue that blocks its connection. When the three oldest queued messages have 500 bytes each,
  \<open>write_packet\<close> decides to include all of them in any datagram of 517 to 1200 bytes, cannot build
  the packet and returns 0, and the queue it leaves is such a queue again: no later call succeeds.
\<close>

theorem oversized_queue_stalls:
  assumes q: "oversized_queue ep" and cap: "unat c \<le> length out" "517 \<le> unat c" "unat c \<le> 1200"
    and run: "write_packet out c [] 0 now ep = (n, buf, ep')"
  shows "n = 0 \<and> oversized_queue ep'"
proof
  obtain m1 m2 m3 ms where un: "ep_unacked ep = m1 # m2 # m3 # ms"
    and len: "length (rm_payload m1) = 500" "length (rm_payload m2) = 500" "length (rm_payload m3) = 500"
    and ok: "list_all message_ok (ep_unacked ep)"
    using q by (auto simp: oversized_queue_def)
  have cap': "unat c < 268435456" "8 \<le> unat c" using cap by simp_all
  let ?k = "included_count out c 0 ep"
  have "3 \<le> ?k"
  proof -
    have "unat (c * 8) = unat c * 8" using cap by (subst unat_mult_u32) simp_all
    then have "unat (c * 8 - 64) = unat c * 8 - 64" using cap by (subst unat_sub_le) (simp_all add: word_le_nat_alt)
    then have "\<not> c * 8 - 64 < (4072 :: u32)" using cap by (simp add: word_less_nat_alt)
    then have "count_included (c * 8 - 64) 0 (ep_unacked ep) 0 = count_included (c * 8 - 64) 0 ms 3"
      by (simp add: un len kMaxReliablePerPacket_def word_8_le)
    then show ?thesis
      unfolding included_count_eq [OF cap(1) cap'] using count_included_ge [of 3 "c * 8 - 64" 0 ms] by simp
  qed
  then have "?k = Suc (Suc (Suc (?k - 3)))" by simp
  then obtain j where j: "?k = Suc (Suc (Suc j))" by blast
  have big: "unat c < packet_bytes (take ?k (ep_unacked ep)) []"
    using cap(3) by (simp add: un j packet_bytes_def len)
  show "n = 0"
  proof (cases "sb_insert mk_sent_packet (ep_sequence ep) (ep_sent ep)")
    case None
    with run show ?thesis by (auto simp: write_packet_def Let_def)
  next
    case (Some sent)
    have "unat n = 0" using write_packet_need [OF cap(1) cap'(1) _ _ ok Some, of "[]" 0 now] run big by (simp add: Let_def)
    then show ?thesis by (simp add: unat_eq_0)
  qed
  obtain k where k: "ep_unacked ep' = map bump_sends (take k (ep_unacked ep)) @ drop k (ep_unacked ep)"
    by (rule write_packet_unacked [OF run])
  have "list_all message_ok (ep_unacked ep')"
    using ok by (auto simp: k list_all_iff bumped_genuine dest: in_set_takeD in_set_dropD)
  moreover have "map (length \<circ> rm_payload) (ep_unacked ep') = map (length \<circ> rm_payload) (ep_unacked ep)"
    unfolding k by (subst (3) append_take_drop_id [of k "ep_unacked ep", symmetric]) (simp del: append_take_drop_id)
  then have "\<exists>m1 m2 m3 ms. ep_unacked ep' = m1 # m2 # m3 # ms \<and>
     length (rm_payload m1) = 500 \<and> length (rm_payload m2) = 500 \<and> length (rm_payload m3) = 500"
    by (auto simp: un len map_eq_Cons_conv)
  ultimately show "oversized_queue ep'" by (simp add: oversized_queue_def)
qed

text \<open>Three queued messages of 500 bytes are such a queue, although each alone fits a datagram.\<close>

lemma oversized_queue_reachable:
  "oversized_queue (fold (\<lambda>x. queue_reliable 3 (replicate 500 x)) [1, 2, 3] mk_endpoint)"
  by (simp add: oversized_queue_def queue_reliable_def mk_endpoint_def kMaxReliableMessageSize_def message_ok_def)

theorem oversized_queue_stalls_witness:
  "fst (write_packet (replicate 1187 0) 1187 [] 0 0
     (fold (\<lambda>x. queue_reliable 3 (replicate 500 x)) [1, 2, 3] mk_endpoint)) = 0"
proof -
  let ?ep = "fold (\<lambda>x. queue_reliable 3 (replicate 500 x)) [1, 2, 3] mk_endpoint"
  obtain n buf ep' where run: "write_packet (replicate 1187 0) 1187 [] 0 0 ?ep = (n, buf, ep')" by (metis prod.exhaust)
  from oversized_queue_stalls [OF oversized_queue_reachable _ _ _ run] have "n = 0" by simp
  then show ?thesis unfolding run by simp
qed


section \<open>An acknowledgement of a packet that never arrived\<close>

lemma on_packet_acked_erases:
  assumes "sb_find s (ep_sent ep) = Some r" and "\<not> sp_acked r" and "lists_messages r ids"
  shows "ep_unacked (on_packet_acked s now ep) = foldl (\<lambda>un i. erase_message i un) (ep_unacked ep) ids"
  using assms by (simp add: on_packet_acked_def Let_def sample_rtt_frame lists_messages_def)

lemma process_acks_single: "process_acks a 0 now ep = on_packet_acked a now ep"
proof -
  have "foldl (\<lambda>e i. e) e is = e" for e :: endpoint and "is" :: "nat list" by (induction "is") simp_all
  then show ?thesis by (simp add: process_acks_def)
qed

text \<open>
  C13: an acknowledgement nobody meant. The sender's only packet is lost and the peer, which has
  received nothing, sends any packet of its own: the sender takes it as the acknowledgement of its packet 0 and drops the message, which now
  nobody will send again.
\<close>

theorem unreceived_packet_acknowledged:
  assumes b: "write_packet out c u usz t mk_endpoint = (n, buf, b)" "n \<noteq> 0"
    and cap: "unat c \<le> length out" "unat c < 268435456" and u: "length u = unat usz" "unat usz < 65536"
    and a: "write_packet (replicate 32 0) 32 [] 0 0 sample_sender = (na, bufa, a)"
  shows "ep_unacked a \<noteq> [] \<and> ep_unacked (snd (read_packet (take (unat n) buf) n now a)) = []"
proof
  have nr: "ack_history mk_endpoint = 0" "\<not> ep_has_received mk_endpoint" "ep_sequence mk_endpoint = 0" "ep_unacked mk_endpoint = []"
    by (simp_all add: mk_endpoint_def ack_history_def)
  have ok: "list_all message_ok (ep_unacked mk_endpoint)" by (simp add: nr)
  have bits: "bytes_bits (take (unat n) buf) = packet_bits 0 0 0 [] u" "unat n \<le> length buf" "unat n \<le> unat c"
    by (rule write_packet_built [OF cap u ok b]; simp add: nr)+
  obtain na' bufa' a' where "write_packet (replicate 32 0) 32 [] 0 0 sample_sender = (na', bufa', a')" "na' \<noteq> 0"
      "ep_unacked a' = [bump_sends sample_message]" by (rule sample_packet)
  with a have na: "na \<noteq> 0" and un: "ep_unacked a = [bump_sends sample_message]" by auto
  show "ep_unacked a \<noteq> []" by (simp add: un)
  have ok: "list_all message_ok (ep_unacked sample_sender)"
    by (simp add: sample_sender_simps message_ok_def sample_message_def)
  obtain sent r rec where sent: "sb_insert mk_sent_packet 0 (ep_sent mk_endpoint) = Some sent"
    and store: "ep_sent a = sb_store 0 r (sb_store 0 rec sent)" and r: "lists_messages r [0]" "\<not> sp_acked r"
    by (rule write_packet_built [OF _ _ _ _ ok a na])
      (use sample_included sample_sender_simps in \<open>simp_all add: sample_message_def\<close>)
  have wf: "sb_wf (ep_sent mk_endpoint)" by (simp add: mk_endpoint_def mk_seq_buffer_wf kAckWindowSize_def)
  note s1 = sb_insert_spec [OF wf sent]
  have "sb_wf (sb_store 0 rec sent)" "sb_find 0 (sb_store 0 rec sent) \<noteq> None"
    using s1 by (simp_all add: sb_store_spec)
  then have find: "sb_find 0 (ep_sent a) = Some r" by (simp add: store sb_store_spec)
  have rcv: "ep_received a = ep_received mk_endpoint" using write_packet_frame(3) [OF a] sample_sender_simps(3) by simp
  have fresh: "\<not> sb_exists 0 (ep_received a)"
    unfolding rcv by (simp add: sb_exists_find mk_endpoint_def mk_seq_buffer_empty kAckWindowSize_def)
  obtain rc where rc: "sb_insert mk_received_packet 0 (ep_received a) = Some rc"
    unfolding rcv using first_insert [OF mk_endpoint_windows(2)] by blast
  have p: "unat n \<le> length (take (unat n) buf)" "unat n < 268435456"
      "bytes_bits (take (unat n) (take (unat n) buf)) = packet_bits 0 0 0 [] u"
    using bits cap by simp_all
  have "ep_unacked (accept_header 0 0 0 n now rc a) = []"
    unfolding accept_header_def process_acks_single
    by (subst on_packet_acked_erases [OF _ r(2,1)])
      (simp_all add: note_received_frame find un sample_message_def)
  with read_packet_genuine [OF p _ _ _ fresh rc, of now] u
  show "ep_unacked (snd (read_packet (take (unat n) buf) n now a)) = []" by (simp add: Let_def split_def)
qed

theorem unreceived_packet_acknowledged_witness:
  "\<exists>n buf b na bufa a. write_packet (replicate 32 0) 32 [] 0 0 mk_endpoint = (n, buf, b) \<and>
     write_packet (replicate 32 0) 32 [] 0 0 sample_sender = (na, bufa, a) \<and>
     ep_unacked a \<noteq> [] \<and> ep_unacked (snd (read_packet (take (unat n) buf) n 0 a)) = []"
proof -
  obtain n buf b where b: "write_packet (replicate 32 0) 32 [] 0 0 mk_endpoint = (n, buf, b)" by (metis prod.exhaust)
  obtain na bufa a where a: "write_packet (replicate 32 0) 32 [] 0 0 sample_sender = (na, bufa, a)" by (metis prod.exhaust)
  obtain sent where sent: "sb_insert mk_sent_packet (ep_sequence mk_endpoint) (ep_sent mk_endpoint) = Some sent"
    using first_insert [OF mk_endpoint_windows(1)] by blast
  have un: "ep_unacked mk_endpoint = []" by (simp add: mk_endpoint_def)
  from write_packet_need [OF _ _ _ _ _ sent, of 32 "replicate 32 0" "[]" 0 0] have "unat n = 11"
    by (simp add: b un packet_bytes_def)
  then have "n \<noteq> 0" by auto
  from unreceived_packet_acknowledged [OF b this _ _ _ _ a, of 0] show ?thesis using a b by auto
qed

end
