(* ===== verification/Reliable_Retention.thy ===== *)
theory Reliable_Retention
  imports Reliable_Loss
begin

text \<open>
  A queued message stays with the sender until the receiver has it, for a receiver that sends packets
  of its own only after it has received one. The system of the delivery theory is extended with the
  packets of the way back and with history variables that say which messages each packet carried and
  which packets the receiver accepted.
\<close>

section \<open>Acknowledgement fields\<close>

lemma ack_history_bits:
  "bit (ack_history ep) i \<longleftrightarrow> i < 32 \<and> ep_has_received ep \<and> sb_exists (ep_highest_received ep - (word_of_nat i + 1)) (ep_received ep)"
proof -
  let ?f = "\<lambda>ack_bits j. let previous = ep_highest_received ep - (word_of_nat j + 1)
             in if sb_exists previous (ep_received ep) then ack_bits OR push_bit j 1 else ack_bits"
  have "bit (foldl ?f (acc :: u32) js) i \<longleftrightarrow> bit acc i \<or>
      (i \<in> set js \<and> i < 32 \<and> sb_exists (ep_highest_received ep - (word_of_nat i + 1)) (ep_received ep))" for acc js
  proof (induction js arbitrary: acc)
    case (Cons j js)
    then show ?case by (auto simp: Let_def bit_or_iff bit_exp_iff)
  qed simp
  from this [of 0 "[0..<32]"] show ?thesis by (auto simp: ack_history_def)
qed


section \<open>The system with its way back\<close>

record duplex_state = net_state +
  net_sends :: nat
  net_ids :: "u16 \<rightharpoonup> u16 list"
  net_got :: "u16 set"
  net_back :: "u8 list set"

definition duplex_init :: duplex_state where
  "duplex_init = \<lparr>net_a = mk_endpoint, net_b = mk_endpoint, net_log = [], net_wire = {}, net_delivered = [],
     net_sends = 0, net_ids = Map.empty, net_got = {}, net_back = {}\<rparr>"

definition packet_sequence :: "u8 list \<Rightarrow> u16" where
  "packet_sequence p = of_bits (take 16 (bytes_bits p))"

inductive duplex_step :: "duplex_state \<Rightarrow> duplex_state \<Rightarrow> bool" where
  d_queue: "duplex_step s (s\<lparr>net_a := queue_reliable channel data (net_a s),
     net_log := (if accepted data then net_log s @ [(channel, data)] else net_log s)\<rparr>)"
| d_send: "unat capacity \<le> length out \<Longrightarrow> unat capacity < 268435456 \<Longrightarrow>
    length unreliable = unat unreliable_size \<Longrightarrow> unat unreliable_size < 65536 \<Longrightarrow>
    write_packet out capacity unreliable unreliable_size now_us (net_a s) = (n, buf, a) \<Longrightarrow>
    duplex_step s (s\<lparr>net_a := a, net_wire := (if n = 0 then net_wire s else insert (take (unat n) buf) (net_wire s)),
      net_sends := net_sends s + 1,
      net_ids := (if n = 0 then net_ids s
        else (net_ids s)(ep_sequence (net_a s) \<mapsto>
          map rm_id (take (included_count out capacity unreliable_size (net_a s)) (ep_unacked (net_a s)))))\<rparr>)"
| d_receive: "packet \<in> net_wire s \<Longrightarrow>
    read_packet packet (word_of_nat (length packet)) now_us (net_b s) = (result, b) \<Longrightarrow>
    duplex_step s (s\<lparr>net_b := b, net_delivered := net_delivered s @
      (case result of None \<Rightarrow> [] | Some (payload, ms) \<Rightarrow> map content ms),
      net_got := (if result = None then net_got s else insert (packet_sequence packet) (net_got s))\<rparr>)"
| d_back: "ep_has_received (net_b s) \<Longrightarrow> unat capacity \<le> length out \<Longrightarrow> unat capacity < 268435456 \<Longrightarrow>
    length unreliable = unat unreliable_size \<Longrightarrow> unat unreliable_size < 65536 \<Longrightarrow>
    write_packet out capacity unreliable unreliable_size now_us (net_b s) = (n, buf, b) \<Longrightarrow>
    duplex_step s (s\<lparr>net_b := b, net_back := (if n = 0 then net_back s else insert (take (unat n) buf) (net_back s))\<rparr>)"
| d_ack: "packet \<in> net_back s \<Longrightarrow>
    duplex_step s (s\<lparr>net_a := snd (read_packet packet (word_of_nat (length packet)) now_us (net_a s))\<rparr>)"
| d_a_update: "duplex_step s (s\<lparr>net_a := ep_update now_us (net_a s)\<rparr>)"
| d_b_queue: "duplex_step s (s\<lparr>net_b := queue_reliable channel data (net_b s)\<rparr>)"
| d_b_update: "duplex_step s (s\<lparr>net_b := ep_update now_us (net_b s)\<rparr>)"

text \<open>Without the history it is a step of the system of the delivery theory.\<close>

lemma duplex_net_step: "duplex_step s s' \<Longrightarrow> net_step (net_state.truncate s) (net_state.truncate s')"
proof (induction rule: duplex_step.induct)
  case (d_queue s data channel)
  show ?case using net_step.queue [of "net_state.truncate s" data channel]
    by (cases "accepted data") (simp_all add: net_state.truncate_def)
next
  case (d_send capacity out unreliable unreliable_size now_us s n buf a)
  then show ?case using net_step.send [of capacity out unreliable unreliable_size now_us "net_state.truncate s" n buf a]
    by (cases "n = 0") (simp_all add: net_state.truncate_def)
next
  case (d_receive packet s now_us result b)
  then show ?case using net_step.receive [of packet "net_state.truncate s" now_us result b]
    by (simp add: net_state.truncate_def)
next
  case (d_back s capacity out unreliable unreliable_size now_us n buf b)
  then show ?case using net_step.b_send [of "net_state.truncate s" out capacity unreliable unreliable_size now_us]
    by (simp add: net_state.truncate_def)
next
  case (d_ack packet s now_us)
  show ?case using net_step.a_receive [of "net_state.truncate s" packet "word_of_nat (length packet)" now_us]
    by (simp add: net_state.truncate_def)
next
  case (d_a_update s now_us)
  show ?case using net_step.a_update [of "net_state.truncate s" now_us] by (simp add: net_state.truncate_def)
next
  case (d_b_queue s channel data)
  show ?case using net_step.b_queue [of "net_state.truncate s" channel data] by (simp add: net_state.truncate_def)
next
  case (d_b_update s now_us)
  show ?case using net_step.b_update [of "net_state.truncate s" now_us] by (simp add: net_state.truncate_def)
qed



section \<open>Messages that have reached the receiver\<close>

definition arrived :: "nat \<Rightarrow> (u16 \<rightharpoonup> reliable_message) \<Rightarrow> u16 \<Rightarrow> bool" where
  "arrived e buf i \<longleftrightarrow> (\<exists>k < e. i = word_of_nat k) \<or> buf i \<noteq> None"

lemma deliver_in_order_arrived:
  assumes "deliver_in_order expected0 buf = (out, expected, buf')" and "expected0 = word_of_nat e" and "arrived e buf i"
  shows "arrived (e + length out) buf' i"
  using assms
proof (induction expected0 buf arbitrary: e out expected buf' rule: deliver_in_order.induct)
  case (1 expected0 buf)
  show ?case
  proof (cases "buf expected0")
    case None
    then have "out = []" "buf' = buf" using "1.prems"(1) by (simp_all add: deliver_in_order.simps [of expected0])
    with "1.prems" show ?thesis by simp
  next
    case (Some m)
    obtain out' where rec: "deliver_in_order (expected0 + 1) (buf(expected0 := None)) = (out', expected, buf')" and out: "out = m # out'"
      using "1.prems"(1) Some by (auto simp: deliver_in_order.simps [of expected0] Let_def split: prod.splits)
    have "expected0 + 1 = word_of_nat (e + 1)" using "1.prems"(2) by simp
    moreover have "arrived (e + 1) (buf(expected0 := None)) i"
      using "1.prems"(2,3) by (auto simp: arrived_def less_Suc_eq)
    ultimately have "arrived (e + 1 + length out') buf' i" by (rule "1.IH" [OF Some rec])
    then show ?thesis by (simp add: out)
  qed
qed

lemma buffer_messages_keep: "buf i \<noteq> None \<Longrightarrow> fold (buffer_message e) ms buf i \<noteq> None"
  by (induction ms arbitrary: buf) (auto simp: buffer_message_def)

lemma buffer_messages_arrived:
  assumes "arrived e buf i \<or> i \<in> set (map rm_id ms)" and "list_all (genuine lg) ms" and "length lg \<le> 32768" and "e \<le> length lg"
  shows "arrived e (fold (buffer_message (word_of_nat e)) ms buf) i"
  using assms
proof (induction ms arbitrary: buf)
  case (Cons m ms)
  show ?case
  proof (cases "arrived e buf i \<or> i = rm_id m")
    case True
    have "arrived e (buffer_message (word_of_nat e) m buf) i"
    proof (cases "i = rm_id m")
      case eq: True
      obtain k where k: "k < length lg" "rm_id m = word_of_nat k" using Cons.prems(2) by (auto simp: genuine_def)
      have "already_delivered (rm_id m) (word_of_nat e) \<longleftrightarrow> k < e"
        unfolding k(2) using k(1) Cons.prems(3,4) by (intro already_delivered_iff) simp_all
      with k eq show ?thesis by (auto simp: arrived_def buffer_message_def)
    next
      case False
      with True show ?thesis by (auto simp: arrived_def buffer_message_def)
    qed
    with Cons show ?thesis by simp
  next
    case False
    with Cons show ?thesis by simp
  qed
qed simp

text \<open>Reading a packet from the wire: everything that had arrived and everything in it has arrived.\<close>

lemma receive_arrived:
  assumes ok: "receiver_ok lg delivered b" and len: "length lg \<le> 32768"
    and p: "length p < 268435456" "bytes_bits p = packet_bits s a bb ms u" "list_all message_ok ms"
      "list_all (genuine lg) ms" "length ms \<le> 8" "length u < 65536"
    and run: "read_packet p (word_of_nat (length p)) now b = (Some (payload, dl), b')"
  shows "arrived (length delivered) (ep_reorder_buffer b) i \<or> i \<in> set (map rm_id ms) \<Longrightarrow>
      arrived (length delivered + length dl) (ep_reorder_buffer b') i"
    and "ep_highest_received b' = s \<or> ep_has_received b \<and> ep_highest_received b' = ep_highest_received b"
    and "sb_find q (ep_received b') \<noteq> None \<Longrightarrow> q = s \<or> sb_find q (ep_received b) \<noteq> None"
    and "set (ep_unacked b') \<subseteq> set (ep_unacked b)"
proof -
  let ?n = "word_of_nat (length p) :: u32"
  have n: "unat ?n = length p" using p(1) by (simp add: unat_of_nat_less)
  have nle: "unat ?n \<le> length p" "unat ?n < 268435456" using n p(1) by simp_all
  have bits: "bytes_bits (take (unat ?n) p) = packet_bits s a bb ms u" using n p(2) by simp
  obtain rc where fresh: "\<not> sb_exists s (ep_received b)" and rc: "sb_insert mk_received_packet s (ep_received b) = Some rc"
    using read_packet_rejected [OF nle bits, of b now] run by fastforce
  obtain e where e: "sb_wf (ep_received b)" "e \<le> length lg" "ep_expected_message_id b = word_of_nat e" "delivered = take e lg"
    using ok by (auto simp: receiver_ok_def)
  have ld: "length delivered = e" using e(2,4) by simp
  define buf where "buf = fold (buffer_message (ep_expected_message_id b)) (map as_received ms) (ep_reorder_buffer b)"
  obtain dl' ex buf' where d: "deliver_in_order (ep_expected_message_id b) buf = (dl', ex, buf')" by (metis prod.exhaust)
  note rd = read_packet_genuine [OF nle bits p(3,5,6) fresh rc, of now]
  have dl: "dl' = dl" and b': "b' = (accept_header s a bb ?n now rc b)\<lparr>ep_reorder_buffer := buf', ep_expected_message_id := ex\<rparr>"
    using run unfolding rd Let_def buf_def [symmetric] d by simp_all
  show "arrived (length delivered + length dl) (ep_reorder_buffer b') i"
    if "arrived (length delivered) (ep_reorder_buffer b) i \<or> i \<in> set (map rm_id ms)"
  proof -
    have "arrived e buf i"
      unfolding buf_def e(3) by (rule buffer_messages_arrived [OF _ _ len e(2)])
        (use that p(4) in \<open>auto simp: ld list_all_iff bumped_genuine\<close>)
    from deliver_in_order_arrived [OF d e(3) this] show ?thesis by (simp add: b' ld dl)
  qed
  show "ep_highest_received b' = s \<or> ep_has_received b \<and> ep_highest_received b' = ep_highest_received b"
    by (simp add: b' accept_header_frame)
  show "q = s \<or> sb_find q (ep_received b) \<noteq> None" if "sb_find q (ep_received b') \<noteq> None"
  proof -
    have "sb.record_at mk_received_packet \<lparr>rp_recv_time_us = now, rp_size = ?n\<rparr> s (ep_received b) = Some (ep_received b')"
      by (simp add: sb.record_at_def rc b' accept_header_frame)
    with that sb.record_at_origin [OF e(1) this] show ?thesis by (auto simp: not_None_eq [symmetric] simp del: not_None_eq)
  qed
  show "set (ep_unacked b') \<subseteq> set (ep_unacked b)" by (simp add: b' accept_header_unacked)
qed



section \<open>The invariant\<close>

definition settled :: "duplex_state \<Rightarrow> u16 \<Rightarrow> bool" where
  "settled s i \<longleftrightarrow> arrived (length (net_delivered s)) (ep_reorder_buffer (net_b s)) i"

text \<open>The sender's records agree with the packets on the wire.\<close>

definition records_ok :: "(u16 \<rightharpoonup> u16 list) \<Rightarrow> endpoint \<Rightarrow> bool" where
  "records_ok ids a \<longleftrightarrow> sb_wf (ep_sent a) \<and>
     (\<forall>q r js. sb_find q (ep_sent a) = Some r \<longrightarrow> ids q = Some js \<longrightarrow> lists_messages r js)"

definition kept :: "duplex_state \<Rightarrow> endpoint \<Rightarrow> bool" where
  "kept s a \<longleftrightarrow> (\<forall>k < length (net_log s). settled s (word_of_nat k) \<or> (\<exists>m \<in> set (ep_unacked a). rm_id m = word_of_nat k))"

definition wire_ids_ok :: "duplex_state \<Rightarrow> u8 list \<Rightarrow> bool" where
  "wire_ids_ok s p \<longleftrightarrow> length p < 268435456 \<and> (\<exists>q a b ms u. bytes_bits p = packet_bits q a b ms u \<and>
     list_all message_ok ms \<and> list_all (genuine (net_log s)) ms \<and> length ms \<le> 8 \<and> length u < 65536 \<and>
     net_ids s q = Some (map rm_id ms))"

definition back_ok :: "duplex_state \<Rightarrow> u8 list \<Rightarrow> bool" where
  "back_ok s p \<longleftrightarrow> length p < 268435456 \<and> (\<exists>q a b ms u. bytes_bits p = packet_bits q a b ms u \<and>
     list_all message_ok ms \<and> length ms \<le> 8 \<and> length u < 65536 \<and>
     a \<in> net_got s \<and> (\<forall>i < 32. bit b i \<longrightarrow> a - (word_of_nat i + 1) \<in> net_got s))"

definition got_ok :: "duplex_state \<Rightarrow> bool" where
  "got_ok s \<longleftrightarrow> (\<forall>q \<in> net_got s. \<exists>js. net_ids s q = Some js \<and> (\<forall>i \<in> set js. settled s i)) \<and>
     (ep_has_received (net_b s) \<longrightarrow> ep_highest_received (net_b s) \<in> net_got s) \<and>
     (\<forall>q. sb_find q (ep_received (net_b s)) \<noteq> None \<longrightarrow> q \<in> net_got s)"

definition sent_ok :: "duplex_state \<Rightarrow> bool" where
  "sent_ok s \<longleftrightarrow> ep_sequence (net_a s) = word_of_nat (net_sends s) \<and>
     (\<forall>q \<in> dom (net_ids s). \<exists>j < net_sends s. q = word_of_nat j)"

definition duplex_inv :: "duplex_state \<Rightarrow> bool" where
  "duplex_inv s \<longleftrightarrow> net_inv (net_state.truncate s) \<and> sent_ok s \<and> records_ok (net_ids s) (net_a s) \<and>
     (\<forall>p \<in> net_wire s. wire_ids_ok s p) \<and> got_ok s \<and> (\<forall>p \<in> net_back s. back_ok s p) \<and> kept s (net_a s) \<and>
     list_all message_ok (ep_unacked (net_b s))"

lemma erase_message_keeps: "m \<in> set ms \<Longrightarrow> rm_id m \<noteq> i \<Longrightarrow> m \<in> set (erase_message i ms)"
  by (induction ms) auto

lemma erase_messages_keep: "m \<in> set ms \<Longrightarrow> rm_id m \<notin> set js \<Longrightarrow> m \<in> set (foldl (\<lambda>un i. erase_message i un) ms js)"
  by (induction js arbitrary: ms) (auto intro: erase_message_keeps)

text \<open>An acknowledgement of a packet the receiver accepted takes only messages that have arrived.\<close>

lemma on_packet_acked_kept:
  assumes rec: "records_ok (net_ids s) a" and kept: "kept s a" and q: "q \<in> net_got s" and got: "got_ok s"
  shows "records_ok (net_ids s) (on_packet_acked q now a) \<and> kept s (on_packet_acked q now a)"
proof (cases "sb_find q (ep_sent a)")
  case None
  with rec kept show ?thesis by (simp add: on_packet_acked_def)
next
  case (Some r)
  obtain js where js: "net_ids s q = Some js" "\<forall>i \<in> set js. settled s i" using got q by (auto simp: got_ok_def)
  have lists: "lists_messages r js" using rec Some js by (auto simp: records_ok_def)
  show ?thesis
  proof (cases "sp_acked r")
    case True
    with Some rec kept show ?thesis by (simp add: on_packet_acked_def)
  next
    case False
    let ?a = "on_packet_acked q now a"
    have sent: "ep_sent ?a = sb_store q (r\<lparr>sp_acked := True\<rparr>) (ep_sent a)"
      using Some False by (simp add: on_packet_acked_def Let_def sample_rtt_frame)
    have wf: "sb_wf (ep_sent a)" "sb_find q (ep_sent a) \<noteq> None" using rec Some by (auto simp: records_ok_def)
    have "lists_messages (r\<lparr>sp_acked := True\<rparr>) = lists_messages r" by (simp add: lists_messages_def fun_eq_iff)
    then have "records_ok (net_ids s) ?a"
      using rec Some unfolding records_ok_def sent sb_store_spec(2) [OF wf] by (auto simp: sb_store_spec(1) [OF wf])
    moreover have "kept s ?a"
      unfolding kept_def on_packet_acked_erases [OF Some False lists]
    proof (intro allI impI)
      fix k assume "k < length (net_log s)"
      with kept consider "settled s (word_of_nat k)" | m where "m \<in> set (ep_unacked a)" "rm_id m = word_of_nat k"
        by (auto simp: kept_def)
      then show "settled s (word_of_nat k) \<or> (\<exists>m \<in> set (foldl (\<lambda>un i. erase_message i un) (ep_unacked a) js). rm_id m = word_of_nat k)"
      proof cases
        case (2 m)
        then show ?thesis using js(2) erase_messages_keep [of m "ep_unacked a" js] by (cases "word_of_nat k \<in> set js") auto
      qed simp
    qed
    ultimately show ?thesis by simp
  qed
qed

lemma accept_header_kept:
  assumes "records_ok (net_ids s) a" and "kept s a" and "got_ok s" and "ack \<in> net_got s"
    and "\<forall>i < 32. bit bb i \<longrightarrow> ack - (word_of_nat i + 1) \<in> net_got s"
  shows "records_ok (net_ids s) (accept_header q ack bb n now rc a) \<and> kept s (accept_header q ack bb n now rc a)"
  unfolding accept_header_def
proof (rule process_acks_induct)
  show "records_ok (net_ids s) (note_received q n (a\<lparr>ep_received := sb_store q \<lparr>rp_recv_time_us = now, rp_size = n\<rparr> rc\<rparr>)) \<and>
    kept s (note_received q n (a\<lparr>ep_received := sb_store q \<lparr>rp_recv_time_us = now, rp_size = n\<rparr> rc\<rparr>))"
    using assms(1,2) by (simp add: records_ok_def kept_def note_received_frame)
  fix e q'
  assume "records_ok (net_ids s) e \<and> kept s e" and "q' = ack \<or> (\<exists>i<32. bit bb i \<and> q' = ack - (word_of_nat i + 1))"
  with assms(3-5) show "records_ok (net_ids s) (on_packet_acked q' now e) \<and> kept s (on_packet_acked q' now e)"
    by (intro on_packet_acked_kept) auto
qed

lemma ack_kept:
  assumes "records_ok (net_ids s) a" and "kept s a" and "got_ok s" and bk: "back_ok s p"
  shows "records_ok (net_ids s) (snd (read_packet p (word_of_nat (length p)) now a)) \<and>
    kept s (snd (read_packet p (word_of_nat (length p)) now a))"
proof -
  let ?n = "word_of_nat (length p) :: u32"
  obtain q ack bb ms u where p: "length p < 268435456" "bytes_bits p = packet_bits q ack bb ms u" "list_all message_ok ms"
      "length ms \<le> 8" "length u < 65536" and got: "ack \<in> net_got s" "\<forall>i < 32. bit bb i \<longrightarrow> ack - (word_of_nat i + 1) \<in> net_got s"
    using bk by (auto simp: back_ok_def)
  have n: "unat ?n = length p" using p(1) by (simp add: unat_of_nat_less)
  have nle: "unat ?n \<le> length p" "unat ?n < 268435456" using n p(1) by simp_all
  have bits: "bytes_bits (take (unat ?n) p) = packet_bits q ack bb ms u" using n p(2) by simp
  show ?thesis
  proof (cases "sb_exists q (ep_received a) \<or> sb_insert mk_received_packet q (ep_received a) = None")
    case True
    from read_packet_rejected [OF nle bits True] assms show ?thesis by simp
  next
    case False
    then obtain rc where f: "\<not> sb_exists q (ep_received a)" "sb_insert mk_received_packet q (ep_received a) = Some rc" by auto
    from accept_header_kept [OF assms(1-3) got] show ?thesis
      unfolding read_packet_genuine [OF nle bits p(3-5) f] by (simp add: Let_def split_def records_ok_def kept_def)
  qed
qed


section \<open>Steps\<close>

lemma write_packet_lookup:
  assumes wf: "sb_wf (ep_sent ep)" and run: "write_packet out c u usz now ep = (n, buf, ep')"
  shows "sb_wf (ep_sent ep')"
    and "q \<noteq> ep_sequence ep \<Longrightarrow> sb_find q (ep_sent ep') = sb_find q (ep_sent ep) \<or> sb_find q (ep_sent ep') = None"
proof -
  have "sb_wf (ep_sent ep') \<and>
    (q \<noteq> ep_sequence ep \<longrightarrow> sb_find q (ep_sent ep') = sb_find q (ep_sent ep) \<or> sb_find q (ep_sent ep') = None)"
  proof (cases "sb_insert mk_sent_packet (ep_sequence ep) (ep_sent ep)")
    case None
    with run wf show ?thesis by (auto simp: write_packet_def Let_def)
  next
    case (Some sent)
    let ?q = "ep_sequence ep"
    have "\<exists>r. ep_sent ep' = sb_store ?q r sent"
      using write_packet_eq [OF Some, of out c usz u now] run by (auto simp: Let_def split_def sb_store_twice split: if_splits)
    then obtain r where "ep_sent ep' = sb_store ?q r sent" by blast
    moreover have s1: "sb_wf sent" "sb_find ?q sent \<noteq> None" using sb_insert_spec [OF wf Some] by simp_all
    moreover have "q \<noteq> ?q \<Longrightarrow> sb_find q sent = sb_find q (ep_sent ep) \<or> sb_find q sent = None"
      by (rule sb.lookup_insert_other [OF wf Some])
    ultimately show ?thesis by (auto simp: sb_store_spec)
  qed
  then show "sb_wf (ep_sent ep')"
    and "q \<noteq> ep_sequence ep \<Longrightarrow> sb_find q (ep_sent ep') = sb_find q (ep_sent ep) \<or> sb_find q (ep_sent ep') = None" by simp_all
qed

lemma packet_sequence_bits: "bytes_bits p = packet_bits q a b ms u \<Longrightarrow> packet_sequence p = q"
  by (simp add: packet_sequence_def packet_bits_def)

lemma unacked_ids: "write_packet out c u usz now ep = (n, buf, ep') \<Longrightarrow> map rm_id (ep_unacked ep') = map rm_id (ep_unacked ep)"
proof -
  assume "write_packet out c u usz now ep = (n, buf, ep')"
  then obtain k where "ep_unacked ep' = map bump_sends (take k (ep_unacked ep)) @ drop k (ep_unacked ep)"
    by (rule write_packet_unacked)
  then have "map rm_id (ep_unacked ep') = map rm_id (take k (ep_unacked ep)) @ map rm_id (drop k (ep_unacked ep))"
    by (simp add: comp_def)
  then show ?thesis by (simp only: map_append [symmetric] append_take_drop_id)
qed

lemma kept_ids: "kept s a \<longleftrightarrow> (\<forall>k < length (net_log s). settled s (word_of_nat k) \<or> word_of_nat k \<in> set (map rm_id (ep_unacked a)))"
proof -
  have "(\<exists>m \<in> set (ep_unacked a). rm_id m = i) \<longleftrightarrow> i \<in> set (map rm_id (ep_unacked a))" for i by auto
  then show ?thesis by (simp only: kept_def)
qed

lemma fresh_sequence:
  assumes "sent_ok s" and "net_sends s < 65536"
  shows "ep_sequence (net_a s) \<notin> dom (net_ids s)"
proof
  assume "ep_sequence (net_a s) \<in> dom (net_ids s)"
  with assms(1) obtain j where "j < net_sends s" "word_of_nat (net_sends s) = (word_of_nat j :: u16)"
    by (auto simp: sent_ok_def)
  with of_nat_u16_eq [of "net_sends s" j] assms(2) show False by simp
qed

lemma send_records_ok:
  assumes rec: "records_ok ids a" and run: "write_packet out c u usz now a = (n, buf, a')"
    and cap: "unat c \<le> length out" "unat c < 268435456" "length u = unat usz" "unat usz < 65536"
    and ok: "list_all message_ok (ep_unacked a)" and fresh: "ep_sequence a \<notin> dom ids"
  shows "records_ok (if n = 0 then ids else ids(ep_sequence a \<mapsto> map rm_id (take (included_count out c usz a) (ep_unacked a)))) a'"
proof -
  have wf: "sb_wf (ep_sent a)" using rec by (simp add: records_ok_def)
  note look = write_packet_lookup [OF wf run]
  have old: "lists_messages r js" if "q \<noteq> ep_sequence a" "sb_find q (ep_sent a') = Some r" "ids q = Some js" for q r js
    using look(2) [OF that(1)] that rec by (auto simp: records_ok_def)
  show ?thesis
  proof (cases "n = 0")
    case True
    have "q \<noteq> ep_sequence a" if "ids q = Some js" for q js using that fresh by auto
    with old look(1) True show ?thesis by (auto simp: records_ok_def)
  next
    case False
    obtain sent r where sent: "sb_insert mk_sent_packet (ep_sequence a) (ep_sent a) = Some sent"
      and store: "ep_sent a' = sb_store (ep_sequence a) r (sb_store (ep_sequence a)
        (sent_record now (take (included_count out c usz a) (ep_unacked a))) sent)"
      and r: "lists_messages r (map rm_id (take (included_count out c usz a) (ep_unacked a)))"
      using write_packet_built [OF cap ok run False] by metis
    have "sb_find (ep_sequence a) (ep_sent a') = Some r"
      unfolding store using sb_insert_spec [OF wf sent] by (simp add: sb_store_spec)
    with old look(1) r False show ?thesis by (auto simp: records_ok_def)
  qed
qed

lemma send_wire_ids_ok:
  assumes inv: "duplex_inv s" and run: "write_packet out c u usz now (net_a s) = (n, buf, a')" "n \<noteq> 0"
    and cap: "unat c \<le> length out" "unat c < 268435456" "length u = unat usz" "unat usz < 65536"
    and s': "net_log s' = net_log s"
      "net_ids s' = (net_ids s)(ep_sequence (net_a s) \<mapsto> map rm_id (take (included_count out c usz (net_a s)) (ep_unacked (net_a s))))"
  shows "wire_ids_ok s' (take (unat n) buf)"
proof -
  let ?a = "net_a s" and ?k = "included_count out c usz (net_a s)"
  have snd: "sender_ok (net_log s) ?a" using inv by (simp add: duplex_inv_def net_inv_def net_state.truncate_def)
  then have ok: "list_all message_ok (ep_unacked ?a)" by (simp add: sender_ok_def)
  define ack where "ack = (if ep_has_received ?a then ep_highest_received ?a else 0)"
  have p: "unat n \<le> length buf" "unat n \<le> unat c"
    "bytes_bits (take (unat n) buf) = packet_bits (ep_sequence ?a) ack (ack_history ?a) (take ?k (ep_unacked ?a)) u"
    by (rule write_packet_built [OF cap ok run]; simp add: ack_def)+
  have "list_all (genuine (net_log s)) (take ?k (ep_unacked ?a))" "list_all message_ok (take ?k (ep_unacked ?a))"
    using snd by (auto simp: sender_ok_def list_all_iff dest: in_set_takeD)
  then show ?thesis
    unfolding wire_ids_ok_def s' using p cap included_count_bounds(1) [of out c usz ?a]
    by (intro conjI exI [of _ "ep_sequence ?a"] exI [of _ ack] exI [of _ "ack_history ?a"]
        exI [of _ "take ?k (ep_unacked ?a)"] exI [of _ u]) auto
qed

lemma back_packet_ok:
  assumes got: "got_ok s" and has: "ep_has_received (net_b s)" and ok: "list_all message_ok (ep_unacked (net_b s))"
    and run: "write_packet out c u usz now (net_b s) = (n, buf, b')" "n \<noteq> 0"
    and cap: "unat c \<le> length out" "unat c < 268435456" "length u = unat usz" "unat usz < 65536"
  shows "back_ok s (take (unat n) buf)"
proof -
  let ?b = "net_b s" and ?k = "included_count out c usz (net_b s)"
  have p: "unat n \<le> length buf" "unat n \<le> unat c"
    "bytes_bits (take (unat n) buf) = packet_bits (ep_sequence ?b) (ep_highest_received ?b) (ack_history ?b) (take ?k (ep_unacked ?b)) u"
    by (rule write_packet_built [OF cap ok run]; use has in simp)+
  have "list_all message_ok (take ?k (ep_unacked ?b))" using ok by (auto simp: list_all_iff dest: in_set_takeD)
  moreover have "ep_highest_received ?b \<in> net_got s" using got has by (simp add: got_ok_def)
  moreover have "ep_highest_received ?b - (word_of_nat i + 1) \<in> net_got s" if "bit (ack_history ?b) i" for i
    using that got unfolding ack_history_bits sb_exists_find by (auto simp: got_ok_def)
  ultimately show ?thesis
    unfolding back_ok_def using p cap included_count_bounds(1) [of out c usz ?b]
    by (intro conjI exI [of _ "ep_sequence ?b"] exI [of _ "ep_highest_received ?b"] exI [of _ "ack_history ?b"]
        exI [of _ "take ?k (ep_unacked ?b)"] exI [of _ u]) auto
qed

lemma wire_ids_ok_mono:
  assumes "wire_ids_ok s p" and "\<And>m. genuine (net_log s) m \<Longrightarrow> genuine (net_log s') m"
    and "\<And>q js. net_ids s q = Some js \<Longrightarrow> net_ids s' q = Some js"
  shows "wire_ids_ok s' p"
  using assms(1) unfolding wire_ids_ok_def by (metis (no_types, lifting) assms(2,3) list.pred_mono_strong)

lemma back_ok_mono: "back_ok s p \<Longrightarrow> net_got s \<subseteq> net_got s' \<Longrightarrow> back_ok s' p"
  unfolding back_ok_def by (meson subsetD)

lemma got_ok_mono:
  assumes "got_ok s" and "net_got s' = net_got s" and "\<And>q js. net_ids s q = Some js \<Longrightarrow> net_ids s' q = Some js"
    and "\<And>i. settled s i \<Longrightarrow> settled s' i"
    and "ep_has_received (net_b s') = ep_has_received (net_b s)" "ep_highest_received (net_b s') = ep_highest_received (net_b s)"
      "ep_received (net_b s') = ep_received (net_b s)"
  shows "got_ok s'"
  using assms(1) unfolding got_ok_def assms(2,5-7) by (meson assms(3,4))

lemma kept_mono:
  assumes "kept s a" and "net_log s' = net_log s" and "\<And>i. settled s i \<Longrightarrow> settled s' i"
    and "set (map rm_id (ep_unacked a)) \<subseteq> set (map rm_id (ep_unacked a'))"
  shows "kept s' a'"
  using assms unfolding kept_ids by auto

lemma receive_inv:
  assumes inv: "duplex_inv s" and len: "length (net_log s) \<le> 32768" and p: "p \<in> net_wire s"
    and run: "read_packet p (word_of_nat (length p)) now (net_b s) = (result, b)"
    and net: "net_inv (net_state.truncate s')"
    and s': "s' = s\<lparr>net_b := b, net_delivered := net_delivered s @
      (case result of None \<Rightarrow> [] | Some (payload, ms) \<Rightarrow> map content ms),
      net_got := (if result = None then net_got s else insert (packet_sequence p) (net_got s))\<rparr>"
  shows "duplex_inv s'"
proof -
  have wire: "wire_ids_ok s p" using inv p by (simp add: duplex_inv_def)
  then obtain q a bb ms u where w: "length p < 268435456" "bytes_bits p = packet_bits q a bb ms u" "list_all message_ok ms"
      "list_all (genuine (net_log s)) ms" "length ms \<le> 8" "length u < 65536" and ids: "net_ids s q = Some (map rm_id ms)"
    by (auto simp: wire_ids_ok_def)
  have rcv: "receiver_ok (net_log s) (net_delivered s) (net_b s)"
    using inv by (simp add: duplex_inv_def net_inv_def net_state.truncate_def)
  show ?thesis
  proof (cases result)
    case None
    let ?n = "word_of_nat (length p) :: u32"
    have "unat ?n = length p" using w(1) by (simp add: unat_of_nat_less)
    then have n: "unat ?n \<le> length p" "unat ?n < 268435456" "bytes_bits (take (unat ?n) p) = packet_bits q a bb ms u"
      using w(1,2) by simp_all
    have "b = net_b s"
    proof (cases "sb_exists q (ep_received (net_b s)) \<or> sb_insert mk_received_packet q (ep_received (net_b s)) = None")
      case True
      from read_packet_rejected [OF n True] run show ?thesis by simp
    next
      case False
      then obtain rc where "\<not> sb_exists q (ep_received (net_b s))" "sb_insert mk_received_packet q (ep_received (net_b s)) = Some rc"
        by auto
      from read_packet_genuine [OF n w(3,5,6) this, of now] run None show ?thesis by (simp add: Let_def split_def)
    qed
    then have "s' = s" unfolding s' None by simp
    with inv show ?thesis by simp
  next
    case (Some pm)
    obtain payload dl where pm: "pm = (payload, dl)" by (cases pm)
    note r = receive_arrived [OF rcv len w run [unfolded Some pm]]
    note seq = packet_sequence_bits [OF w(2)]
    have s'': "s' = s\<lparr>net_b := b, net_delivered := net_delivered s @ map content dl, net_got := insert q (net_got s)\<rparr>"
      unfolding s' Some pm seq by simp
    have mono: "settled s' i" if "settled s i \<or> i \<in> set (map rm_id ms)" for i
      using r(1) [of i] that by (simp add: settled_def s'')
    have f: "net_got s' = insert q (net_got s)" "net_ids s' = net_ids s" "net_b s' = b"
        "net_log s' = net_log s" "net_a s' = net_a s" by (simp_all add: s'')
    have got: "got_ok s" using inv by (simp add: duplex_inv_def)
    have "got_ok s'"
      unfolding got_ok_def f
    proof (intro conjI ballI impI allI)
      fix q' assume "q' \<in> insert q (net_got s)"
      then show "\<exists>js. net_ids s q' = Some js \<and> (\<forall>i \<in> set js. settled s' i)"
      proof
        assume "q' = q"
        with ids mono show ?thesis by simp
      next
        assume "q' \<in> net_got s"
        then obtain js where "net_ids s q' = Some js" "\<forall>i \<in> set js. settled s i" using got unfolding got_ok_def by blast
        with mono show ?thesis by simp
      qed
    next
      show "ep_highest_received b \<in> insert q (net_got s)" using r(2) got by (auto simp: got_ok_def)
    next
      fix q' assume "sb_find q' (ep_received b) \<noteq> None"
      then show "q' \<in> insert q (net_got s)" using r(3) got unfolding got_ok_def by blast
    qed
    moreover have "wire_ids_ok s' p'" if "p' \<in> net_wire s" for p'
      by (rule wire_ids_ok_mono [of s]) (use inv that f in \<open>simp_all add: duplex_inv_def\<close>)
    moreover have "back_ok s' p'" if "p' \<in> net_back s" for p'
      by (rule back_ok_mono [of s]) (use inv that f in \<open>auto simp: duplex_inv_def\<close>)
    moreover have "kept s' (net_a s')"
      by (rule kept_mono [of s "net_a s"]) (use inv mono f in \<open>simp_all add: duplex_inv_def\<close>)
    moreover have "list_all message_ok (ep_unacked b)" using inv r(4) by (auto simp: duplex_inv_def list_all_iff)
    ultimately show ?thesis using inv net by (simp add: duplex_inv_def s'' sent_ok_def)
  qed
qed


lemma net_inv_pre: "duplex_inv s \<Longrightarrow> sender_ok (net_log s) (net_a s)"
  by (simp add: duplex_inv_def net_inv_def net_state.truncate_def)

lemma send_inv:
  assumes inv: "duplex_inv s" and sends: "net_sends s < 65536"
    and cap: "unat c \<le> length out" "unat c < 268435456" "length u = unat usz" "unat usz < 65536"
    and run: "write_packet out c u usz now (net_a s) = (n, buf, a)"
    and net: "net_inv (net_state.truncate s')"
    and s': "s' = s\<lparr>net_a := a, net_wire := (if n = 0 then net_wire s else insert (take (unat n) buf) (net_wire s)),
      net_sends := net_sends s + 1,
      net_ids := (if n = 0 then net_ids s else (net_ids s)(ep_sequence (net_a s) \<mapsto>
          map rm_id (take (included_count out c usz (net_a s)) (ep_unacked (net_a s)))))\<rparr>"
  shows "duplex_inv s'"
proof -
  have so: "sent_ok s" and iw: "\<forall>p \<in> net_wire s. wire_ids_ok s p" using inv by (simp_all add: duplex_inv_def)
  note fresh = fresh_sequence [OF so sends]
  have ok: "list_all message_ok (ep_unacked (net_a s))" using net_inv_pre [OF inv] by (simp add: sender_ok_def)
  have ids: "net_ids s q = Some js \<Longrightarrow> net_ids s' q = Some js" for q js using fresh by (auto simp: s')
  have f: "net_log s' = net_log s" "net_got s' = net_got s" "net_b s' = net_b s" "net_delivered s' = net_delivered s"
      "net_a s' = a" "net_back s' = net_back s" by (simp_all add: s')
  have st: "settled s' = settled s" by (simp add: settled_def fun_eq_iff f)
  have "records_ok (net_ids s') a"
    using send_records_ok [OF _ run cap ok fresh] inv by (simp add: s' duplex_inv_def)
  moreover have "sent_ok s'"
    using so write_packet_frame(7) [OF run] by (auto simp: sent_ok_def s' less_Suc_eq split: if_splits)
  moreover have "wire_ids_ok s' p" if "p \<in> net_wire s'" for p
  proof (cases "p \<in> net_wire s")
    case True
    show ?thesis by (rule wire_ids_ok_mono [of s]) (use iw True ids f in simp_all)
  next
    case False
    with that have "n \<noteq> 0" "p = take (unat n) buf" by (auto simp: s' split: if_splits)
    then show ?thesis using send_wire_ids_ok [OF inv run _ cap f(1)] by (simp add: s')
  qed
  moreover have "got_ok s'"
    by (rule got_ok_mono [of s]) (use inv f ids st in \<open>simp_all add: duplex_inv_def\<close>)
  moreover have "kept s' a"
    by (rule kept_mono [of s "net_a s"]) (use inv f st unacked_ids [OF run] in \<open>simp_all add: duplex_inv_def del: set_map\<close>)
  moreover have "back_ok s' p" if "p \<in> net_back s" for p
    by (rule back_ok_mono [of s]) (use inv that f in \<open>auto simp: duplex_inv_def\<close>)
  ultimately show ?thesis using inv net by (simp add: duplex_inv_def f)
qed

text \<open>A step that changes neither the history nor what the receiver holds.\<close>

lemma quiet_inv:
  assumes inv: "duplex_inv s" and net: "net_inv (net_state.truncate s')"
    and f: "net_log s' = net_log s" "net_wire s' = net_wire s" "net_delivered s' = net_delivered s"
      "net_sends s' = net_sends s" "net_ids s' = net_ids s" "net_got s' = net_got s"
    and b: "ep_reorder_buffer (net_b s') = ep_reorder_buffer (net_b s)" "ep_received (net_b s') = ep_received (net_b s)"
      "ep_has_received (net_b s') = ep_has_received (net_b s)" "ep_highest_received (net_b s') = ep_highest_received (net_b s)"
    and a: "ep_sequence (net_a s') = ep_sequence (net_a s)" "records_ok (net_ids s) (net_a s')" "kept s (net_a s')"
    and ok: "list_all message_ok (ep_unacked (net_b s'))" and bk: "\<And>p. p \<in> net_back s' \<Longrightarrow> back_ok s p"
  shows "duplex_inv s'"
proof -
  have st: "settled s' = settled s" by (simp add: settled_def fun_eq_iff f b)
  have "got_ok s'" by (rule got_ok_mono [of s]) (use inv f b st in \<open>simp_all add: duplex_inv_def\<close>)
  moreover have "kept s' (net_a s')" using a(3) by (simp add: kept_def f st)
  moreover have "back_ok s' p" if "p \<in> net_back s'" for p using back_ok_mono [OF bk [OF that]] f by simp
  moreover have "wire_ids_ok s' p" if "p \<in> net_wire s'" for p
    by (rule wire_ids_ok_mono [of s]) (use inv that f in \<open>simp_all add: duplex_inv_def\<close>)
  ultimately show ?thesis using inv net ok a by (simp add: duplex_inv_def f sent_ok_def)
qed


lemma queue_inv:
  assumes inv: "duplex_inv s" and net: "net_inv (net_state.truncate s')"
    and s': "s' = s\<lparr>net_a := queue_reliable channel data (net_a s),
     net_log := (if accepted data then net_log s @ [(channel, data)] else net_log s)\<rparr>"
  shows "duplex_inv s'"
proof -
  let ?a = "queue_reliable channel data (net_a s)"
  have f: "net_got s' = net_got s" "net_b s' = net_b s" "net_delivered s' = net_delivered s" "net_a s' = ?a"
      "net_ids s' = net_ids s" "net_back s' = net_back s" "net_wire s' = net_wire s" "net_sends s' = net_sends s"
      "net_log s' = (if accepted data then net_log s @ [(channel, data)] else net_log s)" by (simp_all add: s')
  have st: "settled s' = settled s" by (simp add: settled_def fun_eq_iff f)
  have un: "ep_unacked ?a = (if accepted data then ep_unacked (net_a s) @
      [\<lparr>rm_id = ep_next_message_id (net_a s), rm_channel = channel, rm_sends = 0, rm_payload = data\<rparr>] else ep_unacked (net_a s))"
    by (auto simp: queue_reliable_def accepted_def)
  have k: "kept s (net_a s)" using inv by (simp add: duplex_inv_def)
  have "ep_next_message_id (net_a s) = word_of_nat (length (net_log s))"
    using net_inv_pre [OF inv] by (simp add: sender_ok_def)
  then have "kept s' ?a" using k unfolding kept_def f(9) un st by (auto simp: less_Suc_eq)
  moreover have "got_ok s'" by (rule got_ok_mono [of s]) (use inv f st in \<open>simp_all add: duplex_inv_def\<close>)
  moreover have "wire_ids_ok s' p" if "p \<in> net_wire s" for p
    by (rule wire_ids_ok_mono [of s]) (use inv that f genuine_append in \<open>simp_all add: duplex_inv_def\<close>)
  moreover have "back_ok s' p" if "p \<in> net_back s" for p
    by (rule back_ok_mono [of s]) (use inv that f in \<open>auto simp: duplex_inv_def\<close>)
  moreover have "records_ok (net_ids s) ?a" using inv by (simp add: duplex_inv_def records_ok_def queue_reliable_frame)
  ultimately show ?thesis using inv net by (simp add: duplex_inv_def f(1-8) sent_ok_def queue_reliable_frame)
qed

lemma duplex_step_inv:
  assumes "duplex_step s s'" and "duplex_inv s" and "length (net_log s') \<le> 32768" and "net_sends s' \<le> 65536"
  shows "duplex_inv s'"
proof -
  have "net_inv (net_state.truncate s)" using assms(2) by (simp add: duplex_inv_def)
  then have net: "net_inv (net_state.truncate s')"
    using net_step_inv [OF duplex_net_step [OF assms(1)]] assms(3) by (simp add: net_state.truncate_def)
  have i: "records_ok (net_ids s) (net_a s)" "kept s (net_a s)" "got_ok s" "\<forall>p \<in> net_back s. back_ok s p"
      "list_all message_ok (ep_unacked (net_b s))" using assms(2) by (simp_all add: duplex_inv_def)
  from assms(1) show ?thesis
  proof cases
    case (d_queue data channel)
    with queue_inv [OF assms(2) net] show ?thesis by simp
  next
    case (d_send capacity out unreliable unreliable_size now_us n buf a)
    show ?thesis by (rule send_inv [OF assms(2) _ _ _ _ _ _ net]) (use d_send assms(4) in auto)
  next
    case (d_receive packet now_us result b)
    show ?thesis by (rule receive_inv [OF assms(2) _ _ _ net]) (use d_receive assms(3) in auto)
  next
    case (d_back capacity out unreliable unreliable_size now_us n buf b)
    obtain k where k: "ep_unacked b = map bump_sends (take k (ep_unacked (net_b s))) @ drop k (ep_unacked (net_b s))"
      by (rule write_packet_unacked [OF d_back(7)])
    have "list_all message_ok (ep_unacked b)"
      using i(5) by (auto simp: k list_all_iff bumped_genuine dest: in_set_takeD in_set_dropD)
    moreover have "back_ok s p" if "p \<in> net_back s'" for p
      using that i(4) back_packet_ok [OF i(3) d_back(2) i(5) d_back(7) _ d_back(3-6)] by (auto simp: d_back(1) split: if_splits)
    ultimately show ?thesis
      by (intro quiet_inv [OF assms(2) net]) (use i write_packet_frame [OF d_back(7)] in \<open>simp_all add: d_back(1)\<close>)
  next
    case (d_ack packet now_us)
    with i have "records_ok (net_ids s) (net_a s') \<and> kept s (net_a s')"
      using ack_kept [of s "net_a s" packet now_us] by simp
    then show ?thesis
      by (intro quiet_inv [OF assms(2) net]) (use i in \<open>simp_all add: d_ack(1) read_packet_sender\<close>)
  next
    case (d_a_update now_us)
    show ?thesis
      by (rule quiet_inv [OF assms(2) net])
        (use i ep_update_frame [where now = now_us and ep = "net_a s"] in
          \<open>simp_all add: d_a_update(1) same_receiver_def records_ok_def kept_def\<close>)
  next
    case (d_b_queue channel data)
    have "list_all message_ok (ep_unacked (queue_reliable channel data (net_b s)))"
      using i(5) by (simp add: queue_reliable_def message_ok_def kMaxReliableMessageSize_def)
    then show ?thesis
      by (intro quiet_inv [OF assms(2) net])
        (use i in \<open>simp_all add: d_b_queue(1) queue_reliable_frame\<close>, simp_all add: queue_reliable_def)
  next
    case (d_b_update now_us)
    show ?thesis
      by (rule quiet_inv [OF assms(2) net])
        (use i ep_update_frame [where now = now_us and ep = "net_b s"] in
          \<open>simp_all add: d_b_update(1) same_receiver_def\<close>)
  qed
qed

lemma duplex_monotone: "duplex_step s s' \<Longrightarrow> length (net_log s) \<le> length (net_log s') \<and> net_sends s \<le> net_sends s'"
  by (induction rule: duplex_step.induct) simp_all

lemma duplex_init_inv: "duplex_inv duplex_init"
proof -
  have "net_state.truncate duplex_init = net_init" by (simp add: duplex_init_def net_init_def net_state.truncate_def)
  then show ?thesis
    using net_init_inv mk_seq_buffer_wf [of 1024 mk_sent_packet]
    by (simp add: duplex_inv_def duplex_init_def sent_ok_def records_ok_def got_ok_def kept_def mk_endpoint_def
        kAckWindowSize_def mk_seq_buffer_empty)
qed

lemma duplex_reachable_inv:
  assumes "duplex_step\<^sup>*\<^sup>* duplex_init s" and "length (net_log s) \<le> 32768" and "net_sends s \<le> 65536"
  shows "duplex_inv s"
  using assms
proof (induction rule: rtranclp_induct)
  case base
  show ?case by (rule duplex_init_inv)
next
  case (step s s')
  with duplex_monotone [OF step(2)] duplex_step_inv [OF step(2)] show ?case by simp
qed

text \<open>
  C2: no reliable message is forgotten. When the receiver sends only after it has received a packet,
  then in every reachable state, under loss, duplication and reordering in both directions, each
  accepted message has been delivered, waits in the receiver's reorder buffer, or is still in the
  sender's queue of messages to (re)transmit (for up to 32768 messages and 65536 packets, before the
  16-bit numbers wrap around).
\<close>

theorem reliable_messages_retained:
  assumes "duplex_step\<^sup>*\<^sup>* duplex_init s" and "length (net_log s) \<le> 32768" and "net_sends s \<le> 65536"
    and "k < length (net_log s)"
  shows "k < length (net_delivered s) \<or> ep_reorder_buffer (net_b s) (word_of_nat k) \<noteq> None \<or>
    (\<exists>m \<in> set (ep_unacked (net_a s)). rm_id m = word_of_nat k \<and> content m = net_log s ! k)"
proof -
  have inv: "duplex_inv s" by (rule duplex_reachable_inv [OF assms(1-3)])
  have rcv: "receiver_ok (net_log s) (net_delivered s) (net_b s)"
    using inv by (simp add: duplex_inv_def net_inv_def net_state.truncate_def)
  then have d: "length (net_delivered s) \<le> length (net_log s)" by (auto simp: receiver_ok_def)
  have "settled s (word_of_nat k) \<or> (\<exists>m \<in> set (ep_unacked (net_a s)). rm_id m = word_of_nat k)"
    using inv assms(4) by (auto simp: duplex_inv_def kept_def)
  then show ?thesis
  proof
    assume "settled s (word_of_nat k)"
    then consider j where "j < length (net_delivered s)" "(word_of_nat k :: u16) = word_of_nat j"
      | "ep_reorder_buffer (net_b s) (word_of_nat k) \<noteq> None" by (auto simp: settled_def arrived_def)
    then show ?thesis
    proof cases
      case (1 j)
      with of_nat_u16_eq [of k j] d assms(2,4) show ?thesis by simp
    qed simp
  next
    assume "\<exists>m \<in> set (ep_unacked (net_a s)). rm_id m = word_of_nat k"
    then obtain m where m: "m \<in> set (ep_unacked (net_a s))" "rm_id m = word_of_nat k" by blast
    then obtain j where j: "j < length (net_log s)" "rm_id m = word_of_nat j" "net_log s ! j = content m"
      using net_inv_pre [OF inv] by (auto simp: sender_ok_def list_all_iff genuine_def)
    then have "j = k" using m(2) of_nat_u16_eq [of k j] assms(2,4) by simp
    with j m show ?thesis by auto
  qed
qed

theorem reliable_messages_retained_witness:
  "\<exists>s. duplex_step\<^sup>*\<^sup>* duplex_init s \<and> net_log s = [(3, [1, 2, 3])] \<and> net_wire s \<noteq> {} \<and>
    (\<exists>m \<in> set (ep_unacked (net_a s)). rm_id m = 0 \<and> content m = (3, [1, 2, 3]))"
proof -
  obtain n buf a where run: "write_packet (replicate 32 0) 32 [] 0 0 sample_sender = (n, buf, a)" and nz: "n \<noteq> 0"
    by (rule sample_packet)
  let ?s1 = "duplex_init\<lparr>net_a := sample_sender, net_log := [(3, [1, 2, 3])]\<rparr>"
  let ?s2 = "?s1\<lparr>net_a := a, net_wire := {take (unat n) buf}, net_sends := 1,
    net_ids := [ep_sequence sample_sender \<mapsto> map rm_id (take (included_count (replicate 32 0) 32 0 sample_sender) (ep_unacked sample_sender))]\<rparr>"
  have "accepted [1, 2, 3]" by (simp add: accepted_def kMaxReliableMessageSize_def)
  then have s1: "duplex_step duplex_init ?s1"
    using duplex_step.d_queue [of duplex_init "[1, 2, 3]" 3] by (simp add: duplex_init_def sample_sender_def)
  have s2: "duplex_step ?s1 ?s2"
    using duplex_step.d_send [of 32 "replicate 32 0" "[]" 0 0 ?s1 n buf a] run nz by (simp add: duplex_init_def)
  have r: "duplex_step\<^sup>*\<^sup>* duplex_init ?s2" using s1 s2 by (meson r_into_rtranclp rtranclp_trans)
  have "0 < length (net_delivered ?s2) \<or> ep_reorder_buffer (net_b ?s2) (word_of_nat 0) \<noteq> None \<or>
    (\<exists>m \<in> set (ep_unacked (net_a ?s2)). rm_id m = word_of_nat 0 \<and> content m = net_log ?s2 ! 0)"
    by (rule reliable_messages_retained [OF r]) simp_all
  then have "\<exists>m \<in> set (ep_unacked (net_a ?s2)). rm_id m = 0 \<and> content m = (3, [1, 2, 3])"
    by (simp add: duplex_init_def mk_endpoint_def)
  with r show ?thesis by (intro exI [of _ ?s2]) simp
qed

end
