(* ===== verification/Quantizer.thy ===== *)
theory Quantizer
  imports Core_Types
begin

text \<open>
  \<open>Quantizer\<close> of \<open>proto/bitstream.h\<close>: fixed-point encoding of positions, velocities and input axes.
  Encoding ends in a conversion of a \<open>float\<close> to \<open>u32\<close> and has no result where C++ leaves it undefined.
\<close>

section \<open>The quantizer\<close>

record quantizer =
  q_min :: f32
  q_max :: f32
  q_bits :: u32

definition q_levels :: "quantizer \<Rightarrow> u32" where
  "q_levels q = (if 32 \<le> q_bits q then 0xffffffff else push_bit (unat (q_bits q)) 1 - 1)"

text \<open>The constant \<open>0.5f\<close>.\<close>

definition f_half :: f32 where "f_half = 0x3f000000"

definition q_encode :: "quantizer \<Rightarrow> f32 \<Rightarrow> u32 option" where
  "q_encode q value =
     (let clamped = clampf value (q_min q) (q_max q);
          normalized = f_div (f_sub clamped (q_min q)) (f_sub (q_max q) (q_min q));
          levels = q_levels q
      in f_to_u32 (f_add (f_mul normalized (f_of_int (uint levels))) f_half))"

definition q_decode :: "quantizer \<Rightarrow> u32 \<Rightarrow> f32" where
  "q_decode q quantized =
     (let levels = q_levels q;
          normalized = f_div (f_of_int (uint quantized)) (f_of_int (uint levels))
      in f_add (q_min q) (f_mul normalized (f_sub (q_max q) (q_min q))))"

definition q_snap :: "quantizer \<Rightarrow> f32 \<Rightarrow> f32 option" where
  "q_snap q value = map_option (q_decode q) (q_encode q value)"


section \<open>Encoding stays within its bits\<close>

text \<open>A usable quantizer: a proper finite range and at most 23 bits.\<close>

definition q_ok :: "quantizer \<Rightarrow> bool" where
  "q_ok q \<longleftrightarrow> f_finite (q_min q) \<and> f_finite (q_max q) \<and> f_finite (f_sub (q_max q) (q_min q)) \<and>
     f_lt (q_min q) (q_max q) \<and> 0 < unat (q_bits q) \<and> unat (q_bits q) \<le> 23"

lemma q_levels_val: "unat (q_bits q) \<le> 23 \<Longrightarrow> uint (q_levels q) = 2 ^ unat (q_bits q) - 1"
proof -
  assume b: "unat (q_bits q) \<le> 23"
  then have "(2 :: nat) ^ unat (q_bits q) \<le> 2 ^ 23" by (intro power_increasing) simp_all
  then have "unat (word_of_nat (2 ^ unat (q_bits q)) :: u32) = 2 ^ unat (q_bits q)" by (intro unat_of_nat_less) simp
  then have u: "unat (2 ^ unat (q_bits q) :: u32) = 2 ^ unat (q_bits q)" by simp
  have "\<not> 32 \<le> q_bits q" using b by (simp add: word_le_nat_alt)
  then have "q_levels q = 2 ^ unat (q_bits q) - 1" by (simp add: q_levels_def)
  moreover have "unat (2 ^ unat (q_bits q) - 1 :: u32) = 2 ^ unat (q_bits q) - 1"
    by (subst unat_sub_le) (simp_all add: u word_le_nat_alt)
  ultimately show ?thesis by (simp add: uint_nat of_nat_diff)
qed

lemma f_half_units: "f_finite f_half" "f_units f_half = 2 ^ 148"
  by (simp_all add: f_half_def) (code_simp+)

lemma one_units: obtains x where "f_finite x" and "f_units x = 2 ^ 149"
  using representable [of 1 149] by auto

lemma difference_positive:
  assumes "f_finite x" "f_finite y" "f_units x < f_units y" "f_finite (f_sub y x)"
  shows "0 < f_units (f_sub y x)"
proof -
  obtain e where e: "f_finite e" "f_units e = 1" using representable [of 1 0] by auto
  have "f_key e \<le> f_key (f_sub y x)"
    unfolding f_key_sub [OF assms(2,1)] using e assms(3) by (intro rkey_ge) simp_all
  then have "f_units e \<le> f_units (f_sub y x)" by (simp add: f_units_le_iff)
  with e show ?thesis by simp
qed

text \<open>The position of a value in the range, as a fraction between 0 and 1 in units.\<close>

lemma normalized_bounds:
  assumes q: "q_ok q" and v: "\<not> f_isnan v"
  defines "n \<equiv> f_div (f_sub (clampf v (q_min q) (q_max q)) (q_min q)) (f_sub (q_max q) (q_min q))"
  shows "f_finite n" and "0 \<le> f_units n" and "f_units n \<le> 2 ^ 149"
proof -
  let ?c = "clampf v (q_min q) (q_max q)" and ?d = "f_sub (q_max q) (q_min q)"
  have fin: "f_finite (q_min q)" "f_finite (q_max q)" "f_finite ?d" using q by (simp_all add: q_ok_def)
  then have lt: "f_units (q_min q) < f_units (q_max q)" using q f_lt_finite by (auto simp: q_ok_def)
  have c: "f_finite ?c" "f_units (q_min q) \<le> f_units ?c" "f_units ?c \<le> f_units (q_max q)"
    using clampf_between [OF v fin(1,2)] lt by simp_all
  have d: "0 < f_units ?d" by (rule difference_positive [OF fin(1,2) lt fin(3)])
  have s: "f_finite (f_sub ?c (q_min q))" "0 \<le> f_units (f_sub ?c (q_min q))" "f_units (f_sub ?c (q_min q)) \<le> f_units ?d"
  proof -
    have k: "f_key (f_sub ?c (q_min q)) = rkey (f_units ?c - f_units (q_min q)) 1" by (rule f_key_sub [OF c(1) fin(1)])
    have "rkey (f_units ?c - f_units (q_min q)) 1 \<le> rkey (f_units (q_max q) - f_units (q_min q)) 1"
      using c(3) by (intro rkey_mono) simp_all
    then have hi: "f_key (f_sub ?c (q_min q)) \<le> f_key ?d" by (simp add: k f_key_sub [OF fin(2,1)])
    have lo: "f_key 0 \<le> f_key (f_sub ?c (q_min q))"
      unfolding k using c(2) zero_units by (intro rkey_ge) simp_all
    show "f_finite (f_sub ?c (q_min q))" using hi lo fin(3) zero_units by (simp add: f_finite_key)
    show "0 \<le> f_units (f_sub ?c (q_min q))" using lo zero_units f_units_le_iff [of 0] by metis
    show "f_units (f_sub ?c (q_min q)) \<le> f_units ?d" using hi by (simp add: f_units_le_iff)
  qed
  obtain one where one: "f_finite one" "f_units one = 2 ^ 149" by (rule one_units)
  have k: "f_key n = rkey (f_units (f_sub ?c (q_min q)) * 2 ^ 149) (f_units ?d)"
    unfolding n_def by (rule f_key_div [OF s(1) fin(3) d])
  have le: "f_units 0 * f_units ?d \<le> f_units (f_sub ?c (q_min q)) * 2 ^ 149"
      "f_units (f_sub ?c (q_min q)) * 2 ^ 149 \<le> f_units one * f_units ?d"
    using s zero_units one by simp_all
  note r = rounded_between [OF k d zero_units(1) one(1) le]
  with zero_units one show "f_finite n" and "0 \<le> f_units n" and "f_units n \<le> 2 ^ 149" by simp_all
qed

lemma q_encode_some:
  assumes q: "q_ok q" and v: "\<not> f_isnan v"
  shows "\<exists>n. q_encode q v = Some n \<and> unat n < 2 ^ unat (q_bits q)"
proof -
  define L :: int where "L = 2 ^ unat (q_bits q) - 1"
  have b: "0 < unat (q_bits q)" "unat (q_bits q) \<le> 23" using q by (simp_all add: q_ok_def)
  have L: "0 < L" "L < 2 ^ 23" "uint (q_levels q) = L"
  proof -
    have "(2 :: int) ^ 1 \<le> 2 ^ unat (q_bits q)" using b by (intro power_increasing) simp_all
    moreover have "(2 :: int) ^ unat (q_bits q) \<le> 2 ^ 23" using b by (intro power_increasing) simp_all
    ultimately show "0 < L" "L < 2 ^ 23" by (simp_all add: L_def)
    show "uint (q_levels q) = L" using q_levels_val [OF b(2)] by (simp add: L_def)
  qed
  define n where "n = f_div (f_sub (clampf v (q_min q) (q_max q)) (q_min q)) (f_sub (q_max q) (q_min q))"
  note n = normalized_bounds [OF q v, folded n_def]
  have l: "f_finite (f_of_int L)" "f_units (f_of_int L) = L * 2 ^ 149" using L by (simp_all add: f_of_int_exact)
  let ?t = "f_mul n (f_of_int L)"
  have tk: "f_key ?t = rkey (f_units n * f_units (f_of_int L)) (2 ^ 149)" by (rule f_key_mul [OF n(1) l(1)])
  have t: "f_finite ?t" "0 \<le> f_units ?t" "f_units ?t \<le> L * 2 ^ 149"
    using rounded_between [OF tk _ zero_units(1) l(1)] n L(1) by (simp_all add: l(2) zero_units mult_left_mono)
  obtain h where h: "f_finite h" "f_units h = (2 * L + 1) * 2 ^ 148" using representable [of "2 * L + 1" 148] L by auto
  let ?w = "f_add ?t f_half"
  have wk: "f_key ?w = rkey (f_units ?t + f_units f_half) 1" by (rule f_key_add [OF t(1) f_half_units(1)])
  have w: "f_finite ?w" "0 \<le> f_units ?w" "f_units ?w \<le> (2 * L + 1) * 2 ^ 148"
    using rounded_between [OF wk _ zero_units(1) h(1)] t by (simp_all add: h(2) zero_units f_half_units)
  have tr: "f_trunc ?w = Some (f_units ?w div 2 ^ 149)" using f_trunc_finite [OF w(1)] w(2) by (simp add: trunc_units_def)
  have "f_units ?w div 2 ^ 149 \<le> (2 * L + 1) * 2 ^ 148 div 2 ^ 149" using w(3) by (intro zdiv_mono1) simp_all
  also have "(2 * L + 1) * 2 ^ 148 div 2 ^ 149 = L" by simp
  finally have hi: "f_units ?w div 2 ^ 149 \<le> L" .
  have lo: "0 \<le> f_units ?w div 2 ^ 149" using w(2) by (simp add: pos_imp_zdiv_nonneg_iff)
  have enc: "q_encode q v = Some (word_of_int (f_units ?w div 2 ^ 149))"
    unfolding q_encode_def Let_def n_def [symmetric] L(3) f_to_u32_def tr using lo hi L(2) by simp
  moreover have "unat (word_of_int (f_units ?w div 2 ^ 149) :: u32) = nat (f_units ?w div 2 ^ 149)"
    using lo hi L(2) by (simp add: unat_eq_nat_uint uint_word_of_int)
  ultimately show ?thesis using lo hi by (auto simp: L_def nat_less_iff)
qed



section \<open>Requantization is stable\<close>

text \<open>
  The range is fine enough for its bits: it is normal, and the accumulated rounding error of decoding
  and encoding, counted in steps, stays below a quarter.
\<close>

definition q_fine :: "quantizer \<Rightarrow> bool" where
  "q_fine q \<longleftrightarrow> q_ok q \<and> f_finite (f_add (q_min q) (f_sub (q_max q) (q_min q))) \<and>
     (let d = f_units (f_sub (q_max q) (q_min q))
      in 2 ^ 23 \<le> d \<and> uint (q_levels q) * (9 * d + \<bar>f_units (q_min q)\<bar>) \<le> 2 ^ 22 * d)"

lemma q_levels_bounds:
  assumes "q_ok q"
  shows "0 < uint (q_levels q)" and "uint (q_levels q) < 2 ^ 23"
proof -
  have b: "0 < unat (q_bits q)" "unat (q_bits q) \<le> 23" using assms by (simp_all add: q_ok_def)
  have "(2 :: int) ^ 1 \<le> 2 ^ unat (q_bits q)" "(2 :: int) ^ unat (q_bits q) \<le> 2 ^ 23"
    using b by (intro power_increasing; simp)+
  then show "0 < uint (q_levels q)" and "uint (q_levels q) < 2 ^ 23" using q_levels_val [OF b(2)] by simp_all
qed

lemma error_chain:
  fixes x m p a b :: real
  shows "\<bar>x - (m + p)\<bar> \<le> e \<Longrightarrow> \<bar>p - a\<bar> \<le> f \<Longrightarrow> \<bar>a - b\<bar> \<le> g \<Longrightarrow> \<bar>x - (m + b)\<bar> \<le> e + f + g"
  by linarith

lemma clamp_error:
  fixes x y lo hi :: real
  assumes "\<bar>x - y\<bar> \<le> e" and "lo \<le> y" and "y \<le> hi + g" and "0 \<le> g"
  shows "\<bar>(if x < lo then lo else if hi < x then hi else x) - y\<bar> \<le> e + g"
  using assms by auto

lemma fraction_unit:
  "0 \<le> n \<Longrightarrow> n \<le> l \<Longrightarrow> 0 < l \<Longrightarrow> 0 \<le> real_of_int n / real_of_int l \<and> real_of_int n / real_of_int l \<le> 1"
  by simp

text \<open>A fraction of two small integers, and a fraction of a normal value.\<close>

lemma fraction_error:
  assumes n: "0 \<le> n" "n \<le> l" and l: "0 < l" "l \<le> 2 ^ 24"
  defines "a \<equiv> f_div (f_of_int n) (f_of_int l)"
  shows "f_finite a" and "0 \<le> f_units a" and "f_units a \<le> 2 ^ 149"
    and "\<bar>real_of_int (f_units a) - 2 ^ 149 * (n / l)\<bar> \<le> 2 ^ 149 / 2 ^ 24"
proof -
  have nx: "f_finite (f_of_int n)" "f_units (f_of_int n) = n * 2 ^ 149" using n l by (simp_all add: f_of_int_exact)
  have lx: "f_finite (f_of_int l)" "f_units (f_of_int l) = l * 2 ^ 149" using l by (simp_all add: f_of_int_exact)
  obtain one where one: "f_finite one" "f_units one = 2 ^ 149" by (rule one_units)
  have lp: "0 < f_units (f_of_int l)" using l by (simp add: lx(2))
  have k: "f_key a = rkey (f_units (f_of_int n) * 2 ^ 149) (f_units (f_of_int l))"
    unfolding a_def by (rule f_key_div [OF nx(1) lx(1) lp])
  show f: "f_finite a" and "0 \<le> f_units a" and "f_units a \<le> 2 ^ 149"
    using rounded_between [OF k lp zero_units(1) one(1)] n l by (simp_all add: nx(2) lx(2) one(2) zero_units)
  have eq: "real_of_int (f_units (f_of_int n) * 2 ^ 149) / f_units (f_of_int l) = 2 ^ 149 * (n / l)"
    using l by (simp add: nx(2) lx(2))
  have "n / l \<le> 1" "0 \<le> n / l" using n l by simp_all
  then have "\<bar>2 ^ 149 * (n / l)\<bar> \<le> 2 ^ 149" by (simp del: of_int_div)
  then show "\<bar>real_of_int (f_units a) - 2 ^ 149 * (n / l)\<bar> \<le> 2 ^ 149 / 2 ^ 24"
    using rounded_error [OF k lp f, of "2 ^ 149"] unfolding eq by simp
qed

lemma scaled_error:
  assumes a: "f_finite a" "0 \<le> f_units a" "f_units a \<le> 2 ^ 149" and d: "f_finite d" "2 ^ 23 \<le> f_units d"
  shows "f_finite (f_mul a d)" and "0 \<le> f_units (f_mul a d)" and "f_units (f_mul a d) \<le> f_units d"
    and "\<bar>f_units (f_mul a d) - real_of_int (f_units a) * real_of_int (f_units d) / 2 ^ 149\<bar> \<le> f_units d / 2 ^ 24"
proof -
  have k: "f_key (f_mul a d) = rkey (f_units a * f_units d) (2 ^ 149)" by (rule f_key_mul [OF a(1) d(1)])
  have u: "f_units a * f_units d \<le> 2 ^ 149 * f_units d" using a(3) d(2) by (intro mult_right_mono) simp_all
  show f: "f_finite (f_mul a d)" and "0 \<le> f_units (f_mul a d)" and "f_units (f_mul a d) \<le> f_units d"
    using rounded_between [OF k _ zero_units(1) d(1)] a(2) d(2) u by (simp_all add: zero_units mult.commute)
  have rd: "2 ^ 23 \<le> real_of_int (f_units d)" using d(2) by simp
  have "real_of_int (f_units a * f_units d) \<le> real_of_int (2 ^ 149 * f_units d)" using u by (simp only: of_int_le_iff)
  moreover have "0 \<le> real_of_int (f_units a * f_units d)" using a(2) d(2) by (simp only: of_int_0_le_iff) simp
  ultimately have "\<bar>real_of_int (f_units a * f_units d) / real_of_int (2 ^ 149)\<bar> \<le> f_units d" by simp
  from rounded_error [OF k _ f this rd]
  show "\<bar>f_units (f_mul a d) - real_of_int (f_units a) * real_of_int (f_units d) / 2 ^ 149\<bar> \<le> f_units d / 2 ^ 24" by simp
qed

lemma q_decode_between:
  assumes q: "q_fine q" and n: "uint n \<le> uint (q_levels q)"
  shows "f_finite (q_decode q n)" and "f_units (q_min q) \<le> f_units (q_decode q n)"
    and "f_units (q_decode q n) \<le> f_units (f_add (q_min q) (f_sub (q_max q) (q_min q)))"
proof -
  let ?d = "f_sub (q_max q) (q_min q)" and ?L = "uint (q_levels q)"
  have ok: "q_ok q" and D: "2 ^ 23 \<le> f_units ?d" and sum: "f_finite (f_add (q_min q) ?d)"
    using q by (simp_all add: q_fine_def Let_def)
  have fin: "f_finite (q_min q)" "f_finite ?d" using ok by (simp_all add: q_ok_def)
  have L: "0 < ?L" "?L \<le> 2 ^ 24" using q_levels_bounds [OF ok] by simp_all
  define p where "p = f_mul (f_div (f_of_int (uint n)) (f_of_int ?L)) ?d"
  note p = scaled_error [OF fraction_error(1-3) [OF unsigned_greater_eq n L] fin(2) D, folded p_def]
  have x: "q_decode q n = f_add (q_min q) p" by (simp add: q_decode_def Let_def p_def)
  have k: "f_key (q_decode q n) = rkey (f_units (q_min q) + f_units p) 1" unfolding x by (rule f_key_add [OF fin(1) p(1)])
  have lo: "f_key (q_min q) \<le> f_key (q_decode q n)" unfolding k using p(2) by (intro rkey_ge [OF fin(1)]) simp_all
  have hi: "f_key (q_decode q n) \<le> f_key (f_add (q_min q) ?d)"
    unfolding k f_key_add [OF fin] using p(3) by (intro rkey_mono) simp_all
  show "f_finite (q_decode q n)" using lo hi fin(1) sum by (simp add: f_finite_key)
  show "f_units (q_min q) \<le> f_units (q_decode q n)" "f_units (q_decode q n) \<le> f_units (f_add (q_min q) ?d)"
    using lo hi by (simp_all add: f_units_le_iff)
qed

lemma q_decode_error:
  assumes q: "q_fine q" and n: "uint n \<le> uint (q_levels q)"
  defines "D \<equiv> real_of_int (f_units (f_sub (q_max q) (q_min q)))" and "M \<equiv> real_of_int (f_units (q_min q))"
  shows "f_finite (q_decode q n)"
    and "\<bar>f_units (q_decode q n) - (M + D * (real_of_int (uint n) / real_of_int (uint (q_levels q))))\<bar> \<le> (3 * D + \<bar>M\<bar>) / 2 ^ 24"
proof -
  let ?d = "f_sub (q_max q) (q_min q)" and ?L = "uint (q_levels q)"
  define F where "F = real_of_int (uint n) / real_of_int ?L"
  have ok: "q_ok q" and D: "2 ^ 23 \<le> f_units ?d" using q by (simp_all add: q_fine_def Let_def)
  have fin: "f_finite (q_min q)" "f_finite ?d" using ok by (simp_all add: q_ok_def)
  have rd: "2 ^ 23 \<le> D" using D unfolding D_def by simp
  have L: "0 < ?L" "?L \<le> 2 ^ 24" using q_levels_bounds [OF ok] by simp_all
  define a where "a = f_div (f_of_int (uint n)) (f_of_int ?L)"
  note a = fraction_error [OF unsigned_greater_eq n L, folded a_def F_def]
  define p where "p = f_mul a ?d"
  note p = scaled_error [OF a(1-3) fin(2) D, folded p_def D_def]
  define x where "x = f_add (q_min q) p"
  have xk: "f_key x = rkey (f_units (q_min q) + f_units p) 1" unfolding x_def by (rule f_key_add [OF fin(1) p(1)])
  have eq: "q_decode q n = x" by (simp add: q_decode_def Let_def x_def p_def a_def)
  have x: "f_finite x" using q_decode_between(1) [OF q n] by (simp add: eq)
  have "real_of_int (f_units p) \<le> D" "0 \<le> real_of_int (f_units p)" using p(2,3) by (simp_all add: D_def)
  then have xe: "\<bar>f_units x - (M + f_units p)\<bar> \<le> (\<bar>M\<bar> + D) / 2 ^ 24"
    using rounded_error [OF xk _ x, of "\<bar>M\<bar> + D"] rd by (simp add: M_def)
  have "f_units a * D / 2 ^ 149 - D * F = (f_units a - 2 ^ 149 * F) * (D / 2 ^ 149)" by (simp add: field_simps)
  then have "\<bar>f_units a * D / 2 ^ 149 - D * F\<bar> = \<bar>f_units a - 2 ^ 149 * F\<bar> * (D / 2 ^ 149)"
    using rd by (simp only: abs_mult) simp
  also have "\<dots> \<le> 2 ^ 149 / 2 ^ 24 * (D / 2 ^ 149)" using a(4) rd by (intro mult_right_mono) simp_all
  also have "\<dots> = D / 2 ^ 24" by simp
  finally have "\<bar>f_units a * D / 2 ^ 149 - D * F\<bar> \<le> D / 2 ^ 24" .
  from error_chain [OF xe p(4) this]
  have "\<bar>f_units x - (M + D * F)\<bar> \<le> (\<bar>M\<bar> + D) / 2 ^ 24 + D / 2 ^ 24 + D / 2 ^ 24" .
  also have "\<dots> = (3 * D + \<bar>M\<bar>) / 2 ^ 24" by simp
  finally have e: "\<bar>f_units x - (M + D * F)\<bar> \<le> (3 * D + \<bar>M\<bar>) / 2 ^ 24" .
  show "f_finite (q_decode q n)"
    and "\<bar>f_units (q_decode q n) - (M + D * (real_of_int (uint n) / real_of_int ?L))\<bar> \<le> (3 * D + \<bar>M\<bar>) / 2 ^ 24"
    unfolding eq using x e by (simp_all only: F_def)
qed

lemma q_width_error:
  assumes q: "q_fine q"
  defines "D \<equiv> real_of_int (f_units (f_sub (q_max q) (q_min q)))" and "W \<equiv> real_of_int (f_units (q_max q) - f_units (q_min q))"
  shows "\<bar>D - W\<bar> \<le> 2 * D / 2 ^ 24" and "W \<le> 2 * D"
proof -
  have ok: "q_ok q" and D: "2 ^ 23 \<le> f_units (f_sub (q_max q) (q_min q))" using q by (simp_all add: q_fine_def Let_def)
  have fin: "f_finite (q_min q)" "f_finite (q_max q)" "f_finite (f_sub (q_max q) (q_min q))" using ok by (simp_all add: q_ok_def)
  have "f_units (q_min q) < f_units (q_max q)" using ok f_lt_finite [OF fin(1,2)] by (simp add: q_ok_def)
  then have W: "0 < W" by (simp add: W_def)
  have rd: "2 ^ 23 \<le> D" using D unfolding D_def by simp
  have "\<bar>D - W\<bar> \<le> max (2 ^ 23) W / 2 ^ 24"
    using rounded_error [OF f_key_sub [OF fin(2,1)] _ fin(3), of "max (2 ^ 23) W"] W by (simp add: D_def W_def)
  then show "W \<le> 2 * D" and "\<bar>D - W\<bar> \<le> 2 * D / 2 ^ 24" using rd W by (auto simp: max_def abs_le_iff abs_if split: if_splits)
qed

lemma q_offset_error:
  assumes q: "q_fine q" and n: "uint n \<le> uint (q_levels q)"
  defines "D \<equiv> real_of_int (f_units (f_sub (q_max q) (q_min q)))" and "M \<equiv> real_of_int (f_units (q_min q))"
    and "s \<equiv> f_sub (clampf (q_decode q n) (q_min q) (q_max q)) (q_min q)"
  shows "f_finite s" and "0 \<le> f_units s" and "f_units s \<le> f_units (f_sub (q_max q) (q_min q))"
    and "\<bar>f_units s - D * (real_of_int (uint n) / real_of_int (uint (q_levels q)))\<bar> \<le> (7 * D + \<bar>M\<bar>) / 2 ^ 24"
proof -
  let ?d = "f_sub (q_max q) (q_min q)" and ?L = "uint (q_levels q)"
  define F where "F = real_of_int (uint n) / real_of_int ?L"
  define c where "c = clampf (q_decode q n) (q_min q) (q_max q)"
  have ok: "q_ok q" and D: "2 ^ 23 \<le> f_units ?d" using q by (simp_all add: q_fine_def Let_def)
  have fin: "f_finite (q_min q)" "f_finite (q_max q)" "f_finite ?d" using ok by (simp_all add: q_ok_def)
  have rd: "2 ^ 23 \<le> D" using D unfolding D_def by simp
  have F: "0 \<le> F" "F \<le> 1" using fraction_unit [OF unsigned_greater_eq n] q_levels_bounds [OF ok] by (simp_all only: F_def)
  have DF: "0 \<le> D * F" "D * F \<le> D" using F rd by (simp_all add: mult_left_le)
  note x = q_decode_error [OF q n, folded D_def M_def F_def]
  note w = q_width_error [OF q, folded D_def]
  define Z where "Z = real_of_int (f_units (q_max q))"
  have W: "real_of_int (f_units (q_max q) - f_units (q_min q)) = Z - M" by (simp add: Z_def M_def)
  have lt: "f_units (q_min q) < f_units (q_max q)" using ok f_lt_finite [OF fin(1,2)] by (simp add: q_ok_def)
  have c: "f_finite c" "M \<le> f_units c" "f_units c \<le> Z"
    using clampf_between [of "q_decode q n", OF _ fin(1,2)] x(1) lt by (simp_all add: c_def M_def Z_def)
  have cc: "real_of_int (f_units c) = (if real_of_int (f_units (q_decode q n)) < M then M
      else if Z < real_of_int (f_units (q_decode q n)) then Z else real_of_int (f_units (q_decode q n)))"
    using x(1) fin by (simp add: c_def clampf_def f_lt_finite M_def Z_def)
  define g where "g = 2 * D / 2 ^ 24"
  have "\<bar>D - (Z - M)\<bar> \<le> g" "0 \<le> g" using w(1) rd unfolding W by (simp_all add: g_def)
  then have "M \<le> M + D * F" "M + D * F \<le> Z + g" "0 \<le> g" using DF by linarith+
  from clamp_error [OF x(2) this]
  have ce: "\<bar>real_of_int (f_units c) - (M + D * F)\<bar> \<le> (5 * D + \<bar>M\<bar>) / 2 ^ 24"
    unfolding cc g_def by (simp add: add_divide_distrib)
  have sk: "f_key s = rkey (f_units c - f_units (q_min q)) 1" unfolding s_def c_def [symmetric] by (rule f_key_sub [OF c(1) fin(1)])
  have ci: "f_units (q_min q) \<le> f_units c" "f_units c \<le> f_units (q_max q)" using c(2,3) by (simp_all add: M_def Z_def)
  have lo: "f_key 0 \<le> f_key s" unfolding sk using ci zero_units by (intro rkey_ge) simp_all
  have hi: "f_key s \<le> f_key ?d" unfolding sk f_key_sub [OF fin(2,1)] using ci by (intro rkey_mono) simp_all
  show f: "f_finite s" using hi lo fin(3) zero_units by (simp add: f_finite_key)
  show "0 \<le> f_units s" using lo zero_units f_units_le_iff [of 0 s] by simp
  show "f_units s \<le> f_units ?d" using hi by (simp add: f_units_le_iff)
  have se: "\<bar>f_units s - (- M + f_units c)\<bar> \<le> 2 * D / 2 ^ 24"
    using rounded_error [OF sk _ f, of "2 * D"] w(2) c(2,3) rd unfolding W by (simp add: M_def)
  show "\<bar>f_units s - D * (real_of_int (uint n) / real_of_int ?L)\<bar> \<le> (7 * D + \<bar>M\<bar>) / 2 ^ 24"
    using error_chain [OF se ce, of "M + D * F" 0] unfolding F_def [symmetric] by (simp add: add_divide_distrib)
qed

lemma q_normalized_error:
  assumes q: "q_fine q" and n: "uint n \<le> uint (q_levels q)"
  defines "D \<equiv> real_of_int (f_units (f_sub (q_max q) (q_min q)))" and "M \<equiv> real_of_int (f_units (q_min q))"
    and "a \<equiv> f_div (f_sub (clampf (q_decode q n) (q_min q) (q_max q)) (q_min q)) (f_sub (q_max q) (q_min q))"
  shows "\<bar>f_units a - 2 ^ 149 * (real_of_int (uint n) / real_of_int (uint (q_levels q)))\<bar> \<le> 2 ^ 149 * (8 * D + \<bar>M\<bar>) / (2 ^ 24 * D)"
proof -
  let ?d = "f_sub (q_max q) (q_min q)"
  define F where "F = real_of_int (uint n) / real_of_int (uint (q_levels q))"
  define s where "s = f_sub (clampf (q_decode q n) (q_min q) (q_max q)) (q_min q)"
  have ok: "q_ok q" and D: "2 ^ 23 \<le> f_units ?d" using q by (simp_all add: q_fine_def Let_def)
  have fd: "f_finite ?d" using ok by (simp add: q_ok_def)
  have rd: "2 ^ 23 \<le> D" using D unfolding D_def by simp
  have dp: "0 < f_units ?d" using D by simp
  note s = q_offset_error [OF q n, folded D_def M_def F_def s_def]
  have k: "f_key a = rkey (f_units s * 2 ^ 149) (f_units ?d)" unfolding a_def s_def [symmetric] by (rule f_key_div [OF s(1) fd dp])
  have f: "f_finite a" unfolding a_def by (rule normalized_bounds [OF ok]) (use q_decode_error(1) [OF q n] in simp)
  have "real_of_int (f_units s) \<le> D" "0 \<le> real_of_int (f_units s)" using s(2,3) by (simp_all add: D_def)
  then have "\<bar>real_of_int (f_units s * 2 ^ 149) / real_of_int (f_units ?d)\<bar> \<le> 2 ^ 149"
    using rd by (simp add: D_def [symmetric] abs_divide divide_le_eq)
  from rounded_error [OF k dp f this]
  have a: "\<bar>f_units a - (0 + real_of_int (f_units s) * 2 ^ 149 / D)\<bar> \<le> 2 ^ 149 / 2 ^ 24" by (simp add: D_def)
  have "real_of_int (f_units s) * 2 ^ 149 / D - 2 ^ 149 * F = (f_units s - D * F) * (2 ^ 149 / D)"
    using rd by (simp add: field_simps)
  then have "\<bar>real_of_int (f_units s) * 2 ^ 149 / D - 2 ^ 149 * F\<bar> = \<bar>f_units s - D * F\<bar> * (2 ^ 149 / D)"
    using rd by (simp only: abs_mult) simp
  also have "\<dots> \<le> (7 * D + \<bar>M\<bar>) / 2 ^ 24 * (2 ^ 149 / D)" using s(4) rd by (intro mult_right_mono) simp_all
  finally have b: "\<bar>real_of_int (f_units s) * 2 ^ 149 / D - 2 ^ 149 * F\<bar> \<le> (7 * D + \<bar>M\<bar>) / 2 ^ 24 * (2 ^ 149 / D)" .
  have "\<bar>f_units a - 2 ^ 149 * F\<bar> \<le> 2 ^ 149 / 2 ^ 24 + 0 + (7 * D + \<bar>M\<bar>) / 2 ^ 24 * (2 ^ 149 / D)"
    using error_chain [OF a _ b, of 0] by simp
  also have "\<dots> = 2 ^ 149 * (8 * D + \<bar>M\<bar>) / (2 ^ 24 * D)" using rd by (simp add: field_simps)
  finally show ?thesis unfolding F_def .
qed

lemma quarter_rounds:
  assumes t: "f_finite t" and n: "0 \<le> n" "n < 2 ^ 22" and near: "4 * \<bar>f_units t - n * 2 ^ 149\<bar> \<le> 2 ^ 149"
  shows "f_trunc (f_add t f_half) = Some n"
proof -
  obtain lo where lo: "f_finite lo" "f_units lo = (4 * n + 1) * 2 ^ 147" using representable [of "4 * n + 1" 147] n by auto
  obtain hi where hi: "f_finite hi" "f_units hi = (4 * n + 3) * 2 ^ 147" using representable [of "4 * n + 3" 147] n by auto
  have k: "f_key (f_add t f_half) = rkey (f_units t + f_units f_half) 1" by (rule f_key_add [OF t f_half_units(1)])
  have b: "(4 * n + 1) * 2 ^ 147 \<le> f_units t + f_units f_half" "f_units t + f_units f_half \<le> (4 * n + 3) * 2 ^ 147"
    using near by (simp_all add: f_half_units abs_le_iff algebra_simps)
  have w: "f_finite (f_add t f_half)" "(4 * n + 1) * 2 ^ 147 \<le> f_units (f_add t f_half)"
      "f_units (f_add t f_half) \<le> (4 * n + 3) * 2 ^ 147"
    using rounded_between [OF k _ lo(1) hi(1)] b by (simp_all add: lo hi)
  have "f_units (f_add t f_half) div 2 ^ 149 = n"
    using w(2,3) by (intro int_div_pos_eq [where r = "f_units (f_add t f_half) - n * 2 ^ 149"]) (simp_all add: algebra_simps)
  moreover have "0 \<le> f_units (f_add t f_half)" using w(2) n by (intro order_trans [OF _ w(2)]) simp
  ultimately show ?thesis using f_trunc_finite [OF w(1)] by (simp add: trunc_units_def)
qed

lemma steps_error:
  fixes D M :: real and l m :: int
  assumes a: "f_finite a" "0 \<le> f_units a" "f_units a \<le> 2 ^ 149" and l: "0 < l" "l < 2 ^ 23" and D: "2 ^ 23 \<le> D"
    and ae: "\<bar>f_units a - 2 ^ 149 * (m / l)\<bar> \<le> 2 ^ 149 * (8 * D + \<bar>M\<bar>) / (2 ^ 24 * D)"
    and bound: "l * (9 * D + \<bar>M\<bar>) \<le> 2 ^ 22 * D"
  shows "f_finite (f_mul a (f_of_int l))" and "4 * \<bar>f_units (f_mul a (f_of_int l)) - m * 2 ^ 149\<bar> \<le> 2 ^ 149"
proof -
  have lx: "f_finite (f_of_int l)" "f_units (f_of_int l) = l * 2 ^ 149" "2 ^ 23 \<le> f_units (f_of_int l)"
    using l by (simp_all add: f_of_int_exact)
  define t where "t = f_mul a (f_of_int l)"
  note t = scaled_error [OF a lx(1,3), folded t_def]
  have te: "\<bar>f_units t - (0 + real_of_int (f_units a) * l)\<bar> \<le> l * 2 ^ 149 / 2 ^ 24" using t(4) by (simp add: lx(2))
  have "real_of_int (f_units a) * l - m * 2 ^ 149 = (f_units a - 2 ^ 149 * (m / l)) * l" using l by (simp add: field_simps)
  then have "\<bar>real_of_int (f_units a) * l - m * 2 ^ 149\<bar> = \<bar>f_units a - 2 ^ 149 * (m / l)\<bar> * l"
    using l by (simp add: abs_mult)
  also have "\<dots> \<le> 2 ^ 149 * (8 * D + \<bar>M\<bar>) / (2 ^ 24 * D) * l" using ae l by (intro mult_right_mono) simp_all
  finally have b: "\<bar>real_of_int (f_units a) * l - m * 2 ^ 149\<bar> \<le> 2 ^ 149 * (8 * D + \<bar>M\<bar>) / (2 ^ 24 * D) * l" .
  have "\<bar>f_units t - m * 2 ^ 149\<bar> \<le> l * 2 ^ 149 / 2 ^ 24 + 2 ^ 149 * (8 * D + \<bar>M\<bar>) / (2 ^ 24 * D) * l"
    using error_chain [OF te _ b, of 0] by simp
  also have "\<dots> = 2 ^ 149 * (l * (9 * D + \<bar>M\<bar>)) / (2 ^ 24 * D)" using D by (simp add: field_simps)
  also have "\<dots> \<le> 2 ^ 149 * (2 ^ 22 * D) / (2 ^ 24 * D)" using bound D by (intro divide_right_mono mult_left_mono) simp_all
  also have "\<dots> = 2 ^ 147" using D by simp
  finally have "4 * \<bar>f_units t - m * 2 ^ 149\<bar> \<le> 2 ^ 149"
    by (simp only: of_int_le_iff [where ?'a = real, symmetric]) simp
  with t(1) show "f_finite (f_mul a (f_of_int l))" and "4 * \<bar>f_units (f_mul a (f_of_int l)) - m * 2 ^ 149\<bar> \<le> 2 ^ 149"
    unfolding t_def by blast+
qed

lemma q_encode_decode:
  assumes q: "q_fine q" and n: "uint n \<le> uint (q_levels q)"
  shows "q_encode q (q_decode q n) = Some n"
proof -
  let ?L = "uint (q_levels q)" and ?d = "f_sub (q_max q) (q_min q)"
  define D where "D = real_of_int (f_units ?d)"
  define M where "M = real_of_int (f_units (q_min q))"
  define a where "a = f_div (f_sub (clampf (q_decode q n) (q_min q) (q_max q)) (q_min q)) ?d"
  have ok: "q_ok q" and fine: "2 ^ 23 \<le> f_units ?d" "?L * (9 * f_units ?d + \<bar>f_units (q_min q)\<bar>) \<le> 2 ^ 22 * f_units ?d"
    using q by (simp_all add: q_fine_def Let_def)
  have rd: "2 ^ 23 \<le> D" using fine(1) unfolding D_def by simp
  have bound: "real_of_int ?L * (9 * D + \<bar>M\<bar>) \<le> 2 ^ 22 * D"
    using fine(2) unfolding D_def M_def by (simp only: of_int_le_iff [where ?'a = real, symmetric]) simp
  note L = q_levels_bounds [OF ok]
  have xn: "\<not> f_isnan (q_decode q n)" using q_decode_error(1) [OF q n] by simp
  note a = normalized_bounds [OF ok xn, folded a_def] and ae = q_normalized_error [OF q n, folded D_def M_def a_def]
  note t = steps_error [OF a L rd ae bound]
  have "8 * ?L * f_units ?d \<le> ?L * (9 * f_units ?d + \<bar>f_units (q_min q)\<bar>)" using L fine(1) by (simp add: algebra_simps)
  then have "8 * ?L * f_units ?d \<le> 2 ^ 22 * f_units ?d" using fine(2) by linarith
  then have "uint n < 2 ^ 22" using n L fine(1) by simp
  then have "f_trunc (f_add (f_mul a (f_of_int ?L)) f_half) = Some (uint n)" by (intro quarter_rounds [OF t(1) _ _ t(2)]) simp_all
  then show ?thesis using n L unfolding q_encode_def Let_def a_def [symmetric] f_to_u32_def by simp
qed


section \<open>The property\<close>

text \<open>
  \<open>Quantizer::encode\<close> and \<open>Quantizer::decode\<close>. For a quantizer whose range is a normal width and
  fine enough for its bits, every value that is not a NaN is encoded without undefined behaviour into a
  number of the declared bits, and what was quantized once stays fixed: decoding and encoding again gives
  the same number, so \<open>snap\<close> is idempotent and a predicted and an authoritative value that were both
  quantized agree bit for bit.
\<close>

theorem quantizer_stable:
  assumes "q_fine q" and "\<not> f_isnan v"
  shows "\<exists>n x. q_encode q v = Some n \<and> unat n < 2 ^ unat (q_bits q) \<and>
    q_snap q v = Some x \<and> f_finite x \<and> q_encode q x = Some n \<and> q_snap q x = Some x"
proof -
  have ok: "q_ok q" using assms(1) by (simp add: q_fine_def)
  obtain n where n: "q_encode q v = Some n" "unat n < 2 ^ unat (q_bits q)" using q_encode_some [OF ok assms(2)] by blast
  have "uint (q_levels q) = 2 ^ unat (q_bits q) - 1" using ok by (intro q_levels_val) (simp add: q_ok_def)
  moreover have "int (unat n) < int (2 ^ unat (q_bits q))" using n(2) by (simp only: of_nat_less_iff)
  ultimately have le: "uint n \<le> uint (q_levels q)" by simp
  have "q_encode q (q_decode q n) = Some n" "f_finite (q_decode q n)"
    by (rule q_encode_decode [OF assms(1) le]) (rule q_decode_error(1) [OF assms(1) le])
  with n show ?thesis by (intro exI [of _ n] exI [of _ "q_decode q n"]) (simp add: q_snap_def)
qed

text \<open>The quantizer of the input axes, on 0.3.\<close>

theorem quantizer_stable_witness:
  "\<exists>n x. q_encode \<lparr>q_min = 0xbf800000, q_max = 0x3f800000, q_bits = 8\<rparr> 0x3e99999a = Some n \<and> unat n < 2 ^ unat (8 :: u32) \<and>
    q_snap \<lparr>q_min = 0xbf800000, q_max = 0x3f800000, q_bits = 8\<rparr> 0x3e99999a = Some x \<and> f_finite x \<and>
    q_encode \<lparr>q_min = 0xbf800000, q_max = 0x3f800000, q_bits = 8\<rparr> x = Some n \<and>
    q_snap \<lparr>q_min = 0xbf800000, q_max = 0x3f800000, q_bits = 8\<rparr> x = Some x"
proof -
  have "q_fine \<lparr>q_min = 0xbf800000, q_max = 0x3f800000, q_bits = 8\<rparr>" and "\<not> f_isnan 0x3e99999a" by code_simp+
  from quantizer_stable [OF this] show ?thesis by simp
qed

end
