(* ===== verification/Movement.thy ===== *)
theory Movement
  imports Quantizer
begin

text \<open>
  \<open>sim/movement.h\<close>: the parameters of the world, the input of a client, the quantization of its axes and
  the integration of one tick, over binary32 arithmetic. The theorem at the end is the invariant of the
  integrator: positions stay inside the arena and velocities inside the range of the velocity quantizer.
\<close>

section \<open>The operations\<close>

type_synonym tick = u32

definition f_one :: f32 where "f_one = 0x3f800000"

record world_params =
  wp_size :: f32
  wp_acceleration :: f32
  wp_max_speed :: f32
  wp_friction :: f32
  wp_player_radius :: f32
  wp_tick_rate :: u32

text \<open>The defaults: 2048, 1600, 320, 6, 8 and 30.\<close>

definition mk_world_params :: world_params where
  "mk_world_params = \<lparr>wp_size = 0x45000000, wp_acceleration = 0x44c80000, wp_max_speed = 0x43a00000,
     wp_friction = 0x40c00000, wp_player_radius = 0x41000000, wp_tick_rate = 30\<rparr>"

definition tick_dt :: "world_params \<Rightarrow> f32" where
  "tick_dt p = f_div f_one (f_of_int (uint (wp_tick_rate p)))"

record move_input =
  mi_sequence :: u32
  mi_tick :: tick
  mi_move_x :: f32
  mi_move_y :: f32
  mi_sprint :: bool

definition mk_move_input :: move_input where
  "mk_move_input = \<lparr>mi_sequence = 0, mi_tick = 0, mi_move_x = 0, mi_move_y = 0, mi_sprint = False\<rparr>"

record move_state =
  ms_position :: vec2
  ms_velocity :: vec2

definition input_axis_quantizer :: quantizer where
  "input_axis_quantizer = \<lparr>q_min = f_neg f_one, q_max = f_one, q_bits = 8\<rparr>"

definition quantize_input :: "move_input \<Rightarrow> move_input option" where
  "quantize_input input =
     (let q = input_axis_quantizer
      in case (q_snap q (clampf (mi_move_x input) (f_neg f_one) f_one),
               q_snap q (clampf (mi_move_y input) (f_neg f_one) f_one)) of
           (Some x, Some y) \<Rightarrow> Some (input\<lparr>mi_move_x := x, mi_move_y := y\<rparr>)
         | _ \<Rightarrow> None)"

text \<open>The stop at the walls, one axis at a time.\<close>

definition stop_at_walls :: "f32 \<Rightarrow> f32 \<Rightarrow> f32 \<Rightarrow> f32 \<Rightarrow> f32 \<times> f32" where
  "stop_at_walls low high p v =
     (if f_lt p low then (low, if f_lt v 0 then 0 else v)
      else if f_lt high p then (high, if f_lt 0 v then 0 else v)
      else (p, v))"

text \<open>The constants \<open>1.6f\<close> and \<open>1.5f\<close>.\<close>

definition step_movement :: "move_state \<Rightarrow> move_input \<Rightarrow> world_params \<Rightarrow> f32 \<Rightarrow> move_state" where
  "step_movement state input params dt =
     (let direction = vec (mi_move_x input) (mi_move_y input);
          magnitude_sq = length_sq direction;
          direction = (if f_lt f_one magnitude_sq then vec_scale direction (f_div f_one (f_sqrt magnitude_sq)) else direction);
          acceleration = f_mul (wp_acceleration params) (if mi_sprint input then 0x3fcccccd else f_one);
          max_speed = f_mul (wp_max_speed params) (if mi_sprint input then 0x3fc00000 else f_one);
          velocity = vec_add (ms_velocity state) (vec_scale direction (f_mul acceleration dt));
          damping = f_div f_one (f_add f_one (f_mul (wp_friction params) dt));
          velocity = vec_scale velocity damping;
          velocity = vec_clamped velocity max_speed;
          position = vec_add (ms_position state) (vec_scale velocity dt);
          low = wp_player_radius params;
          high = f_sub (wp_size params) (wp_player_radius params);
          (px, wx) = stop_at_walls low high (vx position) (vx velocity);
          (py, wy) = stop_at_walls low high (vy position) (vy velocity)
      in \<lparr>ms_position = vec px py, ms_velocity = vec wx wy\<rparr>)"



section \<open>Bounds of the steps\<close>

lemma power_of_two: "k \<le> 252 \<Longrightarrow> \<exists>b. f_finite b \<and> f_units b = 2 ^ k"
  by (rule representable [of 1 k]) auto

lemma f_units_of_key: "0 \<le> f_key x \<Longrightarrow> f_units x = mag_units (f_key x)"
  using f_mag_bounds(1) [of x] by (auto simp: f_units_def f_key_def split: if_splits)

lemma f_one_units: "f_finite f_one" "f_units f_one = 2 ^ 149"
  unfolding f_one_def by code_simp+

lemma double_representable:
  assumes x: "f_finite x" "0 \<le> f_units x" "f_units x \<le> 2 ^ 200"
  obtains b where "f_finite b" and "f_units b = 2 * f_units x"
proof -
  have u: "f_units x = mag_units (f_mag x)"
    using x(2) mag_units_nonneg [OF f_mag_bounds(1) [of x]] by (auto simp: f_units_def split: if_splits)
  show thesis
  proof (cases "f_mag x < 2 ^ 23")
    case True
    then obtain b where "f_finite b" "f_units b = f_mag x * 2 ^ 1"
      using representable [of "f_mag x" 1] f_mag_bounds(1) [of x] by auto
    with True show ?thesis by (intro that [of b]) (simp_all add: u mag_units_def)
  next
    case False
    let ?e = "nat (f_mag x div 2 ^ 23 - 1)" and ?m = "2 ^ 23 + f_mag x mod 2 ^ 23"
    have eq: "f_units x = ?m * 2 ^ ?e" using False by (simp add: u mag_units_def)
    have "(2 :: int) ^ ?e \<le> ?m * 2 ^ ?e" by simp
    also have "\<dots> \<le> 2 ^ 200" using x(3) by (simp only: eq)
    finally have "?e \<le> 200" by (rule power_le_imp_le_exp [rotated]) simp
    then have e: "Suc ?e \<le> 252" by simp
    have m: "0 \<le> ?m" "?m \<le> 2 ^ 24" using pos_mod_bound [of "2 ^ 23" "f_mag x"] by simp_all
    obtain b where "f_finite b" "f_units b = ?m * 2 ^ Suc ?e" by (rule representable [OF m e])
    then show ?thesis by (intro that [of b]) (simp_all add: eq)
  qed
qed

lemma reciprocal_bounded:
  assumes "f_finite x" and "2 ^ 149 \<le> f_units x"
  shows "f_finite (f_div f_one x)" and "\<bar>f_units (f_div f_one x)\<bar> \<le> 2 ^ 149"
proof -
  have p: "0 < f_units x" using assms(2) by simp
  have "\<bar>f_units f_one * 2 ^ 149\<bar> \<le> f_units f_one * f_units x" using assms(2) by (simp add: f_one_units)
  from rounded_abs [OF f_key_div(1) [OF f_one_units(1) assms(1) p] p f_one_units(1) this]
  show "f_finite (f_div f_one x)" and "\<bar>f_units (f_div f_one x)\<bar> \<le> 2 ^ 149" by (simp_all add: f_one_units)
qed

text \<open>The exact square of a value against the rounded one.\<close>

lemma square_error:
  assumes "f_finite v" and "f_finite (f_mul v v)"
  shows "2 ^ 24 * \<bar>f_units (f_mul v v) * 2 ^ 149 - f_units v * f_units v\<bar> \<le> max (2 ^ 23 * 2 ^ 149) (f_units v * f_units v)"
    and "0 \<le> f_units (f_mul v v)"
proof -
  let ?n = "f_units v * f_units v"
  have nn: "0 \<le> ?n" by simp
  have k: "f_key (f_mul v v) = rnd ?n (2 ^ 149)" using f_key_mul [OF assms(1,1)] by (simp add: rkey_def)
  then show p: "0 \<le> f_units (f_mul v v)" using f32.rounded_nonneg [OF nn, of "2 ^ 149"] by (simp add: f_units_nonneg_iff)
  have lt: "rnd ?n (2 ^ 149) < inf_mag" using assms(2) k by (simp add: f_finite_key)
  have "f_units (f_mul v v) = mag_units (rnd ?n (2 ^ 149))"
    using f_units_of_key [of "f_mul v v"] f32.rounded_nonneg [OF nn, of "2 ^ 149"] by (simp add: k)
  then show "2 ^ 24 * \<bar>f_units (f_mul v v) * 2 ^ 149 - ?n\<bar> \<le> max (2 ^ 23 * 2 ^ 149) ?n"
    using rnd_error [OF nn _ lt] by simp
qed

lemma square_below:
  assumes v: "f_finite v" "f_finite (f_mul v v)" and t: "f_units (f_mul v v) \<le> t" "2 ^ 24 \<le> t"
  shows "8 * (f_units v * f_units v) \<le> 9 * (t * 2 ^ 149)"
proof -
  define n where "n = f_units v * f_units v"
  have nn: "0 \<le> n" by (simp add: n_def)
  define f where "f = f_units (f_mul v v) * 2 ^ 149"
  have e: "2 ^ 24 * \<bar>f - n\<bar> \<le> max (2 ^ 23 * 2 ^ 149) n" using square_error(1) [OF v] by (simp add: n_def f_def)
  have ft: "f \<le> t * 2 ^ 149" "2 ^ 24 * 2 ^ 149 \<le> t * 2 ^ 149" using t by (simp_all add: f_def)
  have "8 * n \<le> 9 * (t * 2 ^ 149)"
  proof (cases "n \<le> 2 ^ 23 * 2 ^ 149")
    case True
    with ft(2) show ?thesis by simp
  next
    case False
    with e have "2 ^ 24 * \<bar>f - n\<bar> \<le> n" by simp
    then have "16777216 * (n - f) \<le> n" by (simp add: abs_if split: if_splits)
    then have "8 * n \<le> 9 * f" using nn by (simp add: algebra_simps)
    with ft(1) show ?thesis by linarith
  qed
  then show ?thesis by (simp add: n_def)
qed

lemma square_above:
  assumes v: "f_finite v" "f_finite (f_mul v v)" and t: "2 ^ 24 \<le> f_units (f_mul v v)"
  shows "8 * (f_units (f_mul v v) * 2 ^ 149) \<le> 9 * (f_units v * f_units v)"
proof -
  define n where "n = f_units v * f_units v"
  have nn: "0 \<le> n" by (simp add: n_def)
  define f where "f = f_units (f_mul v v) * 2 ^ 149"
  have e: "2 ^ 24 * \<bar>f - n\<bar> \<le> max (2 ^ 23 * 2 ^ 149) n" using square_error(1) [OF v] by (simp add: n_def f_def)
  have f: "2 ^ 24 * 2 ^ 149 \<le> f" using t by (simp add: f_def)
  have "8 * f \<le> 9 * n"
  proof (cases "n \<le> 2 ^ 23 * 2 ^ 149")
    case True
    with e have "2 ^ 24 * \<bar>f - n\<bar> \<le> 2 ^ 23 * 2 ^ 149" by simp
    with True f show ?thesis by (simp add: abs_if split: if_splits)
  next
    case False
    with e have "2 ^ 24 * \<bar>f - n\<bar> \<le> n" by simp
    then have "16777216 * (f - n) \<le> n" by (simp add: abs_if split: if_splits)
    then show "8 * f \<le> 9 * n" using nn by (simp add: algebra_simps)
  qed
  then show ?thesis by (simp add: n_def f_def)
qed

text \<open>Finite with a bounded magnitude, and how the operations keep that.\<close>

definition f_within :: "f32 \<Rightarrow> int \<Rightarrow> bool" where
  "f_within x b \<longleftrightarrow> f_finite x \<and> \<bar>f_units x\<bar> \<le> b"

lemma within_add: "f_within x a \<Longrightarrow> f_within y b \<Longrightarrow> a + b \<le> 2 ^ k \<Longrightarrow> k \<le> 252 \<Longrightarrow> f_within (f_add x y) (2 ^ k)"
  using power_of_two [of k] add_bounded [of x y] by (force simp: f_within_def)

lemma within_mul:
  assumes "f_within x a" "f_within y b" "a * b \<le> 2 ^ k * 2 ^ 149" "k \<le> 252"
  shows "f_within (f_mul x y) (2 ^ k)"
proof -
  obtain p where p: "f_finite p" "f_units p = 2 ^ k" using power_of_two [OF assms(4)] by blast
  have "\<bar>f_units x\<bar> * \<bar>f_units y\<bar> \<le> a * b" using assms(1,2) by (intro mult_mono) (auto simp: f_within_def)
  with assms p mul_bounded [of x y p] show ?thesis by (simp add: f_within_def)
qed

lemma within_shrink: "f_within x a \<Longrightarrow> f_within y (2 ^ 149) \<Longrightarrow> f_within (f_mul x y) a"
  using shrink_bounded [of x y] by (auto simp: f_within_def)

lemma within_mono: "f_within x a \<Longrightarrow> a \<le> b \<Longrightarrow> f_within x b"
  by (simp add: f_within_def)

lemma within_reciprocal: "f_finite x \<Longrightarrow> 2 ^ 149 \<le> f_units x \<Longrightarrow> f_within (f_div f_one x) (2 ^ 149)"
  using reciprocal_bounded by (simp add: f_within_def)

text \<open>The squared length dominates the square of each coordinate.\<close>

lemma length_sq_bounds:
  assumes x: "f_within (vx a) (2 ^ k)" and y: "f_within (vy a) (2 ^ k)" and k: "149 \<le> 2 * k" "2 * k \<le> 400"
  shows "f_finite (length_sq a)" and "f_units (length_sq a) \<le> 2 ^ (2 * k - 148)"
    and "f_finite (f_mul (vx a) (vx a))" "f_finite (f_mul (vy a) (vy a))"
    and "f_units (f_mul (vx a) (vx a)) \<le> f_units (length_sq a)" "f_units (f_mul (vy a) (vy a)) \<le> f_units (length_sq a)"
proof -
  have e: "(2 :: int) ^ k * 2 ^ k \<le> 2 ^ (2 * k - 149) * 2 ^ 149"
    using k by (simp only: power_add [symmetric] mult_2 [symmetric]) simp
  have X: "f_within (f_mul (vx a) (vx a)) (2 ^ (2 * k - 149))" and Y: "f_within (f_mul (vy a) (vy a)) (2 ^ (2 * k - 149))"
    using within_mul [OF x x e] within_mul [OF y y e] k by simp_all
  have "(2 :: int) ^ (2 * k - 149) + 2 ^ (2 * k - 149) = 2 ^ Suc (2 * k - 149)" by simp
  also have "Suc (2 * k - 149) = 2 * k - 148" using k by simp
  finally have s: "f_within (length_sq a) (2 ^ (2 * k - 148))"
    unfolding length_sq_def using within_add [OF X Y, of "2 * k - 148"] k by simp
  then show f: "f_finite (length_sq a)" and "f_units (length_sq a) \<le> 2 ^ (2 * k - 148)" by (auto simp: f_within_def abs_le_iff)
  show fx: "f_finite (f_mul (vx a) (vx a))" and fy: "f_finite (f_mul (vy a) (vy a))" using X Y by (simp_all add: f_within_def)
  have nn: "0 \<le> f_units (f_mul (vx a) (vx a))" "0 \<le> f_units (f_mul (vy a) (vy a))"
    using square_error(2) x y fx fy by (simp_all add: f_within_def)
  have key: "f_key (length_sq a) = rkey (f_units (f_mul (vx a) (vx a)) + f_units (f_mul (vy a) (vy a))) 1"
    unfolding length_sq_def by (rule f_key_add [OF fx fy])
  have "f_key (f_mul (vx a) (vx a)) \<le> f_key (length_sq a)" "f_key (f_mul (vy a) (vy a)) \<le> f_key (length_sq a)"
    unfolding key using nn by (simp_all add: rkey_ge [OF fx] rkey_ge [OF fy])
  then show "f_units (f_mul (vx a) (vx a)) \<le> f_units (length_sq a)" "f_units (f_mul (vy a) (vy a)) \<le> f_units (length_sq a)"
    by (simp_all add: f_units_le_iff)
qed

text \<open>One coordinate of \<open>clamped\<close>: within nine eighths, or five quarters, of the limit.\<close>

lemma unclamped_coordinate:
  assumes c: "f_finite c" "f_finite (f_mul c c)" "f_units (f_mul c c) \<le> s"
    and m: "f_finite m" "0 \<le> f_units m" "f_finite (f_mul m m)" "2 ^ 24 \<le> f_units (f_mul m m)" "s \<le> f_units (f_mul m m)"
  shows "8 * \<bar>f_units c\<bar> \<le> 9 * f_units m"
proof -
  have "8 * (f_units c * f_units c) \<le> 9 * (f_units (f_mul m m) * 2 ^ 149)"
    using c m by (intro square_below) simp_all
  moreover have "8 * (f_units (f_mul m m) * 2 ^ 149) \<le> 9 * (f_units m * f_units m)" by (rule square_above) (use m in simp_all)
  ultimately have "(8 * f_units c) * (8 * f_units c) \<le> (9 * f_units m) * (9 * f_units m)" by simp
  then have "\<bar>8 * f_units c\<bar> \<le> 9 * f_units m" using m by (intro square_le_imp) simp_all
  then show ?thesis by (simp add: abs_mult)
qed

lemma clamped_coordinate:
  assumes c: "f_finite c" "f_finite (f_mul c c)" "f_units (f_mul c c) \<le> f_units s" and s: "f_finite s" "2 ^ 24 \<le> f_units s"
    and m: "f_finite m" "0 \<le> f_units m" and b: "f_finite b" "5 * f_units m \<le> 4 * f_units b"
  shows "f_within (f_mul (f_div c (f_sqrt s)) m) (f_units b)"
proof -
  note l = f_sqrt_bounds [OF s]
  let ?l = "f_units (f_sqrt s)"
  have "8 * (f_units c * f_units c) \<le> 9 * (f_units s * 2 ^ 149)" using c s by (intro square_below) simp_all
  with l(3) have "8 * (f_units c * f_units c) \<le> 10 * (?l * ?l)" by linarith
  moreover have "0 \<le> ?l * ?l" by simp
  ultimately have "16 * (f_units c * f_units c) \<le> 25 * (?l * ?l)" by linarith
  then have "(4 * f_units c) * (4 * f_units c) \<le> (5 * ?l) * (5 * ?l)" by simp
  then have "\<bar>4 * f_units c\<bar> \<le> 5 * ?l" using l(2) by (intro square_le_imp) simp_all
  then have cl: "\<bar>f_units c * 2 ^ 149\<bar> \<le> 5 * 2 ^ 147 * ?l" by (simp add: abs_mult)
  obtain q where q: "f_finite q" "f_units q = 5 * 2 ^ 147" using representable [of 5 147] by auto
  have d: "f_finite (f_div c (f_sqrt s))" "\<bar>f_units (f_div c (f_sqrt s))\<bar> \<le> 5 * 2 ^ 147"
    using rounded_abs [OF f_key_div(1) [OF c(1) l(1,2)] l(2) q(1)] cl by (simp_all add: q(2))
  have "\<bar>f_units (f_div c (f_sqrt s))\<bar> * \<bar>f_units m\<bar> \<le> 5 * 2 ^ 147 * f_units m" using d(2) m(2) by (simp add: mult_right_mono)
  also have "\<dots> \<le> f_units b * 2 ^ 149" using b(2) by simp
  finally show ?thesis using mul_bounded [OF d(1) m(1) b(1)] by (simp add: f_within_def)
qed

lemma vec_simps [simp]: "vx (vec x y) = x" "vy (vec x y) = y"
  by (simp_all add: vec_def)

lemma vec_clamped_bounded:
  assumes v: "f_within (vx a) (2 ^ 191)" "f_within (vy a) (2 ^ 191)"
    and m: "f_finite m" "2 ^ 109 \<le> f_units m" "f_units m \<le> 2 ^ 190"
    and b: "f_finite b" "5 * f_units m \<le> 4 * f_units b"
  shows "f_within (vx (vec_clamped a m)) (f_units b)" and "f_within (vy (vec_clamped a m)) (f_units b)"
proof -
  note l = length_sq_bounds [OF v]
  have wm: "f_within m (2 ^ 190)" using m by (simp add: f_within_def)
  have mm: "f_finite (f_mul m m)" using within_mul [OF wm wm, of 231] by (simp add: f_within_def)
  obtain p where p: "f_finite p" "f_units p = 2 ^ 69" using power_of_two [of 69] by auto
  have "2 ^ 109 * 2 ^ 109 \<le> f_units m * f_units m" using m(2) by (intro mult_mono) simp_all
  then have "f_key p \<le> f_key (f_mul m m)" unfolding f_key_mul [OF m(1,1)] by (intro rkey_ge [OF p(1)]) (simp_all add: p(2))
  then have mlo: "2 ^ 69 \<le> f_units (f_mul m m)" using f_units_le_iff [of p "f_mul m m"] p(2) by simp
  have m0: "0 \<le> f_units m" using m(2) by simp
  have fin: "f_finite (vx a)" "f_finite (vy a)" using v by (simp_all add: f_within_def)
  show "f_within (vx (vec_clamped a m)) (f_units b)" and "f_within (vy (vec_clamped a m)) (f_units b)"
  proof (atomize (full), cases "f_le (length_sq a) (f_mul m m)")
    case True
    then have le: "f_units (length_sq a) \<le> f_units (f_mul m m)" using f_le_finite l(1) mm by simp
    have "8 * \<bar>f_units (vx a)\<bar> \<le> 9 * f_units m" and "8 * \<bar>f_units (vy a)\<bar> \<le> 9 * f_units m"
      using v l m m0 mm mlo le by (auto intro!: unclamped_coordinate [where s = "f_units (length_sq a)"] simp: f_within_def)
    with b m0 v True show "f_within (vx (vec_clamped a m)) (f_units b) \<and> f_within (vy (vec_clamped a m)) (f_units b)"
      by (simp add: vec_clamped_def f_within_def)
  next
    case False
    then have "f_units (f_mul m m) < f_units (length_sq a)" using f_le_finite l(1) mm by simp
    with mlo have s: "2 ^ 24 \<le> f_units (length_sq a)" by simp
    have "f_within (f_mul (f_div (vx a) (f_sqrt (length_sq a))) m) (f_units b)"
        "f_within (f_mul (f_div (vy a) (f_sqrt (length_sq a))) m) (f_units b)"
      using fin l m m0 b s by (simp_all add: clamped_coordinate)
    with False show "f_within (vx (vec_clamped a m)) (f_units b) \<and> f_within (vy (vec_clamped a m)) (f_units b)"
      by (simp add: vec_clamped_def Let_def)
  qed
qed

lemma direction_bounded:
  assumes "f_within x (2 ^ 149)" "f_within y (2 ^ 149)"
  defines "d \<equiv> (if f_lt f_one (length_sq (vec x y)) then vec_scale (vec x y) (f_div f_one (f_sqrt (length_sq (vec x y)))) else vec x y)"
  shows "f_within (vx d) (2 ^ 149)" and "f_within (vy d) (2 ^ 149)"
proof -
  have l: "f_finite (length_sq (vec x y))" by (rule length_sq_bounds(1) [of _ 149]) (use assms(1,2) in simp_all)
  show "f_within (vx d) (2 ^ 149)" and "f_within (vy d) (2 ^ 149)"
  proof (atomize (full), cases "f_lt f_one (length_sq (vec x y))")
    case True
    then have "2 ^ 149 \<le> f_units (length_sq (vec x y))" using f_lt_finite [OF f_one_units(1) l] by (simp add: f_one_units)
    then have "f_within (f_div f_one (f_sqrt (length_sq (vec x y)))) (2 ^ 149)"
      using f_sqrt_bounds [OF l] by (intro within_reciprocal) simp_all
    with True assms(1,2) show "f_within (vx d) (2 ^ 149) \<and> f_within (vy d) (2 ^ 149)"
      by (simp add: d_def vec_scale_def within_shrink)
  qed (use assms in \<open>simp add: d_def\<close>)
qed



section \<open>The invariant\<close>

text \<open>
  Parameters with magnitudes between \<open>2 ^ -40\<close> and \<open>2 ^ 40\<close>, a step of at most a second and an arena wider
  than a player.
\<close>

definition movement_ok :: "world_params \<Rightarrow> f32 \<Rightarrow> bool" where
  "movement_ok p dt \<longleftrightarrow>
     f_finite (wp_size p) \<and> f_finite (wp_acceleration p) \<and> f_finite (wp_max_speed p) \<and> f_finite (wp_friction p) \<and>
     f_finite (wp_player_radius p) \<and> f_finite (f_sub (wp_size p) (wp_player_radius p)) \<and> f_finite dt \<and>
     \<bar>f_units (wp_acceleration p)\<bar> \<le> 2 ^ 189 \<and> 2 ^ 109 \<le> f_units (wp_max_speed p) \<and> f_units (wp_max_speed p) \<le> 2 ^ 189 \<and>
     0 \<le> f_units (wp_friction p) \<and> f_units (wp_friction p) \<le> 2 ^ 189 \<and> 0 \<le> f_units dt \<and> f_units dt \<le> 2 ^ 149 \<and>
     f_units (wp_player_radius p) \<le> f_units (f_sub (wp_size p) (wp_player_radius p))"

definition input_ok :: "move_input \<Rightarrow> bool" where
  "input_ok i \<longleftrightarrow> f_within (mi_move_x i) (2 ^ 149) \<and> f_within (mi_move_y i) (2 ^ 149)"

definition in_arena :: "world_params \<Rightarrow> vec2 \<Rightarrow> bool" where
  "in_arena p v \<longleftrightarrow> (let low = wp_player_radius p; high = f_sub (wp_size p) (wp_player_radius p)
     in f_finite (vx v) \<and> f_le low (vx v) \<and> f_le (vx v) high \<and> f_finite (vy v) \<and> f_le low (vy v) \<and> f_le (vy v) high)"

definition speed_ok :: "world_params \<Rightarrow> vec2 \<Rightarrow> bool" where
  "speed_ok p v \<longleftrightarrow> f_within (vx v) (2 * f_units (wp_max_speed p)) \<and> f_within (vy v) (2 * f_units (wp_max_speed p))"

lemma stop_at_walls_bounded:
  assumes "\<not> f_isnan x" and "f_finite low" and "f_finite high" and "f_units low \<le> f_units high" and "f_within v b" and "0 \<le> b"
  shows "stop_at_walls low high x v = (fst (stop_at_walls low high x v), snd (stop_at_walls low high x v))"
    and "f_finite (fst (stop_at_walls low high x v))" and "f_le low (fst (stop_at_walls low high x v))"
    and "f_le (fst (stop_at_walls low high x v)) high" and "f_within (snd (stop_at_walls low high x v)) b"
proof -
  have c: "fst (stop_at_walls low high x v) = clampf x low high" by (simp add: stop_at_walls_def clampf_def)
  note b = clampf_between [OF assms(1-4)]
  show "f_finite (fst (stop_at_walls low high x v))" "f_le low (fst (stop_at_walls low high x v))"
      "f_le (fst (stop_at_walls low high x v)) high"
    unfolding c using b assms(2,3) by (simp_all add: f_le_finite)
  show "f_within (snd (stop_at_walls low high x v)) b"
    using assms(5,6) by (simp add: stop_at_walls_def f_within_def zero_units)
qed simp

lemma damping_bounded:
  assumes "movement_ok p dt"
  shows "f_within (f_div f_one (f_add f_one (f_mul (wp_friction p) dt))) (2 ^ 149)"
proof -
  have f: "f_within (wp_friction p) (2 ^ 189)" "f_within dt (2 ^ 149)" and nn: "0 \<le> f_units (wp_friction p) * f_units dt"
    using assms by (simp_all add: movement_ok_def f_within_def)
  have fd: "f_within (f_mul (wp_friction p) dt) (2 ^ 189)" by (rule within_shrink [OF f])
  have "0 \<le> f_units (f_mul (wp_friction p) dt)" using mul_nonneg nn f by (simp add: f_units_nonneg_iff f_within_def)
  then have "f_key f_one \<le> f_key (f_add f_one (f_mul (wp_friction p) dt))"
    using fd f_one_units by (simp add: f_key_add f_within_def rkey_ge)
  moreover have "f_within f_one (2 ^ 149)" using f_one_units by (simp add: f_within_def)
  from within_add [OF this fd, of 190] have "f_finite (f_add f_one (f_mul (wp_friction p) dt))" by (simp add: f_within_def)
  ultimately show ?thesis using f_one_units f_units_le_iff [of f_one] by (intro within_reciprocal) simp_all
qed

lemma sprint_speed:
  fixes sprint :: bool
  assumes p: "movement_ok p dt"
  defines "c \<equiv> (if sprint then 0x3fc00000 else f_one)"
  shows "f_finite (f_mul (wp_max_speed p) c)" and "2 ^ 109 \<le> f_units (f_mul (wp_max_speed p) c)"
    and "f_units (f_mul (wp_max_speed p) c) \<le> 2 ^ 190"
    and "5 * f_units (f_mul (wp_max_speed p) c) \<le> 8 * f_units (wp_max_speed p)"
proof -
  let ?M = "f_units (wp_max_speed p)" and ?m = "f_mul (wp_max_speed p) c"
  have M: "f_finite (wp_max_speed p)" "2 ^ 109 \<le> ?M" "?M \<le> 2 ^ 189" using p by (simp_all add: movement_ok_def)
  have "f_finite 0x3fc00000" "f_units 0x3fc00000 = 3 * 2 ^ 148" by code_simp+
  then have c: "f_finite c" "2 * 2 ^ 148 \<le> f_units c" "f_units c \<le> 3 * 2 ^ 148" using f_one_units by (simp_all add: c_def)
  have w: "f_within (wp_max_speed p) (2 ^ 189)" "f_within c (2 ^ 150)" using M c by (simp_all add: f_within_def)
  then have "f_within ?m (2 ^ 190)" by (rule within_mul) simp_all
  then show f: "f_finite ?m" and "f_units ?m \<le> 2 ^ 190" by (auto simp: f_within_def abs_le_iff)
  have k: "f_key ?m = rkey (?M * f_units c) (2 ^ 149)" by (rule f_key_mul [OF M(1) c(1)])
  have lo: "?M * 2 ^ 149 \<le> ?M * f_units c" using M c by (intro mult_left_mono) simp_all
  have "f_key (wp_max_speed p) \<le> f_key ?m" unfolding k using lo by (intro rkey_ge [OF M(1)]) simp_all
  then have "?M \<le> f_units ?m" by (simp add: f_units_le_iff)
  with M(2) show "2 ^ 109 \<le> f_units ?m" by simp
  have hi: "?M * f_units c \<le> ?M * (3 * 2 ^ 148)" using M c by (intro mult_left_mono) simp_all
  define x where "x = real_of_int (?M * f_units c) / real_of_int (2 ^ 149)"
  define B where "B = 3 / 2 * real_of_int ?M"
  have "real_of_int (?M * f_units c) \<le> real_of_int (?M * (3 * 2 ^ 148))" "0 \<le> real_of_int (?M * f_units c)"
    using hi M c by (simp_all only: of_int_le_iff of_int_0_le_iff) simp_all
  then have x: "\<bar>x\<bar> \<le> B" "x \<le> B" by (simp_all add: x_def B_def mult.commute)
  have "2 ^ 109 \<le> real_of_int ?M" using M(2) by simp
  then have B: "2 ^ 23 \<le> B" by (simp add: B_def)
  have "\<bar>real_of_int (f_units ?m) - x\<bar> \<le> B / 2 ^ 24"
    unfolding x_def by (rule rounded_error [OF k _ f x(1) [unfolded x_def] B]) simp
  from abs_le_D1 [OF this] x(2) have "real_of_int (f_units ?m) \<le> B + B / 2 ^ 24" by linarith
  then have "real_of_int (f_units ?m) \<le> 8 / 5 * real_of_int ?M" using B unfolding B_def by simp
  then show "5 * f_units ?m \<le> 8 * ?M" by linarith
qed

text \<open>The velocity before it is clamped.\<close>

definition steered :: "move_input \<Rightarrow> vec2" where
  "steered i = (let d = vec (mi_move_x i) (mi_move_y i)
     in if f_lt f_one (length_sq d) then vec_scale d (f_div f_one (f_sqrt (length_sq d))) else d)"

definition pushed :: "world_params \<Rightarrow> f32 \<Rightarrow> move_input \<Rightarrow> vec2 \<Rightarrow> vec2" where
  "pushed p dt i v = vec_scale (vec_add v (vec_scale (steered i)
       (f_mul (f_mul (wp_acceleration p) (if mi_sprint i then 0x3fcccccd else f_one)) dt)))
     (f_div f_one (f_add f_one (f_mul (wp_friction p) dt)))"

lemma pushed_bounded:
  assumes p: "movement_ok p dt" and i: "input_ok i" and v: "speed_ok p v"
  shows "f_within (vx (pushed p dt i v)) (2 ^ 191)" and "f_within (vy (pushed p dt i v)) (2 ^ 191)"
proof -
  have P: "f_units (wp_max_speed p) \<le> 2 ^ 189" "f_within (wp_acceleration p) (2 ^ 189)" "f_within dt (2 ^ 149)"
    using p by (simp_all add: movement_ok_def f_within_def)
  have dir: "f_within (vx (steered i)) (2 ^ 149)" "f_within (vy (steered i)) (2 ^ 149)"
    unfolding steered_def Let_def by (rule direction_bounded; use i in \<open>simp add: input_ok_def\<close>)+
  define adt where "adt = f_mul (f_mul (wp_acceleration p) (if mi_sprint i then 0x3fcccccd else f_one)) dt"
  have "f_within 0x3fcccccd (2 ^ 150)" "f_within f_one (2 ^ 150)" unfolding f_within_def f_one_def by code_simp+
  then have "f_within (f_mul (wp_acceleration p) (if mi_sprint i then 0x3fcccccd else f_one)) (2 ^ 190)"
    by (intro within_mul [OF P(2), of _ "2 ^ 150"]) simp_all
  then have adt: "f_within adt (2 ^ 190)" unfolding adt_def by (rule within_shrink [OF _ P(3)])
  have kick: "f_within (f_mul d adt) (2 ^ 190)" if "f_within d (2 ^ 149)" for d
    by (rule within_mul [OF that adt]) simp_all
  have old: "f_within (vx v) (2 ^ 190)" "f_within (vy v) (2 ^ 190)" using v P(1) by (auto simp: speed_ok_def intro: within_mono)
  have sum: "f_within (f_add u (f_mul d adt)) (2 ^ 191)" if "f_within u (2 ^ 190)" "f_within d (2 ^ 149)" for u d
    by (rule within_add [OF that(1) kick [OF that(2)]]) simp_all
  show "f_within (vx (pushed p dt i v)) (2 ^ 191)" and "f_within (vy (pushed p dt i v)) (2 ^ 191)"
    unfolding pushed_def adt_def [symmetric] vec_scale_def vec_add_def vec_simps
    using within_shrink [OF sum [OF old(1) dir(1)] damping_bounded [OF p]]
      within_shrink [OF sum [OF old(2) dir(2)] damping_bounded [OF p]] .
qed

lemma step_movement_bounded:
  assumes p: "movement_ok p dt" and i: "input_ok i"
    and pos: "f_finite (vx (ms_position s))" "f_finite (vy (ms_position s))" and v: "speed_ok p (ms_velocity s)"
  shows "in_arena p (ms_position (step_movement s i p dt)) \<and> speed_ok p (ms_velocity (step_movement s i p dt))"
proof -
  let ?M = "f_units (wp_max_speed p)" and ?walls = "stop_at_walls (wp_player_radius p) (f_sub (wp_size p) (wp_player_radius p))"
  have P: "f_finite (wp_max_speed p)" "2 ^ 109 \<le> ?M" "?M \<le> 2 ^ 189" "f_within dt (2 ^ 149)"
    using p by (simp_all add: movement_ok_def f_within_def)
  obtain b where b: "f_finite b" "f_units b = 2 * ?M" by (rule double_representable [OF P(1)]) (use P in simp_all)
  define ms where "ms = f_mul (wp_max_speed p) (if mi_sprint i then 0x3fc00000 else f_one)"
  note ms = sprint_speed [OF p, of "mi_sprint i", folded ms_def]
  define w where "w = vec_clamped (pushed p dt i (ms_velocity s)) ms"
  have w: "f_within (vx w) (2 * ?M)" "f_within (vy w) (2 * ?M)"
    using vec_clamped_bounded [OF pushed_bounded [OF p i v] ms(1-3) b(1), folded w_def] ms(4) by (simp_all add: b(2))
  define q where "q = vec_add (ms_position s) (vec_scale w dt)"
  have q: "\<not> f_isnan (vx q)" "\<not> f_isnan (vy q)"
    using within_shrink [OF w(1) P(4)] within_shrink [OF w(2) P(4)] pos
    by (simp_all add: q_def vec_add_def vec_scale_def f_within_def f_not_nan_add)
  have wall: "f_finite (wp_player_radius p)" "f_finite (f_sub (wp_size p) (wp_player_radius p))"
      "f_units (wp_player_radius p) \<le> f_units (f_sub (wp_size p) (wp_player_radius p))" "0 \<le> 2 * ?M"
    using p by (simp_all add: movement_ok_def)
  note X = stop_at_walls_bounded [OF q(1) wall(1-3) w(1) wall(4)] and Y = stop_at_walls_bounded [OF q(2) wall(1-3) w(2) wall(4)]
  have "step_movement s i p dt =
      \<lparr>ms_position = vec (fst (?walls (vx q) (vx w))) (fst (?walls (vy q) (vy w))),
       ms_velocity = vec (snd (?walls (vx q) (vx w))) (snd (?walls (vy q) (vy w)))\<rparr>"
    unfolding step_movement_def Let_def q_def w_def ms_def pushed_def steered_def by (simp add: case_prod_beta)
  with X(2-5) Y(2-5) show ?thesis by (simp add: in_arena_def speed_ok_def Let_def)
qed

text \<open>
  The movement integrator. From a state inside the arena with a velocity inside the range of the
  velocity quantizer (twice the maximal speed per axis), any sequence of inputs with axes between -1 and 1
  leads through \<open>step_movement\<close> to states that are again inside the arena and inside that range: no
  overflow, NaN or infinity appears, and the walls are never crossed, sprinting or not.
\<close>

theorem movement_stays_in_arena:
  assumes "movement_ok p dt" and "\<forall>i\<in>set inputs. input_ok i" and "in_arena p (ms_position s)" and "speed_ok p (ms_velocity s)"
  shows "in_arena p (ms_position (foldl (\<lambda>st i. step_movement st i p dt) s inputs)) \<and>
    speed_ok p (ms_velocity (foldl (\<lambda>st i. step_movement st i p dt) s inputs))"
  using assms(2-4)
proof (induction inputs arbitrary: s)
  case (Cons i rest)
  have "f_finite (vx (ms_position s))" "f_finite (vy (ms_position s))" using Cons.prems(2) by (simp_all add: in_arena_def Let_def)
  from step_movement_bounded [OF assms(1) _ this Cons.prems(3)] Cons show ?case by simp
qed simp

text \<open>The default parameters, from the middle of the arena, one tick of sprinting into a corner.\<close>

theorem movement_stays_in_arena_witness:
  "in_arena mk_world_params (ms_position (foldl (\<lambda>st i. step_movement st i mk_world_params (tick_dt mk_world_params))
     \<lparr>ms_position = vec 0x44800000 0x44800000, ms_velocity = vec 0 0\<rparr>
     [\<lparr>mi_sequence = 1, mi_tick = 0, mi_move_x = f_one, mi_move_y = f_one, mi_sprint = True\<rparr>])) \<and>
   speed_ok mk_world_params (ms_velocity (foldl (\<lambda>st i. step_movement st i mk_world_params (tick_dt mk_world_params))
     \<lparr>ms_position = vec 0x44800000 0x44800000, ms_velocity = vec 0 0\<rparr>
     [\<lparr>mi_sequence = 1, mi_tick = 0, mi_move_x = f_one, mi_move_y = f_one, mi_sprint = True\<rparr>]))"
proof -
  have "movement_ok mk_world_params (tick_dt mk_world_params)" by code_simp
  moreover have "\<forall>i\<in>set [\<lparr>mi_sequence = 1, mi_tick = 0, mi_move_x = f_one, mi_move_y = f_one, mi_sprint = True\<rparr>]. input_ok i" by code_simp
  moreover have "in_arena mk_world_params (ms_position \<lparr>ms_position = vec 0x44800000 0x44800000, ms_velocity = vec 0 0\<rparr>)" by code_simp
  moreover have "speed_ok mk_world_params (ms_velocity \<lparr>ms_position = vec 0x44800000 0x44800000, ms_velocity = vec 0 0\<rparr>)" by code_simp
  ultimately show ?thesis by (rule movement_stays_in_arena)
qed

end
