(* ===== verification/Entity_Store.thy ===== *)
theory Entity_Store
  imports Movement
begin

text \<open>
  \<open>EntityStore\<close> of \<open>sim/world.h\<close> and \<open>sim/world.cpp\<close>: one list per column and the index of each entity.
  The theorem at the end is the refinement of a map from entities to their attributes, for the
  swap-and-pop removal in particular. Under the invariant every index that the code uses is in range.
\<close>

section \<open>The operations\<close>

type_synonym entity_id = u32
type_synonym client_id = u32

datatype entity_kind = kPlayer | kDrifter

primrec entity_kind_code :: "entity_kind \<Rightarrow> u8" where
  "entity_kind_code kPlayer = 0"
| "entity_kind_code kDrifter = 1"

record entity_store =
  es_id :: "entity_id list"
  es_position :: "vec2 list"
  es_velocity :: "vec2 list"
  es_kind :: "u8 list"
  es_owner :: "client_id list"
  es_last_input_sequence :: "u32 list"
  es_ai_seed :: "u32 list"
  es_index_of :: "entity_id \<rightharpoonup> u32"

definition es_empty :: entity_store where
  "es_empty = \<lparr>es_id = [], es_position = [], es_velocity = [], es_kind = [], es_owner = [], es_last_input_sequence = [],
     es_ai_seed = [], es_index_of = Map.empty\<rparr>"

definition hash_u32 :: "u32 \<Rightarrow> u32" where
  "hash_u32 x =
     (let x = x XOR drop_bit 16 x;
          x = x * 0x7feb352d;
          x = x XOR drop_bit 15 x;
          x = x * 0x846ca68b
      in x XOR drop_bit 16 x)"

definition es_size :: "entity_store \<Rightarrow> u32" where
  "es_size s = word_of_nat (length (es_id s))"

definition es_add :: "entity_id \<Rightarrow> entity_kind \<Rightarrow> vec2 \<Rightarrow> client_id \<Rightarrow> entity_store \<Rightarrow> u32 \<times> entity_store" where
  "es_add entity kind start client s =
     (let index = es_size s
      in (index, \<lparr>es_id = es_id s @ [entity], es_position = es_position s @ [start], es_velocity = es_velocity s @ [vec 0 0],
           es_kind = es_kind s @ [entity_kind_code kind], es_owner = es_owner s @ [client],
           es_last_input_sequence = es_last_input_sequence s @ [0],
           es_ai_seed = es_ai_seed s @ [hash_u32 (entity * 2654435761)],
           es_index_of = (es_index_of s)(entity \<mapsto> index)\<rparr>))"

text \<open>One column of the removal: the last element takes the freed place unless it is the one removed.\<close>

definition swap_pop :: "nat \<Rightarrow> 'a list \<Rightarrow> 'a list" where
  "swap_pop index xs =
     (let l = length xs - 1
      in butlast (if index \<noteq> l then xs[index := xs ! l] else xs))"

definition es_remove :: "entity_id \<Rightarrow> entity_store \<Rightarrow> bool \<times> entity_store" where
  "es_remove entity s =
     (case es_index_of s entity of
        None \<Rightarrow> (False, s)
      | Some i \<Rightarrow>
          let index = unat i; l = length (es_id s) - 1;
              moved = (if index \<noteq> l then (es_index_of s)(es_id s ! l \<mapsto> i) else es_index_of s)
          in (True, \<lparr>es_id = swap_pop index (es_id s), es_position = swap_pop index (es_position s),
               es_velocity = swap_pop index (es_velocity s), es_kind = swap_pop index (es_kind s),
               es_owner = swap_pop index (es_owner s), es_last_input_sequence = swap_pop index (es_last_input_sequence s),
               es_ai_seed = swap_pop index (es_ai_seed s), es_index_of = moved(entity := None)\<rparr>))"

definition es_find :: "entity_store \<Rightarrow> entity_id \<Rightarrow> int" where
  "es_find s entity = (case es_index_of s entity of None \<Rightarrow> -1 | Some i \<Rightarrow> uint i)"

definition es_clear :: "entity_store \<Rightarrow> entity_store" where
  "es_clear s = es_empty"


section \<open>A directory of entities\<close>

text \<open>
  What the rest of the program relies on: a partial map that additions of new keys extend and removals
  restrict, whatever the representation.
\<close>

locale directory =
  fixes ok :: "'s \<Rightarrow> bool" and view :: "'s \<Rightarrow> 'k \<rightharpoonup> 'v" and room :: "'s \<Rightarrow> nat"
    and insert_fresh :: "'k \<Rightarrow> 'a \<Rightarrow> 's \<Rightarrow> 's" and erase :: "'k \<Rightarrow> 's \<Rightarrow> 's" and fresh :: "'k \<Rightarrow> 'a \<Rightarrow> 'v"
  assumes insert_law: "ok s \<Longrightarrow> view s k = None \<Longrightarrow> 0 < room s \<Longrightarrow>
      ok (insert_fresh k a s) \<and> view (insert_fresh k a s) = (view s)(k \<mapsto> fresh k a) \<and> room (insert_fresh k a s) + 1 = room s"
    and erase_law: "ok s \<Longrightarrow> ok (erase k s) \<and> view (erase k s) = (view s)(k := None) \<and>
      room (erase k s) = room s + (if view s k = None then 0 else 1)"
begin

lemma insert_erase: "ok s \<Longrightarrow> view s k = None \<Longrightarrow> 0 < room s \<Longrightarrow> view (erase k (insert_fresh k a s)) = view s"
  using insert_law [of s k a] erase_law [of "insert_fresh k a s" k] by (simp add: fun_upd_idem)

lemma erase_idem: "ok s \<Longrightarrow> view (erase k (erase k s)) = view (erase k s)"
  using erase_law [of s k] erase_law [of "erase k s" k] by simp

lemma erase_commute: "ok s \<Longrightarrow> view (erase j (erase k s)) = view (erase k (erase j s))"
  using erase_law [of s k] erase_law [of s j] erase_law [of "erase k s" j] erase_law [of "erase j s" k] by (simp add: fun_eq_iff)

end


section \<open>The store is a directory\<close>

record entity =
  e_position :: vec2
  e_velocity :: vec2
  e_kind :: u8
  e_owner :: client_id
  e_last_input_sequence :: u32
  e_ai_seed :: u32

definition es_wf :: "entity_store \<Rightarrow> bool" where
  "es_wf s \<longleftrightarrow>
     length (es_position s) = length (es_id s) \<and> length (es_velocity s) = length (es_id s) \<and>
     length (es_kind s) = length (es_id s) \<and> length (es_owner s) = length (es_id s) \<and>
     length (es_last_input_sequence s) = length (es_id s) \<and> length (es_ai_seed s) = length (es_id s) \<and>
     length (es_id s) < 2 ^ 32 \<and> distinct (es_id s) \<and>
     (\<forall>e i. es_index_of s e = Some i \<longleftrightarrow> unat i < length (es_id s) \<and> es_id s ! unat i = e)"

definition entity_row :: "entity_store \<Rightarrow> nat \<Rightarrow> entity" where
  "entity_row s i = \<lparr>e_position = es_position s ! i, e_velocity = es_velocity s ! i, e_kind = es_kind s ! i,
     e_owner = es_owner s ! i, e_last_input_sequence = es_last_input_sequence s ! i, e_ai_seed = es_ai_seed s ! i\<rparr>"

definition es_view :: "entity_store \<Rightarrow> entity_id \<rightharpoonup> entity" where
  "es_view s e = map_option (\<lambda>i. entity_row s (unat i)) (es_index_of s e)"

definition es_room :: "entity_store \<Rightarrow> nat" where
  "es_room s = 2 ^ 32 - 1 - length (es_id s)"

lemma es_wf_index: "es_wf s \<Longrightarrow> es_index_of s e = Some i \<longleftrightarrow> unat i < length (es_id s) \<and> es_id s ! unat i = e"
  by (simp add: es_wf_def)

lemma es_wf_indexD: "es_wf s \<Longrightarrow> es_index_of s e = Some i \<Longrightarrow> unat i < length (es_id s) \<and> es_id s ! unat i = e"
  by (simp add: es_wf_def)

lemma es_wf_empty: "es_wf es_empty"
  by (simp add: es_wf_def es_empty_def)

lemma es_index_nth: "es_wf s \<Longrightarrow> i < length (es_id s) \<Longrightarrow> es_index_of s (es_id s ! i) = Some (word_of_nat i)"
  by (simp add: es_wf_def unat_of_nat_less)

lemma es_index_none: "es_wf s \<Longrightarrow> es_index_of s e = None \<longleftrightarrow> e \<notin> set (es_id s)"
  using es_index_nth [of s] by (auto simp: in_set_conv_nth) (metis es_wf_indexD not_Some_eq)

lemma entity_row_append:
  "es_wf s \<Longrightarrow> i < length (es_id s) \<Longrightarrow> entity_row (snd (es_add e k p c s)) i = entity_row s i"
  by (simp add: entity_row_def es_add_def es_wf_def nth_append Let_def)

lemma es_add_law:
  assumes wf: "es_wf s" and new: "es_view s e = None" and room: "0 < es_room s"
  shows "es_wf (snd (es_add e k p c s))"
    and "es_view (snd (es_add e k p c s)) = (es_view s)(e \<mapsto> \<lparr>e_position = p, e_velocity = vec 0 0, e_kind = entity_kind_code k,
      e_owner = c, e_last_input_sequence = 0, e_ai_seed = hash_u32 (e * 2654435761)\<rparr>)"
    and "es_room (snd (es_add e k p c s)) + 1 = es_room s"
proof -
  let ?n = "length (es_id s)" and ?t = "snd (es_add e k p c s)"
  have n: "?n + 1 < 2 ^ 32" using room by (simp add: es_room_def)
  have i: "unat (es_size s) = ?n" using n by (simp add: es_size_def unat_of_nat_less)
  have e: "es_index_of s e = None" "e \<notin> set (es_id s)" using new wf by (simp_all add: es_view_def es_index_none)
  have idx: "es_index_of ?t = (es_index_of s)(e \<mapsto> es_size s)" and ids: "es_id ?t = es_id s @ [e]" by (simp_all add: es_add_def Let_def)
  have "es_index_of ?t f = Some j \<longleftrightarrow> unat j < length (es_id ?t) \<and> es_id ?t ! unat j = f" for f j
  proof (cases "f = e")
    case True
    have "es_index_of ?t f = Some j \<longleftrightarrow> j = es_size s" unfolding idx True by auto
    also have "\<dots> \<longleftrightarrow> unat j = ?n" using i by (metis word_unat_eq_iff)
    also have "\<dots> \<longleftrightarrow> unat j < length (es_id ?t) \<and> es_id ?t ! unat j = f"
      using e(2) unfolding ids True by (auto simp: nth_append less_Suc_eq)
    finally show ?thesis .
  next
    case False
    then show ?thesis unfolding idx ids using es_wf_index [OF wf, of f j] by (auto simp: nth_append less_Suc_eq)
  qed
  then show wf': "es_wf ?t" using wf n e(2) unfolding es_wf_def ids by (simp add: es_add_def Let_def)
  show "es_room ?t + 1 = es_room s" using n by (simp add: es_room_def ids)
  show "es_view ?t = (es_view s)(e \<mapsto> \<lparr>e_position = p, e_velocity = vec 0 0, e_kind = entity_kind_code k,
      e_owner = c, e_last_input_sequence = 0, e_ai_seed = hash_u32 (e * 2654435761)\<rparr>)"
  proof
    fix f
    show "es_view ?t f = ((es_view s)(e \<mapsto> \<lparr>e_position = p, e_velocity = vec 0 0, e_kind = entity_kind_code k,
      e_owner = c, e_last_input_sequence = 0, e_ai_seed = hash_u32 (e * 2654435761)\<rparr>)) f"
    proof (cases "f = e")
      case True
      then show ?thesis using wf by (simp add: es_view_def idx i) (simp add: entity_row_def es_add_def es_wf_def nth_append Let_def)
    next
      case False
      then show ?thesis
        using entity_row_append [OF wf] es_wf_indexD [OF wf, of f] by (cases "es_index_of s f") (simp_all add: es_view_def idx)
    qed
  qed
qed

text \<open>After a removal at \<open>i\<close> the row \<open>j\<close> comes from row \<open>src i n j\<close>.\<close>

definition src :: "nat \<Rightarrow> nat \<Rightarrow> nat \<Rightarrow> nat" where
  "src i n j = (if j = i then n - 1 else j)"

lemma swap_pop_rows:
  assumes "i < length xs"
  shows "length (swap_pop i xs) = length xs - 1" and "j < length xs - 1 \<Longrightarrow> swap_pop i xs ! j = xs ! src i (length xs) j"
  using assms by (auto simp: swap_pop_def src_def Let_def nth_butlast nth_list_update)

lemma src_props:
  assumes "i < n" and "j < n - 1"
  shows "src i n j < n" and "src i n j \<noteq> i" and "k < n - 1 \<Longrightarrow> src i n j = src i n k \<Longrightarrow> j = k"
    and "i \<noteq> n - 1 \<Longrightarrow> src i n j = n - 1 \<longleftrightarrow> j = i"
  using assms by (auto simp: src_def split: if_splits)

lemma src_onto: "i < n \<Longrightarrow> m < n \<Longrightarrow> m \<noteq> i \<Longrightarrow> \<exists>j < n - 1. src i n j = m"
  by (cases "m = n - 1") (auto simp: src_def intro!: exI [of _ "if m = n - 1 then i else m"])

lemma es_remove_some:
  assumes wf: "es_wf s" and e: "es_index_of s e = Some i"
  shows "fst (es_remove e s)" and "es_wf (snd (es_remove e s))" and "es_view (snd (es_remove e s)) = (es_view s)(e := None)"
    and "length (es_id (snd (es_remove e s))) + 1 = length (es_id s)"
proof -
  let ?n = "length (es_id s)" and ?i = "unat i" and ?t = "snd (es_remove e s)"
  have i: "?i < ?n" "es_id s ! ?i = e" using es_wf_indexD [OF wf e] by simp_all
  have cols: "length (es_position s) = ?n" "length (es_velocity s) = ?n" "length (es_kind s) = ?n" "length (es_owner s) = ?n"
      "length (es_last_input_sequence s) = ?n" "length (es_ai_seed s) = ?n" "?n < 2 ^ 32" "distinct (es_id s)"
    using wf by (simp_all add: es_wf_def)
  have ids: "es_id ?t = swap_pop ?i (es_id s)" by (simp add: es_remove_def e Let_def)
  show "fst (es_remove e s)" by (simp add: es_remove_def e Let_def)
  have len: "length (es_id ?t) = ?n - 1" unfolding ids by (rule swap_pop_rows(1) [OF i(1)])
  then show "length (es_id ?t) + 1 = ?n" using i(1) by simp
  have row: "entity_row ?t j = entity_row s (src ?i ?n j)" if "j < ?n - 1" for j
    using that i(1) cols by (simp add: entity_row_def es_remove_def e Let_def swap_pop_rows(2))
  have id: "es_id ?t ! j = es_id s ! src ?i ?n j" if "j < ?n - 1" for j unfolding ids by (rule swap_pop_rows(2) [OF i(1) that])
  have idx: "es_index_of ?t = (if ?i \<noteq> ?n - 1 then (es_index_of s)(es_id s ! (?n - 1) \<mapsto> i) else es_index_of s)(e := None)"
    by (simp add: es_remove_def e Let_def)
  have inj: "es_id s ! a = es_id s ! b \<longleftrightarrow> a = b" if "a < ?n" "b < ?n" for a b using nth_eq_iff_index_eq [OF cols(8) that] .
  have dist: "distinct (es_id ?t)"
    unfolding distinct_conv_nth len using id inj src_props [OF i(1)] by metis
  have index: "es_index_of ?t f = Some j \<longleftrightarrow> unat j < ?n - 1 \<and> es_id s ! src ?i ?n (unat j) = f" for f j
  proof (cases "f = e")
    case True
    have False if "unat j < ?n - 1" "es_id s ! src ?i ?n (unat j) = e"
      using inj [OF src_props(1) [OF i(1) that(1)] i(1)] that(2) i(2) src_props(2) [OF i(1) that(1)] by simp
    with True show ?thesis by (auto simp: idx)
  next
    case ne: False
    show ?thesis
    proof (cases "?i \<noteq> ?n - 1 \<and> f = es_id s ! (?n - 1)")
      case True
      have "es_index_of ?t f = Some j \<longleftrightarrow> unat j = ?i" using True ne by (auto simp: idx word_unat_eq_iff)
      also have "\<dots> \<longleftrightarrow> unat j < ?n - 1 \<and> es_id s ! src ?i ?n (unat j) = f"
      proof
        assume "unat j = ?i"
        then show "unat j < ?n - 1 \<and> es_id s ! src ?i ?n (unat j) = f" using True i(1) by (auto simp: src_def)
      next
        assume a: "unat j < ?n - 1 \<and> es_id s ! src ?i ?n (unat j) = f"
        then have "src ?i ?n (unat j) = ?n - 1" using True inj [OF src_props(1) [OF i(1), of "unat j"], of "?n - 1"] i(1) by simp
        then show "unat j = ?i" using src_props(4) [OF i(1), of "unat j"] True a by simp
      qed
      finally show ?thesis .
    next
      case False
      then have "es_index_of ?t f = es_index_of s f" using ne by (auto simp: idx)
      also have "\<dots> = Some j \<longleftrightarrow> unat j < ?n \<and> es_id s ! unat j = f" by (rule es_wf_index [OF wf])
      also have "\<dots> \<longleftrightarrow> unat j < ?n - 1 \<and> es_id s ! src ?i ?n (unat j) = f"
      proof
        assume a: "unat j < ?n \<and> es_id s ! unat j = f"
        then have "unat j \<noteq> ?i" using i(2) ne by auto
        moreover have "unat j \<noteq> ?n - 1" using a False i(2) ne calculation by auto
        ultimately show "unat j < ?n - 1 \<and> es_id s ! src ?i ?n (unat j) = f" using a by (auto simp: src_def)
      next
        assume a: "unat j < ?n - 1 \<and> es_id s ! src ?i ?n (unat j) = f"
        have "unat j \<noteq> ?i"
        proof
          assume "unat j = ?i"
          with a have "f = es_id s ! (?n - 1)" "?i \<noteq> ?n - 1" by (simp_all add: src_def)
          with False show False by simp
        qed
        with a show "unat j < ?n \<and> es_id s ! unat j = f" by (auto simp: src_def)
      qed
      finally show ?thesis .
    qed
  qed
  have "es_index_of ?t f = Some j \<longleftrightarrow> unat j < length (es_id ?t) \<and> es_id ?t ! unat j = f" for f j
    unfolding index len using id by auto
  then show "es_wf ?t" using cols dist len unfolding es_wf_def by (simp add: es_remove_def e Let_def swap_pop_rows(1) i(1))
  show "es_view ?t = (es_view s)(e := None)"
  proof
    fix f
    show "es_view ?t f = ((es_view s)(e := None)) f"
    proof (cases "es_index_of ?t f")
      case None
      have "es_index_of s f = None" if "f \<noteq> e"
      proof (rule ccontr)
        assume "es_index_of s f \<noteq> None"
        then obtain m where m: "es_index_of s f = Some m" by blast
        with es_wf_indexD [OF wf] have mb: "unat m < ?n" "es_id s ! unat m = f" by blast+
        then have "unat m \<noteq> ?i" using that i(2) by auto
        then obtain j where j: "j < ?n - 1" "src ?i ?n j = unat m" using src_onto [OF i(1) mb(1)] by blast
        have "unat (word_of_nat j :: u32) = j" using j(1) cols(7) by (simp add: unat_of_nat_less)
        then have "es_index_of ?t f = Some (word_of_nat j)" unfolding index using j mb(2) by simp
        with None show False by simp
      qed
      then show ?thesis using None by (simp add: es_view_def)
    next
      case (Some j)
      then have j: "unat j < ?n - 1" "es_id s ! src ?i ?n (unat j) = f" unfolding index by blast+
      let ?m = "src ?i ?n (unat j)"
      have m: "?m < ?n" "?m \<noteq> ?i" using src_props [OF i(1) j(1)] by blast+
      have "f \<noteq> e" using inj [OF m(1) i(1)] m(2) j(2) i(2) by simp
      moreover have "unat (word_of_nat ?m :: u32) = ?m" using m(1) cols(7) by (simp add: unat_of_nat_less)
      moreover have "es_index_of s f = Some (word_of_nat ?m)" using es_index_nth [OF wf m(1)] j(2) by simp
      ultimately show ?thesis using Some row [OF j(1)] by (simp add: es_view_def)
    qed
  qed
qed

lemma es_remove_none: "es_index_of s e = None \<Longrightarrow> es_remove e s = (False, s)"
  by (simp add: es_remove_def)

interpretation es: directory es_wf es_view es_room "\<lambda>e (k, p, c) s. snd (es_add e k p c s)" "\<lambda>e s. snd (es_remove e s)"
  "\<lambda>e (k, p, c). \<lparr>e_position = p, e_velocity = vec 0 0, e_kind = entity_kind_code k, e_owner = c, e_last_input_sequence = 0,
     e_ai_seed = hash_u32 (e * 2654435761)\<rparr>"
proof (unfold_locales, goal_cases)
  case (1 s e a)
  then show ?case using es_add_law [of s e] by (cases a) fastforce
next
  case wf: (2 s e)
  show ?case
  proof (cases "es_index_of s e")
    case None
    then show ?thesis using wf by (simp add: es_remove_none es_view_def fun_upd_idem)
  next
    case (Some i)
    note r = es_remove_some [OF wf Some]
    moreover have "length (es_id s) < 2 ^ 32" using wf by (simp add: es_wf_def)
    ultimately show ?thesis using Some by (auto simp: es_view_def es_room_def)
  qed
qed


section \<open>The property\<close>

text \<open>
  C22: the entity store. On a well-formed store \<open>add\<close> of a new entity extends the map from entities to their
  attributes by exactly that entity, at the index it returns; \<open>remove\<close> succeeds exactly on the stored
  entities and takes away exactly that entity, every other one keeping its attributes although the last row
  moves; \<open>find\<close> gives the row of an entity or -1; and the store stays well-formed.
\<close>

theorem store_refines_map:
  assumes "es_wf s"
  shows "(es_view s e = None \<longrightarrow> 0 < es_room s \<longrightarrow>
      (case es_add e k p c s of (i, t) \<Rightarrow> es_wf t \<and> es_view t = (es_view s)(e \<mapsto> \<lparr>e_position = p, e_velocity = vec 0 0,
         e_kind = entity_kind_code k, e_owner = c, e_last_input_sequence = 0, e_ai_seed = hash_u32 (e * 2654435761)\<rparr>) \<and>
         es_find t e = uint i)) \<and>
    (case es_remove e s of (b, t) \<Rightarrow> es_wf t \<and> b = (es_view s e \<noteq> None) \<and> es_view t = (es_view s)(e := None)) \<and>
    es_view s e = (if es_find s e < 0 then None else Some (entity_row s (nat (es_find s e))))"
proof (intro conjI impI)
  assume a: "es_view s e = None" "0 < es_room s"
  have "es_find (snd (es_add e k p c s)) e = uint (fst (es_add e k p c s))" by (simp add: es_add_def es_find_def Let_def)
  with es_add_law [OF assms a] show "case es_add e k p c s of (i, t) \<Rightarrow> es_wf t \<and> es_view t = (es_view s)(e \<mapsto> \<lparr>e_position = p,
      e_velocity = vec 0 0, e_kind = entity_kind_code k, e_owner = c, e_last_input_sequence = 0, e_ai_seed = hash_u32 (e * 2654435761)\<rparr>) \<and>
      es_find t e = uint i" by (simp add: case_prod_beta)
next
  have "fst (es_remove e s) = (es_view s e \<noteq> None)"
    using es_remove_some(1) [OF assms] by (cases "es_index_of s e") (simp_all add: es_remove_none es_view_def)
  then show "case es_remove e s of (b, t) \<Rightarrow> es_wf t \<and> b = (es_view s e \<noteq> None) \<and> es_view t = (es_view s)(e := None)"
    using es.erase_law [OF assms] by (simp add: case_prod_beta)
next
  show "es_view s e = (if es_find s e < 0 then None else Some (entity_row s (nat (es_find s e))))"
    by (cases "es_index_of s e") (simp_all add: es_view_def es_find_def)
qed

theorem store_refines_map_witness:
  "es_view (snd (es_remove 5 (snd (es_add 7 kPlayer (vec 0 0) 1 (snd (es_add 5 kDrifter (vec 0 0) 0 es_empty)))))) 7 =
   Some \<lparr>e_position = vec 0 0, e_velocity = vec 0 0, e_kind = 0, e_owner = 1, e_last_input_sequence = 0, e_ai_seed = hash_u32 (7 * 2654435761)\<rparr>"
proof -
  let ?one = "snd (es_add 5 kDrifter (vec 0 0) 0 es_empty)" and ?two = "snd (es_add 7 kPlayer (vec 0 0) 1 (snd (es_add 5 kDrifter (vec 0 0) 0 es_empty)))"
  have e1: "es_view es_empty 5 = None" "0 < es_room es_empty" by (simp_all add: es_view_def es_empty_def es_room_def)
  have wf1: "es_wf ?one" using store_refines_map [OF es_wf_empty] e1 by (simp add: case_prod_beta)
  have e2: "es_view ?one 7 = None" "0 < es_room ?one"
    by (simp_all add: es_view_def es_add_def es_empty_def es_room_def Let_def)
  have two: "es_wf ?two \<and> es_view ?two = (es_view ?one)(7 \<mapsto> \<lparr>e_position = vec 0 0, e_velocity = vec 0 0, e_kind = 0, e_owner = 1,
      e_last_input_sequence = 0, e_ai_seed = hash_u32 (7 * 2654435761)\<rparr>)"
    using store_refines_map [OF wf1, where e = 7 and k = kPlayer and p = "vec 0 0" and c = 1] e2 by (simp add: case_prod_beta)
  then have "es_view (snd (es_remove 5 ?two)) = (es_view ?two)(5 := None)"
    using store_refines_map [of ?two 5] by (simp add: case_prod_beta)
  with two show ?thesis by simp
qed

end
