(* ===== verification/Morton_Code.thy ===== *)
theory Morton_Code
  imports Core_Types
begin

text \<open>
  The Z-order keys of \<open>spatial/morton.h\<close>: the bits of two 16-bit cell coordinates interleaved in one
  32-bit key by the shift-and-mask steps of the source, and what those steps compute bit by bit.
\<close>

section \<open>The operations\<close>

definition spread_bits :: "u16 \<Rightarrow> u32" where
  "spread_bits value =
     (let x = ucast value;
          x = (x OR push_bit 8 x) AND 0x00ff00ff;
          x = (x OR push_bit 4 x) AND 0x0f0f0f0f;
          x = (x OR push_bit 2 x) AND 0x33333333;
          x = (x OR push_bit 1 x) AND 0x55555555
      in x)"

definition compact_bits :: "u32 \<Rightarrow> u16" where
  "compact_bits value =
     (let x = value AND 0x55555555;
          x = (x OR drop_bit 1 x) AND 0x33333333;
          x = (x OR drop_bit 2 x) AND 0x0f0f0f0f;
          x = (x OR drop_bit 4 x) AND 0x00ff00ff;
          x = (x OR drop_bit 8 x) AND 0x0000ffff
      in ucast x)"

definition morton_encode :: "u16 \<Rightarrow> u16 \<Rightarrow> u32" where
  "morton_encode cell_x cell_y = spread_bits cell_x OR push_bit 1 (spread_bits cell_y)"

definition morton_decode :: "u32 \<Rightarrow> u16 \<times> u16" where
  "morton_decode code = (compact_bits code, compact_bits (drop_bit 1 code))"


section \<open>What they compute\<close>

lemma less_32_iff:
  "(n :: nat) < 32 \<longleftrightarrow> n \<in> {0, 1, 2, 3, 4, 5, 6, 7, 8, 9, 10, 11, 12, 13, 14, 15, 16, 17, 18, 19, 20, 21, 22, 23,
     24, 25, 26, 27, 28, 29, 30, 31}"
  by (simp only: insert_iff empty_iff) presburger

lemma no_bit_u16: "16 \<le> n \<Longrightarrow> \<not> bit (v :: u16) n"
  by (auto dest: bit_imp_le_length)

lemma bit_spread_bits: "bit (spread_bits v) n \<longleftrightarrow> even n \<and> bit v (n div 2)"
proof (cases "n < 32")
  case True
  then have n: "n \<in> {0, 1, 2, 3, 4, 5, 6, 7, 8, 9, 10, 11, 12, 13, 14, 15, 16, 17, 18, 19, 20, 21, 22, 23,
     24, 25, 26, 27, 28, 29, 30, 31}" by (simp only: less_32_iff)
  show ?thesis
    unfolding spread_bits_def Let_def bit_or_iff bit_and_iff bit_push_bit_iff unsigned_ucast_eq bit_unsigned_iff
    using n by (elim insertE; simp add: no_bit_u16)
next
  case False
  then have "\<not> bit (spread_bits v) n" and "\<not> bit v (n div 2)" by (auto dest: bit_imp_le_length)
  then show ?thesis by simp
qed

lemma no_bit_u32: "32 \<le> n \<Longrightarrow> \<not> bit (v :: u32) n"
  by (auto dest: bit_imp_le_length)

lemma bit_compact_bits: "bit (compact_bits v) n \<longleftrightarrow> n < 16 \<and> bit v (2 * n)"
proof (cases "n < 16")
  case True
  then have n: "n \<in> {0, 1, 2, 3, 4, 5, 6, 7, 8, 9, 10, 11, 12, 13, 14, 15}" by (simp only: insert_iff empty_iff) presburger
  show ?thesis
    unfolding compact_bits_def Let_def bit_or_iff bit_and_iff bit_drop_bit_eq o_def unsigned_ucast_eq bit_unsigned_iff
    using n by (elim insertE; simp add: no_bit_u32 numeral_2_eq_2)
next
  case False
  then show ?thesis by (simp add: no_bit_u16)
qed


lemma bit_morton_encode: "bit (morton_encode a b) n \<longleftrightarrow> (if even n then bit a (n div 2) else bit b (n div 2))"
proof -
  have "(n - 1) div 2 = n div 2" "1 \<le> n" "odd (n - 1) = False" if "odd n" using that by (auto elim: oddE)
  moreover have "even n \<Longrightarrow> 1 \<le> n \<Longrightarrow> odd (n - 1)" by (cases n) simp_all
  moreover have "n < 32" if "bit c (n div 2)" for c :: u16 using bit_imp_le_length [OF that] by simp
  ultimately show ?thesis
    unfolding morton_encode_def bit_or_iff bit_push_bit_iff bit_spread_bits possible_bit_word by auto
qed

section \<open>The properties\<close>

text \<open>
  \<open>morton_encode\<close> is a bijection between pairs of cell coordinates and 32-bit keys, with
  \<open>morton_decode\<close> as its inverse in both directions; the even bits of a key are the bits of the x
  coordinate and the odd bits those of the y coordinate.
\<close>

theorem morton_bijection:
  "morton_decode (morton_encode x y) = (x, y) \<and>
   (case morton_decode code of (cx, cy) \<Rightarrow> morton_encode cx cy) = code \<and>
   (\<forall>n. bit (morton_encode x y) (2 * n) = bit x n \<and> bit (morton_encode x y) (2 * n + 1) = bit y n)"
proof -
  have len: "n < 16" if "bit (c :: u16) n" for c n using bit_imp_le_length [OF that] by simp
  have 1: "morton_decode (morton_encode x y) = (x, y)"
    by (auto simp: morton_decode_def bit_eq_iff bit_compact_bits bit_morton_encode bit_drop_bit_eq dest: len)
  have "bit (morton_encode (compact_bits code) (compact_bits (drop_bit 1 code))) n = bit code n" if "n < 32" for n
    using that by (cases "even n") (auto simp: bit_morton_encode bit_compact_bits bit_drop_bit_eq elim: oddE)
  then have "morton_encode (compact_bits code) (compact_bits (drop_bit 1 code)) = code" by (intro bit_word_eqI) simp
  then have 2: "(case morton_decode code of (cx, cy) \<Rightarrow> morton_encode cx cy) = code"
    by (simp add: morton_decode_def)
  from 1 2 show ?thesis by (simp add: bit_morton_encode)
qed

text \<open>
  Keys preserve locality the way the grid relies on: of two cells with the same high coordinate bits, i.e.
  in the same aligned block of \<open>2 ^ k\<close> by \<open>2 ^ k\<close> cells, the keys share their high bits too, so a block is a
  contiguous interval of \<open>4 ^ k\<close> keys.
\<close>

theorem morton_blocks_contiguous:
  "drop_bit (2 * k) (morton_encode x y) = drop_bit (2 * k) (morton_encode x' y') \<longleftrightarrow>
   drop_bit k x = drop_bit k x' \<and> drop_bit k y = drop_bit k y'"
proof
  assume eq: "drop_bit (2 * k) (morton_encode x y) = drop_bit (2 * k) (morton_encode x' y')"
  have b: "bit (morton_encode x y) (2 * k + n) = bit (morton_encode x' y') (2 * k + n)" for n
    using arg_cong [OF eq, of "\<lambda>c. bit c n"] by (simp add: bit_drop_bit_eq)
  have "bit x (k + n) = bit x' (k + n)" "bit y (k + n) = bit y' (k + n)" for n
    using b [of "2 * n"] b [of "2 * n + 1"] by (simp_all add: bit_morton_encode)
  then show "drop_bit k x = drop_bit k x' \<and> drop_bit k y = drop_bit k y'" by (simp add: bit_eq_iff bit_drop_bit_eq)
next
  assume eq: "drop_bit k x = drop_bit k x' \<and> drop_bit k y = drop_bit k y'"
  have "bit x (k + n) = bit x' (k + n)" "bit y (k + n) = bit y' (k + n)" for n
    using arg_cong [OF conjunct1 [OF eq], of "\<lambda>c. bit c n"] arg_cong [OF conjunct2 [OF eq], of "\<lambda>c. bit c n"]
    by (simp_all add: bit_drop_bit_eq)
  then show "drop_bit (2 * k) (morton_encode x y) = drop_bit (2 * k) (morton_encode x' y')"
    by (auto simp: bit_eq_iff bit_drop_bit_eq bit_morton_encode elim!: oddE)
qed

end
