(* ===== verification/Counting_Sort.thy ===== *)
theory Counting_Sort
  imports Prelude
begin

text \<open>
  The combinatorics of a stable counting sort: \<open>n\<close> items with a cell number each. \<open>first_slot\<close> is where the
  items of a cell start, \<open>slot\<close> the final place of an item; the places are a permutation and the places of
  one cell, read in order, are the items of that cell in order.
\<close>

definition rank :: "(nat \<Rightarrow> bool) \<Rightarrow> nat \<Rightarrow> nat" where
  "rank P j = length (filter P [0..<j])"

definition first_slot :: "(nat \<Rightarrow> nat) \<Rightarrow> nat \<Rightarrow> nat \<Rightarrow> nat" where
  "first_slot code n c = rank (\<lambda>j. code j < c) n"

definition slot :: "(nat \<Rightarrow> nat) \<Rightarrow> nat \<Rightarrow> nat \<Rightarrow> nat" where
  "slot code n j = first_slot code n (code j) + rank (\<lambda>k. code k = code j) j"

definition members :: "(nat \<Rightarrow> nat) \<Rightarrow> nat \<Rightarrow> nat \<Rightarrow> nat list" where
  "members code n c = filter (\<lambda>j. code j = c) [0..<n]"

lemma rank_0 [simp]: "rank P 0 = 0"
  by (simp add: rank_def)

lemma rank_Suc: "rank P (Suc j) = rank P j + (if P j then 1 else 0)"
  by (simp add: rank_def)

lemma rank_mono: "i \<le> j \<Longrightarrow> rank P i \<le> rank P j"
  by (induction j rule: dec_induct) (auto simp: rank_Suc)

lemma rank_less: "P i \<Longrightarrow> i < j \<Longrightarrow> rank P i < rank P j"
  using rank_mono [of "Suc i" j P] by (simp add: rank_Suc)

lemma rank_le: "rank P n \<le> n"
  by (induction n) (simp_all add: rank_Suc)

lemma nth_filter_rank: "P j \<Longrightarrow> j < n \<Longrightarrow> filter P [0..<n] ! rank P j = j"
proof (induction n)
  case (Suc n)
  show ?case
  proof (cases "j = n")
    case True
    with Suc.prems show ?thesis by (simp add: rank_def nth_append)
  next
    case False
    with Suc.prems have j: "j < n" by simp
    have "rank P j < length (filter P [0..<n])" using rank_less [of P j n] Suc.prems(1) j by (simp add: rank_def)
    with Suc.IH [OF Suc.prems(1) j] show ?thesis by (simp add: nth_append)
  qed
qed simp

lemma filter_rank_ex: "m < rank P n \<Longrightarrow> \<exists>j<n. P j \<and> m = rank P j"
proof (induction n)
  case (Suc n)
  show ?case
  proof (cases "m < rank P n")
    case True
    with Suc.IH show ?thesis by (metis less_SucI)
  next
    case False
    with Suc.prems show ?thesis by (auto simp: rank_Suc split: if_splits)
  qed
qed simp

lemma first_slot_0 [simp]: "first_slot code n 0 = 0"
  by (simp add: first_slot_def rank_def)

lemma first_slot_Suc: "first_slot code n (Suc c) = first_slot code n c + rank (\<lambda>j. code j = c) n"
  unfolding first_slot_def by (induction n) (auto simp: rank_Suc less_Suc_eq)

lemma first_slot_mono: "c \<le> d \<Longrightarrow> first_slot code n c \<le> first_slot code n d"
  by (induction d rule: dec_induct) (auto simp: first_slot_Suc)

lemma first_slot_top: "(\<And>j. j < n \<Longrightarrow> code j < c) \<Longrightarrow> first_slot code n c = n"
  unfolding first_slot_def by (induction n) (auto simp: rank_Suc)

lemma length_members: "length (members code n c) = first_slot code n (Suc c) - first_slot code n c"
  by (simp add: members_def first_slot_Suc rank_def)

lemma slot_in_cell:
  assumes "j < n"
  shows "first_slot code n (code j) \<le> slot code n j" and "slot code n j < first_slot code n (Suc (code j))"
  using rank_less [of "\<lambda>k. code k = code j" j n] assms by (simp_all add: slot_def first_slot_Suc)

lemma slot_less: "j < n \<Longrightarrow> slot code n j < n"
proof -
  assume j: "j < n"
  have "slot code n j < first_slot code n (Suc (code j))" by (rule slot_in_cell [OF j])
  also have "\<dots> \<le> n" by (simp add: first_slot_def rank_le)
  finally show ?thesis .
qed

lemma slot_inj:
  assumes "i < n" "j < n" "slot code n i = slot code n j"
  shows "i = j"
proof -
  have cell: "code a = code b" if "a < n" "b < n" "slot code n a = slot code n b" for a b
  proof (rule ccontr)
    assume "code a \<noteq> code b"
    then consider "Suc (code a) \<le> code b" | "Suc (code b) \<le> code a" by linarith
    then show False
      using slot_in_cell [OF that(1), of code] slot_in_cell [OF that(2), of code] that(3)
        first_slot_mono [of "Suc (code a)" "code b" code n] first_slot_mono [of "Suc (code b)" "code a" code n] by cases auto
  qed
  note c = cell [OF assms]
  then have "rank (\<lambda>k. code k = code j) i = rank (\<lambda>k. code k = code j) j" using assms(3) by (simp add: slot_def)
  then show ?thesis
    using rank_less [of "\<lambda>k. code k = code j" i j] rank_less [of "\<lambda>k. code k = code j" j i] c by (metis less_irrefl nat_neq_iff)
qed

text \<open>A sequence that holds every item at its slot lists the members of a cell in the slots of the cell.\<close>

lemma cell_slice:
  assumes "\<And>j. j < n \<Longrightarrow> order ! slot code n j = f j"
  shows "map (\<lambda>i. order ! i) [first_slot code n c..<first_slot code n (Suc c)] = map f (members code n c)"
proof (rule nth_equalityI)
  show "length (map (\<lambda>i. order ! i) [first_slot code n c..<first_slot code n (Suc c)]) = length (map f (members code n c))"
    by (simp add: length_members)
  fix m
  assume "m < length (map (\<lambda>i. order ! i) [first_slot code n c..<first_slot code n (Suc c)])"
  then have m: "m < rank (\<lambda>j. code j = c) n" by (simp add: first_slot_Suc)
  then obtain j where j: "j < n" "code j = c" "m = rank (\<lambda>j. code j = c) j" using filter_rank_ex by blast
  have "members code n c ! m = j" unfolding members_def j(3) using j(1,2) by (intro nth_filter_rank)
  moreover have "first_slot code n c + m = slot code n j" by (simp add: slot_def j(2,3))
  moreover have "m < length (members code n c)" using m by (simp add: length_members first_slot_Suc)
  ultimately show "map (\<lambda>i. order ! i) [first_slot code n c..<first_slot code n (Suc c)] ! m = map f (members code n c) ! m"
    using m assms [OF j(1)] by (simp add: first_slot_Suc)
qed

lemma set_members: "set (members code n c) = {j. j < n \<and> code j = c}"
  by (auto simp: members_def)

lemma distinct_members: "distinct (members code n c)"
  by (simp add: members_def)

end
