(* ===== verification/Spatial_Grid.thy ===== *)
theory Spatial_Grid
  imports Morton_Code Counting_Sort
begin

text \<open>
  \<open>SpatialGrid\<close> of \<open>spatial/grid.h\<close> and \<open>spatial/grid.cpp\<close>: a uniform grid whose cells are numbered by Morton
  keys and filled by a counting sort. An operation has no result (\<open>None\<close>) where the source aborts in
  \<open>MORTON_CHECK\<close>, converts a float out of range, indexes a vector out of range or does not terminate; the
  theorems show where results exist.
\<close>

section \<open>The operations\<close>

record spatial_grid =
  sg_world_size :: f32
  sg_cell_size :: f32
  sg_inv_cell_size :: f32
  sg_cells_per_axis :: u32
  sg_cell_start :: "u32 list"
  sg_sorted :: "u32 list"
  sg_codes :: "u32 list"
  sg_cursor :: "u32 list"

definition mk_spatial_grid :: spatial_grid where
  "mk_spatial_grid = \<lparr>sg_world_size = 0, sg_cell_size = 0, sg_inv_cell_size = 0, sg_cells_per_axis = 0,
     sg_cell_start = [], sg_sorted = [], sg_codes = [], sg_cursor = []\<rparr>"

definition cell_count :: "spatial_grid \<Rightarrow> u32" where
  "cell_count g = sg_cells_per_axis g * sg_cells_per_axis g"

definition entity_count :: "spatial_grid \<Rightarrow> u32" where
  "entity_count g = word_of_nat (length (sg_sorted g))"

definition grid_configure :: "f32 \<Rightarrow> u32 \<Rightarrow> spatial_grid \<Rightarrow> spatial_grid option" where
  "grid_configure world_size cells_per_axis g =
     (if \<not> (cells_per_axis > 0 \<and> cells_per_axis AND (cells_per_axis - 1) = 0) then None
      else if \<not> cells_per_axis \<le> 1024 then None
      else let cell_size = f_div world_size (f_of_int (uint cells_per_axis));
               g = g\<lparr>sg_world_size := world_size, sg_cells_per_axis := cells_per_axis, sg_cell_size := cell_size,
                     sg_inv_cell_size := f_div 0x3f800000 cell_size\<rparr>
           in Some (g\<lparr>sg_cell_start := replicate (unat (cell_count g + 1)) 0, sg_sorted := [], sg_codes := []\<rparr>))"

definition grid_clear :: "spatial_grid \<Rightarrow> spatial_grid" where
  "grid_clear g = g\<lparr>sg_cell_start := replicate (length (sg_cell_start g)) 0, sg_sorted := [], sg_codes := [], sg_cursor := []\<rparr>"

definition cell_x_of :: "spatial_grid \<Rightarrow> f32 \<Rightarrow> u16 option" where
  "cell_x_of g x =
     map_option (\<lambda>cell.
         let cell = (if cell <s 0 then 0 else cell);
             cell = (if sg_cells_per_axis g \<le>s cell then sg_cells_per_axis g - 1 else cell)
         in ucast cell)
       (f_to_i32 (f_mul x (sg_inv_cell_size g)))"

definition cell_of :: "spatial_grid \<Rightarrow> vec2 \<Rightarrow> u32 option" where
  "cell_of g position =
     (case (cell_x_of g (vx position), cell_x_of g (vy position)) of
        (Some x, Some y) \<Rightarrow> Some (morton_encode x y)
      | _ \<Rightarrow> None)"

text \<open>Updating and reading a vector with the bounds the language leaves unchecked.\<close>

definition at_index :: "'a list \<Rightarrow> nat \<Rightarrow> 'a option" where
  "at_index xs i = (if i < length xs then Some (xs ! i) else None)"

definition update_at :: "'a list \<Rightarrow> nat \<Rightarrow> 'a \<Rightarrow> 'a list option" where
  "update_at xs i x = (if i < length xs then Some (xs[i := x]) else None)"

text \<open>The three passes of \<open>build\<close>: counting, prefix sums and the scatter.\<close>

fun count_cells :: "spatial_grid \<Rightarrow> vec2 list \<Rightarrow> u32 list \<Rightarrow> u32 list \<Rightarrow> (u32 list \<times> u32 list) option" where
  "count_cells g [] starts codes = Some (starts, codes)"
| "count_cells g (p # ps) starts codes =
     Option.bind (cell_of g p) (\<lambda>code.
     Option.bind (at_index starts (unat (code + 1))) (\<lambda>n.
     Option.bind (update_at starts (unat (code + 1)) (n + 1)) (\<lambda>starts.
       count_cells g ps starts (codes @ [code]))))"

fun prefix_sums :: "nat list \<Rightarrow> u32 list \<Rightarrow> u32 list option" where
  "prefix_sums [] starts = Some starts"
| "prefix_sums (c # cs) starts =
     Option.bind (at_index starts c) (\<lambda>a.
     Option.bind (at_index starts (c + 1)) (\<lambda>b.
     Option.bind (update_at starts (c + 1) (b + a)) (prefix_sums cs)))"

fun scatter :: "nat \<Rightarrow> u32 list \<Rightarrow> u32 list \<Rightarrow> u32 list \<Rightarrow> (u32 list \<times> u32 list) option" where
  "scatter i [] cursor order = Some (cursor, order)"
| "scatter i (code # codes) cursor order =
     Option.bind (at_index cursor (unat code)) (\<lambda>k.
     Option.bind (update_at cursor (unat code) (k + 1)) (\<lambda>cursor.
     Option.bind (update_at order (unat k) (word_of_nat i)) (\<lambda>order.
       scatter (Suc i) codes cursor order)))"

text \<open>\<open>vector::resize\<close>: shorter, or padded with zeros.\<close>

definition resize :: "nat \<Rightarrow> u32 list \<Rightarrow> u32 list" where
  "resize n xs = take n xs @ replicate (n - length xs) 0"

definition grid_build :: "vec2 list \<Rightarrow> spatial_grid \<Rightarrow> spatial_grid option" where
  "grid_build positions g =
     (if sg_cells_per_axis g = 0 then Some g
      else let cells = unat (cell_count g)
           in Option.bind (count_cells g positions (replicate (cells + 1) 0) []) (\<lambda>(starts, codes).
              Option.bind (prefix_sums [0..<cells] starts) (\<lambda>starts.
              Option.bind (scatter 0 codes (butlast starts) (resize (length positions) (sg_sorted g))) (\<lambda>(cursor, order).
                Some (g\<lparr>sg_cell_start := starts, sg_codes := codes, sg_cursor := cursor, sg_sorted := order\<rparr>)))))"

text \<open>
  The 16-bit loop \<open>for (u16 x = lo; x <= hi; ++x)\<close> visits the numbers in between; with \<open>hi\<close> the largest 16-bit
  number its condition never fails.
\<close>

definition u16_range :: "u16 \<Rightarrow> u16 \<Rightarrow> u16 list option" where
  "u16_range lo hi = (if hi = 0xffff then None else Some (map word_of_nat [unat lo..<Suc (unat hi)]))"

text \<open>The entities of one cell, and the calls of the visitor in the order of the source.\<close>

definition cell_entities :: "spatial_grid \<Rightarrow> u32 \<Rightarrow> u32 list option" where
  "cell_entities g code =
     (case (at_index (sg_cell_start g) (unat code), at_index (sg_cell_start g) (unat (code + 1))) of
        (Some b, Some e) \<Rightarrow>
          if unat b < unat e \<and> length (sg_sorted g) < unat e then None
          else Some (map (\<lambda>i. sg_sorted g ! i) [unat b..<unat e])
      | _ \<Rightarrow> None)"

fun visit_all :: "('a \<Rightarrow> 'b list option) \<Rightarrow> 'a list \<Rightarrow> 'b list option" where
  "visit_all f [] = Some []"
| "visit_all f (x # xs) = Option.bind (f x) (\<lambda>ys. map_option (\<lambda>zs. ys @ zs) (visit_all f xs))"

definition query_radius :: "spatial_grid \<Rightarrow> vec2 \<Rightarrow> f32 \<Rightarrow> u32 list option" where
  "query_radius g center radius =
     (if sg_cells_per_axis g = 0 then Some []
      else Option.bind (cell_x_of g (f_sub (vx center) radius)) (\<lambda>min_x.
           Option.bind (cell_x_of g (f_add (vx center) radius)) (\<lambda>max_x.
           Option.bind (cell_x_of g (f_sub (vy center) radius)) (\<lambda>min_y.
           Option.bind (cell_x_of g (f_add (vy center) radius)) (\<lambda>max_y.
           Option.bind (u16_range min_y max_y) (\<lambda>ys.
           Option.bind (u16_range min_x max_x) (\<lambda>xs.
             visit_all (\<lambda>y. let row = push_bit 1 (spread_bits y)
                in visit_all (\<lambda>x. cell_entities g (row OR spread_bits x)) xs) ys)))))))"

definition occupancy :: "spatial_grid \<Rightarrow> u32 \<Rightarrow> u32 option" where
  "occupancy g code =
     (case (at_index (sg_cell_start g) (unat (code + 1)), at_index (sg_cell_start g) (unat code)) of
        (Some e, Some b) \<Rightarrow> Some (e - b) | _ \<Rightarrow> None)"

definition peak_cell_occupancy :: "spatial_grid \<Rightarrow> u32" where
  "peak_cell_occupancy g =
     foldl (\<lambda>peak c. let occ = sg_cell_start g ! (c + 1) - sg_cell_start g ! c in if occ > peak then occ else peak)
       0 [0..<length (sg_cell_start g) - 1]"


section \<open>Cells\<close>

lemma cell_x_of_value:
  assumes "f_trunc (f_mul x (sg_inv_cell_size g)) = Some t" and "- (2 ^ 31) \<le> t" and "t < 2 ^ 31"
    and n: "0 < unat (sg_cells_per_axis g)" "unat (sg_cells_per_axis g) \<le> 1024"
  obtains c where "cell_x_of g x = Some c" and "int (unat c) = max 0 (min t (int (unat (sg_cells_per_axis g)) - 1))"
proof -
  let ?n = "sg_cells_per_axis g" and ?w = "word_of_int t :: u32"
  let ?i = "if ?w <s 0 then 0 else ?w"
  let ?c = "if ?n \<le>s ?i then ?n - 1 else ?i"
  have n': "unat ?n < 2147483648" using n(2) by simp
  have c: "int (unat ?c) = max 0 (min t (int (unat ?n) - 1))" by (rule clamped_index [OF assms(2,3) n(1) n'])
  have i: "f_to_i32 (f_mul x (sg_inv_cell_size g)) = Some ?w" using assms(1-3) by (simp add: f_to_i32_def)
  have "0 < int (unat ?n)" using n(1) by (simp only: of_nat_0_less_iff)
  then have "int (unat ?c) \<le> int (unat ?n)" unfolding c by simp
  then have "unat ?c \<le> unat ?n" by (simp only: of_nat_le_iff)
  then have "unat (ucast ?c :: u16) = unat ?c" using n(2) unfolding unsigned_ucast_eq by (intro take_bit_nat_eq_self) simp
  then show thesis using c by (intro that [of "ucast ?c"]) (simp_all only: cell_x_of_def i Let_def option.map)
qed

text \<open>
  A configured grid: as many cells per axis as a power of two up to 1024, a finite nonnegative inverse cell size,
  and as many cell starts as cells and one.
\<close>

definition grid_ok :: "spatial_grid \<Rightarrow> bool" where
  "grid_ok g \<longleftrightarrow> (\<exists>k\<le>10. unat (sg_cells_per_axis g) = 2 ^ k) \<and> f_finite (sg_inv_cell_size g) \<and> 0 \<le> f_units (sg_inv_cell_size g)"

text \<open>A coordinate the grid can convert: its product with the inverse cell size fits an \<open>i32\<close>.\<close>

definition convertible :: "spatial_grid \<Rightarrow> f32 \<Rightarrow> bool" where
  "convertible g x \<longleftrightarrow> f_finite x \<and> f_to_i32 (f_mul x (sg_inv_cell_size g)) \<noteq> None"

lemma grid_cells:
  assumes "grid_ok g"
  obtains k where "k \<le> 10" and "unat (sg_cells_per_axis g) = 2 ^ k" and "unat (cell_count g) = 2 ^ k * 2 ^ k"
    and "0 < unat (sg_cells_per_axis g)" and "unat (sg_cells_per_axis g) \<le> 1024"
proof -
  obtain k where k: "k \<le> 10" "unat (sg_cells_per_axis g) = 2 ^ k" using assms by (auto simp: grid_ok_def)
  have le: "(2 :: nat) ^ k \<le> 2 ^ 10" using k(1) by (intro power_increasing) simp_all
  have "(2 :: nat) ^ k * 2 ^ k \<le> 2 ^ 10 * 2 ^ 10" using le by (intro mult_mono) simp_all
  then have "unat (cell_count g) = 2 ^ k * 2 ^ k" unfolding cell_count_def by (subst unat_mult_u32) (simp_all add: k(2))
  with k le show thesis by (intro that) simp_all
qed

lemma convertible_trunc:
  assumes "convertible g x"
  obtains t where "f_trunc (f_mul x (sg_inv_cell_size g)) = Some t" and "- (2 ^ 31) \<le> t" and "t < 2 ^ 31"
  using assms by (auto simp: convertible_def f_to_i32_def bind_eq_Some_conv split: if_splits)

lemma cell_x_of_some:
  assumes "grid_ok g" and "convertible g x"
  obtains c where "cell_x_of g x = Some c" and "unat c < unat (sg_cells_per_axis g)"
proof -
  obtain t where t: "f_trunc (f_mul x (sg_inv_cell_size g)) = Some t" "- (2 ^ 31) \<le> t" "t < 2 ^ 31" by (rule convertible_trunc [OF assms(2)])
  have n: "0 < unat (sg_cells_per_axis g)" "unat (sg_cells_per_axis g) \<le> 1024" by (rule grid_cells [OF assms(1)]; simp)+
  obtain c where c: "cell_x_of g x = Some c" "int (unat c) = max 0 (min t (int (unat (sg_cells_per_axis g)) - 1))"
    by (rule cell_x_of_value [OF t n])
  have "0 < int (unat (sg_cells_per_axis g))" using n(1) by (simp only: of_nat_0_less_iff)
  then have "int (unat c) < int (unat (sg_cells_per_axis g))" unfolding c(2) by simp
  then have "unat c < unat (sg_cells_per_axis g)" by (simp only: of_nat_less_iff)
  with c(1) show thesis by (rule that)
qed

text \<open>Cells are monotone in the coordinate.\<close>

lemma cell_x_of_mono:
  assumes g: "grid_ok g" and x: "convertible g x" and y: "convertible g y" and le: "f_units x \<le> f_units y"
    and c: "cell_x_of g x = Some a" "cell_x_of g y = Some b"
  shows "a \<le> b"
proof -
  let ?v = "sg_inv_cell_size g"
  obtain s where s: "f_trunc (f_mul x ?v) = Some s" "- (2 ^ 31) \<le> s" "s < 2 ^ 31" by (rule convertible_trunc [OF x])
  obtain t where t: "f_trunc (f_mul y ?v) = Some t" "- (2 ^ 31) \<le> t" "t < 2 ^ 31" by (rule convertible_trunc [OF y])
  have n: "0 < unat (sg_cells_per_axis g)" "unat (sg_cells_per_axis g) \<le> 1024" by (rule grid_cells [OF g]; simp)+
  have fin: "f_finite x" "f_finite y" "f_finite ?v" "0 \<le> f_units ?v" using g x y by (simp_all add: grid_ok_def convertible_def)
  have "f_finite (f_mul x ?v)" "f_finite (f_mul y ?v)" using s(1) t(1) by (auto simp: f_trunc_def split: if_splits)
  moreover have "f_key (f_mul x ?v) \<le> f_key (f_mul y ?v)"
    unfolding f_key_mul [OF fin(1,3)] f_key_mul [OF fin(2,3)] using le fin(4) by (intro rkey_mono) (simp_all add: mult_right_mono)
  then have "f_units (f_mul x ?v) \<le> f_units (f_mul y ?v)" by (simp add: f_units_le_iff)
  ultimately have "s \<le> t" using s(1) t(1) by (auto simp: f_trunc_finite intro: trunc_units_mono)
  moreover have "int (unat a) = max 0 (min s (int (unat (sg_cells_per_axis g)) - 1))"
    by (rule cell_x_of_value [OF s n]) (use c(1) in simp)
  moreover have "int (unat b) = max 0 (min t (int (unat (sg_cells_per_axis g)) - 1))"
    by (rule cell_x_of_value [OF t n]) (use c(2) in simp)
  ultimately have "int (unat a) \<le> int (unat b)" by linarith
  then show ?thesis by (simp only: of_nat_le_iff word_le_nat_alt)
qed

lemma morton_encode_bound:
  assumes "unat x < 2 ^ k" and "unat y < 2 ^ k"
  shows "unat (morton_encode x y) < 2 ^ k * 2 ^ k"
proof -
  have small: "\<not> bit w i" if "unat w < 2 ^ k" "k \<le> i" for w :: u16 and i
  proof -
    have "take_bit k w = w" using that(1) by (simp add: word_unat_eq_iff unsigned_take_bit_eq take_bit_nat_eq_self)
    with that(2) show ?thesis by (metis bit_take_bit_iff not_less)
  qed
  have "n < 2 * k" if "bit (morton_encode x y) n" for n
    using that small [of x "n div 2"] small [of y "n div 2"] assms by (cases "k \<le> n div 2") (auto simp: bit_morton_encode split: if_splits)
  then have "take_bit (2 * k) (morton_encode x y) = morton_encode x y" by (auto simp: bit_eq_iff bit_take_bit_iff)
  then have "take_bit (2 * k) (unat (morton_encode x y)) = unat (morton_encode x y)" by (metis unsigned_take_bit_eq)
  then show ?thesis by (simp add: take_bit_nat_eq_self_iff mult_2 power_add)
qed

lemma cell_of_some:
  assumes g: "grid_ok g" and p: "convertible g (vx p)" "convertible g (vy p)"
  obtains x y where "cell_x_of g (vx p) = Some x" and "cell_x_of g (vy p) = Some y"
    and "unat x < unat (sg_cells_per_axis g)" and "unat y < unat (sg_cells_per_axis g)"
    and "cell_of g p = Some (morton_encode x y)" and "unat (morton_encode x y) < unat (cell_count g)"
proof -
  obtain k where k: "unat (sg_cells_per_axis g) = 2 ^ k" "unat (cell_count g) = 2 ^ k * 2 ^ k" by (rule grid_cells [OF g])
  obtain x where x: "cell_x_of g (vx p) = Some x" "unat x < unat (sg_cells_per_axis g)" by (rule cell_x_of_some [OF g p(1)])
  obtain y where y: "cell_x_of g (vy p) = Some y" "unat y < unat (sg_cells_per_axis g)" by (rule cell_x_of_some [OF g p(2)])
  show thesis
    by (rule that [OF x(1) y(1) x(2) y(2)]) (use morton_encode_bound [of x k y] x y k in \<open>simp_all add: cell_of_def\<close>)
qed


section \<open>The counting sort\<close>

text \<open>The cell numbers of a list of codes.\<close>

abbreviation code_at :: "u32 list \<Rightarrow> nat \<Rightarrow> nat" where
  "code_at cs j \<equiv> unat (cs ! j)"

lemma rank_append: "rank (\<lambda>j. P ((xs @ ys) ! j)) (length xs) = rank (\<lambda>j. P (xs ! j)) (length xs)"
  unfolding rank_def by (rule arg_cong [where f = length]) (rule filter_cong, simp_all add: nth_append)

lemma rank_snoc: "rank (\<lambda>j. P ((xs @ [x]) ! j)) (Suc (length xs)) = rank (\<lambda>j. P (xs ! j)) (length xs) + (if P x then 1 else 0)"
  by (simp add: rank_Suc rank_append)

lemma count_cells_counts:
  assumes "\<And>p. p \<in> set ps \<Longrightarrow> \<exists>code. cell_of g p = Some code \<and> unat code < N"
    and "length starts = N + 1" and "N < 4294967295" and "length codes + length ps < 4294967296"
    and "unat (starts ! 0) = 0" and "\<And>c. c < N \<Longrightarrow> unat (starts ! Suc c) = rank (\<lambda>j. code_at codes j = c) (length codes)"
  shows "\<exists>starts'. count_cells g ps starts codes = Some (starts', codes @ map (\<lambda>p. the (cell_of g p)) ps) \<and>
    length starts' = N + 1 \<and> unat (starts' ! 0) = 0 \<and>
    (\<forall>c<N. unat (starts' ! Suc c) = rank (\<lambda>j. code_at (codes @ map (\<lambda>p. the (cell_of g p)) ps) j = c) (length codes + length ps))"
  using assms
proof (induction ps arbitrary: starts codes)
  case (Cons p ps)
  obtain code where code: "cell_of g p = Some code" "unat code < N" using Cons.prems(1) by auto
  have succ: "unat (code + 1) = Suc (unat code)" using code(2) Cons.prems(3) by (subst unat_add_u32) simp_all
  let ?n = "starts ! Suc (unat code)"
  let ?s = "starts[Suc (unat code) := ?n + 1]"
  have n: "unat ?n = rank (\<lambda>j. code_at codes j = unat code) (length codes)" using Cons.prems(6) code(2) by blast
  then have "unat ?n < 4294967295" using rank_le [of "\<lambda>j. code_at codes j = unat code" "length codes"] Cons.prems(4) by simp
  then have n1: "unat (?n + 1) = Suc (unat ?n)" by (subst unat_add_u32) simp_all
  have s: "unat (?s ! Suc c) = rank (\<lambda>j. code_at (codes @ [code]) j = c) (length (codes @ [code]))" if "c < N" for c
    using Cons.prems(2,6) that n n1 code(2) by (cases "c = unat code") (simp_all add: rank_snoc [where P = "\<lambda>w. unat w = c"]
        rank_snoc [where P = "\<lambda>w. unat w = unat code"])
  have "count_cells g (p # ps) starts codes = count_cells g ps ?s (codes @ [code])"
    using code Cons.prems(2) by (simp add: succ at_index_def update_at_def)
  moreover have "\<exists>starts'. count_cells g ps ?s (codes @ [code]) = Some (starts', (codes @ [code]) @ map (\<lambda>p. the (cell_of g p)) ps) \<and>
      length starts' = N + 1 \<and> unat (starts' ! 0) = 0 \<and>
      (\<forall>c<N. unat (starts' ! Suc c) = rank (\<lambda>j. code_at ((codes @ [code]) @ map (\<lambda>p. the (cell_of g p)) ps) j = c) (length (codes @ [code]) + length ps))"
    by (rule Cons.IH) (use Cons.prems s in auto)
  ultimately show ?case using code(1) by simp
qed simp

lemma prefix_sums_starts:
  assumes "length starts = N + 1" and "n < 4294967296" and "m \<le> N"
    and "\<And>c. c \<le> m \<Longrightarrow> unat (starts ! c) = first_slot code n c"
    and "\<And>c. m \<le> c \<Longrightarrow> c < N \<Longrightarrow> unat (starts ! Suc c) = rank (\<lambda>j. code j = c) n"
  shows "\<exists>starts'. prefix_sums [m..<N] starts = Some starts' \<and> length starts' = N + 1 \<and>
    (\<forall>c\<le>N. unat (starts' ! c) = first_slot code n c)"
  using assms(3-5) assms(1)
proof (induction "N - m" arbitrary: m starts)
  case 0
  then show ?case by auto
next
  case (Suc d)
  then have m: "m < N" by simp
  let ?s = "starts[Suc m := starts ! Suc m + starts ! m]"
  have sum: "unat (starts ! Suc m) + unat (starts ! m) = first_slot code n (Suc m)"
    using Suc.prems(2) [of m] Suc.prems(3) [of m] m by (simp add: first_slot_Suc)
  moreover have "first_slot code n (Suc m) \<le> n" by (simp add: first_slot_def rank_le)
  ultimately have u: "unat (starts ! Suc m + starts ! m) = first_slot code n (Suc m)"
    using assms(2) by (subst unat_add_u32) simp_all
  have "prefix_sums [m..<N] starts = prefix_sums [Suc m..<N] ?s"
    using m Suc.prems(4) by (simp add: upt_conv_Cons at_index_def update_at_def)
  moreover have "\<exists>starts'. prefix_sums [Suc m..<N] ?s = Some starts' \<and> length starts' = N + 1 \<and>
      (\<forall>c\<le>N. unat (starts' ! c) = first_slot code n c)"
  proof (rule Suc.hyps(1))
    show "unat (?s ! c) = first_slot code n c" if "c \<le> Suc m" for c
      using that u Suc.prems(2,4) m by (cases "c = Suc m") (simp_all add: nth_list_update)
    show "unat (?s ! Suc c) = rank (\<lambda>j. code j = c) n" if "Suc m \<le> c" "c < N" for c
      using that Suc.prems(3) by (simp add: nth_list_update)
  qed (use Suc m in simp_all)
  ultimately show ?case by simp
qed

text \<open>
  The scatter: with the first \<open>i\<close> codes placed, every cursor has moved past the items of its cell and every
  placed item sits in its slot.
\<close>

lemma scatter_slots:
  fixes cs :: "u32 list" and N :: nat
  assumes cs: "\<And>j. j < length cs \<Longrightarrow> code_at cs j < N" and n: "length cs < 4294967296"
    and i: "i \<le> length cs" and cur: "length cursor = N" "length order = length cs"
    and cursor: "\<And>c. c < N \<Longrightarrow> unat (cursor ! c) = first_slot (code_at cs) (length cs) c + rank (\<lambda>j. code_at cs j = c) i"
    and order: "\<And>j. j < i \<Longrightarrow> order ! slot (code_at cs) (length cs) j = word_of_nat j"
  shows "\<exists>cursor' order'. scatter i (drop i cs) cursor order = Some (cursor', order') \<and> length order' = length cs \<and>
    (\<forall>j<length cs. order' ! slot (code_at cs) (length cs) j = word_of_nat j)"
  using i cur cursor order
proof (induction "length cs - i" arbitrary: i cursor order)
  case 0
  then show ?case by auto
next
  case (Suc d)
  let ?n = "length cs" and ?f = "first_slot (code_at cs) (length cs)" and ?sl = "slot (code_at cs) (length cs)"
  have i: "i < ?n" using Suc.hyps(2) by simp
  have c: "code_at cs i < N" using cs i by blast
  let ?k = "cursor ! code_at cs i"
  have k: "unat ?k = ?sl i" using Suc.prems(4) [OF c] by (simp add: slot_def)
  have lt: "?sl i < ?n" using slot_less [OF i] .
  have k1: "unat (?k + 1) = Suc (unat ?k)" using lt n k by (subst unat_add_u32) simp_all
  let ?cur = "cursor[code_at cs i := ?k + 1]" and ?ord = "order[?sl i := word_of_nat i]"
  have step: "scatter i (drop i cs) cursor order = scatter (Suc i) (drop (Suc i) cs) ?cur ?ord"
    using i c lt k Suc.prems(2,3) by (simp add: Cons_nth_drop_Suc [symmetric] at_index_def update_at_def)
  have "\<exists>cursor' order'. scatter (Suc i) (drop (Suc i) cs) ?cur ?ord = Some (cursor', order') \<and> length order' = ?n \<and>
      (\<forall>j<?n. order' ! ?sl j = word_of_nat j)"
  proof (rule Suc.hyps(1))
    show "unat (?cur ! d) = ?f d + rank (\<lambda>j. code_at cs j = d) (Suc i)" if "d < N" for d
      using that Suc.prems(2,4) k k1 c by (cases "d = code_at cs i") (simp_all add: rank_Suc slot_def)
    show "?ord ! ?sl j = word_of_nat j" if "j < Suc i" for j
    proof (cases "j = i")
      case False
      with that have j: "j < i" by simp
      have "?sl j \<noteq> ?sl i" using slot_inj [of j ?n i "code_at cs"] j i by auto
      with Suc.prems(5) [OF j] show ?thesis by simp
    qed (use lt Suc.prems(3) in simp)
  qed (use Suc i in simp_all)
  with step show ?case by simp
qed

lemma cells_cong:
  assumes "sg_cells_per_axis g' = sg_cells_per_axis g" and "sg_inv_cell_size g' = sg_inv_cell_size g"
  shows "cell_x_of g' = cell_x_of g" and "cell_of g' = cell_of g" and "cell_count g' = cell_count g"
proof -
  show x: "cell_x_of g' = cell_x_of g" unfolding cell_x_of_def assms ..
  show "cell_of g' = cell_of g" unfolding cell_of_def x ..
  show "cell_count g' = cell_count g" unfolding cell_count_def assms ..
qed

lemma length_resize [simp]: "length (resize n xs) = n"
  by (simp add: resize_def min_def)

text \<open>What a built grid holds: the entities of every cell, in increasing order.\<close>

definition entity_cell :: "spatial_grid \<Rightarrow> vec2 list \<Rightarrow> nat \<Rightarrow> nat" where
  "entity_cell g ps j = unat (the (cell_of g (ps ! j)))"

definition grid_holds :: "spatial_grid \<Rightarrow> vec2 list \<Rightarrow> bool" where
  "grid_holds g ps \<longleftrightarrow> (\<forall>code. unat code < unat (cell_count g) \<longrightarrow>
     cell_entities g code = Some (map word_of_nat (members (entity_cell g ps) (length ps) (unat code))))"

lemma grid_build_holds:
  assumes g: "grid_ok g" and ps: "\<And>p. p \<in> set ps \<Longrightarrow> convertible g (vx p) \<and> convertible g (vy p)" and n: "length ps < 4294967296"
  obtains g' where "grid_build ps g = Some g'" and "grid_holds g' ps" and "grid_ok g'"
    and "cell_x_of g' = cell_x_of g" and "sg_cells_per_axis g' = sg_cells_per_axis g" and "sg_cell_size g' = sg_cell_size g"
    and "sg_inv_cell_size g' = sg_inv_cell_size g"
proof -
  let ?N = "unat (cell_count g)" and ?cs = "map (\<lambda>p. the (cell_of g p)) ps"
  obtain k where k: "k \<le> 10" "?N = 2 ^ k * 2 ^ k" "0 < unat (sg_cells_per_axis g)" by (rule grid_cells [OF g])
  have "(2 :: nat) ^ k \<le> 2 ^ 10" using k(1) by (intro power_increasing) simp_all
  then have "(2 :: nat) ^ k * 2 ^ k \<le> 2 ^ 10 * 2 ^ 10" by (intro mult_mono) simp_all
  then have N: "?N \<le> 1048576" using k(2) by simp
  have code: "\<exists>code. cell_of g p = Some code \<and> unat code < ?N" if "p \<in> set ps" for p
    using cell_of_some [OF g] ps [OF that] by metis
  have at: "code_at ?cs j < ?N" if "j < length ps" for j using code [of "ps ! j"] that by auto
  obtain s1 where s1: "count_cells g ps (replicate (?N + 1) 0) [] = Some (s1, ?cs)" "length s1 = ?N + 1" "unat (s1 ! 0) = 0"
      "\<And>c. c < ?N \<Longrightarrow> unat (s1 ! Suc c) = rank (\<lambda>j. code_at ?cs j = c) (length ps)"
    using count_cells_counts [OF code, where starts = "replicate (?N + 1) 0" and codes = "[]"] N n by auto
  obtain s2 where s2: "prefix_sums [0..<?N] s1 = Some s2" "length s2 = ?N + 1"
      "\<And>c. c \<le> ?N \<Longrightarrow> unat (s2 ! c) = first_slot (code_at ?cs) (length ps) c"
    using prefix_sums_starts [OF s1(2) n, where m = 0 and code = "code_at ?cs"] s1(3,4) by auto
  have cur: "unat (butlast s2 ! c) = first_slot (code_at ?cs) (length ?cs) c + rank (\<lambda>j. code_at ?cs j = c) 0" if "c < ?N" for c
    using that s2 by (simp add: nth_butlast)
  obtain s3 ord where s3: "scatter 0 ?cs (butlast s2) (resize (length ps) (sg_sorted g)) = Some (s3, ord)" "length ord = length ps"
      "\<And>j. j < length ps \<Longrightarrow> ord ! slot (code_at ?cs) (length ps) j = word_of_nat j"
    using scatter_slots [where cs = ?cs and N = ?N and i = 0 and cursor = "butlast s2" and order = "resize (length ps) (sg_sorted g)"] at n s2(2) cur
    by auto
  define g' where "g' = g\<lparr>sg_cell_start := s2, sg_codes := ?cs, sg_cursor := s3, sg_sorted := ord\<rparr>"
  have nz: "sg_cells_per_axis g \<noteq> 0" using k(3) by auto
  have build: "grid_build ps g = Some g'" using nz s1(1) s2(1) s3(1) by (simp add: grid_build_def Let_def g'_def)
  have same: "cell_x_of g' = cell_x_of g" "cell_of g' = cell_of g" "cell_count g' = cell_count g"
    by (rule cells_cong; simp add: g'_def)+
  have ec: "entity_cell g' ps j = code_at ?cs j" if "j < length ps" for j using that by (simp add: entity_cell_def same)
  have "grid_holds g' ps"
    unfolding grid_holds_def
  proof (intro allI impI)
    fix code :: u32
    assume c: "unat code < unat (cell_count g')"
    then have succ: "unat (code + 1) = Suc (unat code)" using N by (subst unat_add_u32) (simp_all add: same)
    have "map (\<lambda>i. ord ! i) [first_slot (code_at ?cs) (length ps) (unat code)..<first_slot (code_at ?cs) (length ps) (Suc (unat code))]
        = map word_of_nat (members (code_at ?cs) (length ps) (unat code))"
      by (rule cell_slice) (rule s3(3))
    moreover have "members (code_at ?cs) (length ps) (unat code) = members (entity_cell g' ps) (length ps) (unat code)"
      unfolding members_def by (rule filter_cong) (simp_all add: ec)
    moreover have "first_slot (code_at ?cs) (length ps) c \<le> length ps" for c by (simp add: first_slot_def rank_le)
    ultimately show "cell_entities g' code = Some (map word_of_nat (members (entity_cell g' ps) (length ps) (unat code)))"
      using c s2(2,3) s3(2) by (simp add: cell_entities_def succ at_index_def g'_def [THEN arg_cong, of sg_cell_start]
          g'_def [THEN arg_cong, of sg_sorted] same not_less)
  qed
  moreover have "grid_ok g'" using g by (simp add: grid_ok_def g'_def)
  ultimately show thesis using build same(1) by (intro that [of g']) (simp_all add: g'_def)
qed



section \<open>Radius queries\<close>

lemma visit_all_some: "(\<And>x. x \<in> set xs \<Longrightarrow> f x = Some (h x)) \<Longrightarrow> visit_all f xs = Some (concat (map h xs))"
  by (induction xs) simp_all

definition box_codes :: "u16 list \<Rightarrow> u16 list \<Rightarrow> u32 list" where
  "box_codes xs ys = concat (map (\<lambda>y. map (\<lambda>x. morton_encode x y) xs) ys)"

lemma morton_encode_inj: "morton_encode x y = morton_encode x' y' \<longleftrightarrow> x = x' \<and> y = y'"
proof
  assume eq: "morton_encode x y = morton_encode x' y'"
  have "bit x n = bit x' n" "bit y n = bit y' n" for n
    using arg_cong [OF eq, of "\<lambda>c. bit c (2 * n)"] arg_cong [OF eq, of "\<lambda>c. bit c (2 * n + 1)"] by (simp_all add: bit_morton_encode)
  then show "x = x' \<and> y = y'" by (simp add: bit_eq_iff)
qed simp

lemma distinct_concat_map:
  assumes "distinct xs" and "\<And>x. x \<in> set xs \<Longrightarrow> distinct (f x)"
    and "\<And>x y z. x \<in> set xs \<Longrightarrow> y \<in> set xs \<Longrightarrow> z \<in> set (f x) \<Longrightarrow> z \<in> set (f y) \<Longrightarrow> x = y"
  shows "distinct (concat (map f xs))"
  using assms
proof (induction xs)
  case (Cons a xs)
  have "z \<notin> set (f x)" if "x \<in> set xs" "z \<in> set (f a)" for x z
    using Cons.prems(1) Cons.prems(3) [of a x z] that by auto
  moreover have "distinct (concat (map f xs))"
  proof (rule Cons.IH)
    show "x = y" if "x \<in> set xs" "y \<in> set xs" "z \<in> set (f x)" "z \<in> set (f y)" for x y z
      using Cons.prems(3) [of x y z] that by simp
  qed (use Cons.prems(1,2) in simp_all)
  moreover have "distinct (f a)" using Cons.prems(2) by simp
  ultimately show ?case by auto
qed simp

lemma distinct_box_codes: "distinct xs \<Longrightarrow> distinct ys \<Longrightarrow> distinct (box_codes xs ys)"
  unfolding box_codes_def
proof (rule distinct_concat_map)
  fix y y' z
  assume z: "z \<in> set (map (\<lambda>x. morton_encode x y) xs)" "z \<in> set (map (\<lambda>x. morton_encode x y') xs)"
  obtain x where "z = morton_encode x y" using z(1) by auto
  moreover obtain x' where "z = morton_encode x' y'" using z(2) by auto
  ultimately show "y = y'" by (simp add: morton_encode_inj)
qed (simp_all add: distinct_map inj_on_def morton_encode_inj)

lemma box_codes_iff: "morton_encode x y \<in> set (box_codes xs ys) \<longleftrightarrow> x \<in> set xs \<and> y \<in> set ys"
  by (auto simp: box_codes_def morton_encode_inj)

lemma u16_range_some:
  assumes "unat hi < 65535"
  shows "u16_range lo hi = Some (map word_of_nat [unat lo..<Suc (unat hi)])"
    and "set (map word_of_nat [unat lo..<Suc (unat hi)]) = {x. lo \<le> x \<and> x \<le> (hi :: u16)}"
    and "distinct (map (word_of_nat :: nat \<Rightarrow> u16) [unat lo..<Suc (unat hi)])"
proof -
  have "hi \<noteq> 0xffff" using assms by auto
  then show "u16_range lo hi = Some (map word_of_nat [unat lo..<Suc (unat hi)])" by (simp add: u16_range_def)
  have "x \<in> word_of_nat ` {unat lo..<Suc (unat hi)}" if "lo \<le> x" "x \<le> hi" for x :: u16
    by (rule image_eqI [of _ _ "unat x"]) (use that in \<open>simp_all add: word_le_nat_alt\<close>)
  moreover have "lo \<le> word_of_nat k \<and> word_of_nat k \<le> hi" if "unat lo \<le> k" "k \<le> unat hi" for k
    using that assms by (simp add: word_le_nat_alt unat_of_nat_less)
  ultimately show "set (map word_of_nat [unat lo..<Suc (unat hi)]) = {x. lo \<le> x \<and> x \<le> hi}"
    unfolding set_map set_upt by (intro subset_antisym subsetI) (auto simp del: atLeastLessThanSuc_atLeastAtMost)
  have "j = k" if "(word_of_nat j :: u16) = word_of_nat k" "j < Suc (unat hi)" "k < Suc (unat hi)" for j k
    using arg_cong [OF that(1), of unat] that(2,3) assms by (simp add: unat_of_nat_less)
  then show "distinct (map (word_of_nat :: nat \<Rightarrow> u16) [unat lo..<Suc (unat hi)])" by (auto simp: distinct_map inj_on_def)
qed

lemma query_radius_visits:
  assumes g: "grid_ok g" and h: "grid_holds g ps"
    and box: "cell_x_of g (f_sub (vx c) r) = Some x0" "cell_x_of g (f_add (vx c) r) = Some x1"
      "cell_x_of g (f_sub (vy c) r) = Some y0" "cell_x_of g (f_add (vy c) r) = Some y1"
    and bound: "unat x1 < unat (sg_cells_per_axis g)" "unat y1 < unat (sg_cells_per_axis g)"
  shows "query_radius g c r = Some (concat (map (\<lambda>code. map word_of_nat (members (entity_cell g ps) (length ps) (unat code)))
    (box_codes (map word_of_nat [unat x0..<Suc (unat x1)]) (map word_of_nat [unat y0..<Suc (unat y1)]))))"
proof -
  obtain k where k: "unat (sg_cells_per_axis g) = 2 ^ k" "unat (cell_count g) = 2 ^ k * 2 ^ k"
      "0 < unat (sg_cells_per_axis g)" "unat (sg_cells_per_axis g) \<le> 1024" by (rule grid_cells [OF g])
  have small: "unat x1 < 65535" "unat y1 < 65535" using bound k(4) by simp_all
  note X = u16_range_some [OF small(1), of x0] and Y = u16_range_some [OF small(2), of y0]
  let ?xs = "map word_of_nat [unat x0..<Suc (unat x1)] :: u16 list" and ?ys = "map word_of_nat [unat y0..<Suc (unat y1)] :: u16 list"
  let ?m = "\<lambda>code. map word_of_nat (members (entity_cell g ps) (length ps) (unat (code :: u32))) :: u32 list"
  have cell: "cell_entities g (push_bit 1 (spread_bits y) OR spread_bits x) = Some (?m (morton_encode x y))"
    if "x \<in> set ?xs" "y \<in> set ?ys" for x y
  proof -
    have "unat x < 2 ^ k" "unat y < 2 ^ k" using that X(2) Y(2) bound k(1) by (auto simp: word_le_nat_alt)
    then have "unat (morton_encode x y) < unat (cell_count g)" using morton_encode_bound k(2) by simp
    moreover have "push_bit 1 (spread_bits y) OR spread_bits x = morton_encode x y" by (simp add: morton_encode_def or.commute)
    ultimately show ?thesis using h by (simp add: grid_holds_def)
  qed
  have "visit_all (\<lambda>y. let row = push_bit 1 (spread_bits y) in visit_all (\<lambda>x. cell_entities g (row OR spread_bits x)) ?xs) ?ys =
      Some (concat (map (\<lambda>y. concat (map (\<lambda>x. ?m (morton_encode x y)) ?xs)) ?ys))"
    unfolding Let_def by (rule visit_all_some) (rule visit_all_some, rule cell)
  moreover have "concat (map (\<lambda>y. concat (map (\<lambda>x. ?m (morton_encode x y)) xs)) ys) = concat (map ?m (box_codes xs ys))" for xs ys
    unfolding box_codes_def by (induction ys) (simp_all add: comp_def)
  moreover have "sg_cells_per_axis g \<noteq> 0" using k(3) by auto
  ultimately show ?thesis using X(1) Y(1) by (simp only: query_radius_def box if_False bind_simps Option.bind.bind_lunit)
qed

lemma inside_box:
  assumes g: "grid_ok g" and fin: "f_finite c" "f_finite r" and conv: "convertible g (f_sub c r)" "convertible g (f_add c r)" "convertible g x"
    and near: "\<bar>f_units x - f_units c\<bar> \<le> f_units r"
    and cells: "cell_x_of g (f_sub c r) = Some lo" "cell_x_of g (f_add c r) = Some hi" "cell_x_of g x = Some a"
  shows "lo \<le> a \<and> a \<le> hi"
proof -
  have x: "f_finite x" using conv(3) by (simp add: convertible_def)
  have "f_key (f_sub c r) \<le> f_key x" unfolding f_key_sub [OF fin] using near by (intro rkey_le [OF x]) (simp_all add: abs_le_iff)
  then have "f_units (f_sub c r) \<le> f_units x" by (simp add: f_units_le_iff)
  moreover have "f_key x \<le> f_key (f_add c r)" unfolding f_key_add [OF fin] using near by (intro rkey_ge [OF x]) (simp_all add: abs_le_iff)
  then have "f_units x \<le> f_units (f_add c r)" by (simp add: f_units_le_iff)
  ultimately show ?thesis using cell_x_of_mono [OF g] conv cells by blast
qed

lemma circle_in_box:
  assumes "0 \<le> (r :: int)" and "dx * dx + dy * dy \<le> r * r"
  shows "\<bar>dx\<bar> \<le> r" and "\<bar>dy\<bar> \<le> r"
  using assms square_le_imp [of r dx] square_le_imp [of r dy] zero_le_square [of dx] zero_le_square [of dy] by linarith+

lemma convertible_cong: "sg_inv_cell_size g' = sg_inv_cell_size g \<Longrightarrow> convertible g' = convertible g"
  by (simp add: convertible_def fun_eq_iff)

text \<open>The entities of a box of cells, each once.\<close>

definition box_entities :: "(nat \<Rightarrow> nat) \<Rightarrow> nat \<Rightarrow> u32 list \<Rightarrow> u32 list" where
  "box_entities cell n codes = concat (map (\<lambda>code. map word_of_nat (members cell n (unat code))) codes)"

lemma unat_index: "j < n \<Longrightarrow> n < 4294967296 \<Longrightarrow> unat (word_of_nat j :: u32) = j"
  by (simp add: unat_of_nat_less)

lemma set_box_entities:
  assumes "n < 4294967296"
  shows "i \<in> set (box_entities cell n codes) \<longleftrightarrow> unat i < n \<and> (\<exists>code\<in>set codes. cell (unat i) = unat code)"
proof
  assume "i \<in> set (box_entities cell n codes)"
  then obtain code j where c: "code \<in> set codes" "j < n" "cell j = unat code" "i = word_of_nat j"
    by (auto simp: box_entities_def set_members)
  with unat_index [OF c(2) assms] show "unat i < n \<and> (\<exists>code\<in>set codes. cell (unat i) = unat code)" by auto
next
  assume "unat i < n \<and> (\<exists>code\<in>set codes. cell (unat i) = unat code)"
  then obtain code where c: "unat i < n" "code \<in> set codes" "cell (unat i) = unat code" by blast
  have "i \<in> set (map word_of_nat (members cell n (unat code)))"
    using c by (auto simp: set_members intro!: image_eqI [of _ _ "unat i"])
  with c(2) show "i \<in> set (box_entities cell n codes)" by (auto simp: box_entities_def)
qed

lemma distinct_box_entities:
  assumes n: "n < 4294967296" and "distinct codes"
  shows "distinct (box_entities cell n codes)"
  unfolding box_entities_def
proof (rule distinct_concat_map [OF assms(2)])
  have inj: "inj_on (word_of_nat :: nat \<Rightarrow> u32) {j. j < n}" by (rule inj_onI) (metis unat_index n mem_Collect_eq)
  show "distinct (map (word_of_nat :: nat \<Rightarrow> u32) (members cell n (unat code)))" for code :: u32
    unfolding distinct_map by (intro conjI distinct_members inj_on_subset [OF inj]) (auto simp: set_members)
  fix a b i :: u32
  assume i: "i \<in> set (map word_of_nat (members cell n (unat a)))" "i \<in> set (map word_of_nat (members cell n (unat b)))"
  obtain j where j: "j < n" "cell j = unat a" "i = word_of_nat j" using i(1) by (auto simp: set_members)
  obtain k where k: "k < n" "cell k = unat b" "i = word_of_nat k" using i(2) by (auto simp: set_members)
  have "j = k" using inj j(1,3) k(1,3) by (auto dest: inj_onD)
  with j(2) k(2) show "a = b" by (simp add: word_unat_eq_iff)
qed

text \<open>A coordinate whose cell lies between the cells of two others.\<close>

definition between_cells :: "spatial_grid \<Rightarrow> f32 \<Rightarrow> f32 \<Rightarrow> f32 \<Rightarrow> bool" where
  "between_cells g lo hi v \<longleftrightarrow>
     (case (cell_x_of g lo, cell_x_of g hi, cell_x_of g v) of (Some a, Some b, Some x) \<Rightarrow> a \<le> x \<and> x \<le> b | _ \<Rightarrow> False)"

text \<open>
  C17: the spatial index. On a configured grid \<open>build\<close> succeeds for any positions it can convert, without an
  access out of bounds. A following \<open>query_radius\<close>, for a centre and a radius whose box can be converted, reports no entity twice
  and reports exactly the entities whose cell lies in the box of cells that the circle touches on each axis; and these include every
  entity whose exact distance from the centre is at most the radius.
\<close>

theorem grid_query_correct:
  assumes "grid_ok g" and "\<forall>p\<in>set ps. convertible g (vx p) \<and> convertible g (vy p)" and "length ps < 4294967296"
    and "f_finite (vx c)" and "f_finite (vy c)" and "f_finite r" and "0 \<le> f_units r"
    and "convertible g (f_sub (vx c) r)" and "convertible g (f_add (vx c) r)"
    and "convertible g (f_sub (vy c) r)" and "convertible g (f_add (vy c) r)"
  shows "\<exists>g' found. grid_build ps g = Some g' \<and> query_radius g' c r = Some found \<and> distinct found \<and>
    (\<forall>i. i \<in> set found \<longleftrightarrow> unat i < length ps \<and> between_cells g (f_sub (vx c) r) (f_add (vx c) r) (vx (ps ! unat i)) \<and>
       between_cells g (f_sub (vy c) r) (f_add (vy c) r) (vy (ps ! unat i))) \<and>
    (\<forall>j<length ps. (f_units (vx (ps ! j)) - f_units (vx c)) * (f_units (vx (ps ! j)) - f_units (vx c)) +
        (f_units (vy (ps ! j)) - f_units (vy c)) * (f_units (vy (ps ! j)) - f_units (vy c)) \<le> f_units r * f_units r \<longrightarrow>
      word_of_nat j \<in> set found)"
proof -
  obtain g' where g': "grid_build ps g = Some g'" "grid_holds g' ps" "grid_ok g'" "cell_x_of g' = cell_x_of g"
      "sg_cells_per_axis g' = sg_cells_per_axis g" "sg_inv_cell_size g' = sg_inv_cell_size g"
    by (rule grid_build_holds [OF assms(1) _ assms(3)]) (use assms(2) in auto)
  have cv: "convertible g' = convertible g" by (rule convertible_cong [OF g'(6)])
  note box = assms(8-11) [folded cv]
  obtain x0 where x0: "cell_x_of g' (f_sub (vx c) r) = Some x0" by (rule cell_x_of_some [OF g'(3) box(1)])
  obtain x1 where x1: "cell_x_of g' (f_add (vx c) r) = Some x1" "unat x1 < unat (sg_cells_per_axis g')" by (rule cell_x_of_some [OF g'(3) box(2)])
  obtain y0 where y0: "cell_x_of g' (f_sub (vy c) r) = Some y0" by (rule cell_x_of_some [OF g'(3) box(3)])
  obtain y1 where y1: "cell_x_of g' (f_add (vy c) r) = Some y1" "unat y1 < unat (sg_cells_per_axis g')" by (rule cell_x_of_some [OF g'(3) box(4)])
  define xs where "xs = (map word_of_nat [unat x0..<Suc (unat x1)] :: u16 list)"
  define ys where "ys = (map word_of_nat [unat y0..<Suc (unat y1)] :: u16 list)"
  define found where "found = box_entities (entity_cell g' ps) (length ps) (box_codes xs ys)"
  have query: "query_radius g' c r = Some found"
    unfolding found_def box_entities_def xs_def ys_def by (rule query_radius_visits [OF g'(3,2) x0 x1(1) y0 y1(1) x1(2) y1(2)])
  have "unat (sg_cells_per_axis g') \<le> 1024" by (rule grid_cells [OF g'(3)])
  then have small: "unat x1 < 65535" "unat y1 < 65535" using x1(2) y1(2) by simp_all
  note X = u16_range_some [OF small(1), of x0, folded xs_def] and Y = u16_range_some [OF small(2), of y0, folded ys_def]
  have dist: "distinct found" unfolding found_def by (rule distinct_box_entities [OF assms(3) distinct_box_codes [OF X(3) Y(3)]])
  have exact: "i \<in> set found \<longleftrightarrow> unat i < length ps \<and> between_cells g (f_sub (vx c) r) (f_add (vx c) r) (vx (ps ! unat i)) \<and>
       between_cells g (f_sub (vy c) r) (f_add (vy c) r) (vy (ps ! unat i))" for i
  proof (cases "unat i < length ps")
    case True
    then have p: "convertible g' (vx (ps ! unat i))" "convertible g' (vy (ps ! unat i))" using assms(2) by (simp_all add: cv)
    obtain x y where xy: "cell_x_of g' (vx (ps ! unat i)) = Some x" "cell_x_of g' (vy (ps ! unat i)) = Some y"
        "cell_of g' (ps ! unat i) = Some (morton_encode x y)" by (rule cell_of_some [OF g'(3) p])
    have "entity_cell g' ps (unat i) = unat (morton_encode x y)" using xy(3) by (simp add: entity_cell_def)
    then have "i \<in> set found \<longleftrightarrow> morton_encode x y \<in> set (box_codes xs ys)"
      unfolding found_def set_box_entities [OF assms(3)] using True unsigned_word_eqI by auto
    also have "\<dots> \<longleftrightarrow> x0 \<le> x \<and> x \<le> x1 \<and> y0 \<le> y \<and> y \<le> y1" unfolding box_codes_iff X(2) Y(2) by blast
    finally show ?thesis using True x0 x1(1) y0 y1(1) xy(1,2) by (simp add: between_cells_def g'(4))
  qed (simp add: found_def set_box_entities [OF assms(3)])
  have all: "word_of_nat j \<in> set found"
    if j: "j < length ps" and d: "(f_units (vx (ps ! j)) - f_units (vx c)) * (f_units (vx (ps ! j)) - f_units (vx c)) +
        (f_units (vy (ps ! j)) - f_units (vy c)) * (f_units (vy (ps ! j)) - f_units (vy c)) \<le> f_units r * f_units r" for j
  proof -
    have p: "convertible g' (vx (ps ! j))" "convertible g' (vy (ps ! j))" using assms(2) j by (simp_all add: cv)
    obtain x y where xy: "cell_x_of g' (vx (ps ! j)) = Some x" "cell_x_of g' (vy (ps ! j)) = Some y" by (rule cell_of_some [OF g'(3) p])
    note near = circle_in_box [OF assms(7) d]
    have "x0 \<le> x \<and> x \<le> x1" by (rule inside_box [OF g'(3) assms(4,6) box(1,2) p(1) near(1) x0 x1(1) xy(1)])
    moreover have "y0 \<le> y \<and> y \<le> y1" by (rule inside_box [OF g'(3) assms(5,6) box(3,4) p(2) near(2) y0 y1(1) xy(2)])
    ultimately show ?thesis using j xy x0 x1(1) y0 y1(1) by (simp add: exact unat_index [OF j assms(3)] between_cells_def g'(4))
  qed
  show ?thesis using g'(1) query dist exact all by blast
qed

text \<open>A world of 2048 with four cells per axis and three entities.\<close>

definition sample_grid :: spatial_grid where
  "sample_grid = the (grid_configure 0x45000000 4 mk_spatial_grid)"

definition sample_positions :: "vec2 list" where
  "sample_positions = [vec 0x42c80000 0x42c80000, vec 0x44c80000 0x42c80000, vec 0x43000000 0x42c80000]"

lemma sample_grid_ok: "grid_ok sample_grid"
proof -
  have "unat (sg_cells_per_axis sample_grid) = 2 ^ 2" "f_finite (sg_inv_cell_size sample_grid)" "0 \<le> f_units (sg_inv_cell_size sample_grid)"
    by code_simp+
  moreover have "(2 :: nat) \<le> 10" by simp
  ultimately show ?thesis unfolding grid_ok_def by blast
qed

lemma sample_convertible: "\<forall>p\<in>set sample_positions. convertible sample_grid (vx p) \<and> convertible sample_grid (vy p)"
  by code_simp

theorem grid_query_correct_witness:
  "\<exists>g' found. grid_build sample_positions sample_grid = Some g' \<and> query_radius g' (vec 0x42c80000 0x42c80000) 0x42c80000 = Some found \<and>
    distinct found \<and> 0 \<in> set found \<and> 1 \<notin> set found"
proof -
  note ok = sample_grid_ok and conv = sample_convertible
  have c: "f_finite (vx (vec 0x42c80000 0x42c80000))" "f_finite (vy (vec 0x42c80000 0x42c80000))" "f_finite 0x42c80000" "0 \<le> f_units 0x42c80000"
      "convertible sample_grid (f_sub (vx (vec 0x42c80000 0x42c80000)) 0x42c80000)" "convertible sample_grid (f_add (vx (vec 0x42c80000 0x42c80000)) 0x42c80000)"
      "convertible sample_grid (f_sub (vy (vec 0x42c80000 0x42c80000)) 0x42c80000)" "convertible sample_grid (f_add (vy (vec 0x42c80000 0x42c80000)) 0x42c80000)"
    by code_simp+
  obtain g' found where r: "grid_build sample_positions sample_grid = Some g'" "query_radius g' (vec 0x42c80000 0x42c80000) 0x42c80000 = Some found"
      "distinct found" and exact: "\<forall>i. i \<in> set found \<longleftrightarrow> unat i < length sample_positions \<and>
        between_cells sample_grid (f_sub (vx (vec 0x42c80000 0x42c80000)) 0x42c80000) (f_add (vx (vec 0x42c80000 0x42c80000)) 0x42c80000) (vx (sample_positions ! unat i)) \<and>
        between_cells sample_grid (f_sub (vy (vec 0x42c80000 0x42c80000)) 0x42c80000) (f_add (vy (vec 0x42c80000 0x42c80000)) 0x42c80000) (vy (sample_positions ! unat i))"
      and all: "\<forall>j<length sample_positions. (f_units (vx (sample_positions ! j)) - f_units (vx (vec 0x42c80000 0x42c80000))) *
        (f_units (vx (sample_positions ! j)) - f_units (vx (vec 0x42c80000 0x42c80000))) +
        (f_units (vy (sample_positions ! j)) - f_units (vy (vec 0x42c80000 0x42c80000))) *
        (f_units (vy (sample_positions ! j)) - f_units (vy (vec 0x42c80000 0x42c80000))) \<le> f_units 0x42c80000 * f_units 0x42c80000 \<longrightarrow>
      word_of_nat j \<in> set found"
    using grid_query_correct [OF ok conv _ c] by (auto simp: sample_positions_def)
  from all [rule_format, of 0] have "0 \<in> set found" by (simp add: sample_positions_def vec_def)
  moreover have "\<not> between_cells sample_grid (f_sub (vx (vec 0x42c80000 0x42c80000)) 0x42c80000) (f_add (vx (vec 0x42c80000 0x42c80000)) 0x42c80000)
      (vx (sample_positions ! 1))" by code_simp
  then have "1 \<notin> set found" using exact by simp
  ultimately show ?thesis using r by blast
qed

end
