(* ===== verification/Grid_Pairs.thy ===== *)
theory Grid_Pairs
  imports Spatial_Grid
begin

text \<open>
  The pair walk of \<open>spatial/grid.h\<close>. The callback of \<open>for_each_pair\<close> may move the entities while the walk is
  under way (the collision response does), so the walk is a fold over the pairs it visits, and the distance
  test reads the positions of the current state. A result is missing where an index is out of bounds or the
  check of the radius aborts.
\<close>

section \<open>The walk\<close>

fun pairs_within :: "'a list \<Rightarrow> ('a \<times> 'a) list" where
  "pairs_within [] = []"
| "pairs_within (a # rest) = map (Pair a) rest @ pairs_within rest"

definition pairs_between :: "'a list \<Rightarrow> 'a list \<Rightarrow> ('a \<times> 'a) list" where
  "pairs_between here there = concat (map (\<lambda>a. map (Pair a) there) here)"

definition kOffsets :: "(int \<times> int) list" where
  "kOffsets = [(1, 0), (-1, 1), (0, 1), (1, 1)]"

definition neighbor_pairs :: "spatial_grid \<Rightarrow> nat \<Rightarrow> nat \<Rightarrow> u32 list \<Rightarrow> int \<times> int \<Rightarrow> (u32 \<times> u32) list option" where
  "neighbor_pairs g x y here offset =
     (let nx = int x + fst offset; ny = int y + snd offset
      in if nx < 0 \<or> ny < 0 \<or> nx \<ge> uint (sg_cells_per_axis g) \<or> ny \<ge> uint (sg_cells_per_axis g) then Some []
         else map_option (pairs_between here) (cell_entities g (morton_encode (word_of_int nx) (word_of_int ny))))"

definition cell_pairs :: "spatial_grid \<Rightarrow> nat \<Rightarrow> nat \<Rightarrow> (u32 \<times> u32) list option" where
  "cell_pairs g x y =
     Option.bind (cell_entities g (morton_encode (word_of_nat x) (word_of_nat y))) (\<lambda>here.
       if here = [] then Some []
       else map_option (\<lambda>ahead. pairs_within here @ ahead) (visit_all (neighbor_pairs g x y here) kOffsets))"

definition walk_pairs :: "spatial_grid \<Rightarrow> (u32 \<times> u32) list option" where
  "walk_pairs g =
     (let axis = [0..<unat (sg_cells_per_axis g)]
      in visit_all (\<lambda>y. visit_all (\<lambda>x. cell_pairs g x y) axis) axis)"

definition near :: "vec2 list \<Rightarrow> f32 \<Rightarrow> u32 \<Rightarrow> u32 \<Rightarrow> bool option" where
  "near positions radius_sq a b =
     (case (at_index positions (unat a), at_index positions (unat b)) of
        (Some p, Some q) \<Rightarrow> Some (f_le (distance_sq p q) radius_sq)
      | _ \<Rightarrow> None)"

fun visit_pairs :: "('s \<Rightarrow> vec2 list) \<Rightarrow> f32 \<Rightarrow> (u32 \<Rightarrow> u32 \<Rightarrow> 's \<Rightarrow> 's option) \<Rightarrow> (u32 \<times> u32) list \<Rightarrow> 's \<Rightarrow> 's option" where
  "visit_pairs positions radius_sq fn [] s = Some s"
| "visit_pairs positions radius_sq fn ((a, b) # rest) s =
     Option.bind (near (positions s) radius_sq a b) (\<lambda>close.
       Option.bind (if close then fn a b s else Some s) (visit_pairs positions radius_sq fn rest))"

definition for_each_pair :: "spatial_grid \<Rightarrow> ('s \<Rightarrow> vec2 list) \<Rightarrow> f32 \<Rightarrow> (u32 \<Rightarrow> u32 \<Rightarrow> 's \<Rightarrow> 's option) \<Rightarrow> 's \<Rightarrow> 's option" where
  "for_each_pair g positions radius fn s =
     (if sg_cells_per_axis g = 0 then Some s
      else if \<not> f_le radius (sg_cell_size g) then None
      else Option.bind (walk_pairs g) (\<lambda>pairs. visit_pairs positions (f_mul radius radius) fn pairs s))"


section \<open>Pairs of a partitioned plane\<close>

lemma set_pairs_within: "(a, b) \<in> set (pairs_within xs) \<Longrightarrow> a \<in> set xs \<and> b \<in> set xs"
  by (induction xs) auto

lemma pairs_within_total: "a \<in> set xs \<Longrightarrow> b \<in> set xs \<Longrightarrow> a \<noteq> b \<Longrightarrow> (a, b) \<in> set (pairs_within xs) \<or> (b, a) \<in> set (pairs_within xs)"
  by (induction xs) auto

lemma pairs_within_once:
  "distinct xs \<Longrightarrow> distinct (pairs_within xs) \<and> ((a, b) \<in> set (pairs_within xs) \<longrightarrow> a \<noteq> b \<and> (b, a) \<notin> set (pairs_within xs))"
proof (induction xs)
  case (Cons x xs)
  then have "distinct (map (Pair x) xs)" by (simp add: distinct_map inj_on_def)
  then show ?case using Cons by (auto dest: set_pairs_within)
qed simp

lemma set_pairs_between [simp]: "(a, b) \<in> set (pairs_between here there) \<longleftrightarrow> a \<in> set here \<and> b \<in> set there"
  by (auto simp: pairs_between_def)

lemma distinct_pairs_between: "distinct here \<Longrightarrow> distinct there \<Longrightarrow> distinct (pairs_between here there)"
  unfolding pairs_between_def by (rule distinct_concat_map) (auto simp: distinct_map inj_on_def)

text \<open>
  Cells over integer coordinates, empty outside the plane; \<open>X\<close> and \<open>Y\<close> are the coordinates of an element.
\<close>

definition ahead_pairs :: "(int \<Rightarrow> int \<Rightarrow> 'a list) \<Rightarrow> int \<Rightarrow> int \<Rightarrow> ('a \<times> 'a) list" where
  "ahead_pairs E x y = pairs_within (E x y) @ concat (map (\<lambda>off. pairs_between (E x y) (E (x + fst off) (y + snd off))) kOffsets)"

definition plane_pairs :: "(int \<Rightarrow> int \<Rightarrow> 'a list) \<Rightarrow> nat \<Rightarrow> ('a \<times> 'a) list" where
  "plane_pairs E n = concat (map (\<lambda>y. concat (map (\<lambda>x. ahead_pairs E (int x) (int y)) [0..<n])) [0..<n])"

definition adjacent :: "('a \<Rightarrow> int) \<Rightarrow> ('a \<Rightarrow> int) \<Rightarrow> 'a \<Rightarrow> 'a \<Rightarrow> bool" where
  "adjacent X Y a b \<longleftrightarrow> \<bar>X a - X b\<bar> \<le> 1 \<and> \<bar>Y a - Y b\<bar> \<le> 1"

lemma set_ahead_pairs:
  "(a, b) \<in> set (ahead_pairs E x y) \<longleftrightarrow> (a, b) \<in> set (pairs_within (E x y)) \<or>
     (\<exists>off\<in>set kOffsets. a \<in> set (E x y) \<and> b \<in> set (E (x + fst off) (y + snd off)))"
  by (auto simp: ahead_pairs_def)

lemma set_plane_pairs: "(a, b) \<in> set (plane_pairs E n) \<longleftrightarrow> (\<exists>x<n. \<exists>y<n. (a, b) \<in> set (ahead_pairs E (int x) (int y)))"
  unfolding plane_pairs_def set_concat set_map by (auto simp: Bex_def)

lemma offsets_cover:
  assumes "\<bar>dx\<bar> \<le> 1" and "\<bar>dy\<bar> \<le> 1"
  shows "dx = 0 \<and> dy = 0 \<or> (dx, dy) \<in> set kOffsets \<or> (- dx, - dy) \<in> set kOffsets"
proof -
  have "dx \<in> {-1, 0, 1}" "dy \<in> {-1, 0, 1}" using assms by auto
  then show ?thesis by (auto simp: kOffsets_def)
qed

lemma offsets_ahead: "(dx, dy) \<in> set kOffsets \<Longrightarrow> (- dx, - dy) \<notin> set kOffsets \<and> \<not> (dx = 0 \<and> dy = 0)"
  by (auto simp: kOffsets_def)

locale partitioned_plane =
  fixes E :: "int \<Rightarrow> int \<Rightarrow> 'a list" and X Y :: "'a \<Rightarrow> int" and n :: nat
  assumes cell: "a \<in> set (E x y) \<Longrightarrow> X a = x \<and> Y a = y"
    and cell_distinct: "distinct (E x y)"
    and inside: "a \<in> set (E x y) \<Longrightarrow> 0 \<le> x \<and> x < int n \<and> 0 \<le> y \<and> y < int n"
begin

lemma first_cell: "(a, b) \<in> set (ahead_pairs E x y) \<Longrightarrow> X a = x \<and> Y a = y"
  unfolding set_ahead_pairs using cell set_pairs_within by metis

lemma ahead_cases:
  assumes "(a, b) \<in> set (ahead_pairs E x y)"
  obtains "(a, b) \<in> set (pairs_within (E x y))" "X b - X a = 0" "Y b - Y a = 0"
  | "a \<in> set (E x y)" "b \<in> set (E (X b) (Y b))" "(X b - X a, Y b - Y a) \<in> set kOffsets"
proof (cases "(a, b) \<in> set (pairs_within (E x y))")
  case True
  from set_pairs_within [OF True] cell have "X a = x" "Y a = y" "X b = x" "Y b = y" by blast+
  with True show ?thesis using that(1) by simp
next
  case False
  then obtain off where off: "off \<in> set kOffsets" "a \<in> set (E x y)" "b \<in> set (E (x + fst off) (y + snd off))"
    using assms unfolding set_ahead_pairs by blast
  from cell [OF off(2)] cell [OF off(3)] off show ?thesis using that(2) by (cases off) simp
qed

lemma distinct_offsets: "distinct (concat (map (\<lambda>off. pairs_between (E x y) (E (x + fst off) (y + snd off))) kOffsets))"
proof (rule distinct_concat_map)
  show "distinct kOffsets" by (simp add: kOffsets_def)
  show "distinct (pairs_between (E x y) (E (x + fst off) (y + snd off)))" for off by (intro distinct_pairs_between cell_distinct)
  fix o1 o2 p
  assume p: "p \<in> set (pairs_between (E x y) (E (x + fst o1) (y + snd o1)))" "p \<in> set (pairs_between (E x y) (E (x + fst o2) (y + snd o2)))"
  obtain a b where ab: "p = (a, b)" by (cases p)
  from p have "b \<in> set (E (x + fst o1) (y + snd o1))" "b \<in> set (E (x + fst o2) (y + snd o2))" unfolding ab set_pairs_between by blast+
  from cell [OF this(1)] cell [OF this(2)] show "o1 = o2" by (simp add: prod_eq_iff)
qed

lemma within_not_offset:
  assumes "(a, b) \<in> set (pairs_within (E x y))" and "off \<in> set kOffsets"
  shows "b \<notin> set (E (x + fst off) (y + snd off))"
proof
  assume b: "b \<in> set (E (x + fst off) (y + snd off))"
  have "X b = x" "Y b = y" using set_pairs_within [OF assms(1)] cell by blast+
  with cell [OF b] have "off = (0, 0)" by (simp add: prod_eq_iff)
  with assms(2) show False by (simp add: kOffsets_def)
qed

lemma distinct_ahead: "distinct (ahead_pairs E x y)"
proof -
  have "p \<notin> set (concat (map (\<lambda>off. pairs_between (E x y) (E (x + fst off) (y + snd off))) kOffsets))"
    if "p \<in> set (pairs_within (E x y))" for p
  proof
    obtain a b where ab: "p = (a, b)" by (cases p)
    assume "p \<in> set (concat (map (\<lambda>off. pairs_between (E x y) (E (x + fst off) (y + snd off))) kOffsets))"
    then obtain off where "off \<in> set kOffsets" "p \<in> set (pairs_between (E x y) (E (x + fst off) (y + snd off)))"
      unfolding set_concat set_map by blast
    with within_not_offset that show False unfolding ab set_pairs_between by blast
  qed
  then show ?thesis
    unfolding ahead_pairs_def distinct_append using distinct_offsets pairs_within_once [OF cell_distinct] by blast
qed

lemma distinct_plane: "distinct (plane_pairs E n)"
  unfolding plane_pairs_def
proof (rule distinct_concat_map)
  show "distinct [0..<n]" by simp
  show "distinct (concat (map (\<lambda>x. ahead_pairs E (int x) (int y)) [0..<n]))" for y
  proof (rule distinct_concat_map)
    show "distinct [0..<n]" by simp
    show "distinct (ahead_pairs E (int x) (int y))" for x by (rule distinct_ahead)
    fix x x' p
    assume "p \<in> set (ahead_pairs E (int x) (int y))" "p \<in> set (ahead_pairs E (int x') (int y))"
    then show "x = x'" using first_cell [of "fst p" "snd p"] by (metis of_nat_eq_iff prod.collapse)
  qed
  fix y y' p
  assume "p \<in> set (concat (map (\<lambda>x. ahead_pairs E (int x) (int y)) [0..<n]))" "p \<in> set (concat (map (\<lambda>x. ahead_pairs E (int x) (int y')) [0..<n]))"
  then obtain x x' where "p \<in> set (ahead_pairs E (int x) (int y))" "p \<in> set (ahead_pairs E (int x') (int y'))" by auto
  then show "y = y'" using first_cell [of "fst p" "snd p"] by (metis of_nat_eq_iff prod.collapse)
qed

lemma plane_pair_once: "(a, b) \<in> set (plane_pairs E n) \<Longrightarrow> a \<noteq> b \<and> (b, a) \<notin> set (plane_pairs E n)"
proof -
  assume "(a, b) \<in> set (plane_pairs E n)"
  then obtain x y where ab: "(a, b) \<in> set (ahead_pairs E (int x) (int y))" unfolding set_plane_pairs by blast
  have "a \<noteq> b" using ab
  proof (cases rule: ahead_cases)
    case 1
    then show ?thesis using pairs_within_once [OF cell_distinct] by blast
  next
    case 2
    then show ?thesis using offsets_ahead [OF 2(3)] by auto
  qed
  moreover have False if rev: "(b, a) \<in> set (plane_pairs E n)"
  proof -
    obtain x' y' where ba: "(b, a) \<in> set (ahead_pairs E (int x') (int y'))" using rev unfolding set_plane_pairs by blast
    show False using ab
    proof (cases rule: ahead_cases)
      case within: 1
      have same: "int x' = int x" "int y' = int y" using first_cell [OF ab] first_cell [OF ba] within(2,3) by linarith+
      show False using ba
      proof (cases rule: ahead_cases)
        case 1
        with within(1) pairs_within_once [OF cell_distinct] show False unfolding same by blast
      next
        case 2
        then show False using offsets_ahead [OF 2(3)] within(2,3) by linarith
      qed
    next
      case off: 2
      show False using ba
      proof (cases rule: ahead_cases)
        case 1
        then show False using offsets_ahead [OF off(3)] by linarith
      next
        case 2
        then show False using offsets_ahead [OF off(3)] by simp
      qed
    qed
  qed
  ultimately show "a \<noteq> b \<and> (b, a) \<notin> set (plane_pairs E n)" by blast
qed

lemma plane_pair_adjacent: "(a, b) \<in> set (plane_pairs E n) \<Longrightarrow> adjacent X Y a b"
  unfolding set_plane_pairs by (auto elim!: ahead_cases simp: adjacent_def kOffsets_def)

lemma plane_pair_complete:
  assumes a: "a \<in> set (E (X a) (Y a))" and b: "b \<in> set (E (X b) (Y b))" and ne: "a \<noteq> b" and adj: "adjacent X Y a b"
  shows "(a, b) \<in> set (plane_pairs E n) \<or> (b, a) \<in> set (plane_pairs E n)"
proof -
  have into: "(c, d) \<in> set (plane_pairs E n)" if "c \<in> set (E (X c) (Y c))" and "(c, d) \<in> set (ahead_pairs E (X c) (Y c))" for c d
  proof -
    note i = inside [OF that(1)]
    then have "nat (X c) < n" "nat (Y c) < n" by linarith+
    moreover have "int (nat (X c)) = X c" "int (nat (Y c)) = Y c" using i by simp_all
    ultimately show ?thesis using that(2) unfolding set_plane_pairs by metis
  qed
  have step: "(c, d) \<in> set (plane_pairs E n)"
    if "c \<in> set (E (X c) (Y c))" "d \<in> set (E (X d) (Y d))" "(X d - X c, Y d - Y c) \<in> set kOffsets" for c d
  proof (rule into [OF that(1)])
    have "d \<in> set (E (X c + fst (X d - X c, Y d - Y c)) (Y c + snd (X d - X c, Y d - Y c)))" using that(2) by simp
    with that(1,3) show "(c, d) \<in> set (ahead_pairs E (X c) (Y c))" unfolding set_ahead_pairs by blast
  qed
  let ?dx = "X b - X a" and ?dy = "Y b - Y a"
  have "\<bar>?dx\<bar> \<le> 1" "\<bar>?dy\<bar> \<le> 1" using adj by (simp_all add: adjacent_def abs_minus_commute)
  then consider "?dx = 0 \<and> ?dy = 0" | "(?dx, ?dy) \<in> set kOffsets" | "(- ?dx, - ?dy) \<in> set kOffsets"
    using offsets_cover by blast
  then show ?thesis
  proof cases
    case 1
    then have "X b = X a" "Y b = Y a" by simp_all
    then have "(a, b) \<in> set (pairs_within (E (X a) (Y a))) \<or> (b, a) \<in> set (pairs_within (E (X a) (Y a)))"
      using pairs_within_total [OF a _ ne] b by simp
    then show ?thesis
      using into [OF a, of b] into [OF b, of a] \<open>X b = X a\<close> \<open>Y b = Y a\<close> by (auto simp: set_ahead_pairs)
  next
    case 2
    then show ?thesis using step [OF a b] by simp
  next
    case 3
    then show ?thesis using step [OF b a] by simp
  qed
qed

end


section \<open>The walk of a built grid\<close>

text \<open>The coordinates of an entity's cell, and the entities of a cell in index order.\<close>

definition entity_x :: "spatial_grid \<Rightarrow> vec2 list \<Rightarrow> u32 \<Rightarrow> int" where
  "entity_x g ps a = uint (the (cell_x_of g (vx (ps ! unat a))))"

definition entity_y :: "spatial_grid \<Rightarrow> vec2 list \<Rightarrow> u32 \<Rightarrow> int" where
  "entity_y g ps a = uint (the (cell_x_of g (vy (ps ! unat a))))"

definition entities_at :: "spatial_grid \<Rightarrow> vec2 list \<Rightarrow> int \<Rightarrow> int \<Rightarrow> u32 list" where
  "entities_at g ps x y =
     (if 0 \<le> x \<and> x < int (unat (sg_cells_per_axis g)) \<and> 0 \<le> y \<and> y < int (unat (sg_cells_per_axis g))
      then filter (\<lambda>a. entity_x g ps a = x \<and> entity_y g ps a = y) (map word_of_nat [0..<min (length ps) (2 ^ 32)])
      else [])"

lemma distinct_indices: "distinct (map (word_of_nat :: nat \<Rightarrow> u32) [0..<min n (2 ^ 32)])"
proof -
  have "inj_on (word_of_nat :: nat \<Rightarrow> u32) {0..<min n (2 ^ 32)}" 
  proof (rule inj_onI)
    fix i j
    assume "i \<in> {0..<min n (2 ^ 32)}" "j \<in> {0..<min n (2 ^ 32)}" and eq: "(word_of_nat i :: u32) = word_of_nat j"
    then have "i < 4294967296" "j < 4294967296" by simp_all
    then show "i = j" using arg_cong [OF eq, of unat] unat_index [of i 4294967296] by (simp add: unat_of_nat)
  qed
  then show ?thesis by (simp add: distinct_map)
qed

interpretation gp: partitioned_plane "entities_at g ps" "entity_x g ps" "entity_y g ps" "unat (sg_cells_per_axis g)" for g ps
  using distinct_indices by unfold_locales (auto simp: entities_at_def split: if_splits intro: distinct_filter)

lemma built_cell:
  assumes g: "grid_ok g" and h: "grid_holds g ps" and ps: "\<And>p. p \<in> set ps \<Longrightarrow> convertible g (vx p) \<and> convertible g (vy p)"
    and n: "length ps < 4294967296" and x: "x < unat (sg_cells_per_axis g)" and y: "y < unat (sg_cells_per_axis g)"
  shows "cell_entities g (morton_encode (word_of_nat x) (word_of_nat y)) = Some (entities_at g ps (int x) (int y))"
proof -
  obtain k where k: "unat (sg_cells_per_axis g) = 2 ^ k" "unat (cell_count g) = 2 ^ k * 2 ^ k" "unat (sg_cells_per_axis g) \<le> 1024"
    by (rule grid_cells [OF g])
  have u: "unat (word_of_nat x :: u16) = x" "unat (word_of_nat y :: u16) = y" using x y k(3) by (simp_all add: unat_of_nat_less)
  have b: "unat (morton_encode (word_of_nat x) (word_of_nat y)) < unat (cell_count g)"
    unfolding k(2) by (rule morton_encode_bound) (use x y k(1) u in simp_all)
  have "entity_cell g ps j = unat (morton_encode (word_of_nat x) (word_of_nat y)) \<longleftrightarrow>
      entity_x g ps (word_of_nat j) = int x \<and> entity_y g ps (word_of_nat j) = int y" if j: "j < length ps" for j
  proof -
    have p: "convertible g (vx (ps ! j))" "convertible g (vy (ps ! j))" using ps j by simp_all
    obtain cx cy where c: "cell_x_of g (vx (ps ! j)) = Some cx" "cell_x_of g (vy (ps ! j)) = Some cy" "cell_of g (ps ! j) = Some (morton_encode cx cy)"
      by (rule cell_of_some [OF g p])
    have eq: "w = word_of_nat m \<longleftrightarrow> uint w = int m" if "unat (word_of_nat m :: u16) = m" for w :: u16 and m
      using that by (metis uint_nat of_nat_eq_iff word_unat_eq_iff)
    show ?thesis
      using c unat_index [OF j n] u
      by (simp add: entity_cell_def entity_x_def entity_y_def word_unat_eq_iff [symmetric] morton_encode_inj eq)
  qed
  then have "members (entity_cell g ps) (length ps) (unat (morton_encode (word_of_nat x) (word_of_nat y))) =
      filter (\<lambda>j. entity_x g ps (word_of_nat j) = int x \<and> entity_y g ps (word_of_nat j) = int y) [0..<length ps]"
    unfolding members_def by (intro filter_cong) simp_all
  moreover have "min (length ps) (2 ^ 32) = length ps" using n by simp
  moreover have "0 \<le> int x \<and> int x < int (unat (sg_cells_per_axis g)) \<and> 0 \<le> int y \<and> int y < int (unat (sg_cells_per_axis g))"
    using x y by (simp only: of_nat_less_iff of_nat_0_le_iff simp_thms)
  ultimately show ?thesis using h b by (simp only: entities_at_def if_True) (simp add: grid_holds_def filter_map comp_def)
qed

lemma walk_pairs_plane:
  assumes g: "grid_ok g" and h: "grid_holds g ps" and ps: "\<And>p. p \<in> set ps \<Longrightarrow> convertible g (vx p) \<and> convertible g (vy p)"
    and n: "length ps < 4294967296"
  shows "walk_pairs g = Some (plane_pairs (entities_at g ps) (unat (sg_cells_per_axis g)))"
proof -
  let ?E = "entities_at g ps" and ?n = "unat (sg_cells_per_axis g)"
  have cell: "cell_entities g (morton_encode (word_of_nat x) (word_of_nat y)) = Some (?E (int x) (int y))" if "x < ?n" "y < ?n" for x y
    using built_cell [OF g h _ n that] ps by blast
  have nb: "neighbor_pairs g x y here off = Some (pairs_between here (?E (int x + fst off) (int y + snd off)))" for x y here off
  proof (cases "int x + fst off < 0 \<or> int y + snd off < 0 \<or> int ?n \<le> int x + fst off \<or> int ?n \<le> int y + snd off")
    case True
    then have "?E (int x + fst off) (int y + snd off) = []" by (auto simp: entities_at_def)
    moreover have "pairs_between here [] = []" by (simp add: pairs_between_def)
    moreover have "neighbor_pairs g x y here off = Some []" using True unfolding neighbor_pairs_def Let_def uint_nat by auto
    ultimately show ?thesis by simp
  next
    case False
    define i j where "i = nat (int x + fst off)" and "j = nat (int y + snd off)"
    then have ij: "int x + fst off = int i" "int y + snd off = int j" "i < ?n" "j < ?n" using False by linarith+
    show ?thesis
      using False cell [OF ij(3,4)] unfolding neighbor_pairs_def Let_def uint_nat ij(1,2) of_int_of_nat_eq by simp
  qed
  have "cell_pairs g x y = Some (ahead_pairs ?E (int x) (int y))" if "x < ?n" "y < ?n" for x y
    unfolding cell_pairs_def cell [OF that] ahead_pairs_def
    by (simp add: visit_all_some [OF nb] pairs_between_def)
  then show ?thesis
    unfolding walk_pairs_def Let_def plane_pairs_def by (intro visit_all_some) simp
qed

lemma entities_at_valid: "length ps < 4294967296 \<Longrightarrow> c \<in> set (entities_at g ps x y) \<Longrightarrow> unat c < length ps"
  by (auto simp: entities_at_def unat_index split: if_splits)

lemma plane_pairs_valid:
  assumes n: "length ps < 4294967296" and ab: "(a, b) \<in> set (plane_pairs (entities_at g ps) m)"
  shows "unat a < length ps \<and> unat b < length ps"
proof -
  obtain x y where "(a, b) \<in> set (ahead_pairs (entities_at g ps) (int x) (int y))" using ab unfolding set_plane_pairs by blast
  then show ?thesis
  proof (cases rule: gp.ahead_cases)
    case 1
    then show ?thesis using set_pairs_within [OF 1(1)] entities_at_valid [OF n, of a g] entities_at_valid [OF n, of b g] by auto
  next
    case 2
    then show ?thesis using entities_at_valid [OF n 2(1)] entities_at_valid [OF n 2(2)] by simp
  qed
qed

lemma walk_pairs_valid:
  assumes g: "grid_ok g" and h: "grid_holds g ps" and ps: "\<And>p. p \<in> set ps \<Longrightarrow> convertible g (vx p) \<and> convertible g (vy p)"
    and n: "length ps < 4294967296"
  obtains cs where "walk_pairs g = Some cs" and "\<forall>(a, b)\<in>set cs. unat a < length ps \<and> unat b < length ps"
  by (rule that [OF walk_pairs_plane [OF g h _ n]]) (use ps plane_pairs_valid [OF n] in auto)

lemma collected_pairs:
  assumes "\<And>a b. (a, b) \<in> set cs \<Longrightarrow> near ps r a b = Some (close a b)"
  shows "visit_pairs (\<lambda>_. ps) r (\<lambda>a b acc. Some (acc @ [(a, b)])) cs acc = Some (acc @ filter (\<lambda>(a, b). close a b) cs)"
  using assms by (induction cs arbitrary: acc) auto

text \<open>
  C19: the pair walk. On a grid built from positions it can convert, \<open>for_each_pair\<close> with a radius of at most a
  cell reports pairs of different entities, none twice and none in both orders, that pass the distance test,
  and it reports every such pair whose cells are equal or adjacent.
\<close>

theorem pair_walk_complete:
  assumes "grid_ok g" and "\<forall>p\<in>set ps. convertible g (vx p) \<and> convertible g (vy p)" and "length ps < 4294967296"
    and "f_le r (sg_cell_size g)"
  shows "\<exists>g' found. grid_build ps g = Some g' \<and>
    for_each_pair g' (\<lambda>_. ps) r (\<lambda>a b acc. Some (acc @ [(a, b)])) [] = Some found \<and> distinct found \<and>
    (\<forall>(a, b)\<in>set found. a \<noteq> b \<and> (b, a) \<notin> set found \<and> near ps (f_mul r r) a b = Some True) \<and>
    (\<forall>a b. unat a < length ps \<longrightarrow> unat b < length ps \<longrightarrow> a \<noteq> b \<longrightarrow> adjacent (entity_x g ps) (entity_y g ps) a b \<longrightarrow>
       near ps (f_mul r r) a b = Some True \<longrightarrow> near ps (f_mul r r) b a = Some True \<longrightarrow> (a, b) \<in> set found \<or> (b, a) \<in> set found)"
proof -
  obtain g' where g': "grid_build ps g = Some g'" "grid_holds g' ps" "grid_ok g'" "cell_x_of g' = cell_x_of g"
      "sg_cells_per_axis g' = sg_cells_per_axis g" "sg_cell_size g' = sg_cell_size g" "sg_inv_cell_size g' = sg_inv_cell_size g"
    by (rule grid_build_holds [OF assms(1) _ assms(3)]) (use assms(2) in auto)
  have cv: "convertible g' = convertible g" by (rule convertible_cong [OF g'(7)])
  have conv: "convertible g' (vx p) \<and> convertible g' (vy p)" if "p \<in> set ps" for p using assms(2) that unfolding cv by blast
  let ?cs = "plane_pairs (entities_at g' ps) (unat (sg_cells_per_axis g'))"
  let ?close = "\<lambda>a b. near ps (f_mul r r) a b = Some True"
  have walk: "walk_pairs g' = Some ?cs" using walk_pairs_plane [OF g'(3,2) _ assms(3)] conv by blast
  have xy: "entity_x g' ps = entity_x g ps" "entity_y g' ps = entity_y g ps" by (simp_all add: fun_eq_iff entity_x_def entity_y_def g'(4))
  have member: "a \<in> set (entities_at g' ps (entity_x g' ps a) (entity_y g' ps a))" if a: "unat a < length ps" for a
  proof -
    have p: "convertible g' (vx (ps ! unat a))" "convertible g' (vy (ps ! unat a))" using conv [of "ps ! unat a"] a by simp_all
    obtain cx cy where c: "cell_x_of g' (vx (ps ! unat a)) = Some cx" "cell_x_of g' (vy (ps ! unat a)) = Some cy"
        "unat cx < unat (sg_cells_per_axis g')" "unat cy < unat (sg_cells_per_axis g')" by (rule cell_of_some [OF g'(3) p])
    have "int (unat cx) < int (unat (sg_cells_per_axis g'))" "int (unat cy) < int (unat (sg_cells_per_axis g'))"
      using c(3,4) by (simp_all only: of_nat_less_iff)
    moreover have "a \<in> set (map word_of_nat [0..<min (length ps) (2 ^ 32)])"
      using a assms(3) by (simp only: set_map set_upt) (intro image_eqI [of _ _ "unat a"]; simp)
    ultimately show ?thesis using c(1,2) by (simp add: entities_at_def entity_x_def entity_y_def uint_nat [symmetric])
  qed
  have valid: "unat a < length ps \<and> unat b < length ps" if "(a, b) \<in> set ?cs" for a b by (rule plane_pairs_valid [OF assms(3) that])
  have near: "near ps (f_mul r r) a b = Some (?close a b)" if "(a, b) \<in> set ?cs" for a b
    using valid [OF that] by (simp add: near_def at_index_def)
  define found where "found = filter (\<lambda>(a, b). ?close a b) ?cs"
  have cells: "sg_cells_per_axis g' \<noteq> 0" by (rule grid_cells [OF g'(3)]) auto
  have "for_each_pair g' (\<lambda>_. ps) r (\<lambda>a b acc. Some (acc @ [(a, b)])) [] = Some found"
    using collected_pairs [of ?cs ps "f_mul r r" ?close "[]"] near assms(4) cells unfolding for_each_pair_def walk g'(6) found_def by simp
  moreover have "distinct found" unfolding found_def by (intro distinct_filter gp.distinct_plane)
  moreover have "\<forall>(a, b)\<in>set found. a \<noteq> b \<and> (b, a) \<notin> set found \<and> ?close a b"
    unfolding found_def using gp.plane_pair_once by fastforce
  moreover have "(a, b) \<in> set found \<or> (b, a) \<in> set found"
    if "unat a < length ps" "unat b < length ps" "a \<noteq> b" "adjacent (entity_x g ps) (entity_y g ps) a b" "?close a b" "?close b a" for a b
    using gp.plane_pair_complete [OF member [OF that(1)] member [OF that(2)] that(3)] that(4-6) unfolding found_def xy by auto
  ultimately show ?thesis using g'(1) by blast
qed

theorem pair_walk_complete_witness:
  "\<exists>g' found. grid_build sample_positions sample_grid = Some g' \<and>
    for_each_pair g' (\<lambda>_. sample_positions) 0x42c80000 (\<lambda>a b acc. Some (acc @ [(a, b)])) [] = Some found \<and> distinct found \<and>
    ((0, 2) \<in> set found \<or> (2, 0) \<in> set found)"
proof -
  have n: "length sample_positions < 4294967296" by (simp add: sample_positions_def)
  have r: "f_le 0x42c80000 (sg_cell_size sample_grid)" by code_simp
  have pair: "unat (0 :: u32) < length sample_positions" "unat (2 :: u32) < length sample_positions" "(0 :: u32) \<noteq> 2"
      "adjacent (entity_x sample_grid sample_positions) (entity_y sample_grid sample_positions) 0 2"
      "near sample_positions (f_mul 0x42c80000 0x42c80000) 0 2 = Some True" "near sample_positions (f_mul 0x42c80000 0x42c80000) 2 0 = Some True"
    by code_simp+
  from pair_walk_complete [OF sample_grid_ok sample_convertible n r] pair show ?thesis by blast
qed

end
