(* ===== verification/World.thy ===== *)
theory World
  imports Entity_Store Grid_Pairs "HOL-Library.AList"
begin

text \<open>
  \<open>sim/world.h\<close> and \<open>sim/world.cpp\<close>: the authoritative simulation. The players are an association list
  that stands for the hash map in its (unspecified) iteration order. The sine and cosine of the C++ library
  are the parameters \<open>cosf\<close> and \<open>sinf\<close>. A missing result stands for undefined behaviour (the conversion of a
  NaN, an index out of bounds) or a failed check. The wall-clock figures of the statistics are left out.
\<close>

section \<open>The state\<close>

definition kInputRepeatTicks :: u32 where "kInputRepeatTicks = 6"
definition kMaxQueuedInputs :: nat where "kMaxQueuedInputs = 32"
definition kDrifterHeadingTicks :: u32 where "kDrifterHeadingTicks = 45"

record world_stats =
  ws_entity_count :: u32
  ws_player_count :: u32
  ws_inputs_applied :: u32
  ws_inputs_starved :: u32
  ws_collision_pairs :: u32
  ws_peak_cell_occupancy :: u32

record player_slot =
  ps_entity :: entity_id
  ps_client :: client_id
  ps_pending :: "move_input list"
  ps_last_applied :: move_input
  ps_last_applied_sequence :: u32
  ps_highest_received_sequence :: u32
  ps_dropped_stale_inputs :: u32
  ps_has_applied :: bool

definition mk_player_slot :: player_slot where
  "mk_player_slot = \<lparr>ps_entity = kInvalidEntity, ps_client = 0, ps_pending = [], ps_last_applied = mk_move_input,
     ps_last_applied_sequence = 0, ps_highest_received_sequence = 0, ps_dropped_stale_inputs = 0, ps_has_applied = False\<rparr>"

record world =
  w_params :: world_params
  w_entities :: entity_store
  w_grid :: spatial_grid
  w_players :: "(client_id \<times> player_slot) list"
  w_stats :: world_stats
  w_tick :: tick
  w_next_entity :: entity_id

definition mk_world :: world where
  "mk_world = \<lparr>w_params = mk_world_params, w_entities = es_empty, w_grid = mk_spatial_grid, w_players = [],
     w_stats = \<lparr>ws_entity_count = 0, ws_player_count = 0, ws_inputs_applied = 0, ws_inputs_starved = 0,
       ws_collision_pairs = 0, ws_peak_cell_occupancy = 0\<rparr>, w_tick = 0, w_next_entity = 1\<rparr>"


section \<open>Entities and players\<close>

text \<open>The constant \<open>2.f\<close>.\<close>

definition f_two :: f32 where "f_two = 0x40000000"

definition world_configure :: "world_params \<Rightarrow> u32 \<Rightarrow> world \<Rightarrow> world option" where
  "world_configure params cells_per_axis w =
     Option.bind (grid_configure (wp_size params) cells_per_axis (w_grid w)) (\<lambda>grid.
       if f_le (f_mul (wp_player_radius params) f_two) (sg_cell_size grid)
       then Some (w\<lparr>w_params := params, w_grid := grid\<rparr>) else None)"

definition spawn_player :: "client_id \<Rightarrow> vec2 \<Rightarrow> world \<Rightarrow> entity_id \<times> world" where
  "spawn_player client position w =
     (let entity = w_next_entity w;
          entities = snd (es_add entity kPlayer position client (w_entities w));
          player = mk_player_slot\<lparr>ps_entity := entity, ps_client := client\<rparr>
      in (entity, w\<lparr>w_next_entity := entity + 1, w_entities := entities, w_players := AList.update client player (w_players w)\<rparr>))"

definition spawn_drifter :: "vec2 \<Rightarrow> world \<Rightarrow> entity_id \<times> world" where
  "spawn_drifter position w =
     (let entity = w_next_entity w
      in (entity, w\<lparr>w_next_entity := entity + 1, w_entities := snd (es_add entity kDrifter position 0 (w_entities w))\<rparr>))"

definition despawn :: "entity_id \<Rightarrow> world \<Rightarrow> world" where
  "despawn entity w =
     (let index = es_find (w_entities w) entity
      in if index < 0 then w
         else let client = es_owner (w_entities w) ! nat index;
                  entities = snd (es_remove entity (w_entities w))
              in w\<lparr>w_entities := entities, w_players := (if client \<noteq> 0 then AList.delete client (w_players w) else w_players w)\<rparr>)"

definition adopt_entity :: "entity_id \<Rightarrow> client_id \<Rightarrow> vec2 \<Rightarrow> vec2 \<Rightarrow> u32 \<Rightarrow> world \<Rightarrow> world" where
  "adopt_entity entity client position velocity last_input_sequence w =
     (let existing = es_find (w_entities w) entity;
          (index, entities, next_entity) =
            (if existing < 0
             then case es_add entity kPlayer position client (w_entities w) of (i, entities) \<Rightarrow>
               (unat i, entities, if entity \<ge> w_next_entity w then entity + 1 else w_next_entity w)
             else (nat existing, w_entities w, w_next_entity w));
          entities = entities\<lparr>es_position := (es_position entities)[index := position],
            es_velocity := (es_velocity entities)[index := velocity], es_owner := (es_owner entities)[index := client],
            es_last_input_sequence := (es_last_input_sequence entities)[index := last_input_sequence]\<rparr>;
          player = mk_player_slot\<lparr>ps_entity := entity, ps_client := client, ps_last_applied_sequence := last_input_sequence,
            ps_highest_received_sequence := last_input_sequence\<rparr>
      in w\<lparr>w_entities := entities, w_next_entity := next_entity, w_players := AList.update client player (w_players w)\<rparr>)"

definition slot_queue_input :: "move_input \<Rightarrow> player_slot \<Rightarrow> player_slot option" where
  "slot_queue_input input player =
     (if mi_sequence input \<le> ps_highest_received_sequence player \<and> ps_highest_received_sequence player \<noteq> 0
      then Some (player\<lparr>ps_dropped_stale_inputs := ps_dropped_stale_inputs player + 1\<rparr>)
      else map_option (\<lambda>quantized.
          player\<lparr>ps_highest_received_sequence := mi_sequence input,
            ps_pending := (if length (ps_pending player) \<ge> kMaxQueuedInputs then tl (ps_pending player) else ps_pending player) @ [quantized]\<rparr>)
        (quantize_input input))"

definition queue_input :: "client_id \<Rightarrow> move_input \<Rightarrow> world \<Rightarrow> world option" where
  "queue_input client input w =
     (case map_of (w_players w) client of
        None \<Rightarrow> Some w
      | Some player \<Rightarrow> map_option (\<lambda>player. w\<lparr>w_players := AList.update client player (w_players w)\<rparr>) (slot_queue_input input player))"

definition player_of :: "world \<Rightarrow> client_id \<Rightarrow> player_slot option" where
  "player_of w client = map_of (w_players w) client"


section \<open>One tick\<close>

text \<open>The input of one player for this tick: the next queued one, the last one again for a few ticks, or none.\<close>

definition next_input :: "tick \<Rightarrow> player_slot \<Rightarrow> world_stats \<Rightarrow> move_input \<times> player_slot \<times> world_stats" where
  "next_input tick player stats =
     (case ps_pending player of
        input # rest \<Rightarrow>
          (input, player\<lparr>ps_pending := rest, ps_last_applied := input, ps_last_applied_sequence := mi_sequence input, ps_has_applied := True\<rparr>,
           stats\<lparr>ws_inputs_applied := ws_inputs_applied stats + 1\<rparr>)
      | [] \<Rightarrow>
          (if ps_has_applied player \<and> tick - mi_tick (ps_last_applied player) \<le> kInputRepeatTicks
           then (ps_last_applied player, player, stats\<lparr>ws_inputs_starved := ws_inputs_starved stats + 1\<rparr>)
           else (mk_move_input\<lparr>mi_sequence := ps_last_applied_sequence player\<rparr>, player,
                 stats\<lparr>ws_inputs_starved := ws_inputs_starved stats + 1\<rparr>)))"

definition move_entity :: "nat \<Rightarrow> move_input \<Rightarrow> world_params \<Rightarrow> entity_store \<Rightarrow> entity_store" where
  "move_entity index input params s =
     (let state = step_movement \<lparr>ms_position = es_position s ! index, ms_velocity = es_velocity s ! index\<rparr> input params (tick_dt params)
      in s\<lparr>es_position := (es_position s)[index := ms_position state], es_velocity := (es_velocity s)[index := ms_velocity state]\<rparr>)"

fun apply_player_inputs :: "world_params \<Rightarrow> tick \<Rightarrow> (client_id \<times> player_slot) list \<Rightarrow> entity_store \<Rightarrow> world_stats \<Rightarrow>
    (client_id \<times> player_slot) list \<times> entity_store \<times> world_stats" where
  "apply_player_inputs params tick [] s stats = ([], s, stats)"
| "apply_player_inputs params tick ((client, player) # rest) s stats =
     (let index = es_find s (ps_entity player)
      in if index < 0
         then case apply_player_inputs params tick rest s stats of (players, s, stats) \<Rightarrow> ((client, player) # players, s, stats)
         else case next_input tick player stats of (input, player, stats) \<Rightarrow>
           let s = move_entity (nat index) input params s;
               s = s\<lparr>es_last_input_sequence := (es_last_input_sequence s)[nat index := ps_last_applied_sequence player]\<rparr>
           in case apply_player_inputs params tick rest s stats of (players, s, stats) \<Rightarrow> ((client, player) # players, s, stats))"

definition apply_inputs :: "world \<Rightarrow> world" where
  "apply_inputs w =
     (case apply_player_inputs (w_params w) (w_tick w) (w_players w) (w_entities w) (w_stats w) of
        (players, entities, stats) \<Rightarrow> w\<lparr>w_players := players, w_entities := entities, w_stats := stats\<rparr>)"

text \<open>The constants \<open>65535.f\<close> and \<open>6.2831853f\<close>.\<close>

definition noise_angle :: "u32 \<Rightarrow> f32" where
  "noise_angle noise = f_mul (f_div (f_of_int (uint (noise AND 0xffff))) 0x477fff00) 0x40c90fdb"

definition drifter_input :: "(f32 \<Rightarrow> f32) \<Rightarrow> (f32 \<Rightarrow> f32) \<Rightarrow> u32 \<Rightarrow> u32 \<Rightarrow> move_input option" where
  "drifter_input cosf sinf heading_epoch seed =
     (let angle = noise_angle (hash_u32 (seed XOR hash_u32 heading_epoch))
      in quantize_input (mk_move_input\<lparr>mi_move_x := cosf angle, mi_move_y := sinf angle\<rparr>))"

fun drive_drifter_rows :: "(f32 \<Rightarrow> f32) \<Rightarrow> (f32 \<Rightarrow> f32) \<Rightarrow> world_params \<Rightarrow> u32 \<Rightarrow> nat list \<Rightarrow> entity_store \<Rightarrow> entity_store option" where
  "drive_drifter_rows cosf sinf params epoch [] s = Some s"
| "drive_drifter_rows cosf sinf params epoch (i # rest) s =
     (if es_kind s ! i \<noteq> entity_kind_code kDrifter then drive_drifter_rows cosf sinf params epoch rest s
      else Option.bind (drifter_input cosf sinf epoch (es_ai_seed s ! i)) (\<lambda>input.
        drive_drifter_rows cosf sinf params epoch rest (move_entity i input params s)))"

definition drive_drifters :: "(f32 \<Rightarrow> f32) \<Rightarrow> (f32 \<Rightarrow> f32) \<Rightarrow> world \<Rightarrow> world option" where
  "drive_drifters cosf sinf w =
     map_option (\<lambda>entities. w\<lparr>w_entities := entities\<rparr>)
       (drive_drifter_rows cosf sinf (w_params w) (w_tick w div kDrifterHeadingTicks) [0..<length (es_id (w_entities w))] (w_entities w))"

definition integrate :: "(f32 \<Rightarrow> f32) \<Rightarrow> (f32 \<Rightarrow> f32) \<Rightarrow> world \<Rightarrow> world option" where
  "integrate cosf sinf w = drive_drifters cosf sinf (apply_inputs w)"

text \<open>The response to one pair; the constants \<open>1e-4f\<close> and \<open>0.5f\<close>. The state is the store and the number of pairs.\<close>

definition separate :: "(f32 \<Rightarrow> f32) \<Rightarrow> (f32 \<Rightarrow> f32) \<Rightarrow> f32 \<Rightarrow> u32 \<Rightarrow> u32 \<Rightarrow> entity_store \<times> u32 \<Rightarrow> (entity_store \<times> u32) option" where
  "separate cosf sinf diameter a b state =
     (case state of (s, pairs) \<Rightarrow>
       let i = unat a; j = unat b;
           delta = vec_sub (es_position s ! j) (es_position s ! i);
           distance = vec_length delta;
           (axis, distance) =
             (if f_lt distance 0x38d1b717
              then let angle = noise_angle (hash_u32 ((es_id s ! i) XOR push_bit 16 (es_id s ! j)))
                   in (vec (cosf angle) (sinf angle), 0)
              else (vec_scale delta (f_div f_one distance), distance));
           overlap = f_sub diameter distance
       in if f_le overlap 0 then Some (s, pairs)
          else let correction = vec_scale axis (f_mul overlap f_half);
                   position = (es_position s)[i := vec_sub (es_position s ! i) correction];
                   position = position[j := vec_add (position ! j) correction]
               in Some (s\<lparr>es_position := position\<rparr>, pairs + 1))"

definition resolve_collisions :: "(f32 \<Rightarrow> f32) \<Rightarrow> (f32 \<Rightarrow> f32) \<Rightarrow> world \<Rightarrow> world option" where
  "resolve_collisions cosf sinf w =
     (let params = w_params w;
          diameter = f_mul (wp_player_radius params) f_two;
          low = wp_player_radius params;
          high = f_sub (wp_size params) (wp_player_radius params)
      in map_option (\<lambda>(s, pairs).
           w\<lparr>w_entities := s\<lparr>es_position := map (\<lambda>p. vec (clampf (vx p) low high) (clampf (vy p) low high)) (es_position s)\<rparr>,
             w_stats := (w_stats w)\<lparr>ws_collision_pairs := pairs\<rparr>\<rparr>)
         (for_each_pair (w_grid w) (\<lambda>(s, pairs). es_position s) diameter (separate cosf sinf diameter) (w_entities w, 0)))"

definition world_step :: "(f32 \<Rightarrow> f32) \<Rightarrow> (f32 \<Rightarrow> f32) \<Rightarrow> world \<Rightarrow> world option" where
  "world_step cosf sinf w =
     (let w = w\<lparr>w_stats := (w_stats w)\<lparr>ws_inputs_applied := 0, ws_inputs_starved := 0\<rparr>\<rparr>
      in Option.bind (integrate cosf sinf w) (\<lambda>w.
         Option.bind (grid_build (es_position (w_entities w)) (w_grid w)) (\<lambda>grid.
         Option.bind (resolve_collisions cosf sinf (w\<lparr>w_grid := grid\<rparr>)) (\<lambda>w.
           Some (w\<lparr>w_stats := (w_stats w)\<lparr>ws_entity_count := es_size (w_entities w), ws_player_count := word_of_nat (length (w_players w)),
               ws_peak_cell_occupancy := peak_cell_occupancy (w_grid w)\<rparr>, w_tick := w_tick w + 1\<rparr>)))))"

end
