(* ===== verification/Messages.thy ===== *)
theory Messages
  imports Stream_Fields Movement
begin

text \<open>
  The messages of \<open>proto/messages.h\<close>: the input packets of a client, the world configuration and the
  migration redirect of a shard and the credential of the handshake. An encoder gives the length and the
  buffer; a decoder gives the message, or nothing where the source returns \<open>false\<close> (the object a failed
  decoder leaves behind is not used by any caller). Encoding an input has no result where the conversion
  of a NaN axis is undefined.
\<close>

section \<open>Input packets\<close>

definition kInputRedundancy :: nat where "kInputRedundancy = 6"
definition kMaxInputsPerPacket :: u32 where "kMaxInputsPerPacket = 16"

record input_packet =
  ip_client_tick :: tick
  ip_acked_snapshot_tick :: u32
  ip_inputs :: "move_input list"

definition write_move_input :: "move_input \<Rightarrow> (bit_writer, unit) state option" where
  "write_move_input input =
     (let axis = input_axis_quantizer
      in case (q_encode axis (mi_move_x input), q_encode axis (mi_move_y input)) of
           (Some x, Some y) \<Rightarrow> Some (do {
             write_u32 (mi_sequence input);
             write_bits x (q_bits axis);
             write_bits y (q_bits axis);
             write_bool (mi_sprint input) })
         | _ \<Rightarrow> None)"

fun write_move_inputs :: "move_input list \<Rightarrow> (bit_writer, unit) state option" where
  "write_move_inputs [] = Some (State_Monad.return ())"
| "write_move_inputs (i # rest) =
     (case (write_move_input i, write_move_inputs rest) of
        (Some m, Some ms) \<Rightarrow> Some (do { m; ms })
      | _ \<Rightarrow> None)"

definition write_input_packet :: "input_packet \<Rightarrow> (bit_writer, unit) state option" where
  "write_input_packet packet =
     (let count = min (length (ip_inputs packet)) (unat kMaxInputsPerPacket)
      in map_option (\<lambda>inputs. do {
           write_u8 channel_kInput;
           write_u32 (ip_client_tick packet);
           write_u32 (ip_acked_snapshot_tick packet);
           write_ranged (word_of_nat count) 0 kMaxInputsPerPacket;
           inputs }) (write_move_inputs (take count (ip_inputs packet))))"

definition encode_input_packet :: "input_packet \<Rightarrow> u8 list \<Rightarrow> u32 \<Rightarrow> (u32 \<times> u8 list) option" where
  "encode_input_packet packet out capacity = map_option (\<lambda>m. finish_writer m out capacity) (write_input_packet packet)"

definition read_move_input :: "(bit_reader, move_input) state" where
  "read_move_input = do {
     sequence \<leftarrow> read_u32;
     x \<leftarrow> read_bits (q_bits input_axis_quantizer);
     y \<leftarrow> read_bits (q_bits input_axis_quantizer);
     sprint \<leftarrow> read_bool;
     State_Monad.return (mk_move_input\<lparr>mi_sequence := sequence, mi_move_x := q_decode input_axis_quantizer x,
       mi_move_y := q_decode input_axis_quantizer y, mi_sprint := sprint\<rparr>) }"

definition read_input_packet :: "(bit_reader, input_packet option) state" where
  "read_input_packet = do {
     channel \<leftarrow> read_u8;
     if channel \<noteq> channel_kInput then State_Monad.return None
     else do {
       client_tick \<leftarrow> read_u32;
       acked \<leftarrow> read_u32;
       count \<leftarrow> read_ranged 0 kMaxInputsPerPacket;
       overflowed \<leftarrow> read_overflowed;
       if overflowed \<or> count <s 0 then State_Monad.return None
       else do {
         inputs \<leftarrow> repeat_read (unat count) read_move_input;
         overflowed \<leftarrow> read_overflowed;
         State_Monad.return (if overflowed then None
           else Some \<lparr>ip_client_tick = client_tick, ip_acked_snapshot_tick = acked, ip_inputs = inputs\<rparr>) } } }"

definition decode_input_packet :: "u8 list \<Rightarrow> u32 \<Rightarrow> input_packet option" where
  "decode_input_packet data n = fst (run_state read_input_packet (mk_reader data n))"


section \<open>Events\<close>

record world_config_event =
  wc_entity :: u32
  wc_tick :: tick
  wc_region :: u32
  wc_world_size :: f32
  wc_tick_rate :: u32
  wc_shard_id :: "u8 list"

record migrate_redirect_event =
  mr_ticket :: u64
  mr_region :: u32
  mr_endpoint :: "u8 list"
  mr_shard_id :: "u8 list"

definition encode_world_config :: "world_config_event \<Rightarrow> u8 list \<Rightarrow> u32 \<Rightarrow> u32 \<times> u8 list" where
  "encode_world_config event out capacity =
     finish_writer (do {
       write_u8 event_kWorldConfig;
       write_u32 (wc_entity event);
       write_u32 (wc_tick event);
       write_varint (wc_region event);
       write_float (wc_world_size event);
       write_varint (wc_tick_rate event);
       write_string (wc_shard_id event) }) out capacity"

definition read_world_config :: "(bit_reader, world_config_event option) state" where
  "read_world_config = do {
     event \<leftarrow> read_u8;
     if event \<noteq> event_kWorldConfig then State_Monad.return None
     else do {
       entity \<leftarrow> read_u32;
       tick \<leftarrow> read_u32;
       region \<leftarrow> read_varint;
       world_size \<leftarrow> read_float;
       tick_rate \<leftarrow> read_varint;
       shard_id \<leftarrow> read_string;
       overflowed \<leftarrow> read_overflowed;
       State_Monad.return (if overflowed then None
         else Some \<lparr>wc_entity = entity, wc_tick = tick, wc_region = region, wc_world_size = world_size,
           wc_tick_rate = tick_rate, wc_shard_id = shard_id\<rparr>) } }"

definition decode_world_config :: "u8 list \<Rightarrow> u32 \<Rightarrow> world_config_event option" where
  "decode_world_config data n = fst (run_state read_world_config (mk_reader data n))"

definition encode_migrate_redirect :: "migrate_redirect_event \<Rightarrow> u8 list \<Rightarrow> u32 \<Rightarrow> u32 \<times> u8 list" where
  "encode_migrate_redirect event out capacity =
     finish_writer (do {
       write_u8 event_kMigrateRedirect;
       write_u64 (mr_ticket event);
       write_varint (mr_region event);
       write_string (mr_endpoint event);
       write_string (mr_shard_id event) }) out capacity"

definition read_migrate_redirect :: "(bit_reader, migrate_redirect_event option) state" where
  "read_migrate_redirect = do {
     event \<leftarrow> read_u8;
     if event \<noteq> event_kMigrateRedirect then State_Monad.return None
     else do {
       ticket \<leftarrow> read_u64;
       region \<leftarrow> read_varint;
       endpoint \<leftarrow> read_string;
       shard_id \<leftarrow> read_string;
       overflowed \<leftarrow> read_overflowed;
       State_Monad.return (if overflowed \<or> endpoint = [] then None
         else Some \<lparr>mr_ticket = ticket, mr_region = region, mr_endpoint = endpoint, mr_shard_id = shard_id\<rparr>) } }"

definition decode_migrate_redirect :: "u8 list \<Rightarrow> u32 \<Rightarrow> migrate_redirect_event option" where
  "decode_migrate_redirect data n = fst (run_state read_migrate_redirect (mk_reader data n))"


section \<open>Credentials\<close>

datatype credential_kind = kSession | kMigration

primrec credential_kind_code :: "credential_kind \<Rightarrow> u8" where
  "credential_kind_code kSession = 0"
| "credential_kind_code kMigration = 1"

record connect_credential =
  cc_kind :: credential_kind
  cc_token :: u64
  cc_player_id :: "u8 list"

definition kMaxPlayerIdBytes :: nat where "kMaxPlayerIdBytes = 20"

text \<open>The encoder gives the 32 bytes of the token, or nothing where it returns \<open>false\<close>.\<close>

definition encode_credential :: "connect_credential \<Rightarrow> u8 list option" where
  "encode_credential credential =
     (if cc_player_id credential = [] \<or> length (cc_player_id credential) > kMaxPlayerIdBytes then None
      else let w = snd (run_state (do {
               write_u8 (credential_kind_code (cc_kind credential));
               write_u64 (cc_token credential);
               write_string (cc_player_id credential) }) (mk_writer (replicate (unat kConnectTokenBytes) 0) kConnectTokenBytes))
           in if bw_overflow w then None else Some (bw_buffer w))"

definition read_credential :: "(bit_reader, connect_credential option) state" where
  "read_credential = do {
     kind \<leftarrow> read_u8;
     if kind > credential_kind_code kMigration then State_Monad.return None
     else do {
       token \<leftarrow> read_u64;
       player_id \<leftarrow> read_string;
       overflowed \<leftarrow> read_overflowed;
       State_Monad.return (if overflowed \<or> player_id = [] \<or> length player_id > kMaxPlayerIdBytes then None
         else Some \<lparr>cc_kind = (if kind = 0 then kSession else kMigration), cc_token = token, cc_player_id = player_id\<rparr>) } }"

definition decode_credential :: "u8 list \<Rightarrow> connect_credential option" where
  "decode_credential token = fst (run_state read_credential (mk_reader token kConnectTokenBytes))"



section \<open>The bits of each message\<close>

lemma guarded_final: "(\<And>b. b \<Longrightarrow> g b = None) \<Longrightarrow>
    brc.guarded (do { overflowed \<leftarrow> read_overflowed; State_Monad.return (g overflowed) })"
  by (rule brc.guarded_check) (simp add: brc.guarded_none)

lemma frames_final: "g False = Some v \<Longrightarrow> g True = None \<Longrightarrow>
    brc.frames (do { overflowed \<leftarrow> read_overflowed; State_Monad.return (g overflowed) }) [] v"
  by (rule brc.frames_check) (simp_all add: brc.frames_done brc.guarded_none)

lemmas guarded_intros = guarded_final brc.guarded_bind brc.guarded_if brc.guarded_none br.safe_repeat

lemma frames_tag:
  "brc.frames m bs v \<Longrightarrow> brc.guarded m \<Longrightarrow>
   brc.frames (do { tag \<leftarrow> read_u8; if tag \<noteq> k then State_Monad.return None else m }) (bits_of k 8 @ bs) v"
  by (rule brc.frames_bind [OF decodes_read_u8]) (simp_all add: brc.guarded_none)

lemma frames_last:
  "br.decodes m a x \<Longrightarrow> brc.frames (f x) [] v \<Longrightarrow> (\<And>x. brc.guarded (f x)) \<Longrightarrow> brc.frames (State_Monad.bind m f) a v"
  using brc.frames_bind [of m a x f "[]" v] by simp

definition world_config_bits :: "world_config_event \<Rightarrow> bool list" where
  "world_config_bits e = bits_of event_kWorldConfig 8 @ bits_of (wc_entity e) 32 @ bits_of (wc_tick e) 32 @
     bytes_bits (varint_bytes (wc_region e)) @ bits_of (wc_world_size e) 32 @ bytes_bits (varint_bytes (wc_tick_rate e)) @
     string_bits (wc_shard_id e)"

lemma frames_world_config: "length (wc_shard_id e) \<le> 1023 \<Longrightarrow> brc.frames read_world_config (world_config_bits e) e"
  unfolding read_world_config_def world_config_bits_def
  by (rule frames_tag, rule brc.frames_bind [OF decodes_read_u32], rule brc.frames_bind [OF decodes_read_u32],
      rule brc.frames_bind [OF decodes_read_varint], rule brc.frames_bind [OF decodes_read_float],
      rule brc.frames_bind [OF decodes_read_varint], rule frames_last [OF decodes_read_string], assumption,
      rule frames_final, simp, simp) (intro guarded_intros decodes_intros; simp)+

lemma emits_world_config: "bw.emits (do {
       write_u8 event_kWorldConfig; write_u32 (wc_entity e); write_u32 (wc_tick e); write_varint (wc_region e);
       write_float (wc_world_size e); write_varint (wc_tick_rate e); write_string (wc_shard_id e) }) (world_config_bits e)"
  unfolding world_config_bits_def by (intro bw.emits_bind emits_intros)

definition migrate_redirect_bits :: "migrate_redirect_event \<Rightarrow> bool list" where
  "migrate_redirect_bits e = bits_of event_kMigrateRedirect 8 @ bits_of (mr_ticket e) 64 @
     bytes_bits (varint_bytes (mr_region e)) @ string_bits (mr_endpoint e) @ string_bits (mr_shard_id e)"

lemma frames_migrate_redirect:
  "length (mr_endpoint e) \<le> 1023 \<Longrightarrow> length (mr_shard_id e) \<le> 1023 \<Longrightarrow> mr_endpoint e \<noteq> [] \<Longrightarrow>
   brc.frames read_migrate_redirect (migrate_redirect_bits e) e"
  unfolding read_migrate_redirect_def migrate_redirect_bits_def
  by (rule frames_tag, rule brc.frames_bind [OF decodes_read_u64], rule brc.frames_bind [OF decodes_read_varint],
      rule brc.frames_bind [OF decodes_read_string], assumption, rule frames_last [OF decodes_read_string], assumption,
      rule frames_final, simp, simp) (intro guarded_intros decodes_intros; simp)+

lemma emits_migrate_redirect: "bw.emits (do {
       write_u8 event_kMigrateRedirect; write_u64 (mr_ticket e); write_varint (mr_region e);
       write_string (mr_endpoint e); write_string (mr_shard_id e) }) (migrate_redirect_bits e)"
  unfolding migrate_redirect_bits_def by (intro bw.emits_bind emits_intros)

definition credential_bits :: "connect_credential \<Rightarrow> bool list" where
  "credential_bits c = bits_of (credential_kind_code (cc_kind c)) 8 @ bits_of (cc_token c) 64 @ string_bits (cc_player_id c)"

lemma frames_credential:
  assumes "length (cc_player_id c) \<le> kMaxPlayerIdBytes" and "cc_player_id c \<noteq> []"
  shows "brc.frames read_credential (credential_bits c) c"
proof -
  have len: "length (cc_player_id c) \<le> 1023" using assms(1) by (simp add: kMaxPlayerIdBytes_def)
  have kind: "\<not> credential_kind_code (cc_kind c) > credential_kind_code kMigration"
      "(if credential_kind_code (cc_kind c) = 0 then kSession else kMigration) = cc_kind c" by (cases "cc_kind c"; simp)+
  show ?thesis
    unfolding read_credential_def credential_bits_def
    by (rule brc.frames_bind [OF decodes_read_u8], simp only: kind if_False,
        rule brc.frames_bind [OF decodes_read_u64], rule frames_last [OF decodes_read_string [OF len]],
        rule frames_final, use assms in simp, simp) (intro guarded_intros decodes_intros; simp)+
qed

lemma emits_credential: "bw.emits (do {
       write_u8 (credential_kind_code (cc_kind c)); write_u64 (cc_token c); write_string (cc_player_id c) }) (credential_bits c)"
  unfolding credential_bits_def by (intro bw.emits_bind emits_intros)



section \<open>The bits of an input packet\<close>

lemma axis_fine: "q_fine input_axis_quantizer"
  unfolding input_axis_quantizer_def f_one_def by code_simp

lemma axis_bits: "q_bits input_axis_quantizer = 8"
  by (simp add: input_axis_quantizer_def)

lemma axis_encode:
  assumes "\<not> f_isnan v"
  obtains n where "q_encode input_axis_quantizer v = Some n" and "unat n < 2 ^ 8"
  using q_encode_some [of input_axis_quantizer v] axis_fine assms by (auto simp: q_fine_def axis_bits)

text \<open>What the receiver makes of an input: the axes quantized, the local tick not transmitted.\<close>

definition received_input :: "move_input \<Rightarrow> move_input" where
  "received_input i = mk_move_input\<lparr>mi_sequence := mi_sequence i, mi_move_x := the (q_snap input_axis_quantizer (mi_move_x i)),
     mi_move_y := the (q_snap input_axis_quantizer (mi_move_y i)), mi_sprint := mi_sprint i\<rparr>"

definition received_packet_of :: "input_packet \<Rightarrow> input_packet" where
  "received_packet_of p = p\<lparr>ip_inputs := map received_input (take (unat kMaxInputsPerPacket) (ip_inputs p))\<rparr>"

definition axes_ok :: "move_input \<Rightarrow> bool" where
  "axes_ok i \<longleftrightarrow> \<not> f_isnan (mi_move_x i) \<and> \<not> f_isnan (mi_move_y i)"

definition input_bits :: "move_input \<Rightarrow> bool list" where
  "input_bits i = bits_of (mi_sequence i) 32 @ bits_of (the (q_encode input_axis_quantizer (mi_move_x i))) 8 @
     bits_of (the (q_encode input_axis_quantizer (mi_move_y i))) 8 @ [mi_sprint i]"

lemma length_input_bits [simp]: "length (input_bits i) = 49"
  by (simp add: input_bits_def)

lemma emits_write_8: "bw.emits (write_bits v 8) (bits_of v 8)"
  using bw.emits_put [of 8 v] by simp

lemma write_move_input_some:
  assumes "axes_ok i"
  obtains m where "write_move_input i = Some m" and "bw.emits m (input_bits i)"
proof -
  obtain x where x: "q_encode input_axis_quantizer (mi_move_x i) = Some x" using axis_encode assms by (auto simp: axes_ok_def)
  obtain y where y: "q_encode input_axis_quantizer (mi_move_y i) = Some y" using axis_encode assms by (auto simp: axes_ok_def)
  have "bw.emits (do { write_u32 (mi_sequence i); write_bits x 8; write_bits y 8; write_bool (mi_sprint i) }) (input_bits i)"
    unfolding input_bits_def x y option.sel by (intro bw.emits_bind emits_intros emits_write_8)
  then show thesis by (intro that) (simp_all add: write_move_input_def x y axis_bits)
qed

lemma write_move_inputs_some:
  "list_all axes_ok ins \<Longrightarrow> \<exists>m. write_move_inputs ins = Some m \<and> bw.emits m (concat (map input_bits ins))"
proof (induction ins)
  case Nil
  then show ?case by (simp add: bw.emits_return)
next
  case (Cons i ins)
  then obtain ms where ms: "write_move_inputs ins = Some ms" "bw.emits ms (concat (map input_bits ins))" by auto
  obtain m where m: "write_move_input i = Some m" "bw.emits m (input_bits i)" using write_move_input_some Cons.prems by auto
  with ms show ?case by (auto intro: bw.emits_bind)
qed

lemma safe_read_move_input [decodes_intros]: "br.safe read_move_input"
  unfolding read_move_input_def axis_bits by (intro br.safe_intros decodes_intros) simp_all

lemma decodes_read_8: "unat v < 2 ^ 8 \<Longrightarrow> br.decodes (read_bits 8) (bits_of v 8) v"
  using decodes_read_bits [of 8 v] take_bit_small [of v 8] by simp

lemma decodes_read_move_input:
  assumes "axes_ok i"
  shows "br.decodes read_move_input (input_bits i) (received_input i)"
proof -
  obtain x where x: "q_encode input_axis_quantizer (mi_move_x i) = Some x" "unat x < 2 ^ 8" using axis_encode assms by (auto simp: axes_ok_def)
  obtain y where y: "q_encode input_axis_quantizer (mi_move_y i) = Some y" "unat y < 2 ^ 8" using axis_encode assms by (auto simp: axes_ok_def)
  show ?thesis
    unfolding read_move_input_def axis_bits input_bits_def x(1) y(1) option.sel
    by (rule br.decodes_bind [OF decodes_read_u32], rule br.decodes_bind [OF decodes_read_8 [OF x(2)]],
        rule br.decodes_bind [OF decodes_read_8 [OF y(2)]], rule br.decodes_map [OF decodes_read_bool],
        simp add: received_input_def q_snap_def x(1) y(1)) (intro br.safe_intros decodes_intros; simp)+
qed

lemma decodes_inputs:
  "list_all axes_ok ins \<Longrightarrow> br.decodes (repeat_read (length ins) read_move_input) (concat (map input_bits ins)) (map received_input ins)"
proof (induction ins)
  case Nil
  then show ?case by (simp add: br.decodes_return)
next
  case (Cons i ins)
  then have "br.decodes (repeat_read (length ins) read_move_input) (concat (map input_bits ins)) (map received_input ins)" by simp
  from br.decodes_map [OF this refl, of "(#) (received_input i)"] Cons.prems show ?case
    by (auto intro!: br.decodes_bind [OF decodes_read_move_input] br.safe_intros decodes_intros)
qed


definition input_packet_bits :: "input_packet \<Rightarrow> bool list" where
  "input_packet_bits p = bits_of channel_kInput 8 @ bits_of (ip_client_tick p) 32 @ bits_of (ip_acked_snapshot_tick p) 32 @
     ranged_bits (word_of_nat (min (length (ip_inputs p)) 16)) 0 16 @ concat (map input_bits (take 16 (ip_inputs p)))"

lemma count_range: "k \<le> 16 \<Longrightarrow> sint (word_of_nat k :: u32) = int k" "k \<le> 16 \<Longrightarrow> unat (word_of_nat k :: u32) = k"
  by (simp_all add: unat_of_nat_less signed_of_nat signed_take_bit_int_eq_self)

lemma write_input_packet_some:
  assumes "list_all axes_ok (take 16 (ip_inputs p))"
  obtains m where "write_input_packet p = Some m" and "bw.emits m (input_packet_bits p)"
proof -
  obtain ms where ms: "write_move_inputs (take 16 (ip_inputs p)) = Some ms"
      "bw.emits ms (concat (map input_bits (take 16 (ip_inputs p))))"
    using write_move_inputs_some [OF assms] by blast
  let ?k = "min (length (ip_inputs p)) 16"
  have "bw.emits (write_ranged (word_of_nat ?k) 0 16) (ranged_bits (word_of_nat ?k) 0 16)"
    by (rule emits_write_ranged) (simp_all add: count_range)
  then have "bw.emits (do { write_u8 channel_kInput; write_u32 (ip_client_tick p); write_u32 (ip_acked_snapshot_tick p);
      write_ranged (word_of_nat ?k) 0 16; ms }) (input_packet_bits p)"
    unfolding input_packet_bits_def by (intro bw.emits_bind emits_intros ms(2))
  moreover have "take ?k (ip_inputs p) = take 16 (ip_inputs p)" by (simp add: min_def)
  ultimately show thesis by (intro that) (simp_all add: write_input_packet_def Let_def kMaxInputsPerPacket_def ms(1))
qed

lemma frames_input_packet:
  assumes "list_all axes_ok (take 16 (ip_inputs p))"
  shows "brc.frames read_input_packet (input_packet_bits p) (received_packet_of p)"
proof -
  let ?k = "min (length (ip_inputs p)) 16"
  have count: "br.decodes (read_ranged 0 16) (ranged_bits (word_of_nat ?k) 0 16) (word_of_nat ?k)"
    by (rule decodes_read_ranged) (simp_all add: count_range)
  have n: "unat (word_of_nat ?k :: u32) = length (take 16 (ip_inputs p))" "\<not> (word_of_nat ?k :: u32) <s 0"
    by (simp_all add: count_range min.commute word_sless_alt)
  note ins = decodes_inputs [OF assms]
  have g: "brc.guarded (do { inputs \<leftarrow> repeat_read n read_move_input; overflowed \<leftarrow> read_overflowed;
         State_Monad.return (if overflowed then None
           else Some \<lparr>ip_client_tick = a, ip_acked_snapshot_tick = b, ip_inputs = inputs\<rparr>) })" for n a b
    by (intro guarded_intros decodes_intros) simp
  have "brc.frames (do { overflowed \<leftarrow> read_overflowed;
       if overflowed \<or> (word_of_nat ?k :: u32) <s 0 then State_Monad.return None
       else do { inputs \<leftarrow> repeat_read (unat (word_of_nat ?k :: u32)) read_move_input; overflowed \<leftarrow> read_overflowed;
         State_Monad.return (if overflowed then None
           else Some \<lparr>ip_client_tick = ip_client_tick p, ip_acked_snapshot_tick = ip_acked_snapshot_tick p, ip_inputs = inputs\<rparr>) } })
      (concat (map input_bits (take 16 (ip_inputs p)))) (received_packet_of p)"
    unfolding n(1)
    by (rule brc.frames_check, simp only: n(2) if_False simp_thms, rule frames_last [OF ins], rule frames_final)
      (simp_all add: received_packet_of_def kMaxInputsPerPacket_def brc.guarded_none g guarded_final)
  then show ?thesis
    unfolding read_input_packet_def input_packet_bits_def kMaxInputsPerPacket_def
    by - (rule frames_tag, rule brc.frames_bind [OF decodes_read_u32], rule brc.frames_bind [OF decodes_read_u32],
        rule brc.frames_bind [OF count], assumption, (intro guarded_intros brc.guarded_check decodes_intros g; simp)+)
qed



section \<open>What a decoder can return\<close>

lemma unat_of_bits: "length bs \<le> n \<Longrightarrow> n \<le> LENGTH('a) \<Longrightarrow> unat (of_bits bs :: 'a::len word) < 2 ^ n"
proof -
  assume "length bs \<le> n" "n \<le> LENGTH('a)"
  then have "take_bit n (of_bits bs :: 'a word) = of_bits bs" by (auto simp: bit_eq_iff bit_take_bit_iff bit_of_bits)
  then have "take_bit n (unat (of_bits bs :: 'a word)) = unat (of_bits bs :: 'a word)" by (metis unsigned_take_bit_eq)
  then show ?thesis by (simp add: take_bit_nat_eq_self_iff)
qed

lemma read_bits_bound:
  assumes r: "br_wf r" and n: "0 < unat n" "unat n \<le> 32" and run: "run_state (read_bits n) r = (v, r')"
  shows "unat v < 2 ^ unat n" and "br_wf r'"
proof -
  show "br_wf r'" using br.safeD [OF br.safe_get [OF n] r run] by simp
  show "unat v < 2 ^ unat n"
  proof (cases "unat n \<le> length (br_remaining r)")
    case True
    have "v = of_bits (take (unat n) (br_remaining r))" using br.get_enough [OF r n True run] by simp
    then show ?thesis using n(2) unat_of_bits [of "take (unat n) (br_remaining r)" "unat n", where ?'a = 32] by simp
  next
    case False
    then have "v = 0" using br.get_short [OF r n _ run] by simp
    then show ?thesis by simp
  qed
qed

lemma axis_levels: "uint (q_levels input_axis_quantizer) = 255"
  unfolding input_axis_quantizer_def f_one_def by code_simp

lemma axis_decode_within: "unat n < 2 ^ 8 \<Longrightarrow> f_within (q_decode input_axis_quantizer n) (2 ^ 149)"
proof -
  assume "unat n < 2 ^ 8"
  then have "unat n \<le> 255" by simp
  then have "int (unat n) \<le> int 255" by (simp only: of_nat_le_iff)
  then have n: "uint n \<le> uint (q_levels input_axis_quantizer)" by (simp add: axis_levels)
  have "f_units (q_min input_axis_quantizer) = - (2 ^ 149)"
      "f_units (f_add (q_min input_axis_quantizer) (f_sub (q_max input_axis_quantizer) (q_min input_axis_quantizer))) = 2 ^ 149"
    unfolding input_axis_quantizer_def f_one_def by code_simp+
  with q_decode_between [OF axis_fine n] show ?thesis by (simp add: f_within_def abs_le_iff)
qed

lemma read_move_input_ok:
  assumes r: "br_wf r" and run: "run_state read_move_input r = (i, r')"
  shows "input_ok i" and "mi_tick i = 0" and "br_wf r'"
proof -
  obtain sq r1 where r1: "run_state read_u32 r = (sq, r1)" by (cases "run_state read_u32 r")
  obtain x r2 where r2: "run_state (read_bits 8) r1 = (x, r2)" by (cases "run_state (read_bits 8) r1")
  obtain y r3 where r3: "run_state (read_bits 8) r2 = (y, r3)" by (cases "run_state (read_bits 8) r2")
  have w1: "br_wf r1" using br.safeD [OF safe_read_u32 r r1] by simp
  note x = read_bits_bound [OF w1 _ _ r2] and y = read_bits_bound [OF _ _ _ r3]
  have b: "unat x < 2 ^ 8" "unat y < 2 ^ 8" using x y by simp_all
  have "mi_move_x i = q_decode input_axis_quantizer x" "mi_move_y i = q_decode input_axis_quantizer y" and tick: "mi_tick i = 0"
    using run by (auto simp: read_move_input_def mk_move_input_def axis_bits r1 r2 r3 split: prod.splits)
  with axis_decode_within [OF b(1)] axis_decode_within [OF b(2)] show "input_ok i" by (simp add: input_ok_def)
  show "mi_tick i = 0" by (rule tick)
  show "br_wf r'" using br.safeD [OF safe_read_move_input r run] by simp
qed

lemma repeat_read_ok:
  assumes step: "\<And>r x r'. br_wf r \<Longrightarrow> run_state m r = (x, r') \<Longrightarrow> P x \<and> br_wf r'"
  shows "br_wf r \<Longrightarrow> run_state (repeat_read n m) r = (xs, r') \<Longrightarrow> length xs = n \<and> list_all P xs \<and> br_wf r'"
proof (induction n arbitrary: r xs r')
  case 0
  then show ?case by simp
next
  case (Suc n)
  obtain x r1 where x: "run_state m r = (x, r1)" by (cases "run_state m r")
  obtain ys r2 where ys: "run_state (repeat_read n m) r1 = (ys, r2)" by (cases "run_state (repeat_read n m) r1")
  from Suc.prems(2) x ys have "xs = x # ys" "r' = r2" by simp_all
  with step [OF Suc.prems(1) x] Suc.IH [OF _ ys] show ?case by simp
qed

lemma read_input_packet_ok:
  assumes r: "br_wf r" and run: "run_state read_input_packet r = (Some p, r')"
  shows "length (ip_inputs p) < 32 \<and> list_all (\<lambda>i. input_ok i \<and> mi_tick i = 0) (ip_inputs p)"
proof -
  obtain t r1 where r1: "run_state read_u8 r = (t, r1)" by (cases "run_state read_u8 r")
  obtain ct r2 where r2: "run_state read_u32 r1 = (ct, r2)" by (cases "run_state read_u32 r1")
  obtain ak r3 where r3: "run_state read_u32 r2 = (ak, r3)" by (cases "run_state read_u32 r2")
  have five: "bits_required 0 16 = 5" by code_simp
  obtain c r4 where r4: "run_state (read_bits 5) r3 = (c, r4)" by (cases "run_state (read_bits 5) r3")
  obtain xs r5 where r5: "run_state (repeat_read (unat c) read_move_input) r4 = (xs, r5)"
    by (cases "run_state (repeat_read (unat c) read_move_input) r4")
  have "br_wf r1" using br.safeD [OF safe_read_u8 r r1] by simp
  then have "br_wf r2" using br.safeD [OF safe_read_u32 _ r2] by simp
  then have "br_wf r3" using br.safeD [OF safe_read_u32 _ r3] by simp
  then have c: "unat c < 2 ^ unat (5 :: u32)" "br_wf r4" using read_bits_bound [OF _ _ _ r4] by simp_all
  have xs: "length xs = unat c \<and> list_all (\<lambda>i. input_ok i \<and> mi_tick i = 0) xs \<and> br_wf r5"
    by (rule repeat_read_ok [OF _ c(2) r5]) (use read_move_input_ok in blast)
  have "ip_inputs p = xs"
    using run by (auto simp: read_input_packet_def r1 r2 r3 r4 r5 read_ranged_def kMaxInputsPerPacket_def five
        read_overflowed_def split: if_splits)
  with xs c(1) show ?thesis by simp
qed



section \<open>The properties\<close>

lemma length_input_packet_bits: "length (input_packet_bits p) \<le> 861"
proof -
  have five: "bits_required 0 16 = 5" by code_simp
  have "length (concat (map input_bits xs)) = 49 * length xs" for xs by (induction xs) simp_all
  then show ?thesis by (simp add: input_packet_bits_def ranged_bits_def five)
qed

text \<open>
  Input packets. A packet whose axes are numbers, encoded into a buffer of at least 108 bytes, always
  fits; decoding the encoded bytes gives the packet with its first sixteen inputs, their axes
  quantized, and every proper prefix of the encoded bytes is rejected.
\<close>

lemma input_packet_roundtrip:
  assumes "list_all axes_ok (ip_inputs p)" and "108 \<le> unat c" and "unat c \<le> length buf" and "unat c < 268435456"
  shows "\<exists>n out. encode_input_packet p buf c = Some (n, out) \<and> 0 < unat n \<and> unat n \<le> 108 \<and> unat n \<le> length out \<and>
    decode_input_packet out n = Some (received_packet_of p) \<and> (\<forall>k. unat k < unat n \<longrightarrow> decode_input_packet out k = None)"
proof -
  have ok: "list_all axes_ok (take 16 (ip_inputs p))" using assms(1) by (auto simp: list_all_iff dest: in_set_takeD)
  obtain m where m: "write_input_packet p = Some m" "bw.emits m (input_packet_bits p)" by (rule write_input_packet_some [OF ok])
  obtain n out where run: "finish_writer m buf c = (n, out)" by (cases "finish_writer m buf c")
  have fit: "length (input_packet_bits p) \<le> 8 * unat c" using length_input_packet_bits [of p] assms(2) by simp
  note r = message_roundtrip [OF m(2) frames_input_packet [OF ok] assms(3,4) fit run]
  have "8 \<le> length (input_packet_bits p)" by (simp add: input_packet_bits_def)
  then have "0 < unat n" "unat n \<le> 108" using r(1) length_input_packet_bits [of p] by simp_all
  with r m(1) run show ?thesis by (simp add: encode_input_packet_def decode_input_packet_def)
qed

text \<open>A quantized input is received bit for bit, its tick apart.\<close>

lemma quantize_input_received:
  assumes "axes_ok i"
  shows "\<exists>j. quantize_input i = Some j \<and> axes_ok j \<and> received_input j = j\<lparr>mi_tick := 0\<rparr>"
proof -
  let ?q = input_axis_quantizer
  have one: "f_finite f_one" "f_finite (f_neg f_one)" "f_units (f_neg f_one) \<le> f_units f_one" using f_one_units by simp_all
  have snap: "\<exists>n. q_encode ?q (clampf v (f_neg f_one) f_one) = Some n \<and> q_snap ?q (q_decode ?q n) = Some (q_decode ?q n) \<and>
      \<not> f_isnan (q_decode ?q n)" if v: "\<not> f_isnan v" for v
  proof -
    have "\<not> f_isnan (clampf v (f_neg f_one) f_one)" using clampf_between(1) [OF v one(2,1,3)] by simp
    then obtain n where n: "q_encode ?q (clampf v (f_neg f_one) f_one) = Some n" "unat n < 2 ^ 8" by (rule axis_encode)
    have "unat n \<le> 255" using n(2) by simp
    then have "int (unat n) \<le> int 255" by (simp only: of_nat_le_iff)
    then have le: "uint n \<le> uint (q_levels ?q)" by (simp add: axis_levels)
    have "q_encode ?q (q_decode ?q n) = Some n" by (rule q_encode_decode [OF axis_fine le])
    with n(1) q_decode_error(1) [OF axis_fine le] show ?thesis by (auto simp: q_snap_def)
  qed
  obtain m where m: "q_encode ?q (clampf (mi_move_x i) (f_neg f_one) f_one) = Some m"
      "q_snap ?q (q_decode ?q m) = Some (q_decode ?q m)" "\<not> f_isnan (q_decode ?q m)"
    using snap [of "mi_move_x i"] assms by (auto simp: axes_ok_def)
  obtain n where n: "q_encode ?q (clampf (mi_move_y i) (f_neg f_one) f_one) = Some n"
      "q_snap ?q (q_decode ?q n) = Some (q_decode ?q n)" "\<not> f_isnan (q_decode ?q n)"
    using snap [of "mi_move_y i"] assms by (auto simp: axes_ok_def)
  define j where "j = i\<lparr>mi_move_x := q_decode ?q m, mi_move_y := q_decode ?q n\<rparr>"
  have "quantize_input i = Some j" by (simp add: quantize_input_def Let_def q_snap_def m(1) n(1) j_def)
  moreover have "axes_ok j" using m(3) n(3) by (simp add: axes_ok_def j_def)
  moreover have "received_input j = j\<lparr>mi_tick := 0\<rparr>" using m(2) n(2) by (simp add: received_input_def j_def mk_move_input_def)
  ultimately show ?thesis by blast
qed

lemma quantize_inputs_received:
  assumes "list_all axes_ok ins"
  shows "\<exists>js. list_all2 (\<lambda>i j. quantize_input i = Some j) ins js \<and> list_all axes_ok js \<and> map received_input js = map (\<lambda>j. j\<lparr>mi_tick := 0\<rparr>) js"
  using assms
proof (induction ins)
  case (Cons i ins)
  obtain js where js: "list_all2 (\<lambda>i j. quantize_input i = Some j) ins js" "list_all axes_ok js" "map received_input js = map (\<lambda>j. j\<lparr>mi_tick := 0\<rparr>) js"
    using Cons by auto
  obtain j where "quantize_input i = Some j" "axes_ok j" "received_input j = j\<lparr>mi_tick := 0\<rparr>" using Cons.prems quantize_input_received [of i] by auto
  with js show ?case by (intro exI [of _ "j # js"]) simp
qed simp

lemma step_movement_tick: "step_movement s (i\<lparr>mi_tick := t\<rparr>) p dt = step_movement s i p dt"
  by (simp add: step_movement_def)

lemma fold_movement_tick:
  "foldl (\<lambda>s i. step_movement s i p dt) s (map (\<lambda>j. j\<lparr>mi_tick := 0\<rparr>) js) = foldl (\<lambda>s i. step_movement s i p dt) s js"
  by (induction js arbitrary: s) (simp_all add: step_movement_tick)

text \<open>
  C15: prediction and authority agree. Up to sixteen inputs whose axes are numbers are quantized by the client; the packet of
  the quantized inputs always fits a buffer of at least 108 bytes, and what the server decodes from it has the ticks of the
  packet and the quantized inputs bit for bit (their ticks apart, which are not sent), so that from any state the movement of
  the received inputs is the movement that the client predicted.
\<close>

theorem quantized_input_agrees:
  assumes "list_all axes_ok ins" and "length ins \<le> 16" and "108 \<le> unat c" and "unat c \<le> length buf" and "unat c < 268435456"
  shows "\<exists>js n out received. list_all2 (\<lambda>i j. quantize_input i = Some j) ins js \<and>
    encode_input_packet \<lparr>ip_client_tick = t, ip_acked_snapshot_tick = a, ip_inputs = js\<rparr> buf c = Some (n, out) \<and>
    decode_input_packet out n = Some received \<and> ip_client_tick received = t \<and> ip_acked_snapshot_tick received = a \<and>
    ip_inputs received = map (\<lambda>j. j\<lparr>mi_tick := 0\<rparr>) js \<and>
    (\<forall>s p dt. foldl (\<lambda>s i. step_movement s i p dt) s (ip_inputs received) = foldl (\<lambda>s i. step_movement s i p dt) s js)"
proof -
  obtain js where js: "list_all2 (\<lambda>i j. quantize_input i = Some j) ins js" "list_all axes_ok js" "map received_input js = map (\<lambda>j. j\<lparr>mi_tick := 0\<rparr>) js"
    using quantize_inputs_received [OF assms(1)] by blast
  let ?p = "\<lparr>ip_client_tick = t, ip_acked_snapshot_tick = a, ip_inputs = js\<rparr>"
  have "list_all axes_ok (ip_inputs ?p)" using js(2) by simp
  from input_packet_roundtrip [OF this assms(3-5)] obtain n out where
    run: "encode_input_packet ?p buf c = Some (n, out)" "decode_input_packet out n = Some (received_packet_of ?p)" by blast
  have "take (unat kMaxInputsPerPacket) js = js" using list_all2_lengthD [OF js(1)] assms(2) by (simp add: kMaxInputsPerPacket_def)
  then have "received_packet_of ?p = ?p\<lparr>ip_inputs := map (\<lambda>j. j\<lparr>mi_tick := 0\<rparr>) js\<rparr>" by (simp add: received_packet_of_def js(3))
  with run js(1) show ?thesis by (auto simp: fold_movement_tick)
qed

theorem quantized_input_agrees_witness:
  "\<exists>j n out. quantize_input (mk_move_input\<lparr>mi_tick := 9, mi_sequence := 4, mi_move_x := 0x3e99999a\<rparr>) = Some j \<and>
    encode_input_packet \<lparr>ip_client_tick = 9, ip_acked_snapshot_tick = 3, ip_inputs = [j]\<rparr> (replicate 128 0) 128 = Some (n, out) \<and>
    map_option ip_inputs (decode_input_packet out n) = Some [j\<lparr>mi_tick := 0\<rparr>]"
proof -
  have "list_all axes_ok [mk_move_input\<lparr>mi_tick := 9, mi_sequence := 4, mi_move_x := 0x3e99999a\<rparr>]" by code_simp
  from quantized_input_agrees [OF this, of 128 "replicate 128 0" 9 3] show ?thesis by (auto simp: list_all2_Cons1)
qed

text \<open>
  C16: hostile input packets. Whatever bytes arrive, an accepted input packet holds at most 31 inputs, each
  with finite axes between -1 and 1, so the movement integrator can run on them.
\<close>

theorem decoded_inputs_bounded:
  assumes "unat n \<le> length data" and "unat n < 268435456" and "decode_input_packet data n = Some p"
  shows "length (ip_inputs p) < 32 \<and> list_all input_ok (ip_inputs p)"
proof -
  obtain r where "run_state read_input_packet (mk_reader data n) = (Some p, r)"
    using assms(3) by (cases "run_state read_input_packet (mk_reader data n)") (simp add: decode_input_packet_def)
  with read_input_packet_ok [OF mk_reader_wf(1) [OF assms(1,2)]] show ?thesis by (auto simp: list_all_iff)
qed

text \<open>A packet of one input, as the encoder writes it.\<close>

definition sample_packet :: "input_packet" where
  "sample_packet = \<lparr>ip_client_tick = 7, ip_acked_snapshot_tick = 3, ip_inputs = [mk_move_input\<lparr>mi_sequence := 5, mi_move_x := 0x3f800000\<rparr>]\<rparr>"

theorem decoded_inputs_bounded_witness:
  "\<exists>n data p. encode_input_packet sample_packet (replicate 128 0) 128 = Some (n, data) \<and> decode_input_packet data n = Some p \<and>
     map mi_sequence (ip_inputs p) = [5] \<and> length (ip_inputs p) < 32 \<and> list_all input_ok (ip_inputs p)"
proof -
  have "list_all axes_ok (ip_inputs sample_packet)" by code_simp
  from input_packet_roundtrip [OF this, of 128 "replicate 128 0"] obtain n data where
    e: "encode_input_packet sample_packet (replicate 128 0) 128 = Some (n, data)" "unat n \<le> 108" "unat n \<le> length data"
      "decode_input_packet data n = Some (received_packet_of sample_packet)" by auto
  have "unat n < 268435456" using e(2) by simp
  from decoded_inputs_bounded [OF e(3) this e(4)] e show ?thesis
    by (simp add: received_packet_of_def sample_packet_def received_input_def kMaxInputsPerPacket_def)
qed

text \<open>
  Events. A world configuration, and a migration redirect with an endpoint, whose strings have at most
  1023 bytes and that fit the buffer are decoded to what was encoded, and no proper prefix is accepted.
\<close>

theorem events_roundtrip:
  assumes "unat c \<le> length buf" and "unat c < 268435456"
  shows "(length (wc_shard_id e) \<le> 1023 \<longrightarrow> length (world_config_bits e) \<le> 8 * unat c \<longrightarrow>
      (case encode_world_config e buf c of (n, out) \<Rightarrow>
         decode_world_config out n = Some e \<and> (\<forall>k. unat k < unat n \<longrightarrow> decode_world_config out k = None))) \<and>
    (length (mr_endpoint r) \<le> 1023 \<longrightarrow> length (mr_shard_id r) \<le> 1023 \<longrightarrow> mr_endpoint r \<noteq> [] \<longrightarrow>
      length (migrate_redirect_bits r) \<le> 8 * unat c \<longrightarrow>
      (case encode_migrate_redirect r buf c of (n, out) \<Rightarrow>
         decode_migrate_redirect out n = Some r \<and> (\<forall>k. unat k < unat n \<longrightarrow> decode_migrate_redirect out k = None)))"
proof (intro conjI impI)
  assume "length (wc_shard_id e) \<le> 1023" and fit: "length (world_config_bits e) \<le> 8 * unat c"
  note f = frames_world_config [OF this(1)]
  obtain n out where run: "encode_world_config e buf c = (n, out)" by (cases "encode_world_config e buf c")
  note m = message_roundtrip [OF emits_world_config f assms fit run [unfolded encode_world_config_def]]
  from m(4,5) show "case encode_world_config e buf c of (n, out) \<Rightarrow>
      decode_world_config out n = Some e \<and> (\<forall>k. unat k < unat n \<longrightarrow> decode_world_config out k = None)"
    by (simp add: run decode_world_config_def)
next
  assume "length (mr_endpoint r) \<le> 1023" "length (mr_shard_id r) \<le> 1023" "mr_endpoint r \<noteq> []"
    and fit: "length (migrate_redirect_bits r) \<le> 8 * unat c"
  note f = frames_migrate_redirect [OF this(1-3)]
  obtain n out where run: "encode_migrate_redirect r buf c = (n, out)" by (cases "encode_migrate_redirect r buf c")
  note m = message_roundtrip [OF emits_migrate_redirect f assms fit run [unfolded encode_migrate_redirect_def]]
  from m(4,5) show "case encode_migrate_redirect r buf c of (n, out) \<Rightarrow>
      decode_migrate_redirect out n = Some r \<and> (\<forall>k. unat k < unat n \<longrightarrow> decode_migrate_redirect out k = None)"
    by (simp add: run decode_migrate_redirect_def)
qed

definition sample_config :: world_config_event where
  "sample_config = \<lparr>wc_entity = 5, wc_tick = 900, wc_region = 2, wc_world_size = 0x45000000, wc_tick_rate = 30, wc_shard_id = [97]\<rparr>"

definition sample_redirect :: migrate_redirect_event where
  "sample_redirect = \<lparr>mr_ticket = 77, mr_region = 3, mr_endpoint = [104], mr_shard_id = [98]\<rparr>"

theorem events_roundtrip_witness:
  "(case encode_world_config sample_config (replicate 64 0) 64 of (n, out) \<Rightarrow>
      decode_world_config out n = Some sample_config \<and> (\<forall>k. unat k < unat n \<longrightarrow> decode_world_config out k = None)) \<and>
   (case encode_migrate_redirect sample_redirect (replicate 64 0) 64 of (n, out) \<Rightarrow>
      decode_migrate_redirect out n = Some sample_redirect \<and> (\<forall>k. unat k < unat n \<longrightarrow> decode_migrate_redirect out k = None))"
proof -
  have "length (world_config_bits sample_config) = 136" "length (migrate_redirect_bits sample_redirect) = 112" by code_simp+
  then show ?thesis
    using events_roundtrip [of 64 "replicate 64 0" sample_config sample_redirect] by (simp add: sample_config_def sample_redirect_def)
qed

lemma length_credential_bits:
  assumes "length (cc_player_id c) \<le> 20"
  shows "length (credential_bits c) = 8 * (10 + length (cc_player_id c))"
proof -
  have "unat (word_of_nat (length (cc_player_id c)) :: u32) < 2 ^ (7 * 1)" using assms by (simp add: unat_of_nat_less)
  from length_varint_bytes [OF this] have "length (varint_bytes (word_of_nat (length (cc_player_id c)))) \<le> 1" by simp
  moreover have "varint_bytes v \<noteq> []" for v by (subst varint_bytes.simps) simp
  ultimately have "length (varint_bytes (word_of_nat (length (cc_player_id c)))) = 1"
    by (metis One_nat_def le_SucE le_zero_eq length_0_conv)
  then show ?thesis using assms by (simp add: credential_bits_def string_bits_def)
qed

text \<open>Every field of a credential ends at a byte boundary, so the buffer is complete without a final flush.\<close>

lemma encode_credential_some:
  assumes id: "cc_player_id c \<noteq> []" "length (cc_player_id c) \<le> kMaxPlayerIdBytes"
  obtains token rest where "encode_credential c = Some token" and "32 \<le> length token"
    and "bytes_bits (take 32 token) = credential_bits c @ rest"
proof -
  obtain x w where run: "run_state (do { write_u8 (credential_kind_code (cc_kind c)); write_u64 (cc_token c);
      write_string (cc_player_id c) }) (mk_writer (replicate 32 0) 32) = (x, w)" using prod.exhaust by metis
  note w0 = mk_writer_wf [of 32 "replicate 32 0", simplified]
  note e = bw.emits_step [OF emits_credential w0(1) run]
  have len: "length (credential_bits c) = 8 * (10 + length (cc_player_id c))" "length (credential_bits c) \<le> 240"
    using id length_credential_bits [of c] by (simp_all add: kMaxPlayerIdBytes_def)
  have wf: "bw_wf w" and bits: "bw_bits w = credential_bits c" and room: "bw_room w + length (credential_bits c) = 256"
    and ok: "\<not> bw_overflow w"
    using e w0 len(2) by simp_all
  have pos: "unat (bw_bit_pos w) = length (credential_bits c)" using length_bw_bits [OF wf] bits by simp
  then have cap: "unat (bw_capacity_bits w) = 256" using room wf by (simp add: bw_room_def bw_wf_def)
  have "8 * (10 + length (cc_player_id c)) = 8 * unat (bw_flushed_bytes w) + unat (bw_pending_bits w)"
    and "unat (bw_pending_bits w) < 8" using wf pos len(1) by (simp_all add: bw_wf_def)
  then have p0: "unat (bw_pending_bits w) = 0" by presburger
  let ?f = "unat (bw_flushed_bytes w)" and ?t = "bw_buffer w"
  have f: "?f \<le> 32" using wf p0 cap by (simp add: bw_wf_def)
  have "take 32 ?t = take ?f ?t @ drop ?f (take 32 ?t)" using f by (metis append_take_drop_id min.absorb1 take_take)
  moreover have "bytes_bits (take ?f ?t) = credential_bits c" using bits p0 by (simp add: bw_bits_def)
  ultimately have split: "bytes_bits (take 32 ?t) = credential_bits c @ bytes_bits (drop ?f (take 32 ?t))"
    by (metis bytes_bits_append)
  have enc: "encode_credential c = Some ?t" using id ok run by (simp add: encode_credential_def kConnectTokenBytes_def)
  have "32 \<le> length ?t" using wf cap by (simp add: bw_wf_def)
  from that [OF enc this split] show thesis .
qed

text \<open>
  Credentials. \<open>encode_credential\<close> refuses exactly the empty and the overlong player names; the token of
  any other credential is decoded to the same kind, the same token and the same name.
\<close>

theorem credential_roundtrip:
  "if cc_player_id c = [] \<or> kMaxPlayerIdBytes < length (cc_player_id c) then encode_credential c = None
   else Option.bind (encode_credential c) decode_credential = Some c"
proof (cases "cc_player_id c = [] \<or> kMaxPlayerIdBytes < length (cc_player_id c)")
  case True
  then show ?thesis by (auto simp: encode_credential_def)
next
  case False
  then have id: "cc_player_id c \<noteq> []" "length (cc_player_id c) \<le> kMaxPlayerIdBytes" by auto
  obtain token rest where t: "encode_credential c = Some token" "32 \<le> length token"
      "bytes_bits (take 32 token) = credential_bits c @ rest" by (rule encode_credential_some [OF id])
  note r = mk_reader_wf [of 32 token, simplified, OF t(2)]
  have "decode_credential token = Some c"
    unfolding decode_credential_def kConnectTokenBytes_def
    by (rule brc.framesD [OF frames_credential [OF id(2,1)] r(1,3)]) (use r(2) t(3) in simp)
  with False t(1) show ?thesis by simp
qed

end
