(* ===== verification/World_Invariant.thy ===== *)
theory World_Invariant
  imports World Messages
begin

text \<open>
  The invariant of the simulation: every operation of \<open>World\<close> keeps the store, the players and the grid in
  order, every entity inside the square of the world with a bounded speed, and a tick always has a result,
  after which every entity is between the walls of the arena.
\<close>

section \<open>The collision response is bounded\<close>

text \<open>A correction far below the resolution of the bound leaves the bound in force.\<close>

lemma absorbed: "rkey (2 ^ 190 + 2 ^ 164) 1 = rkey (2 ^ 190) 1" "rkey (- (2 ^ 190) - 2 ^ 164) 1 = rkey (- (2 ^ 190)) 1"
  by code_simp+

lemma within_absorb:
  assumes x: "f_within x (2 ^ 190)" and k: "f_key r = rkey (f_units x + d) 1" and d: "\<bar>d\<bar> \<le> 2 ^ 164"
  shows "f_within r (2 ^ 190)"
proof -
  obtain b where b: "f_finite b" "f_units b = 2 ^ 190" using power_of_two [of 190] by auto
  have u: "\<bar>f_units x\<bar> \<le> 2 ^ 190" using x by (simp add: f_within_def)
  have "f_key r \<le> rkey (2 ^ 190 + 2 ^ 164) 1" unfolding k using u d by (intro rkey_mono) simp_all
  also have "\<dots> = f_key b" unfolding absorbed using rkey_exact [OF b(1), of 1] by (simp add: b(2))
  finally have hi: "f_units r \<le> f_units b" by (simp only: f_units_le_iff)
  have "f_key (f_neg b) = rkey (- (2 ^ 190) - 2 ^ 164) 1" unfolding absorbed using rkey_exact [of "f_neg b" 1] b by simp
  also have "\<dots> \<le> f_key r" unfolding k using u d by (intro rkey_mono) simp_all
  finally have lo: "f_units (f_neg b) \<le> f_units r" by (simp only: f_units_le_iff)
  have "\<bar>f_key r\<bar> < inf_mag"
  proof -
    have "f_key (f_neg b) \<le> f_key r" "f_key r \<le> f_key b" using hi lo by (simp_all only: f_units_le_iff)
    moreover have "f_finite (f_neg b)" using b by simp
    ultimately show ?thesis using b(1) by (simp add: f_finite_key)
  qed
  with hi lo b show ?thesis by (simp add: f_within_def f_finite_key abs_le_iff)
qed

lemma within_add_small: "f_within x (2 ^ 190) \<Longrightarrow> f_within c (2 ^ 164) \<Longrightarrow> f_within (f_add x c) (2 ^ 190)"
  by (rule within_absorb [of x _ "f_units c"]) (simp_all add: f_within_def f_key_add)

lemma within_sub_small: "f_within x (2 ^ 190) \<Longrightarrow> f_within c (2 ^ 164) \<Longrightarrow> f_within (f_sub x c) (2 ^ 190)"
  by (rule within_absorb [of x _ "- f_units c"]) (simp_all add: f_within_def f_key_sub)

lemma within_sub: "f_within x a \<Longrightarrow> f_within y b \<Longrightarrow> a + b \<le> 2 ^ k \<Longrightarrow> k \<le> 252 \<Longrightarrow> f_within (f_sub x y) (2 ^ k)"
  unfolding f_sub_def by (erule within_add [of _ _ "f_neg y"]) (simp_all add: f_within_def)

lemma sqrt_tiny:
  assumes "f_finite s" and "0 \<le> f_units s" and "f_units s < 2 ^ 24"
  shows "f_lt (f_sqrt s) 0x38d1b717"
proof -
  have c: "f_finite 0x38d1b717" "2 ^ 87 < f_units 0x38d1b717" by code_simp+
  show ?thesis
  proof (cases "f_units s = 0")
    case True
    then have "mag_units (f_mag s) = 0" by (auto simp: f_units_def split: if_splits)
    then have "\<not> 0 < f_mag s" using mag_units_less [of 0 "f_mag s"] by auto
    then have "f_mag s = 0" using f_mag_bounds(1) [of s] by simp
    then have "f_sqrt s = s" using assms(1) by (simp add: f_sqrt_def)
    then show ?thesis using True assms(1) c by (simp add: f_lt_finite)
  next
    case False
    then have pos: "0 < f_units s" using assms(2) by simp
    define r where "r = isqrt (f_units s * 2 ^ 149)"
    obtain t where t: "f_key (f_sqrt s) = rkey (2 * r + t) 2" "0 \<le> t" "t \<le> 1"
      using f_sqrt_key [OF assms(1) pos] unfolding r_def by blast
    have r: "0 \<le> r" "r * r \<le> f_units s * 2 ^ 149" using isqrt_bounds [of "f_units s * 2 ^ 149"] pos by (simp_all add: r_def)
    have "r < 2 ^ 87"
    proof (rule ccontr)
      assume "\<not> r < 2 ^ 87"
      then have "2 ^ 87 * 2 ^ 87 \<le> r * r" by (intro mult_mono) simp_all
      with r(2) assms(3) show False by simp
    qed
    obtain b where b: "f_finite b" "f_units b = 2 ^ 87" using power_of_two [of 87] by auto
    note btw = rounded_between [OF t(1) _ zero_units(1) b(1)]
    have "f_finite (f_sqrt s)" "f_units (f_sqrt s) \<le> 2 ^ 87"
      using btw(1,3) r(1) t \<open>r < 2 ^ 87\<close> by (simp_all add: zero_units b(2))
    then show ?thesis using c by (simp add: f_lt_finite)
  qed
qed

text \<open>One coordinate of a unit vector computed as a product with the reciprocal of the length.\<close>

lemma axis_coordinate:
  assumes c: "f_finite c" "f_finite (f_mul c c)" "f_units (f_mul c c) \<le> f_units s"
    and s: "f_finite s" "2 ^ 24 \<le> f_units s" and top: "f_units (f_sqrt s) \<le> 2 ^ 250"
    and big: "2 ^ 30 \<le> f_units (f_sqrt s)"
  shows "f_within (f_mul c (f_div f_one (f_sqrt s))) (2 ^ 150)"
proof -
  note l = f_sqrt_bounds [OF s]
  let ?l = "f_units (f_sqrt s)"
  have "8 * (f_units c * f_units c) \<le> 9 * (f_units s * 2 ^ 149)" using c s by (intro square_below) simp_all
  with l(3) have "8 * (f_units c * f_units c) \<le> 10 * (?l * ?l)" by linarith
  moreover have "0 \<le> ?l * ?l" by simp
  ultimately have "16 * (f_units c * f_units c) \<le> 25 * (?l * ?l)" by linarith
  then have "(4 * f_units c) * (4 * f_units c) \<le> (5 * ?l) * (5 * ?l)" by simp
  then have cl: "4 * \<bar>f_units c\<bar> \<le> 5 * ?l" using l(2) square_le_imp [of "5 * ?l" "4 * f_units c"] by (simp add: abs_mult)
  define L where "L = real_of_int ?l"
  have L: "0 < L" "L \<le> 2 ^ 250" "2 ^ 30 \<le> L" using l(2) top big by (simp_all add: L_def)
  let ?q = "f_div f_one (f_sqrt s)"
  have k: "f_key ?q = rkey (2 ^ 149 * 2 ^ 149) ?l" using f_key_div(1) [OF f_one_units(1) l(1,2)] by (simp add: f_one_units)
  obtain hi where hi: "f_finite hi" "f_units hi = 2 ^ 270" using representable [of "2 ^ 18" 252] by auto
  have "(2 :: int) ^ 298 \<le> 2 ^ 270 * 2 ^ 30" by simp
  also have "\<dots> \<le> 2 ^ 270 * ?l" using big by (intro mult_left_mono) simp_all
  finally have fin: "f_finite ?q" using rounded_abs(1) [OF k l(2) hi(1)] by (simp add: hi(2))
  have B: "2 ^ 23 \<le> 2 ^ 298 / L"
  proof -
    have "(2 :: real) ^ 23 * L \<le> 2 ^ 23 * 2 ^ 250" using L(2) by (intro mult_left_mono) simp_all
    also have "\<dots> \<le> 2 ^ 298" by simp
    finally show ?thesis using L(1) by (simp add: pos_le_divide_eq)
  qed
  have "\<bar>real_of_int (f_units ?q) - 2 ^ 298 / L\<bar> \<le> 2 ^ 298 / L / 2 ^ 24"
    using rounded_error [OF k l(2) fin _ B] L(1) by (simp add: L_def)
  then have "\<bar>real_of_int (f_units ?q)\<bar> \<le> 2 ^ 298 / L + 2 ^ 298 / L / 2 ^ 24" using L(1) by (simp add: abs_le_iff)
  also have "\<dots> \<le> 8 / 5 * (2 ^ 298 / L)" using L(1) by (simp add: field_simps)
  finally have q: "\<bar>real_of_int (f_units ?q)\<bar> \<le> 8 / 5 * (2 ^ 298 / L)" .
  have cL: "\<bar>real_of_int (f_units c)\<bar> \<le> 5 / 4 * L"
  proof -
    have "real_of_int (4 * \<bar>f_units c\<bar>) \<le> real_of_int (5 * ?l)" using cl by (simp only: of_int_le_iff)
    then show ?thesis by (simp add: L_def)
  qed
  have "\<bar>real_of_int (f_units c)\<bar> * \<bar>real_of_int (f_units ?q)\<bar> \<le> (5 / 4 * L) * (8 / 5 * (2 ^ 298 / L))"
    by (rule mult_mono [OF cL q]) (use L(1) in simp_all)
  also have "\<dots> = 2 ^ 150 * 2 ^ 149" using L(1) by simp
  finally have "real_of_int (\<bar>f_units c\<bar> * \<bar>f_units ?q\<bar>) \<le> real_of_int (2 ^ 150 * 2 ^ 149)" by simp
  then have m: "\<bar>f_units c\<bar> * \<bar>f_units ?q\<bar> \<le> 2 ^ 150 * 2 ^ 149" by (simp only: of_int_le_iff)
  obtain b where b: "f_finite b" "f_units b = 2 ^ 150" using power_of_two [of 150] by auto
  from mul_bounded [OF c(1) fin b(1)] m show ?thesis by (simp add: f_within_def b(2))
qed

text \<open>The response to a pair of positions moves each of them by a bounded correction.\<close>

definition near_arena :: "vec2 \<Rightarrow> bool" where
  "near_arena v \<longleftrightarrow> f_within (vx v) (2 ^ 190) \<and> f_within (vy v) (2 ^ 190)"

text \<open>The cosine and the sine of a finite angle lie between -1 and 1.\<close>

definition unit_circle :: "(f32 \<Rightarrow> f32) \<Rightarrow> (f32 \<Rightarrow> f32) \<Rightarrow> bool" where
  "unit_circle cosf sinf \<longleftrightarrow> (\<forall>a. f_finite a \<longrightarrow> f_within (cosf a) (2 ^ 149) \<and> f_within (sinf a) (2 ^ 149))"

lemma noise_angle_finite: "f_finite (noise_angle n)"
proof -
  let ?n = "uint (n AND 0xffff)"
  have "n AND 0xffff = take_bit 16 n" by (simp add: take_bit_eq_mask mask_numeral)
  then have "?n = take_bit 16 (uint n)" by (simp only: unsigned_take_bit_eq)
  then have "?n = uint n mod 65536" by (simp add: take_bit_eq_mod)
  then have n: "0 \<le> ?n" "?n \<le> 65535" using pos_mod_bound [of 65536 "uint n"] by simp_all
  have x: "f_finite (f_of_int ?n)" "f_units (f_of_int ?n) = ?n * 2 ^ 149" using n by (simp_all add: f_of_int_exact)
  have c: "f_finite 0x477fff00" "f_units 0x477fff00 = 65535 * 2 ^ 149" "f_finite 0x40c90fdb" "0 \<le> f_units 0x40c90fdb" by code_simp+
  let ?q = "f_div (f_of_int ?n) 0x477fff00"
  have d: "(0 :: int) < 65535 * 2 ^ 149" by simp
  have k: "f_key ?q = rkey (?n * 2 ^ 149 * 2 ^ 149) (65535 * 2 ^ 149)" using f_key_div(1) [OF x(1) c(1)] by (simp add: c(2) x(2))
  have "f_units 0 * (65535 * 2 ^ 149) \<le> ?n * 2 ^ 149 * 2 ^ 149" "?n * 2 ^ 149 * 2 ^ 149 \<le> f_units f_one * (65535 * 2 ^ 149)"
    using n by (simp_all add: zero_units f_one_units)
  note q = rounded_between [OF k d zero_units(1) f_one_units(1) this]
  have "\<bar>f_units ?q\<bar> * \<bar>f_units 0x40c90fdb\<bar> \<le> f_units 0x40c90fdb * 2 ^ 149"
    using q(2,3) c(4) mult_right_mono [of "f_units ?q" "2 ^ 149" "f_units 0x40c90fdb"] by (simp add: zero_units f_one_units mult.commute)
  then show ?thesis unfolding noise_angle_def by (rule mul_bounded(1) [OF q(1) c(3) c(3)])
qed

lemma unit_circleD: "unit_circle cosf sinf \<Longrightarrow> f_within (cosf (noise_angle n)) (2 ^ 149) \<and> f_within (sinf (noise_angle n)) (2 ^ 149)"
  by (simp add: unit_circle_def noise_angle_finite)

definition contact_axis :: "(f32 \<Rightarrow> f32) \<Rightarrow> (f32 \<Rightarrow> f32) \<Rightarrow> u32 \<Rightarrow> vec2 \<Rightarrow> vec2 \<times> f32" where
  "contact_axis cosf sinf tie delta =
     (let distance = vec_length delta
      in if f_lt distance 0x38d1b717
         then let angle = noise_angle tie in (vec (cosf angle) (sinf angle), 0)
         else (vec_scale delta (f_div f_one distance), distance))"

lemma delta_within: "near_arena p \<Longrightarrow> near_arena q \<Longrightarrow> f_within (vx (vec_sub p q)) (2 ^ 191) \<and> f_within (vy (vec_sub p q)) (2 ^ 191)"
  unfolding near_arena_def vec_sub_def vec_simps by (intro conjI within_sub [of _ "2 ^ 190" _ "2 ^ 190"]) simp_all

lemma sqrt_top:
  assumes "f_finite s" and "2 ^ 24 \<le> f_units s" and "f_units s \<le> 2 ^ 340"
  shows "f_units (f_sqrt s) \<le> 2 ^ 250"
proof -
  have pos: "0 < f_units s" using assms(2) by simp
  define k where "k = isqrt (f_units s * 2 ^ 149)"
  obtain t where t: "f_key (f_sqrt s) = rkey (2 * k + t) 2" "0 \<le> t" "t \<le> 1"
    using f_sqrt_key [OF assms(1) pos] unfolding k_def by blast
  have k: "0 \<le> k" "k * k \<le> f_units s * 2 ^ 149" using isqrt_bounds [of "f_units s * 2 ^ 149"] pos by (simp_all add: k_def)
  have "k < 2 ^ 249"
  proof (rule ccontr)
    assume "\<not> k < 2 ^ 249"
    then have "2 ^ 249 * 2 ^ 249 \<le> k * k" by (intro mult_mono) simp_all
    also have "\<dots> \<le> 2 ^ 340 * 2 ^ 149" using k(2) assms(3) by (intro order_trans [OF k(2)] mult_right_mono) simp_all
    finally show False by simp
  qed
  obtain b where b: "f_finite b" "f_units b = 2 ^ 250" using power_of_two [of 250] by auto
  show ?thesis using rounded_between(3) [OF t(1) _ zero_units(1) b(1)] t k(1) \<open>k < 2 ^ 249\<close> by (simp add: zero_units b(2))
qed

lemma contact_axis_tie:
  assumes "f_lt (vec_length delta) 0x38d1b717" and trig: "unit_circle cosf sinf"
  shows "f_within (vx (fst (contact_axis cosf sinf tie delta))) (2 ^ 150)" and "f_within (vy (fst (contact_axis cosf sinf tie delta))) (2 ^ 150)"
    and "snd (contact_axis cosf sinf tie delta) = 0"
proof -
  have "f_within (cosf (noise_angle tie)) (2 ^ 150)" "f_within (sinf (noise_angle tie)) (2 ^ 150)"
    using unit_circleD [OF trig, of tie] by (auto intro: within_mono)
  then show "f_within (vx (fst (contact_axis cosf sinf tie delta))) (2 ^ 150)" and "f_within (vy (fst (contact_axis cosf sinf tie delta))) (2 ^ 150)"
    and "snd (contact_axis cosf sinf tie delta) = 0"
    using assms(1) by (simp_all add: contact_axis_def Let_def)
qed

lemma contact_axis_apart:
  assumes d: "f_within (vx delta) (2 ^ 191)" "f_within (vy delta) (2 ^ 191)" and far: "\<not> f_lt (vec_length delta) 0x38d1b717"
  shows "f_within (f_mul (vx delta) (f_div f_one (vec_length delta))) (2 ^ 150)" and "f_within (f_mul (vy delta) (f_div f_one (vec_length delta))) (2 ^ 150)"
    and "f_finite (vec_length delta)" and "0 < f_units (vec_length delta)"
proof -
  have k: "149 \<le> 2 * (191 :: nat)" "2 * (191 :: nat) \<le> 400" by simp_all
  note l = length_sq_bounds [OF d k]
  let ?s = "length_sq delta"
  have fin: "f_finite (vx delta)" "f_finite (vy delta)" using d by (simp_all add: f_within_def)
  have "0 \<le> f_units (f_mul (vx delta) (vx delta))" by (rule square_error(2) [OF fin(1) l(3)])
  then have s0: "0 \<le> f_units ?s" using l(5) by linarith
  have s: "2 ^ 24 \<le> f_units ?s"
  proof (rule ccontr)
    assume "\<not> 2 ^ 24 \<le> f_units ?s"
    then have "f_units ?s < 2 ^ 24" by simp
    from sqrt_tiny [OF l(1) s0 this] far show False by (simp add: vec_length_def)
  qed
  note r = f_sqrt_bounds [OF l(1) s]
  have c: "f_finite 0x38d1b717" "2 ^ 87 < f_units 0x38d1b717" by code_simp+
  have "f_units 0x38d1b717 \<le> f_units (f_sqrt ?s)" using far r(1) c(1) by (simp add: vec_length_def f_lt_finite)
  then have big: "2 ^ 30 \<le> f_units (f_sqrt ?s)" using c(2) by simp
  have "f_units ?s \<le> 2 ^ 340" using l(2) by (rule order_trans) simp
  note top = sqrt_top [OF l(1) s this]
  show "f_within (f_mul (vx delta) (f_div f_one (vec_length delta))) (2 ^ 150)"
    unfolding vec_length_def by (rule axis_coordinate [OF fin(1) l(3,5,1) s top big])
  show "f_within (f_mul (vy delta) (f_div f_one (vec_length delta))) (2 ^ 150)"
    unfolding vec_length_def by (rule axis_coordinate [OF fin(2) l(4,6,1) s top big])
  show "f_finite (vec_length delta)" "0 < f_units (vec_length delta)" using r by (simp_all add: vec_length_def)
qed

lemma contact_axis_bounded:
  assumes d: "f_within (vx delta) (2 ^ 191)" "f_within (vy delta) (2 ^ 191)" and trig: "unit_circle cosf sinf"
    and eq: "contact_axis cosf sinf tie delta = (axis, distance)"
  shows "f_within (vx axis) (2 ^ 150)" and "f_within (vy axis) (2 ^ 150)" and "f_finite distance" and "0 \<le> f_units distance"
proof -
  have "f_within (vx axis) (2 ^ 150) \<and> f_within (vy axis) (2 ^ 150) \<and> f_finite distance \<and> 0 \<le> f_units distance"
  proof (cases "f_lt (vec_length delta) 0x38d1b717")
    case True
    from contact_axis_tie [OF True trig, of tie] show ?thesis unfolding eq by (simp add: zero_units)
  next
    case False
    from eq False have "axis = vec_scale delta (f_div f_one (vec_length delta))" "distance = vec_length delta"
      by (auto simp: contact_axis_def Let_def)
    with contact_axis_apart [OF d False] show ?thesis by (simp add: vec_scale_def)
  qed
  then show "f_within (vx axis) (2 ^ 150)" and "f_within (vy axis) (2 ^ 150)" and "f_finite distance" and "0 \<le> f_units distance" by blast+
qed

text \<open>The overlap is at most the diameter, and half of it times a unit coordinate is small.\<close>

lemma correction_within:
  assumes d: "f_within diameter (2 ^ 163)" and d0: "0 \<le> f_units distance"
    and over: "\<not> f_le (f_sub diameter distance) 0" and fin: "f_finite distance" and c: "f_within c (2 ^ 150)"
  shows "f_within (f_mul c (f_mul (f_sub diameter distance) f_half)) (2 ^ 164)"
proof -
  let ?o = "f_sub diameter distance"
  have df: "f_finite diameter" "\<bar>f_units diameter\<bar> \<le> 2 ^ 163" using d by (simp_all add: f_within_def)
  have k: "f_key ?o = rkey (f_units diameter - f_units distance) 1" by (rule f_key_sub [OF df(1) fin])
  have "f_key ?o \<le> f_key diameter" unfolding k by (rule rkey_le [OF df(1)]) (use d0 in simp_all)
  moreover have "0 < f_key ?o"
    using over f_not_nan_sub [OF df(1) fin] zero_units by (auto simp: f_le_def)
  ultimately have o: "f_finite ?o" "\<bar>f_units ?o\<bar> \<le> 2 ^ 163"
  proof -
    assume a: "f_key ?o \<le> f_key diameter" "0 < f_key ?o"
    then show "f_finite ?o" using df(1) by (simp add: f_finite_key)
    have "f_units ?o \<le> f_units diameter" using a(1) by (simp only: f_units_le_iff)
    moreover have "0 \<le> f_units ?o" using a(2) by (simp add: f_units_nonneg_iff)
    ultimately show "\<bar>f_units ?o\<bar> \<le> 2 ^ 163" using df(2) by simp
  qed
  have half: "f_within f_half (2 ^ 149)" using f_half_units by (simp add: f_within_def)
  have "f_within (f_mul ?o f_half) (2 ^ 163)" by (rule within_shrink [OF _ half]) (use o in \<open>simp add: f_within_def\<close>)
  from within_mul [OF c this, of 164] show ?thesis by simp
qed

lemma ball_update: "\<forall>x\<in>set xs. P x \<Longrightarrow> P y \<Longrightarrow> \<forall>x\<in>set (xs[i := y]). P x"
  using set_update_subset_insert [of xs i y] by blast

lemma near_arena_shift:
  assumes "near_arena p" and "f_within (vx c) (2 ^ 164)" and "f_within (vy c) (2 ^ 164)"
  shows "near_arena (vec_sub p c)" and "near_arena (vec_add p c)"
  using assms within_sub_small within_add_small unfolding near_arena_def vec_sub_def vec_add_def vec_simps by blast+

lemma separate_keeps:
  assumes ps: "\<forall>p\<in>set (es_position s). near_arena p" and ij: "unat a < length (es_position s)" "unat b < length (es_position s)"
    and d: "f_within diameter (2 ^ 163)" and trig: "unit_circle cosf sinf"
  obtains ps' n' where "separate cosf sinf diameter a b (s, n) = Some (s\<lparr>es_position := ps'\<rparr>, n')"
    and "length ps' = length (es_position s)" and "\<forall>p\<in>set ps'. near_arena p"
proof -
  let ?i = "unat a" and ?j = "unat b" and ?ps = "es_position s"
  let ?delta = "vec_sub (?ps ! ?j) (?ps ! ?i)"
  obtain axis distance where ax: "contact_axis cosf sinf (hash_u32 ((es_id s ! ?i) XOR push_bit 16 (es_id s ! ?j))) ?delta = (axis, distance)"
    by (cases "contact_axis cosf sinf (hash_u32 ((es_id s ! ?i) XOR push_bit 16 (es_id s ! ?j))) ?delta")
  have near: "near_arena (?ps ! ?i)" "near_arena (?ps ! ?j)" using ps ij by simp_all
  note b = contact_axis_bounded [OF _ _ trig ax]
  have bx: "f_within (vx axis) (2 ^ 150)" "f_within (vy axis) (2 ^ 150)" "f_finite distance" "0 \<le> f_units distance"
    using b delta_within [OF near(2,1)] by blast+
  define c where "c = vec_scale axis (f_mul (f_sub diameter distance) f_half)"
  define qs where "qs = ?ps[?i := vec_sub (?ps ! ?i) c]"
  define rs where "rs = qs[?j := vec_add (qs ! ?j) c]"
  have step: "separate cosf sinf diameter a b (s, n) =
      (if f_le (f_sub diameter distance) 0 then Some (s, n) else Some (s\<lparr>es_position := rs\<rparr>, n + 1))"
    using ax unfolding separate_def contact_axis_def Let_def c_def qs_def rs_def by (simp split: if_splits)
  show thesis
  proof (cases "f_le (f_sub diameter distance) 0")
    case True
    then show ?thesis using step ps by (intro that [of ?ps n]) simp_all
  next
    case False
    note cw = correction_within [OF d bx(4) False bx(3)]
    have c: "f_within (vx c) (2 ^ 164)" "f_within (vy c) (2 ^ 164)" using cw [OF bx(1)] cw [OF bx(2)] by (simp_all add: c_def vec_scale_def)
    have qs: "\<forall>p\<in>set qs. near_arena p" unfolding qs_def by (rule ball_update [OF ps near_arena_shift(1) [OF near(1) c]])
    have len: "length qs = length ?ps" by (simp add: qs_def)
    have "near_arena (qs ! ?j)" using qs ij(2) len by simp
    then have "\<forall>p\<in>set rs. near_arena p" unfolding rs_def by (rule ball_update [OF qs near_arena_shift(2) [OF _ c]])
    then show ?thesis using step False len by (intro that [of rs "n + 1"]) (simp_all add: rs_def)
  qed
qed

lemma visit_pairs_keeps:
  assumes "\<forall>p\<in>set (es_position s). near_arena p" and "\<forall>(a, b)\<in>set cs. unat a < length (es_position s) \<and> unat b < length (es_position s)"
    and d: "f_within diameter (2 ^ 163)" and trig: "unit_circle cosf sinf"
  shows "\<exists>ps' n'. visit_pairs (\<lambda>(s, n). es_position s) r (separate cosf sinf diameter) cs (s, n) = Some (s\<lparr>es_position := ps'\<rparr>, n') \<and>
    length ps' = length (es_position s) \<and> (\<forall>p\<in>set ps'. near_arena p)"
  using assms(1,2)
proof (induction cs arbitrary: s n)
  case Nil
  then show ?case by (auto intro: exI [of _ "es_position s"])
next
  case (Cons ab cs)
  obtain a b where ab: "ab = (a, b)" by (cases ab)
  have i: "unat a < length (es_position s)" "unat b < length (es_position s)" using Cons.prems(2) ab by auto
  obtain ps' n' where st: "separate cosf sinf diameter a b (s, n) = Some (s\<lparr>es_position := ps'\<rparr>, n')" "length ps' = length (es_position s)" "\<forall>p\<in>set ps'. near_arena p"
    by (rule separate_keeps [OF Cons.prems(1) i d trig])
  define close where "close = f_le (distance_sq (es_position s ! unat a) (es_position s ! unat b)) r"
  have n: "near (es_position s) r a b = Some close" using i by (simp add: near_def at_index_def close_def)
  show ?case
  proof (cases close)
    case True
    from Cons.IH [of "s\<lparr>es_position := ps'\<rparr>" n'] st Cons.prems(2) obtain qs m where
      "visit_pairs (\<lambda>(s, n). es_position s) r (separate cosf sinf diameter) cs (s\<lparr>es_position := ps'\<rparr>, n') = Some (s\<lparr>es_position := qs\<rparr>, m)"
      "length qs = length ps'" "\<forall>p\<in>set qs. near_arena p" by auto
    with n True st show ?thesis unfolding ab by (intro exI [of _ qs] exI [of _ m]) simp
  next
    case False
    from Cons.IH [OF Cons.prems(1), of n] Cons.prems(2) n False show ?thesis unfolding ab by simp
  qed
qed


section \<open>Rows inside the world\<close>

text \<open>The square of the world, walls included; the arena keeps the radius of a player from its sides.\<close>

definition on_world :: "world_params \<Rightarrow> vec2 \<Rightarrow> bool" where
  "on_world p v \<longleftrightarrow> f_finite (vx v) \<and> 0 \<le> f_units (vx v) \<and> f_units (vx v) \<le> f_units (wp_size p) \<and>
     f_finite (vy v) \<and> 0 \<le> f_units (vy v) \<and> f_units (vy v) \<le> f_units (wp_size p)"

definition rows_ok :: "world_params \<Rightarrow> entity_store \<Rightarrow> bool" where
  "rows_ok p s \<longleftrightarrow> (\<forall>v\<in>set (es_position s). on_world p v) \<and> (\<forall>v\<in>set (es_velocity s). speed_ok p v)"

definition world_params_ok :: "world_params \<Rightarrow> bool" where
  "world_params_ok p \<longleftrightarrow> movement_ok p (tick_dt p) \<and> f_within (f_mul (wp_player_radius p) f_two) (2 ^ 163) \<and>
     0 \<le> f_units (wp_player_radius p) \<and> f_within (wp_size p) (2 ^ 190)"

lemma on_world_near: "world_params_ok p \<Longrightarrow> on_world p v \<Longrightarrow> near_arena v"
  unfolding world_params_ok_def on_world_def near_arena_def f_within_def by (auto simp: abs_le_iff)

lemma in_arena_world: "world_params_ok p \<Longrightarrow> in_arena p v \<Longrightarrow> on_world p v"
proof -
  assume p: "world_params_ok p" and v: "in_arena p v"
  have f: "f_finite (wp_size p)" "f_finite (wp_player_radius p)" "f_finite (f_sub (wp_size p) (wp_player_radius p))" "0 \<le> f_units (wp_player_radius p)"
    using p by (simp_all add: world_params_ok_def movement_ok_def)
  have "f_key (f_sub (wp_size p) (wp_player_radius p)) \<le> f_key (wp_size p)"
    unfolding f_key_sub [OF f(1,2)] by (rule rkey_le [OF f(1)]) (use f(4) in simp_all)
  then have "f_units (f_sub (wp_size p) (wp_player_radius p)) \<le> f_units (wp_size p)" by (simp only: f_units_le_iff)
  with v f show ?thesis by (auto simp: in_arena_def on_world_def Let_def f_le_finite)
qed

lemma move_entity_ok:
  assumes p: "world_params_ok p" and i: "input_ok input" and r: "rows_ok p s" and k: "k < length (es_position s)" "k < length (es_velocity s)"
  shows "rows_ok p (move_entity k input p s)"
proof -
  have m: "movement_ok p (tick_dt p)" using p by (simp add: world_params_ok_def)
  define st where "st = \<lparr>ms_position = es_position s ! k, ms_velocity = es_velocity s ! k\<rparr>"
  define st' where "st' = step_movement st input p (tick_dt p)"
  have a: "on_world p (es_position s ! k)" "speed_ok p (es_velocity s ! k)" using r k by (simp_all add: rows_ok_def)
  then have f: "f_finite (vx (ms_position st))" "f_finite (vy (ms_position st))" by (simp_all add: on_world_def st_def)
  have "speed_ok p (ms_velocity st)" using a(2) by (simp add: st_def)
  from step_movement_bounded [OF m i f this] have ar: "in_arena p (ms_position st')" "speed_ok p (ms_velocity st')" by (simp_all add: st'_def)
  have ok: "on_world p (ms_position st')" "speed_ok p (ms_velocity st')" using in_arena_world [OF p ar(1)] ar(2) by simp_all
  have "move_entity k input p s = s\<lparr>es_position := (es_position s)[k := ms_position st'], es_velocity := (es_velocity s)[k := ms_velocity st']\<rparr>"
    unfolding move_entity_def Let_def st_def st'_def ..
  moreover have "\<forall>v\<in>set ((es_position s)[k := ms_position st']). on_world p v" "\<forall>v\<in>set ((es_velocity s)[k := ms_velocity st']). speed_ok p v"
    by (rule ball_update [OF conjunct1 [OF r [unfolded rows_ok_def]] ok(1)], rule ball_update [OF conjunct2 [OF r [unfolded rows_ok_def]] ok(2)])
  ultimately show ?thesis unfolding rows_ok_def by simp
qed

lemma move_entity_frame [simp]:
  "es_id (move_entity k i p s) = es_id s" "es_kind (move_entity k i p s) = es_kind s" "es_owner (move_entity k i p s) = es_owner s"
  "es_last_input_sequence (move_entity k i p s) = es_last_input_sequence s" "es_ai_seed (move_entity k i p s) = es_ai_seed s"
  "es_index_of (move_entity k i p s) = es_index_of s" "length (es_position (move_entity k i p s)) = length (es_position s)"
  "length (es_velocity (move_entity k i p s)) = length (es_velocity s)"
  by (simp_all add: move_entity_def Let_def)

text \<open>Stores that differ in positions, velocities and input sequences only.\<close>

definition same_entities :: "entity_store \<Rightarrow> entity_store \<Rightarrow> bool" where
  "same_entities s t \<longleftrightarrow> es_id t = es_id s \<and> es_kind t = es_kind s \<and> es_owner t = es_owner s \<and> es_ai_seed t = es_ai_seed s \<and>
     es_index_of t = es_index_of s \<and> length (es_position t) = length (es_position s) \<and> length (es_velocity t) = length (es_velocity s) \<and>
     length (es_last_input_sequence t) = length (es_last_input_sequence s)"

lemma same_entities_refl: "same_entities s s"
  by (simp add: same_entities_def)

lemma same_entities_trans: "same_entities s t \<Longrightarrow> same_entities t u \<Longrightarrow> same_entities s u"
  by (simp add: same_entities_def)

lemma same_entities_wf: "same_entities s t \<Longrightarrow> es_wf s \<Longrightarrow> es_wf t"
  unfolding same_entities_def es_wf_def by simp


section \<open>Players\<close>

definition newer :: "u32 \<Rightarrow> u32 \<Rightarrow> bool" where
  "newer a b \<longleftrightarrow> a < b \<or> a = 0 \<and> b = 0"

definition slot_ok :: "player_slot \<Rightarrow> bool" where
  "slot_ok q \<longleftrightarrow> (\<forall>i\<in>set (ps_pending q). input_ok i) \<and> input_ok (ps_last_applied q) \<and> length (ps_pending q) \<le> kMaxQueuedInputs \<and>
     sorted_wrt newer (ps_last_applied_sequence q # map mi_sequence (ps_pending q)) \<and>
     (\<forall>i\<in>set (ps_pending q). mi_sequence i \<le> ps_highest_received_sequence q) \<and>
     ps_last_applied_sequence q \<le> ps_highest_received_sequence q"

lemma idle_input_ok: "input_ok (mk_move_input\<lparr>mi_sequence := n\<rparr>)" "input_ok mk_move_input"
  by (simp_all add: input_ok_def mk_move_input_def f_within_def zero_units)

lemma mk_slot_ok: "slot_ok (mk_player_slot\<lparr>ps_entity := e, ps_client := c\<rparr>)"
    "slot_ok (mk_player_slot\<lparr>ps_entity := e, ps_client := c, ps_last_applied_sequence := n, ps_highest_received_sequence := n\<rparr>)"
  by (simp_all add: slot_ok_def mk_player_slot_def idle_input_ok)

lemma axis_snap:
  assumes "\<not> f_isnan v"
  obtains w where "q_snap input_axis_quantizer (clampf v (f_neg f_one) f_one) = Some w" and "f_within w (2 ^ 149)"
proof -
  have "f_finite (f_neg f_one)" "f_finite f_one" "f_units (f_neg f_one) \<le> f_units f_one" unfolding f_one_def by code_simp+
  from clampf_between [OF assms this] have "\<not> f_isnan (clampf v (f_neg f_one) f_one)" by simp
  then obtain n where n: "q_encode input_axis_quantizer (clampf v (f_neg f_one) f_one) = Some n" "unat n < 2 ^ 8" by (rule axis_encode)
  show thesis by (rule that [of "q_decode input_axis_quantizer n"]) (simp_all only: q_snap_def n option.map axis_decode_within)
qed

lemma quantize_input_ok:
  assumes "axes_ok i"
  obtains j where "quantize_input i = Some j" and "input_ok j" and "mi_sequence j = mi_sequence i" and "mi_tick j = mi_tick i"
proof -
  have a: "\<not> f_isnan (mi_move_x i)" "\<not> f_isnan (mi_move_y i)" using assms by (simp_all add: axes_ok_def)
  obtain x where x: "q_snap input_axis_quantizer (clampf (mi_move_x i) (f_neg f_one) f_one) = Some x" "f_within x (2 ^ 149)" by (rule axis_snap [OF a(1)])
  obtain y where y: "q_snap input_axis_quantizer (clampf (mi_move_y i) (f_neg f_one) f_one) = Some y" "f_within y (2 ^ 149)" by (rule axis_snap [OF a(2)])
  show thesis
    by (rule that [of "i\<lparr>mi_move_x := x, mi_move_y := y\<rparr>"]) (use x y in \<open>simp_all add: quantize_input_def input_ok_def\<close>)
qed

lemma slot_queue_input_ok:
  assumes q: "slot_ok q" and i: "axes_ok i"
  obtains q' where "slot_queue_input i q = Some q'" and "slot_ok q'" and "ps_client q' = ps_client q" and "ps_entity q' = ps_entity q"
proof (cases "mi_sequence i \<le> ps_highest_received_sequence q \<and> ps_highest_received_sequence q \<noteq> 0")
  case True
  then show ?thesis using q by (intro that [of "q\<lparr>ps_dropped_stale_inputs := ps_dropped_stale_inputs q + 1\<rparr>"])
    (simp_all add: slot_queue_input_def slot_ok_def)
next
  case False
  obtain j where j: "quantize_input i = Some j" "input_ok j" "mi_sequence j = mi_sequence i" by (rule quantize_input_ok [OF i])
  define ps where "ps = (if length (ps_pending q) \<ge> kMaxQueuedInputs then tl (ps_pending q) else ps_pending q)"
  have sub: "set ps \<subseteq> set (ps_pending q)" by (auto simp: ps_def dest: list.set_sel(2) split: if_splits) (metis list.set_sel(2) tl_Nil)
  have len: "length ps < kMaxQueuedInputs" using q by (auto simp: ps_def slot_ok_def kMaxQueuedInputs_def)
  let ?h = "ps_highest_received_sequence q"
  have newer: "newer a (mi_sequence i)" if "a \<le> ?h" for a
    using that False by (cases "?h = 0") (auto simp: newer_def word_neq_0_conv)
  have top: "a \<le> mi_sequence i" if "a \<le> ?h" for a using newer [OF that] by (auto simp: newer_def)
  have old: "mi_sequence k \<le> ?h" if "k \<in> set ps" for k using that sub q by (auto simp: slot_ok_def)
  have "sorted_wrt newer (ps_last_applied_sequence q # map mi_sequence ps)"
    using q by (cases "ps_pending q") (auto simp: ps_def slot_ok_def)
  then have sorted: "sorted_wrt newer (ps_last_applied_sequence q # map mi_sequence (ps @ [j]))"
    using newer old q by (auto simp: sorted_wrt_append j(3) slot_ok_def)
  let ?q = "q\<lparr>ps_highest_received_sequence := mi_sequence i, ps_pending := ps @ [j]\<rparr>"
  have "slot_queue_input i q = Some ?q" using False unfolding slot_queue_input_def j(1) ps_def by (simp only: if_False option.map)
  moreover have "slot_ok ?q"
    using q sub len sorted j(2,3) old top by (auto simp: slot_ok_def)
  ultimately show ?thesis by (intro that [of ?q]) simp_all
qed

lemma next_input_ok:
  assumes "slot_ok q" and "next_input tick q stats = (i, q', stats')"
  shows "input_ok i" and "slot_ok q'" and "ps_client q' = ps_client q" and "ps_entity q' = ps_entity q"
proof -
  have "input_ok i \<and> slot_ok q' \<and> ps_client q' = ps_client q \<and> ps_entity q' = ps_entity q"
  proof (cases "ps_pending q")
    case Nil
    then show ?thesis using assms idle_input_ok by (auto simp: next_input_def slot_ok_def split: if_splits)
  next
    case (Cons j js)
    then show ?thesis using assms by (auto simp: next_input_def slot_ok_def)
  qed
  then show "input_ok i" and "slot_ok q'" and "ps_client q' = ps_client q" and "ps_entity q' = ps_entity q" by simp_all
qed

definition players_ok :: "(client_id \<times> player_slot) list \<Rightarrow> bool" where
  "players_ok ps \<longleftrightarrow> distinct (map fst ps) \<and> (\<forall>(c, q)\<in>set ps. ps_client q = c \<and> slot_ok q)"

lemma players_ok_update: "players_ok ps \<Longrightarrow> slot_ok q \<Longrightarrow> ps_client q = c \<Longrightarrow> players_ok (AList.update c q ps)"
proof -
  assume a: "players_ok ps" "slot_ok q" "ps_client q = c"
  have "\<forall>(d, r)\<in>set (AList.update c q ps). (d, r) = (c, q) \<or> (d, r) \<in> set ps" by (induction ps) auto
  moreover have "distinct (map fst (AList.update c q ps))" using a(1) by (simp add: players_ok_def distinct_update)
  ultimately show ?thesis using a by (auto simp: players_ok_def)
qed

lemma players_ok_delete: "players_ok ps \<Longrightarrow> players_ok (AList.delete c ps)"
  unfolding players_ok_def AList.delete_eq by (auto intro: distinct_filter simp: distinct_map_filter)

lemma apply_player_inputs_ok:
  assumes p: "world_params_ok p" and "es_wf s" and "rows_ok p s" and "players_ok ps"
    and "apply_player_inputs p tick ps s stats = (ps', s', stats')"
  shows "same_entities s s' \<and> rows_ok p s' \<and> players_ok ps' \<and> map fst ps' = map fst ps"
  using assms(2-5)
proof (induction ps arbitrary: s stats ps' s' stats')
  case Nil
  then show ?case by (simp add: same_entities_refl)
next
  case (Cons cq ps)
  obtain c q where cq: "cq = (c, q)" by (cases cq)
  have q: "slot_ok q" "ps_client q = c" "c \<notin> fst ` set ps" and ps: "players_ok ps" using Cons.prems(3) by (auto simp: players_ok_def cq)
  have step: "players_ok ((c, q') # ps2)" if "players_ok ps2" "map fst ps2 = map fst ps" "slot_ok q'" "ps_client q' = c" for q' ps2
    using that q(3) by (auto simp: players_ok_def)
  show ?case
  proof (cases "es_find s (ps_entity q) < 0")
    case True
    obtain ps2 s2 st2 where r: "apply_player_inputs p tick ps s stats = (ps2, s2, st2)" by (cases "apply_player_inputs p tick ps s stats") auto
    from Cons.prems(4) True r have "ps' = (c, q) # ps2" "s' = s2" by (simp_all add: cq)
    with Cons.IH [OF Cons.prems(1,2) ps r] step q show ?thesis by (simp add: cq)
  next
    case False
    define k where "k = nat (es_find s (ps_entity q))"
    have k: "k < length (es_id s)" using False es_wf_indexD [OF Cons.prems(1)] by (auto simp: k_def es_find_def split: option.splits)
    obtain i q' st1 where n: "next_input tick q stats = (i, q', st1)" by (cases "next_input tick q stats") auto
    note nx = next_input_ok [OF q(1) n]
    let ?s1 = "move_entity k i p s"
    let ?s2 = "?s1\<lparr>es_last_input_sequence := (es_last_input_sequence ?s1)[k := ps_last_applied_sequence q']\<rparr>"
    have same: "same_entities s ?s2" by (simp add: same_entities_def)
    have "length (es_position s) = length (es_id s)" "length (es_velocity s) = length (es_id s)" using Cons.prems(1) by (simp_all add: es_wf_def)
    then have "rows_ok p ?s1" using k by (intro move_entity_ok [OF p nx(1) Cons.prems(2)]) simp_all
    then have rows: "rows_ok p ?s2" by (simp add: rows_ok_def)
    obtain ps2 s2 st2 where r: "apply_player_inputs p tick ps ?s2 st1 = (ps2, s2, st2)" by (cases "apply_player_inputs p tick ps ?s2 st1") auto
    from Cons.prems(4) False n r have "ps' = (c, q') # ps2" "s' = s2" by (simp_all add: cq k_def Let_def)
    with Cons.IH [OF same_entities_wf [OF same Cons.prems(1)] rows ps r] step nx q(2) same_entities_trans [OF same] show ?thesis
      by (simp add: cq)
  qed
qed


section \<open>Drifters and collisions\<close>

lemma drifter_input_ok:
  assumes "unit_circle cosf sinf"
  obtains i where "drifter_input cosf sinf epoch seed = Some i" and "input_ok i"
proof -
  let ?a = "noise_angle (hash_u32 (seed XOR hash_u32 epoch))"
  have "axes_ok (mk_move_input\<lparr>mi_move_x := cosf ?a, mi_move_y := sinf ?a\<rparr>)"
    using unit_circleD [OF assms] by (simp add: axes_ok_def f_within_def mk_move_input_def)
  then show thesis by (rule quantize_input_ok) (use that in \<open>simp add: drifter_input_def Let_def\<close>)
qed

lemma drive_rows_ok:
  assumes p: "world_params_ok p" and trig: "unit_circle cosf sinf"
  shows "es_wf s \<Longrightarrow> rows_ok p s \<Longrightarrow> \<forall>k\<in>set ks. k < length (es_id s) \<Longrightarrow>
    \<exists>t. drive_drifter_rows cosf sinf p epoch ks s = Some t \<and> same_entities s t \<and> rows_ok p t"
proof (induction ks arbitrary: s)
  case Nil
  then show ?case by (simp add: same_entities_refl)
next
  case (Cons k ks)
  show ?case
  proof (cases "es_kind s ! k = entity_kind_code kDrifter")
    case False
    then show ?thesis using Cons by simp
  next
    case True
    obtain i where i: "drifter_input cosf sinf epoch (es_ai_seed s ! k) = Some i" "input_ok i" by (rule drifter_input_ok [OF trig])
    let ?t = "move_entity k i p s"
    have same: "same_entities s ?t" by (simp add: same_entities_def)
    have len: "length (es_position s) = length (es_id s)" "length (es_velocity s) = length (es_id s)" using Cons.prems(1) by (simp_all add: es_wf_def)
    have "rows_ok p ?t" using Cons.prems(3) len by (intro move_entity_ok [OF p i(2) Cons.prems(2)]) simp_all
    with Cons.IH [OF same_entities_wf [OF same Cons.prems(1)]] Cons.prems(3) obtain u where
      "drive_drifter_rows cosf sinf p epoch ks ?t = Some u" "same_entities ?t u" "rows_ok p u" by auto
    with i(1) True same_entities_trans [OF same] show ?thesis by auto
  qed
qed

text \<open>A grid over the world: every coordinate of its square can be converted, and a contact fits a cell.\<close>

definition arena_grid :: "world_params \<Rightarrow> spatial_grid \<Rightarrow> bool" where
  "arena_grid p g \<longleftrightarrow> grid_ok g \<and> f_le (f_mul (wp_player_radius p) f_two) (sg_cell_size g) \<and>
     convertible g 0 \<and> convertible g (wp_size p)"

lemma between_convertible:
  assumes g: "grid_ok g" and lo: "convertible g lo" and hi: "convertible g hi"
    and x: "f_finite x" "f_units lo \<le> f_units x" "f_units x \<le> f_units hi"
  shows "convertible g x"
proof -
  let ?v = "sg_inv_cell_size g"
  obtain s where s: "f_trunc (f_mul lo ?v) = Some s" "- (2 ^ 31) \<le> s" "s < 2 ^ 31" by (rule convertible_trunc [OF lo])
  obtain t where t: "f_trunc (f_mul hi ?v) = Some t" "- (2 ^ 31) \<le> t" "t < 2 ^ 31" by (rule convertible_trunc [OF hi])
  have fin: "f_finite lo" "f_finite hi" "f_finite ?v" "0 \<le> f_units ?v" using g lo hi by (simp_all add: grid_ok_def convertible_def)
  have f: "f_finite (f_mul lo ?v)" "f_finite (f_mul hi ?v)" using s(1) t(1) by (auto simp: f_trunc_def split: if_splits)
  have "f_key (f_mul lo ?v) \<le> f_key (f_mul x ?v)" "f_key (f_mul x ?v) \<le> f_key (f_mul hi ?v)"
    unfolding f_key_mul [OF fin(1,3)] f_key_mul [OF x(1) fin(3)] f_key_mul [OF fin(2,3)]
    using x fin(4) by (auto intro!: rkey_mono simp: mult_right_mono)
  then have u: "f_units (f_mul lo ?v) \<le> f_units (f_mul x ?v)" "f_units (f_mul x ?v) \<le> f_units (f_mul hi ?v)"
    and fx: "f_finite (f_mul x ?v)" using f by (simp_all add: f_units_le_iff f_finite_key)
  then have "s \<le> trunc_units (f_units (f_mul x ?v))" "trunc_units (f_units (f_mul x ?v)) \<le> t"
    using s(1) t(1) f by (auto simp: f_trunc_finite intro: trunc_units_mono)
  then show ?thesis using x(1) fx s t by (simp add: convertible_def f_to_i32_def f_trunc_finite)
qed

lemma arena_convertible: "arena_grid p g \<Longrightarrow> on_world p v \<Longrightarrow> convertible g (vx v) \<and> convertible g (vy v)"
proof -
  assume g: "arena_grid p g" and v: "on_world p v"
  have gg: "grid_ok g" "convertible g 0" "convertible g (wp_size p)" using g by (simp_all add: arena_grid_def)
  show "convertible g (vx v) \<and> convertible g (vy v)"
    using v by (intro conjI between_convertible [OF gg]) (simp_all add: on_world_def zero_units)
qed

lemma clamp_in_arena:
  assumes p: "world_params_ok p" and v: "near_arena v"
  shows "in_arena p (vec (clampf (vx v) (wp_player_radius p) (f_sub (wp_size p) (wp_player_radius p)))
    (clampf (vy v) (wp_player_radius p) (f_sub (wp_size p) (wp_player_radius p))))"
proof -
  have w: "f_finite (wp_player_radius p)" "f_finite (f_sub (wp_size p) (wp_player_radius p))"
      "f_units (wp_player_radius p) \<le> f_units (f_sub (wp_size p) (wp_player_radius p))"
    using p by (simp_all add: world_params_ok_def movement_ok_def)
  have nan: "\<not> f_isnan (vx v)" "\<not> f_isnan (vy v)" using v by (simp_all add: near_arena_def f_within_def)
  from clampf_between [OF nan(1) w] clampf_between [OF nan(2) w] w show ?thesis by (simp add: in_arena_def Let_def f_le_finite)
qed

lemma resolve_collisions_ok:
  assumes p: "world_params_ok (w_params w)" and g: "arena_grid (w_params w) (w_grid w)" and h: "grid_holds (w_grid w) (es_position (w_entities w))"
    and wf: "es_wf (w_entities w)" and rows: "rows_ok (w_params w) (w_entities w)" and trig: "unit_circle cosf sinf"
  obtains t n where "resolve_collisions cosf sinf w = Some (w\<lparr>w_entities := t, w_stats := (w_stats w)\<lparr>ws_collision_pairs := n\<rparr>\<rparr>)"
    and "same_entities (w_entities w) t" and "rows_ok (w_params w) t"
    and "\<forall>v\<in>set (es_position t). in_arena (w_params w) v"
proof -
  let ?p = "w_params w" and ?s = "w_entities w" and ?g = "w_grid w" and ?d = "f_mul (wp_player_radius (w_params w)) f_two"
  let ?lo = "wp_player_radius ?p" and ?hi = "f_sub (wp_size ?p) (wp_player_radius ?p)"
  have conv: "convertible ?g (vx v) \<and> convertible ?g (vy v)" if "v \<in> set (es_position ?s)" for v
    using arena_convertible [OF g] rows that by (simp add: rows_ok_def)
  have len: "length (es_position ?s) = length (es_id ?s)" "length (es_velocity ?s) = length (es_id ?s)" "length (es_id ?s) < 4294967296"
    using wf by (simp_all add: es_wf_def)
  have gok: "grid_ok ?g" "f_le ?d (sg_cell_size ?g)" using g by (simp_all add: arena_grid_def)
  obtain cs where cs: "walk_pairs ?g = Some cs" "\<forall>(a, b)\<in>set cs. unat a < length (es_position ?s) \<and> unat b < length (es_position ?s)"
    by (rule walk_pairs_valid [OF gok(1) h _ _]) (use conv len in auto)
  have near: "\<forall>v\<in>set (es_position ?s). near_arena v" using rows on_world_near [OF p] by (simp add: rows_ok_def)
  have d: "f_within ?d (2 ^ 163)" using p by (simp add: world_params_ok_def)
  obtain ps n where r: "visit_pairs (\<lambda>(s, n). es_position s) (f_mul ?d ?d) (separate cosf sinf ?d) cs (?s, 0) = Some (?s\<lparr>es_position := ps\<rparr>, n)"
      "length ps = length (es_position ?s)" "\<forall>v\<in>set ps. near_arena v"
    using visit_pairs_keeps [OF near cs(2) d trig] by blast
  have cells: "sg_cells_per_axis ?g \<noteq> 0" by (rule grid_cells [OF gok(1)]) auto
  let ?t = "?s\<lparr>es_position := map (\<lambda>v. vec (clampf (vx v) ?lo ?hi) (clampf (vy v) ?lo ?hi)) ps\<rparr>"
  have "for_each_pair ?g (\<lambda>(s, n). es_position s) ?d (separate cosf sinf ?d) (?s, 0) = Some (?s\<lparr>es_position := ps\<rparr>, n)"
    using cells gok(2) cs(1) r(1) by (simp add: for_each_pair_def)
  then have "resolve_collisions cosf sinf w = Some (w\<lparr>w_entities := ?t, w_stats := (w_stats w)\<lparr>ws_collision_pairs := n\<rparr>\<rparr>)"
    by (simp add: resolve_collisions_def Let_def)
  moreover have walls: "\<forall>v\<in>set (es_position ?t). in_arena ?p v" using r(3) clamp_in_arena [OF p] by auto
  moreover have "rows_ok ?p ?t" using rows in_arena_world [OF p] walls by (simp add: rows_ok_def)
  moreover have "same_entities ?s ?t" using r(2) by (simp add: same_entities_def)
  ultimately show thesis by (intro that)
qed


section \<open>The invariant of the world\<close>

definition world_ok :: "world \<Rightarrow> bool" where
  "world_ok w \<longleftrightarrow> world_params_ok (w_params w) \<and> arena_grid (w_params w) (w_grid w) \<and> es_wf (w_entities w) \<and>
     rows_ok (w_params w) (w_entities w) \<and> players_ok (w_players w) \<and> (\<forall>e\<in>set (es_id (w_entities w)). e < w_next_entity w)"

lemma world_step_ok:
  assumes ok: "world_ok w" and trig: "unit_circle cosf sinf"
  obtains w' where "world_step cosf sinf w = Some w'" and "world_ok w'" and "w_tick w' = w_tick w + 1" and "w_params w' = w_params w"
    and "es_id (w_entities w') = es_id (w_entities w)" and "\<forall>v\<in>set (es_position (w_entities w')). in_arena (w_params w) v"
proof -
  let ?p = "w_params w" and ?s = "w_entities w"
  have p: "world_params_ok ?p" and g: "arena_grid ?p (w_grid w)" and wf: "es_wf ?s" and rows: "rows_ok ?p ?s" and pl: "players_ok (w_players w)"
    and ids: "\<forall>e\<in>set (es_id ?s). e < w_next_entity w" using ok by (simp_all add: world_ok_def)
  let ?st = "(w_stats w)\<lparr>ws_inputs_applied := 0, ws_inputs_starved := 0\<rparr>"
  obtain ps1 s1 st1 where a: "apply_player_inputs ?p (w_tick w) (w_players w) ?s ?st = (ps1, s1, st1)"
    by (cases "apply_player_inputs ?p (w_tick w) (w_players w) ?s ?st") auto
  note a1 = apply_player_inputs_ok [OF p wf rows pl a]
  have wf1: "es_wf s1" using a1 same_entities_wf [OF _ wf] by blast
  obtain s2 where b: "drive_drifter_rows cosf sinf ?p (w_tick w div kDrifterHeadingTicks) [0..<length (es_id s1)] s1 = Some s2"
      "same_entities s1 s2" "rows_ok ?p s2" using drive_rows_ok [OF p trig wf1, of "[0..<length (es_id s1)]"] a1 by auto
  have wf2: "es_wf s2" by (rule same_entities_wf [OF b(2) wf1])
  have conv: "convertible (w_grid w) (vx v) \<and> convertible (w_grid w) (vy v)" if "v \<in> set (es_position s2)" for v
    using arena_convertible [OF g] b(3) that by (simp add: rows_ok_def)
  have n: "length (es_position s2) < 4294967296" using wf2 by (simp add: es_wf_def)
  have gok: "grid_ok (w_grid w)" using g by (simp add: arena_grid_def)
  obtain g' where g': "grid_build (es_position s2) (w_grid w) = Some g'" "grid_holds g' (es_position s2)" "grid_ok g'" "cell_x_of g' = cell_x_of (w_grid w)"
      "sg_cells_per_axis g' = sg_cells_per_axis (w_grid w)" "sg_cell_size g' = sg_cell_size (w_grid w)" "sg_inv_cell_size g' = sg_inv_cell_size (w_grid w)"
    by (rule grid_build_holds [OF gok conv n])
  define w2 where "w2 = w\<lparr>w_players := ps1, w_entities := s2, w_stats := st1, w_grid := g'\<rparr>"
  have ag: "arena_grid ?p g'" using g g'(3,6) convertible_cong [OF g'(7)] by (simp add: arena_grid_def)
  obtain s3 m where c: "resolve_collisions cosf sinf w2 = Some (w2\<lparr>w_entities := s3, w_stats := (w_stats w2)\<lparr>ws_collision_pairs := m\<rparr>\<rparr>)"
      "same_entities s2 s3" "rows_ok ?p s3" "\<forall>v\<in>set (es_position s3). in_arena ?p v"
    by (rule resolve_collisions_ok [of w2 cosf sinf]) (use p ag g'(2) wf2 b(3) trig in \<open>simp_all add: w2_def\<close>)
  define w3 where "w3 = w2\<lparr>w_entities := s3, w_stats := (w_stats w2)\<lparr>ws_collision_pairs := m\<rparr>\<rparr>"
  define w' where "w' = w3\<lparr>w_stats := (w_stats w3)\<lparr>ws_entity_count := es_size (w_entities w3), ws_player_count := word_of_nat (length (w_players w3)),
     ws_peak_cell_occupancy := peak_cell_occupancy (w_grid w3)\<rparr>, w_tick := w_tick w3 + 1\<rparr>"
  have "integrate cosf sinf (w\<lparr>w_stats := ?st\<rparr>) = Some (w\<lparr>w_players := ps1, w_entities := s2, w_stats := st1\<rparr>)"
    by (simp add: integrate_def apply_inputs_def drive_drifters_def a b(1))
  moreover have "w\<lparr>w_players := ps1, w_entities := s2, w_stats := st1\<rparr>\<lparr>w_grid := g'\<rparr> = w2" by (simp add: w2_def)
  ultimately have "world_step cosf sinf w = Some w'"
    unfolding world_step_def Let_def using g'(1) c(1) by (simp add: w3_def w'_def)
  moreover have "es_id s3 = es_id ?s" using a1 b(2) c(2) by (simp add: same_entities_def)
  moreover have "world_ok w'"
    using p ag same_entities_wf [OF c(2) wf2] c(3) a1 ids \<open>es_id s3 = es_id ?s\<close> by (simp add: world_ok_def w'_def w3_def w2_def)
  ultimately show thesis using c(4) by (intro that [of w']) (simp_all add: w'_def w3_def w2_def)
qed

lemma ids_below:
  assumes "es_wf s" and ids: "\<forall>e\<in>set (es_id s). e < n"
  shows "length (es_id s) \<le> unat n"
proof -
  have "inj_on unat (set (es_id s))" by (rule inj_onI) (simp add: word_unat_eq_iff)
  then have "length (es_id s) = card (unat ` set (es_id s))" using assms(1) by (simp add: es_wf_def distinct_card card_image)
  also have "\<dots> \<le> card {..<unat n}" using ids by (intro card_mono) (auto simp: word_less_nat_alt)
  finally show ?thesis by simp
qed

lemma add_entity_ok:
  assumes wf: "es_wf s" and rows: "rows_ok p s" and new: "e \<notin> set (es_id s)" and room: "0 < es_room s"
    and pos: "on_world p v" and p: "world_params_ok p"
  shows "es_wf (snd (es_add e k v c s))" and "rows_ok p (snd (es_add e k v c s))" and "es_id (snd (es_add e k v c s)) = es_id s @ [e]"
    and "unat (fst (es_add e k v c s)) = length (es_id s)"
proof -
  have "es_view s e = None" using new es_index_none [OF wf] by (simp add: es_view_def)
  then show "es_wf (snd (es_add e k v c s))" by (rule es_add_law(1) [OF wf _ room])
  have "0 \<le> f_units (wp_max_speed p)" using p by (simp add: world_params_ok_def movement_ok_def)
  then have "speed_ok p (vec 0 0)" by (simp add: speed_ok_def f_within_def zero_units)
  then show "rows_ok p (snd (es_add e k v c s))" using rows pos by (auto simp: rows_ok_def es_add_def Let_def)
  show "es_id (snd (es_add e k v c s)) = es_id s @ [e]" by (simp add: es_add_def Let_def)
  show "unat (fst (es_add e k v c s)) = length (es_id s)" using room by (simp add: es_add_def Let_def es_size_def es_room_def unat_of_nat_less)
qed

lemma next_id_above: "(n :: u32) \<noteq> 0xffffffff \<Longrightarrow> e \<le> n \<Longrightarrow> e < n + 1"
proof -
  assume n: "n \<noteq> 0xffffffff" "e \<le> n"
  have "unat n \<noteq> 4294967295" using n(1) by (simp add: word_unat_eq_iff)
  then have "unat n + 1 < 4294967296" using unat_less_u32 [of n] by simp
  then have "unat (n + 1) = unat n + 1" by (subst unat_add_u32) simp_all
  with n(2) show "e < n + 1" by (simp add: word_less_nat_alt word_le_nat_alt)
qed

lemma fresh_id:
  assumes ok: "world_ok w" and n: "w_next_entity w \<noteq> 0xffffffff"
  shows "w_next_entity w \<notin> set (es_id (w_entities w))" and "0 < es_room (w_entities w)"
    and "e \<in> set (es_id (w_entities w)) \<Longrightarrow> e < w_next_entity w + 1" and "w_next_entity w < w_next_entity w + 1"
proof -
  let ?s = "w_entities w" and ?e = "w_next_entity w"
  have wf: "es_wf ?s" and ids: "\<forall>e\<in>set (es_id ?s). e < ?e" using ok by (simp_all add: world_ok_def)
  show "?e \<notin> set (es_id ?s)" using ids by auto
  show top: "?e < ?e + 1" by (rule next_id_above [OF n order_refl])
  have "unat ?e < 4294967295" using top unat_less_u32 [of "?e + 1"] by (simp add: word_less_nat_alt)
  then show "0 < es_room ?s" using ids_below [OF wf ids] by (simp add: es_room_def)
  show "e < ?e + 1" if "e \<in> set (es_id ?s)" using ids that by (intro next_id_above [OF n]) auto
qed

lemma spawn_player_ok:
  assumes ok: "world_ok w" and pos: "on_world (w_params w) v" and n: "w_next_entity w \<noteq> 0xffffffff"
  shows "world_ok (snd (spawn_player c v w))"
proof -
  have wf: "es_wf (w_entities w)" and rows: "rows_ok (w_params w) (w_entities w)" and p: "world_params_ok (w_params w)"
    using ok by (simp_all add: world_ok_def)
  note f = fresh_id [OF ok n]
  note a = add_entity_ok [OF wf rows f(1,2) pos p, of kPlayer c]
  have "players_ok (AList.update c (mk_player_slot\<lparr>ps_entity := w_next_entity w, ps_client := c\<rparr>) (w_players w))"
    using ok by (intro players_ok_update mk_slot_ok(1)) (simp_all add: world_ok_def)
  then show ?thesis using ok a(1-3) f(3,4) by (simp add: world_ok_def spawn_player_def Let_def)
qed

lemma spawn_drifter_ok:
  assumes ok: "world_ok w" and pos: "on_world (w_params w) v" and n: "w_next_entity w \<noteq> 0xffffffff"
  shows "world_ok (snd (spawn_drifter v w))"
proof -
  have wf: "es_wf (w_entities w)" and rows: "rows_ok (w_params w) (w_entities w)" and p: "world_params_ok (w_params w)"
    using ok by (simp_all add: world_ok_def)
  note f = fresh_id [OF ok n]
  note a = add_entity_ok [OF wf rows f(1,2) pos p, of kDrifter 0]
  then show ?thesis using ok f(3,4) by (simp add: world_ok_def spawn_drifter_def Let_def)
qed

lemma set_swap_pop: "set (swap_pop i xs) \<subseteq> set xs"
proof (cases "xs = []")
  case False
  then have "xs ! (length xs - 1) \<in> set xs" by simp
  then have "set (if i \<noteq> length xs - 1 then xs[i := xs ! (length xs - 1)] else xs) \<subseteq> set xs"
    using set_update_subset_insert [of xs i "xs ! (length xs - 1)"] by auto
  then show ?thesis unfolding swap_pop_def Let_def using in_set_butlastD by fast
qed (simp add: swap_pop_def)

lemma despawn_ok:
  assumes ok: "world_ok w"
  shows "world_ok (despawn e w)"
proof (cases "es_find (w_entities w) e < 0")
  case True
  then show ?thesis using ok by (simp add: despawn_def)
next
  case False
  let ?s = "w_entities w" and ?t = "snd (es_remove e (w_entities w))"
  obtain i where i: "es_index_of ?s e = Some i" using False by (auto simp: es_find_def split: option.splits)
  have wf: "es_wf ?s" using ok by (simp add: world_ok_def)
  have sub: "set (es_id ?t) \<subseteq> set (es_id ?s)" "set (es_position ?t) \<subseteq> set (es_position ?s)" "set (es_velocity ?t) \<subseteq> set (es_velocity ?s)"
    using set_swap_pop by (simp_all add: es_remove_def i Let_def)
  have "es_wf ?t" by (rule es_remove_some(2) [OF wf i])
  moreover have "rows_ok (w_params w) ?t" using ok sub by (auto simp: world_ok_def rows_ok_def)
  moreover have "\<forall>e\<in>set (es_id ?t). e < w_next_entity w" using ok sub(1) by (auto simp: world_ok_def)
  ultimately show ?thesis using ok False players_ok_delete by (simp add: world_ok_def despawn_def Let_def)
qed

lemma adopt_rows_ok:
  assumes wf: "es_wf s" and rows: "rows_ok p s" and v: "on_world p v" "speed_ok p u"
  shows "es_wf (s\<lparr>es_position := (es_position s)[i := v], es_velocity := (es_velocity s)[i := u], es_owner := (es_owner s)[i := c],
      es_last_input_sequence := (es_last_input_sequence s)[i := n]\<rparr>)"
    and "rows_ok p (s\<lparr>es_position := (es_position s)[i := v], es_velocity := (es_velocity s)[i := u], es_owner := (es_owner s)[i := c],
      es_last_input_sequence := (es_last_input_sequence s)[i := n]\<rparr>)"
proof -
  show "es_wf (s\<lparr>es_position := (es_position s)[i := v], es_velocity := (es_velocity s)[i := u], es_owner := (es_owner s)[i := c],
      es_last_input_sequence := (es_last_input_sequence s)[i := n]\<rparr>)" using wf unfolding es_wf_def by simp
  have "\<forall>x\<in>set ((es_position s)[i := v]). on_world p x" "\<forall>x\<in>set ((es_velocity s)[i := u]). speed_ok p x"
    by (rule ball_update [OF conjunct1 [OF rows [unfolded rows_ok_def]] v(1)], rule ball_update [OF conjunct2 [OF rows [unfolded rows_ok_def]] v(2)])
  then show "rows_ok p (s\<lparr>es_position := (es_position s)[i := v], es_velocity := (es_velocity s)[i := u], es_owner := (es_owner s)[i := c],
      es_last_input_sequence := (es_last_input_sequence s)[i := n]\<rparr>)" by (simp add: rows_ok_def)
qed

lemma adopt_entity_ok:
  assumes ok: "world_ok w" and v: "on_world (w_params w) v" "speed_ok (w_params w) u" and e: "e \<noteq> 0xffffffff"
  shows "world_ok (adopt_entity e c v u n w)"
proof -
  let ?s = "w_entities w" and ?p = "w_params w"
  let ?q = "mk_player_slot\<lparr>ps_entity := e, ps_client := c, ps_last_applied_sequence := n, ps_highest_received_sequence := n\<rparr>"
  have wf: "es_wf ?s" and rows: "rows_ok ?p ?s" and p: "world_params_ok ?p" and ids: "\<forall>e\<in>set (es_id ?s). e < w_next_entity w"
    using ok by (simp_all add: world_ok_def)
  have pl: "players_ok (AList.update c ?q (w_players w))"
    using ok by (intro players_ok_update mk_slot_ok(2)) (simp_all add: world_ok_def)
  show ?thesis
  proof (cases "es_find ?s e < 0")
    case False
    then show ?thesis
      using ok pl adopt_rows_ok [OF wf rows v] by (simp add: adopt_entity_def world_ok_def Let_def)
  next
    case True
    define m where "m = (if e \<ge> w_next_entity w then e + 1 else w_next_entity w)"
    have idx: "es_index_of ?s e = None"
    proof (rule ccontr)
      assume "es_index_of ?s e \<noteq> None"
      then obtain i where "es_index_of ?s e = Some i" by blast
      then have "0 \<le> es_find ?s e" by (simp add: es_find_def)
      with True show False by simp
    qed
    then have new: "e \<notin> set (es_id ?s)" using es_index_none [OF wf] by simp
    have above: "f < m" if "f \<in> set (es_id ?s) \<or> f = e" for f
      using that ids next_id_above [OF e, of f] by (auto simp: m_def not_le)
    have "length (es_id ?s @ [e]) \<le> unat m"
    proof -
      have "inj_on unat (set (es_id ?s @ [e]))" by (rule inj_onI) (simp add: word_unat_eq_iff)
      moreover have "distinct (es_id ?s @ [e])" using wf new by (simp add: es_wf_def)
      ultimately have "length (es_id ?s @ [e]) = card (unat ` set (es_id ?s @ [e]))" by (simp only: distinct_card card_image)
      also have "\<dots> \<le> card {..<unat m}" using above by (intro card_mono) (auto simp: word_less_nat_alt)
      finally show ?thesis by simp
    qed
    then have room: "0 < es_room ?s" using unat_less_u32 [of m] by (simp add: es_room_def)
    obtain i t where t: "es_add e kPlayer v c ?s = (i, t)" by (cases "es_add e kPlayer v c ?s")
    note a = add_entity_ok [OF wf rows new room v(1) p, of kPlayer c, unfolded t]
    have added: "es_wf t" "rows_ok ?p t" "es_id t = es_id ?s @ [e]" using a by simp_all
    show ?thesis
      using ok pl adopt_rows_ok [OF added(1,2) v] added(3) above True by (simp add: adopt_entity_def world_ok_def Let_def t m_def)
  qed
qed

lemma queue_input_ok:
  assumes ok: "world_ok w" and i: "axes_ok i"
  obtains w' where "queue_input c i w = Some w'" and "world_ok w'"
proof (cases "map_of (w_players w) c")
  case None
  then show ?thesis using ok by (intro that [of w]) (simp_all add: queue_input_def)
next
  case (Some q)
  have q: "slot_ok q" "ps_client q = c" using ok map_of_SomeD [OF Some] by (auto simp: world_ok_def players_ok_def)
  obtain q' where q': "slot_queue_input i q = Some q'" "slot_ok q'" "ps_client q' = ps_client q" by (rule slot_queue_input_ok [OF q(1) i])
  have "players_ok (AList.update c q' (w_players w))" using ok q' q(2) by (intro players_ok_update) (simp_all add: world_ok_def)
  then show ?thesis using ok Some q'(1)
    by (intro that [of "w\<lparr>w_players := AList.update c q' (w_players w)\<rparr>"]) (simp_all add: queue_input_def world_ok_def)
qed


section \<open>The property\<close>

text \<open>
  The worlds the program can reach: configured, then changed by the operations of \<open>World\<close>, with spawn points
  in the square of the world, migrated states there with a speed within the limit, inputs that are numbers, and
  entity identifiers that do not run out. A spawn point may lie beyond a wall of the arena, as some of the
  drifters of a starting shard do.
\<close>

inductive world_run :: "(f32 \<Rightarrow> f32) \<Rightarrow> (f32 \<Rightarrow> f32) \<Rightarrow> world_params \<Rightarrow> u32 \<Rightarrow> world \<Rightarrow> bool"
  for cosf sinf p n where
  configured: "world_configure p n mk_world = Some w \<Longrightarrow> world_run cosf sinf p n w"
| spawned: "world_run cosf sinf p n w \<Longrightarrow> on_world p v \<Longrightarrow> w_next_entity w \<noteq> 0xffffffff \<Longrightarrow> world_run cosf sinf p n (snd (spawn_player c v w))"
| drifting: "world_run cosf sinf p n w \<Longrightarrow> on_world p v \<Longrightarrow> w_next_entity w \<noteq> 0xffffffff \<Longrightarrow> world_run cosf sinf p n (snd (spawn_drifter v w))"
| despawned: "world_run cosf sinf p n w \<Longrightarrow> world_run cosf sinf p n (despawn e w)"
| adopted: "world_run cosf sinf p n w \<Longrightarrow> on_world p v \<Longrightarrow> speed_ok p u \<Longrightarrow> e \<noteq> 0xffffffff \<Longrightarrow> world_run cosf sinf p n (adopt_entity e c v u m w)"
| queued: "world_run cosf sinf p n w \<Longrightarrow> axes_ok i \<Longrightarrow> queue_input c i w = Some w' \<Longrightarrow> world_run cosf sinf p n w'"
| stepped: "world_run cosf sinf p n w \<Longrightarrow> world_step cosf sinf w = Some w' \<Longrightarrow> world_run cosf sinf p n w'"
| retimed: "world_run cosf sinf p n w \<Longrightarrow> world_run cosf sinf p n (w\<lparr>w_tick := t\<rparr>)"

lemma operation_params:
  "w_params (snd (spawn_player c v w)) = w_params w" "w_params (snd (spawn_drifter v w)) = w_params w" "w_params (despawn e w) = w_params w"
  "w_params (adopt_entity e c v u m w) = w_params w" "queue_input c i w = Some w' \<Longrightarrow> w_params w' = w_params w"
proof -
  show "w_params (snd (spawn_player c v w)) = w_params w" "w_params (snd (spawn_drifter v w)) = w_params w" "w_params (despawn e w) = w_params w"
    by (simp_all add: spawn_player_def spawn_drifter_def despawn_def Let_def)
  show "w_params (adopt_entity e c v u m w) = w_params w" by (simp add: adopt_entity_def Let_def case_prod_beta)
  show "w_params w' = w_params w" if "queue_input c i w = Some w'"
    using that by (auto simp: queue_input_def split: option.splits)
qed

lemma world_run_ok:
  assumes "world_run cosf sinf p n w" and p: "world_params_ok p" and trig: "unit_circle cosf sinf"
    and grid: "\<And>w. world_configure p n mk_world = Some w \<Longrightarrow> arena_grid p (w_grid w)"
  shows "world_ok w \<and> w_params w = p"
  using assms(1)
proof induction
  case (configured w)
  then have "w_params w = p" "w_entities w = es_empty" "w_players w = []"
    by (auto simp: world_configure_def mk_world_def bind_eq_Some_conv split: if_splits)
  then show ?case using p grid [OF configured] es_wf_empty by (simp add: world_ok_def rows_ok_def es_empty_def players_ok_def)
next
  case (spawned w v c)
  then show ?case using spawn_player_ok [of w v c] by (simp add: operation_params)
next
  case (drifting w v)
  then show ?case using spawn_drifter_ok [of w v] by (simp add: operation_params)
next
  case (despawned w e)
  then show ?case using despawn_ok [of w e] by (simp add: operation_params)
next
  case (adopted w v u e c m)
  then show ?case using adopt_entity_ok [of w v u e c m] by (simp add: operation_params)
next
  case (queued w i c w')
  obtain w2 where "queue_input c i w = Some w2" "world_ok w2" by (rule queue_input_ok [of w i c]) (use queued in blast)+
  then show ?case using queued operation_params(5) [of c i w w'] by simp
next
  case (stepped w w')
  obtain w2 where "world_step cosf sinf w = Some w2" "world_ok w2" "w_params w2 = w_params w"
    by (rule world_step_ok [OF _ trig, of w]) (use stepped in blast)+
  then show ?case using stepped by simp
next
  case (retimed w t)
  then show ?case by (auto simp: world_ok_def)
qed

text \<open>
  C23: the authoritative simulation. Whatever operations of \<open>World\<close> were performed, in any order, with spawn
  points in the square of the world and numeric inputs, the store is well-formed, every entity is in the square
  of the world with a bounded speed, every player has at most 32 queued inputs, each newer than the one applied
  last and than the ones queued before it, and the next tick has a result (no undefined conversion, no access
  out of bounds, no failed check) in which every entity is between the walls of the arena.
\<close>

theorem world_stays_ok:
  assumes "world_run cosf sinf p n w" and "world_params_ok p" and "unit_circle cosf sinf"
    and "\<forall>w. world_configure p n mk_world = Some w \<longrightarrow> arena_grid p (w_grid w)"
  shows "es_wf (w_entities w) \<and> (\<forall>v\<in>set (es_position (w_entities w)). on_world p v) \<and>
    (\<forall>v\<in>set (es_velocity (w_entities w)). speed_ok p v) \<and>
    (\<forall>(c, q)\<in>set (w_players w). length (ps_pending q) \<le> 32 \<and>
       sorted_wrt newer (ps_last_applied_sequence q # map mi_sequence (ps_pending q))) \<and>
    (\<exists>w'. world_step cosf sinf w = Some w' \<and> w_tick w' = w_tick w + 1 \<and>
       (\<forall>v\<in>set (es_position (w_entities w')). in_arena p v))"
proof -
  have ok: "world_ok w" "w_params w = p" using world_run_ok [OF assms(1-3)] assms(4) by blast+
  obtain w' where "world_step cosf sinf w = Some w'" "w_tick w' = w_tick w + 1" "\<forall>v\<in>set (es_position (w_entities w')). in_arena p v"
    using world_step_ok [OF ok(1) assms(3)] ok(2) by metis
  then show ?thesis using ok by (auto simp: world_ok_def rows_ok_def players_ok_def slot_ok_def kMaxQueuedInputs_def)
qed

text \<open>The default parameters on a grid of 64 cells per axis, with constant functions in place of cosine and sine.\<close>

definition sample_world :: world where
  "sample_world = the (world_configure mk_world_params 64 mk_world)"

lemma sample_world_setup: "world_configure mk_world_params 64 mk_world = Some sample_world" "arena_grid mk_world_params (w_grid sample_world)"
    "world_params_ok mk_world_params" "unit_circle (\<lambda>_. f_one) (\<lambda>_. 0)" "on_world mk_world_params (vec 0x40000000 0x44800000)"
    "w_next_entity sample_world \<noteq> 0xffffffff"
proof -
  have "world_configure mk_world_params 64 mk_world \<noteq> None" by code_simp
  then show "world_configure mk_world_params 64 mk_world = Some sample_world" by (simp add: sample_world_def)
  have "unat (sg_cells_per_axis (w_grid sample_world)) = 2 ^ 6" "f_finite (sg_inv_cell_size (w_grid sample_world))"
      "0 \<le> f_units (sg_inv_cell_size (w_grid sample_world))" by code_simp+
  then have "grid_ok (w_grid sample_world)" unfolding grid_ok_def by (intro conjI exI [of _ 6]) simp_all
  moreover have "f_le (f_mul (wp_player_radius mk_world_params) f_two) (sg_cell_size (w_grid sample_world))"
      "convertible (w_grid sample_world) 0" "convertible (w_grid sample_world) (wp_size mk_world_params)" by code_simp+
  ultimately show "arena_grid mk_world_params (w_grid sample_world)" by (simp add: arena_grid_def)
  show "world_params_ok mk_world_params" by code_simp
  show "unit_circle (\<lambda>_. f_one) (\<lambda>_. 0)" using f_one_units by (simp add: unit_circle_def f_within_def zero_units)
  show "on_world mk_world_params (vec 0x40000000 0x44800000)" by code_simp
  show "w_next_entity sample_world \<noteq> 0xffffffff" by code_simp
qed

text \<open>An entity that appears two units from the edge, beyond the wall, is in the arena after a tick.\<close>

theorem world_stays_ok_witness:
  "\<exists>w'. world_step (\<lambda>_. f_one) (\<lambda>_. 0) (snd (spawn_drifter (vec 0x40000000 0x44800000) sample_world)) = Some w' \<and>
     (\<forall>v\<in>set (es_position (w_entities w')). in_arena mk_world_params v)"
proof -
  have "world_run (\<lambda>_. f_one) (\<lambda>_. 0) mk_world_params 64 (snd (spawn_drifter (vec 0x40000000 0x44800000) sample_world))"
    by (rule drifting [OF configured [OF sample_world_setup(1)] sample_world_setup(5,6)])
  moreover have "\<forall>w. world_configure mk_world_params 64 mk_world = Some w \<longrightarrow> arena_grid mk_world_params (w_grid w)"
    using sample_world_setup(1,2) by simp
  ultimately show ?thesis using world_stays_ok [OF _ sample_world_setup(3,4)] by blast
qed


section \<open>Starved players\<close>

text \<open>
  C24: the repetition of the last input. An input that arrived over the network carries tick 0, because the
  packet does not transmit it; the first input of a new player is applied once, and from the seventh tick of
  the world on, a tick without a further input moves the player with the neutral input instead of repeating
  the last one.
\<close>

theorem received_input_not_repeated:
  assumes "unat n \<le> length data" and "unat n < 268435456" and "decode_input_packet data n = Some packet" and "i \<in> set (ip_inputs packet)"
    and "slot_queue_input i (mk_player_slot\<lparr>ps_entity := e, ps_client := c\<rparr>) = Some q"
    and "next_input t q stats = (j, q', stats')" and "kInputRepeatTicks < t'"
  shows "mi_sequence j = mi_sequence i \<and> next_input t' q' stats'' =
    (mk_move_input\<lparr>mi_sequence := mi_sequence i\<rparr>, q', stats''\<lparr>ws_inputs_starved := ws_inputs_starved stats'' + 1\<rparr>)"
proof -
  obtain r where "run_state read_input_packet (mk_reader data n) = (Some packet, r)"
    using assms(3) by (cases "run_state read_input_packet (mk_reader data n)") (simp add: decode_input_packet_def)
  with read_input_packet_ok [OF mk_reader_wf(1) [OF assms(1,2)]] assms(4) have tick: "mi_tick i = 0" by (auto simp: list_all_iff)
  obtain k where k: "quantize_input i = Some k" "ps_pending q = [k]"
    using assms(5) by (auto simp: slot_queue_input_def mk_player_slot_def kMaxQueuedInputs_def)
  have m: "mi_tick k = mi_tick i" "mi_sequence k = mi_sequence i"
    using k(1) by (auto simp: quantize_input_def Let_def split: option.splits)
  have q': "j = k" "q' = q\<lparr>ps_pending := [], ps_last_applied := k, ps_last_applied_sequence := mi_sequence k, ps_has_applied := True\<rparr>"
    using assms(6) k(2) by (auto simp: next_input_def)
  then show ?thesis using m tick assms(7) by (simp add: next_input_def linorder_not_le)
qed

text \<open>A packet with one input, sequence 9, both axes at 255 and sprinting.\<close>

definition sprint_packet :: "u8 list" where
  "sprint_packet = [1, 7, 0, 0, 0, 3, 0, 0, 0, 0x21, 1, 0, 0, 0xe0, 0xff, 0x3f]"

definition sprint_input :: move_input where
  "sprint_input = \<lparr>mi_sequence = 9, mi_tick = 0, mi_move_x = 0x3f800000, mi_move_y = 0x3f800000, mi_sprint = True\<rparr>"

definition sprint_message :: input_packet where
  "sprint_message = \<lparr>ip_client_tick = 7, ip_acked_snapshot_tick = 3, ip_inputs = [sprint_input]\<rparr>"

lemma sprint_packet_decodes: "decode_input_packet sprint_packet 16 = Some sprint_message"
proof -
  have ok: "list_all axes_ok (take 16 (ip_inputs sprint_message))" by code_simp
  have bits: "bytes_bits sprint_packet = input_packet_bits sprint_message @ [False, False]" by code_simp
  have same: "received_packet_of sprint_message = sprint_message" by code_simp
  have cap: "unat (16 :: u32) \<le> length sprint_packet" "unat (16 :: u32) < 268435456" by (simp_all add: sprint_packet_def)
  note r = mk_reader_wf [OF cap]
  have "br_remaining (mk_reader sprint_packet 16) = input_packet_bits sprint_message @ [False, False]"
    using r(2) bits by (simp add: sprint_packet_def)
  from brc.framesD [OF frames_input_packet [OF ok] r(1,3) this] same show ?thesis by (simp add: decode_input_packet_def)
qed

theorem received_input_not_repeated_witness:
  "fst (next_input 7 (mk_player_slot\<lparr>ps_entity := 1, ps_client := 3, ps_highest_received_sequence := 9, ps_last_applied := sprint_input,
     ps_last_applied_sequence := 9, ps_has_applied := True\<rparr>) (w_stats mk_world)) = mk_move_input\<lparr>mi_sequence := 9\<rparr>"
proof -
  let ?q = "mk_player_slot\<lparr>ps_entity := 1, ps_client := 3\<rparr>"
  note dec = sprint_packet_decodes
  have mem: "sprint_input \<in> set (ip_inputs sprint_message)" by (simp add: sprint_message_def)
  have "quantize_input sprint_input = Some sprint_input" by code_simp
  then have que: "slot_queue_input sprint_input ?q = Some (?q\<lparr>ps_highest_received_sequence := 9, ps_pending := [sprint_input]\<rparr>)"
    by (simp add: slot_queue_input_def mk_player_slot_def kMaxQueuedInputs_def sprint_input_def)
  have nxt: "next_input 0 (?q\<lparr>ps_highest_received_sequence := 9, ps_pending := [sprint_input]\<rparr>) (w_stats mk_world) =
    (sprint_input, ?q\<lparr>ps_highest_received_sequence := 9, ps_last_applied := sprint_input, ps_last_applied_sequence := 9, ps_has_applied := True\<rparr>,
     (w_stats mk_world)\<lparr>ws_inputs_applied := 1\<rparr>)"
    by (simp add: next_input_def mk_player_slot_def sprint_input_def mk_world_def)
  have len: "unat (16 :: u32) \<le> length sprint_packet" "unat (16 :: u32) < 268435456" "kInputRepeatTicks < 7"
    by (simp_all add: sprint_packet_def kInputRepeatTicks_def)
  from received_input_not_repeated [OF len(1,2) dec mem que nxt len(3), where stats'' = "w_stats mk_world"]
  show ?thesis by (simp add: sprint_input_def mk_player_slot_def)
qed

end
