(* ===== verification/Region_Map.thy ===== *)
theory Region_Map
  imports Quantizer
begin

text \<open>
  \<open>sim/region.h\<close>: the square regions of authority, the hysteresis of the handoff and the assignment of
  regions to shards. Converting a coordinate has no result where C++ leaves it undefined.
\<close>

section \<open>The operations\<close>

definition kInvalidRegion :: u32 where "kInvalidRegion = 0xffffffff"

record region_map =
  rm_world_size :: f32
  rm_regions_per_axis :: u32
  rm_margin :: f32

definition mk_region_map :: region_map where
  "mk_region_map = \<lparr>rm_world_size = 0x45000000, rm_regions_per_axis = 2, rm_margin = 0x42400000\<rparr>"

definition region_count :: "region_map \<Rightarrow> u32" where
  "region_count m = rm_regions_per_axis m * rm_regions_per_axis m"

definition region_size :: "region_map \<Rightarrow> f32" where
  "region_size m = f_div (rm_world_size m) (f_of_int (uint (rm_regions_per_axis m)))"

definition axis_index :: "region_map \<Rightarrow> f32 \<Rightarrow> u32 option" where
  "axis_index m value =
     map_option (\<lambda>index.
         let index = (if index <s 0 then 0 else index)
         in if rm_regions_per_axis m \<le>s index then rm_regions_per_axis m - 1 else index)
       (f_to_i32 (f_div value (region_size m)))"

definition region_of :: "region_map \<Rightarrow> f32 \<Rightarrow> f32 \<Rightarrow> u32 option" where
  "region_of m x y =
     (case (axis_index m y, axis_index m x) of
        (Some iy, Some ix) \<Rightarrow> Some (iy * rm_regions_per_axis m + ix)
      | _ \<Rightarrow> None)"

text \<open>\<open>(min_x, min_y, max_x, max_y)\<close>.\<close>

definition bounds_of :: "region_map \<Rightarrow> u32 \<Rightarrow> f32 \<times> f32 \<times> f32 \<times> f32" where
  "bounds_of m region =
     (let s = region_size m;
          cx = region mod rm_regions_per_axis m;
          cy = region div rm_regions_per_axis m;
          min_x = f_mul (f_of_int (uint cx)) s;
          min_y = f_mul (f_of_int (uint cy)) s
      in (min_x, min_y, f_add min_x s, f_add min_y s))"

definition handoff_target :: "region_map \<Rightarrow> u32 \<Rightarrow> f32 \<Rightarrow> f32 \<Rightarrow> u32 option" where
  "handoff_target m current_region x y =
     map_option (\<lambda>raw.
         if raw = current_region then kInvalidRegion
         else case bounds_of m current_region of (min_x, min_y, max_x, max_y) \<Rightarrow>
           let past_x = (f_lt x (f_sub min_x (rm_margin m)) \<or> f_lt (f_add max_x (rm_margin m)) x);
               past_y = (f_lt y (f_sub min_y (rm_margin m)) \<or> f_lt (f_add max_y (rm_margin m)) y)
           in if past_x \<or> past_y then raw else kInvalidRegion)
       (region_of m x y)"

definition center_of :: "region_map \<Rightarrow> u32 \<Rightarrow> f32 \<times> f32" where
  "center_of m region =
     (case bounds_of m region of (min_x, min_y, max_x, max_y) \<Rightarrow>
        (f_mul (f_add min_x max_x) f_half, f_mul (f_add min_y max_y) f_half))"

text \<open>A shard name is a list of bytes; the result has one owner per region, empty without shards.\<close>

definition assign_regions :: "u8 list list \<Rightarrow> u32 \<Rightarrow> u8 list list" where
  "assign_regions sorted_shard_ids count =
     (if sorted_shard_ids = [] then replicate (unat count) []
      else map (\<lambda>region. sorted_shard_ids ! (region mod length sorted_shard_ids)) [0..<unat count])"


section \<open>Indices\<close>

lemma axis_index_value:
  assumes "f_trunc (f_div v (region_size m)) = Some t" and "- (2 ^ 31) \<le> t" and "t < 2 ^ 31"
    and n: "0 < unat (rm_regions_per_axis m)" "unat (rm_regions_per_axis m) < 2147483648"
  obtains c where "axis_index m v = Some c" and "int (unat c) = max 0 (min t (int (unat (rm_regions_per_axis m)) - 1))"
proof -
  let ?w = "word_of_int t :: u32"
  have i: "f_to_i32 (f_div v (region_size m)) = Some ?w" using assms(1-3) by (simp add: f_to_i32_def)
  show thesis by (rule that [OF _ clamped_index [OF assms(2-5)]]) (simp only: axis_index_def i Let_def option.map)
qed



section \<open>The centre of a region lies in the region\<close>

text \<open>Up to 1024 regions per axis, each a normal width well below the largest float.\<close>

definition regions_ok :: "region_map \<Rightarrow> bool" where
  "regions_ok m \<longleftrightarrow> 0 < unat (rm_regions_per_axis m) \<and> unat (rm_regions_per_axis m) \<le> 1024 \<and>
     f_finite (region_size m) \<and> 2 ^ 24 \<le> f_units (region_size m) \<and> f_units (region_size m) \<le> 2 ^ 230"

text \<open>One rounded step of a computation whose exact value is a multiple of the region size.\<close>

lemma step_error:
  fixes S X Y e :: real
  assumes r: "f_key r = rkey n d" and d: "0 < d" and b: "f_finite b" "\<bar>n\<bar> \<le> f_units b * d"
    and x: "real_of_int n / real_of_int d = Y" and near: "\<bar>Y - X\<bar> \<le> e" and X: "\<bar>Y\<bar> \<le> k * S" "2 ^ 23 \<le> k * S"
  shows "f_finite r" and "\<bar>real_of_int (f_units r) - X\<bar> \<le> e + k * S / 2 ^ 24"
proof -
  show f: "f_finite r" by (rule rounded_abs [OF r d b])
  have "\<bar>real_of_int (f_units r) - Y\<bar> \<le> k * S / 2 ^ 24" using rounded_error [OF r d f, of "k * S"] X x by simp
  then show "\<bar>real_of_int (f_units r) - X\<bar> \<le> e + k * S / 2 ^ 24" using near by linarith
qed

lemma trunc_middle:
  assumes q: "f_finite q" and c: "0 \<le> c" and near: "\<bar>real_of_int (f_units q) - (real_of_int c + 1 / 2) * 2 ^ 149\<bar> \<le> 2 ^ 149 / 4"
  shows "f_trunc q = Some c"
proof -
  have "real_of_int c * 2 ^ 149 \<le> real_of_int (f_units q)" "real_of_int (f_units q) < (real_of_int c + 1) * 2 ^ 149"
    using near by (simp_all add: abs_le_iff algebra_simps)
  then have "real_of_int (c * 2 ^ 149) \<le> real_of_int (f_units q)" "real_of_int (f_units q) < real_of_int ((c + 1) * 2 ^ 149)" by simp_all
  then have b: "c * 2 ^ 149 \<le> f_units q" "f_units q < (c + 1) * 2 ^ 149" by (simp_all only: of_int_le_iff of_int_less_iff)
  then have "f_units q div 2 ^ 149 = c"
    by (intro int_div_pos_eq [where r = "f_units q - c * 2 ^ 149"]) (simp_all add: algebra_simps)
  moreover have "0 \<le> f_units q" using b(1) c by (intro order_trans [OF _ b(1)]) simp
  ultimately show ?thesis using f_trunc_finite [OF q] by (simp add: trunc_units_def)
qed

lemma ratio_below:
  assumes b: "f_units b = 2 ^ 245" and d: "0 < d" and Y: "real_of_int n / real_of_int d = Y" "\<bar>Y\<bar> \<le> 2 ^ 245"
  shows "\<bar>n\<bar> \<le> f_units b * d"
proof -
  have "real_of_int n = Y * real_of_int d" using d Y(1) by (simp add: field_simps)
  then have "\<bar>real_of_int n\<bar> = \<bar>Y\<bar> * real_of_int d" using d by (simp add: abs_mult)
  also have "\<dots> \<le> 2 ^ 245 * real_of_int d" using d Y(2) by (intro mult_right_mono) simp_all
  finally have "real_of_int \<bar>n\<bar> \<le> real_of_int (2 ^ 245 * d)" by simp
  then show ?thesis unfolding b by (simp only: of_int_le_iff)
qed

lemma midpoint_error:
  fixes c :: int
  assumes s: "f_finite s" "2 ^ 24 \<le> f_units s" "f_units s \<le> 2 ^ 230" and c: "0 \<le> c" "c < 1024"
  defines "lo \<equiv> f_mul (f_of_int c) s"
  defines "ct \<equiv> f_mul (f_add lo (f_add lo s)) f_half"
  shows "f_finite ct" and "\<bar>f_units ct - (real_of_int c * f_units s + f_units s / 2)\<bar> \<le> 3590 * real_of_int (f_units s) / 2 ^ 24"
proof -
  define S where "S = real_of_int (f_units s)"
  define C where "C = real_of_int c * S"
  have S: "2 ^ 24 \<le> S" "S \<le> 2 ^ 230" using s(2,3) by (simp_all add: S_def)
  have C: "0 \<le> C" "C \<le> 1024 * S" unfolding C_def using c S(1) by (simp_all add: mult_right_mono del: mult_le_cancel_right)
  obtain b where b: "f_finite b" "f_units b = 2 ^ 245" using representable [of 1 245] by auto
  have small: "\<bar>Y\<bar> \<le> 2 ^ 245" if "\<bar>Y\<bar> \<le> k * S" "k \<le> 4096" for Y k
  proof -
    have "k * S \<le> 4096 * 2 ^ 230" using that(2) S by (intro mult_mono) simp_all
    also have "\<dots> \<le> 2 ^ 245" by simp
    finally show ?thesis using that(1) by linarith
  qed
  have cx: "f_finite (f_of_int c)" "f_units (f_of_int c) = c * 2 ^ 149" using c by (simp_all add: f_of_int_exact)
  have k1: "f_key lo = rkey (f_units (f_of_int c) * f_units s) (2 ^ 149)" unfolding lo_def by (rule f_key_mul [OF cx(1) s(1)])
  have y1: "real_of_int (f_units (f_of_int c) * f_units s) / real_of_int (2 ^ 149) = C" by (simp add: cx(2) S_def C_def)
  have p: "(0 :: int) < 2 ^ 149" by simp
  have z1: "\<bar>C - C\<bar> \<le> 0" "\<bar>C\<bar> \<le> 1024 * S" "2 ^ 23 \<le> 1024 * S" using C S by simp_all
  note lo = step_error [OF k1 p b(1) ratio_below [OF b(2) p y1 small [OF z1(2)]] y1 z1]
  define hi where "hi = f_add lo s"
  have lof: "f_finite lo" by (rule lo(1)) simp
  have loe: "\<bar>f_units lo - C\<bar> \<le> 1024 * S / 2 ^ 24" using lo(2) by simp
  have k2: "f_key hi = rkey (f_units lo + f_units s) 1" unfolding hi_def by (rule f_key_add [OF lof s(1)])
  have y2: "real_of_int (f_units lo + f_units s) / real_of_int 1 = f_units lo + S" by (simp add: S_def)
  have z2: "\<bar>(f_units lo + S) - (C + S)\<bar> \<le> 1024 * S / 2 ^ 24" "\<bar>f_units lo + S\<bar> \<le> 1026 * S" "2 ^ 23 \<le> 1026 * S"
    using loe C S unfolding abs_le_iff by (simp_all add: field_simps)
  note hi = step_error [OF k2 zero_less_one b(1) ratio_below [OF b(2) zero_less_one y2 small [OF z2(2)]] y2 z2]
  have hif: "f_finite hi" by (rule hi(1)) simp
  have hie: "\<bar>f_units hi - (C + S)\<bar> \<le> 2050 * S / 2 ^ 24" using hi(2) by (simp add: add_divide_distrib [symmetric])
  define sm where "sm = f_add lo hi"
  have k3: "f_key sm = rkey (f_units lo + f_units hi) 1" unfolding sm_def by (rule f_key_add [OF lof hif])
  have y3: "real_of_int (f_units lo + f_units hi) / real_of_int 1 = real_of_int (f_units lo) + f_units hi" by simp
  have z3: "\<bar>(real_of_int (f_units lo) + f_units hi) - (2 * C + S)\<bar> \<le> 3074 * S / 2 ^ 24" "\<bar>real_of_int (f_units lo) + f_units hi\<bar> \<le> 2052 * S"
      "2 ^ 23 \<le> 2052 * S"
    using loe hie C S unfolding abs_le_iff by (simp_all add: field_simps)
  note sm = step_error [OF k3 zero_less_one b(1) ratio_below [OF b(2) zero_less_one y3 small [OF z3(2)]] y3 z3]
  have smf: "f_finite sm" by (rule sm(1)) simp
  have sme: "\<bar>f_units sm - (2 * C + S)\<bar> \<le> 5126 * S / 2 ^ 24" using sm(2) by (simp add: add_divide_distrib [symmetric])
  have ct: "ct = f_mul sm f_half" by (simp add: ct_def sm_def hi_def)
  have k4: "f_key ct = rkey (f_units sm * f_units f_half) (2 ^ 149)" unfolding ct by (rule f_key_mul [OF smf f_half_units(1)])
  have y4: "real_of_int (f_units sm * f_units f_half) / real_of_int (2 ^ 149) = f_units sm / 2" by (simp add: f_half_units)
  have z4: "\<bar>f_units sm / 2 - (C + S / 2)\<bar> \<le> 2563 * S / 2 ^ 24" "\<bar>f_units sm / 2\<bar> \<le> 1027 * S" "2 ^ 23 \<le> 1027 * S"
    using sme C S unfolding abs_le_iff by (simp_all add: field_simps)
  note c4 = step_error [OF k4 p b(1) ratio_below [OF b(2) p y4 small [OF z4(2)]] y4 z4]
  show "f_finite ct" and "\<bar>f_units ct - (real_of_int c * f_units s + f_units s / 2)\<bar> \<le> 3590 * real_of_int (f_units s) / 2 ^ 24"
    using c4 by (simp_all add: C_def S_def add_divide_distrib [symmetric])
qed

lemma center_axis:
  fixes c :: int
  assumes s: "f_finite s" "2 ^ 24 \<le> f_units s" "f_units s \<le> 2 ^ 230" and c: "0 \<le> c" "c < 1024"
  defines "ct \<equiv> f_mul (f_add (f_mul (f_of_int c) s) (f_add (f_mul (f_of_int c) s) s)) f_half"
  shows "f_trunc (f_div ct s) = Some c"
proof -
  define S where "S = real_of_int (f_units s)"
  have S: "2 ^ 24 \<le> S" using s(2) by (simp add: S_def)
  obtain b where b: "f_finite b" "f_units b = 2 ^ 245" using representable [of 1 245] by auto
  note ct = midpoint_error [OF s c, folded ct_def S_def]
  define q where "q = f_div ct s"
  have d: "0 < f_units s" using s(2) by simp
  have k5: "f_key q = rkey (f_units ct * 2 ^ 149) (f_units s)" unfolding q_def by (rule f_key_div [OF ct(1) s(1) d])
  have y5: "real_of_int (f_units ct * 2 ^ 149) / real_of_int (f_units s) = f_units ct / S * 2 ^ 149" by (simp add: S_def)
  have "f_units ct / S - (real_of_int c + 1 / 2) = (f_units ct - (real_of_int c * S + S / 2)) / S" using S by (simp add: field_simps)
  then have "\<bar>f_units ct / S - (real_of_int c + 1 / 2)\<bar> = \<bar>f_units ct - (real_of_int c * S + S / 2)\<bar> / S" using S by simp
  also have "\<dots> \<le> (3590 * S / 2 ^ 24) / S" using ct(2) S by (intro divide_right_mono) simp_all
  also have "\<dots> = 3590 / 2 ^ 24" using S by (simp add: field_simps)
  finally have r: "\<bar>f_units ct / S - (real_of_int c + 1 / 2)\<bar> \<le> 3590 / 2 ^ 24" .
  have half: "3590 / 2 ^ 24 \<le> (1 / 2 :: real)" by simp
  have cr: "0 \<le> real_of_int c" "real_of_int c \<le> 1024" using c by simp_all
  have "\<bar>f_units ct / S * 2 ^ 149 - (real_of_int c + 1 / 2) * 2 ^ 149\<bar> = \<bar>f_units ct / S - (real_of_int c + 1 / 2)\<bar> * 2 ^ 149"
    by (simp only: left_diff_distrib [symmetric] abs_mult) simp
  also have "\<dots> \<le> 3590 / 2 ^ 24 * 2 ^ 149" using r by (intro mult_right_mono) simp_all
  finally have e5: "\<bar>f_units ct / S * 2 ^ 149 - (real_of_int c + 1 / 2) * 2 ^ 149\<bar> \<le> 3590 / 2 ^ 24 * 2 ^ 149" .
  have "\<bar>f_units ct / S\<bar> \<le> 1026" using r cr half by linarith
  then have Y: "\<bar>f_units ct / S * 2 ^ 149\<bar> \<le> 1026 * 2 ^ 149"
    unfolding abs_mult by (rule mult_mono) simp_all
  then have Y': "\<bar>f_units ct / S * 2 ^ 149\<bar> \<le> 2 ^ 245" by (rule order_trans) simp
  have q: "f_finite q" "\<bar>f_units q - (real_of_int c + 1 / 2) * 2 ^ 149\<bar> \<le> 3590 / 2 ^ 24 * 2 ^ 149 + 1026 * 2 ^ 149 / 2 ^ 24"
    by (rule step_error [OF k5 d b(1) ratio_below [OF b(2) d y5 Y'] y5 e5 Y], simp)+
  have "f_trunc q = Some c" by (rule trunc_middle [OF q(1) c(1) order_trans [OF q(2)]]) simp
  then show ?thesis by (simp add: q_def)
qed

lemma axis_index_center:
  assumes m: "regions_ok m" and c: "unat c < unat (rm_regions_per_axis m)"
  defines "s \<equiv> region_size m"
  shows "axis_index m (f_mul (f_add (f_mul (f_of_int (uint c)) s) (f_add (f_mul (f_of_int (uint c)) s) s)) f_half) = Some c"
proof -
  have n: "0 < unat (rm_regions_per_axis m)" "unat (rm_regions_per_axis m) < 2147483648" "unat (rm_regions_per_axis m) \<le> 1024"
    and s: "f_finite s" "2 ^ 24 \<le> f_units s" "f_units s \<le> 2 ^ 230" using m by (simp_all add: regions_ok_def s_def)
  have "unat c < 1024" using c n(3) by linarith
  then have "int (unat c) < int 1024" by (simp only: of_nat_less_iff)
  then have ci: "0 \<le> uint c" "uint c < 1024" by (simp_all only: uint_nat of_nat_numeral of_nat_0_le_iff)
  note t = center_axis [OF s ci]
  have b: "- (2 ^ 31) \<le> uint c" by (rule order_trans [OF _ ci(1)]) simp
  have b': "uint c < 2 ^ 31" by (rule less_trans [OF ci(2)]) simp
  obtain d where d: "axis_index m (f_mul (f_add (f_mul (f_of_int (uint c)) s) (f_add (f_mul (f_of_int (uint c)) s) s)) f_half) = Some d"
      "int (unat d) = max 0 (min (uint c) (int (unat (rm_regions_per_axis m)) - 1))"
    by (rule axis_index_value [OF t [unfolded s_def] b b' n(1,2), folded s_def])
  have "int (unat c) < int (unat (rm_regions_per_axis m))" using c by (simp only: of_nat_less_iff)
  then have "int (unat d) = int (unat c)" unfolding d(2) uint_nat by linarith
  then have "d = c" by (simp only: of_nat_eq_iff word_unat_eq_iff)
  with d(1) show ?thesis by simp
qed


section \<open>The properties\<close>

text \<open>
  Spawn points. With up to 1024 regions per axis of a normal width, the centre that \<open>center_of\<close> computes
  for a region lies in that region as \<open>region_of\<close> computes it, rounding included, so a spawned player is not
  handed off at once.
\<close>

theorem center_in_region:
  assumes "regions_ok m" and "unat region < unat (region_count m)"
  shows "(case center_of m region of (x, y) \<Rightarrow> region_of m x y = Some region \<and> handoff_target m region x y = Some kInvalidRegion)"
proof -
  let ?n = "rm_regions_per_axis m"
  have n: "0 < unat ?n" "unat ?n \<le> 1024" using assms(1) by (simp_all add: regions_ok_def)
  have "unat ?n * unat ?n \<le> 1024 * 1024" using n(2) by (intro mult_mono) simp_all
  then have cnt: "unat (region_count m) = unat ?n * unat ?n" unfolding region_count_def by (subst unat_mult_u32) simp_all
  have lt: "unat (region mod ?n) < unat ?n" "unat (region div ?n) < unat ?n"
    using n(1) assms(2) by (simp_all add: unat_mod unat_div cnt less_mult_imp_div_less)
  note X = axis_index_center [OF assms(1) lt(1)] and Y = axis_index_center [OF assms(1) lt(2)]
  have r: "region div ?n * ?n + region mod ?n = region" by (rule div_mult_mod_eq)
  show ?thesis
    by (simp add: center_of_def bounds_of_def Let_def region_of_def handoff_target_def X Y r)
qed

theorem center_in_region_witness:
  "(case center_of mk_region_map 3 of (x, y) \<Rightarrow> region_of mk_region_map x y = Some 3 \<and> handoff_target mk_region_map 3 x y = Some kInvalidRegion)"
proof -
  have "regions_ok mk_region_map" and "unat (3 :: u32) < unat (region_count mk_region_map)" by code_simp+
  then show ?thesis by (rule center_in_region)
qed

text \<open>The default map on positions of the world: two regions per axis of 1024, and the margin of 48.\<close>

lemma default_axis:
  assumes v: "f_finite v" "0 \<le> f_units v" "f_units v \<le> 2048 * 2 ^ 149"
  shows "axis_index mk_region_map v = Some (if 1024 * 2 ^ 149 \<le> f_units v then 1 else 0)"
proof -
  have s: "region_size mk_region_map = 0x44800000" by code_simp
  have u: "f_finite 0x44800000" "f_units 0x44800000 = 1024 * 2 ^ 149" by code_simp+
  have n: "0 < unat (rm_regions_per_axis mk_region_map)" "unat (rm_regions_per_axis mk_region_map) < 2147483648"
    "int (unat (rm_regions_per_axis mk_region_map)) = 2" by (simp_all add: mk_region_map_def)
  define q where "q = f_div v (region_size mk_region_map)"
  have d: "(0 :: int) < 1024 * 2 ^ 149" by simp
  have k: "f_key q = rkey (f_units v * 2 ^ 149) (1024 * 2 ^ 149)" unfolding q_def s using f_key_div(1) [OF v(1) u(1)] by (simp add: u(2))
  have index: "axis_index mk_region_map v = Some (if 1 \<le> t then 1 else 0)" if t: "f_trunc q = Some t" "0 \<le> t" "t \<le> 2" for t
  proof -
    obtain c where c: "axis_index mk_region_map v = Some c" "int (unat c) = max 0 (min t (int (unat (rm_regions_per_axis mk_region_map)) - 1))"
      by (rule axis_index_value [OF t(1) [unfolded q_def] _ _ n(1,2)]) (use t in simp_all)
    have "int (unat c) = int (if 1 \<le> t then 1 else 0)" unfolding c(2) n(3) using t(2) by simp
    then have "unat c = (if 1 \<le> t then 1 else 0)" by (simp only: of_nat_eq_iff)
    moreover have "(word_of_nat (unat c) :: u32) = c" by simp
    ultimately have "c = (if 1 \<le> t then 1 else 0)" by (simp split: if_splits)
    with c(1) show ?thesis by simp
  qed
  have one: "f_finite 0x3f800000" "f_units 0x3f800000 = 1 * 2 ^ 149" "f_finite 0x40000000" "f_units 0x40000000 = 2 * 2 ^ 149" by code_simp+
  show ?thesis
  proof (cases "1024 * 2 ^ 149 \<le> f_units v")
    case True
    have "f_units 0x3f800000 * (1024 * 2 ^ 149) \<le> f_units v * 2 ^ 149" "f_units v * 2 ^ 149 \<le> f_units 0x40000000 * (1024 * 2 ^ 149)"
      using True v(3) by (simp_all add: one)
    from rounded_between [OF k d one(1,3) this] have "f_trunc q = Some (trunc_units (f_units q))" "1 \<le> trunc_units (f_units q)" "trunc_units (f_units q) \<le> 2"
      using trunc_units_mono [of "f_units 0x3f800000" "f_units q"] trunc_units_mono [of "f_units q" "f_units 0x40000000"]
      by (simp_all only: one f_trunc_finite trunc_units_of_int)
    with index True show ?thesis by simp
  next
    case False
    have below: "f_finite 0x3f7fffff" "f_units 0x447fffff = 1024 * f_units 0x3f7fffff" "trunc_units (f_units 0x3f7fffff) = 0"
      "f_key 0x44800000 = f_key 0x447fffff + 1" by code_simp+
    have "\<not> f_key 0x44800000 \<le> f_key v" using False f_units_le_iff [of "0x44800000" v] by (simp add: u(2))
    then have "f_key v \<le> f_key 0x447fffff" using below(4) by linarith
    then have le: "f_units v \<le> 1024 * f_units 0x3f7fffff" using f_units_le_iff [of v "0x447fffff"] below(2) by simp
    have "f_units 0 * (1024 * 2 ^ 149) \<le> f_units v * 2 ^ 149" "f_units v * 2 ^ 149 \<le> f_units 0x3f7fffff * (1024 * 2 ^ 149)"
      using le v(2) by (simp_all add: zero_units)
    from rounded_between [OF k d zero_units(1) below(1) this] have "f_trunc q = Some (trunc_units (f_units q))" "0 \<le> trunc_units (f_units q)" "trunc_units (f_units q) \<le> 0"
      using trunc_units_mono [of 0 "f_units q"] trunc_units_of_int [of 0] trunc_units_mono [of "f_units q" "f_units 0x3f7fffff"]
      by (simp_all only: zero_units below(3) f_trunc_finite trunc_units_of_int mult_zero_left)
    with index False show ?thesis by simp
  qed
qed

definition on_map :: "f32 \<Rightarrow> bool" where
  "on_map v \<longleftrightarrow> f_finite v \<and> 0 \<le> f_units v \<and> f_units v \<le> 2048 * 2 ^ 149"

text \<open>Past the border of a column or row by more than the margin, in exact numbers.\<close>

definition past_margin :: "u32 \<Rightarrow> f32 \<Rightarrow> bool" where
  "past_margin i v \<longleftrightarrow> (if i = 0 then (1024 + 48) * 2 ^ 149 < f_units v else f_units v < (1024 - 48) * 2 ^ 149)"

lemma default_past:
  assumes "on_map v"
  shows "f_lt v 0xc2400000 \<or> f_lt 0x44860000 v \<longleftrightarrow> past_margin 0 v" and "f_lt v 0x44740000 \<or> f_lt 0x45030000 v \<longleftrightarrow> past_margin 1 v"
proof -
  have c: "f_finite 0xc2400000" "f_units 0xc2400000 = - 48 * 2 ^ 149" "f_finite 0x44860000" "f_units 0x44860000 = 1072 * 2 ^ 149"
    "f_finite 0x44740000" "f_units 0x44740000 = 976 * 2 ^ 149" "f_finite 0x45030000" "f_units 0x45030000 = 2096 * 2 ^ 149" by code_simp+
  show "f_lt v 0xc2400000 \<or> f_lt 0x44860000 v \<longleftrightarrow> past_margin 0 v" "f_lt v 0x44740000 \<or> f_lt 0x45030000 v \<longleftrightarrow> past_margin 1 v"
    using assms c by (auto simp: on_map_def past_margin_def f_lt_finite)
qed

lemma below_four: "(c :: u32) < 4 \<Longrightarrow> c = 0 \<or> c = 1 \<or> c = 2 \<or> c = 3"
proof -
  assume "c < 4"
  then have "unat c < 4" by (simp add: word_less_nat_alt)
  then have "unat c = 0 \<or> unat c = 1 \<or> unat c = 2 \<or> unat c = 3" by arith
  moreover have "(word_of_nat (unat c) :: u32) = c" by simp
  ultimately show ?thesis by (elim disjE) simp_all
qed

lemma default_target:
  assumes "on_map x" and "on_map y" and "current < 4"
  shows "handoff_target mk_region_map current x y =
    Some (let raw = (if 1024 * 2 ^ 149 \<le> f_units y then 2 else 0) + (if 1024 * 2 ^ 149 \<le> f_units x then 1 else 0)
          in if raw \<noteq> current \<and> (past_margin (current mod 2) x \<or> past_margin (current div 2) y) then raw else kInvalidRegion)"
proof -
  have ax: "axis_index mk_region_map v = Some (if 1024 * 2 ^ 149 \<le> f_units v then 1 else 0)" if "on_map v" for v
    using that default_axis by (simp add: on_map_def)
  have n: "rm_regions_per_axis mk_region_map = 2" by (simp add: mk_region_map_def)
  have raw: "region_of mk_region_map x y = Some ((if 1024 * 2 ^ 149 \<le> f_units y then 2 else 0) + (if 1024 * 2 ^ 149 \<le> f_units x then 1 else 0))"
    by (simp add: region_of_def ax assms(1,2) n)
  have b: "bounds_of mk_region_map 0 = (0, 0, 0x44800000, 0x44800000)" "bounds_of mk_region_map 1 = (0x44800000, 0, 0x45000000, 0x44800000)"
    "bounds_of mk_region_map 2 = (0, 0x44800000, 0x44800000, 0x45000000)" "bounds_of mk_region_map 3 = (0x44800000, 0x44800000, 0x45000000, 0x45000000)"
    by code_simp+
  have e: "f_sub 0 (rm_margin mk_region_map) = 0xc2400000" "f_sub 0x44800000 (rm_margin mk_region_map) = 0x44740000"
    "f_add 0x44800000 (rm_margin mk_region_map) = 0x44860000" "f_add 0x45000000 (rm_margin mk_region_map) = 0x45030000" by code_simp+
  consider "current = 0" | "current = 1" | "current = 2" | "current = 3" using below_four [OF assms(3)] by blast
  then show ?thesis
    by cases (use default_past [OF assms(1)] default_past [OF assms(2)] in \<open>auto simp: handoff_target_def raw b e Let_def\<close>)
qed

text \<open>
  C18: hysteresis. On the default map of two by two regions, for a position of the world, the region that contains it takes a
  player over exactly when the position is more than the margin of 48 behind a border of the current region. A player that was
  handed over and is handed back has in between moved by more than the margin along an axis, so that nobody who walks along a seam
  goes back and forth.
\<close>

theorem handoff_hysteresis:
  assumes "on_map x" and "on_map y" and "on_map x'" and "on_map y'" and "current < 4"
  shows "handoff_target mk_region_map current x y =
      Some (let raw = (if 1024 * 2 ^ 149 \<le> f_units y then 2 else 0) + (if 1024 * 2 ^ 149 \<le> f_units x then 1 else 0)
            in if raw \<noteq> current \<and> (past_margin (current mod 2) x \<or> past_margin (current div 2) y) then raw else kInvalidRegion) \<and>
    (\<forall>target. handoff_target mk_region_map current x y = Some target \<longrightarrow> target \<noteq> kInvalidRegion \<longrightarrow>
       handoff_target mk_region_map target x' y' = Some current \<longrightarrow>
       48 * 2 ^ 149 < \<bar>f_units x - f_units x'\<bar> \<or> 48 * 2 ^ 149 < \<bar>f_units y - f_units y'\<bar>)"
proof (intro conjI allI impI)
  show first: "handoff_target mk_region_map current x y =
      Some (let raw = (if 1024 * 2 ^ 149 \<le> f_units y then 2 else 0) + (if 1024 * 2 ^ 149 \<le> f_units x then 1 else 0)
            in if raw \<noteq> current \<and> (past_margin (current mod 2) x \<or> past_margin (current div 2) y) then raw else kInvalidRegion)"
    by (rule default_target [OF assms(1,2,5)])
  fix target
  assume t: "handoff_target mk_region_map current x y = Some target" "target \<noteq> kInvalidRegion" "handoff_target mk_region_map target x' y' = Some current"
  note cur = below_four [OF assms(5)]
  have past: "past_margin (current mod 2) x \<or> past_margin (current div 2) y" using t(1,2) first by (auto simp: Let_def split: if_splits)
  have "target < 4" using t(1,2) first by (auto simp: Let_def split: if_splits)
  note second = default_target [OF assms(3,4) this]
  have "current \<noteq> kInvalidRegion" using cur by (auto simp: kInvalidRegion_def)
  then have home: "current = (if 1024 * 2 ^ 149 \<le> f_units y' then 2 else 0) + (if 1024 * 2 ^ 149 \<le> f_units x' then 1 else 0)"
    using t(3) second by (auto simp: Let_def split: if_splits)
  show "48 * 2 ^ 149 < \<bar>f_units x - f_units x'\<bar> \<or> 48 * 2 ^ 149 < \<bar>f_units y - f_units y'\<bar>"
    using past by (auto simp: home past_margin_def split: if_splits)
qed

theorem handoff_hysteresis_witness:
  "handoff_target mk_region_map 0 0x44c80000 0x42c80000 = Some 1 \<and> handoff_target mk_region_map 1 0x42c80000 0x42c80000 = Some 0 \<and>
   48 * 2 ^ 149 < \<bar>f_units 0x44c80000 - f_units 0x42c80000\<bar>"
proof -
  have p: "on_map 0x44c80000" "on_map 0x42c80000" "(0 :: u32) < 4" by code_simp+
  have t: "handoff_target mk_region_map 0 0x44c80000 0x42c80000 = Some 1" "(1 :: u32) \<noteq> kInvalidRegion"
    "handoff_target mk_region_map 1 0x42c80000 0x42c80000 = Some 0" by code_simp+
  from handoff_hysteresis [OF p(1,2,2,2,3)] t show ?thesis by auto
qed

lemma residue_step:
  assumes "k < (l :: nat)"
  shows "(j + (l - k)) mod l = 0 \<longleftrightarrow> j mod l = k"
proof -
  have "(j + (l - k)) mod l = 0 \<longleftrightarrow> (j mod l + (l - k)) mod l = 0" by (simp add: mod_add_left_eq)
  also have "\<dots> \<longleftrightarrow> j mod l = k"
  proof (cases "j mod l < k")
    case True
    then show ?thesis using assms by simp
  next
    case False
    have "j mod l < l" using assms by simp
    have "j mod l + (l - k) = (j mod l - k) + l" using False assms by simp
    then have "(j mod l + (l - k)) mod l = j mod l - k" using \<open>j mod l < l\<close> by (simp only: mod_add_self2) simp
    then show ?thesis using False by simp
  qed
  finally show ?thesis .
qed

lemma residue_count:
  assumes "k < (l :: nat)"
  shows "length (filter (\<lambda>r. r mod l = k) [0..<j]) = (j + l - Suc k) div l"
proof (induction j)
  case 0
  then show ?case using assms by simp
next
  case (Suc j)
  have s: "Suc j + l - Suc k = Suc (j + l - Suc k)" "Suc (j + l - Suc k) = j + (l - k)" using assms by simp_all
  have "Suc (j + l - Suc k) mod l = 0 \<longleftrightarrow> j mod l = k" unfolding s(2) by (rule residue_step [OF assms])
  then show ?case using Suc.IH unfolding s(1) div_Suc by simp
qed

lemma count_by_index:
  assumes "distinct ids" and "k < length ids"
  shows "count_list (map (\<lambda>r. ids ! (r mod length ids)) rs) (ids ! k) = length (filter (\<lambda>r. r mod length ids = k) rs)"
proof (induction rs)
  case (Cons r rs)
  have "r mod length ids < length ids" using assms(2) by (intro mod_less_divisor) linarith
  then have "ids ! (r mod length ids) = ids ! k \<longleftrightarrow> r mod length ids = k" by (rule nth_eq_iff_index_eq [OF assms(1) _ assms(2)])
  then show ?case using Cons by simp
qed simp

text \<open>
  Region assignment. Given at least one shard, every region has an owner from the list, and the assignment
  is balanced: the shard in position \<open>k\<close> owns the number of regions divided by the number of shards, rounded
  up when \<open>k\<close> is below the remainder and down otherwise.
\<close>

theorem assign_regions_balanced:
  assumes "distinct ids" and "k < length ids"
  shows "length (assign_regions ids n) = unat n \<and> set (assign_regions ids n) \<subseteq> set ids \<and>
    count_list (assign_regions ids n) (ids ! k) = (unat n + length ids - Suc k) div length ids"
proof -
  have "assign_regions ids n = map (\<lambda>r. ids ! (r mod length ids)) [0..<unat n]" using assms(2) by (auto simp: assign_regions_def)
  moreover have "ids ! (r mod length ids) \<in> set ids" for r
    using assms(2) by (intro nth_mem mod_less_divisor) linarith
  ultimately show ?thesis using count_by_index [OF assms] residue_count [OF assms(2)] by auto
qed

theorem assign_regions_balanced_witness:
  "count_list (assign_regions [[97], [98], [99]] 4) [97] = 2"
proof -
  have "distinct [[97], [98], [99 :: u8]]" "0 < length [[97], [98], [99 :: u8]]" by simp_all
  from assign_regions_balanced [OF this, of 4] show ?thesis by simp
qed

end
