(* ===== verification/Migration.thy ===== *)
theory Migration
  imports Messages
begin

text \<open>
  \<open>cluster/migration.cpp\<close>: the handoff ticket of a player, with its checksum. A blob is a list of bytes,
  empty where the encoder refuses the ticket.
\<close>

section \<open>Tickets\<close>

definition kMigrationVersion :: u32 where "kMigrationVersion = 1"
definition kMigrationTicketBytes :: u32 where "kMigrationTicketBytes = 512"

record migration_ticket =
  mt_token :: u64
  mt_player_id :: "u8 list"
  mt_from_shard :: "u8 list"
  mt_to_shard :: "u8 list"
  mt_region :: u32
  mt_tick :: tick
  mt_position :: vec2
  mt_velocity :: vec2
  mt_last_input_sequence :: u32
  mt_issued_ms :: u64

definition checksum_step :: "u32 \<Rightarrow> u8 \<Rightarrow> u32" where
  "checksum_step hash byte = (hash XOR ucast byte) * 16777619"

definition checksum :: "u8 list \<Rightarrow> u32" where
  "checksum data = foldl checksum_step 2166136261 data"

definition write_migration_ticket :: "migration_ticket \<Rightarrow> (bit_writer, unit) state" where
  "write_migration_ticket ticket = do {
     write_varint kMigrationVersion;
     write_u64 (mt_token ticket);
     write_string (mt_player_id ticket);
     write_string (mt_from_shard ticket);
     write_string (mt_to_shard ticket);
     write_varint (mt_region ticket);
     write_u32 (mt_tick ticket);
     write_float (vx (mt_position ticket));
     write_float (vy (mt_position ticket));
     write_float (vx (mt_velocity ticket));
     write_float (vy (mt_velocity ticket));
     write_varint (mt_last_input_sequence ticket);
     write_u64 (mt_issued_ms ticket) }"

definition encode_migration_ticket :: "migration_ticket \<Rightarrow> u8 list" where
  "encode_migration_ticket ticket =
     (let w = snd (run_state (do { write_migration_ticket ticket; write_align })
                (mk_writer (replicate (unat kMigrationTicketBytes) 0) kMigrationTicketBytes))
      in if bw_overflow w then []
         else case run_state bytes_written w of (body, w) \<Rightarrow>
           let sum = checksum (take (unat body) (bw_buffer w));
               w = snd (run_state (write_u32 sum) w)
           in if bw_overflow w then []
              else case run_state bytes_written w of (n, w) \<Rightarrow> take (unat n) (bw_buffer w))"

definition read_migration_ticket :: "(bit_reader, migration_ticket option) state" where
  "read_migration_ticket = do {
     version \<leftarrow> read_varint;
     if version \<noteq> kMigrationVersion then State_Monad.return None
     else do {
       token \<leftarrow> read_u64;
       player_id \<leftarrow> read_string;
       from_shard \<leftarrow> read_string;
       to_shard \<leftarrow> read_string;
       region \<leftarrow> read_varint;
       tick \<leftarrow> read_u32;
       px \<leftarrow> read_float;
       py \<leftarrow> read_float;
       velx \<leftarrow> read_float;
       vely \<leftarrow> read_float;
       last_input_sequence \<leftarrow> read_varint;
       issued_ms \<leftarrow> read_u64;
       overflowed \<leftarrow> read_overflowed;
       State_Monad.return (if overflowed \<or> player_id = [] then None
         else Some \<lparr>mt_token = token, mt_player_id = player_id, mt_from_shard = from_shard, mt_to_shard = to_shard,
           mt_region = region, mt_tick = tick, mt_position = vec px py, mt_velocity = vec velx vely,
           mt_last_input_sequence = last_input_sequence, mt_issued_ms = issued_ms\<rparr>) } }"

definition stored_checksum :: "u8 list \<Rightarrow> nat \<Rightarrow> u32" where
  "stored_checksum data body =
     ucast (data ! body) OR push_bit 8 (ucast (data ! (body + 1))) OR push_bit 16 (ucast (data ! (body + 2))) OR
     push_bit 24 (ucast (data ! (body + 3)))"

definition decode_migration_ticket :: "u8 list \<Rightarrow> migration_ticket option" where
  "decode_migration_ticket blob =
     (if length blob < 5 \<or> length blob > unat kMigrationTicketBytes then None
      else let body = length blob - 4
           in if checksum (take body blob) \<noteq> stored_checksum blob body then None
              else fst (run_state read_migration_ticket (mk_reader blob (word_of_nat body))))"


section \<open>The checksum\<close>

lemma fnv_prime_inj: "(x :: u32) * 16777619 = y * 16777619 \<Longrightarrow> x = y"
proof -
  assume "x * 16777619 = y * 16777619"
  then have "x * (16777619 * 899433627) = y * (16777619 * 899433627)" by (simp only: mult.assoc [symmetric])
  moreover have "(16777619 :: u32) * 899433627 = 1" by code_simp
  ultimately show "x = y" by (simp only: mult_1_right)
qed

lemma checksum_step_inj: "checksum_step h b = checksum_step h' b \<Longrightarrow> h = h'"
proof -
  assume "checksum_step h b = checksum_step h' b"
  then have "h XOR ucast b = h' XOR ucast b" unfolding checksum_step_def by (rule fnv_prime_inj)
  then have "(h XOR ucast b) XOR ucast b = (h' XOR ucast b) XOR ucast b" by simp
  then show "h = h'" by (simp add: xor.assoc)
qed

lemma checksum_step_byte: "checksum_step h b = checksum_step h b' \<Longrightarrow> b = b'"
proof -
  assume "checksum_step h b = checksum_step h b'"
  then have "h XOR ucast b = h XOR (ucast b' :: u32)" unfolding checksum_step_def by (rule fnv_prime_inj)
  then have "h XOR (h XOR ucast b) = h XOR (h XOR (ucast b' :: u32))" by simp
  then have "(ucast b :: u32) = ucast b'" by (simp add: xor.assoc [symmetric])
  then have "bit (ucast b :: u32) n = bit (ucast b' :: u32) n" for n by simp
  then have eq: "n < 32 \<and> bit b n \<longleftrightarrow> n < 32 \<and> bit b' n" for n by (simp add: bit_ucast_iff)
  have "bit b n = bit b' n" if "n < 8" for n using eq [of n] less_trans [OF that, of 32] by simp
  then show "b = b'" by (intro bit_word_eqI) simp
qed

lemma checksum_from_inj: "foldl checksum_step h bs = foldl checksum_step h' bs \<Longrightarrow> h = h'"
  by (induction bs arbitrary: h h') (auto dest: checksum_step_inj)

lemma checksum_update:
  assumes "i < length bs" and "b \<noteq> bs ! i"
  shows "checksum (bs[i := b]) \<noteq> checksum bs"
proof
  let ?h = "foldl checksum_step 2166136261 (take i bs)"
  assume "checksum (bs[i := b]) = checksum bs"
  then have "foldl checksum_step (checksum_step ?h b) (drop (Suc i) bs) = foldl checksum_step (checksum_step ?h (bs ! i)) (drop (Suc i) bs)"
    using assms(1) unfolding checksum_def by (subst (asm) (2) id_take_nth_drop [OF assms(1)]) (simp add: upd_conv_take_nth_drop)
  then have "b = bs ! i" by (intro checksum_step_byte [OF checksum_from_inj])
  with assms(2) show False by simp
qed

lemma bit_stored_checksum:
  assumes "j < 4" and "k < 8"
  shows "bit (stored_checksum data body) (8 * j + k) = bit (data ! (body + j)) k"
proof -
  have small: "\<not> bit (x :: u8) n" if "8 \<le> n" for x n using that by (auto dest: bit_imp_le_length)
  from assms(1) consider "j = 0" | "j = 1" | "j = 2" | "j = 3" by linarith
  then show ?thesis
    by cases (use assms(2) in \<open>auto simp: stored_checksum_def bit_or_iff bit_push_bit_iff bit_ucast_iff small\<close>)
qed

lemma stored_checksum_eq:
  assumes "bytes_bits (drop body data) = bits_of v 32" and "body \<le> length data"
  shows "stored_checksum data body = v"
proof (rule bit_word_eqI)
  fix n
  assume "n < LENGTH(32)"
  then have n: "n div 8 < 4" "n mod 8 < 8" "8 * (n div 8) + n mod 8 = n" "n < 32" by auto
  have "length (bytes_bits (drop body data)) = 32" using assms(1) by simp
  then have "length (drop body data) = 4" by simp
  then have l: "body + n div 8 < length data" using n(1) by simp
  have "bit (stored_checksum data body) n = bit (data ! (body + n div 8)) (n mod 8)"
    using bit_stored_checksum [OF n(1,2)] n(3) by simp
  also have "\<dots> = bytes_bits (drop body data) ! n"
    using l \<open>length (drop body data) = 4\<close> n by (subst nth_bytes_bits) (simp_all add: add.commute)
  also have "\<dots> = bit v n" using n(4) by (simp add: assms(1))
  finally show "bit (stored_checksum data body) n = bit v n" .
qed

lemma stored_checksum_update:
  assumes "body \<le> i" and "i < body + 4" and "i < length data" and "b \<noteq> data ! i"
  shows "stored_checksum (data[i := b]) body \<noteq> stored_checksum data body"
proof
  assume eq: "stored_checksum (data[i := b]) body = stored_checksum data body"
  have j: "i - body < 4" "body + (i - body) = i" using assms(1,2) by simp_all
  have "bit b k = bit (data ! i) k" if "k < 8" for k
    using bit_stored_checksum [OF j(1) that, of "data[i := b]" body] bit_stored_checksum [OF j(1) that, of data body] eq j(2) assms(3)
    by simp
  then have "b = data ! i" by (intro bit_word_eqI) simp
  with assms(4) show False by simp
qed


section \<open>The bits of a ticket\<close>

definition ticket_bits :: "migration_ticket \<Rightarrow> bool list" where
  "ticket_bits t = bytes_bits (varint_bytes kMigrationVersion) @ bits_of (mt_token t) 64 @ string_bits (mt_player_id t) @
     string_bits (mt_from_shard t) @ string_bits (mt_to_shard t) @ bytes_bits (varint_bytes (mt_region t)) @
     bits_of (mt_tick t) 32 @ bits_of (vx (mt_position t)) 32 @ bits_of (vy (mt_position t)) 32 @
     bits_of (vx (mt_velocity t)) 32 @ bits_of (vy (mt_velocity t)) 32 @
     bytes_bits (varint_bytes (mt_last_input_sequence t)) @ bits_of (mt_issued_ms t) 64"

definition ticket_ok :: "migration_ticket \<Rightarrow> bool" where
  "ticket_ok t \<longleftrightarrow> mt_player_id t \<noteq> [] \<and> length (mt_player_id t) \<le> 1023 \<and> length (mt_from_shard t) \<le> 1023 \<and>
     length (mt_to_shard t) \<le> 1023"

lemma emits_ticket: "bw.emits (write_migration_ticket t) (ticket_bits t)"
  unfolding write_migration_ticket_def ticket_bits_def by (intro bw.emits_bind emits_intros)

lemma frames_ticket:
  assumes "ticket_ok t"
  shows "brc.frames read_migration_ticket (ticket_bits t) t"
proof -
  have ok: "mt_player_id t \<noteq> []" "length (mt_player_id t) \<le> 1023" "length (mt_from_shard t) \<le> 1023" "length (mt_to_shard t) \<le> 1023"
    using assms by (simp_all add: ticket_ok_def)
  show ?thesis
    unfolding read_migration_ticket_def ticket_bits_def
    by (rule brc.frames_bind [OF decodes_read_varint], simp only: simp_thms if_False,
        rule brc.frames_bind [OF decodes_read_u64], rule brc.frames_bind [OF decodes_read_string [OF ok(2)]],
        rule brc.frames_bind [OF decodes_read_string [OF ok(3)]], rule brc.frames_bind [OF decodes_read_string [OF ok(4)]],
        rule brc.frames_bind [OF decodes_read_varint], rule brc.frames_bind [OF decodes_read_u32],
        rule brc.frames_bind [OF decodes_read_float], rule brc.frames_bind [OF decodes_read_float],
        rule brc.frames_bind [OF decodes_read_float], rule brc.frames_bind [OF decodes_read_float],
        rule brc.frames_bind [OF decodes_read_varint], rule frames_last [OF decodes_read_u64],
        rule frames_final, use ok(1) in \<open>simp add: vec_def\<close>, simp) (intro guarded_intros decodes_intros; simp)+
qed

lemma aligned_bytes: "8 * ((k + 7) div 8) = k + (8 - k mod 8) mod (8 :: nat)"
proof -
  define q r where "q = k div 8" and "r = k mod 8"
  then have k: "k = 8 * q + r" "r < 8" by simp_all
  show ?thesis
  proof (cases "r = 0")
    case True
    have "(k + 7) div 8 = q" by (rule div_nat_eqI) (use k True in simp_all)
    then show ?thesis using k True by simp
  next
    case False
    have "(k + 7) div 8 = Suc q" by (rule div_nat_eqI) (use k False in simp_all)
    moreover have "(8 - k mod 8) mod 8 = 8 - r" using False k(2) by (simp add: r_def [symmetric])
    ultimately show ?thesis using k by simp
  qed
qed

lemma encode_ticket_blob:
  assumes fit: "length (ticket_bits t) \<le> 8 * 508"
  obtains body where "encode_migration_ticket t = body @ drop (length body) (encode_migration_ticket t)"
    and "length body = (length (ticket_bits t) + 7) div 8"
    and "bytes_bits body = ticket_bits t @ replicate (8 * length body - length (ticket_bits t)) False"
    and "bytes_bits (drop (length body) (encode_migration_ticket t)) = bits_of (checksum body) 32"
proof -
  let ?w0 = "mk_writer (replicate (unat kMigrationTicketBytes) 0) kMigrationTicketBytes"
  have cap: "unat kMigrationTicketBytes \<le> length (replicate (unat kMigrationTicketBytes) (0 :: u8))" "unat kMigrationTicketBytes < 268435456"
    by (simp_all add: kMigrationTicketBytes_def)
  note w0 = mk_writer_wf [OF cap]
  have room0: "bw_room ?w0 = 4096" by (simp add: w0(3)) (simp add: kMigrationTicketBytes_def)
  obtain u w1 where m1: "run_state (write_migration_ticket t) ?w0 = (u, w1)" by (cases "run_state (write_migration_ticket t) ?w0")
  note w1 = bw.emits_step [OF emits_ticket w0(1) m1]
  obtain u' w2 where m2: "run_state write_align w1 = (u', w2)" by (cases "run_state write_align w1")
  note w2 = write_align_bits [OF w1(1) m2]
  let ?k = "length (ticket_bits t)"
  let ?p = "(8 - ?k mod 8) mod 8"
  have b1: "bw_bits w1 = ticket_bits t" "bw_room w1 + ?k = 4096" "\<not> bw_overflow w1" using w1 w0(2,4) fit room0 by simp_all
  have b2: "bw_bits w2 = ticket_bits t @ replicate ?p False" "bw_room w2 + ?p = bw_room w1" "\<not> bw_overflow w2"
    using w2 b1 by simp_all
  obtain n w3 where m3: "run_state bytes_written w2 = (n, w3)" by (cases "run_state bytes_written w2")
  note w3 = bytes_written_bits [OF w2(1) m3]
  have al: "8 * ((?k + 7) div 8) = ?k + ?p" by (rule aligned_bytes)
  have n: "unat n = (?k + 7) div 8" using w3(4) unfolding b2(1) length_append length_replicate al [symmetric] by simp
  define body where "body = take (unat n) (bw_buffer w3)"
  have body: "length body = unat n" "bytes_bits body = bw_bits w2" using w3(5,6) n al b2(1) by (simp_all add: body_def)
  obtain u'' w4 where m4: "run_state (write_u32 (checksum body)) w3 = (u'', w4)" by (cases "run_state (write_u32 (checksum body)) w3")
  note w4 = bw.emits_step [OF emits_write_u32 w3(1) m4]
  have "8 * ((?k + 7) div 8) \<le> 8 * 508" using fit by (intro mult_left_mono) simp_all
  then have "32 \<le> bw_room w3" using w3(7) b1(2) b2(2) al by linarith
  then have b4: "bw_bits w4 = bytes_bits body @ bits_of (checksum body) 32" "\<not> bw_overflow w4"
    using w4 w3(2,3) b2(3) body(2) by simp_all
  obtain r w5 where m5: "run_state bytes_written w4 = (r, w5)" by (cases "run_state bytes_written w4")
  note w5 = bytes_written_bits [OF w4(1) m5]
  have r: "unat r = unat n + 4" using w5(4) b4(1) body(1) by simp
  have enc: "encode_migration_ticket t = take (unat r) (bw_buffer w5)"
    by (simp add: encode_migration_ticket_def m1 m2 b2(3) m3 m4 b4(2) m5 body_def [symmetric] Let_def)
  have out: "bytes_bits (encode_migration_ticket t) = bytes_bits body @ bits_of (checksum body) 32"
    using w5(6) r b4(1) body(1) unfolding enc by simp
  have "bytes_bits (take (length body) (encode_migration_ticket t)) = bytes_bits body"
    using out by (simp add: take_bytes_bits [symmetric])
  then have pre: "take (length body) (encode_migration_ticket t) = body"
    by (intro bytes_bits_inj) (auto dest: arg_cong [of _ _ length])
  have split: "encode_migration_ticket t = body @ drop (length body) (encode_migration_ticket t)"
    using append_take_drop_id [of "length body" "encode_migration_ticket t"] unfolding pre by simp
  have tail: "bytes_bits (drop (length body) (encode_migration_ticket t)) = bits_of (checksum body) 32"
    using out by (simp add: drop_bytes_bits [symmetric])
  have "8 * length body - ?k = ?p" using body(1) n al by simp
  then show thesis by (intro that [OF split _ _ tail]) (simp_all add: body n b2(1))
qed

lemma encode_ticket_full:
  assumes over: "8 * 508 < length (ticket_bits t)"
  shows "encode_migration_ticket t = []"
proof -
  let ?w0 = "mk_writer (replicate (unat kMigrationTicketBytes) 0) kMigrationTicketBytes"
  have cap: "unat kMigrationTicketBytes \<le> length (replicate (unat kMigrationTicketBytes) (0 :: u8))" "unat kMigrationTicketBytes < 268435456"
    by (simp_all add: kMigrationTicketBytes_def)
  note w0 = mk_writer_wf [OF cap]
  have room0: "bw_room ?w0 = 4096" by (simp add: w0(3)) (simp add: kMigrationTicketBytes_def)
  obtain u w1 where m1: "run_state (write_migration_ticket t) ?w0 = (u, w1)" by (cases "run_state (write_migration_ticket t) ?w0")
  note w1 = bw.emits_step [OF emits_ticket w0(1) m1]
  obtain u' w2 where m2: "run_state write_align w1 = (u', w2)" by (cases "run_state write_align w1")
  note w2 = write_align_bits [OF w1(1) m2]
  obtain n w3 where m3: "run_state bytes_written w2 = (n, w3)" by (cases "run_state bytes_written w2")
  note w3 = bytes_written_bits [OF w2(1) m3]
  let ?s = "checksum (take (unat n) (bw_buffer w3))"
  obtain u'' w4 where m4: "run_state (write_u32 ?s) w3 = (u'', w4)" by (cases "run_state (write_u32 ?s) w3")
  note w4 = bw.emits_step [OF emits_write_u32 w3(1) m4]
  have "bw_overflow w4" if "\<not> bw_overflow w2"
  proof -
    have "\<not> bw_overflow w1" using that w2(2) by simp
    then have "bw_room w1 + length (ticket_bits t) = 4096" using w1 room0 by (cases "length (ticket_bits t) \<le> 4096") simp_all
    moreover have "bw_room w2 \<le> bw_room w1" using w2(5) by linarith
    ultimately have "bw_room w3 < 32" using w3(7) over by linarith
    then show ?thesis using w4 by simp
  qed
  then show ?thesis by (auto simp: encode_migration_ticket_def m1 m2 m3 m4 Let_def)
qed


section \<open>The properties of a ticket\<close>

lemma ticket_blob_decodes:
  assumes "ticket_ok t" and True: "length (ticket_bits t) \<le> 8 * 508"
  shows "decode_migration_ticket (encode_migration_ticket t) = Some t" and "encode_migration_ticket t \<noteq> []"
proof -
  obtain body where b: "encode_migration_ticket t = body @ drop (length body) (encode_migration_ticket t)"
    "length body = (length (ticket_bits t) + 7) div 8"
    "bytes_bits body = ticket_bits t @ replicate (8 * length body - length (ticket_bits t)) False"
    "bytes_bits (drop (length body) (encode_migration_ticket t)) = bits_of (checksum body) 32"
    by (rule encode_ticket_blob [OF True])
  define tail where "tail = drop (length body) (encode_migration_ticket t)"
  have enc: "encode_migration_ticket t = body @ tail" using b(1) by (simp add: tail_def)
  have "length (bytes_bits tail) = 32" using b(4) by (simp add: tail_def)
  then have tail: "length tail = 4" by simp
  have pos: "0 < length body" using b(2) by (simp add: ticket_bits_def)
  have small: "length body \<le> 508" using b(2) True by simp
  then have n: "unat (word_of_nat (length body) :: u32) = length body" by (simp add: unat_of_nat_less)
  have sum: "stored_checksum (body @ tail) (length body) = checksum body"
    by (rule stored_checksum_eq) (use b(4) in \<open>simp_all add: enc\<close>)
  have cap: "unat (word_of_nat (length body) :: u32) \<le> length (body @ tail)" "unat (word_of_nat (length body) :: u32) < 268435456"
    using small by (simp_all only: n) simp_all
  note r = mk_reader_wf [OF cap]
  have "fst (run_state read_migration_ticket (mk_reader (body @ tail) (word_of_nat (length body)))) = Some t"
    by (rule brc.framesD [OF frames_ticket [OF assms(1)] r(1,3)]) (simp add: r(2) n b(3))
  then show "decode_migration_ticket (encode_migration_ticket t) = Some t" "encode_migration_ticket t \<noteq> []"
    using tail pos small sum by (auto simp add: decode_migration_ticket_def enc Let_def kMigrationTicketBytes_def)
qed

text \<open>
  C20: tickets. Encoding refuses exactly the tickets whose fields need more than 508 bytes (512 less the
  checksum); every other ticket with a player name and strings of at most 1023 bytes is decoded to itself.
\<close>

theorem ticket_roundtrip:
  assumes "ticket_ok t"
  shows "if length (ticket_bits t) \<le> 8 * 508 then decode_migration_ticket (encode_migration_ticket t) = Some t
    else encode_migration_ticket t = []"
  using ticket_blob_decodes(1) [OF assms] encode_ticket_full by auto

text \<open>
  C21: corruption. A blob that was accepted is rejected after changing any single byte of it, in the fields or in
  the checksum.
\<close>

theorem ticket_corruption_detected:
  assumes "decode_migration_ticket blob = Some t" and "i < length blob" and "b \<noteq> blob ! i"
  shows "decode_migration_ticket (blob[i := b]) = None"
proof -
  let ?k = "length blob - 4"
  have len: "5 \<le> length blob" and sum: "checksum (take ?k blob) = stored_checksum blob ?k"
    using assms(1) by (auto simp: decode_migration_ticket_def Let_def split: if_splits)
  have "checksum (take ?k (blob[i := b])) \<noteq> stored_checksum (blob[i := b]) ?k"
  proof (cases "i < ?k")
    case True
    then have "checksum (take ?k (blob[i := b])) \<noteq> checksum (take ?k blob)"
      using checksum_update [of i "take ?k blob" b] assms(3) by (simp add: take_update_swap)
    moreover have "stored_checksum (blob[i := b]) ?k = stored_checksum blob ?k" using True by (simp add: stored_checksum_def)
    ultimately show ?thesis using sum by simp
  next
    case False
    have "stored_checksum (blob[i := b]) ?k \<noteq> stored_checksum blob ?k"
      by (rule stored_checksum_update) (use False assms(2,3) len in auto)
    moreover have "take ?k (blob[i := b]) = take ?k blob" using False by simp
    ultimately show ?thesis using sum by simp
  qed
  then show ?thesis by (simp add: decode_migration_ticket_def Let_def)
qed

definition sample_ticket :: migration_ticket where
  "sample_ticket = \<lparr>mt_token = 77, mt_player_id = [112], mt_from_shard = [97], mt_to_shard = [98], mt_region = 3, mt_tick = 9,
     mt_position = vec 0x42c80000 0, mt_velocity = vec 0 0, mt_last_input_sequence = 4, mt_issued_ms = 1\<rparr>"

lemma sample_ticket_fits: "ticket_ok sample_ticket" "length (ticket_bits sample_ticket) \<le> 8 * 508"
  by code_simp+

theorem ticket_roundtrip_witness: "decode_migration_ticket (encode_migration_ticket sample_ticket) = Some sample_ticket"
  using ticket_roundtrip [OF sample_ticket_fits(1)] sample_ticket_fits(2) by simp

theorem ticket_corruption_detected_witness:
  "decode_migration_ticket ((encode_migration_ticket sample_ticket)[0 := encode_migration_ticket sample_ticket ! 0 + 1]) = None"
  by (rule ticket_corruption_detected [OF ticket_blob_decodes(1) [OF sample_ticket_fits]])
     (use ticket_blob_decodes(2) [OF sample_ticket_fits] in simp_all)

end
