(* ===== verification/Snapshot.thy ===== *)
theory Snapshot
  imports World Messages
begin

text \<open>
  \<open>proto/snapshot.h\<close> and \<open>proto/snapshot.cpp\<close>: delta-compressed snapshots of the entities around a player.
  \<open>std::nth_element\<close> is the parameter \<open>nth_element\<close> (its order inside the two parts is unspecified), and
  \<open>std::lower_bound\<close> on a sorted range is the length of the prefix below the target. The scratch vectors of
  \<open>ReplicationState\<close> are local to a call and not part of the state.
\<close>

section \<open>Frames\<close>

definition kSmallDeltaMin :: u32 where "kSmallDeltaMin = - 2048"
definition kSmallDeltaMax :: u32 where "kSmallDeltaMax = 2047"
definition kVelocityBits :: u32 where "kVelocityBits = 12"
definition kKindBits :: u32 where "kKindBits = 2"
definition kWorstCaseEntityBits :: u32 where "kWorstCaseEntityBits = 40 + 1 + 1 + 1 + 16 + 16 + kVelocityBits * 2 + kKindBits"
definition kUpdateCountBits :: u32 where "kUpdateCountBits = 16"

record replication_quantizers =
  rq_position :: quantizer
  rq_velocity :: quantizer

definition quantizers_from :: "world_params \<Rightarrow> replication_quantizers" where
  "quantizers_from params =
     \<lparr>rq_position = \<lparr>q_min = 0, q_max = wp_size params, q_bits = 16\<rparr>,
      rq_velocity = \<lparr>q_min = f_mul (f_neg (wp_max_speed params)) f_two, q_max = f_mul (wp_max_speed params) f_two, q_bits = 12\<rparr>\<rparr>"

record wire_state =
  ew_id :: entity_id
  ew_px :: u16
  ew_py :: u16
  ew_vx :: u16
  ew_vy :: u16
  ew_kind :: u8

definition mk_wire_state :: wire_state where
  "mk_wire_state = \<lparr>ew_id = 0, ew_px = 0, ew_py = 0, ew_vx = 0, ew_vy = 0, ew_kind = 0\<rparr>"

definition same_state_as :: "wire_state \<Rightarrow> wire_state \<Rightarrow> bool" where
  "same_state_as s t \<longleftrightarrow> ew_px s = ew_px t \<and> ew_py s = ew_py t \<and> ew_vx s = ew_vx t \<and> ew_vy s = ew_vy t \<and> ew_kind s = ew_kind t"

record snapshot_frame =
  sf_tick :: tick
  sf_valid :: bool
  sf_states :: "wire_state list"

definition mk_frame :: snapshot_frame where
  "mk_frame = \<lparr>sf_tick = 0, sf_valid = False, sf_states = []\<rparr>"

definition lower_bound :: "wire_state list \<Rightarrow> entity_id \<Rightarrow> nat" where
  "lower_bound states target = length (takeWhile (\<lambda>s. ew_id s < target) states)"

definition frame_find :: "snapshot_frame \<Rightarrow> entity_id \<Rightarrow> wire_state option" where
  "frame_find frame eid =
     (let k = lower_bound (sf_states frame) eid
      in if k = length (sf_states frame) \<or> ew_id (sf_states frame ! k) \<noteq> eid then None else Some (sf_states frame ! k))"

type_synonym snapshot_history = "snapshot_frame list"

definition history_configure :: "u32 \<Rightarrow> snapshot_history" where
  "history_configure capacity = replicate (unat capacity) mk_frame"

text \<open>The slot of a tick is its index in the ring, absent when the ring has no frames.\<close>

definition history_slot :: "snapshot_history \<Rightarrow> tick \<Rightarrow> nat option" where
  "history_slot frames tick = (if frames = [] then None else Some (unat tick mod length frames))"

definition history_get :: "snapshot_history \<Rightarrow> tick \<Rightarrow> snapshot_frame option" where
  "history_get frames tick =
     (case history_slot frames tick of
        None \<Rightarrow> None
      | Some k \<Rightarrow> let frame = frames ! k in if \<not> sf_valid frame \<or> sf_tick frame \<noteq> tick then None else Some frame)"

definition history_reset :: "snapshot_history \<Rightarrow> snapshot_history" where
  "history_reset frames = map (\<lambda>_. mk_frame) frames"

definition history_store :: "tick \<Rightarrow> wire_state list \<Rightarrow> snapshot_history \<Rightarrow> snapshot_history" where
  "history_store tick states frames =
     (case history_slot frames tick of
        None \<Rightarrow> frames
      | Some k \<Rightarrow> frames[k := \<lparr>sf_tick = tick, sf_valid = True, sf_states = states\<rparr>])"


section \<open>The replication state\<close>

record interest_config =
  ic_aoi_radius :: f32
  ic_max_snapshot_bytes :: u32
  ic_baseline_history :: u32
  ic_distance_priority_falloff :: f32

text \<open>The defaults: 260, 1000, 32 and 1.\<close>

definition mk_interest_config :: interest_config where
  "mk_interest_config = \<lparr>ic_aoi_radius = 0x43820000, ic_max_snapshot_bytes = 1000, ic_baseline_history = 32,
     ic_distance_priority_falloff = f_one\<rparr>"

record replication_stats =
  rs_relevant_entities :: u32
  rs_entities_sent :: u32
  rs_entities_removed :: u32
  rs_entities_deferred :: u32
  rs_snapshot_bytes :: u32
  rs_was_full_snapshot :: bool

definition mk_replication_stats :: replication_stats where
  "mk_replication_stats = \<lparr>rs_relevant_entities = 0, rs_entities_sent = 0, rs_entities_removed = 0, rs_entities_deferred = 0,
     rs_snapshot_bytes = 0, rs_was_full_snapshot = False\<rparr>"

record replication_state =
  rp_config :: interest_config
  rp_quantizers :: replication_quantizers
  rp_params :: world_params
  rp_history :: snapshot_history
  rp_last_acked_tick :: tick
  rp_has_acked :: bool
  rp_priority :: "(entity_id \<times> f32) list"
  rp_stats :: replication_stats

definition replication_configure :: "interest_config \<Rightarrow> world_params \<Rightarrow> replication_state \<Rightarrow> replication_state" where
  "replication_configure config params r =
     r\<lparr>rp_config := config, rp_params := params, rp_quantizers := quantizers_from params,
       rp_history := history_configure (ic_baseline_history config)\<rparr>"

definition replication_reset :: "replication_state \<Rightarrow> replication_state" where
  "replication_reset r =
     r\<lparr>rp_history := history_reset (rp_history r), rp_last_acked_tick := 0, rp_has_acked := False, rp_priority := [],
       rp_stats := mk_replication_stats\<rparr>"

definition replication_baseline :: "replication_state \<Rightarrow> snapshot_frame option" where
  "replication_baseline r = (if rp_has_acked r then history_get (rp_history r) (rp_last_acked_tick r) else None)"

definition acknowledge :: "tick \<Rightarrow> replication_state \<Rightarrow> replication_state" where
  "acknowledge tick r =
     (if rp_has_acked r \<and> \<not> sequence_greater32 tick (rp_last_acked_tick r) then r
      else r\<lparr>rp_last_acked_tick := tick, rp_has_acked := True\<rparr>)"


section \<open>Selecting\<close>

definition gather_key :: "entity_store \<Rightarrow> u32 \<Rightarrow> u64" where
  "gather_key s index = push_bit 32 (ucast (es_id s ! unat index)) OR ucast index"

text \<open>The relevant entities as sorted keys of identifier and index.\<close>

definition gather :: "world \<Rightarrow> vec2 \<Rightarrow> f32 \<Rightarrow> u64 list option" where
  "gather w eye radius =
     Option.bind (query_radius (w_grid w) eye radius) (\<lambda>found.
       if (\<exists>index\<in>set found. length (es_id (w_entities w)) \<le> unat index) then None
       else Some (sort (map (gather_key (w_entities w))
         (filter (\<lambda>index. \<not> f_lt (f_mul radius radius) (distance_sq (es_position (w_entities w) ! unat index) eye)) found))))"

definition wire_state_of :: "replication_quantizers \<Rightarrow> entity_store \<Rightarrow> u64 \<Rightarrow> wire_state option" where
  "wire_state_of q s key =
     (let i = unat (ucast (key AND 0xffffffff) :: u32)
      in case (q_encode (rq_position q) (vx (es_position s ! i)), q_encode (rq_position q) (vy (es_position s ! i)),
               q_encode (rq_velocity q) (vx (es_velocity s ! i)), q_encode (rq_velocity q) (vy (es_velocity s ! i))) of
           (Some px, Some py, Some velx, Some vely) \<Rightarrow>
             Some \<lparr>ew_id = ucast (drop_bit 32 key), ew_px = ucast px, ew_py = ucast py, ew_vx = ucast velx, ew_vy = ucast vely,
               ew_kind = es_kind s ! i\<rparr>
         | _ \<Rightarrow> None)"

fun wire_states :: "replication_quantizers \<Rightarrow> entity_store \<Rightarrow> u64 list \<Rightarrow> wire_state list option" where
  "wire_states q s [] = Some []"
| "wire_states q s (key # rest) =
     (case (wire_state_of q s key, wire_states q s rest) of
        (Some x, Some xs) \<Rightarrow> Some (x # xs)
      | _ \<Rightarrow> None)"

text \<open>The merge of the baseline with the current states: the previous state of each entity, and the removals.\<close>

fun merge_baseline :: "wire_state list \<Rightarrow> wire_state list \<Rightarrow> wire_state option list \<times> entity_id list" where
  "merge_baseline [] cs = (map (\<lambda>_. None) cs, [])"
| "merge_baseline (b # bs) [] = ([], map ew_id (b # bs))"
| "merge_baseline (b # bs) (c # cs) =
     (if ew_id b < ew_id c then case merge_baseline bs (c # cs) of (previous, removed) \<Rightarrow> (previous, ew_id b # removed)
      else if ew_id b > ew_id c then case merge_baseline (b # bs) cs of (previous, removed) \<Rightarrow> (None # previous, removed)
      else case merge_baseline bs cs of (previous, removed) \<Rightarrow> (Some b # previous, removed))"

text \<open>The constants \<open>0.01f\<close>, \<open>1e6f\<close> and \<open>-1.f\<close>.\<close>

definition candidate_priority :: "interest_config \<Rightarrow> replication_quantizers \<Rightarrow> vec2 \<Rightarrow> entity_id \<Rightarrow> wire_state \<Rightarrow> f32 \<Rightarrow> f32" where
  "candidate_priority config q eye viewer current carried =
     (let decoded = vec (q_decode (rq_position q) (ucast (ew_px current))) (q_decode (rq_position q) (ucast (ew_py current)));
          closeness = f_sub f_one (clampf (f_div (f_sqrt (distance_sq decoded eye)) (ic_aoi_radius config)) 0 f_one);
          priority = f_add (f_add carried (f_mul closeness (ic_distance_priority_falloff config))) 0x3c23d70a
      in if ew_id current = viewer then f_add priority 0x49742400 else priority)"

fun rank_candidates :: "interest_config \<Rightarrow> replication_quantizers \<Rightarrow> vec2 \<Rightarrow> entity_id \<Rightarrow> (entity_id \<times> f32) list \<Rightarrow>
    nat \<Rightarrow> (wire_state \<times> wire_state option) list \<Rightarrow> f32 list \<times> (nat \<times> f32) list" where
  "rank_candidates config q eye viewer carried i [] = ([], [])"
| "rank_candidates config q eye viewer carried i ((current, previous) # rest) =
     (let carried = dropWhile (\<lambda>c. fst c < ew_id current) carried;
          credit = (case carried of (eid, priority) # _ \<Rightarrow> if eid = ew_id current then priority else 0 | [] \<Rightarrow> 0)
      in case rank_candidates config q eye viewer carried (i + 1) rest of (priorities, candidates) \<Rightarrow>
         if (case previous of Some p \<Rightarrow> same_state_as current p | None \<Rightarrow> False) then (0xbf800000 # priorities, candidates)
         else let priority = candidate_priority config q eye viewer current credit
              in (priority # priorities, (i, priority) # candidates))"

definition select_candidates :: "(nat \<Rightarrow> (nat \<times> f32) list \<Rightarrow> (nat \<times> f32) list) \<Rightarrow> nat \<Rightarrow> (nat \<times> f32) list \<Rightarrow> nat list" where
  "select_candidates nth_element fits candidates =
     (if length candidates \<le> fits then map fst candidates
      else sort (map fst (take fits (nth_element fits candidates))))"


section \<open>Writing\<close>

definition write_entity_id :: "entity_id \<Rightarrow> entity_id \<Rightarrow> (bit_writer, unit) state" where
  "write_entity_id eid previous = write_varint (eid - previous)"

fun write_removed :: "entity_id \<Rightarrow> entity_id list \<Rightarrow> (bit_writer, unit) state" where
  "write_removed previous [] = State_Monad.return ()"
| "write_removed previous (eid # rest) = do { write_entity_id eid previous; write_removed eid rest }"

definition write_header :: "tick \<Rightarrow> tick option \<Rightarrow> u32 \<Rightarrow> entity_id \<Rightarrow> entity_id list \<Rightarrow> (bit_writer, unit) state" where
  "write_header tick base_tick last_input_sequence viewer removed = do {
     write_u32 tick;
     write_bool (base_tick = None);
     (case base_tick of Some t \<Rightarrow> write_u32 t | None \<Rightarrow> State_Monad.return ());
     write_u32 last_input_sequence;
     write_varint viewer;
     write_varint (word_of_nat (length removed));
     write_removed 0 removed }"

definition write_full_state :: "wire_state \<Rightarrow> (bit_writer, unit) state" where
  "write_full_state current = do {
     write_u16 (ew_px current);
     write_u16 (ew_py current);
     write_bits (ucast (ew_vx current)) kVelocityBits;
     write_bits (ucast (ew_vy current)) kVelocityBits;
     write_bits (ucast (ew_kind current)) kKindBits }"

definition small_delta :: "u32 \<Rightarrow> bool" where
  "small_delta d \<longleftrightarrow> kSmallDeltaMin \<le>s d \<and> d \<le>s kSmallDeltaMax"

definition write_position_delta :: "wire_state \<Rightarrow> wire_state \<Rightarrow> (bit_writer, unit) state" where
  "write_position_delta current previous =
     (let dx = ucast (ew_px current) - ucast (ew_px previous);
          dy = ucast (ew_py current) - ucast (ew_py previous);
          small = (small_delta dx \<and> small_delta dy)
      in do {
        write_bool small;
        if small then do { write_ranged dx kSmallDeltaMin kSmallDeltaMax; write_ranged dy kSmallDeltaMin kSmallDeltaMax }
        else do { write_u16 (ew_px current); write_u16 (ew_py current) } })"

definition write_delta_state :: "wire_state \<Rightarrow> wire_state \<Rightarrow> (bit_writer, unit) state" where
  "write_delta_state current previous =
     (let position_changed = (ew_px current \<noteq> ew_px previous \<or> ew_py current \<noteq> ew_py previous);
          velocity_changed = (ew_vx current \<noteq> ew_vx previous \<or> ew_vy current \<noteq> ew_vy previous)
      in do {
        write_bool position_changed;
        (if position_changed then write_position_delta current previous else State_Monad.return ());
        write_bool velocity_changed;
        (if velocity_changed then do { write_bits (ucast (ew_vx current)) kVelocityBits; write_bits (ucast (ew_vy current)) kVelocityBits }
         else State_Monad.return ()) })"

definition write_update :: "entity_id \<Rightarrow> wire_state \<Rightarrow> wire_state option \<Rightarrow> (bit_writer, unit) state" where
  "write_update previous_id current previous = do {
     write_entity_id (ew_id current) previous_id;
     write_bool (previous = None);
     case previous of None \<Rightarrow> write_full_state current | Some p \<Rightarrow> write_delta_state current p }"

fun write_updates :: "entity_id \<Rightarrow> (wire_state \<times> wire_state option) list \<Rightarrow> (bit_writer, unit) state" where
  "write_updates previous_id [] = State_Monad.return ()"
| "write_updates previous_id ((current, previous) # rest) =
     do { write_update previous_id current previous; write_updates (ew_id current) rest }"

text \<open>The frame that the server remembers: sent entities as they are, the others as the client knows them.\<close>

fun sent_frame :: "nat set \<Rightarrow> nat \<Rightarrow> (wire_state \<times> wire_state option) list \<Rightarrow> wire_state list" where
  "sent_frame sent i [] = []"
| "sent_frame sent i ((current, previous) # rest) =
     (if i \<in> sent then [current] else case previous of Some p \<Rightarrow> [p] | None \<Rightarrow> []) @ sent_frame sent (i + 1) rest"

fun carry_priorities :: "nat set \<Rightarrow> nat \<Rightarrow> (wire_state \<times> f32) list \<Rightarrow> (entity_id \<times> f32) list" where
  "carry_priorities sent i [] = []"
| "carry_priorities sent i ((current, priority) # rest) =
     (if i \<in> sent \<or> f_lt priority 0 then [] else [(ew_id current, priority)]) @ carry_priorities sent (i + 1) rest"

text \<open>Header, selection and updates: what was selected and the length, unless the buffer overflows, and the buffer.\<close>

definition write_snapshot :: "(nat \<Rightarrow> (nat \<times> f32) list \<Rightarrow> (nat \<times> f32) list) \<Rightarrow> tick \<Rightarrow> tick option \<Rightarrow> u32 \<Rightarrow> entity_id \<Rightarrow>
    entity_id list \<Rightarrow> (wire_state \<times> wire_state option) list \<Rightarrow> (nat \<times> f32) list \<Rightarrow> u8 list \<Rightarrow> u32 \<Rightarrow> (nat list \<times> u32) option \<times> u8 list" where
  "write_snapshot nth_element tick base_tick last_input_sequence viewer removed rows candidates out budget =
     (let writer = snd (run_state (write_header tick base_tick last_input_sequence viewer removed) (mk_writer out budget))
      in if bw_overflow writer then (None, bw_buffer writer)
         else let available = bw_bits_remaining writer;
                  fits = (if available \<le> kUpdateCountBits then 0 else (available - kUpdateCountBits) div kWorstCaseEntityBits);
                  selected = select_candidates nth_element (unat fits) candidates;
                  writer = snd (run_state (do {
                      write_u16 (word_of_nat (length selected));
                      write_updates 0 (map (\<lambda>i. rows ! i) selected) }) writer)
              in if bw_overflow writer then (None, bw_buffer writer)
                 else case run_state bytes_written writer of (bytes, writer) \<Rightarrow> (Some (selected, bytes), bw_buffer writer))"

definition usable_baseline :: "tick \<Rightarrow> replication_state \<Rightarrow> snapshot_frame option" where
  "usable_baseline tick r =
     (case replication_baseline r of
        None \<Rightarrow> None
      | Some frame \<Rightarrow> if history_slot (rp_history r) (rp_last_acked_tick r) = history_slot (rp_history r) tick then None else Some frame)"

definition match_baseline :: "snapshot_frame option \<Rightarrow> wire_state list \<Rightarrow> wire_state option list \<times> entity_id list" where
  "match_baseline base current =
     (case base of None \<Rightarrow> (map (\<lambda>_. None) current, []) | Some frame \<Rightarrow> merge_baseline (sf_states frame) current)"

text \<open>The body of \<open>encode\<close> once the relevant states are known: length, buffer and new state.\<close>

definition encode_states :: "(nat \<Rightarrow> (nat \<times> f32) list \<Rightarrow> (nat \<times> f32) list) \<Rightarrow> tick \<Rightarrow> vec2 \<Rightarrow> entity_id \<Rightarrow> u32 \<Rightarrow> wire_state list \<Rightarrow>
    u8 list \<Rightarrow> u32 \<Rightarrow> replication_state \<Rightarrow> u32 \<times> u8 list \<times> replication_state" where
  "encode_states nth_element tick eye viewer last_input_sequence current out capacity r =
     (let base = usable_baseline tick r;
          (previous, removed) = match_baseline base current;
          rows = zip current previous;
          (priorities, candidates) = rank_candidates (rp_config r) (rp_quantizers r) eye viewer (rp_priority r) 0 rows;
          budget = min capacity (ic_max_snapshot_bytes (rp_config r));
          stats = mk_replication_stats\<lparr>rs_relevant_entities := word_of_nat (length current), rs_was_full_snapshot := (base = None),
            rs_entities_removed := word_of_nat (length removed)\<rparr>
      in case write_snapshot nth_element tick (map_option sf_tick base) last_input_sequence viewer removed rows candidates out budget of
           (None, buffer) \<Rightarrow> (0, buffer, r\<lparr>rp_stats := stats\<rparr>)
         | (Some (selected, bytes), buffer) \<Rightarrow>
             (bytes, buffer,
              r\<lparr>rp_stats := stats\<lparr>rs_entities_sent := word_of_nat (length selected),
                  rs_entities_deferred := word_of_nat (length candidates - length selected), rs_snapshot_bytes := bytes\<rparr>,
                rp_history := history_store tick (sent_frame (set selected) 0 rows) (rp_history r),
                rp_priority := carry_priorities (set selected) 0 (zip current priorities)\<rparr>))"

definition encode_snapshot :: "(nat \<Rightarrow> (nat \<times> f32) list \<Rightarrow> (nat \<times> f32) list) \<Rightarrow> world \<Rightarrow> entity_id \<Rightarrow> u32 \<Rightarrow> u8 list \<Rightarrow> u32 \<Rightarrow>
    replication_state \<Rightarrow> (u32 \<times> u8 list \<times> replication_state) option" where
  "encode_snapshot nth_element w viewer last_input_sequence out capacity r =
     (let viewer_index = es_find (w_entities w) viewer
      in if viewer_index < 0 then Some (0, out, r\<lparr>rp_stats := mk_replication_stats\<rparr>)
         else let eye = es_position (w_entities w) ! nat viewer_index
              in Option.bind (gather w eye (ic_aoi_radius (rp_config r))) (\<lambda>keys.
                 map_option (\<lambda>current. encode_states nth_element (w_tick w) eye viewer last_input_sequence current out capacity r)
                   (wire_states (rp_quantizers r) (w_entities w) keys)))"


section \<open>Reading\<close>

definition read_entity_id :: "entity_id \<Rightarrow> (bit_reader, entity_id) state" where
  "read_entity_id previous = do { gap \<leftarrow> read_varint; State_Monad.return (previous + gap) }"

text \<open>\<open>(tick, baseline_tick, full)\<close>.\<close>

definition read_snapshot_header :: "(bit_reader, (tick \<times> tick \<times> bool) option) state" where
  "read_snapshot_header = do {
     tick \<leftarrow> read_u32;
     full \<leftarrow> read_bool;
     baseline_tick \<leftarrow> (if full then State_Monad.return 0 else read_u32);
     overflowed \<leftarrow> read_overflowed;
     State_Monad.return (if overflowed then None else Some (tick, baseline_tick, full)) }"

definition peek_snapshot_header :: "u8 list \<Rightarrow> u32 \<Rightarrow> (tick \<times> tick \<times> bool) option" where
  "peek_snapshot_header data n = fst (run_state read_snapshot_header (mk_reader data n))"

fun read_removed :: "nat \<Rightarrow> entity_id \<Rightarrow> (bit_reader, entity_id list) state" where
  "read_removed 0 previous = State_Monad.return []"
| "read_removed (Suc n) previous = do {
     eid \<leftarrow> read_entity_id previous;
     rest \<leftarrow> read_removed n eid;
     State_Monad.return (eid # rest) }"

definition read_full_state :: "wire_state \<Rightarrow> (bit_reader, wire_state) state" where
  "read_full_state state = do {
     px \<leftarrow> read_u16;
     py \<leftarrow> read_u16;
     velx \<leftarrow> read_bits kVelocityBits;
     vely \<leftarrow> read_bits kVelocityBits;
     kind \<leftarrow> read_bits kKindBits;
     State_Monad.return (state\<lparr>ew_px := px, ew_py := py, ew_vx := ucast velx, ew_vy := ucast vely, ew_kind := ucast kind\<rparr>) }"

definition read_position_delta :: "wire_state \<Rightarrow> (bit_reader, wire_state) state" where
  "read_position_delta state = do {
     small \<leftarrow> read_bool;
     if small then do {
       dx \<leftarrow> read_ranged kSmallDeltaMin kSmallDeltaMax;
       dy \<leftarrow> read_ranged kSmallDeltaMin kSmallDeltaMax;
       State_Monad.return (state\<lparr>ew_px := ucast (ucast (ew_px state) + dx), ew_py := ucast (ucast (ew_py state) + dy)\<rparr>) }
     else do {
       px \<leftarrow> read_u16;
       py \<leftarrow> read_u16;
       State_Monad.return (state\<lparr>ew_px := px, ew_py := py\<rparr>) } }"

definition read_velocity :: "wire_state \<Rightarrow> (bit_reader, wire_state) state" where
  "read_velocity state = do {
     velx \<leftarrow> read_bits kVelocityBits;
     vely \<leftarrow> read_bits kVelocityBits;
     State_Monad.return (state\<lparr>ew_vx := ucast velx, ew_vy := ucast vely\<rparr>) }"

definition read_delta_state :: "wire_state \<Rightarrow> (bit_reader, wire_state) state" where
  "read_delta_state state = do {
     position_changed \<leftarrow> read_bool;
     state \<leftarrow> (if position_changed then read_position_delta state else State_Monad.return state);
     velocity_changed \<leftarrow> read_bool;
     if velocity_changed then read_velocity state else State_Monad.return state }"

definition put_state :: "wire_state list \<Rightarrow> wire_state \<Rightarrow> wire_state list" where
  "put_state states state =
     (let k = lower_bound states (ew_id state)
      in if k < length states \<and> ew_id (states ! k) = ew_id state then states[k := state]
         else take k states @ state # drop k states)"

fun read_updates :: "nat \<Rightarrow> entity_id \<Rightarrow> wire_state list \<Rightarrow> (bit_reader, wire_state list option) state" where
  "read_updates 0 previous_id states = State_Monad.return (Some states)"
| "read_updates (Suc n) previous_id states = do {
     eid \<leftarrow> read_entity_id previous_id;
     is_new \<leftarrow> read_bool;
     overflowed \<leftarrow> read_overflowed;
     if overflowed then State_Monad.return None
     else let k = lower_bound states eid;
              had_previous = (k < length states \<and> ew_id (states ! k) = eid);
              state = (if had_previous then states ! k else mk_wire_state\<lparr>ew_id := eid\<rparr>)
          in if \<not> is_new \<and> \<not> had_previous then State_Monad.return None
             else do {
               state \<leftarrow> (if is_new then read_full_state state else read_delta_state state);
               overflowed \<leftarrow> read_overflowed;
               if overflowed then State_Monad.return None else read_updates n eid (put_state states state) } }"

record decoded_snapshot =
  ds_tick :: tick
  ds_baseline_tick :: tick
  ds_full :: bool
  ds_last_input_sequence :: u32
  ds_viewer :: entity_id
  ds_states :: "wire_state list"
  ds_removed :: "entity_id list"

definition read_snapshot :: "snapshot_frame option \<Rightarrow> (bit_reader, decoded_snapshot option) state" where
  "read_snapshot baseline = do {
     tick \<leftarrow> read_u32;
     full \<leftarrow> read_bool;
     baseline_tick \<leftarrow> (if full then State_Monad.return 0 else read_u32);
     last_input_sequence \<leftarrow> read_u32;
     viewer \<leftarrow> read_varint;
     overflowed \<leftarrow> read_overflowed;
     if overflowed \<or> \<not> full \<and> (case baseline of None \<Rightarrow> True | Some b \<Rightarrow> \<not> sf_valid b \<or> sf_tick b \<noteq> baseline_tick) then State_Monad.return None
     else do {
       removed_count \<leftarrow> read_varint;
       overflowed \<leftarrow> read_overflowed;
       if overflowed \<or> removed_count > 65535 then State_Monad.return None
       else do {
         removed \<leftarrow> read_removed (unat removed_count) 0;
         overflowed \<leftarrow> read_overflowed;
         if overflowed then State_Monad.return None
         else do {
           updated_count \<leftarrow> read_u16;
           overflowed \<leftarrow> read_overflowed;
           if overflowed then State_Monad.return None
           else do {
             states \<leftarrow> read_updates (unat updated_count) 0
               (if full then [] else filter (\<lambda>s. ew_id s \<notin> set removed) (case baseline of Some b \<Rightarrow> sf_states b | None \<Rightarrow> []));
             State_Monad.return (map_option (\<lambda>states. \<lparr>ds_tick = tick, ds_baseline_tick = baseline_tick, ds_full = full,
               ds_last_input_sequence = last_input_sequence, ds_viewer = viewer, ds_states = states, ds_removed = removed\<rparr>) states) } } } } }"

definition decode_snapshot :: "u8 list \<Rightarrow> u32 \<Rightarrow> snapshot_frame option \<Rightarrow> decoded_snapshot option" where
  "decode_snapshot data n baseline = fst (run_state (read_snapshot baseline) (mk_reader data n))"

section \<open>The bits of a snapshot\<close>

text \<open>The states the fields carry exactly: identifiers ascending, velocities and kinds within their widths.\<close>

definition state_ok :: "wire_state \<Rightarrow> bool" where
  "state_ok s \<longleftrightarrow> unat (ew_vx s) < 2 ^ 12 \<and> unat (ew_vy s) < 2 ^ 12 \<and> unat (ew_kind s) < 2 ^ 2"

definition states_ok :: "wire_state list \<Rightarrow> bool" where
  "states_ok ss \<longleftrightarrow> sorted_wrt (\<lambda>s t. ew_id s < ew_id t) ss \<and> list_all state_ok ss"

definition full_state_bits :: "wire_state \<Rightarrow> bool list" where
  "full_state_bits c = bits_of (ew_px c) 16 @ bits_of (ew_py c) 16 @ bits_of (ucast (ew_vx c) :: u32) 12 @
     bits_of (ucast (ew_vy c) :: u32) 12 @ bits_of (ucast (ew_kind c) :: u32) 2"

definition position_bits :: "wire_state \<Rightarrow> wire_state \<Rightarrow> bool list" where
  "position_bits c p =
     (let dx = ucast (ew_px c) - ucast (ew_px p); dy = ucast (ew_py c) - ucast (ew_py p); small = (small_delta dx \<and> small_delta dy)
      in [small] @ (if small then ranged_bits dx kSmallDeltaMin kSmallDeltaMax @ ranged_bits dy kSmallDeltaMin kSmallDeltaMax
                    else bits_of (ew_px c) 16 @ bits_of (ew_py c) 16))"

definition velocity_bits :: "wire_state \<Rightarrow> bool list" where
  "velocity_bits c = bits_of (ucast (ew_vx c) :: u32) 12 @ bits_of (ucast (ew_vy c) :: u32) 12"

definition delta_state_bits :: "wire_state \<Rightarrow> wire_state \<Rightarrow> bool list" where
  "delta_state_bits c p =
     (let position_changed = (ew_px c \<noteq> ew_px p \<or> ew_py c \<noteq> ew_py p); velocity_changed = (ew_vx c \<noteq> ew_vx p \<or> ew_vy c \<noteq> ew_vy p)
      in [position_changed] @ (if position_changed then position_bits c p else []) @
         [velocity_changed] @ (if velocity_changed then velocity_bits c else []))"

definition update_bits :: "entity_id \<Rightarrow> wire_state \<Rightarrow> wire_state option \<Rightarrow> bool list" where
  "update_bits start c p = bytes_bits (varint_bytes (ew_id c - start)) @ [p = None] @
     (case p of None \<Rightarrow> full_state_bits c | Some b \<Rightarrow> delta_state_bits c b)"

fun updates_bits :: "entity_id \<Rightarrow> (wire_state \<times> wire_state option) list \<Rightarrow> bool list" where
  "updates_bits start [] = []"
| "updates_bits start ((c, p) # rest) = update_bits start c p @ updates_bits (ew_id c) rest"

fun removed_bits :: "entity_id \<Rightarrow> entity_id list \<Rightarrow> bool list" where
  "removed_bits start [] = []"
| "removed_bits start (e # rest) = bytes_bits (varint_bytes (e - start)) @ removed_bits e rest"

definition header_bits :: "tick \<Rightarrow> tick option \<Rightarrow> u32 \<Rightarrow> entity_id \<Rightarrow> entity_id list \<Rightarrow> bool list" where
  "header_bits tick base_tick sequence viewer removed =
     bits_of tick 32 @ [base_tick = None] @ (case base_tick of Some t \<Rightarrow> bits_of t 32 | None \<Rightarrow> []) @ bits_of sequence 32 @
     bytes_bits (varint_bytes viewer) @ bytes_bits (varint_bytes (word_of_nat (length removed))) @ removed_bits 0 removed"

lemma small_delta_range: "small_delta d \<longleftrightarrow> sint kSmallDeltaMin \<le> sint d \<and> sint d \<le> sint kSmallDeltaMax"
  by (simp add: small_delta_def word_sle_eq)

lemma emits_bits_12: "bw.emits (write_bits v kVelocityBits) (bits_of v 12)"
  using bw.emits_put [of kVelocityBits v] by (simp add: kVelocityBits_def)

lemma emits_bits_2: "bw.emits (write_bits v kKindBits) (bits_of v 2)"
  using bw.emits_put [of kKindBits v] by (simp add: kKindBits_def)

lemma emits_full_state: "bw.emits (write_full_state c) (full_state_bits c)"
  unfolding write_full_state_def full_state_bits_def by (intro bw.emits_bind emits_intros emits_bits_12 emits_bits_2)

lemma emits_position_delta: "bw.emits (write_position_delta c p) (position_bits c p)"
  unfolding write_position_delta_def position_bits_def Let_def
  by (intro bw.emits_bind bw.emits_if emits_intros emits_write_ranged) (simp_all add: small_delta_range)

lemma emits_delta_state: "bw.emits (write_delta_state c p) (delta_state_bits c p)"
  unfolding write_delta_state_def delta_state_bits_def velocity_bits_def Let_def
  by (intro bw.emits_bind bw.emits_if bw.emits_return emits_intros emits_position_delta emits_bits_12)

lemma emits_update: "bw.emits (write_update start c p) (update_bits start c p)"
  unfolding write_update_def update_bits_def write_entity_id_def
  by (intro bw.emits_bind emits_intros) (simp split: option.split add: emits_full_state emits_delta_state)

lemma emits_updates: "bw.emits (write_updates start rows) (updates_bits start rows)"
  by (induction start rows rule: updates_bits.induct) (auto intro!: bw.emits_return bw.emits_bind emits_update)

lemma emits_removed: "bw.emits (write_removed start es) (removed_bits start es)"
  by (induction start es rule: removed_bits.induct)
    (auto intro!: bw.emits_return bw.emits_bind emits_intros simp: write_entity_id_def)

lemma emits_header: "bw.emits (write_header tick base sequence viewer removed) (header_bits tick base sequence viewer removed)"
  unfolding write_header_def header_bits_def
  by (intro bw.emits_bind emits_intros emits_removed) (simp split: option.split add: bw.emits_return emits_intros)

text \<open>The worst case that the budget reckons with.\<close>

lemma varint_bytes_not_Nil: "varint_bytes v \<noteq> []"
  by (subst varint_bytes.simps) simp

lemma length_varint_bits: "length (bytes_bits (varint_bytes v)) \<le> 40" "8 \<le> length (bytes_bits (varint_bytes v))"
  using length_varint_bytes_5 [of v] varint_bytes_not_Nil [of v] by (simp_all add: Suc_le_eq)

lemma length_ranged_small: "length (ranged_bits d kSmallDeltaMin kSmallDeltaMax) = 12"
  unfolding ranged_bits_def length_bits_of by code_simp

lemma length_position_bits: "length (position_bits c p) \<le> 33"
  by (simp add: position_bits_def Let_def length_ranged_small)

lemma length_delta_state_bits: "length (delta_state_bits c p) \<le> 59"
  using length_position_bits [of c p] by (simp add: delta_state_bits_def Let_def velocity_bits_def)

lemma length_update_bits: "length (update_bits start c p) \<le> unat kWorstCaseEntityBits"
  using length_varint_bits(1) [of "ew_id c - start"] length_delta_state_bits [of c "the p"]
  by (auto simp: update_bits_def full_state_bits_def kWorstCaseEntityBits_def kVelocityBits_def kKindBits_def split: option.split)

lemma length_updates_bits: "length (updates_bits start rows) \<le> unat kWorstCaseEntityBits * length rows"
proof (induction start rows rule: updates_bits.induct)
  case (2 start c p rest)
  with length_update_bits [of start c p] show ?case by simp
qed simp

lemma length_removed_bits: "8 * length es \<le> length (removed_bits start es)"
proof (induction start es rule: removed_bits.induct)
  case (2 start e rest)
  with length_varint_bits(2) [of "e - start"] show ?case by simp
qed simp

section \<open>Reading the bits back\<close>

lemma frames_map_option:
  "brc.frames m bs v \<Longrightarrow> brc.frames (do { x \<leftarrow> m; State_Monad.return (map_option f x) }) bs (f v)"
  unfolding brc.frames_def by (auto split: prod.splits)

lemma ucast_narrow_wide [simp]: "ucast (ucast (x :: u16) :: u32) = x"
  by (rule bit_word_eqI) (simp add: bit_ucast_iff)

lemma ucast_narrow_wide_8 [simp]: "ucast (ucast (x :: u8) :: u32) = x"
  by (rule bit_word_eqI) (simp add: bit_ucast_iff)

lemma unat_wide: "unat (ucast (x :: u16) :: u32) = unat x" "unat (ucast (y :: u8) :: u32) = unat y"
  using unat_less_u16 [of x] unat_less_u8 [of y] by (simp_all add: unsigned_ucast_eq take_bit_eq_mod)

lemma decodes_velocity_field:
  "unat v < 2 ^ 12 \<Longrightarrow> br.decodes (read_bits kVelocityBits) (bits_of (ucast (v :: u16) :: u32) 12) (ucast v)"
  using decodes_read_bits [of kVelocityBits "ucast v"] take_bit_small [of "ucast v :: u32" 12] by (simp add: kVelocityBits_def unat_wide)

lemma decodes_kind_field:
  "unat v < 2 ^ 2 \<Longrightarrow> br.decodes (read_bits kKindBits) (bits_of (ucast (v :: u8) :: u32) 2) (ucast v)"
  using decodes_read_bits [of kKindBits "ucast v"] take_bit_small [of "ucast v :: u32" 2] by (simp add: kKindBits_def unat_wide)

lemma safe_velocity_field [decodes_intros]: "br.safe (read_bits kVelocityBits)" "br.safe (read_bits kKindBits)"
  by (intro br.safe_intros; simp add: kVelocityBits_def kKindBits_def)+

lemma decodes_full_state:
  assumes "state_ok c" and "ew_id s = ew_id c"
  shows "br.decodes (read_full_state s) (full_state_bits c) c"
  unfolding read_full_state_def full_state_bits_def
  using assms
  by (intro br.decodes_bind [OF decodes_read_u16] br.decodes_bind [OF decodes_velocity_field] br.decodes_map [OF decodes_kind_field]
      br.safe_intros decodes_intros) (simp_all add: state_ok_def)

lemma safe_full_state [decodes_intros]: "br.safe (read_full_state s)"
  unfolding read_full_state_def by (intro br.safe_intros decodes_intros)

lemma small_range: "sint kSmallDeltaMin \<le> sint kSmallDeltaMax"
  unfolding kSmallDeltaMin_def kSmallDeltaMax_def by code_simp

lemma safe_position_delta [decodes_intros]: "br.safe (read_position_delta s)"
  unfolding read_position_delta_def by (intro br.safe_intros decodes_intros small_range)

lemma safe_velocity [decodes_intros]: "br.safe (read_velocity s)"
  unfolding read_velocity_def by (intro br.safe_intros decodes_intros)

lemma safe_delta_state [decodes_intros]: "br.safe (read_delta_state s)"
  unfolding read_delta_state_def by (intro br.safe_intros decodes_intros)

lemma decodes_position_delta:
  "br.decodes (read_position_delta p) (position_bits c p) (p\<lparr>ew_px := ew_px c, ew_py := ew_py c\<rparr>)"
proof -
  let ?dx = "ucast (ew_px c) - ucast (ew_px p) :: u32" and ?dy = "ucast (ew_py c) - ucast (ew_py p) :: u32"
  show ?thesis
  proof (cases "small_delta ?dx \<and> small_delta ?dy")
    case True
    then have d: "br.decodes (read_ranged kSmallDeltaMin kSmallDeltaMax) (ranged_bits ?dx kSmallDeltaMin kSmallDeltaMax) ?dx"
        "br.decodes (read_ranged kSmallDeltaMin kSmallDeltaMax) (ranged_bits ?dy kSmallDeltaMin kSmallDeltaMax) ?dy"
      by (auto intro!: decodes_read_ranged simp: small_delta_range)
    have small: "br.decodes (do { dx \<leftarrow> read_ranged kSmallDeltaMin kSmallDeltaMax; dy \<leftarrow> read_ranged kSmallDeltaMin kSmallDeltaMax;
          State_Monad.return (p\<lparr>ew_px := ucast (ucast (ew_px p) + dx), ew_py := ucast (ucast (ew_py p) + dy)\<rparr>) })
        (ranged_bits ?dx kSmallDeltaMin kSmallDeltaMax @ ranged_bits ?dy kSmallDeltaMin kSmallDeltaMax)
        (p\<lparr>ew_px := ew_px c, ew_py := ew_py c\<rparr>)"
      by (rule br.decodes_bind [OF d(1)], rule br.decodes_map [OF d(2)]) (simp, intro br.safe_intros decodes_intros small_range)
    from True show ?thesis
      unfolding read_position_delta_def position_bits_def Let_def
      by (intro br.decodes_bind [OF decodes_read_bool]) (auto intro!: small br.safe_intros decodes_intros small_range)
  next
    case False
    have big: "br.decodes (do { px \<leftarrow> read_u16; py \<leftarrow> read_u16; State_Monad.return (p\<lparr>ew_px := px, ew_py := py\<rparr>) })
        (bits_of (ew_px c) 16 @ bits_of (ew_py c) 16) (p\<lparr>ew_px := ew_px c, ew_py := ew_py c\<rparr>)"
      by (rule br.decodes_bind [OF decodes_read_u16], rule br.decodes_map [OF decodes_read_u16 refl]) (intro br.safe_intros decodes_intros)
    from False show ?thesis
      unfolding read_position_delta_def position_bits_def Let_def
      by (intro br.decodes_bind [OF decodes_read_bool]) (auto intro!: big br.safe_intros decodes_intros small_range)
  qed
qed

lemma decodes_velocity:
  assumes "state_ok c"
  shows "br.decodes (read_velocity p) (velocity_bits c) (p\<lparr>ew_vx := ew_vx c, ew_vy := ew_vy c\<rparr>)"
  unfolding read_velocity_def velocity_bits_def
  using assms
  by (intro br.decodes_bind [OF decodes_velocity_field] br.decodes_map [OF decodes_velocity_field] br.safe_intros decodes_intros)
    (simp_all add: state_ok_def)

lemma decodes_delta_state:
  assumes ok: "state_ok c" and same: "ew_id p = ew_id c" "ew_kind p = ew_kind c"
  shows "br.decodes (read_delta_state p) (delta_state_bits c p) c"
proof -
  let ?pc = "ew_px c \<noteq> ew_px p \<or> ew_py c \<noteq> ew_py p" and ?vc = "ew_vx c \<noteq> ew_vx p \<or> ew_vy c \<noteq> ew_vy p"
  let ?q = "p\<lparr>ew_px := ew_px c, ew_py := ew_py c\<rparr>"
  have pos: "br.decodes (if ?pc then read_position_delta p else State_Monad.return p) (if ?pc then position_bits c p else []) ?q"
    using decodes_position_delta [of p c] br.decodes_return [of p] by (cases ?pc) (auto simp: if_P if_not_P)
  have c: "?q\<lparr>ew_vx := ew_vx c, ew_vy := ew_vy c\<rparr> = c" using same by simp
  have vel: "br.decodes (if ?vc then read_velocity ?q else State_Monad.return ?q) (if ?vc then velocity_bits c else []) c"
  proof (cases ?vc)
    case True
    with decodes_velocity [OF ok, of ?q] c show ?thesis by (simp only: if_True)
  next
    case False
    then have "?q = c" using same by simp
    with False br.decodes_return [of c] show ?thesis by (simp only: if_False)
  qed
  show ?thesis
    unfolding read_delta_state_def delta_state_bits_def Let_def
    by (rule br.decodes_bind [OF decodes_read_bool], rule br.decodes_bind [OF pos], rule br.decodes_bind [OF decodes_read_bool], rule vel)
      (intro br.safe_intros decodes_intros)+
qed

lemma safe_entity_id [decodes_intros]: "br.safe (read_entity_id start)"
  unfolding read_entity_id_def by (intro br.safe_intros decodes_intros)

lemma decodes_entity_id: "br.decodes (read_entity_id start) (bytes_bits (varint_bytes (e - start))) e"
  unfolding read_entity_id_def by (rule br.decodes_map [OF decodes_read_varint]) simp

lemma safe_removed [decodes_intros]: "br.safe (read_removed n start)"
  by (induction n arbitrary: start) (auto intro!: br.safe_intros decodes_intros)

lemma decodes_removed: "br.decodes (read_removed (length es) start) (removed_bits start es) es"
proof (induction start es rule: removed_bits.induct)
  case (2 start e rest)
  have "br.decodes (read_removed (length rest) e \<bind> (\<lambda>r. State_Monad.return (e # r))) (removed_bits e rest) (e # rest)"
    by (rule br.decodes_map [OF 2]) simp
  then show ?case
    by (auto intro!: br.decodes_bind [OF decodes_entity_id] br.safe_intros decodes_intros)
qed (simp add: br.decodes_return)

end
