(* ===== verification/Snapshot_Agreement.thy ===== *)
theory Snapshot_Agreement
  imports Snapshot "HOL-Library.Multiset"
begin

text \<open>
  What the two ends of a snapshot agree on: the frame that the server remembers for a tick is the frame that a
  client with the same baseline decodes, a snapshot that is cut short is refused, and the reckoning with the worst
  case keeps every snapshot within its budget.
\<close>

section \<open>Frames as sorted lists\<close>

abbreviation ids_sorted :: "wire_state list \<Rightarrow> bool" where
  "ids_sorted \<equiv> sorted_wrt (\<lambda>s t. ew_id s < ew_id t)"

lemma lower_bound_Nil [simp]: "lower_bound [] e = 0"
  by (simp add: lower_bound_def)

lemma lower_bound_Cons [simp]: "lower_bound (s # ss) e = (if ew_id s < e then Suc (lower_bound ss e) else 0)"
  by (simp add: lower_bound_def)

lemma lower_bound_le: "lower_bound ss e \<le> length ss"
  by (simp add: lower_bound_def length_takeWhile_le)

lemma lower_bound_finds:
  "ids_sorted ss \<Longrightarrow> b \<in> set ss \<Longrightarrow> lower_bound ss (ew_id b) < length ss \<and> ss ! lower_bound ss (ew_id b) = b"
  by (induction ss) auto

lemma put_state_Nil [simp]: "put_state [] c = [c]"
  by (simp add: put_state_def)

lemma put_state_Cons [simp]:
  "put_state (s # ss) c = (if ew_id s < ew_id c then s # put_state ss c else if ew_id s = ew_id c then c # ss else c # s # ss)"
  by (simp add: put_state_def Let_def)

lemma put_state_sorted:
  "ids_sorted ss \<Longrightarrow> put_state ss c = filter (\<lambda>s. ew_id s < ew_id c) ss @ c # filter (\<lambda>s. ew_id c < ew_id s) ss"
proof (induction ss)
  case (Cons s ss)
  have "ew_id c \<le> ew_id s \<Longrightarrow> filter (\<lambda>t. ew_id t < ew_id c) ss = [] \<and> filter (\<lambda>t. ew_id c < ew_id t) ss = ss"
    using Cons.prems by (fastforce simp: filter_empty_conv filter_id_conv)
  with Cons show ?case by (auto simp: not_less order.order_iff_strict)
qed simp

lemma ids_sorted_put: "ids_sorted ss \<Longrightarrow> ids_sorted (put_state ss c)"
  by (auto simp: put_state_sorted sorted_wrt_append sorted_wrt_filter)

lemma set_put: "ids_sorted ss \<Longrightarrow> set (put_state ss c) = {s \<in> set ss. ew_id s \<noteq> ew_id c} \<union> {c}"
  by (auto simp: put_state_sorted)

text \<open>Folding a list of updates into a frame.\<close>

abbreviation put_rows :: "(wire_state \<times> 'a) list \<Rightarrow> wire_state list \<Rightarrow> wire_state list" where
  "put_rows rows ss \<equiv> fold (\<lambda>(c, _) ss. put_state ss c) rows ss"

lemma put_rows_frame:
  "ids_sorted ss \<Longrightarrow> distinct (map (ew_id \<circ> fst) rows) \<Longrightarrow>
   ids_sorted (put_rows rows ss) \<and>
   set (put_rows rows ss) = {s \<in> set ss. ew_id s \<notin> (ew_id \<circ> fst) ` set rows} \<union> fst ` set rows"
proof (induction rows arbitrary: ss)
  case (Cons row rows)
  obtain c p where row: "row = (c, p)" by (cases row)
  have "ids_sorted (put_state ss c)" using Cons.prems(1) by (rule ids_sorted_put)
  from Cons.IH [OF this] Cons.prems show ?case by (auto simp: row set_put)
qed simp

definition row_ok :: "wire_state list \<Rightarrow> wire_state \<times> wire_state option \<Rightarrow> bool" where
  "row_ok ss row \<longleftrightarrow> state_ok (fst row) \<and>
     (case snd row of None \<Rightarrow> True | Some b \<Rightarrow> b \<in> set ss \<and> ew_id b = ew_id (fst row) \<and> ew_kind b = ew_kind (fst row))"

lemma row_ok_put: "ids_sorted ss \<Longrightarrow> row_ok ss row \<Longrightarrow> ew_id c \<noteq> ew_id (fst row) \<Longrightarrow> row_ok (put_state ss c) row"
  by (auto simp: row_ok_def set_put split: option.splits)

lemma guarded_flag: "brc.guarded (do { overflowed \<leftarrow> read_overflowed; if overflowed then State_Monad.return None else m })"
  by (rule brc.guarded_check) (simp add: brc.guarded_none)

lemma frames_flag:
  "brc.frames m bs v \<Longrightarrow> brc.frames (do { overflowed \<leftarrow> read_overflowed; if overflowed then State_Monad.return None else m }) bs v"
  by (rule brc.frames_check) (simp_all add: brc.guarded_none)

text \<open>One update read from a frame that holds the baseline of its entity.\<close>

lemma frames_update:
  assumes ss: "ids_sorted ss" and row: "row_ok ss (c, p)"
    and rest: "brc.frames (read_updates n (ew_id c) (put_state ss c)) bs v"
  shows "brc.frames (read_updates (Suc n) start ss) (update_bits start c p @ bs) v"
proof -
  let ?k = "lower_bound ss (ew_id c)"
  let ?had = "?k < length ss \<and> ew_id (ss ! ?k) = ew_id c"
  let ?st = "if ?had then ss ! ?k else mk_wire_state\<lparr>ew_id := ew_id c\<rparr>"
  have id: "ew_id ?st = ew_id c" by simp
  have ok: "state_ok c" using row by (simp add: row_ok_def)
  have old: "?had \<and> ?st = b" if "p = Some b" for b
    using lower_bound_finds [OF ss, of b] row that by (simp add: row_ok_def)
  have tail: "br.decodes (if p = None then read_full_state ?st else read_delta_state ?st)
      (case p of None \<Rightarrow> full_state_bits c | Some b \<Rightarrow> delta_state_bits c b) c"
  proof (cases p)
    case None
    with decodes_full_state [OF ok id] show ?thesis by simp
  next
    case (Some b)
    have "br.decodes (read_delta_state b) (delta_state_bits c b) c"
      using row Some by (intro decodes_delta_state [OF ok]) (simp_all add: row_ok_def)
    moreover have "?st = b" using old [OF Some] by (rule conjunct2)
    ultimately show ?thesis using Some by simp
  qed
  have go: "\<not> (\<not> (p = None) \<and> \<not> ?had)" using old by (cases p) auto
  let ?read = "\<lambda>is_new eid. let k = lower_bound ss eid; had_previous = (k < length ss \<and> ew_id (ss ! k) = eid);
              state = (if had_previous then ss ! k else mk_wire_state\<lparr>ew_id := eid\<rparr>)
          in if \<not> is_new \<and> \<not> had_previous then State_Monad.return None
             else do {
               state \<leftarrow> (if is_new then read_full_state state else read_delta_state state);
               overflowed \<leftarrow> read_overflowed;
               if overflowed then State_Monad.return None else read_updates n eid (put_state ss state) }"
  have "brc.frames (?read (p = None) (ew_id c))
      ((case p of None \<Rightarrow> full_state_bits c | Some b \<Rightarrow> delta_state_bits c b) @ bs) v"
    unfolding Let_def if_not_P [OF go]
    by (rule brc.frames_bind [OF tail]) (rule frames_flag [OF rest], rule guarded_flag)
  then show ?thesis
    unfolding read_updates.simps update_bits_def append_assoc
    by (intro brc.frames_bind [OF decodes_entity_id] brc.frames_bind [OF decodes_read_bool] frames_flag
        brc.guarded_bind guarded_flag decodes_intros)
qed

lemma frames_updates:
  "ids_sorted ss \<Longrightarrow> distinct (map (ew_id \<circ> fst) rows) \<Longrightarrow> list_all (row_ok ss) rows \<Longrightarrow>
   brc.frames (read_updates (length rows) start ss) (updates_bits start rows) (put_rows rows ss)"
proof (induction rows arbitrary: ss start)
  case (Cons row rows)
  obtain c p where row: "row = (c, p)" by (cases row)
  have "list_all (row_ok (put_state ss c)) rows"
    using Cons.prems row_ok_put [OF Cons.prems(1)] by (fastforce simp: list_all_iff row)
  from Cons.IH [OF ids_sorted_put [OF Cons.prems(1)] _ this, of "ew_id c"] Cons.prems
  have "brc.frames (read_updates (length rows) (ew_id c) (put_state ss c)) (updates_bits (ew_id c) rows) (put_rows rows (put_state ss c))"
    by (simp add: row)
  from frames_update [OF Cons.prems(1) _ this] Cons.prems show ?case by (simp add: row)
qed (simp add: brc.frames_done)


section \<open>The merge with the baseline\<close>

lemma merge_baseline_spec:
  "ids_sorted bs \<Longrightarrow> ids_sorted cs \<Longrightarrow>
   merge_baseline bs cs = (map (\<lambda>c. find (\<lambda>b. ew_id b = ew_id c) bs) cs, map ew_id (filter (\<lambda>b. ew_id b \<notin> ew_id ` set cs) bs))"
proof (induction bs cs rule: merge_baseline.induct)
  case (3 b bs c cs)
  consider "ew_id b < ew_id c" | "ew_id c < ew_id b" | "ew_id b = ew_id c" by (rule linorder_cases)
  then show ?case
  proof cases
    case 1
    then have "ew_id b \<notin> ew_id ` set (c # cs)" using 3(5) by fastforce
    with 1 3 show ?thesis by (auto simp: image_iff)
  next
    case 2
    then have "find (\<lambda>x. ew_id x = ew_id c) (b # bs) = None" using 3(4) by (fastforce simp: find_None_iff)
    moreover have "ew_id c \<notin> ew_id ` set (b # bs)" using 2 3(4) by fastforce
    then have "filter (\<lambda>b. ew_id b \<notin> ew_id ` set (c # cs)) (b # bs) = filter (\<lambda>b. ew_id b \<notin> ew_id ` set cs) (b # bs)"
      by (intro filter_cong) (auto simp: image_iff)
    ultimately show ?thesis using 2 3 by auto
  next
    case 3
    then have "filter (\<lambda>b. ew_id b \<noteq> ew_id c \<and> (\<forall>x\<in>set cs. ew_id b \<noteq> ew_id x)) bs = filter (\<lambda>b. \<forall>x\<in>set cs. ew_id b \<noteq> ew_id x) bs"
      using "3.prems"(1) by (intro filter_cong) auto
    with 3 "3.prems" "3.IH"(3) show ?thesis by (auto simp: image_iff)
  qed
qed auto

lemma ids_sorted_unique: "ids_sorted xs \<Longrightarrow> ids_sorted ys \<Longrightarrow> set xs = set ys \<Longrightarrow> xs = ys"
proof (induction xs arbitrary: ys)
  case (Cons x xs)
  then obtain y ys' where ys: "ys = y # ys'" by (cases ys) auto
  have "x = y"
  proof (rule ccontr)
    assume "x \<noteq> y"
    then have "x \<in> set ys'" and "y \<in> set xs" using Cons.prems(3) ys by auto
    then have "ew_id y < ew_id x" and "ew_id x < ew_id y" using Cons.prems(1,2) ys by auto
    then show False by simp
  qed
  moreover have "x \<notin> set xs" and "y \<notin> set ys'" using Cons.prems(1,2) ys by auto
  ultimately have "set xs = set ys'" using Cons.prems(3) ys by auto
  with Cons ys \<open>x = y\<close> show ?case by simp
qed simp

lemma find_sorted: "ids_sorted bs \<Longrightarrow> find (\<lambda>b. ew_id b = e) bs = Some b \<longleftrightarrow> b \<in> set bs \<and> ew_id b = e"
  by (induction bs) auto


section \<open>The frame that was sent\<close>

lemma sent_frame_concat: "sent_frame sent i rows = concat (map (\<lambda>(j, c, p). if j \<in> sent then [c] else case p of Some b \<Rightarrow> [b] | None \<Rightarrow> []) (enumerate i rows))"
  by (induction sent i rows rule: sent_frame.induct) (auto split: option.split)

lemma set_sent_frame:
  "x \<in> set (sent_frame sent 0 rows) \<longleftrightarrow>
     (\<exists>j<length rows. if j \<in> sent then x = fst (rows ! j) else snd (rows ! j) = Some x)"
proof -
  have "x \<in> set (sent_frame sent 0 rows) \<longleftrightarrow> (\<exists>e\<in>set (enumerate 0 rows). if fst e \<in> sent then x = fst (snd e) else snd (snd e) = Some x)"
    unfolding sent_frame_concat by (force split: option.splits if_splits)
  also have "\<dots> \<longleftrightarrow> (\<exists>j<length rows. if j \<in> sent then x = fst (rows ! j) else snd (rows ! j) = Some x)"
    by (auto simp: in_set_enumerate_eq Bex_def)
  finally show ?thesis .
qed

definition previous_matches :: "wire_state \<times> wire_state option \<Rightarrow> bool" where
  "previous_matches row \<longleftrightarrow> (case snd row of None \<Rightarrow> True | Some b \<Rightarrow> ew_id b = ew_id (fst row))"

lemma ids_sorted_sent_frame:
  assumes "sorted_wrt (\<lambda>x y. ew_id (fst x) < ew_id (fst y)) rows" and "list_all previous_matches rows"
  shows "ids_sorted (sent_frame sent i rows) \<and> (\<forall>s\<in>set (sent_frame sent i rows). \<exists>row\<in>set rows. ew_id s = ew_id (fst row))"
  using assms
proof (induction sent i rows rule: sent_frame.induct)
  case (2 sent i c p rest)
  let ?head = "if i \<in> sent then [c] else case p of Some b \<Rightarrow> [b] | None \<Rightarrow> []"
  have rest: "ids_sorted (sent_frame sent (i + 1) rest)" "\<forall>s\<in>set (sent_frame sent (i + 1) rest). \<exists>row\<in>set rest. ew_id s = ew_id (fst row)"
    using 2 by auto
  have hd: "\<forall>s\<in>set ?head. ew_id s = ew_id c" "ids_sorted ?head"
    using 2(3) by (auto simp: previous_matches_def split: option.splits)
  have lt: "\<forall>row\<in>set rest. ew_id c < ew_id (fst row)" using 2(2) by auto
  have "ids_sorted (?head @ sent_frame sent (i + 1) rest)"
    unfolding sorted_wrt_append using hd rest lt by metis
  moreover have "\<forall>s\<in>set (?head @ sent_frame sent (i + 1) rest). \<exists>row\<in>set ((c, p) # rest). ew_id s = ew_id (fst row)"
    using hd(1) rest(2) by (metis Un_iff fst_conv list.set_intros set_append)
  ultimately show ?case by (simp only: sent_frame.simps)
qed simp


section \<open>Selection\<close>

lemma rank_candidates_indices:
  "rank_candidates config q eye viewer carried i rows = (priorities, candidates) \<Longrightarrow>
   sorted_wrt (<) (map fst candidates) \<and> set (map fst candidates) \<subseteq> {i..<i + length rows} \<and> length priorities = length rows"
proof (induction config q eye viewer carried i rows arbitrary: priorities candidates rule: rank_candidates.induct)
  case (2 config q eye viewer carried i current previous rest)
  let ?carried = "dropWhile (\<lambda>c. fst c < ew_id current) carried"
  obtain ps cs where rest: "rank_candidates config q eye viewer ?carried (i + 1) rest = (ps, cs)" by fastforce
  from 2(1) [OF refl _ rest] have "sorted_wrt (<) (map fst cs)" "set (map fst cs) \<subseteq> {i + 1..<i + 1 + length rest}" "length ps = length rest"
    by blast+
  moreover have "candidates = cs \<or> (\<exists>priority. candidates = (i, priority) # cs)" and "length priorities = Suc (length ps)"
    using 2(2) rest by (auto simp: Let_def split: if_splits)
  ultimately show ?case by fastforce
qed simp

lemma rank_candidates_unchanged:
  "rank_candidates config q eye viewer carried i rows = (priorities, candidates) \<Longrightarrow>
   set (map fst candidates) = {j. i \<le> j \<and> j < i + length rows \<and> \<not> (\<exists>p. snd (rows ! (j - i)) = Some p \<and> same_state_as (fst (rows ! (j - i))) p)}"
proof (induction config q eye viewer carried i rows arbitrary: priorities candidates rule: rank_candidates.induct)
  case (2 config q eye viewer carried i current previous rest)
  let ?carried = "dropWhile (\<lambda>c. fst c < ew_id current) carried"
  let ?in = "\<lambda>i rows. {j. i \<le> j \<and> j < i + length rows \<and> \<not> (\<exists>p. snd (rows ! (j - i)) = Some p \<and> same_state_as (fst (rows ! (j - i))) p)}"
  obtain ps cs where rest: "rank_candidates config q eye viewer ?carried (i + 1) rest = (ps, cs)" by fastforce
  from 2(1) [OF refl _ rest] have "set (map fst cs) = ?in (i + 1) rest" by blast
  moreover have "?in i ((current, previous) # rest) =
      (if (case previous of Some p \<Rightarrow> same_state_as current p | None \<Rightarrow> False) then {} else {i}) \<union> ?in (i + 1) rest"
    by (auto simp: nth_Cons' split: option.splits if_splits)
  moreover have "set (map fst candidates) =
      (if (case previous of Some p \<Rightarrow> same_state_as current p | None \<Rightarrow> False) then {} else {i}) \<union> set (map fst cs)"
    using 2(2) rest by (auto simp: Let_def split: if_splits)
  ultimately show ?case by (simp only:)
qed simp

lemma select_candidates_spec:
  assumes perm: "\<And>k xs. mset (nth_element k xs) = mset xs" and idx: "sorted_wrt (<) (map fst candidates)"
  shows "sorted_wrt (<) (select_candidates nth_element fits candidates)"
    and "set (select_candidates nth_element fits candidates) \<subseteq> set (map fst candidates)"
    and "length (select_candidates nth_element fits candidates) = min fits (length candidates)"
proof -
  let ?picked = "map fst (take fits (nth_element fits candidates))"
  have m: "mset (map fst (nth_element fits candidates)) = mset (map fst candidates)" by (simp add: perm)
  then have d: "distinct (map fst (nth_element fits candidates))"
    using idx by (metis mset_eq_imp_distinct_iff strict_sorted_iff)
  have "set (nth_element fits candidates) = set candidates" using perm by (rule mset_eq_setD)
  then have sub: "set ?picked \<subseteq> set (map fst candidates)" using set_take_subset [of fits "nth_element fits candidates"] by auto
  have len: "length (nth_element fits candidates) = length candidates" using perm by (rule mset_eq_length)
  have dp: "distinct ?picked" using d by (simp add: distinct_take flip: take_map)
  show "sorted_wrt (<) (select_candidates nth_element fits candidates)"
    using idx dp by (simp add: select_candidates_def strict_sorted_iff)
  show "set (select_candidates nth_element fits candidates) \<subseteq> set (map fst candidates)"
    using sub by (simp add: select_candidates_def)
  show "length (select_candidates nth_element fits candidates) = min fits (length candidates)"
    using len by (simp add: select_candidates_def)
qed


section \<open>Writing within the budget\<close>

definition snapshot_bits :: "tick \<Rightarrow> tick option \<Rightarrow> u32 \<Rightarrow> entity_id \<Rightarrow> entity_id list \<Rightarrow> (wire_state \<times> wire_state option) list \<Rightarrow> bool list" where
  "snapshot_bits tick base sequence viewer removed rows =
     header_bits tick base sequence viewer removed @ bits_of (word_of_nat (length rows) :: u16) 16 @ updates_bits 0 rows"

definition room_for :: "nat \<Rightarrow> nat \<Rightarrow> nat" where
  "room_for budget header = (8 * budget - header - 16) div 101"

lemma bits_remaining_room: "bw_wf w \<Longrightarrow> unat (bw_bits_remaining w) = bw_room w"
  by (simp add: bw_bits_remaining_def bw_room_def bw_wf_def unat_sub word_le_nat_alt)

lemma fits_room:
  "unat (if a \<le> kUpdateCountBits then 0 else (a - kUpdateCountBits) div kWorstCaseEntityBits) = (unat a - 16) div 101"
  by (auto simp: kUpdateCountBits_def kWorstCaseEntityBits_def kVelocityBits_def kKindBits_def word_le_nat_alt unat_div unat_sub)

lemma write_snapshot_overflow:
  assumes cap: "unat budget \<le> length out" "unat budget < 268435456"
    and over: "8 * unat budget < length (header_bits tick base sequence viewer removed) + 16"
  shows "fst (write_snapshot ne tick base sequence viewer removed rows candidates out budget) = None"
proof -
  let ?h = "header_bits tick base sequence viewer removed"
  note w0 = mk_writer_wf [OF cap]
  obtain x w where m: "run_state (write_header tick base sequence viewer removed) (mk_writer out budget) = (x, w)"
    by (rule prod.exhaust)
  note w = bw.emits_step [OF emits_header w0(1) m]
  show ?thesis
  proof (cases "length ?h \<le> 8 * unat budget")
    case False
    then have "bw_overflow w" using w(6) w0(3) by simp
    then show ?thesis by (simp add: write_snapshot_def m)
  next
    case True
    then have room: "bw_room w < 16" using w(4) w0(3) over by simp
    have "bw_overflow (snd (run_state (do { write_u16 c; write_updates 0 rs }) w))" for c rs
    proof -
      have e: "bw.emits (do { write_u16 c; write_updates 0 rs }) (bits_of c 16 @ updates_bits 0 rs)"
        by (intro bw.emits_bind emits_intros emits_updates)
      show ?thesis using bw.emits_step(6) [OF e w(1) surjective_pairing] room by simp
    qed
    then show ?thesis by (simp add: write_snapshot_def m Let_def)
  qed
qed

lemma write_snapshot_fits:
  assumes perm: "\<And>k xs. mset (nth_element k xs) = mset xs" and idx: "sorted_wrt (<) (map fst candidates)"
    and cap: "unat budget \<le> length out" "unat budget < 268435456"
    and fit: "length (header_bits tick base sequence viewer removed) + 16 \<le> 8 * unat budget"
  defines "sel \<equiv> select_candidates nth_element (room_for (unat budget) (length (header_bits tick base sequence viewer removed))) candidates"
  shows "write_snapshot nth_element tick base sequence viewer removed rows candidates out budget =
     (let (n, buffer) = finish_writer (do { write_header tick base sequence viewer removed;
             write_u16 (word_of_nat (length sel)); write_updates 0 (map (\<lambda>i. rows ! i) sel) }) out budget
      in (Some (sel, n), buffer))"
    and "length (snapshot_bits tick base sequence viewer removed (map (\<lambda>i. rows ! i) sel)) \<le> 8 * unat budget"
proof -
  let ?h = "header_bits tick base sequence viewer removed" and ?rows = "map (\<lambda>i. rows ! i) sel"
  let ?tail = "do { write_u16 (word_of_nat (length sel)); write_updates 0 ?rows }"
  note w0 = mk_writer_wf [OF cap]
  obtain x w where m: "run_state (write_header tick base sequence viewer removed) (mk_writer out budget) = (x, w)"
    by (rule prod.exhaust)
  note w = bw.emits_step [OF emits_header w0(1) m]
  have room: "bw_room w + length ?h = 8 * unat budget" and ok: "\<not> bw_overflow w" using w w0 fit by simp_all
  have sel: "sel = select_candidates nth_element ((bw_room w - 16) div 101) candidates"
    unfolding sel_def room_for_def using room by (metis add_diff_cancel_right')
  have "length (updates_bits 0 ?rows) \<le> 101 * length sel"
    using length_updates_bits [of 0 ?rows] by (simp add: kWorstCaseEntityBits_def kVelocityBits_def kKindBits_def)
  also have "length sel \<le> (bw_room w - 16) div 101" unfolding sel select_candidates_spec(3) [OF perm idx] by simp
  finally have len: "length (updates_bits 0 ?rows) + 16 \<le> bw_room w" using room fit by linarith
  with room show "length (snapshot_bits tick base sequence viewer removed ?rows) \<le> 8 * unat budget"
    by (simp add: snapshot_bits_def)
  have tail: "bw.emits ?tail (bits_of (word_of_nat (length sel) :: u16) 16 @ updates_bits 0 ?rows)"
    by (intro bw.emits_bind emits_intros emits_updates)
  obtain y w' where m': "run_state ?tail w = (y, w')" by (cases "run_state ?tail w")
  have ok': "\<not> bw_overflow w'" using bw.emits_step(5) [OF tail w(1) m'] len ok by simp
  have run: "snd (run_state (do { write_header tick base sequence viewer removed; write_u16 (word_of_nat (length sel));
      write_updates 0 ?rows }) (mk_writer out budget)) = w'"
    using m m' by simp
  have chosen: "select_candidates nth_element (unat (if bw_bits_remaining w \<le> kUpdateCountBits then 0
      else (bw_bits_remaining w - kUpdateCountBits) div kWorstCaseEntityBits)) candidates = sel"
    unfolding fits_room bits_remaining_room [OF w(1)] sel ..
  show "write_snapshot nth_element tick base sequence viewer removed rows candidates out budget =
     (let (n, buffer) = finish_writer (do { write_header tick base sequence viewer removed;
             write_u16 (word_of_nat (length sel)); write_updates 0 ?rows }) out budget in (Some (sel, n), buffer))"
    unfolding write_snapshot_def finish_writer_def Let_def run m snd_conv chosen m' using ok ok'
    by (simp split: prod.split)
qed


section \<open>Reading a whole snapshot\<close>

definition kept_states :: "snapshot_frame option \<Rightarrow> entity_id list \<Rightarrow> wire_state list" where
  "kept_states base removed = (case base of None \<Rightarrow> [] | Some b \<Rightarrow> filter (\<lambda>s. ew_id s \<notin> set removed) (sf_states b))"

definition same_baseline :: "snapshot_frame option \<Rightarrow> snapshot_frame option \<Rightarrow> bool" where
  "same_baseline base client \<longleftrightarrow> (case base of None \<Rightarrow> True | Some b \<Rightarrow> sf_valid b \<and> client = Some b)"

lemma guarded_flag_or:
  "brc.guarded (do { overflowed \<leftarrow> read_overflowed; if overflowed \<or> c then State_Monad.return None else m })"
  by (rule brc.guarded_check) (simp add: brc.guarded_none)

lemma frames_flag_or:
  "\<not> c \<Longrightarrow> brc.frames m bs v \<Longrightarrow>
   brc.frames (do { overflowed \<leftarrow> read_overflowed; if overflowed \<or> c then State_Monad.return None else m }) bs v"
  by (rule brc.frames_check) (simp_all add: brc.guarded_none)

lemma decodes_baseline_tick:
  "br.decodes (if base = None then State_Monad.return 0 else read_u32) (case base of Some t \<Rightarrow> bits_of t 32 | None \<Rightarrow> [])
     (case base of Some t \<Rightarrow> t | None \<Rightarrow> 0)"
  by (cases base) (simp_all add: br.decodes_return decodes_read_u32)

lemma frames_snapshot:
  assumes same: "same_baseline base client" and sorted: "ids_sorted (kept_states base removed)"
    and rows: "distinct (map (ew_id \<circ> fst) rows)" "list_all (row_ok (kept_states base removed)) rows"
    and count: "length rows < 65536" "length removed \<le> 65535"
  shows "brc.frames (read_snapshot client) (snapshot_bits tick (map_option sf_tick base) sequence viewer removed rows)
     \<lparr>ds_tick = tick, ds_baseline_tick = (case map_option sf_tick base of Some t \<Rightarrow> t | None \<Rightarrow> 0), ds_full = (base = None),
       ds_last_input_sequence = sequence, ds_viewer = viewer, ds_states = put_rows rows (kept_states base removed), ds_removed = removed\<rparr>"
proof -
  let ?bt = "case map_option sf_tick base of Some t \<Rightarrow> t | None \<Rightarrow> 0" and ?full = "map_option sf_tick base = None"
  have n: "unat (word_of_nat (length rows) :: u16) = length rows" "unat (word_of_nat (length removed) :: u32) = length removed"
    using count by (simp_all add: unat_of_nat_less)
  have c1: "\<not> (\<not> ?full \<and> (case client of None \<Rightarrow> True | Some b \<Rightarrow> \<not> sf_valid b \<or> sf_tick b \<noteq> ?bt))"
    using same by (auto simp: same_baseline_def split: option.splits)
  have c2: "\<not> (word_of_nat (length removed) :: u32) > 65535" using count(2) n(2) by (simp add: word_less_nat_alt)
  have kept: "(if ?full then [] else filter (\<lambda>s. ew_id s \<notin> set removed) (case client of Some b \<Rightarrow> sf_states b | None \<Rightarrow> [])) =
      kept_states base removed"
    using same by (auto simp: same_baseline_def kept_states_def split: option.splits)
  have full: "(base = None) = ?full" by simp
  note updates = frames_map_option [OF frames_updates [OF sorted rows, of 0]]
  show ?thesis
    unfolding read_snapshot_def snapshot_bits_def header_bits_def append_assoc full
    by (rule brc.frames_bind [OF decodes_read_u32], rule brc.frames_bind [OF decodes_read_bool],
        rule brc.frames_bind [OF decodes_baseline_tick], rule brc.frames_bind [OF decodes_read_u32],
        rule brc.frames_bind [OF decodes_read_varint], rule frames_flag_or [OF c1],
        rule brc.frames_bind [OF decodes_read_varint], rule frames_flag_or [OF c2],
        unfold n, rule brc.frames_bind [OF decodes_removed], rule frames_flag,
        rule brc.frames_bind [OF decodes_read_u16], rule frames_flag, unfold n kept, rule updates)
      (intro brc.guarded_bind guarded_flag guarded_flag_or br.safe_intros decodes_intros)+
qed


lemma frames_snapshot_header:
  "brc.frames read_snapshot_header (bits_of tick 32 @ [base = None] @ (case base of Some t \<Rightarrow> bits_of t 32 | None \<Rightarrow> []))
     (tick, case base of Some t \<Rightarrow> t | None \<Rightarrow> 0, base = None)"
  unfolding read_snapshot_header_def
  by (rule brc.frames_bind [OF decodes_read_u32], rule brc.frames_bind [OF decodes_read_bool],
      rule frames_last [OF decodes_baseline_tick], rule frames_final) (simp_all add: guarded_final brc.guarded_bind brc.guarded_if decodes_intros br.safe_intros)

lemma peek_snapshot:
  assumes "unat n \<le> length buf" and "unat n < 268435456"
    and "bytes_bits (take (unat n) buf) = snapshot_bits tick base sequence viewer removed rows @ pad"
  shows "peek_snapshot_header buf n = Some (tick, case base of Some t \<Rightarrow> t | None \<Rightarrow> 0, base = None)"
  unfolding peek_snapshot_header_def
proof (rule brc.framesD [OF frames_snapshot_header])
  note r = mk_reader_wf [OF assms(1,2)]
  show "br_wf (mk_reader buf n)" "\<not> br_overflow (mk_reader buf n)" by (rule r)+
  show "br_remaining (mk_reader buf n) = (bits_of tick 32 @ [base = None] @ (case base of Some t \<Rightarrow> bits_of t 32 | None \<Rightarrow> [])) @
      bits_of sequence 32 @ bytes_bits (varint_bytes viewer) @ bytes_bits (varint_bytes (word_of_nat (length removed))) @
      removed_bits 0 removed @ bits_of (word_of_nat (length rows) :: u16) 16 @ updates_bits 0 rows @ pad"
    unfolding r(2) assms(3) by (simp add: snapshot_bits_def header_bits_def)
qed


section \<open>The frame of the client is the frame of the server\<close>

definition base_states :: "snapshot_frame option \<Rightarrow> wire_state list" where
  "base_states base = (case base of None \<Rightarrow> [] | Some b \<Rightarrow> sf_states b)"

definition kinds_stable :: "wire_state list \<Rightarrow> wire_state list \<Rightarrow> bool" where
  "kinds_stable bs cs \<longleftrightarrow> (\<forall>b\<in>set bs. \<forall>c\<in>set cs. ew_id b = ew_id c \<longrightarrow> ew_kind b = ew_kind c)"

lemma match_baseline_spec:
  assumes "ids_sorted (base_states base)" and "ids_sorted current"
  shows "match_baseline base current = (map (\<lambda>c. find (\<lambda>b. ew_id b = ew_id c) (base_states base)) current,
     map ew_id (filter (\<lambda>b. ew_id b \<notin> ew_id ` set current) (base_states base)))"
  using assms merge_baseline_spec by (auto simp: match_baseline_def base_states_def split: option.split)

lemma kept_states_matched:
  assumes "removed = map ew_id (filter (\<lambda>b. ew_id b \<notin> ew_id ` set current) (base_states base))"
  shows "kept_states base removed = filter (\<lambda>b. ew_id b \<in> ew_id ` set current) (base_states base)"
  using assms by (auto simp: kept_states_def base_states_def split: option.split intro!: filter_cong)

lemma matched_rows:
  assumes sorted: "ids_sorted (base_states base)" and ok: "states_ok current" and kinds: "kinds_stable (base_states base) current"
    and m: "match_baseline base current = (previous, removed)"
  shows "length (zip current previous) = length current" and "ids_sorted (kept_states base removed)"
    and "sorted_wrt (\<lambda>x y. ew_id (fst x) < ew_id (fst y)) (zip current previous)"
    and "list_all previous_matches (zip current previous)"
    and "list_all (row_ok (kept_states base removed)) (zip current previous)"
    and "j < length current \<Longrightarrow> zip current previous ! j = (current ! j, find (\<lambda>b. ew_id b = ew_id (current ! j)) (base_states base))"
proof -
  have cur: "ids_sorted current" using ok by (simp add: states_ok_def)
  have prev: "previous = map (\<lambda>c. find (\<lambda>b. ew_id b = ew_id c) (base_states base)) current"
    and rem: "removed = map ew_id (filter (\<lambda>b. ew_id b \<notin> ew_id ` set current) (base_states base))"
    using m match_baseline_spec [OF sorted cur] by simp_all
  have zip: "zip current previous = map (\<lambda>c. (c, find (\<lambda>b. ew_id b = ew_id c) (base_states base))) current"
    unfolding prev by (induction current) simp_all
  have kept: "kept_states base removed = filter (\<lambda>b. ew_id b \<in> ew_id ` set current) (base_states base)"
    by (rule kept_states_matched [OF rem])
  show "length (zip current previous) = length current" by (simp add: zip)
  show "ids_sorted (kept_states base removed)" using sorted by (simp add: kept sorted_wrt_filter)
  show "sorted_wrt (\<lambda>x y. ew_id (fst x) < ew_id (fst y)) (zip current previous)" using cur by (simp add: zip sorted_wrt_map)
  show "list_all previous_matches (zip current previous)"
    using find_sorted [OF sorted] by (auto simp: zip list_all_iff previous_matches_def split: option.split)
  show "list_all (row_ok (kept_states base removed)) (zip current previous)"
    using find_sorted [OF sorted] ok kinds
    by (auto simp: zip list_all_iff row_ok_def kept states_ok_def kinds_stable_def split: option.split)
  show "zip current previous ! j = (current ! j, find (\<lambda>b. ew_id b = ew_id (current ! j)) (base_states base))" if "j < length current"
    using that by (simp add: zip)
qed

lemma selected_rows:
  assumes "sorted_wrt (\<lambda>x y. ew_id (fst x) < ew_id (fst y)) rows" and "sorted_wrt (<) sel" and "set sel \<subseteq> {..<length rows}"
  shows "distinct (map (ew_id \<circ> fst) (map (\<lambda>i. rows ! i) sel))"
proof -
  have "sorted_wrt (\<lambda>x y. ew_id (fst x) < ew_id (fst y)) (map (\<lambda>i. rows ! i) sel)"
    using assms by (auto simp: sorted_wrt_iff_nth_less subset_iff)
  then have "sorted_wrt (<) (map (ew_id \<circ> fst) (map (\<lambda>i. rows ! i) sel))" by (simp add: sorted_wrt_map)
  then show ?thesis by (simp add: strict_sorted_iff)
qed

lemma decoded_frame_eq:
  assumes sorted: "ids_sorted (base_states base)" and ok: "states_ok current" and kinds: "kinds_stable (base_states base) current"
    and m: "match_baseline base current = (previous, removed)"
    and sel: "sorted_wrt (<) sel" "set sel \<subseteq> {..<length current}"
  defines "rows \<equiv> zip current previous"
  shows "put_rows (map (\<lambda>i. rows ! i) sel) (kept_states base removed) = sent_frame (set sel) 0 rows"
proof (rule ids_sorted_unique)
  note row = matched_rows [OF sorted ok kinds m, folded rows_def]
  have cur: "ids_sorted current" using ok by (simp add: states_ok_def)
  have dist: "distinct (map (ew_id \<circ> fst) (map (\<lambda>i. rows ! i) sel))"
    using sel row(1) by (intro selected_rows [OF row(3)]) simp_all
  note put = put_rows_frame [OF row(2) dist]
  show "ids_sorted (put_rows (map (\<lambda>i. rows ! i) sel) (kept_states base removed))" using put by simp
  show "ids_sorted (sent_frame (set sel) 0 rows)" using ids_sorted_sent_frame [OF row(3,4)] by simp
  have rem: "removed = map ew_id (filter (\<lambda>b. ew_id b \<notin> ew_id ` set current) (base_states base))"
    using m match_baseline_spec [OF sorted cur] by simp
  have inj: "i = j" if "i < length current" "j < length current" "ew_id (current ! i) = ew_id (current ! j)" for i j
    using sorted_wrt_nth_less [OF cur, of i j] sorted_wrt_nth_less [OF cur, of j i] that by (cases i j rule: linorder_cases) simp_all
  have fst_row: "fst (rows ! j) = current ! j" if "j < length current" for j using row(6) that by simp
  have fst_set: "fst ` set (map (\<lambda>i. rows ! i) sel) = (\<lambda>j. current ! j) ` set sel"
    unfolding set_map image_image using sel(2) fst_row by (intro image_cong) auto
  have ids_set: "(ew_id \<circ> fst) ` set (map (\<lambda>i. rows ! i) sel) = (\<lambda>j. ew_id (current ! j)) ` set sel"
    unfolding set_map image_image o_apply using sel(2) fst_row by (intro image_cong) auto
  show "set (put_rows (map (\<lambda>i. rows ! i) sel) (kept_states base removed)) = set (sent_frame (set sel) 0 rows)"
  proof (rule set_eqI)
    fix x
    have "x \<in> set (sent_frame (set sel) 0 rows) \<longleftrightarrow>
        (\<exists>j<length current. if j \<in> set sel then x = current ! j else find (\<lambda>b. ew_id b = ew_id (current ! j)) (base_states base) = Some x)"
      unfolding set_sent_frame row(1) using row(6) by (auto cong: conj_cong)
    also have "\<dots> \<longleftrightarrow> (\<exists>j\<in>set sel. x = current ! j) \<or>
        (\<exists>j<length current. j \<notin> set sel \<and> x \<in> set (base_states base) \<and> ew_id x = ew_id (current ! j))"
      unfolding find_sorted [OF sorted] using sel(2) by auto
    also have "(\<exists>j<length current. j \<notin> set sel \<and> x \<in> set (base_states base) \<and> ew_id x = ew_id (current ! j)) \<longleftrightarrow>
        x \<in> set (base_states base) \<and> ew_id x \<in> ew_id ` set current \<and> ew_id x \<notin> (\<lambda>j. ew_id (current ! j)) ` set sel"
      (is "?l \<longleftrightarrow> ?r")
    proof
      assume ?l
      then obtain j where j: "j < length current" "j \<notin> set sel" "x \<in> set (base_states base)" "ew_id x = ew_id (current ! j)" by blast
      have "ew_id x \<noteq> ew_id (current ! i)" if "i \<in> set sel" for i
        using inj [OF j(1), of i] that j sel(2) by auto
      with j show ?r by (auto intro: rev_image_eqI [OF nth_mem [OF j(1)]])
    next
      assume ?r
      then obtain j where "j < length current" "ew_id x = ew_id (current ! j)" by (auto simp: in_set_conv_nth)
      with \<open>?r\<close> show ?l by blast
    qed
    also have "(\<exists>j\<in>set sel. x = current ! j) \<or> ?r \<longleftrightarrow> x \<in> set (put_rows (map (\<lambda>i. rows ! i) sel) (kept_states base removed))"
      unfolding conjunct2 [OF put, unfolded fst_set ids_set] by (auto simp: kept_states_matched [OF rem])
    finally show "x \<in> set (put_rows (map (\<lambda>i. rows ! i) sel) (kept_states base removed)) \<longleftrightarrow> x \<in> set (sent_frame (set sel) 0 rows)"
      by simp
  qed
qed


section \<open>Encoding as a whole\<close>

definition snapshot_budget :: "u32 \<Rightarrow> replication_state \<Rightarrow> u32" where
  "snapshot_budget capacity r = min capacity (ic_max_snapshot_bytes (rp_config r))"

definition snapshot_header :: "tick \<Rightarrow> u32 \<Rightarrow> entity_id \<Rightarrow> wire_state list \<Rightarrow> replication_state \<Rightarrow> bool list" where
  "snapshot_header tick sequence viewer current r =
     header_bits tick (map_option sf_tick (usable_baseline tick r)) sequence viewer (snd (match_baseline (usable_baseline tick r) current))"

definition history_sorted :: "snapshot_history \<Rightarrow> bool" where
  "history_sorted frames \<longleftrightarrow> list_all (\<lambda>f. ids_sorted (sf_states f)) frames"

lemma snapshot_budget_le: "unat (snapshot_budget capacity r) \<le> unat capacity"
  by (simp add: snapshot_budget_def flip: word_le_nat_alt)

lemma history_get_some:
  assumes "history_get frames tick = Some f"
  shows "f \<in> set frames" and "sf_valid f" and "sf_tick f = tick"
  using assms by (auto simp: history_get_def history_slot_def Let_def split: if_splits option.splits)

lemma history_get_store:
  "frames \<noteq> [] \<Longrightarrow> history_get (history_store tick states frames) tick = Some \<lparr>sf_tick = tick, sf_valid = True, sf_states = states\<rparr>"
  by (simp add: history_get_def history_store_def history_slot_def Let_def)

lemma usable_baseline_some:
  "usable_baseline tick r = Some f \<Longrightarrow> f \<in> set (rp_history r) \<and> sf_valid f \<and> sf_tick f = rp_last_acked_tick r"
  using history_get_some by (fastforce simp: usable_baseline_def replication_baseline_def split: option.splits if_splits)

lemma encode_states_cases:
  assumes perm: "\<And>k xs. mset (nth_element k xs) = mset xs"
    and cap: "unat capacity \<le> length out" "unat capacity < 268435456"
    and m: "match_baseline (usable_baseline tick r) current = (previous, removed)"
    and len: "length (zip current previous) = length current"
    and run: "encode_states nth_element tick eye viewer sequence current out capacity r = (n, buf, r')"
  obtains (overflow) "8 * unat (snapshot_budget capacity r) < length (snapshot_header tick sequence viewer current r) + 16" and "n = 0"
      and "rp_history r' = rp_history r"
  | (sent) sel where "length (snapshot_header tick sequence viewer current r) + 16 \<le> 8 * unat (snapshot_budget capacity r)"
      and "sorted_wrt (<) sel" and "set sel \<subseteq> {..<length current}"
      and "finish_writer (do { write_header tick (map_option sf_tick (usable_baseline tick r)) sequence viewer removed;
             write_u16 (word_of_nat (length sel)); write_updates 0 (map (\<lambda>i. zip current previous ! i) sel) })
             out (snapshot_budget capacity r) = (n, buf)"
      and "length (snapshot_bits tick (map_option sf_tick (usable_baseline tick r)) sequence viewer removed
             (map (\<lambda>i. zip current previous ! i) sel)) \<le> 8 * unat (snapshot_budget capacity r)"
      and "length sel = min (room_for (unat (snapshot_budget capacity r)) (length (snapshot_header tick sequence viewer current r)))
             (card {j. j < length current \<and> \<not> (\<exists>p. snd (zip current previous ! j) = Some p \<and> same_state_as (current ! j) p)})"
      and "rp_history r' = history_store tick (sent_frame (set sel) 0 (zip current previous)) (rp_history r)"
      and "set sel \<subseteq> {j. j < length current \<and> \<not> (\<exists>p. snd (zip current previous ! j) = Some p \<and> same_state_as (current ! j) p)}"
proof -
  let ?rows = "zip current previous" and ?b = "snapshot_budget capacity r"
  let ?bt = "map_option sf_tick (usable_baseline tick r)"
  have b: "unat ?b \<le> length out" "unat ?b < 268435456" using cap snapshot_budget_le [of capacity r] by simp_all
  have h: "snapshot_header tick sequence viewer current r = header_bits tick ?bt sequence viewer removed"
    by (simp add: snapshot_header_def m)
  obtain ps cs where rank: "rank_candidates (rp_config r) (rp_quantizers r) eye viewer (rp_priority r) 0 ?rows = (ps, cs)"
    by (rule prod.exhaust)
  have idx: "sorted_wrt (<) (map fst cs)" and sub: "set (map fst cs) \<subseteq> {..<length current}"
    using rank_candidates_indices [OF rank] len by auto
  have names: "set (map fst cs) = {j. j < length current \<and> \<not> (\<exists>p. snd (?rows ! j) = Some p \<and> same_state_as (current ! j) p)}"
    using rank_candidates_unchanged [OF rank] len by auto
  have "length cs = card (set (map fst cs))" using idx by (metis distinct_card length_map strict_sorted_iff)
  then have changed: "length cs = card {j. j < length current \<and> \<not> (\<exists>p. snd (?rows ! j) = Some p \<and> same_state_as (current ! j) p)}"
    by (simp only: names)
  note enc = run [unfolded encode_states_def Let_def m prod.case rank, folded snapshot_budget_def]
  show thesis
  proof (cases "length (header_bits tick ?bt sequence viewer removed) + 16 \<le> 8 * unat ?b")
    case False
    then have "fst (write_snapshot nth_element tick ?bt sequence viewer removed ?rows cs out ?b) = None"
      by (intro write_snapshot_overflow [OF b]) simp
    with enc have "n = 0" and "rp_history r' = rp_history r" by (auto split: prod.splits option.splits)
    with False show thesis by (intro overflow) (simp_all add: h)
  next
    case True
    note w = write_snapshot_fits [where nth_element = nth_element and rows = ?rows, OF perm idx b True]
    let ?sel = "select_candidates nth_element (room_for (unat ?b) (length (header_bits tick ?bt sequence viewer removed))) cs"
    note sel = select_candidates_spec [where nth_element = nth_element, OF perm idx,
        of "room_for (unat ?b) (length (header_bits tick ?bt sequence viewer removed))"]
    obtain k buffer where fin: "finish_writer (do { write_header tick ?bt sequence viewer removed;
             write_u16 (word_of_nat (length ?sel)); write_updates 0 (map (\<lambda>i. ?rows ! i) ?sel) }) out ?b = (k, buffer)"
      by (rule prod.exhaust)
    have "n = k" "buf = buffer" "rp_history r' = history_store tick (sent_frame (set ?sel) 0 ?rows) (rp_history r)"
      using enc by (auto simp: w(1) fin)
    moreover have "set ?sel \<subseteq> {j. j < length current \<and> \<not> (\<exists>p. snd (?rows ! j) = Some p \<and> same_state_as (current ! j) p)}"
      using sel(2) unfolding names .
    ultimately show thesis using True sel w(2) fin sub by (intro sent [of ?sel]) (simp_all add: h changed)
  qed
qed

lemma base_states_sorted: "history_sorted (rp_history r) \<Longrightarrow> ids_sorted (base_states (usable_baseline tick r))"
  using usable_baseline_some [of tick r] by (auto simp: base_states_def history_sorted_def list_all_iff split: option.split)

lemma encode_states_agree:
  assumes perm: "\<And>k xs. mset (nth_element k xs) = mset xs"
    and ok: "states_ok current" and hist: "history_sorted (rp_history r)"
    and kinds: "kinds_stable (base_states (usable_baseline tick r)) current"
    and cap: "unat capacity \<le> length out" "unat capacity \<le> 65535"
    and client: "usable_baseline tick r = None \<or> client = usable_baseline tick r"
    and run: "encode_states nth_element tick eye viewer sequence current out capacity r = (n, buf, r')" and n: "0 < n"
  obtains d where "decode_snapshot buf n client = Some d" and "\<And>k. k < n \<Longrightarrow> decode_snapshot buf k client = None"
    and "ds_tick d = tick" and "ds_full d \<longleftrightarrow> usable_baseline tick r = None" and "ds_last_input_sequence d = sequence"
    and "ds_viewer d = viewer" and "rp_history r' = history_store tick (ds_states d) (rp_history r)" and "ids_sorted (ds_states d)"
    and "unat n \<le> unat (snapshot_budget capacity r)" and "unat n \<le> length buf"
    and "set (ds_states d) \<subseteq> set current \<union> set (base_states (usable_baseline tick r))"
    and "peek_snapshot_header buf n = Some (tick, case map_option sf_tick (usable_baseline tick r) of Some t \<Rightarrow> t | None \<Rightarrow> 0,
           map_option sf_tick (usable_baseline tick r) = None)"
proof -
  let ?base = "usable_baseline tick r" and ?b = "snapshot_budget capacity r"
  obtain previous removed where m: "match_baseline ?base current = (previous, removed)" by (rule prod.exhaust)
  let ?rows = "zip current previous"
  note sorted = base_states_sorted [OF hist]
  note row = matched_rows [OF sorted ok kinds m]
  have small: "unat capacity < 268435456" using cap(2) by simp
  from perm cap(1) small m row(1) run show thesis
  proof (cases rule: encode_states_cases)
    case overflow
    with n show ?thesis by simp
  next
    case (sent sel)
    let ?srows = "map (\<lambda>i. ?rows ! i) sel" and ?bt = "map_option sf_tick ?base"
    have b: "unat ?b \<le> length out" "unat ?b < 268435456" "unat ?b \<le> 65535" using cap snapshot_budget_le [of capacity r] by simp_all
    have "8 * length removed \<le> length (removed_bits 0 removed)" by (rule length_removed_bits)
    also have "\<dots> \<le> length (snapshot_header tick sequence viewer current r)" by (simp add: snapshot_header_def m header_bits_def)
    finally have removed: "length removed \<le> 65535" using sent(1) b(3) by linarith
    have count: "length ?srows < 65536" using sent(6) b(3) by (simp add: room_for_def)
    have dist: "distinct (map (ew_id \<circ> fst) ?srows)" using sent(2,3) row(1) by (intro selected_rows [OF row(3)]) simp_all
    have rows: "list_all (row_ok (kept_states ?base removed)) ?srows"
      using row(5) sent(3) row(1) by (fastforce simp: list_all_iff intro: nth_mem)
    have same: "same_baseline ?base client"
      using client usable_baseline_some [of tick r] by (auto simp: same_baseline_def split: option.splits)
    note frames = frames_snapshot [OF same row(2) dist rows count removed, of tick sequence viewer]
    have emits: "bw.emits (do { write_header tick ?bt sequence viewer removed; write_u16 (word_of_nat (length sel)); write_updates 0 ?srows })
        (snapshot_bits tick ?bt sequence viewer removed ?srows)"
      unfolding snapshot_bits_def length_map by (intro bw.emits_bind emits_header emits_intros emits_updates)
    note rt = message_roundtrip [OF emits frames b(1,2) sent(5,4)]
    note frame = decoded_frame_eq [OF sorted ok kinds m sent(2,3)]
    have sub: "set (sent_frame (set sel) 0 ?rows) \<subseteq> set current \<union> set (base_states ?base)"
      using row(1,6) find_sorted [OF sorted] by (auto simp: set_sent_frame split: if_splits)
    have bits: "bytes_bits (take (unat n) buf) = snapshot_bits tick ?bt sequence viewer removed ?srows @
        replicate (8 * unat n - length (snapshot_bits tick ?bt sequence viewer removed ?srows)) False"
      by (rule finish_writer_fits(4) [OF emits b(1,2) sent(5,4)])
    have small: "unat n < 268435456" using rt(2) b(2) by simp
    note peek = peek_snapshot [OF rt(3) small bits]
    show thesis
      by (rule that [OF rt(4) [folded decode_snapshot_def] _ _ _ _ _ _ _ _ _ _ peek])
        (use rt(2,3) rt(5) [folded decode_snapshot_def] sent(7) frame sub ids_sorted_sent_frame [OF row(3,4)] in
          \<open>simp_all add: word_less_nat_alt\<close>)
  qed
qed

lemma encode_states_length:
  assumes perm: "\<And>k xs. mset (nth_element k xs) = mset xs" and ok: "states_ok current" and hist: "history_sorted (rp_history r)"
    and cap: "unat capacity \<le> length out" "unat capacity < 268435456"
    and run: "encode_states nth_element tick eye viewer sequence current out capacity r = (n, buf, r')"
  shows "n = 0 \<longleftrightarrow> 8 * unat (snapshot_budget capacity r) < length (snapshot_header tick sequence viewer current r) + 16"
proof -
  obtain previous removed where m: "match_baseline (usable_baseline tick r) current = (previous, removed)" by (rule prod.exhaust)
  have cur: "ids_sorted current" using ok by (simp add: states_ok_def)
  have "length previous = length current"
    using m match_baseline_spec [OF base_states_sorted [OF hist] cur, of tick] by auto
  then have len: "length (zip current previous) = length current" by simp
  from perm cap m len run show ?thesis
  proof (cases rule: encode_states_cases)
    case overflow
    then show ?thesis by simp
  next
    case (sent sel)
    have b: "unat (snapshot_budget capacity r) \<le> length out" "unat (snapshot_budget capacity r) < 268435456"
      using cap snapshot_budget_le [of capacity r] by simp_all
    have "bw.emits (do { write_header tick (map_option sf_tick (usable_baseline tick r)) sequence viewer removed;
          write_u16 (word_of_nat (length sel)); write_updates 0 (map (\<lambda>i. zip current previous ! i) sel) })
        (snapshot_bits tick (map_option sf_tick (usable_baseline tick r)) sequence viewer removed (map (\<lambda>i. zip current previous ! i) sel))"
      unfolding snapshot_bits_def length_map by (intro bw.emits_bind emits_header emits_intros emits_updates)
    from finish_writer_fits(1) [OF this b sent(5,4)] have "0 < unat n" by (simp add: snapshot_bits_def)
    with sent(1) show ?thesis by (simp add: unat_gt_0)
  qed
qed

text \<open>A sample: of two known entities one has moved and one has left, and a third has appeared.\<close>

definition sample_base :: snapshot_frame where
  "sample_base = \<lparr>sf_tick = 5, sf_valid = True,
     sf_states = [mk_wire_state\<lparr>ew_id := 1, ew_px := 100\<rparr>, mk_wire_state\<lparr>ew_id := 3, ew_py := 7\<rparr>]\<rparr>"

definition sample_replication :: replication_state where
  "sample_replication = \<lparr>rp_config = mk_interest_config, rp_quantizers = quantizers_from mk_world_params, rp_params = mk_world_params,
     rp_history = [mk_frame, sample_base, mk_frame, mk_frame], rp_last_acked_tick = 5, rp_has_acked = True, rp_priority = [],
     rp_stats = mk_replication_stats\<rparr>"

definition sample_current :: "wire_state list" where
  "sample_current = [mk_wire_state\<lparr>ew_id := 1, ew_px := 90\<rparr>, mk_wire_state\<lparr>ew_id := 2, ew_py := 4000, ew_kind := 1\<rparr>]"

definition sample_encoding :: "u32 \<times> u8 list \<times> replication_state" where
  "sample_encoding = encode_states (\<lambda>_ xs. xs) 6 (vec 0 0) 1 9 sample_current (replicate 64 0) 64 sample_replication"

lemma sample_baseline_usable: "usable_baseline 6 sample_replication = Some sample_base"
  by code_simp

lemma sample_replication_ok:
  "states_ok sample_current" "history_sorted (rp_history sample_replication)"
  "kinds_stable (base_states (usable_baseline 6 sample_replication)) sample_current"
  unfolding sample_baseline_usable by code_simp+

lemma sample_header_fits: "length (snapshot_header 6 9 1 sample_current sample_replication) + 16 \<le> 8 * unat (snapshot_budget 64 sample_replication)"
  by code_simp

text \<open>
  C25: a client that holds the baseline of a snapshot decodes from it exactly the frame that the server remembers for that
  tick, whatever subset of the changed entities was selected to fit, and refuses every shorter prefix of the snapshot; the
  length stays within the budget. (The identifiers of an area ascend, and an entity never changes its kind.)
\<close>

theorem snapshot_agreement:
  assumes "\<And>k xs. mset (nth_element k xs) = mset xs"
    and "states_ok current" and "history_sorted (rp_history r)" and "kinds_stable (base_states (usable_baseline tick r)) current"
    and "unat capacity \<le> length out" and "unat capacity \<le> 65535" and "rp_history r \<noteq> []"
    and "usable_baseline tick r = None \<or> client = usable_baseline tick r"
    and "encode_states nth_element tick eye viewer sequence current out capacity r = (n, buf, r')" and "0 < n"
  shows "\<exists>d. decode_snapshot buf n client = Some d \<and> ds_tick d = tick \<and> ds_last_input_sequence d = sequence \<and> ds_viewer d = viewer \<and>
     history_get (rp_history r') tick = Some \<lparr>sf_tick = tick, sf_valid = True, sf_states = ds_states d\<rparr> \<and>
     unat n \<le> unat capacity \<and> unat n \<le> unat (ic_max_snapshot_bytes (rp_config r)) \<and>
     (\<forall>k<n. decode_snapshot buf k client = None)"
proof -
  have "unat (snapshot_budget capacity r) \<le> unat capacity" "unat (snapshot_budget capacity r) \<le> unat (ic_max_snapshot_bytes (rp_config r))"
    by (simp_all add: snapshot_budget_def flip: word_le_nat_alt)
  with encode_states_agree [where nth_element = nth_element, OF assms(1-6,8-10)] history_get_store [OF assms(7)] show ?thesis
    by (metis order_trans)
qed

theorem snapshot_agreement_witness:
  "\<exists>d. decode_snapshot (fst (snd sample_encoding)) (fst sample_encoding) (Some sample_base) = Some d \<and> ds_tick d = 6 \<and>
     history_get (rp_history (snd (snd sample_encoding))) 6 = Some \<lparr>sf_tick = 6, sf_valid = True, sf_states = ds_states d\<rparr>"
proof -
  obtain n buf r' where run: "sample_encoding = (n, buf, r')" by (cases sample_encoding) auto
  note enc = run [unfolded sample_encoding_def]
  have "n \<noteq> 0" using encode_states_length [OF _ sample_replication_ok(1,2) _ _ enc] sample_header_fits by simp
  then have n: "0 < n" by (simp add: word_gt_0)
  have "rp_history sample_replication \<noteq> []" by (simp add: sample_replication_def)
  from snapshot_agreement [OF _ sample_replication_ok _ _ this _ enc n, of "Some sample_base"] show ?thesis
    by (auto simp: run sample_baseline_usable)
qed

text \<open>
  C26: the reckoning with the worst case is enough. Once the header and the count fit the budget the encoder does not
  overflow, and what it sends are entities that are new or changed against the baseline: all of them, or as many of them as the
  rest of the budget holds at the worst case of 101 bits each.
\<close>

theorem snapshot_fits_budget:
  assumes "\<And>k xs. mset (nth_element k xs) = mset xs" and "states_ok current" and "history_sorted (rp_history r)"
    and "unat capacity \<le> length out" and "unat capacity < 268435456"
    and "match_baseline (usable_baseline tick r) current = (previous, removed)"
    and "encode_states nth_element tick eye viewer sequence current out capacity r = (n, buf, r')"
  shows "(n = 0 \<longleftrightarrow> 8 * unat (snapshot_budget capacity r) < length (snapshot_header tick sequence viewer current r) + 16) \<and>
     (0 < n \<longrightarrow> (\<exists>sel \<subseteq> {j. j < length current \<and> \<not> (\<exists>p. snd (zip current previous ! j) = Some p \<and> same_state_as (current ! j) p)}.
       rp_history r' = history_store tick (sent_frame sel 0 (zip current previous)) (rp_history r) \<and>
       card sel = min (room_for (unat (snapshot_budget capacity r)) (length (snapshot_header tick sequence viewer current r)))
         (card {j. j < length current \<and> \<not> (\<exists>p. snd (zip current previous ! j) = Some p \<and> same_state_as (current ! j) p)})))"
proof -
  have cur: "ids_sorted current" using assms(2) by (simp add: states_ok_def)
  have "length previous = length current"
    using assms(6) match_baseline_spec [OF base_states_sorted [OF assms(3)] cur, of tick] by auto
  then have len: "length (zip current previous) = length current" by simp
  from assms(1,4,5,6) len assms(7) show ?thesis
  proof (cases rule: encode_states_cases)
    case overflow
    then show ?thesis by simp
  next
    case (sent sel)
    have "card (set sel) = length sel" using sent(2) by (simp add: distinct_card strict_sorted_iff)
    with sent(1,6,7,8) encode_states_length [where nth_element = nth_element, OF assms(1-5,7)] show ?thesis
      by (intro conjI impI exI [of _ "set sel"]) auto
  qed
qed

theorem snapshot_fits_budget_witness:
  "\<exists>sel. rp_history (snd (snd sample_encoding)) =
     history_store 6 (sent_frame sel 0 (zip sample_current (fst (match_baseline (Some sample_base) sample_current)))) (rp_history sample_replication) \<and>
   sel = {0, 1}"
proof -
  obtain n buf r' where run: "sample_encoding = (n, buf, r')" by (cases sample_encoding) auto
  obtain previous removed where m: "match_baseline (usable_baseline 6 sample_replication) sample_current = (previous, removed)"
    by (rule prod.exhaust)
  note * = snapshot_fits_budget [OF _ sample_replication_ok(1,2) _ _ m run [unfolded sample_encoding_def]]
  have prev: "previous = [Some (mk_wire_state\<lparr>ew_id := 1, ew_px := 100\<rparr>), None]"
    using m unfolding sample_baseline_usable
    by (simp add: match_baseline_def sample_base_def sample_current_def mk_wire_state_def)
  have moved: "\<not> same_state_as (sample_current ! 0) (mk_wire_state\<lparr>ew_id := 1, ew_px := 100\<rparr>)" by code_simp
  have idx: "{j. j < length sample_current \<and> \<not> (\<exists>p. snd (zip sample_current previous ! j) = Some p \<and> same_state_as (sample_current ! j) p)} = {0, 1}"
    unfolding prev using moved by (auto simp: sample_current_def less_2_cases_iff)
  have room: "2 \<le> room_for (unat (snapshot_budget 64 sample_replication)) (length (snapshot_header 6 9 1 sample_current sample_replication))"
    by code_simp
  have "n \<noteq> 0" using * sample_header_fits by simp
  then obtain sel where "sel \<subseteq> {0, 1}" "rp_history r' = history_store 6 (sent_frame sel 0 (zip sample_current previous)) (rp_history sample_replication)"
      "card sel = min (room_for (unat (snapshot_budget 64 sample_replication)) (length (snapshot_header 6 9 1 sample_current sample_replication)))
        (card {0, 1 :: nat})"
    using * unfolding idx by (auto simp: word_gt_0)
  moreover from this room have "sel = {0, 1}" by (intro card_subset_eq) simp_all
  ultimately show ?thesis using m unfolding run snd_conv by (intro exI [of _ sel]) (simp add: sample_baseline_usable)
qed

end
