(* ===== verification/Client_View.thy ===== *)
theory Client_View
  imports Snapshot_Agreement
begin

text \<open>
  \<open>sim/client_view.h\<close> and \<open>sim/client_view.cpp\<close>: the mirror of the world that a client keeps, with prediction of its own
  player, reconciliation and interpolation. The running mean of the prediction error, a double that only a statistic shows,
  is left out. An operation has no result where the quantization of a NaN axis is undefined.
\<close>

section \<open>State\<close>

record client_view_config =
  vc_interpolation_delay_ticks :: f32
  vc_correction_smoothing :: f32
  vc_correction_snap_distance :: f32
  vc_input_history :: u32
  vc_snapshot_history :: u32

text \<open>The defaults: 2, 0.25, 120, 128 and 32.\<close>

definition mk_client_view_config :: client_view_config where
  "mk_client_view_config = \<lparr>vc_interpolation_delay_ticks = 0x40000000, vc_correction_smoothing = 0x3e800000,
     vc_correction_snap_distance = 0x42f00000, vc_input_history = 128, vc_snapshot_history = 32\<rparr>"

record render_entity =
  re_id :: entity_id
  re_position :: vec2
  re_velocity :: vec2
  re_kind :: u8
  re_is_local :: bool

record client_view_stats =
  vs_snapshots_applied :: u32
  vs_snapshots_rejected :: u32
  vs_reconciliations :: u32
  vs_replayed_inputs :: u32
  vs_hard_snaps :: u32
  vs_last_prediction_error :: f32
  vs_peak_prediction_error :: f32
  vs_known_entities :: u32
  vs_pending_inputs :: u32

definition mk_client_view_stats :: client_view_stats where
  "mk_client_view_stats = \<lparr>vs_snapshots_applied = 0, vs_snapshots_rejected = 0, vs_reconciliations = 0, vs_replayed_inputs = 0,
     vs_hard_snaps = 0, vs_last_prediction_error = 0, vs_peak_prediction_error = 0, vs_known_entities = 0, vs_pending_inputs = 0\<rparr>"

record interpolation_frame =
  if_tick :: tick
  if_states :: "wire_state list"

record client_view =
  cv_params :: world_params
  cv_config :: client_view_config
  cv_quantizers :: replication_quantizers
  cv_local_entity :: entity_id
  cv_predicted :: move_state
  cv_authoritative :: move_state
  cv_correction_offset :: vec2
  cv_input_history :: "move_input list"
  cv_next_input_sequence :: u32
  cv_last_acknowledged_input :: u32
  cv_baselines :: snapshot_history
  cv_frames :: "interpolation_frame list"
  cv_latest_tick :: tick
  cv_has_snapshot :: bool
  cv_render_tick :: f32
  cv_render_clock_started :: bool
  cv_render :: "render_entity list"
  cv_stats :: client_view_stats

definition kRenderClockSnapTicks :: f32 where "kRenderClockSnapTicks = 0x41200000"
definition kRenderClockCatchupRate :: f32 where "kRenderClockCatchupRate = 0x3da3d70a"

definition find_state :: "wire_state list \<Rightarrow> entity_id \<Rightarrow> wire_state option" where
  "find_state states eid =
     (let k = lower_bound states eid in if k = length states \<or> ew_id (states ! k) \<noteq> eid then None else Some (states ! k))"

definition zero_move_state :: move_state where
  "zero_move_state = \<lparr>ms_position = vec 0 0, ms_velocity = vec 0 0\<rparr>"

definition view_reset :: "client_view \<Rightarrow> client_view" where
  "view_reset v = v\<lparr>cv_predicted := zero_move_state, cv_authoritative := zero_move_state, cv_correction_offset := vec 0 0,
     cv_input_history := [], cv_next_input_sequence := 1, cv_last_acknowledged_input := 0,
     cv_baselines := history_reset (cv_baselines v), cv_frames := [], cv_latest_tick := 0, cv_has_snapshot := False,
     cv_render_tick := 0, cv_render_clock_started := False, cv_render := [], cv_stats := mk_client_view_stats\<rparr>"

definition view_configure :: "world_params \<Rightarrow> client_view_config \<Rightarrow> client_view \<Rightarrow> client_view" where
  "view_configure params config v =
     view_reset (v\<lparr>cv_params := params, cv_config := config, cv_quantizers := quantizers_from params,
       cv_baselines := history_configure (vc_snapshot_history config)\<rparr>)"

definition set_local_entity :: "entity_id \<Rightarrow> client_view \<Rightarrow> client_view" where
  "set_local_entity entity v = v\<lparr>cv_local_entity := entity\<rparr>"

definition render_position :: "client_view \<Rightarrow> vec2" where
  "render_position v = vec_add (ms_position (cv_predicted v)) (cv_correction_offset v)"

definition adopt_migrated_state :: "entity_id \<Rightarrow> vec2 \<Rightarrow> vec2 \<Rightarrow> client_view \<Rightarrow> client_view" where
  "adopt_migrated_state entity position velocity v =
     (let predicted = \<lparr>ms_position = position, ms_velocity = velocity\<rparr>
      in v\<lparr>cv_local_entity := entity, cv_predicted := predicted, cv_authoritative := predicted, cv_correction_offset := vec 0 0,
        cv_input_history := [], cv_baselines := history_reset (cv_baselines v), cv_frames := [], cv_has_snapshot := False,
        cv_render_clock_started := False\<rparr>)"


section \<open>Prediction\<close>

text \<open>\<open>while (xs.size() > limit) xs.pop_front()\<close>.\<close>

definition keep_newest :: "u32 \<Rightarrow> 'a list \<Rightarrow> 'a list" where
  "keep_newest limit xs = drop (length xs - unat limit) xs"

definition push_input :: "vec2 \<Rightarrow> bool \<Rightarrow> tick \<Rightarrow> client_view \<Rightarrow> (move_input \<times> client_view) option" where
  "push_input move_axis sprint client_tick v =
     map_option (\<lambda>input.
       let history = keep_newest (vc_input_history (cv_config v)) (cv_input_history v @ [input])
       in (input, v\<lparr>cv_next_input_sequence := cv_next_input_sequence v + 1,
            cv_predicted := step_movement (cv_predicted v) input (cv_params v) (tick_dt (cv_params v)),
            cv_input_history := history,
            cv_stats := (cv_stats v)\<lparr>vs_pending_inputs := word_of_nat (length history)\<rparr>\<rparr>))
     (quantize_input (mk_move_input\<lparr>mi_sequence := cv_next_input_sequence v, mi_tick := client_tick, mi_move_x := vx move_axis,
        mi_move_y := vy move_axis, mi_sprint := sprint\<rparr>))"

definition replay :: "world_params \<Rightarrow> move_state \<Rightarrow> move_input list \<Rightarrow> move_state" where
  "replay params = foldl (\<lambda>state input. step_movement state input params (tick_dt params))"

definition decoded_state :: "replication_quantizers \<Rightarrow> wire_state \<Rightarrow> move_state" where
  "decoded_state q s =
     \<lparr>ms_position = vec (q_decode (rq_position q) (ucast (ew_px s))) (q_decode (rq_position q) (ucast (ew_py s))),
      ms_velocity = vec (q_decode (rq_velocity q) (ucast (ew_vx s))) (q_decode (rq_velocity q) (ucast (ew_vy s)))\<rparr>"

definition reconcile :: "decoded_snapshot \<Rightarrow> client_view \<Rightarrow> client_view" where
  "reconcile snapshot v =
     (case find (\<lambda>s. ew_id s = cv_local_entity v) (ds_states snapshot) of
        None \<Rightarrow> v
      | Some mine \<Rightarrow>
          if ds_last_input_sequence snapshot < cv_last_acknowledged_input v then v
          else let authoritative = decoded_state (cv_quantizers v) mine;
                   history = dropWhile (\<lambda>i. mi_sequence i \<le> ds_last_input_sequence snapshot) (cv_input_history v);
                   previous_prediction = ms_position (cv_predicted v);
                   replayed = replay (cv_params v) authoritative history;
                   error = vec_length (vec_sub (ms_position replayed) previous_prediction);
                   snap = f_lt (vc_correction_snap_distance (cv_config v)) error;
                   stats = cv_stats v
               in v\<lparr>cv_last_acknowledged_input := ds_last_input_sequence snapshot, cv_authoritative := authoritative,
                  cv_input_history := history,
                  cv_correction_offset := (if snap then vec 0 0
                    else vec_add (vec_sub previous_prediction (ms_position replayed)) (cv_correction_offset v)),
                  cv_predicted := replayed,
                  cv_stats := stats\<lparr>vs_replayed_inputs := vs_replayed_inputs stats + word_of_nat (length history),
                    vs_last_prediction_error := error,
                    vs_peak_prediction_error := (if f_lt (vs_peak_prediction_error stats) error then error else vs_peak_prediction_error stats),
                    vs_reconciliations := (if f_lt 0 error then vs_reconciliations stats + 1 else vs_reconciliations stats),
                    vs_hard_snaps := (if snap then vs_hard_snaps stats + 1 else vs_hard_snaps stats),
                    vs_pending_inputs := word_of_nat (length history)\<rparr>\<rparr>)"

text \<open>The frame of a tick replaces the one of the same tick or takes its place in the order.\<close>

definition put_frame :: "interpolation_frame list \<Rightarrow> interpolation_frame \<Rightarrow> interpolation_frame list" where
  "put_frame frames f =
     (let k = length (takeWhile (\<lambda>g. if_tick g < if_tick f) frames)
      in if k < length frames \<and> if_tick (frames ! k) = if_tick f then frames[k := f]
         else take k frames @ f # drop k frames)"

definition reject_snapshot :: "client_view \<Rightarrow> client_view" where
  "reject_snapshot v = v\<lparr>cv_stats := (cv_stats v)\<lparr>vs_snapshots_rejected := vs_snapshots_rejected (cv_stats v) + 1\<rparr>\<rparr>"

definition accept_snapshot :: "decoded_snapshot \<Rightarrow> client_view \<Rightarrow> client_view" where
  "accept_snapshot snapshot v =
     (let tick = ds_tick snapshot; stats = cv_stats v
      in reconcile snapshot (v\<lparr>
        cv_baselines := history_store tick (ds_states snapshot) (cv_baselines v),
        cv_local_entity := (if ds_viewer snapshot \<noteq> kInvalidEntity then ds_viewer snapshot else cv_local_entity v),
        cv_frames := keep_newest (vc_snapshot_history (cv_config v)) (put_frame (cv_frames v) \<lparr>if_tick = tick, if_states = ds_states snapshot\<rparr>),
        cv_latest_tick := (if \<not> cv_has_snapshot v \<or> sequence_greater32 tick (cv_latest_tick v) then tick else cv_latest_tick v),
        cv_has_snapshot := True,
        cv_stats := stats\<lparr>vs_snapshots_applied := vs_snapshots_applied stats + 1,
          vs_known_entities := word_of_nat (length (ds_states snapshot))\<rparr>\<rparr>))"

definition apply_snapshot :: "u8 list \<Rightarrow> u32 \<Rightarrow> client_view \<Rightarrow> bool \<times> client_view" where
  "apply_snapshot data n v =
     (case peek_snapshot_header data n of
        None \<Rightarrow> (False, reject_snapshot v)
      | Some (tick, baseline_tick, full) \<Rightarrow>
          let baseline = (if full then None else history_get (cv_baselines v) baseline_tick)
          in if \<not> full \<and> baseline = None then (False, reject_snapshot v)
             else case decode_snapshot data n baseline of
                    None \<Rightarrow> (False, reject_snapshot v)
                  | Some snapshot \<Rightarrow> (True, accept_snapshot snapshot v))"


section \<open>Interpolation\<close>

definition tick_float :: "tick \<Rightarrow> f32" where
  "tick_float tick = f_of_int (uint tick)"

definition frame_at_or_before :: "interpolation_frame list \<Rightarrow> f32 \<Rightarrow> interpolation_frame option" where
  "frame_at_or_before frames tick =
     (case takeWhile (\<lambda>f. f_le (tick_float (if_tick f)) tick) frames of [] \<Rightarrow> None | fs \<Rightarrow> Some (List.last fs))"

definition frame_after :: "interpolation_frame list \<Rightarrow> f32 \<Rightarrow> interpolation_frame option" where
  "frame_after frames tick = find (\<lambda>f. f_lt tick (tick_float (if_tick f))) frames"

definition local_render_entity :: "client_view \<Rightarrow> render_entity" where
  "local_render_entity v = \<lparr>re_id = cv_local_entity v, re_position = render_position v, re_velocity = ms_velocity (cv_predicted v),
     re_kind = 0, re_is_local = True\<rparr>"

definition render_state :: "client_view \<Rightarrow> interpolation_frame \<Rightarrow> f32 \<Rightarrow> wire_state \<Rightarrow> render_entity" where
  "render_state v newer alpha s =
     (let from_state = decoded_state (cv_quantizers v) s;
          local = (ew_id s = cv_local_entity v);
          (position, velocity) = (case find_state (if_states newer) (ew_id s) of
             Some future \<Rightarrow>
               let to_state = decoded_state (cv_quantizers v) future
               in (vec_lerp (ms_position from_state) (ms_position to_state) alpha, vec_lerp (ms_velocity from_state) (ms_velocity to_state) alpha)
           | None \<Rightarrow> (ms_position from_state, ms_velocity from_state))
      in \<lparr>re_id = ew_id s, re_position = (if local then render_position v else position),
          re_velocity = (if local then ms_velocity (cv_predicted v) else velocity), re_kind = ew_kind s, re_is_local = local\<rparr>)"

definition render_between :: "client_view \<Rightarrow> interpolation_frame \<Rightarrow> interpolation_frame \<Rightarrow> render_entity list" where
  "render_between v older newer =
     (let span = f_sub (tick_float (if_tick newer)) (tick_float (if_tick older));
          alpha = (if f_lt 0 span then clampf (f_div (f_sub (cv_render_tick v) (tick_float (if_tick older))) span) 0 f_one else 0);
          entities = map (render_state v newer alpha) (if_states older)
      in entities @ (if \<not> list_ex re_is_local entities \<and> cv_local_entity v \<noteq> kInvalidEntity then [local_render_entity v] else []))"

definition rebuild_render_list :: "client_view \<Rightarrow> client_view" where
  "rebuild_render_list v =
     v\<lparr>cv_render :=
       (case (frame_at_or_before (cv_frames v) (cv_render_tick v), frame_after (cv_frames v) (cv_render_tick v)) of
          (None, None) \<Rightarrow> if cv_local_entity v \<noteq> kInvalidEntity then [local_render_entity v] else []
        | (None, Some newer) \<Rightarrow> render_between v newer newer
        | (Some older, None) \<Rightarrow> render_between v older older
        | (Some older, Some newer) \<Rightarrow> render_between v older newer)\<rparr>"

text \<open>The constant \<open>0.0001f\<close>.\<close>

definition decay_correction :: "client_view \<Rightarrow> client_view" where
  "decay_correction v =
     (let offset = vec_scale (cv_correction_offset v) (f_sub f_one (clampf (vc_correction_smoothing (cv_config v)) 0 f_one))
      in v\<lparr>cv_correction_offset := (if f_lt (length_sq offset) 0x38d1b717 then vec 0 0 else offset)\<rparr>)"

definition advance_clock :: "f32 \<Rightarrow> client_view \<Rightarrow> client_view" where
  "advance_clock dt v =
     (let target = f_sub (tick_float (cv_latest_tick v)) (vc_interpolation_delay_ticks (cv_config v))
      in if \<not> cv_render_clock_started v then v\<lparr>cv_render_tick := target, cv_render_clock_started := True\<rparr>
         else let render = f_add (cv_render_tick v) (f_mul dt (f_of_int (uint (wp_tick_rate (cv_params v)))));
                  drift = f_sub target render
              in v\<lparr>cv_render_tick := (if f_lt kRenderClockSnapTicks (f_abs drift) then target
                   else f_add render (f_mul drift kRenderClockCatchupRate))\<rparr>)"

definition view_advance :: "f32 \<Rightarrow> client_view \<Rightarrow> client_view" where
  "view_advance dt v =
     (let v = decay_correction v
      in rebuild_render_list (if cv_has_snapshot v then advance_clock dt v else v))"

lemma rebuild_keeps [simp]:
  "cv_baselines (rebuild_render_list v) = cv_baselines v" "cv_frames (rebuild_render_list v) = cv_frames v"
  "cv_config (rebuild_render_list v) = cv_config v" "cv_input_history (rebuild_render_list v) = cv_input_history v"
  "cv_next_input_sequence (rebuild_render_list v) = cv_next_input_sequence v"
  "cv_local_entity (rebuild_render_list v) = cv_local_entity v"
  by (simp_all add: rebuild_render_list_def Let_def split: option.split)

lemma clock_keeps [simp]:
  "cv_baselines (advance_clock dt v) = cv_baselines v" "cv_frames (advance_clock dt v) = cv_frames v"
  "cv_config (advance_clock dt v) = cv_config v" "cv_input_history (advance_clock dt v) = cv_input_history v"
  "cv_next_input_sequence (advance_clock dt v) = cv_next_input_sequence v"
  "cv_local_entity (advance_clock dt v) = cv_local_entity v"
  by (simp_all add: advance_clock_def Let_def)

lemma decay_keeps [simp]:
  "cv_baselines (decay_correction v) = cv_baselines v" "cv_frames (decay_correction v) = cv_frames v"
  "cv_config (decay_correction v) = cv_config v" "cv_input_history (decay_correction v) = cv_input_history v"
  "cv_next_input_sequence (decay_correction v) = cv_next_input_sequence v"
  "cv_local_entity (decay_correction v) = cv_local_entity v"
  by (simp_all add: decay_correction_def Let_def)

lemma advance_keeps [simp]:
  "cv_baselines (view_advance dt v) = cv_baselines v" "cv_frames (view_advance dt v) = cv_frames v"
  "cv_config (view_advance dt v) = cv_config v" "cv_input_history (view_advance dt v) = cv_input_history v"
  "cv_next_input_sequence (view_advance dt v) = cv_next_input_sequence v"
  "cv_local_entity (view_advance dt v) = cv_local_entity v"
  by (simp_all add: view_advance_def Let_def)

end
