(* ===== verification/View_Invariant.thy ===== *)
theory View_Invariant
  imports Client_View
begin

text \<open>
  What every client view keeps, whatever bytes reach it: the pending inputs are the newest ones without a gap, the frames to
  interpolate are in order and bounded, every list of states that \<open>std::lower_bound\<close> searches is sorted, and the local player
  is shown exactly once.
\<close>

section \<open>Decoded states are sorted\<close>

lemma read_updates_sorted:
  "ids_sorted ss \<Longrightarrow> run_state (read_updates n start ss) r = (Some ss', r') \<Longrightarrow> ids_sorted ss'"
proof (induction n arbitrary: start ss r)
  case (Suc n)
  then show ?case
    by (auto simp: Let_def split: prod.splits if_splits intro: Suc.IH ids_sorted_put)
qed simp

lemma decode_snapshot_sorted:
  assumes "decode_snapshot data n baseline = Some d" and "ids_sorted (base_states baseline)"
  shows "ids_sorted (ds_states d)"
proof -
  have "ids_sorted (filter P (case baseline of Some b \<Rightarrow> sf_states b | None \<Rightarrow> []))" for P
    using assms(2) by (auto simp: base_states_def sorted_wrt_filter split: option.splits)
  with assms(1) show ?thesis
    by (auto simp: decode_snapshot_def read_snapshot_def split: prod.splits if_splits dest!: read_updates_sorted [rotated])
qed


section \<open>Pending inputs\<close>

definition consecutive :: "u32 \<Rightarrow> move_input list \<Rightarrow> bool" where
  "consecutive next inputs \<longleftrightarrow> (\<forall>i<length inputs. mi_sequence (inputs ! i) = next - word_of_nat (length inputs - i))"

lemma consecutive_Nil [simp]: "consecutive next []"
  by (simp add: consecutive_def)

lemma consecutive_suffix: "consecutive next (xs @ ys) \<Longrightarrow> consecutive next ys"
  unfolding consecutive_def
proof (intro allI impI)
  fix i
  assume h: "\<forall>i<length (xs @ ys). mi_sequence ((xs @ ys) ! i) = next - word_of_nat (length (xs @ ys) - i)" and i: "i < length ys"
  from h [rule_format, of "length xs + i"] i show "mi_sequence (ys ! i) = next - word_of_nat (length ys - i)" by (simp add: nth_append)
qed

lemma consecutive_drop: "consecutive next xs \<Longrightarrow> consecutive next (drop k xs)"
  using consecutive_suffix [of "next" "take k xs" "drop k xs"] by simp

lemma consecutive_dropWhile: "consecutive next xs \<Longrightarrow> consecutive next (dropWhile P xs)"
  using consecutive_suffix [of "next" "takeWhile P xs" "dropWhile P xs"] by simp

lemma consecutive_push: "consecutive next xs \<Longrightarrow> mi_sequence x = next \<Longrightarrow> consecutive (next + 1) (xs @ [x])"
  by (auto simp: consecutive_def nth_append less_Suc_eq Suc_diff_le)

lemma quantize_keeps_sequence: "quantize_input i = Some j \<Longrightarrow> mi_sequence j = mi_sequence i"
  by (auto simp: quantize_input_def Let_def split: option.splits prod.splits)


section \<open>Frames in order\<close>

abbreviation ticks_sorted :: "interpolation_frame list \<Rightarrow> bool" where
  "ticks_sorted \<equiv> sorted_wrt (\<lambda>f g. if_tick f < if_tick g)"

lemma put_frame_Nil [simp]: "put_frame [] f = [f]"
  by (simp add: put_frame_def)

lemma put_frame_Cons [simp]:
  "put_frame (g # gs) f = (if if_tick g < if_tick f then g # put_frame gs f else if if_tick g = if_tick f then f # gs else f # g # gs)"
  by (simp add: put_frame_def Let_def)

lemma put_frame_elems: "set (put_frame fs f) \<subseteq> insert f (set fs)"
  by (induction fs) auto

lemma ticks_sorted_put: "ticks_sorted fs \<Longrightarrow> ticks_sorted (put_frame fs f)"
proof (induction fs)
  case (Cons g fs)
  then show ?case using put_frame_elems [of fs f] by (auto 4 3)
qed simp

lemma length_keep_newest: "length (keep_newest n xs) \<le> unat n"
  by (simp add: keep_newest_def)


section \<open>The invariant\<close>

definition view_ok :: "client_view \<Rightarrow> bool" where
  "view_ok v \<longleftrightarrow>
     consecutive (cv_next_input_sequence v) (cv_input_history v) \<and>
     length (cv_input_history v) \<le> unat (vc_input_history (cv_config v)) \<and>
     history_sorted (cv_baselines v) \<and>
     ticks_sorted (cv_frames v) \<and> list_all (\<lambda>f. ids_sorted (if_states f)) (cv_frames v) \<and>
     length (cv_frames v) \<le> unat (vc_snapshot_history (cv_config v))"

inductive viewing :: "client_view \<Rightarrow> bool" where
  view_start: "viewing (view_configure params config v)"
| view_local: "viewing v \<Longrightarrow> viewing (set_local_entity entity v)"
| view_push: "viewing v \<Longrightarrow> push_input axis sprint tick v = Some (input, v') \<Longrightarrow> viewing v'"
| view_apply: "viewing v \<Longrightarrow> viewing (snd (apply_snapshot data n v))"
| view_show: "viewing v \<Longrightarrow> viewing (view_advance dt v)"
| view_migrate: "viewing v \<Longrightarrow> viewing (adopt_migrated_state entity position velocity v)"
| view_restart: "viewing v \<Longrightarrow> viewing (view_reset v)"

lemma history_sorted_blank: "history_sorted (history_reset frames)" "history_sorted (history_configure n)"
  by (auto simp: history_sorted_def history_reset_def history_configure_def mk_frame_def list_all_iff)

lemma view_reset_ok: "view_ok (view_reset v)"
  by (simp add: view_ok_def view_reset_def history_sorted_blank)

lemma push_input_ok:
  assumes v: "view_ok v" and push: "push_input axis sprint tick v = Some (i, v')"
  shows "view_ok v'"
proof -
  let ?h = "keep_newest (vc_input_history (cv_config v)) (cv_input_history v @ [i])"
  have "mi_sequence i = cv_next_input_sequence v"
    using push by (auto simp: push_input_def Let_def dest: quantize_keeps_sequence)
  then have "consecutive (cv_next_input_sequence v + 1) ?h"
    using v unfolding keep_newest_def view_ok_def by (intro consecutive_drop consecutive_push) simp_all
  then show ?thesis
    using v push length_keep_newest [of "vc_input_history (cv_config v)"] by (auto simp: push_input_def view_ok_def Let_def)
qed

lemma reconcile_ok: "view_ok v \<Longrightarrow> view_ok (reconcile d v)"
  using length_dropWhile_le [of _ "cv_input_history v"]
  by (auto simp: reconcile_def view_ok_def Let_def consecutive_dropWhile intro: order_trans split: option.split)

lemma history_sorted_put: "history_sorted frames \<Longrightarrow> ids_sorted states \<Longrightarrow> history_sorted (history_store tick states frames)"
  by (auto simp: history_store_def history_sorted_def list_all_iff split: option.split
      dest!: set_update_subset_insert [THEN subsetD])

lemma accept_snapshot_ok:
  assumes "view_ok v" and "ids_sorted (ds_states d)"
  shows "view_ok (accept_snapshot d v)"
proof -
  let ?f = "\<lparr>if_tick = ds_tick d, if_states = ds_states d\<rparr>" and ?n = "vc_snapshot_history (cv_config v)"
  have "ticks_sorted (keep_newest ?n (put_frame (cv_frames v) ?f))"
    using assms(1) ticks_sorted_put [of "cv_frames v" ?f] by (simp add: view_ok_def keep_newest_def sorted_wrt_drop)
  moreover have "list_all (\<lambda>f. ids_sorted (if_states f)) (keep_newest ?n (put_frame (cv_frames v) ?f))"
    using assms put_frame_elems [of "cv_frames v" ?f] unfolding view_ok_def keep_newest_def list_all_iff
    by (fastforce dest: in_set_dropD)
  ultimately show ?thesis
    unfolding accept_snapshot_def Let_def using assms length_keep_newest
    by (intro reconcile_ok) (simp add: view_ok_def history_sorted_put)
qed

lemma apply_snapshot_ok:
  assumes "view_ok v"
  shows "view_ok (snd (apply_snapshot data n v))"
proof -
  have rejected: "view_ok (reject_snapshot v)" using assms by (simp add: view_ok_def reject_snapshot_def)
  have sorted: "ids_sorted (base_states (if full then None else history_get (cv_baselines v) tick))" for full tick
    using assms history_get_some(1) [of "cv_baselines v" tick]
    by (auto simp: base_states_def view_ok_def history_sorted_def list_all_iff split: option.split)
  have "snd (apply_snapshot data n v) = reject_snapshot v \<or>
      (\<exists>full tick d. decode_snapshot data n (if full then None else history_get (cv_baselines v) tick) = Some d \<and>
         snd (apply_snapshot data n v) = accept_snapshot d v)"
    unfolding apply_snapshot_def Let_def by (auto split: option.split)
  then show ?thesis using rejected accept_snapshot_ok [OF assms decode_snapshot_sorted [OF _ sorted]] by metis
qed

lemma view_advance_ok: "view_ok v \<Longrightarrow> view_ok (view_advance dt v)"
  by (simp add: view_ok_def)

lemma viewing_ok: "viewing v \<Longrightarrow> view_ok v"
proof (induction rule: viewing.induct)
  case (view_start params config v)
  show ?case by (simp add: view_configure_def view_reset_ok)
next
  case (view_local v entity)
  then show ?case by (simp add: view_ok_def set_local_entity_def)
next
  case (view_migrate v entity position velocity)
  then show ?case by (simp add: view_ok_def adopt_migrated_state_def Let_def history_sorted_blank)
qed (simp_all add: push_input_ok apply_snapshot_ok view_advance_ok view_reset_ok)


section \<open>The render list\<close>

lemma frame_at_or_before_mem:
  assumes "frame_at_or_before frames t = Some f"
  shows "f \<in> set frames"
proof -
  let ?fs = "takeWhile (\<lambda>f. f_le (tick_float (if_tick f)) t) frames"
  have "?fs \<noteq> []" and "f = List.last ?fs" using assms by (auto simp: frame_at_or_before_def split: list.splits)
  then have "f \<in> set ?fs" by (simp only: last_in_set not_False_eq_True)
  then show ?thesis by (blast dest: set_takeWhileD)
qed

lemma frame_after_mem: "frame_after frames t = Some f \<Longrightarrow> f \<in> set frames"
  by (auto simp: frame_after_def find_Some_iff)

lemma render_state_fields [simp]:
  "re_id (render_state v newer alpha s) = ew_id s" "re_is_local (render_state v newer alpha s) \<longleftrightarrow> ew_id s = cv_local_entity v"
  by (simp_all add: render_state_def Let_def split: prod.split)

lemma distinct_ids: "ids_sorted ss \<Longrightarrow> distinct (map ew_id ss)"
  using strict_sorted_iff [of "map ew_id ss"] by (simp add: sorted_wrt_map)

lemma local_once:
  assumes "distinct (map ew_id ss)"
  shows "length (filter (\<lambda>s. ew_id s = e) ss) = (if e \<in> ew_id ` set ss then 1 else 0)"
  using assms by (induction ss) auto

lemma render_between_shows:
  assumes sorted: "ids_sorted (if_states older)" and entity: "cv_local_entity v \<noteq> kInvalidEntity"
  shows "distinct (map re_id (render_between v older newer)) \<and> length (filter re_is_local (render_between v older newer)) = 1"
proof -
  define es where "es = if_states older"
  obtain f where render: "render_between v older newer = map (render_state v newer f) es @
      (if \<not> list_ex re_is_local (map (render_state v newer f) es) \<and> cv_local_entity v \<noteq> kInvalidEntity then [local_render_entity v] else [])"
    unfolding render_between_def Let_def es_def by blast
  have d: "distinct (map ew_id es)" using sorted by (simp add: es_def distinct_ids)
  have ids: "map (re_id \<circ> render_state v newer f) es = map ew_id es" by (simp add: o_def)
  have ex: "list_ex re_is_local (map (render_state v newer f) es) \<longleftrightarrow> cv_local_entity v \<in> ew_id ` set es"
    by (force simp: list_ex_iff image_iff)
  show ?thesis
    using d local_once [OF d, of "cv_local_entity v"] ids entity
    by (cases "cv_local_entity v \<in> ew_id ` set es")
      (auto simp: render ex o_def filter_map local_render_entity_def)
qed

lemma rebuild_shows:
  assumes "list_all (\<lambda>f. ids_sorted (if_states f)) (cv_frames v)" and "cv_local_entity v \<noteq> kInvalidEntity"
  shows "distinct (map re_id (cv_render (rebuild_render_list v))) \<and> length (filter re_is_local (cv_render (rebuild_render_list v))) = 1"
proof -
  have "f \<in> set (cv_frames v) \<Longrightarrow> ids_sorted (if_states f)" for f using assms(1) by (simp add: list_all_iff)
  then show ?thesis
    using assms(2) render_between_shows [OF _ assms(2)] frame_at_or_before_mem frame_after_mem
    by (auto simp: rebuild_render_list_def local_render_entity_def split: option.split)
qed

text \<open>
  C29: whatever bytes arrive and in whatever order the operations of a view are called, the pending inputs are the newest
  ones in consecutive order and at most the configured number, the frames to interpolate are in strictly ascending order of
  ticks and bounded, every list of states that is searched by bisection is sorted, and showing a frame lists every entity once
  and the local player exactly once.
\<close>

theorem view_stays_ok:
  assumes "viewing v"
  shows "view_ok v \<and> (cv_local_entity v \<noteq> kInvalidEntity \<longrightarrow>
     distinct (map re_id (cv_render (view_advance dt v))) \<and> length (filter re_is_local (cv_render (view_advance dt v))) = 1)"
proof -
  have ok: "view_ok v" by (rule viewing_ok [OF assms])
  let ?v = "let v = decay_correction v in if cv_has_snapshot v then advance_clock dt v else v"
  have "cv_local_entity ?v = cv_local_entity v" "cv_frames ?v = cv_frames v" by (simp_all add: Let_def)
  with ok rebuild_shows [of ?v] show ?thesis by (auto simp: view_advance_def Let_def view_ok_def)
qed

definition witness_view :: client_view where
  "witness_view = set_local_entity 7 (snd (apply_snapshot [1, 2, 3] 3 (view_configure mk_world_params mk_client_view_config
     \<lparr>cv_params = mk_world_params, cv_config = mk_client_view_config, cv_quantizers = quantizers_from mk_world_params,
      cv_local_entity = 0, cv_predicted = zero_move_state, cv_authoritative = zero_move_state, cv_correction_offset = vec 0 0,
      cv_input_history = [], cv_next_input_sequence = 1, cv_last_acknowledged_input = 0, cv_baselines = [], cv_frames = [],
      cv_latest_tick = 0, cv_has_snapshot = False, cv_render_tick = 0, cv_render_clock_started = False, cv_render = [],
      cv_stats = mk_client_view_stats\<rparr>)))"

theorem view_stays_ok_witness:
  "view_ok witness_view \<and> length (filter re_is_local (cv_render (view_advance 0 witness_view))) = 1"
proof -
  have "viewing witness_view" unfolding witness_view_def by (rule view_local, rule view_apply, rule view_start)
  moreover have "cv_local_entity witness_view \<noteq> kInvalidEntity" by (simp add: witness_view_def set_local_entity_def kInvalidEntity_def)
  ultimately show ?thesis using view_stays_ok [of witness_view 0] by simp
qed

end
