(* ===== verification/Replication.thy ===== *)
theory Replication
  imports Client_View
begin

text \<open>
  The replication of a world to a client over a network that loses, repeats and reorders datagrams: the encoder of
  \<open>proto/snapshot.cpp\<close> at one end and the view of \<open>sim/client_view.cpp\<close> at the other, with acknowledgements that
  may be late, lost or wrong. The run also records what was sent for each tick.
\<close>

section \<open>Views as clients of a history\<close>

lemma set_put_frame: "set (put_frame frames f) \<subseteq> insert f (set frames)"
  by (auto simp: put_frame_def Let_def dest: in_set_takeD in_set_dropD set_update_subset_insert [THEN subsetD])

lemma set_keep_newest: "set (keep_newest n xs) \<subseteq> set xs"
  by (auto simp: keep_newest_def dest: in_set_dropD)

lemma reconcile_keeps [simp]:
  "cv_baselines (reconcile d v) = cv_baselines v" "cv_frames (reconcile d v) = cv_frames v"
  "cv_latest_tick (reconcile d v) = cv_latest_tick v" "cv_has_snapshot (reconcile d v) = cv_has_snapshot v"
  by (simp_all add: reconcile_def Let_def split: option.split)

lemma push_input_keeps:
  "push_input axis sprint tick v = Some (i, v') \<Longrightarrow> cv_baselines v' = cv_baselines v \<and> cv_frames v' = cv_frames v"
  by (auto simp: push_input_def Let_def)

lemma set_history_store:
  "set (history_store tick states frames) \<subseteq> insert \<lparr>sf_tick = tick, sf_valid = True, sf_states = states\<rparr> (set frames)"
  by (auto simp: history_store_def split: option.split dest: set_update_subset_insert [THEN subsetD])


section \<open>Runs\<close>

record replication_run =
  rr_server :: replication_state
  rr_client :: client_view
  rr_wire :: "(u32 \<times> u8 list) set"
  rr_sent :: "tick \<rightharpoonup> wire_state list"

text \<open>
  The steps. A tick of the world is encoded once; \<open>kind\<close> gives the kind of an entity for the whole of its life. A
  datagram that was sent can be delivered any number of times or never, and any tick can be acknowledged.
\<close>

inductive replication :: "(nat \<Rightarrow> (nat \<times> f32) list \<Rightarrow> (nat \<times> f32) list) \<Rightarrow> (entity_id \<Rightarrow> u8) \<Rightarrow> replication_run \<Rightarrow> bool"
  for nth_element :: "nat \<Rightarrow> (nat \<times> f32) list \<Rightarrow> (nat \<times> f32) list" and kind :: "entity_id \<Rightarrow> u8" where
  start: "replication nth_element kind
     \<lparr>rr_server = replication_configure config params (replication_reset r), rr_client = view_configure params view_config v,
      rr_wire = {}, rr_sent = Map.empty\<rparr>"
    if "0 < ic_baseline_history config"
| encode: "replication nth_element kind
     (s\<lparr>rr_server := r', rr_wire := insert (n, buf) (rr_wire s), rr_sent := (rr_sent s)(tick := map_option sf_states (history_get (rp_history r') tick))\<rparr>)"
    if "replication nth_element kind s" and "tick \<notin> dom (rr_sent s)"
    and "states_ok current" and "list_all (\<lambda>c. ew_kind c = kind (ew_id c)) current"
    and "unat capacity \<le> length out" and "unat capacity \<le> 65535"
    and "encode_states nth_element tick eye viewer sequence current out capacity (rr_server s) = (n, buf, r')" and "0 < n"
| overflow: "replication nth_element kind (s\<lparr>rr_server := r'\<rparr>)"
    if "replication nth_element kind s" and "states_ok current" and "unat capacity \<le> length out" and "unat capacity \<le> 65535"
    and "encode_states nth_element tick eye viewer sequence current out capacity (rr_server s) = (0, buf, r')"
| deliver: "replication nth_element kind (s\<lparr>rr_client := snd (apply_snapshot buf n (rr_client s))\<rparr>)"
    if "replication nth_element kind s" and "(n, buf) \<in> rr_wire s"
| acknowledge: "replication nth_element kind (s\<lparr>rr_server := acknowledge tick (rr_server s)\<rparr>)"
    if "replication nth_element kind s"
| predict: "replication nth_element kind (s\<lparr>rr_client := v\<rparr>)"
    if "replication nth_element kind s" and "push_input axis sprint tick (rr_client s) = Some (input, v)"
| show_frame: "replication nth_element kind (s\<lparr>rr_client := view_advance dt (rr_client s)\<rparr>)"
    if "replication nth_element kind s"
| rejoin: "replication nth_element kind (s\<lparr>rr_client := adopt_migrated_state entity position velocity (rr_client s)\<rparr>)"
    if "replication nth_element kind s"
| restart: "replication nth_element kind (s\<lparr>rr_client := view_reset (rr_client s)\<rparr>)"
    if "replication nth_element kind s"


section \<open>The invariant\<close>

definition frames_agree :: "(tick \<rightharpoonup> wire_state list) \<Rightarrow> snapshot_history \<Rightarrow> bool" where
  "frames_agree sent frames \<longleftrightarrow> (\<forall>f\<in>set frames. sf_valid f \<longrightarrow> sent (sf_tick f) = Some (sf_states f))"

definition shown_agree :: "(tick \<rightharpoonup> wire_state list) \<Rightarrow> interpolation_frame list \<Rightarrow> bool" where
  "shown_agree sent frames \<longleftrightarrow> (\<forall>f\<in>set frames. sent (if_tick f) = Some (if_states f))"

text \<open>A datagram gives its tick's states to a client that holds its baseline.\<close>

definition datagram_ok :: "(tick \<rightharpoonup> wire_state list) \<Rightarrow> u32 \<times> u8 list \<Rightarrow> bool" where
  "datagram_ok sent d \<longleftrightarrow> (\<exists>tick base_tick full. peek_snapshot_header (snd d) (fst d) = Some (tick, base_tick, full) \<and>
     (\<exists>base snapshot. (full \<and> base = None \<or> \<not> full \<and> (\<exists>states. sent base_tick = Some states \<and>
           base = Some \<lparr>sf_tick = base_tick, sf_valid = True, sf_states = states\<rparr>)) \<and>
        decode_snapshot (snd d) (fst d) base = Some snapshot \<and> ds_tick snapshot = tick \<and> sent tick = Some (ds_states snapshot)))"

definition sent_ok :: "(entity_id \<Rightarrow> u8) \<Rightarrow> (tick \<rightharpoonup> wire_state list) \<Rightarrow> bool" where
  "sent_ok kind sent \<longleftrightarrow> (\<forall>tick states. sent tick = Some states \<longrightarrow> ids_sorted states \<and> list_all (\<lambda>c. ew_kind c = kind (ew_id c)) states)"

definition run_ok :: "(entity_id \<Rightarrow> u8) \<Rightarrow> replication_run \<Rightarrow> bool" where
  "run_ok kind s \<longleftrightarrow> sent_ok kind (rr_sent s) \<and> rp_history (rr_server s) \<noteq> [] \<and> history_sorted (rp_history (rr_server s)) \<and>
     frames_agree (rr_sent s) (rp_history (rr_server s)) \<and> frames_agree (rr_sent s) (cv_baselines (rr_client s)) \<and>
     shown_agree (rr_sent s) (cv_frames (rr_client s)) \<and> (\<forall>d\<in>rr_wire s. datagram_ok (rr_sent s) d)"

lemma frames_agree_get:
  "frames_agree sent frames \<Longrightarrow> history_get frames tick = Some f \<Longrightarrow>
   sent tick = Some (sf_states f) \<and> f = \<lparr>sf_tick = tick, sf_valid = True, sf_states = sf_states f\<rparr>"
  using history_get_some [of frames tick f] by (auto simp: frames_agree_def)

lemma frames_agree_mono: "frames_agree sent frames \<Longrightarrow> sent \<subseteq>\<^sub>m sent' \<Longrightarrow> frames_agree sent' frames"
  unfolding frames_agree_def map_le_def by (metis domI)

lemma shown_agree_mono: "shown_agree sent frames \<Longrightarrow> sent \<subseteq>\<^sub>m sent' \<Longrightarrow> shown_agree sent' frames"
  unfolding shown_agree_def map_le_def by (metis domI)

lemma datagram_ok_mono:
  assumes "datagram_ok sent d" and "sent \<subseteq>\<^sub>m sent'"
  shows "datagram_ok sent' d"
proof -
  have "sent t = Some x \<Longrightarrow> sent' t = Some x" for t x using assms(2) by (metis domI map_le_def)
  with assms(1) show ?thesis unfolding datagram_ok_def by blast
qed

lemma frames_agree_store:
  "frames_agree sent frames \<Longrightarrow> sent tick = Some states \<Longrightarrow> frames_agree sent (history_store tick states frames)"
  using set_history_store [of tick states frames] unfolding frames_agree_def by fastforce

lemma frames_agree_blank: "frames_agree sent (history_reset frames)" "frames_agree sent (history_configure n)"
  by (auto simp: frames_agree_def history_reset_def history_configure_def mk_frame_def)

lemma accept_agrees:
  assumes "frames_agree sent (cv_baselines v)" and "shown_agree sent (cv_frames v)" and "sent (ds_tick d) = Some (ds_states d)"
  shows "frames_agree sent (cv_baselines (accept_snapshot d v)) \<and> shown_agree sent (cv_frames (accept_snapshot d v))"
proof
  show "frames_agree sent (cv_baselines (accept_snapshot d v))"
    using frames_agree_store [OF assms(1,3)] by (simp add: accept_snapshot_def Let_def)
  let ?f = "\<lparr>if_tick = ds_tick d, if_states = ds_states d\<rparr>"
  have "set (keep_newest n (put_frame (cv_frames v) ?f)) \<subseteq> insert ?f (set (cv_frames v))" for n
    using set_keep_newest set_put_frame by (rule order_trans)
  then show "shown_agree sent (cv_frames (accept_snapshot d v))"
    using assms(2,3) by (fastforce simp: accept_snapshot_def Let_def shown_agree_def)
qed

text \<open>What the client does with a datagram: it takes exactly the states of the tick, or keeps what it has.\<close>

lemma deliver_cases:
  assumes agree: "frames_agree sent (cv_baselines v)" and d: "datagram_ok sent (n, buf)"
    and peek: "peek_snapshot_header buf n = Some (tick, base_tick, full)"
  shows "if full \<or> history_get (cv_baselines v) base_tick \<noteq> None
     then (\<exists>snapshot. apply_snapshot buf n v = (True, accept_snapshot snapshot v) \<and> ds_tick snapshot = tick \<and>
             sent tick = Some (ds_states snapshot))
     else apply_snapshot buf n v = (False, reject_snapshot v)"
proof -
  obtain base snapshot where base: "full \<and> base = None \<or> \<not> full \<and> (\<exists>states. sent base_tick = Some states \<and>
           base = Some \<lparr>sf_tick = base_tick, sf_valid = True, sf_states = states\<rparr>)"
      and dec: "decode_snapshot buf n base = Some snapshot" "ds_tick snapshot = tick" "sent tick = Some (ds_states snapshot)"
    using d peek unfolding datagram_ok_def by auto
  show ?thesis
  proof (cases full)
    case True
    with base dec peek show ?thesis by (auto simp: apply_snapshot_def)
  next
    case False
    show ?thesis
    proof (cases "history_get (cv_baselines v) base_tick")
      case None
      with False peek show ?thesis by (simp add: apply_snapshot_def)
    next
      case (Some f)
      with frames_agree_get [OF agree Some] base False have "base = Some f" by auto
      with Some False dec peek show ?thesis by (auto simp: apply_snapshot_def)
    qed
  qed
qed


section \<open>Every step keeps the invariant\<close>

lemma history_sorted_store: "history_sorted frames \<Longrightarrow> ids_sorted states \<Longrightarrow> history_sorted (history_store tick states frames)"
  using set_history_store [of tick states frames] by (fastforce simp: history_sorted_def list_all_iff)

lemma history_store_not_Nil [simp]: "history_store tick states frames = [] \<longleftrightarrow> frames = []"
  by (auto simp: history_store_def history_slot_def split: option.splits)

lemma base_states_sent:
  assumes "frames_agree sent (rp_history r)" and "usable_baseline tick r = Some f"
  shows "sent (rp_last_acked_tick r) = Some (sf_states f)"
    and "f = \<lparr>sf_tick = rp_last_acked_tick r, sf_valid = True, sf_states = sf_states f\<rparr>"
  using usable_baseline_some [OF assms(2)] assms(1) by (auto simp: frames_agree_def)

lemma encode_keeps_ok:
  assumes perm: "\<And>k xs. mset (nth_element k xs) = mset xs"
    and s: "run_ok kind s" and fresh: "tick \<notin> dom (rr_sent s)"
    and ok: "states_ok current" and kinds: "list_all (\<lambda>c. ew_kind c = kind (ew_id c)) current"
    and cap: "unat capacity \<le> length out" "unat capacity \<le> 65535"
    and run: "encode_states nth_element tick eye viewer sequence current out capacity (rr_server s) = (n, buf, r')" and n: "0 < n"
  shows "run_ok kind (s\<lparr>rr_server := r', rr_wire := insert (n, buf) (rr_wire s),
     rr_sent := (rr_sent s)(tick := map_option sf_states (history_get (rp_history r') tick))\<rparr>)"
proof -
  let ?r = "rr_server s" and ?base = "usable_baseline tick (rr_server s)"
  have sorted: "history_sorted (rp_history ?r)" and agree: "frames_agree (rr_sent s) (rp_history ?r)" and sent: "sent_ok kind (rr_sent s)"
    and ne: "rp_history ?r \<noteq> []"
    using s by (simp_all add: run_ok_def)
  have base: "list_all (\<lambda>c. ew_kind c = kind (ew_id c)) (base_states ?base)"
  proof (cases ?base)
    case (Some f)
    with base_states_sent(1) [OF agree Some] sent show ?thesis by (simp add: base_states_def sent_ok_def)
  qed (simp add: base_states_def)
  have stable: "kinds_stable (base_states ?base) current" using base kinds by (auto simp: kinds_stable_def list_all_iff)
  from perm ok sorted stable cap disjI2 [OF refl] run n obtain d where
      dec: "decode_snapshot buf n ?base = Some d" "ds_tick d = tick" and hist: "rp_history r' = history_store tick (ds_states d) (rp_history ?r)"
      and ids: "ids_sorted (ds_states d)" and sub: "set (ds_states d) \<subseteq> set current \<union> set (base_states ?base)"
      and peek: "peek_snapshot_header buf n = Some (tick, case map_option sf_tick ?base of Some t \<Rightarrow> t | None \<Rightarrow> 0, map_option sf_tick ?base = None)"
    by (rule encode_states_agree)
  let ?sent = "(rr_sent s)(tick \<mapsto> ds_states d)"
  have get: "map_option sf_states (history_get (rp_history r') tick) = Some (ds_states d)"
    unfolding hist history_get_store [OF ne] by simp
  have mono: "rr_sent s \<subseteq>\<^sub>m ?sent" using fresh by (auto simp: map_le_def)
  have "list_all (\<lambda>c. ew_kind c = kind (ew_id c)) (ds_states d)" using sub kinds base by (auto simp: list_all_iff)
  then have sent': "sent_ok kind ?sent" using sent ids by (simp add: sent_ok_def)
  have "datagram_ok ?sent (n, buf)"
  proof (cases ?base)
    case None
    then show ?thesis using dec peek by (auto simp: datagram_ok_def)
  next
    case (Some f)
    note f = base_states_sent [OF agree Some]
    have tick: "sf_tick f = rp_last_acked_tick ?r" using usable_baseline_some [OF Some] by simp
    have "?sent (rp_last_acked_tick ?r) = Some (sf_states f)" using f(1) fresh by (metis domI fun_upd_other)
    moreover have "decode_snapshot buf n (Some f) = Some d" using dec(1) Some by simp
    ultimately show ?thesis
      unfolding datagram_ok_def fst_conv snd_conv
      using peek dec(2) f(2) by (intro exI [of _ tick] exI [of _ "rp_last_acked_tick ?r"] exI [of _ False] conjI exI [of _ "Some f"] exI [of _ d])
        (simp_all add: Some tick)
  qed
  moreover have "frames_agree ?sent (rp_history r')"
    unfolding hist by (rule frames_agree_store [OF frames_agree_mono [OF agree mono]]) simp
  moreover have "history_sorted (rp_history r')" unfolding hist by (rule history_sorted_store [OF sorted ids])
  moreover have "frames_agree ?sent (cv_baselines (rr_client s))" "shown_agree ?sent (cv_frames (rr_client s))"
    using s mono by (auto simp: run_ok_def intro: frames_agree_mono shown_agree_mono)
  moreover have "\<forall>d\<in>rr_wire s. datagram_ok ?sent d" using s mono by (auto simp: run_ok_def intro: datagram_ok_mono)
  moreover have "rp_history r' \<noteq> []" using ne by (simp add: hist)
  ultimately show ?thesis using sent' unfolding run_ok_def get by simp
qed

lemma encode_zero_keeps:
  assumes "\<And>k xs. mset (nth_element k xs) = mset xs" and ok: "states_ok current" and hist: "history_sorted (rp_history r)"
    and "unat capacity \<le> length out" and "unat capacity \<le> 65535"
    and run: "encode_states nth_element tick eye viewer sequence current out capacity r = (0, buf, r')"
  shows "rp_history r' = rp_history r"
proof -
  obtain previous removed where m: "match_baseline (usable_baseline tick r) current = (previous, removed)" by (rule prod.exhaust)
  have cur: "ids_sorted current" using ok by (simp add: states_ok_def)
  have len: "length (zip current previous) = length current"
    using m match_baseline_spec [OF base_states_sorted [OF hist] cur, of tick] by auto
  have small: "unat capacity < 268435456" using assms(5) by simp
  from assms(1,4) small m len run show ?thesis
  proof (cases rule: encode_states_cases)
    case (sent sel)
    with encode_states_length [where nth_element = nth_element, OF assms(1) ok hist assms(4) small run] show ?thesis by simp
  qed
qed

lemma deliver_keeps_ok:
  assumes s: "run_ok kind s" and d: "(n, buf) \<in> rr_wire s"
  shows "run_ok kind (s\<lparr>rr_client := snd (apply_snapshot buf n (rr_client s))\<rparr>)"
proof -
  let ?v = "rr_client s"
  have agree: "frames_agree (rr_sent s) (cv_baselines ?v)" "shown_agree (rr_sent s) (cv_frames ?v)" and ok: "datagram_ok (rr_sent s) (n, buf)"
    using s d by (auto simp: run_ok_def)
  obtain tick base_tick full where peek: "peek_snapshot_header buf n = Some (tick, base_tick, full)"
    using ok by (auto simp: datagram_ok_def)
  have "frames_agree (rr_sent s) (cv_baselines (snd (apply_snapshot buf n ?v))) \<and> shown_agree (rr_sent s) (cv_frames (snd (apply_snapshot buf n ?v)))"
    using deliver_cases [OF agree(1) ok peek] accept_agrees [OF agree] agree by (auto split: if_splits simp: reject_snapshot_def)
  with s show ?thesis by (simp add: run_ok_def)
qed

lemma replication_ok:
  assumes "replication nth_element kind s" and perm: "\<And>k xs. mset (nth_element k xs) = mset xs"
  shows "run_ok kind s"
  using assms(1)
proof induction
  case (start config params r view_config v)
  let ?h = "history_configure (ic_baseline_history config)"
  have "history_sorted ?h" by (simp add: history_sorted_def history_configure_def mk_frame_def list_all_iff)
  moreover have "?h \<noteq> []" using start by (simp add: history_configure_def word_gt_0 unat_eq_zero)
  ultimately show ?case
    using frames_agree_blank
    by (simp add: run_ok_def sent_ok_def replication_configure_def view_configure_def view_reset_def shown_agree_def)
next
  case (encode s tick current capacity out eye viewer sequence n buf r')
  show ?case by (rule encode_keeps_ok [OF perm encode.IH encode.hyps(2-)])
next
  case (overflow s current capacity out tick eye viewer sequence buf r')
  have "history_sorted (rp_history (rr_server s))" using overflow.IH by (simp add: run_ok_def)
  from encode_zero_keeps [OF perm overflow.hyps(2) this overflow.hyps(3-)] overflow.IH show ?case by (simp add: run_ok_def)
next
  case (deliver s n buf)
  then show ?case by (intro deliver_keeps_ok)
next
  case (acknowledge s tick)
  then show ?case by (simp add: run_ok_def acknowledge_def)
next
  case (predict s axis sprint tick input v)
  with push_input_keeps [OF predict.hyps(2)] show ?case by (simp add: run_ok_def)
next
  case (show_frame s dt)
  then show ?case by (simp add: run_ok_def)
next
  case (rejoin s entity position velocity)
  then show ?case by (simp add: run_ok_def adopt_migrated_state_def Let_def frames_agree_blank shown_agree_def)
next
  case (restart s)
  then show ?case by (simp add: run_ok_def view_reset_def frames_agree_blank shown_agree_def)
qed


section \<open>A sample run\<close>

definition sample_server :: replication_state where
  "sample_server = replication_configure mk_interest_config mk_world_params (replication_reset sample_replication)"

definition blank_view :: client_view where
  "blank_view = \<lparr>cv_params = mk_world_params, cv_config = mk_client_view_config, cv_quantizers = quantizers_from mk_world_params,
     cv_local_entity = 0, cv_predicted = zero_move_state, cv_authoritative = zero_move_state, cv_correction_offset = vec 0 0,
     cv_input_history = [], cv_next_input_sequence = 1, cv_last_acknowledged_input = 0, cv_baselines = [], cv_frames = [],
     cv_latest_tick = 0, cv_has_snapshot = False, cv_render_tick = 0, cv_render_clock_started = False, cv_render = [],
     cv_stats = mk_client_view_stats\<rparr>"

definition sample_view :: client_view where
  "sample_view = view_configure mk_world_params mk_client_view_config blank_view"

definition sample_kind :: "entity_id \<Rightarrow> u8" where
  "sample_kind e = (if e = 2 then 1 else 0)"

definition sample_snapshot :: "u32 \<times> u8 list \<times> replication_state" where
  "sample_snapshot = encode_states (\<lambda>_ xs. xs) 6 (vec 0 0) 1 9 sample_current (replicate 64 0) 64 sample_server"

definition sample_run :: replication_run where
  "sample_run = \<lparr>rr_server = snd (snd sample_snapshot), rr_client = sample_view, rr_wire = {(fst sample_snapshot, fst (snd sample_snapshot))},
     rr_sent = [6 \<mapsto> the (map_option sf_states (history_get (rp_history (snd (snd sample_snapshot))) 6))]\<rparr>"

lemma sample_server_fits: "length (snapshot_header 6 9 1 sample_current sample_server) + 16 \<le> 8 * unat (snapshot_budget 64 sample_server)"
  "history_sorted (rp_history sample_server)" "rp_history sample_server \<noteq> []"
  "kinds_stable (base_states (usable_baseline 6 sample_server)) sample_current" "usable_baseline 6 sample_server = None"
  by code_simp+

lemma sample_snapshot_sent:
  obtains d :: decoded_snapshot where "0 < fst sample_snapshot" and "peek_snapshot_header (fst (snd sample_snapshot)) (fst sample_snapshot) = Some (6, 0, True)"
    and "map_option sf_states (history_get (rp_history (snd (snd sample_snapshot))) 6) = Some (ds_states d)"
proof -
  obtain n buf r' where run: "sample_snapshot = (n, buf, r')" by (cases sample_snapshot) auto
  note enc = run [unfolded sample_snapshot_def]
  have ok: "states_ok sample_current" by (rule sample_replication_ok)
  have "n \<noteq> 0" using encode_states_length [OF _ ok sample_server_fits(2) _ _ enc] sample_server_fits(1) by simp
  then have n: "0 < n" by (simp add: word_gt_0)
  have cap: "unat (64 :: u32) \<le> length (replicate 64 (0 :: u8))" "unat (64 :: u32) \<le> 65535" by simp_all
  obtain d :: decoded_snapshot where "peek_snapshot_header buf n = Some (6, case map_option sf_tick (usable_baseline 6 sample_server) of Some t \<Rightarrow> t | None \<Rightarrow> 0,
        map_option sf_tick (usable_baseline 6 sample_server) = None)"
      "rp_history r' = history_store 6 (ds_states d) (rp_history sample_server)"
    by (rule encode_states_agree [OF refl ok sample_server_fits(2,4) cap disjI1 [OF sample_server_fits(5)] enc n, of None])
  with that [of d] n history_get_store [OF sample_server_fits(3)] show thesis by (simp add: run sample_server_fits(5))
qed

lemma sample_run_reached: "replication (\<lambda>_ xs. xs) sample_kind sample_run"
proof -
  obtain n buf r' where run: "sample_snapshot = (n, buf, r')" by (cases sample_snapshot) auto
  let ?s0 = "\<lparr>rr_server = sample_server, rr_client = sample_view, rr_wire = {}, rr_sent = Map.empty\<rparr>"
  have s0: "replication (\<lambda>_ xs. xs) sample_kind ?s0"
    unfolding sample_server_def sample_view_def by (rule replication.start) (simp add: mk_interest_config_def)
  obtain d :: decoded_snapshot where d: "0 < n" "map_option sf_states (history_get (rp_history r') 6) = Some (ds_states d)"
    using sample_snapshot_sent run by (metis fst_conv snd_conv)
  have kinds: "list_all (\<lambda>c. ew_kind c = sample_kind (ew_id c)) sample_current" by code_simp
  have "replication (\<lambda>_ xs. xs) sample_kind (?s0\<lparr>rr_server := r', rr_wire := insert (n, buf) (rr_wire ?s0),
      rr_sent := (rr_sent ?s0)(6 := map_option sf_states (history_get (rp_history r') 6))\<rparr>)"
    by (rule replication.encode [OF s0 _ sample_replication_ok(1) kinds _ _ _ d(1), where out = "replicate 64 0" and capacity = 64
          and eye = "vec 0 0" and viewer = 1 and sequence = 9])
      (simp_all add: run [unfolded sample_snapshot_def])
  then show ?thesis by (simp add: sample_run_def run d(2))
qed


section \<open>Properties\<close>

text \<open>
  C27: however datagrams and acknowledgements are lost, repeated and reordered, every frame that the client holds as a
  baseline or shows is exactly what the server sent for that tick.
\<close>

theorem replication_consistent:
  assumes "\<And>k xs. mset (nth_element k xs) = mset xs" and "replication nth_element kind s"
  shows "(\<forall>tick f. history_get (cv_baselines (rr_client s)) tick = Some f \<longrightarrow> rr_sent s tick = Some (sf_states f)) \<and>
     (\<forall>f\<in>set (cv_frames (rr_client s)). rr_sent s (if_tick f) = Some (if_states f))"
proof -
  have "run_ok kind s" by (rule replication_ok [where nth_element = nth_element, OF assms(2,1)])
  then show ?thesis using frames_agree_get by (fastforce simp: run_ok_def shown_agree_def)
qed

theorem replication_consistent_witness:
  "\<exists>f. history_get (cv_baselines (snd (apply_snapshot (fst (snd sample_snapshot)) (fst sample_snapshot) sample_view))) 6 = Some f \<and>
     rr_sent sample_run 6 = Some (sf_states f)"
proof -
  let ?buf = "fst (snd sample_snapshot)" and ?n = "fst sample_snapshot"
  have d: "peek_snapshot_header ?buf ?n = Some (6, 0, True)" by (rule sample_snapshot_sent)
  have wire: "(?n, ?buf) \<in> rr_wire sample_run" by (simp add: sample_run_def)
  have ok: "run_ok sample_kind sample_run" by (rule replication_ok [OF sample_run_reached]) simp
  have view: "rr_client sample_run = sample_view" by (simp add: sample_run_def)
  have "frames_agree (rr_sent sample_run) (cv_baselines sample_view)" "datagram_ok (rr_sent sample_run) (?n, ?buf)"
    using ok wire by (simp_all add: run_ok_def view)
  from deliver_cases [OF this d] obtain x where
    x: "apply_snapshot ?buf ?n sample_view = (True, accept_snapshot x sample_view)" "ds_tick x = 6" by auto
  have ne: "cv_baselines sample_view \<noteq> []" by code_simp
  have "history_get (cv_baselines (accept_snapshot x sample_view)) 6 = Some \<lparr>sf_tick = 6, sf_valid = True, sf_states = ds_states x\<rparr>"
    using history_get_store [OF ne, of 6 "ds_states x"] by (simp add: accept_snapshot_def Let_def x(2))
  moreover from replication_consistent [OF _ replication.deliver [OF sample_run_reached wire]]
  have "history_get (cv_baselines (accept_snapshot x sample_view)) 6 = Some f \<Longrightarrow> rr_sent sample_run 6 = Some (sf_states f)" for f
    by (simp add: view x(1))
  ultimately show ?thesis by (auto simp: x(1))
qed

text \<open>
  C28: the stream of snapshots recovers from every loss. A datagram that was sent is accepted whenever it is complete in
  itself or the client still holds its baseline, and then the client holds exactly the states that the server sent for its tick;
  otherwise it is counted as rejected and changes nothing else.
\<close>

theorem snapshot_delivery:
  assumes "\<And>k xs. mset (nth_element k xs) = mset xs" and "replication nth_element kind s" and "(n, buf) \<in> rr_wire s"
    and "peek_snapshot_header buf n = Some (tick, base_tick, full)" and "cv_baselines (rr_client s) \<noteq> []"
  shows "if full \<or> history_get (cv_baselines (rr_client s)) base_tick \<noteq> None
     then (\<exists>v states. apply_snapshot buf n (rr_client s) = (True, v) \<and> rr_sent s tick = Some states \<and>
             history_get (cv_baselines v) tick = Some \<lparr>sf_tick = tick, sf_valid = True, sf_states = states\<rparr>)
     else apply_snapshot buf n (rr_client s) = (False, reject_snapshot (rr_client s))"
proof -
  have ok: "run_ok kind s" by (rule replication_ok [where nth_element = nth_element, OF assms(2,1)])
  then have "frames_agree (rr_sent s) (cv_baselines (rr_client s))" "datagram_ok (rr_sent s) (n, buf)"
    using assms(3) by (auto simp: run_ok_def)
  note deliver = deliver_cases [OF this assms(4)]
  show ?thesis
  proof (cases "full \<or> history_get (cv_baselines (rr_client s)) base_tick \<noteq> None")
    case True
    with deliver obtain d where d: "apply_snapshot buf n (rr_client s) = (True, accept_snapshot d (rr_client s))" "ds_tick d = tick"
        "rr_sent s tick = Some (ds_states d)" by auto
    have "history_get (cv_baselines (accept_snapshot d (rr_client s))) tick = Some \<lparr>sf_tick = tick, sf_valid = True, sf_states = ds_states d\<rparr>"
      using history_get_store [OF assms(5), of tick "ds_states d"] by (simp add: accept_snapshot_def Let_def d(2))
    with True d show ?thesis by simp
  next
    case False
    with deliver show ?thesis by simp
  qed
qed

theorem snapshot_delivery_witness:
  "\<exists>v states. apply_snapshot (fst (snd sample_snapshot)) (fst sample_snapshot) sample_view = (True, v) \<and> rr_sent sample_run 6 = Some states \<and>
     history_get (cv_baselines v) 6 = Some \<lparr>sf_tick = 6, sf_valid = True, sf_states = states\<rparr>"
proof -
  have wire: "(fst sample_snapshot, fst (snd sample_snapshot)) \<in> rr_wire sample_run" by (simp add: sample_run_def)
  have view: "rr_client sample_run = sample_view" by (simp add: sample_run_def)
  have ne: "cv_baselines (rr_client sample_run) \<noteq> []" unfolding view by code_simp
  have peek: "peek_snapshot_header (fst (snd sample_snapshot)) (fst sample_snapshot) = Some (6, 0, True)" by (rule sample_snapshot_sent)
  from snapshot_delivery [OF _ sample_run_reached wire peek ne] show ?thesis by (simp add: view)
qed

end
