(* ===== verification/Udp_Socket.thy ===== *)
theory Udp_Socket
  imports Prelude
begin

text \<open>
  \<open>net/udp_socket.cpp\<close> over the kernel's two queues: the datagrams that have arrived and are not read yet, and the
  datagrams handed over for sending, as long as the kernel's send buffer has room. Datagrams are the lists of their bytes;
  the size of a datagram is the length of the list. The kernel's cumulative count of discarded datagrams, which it attaches
  to a batch where it supports that, is \<open>us_kernel_overflow\<close>. Whether the system calls of \<open>open\<close> succeed, what \<open>poll\<close> finds
  within its timeout and hard errors of the calls are left to the environment: the first two are arguments.
\<close>

section \<open>Addresses\<close>

record address =
  ad_ip :: u32
  ad_port :: u16

type_synonym datagram = "address \<times> u8 list"

definition kMaxDatagramSize :: u32 where "kMaxDatagramSize = 1200"
definition kBatchSize :: u32 where "kBatchSize = 64"


section \<open>Sockets\<close>

record udp_socket =
  us_open :: bool
  us_pending :: "datagram list"
  us_received :: "datagram list"
  us_bytes_sent :: u64
  us_bytes_received :: u64
  us_packets_sent :: u64
  us_packets_received :: u64
  us_send_failures :: u64
  us_receive_drops :: u64
  us_last_overflow :: u32
  us_overflow_seen :: bool
  us_kernel_in :: "datagram list"
  us_kernel_out :: "datagram list"
  us_kernel_room :: nat
  us_kernel_overflow :: "u32 option"

definition mk_socket :: "nat \<Rightarrow> udp_socket" where
  "mk_socket room = \<lparr>us_open = True, us_pending = [], us_received = [], us_bytes_sent = 0, us_bytes_received = 0,
     us_packets_sent = 0, us_packets_received = 0, us_send_failures = 0, us_receive_drops = 0, us_last_overflow = 0,
     us_overflow_seen = False, us_kernel_in = [], us_kernel_out = [], us_kernel_room = room, us_kernel_overflow = None\<rparr>"

definition total_bytes :: "datagram list \<Rightarrow> u64" where
  "total_bytes ds = word_of_nat (sum_list (map (length \<circ> snd) ds))"

text \<open>The kernel takes as many datagrams as its buffer has room for, in order.\<close>

definition kernel_take :: "datagram list \<Rightarrow> udp_socket \<Rightarrow> udp_socket" where
  "kernel_take ds s =
     (let sent = take (us_kernel_room s) ds
      in s\<lparr>us_kernel_out := us_kernel_out s @ sent, us_kernel_room := us_kernel_room s - length sent,
           us_packets_sent := us_packets_sent s + word_of_nat (length sent), us_bytes_sent := us_bytes_sent s + total_bytes sent,
           us_send_failures := us_send_failures s + word_of_nat (length ds - length sent)\<rparr>)"

definition socket_send :: "address \<Rightarrow> u8 list \<Rightarrow> udp_socket \<Rightarrow> bool \<times> udp_socket" where
  "socket_send to data s =
     (if \<not> us_open s \<or> data = [] then (False, s) else (0 < us_kernel_room s, kernel_take [(to, data)] s))"

definition flush_sends :: "udp_socket \<Rightarrow> udp_socket" where
  "flush_sends s =
     (if us_pending s = [] then s
      else let batch = us_pending s; s = s\<lparr>us_pending := []\<rparr>
           in if \<not> us_open s then s else kernel_take batch s)"

definition send_batched :: "address \<Rightarrow> u8 list \<Rightarrow> udp_socket \<Rightarrow> bool \<times> udp_socket" where
  "send_batched to data s =
     (if \<not> us_open s \<or> data = [] \<or> unat kMaxDatagramSize < length data then (False, s)
      else let s = (if length (us_pending s) = unat kBatchSize then flush_sends s else s)
           in (True, s\<lparr>us_pending := us_pending s @ [(to, data)]\<rparr>))"

definition socket_close :: "udp_socket \<Rightarrow> udp_socket" where
  "socket_close s =
     (let s = (if us_open s then (flush_sends s)\<lparr>us_open := False\<rparr> else s)
      in s\<lparr>us_pending := [], us_received := [], us_overflow_seen := False\<rparr>)"

text \<open>A new descriptor has empty queues.\<close>

definition socket_open :: "bool \<Rightarrow> udp_socket \<Rightarrow> bool \<times> udp_socket" where
  "socket_open opened s =
     (let s = socket_close s in (opened, if opened then s\<lparr>us_open := True, us_kernel_in := []\<rparr> else s))"

definition wait_readable :: "bool \<Rightarrow> udp_socket \<Rightarrow> bool" where
  "wait_readable ready s = (us_open s \<and> (us_received s \<noteq> [] \<or> ready))"

text \<open>The difference of two readings of the counter of 32 bits, modulo its wrap-around; the first reading counts for nothing.\<close>

definition count_drops :: "u32 option \<Rightarrow> udp_socket \<Rightarrow> udp_socket" where
  "count_drops reading s =
     (case reading of
        None \<Rightarrow> s
      | Some reported \<Rightarrow>
          s\<lparr>us_receive_drops := us_receive_drops s + (if us_overflow_seen s then ucast (reported - us_last_overflow s) else 0),
            us_last_overflow := reported, us_overflow_seen := True\<rparr>)"

text \<open>One \<open>recvmmsg\<close>: up to 64 datagrams, each cut to the size of its buffer.\<close>

definition refill :: "udp_socket \<Rightarrow> udp_socket" where
  "refill s =
     (let batch = map (\<lambda>(from, data). (from, take (unat kMaxDatagramSize) data)) (take (unat kBatchSize) (us_kernel_in s));
          s = (if batch \<noteq> [] then count_drops (us_kernel_overflow s) s else s)
      in s\<lparr>us_received := batch, us_kernel_in := drop (unat kBatchSize) (us_kernel_in s),
           us_packets_received := us_packets_received s + word_of_nat (length batch),
           us_bytes_received := us_bytes_received s + total_bytes batch\<rparr>)"

text \<open>A datagram, or nothing where the code returns 0 or -1 without one.\<close>

definition socket_receive :: "u32 \<Rightarrow> udp_socket \<Rightarrow> datagram option \<times> udp_socket" where
  "socket_receive capacity s =
     (if \<not> us_open s then (None, s)
      else let s = (if us_received s = [] then refill s else s)
           in case us_received s of
                [] \<Rightarrow> (None, s)
              | (from, data) # rest \<Rightarrow> (Some (from, take (unat capacity) data), s\<lparr>us_received := rest\<rparr>))"


section \<open>Sockets as queues\<close>

lemma kBatchSize_pos: "unat kBatchSize = 64" "unat kMaxDatagramSize = 1200"
  by (simp_all add: kBatchSize_def kMaxDatagramSize_def)

lemma kernel_take_fields [simp]:
  "us_open (kernel_take ds s) = us_open s" "us_pending (kernel_take ds s) = us_pending s"
  "us_received (kernel_take ds s) = us_received s" "us_kernel_in (kernel_take ds s) = us_kernel_in s"
  "us_kernel_out (kernel_take ds s) = us_kernel_out s @ take (us_kernel_room s) ds"
  "us_kernel_room (kernel_take ds s) = us_kernel_room s - length ds"
  by (auto simp: kernel_take_def Let_def)

lemma count_drops_fields [simp]:
  "us_open (count_drops r s) = us_open s" "us_pending (count_drops r s) = us_pending s" "us_received (count_drops r s) = us_received s"
  "us_kernel_in (count_drops r s) = us_kernel_in s" "us_kernel_out (count_drops r s) = us_kernel_out s"
  "us_kernel_room (count_drops r s) = us_kernel_room s"
  by (simp_all add: count_drops_def split: option.split)

lemma flush_fields [simp]:
  "us_open (flush_sends s) = us_open s" "us_received (flush_sends s) = us_received s" "us_kernel_in (flush_sends s) = us_kernel_in s"
  "us_pending (flush_sends s) = []"
  by (simp_all add: flush_sends_def Let_def)

lemma send_fields [simp]:
  "us_open (snd (socket_send to data s)) = us_open s" "us_received (snd (socket_send to data s)) = us_received s"
  "us_kernel_in (snd (socket_send to data s)) = us_kernel_in s" "us_pending (snd (socket_send to data s)) = us_pending s"
  "us_open (snd (send_batched to data s)) = us_open s" "us_received (snd (send_batched to data s)) = us_received s"
  "us_kernel_in (snd (send_batched to data s)) = us_kernel_in s"
  by (simp_all add: socket_send_def send_batched_def Let_def)

text \<open>What is still to be received, in order.\<close>

definition incoming :: "udp_socket \<Rightarrow> datagram list" where
  "incoming s = us_received s @ map (\<lambda>(from, data). (from, take 1200 data)) (us_kernel_in s)"

lemma incoming_refill: "us_received s = [] \<Longrightarrow> incoming (refill s) = incoming s"
  using append_take_drop_id [of 64 "us_kernel_in s"]
  by (simp add: incoming_def refill_def Let_def kBatchSize_pos flip: map_append)

lemma refill_open [simp]: "us_open (refill s) = us_open s"
  by (simp add: refill_def Let_def)

lemma refill_empty: "us_received s = [] \<Longrightarrow> us_received (refill s) = [] \<longleftrightarrow> incoming s = []"
  by (auto simp: refill_def incoming_def Let_def kBatchSize_pos)

lemma receive_incoming:
  assumes "us_open s"
  shows "socket_receive capacity s = (d, s') \<Longrightarrow>
     (case incoming s of [] \<Rightarrow> d = None \<and> incoming s' = [] | (from, data) # rest \<Rightarrow> d = Some (from, take (unat capacity) data) \<and> incoming s' = rest)"
proof -
  let ?s = "if us_received s = [] then refill s else s"
  have same: "incoming ?s = incoming s" by (simp add: incoming_refill)
  assume run: "socket_receive capacity s = (d, s')"
  show ?thesis
  proof (cases "us_received ?s")
    case Nil
    then have "us_received s = []" by (auto split: if_splits)
    with Nil refill_empty [of s] have "incoming s = []" by simp
    with run Nil assms same show ?thesis by (auto simp: socket_receive_def Let_def)
  next
    case (Cons x rest)
    obtain a b where x: "x = (a, b)" by (cases x)
    have "incoming ?s = (a, b) # rest @ map (\<lambda>(from, data). (from, take 1200 data)) (us_kernel_in ?s)"
      unfolding incoming_def Cons x by simp
    then have inc: "incoming s = (a, b) # rest @ map (\<lambda>(from, data). (from, take 1200 data)) (us_kernel_in ?s)"
      unfolding same .
    have "s' = ?s\<lparr>us_received := rest\<rparr>" and d: "d = Some (a, take (unat capacity) b)"
      using run Cons x assms by (auto simp: socket_receive_def Let_def split: if_splits)
    then have "incoming s' = rest @ map (\<lambda>(from, data). (from, take 1200 data)) (us_kernel_in ?s)" by (simp add: incoming_def)
    with d show ?thesis unfolding inc by simp
  qed
qed

lemma receive_fields:
  "socket_receive capacity s = (d, s') \<Longrightarrow> us_open s' = us_open s \<and> us_pending s' = us_pending s \<and> us_kernel_out s' = us_kernel_out s \<and>
     us_kernel_room s' = us_kernel_room s"
  by (auto simp: socket_receive_def refill_def Let_def split: if_splits list.splits)


section \<open>Batching keeps the order\<close>

lemma flush_out:
  assumes "us_open s" and "length (us_pending s) \<le> us_kernel_room s"
  shows "us_kernel_out (flush_sends s) = us_kernel_out s @ us_pending s"
    and "us_kernel_room (flush_sends s) = us_kernel_room s - length (us_pending s)"
  using assms by (auto simp: flush_sends_def Let_def)

definition send_all :: "datagram list \<Rightarrow> udp_socket \<Rightarrow> udp_socket" where
  "send_all ds s = foldl (\<lambda>s (to, data). snd (send_batched to data s)) s ds"

lemma send_batched_queue:
  fixes to :: address
  assumes "us_open s" and "0 < length data" and "length data \<le> 1200" and "length (us_pending s) \<le> us_kernel_room s"
  defines "s' \<equiv> snd (send_batched to data s)"
  shows "us_kernel_out s' @ us_pending s' = us_kernel_out s @ us_pending s @ [(to, data)]"
    and "us_kernel_room s' - length (us_pending s') = us_kernel_room s - length (us_pending s) - 1"
    and "length (us_pending s) < us_kernel_room s \<Longrightarrow> length (us_pending s') \<le> us_kernel_room s'"
proof -
  have s': "s' = (let t = (if length (us_pending s) = 64 then flush_sends s else s) in t\<lparr>us_pending := us_pending t @ [(to, data)]\<rparr>)"
    using assms(1-3) by (auto simp: s'_def send_batched_def kBatchSize_pos)
  show "us_kernel_out s' @ us_pending s' = us_kernel_out s @ us_pending s @ [(to, data)]"
    and "us_kernel_room s' - length (us_pending s') = us_kernel_room s - length (us_pending s) - 1"
    and "length (us_pending s) < us_kernel_room s \<Longrightarrow> length (us_pending s') \<le> us_kernel_room s'"
    using flush_out [OF assms(1,4)] by (auto simp: s' Let_def)
qed

lemma send_all_queue:
  "us_open s \<Longrightarrow> list_all (\<lambda>d. 0 < length (snd d) \<and> length (snd d) \<le> 1200) ds \<Longrightarrow> length (us_pending s) + length ds \<le> us_kernel_room s \<Longrightarrow>
   us_open (send_all ds s) \<and> us_kernel_out (send_all ds s) @ us_pending (send_all ds s) = us_kernel_out s @ us_pending s @ ds \<and>
   length (us_pending (send_all ds s)) \<le> us_kernel_room (send_all ds s)"
proof (induction ds arbitrary: s)
  case Nil
  then show ?case by (simp add: send_all_def)
next
  case (Cons d ds)
  obtain to data where d: "d = (to, data)" by (cases d)
  let ?s = "snd (send_batched to data s)"
  have data: "0 < length data" "length data \<le> 1200" using Cons.prems(2) by (simp_all add: d)
  have room: "length (us_pending s) \<le> us_kernel_room s" "length (us_pending s) < us_kernel_room s" using Cons.prems(3) by simp_all
  note q = send_batched_queue [OF Cons.prems(1) data room(1), of to]
  have "length (us_pending ?s) + length ds \<le> us_kernel_room ?s" using q(2) q(3) [OF room(2)] Cons.prems(3) by simp
  from Cons.IH [OF _ _ this] Cons.prems q(1) show ?case by (simp add: send_all_def d)
qed

text \<open>
  Batching keeps the order and loses nothing. Whatever was pending and wherever the batches of 64 fall, after the flush
  the kernel has every queued datagram of valid size exactly once and in the order in which they were queued, as long as its
  buffer has room.
\<close>

theorem batched_sends_in_order:
  assumes "us_open s" and "list_all (\<lambda>d. 0 < length (snd d) \<and> length (snd d) \<le> 1200) ds"
    and "length (us_pending s) + length ds \<le> us_kernel_room s"
  shows "us_kernel_out (flush_sends (send_all ds s)) = us_kernel_out s @ us_pending s @ ds"
  using send_all_queue [OF assms] flush_out(1) [of "send_all ds s"] by simp

theorem batched_sends_in_order_witness:
  "us_kernel_out (flush_sends (send_all (replicate 70 (\<lparr>ad_ip = 1, ad_port = 2\<rparr>, [7])) (mk_socket 100))) =
     replicate 70 (\<lparr>ad_ip = 1, ad_port = 2\<rparr>, [7])"
proof -
  have "us_open (mk_socket 100)" "us_pending (mk_socket 100) = []" "us_kernel_room (mk_socket 100) = 100" "us_kernel_out (mk_socket 100) = []"
    by (simp_all add: mk_socket_def)
  with batched_sends_in_order [of "mk_socket 100" "replicate 70 (\<lparr>ad_ip = 1, ad_port = 2\<rparr>, [7])"]
  show ?thesis by (simp add: list_all_iff)
qed

end
