(* ===== verification/Connection.thy ===== *)
theory Connection
  imports Reliability Udp_Socket "HOL-Library.AList"
begin

text \<open>
  \<open>net/connection.h\<close> and \<open>net/connection.cpp\<close>: the handshake and the connections over a socket. The hash maps are
  association lists (the order of iteration is the order of the list; no property depends on it), a pointer to a
  connection is its address, which is its key. The handlers of the owning service are parameters over the service's own
  state \<open>'w\<close>; they may change the connection they are given, but for
  \<open>on_disconnect\<close>, whose connection is destroyed after the call. The connect handler may call back into the server, to close
  the connection of a client that the new one replaces; it is given in two parts, \<open>on_replaced\<close> up to that call and
  \<open>on_connect\<close> from there. The random generator is a sequence of numbers and the count of those drawn. Time is the argument
  \<open>now\<close>.
\<close>

section \<open>Data\<close>

definition kHeaderBytes :: u32 where "kHeaderBytes = 5"
definition kHandshakeTimeoutUs :: u64 where "kHandshakeTimeoutUs = 5000000"
definition kConnectionRequestPadding :: u32 where "kConnectionRequestPadding = 1000"

type_synonym connect_token = "u8 list"

record connection =
  cn_client_id :: u32
  cn_address :: address
  cn_salt :: u64
  cn_token :: connect_token
  cn_entity :: u32
  cn_last_receive_us :: u64
  cn_last_send_us :: u64
  cn_connected_at_us :: u64
  cn_disconnecting :: bool
  cn_reliability :: endpoint

record server_config =
  sc_bind :: address
  sc_max_connections :: u32
  sc_timeout_us :: u64
  sc_keepalive_us :: u64

record admit_decision =
  ad_admit :: bool
  ad_reason :: deny_reason
  ad_client_id :: u32

record pending_handshake =
  ph_client_salt :: u64
  ph_server_salt :: u64
  ph_token :: connect_token
  ph_started_us :: u64

definition mk_pending :: pending_handshake where
  "mk_pending = \<lparr>ph_client_salt = 0, ph_server_salt = 0, ph_token = replicate 32 0, ph_started_us = 0\<rparr>"

text \<open>The sequence of random numbers and how many were drawn.\<close>

record random_source =
  rnd_numbers :: "nat \<Rightarrow> u64"
  rnd_drawn :: nat

definition generate_salt :: "random_source \<Rightarrow> u64 \<times> random_source" where
  "generate_salt g =
     (let salt = rnd_numbers g (rnd_drawn g) in (if salt = 0 then 1 else salt, g\<lparr>rnd_drawn := rnd_drawn g + 1\<rparr>))"

record 'w connection_server =
  cs_config :: server_config
  cs_socket :: udp_socket
  cs_connections :: "(address \<times> connection) list"
  cs_pending :: "(address \<times> pending_handshake) list"
  cs_by_client :: "(u32 \<times> address) list"
  cs_handshakes_completed :: u64
  cs_handshakes_denied :: u64
  cs_invalid_packets :: u64
  cs_random :: random_source
  cs_next_client_id :: u32
  cs_service :: 'w

record 'w handlers =
  on_admit :: "(address \<Rightarrow> connect_token \<Rightarrow> 'w \<Rightarrow> admit_decision \<times> 'w) option"
  on_replaced :: "connection \<Rightarrow> 'w \<Rightarrow> (u32 \<times> string) option \<times> 'w"
  on_connect :: "connection \<Rightarrow> 'w \<Rightarrow> connection \<times> 'w"
  on_disconnect :: "connection \<Rightarrow> string \<Rightarrow> 'w \<Rightarrow> 'w"
  on_payload :: "connection \<Rightarrow> u8 list \<Rightarrow> 'w \<Rightarrow> connection \<times> 'w"
  on_message :: "connection \<Rightarrow> reliable_message \<Rightarrow> 'w \<Rightarrow> connection \<times> 'w"

definition next_client_id :: "'w connection_server \<Rightarrow> u32 \<times> 'w connection_server" where
  "next_client_id s = (cs_next_client_id s, s\<lparr>cs_next_client_id := cs_next_client_id s + 1\<rparr>)"


section \<open>Packets\<close>

text \<open>\<open>write_header\<close> and a second writer behind it, into a buffer of the given capacity: the bytes that are sent.\<close>

definition written_bytes :: "(bit_writer, unit) state \<Rightarrow> u32 \<Rightarrow> u8 list" where
  "written_bytes m capacity =
     (case run_state (do { m; bytes_written }) (mk_writer (replicate (unat capacity) 0) capacity) of
        (n, w) \<Rightarrow> take (unat n) (bw_buffer w))"

definition packet_header :: "packet_type \<Rightarrow> u32 \<Rightarrow> u8 list" where
  "packet_header ty capacity = written_bytes (do { write_u32 kProtocolId; write_u8 (packet_type_code ty) }) capacity"

definition compose_packet :: "packet_type \<Rightarrow> (bit_writer, unit) state \<Rightarrow> u32 \<Rightarrow> u8 list" where
  "compose_packet ty m capacity =
     (let header = packet_header ty capacity in header @ written_bytes m (capacity - word_of_nat (length header)))"

definition packet_type_of :: "u8 \<Rightarrow> packet_type option" where
  "packet_type_of code =
     find (\<lambda>ty. packet_type_code ty = code)
       [kConnectionRequest, kChallenge, kChallengeResponse, kConnectionAccepted, kConnectionDenied, kPayload, kDisconnect]"

text \<open>The reader is fresh and the five bytes are there, so its reads need no check of the failure flag.\<close>

definition read_header :: "u8 list \<Rightarrow> packet_type option" where
  "read_header data =
     (if word_of_nat (length data) < kHeaderBytes then None
      else case run_state (do { p \<leftarrow> read_u32; t \<leftarrow> read_u8; State_Monad.return (p, t) }) (mk_reader data (word_of_nat (length data))) of
             ((p, t), _) \<Rightarrow> if p \<noteq> kProtocolId then None else if t < 1 \<or> t > 7 then None else packet_type_of t)"

definition challenge_packet :: "u64 \<Rightarrow> u64 \<Rightarrow> u8 list" where
  "challenge_packet client_salt server_salt = compose_packet kChallenge (do { write_u64 client_salt; write_u64 server_salt }) 64"

definition denied_packet :: "deny_reason \<Rightarrow> u8 list" where
  "denied_packet reason = compose_packet kConnectionDenied (write_u8 (deny_reason_code reason)) 32"

definition accepted_packet :: "connection \<Rightarrow> u8 list" where
  "accepted_packet c = compose_packet kConnectionAccepted (do { write_u64 (cn_salt c); write_u32 (cn_client_id c); write_u32 (cn_entity c) }) 64"

definition disconnect_packet :: "u64 \<Rightarrow> u32 \<Rightarrow> u8 list" where
  "disconnect_packet salt capacity = compose_packet kDisconnect (write_u64 salt) capacity"

definition request_packet :: "u64 \<Rightarrow> connect_token \<Rightarrow> u8 list" where
  "request_packet salt token =
     compose_packet kConnectionRequest (do {
       write_u64 salt;
       write_bytes token kConnectTokenBytes;
       for_each write_u8 (replicate (unat kConnectionRequestPadding) 0) }) kMaxDatagramSize"

definition response_packet :: "u64 \<Rightarrow> u8 list" where
  "response_packet salt = compose_packet kChallengeResponse (write_u64 salt) 64"

text \<open>A payload: the salt and a packet of the reliability layer behind it; nothing where that refuses.\<close>

definition payload_packet :: "u64 \<Rightarrow> u8 list \<Rightarrow> u64 \<Rightarrow> endpoint \<Rightarrow> u8 list option \<times> endpoint" where
  "payload_packet salt data now ep =
     (let prefix = compose_packet kPayload (write_u64 salt) kMaxDatagramSize;
          room = kMaxDatagramSize - word_of_nat (length prefix)
      in case write_packet (replicate (unat room) 0) room data (word_of_nat (length data)) now ep of
           (body, buffer, ep) \<Rightarrow> (if body = 0 then None else Some (prefix @ take (unat body) buffer), ep))"


section \<open>Reading fields\<close>

definition read_salt :: "u8 list \<Rightarrow> u64 option" where
  "read_salt body =
     (case run_state (do { v \<leftarrow> read_u64; bad \<leftarrow> read_overflowed; State_Monad.return (if bad then None else Some v) })
        (mk_reader body (word_of_nat (length body))) of (v, _) \<Rightarrow> v)"

definition read_request :: "u8 list \<Rightarrow> (u64 \<times> connect_token) option" where
  "read_request body =
     (case run_state (do { v \<leftarrow> read_u64; t \<leftarrow> read_bytes (replicate 32 0) kConnectTokenBytes; bad \<leftarrow> read_overflowed;
          State_Monad.return (if bad \<or> v = 0 then None else Some (v, t)) }) (mk_reader body (word_of_nat (length body))) of (v, _) \<Rightarrow> v)"

definition read_challenge :: "u8 list \<Rightarrow> (u64 \<times> u64) option" where
  "read_challenge body =
     (case run_state (do { c \<leftarrow> read_u64; v \<leftarrow> read_u64; bad \<leftarrow> read_overflowed; State_Monad.return (if bad then None else Some (c, v)) })
        (mk_reader body (word_of_nat (length body))) of (v, _) \<Rightarrow> v)"

definition read_accepted :: "u8 list \<Rightarrow> (u64 \<times> u32 \<times> u32) option" where
  "read_accepted body =
     (case run_state (do { v \<leftarrow> read_u64; c \<leftarrow> read_u32; e \<leftarrow> read_u32; bad \<leftarrow> read_overflowed;
          State_Monad.return (if bad then None else Some (v, c, e)) }) (mk_reader body (word_of_nat (length body))) of (v, _) \<Rightarrow> v)"

definition read_denied :: "u8 list \<Rightarrow> u8 option" where
  "read_denied body =
     (case run_state (do { v \<leftarrow> read_u8; bad \<leftarrow> read_overflowed; State_Monad.return (if bad then None else Some v) })
        (mk_reader body (word_of_nat (length body))) of (v, _) \<Rightarrow> v)"


section \<open>The server\<close>

definition server_send :: "address \<Rightarrow> u8 list \<Rightarrow> 'w connection_server \<Rightarrow> 'w connection_server" where
  "server_send to data s = s\<lparr>cs_socket := snd (socket_send to data (cs_socket s))\<rparr>"

definition count_invalid :: "'w connection_server \<Rightarrow> 'w connection_server" where
  "count_invalid s = s\<lparr>cs_invalid_packets := cs_invalid_packets s + 1\<rparr>"

definition send_challenge :: "address \<Rightarrow> u64 \<Rightarrow> u64 \<Rightarrow> 'w connection_server \<Rightarrow> 'w connection_server" where
  "send_challenge to client_salt server_salt = server_send to (challenge_packet client_salt server_salt)"

definition send_denied :: "address \<Rightarrow> deny_reason \<Rightarrow> 'w connection_server \<Rightarrow> 'w connection_server" where
  "send_denied to reason = server_send to (denied_packet reason)"

definition send_accepted :: "connection \<Rightarrow> 'w connection_server \<Rightarrow> 'w connection_server" where
  "send_accepted c = server_send (cn_address c) (accepted_packet c)"

definition server_start :: "bool \<Rightarrow> server_config \<Rightarrow> 'w connection_server \<Rightarrow> bool \<times> 'w connection_server" where
  "server_start opened config s =
     (case socket_open opened (cs_socket s) of (success, sock) \<Rightarrow> (success, s\<lparr>cs_config := config, cs_socket := sock\<rparr>))"

definition server_stop :: "'w connection_server \<Rightarrow> 'w connection_server" where
  "server_stop s =
     (let s = foldl (\<lambda>s (a, c). server_send a (disconnect_packet (cn_salt c) 64) s) s (cs_connections s)
      in s\<lparr>cs_connections := [], cs_by_client := [], cs_pending := [], cs_socket := socket_close (cs_socket s)\<rparr>)"

definition remove_connection :: "'w handlers \<Rightarrow> address \<Rightarrow> string \<Rightarrow> 'w connection_server \<Rightarrow> 'w connection_server" where
  "remove_connection h a reason s =
     (case map_of (cs_connections s) a of
        None \<Rightarrow> s
      | Some c \<Rightarrow> s\<lparr>cs_service := on_disconnect h c reason (cs_service s),
                   cs_by_client := AList.delete (cn_client_id c) (cs_by_client s),
                   cs_connections := AList.delete a (cs_connections s)\<rparr>)"

definition handle_connection_request :: "address \<Rightarrow> u8 list \<Rightarrow> u64 \<Rightarrow> 'w connection_server \<Rightarrow> 'w connection_server" where
  "handle_connection_request sender body now s =
     (if word_of_nat (length body) < 8 + kConnectTokenBytes + kConnectionRequestPadding then count_invalid s
      else case read_request body of
        None \<Rightarrow> count_invalid s
      | Some (client_salt, token) \<Rightarrow>
          case map_of (cs_connections s) sender of
            Some c \<Rightarrow> send_accepted c s
          | None \<Rightarrow>
              if unat (sc_max_connections (cs_config s)) \<le> length (cs_connections s)
              then (send_denied sender kServerFull s)\<lparr>cs_handshakes_denied := cs_handshakes_denied s + 1\<rparr>
              else
                let pending = (case map_of (cs_pending s) sender of Some p \<Rightarrow> p | None \<Rightarrow> mk_pending);
                    (pending, random) =
                      (if ph_client_salt pending \<noteq> client_salt
                       then case generate_salt (cs_random s) of (salt, random) \<Rightarrow>
                         (pending\<lparr>ph_client_salt := client_salt, ph_server_salt := salt, ph_started_us := now\<rparr>, random)
                       else (pending, cs_random s));
                    pending = pending\<lparr>ph_token := token\<rparr>
                in send_challenge sender (ph_client_salt pending) (ph_server_salt pending)
                     (s\<lparr>cs_random := random, cs_pending := AList.update sender pending (cs_pending s)\<rparr>))"

text \<open>The decision of the service, or by default to admit with a fresh number, which is drawn in any case.\<close>

definition decide :: "'w handlers \<Rightarrow> address \<Rightarrow> connect_token \<Rightarrow> 'w connection_server \<Rightarrow> admit_decision \<times> 'w connection_server" where
  "decide h sender token s =
     (case next_client_id s of (fresh, s) \<Rightarrow>
        case on_admit h of
          None \<Rightarrow> (\<lparr>ad_admit = True, ad_reason = kBadToken, ad_client_id = fresh\<rparr>, s)
        | Some admit \<Rightarrow> case admit sender token (cs_service s) of (d, w) \<Rightarrow> (d, s\<lparr>cs_service := w\<rparr>))"

definition server_disconnect :: "'w handlers \<Rightarrow> address \<Rightarrow> string \<Rightarrow> 'w connection_server \<Rightarrow> 'w connection_server" where
  "server_disconnect h a reason s =
     (case map_of (cs_connections s) a of
        None \<Rightarrow> s
      | Some c \<Rightarrow>
          let packet = disconnect_packet (cn_salt c) 32; send = server_send (cn_address c) packet
          in remove_connection h (cn_address c) reason (send (send (send s))))"

definition find_client :: "u32 \<Rightarrow> 'w connection_server \<Rightarrow> connection option" where
  "find_client client_id s = Option.bind (map_of (cs_by_client s) client_id) (map_of (cs_connections s))"

text \<open>The connect handler, with the client that it closes on the way.\<close>

definition close_client :: "'w handlers \<Rightarrow> u32 \<times> string \<Rightarrow> 'w connection_server \<Rightarrow> 'w connection_server" where
  "close_client h r s = (case find_client (fst r) s of None \<Rightarrow> s | Some c \<Rightarrow> server_disconnect h (cn_address c) (snd r) s)"

definition greet :: "'w handlers \<Rightarrow> connection \<Rightarrow> 'w connection_server \<Rightarrow> 'w connection_server" where
  "greet h c s =
     (case on_replaced h c (cs_service s) of (replaced, w) \<Rightarrow>
        let s = s\<lparr>cs_service := w\<rparr>;
            s = (case replaced of None \<Rightarrow> s | Some r \<Rightarrow> close_client h r s)
        in case on_connect h c (cs_service s) of (c', w) \<Rightarrow>
             send_accepted c' (s\<lparr>cs_connections := AList.update (cn_address c) c' (cs_connections s), cs_service := w\<rparr>))"

definition establish :: "'w handlers \<Rightarrow> address \<Rightarrow> u64 \<Rightarrow> connect_token \<Rightarrow> u32 \<Rightarrow> u64 \<Rightarrow> 'w connection_server \<Rightarrow> 'w connection_server" where
  "establish h sender salt token decided now s =
     (let (client_id, s) = (if decided \<noteq> 0 then (decided, s) else next_client_id s);
          c = \<lparr>cn_client_id = client_id, cn_address = sender, cn_salt = salt, cn_token = token, cn_entity = kInvalidEntity,
               cn_last_receive_us = now, cn_last_send_us = now, cn_connected_at_us = now, cn_disconnecting = False,
               cn_reliability = mk_endpoint\<rparr>
      in greet h c (s\<lparr>cs_pending := AList.delete sender (cs_pending s),
           cs_connections := AList.update sender c (cs_connections s),
           cs_by_client := AList.update client_id sender (cs_by_client s),
           cs_handshakes_completed := cs_handshakes_completed s + 1\<rparr>))"

definition handle_challenge_response :: "'w handlers \<Rightarrow> address \<Rightarrow> u8 list \<Rightarrow> u64 \<Rightarrow> 'w connection_server \<Rightarrow> 'w connection_server" where
  "handle_challenge_response h sender body now s =
     (case read_salt body of
        None \<Rightarrow> count_invalid s
      | Some xor_salt \<Rightarrow>
          case map_of (cs_connections s) sender of
            Some c \<Rightarrow> if cn_salt c = xor_salt then send_accepted c s else s
          | None \<Rightarrow>
              case map_of (cs_pending s) sender of
                None \<Rightarrow> count_invalid s
              | Some pending \<Rightarrow>
                  if ph_client_salt pending XOR ph_server_salt pending \<noteq> xor_salt then count_invalid s
                  else case decide h sender (ph_token pending) s of (decision, s) \<Rightarrow>
                    if \<not> ad_admit decision
                    then (send_denied sender (ad_reason decision) s)\<lparr>cs_pending := AList.delete sender (cs_pending s),
                           cs_handshakes_denied := cs_handshakes_denied s + 1\<rparr>
                    else establish h sender xor_salt (ph_token pending) (ad_client_id decision) now s)"

text \<open>Handing a payload and the messages of a packet to the service.\<close>

definition dispatch :: "'w handlers \<Rightarrow> u8 list option \<Rightarrow> reliable_message list \<Rightarrow> connection \<Rightarrow> 'w \<Rightarrow> connection \<times> 'w" where
  "dispatch h payload messages c w =
     foldl (\<lambda>(c, w) m. on_message h c m w) (case payload of Some data \<Rightarrow> on_payload h c data w | None \<Rightarrow> (c, w)) messages"

definition handle_payload :: "'w handlers \<Rightarrow> address \<Rightarrow> u8 list \<Rightarrow> u64 \<Rightarrow> 'w connection_server \<Rightarrow> 'w connection_server" where
  "handle_payload h sender body now s =
     (case map_of (cs_connections s) sender of
        None \<Rightarrow> count_invalid s
      | Some c \<Rightarrow>
          if read_salt body \<noteq> Some (cn_salt c) then count_invalid s
          else case read_packet (drop 8 body) (word_of_nat (length body) - 8) now (cn_reliability c) of
            (None, ep) \<Rightarrow> s\<lparr>cs_connections := AList.update sender (c\<lparr>cn_reliability := ep\<rparr>) (cs_connections s)\<rparr>
          | (Some (payload, messages), ep) \<Rightarrow>
              case dispatch h payload messages (c\<lparr>cn_reliability := ep, cn_last_receive_us := now\<rparr>) (cs_service s) of
                (c, w) \<Rightarrow> s\<lparr>cs_connections := AList.update sender c (cs_connections s), cs_service := w\<rparr>)"

text \<open>The salt of a disconnect is read without a look at the failure flag; a failed read gives 0.\<close>

definition read_salt_unchecked :: "u8 list \<Rightarrow> u64" where
  "read_salt_unchecked body = fst (run_state read_u64 (mk_reader body (word_of_nat (length body))))"

definition handle_disconnect :: "'w handlers \<Rightarrow> address \<Rightarrow> u8 list \<Rightarrow> 'w connection_server \<Rightarrow> 'w connection_server" where
  "handle_disconnect h sender body s =
     (case map_of (cs_connections s) sender of
        None \<Rightarrow> s
      | Some c \<Rightarrow> if cn_salt c = read_salt_unchecked body then remove_connection h sender ''peer disconnected'' s else s)"

definition handle_datagram :: "'w handlers \<Rightarrow> datagram \<Rightarrow> u64 \<Rightarrow> 'w connection_server \<Rightarrow> 'w connection_server" where
  "handle_datagram h d now s =
     (let sender = fst d; body = drop (unat kHeaderBytes) (snd d)
      in case read_header (snd d) of
           Some kConnectionRequest \<Rightarrow> handle_connection_request sender body now s
         | Some kChallengeResponse \<Rightarrow> handle_challenge_response h sender body now s
         | Some kPayload \<Rightarrow> handle_payload h sender body now s
         | Some kDisconnect \<Rightarrow> handle_disconnect h sender body s
         | _ \<Rightarrow> count_invalid s)"

definition expire_pending :: "u64 \<Rightarrow> 'w connection_server \<Rightarrow> 'w connection_server" where
  "expire_pending now s = s\<lparr>cs_pending := filter (\<lambda>(a, p). \<not> now - ph_started_us p > kHandshakeTimeoutUs) (cs_pending s)\<rparr>"

text \<open>The loop over the datagrams of the socket; it ends early at an empty datagram.\<close>

fun drain :: "nat \<Rightarrow> 'w handlers \<Rightarrow> u64 \<Rightarrow> u32 \<Rightarrow> 'w connection_server \<Rightarrow> u32 \<times> 'w connection_server" where
  "drain 0 h now processed s = (processed, s)"
| "drain (Suc n) h now processed s =
     (case socket_receive kMaxDatagramSize (cs_socket s) of
        (Some d, sock) \<Rightarrow>
          if snd d = [] then (processed, s\<lparr>cs_socket := sock\<rparr>)
          else drain n h now (processed + 1) (handle_datagram h d now (s\<lparr>cs_socket := sock\<rparr>))
      | (None, sock) \<Rightarrow> (processed, s\<lparr>cs_socket := sock\<rparr>))"

text \<open>One more step than there are datagrams is enough for the loop.\<close>

definition server_receive :: "'w handlers \<Rightarrow> u64 \<Rightarrow> 'w connection_server \<Rightarrow> u32 \<times> 'w connection_server" where
  "server_receive h now s =
     (case drain (Suc (length (incoming (cs_socket s)))) h now 0 s of (processed, s) \<Rightarrow> (processed, expire_pending now s))"

definition send_payload :: "address \<Rightarrow> u8 list \<Rightarrow> u64 \<Rightarrow> 'w connection_server \<Rightarrow> bool \<times> 'w connection_server" where
  "send_payload a data now s =
     (case map_of (cs_connections s) a of
        None \<Rightarrow> (False, s)
      | Some c \<Rightarrow>
          case payload_packet (cn_salt c) data now (cn_reliability c) of
            (None, ep) \<Rightarrow> (False, s\<lparr>cs_connections := AList.update a (c\<lparr>cn_reliability := ep\<rparr>) (cs_connections s)\<rparr>)
          | (Some packet, ep) \<Rightarrow>
              case send_batched (cn_address c) packet (cs_socket s) of
                (sent, sock) \<Rightarrow> (sent, s\<lparr>cs_socket := sock,
                  cs_connections := AList.update a (c\<lparr>cn_reliability := ep, cn_last_send_us := now\<rparr>) (cs_connections s)\<rparr>))"

definition flush_connection :: "u64 \<Rightarrow> address \<Rightarrow> 'w connection_server \<Rightarrow> 'w connection_server" where
  "flush_connection now a s =
     (case map_of (cs_connections s) a of
        None \<Rightarrow> s
      | Some c \<Rightarrow>
          let c = c\<lparr>cn_reliability := ep_update now (cn_reliability c)\<rparr>;
              s = s\<lparr>cs_connections := AList.update a c (cs_connections s)\<rparr>
          in if now - cn_last_send_us c \<ge> sc_keepalive_us (cs_config s) \<or> ep_unacked (cn_reliability c) \<noteq> []
             then snd (send_payload a [] now s) else s)"

definition server_flush :: "u64 \<Rightarrow> 'w connection_server \<Rightarrow> 'w connection_server" where
  "server_flush now s =
     (let s = foldl (\<lambda>s a. flush_connection now a s) s (map fst (cs_connections s))
      in s\<lparr>cs_socket := flush_sends (cs_socket s)\<rparr>)"

definition timeout_connections :: "'w handlers \<Rightarrow> u64 \<Rightarrow> 'w connection_server \<Rightarrow> 'w connection_server" where
  "timeout_connections h now s =
     foldl (\<lambda>s a. remove_connection h a ''timed out'' s) s
       (map fst (filter (\<lambda>(a, c). now - cn_last_receive_us c > sc_timeout_us (cs_config s)) (cs_connections s)))"

definition connection_count :: "'w connection_server \<Rightarrow> u32" where
  "connection_count s = word_of_nat (length (cs_by_client s))"


section \<open>The client\<close>

datatype client_phase = kDisconnected | kSendingRequest | kSendingResponse | kConnected | kDenied | kTimedOut

record client_config =
  cc_server :: address
  cc_connect_token :: connect_token
  cc_timeout_us :: u64
  cc_retry_interval_us :: u64
  cc_keepalive_us :: u64
  cc_bind :: address

record 'w client_connection =
  cl_config :: client_config
  cl_socket :: udp_socket
  cl_state :: client_phase
  cl_deny_reason :: u8
  cl_client_salt :: u64
  cl_server_salt :: u64
  cl_last_send_us :: u64
  cl_last_receive_us :: u64
  cl_connect_started_us :: u64
  cl_client_id :: u32
  cl_entity :: u32
  cl_reliability :: endpoint
  cl_random :: random_source
  cl_service :: 'w

record 'w client_handlers =
  on_client_payload :: "u8 list \<Rightarrow> 'w \<Rightarrow> 'w"
  on_client_message :: "reliable_message \<Rightarrow> 'w \<Rightarrow> 'w"

definition session_salt :: "'w client_connection \<Rightarrow> u64" where
  "session_salt c = cl_client_salt c XOR cl_server_salt c"

definition client_send :: "u8 list \<Rightarrow> 'w client_connection \<Rightarrow> 'w client_connection" where
  "client_send data c = c\<lparr>cl_socket := snd (socket_send (cc_server (cl_config c)) data (cl_socket c))\<rparr>"

definition begin_handshake :: "u64 \<Rightarrow> 'w client_connection \<Rightarrow> 'w client_connection" where
  "begin_handshake now c =
     (case generate_salt (cl_random c) of (salt, random) \<Rightarrow>
        c\<lparr>cl_client_salt := salt, cl_random := random, cl_server_salt := 0, cl_state := kSendingRequest, cl_last_send_us := 0,
          cl_last_receive_us := now, cl_connect_started_us := now, cl_reliability := ep_reset (cl_reliability c)\<rparr>)"

definition client_start :: "bool \<Rightarrow> client_config \<Rightarrow> u64 \<Rightarrow> 'w client_connection \<Rightarrow> bool \<times> 'w client_connection" where
  "client_start opened config now c =
     (case (if us_open (cl_socket c) then (True, cl_socket c) else socket_open opened (cl_socket c)) of
        (success, sock) \<Rightarrow>
          let c = c\<lparr>cl_config := config, cl_socket := sock\<rparr> in (success, if success then begin_handshake now c else c))"

definition client_redirect :: "address \<Rightarrow> connect_token \<Rightarrow> u64 \<Rightarrow> 'w client_connection \<Rightarrow> 'w client_connection" where
  "client_redirect server token now c =
     begin_handshake now (c\<lparr>cl_config := (cl_config c)\<lparr>cc_server := server, cc_connect_token := token\<rparr>\<rparr>)"

definition send_connection_request :: "u64 \<Rightarrow> 'w client_connection \<Rightarrow> 'w client_connection" where
  "send_connection_request now c =
     (client_send (request_packet (cl_client_salt c) (cc_connect_token (cl_config c))) c)\<lparr>cl_last_send_us := now\<rparr>"

definition send_challenge_response :: "u64 \<Rightarrow> 'w client_connection \<Rightarrow> 'w client_connection" where
  "send_challenge_response now c = (client_send (response_packet (session_salt c)) c)\<lparr>cl_last_send_us := now\<rparr>"

definition client_disconnect :: "'w client_connection \<Rightarrow> 'w client_connection" where
  "client_disconnect c =
     (if cl_state c \<noteq> kConnected then c
      else let send = client_send (disconnect_packet (session_salt c) 32)
           in (send (send (send c)))\<lparr>cl_state := kDisconnected\<rparr>)"

definition client_stop :: "'w client_connection \<Rightarrow> 'w client_connection" where
  "client_stop c =
     (let c = client_disconnect c in c\<lparr>cl_socket := socket_close (cl_socket c), cl_state := kDisconnected\<rparr>)"

definition client_send_payload :: "u8 list \<Rightarrow> u64 \<Rightarrow> 'w client_connection \<Rightarrow> bool \<times> 'w client_connection" where
  "client_send_payload data now c =
     (if cl_state c \<noteq> kConnected then (False, c)
      else case payload_packet (session_salt c) data now (cl_reliability c) of
        (None, ep) \<Rightarrow> (False, c\<lparr>cl_reliability := ep\<rparr>)
      | (Some packet, ep) \<Rightarrow>
          case socket_send (cc_server (cl_config c)) packet (cl_socket c) of
            (sent, sock) \<Rightarrow> (sent, c\<lparr>cl_socket := sock, cl_reliability := ep, cl_last_send_us := now\<rparr>))"

definition client_queue_reliable :: "u8 \<Rightarrow> u8 list \<Rightarrow> 'w client_connection \<Rightarrow> 'w client_connection" where
  "client_queue_reliable channel data c = c\<lparr>cl_reliability := queue_reliable channel data (cl_reliability c)\<rparr>"

definition client_dispatch :: "'w client_handlers \<Rightarrow> u8 list option \<Rightarrow> reliable_message list \<Rightarrow> 'w \<Rightarrow> 'w" where
  "client_dispatch h payload messages w =
     foldl (\<lambda>w m. on_client_message h m w) (case payload of Some data \<Rightarrow> on_client_payload h data w | None \<Rightarrow> w) messages"

definition client_payload :: "'w client_handlers \<Rightarrow> u8 list \<Rightarrow> u64 \<Rightarrow> 'w client_connection \<Rightarrow> 'w client_connection" where
  "client_payload h body now c =
     (if read_salt body \<noteq> Some (session_salt c) \<or> cl_state c \<noteq> kConnected then c
      else case read_packet (drop 8 body) (word_of_nat (length body) - 8) now (cl_reliability c) of
        (None, ep) \<Rightarrow> c\<lparr>cl_reliability := ep\<rparr>
      | (Some (payload, messages), ep) \<Rightarrow>
          c\<lparr>cl_reliability := ep, cl_last_receive_us := now, cl_service := client_dispatch h payload messages (cl_service c)\<rparr>)"

definition process_datagram :: "'w client_handlers \<Rightarrow> u8 list \<Rightarrow> u64 \<Rightarrow> 'w client_connection \<Rightarrow> 'w client_connection" where
  "process_datagram h data now c =
     (let body = drop (unat kHeaderBytes) data
      in case read_header data of
           Some kChallenge \<Rightarrow>
             (case read_challenge body of
                Some (echoed, server_salt) \<Rightarrow>
                  if echoed \<noteq> cl_client_salt c \<or> cl_state c \<noteq> kSendingRequest then c
                  else send_challenge_response now (c\<lparr>cl_server_salt := server_salt, cl_state := kSendingResponse, cl_last_receive_us := now\<rparr>)
              | None \<Rightarrow> c)
         | Some kConnectionAccepted \<Rightarrow>
             (case read_accepted body of
                Some (salt, client_id, entity) \<Rightarrow>
                  if salt \<noteq> session_salt c then c
                  else c\<lparr>cl_state := (if cl_state c = kSendingResponse then kConnected else cl_state c), cl_client_id := client_id,
                         cl_entity := entity, cl_last_receive_us := now\<rparr>
              | None \<Rightarrow> c)
         | Some kConnectionDenied \<Rightarrow>
             (case read_denied body of Some reason \<Rightarrow> c\<lparr>cl_deny_reason := reason, cl_state := kDenied\<rparr> | None \<Rightarrow> c)
         | Some kDisconnect \<Rightarrow> (if read_salt body = Some (session_salt c) then c\<lparr>cl_state := kDisconnected\<rparr> else c)
         | Some kPayload \<Rightarrow> client_payload h body now c
         | _ \<Rightarrow> c)"

fun client_drain :: "nat \<Rightarrow> 'w client_handlers \<Rightarrow> u64 \<Rightarrow> 'w client_connection \<Rightarrow> 'w client_connection" where
  "client_drain 0 h now c = c"
| "client_drain (Suc n) h now c =
     (case socket_receive kMaxDatagramSize (cl_socket c) of
        (Some d, sock) \<Rightarrow>
          if snd d = [] then c\<lparr>cl_socket := sock\<rparr>
          else client_drain n h now
            (if fst d \<noteq> cc_server (cl_config c) then c\<lparr>cl_socket := sock\<rparr> else process_datagram h (snd d) now (c\<lparr>cl_socket := sock\<rparr>))
      | (None, sock) \<Rightarrow> c\<lparr>cl_socket := sock\<rparr>)"

definition client_tick :: "u64 \<Rightarrow> 'w client_connection \<Rightarrow> 'w client_connection" where
  "client_tick now c =
     (let idle = now - cl_last_send_us c
      in case cl_state c of
           kSendingRequest \<Rightarrow> if idle \<ge> cc_retry_interval_us (cl_config c) then send_connection_request now c else c
         | kSendingResponse \<Rightarrow> if idle \<ge> cc_retry_interval_us (cl_config c) then send_challenge_response now c else c
         | kConnected \<Rightarrow>
             if idle \<ge> cc_keepalive_us (cl_config c) \<or> ep_unacked (cl_reliability c) \<noteq> [] then snd (client_send_payload [] now c) else c
         | _ \<Rightarrow> c)"

definition client_update :: "'w client_handlers \<Rightarrow> u64 \<Rightarrow> 'w client_connection \<Rightarrow> 'w client_connection" where
  "client_update h now c =
     (if cl_state c = kDisconnected \<or> cl_state c = kDenied \<or> cl_state c = kTimedOut then c
      else let c = client_drain (Suc (length (incoming (cl_socket c)))) h now c;
               c = client_tick now (c\<lparr>cl_reliability := ep_update now (cl_reliability c)\<rparr>)
           in if now - cl_last_receive_us c > cc_timeout_us (cl_config c) then c\<lparr>cl_state := kTimedOut\<rparr> else c)"

end
