(* ===== verification/Connection_Invariant.thy ===== *)
theory Connection_Invariant
  imports Connection
begin

text \<open>
  The tables of the connection server under any traffic: what every operation keeps, that a datagram touches only the
  entries of its sender, and that a connection appears only at the end of a handshake.
\<close>

section \<open>Handlers and identities\<close>

text \<open>What a service may not change of a connection: it owns the entity and the queue of messages, not the identity.\<close>

definition same_identity :: "connection \<Rightarrow> connection \<Rightarrow> bool" where
  "same_identity c d \<longleftrightarrow> cn_address c = cn_address d \<and> cn_client_id c = cn_client_id d \<and> cn_salt c = cn_salt d \<and> cn_token c = cn_token d"

definition handlers_ok :: "'w handlers \<Rightarrow> bool" where
  "handlers_ok h \<longleftrightarrow> (\<forall>c w. same_identity c (fst (on_connect h c w))) \<and> (\<forall>c x w. same_identity c (fst (on_payload h c x w))) \<and>
     (\<forall>c m w. same_identity c (fst (on_message h c m w))) \<and> (\<forall>c w r. fst (on_replaced h c w) = Some r \<longrightarrow> fst r \<noteq> cn_client_id c)"

text \<open>The clients that a new connection may replace, and a service that replaces none.\<close>

definition replaces :: "'w handlers \<Rightarrow> u32 \<Rightarrow> bool" where
  "replaces h i \<longleftrightarrow> (\<exists>c w reason. fst (on_replaced h c w) = Some (i, reason))"

definition keeps_clients :: "'w handlers \<Rightarrow> bool" where
  "keeps_clients h \<longleftrightarrow> (\<forall>c w. fst (on_replaced h c w) = None)"

definition plain_service :: "'w handlers \<Rightarrow> bool" where
  "plain_service h \<longleftrightarrow> handlers_ok h \<and> keeps_clients h"

text \<open>In one state of the service: a connection whose number is \<open>k\<close>, or any number if that is 0, replaces no client.\<close>

definition replaces_none :: "'w handlers \<Rightarrow> u32 \<Rightarrow> 'w \<Rightarrow> bool" where
  "replaces_none h k w \<longleftrightarrow> (\<forall>c. (k \<noteq> 0 \<longrightarrow> cn_client_id c = k) \<longrightarrow> fst (on_replaced h c w) = None)"

lemma plain_serviceD: "plain_service h \<Longrightarrow> handlers_ok h" "plain_service h \<Longrightarrow> keeps_clients h"
  by (simp_all add: plain_service_def)

lemma plain_replaces_none: "plain_service h \<Longrightarrow> replaces_none h k w"
  by (simp add: plain_service_def keeps_clients_def replaces_none_def)

lemma same_identity_refl [simp]: "same_identity c c"
  by (simp add: same_identity_def)

lemma same_identity_trans: "same_identity a b \<Longrightarrow> same_identity b c \<Longrightarrow> same_identity a c"
  by (simp add: same_identity_def)

lemma same_identity_fields [simp]:
  "same_identity c (d\<lparr>cn_reliability := ep\<rparr>) = same_identity c d" "same_identity c (d\<lparr>cn_last_receive_us := t\<rparr>) = same_identity c d"
  "same_identity c (d\<lparr>cn_last_send_us := t\<rparr>) = same_identity c d" "same_identity (c\<lparr>cn_reliability := ep\<rparr>) d = same_identity c d"
  "same_identity (c\<lparr>cn_last_receive_us := t\<rparr>) d = same_identity c d"
  by (simp_all add: same_identity_def)

lemma dispatch_identity:
  assumes "handlers_ok h"
  shows "same_identity c (fst (dispatch h payload messages c w))"
proof -
  have step: "same_identity c (fst p) \<Longrightarrow> same_identity c (fst (foldl (\<lambda>(c, w) m. on_message h c m w) p messages))" for p
  proof (induction messages arbitrary: p)
    case (Cons m ms)
    have "same_identity (fst p) (fst (on_message h (fst p) m (snd p)))" using assms by (simp add: handlers_ok_def)
    with Cons.prems have "same_identity c (fst (on_message h (fst p) m (snd p)))" by (rule same_identity_trans)
    from Cons.IH [OF this] show ?case by (simp add: case_prod_beta)
  qed simp
  show ?thesis
    unfolding dispatch_def using assms by (intro step) (auto simp: handlers_ok_def split: option.split)
qed


section \<open>The invariant of the tables\<close>

text \<open>On the tables as maps: connections and pending handshakes by address, and the addresses by client.\<close>

definition tables_ok :: "(address \<rightharpoonup> connection) \<Rightarrow> (address \<rightharpoonup> pending_handshake) \<Rightarrow> (u32 \<rightharpoonup> address) \<Rightarrow> bool" where
  "tables_ok conns pend clients \<longleftrightarrow>
     (\<forall>a c. conns a = Some c \<longrightarrow> cn_address c = a) \<and>
     (\<forall>i a. clients i = Some a \<longrightarrow> (\<exists>c. conns a = Some c \<and> cn_client_id c = i)) \<and>
     (\<forall>a p. pend a = Some p \<longrightarrow> ph_client_salt p \<noteq> 0 \<and> ph_server_salt p \<noteq> 0 \<and> conns a = None)"

lemma tables_okI:
  "(\<And>a c. conns a = Some c \<Longrightarrow> cn_address c = a) \<Longrightarrow>
   (\<And>i a. clients i = Some a \<Longrightarrow> \<exists>c. conns a = Some c \<and> cn_client_id c = i) \<Longrightarrow>
   (\<And>a p. pend a = Some p \<Longrightarrow> ph_client_salt p \<noteq> 0 \<and> ph_server_salt p \<noteq> 0 \<and> conns a = None) \<Longrightarrow>
   tables_ok conns pend clients"
  by (simp add: tables_ok_def)

lemma tables_okD:
  assumes "tables_ok conns pend clients"
  shows "conns a = Some c \<Longrightarrow> cn_address c = a"
    and "clients i = Some a \<Longrightarrow> \<exists>c. conns a = Some c \<and> cn_client_id c = i"
    and "pend a = Some p \<Longrightarrow> ph_client_salt p \<noteq> 0 \<and> ph_server_salt p \<noteq> 0 \<and> conns a = None"
  using assms by (simp_all add: tables_ok_def)

lemma tables_touch:
  assumes ok: "tables_ok conns pend clients" and c: "conns a = Some c" and same: "same_identity c d"
  shows "tables_ok (conns(a \<mapsto> d)) pend clients"
proof (rule tables_okI)
  show "cn_address e = b" if "(conns(a \<mapsto> d)) b = Some e" for b e
    using that tables_okD(1) [OF ok] c same by (auto simp: same_identity_def split: if_splits)
  show "\<exists>e. (conns(a \<mapsto> d)) b = Some e \<and> cn_client_id e = i" if "clients i = Some b" for i b
    using tables_okD(2) [OF ok that] c same by (cases "b = a") (auto simp: same_identity_def)
  show "ph_client_salt p \<noteq> 0 \<and> ph_server_salt p \<noteq> 0 \<and> (conns(a \<mapsto> d)) b = None" if "pend b = Some p" for b p
    using tables_okD(3) [OF ok that] c by auto
qed

lemma tables_remove:
  assumes ok: "tables_ok conns pend clients" and c: "conns a = Some c"
  shows "tables_ok (conns(a := None)) pend (clients(cn_client_id c := None))"
proof (rule tables_okI)
  show "cn_address e = b" if "(conns(a := None)) b = Some e" for b e
    using that tables_okD(1) [OF ok] by (auto split: if_splits)
  show "\<exists>e. (conns(a := None)) b = Some e \<and> cn_client_id e = i" if "(clients(cn_client_id c := None)) i = Some b" for i b
  proof -
    have i: "i \<noteq> cn_client_id c" "clients i = Some b" using that by (auto split: if_splits)
    obtain e where "conns b = Some e" "cn_client_id e = i" using tables_okD(2) [OF ok i(2)] by blast
    with i(1) c show ?thesis by (cases "b = a") auto
  qed
  show "ph_client_salt p \<noteq> 0 \<and> ph_server_salt p \<noteq> 0 \<and> (conns(a := None)) b = None" if "pend b = Some p" for b p
    using tables_okD(3) [OF ok that] by auto
qed

lemma tables_pending:
  "tables_ok conns pend clients \<Longrightarrow> conns a = None \<Longrightarrow> ph_client_salt p \<noteq> 0 \<Longrightarrow> ph_server_salt p \<noteq> 0 \<Longrightarrow>
   tables_ok conns (pend(a \<mapsto> p)) clients"
  unfolding tables_ok_def by auto

lemma tables_forget: "tables_ok conns pend clients \<Longrightarrow> tables_ok conns (pend(a := None)) clients"
  unfolding tables_ok_def by auto

lemma tables_establish:
  assumes ok: "tables_ok conns pend clients" and a: "conns a = None" and c: "cn_address c = a"
  shows "tables_ok (conns(a \<mapsto> c)) (pend(a := None)) (clients(cn_client_id c \<mapsto> a))"
proof (rule tables_okI)
  show "cn_address e = b" if "(conns(a \<mapsto> c)) b = Some e" for b e
    using that tables_okD(1) [OF ok] c by (auto split: if_splits)
  show "\<exists>e. (conns(a \<mapsto> c)) b = Some e \<and> cn_client_id e = i" if "(clients(cn_client_id c \<mapsto> a)) i = Some b" for i b
    using that tables_okD(2) [OF ok, of i b] a by (cases "b = a") (auto split: if_splits)
  show "ph_client_salt p \<noteq> 0 \<and> ph_server_salt p \<noteq> 0 \<and> (conns(a \<mapsto> c)) b = None" if "(pend(a := None)) b = Some p" for b p
    using that tables_okD(3) [OF ok, of b p] by (auto split: if_splits)
qed

definition server_ok :: "'w connection_server \<Rightarrow> bool" where
  "server_ok s \<longleftrightarrow>
     distinct (map fst (cs_connections s)) \<and> distinct (map fst (cs_pending s)) \<and> distinct (map fst (cs_by_client s)) \<and>
     tables_ok (map_of (cs_connections s)) (map_of (cs_pending s)) (map_of (cs_by_client s))"

lemma server_ok_cong:
  "cs_connections s' = cs_connections s \<Longrightarrow> cs_pending s' = cs_pending s \<Longrightarrow> cs_by_client s' = cs_by_client s \<Longrightarrow>
   server_ok s \<Longrightarrow> server_ok s'"
  by (simp add: server_ok_def)

lemma send_tables [simp]:
  "cs_connections (server_send to data s) = cs_connections s" "cs_pending (server_send to data s) = cs_pending s"
  "cs_by_client (server_send to data s) = cs_by_client s" "cs_config (server_send to data s) = cs_config s"
  "cs_service (server_send to data s) = cs_service s" "cs_random (server_send to data s) = cs_random s"
  "cs_socket (server_send to data s) = snd (socket_send to data (cs_socket s))"
  by (simp_all add: server_send_def)

lemma count_invalid_tables [simp]:
  "cs_connections (count_invalid s) = cs_connections s" "cs_pending (count_invalid s) = cs_pending s"
  "cs_by_client (count_invalid s) = cs_by_client s" "cs_socket (count_invalid s) = cs_socket s"
  by (simp_all add: count_invalid_def)

lemmas send_defs = send_accepted_def send_denied_def send_challenge_def

lemma server_ok_touch:
  assumes "server_ok s" and "map_of (cs_connections s) a = Some c" and "same_identity c d"
    and "cs_connections s' = AList.update a d (cs_connections s)" "cs_pending s' = cs_pending s" "cs_by_client s' = cs_by_client s"
  shows "server_ok s'"
  using assms(1,4-) tables_touch [where conns = "map_of (cs_connections s)", OF _ assms(2,3)]
  by (simp add: server_ok_def update_conv' distinct_update)

lemma remove_ok: "server_ok s \<Longrightarrow> server_ok (remove_connection h a reason s)"
  by (auto simp: remove_connection_def server_ok_def delete_conv' distinct_delete simp del: map_of_eq_Some_iff
      intro!: tables_remove split: option.split)

lemma generate_salt_nonzero: "generate_salt g = (v, g') \<Longrightarrow> v \<noteq> 0"
  by (auto simp: generate_salt_def Let_def split: if_splits)

lemma read_request_nonzero: "read_request body = Some (v, t) \<Longrightarrow> v \<noteq> 0"
  by (auto simp: read_request_def split: prod.splits if_splits)

text \<open>What a request can do: answer and count, or record a challenge.\<close>

lemma request_cases:
  obtains (answered) "cs_connections (handle_connection_request a body now s) = cs_connections s"
      and "cs_pending (handle_connection_request a body now s) = cs_pending s"
      and "cs_by_client (handle_connection_request a body now s) = cs_by_client s"
  | (challenged) p v t where "read_request body = Some (v, t)" and "map_of (cs_connections s) a = None" and "ph_client_salt p = v"
      and "ph_server_salt p \<noteq> 0 \<or> (\<exists>q. (map_of (cs_pending s) a = Some q \<or> map_of (cs_pending s) a = None \<and> q = mk_pending) \<and>
             ph_client_salt q = v \<and> ph_server_salt p = ph_server_salt q)"
      and "cs_connections (handle_connection_request a body now s) = cs_connections s"
      and "cs_pending (handle_connection_request a body now s) = AList.update a p (cs_pending s)"
      and "cs_by_client (handle_connection_request a body now s) = cs_by_client s"
proof (cases "word_of_nat (length body) < 8 + kConnectTokenBytes + kConnectionRequestPadding \<or> read_request body = None \<or>
    map_of (cs_connections s) a \<noteq> None \<or> unat (sc_max_connections (cs_config s)) \<le> length (cs_connections s)")
  case True
  then show thesis
    by (intro answered) (auto simp: handle_connection_request_def send_defs split: option.split)
next
  case False
  then obtain v t where v: "read_request body = Some (v, t)" by auto
  let ?q = "case map_of (cs_pending s) a of Some p \<Rightarrow> p | None \<Rightarrow> mk_pending"
  let ?p = "(if ph_client_salt ?q \<noteq> v
     then ?q\<lparr>ph_client_salt := v, ph_server_salt := fst (generate_salt (cs_random s)), ph_started_us := now\<rparr> else ?q)\<lparr>ph_token := t\<rparr>"
  have run: "handle_connection_request a body now s = send_challenge a (ph_client_salt ?p) (ph_server_salt ?p)
      (s\<lparr>cs_random := (if ph_client_salt ?q \<noteq> v then snd (generate_salt (cs_random s)) else cs_random s),
         cs_pending := AList.update a ?p (cs_pending s)\<rparr>)"
    unfolding handle_connection_request_def using False v by (simp add: Let_def case_prod_beta)
  show thesis
    by (rule challenged [OF v, of ?p]) (use False generate_salt_nonzero [OF surjective_pairing] in
        \<open>auto simp: run send_defs split: option.splits\<close>)
qed

lemma request_ok:
  assumes ok: "server_ok s"
  shows "server_ok (handle_connection_request a body now s)"
proof (cases rule: request_cases [of a body now s])
  case answered
  then show ?thesis using ok by (rule server_ok_cong)
next
  case (challenged p v t)
  have v: "v \<noteq> 0" using challenged(1) by (rule read_request_nonzero)
  moreover have "ph_server_salt p \<noteq> 0"
    using challenged(4) ok v by (auto simp: server_ok_def tables_ok_def mk_pending_def simp del: map_of_eq_Some_iff)
  ultimately show ?thesis
    using ok tables_pending [of "map_of (cs_connections s)" "map_of (cs_pending s)" "map_of (cs_by_client s)" a p] challenged(2,3,5-)
    by (simp add: server_ok_def update_conv' distinct_update)
qed

lemma decide_tables:
  "decide h a token s = (d, s') \<Longrightarrow>
   cs_connections s' = cs_connections s \<and> cs_pending s' = cs_pending s \<and> cs_by_client s' = cs_by_client s \<and> cs_socket s' = cs_socket s"
  by (auto simp: decide_def next_client_id_def split: option.splits prod.splits)

lemma send_ok: "server_ok s \<Longrightarrow> server_ok (server_send to data s)"
  by (rule server_ok_cong) simp_all

lemma server_disconnect_ok: "server_ok s \<Longrightarrow> server_ok (server_disconnect h a reason s)"
  by (auto simp: server_disconnect_def Let_def intro!: remove_ok send_ok split: option.split)

text \<open>Closing a replaced client removes its entries and no others.\<close>

lemma close_client_ok: "server_ok s \<Longrightarrow> server_ok (close_client h r s)"
  by (auto simp: close_client_def server_disconnect_ok split: option.split)

lemma close_client_pending [simp]: "cs_pending (close_client h r s) = cs_pending s"
  by (simp add: close_client_def server_disconnect_def remove_connection_def Let_def split: option.split)

lemma close_client_entries:
  assumes "server_ok s"
  shows "map_of (cs_connections (close_client h r s)) b = map_of (cs_connections s) b \<or>
    map_of (cs_connections (close_client h r s)) b = None \<and> (\<exists>e. map_of (cs_connections s) b = Some e \<and> cn_client_id e = fst r)"
proof (cases "find_client (fst r) s")
  case None
  then show ?thesis by (simp add: close_client_def)
next
  case (Some e)
  then obtain x where x: "map_of (cs_by_client s) (fst r) = Some x" "map_of (cs_connections s) x = Some e"
    by (auto simp: find_client_def simp del: map_of_eq_Some_iff split: bind_splits)
  have ok: "tables_ok (map_of (cs_connections s)) (map_of (cs_pending s)) (map_of (cs_by_client s))" using assms by (simp add: server_ok_def)
  have "cn_address e = x" "cn_client_id e = fst r" using tables_okD(1) [OF ok x(2)] tables_okD(2) [OF ok x(1)] x(2) by auto
  then show ?thesis
    using Some x(2) by (simp add: close_client_def server_disconnect_def remove_connection_def Let_def delete_conv' del: map_of_eq_Some_iff)
qed

text \<open>The connect handler keeps the tables in order, the identity of the new connection, and all entries but replaced ones.\<close>

lemma greet_run:
  assumes "handlers_ok h"
  obtains d w s1 where "greet h c s = send_accepted d (s1\<lparr>cs_connections := AList.update (cn_address c) d (cs_connections s1), cs_service := w\<rparr>)"
    and "same_identity c d"
    and "fst (on_replaced h c (cs_service s)) = None \<Longrightarrow> cs_connections s1 = cs_connections s \<and> cs_pending s1 = cs_pending s \<and> cs_by_client s1 = cs_by_client s \<and> cs_socket s1 = cs_socket s"
    and "cs_pending s1 = cs_pending s"
    and "server_ok s \<Longrightarrow> server_ok s1"
    and "\<And>b. server_ok s \<Longrightarrow> map_of (cs_connections s1) b = map_of (cs_connections s) b \<or>
      map_of (cs_connections s1) b = None \<and> (\<exists>e. map_of (cs_connections s) b = Some e \<and> cn_client_id e \<noteq> cn_client_id c \<and> replaces h (cn_client_id e))"
proof -
  obtain replaced w where r: "on_replaced h c (cs_service s) = (replaced, w)" by (rule prod.exhaust)
  let ?s0 = "s\<lparr>cs_service := w\<rparr>"
  let ?s1 = "case replaced of None \<Rightarrow> ?s0 | Some r \<Rightarrow> close_client h r ?s0"
  obtain d w' where d: "on_connect h c (cs_service ?s1) = (d, w')" by (rule prod.exhaust)
  have "same_identity c (fst (on_connect h c (cs_service ?s1)))" using assms unfolding handlers_ok_def by (elim conjE allE)
  then have same: "same_identity c d" unfolding d by simp
  have run: "greet h c s = send_accepted d (?s1\<lparr>cs_connections := AList.update (cn_address c) d (cs_connections ?s1), cs_service := w'\<rparr>)"
    unfolding greet_def r Let_def prod.case d ..
  have ok0: "server_ok ?s0 = server_ok s" by (simp add: server_ok_def)
  show thesis
  proof (rule that [OF run same])
    show "cs_connections ?s1 = cs_connections s \<and> cs_pending ?s1 = cs_pending s \<and> cs_by_client ?s1 = cs_by_client s \<and> cs_socket ?s1 = cs_socket s"
      if "fst (on_replaced h c (cs_service s)) = None"
      using that by (simp add: r)
    show "cs_pending ?s1 = cs_pending s" by (simp split: option.split)
    show "server_ok ?s1" if "server_ok s" using that ok0 by (simp add: close_client_ok split: option.split)
    show "map_of (cs_connections ?s1) b = map_of (cs_connections s) b \<or>
      map_of (cs_connections ?s1) b = None \<and> (\<exists>e. map_of (cs_connections s) b = Some e \<and> cn_client_id e \<noteq> cn_client_id c \<and> replaces h (cn_client_id e))"
      if ok: "server_ok s" for b
    proof (cases replaced)
      case (Some q)
      have q: "fst q \<noteq> cn_client_id c" "replaces h (fst q)"
        using assms r Some unfolding handlers_ok_def replaces_def by (metis fst_conv, metis fst_conv prod.collapse)
      show ?thesis using close_client_entries [of ?s0 h q b] ok ok0 q by (auto simp: Some simp del: map_of_eq_Some_iff map_of_eq_None_iff)
    qed simp
  qed
qed

lemma greet_tables:
  assumes h: "handlers_ok h" and ok: "server_ok s" and c: "map_of (cs_connections s) (cn_address c) = Some c"
  shows "server_ok (greet h c s)" and "cs_pending (greet h c s) = cs_pending s"
    and "\<exists>d. map_of (cs_connections (greet h c s)) (cn_address c) = Some d \<and> same_identity c d"
    and "b \<noteq> cn_address c \<Longrightarrow> map_of (cs_connections (greet h c s)) b = map_of (cs_connections s) b \<or>
      map_of (cs_connections (greet h c s)) b = None \<and> (\<exists>e. map_of (cs_connections s) b = Some e \<and> replaces h (cn_client_id e))"
proof -
  obtain d w s1 where run: "greet h c s = send_accepted d (s1\<lparr>cs_connections := AList.update (cn_address c) d (cs_connections s1), cs_service := w\<rparr>)"
    and same: "same_identity c d" and pend: "cs_pending s1 = cs_pending s" and ok1: "server_ok s1"
    and entries: "\<And>b. map_of (cs_connections s1) b = map_of (cs_connections s) b \<or>
      map_of (cs_connections s1) b = None \<and> (\<exists>e. map_of (cs_connections s) b = Some e \<and> cn_client_id e \<noteq> cn_client_id c \<and> replaces h (cn_client_id e))"
    by (rule greet_run [OF h, of c s]) (use ok in blast)
  have own: "map_of (cs_connections s1) (cn_address c) = Some c" using entries [of "cn_address c"] c by auto
  show "server_ok (greet h c s)" by (rule server_ok_touch [OF ok1 own same]) (simp_all add: run send_defs)
  show "cs_pending (greet h c s) = cs_pending s" by (simp add: run send_defs pend)
  show "\<exists>d. map_of (cs_connections (greet h c s)) (cn_address c) = Some d \<and> same_identity c d" using same by (simp add: run send_defs update_conv')
  show "map_of (cs_connections (greet h c s)) b = map_of (cs_connections s) b \<or>
      map_of (cs_connections (greet h c s)) b = None \<and> (\<exists>e. map_of (cs_connections s) b = Some e \<and> replaces h (cn_client_id e))"
    if "b \<noteq> cn_address c"
    using entries [of b] that by (auto simp: run send_defs update_conv' simp del: map_of_eq_Some_iff map_of_eq_None_iff)
qed

lemma establish_run:
  obtains c s1 where "establish h a salt token k now s = greet h c s1" and "cn_address c = a" and "cn_salt c = salt" and "cn_token c = token"
    and "cs_connections s1 = AList.update a c (cs_connections s)" and "cs_pending s1 = AList.delete a (cs_pending s)"
    and "cs_by_client s1 = AList.update (cn_client_id c) a (cs_by_client s)" and "cs_socket s1 = cs_socket s"
    and "k \<noteq> 0 \<Longrightarrow> cn_client_id c = k" and "cs_service s1 = cs_service s"
proof -
  obtain i s0 where i: "(if k \<noteq> 0 then (k, s) else next_client_id s) = (i, s0)" by (rule prod.exhaust)
  let ?c = "\<lparr>cn_client_id = i, cn_address = a, cn_salt = salt, cn_token = token, cn_entity = kInvalidEntity,
               cn_last_receive_us = now, cn_last_send_us = now, cn_connected_at_us = now, cn_disconnecting = False,
               cn_reliability = mk_endpoint\<rparr>"
  have s0: "cs_connections s0 = cs_connections s" "cs_pending s0 = cs_pending s" "cs_by_client s0 = cs_by_client s" "cs_socket s0 = cs_socket s"
    "cs_service s0 = cs_service s" "k \<noteq> 0 \<Longrightarrow> i = k"
    using i by (auto simp: next_client_id_def split: if_splits)
  have run: "establish h a salt token k now s = greet h ?c (s0\<lparr>cs_pending := AList.delete a (cs_pending s0),
           cs_connections := AList.update a ?c (cs_connections s0), cs_by_client := AList.update i a (cs_by_client s0),
           cs_handshakes_completed := cs_handshakes_completed s0 + 1\<rparr>)"
    unfolding establish_def i Let_def prod.case ..
  show thesis by (rule that [OF run]) (use s0 in simp_all)
qed

text \<open>With a service that replaces no client here.\<close>

lemma establish_tables:
  assumes "handlers_ok h" and "replaces_none h k (cs_service s)"
  obtains c where "cn_address c = a" and "cn_salt c = salt" and "cn_token c = token"
    and "cs_connections (establish h a salt token k now s) = AList.update a c (AList.update a c (cs_connections s))"
    and "cs_pending (establish h a salt token k now s) = AList.delete a (cs_pending s)"
    and "cs_by_client (establish h a salt token k now s) = AList.update (cn_client_id c) a (cs_by_client s)"
    and "cs_socket (establish h a salt token k now s) = snd (socket_send a (accepted_packet c) (cs_socket s))"
    and "k \<noteq> 0 \<Longrightarrow> cn_client_id c = k"
proof -
  obtain e s0 where e: "establish h a salt token k now s = greet h e s0" "cn_address e = a" "cn_salt e = salt" "cn_token e = token"
      "cs_connections s0 = AList.update a e (cs_connections s)" "cs_pending s0 = AList.delete a (cs_pending s)"
      "cs_by_client s0 = AList.update (cn_client_id e) a (cs_by_client s)" "cs_socket s0 = cs_socket s" "k \<noteq> 0 \<Longrightarrow> cn_client_id e = k" "cs_service s0 = cs_service s"
    by (rule establish_run [of h a salt token k now s]) blast
  have none: "fst (on_replaced h e (cs_service s0)) = None" using assms(2) e(9,10) by (simp add: replaces_none_def)
  obtain d w s1 where run: "greet h e s0 = send_accepted d (s1\<lparr>cs_connections := AList.update (cn_address e) d (cs_connections s1), cs_service := w\<rparr>)"
    and same: "same_identity e d"
    and s1: "cs_connections s1 = cs_connections s0" "cs_pending s1 = cs_pending s0" "cs_by_client s1 = cs_by_client s0" "cs_socket s1 = cs_socket s0"
    by (rule greet_run [OF assms(1), of e s0]) (use none in blast)
  have "AList.update a d (AList.update a e xs) = AList.update a d (AList.update a d xs)" for xs :: "(address \<times> connection) list"
    by (induction xs) auto
  with e same show thesis
    by (intro that [of d]) (simp_all add: run s1 send_defs same_identity_def)
qed

text \<open>What a response can do: answer and count, be turned down, or establish the connection it answers for.\<close>

lemma response_cases:
  obtains (answered) "cs_connections (handle_challenge_response h a body now s) = cs_connections s"
      and "cs_pending (handle_challenge_response h a body now s) = cs_pending s"
      and "cs_by_client (handle_challenge_response h a body now s) = cs_by_client s"
  | (refused) "cs_connections (handle_challenge_response h a body now s) = cs_connections s"
      and "cs_pending (handle_challenge_response h a body now s) = AList.delete a (cs_pending s)"
      and "cs_by_client (handle_challenge_response h a body now s) = cs_by_client s"
  | (established) c p s1 where "map_of (cs_connections s) a = None" and "map_of (cs_pending s) a = Some p"
      and "read_salt body = Some (ph_client_salt p XOR ph_server_salt p)"
      and "cn_address c = a" and "cn_salt c = ph_client_salt p XOR ph_server_salt p" and "cn_token c = ph_token p"
      and "cs_connections s1 = AList.update a c (cs_connections s)" and "cs_pending s1 = AList.delete a (cs_pending s)"
      and "cs_by_client s1 = AList.update (cn_client_id c) a (cs_by_client s)"
      and "handle_challenge_response h a body now s = greet h c s1"
proof (cases "\<exists>p. map_of (cs_connections s) a = None \<and> map_of (cs_pending s) a = Some p \<and>
    read_salt body = Some (ph_client_salt p XOR ph_server_salt p)")
  case False
  then show thesis
    by (intro answered) (auto simp: handle_challenge_response_def send_defs split: option.split)
next
  case True
  then obtain p where p: "map_of (cs_connections s) a = None" "map_of (cs_pending s) a = Some p"
      "read_salt body = Some (ph_client_salt p XOR ph_server_salt p)" by blast
  obtain d s1 where d: "decide h a (ph_token p) s = (d, s1)" by (rule prod.exhaust)
  note s1 = decide_tables [OF d]
  show thesis
  proof (cases "ad_admit d")
    case False
    with p d s1 show thesis by (intro refused) (simp_all add: handle_challenge_response_def send_defs)
  next
    case True
    have run: "handle_challenge_response h a body now s =
        establish h a (ph_client_salt p XOR ph_server_salt p) (ph_token p) (ad_client_id d) now s1"
      using p d True by (simp add: handle_challenge_response_def)
    obtain c s2 where "establish h a (ph_client_salt p XOR ph_server_salt p) (ph_token p) (ad_client_id d) now s1 = greet h c s2"
        "cn_address c = a" "cn_salt c = ph_client_salt p XOR ph_server_salt p" "cn_token c = ph_token p"
        "cs_connections s2 = AList.update a c (cs_connections s1)" "cs_pending s2 = AList.delete a (cs_pending s1)"
        "cs_by_client s2 = AList.update (cn_client_id c) a (cs_by_client s1)"
      by (rule establish_run)
    with p s1 run show thesis by (intro established) simp_all
  qed
qed

lemma established_ok:
  assumes "server_ok s" and "map_of (cs_connections s) a = None" and "cn_address c = a"
    and "cs_connections s1 = AList.update a c (cs_connections s)" and "cs_pending s1 = AList.delete a (cs_pending s)"
    and "cs_by_client s1 = AList.update (cn_client_id c) a (cs_by_client s)"
  shows "server_ok s1"
  using assms tables_establish [of "map_of (cs_connections s)" "map_of (cs_pending s)" "map_of (cs_by_client s)" a c]
  by (simp add: server_ok_def delete_conv' distinct_delete update_conv' distinct_update)

lemma response_ok:
  assumes h: "handlers_ok h" and ok: "server_ok s"
  shows "server_ok (handle_challenge_response h a body now s)"
proof (cases rule: response_cases [of h a body now s])
  case answered
  then show ?thesis using ok by (rule server_ok_cong)
next
  case refused
  then show ?thesis
    using ok tables_forget [of "map_of (cs_connections s)" "map_of (cs_pending s)" "map_of (cs_by_client s)" a]
    by (simp add: server_ok_def delete_conv' distinct_delete)
next
  case (established c p s1)
  then have "server_ok s1" by (intro established_ok [OF ok])
  with h established show ?thesis by (simp add: greet_tables(1) update_conv')
qed

lemma payload_cases:
  assumes h: "handlers_ok h"
  obtains (ignored) "cs_connections (handle_payload h a body now s) = cs_connections s"
      and "cs_pending (handle_payload h a body now s) = cs_pending s" and "cs_by_client (handle_payload h a body now s) = cs_by_client s"
  | (touched) c d where "map_of (cs_connections s) a = Some c" and "same_identity c d"
      and "cs_connections (handle_payload h a body now s) = AList.update a d (cs_connections s)"
      and "cs_pending (handle_payload h a body now s) = cs_pending s" and "cs_by_client (handle_payload h a body now s) = cs_by_client s"
proof (cases "\<exists>c. map_of (cs_connections s) a = Some c \<and> read_salt body = Some (cn_salt c)")
  case False
  then show thesis by (intro ignored) (auto simp: handle_payload_def split: option.split)
next
  case True
  then obtain c where c: "map_of (cs_connections s) a = Some c" "read_salt body = Some (cn_salt c)" by blast
  obtain r ep where r: "read_packet (drop 8 body) (word_of_nat (length body) - 8) now (cn_reliability c) = (r, ep)" by (rule prod.exhaust)
  show thesis
  proof (cases r)
    case None
    with c r show thesis by (intro touched [of c "c\<lparr>cn_reliability := ep\<rparr>"]) (simp_all add: handle_payload_def)
  next
    case (Some x)
    obtain payload messages where x: "x = (payload, messages)" by (rule prod.exhaust)
    let ?c = "c\<lparr>cn_reliability := ep, cn_last_receive_us := now\<rparr>"
    obtain d w where d: "dispatch h payload messages ?c (cs_service s) = (d, w)" by (rule prod.exhaust)
    have "same_identity ?c d" using dispatch_identity [OF h, of ?c payload messages "cs_service s"] d by simp
    then have "same_identity c d" by simp
    with c r Some x d show thesis by (intro touched [of c d]) (simp_all add: handle_payload_def)
  qed
qed

lemma payload_ok: "handlers_ok h \<Longrightarrow> server_ok s \<Longrightarrow> server_ok (handle_payload h a body now s)"
  by (erule payload_cases [of h a body now s]) (auto intro: server_ok_cong server_ok_touch)

lemma disconnect_ok: "server_ok s \<Longrightarrow> server_ok (handle_disconnect h a body s)"
  by (auto simp: handle_disconnect_def remove_ok split: option.split)

lemma count_invalid_ok: "server_ok s \<Longrightarrow> server_ok (count_invalid s)"
  by (rule server_ok_cong) simp_all

lemma datagram_keeps_ok: "handlers_ok h \<Longrightarrow> server_ok s \<Longrightarrow> server_ok (handle_datagram h d now s)"
  unfolding handle_datagram_def Let_def
  by (auto split: option.split packet_type.split intro: request_ok response_ok payload_ok disconnect_ok count_invalid_ok)

lemma socket_ok: "server_ok (s\<lparr>cs_socket := sock\<rparr>) = server_ok s"
  by (simp add: server_ok_def)

lemma drain_ok: "handlers_ok h \<Longrightarrow> server_ok s \<Longrightarrow> drain n h now k s = (m, s') \<Longrightarrow> server_ok s'"
proof (induction n h now k s rule: drain.induct)
  case (2 n h now processed s)
  show ?case
  proof (cases "socket_receive kMaxDatagramSize (cs_socket s)")
    case (Pair r sock)
    have "server_ok (handle_datagram h d now (s\<lparr>cs_socket := sock\<rparr>))" for d
      using 2(2,3) by (intro datagram_keeps_ok) (simp_all add: socket_ok)
    with Pair 2 show ?thesis by (cases r) (auto simp: socket_ok split: if_splits)
  qed
qed simp

lemma expire_ok: "server_ok s \<Longrightarrow> server_ok (expire_pending now s)"
proof -
  assume ok: "server_ok s"
  let ?P = "\<lambda>p. \<not> now - ph_started_us p > kHandshakeTimeoutUs"
  have "distinct (map fst (filter (\<lambda>(a, p). ?P p) (cs_pending s)))" using ok by (simp add: server_ok_def distinct_map_filter)
  moreover have "map_of (filter (\<lambda>(a, p). ?P p) (cs_pending s)) a = Some p \<Longrightarrow> map_of (cs_pending s) a = Some p" for a p
    using ok by (auto simp: server_ok_def dest!: map_of_SomeD)
  then have "tables_ok (map_of (cs_connections s)) (map_of (filter (\<lambda>(a, p). ?P p) (cs_pending s))) (map_of (cs_by_client s))"
    using ok unfolding server_ok_def tables_ok_def by blast
  ultimately show ?thesis
    using ok by (simp add: expire_pending_def server_ok_def)
qed

lemma receive_ok: "handlers_ok h \<Longrightarrow> server_ok s \<Longrightarrow> server_ok (snd (server_receive h now s))"
  by (auto simp: server_receive_def simp del: drain.simps split: prod.split intro: expire_ok drain_ok)

lemma send_payload_cases:
  fixes s :: "'w connection_server"
  obtains (nothing) "snd (send_payload a data now s) = s"
  | (touched) c d where "map_of (cs_connections s) a = Some c" and "same_identity c d"
      and "cs_connections (snd (send_payload a data now s)) = AList.update a d (cs_connections s)"
      and "cs_pending (snd (send_payload a data now s)) = cs_pending s" and "cs_by_client (snd (send_payload a data now s)) = cs_by_client s"
proof (cases "map_of (cs_connections s) a")
  case None
  then have "snd (send_payload a data now s) = s" by (simp add: send_payload_def)
  then show thesis by (rule nothing)
next
  case (Some c)
  obtain r ep where r: "payload_packet (cn_salt c) data now (cn_reliability c) = (r, ep)" by (rule prod.exhaust)
  show thesis
  proof (cases r)
    case None
    with Some r show thesis by (intro touched [OF Some, of "c\<lparr>cn_reliability := ep\<rparr>"]) (simp_all add: send_payload_def)
  next
    case (Some packet)
    with \<open>map_of (cs_connections s) a = Some c\<close> r show thesis
      by (intro touched [of c "c\<lparr>cn_reliability := ep, cn_last_send_us := now\<rparr>"]) (simp_all add: send_payload_def split: prod.split)
  qed
qed

lemma send_payload_ok: "server_ok s \<Longrightarrow> server_ok (snd (send_payload a data now s))"
  by (rule send_payload_cases [of a data now s]) (auto intro: server_ok_touch)

lemma flush_connection_ok:
  assumes ok: "server_ok s"
  shows "server_ok (flush_connection now a s)"
proof (cases "map_of (cs_connections s) a")
  case None
  with ok show ?thesis by (simp add: flush_connection_def)
next
  case (Some c)
  let ?c = "c\<lparr>cn_reliability := ep_update now (cn_reliability c)\<rparr>"
  have "server_ok (s\<lparr>cs_connections := AList.update a ?c (cs_connections s)\<rparr>)"
    by (rule server_ok_touch [OF ok Some, of ?c]) simp_all
  with Some show ?thesis by (auto simp: flush_connection_def Let_def intro: send_payload_ok)
qed

lemma foldl_ok: "(\<And>s x. server_ok s \<Longrightarrow> server_ok (f s x)) \<Longrightarrow> server_ok s \<Longrightarrow> server_ok (foldl f s xs)"
  by (induction xs arbitrary: s) auto

lemma flush_ok: "server_ok s \<Longrightarrow> server_ok (server_flush now s)"
  by (auto simp: server_flush_def Let_def socket_ok intro: foldl_ok flush_connection_ok)

lemma timeout_ok: "server_ok s \<Longrightarrow> server_ok (timeout_connections h now s)"
  unfolding timeout_connections_def by (rule foldl_ok) (simp_all add: remove_ok)

lemma stop_ok: "server_ok (server_stop s)"
  by (simp add: server_stop_def server_ok_def tables_ok_def Let_def)


text \<open>The entries that a response can change.\<close>

lemma response_entries:
  assumes "handlers_ok h" and "server_ok s"
  shows "(b \<noteq> a \<longrightarrow> map_of (cs_pending (handle_challenge_response h a body now s)) b = map_of (cs_pending s) b \<and>
       (map_of (cs_connections (handle_challenge_response h a body now s)) b = map_of (cs_connections s) b \<or>
        map_of (cs_connections (handle_challenge_response h a body now s)) b = None \<and>
        (\<exists>e. map_of (cs_connections s) b = Some e \<and> replaces h (cn_client_id e)))) \<and>
     (map_of (cs_connections s) a = None \<and> map_of (cs_connections (handle_challenge_response h a body now s)) a = Some c \<longrightarrow>
       (\<exists>p. map_of (cs_pending s) a = Some p \<and> read_salt body = Some (ph_client_salt p XOR ph_server_salt p) \<and>
         cn_salt c = ph_client_salt p XOR ph_server_salt p \<and> cn_token c = ph_token p))"
proof (cases rule: response_cases [of h a body now s])
  case (established e p s1)
  have ok: "server_ok s1" using established by (intro established_ok [OF assms(2)])
  have own: "map_of (cs_connections s1) (cn_address e) = Some e" using established by (simp add: update_conv')
  note g = greet_tables [OF assms(1) ok own]
  have s1: "map_of (cs_connections s1) b = map_of (cs_connections s) b" "map_of (cs_pending s1) b = map_of (cs_pending s) b" if "b \<noteq> a" for b
    using that established by (simp_all add: update_conv' delete_conv')
  show ?thesis
    using g(2-4) s1 established by (auto simp: same_identity_def simp del: map_of_eq_None_iff map_of_eq_Some_iff)
qed (auto simp: delete_conv' simp del: map_of_eq_None_iff map_of_eq_Some_iff)


section \<open>Runs of a server\<close>

inductive serving :: "'w handlers \<Rightarrow> 'w connection_server \<Rightarrow> bool" for h :: "'w handlers" where
  start: "cs_connections s = [] \<Longrightarrow> cs_pending s = [] \<Longrightarrow> cs_by_client s = [] \<Longrightarrow> serving h (snd (server_start opened config s))"
| arrive: "serving h s \<Longrightarrow> serving h (s\<lparr>cs_socket := (cs_socket s)\<lparr>us_kernel_in := us_kernel_in (cs_socket s) @ ds, us_kernel_room := room\<rparr>\<rparr>)"
| receive: "serving h s \<Longrightarrow> serving h (snd (server_receive h now s))"
| flush: "serving h s \<Longrightarrow> serving h (server_flush now s)"
| expire: "serving h s \<Longrightarrow> serving h (timeout_connections h now s)"
| payload: "serving h s \<Longrightarrow> serving h (snd (send_payload a data now s))"
| disconnect: "serving h s \<Longrightarrow> serving h (server_disconnect h a reason s)"
| service: "serving h s \<Longrightarrow> map_of (cs_connections s) a = Some c \<Longrightarrow> same_identity c d \<Longrightarrow>
    serving h (s\<lparr>cs_connections := AList.update a d (cs_connections s), cs_service := w\<rparr>)"
| stop: "serving h s \<Longrightarrow> serving h (server_stop s)"

lemma serving_ok:
  assumes "serving h s" and h: "handlers_ok h"
  shows "server_ok s"
  using assms(1)
proof induction
  case (start s config)
  then show ?case by (simp add: server_ok_def tables_ok_def server_start_def split: prod.split)
next
  case (service s a c d w)
  show ?case by (rule server_ok_touch [OF service.IH service.hyps(2,3)]) simp_all
qed (simp_all add: socket_ok receive_ok [OF h] flush_ok timeout_ok send_payload_ok server_disconnect_ok stop_ok)


section \<open>A sample server\<close>

definition quiet_handlers :: "unit handlers" where
  "quiet_handlers = \<lparr>on_admit = None, on_replaced = (\<lambda>c w. (None, w)), on_connect = (\<lambda>c w. (c, w)), on_disconnect = (\<lambda>c r w. w), on_payload = (\<lambda>c x w. (c, w)),
     on_message = (\<lambda>c m w. (c, w))\<rparr>"

definition sample_address :: address where
  "sample_address = \<lparr>ad_ip = 0x7f000001, ad_port = 4000\<rparr>"

definition blank_server :: "unit connection_server" where
  "blank_server = \<lparr>cs_config = \<lparr>sc_bind = \<lparr>ad_ip = 0, ad_port = 7000\<rparr>, sc_max_connections = 1, sc_timeout_us = 5000000, sc_keepalive_us = 100000\<rparr>,
     cs_socket = mk_socket 100, cs_connections = [], cs_pending = [], cs_by_client = [], cs_handshakes_completed = 0,
     cs_handshakes_denied = 0, cs_invalid_packets = 0, cs_random = \<lparr>rnd_numbers = (\<lambda>n. word_of_nat n), rnd_drawn = 9\<rparr>,
     cs_next_client_id = 1, cs_service = ()\<rparr>"

definition sample_pending :: pending_handshake where
  "sample_pending = \<lparr>ph_client_salt = 3, ph_server_salt = 9, ph_token = replicate 32 7, ph_started_us = 0\<rparr>"

text \<open>A response with the salt \<open>3 XOR 9\<close>.\<close>

definition sample_response :: datagram where
  "sample_response = (sample_address, [0x01, 0x54, 0x52, 0x4d, 3, 10, 0, 0, 0, 0, 0, 0, 0])"

lemma quiet_handlers_ok: "handlers_ok quiet_handlers" "plain_service quiet_handlers"
  by (simp_all add: plain_service_def keeps_clients_def handlers_ok_def quiet_handlers_def)

lemma sample_response_read:
  "read_header (snd sample_response) = Some kChallengeResponse" "read_salt (drop (unat kHeaderBytes) (snd sample_response)) = Some 10"
  by code_simp+


section \<open>Properties\<close>

text \<open>
  The tables stay consistent under any traffic and any calls of the service: no two connections share an address, a pending
  handshake has proper salts and no connection yet, and the table by client never points to a connection that is gone.
\<close>

lemma server_tables_ok:
  assumes "handlers_ok h" and "serving h s"
  shows "server_ok s \<and> (\<forall>i a. map_of (cs_by_client s) i = Some a \<longrightarrow>
     (\<exists>c. find_client i s = Some c \<and> cn_client_id c = i \<and> cn_address c = a \<and> map_of (cs_connections s) a = Some c))"
proof -
  have ok: "server_ok s" by (rule serving_ok [OF assms(2,1)])
  then have "tables_ok (map_of (cs_connections s)) (map_of (cs_pending s)) (map_of (cs_by_client s))" by (simp add: server_ok_def)
  note t = tables_okD [OF this]
  have "\<exists>c. find_client i s = Some c \<and> cn_client_id c = i \<and> cn_address c = a \<and> map_of (cs_connections s) a = Some c"
    if i: "map_of (cs_by_client s) i = Some a" for i a
  proof -
    obtain c where c: "map_of (cs_connections s) a = Some c" "cn_client_id c = i" using t(2) [OF i] by blast
    then show ?thesis using t(1) [OF c(1)] i by (simp add: find_client_def)
  qed
  with ok show ?thesis by blast
qed

text \<open>
  C31: a datagram touches only the entries of its sender, but for the connection of a client that the service replaces, and a
  connection appears only when it ends a handshake: the address had been sent a challenge, the datagram is a response that
  carries the two salts of that challenge, and the new connection has their combination as its salt and the token of the
  request.
\<close>

theorem connections_need_handshake:
  assumes "handlers_ok h" and "server_ok s"
  shows "(b \<noteq> fst d \<longrightarrow> map_of (cs_pending (handle_datagram h d now s)) b = map_of (cs_pending s) b \<and>
       (map_of (cs_connections (handle_datagram h d now s)) b = map_of (cs_connections s) b \<or>
        map_of (cs_connections (handle_datagram h d now s)) b = None \<and>
        (\<exists>e. map_of (cs_connections s) b = Some e \<and> replaces h (cn_client_id e)))) \<and>
     (map_of (cs_connections s) (fst d) = None \<and> map_of (cs_connections (handle_datagram h d now s)) (fst d) = Some c \<longrightarrow>
       (\<exists>p. map_of (cs_pending s) (fst d) = Some p \<and> read_header (snd d) = Some kChallengeResponse \<and>
         read_salt (drop (unat kHeaderBytes) (snd d)) = Some (ph_client_salt p XOR ph_server_salt p) \<and>
         cn_salt c = ph_client_salt p XOR ph_server_salt p \<and> cn_token c = ph_token p))"
proof -
  let ?body = "drop (unat kHeaderBytes) (snd d)"
  have request: "map_of (cs_connections (handle_connection_request (fst d) ?body now s)) = map_of (cs_connections s)"
    "b \<noteq> fst d \<Longrightarrow> map_of (cs_pending (handle_connection_request (fst d) ?body now s)) b = map_of (cs_pending s) b"
    by (cases rule: request_cases [of "fst d" ?body now s]; simp add: update_conv')+
  have payload: "b \<noteq> fst d \<Longrightarrow> map_of (cs_connections (handle_payload h (fst d) ?body now s)) b = map_of (cs_connections s) b"
    "map_of (cs_connections s) (fst d) = None \<Longrightarrow> map_of (cs_connections (handle_payload h (fst d) ?body now s)) (fst d) = None"
    "cs_pending (handle_payload h (fst d) ?body now s) = cs_pending s"
    using assms(1) by (cases rule: payload_cases [of h "fst d" ?body now s]; simp add: update_conv')+
  have disconnect: "b \<noteq> fst d \<Longrightarrow> map_of (cs_connections (handle_disconnect h (fst d) ?body s)) b = map_of (cs_connections s) b"
    "map_of (cs_connections s) (fst d) = None \<Longrightarrow> map_of (cs_connections (handle_disconnect h (fst d) ?body s)) (fst d) = None"
    "cs_pending (handle_disconnect h (fst d) ?body s) = cs_pending s"
    by (auto simp: handle_disconnect_def remove_connection_def delete_conv' simp del: map_of_eq_None_iff split: option.split)
  note response = response_entries [OF assms, of b "fst d" ?body now c]
  show ?thesis
  proof (cases "read_header (snd d)")
    case None
    then show ?thesis by (auto simp: handle_datagram_def simp del: map_of_eq_None_iff)
  next
    case (Some ty)
    then show ?thesis
      using request payload disconnect response
      by (cases ty) (auto simp: handle_datagram_def simp del: map_of_eq_None_iff)
  qed
qed

theorem connections_need_handshake_witness:
  "\<exists>c. map_of (cs_connections (handle_datagram quiet_handlers sample_response 5 (blank_server\<lparr>cs_pending := [(sample_address, sample_pending)]\<rparr>)))
      sample_address = Some c \<and> cn_salt c = 10 \<and> cn_token c = replicate 32 7"
proof -
  let ?s = "blank_server\<lparr>cs_pending := [(sample_address, sample_pending)]\<rparr>"
  have xor: "(3 :: u64) XOR 9 = 10" by code_simp
  have a: "fst sample_response = sample_address" by (simp add: sample_response_def)
  have "\<exists>c. map_of (cs_connections (handle_datagram quiet_handlers sample_response 5 ?s)) sample_address = Some c"
    unfolding handle_datagram_def Let_def sample_response_read handle_challenge_response_def a
    by (simp add: sample_response_read blank_server_def sample_pending_def xor decide_def next_client_id_def quiet_handlers_def
        establish_def greet_def send_accepted_def Let_def update_conv')
  then obtain c where c: "map_of (cs_connections (handle_datagram quiet_handlers sample_response 5 ?s)) sample_address = Some c" by blast
  have "map_of (cs_connections ?s) sample_address = None" "map_of (cs_pending ?s) sample_address = Some sample_pending"
    by (simp_all add: blank_server_def)
  moreover have "server_ok ?s" by (simp add: blank_server_def server_ok_def tables_ok_def sample_pending_def)
  ultimately show ?thesis
    using connections_need_handshake [OF quiet_handlers_ok(1), of ?s _ sample_response 5 c] c a xor
    by (auto simp: sample_pending_def)
qed

end
