(* ===== verification/Connection_Handshake.thy ===== *)
theory Connection_Handshake
  imports Connection_Invariant Messages
begin

text \<open>
  The handshake from end to end: the packets of one side are read back by the other, the exchange ends with both sides
  connected under the same salt, the replies to a request are never larger than the request, and the limits that the server
  does and does not enforce.
\<close>

section \<open>The bytes of a packet\<close>

lemma written_bytes_spec:
  assumes m: "bw.emits m bs" and len: "length bs \<le> 8 * unat cap" and cap: "unat cap < 268435456"
  shows "length (written_bytes m cap) = (length bs + 7) div 8"
    and "bytes_bits (written_bytes m cap) = bs @ replicate (8 * ((length bs + 7) div 8) - length bs) False"
proof -
  have c: "unat cap \<le> length (replicate (unat cap) (0 :: u8))" by simp
  note w0 = mk_writer_wf [OF c cap]
  obtain x w where run: "run_state m (mk_writer (replicate (unat cap) 0) cap) = (x, w)" by (rule prod.exhaust)
  note w = bw.emits_step [OF m w0(1) run]
  obtain n w' where n: "run_state bytes_written w = (n, w')" by (rule prod.exhaust)
  note b = bytes_written_bits [OF w(1) n]
  have bits: "bw_bits w = bs" using w(3) w0 len by simp
  have *: "written_bytes m cap = take (unat n) (bw_buffer w')" by (simp add: written_bytes_def run n)
  show "length (written_bytes m cap) = (length bs + 7) div 8"
    and "bytes_bits (written_bytes m cap) = bs @ replicate (8 * ((length bs + 7) div 8) - length bs) False"
    using b(4-6) by (simp_all add: * bits)
qed

definition header_fields :: "packet_type \<Rightarrow> bool list" where
  "header_fields ty = bits_of kProtocolId 32 @ bits_of (packet_type_code ty) 8"

lemma length_header_fields [simp]: "length (header_fields ty) = 40"
  by (simp add: header_fields_def)

lemma packet_header_spec:
  assumes "5 \<le> unat cap" and "unat cap < 268435456"
  shows "length (packet_header ty cap) = 5" and "bytes_bits (packet_header ty cap) = header_fields ty"
proof -
  have e: "bw.emits (do { write_u32 kProtocolId; write_u8 (packet_type_code ty) }) (header_fields ty)"
    unfolding header_fields_def by (intro bw.emits_bind emits_intros)
  show "length (packet_header ty cap) = 5" and "bytes_bits (packet_header ty cap) = header_fields ty"
    using written_bytes_spec [OF e _ assms(2)] assms(1) by (simp_all add: packet_header_def)
qed

lemma compose_packet_spec:
  assumes m: "bw.emits m bs" and cap: "5 \<le> unat cap" "unat cap < 268435456" and len: "length bs + 40 \<le> 8 * unat cap"
  shows "take 5 (compose_packet ty m cap) = packet_header ty cap"
    and "bytes_bits (drop 5 (compose_packet ty m cap)) = bs @ replicate (8 * ((length bs + 7) div 8) - length bs) False"
    and "length (compose_packet ty m cap) = 5 + (length bs + 7) div 8"
proof -
  have room: "unat (cap - word_of_nat 5) = unat cap - 5" using cap by (simp add: unat_sub word_le_nat_alt)
  have b: "length bs \<le> 8 * unat (cap - word_of_nat 5)" "unat (cap - word_of_nat 5) < 268435456" using room len cap by simp_all
  note w = written_bytes_spec [OF m b]
  have "compose_packet ty m cap = packet_header ty cap @ written_bytes m (cap - word_of_nat 5)"
    by (simp only: compose_packet_def Let_def packet_header_spec(1) [OF cap])
  then show "take 5 (compose_packet ty m cap) = packet_header ty cap"
    and "bytes_bits (drop 5 (compose_packet ty m cap)) = bs @ replicate (8 * ((length bs + 7) div 8) - length bs) False"
    and "length (compose_packet ty m cap) = 5 + (length bs + 7) div 8"
    using w packet_header_spec(1) [OF cap, of ty] by simp_all
qed

text \<open>A reader over the whole of a list of bytes.\<close>

lemma whole_reader:
  assumes "length body < 268435456"
  shows "br_wf (mk_reader body (word_of_nat (length body)))" and "\<not> br_overflow (mk_reader body (word_of_nat (length body)))"
    and "br_remaining (mk_reader body (word_of_nat (length body))) = bytes_bits body"
proof -
  have n: "unat (word_of_nat (length body) :: u32) = length body" using assms by (simp add: unat_of_nat_less)
  note r = mk_reader_wf [of "word_of_nat (length body) :: u32" body, unfolded n, OF order_refl assms]
  then show "br_wf (mk_reader body (word_of_nat (length body)))" and "\<not> br_overflow (mk_reader body (word_of_nat (length body)))"
    and "br_remaining (mk_reader body (word_of_nat (length body))) = bytes_bits body" by simp_all
qed

lemma whole_frames:
  assumes "brc.frames m bs v" and "bytes_bits body = bs @ pad" and "length body < 268435456"
  shows "fst (run_state m (mk_reader body (word_of_nat (length body)))) = Some v"
  using brc.framesD [OF assms(1)] whole_reader [OF assms(3)] assms(2) by simp

lemma packet_type_of_code: "packet_type_of (packet_type_code ty) = Some ty" "\<not> (packet_type_code ty < 1 \<or> packet_type_code ty > 7)"
  by (cases ty; simp add: packet_type_of_def)+

lemma read_header_spec:
  assumes "bytes_bits (take 5 data) = header_fields ty" and "5 \<le> length data" and "length data < 268435456"
  shows "read_header data = Some ty"
proof -
  have d: "br.decodes (do { p \<leftarrow> read_u32; t \<leftarrow> read_u8; State_Monad.return (p, t) }) (header_fields ty) (kProtocolId, packet_type_code ty)"
    unfolding header_fields_def
    by (rule br.decodes_bind [OF decodes_read_u32], rule br.decodes_map [OF decodes_read_u8 refl]) (intro br.safe_intros decodes_intros)
  have "bytes_bits data = header_fields ty @ bytes_bits (drop 5 data)"
    using assms(1) bytes_bits_append [of "take 5 data" "drop 5 data"] by simp
  then obtain r where "run_state (do { p \<leftarrow> read_u32; t \<leftarrow> read_u8; State_Monad.return (p, t) }) (mk_reader data (word_of_nat (length data))) =
      ((kProtocolId, packet_type_code ty), r)"
    using br.decodes_run [OF d whole_reader(1) [OF assms(3)]] whole_reader(3) [OF assms(3)] by metis
  moreover have "\<not> (word_of_nat (length data) :: u32) < kHeaderBytes"
    using assms(2,3) by (simp add: kHeaderBytes_def word_less_nat_alt unat_of_nat_less)
  ultimately show ?thesis using packet_type_of_code [of ty] by (simp add: read_header_def)
qed

lemma compose_packet_header:
  assumes "bw.emits m bs" and "5 \<le> unat cap" "unat cap < 268435456" and "length bs + 40 \<le> 8 * unat cap"
  shows "read_header (compose_packet ty m cap) = Some ty"
  using compose_packet_spec [OF assms, of ty] packet_header_spec(2) [OF assms(2,3), of ty] assms(3,4)
  by (intro read_header_spec) simp_all


section \<open>The packets of the handshake\<close>

lemma frames_fields_1:
  "brc.frames (do { v \<leftarrow> read_u64; bad \<leftarrow> read_overflowed; State_Monad.return (if bad then None else Some v) }) (bits_of v 64) v"
  by (rule frames_last [OF decodes_read_u64], rule frames_final) (simp_all add: guarded_final)

lemma frames_fields_2:
  "brc.frames (do { c \<leftarrow> read_u64; v \<leftarrow> read_u64; bad \<leftarrow> read_overflowed; State_Monad.return (if bad then None else Some (c, v)) })
     (bits_of c 64 @ bits_of v 64) (c, v)"
  by (rule brc.frames_bind [OF decodes_read_u64], rule frames_last [OF decodes_read_u64], rule frames_final)
    (simp_all add: guarded_final brc.guarded_bind decodes_intros)

lemma frames_accepted:
  "brc.frames (do { v \<leftarrow> read_u64; c \<leftarrow> read_u32; e \<leftarrow> read_u32; bad \<leftarrow> read_overflowed; State_Monad.return (if bad then None else Some (v, c, e)) })
     (bits_of v 64 @ bits_of c 32 @ bits_of e 32) (v, c, e)"
  by (rule brc.frames_bind [OF decodes_read_u64], rule brc.frames_bind [OF decodes_read_u32], rule frames_last [OF decodes_read_u32], rule frames_final)
    (simp_all add: guarded_final brc.guarded_bind decodes_intros)

lemma frames_request:
  assumes "length token = 32" and "v \<noteq> 0"
  shows "brc.frames (do { v \<leftarrow> read_u64; t \<leftarrow> read_bytes (replicate 32 0) kConnectTokenBytes; bad \<leftarrow> read_overflowed;
          State_Monad.return (if bad \<or> v = 0 then None else Some (v, t)) }) (bits_of v 64 @ bytes_bits token) (v, token)"
proof -
  have t: "length token = unat kConnectTokenBytes" using assms(1) by (simp add: kConnectTokenBytes_def)
  show ?thesis
    by (rule brc.frames_bind [OF decodes_read_u64], rule frames_last [OF decodes_read_bytes [OF t]], rule frames_final)
      (simp_all add: assms(2) guarded_final brc.guarded_bind decodes_intros)
qed

lemma challenge_packet_read:
  "read_header (challenge_packet c v) = Some kChallenge" "read_challenge (drop 5 (challenge_packet c v)) = Some (c, v)"
  "length (challenge_packet c v) = 21"
proof -
  have e: "bw.emits (do { write_u64 c; write_u64 v }) (bits_of c 64 @ bits_of v 64)" by (intro bw.emits_bind emits_intros)
  note spec = compose_packet_spec [OF e, of 64 kChallenge]
  show len: "length (challenge_packet c v) = 21" using spec(3) by (simp add: challenge_packet_def)
  show "read_header (challenge_packet c v) = Some kChallenge"
    unfolding challenge_packet_def by (rule compose_packet_header [OF e]) simp_all
  show "read_challenge (drop 5 (challenge_packet c v)) = Some (c, v)"
    unfolding read_challenge_def using spec(2) len
    by (subst whole_frames [OF frames_fields_2, of _ _ _ "[]", unfolded fst_def]) (simp_all add: challenge_packet_def)
qed

lemma response_packet_read:
  "read_header (response_packet v) = Some kChallengeResponse" "read_salt (drop 5 (response_packet v)) = Some v" "length (response_packet v) = 13"
proof -
  note e = emits_write_u64 [of v]
  note spec = compose_packet_spec [OF e, of 64 kChallengeResponse]
  show len: "length (response_packet v) = 13" using spec(3) by (simp add: response_packet_def)
  show "read_header (response_packet v) = Some kChallengeResponse"
    unfolding response_packet_def by (rule compose_packet_header [OF e]) simp_all
  show "read_salt (drop 5 (response_packet v)) = Some v"
    unfolding read_salt_def using spec(2) len
    by (subst whole_frames [OF frames_fields_1, of _ _ "[]", unfolded fst_def]) (simp_all add: response_packet_def)
qed

lemma accepted_packet_read:
  "read_header (accepted_packet c) = Some kConnectionAccepted"
  "read_accepted (drop 5 (accepted_packet c)) = Some (cn_salt c, cn_client_id c, cn_entity c)" "length (accepted_packet c) = 21"
proof -
  have e: "bw.emits (do { write_u64 (cn_salt c); write_u32 (cn_client_id c); write_u32 (cn_entity c) })
      (bits_of (cn_salt c) 64 @ bits_of (cn_client_id c) 32 @ bits_of (cn_entity c) 32)" by (intro bw.emits_bind emits_intros)
  note spec = compose_packet_spec [OF e, of 64 kConnectionAccepted]
  show len: "length (accepted_packet c) = 21" using spec(3) by (simp add: accepted_packet_def)
  show "read_header (accepted_packet c) = Some kConnectionAccepted"
    unfolding accepted_packet_def by (rule compose_packet_header [OF e]) simp_all
  show "read_accepted (drop 5 (accepted_packet c)) = Some (cn_salt c, cn_client_id c, cn_entity c)"
    unfolding read_accepted_def using spec(2) len
    by (subst whole_frames [OF frames_accepted, of _ _ _ _ "[]", unfolded fst_def]) (simp_all add: accepted_packet_def)
qed

lemma length_denied_packet: "length (denied_packet r) = 6"
  using compose_packet_spec(3) [OF emits_write_u8, of 32 _ kConnectionDenied] by (simp add: denied_packet_def)

lemma request_packet_read:
  assumes "length token = 32" and "v \<noteq> 0"
  shows "read_header (request_packet v token) = Some kConnectionRequest" "read_request (drop 5 (request_packet v token)) = Some (v, token)"
    "length (request_packet v token) = 1045"
proof -
  have wb: "bw.emits (write_bytes token kConnectTokenBytes) (bytes_bits token)"
    using assms(1) by (intro emits_write_bytes) (simp add: kConnectTokenBytes_def)
  have pad: "bw.emits (for_each write_u8 (replicate (unat kConnectionRequestPadding) 0)) (bytes_bits (replicate 1000 0))"
    using emits_bytes [of "replicate 1000 0"] by (simp add: kConnectionRequestPadding_def)
  have e: "bw.emits (do { write_u64 v; write_bytes token kConnectTokenBytes; for_each write_u8 (replicate (unat kConnectionRequestPadding) 0) })
      (bits_of v 64 @ bytes_bits token @ bytes_bits (replicate 1000 0))"
    by (intro bw.emits_bind emits_intros wb pad)
  have len: "length (bits_of v 64 @ bytes_bits token @ bytes_bits (replicate 1000 0)) = 8320" using assms(1) by simp
  have cap: "5 \<le> unat kMaxDatagramSize" "unat kMaxDatagramSize < 268435456" "8320 + 40 \<le> 8 * unat kMaxDatagramSize"
    by (simp_all add: kMaxDatagramSize_def)
  note spec = compose_packet_spec [OF e cap(1,2), of kConnectionRequest, unfolded len, OF cap(3)]
  show l: "length (request_packet v token) = 1045" using spec(3) by (simp add: request_packet_def)
  show "read_header (request_packet v token) = Some kConnectionRequest"
    unfolding request_packet_def by (rule compose_packet_header [OF e cap(1,2), unfolded len, OF cap(3)])
  have "bytes_bits (drop 5 (request_packet v token)) = (bits_of v 64 @ bytes_bits token) @ bytes_bits (replicate 1000 0)"
    using spec(2) by (simp add: request_packet_def)
  from whole_frames [OF frames_request [OF assms] this] l
  show "read_request (drop 5 (request_packet v token)) = Some (v, token)"
    by (simp add: read_request_def fst_def)
qed


section \<open>Sockets in an exchange\<close>

definition sock_is :: "udp_socket \<Rightarrow> datagram list \<Rightarrow> datagram list \<Rightarrow> nat \<Rightarrow> bool" where
  "sock_is s inc out room \<longleftrightarrow> us_open s \<and> incoming s = inc \<and> us_kernel_out s = out \<and> us_kernel_room s = room"

lemma sock_receive_one:
  assumes "sock_is s (d # inc) out room"
  obtains s' where "socket_receive kMaxDatagramSize s = (Some (fst d, take 1200 (snd d)), s')" and "sock_is s' inc out room"
proof -
  obtain r s' where run: "socket_receive kMaxDatagramSize s = (r, s')" by (rule prod.exhaust)
  have o: "us_open s" and i: "incoming s = d # inc" using assms by (simp_all add: sock_is_def)
  from receive_incoming [OF o run] i have "r = Some (fst d, take 1200 (snd d))" "incoming s' = inc"
    by (auto simp: kBatchSize_pos split: prod.splits)
  with run receive_fields [OF run] assms that show thesis by (simp add: sock_is_def)
qed

lemma sock_receive_none:
  assumes "sock_is s [] out room"
  obtains s' where "socket_receive kMaxDatagramSize s = (None, s')" and "sock_is s' [] out room"
proof -
  obtain r s' where run: "socket_receive kMaxDatagramSize s = (r, s')" by (rule prod.exhaust)
  have o: "us_open s" and i: "incoming s = []" using assms by (simp_all add: sock_is_def)
  from receive_incoming [OF o run] i have "r = None" "incoming s' = []" by simp_all
  with run receive_fields [OF run] assms that show thesis by (simp add: sock_is_def)
qed

lemma sock_send: "sock_is s inc out (Suc room) \<Longrightarrow> data \<noteq> [] \<Longrightarrow> sock_is (snd (socket_send to data s)) inc (out @ [(to, data)]) room"
  by (simp add: sock_is_def socket_send_def incoming_def)

text \<open>The network moves what one side has sent to the other and what is addressed to it.\<close>

definition carry :: "address \<Rightarrow> address \<Rightarrow> udp_socket \<Rightarrow> udp_socket \<Rightarrow> udp_socket \<times> udp_socket" where
  "carry source target a b =
     (a\<lparr>us_kernel_out := []\<rparr>,
      b\<lparr>us_kernel_in := us_kernel_in b @ map (\<lambda>d. (source, snd d)) (filter (\<lambda>d. fst d = target) (us_kernel_out a))\<rparr>)"

lemma sock_carry:
  assumes "sock_is a inc [(target, data)] room" and "sock_is b [] out room'" and "length data \<le> 1200"
  shows "sock_is (fst (carry source target a b)) inc [] room \<and> sock_is (snd (carry source target a b)) [(source, data)] out room'"
  using assms by (simp add: sock_is_def carry_def incoming_def)

definition carry_up :: "address \<Rightarrow> 'a client_connection \<Rightarrow> 'b connection_server \<Rightarrow> 'a client_connection \<times> 'b connection_server" where
  "carry_up me c s =
     (case carry me (cc_server (cl_config c)) (cl_socket c) (cs_socket s) of (x, y) \<Rightarrow> (c\<lparr>cl_socket := x\<rparr>, s\<lparr>cs_socket := y\<rparr>))"

definition carry_down :: "address \<Rightarrow> 'a client_connection \<Rightarrow> 'b connection_server \<Rightarrow> 'a client_connection \<times> 'b connection_server" where
  "carry_down me c s =
     (case carry (cc_server (cl_config c)) me (cs_socket s) (cl_socket c) of (x, y) \<Rightarrow> (c\<lparr>cl_socket := y\<rparr>, s\<lparr>cs_socket := x\<rparr>))"

text \<open>A round: the client updates, its datagrams travel, the server receives at its own time, and its datagrams travel back.\<close>

definition exchange :: "'a client_handlers \<Rightarrow> 'b handlers \<Rightarrow> address \<Rightarrow> u64 \<Rightarrow> u64 \<Rightarrow>
    'a client_connection \<times> 'b connection_server \<Rightarrow> 'a client_connection \<times> 'b connection_server" where
  "exchange ch h me client_now server_now cs =
     (let c = client_update ch client_now (fst cs);
          (c, s) = carry_up me c (snd cs);
          s = snd (server_receive h server_now s)
      in carry_down me c s)"


section \<open>The steps of the exchange\<close>

lemma client_drain_one:
  assumes "sock_is (cl_socket c) [(cc_server (cl_config c), data)] out room" and "data \<noteq> []" and "length data \<le> 1200"
  obtains sock where "sock_is sock [] out room"
    and "client_drain (Suc (length (incoming (cl_socket c)))) ch now c = client_drain 1 ch now (process_datagram ch data now (c\<lparr>cl_socket := sock\<rparr>))"
proof -
  obtain sock where "socket_receive kMaxDatagramSize (cl_socket c) = (Some (cc_server (cl_config c), data), sock)" "sock_is sock [] out room"
    using sock_receive_one [OF assms(1)] assms(3) by auto
  with that assms(2) show thesis using assms(1) by (simp add: sock_is_def)
qed

lemma client_drain_end:
  assumes "sock_is (cl_socket c) [] out room"
  obtains sock where "sock_is sock [] out room" and "client_drain (Suc n) ch now c = c\<lparr>cl_socket := sock\<rparr>"
  using sock_receive_none [OF assms] by (metis (no_types, lifting) client_drain.simps(2) option.simps(4) prod.case)

lemma server_drain_one:
  assumes "sock_is (cs_socket s) [(a, data)] out room" and "data \<noteq> []" and "length data \<le> 1200"
    and keep: "\<And>sock. sock_is sock [] out room \<Longrightarrow>
      sock_is (cs_socket (handle_datagram h (a, data) now (s\<lparr>cs_socket := sock\<rparr>))) [] out' room'"
  obtains sock sock' where "sock_is sock [] out room" and "sock_is sock' [] out' room'"
    and "snd (server_receive h now s) = expire_pending now ((handle_datagram h (a, data) now (s\<lparr>cs_socket := sock\<rparr>))\<lparr>cs_socket := sock'\<rparr>)"
proof -
  obtain sock where r: "socket_receive kMaxDatagramSize (cs_socket s) = (Some (a, data), sock)" and s: "sock_is sock [] out room"
    using sock_receive_one [OF assms(1)] assms(3) by auto
  let ?t = "handle_datagram h (a, data) now (s\<lparr>cs_socket := sock\<rparr>)"
  obtain sock' where r': "socket_receive kMaxDatagramSize (cs_socket ?t) = (None, sock')" and s': "sock_is sock' [] out' room'"
    by (rule sock_receive_none [OF keep [OF s]])
  have "length (incoming (cs_socket s)) = 1" using assms(1) by (simp add: sock_is_def)
  then have "snd (server_receive h now s) = expire_pending now (?t\<lparr>cs_socket := sock'\<rparr>)"
    using r r' assms(2) by (simp add: server_receive_def)
  with s s' show thesis by (rule that)
qed

lemma client_requests:
  assumes "cl_state c = kSendingRequest" and "sock_is (cl_socket c) [] [] (Suc room)"
    and "now - cl_last_send_us c \<ge> cc_retry_interval_us (cl_config c)" and "now - cl_last_receive_us c \<le> cc_timeout_us (cl_config c)"
    and "length (cc_connect_token (cl_config c)) = 32" and "cl_client_salt c \<noteq> 0" and c': "c' = client_update ch now c"
  shows "cl_state c' = kSendingRequest" and "cl_config c' = cl_config c" and "cl_client_salt c' = cl_client_salt c"
    and "sock_is (cl_socket c') [] [(cc_server (cl_config c), request_packet (cl_client_salt c) (cc_connect_token (cl_config c)))] room"
proof -
  let ?data = "request_packet (cl_client_salt c) (cc_connect_token (cl_config c))"
  obtain sock where sock: "sock_is sock [] [] (Suc room)"
      and drain: "client_drain (Suc (length (incoming (cl_socket c)))) ch now c = c\<lparr>cl_socket := sock\<rparr>"
    by (rule client_drain_end [OF assms(2)])
  have "?data \<noteq> []" using request_packet_read(3) [OF assms(5,6)] by auto
  from sock_send [OF sock this] show "cl_state c' = kSendingRequest" "cl_config c' = cl_config c" "cl_client_salt c' = cl_client_salt c"
    "sock_is (cl_socket c') [] [(cc_server (cl_config c), ?data)] room"
    using assms(1,3,4)
    by (simp_all add: c' client_update_def drain client_tick_def send_connection_request_def client_send_def Let_def not_less
        del: client_drain.simps)
qed

lemma handle_request:
  assumes "map_of (cs_connections s) me = None" and "length (cs_connections s) < unat (sc_max_connections (cs_config s))"
    and "map_of (cs_pending s) me = None" and "length token = 32" and "v \<noteq> 0"
    and "generate_salt (cs_random s) = (u, g)"
  shows "handle_datagram h (me, request_packet v token) now s = send_challenge me v u (s\<lparr>cs_random := g,
     cs_pending := AList.update me \<lparr>ph_client_salt = v, ph_server_salt = u, ph_token = token, ph_started_us = now\<rparr> (cs_pending s)\<rparr>)"
proof -
  note r = request_packet_read [OF assms(4,5)]
  have five: "unat kHeaderBytes = 5" by (simp add: kHeaderBytes_def)
  have "\<not> (word_of_nat (length (drop 5 (request_packet v token))) :: u32) < 8 + kConnectTokenBytes + kConnectionRequestPadding"
    using r(3) by (simp add: kConnectTokenBytes_def kConnectionRequestPadding_def)
  with r assms show ?thesis
    by (simp add: handle_datagram_def five handle_connection_request_def Let_def mk_pending_def)
qed

text \<open>The service admits the token, whatever its state.\<close>

definition admits :: "'w handlers \<Rightarrow> address \<Rightarrow> connect_token \<Rightarrow> bool" where
  "admits h a token = (case on_admit h of None \<Rightarrow> True | Some admit \<Rightarrow> \<forall>w. ad_admit (fst (admit a token w)))"

text \<open>In one state of the service: it admits the token there, and the new connection then replaces no client.\<close>

definition welcomes :: "'w handlers \<Rightarrow> address \<Rightarrow> connect_token \<Rightarrow> 'w \<Rightarrow> bool" where
  "welcomes h a token w =
     (case on_admit h of
        None \<Rightarrow> replaces_none h 0 w
      | Some admit \<Rightarrow> (case admit a token w of (d, w') \<Rightarrow> ad_admit d \<and> replaces_none h (ad_client_id d) w'))"

lemma plain_welcomes: "plain_service h \<Longrightarrow> admits h a token \<Longrightarrow> welcomes h a token w"
  by (auto simp: welcomes_def admits_def plain_replaces_none split: option.splits prod.splits) (metis fst_conv)

lemma decide_welcome:
  assumes "welcomes h a token (cs_service s)" and "decide h a token s = (d, t)"
  shows "ad_admit d" and "replaces_none h (ad_client_id d) (cs_service t)"
  using assms by (auto simp: welcomes_def decide_def next_client_id_def replaces_none_def split: option.splits prod.splits)

lemma handle_response:
  assumes "map_of (cs_connections s) me = None" and "map_of (cs_pending s) me = Some p"
    and "welcomes h me (ph_token p) (cs_service s)"
  obtains k t where "handle_datagram h (me, response_packet (ph_client_salt p XOR ph_server_salt p)) now s =
      establish h me (ph_client_salt p XOR ph_server_salt p) (ph_token p) k now t"
    and "cs_connections t = cs_connections s" and "cs_pending t = cs_pending s" and "cs_by_client t = cs_by_client s" and "cs_socket t = cs_socket s"
    and "replaces_none h k (cs_service t)"
proof -
  obtain d t where d: "decide h me (ph_token p) s = (d, t)" by (rule prod.exhaust)
  note admit = decide_welcome [OF assms(3) d]
  have five: "unat kHeaderBytes = 5" by (simp add: kHeaderBytes_def)
  have "handle_datagram h (me, response_packet (ph_client_salt p XOR ph_server_salt p)) now s =
      establish h me (ph_client_salt p XOR ph_server_salt p) (ph_token p) (ad_client_id d) now t"
    using assms(1,2) d admit(1) response_packet_read by (simp add: handle_datagram_def five handle_challenge_response_def)
  with decide_tables [OF d] admit(2) show thesis by (intro that [of "ad_client_id d" t]) simp_all
qed

lemma client_answers:
  assumes "cl_state c = kSendingRequest" and "sock_is (cl_socket c) [(cc_server (cl_config c), challenge_packet (cl_client_salt c) u)] [] (Suc room)"
    and "0 < cc_retry_interval_us (cl_config c)" and c': "c' = client_update ch now c"
  shows "cl_state c' = kSendingResponse" and "cl_config c' = cl_config c" and "session_salt c' = cl_client_salt c XOR u"
    and "sock_is (cl_socket c') [] [(cc_server (cl_config c), response_packet (cl_client_salt c XOR u))] room"
proof -
  let ?data = "challenge_packet (cl_client_salt c) u" and ?reply = "response_packet (cl_client_salt c XOR u)"
  have len: "?data \<noteq> []" "length ?data \<le> 1200" "?reply \<noteq> []"
    using challenge_packet_read(3) [of "cl_client_salt c" u] response_packet_read(3) [of "cl_client_salt c XOR u"] by auto
  have five: "unat kHeaderBytes = 5" by (simp add: kHeaderBytes_def)
  obtain sock where sock: "sock_is sock [] [] (Suc room)"
      and drain: "client_drain (Suc (length (incoming (cl_socket c)))) ch now c = client_drain 1 ch now (process_datagram ch ?data now (c\<lparr>cl_socket := sock\<rparr>))"
    by (rule client_drain_one [OF assms(2) len(1,2)])
  let ?d = "(c\<lparr>cl_socket := snd (socket_send (cc_server (cl_config c)) ?reply sock), cl_server_salt := u, cl_state := kSendingResponse,
      cl_last_receive_us := now, cl_last_send_us := now\<rparr>)"
  have process: "process_datagram ch ?data now (c\<lparr>cl_socket := sock\<rparr>) = ?d"
    using assms(1) challenge_packet_read
    by (simp add: process_datagram_def five send_challenge_response_def session_salt_def client_send_def)
  have sock2: "sock_is (cl_socket ?d) [] [(cc_server (cl_config c), ?reply)] room" using sock_send [OF sock len(3)] by simp
  obtain sock' where sock': "sock_is sock' [] [(cc_server (cl_config c), ?reply)] room" and last: "client_drain 1 ch now ?d = ?d\<lparr>cl_socket := sock'\<rparr>"
    using client_drain_end [OF sock2, of 0 ch now] by auto
  have retry: "cc_retry_interval_us (cl_config c) \<noteq> 0" using assms(3) by auto
  show "cl_state c' = kSendingResponse" "cl_config c' = cl_config c" "session_salt c' = cl_client_salt c XOR u"
    "sock_is (cl_socket c') [] [(cc_server (cl_config c), ?reply)] room"
    using assms(1) sock' retry
    by (simp_all add: c' client_update_def drain process last client_tick_def session_salt_def Let_def del: client_drain.simps One_nat_def)
qed

lemma send_payload_keeps:
  "cl_state (snd (client_send_payload data now c)) = cl_state c" "cl_config (snd (client_send_payload data now c)) = cl_config c"
  "cl_client_id (snd (client_send_payload data now c)) = cl_client_id c" "session_salt (snd (client_send_payload data now c)) = session_salt c"
  "cl_last_receive_us (snd (client_send_payload data now c)) = cl_last_receive_us c"
  by (simp_all add: client_send_payload_def session_salt_def split: prod.split option.split)

lemma client_connects:
  assumes "cl_state c = kSendingResponse" and "sock_is (cl_socket c) [(cc_server (cl_config c), accepted_packet k)] [] room"
    and "cn_salt k = session_salt c" and c': "c' = client_update ch now c"
  shows "cl_state c' = kConnected" and "session_salt c' = cn_salt k" and "cl_client_id c' = cn_client_id k"
proof -
  let ?data = "accepted_packet k"
  have len: "?data \<noteq> []" "length ?data \<le> 1200" using accepted_packet_read(3) [of k] by auto
  have five: "unat kHeaderBytes = 5" by (simp add: kHeaderBytes_def)
  obtain sock where sock: "sock_is sock [] [] room"
      and drain: "client_drain (Suc (length (incoming (cl_socket c)))) ch now c = client_drain 1 ch now (process_datagram ch ?data now (c\<lparr>cl_socket := sock\<rparr>))"
    by (rule client_drain_one [OF assms(2) len])
  let ?d = "c\<lparr>cl_socket := sock, cl_state := kConnected, cl_client_id := cn_client_id k, cl_entity := cn_entity k, cl_last_receive_us := now\<rparr>"
  have process: "process_datagram ch ?data now (c\<lparr>cl_socket := sock\<rparr>) = ?d"
    using assms(1,3) accepted_packet_read [of k] by (simp add: process_datagram_def five session_salt_def)
  have "sock_is (cl_socket ?d) [] [] room" using sock by simp
  then obtain sock' where last: "client_drain 1 ch now ?d = ?d\<lparr>cl_socket := sock'\<rparr>"
    by (rule client_drain_end [of _ _ _ 0 ch now]) auto
  show "cl_state c' = kConnected" "session_salt c' = cn_salt k" "cl_client_id c' = cn_client_id k"
    using assms(1,3)
    by (simp_all add: c' client_update_def drain process last client_tick_def session_salt_def Let_def send_payload_keeps
        send_payload_keeps(4) [unfolded session_salt_def] del: client_drain.simps One_nat_def)
qed

lemma map_of_kept: "map_of xs k = Some v \<Longrightarrow> P (k, v) \<Longrightarrow> map_of (filter P xs) k = Some v"
  by (induction xs) (auto split: if_splits)

lemma server_challenges:
  assumes "sock_is (cs_socket s) [(me, request_packet v token)] [] (Suc room)"
    and "map_of (cs_connections s) me = None" and "length (cs_connections s) < unat (sc_max_connections (cs_config s))"
    and "map_of (cs_pending s) me = None" and "length token = 32" and "v \<noteq> 0" and s': "s' = snd (server_receive h now s)"
  obtains p where "map_of (cs_pending s') me = Some p" and "ph_client_salt p = v" and "ph_token p = token"
    and "cs_connections s' = cs_connections s" and "sock_is (cs_socket s') [] [(me, challenge_packet v (ph_server_salt p))] room"
    and "cs_service s' = cs_service s"
proof -
  obtain u g where u: "generate_salt (cs_random s) = (u, g)" by (rule prod.exhaust)
  let ?p = "\<lparr>ph_client_salt = v, ph_server_salt = u, ph_token = token, ph_started_us = now\<rparr>"
  note len = request_packet_read(3) [OF assms(5,6)] challenge_packet_read(3) [of v u]
  have handle: "handle_datagram h (me, request_packet v token) now (s\<lparr>cs_socket := sock\<rparr>) = send_challenge me v u (s\<lparr>cs_socket := sock,
      cs_random := g, cs_pending := AList.update me ?p (cs_pending s)\<rparr>)" for sock
    using handle_request [of "s\<lparr>cs_socket := sock\<rparr>" me token v u g h now] assms(2-6) u by simp
  have send: "sock_is (snd (socket_send me (challenge_packet v u) sock)) [] [(me, challenge_packet v u)] room" if "sock_is sock [] [] (Suc room)" for sock
    using sock_send [OF that, of "challenge_packet v u" me] len(2) by fastforce
  have keep: "sock_is (cs_socket (handle_datagram h (me, request_packet v token) now (s\<lparr>cs_socket := sock\<rparr>))) [] [(me, challenge_packet v u)] room"
    if "sock_is sock [] [] (Suc room)" for sock
    using send [OF that] by (simp add: handle send_challenge_def)
  have data: "request_packet v token \<noteq> []" "length (request_packet v token) \<le> 1200" using len(1) by auto
  obtain sock sock' where sock': "sock_is sock' [] [(me, challenge_packet v u)] room"
    and run: "s' = expire_pending now ((handle_datagram h (me, request_packet v token) now (s\<lparr>cs_socket := sock\<rparr>))\<lparr>cs_socket := sock'\<rparr>)"
    unfolding s' by (rule server_drain_one [OF assms(1) data keep])
  have pend: "cs_pending s' = filter (\<lambda>(a, p). \<not> now - ph_started_us p > kHandshakeTimeoutUs) (AList.update me ?p (cs_pending s))"
    and rest: "cs_connections s' = cs_connections s" "cs_socket s' = sock'" "cs_service s' = cs_service s"
    by (simp_all add: run expire_pending_def handle send_challenge_def)
  have "map_of (cs_pending s') me = Some ?p"
    unfolding pend by (intro map_of_kept) (simp_all add: update_conv')
  with sock' rest show thesis by (intro that [of ?p]) simp_all
qed

lemma server_accepts:
  assumes "handlers_ok h" and "sock_is (cs_socket s) [(me, response_packet (ph_client_salt p XOR ph_server_salt p))] [] (Suc room)"
    and "map_of (cs_connections s) me = None" and "map_of (cs_pending s) me = Some p"
    and "welcomes h me (ph_token p) (cs_service s)" and s': "s' = snd (server_receive h now s)"
  obtains k where "map_of (cs_connections s') me = Some k" and "cn_salt k = ph_client_salt p XOR ph_server_salt p" and "cn_token k = ph_token p"
    and "sock_is (cs_socket s') [] [(me, accepted_packet k)] room"
proof -
  let ?v = "ph_client_salt p XOR ph_server_salt p"
  have data: "response_packet ?v \<noteq> []" "length (response_packet ?v) \<le> 1200" using response_packet_read(3) [of ?v] by auto
  obtain sock where r: "socket_receive kMaxDatagramSize (cs_socket s) = (Some (me, response_packet ?v), sock)" and sock: "sock_is sock [] [] (Suc room)"
    using sock_receive_one [OF assms(2)] data(2) by auto
  obtain k t where run: "handle_datagram h (me, response_packet ?v) now (s\<lparr>cs_socket := sock\<rparr>) = establish h me ?v (ph_token p) k now t"
    and t: "cs_connections t = cs_connections s" "cs_socket t = sock" and none: "replaces_none h k (cs_service t)"
    by (rule handle_response [of "s\<lparr>cs_socket := sock\<rparr>" me p h now]) (use assms(3-5) in simp_all)
  obtain c where c: "cn_salt c = ?v" "cn_token c = ph_token p"
    "cs_connections (establish h me ?v (ph_token p) k now t) = AList.update me c (AList.update me c (cs_connections t))"
    "cs_socket (establish h me ?v (ph_token p) k now t) = snd (socket_send me (accepted_packet c) (cs_socket t))"
    by (rule establish_tables [OF assms(1) none, of me ?v "ph_token p" now])
  have "accepted_packet c \<noteq> []" using accepted_packet_read(3) [of c] by auto
  then have e: "sock_is (cs_socket (establish h me ?v (ph_token p) k now t)) [] [(me, accepted_packet c)] room"
    using sock_send [OF sock] by (simp add: c t)
  obtain sock' where r': "socket_receive kMaxDatagramSize (cs_socket (establish h me ?v (ph_token p) k now t)) = (None, sock')"
    and sock': "sock_is sock' [] [(me, accepted_packet c)] room" by (rule sock_receive_none [OF e])
  have "length (incoming (cs_socket s)) = 1" using assms(2) by (simp add: sock_is_def)
  then have "s' = expire_pending now ((establish h me ?v (ph_token p) k now t)\<lparr>cs_socket := sock'\<rparr>)"
    using r r' run data(1) by (simp add: s' server_receive_def)
  then show thesis
    using c t sock' by (intro that [of c]) (simp_all add: expire_pending_def update_conv')
qed

lemma carry_up_spec:
  assumes "sock_is (cl_socket c) [] [(cc_server (cl_config c), data)] room" and "sock_is (cs_socket s) [] [] room'" and "length data \<le> 1200"
    and run: "carry_up me c s = (c', s')"
  shows "sock_is (cl_socket c') [] [] room" and "sock_is (cs_socket s') [(me, data)] [] room'"
    and "cl_state c' = cl_state c" and "cl_config c' = cl_config c" and "cl_client_salt c' = cl_client_salt c" and "session_salt c' = session_salt c"
    and "cs_connections s' = cs_connections s" and "cs_pending s' = cs_pending s" and "cs_config s' = cs_config s"
    and "cs_service s' = cs_service s"
  using sock_carry [OF assms(1-3), of me] run by (auto simp: carry_up_def session_salt_def split: prod.splits)

lemma carry_down_spec:
  assumes "sock_is (cl_socket c) [] [] room" and "sock_is (cs_socket s) [] [(me, data)] room'" and "length data \<le> 1200"
    and run: "carry_down me c s = (c', s')"
  shows "sock_is (cl_socket c') [(cc_server (cl_config c), data)] [] room" and "sock_is (cs_socket s') [] [] room'"
    and "cl_state c' = cl_state c" and "cl_config c' = cl_config c" and "cl_client_salt c' = cl_client_salt c" and "session_salt c' = session_salt c"
    and "cs_connections s' = cs_connections s" and "cs_pending s' = cs_pending s" and "cs_service s' = cs_service s"
  using sock_carry [OF assms(2) assms(1) assms(3), of "cc_server (cl_config c)"] run by (auto simp: carry_down_def session_salt_def split: prod.splits)

text \<open>The first round: request and challenge.\<close>

lemma first_round:
  assumes c: "cl_state c = kSendingRequest" "sock_is (cl_socket c) [] [] (Suc n)" "t - cl_last_send_us c \<ge> cc_retry_interval_us (cl_config c)"
      "t - cl_last_receive_us c \<le> cc_timeout_us (cl_config c)" "length (cc_connect_token (cl_config c)) = 32" "cl_client_salt c \<noteq> 0"
    and s: "sock_is (cs_socket s) [] [] (Suc m)" "map_of (cs_connections s) me = None" "map_of (cs_pending s) me = None"
      "length (cs_connections s) < unat (sc_max_connections (cs_config s))"
    and run: "exchange ch h me t u (c, s) = (c', s')"
  obtains p where "map_of (cs_pending s') me = Some p" and "ph_client_salt p = cl_client_salt c'" and "ph_token p = cc_connect_token (cl_config c)"
    and "cl_state c' = kSendingRequest" and "cl_config c' = cl_config c" and "map_of (cs_connections s') me = None"
    and "sock_is (cl_socket c') [(cc_server (cl_config c'), challenge_packet (cl_client_salt c') (ph_server_salt p))] [] n"
    and "sock_is (cs_socket s') [] [] m" and "cs_service s' = cs_service s"
proof -
  note req = client_requests [OF c refl, of ch]
  have len: "length (request_packet (cl_client_salt c) (cc_connect_token (cl_config c))) \<le> 1200"
    using request_packet_read(3) [OF c(5,6)] by simp
  obtain c1 s1 where up: "carry_up me (client_update ch t c) s = (c1, s1)" by (rule prod.exhaust)
  have sent: "sock_is (cl_socket (client_update ch t c)) [] [(cc_server (cl_config (client_update ch t c)),
      request_packet (cl_client_salt c) (cc_connect_token (cl_config c)))] n" using req by simp
  note up1 = carry_up_spec [OF sent s(1) len up]
  obtain p where p: "map_of (cs_pending (snd (server_receive h u s1))) me = Some p" "ph_client_salt p = cl_client_salt c"
      "ph_token p = cc_connect_token (cl_config c)" "cs_connections (snd (server_receive h u s1)) = cs_connections s1"
      "sock_is (cs_socket (snd (server_receive h u s1))) [] [(me, challenge_packet (cl_client_salt c) (ph_server_salt p))] m"
      "cs_service (snd (server_receive h u s1)) = cs_service s1"
    by (rule server_challenges [OF up1(2) _ _ _ c(5,6) refl]) (use s up1 in simp_all)
  have down: "carry_down me c1 (snd (server_receive h u s1)) = (c', s')" using run up by (simp add: exchange_def)
  have "length (challenge_packet (cl_client_salt c) (ph_server_salt p)) \<le> 1200" by (simp add: challenge_packet_read(3))
  note down1 = carry_down_spec [OF up1(1) p(5) this down]
  show thesis
    by (rule that [of p]) (use p up1 down1 req s in simp_all)
qed

text \<open>The second round: response and acceptance.\<close>

lemma second_round:
  assumes h: "handlers_ok h" "welcomes h me (ph_token p) (cs_service s)"
    and c: "cl_state c = kSendingRequest" "0 < cc_retry_interval_us (cl_config c)"
      "sock_is (cl_socket c) [(cc_server (cl_config c), challenge_packet (cl_client_salt c) (ph_server_salt p))] [] (Suc n)"
    and s: "sock_is (cs_socket s) [] [] (Suc m)" "map_of (cs_connections s) me = None" "map_of (cs_pending s) me = Some p"
      "ph_client_salt p = cl_client_salt c"
    and run: "exchange ch h me t u (c, s) = (c', s')"
  obtains k where "map_of (cs_connections s') me = Some k" and "cn_salt k = session_salt c'" and "cn_token k = ph_token p"
    and "cl_state c' = kSendingResponse" and "sock_is (cl_socket c') [(cc_server (cl_config c'), accepted_packet k)] [] n"
proof -
  note ans = client_answers [OF c(1,3,2) refl, of ch t]
  let ?v = "ph_client_salt p XOR ph_server_salt p"
  have len: "length (response_packet ?v) \<le> 1200" by (simp add: response_packet_read(3))
  obtain c1 s1 where up: "carry_up me (client_update ch t c) s = (c1, s1)" by (rule prod.exhaust)
  have sent: "sock_is (cl_socket (client_update ch t c)) [] [(cc_server (cl_config (client_update ch t c)), response_packet ?v)] n"
    using ans s(4) by simp
  note up1 = carry_up_spec [OF sent s(1) len up]
  obtain k where k: "map_of (cs_connections (snd (server_receive h u s1))) me = Some k" "cn_salt k = ?v" "cn_token k = ph_token p"
      "sock_is (cs_socket (snd (server_receive h u s1))) [] [(me, accepted_packet k)] m"
    by (rule server_accepts [OF h(1) up1(2) _ _ _ refl]) (use s h(2) up1 in simp_all)
  have down: "carry_down me c1 (snd (server_receive h u s1)) = (c', s')" using run up by (simp add: exchange_def)
  have "length (accepted_packet k) \<le> 1200" by (simp add: accepted_packet_read(3))
  note down1 = carry_down_spec [OF up1(1) k(4) this down]
  show thesis
    by (rule that [of k]) (use k up1 down1 ans s in simp_all)
qed


section \<open>Properties\<close>

lemma client_start_begins:
  assumes "client_start opened config t0 c = (True, c0)"
  shows "cl_state c0 = kSendingRequest" and "cl_config c0 = config" and "cl_last_send_us c0 = 0" and "cl_last_receive_us c0 = t0"
    and "cl_client_salt c0 \<noteq> 0"
proof -
  obtain b sock where "(if us_open (cl_socket c) then (True, cl_socket c) else socket_open opened (cl_socket c)) = (b, sock)" by (rule prod.exhaust)
  with assms have "c0 = begin_handshake t0 (c\<lparr>cl_config := config, cl_socket := sock\<rparr>)" by (simp add: client_start_def Let_def split: if_splits)
  then show "cl_state c0 = kSendingRequest" and "cl_config c0 = config" and "cl_last_send_us c0 = 0" and "cl_last_receive_us c0 = t0"
    and "cl_client_salt c0 \<noteq> 0"
    using generate_salt_nonzero [of "cl_random c"] by (auto simp: begin_handshake_def split: prod.splits)
qed

text \<open>
  C32: the handshake completes. A client that has just started, over a network that delivers, is connected after two round
  trips and one more update: the server holds a connection for its address with the client's session salt and token, and the
  client has been told its number. The server must have room for one more connection and know nothing of the address yet; its
  service must admit the token in the state that it is in and then replace no other client; nothing is assumed of the two
  clocks but that the client's first update comes no earlier than its retry interval and no later than its timeout.
\<close>

theorem handshake_completes:
  fixes c :: "'a client_connection" and s :: "'b connection_server"
  assumes "handlers_ok h" and "welcomes h me (cc_connect_token config) (cs_service s)"
    and "client_start opened config t0 c = (True, c0)" and "sock_is (cl_socket c0) [] [] (Suc (Suc n))" and "sock_is (cs_socket s) [] [] (Suc (Suc m))"
    and "map_of (cs_connections s) me = None" and "map_of (cs_pending s) me = None"
    and "length (cs_connections s) < unat (sc_max_connections (cs_config s))"
    and "length (cc_connect_token config) = 32" and "0 < cc_retry_interval_us config" and "cc_retry_interval_us config \<le> t1"
    and "t1 - t0 \<le> cc_timeout_us config"
    and "exchange ch h me t2 u2 (exchange ch h me t1 u1 (c0, s)) = (c', s')"
  shows "\<exists>k. map_of (cs_connections s') me = Some k \<and> cn_token k = cc_connect_token config \<and>
     cl_state (client_update ch t3 c') = kConnected \<and> session_salt (client_update ch t3 c') = cn_salt k \<and>
     cl_client_id (client_update ch t3 c') = cn_client_id k"
proof -
  have start: "cl_state c0 = kSendingRequest" "cl_config c0 = config" "cl_last_send_us c0 = 0" "cl_last_receive_us c0 = t0" "cl_client_salt c0 \<noteq> 0"
    using client_start_begins [OF assms(3)] .
  obtain c1 s1 where r1: "exchange ch h me t1 u1 (c0, s) = (c1, s1)" by (rule prod.exhaust)
  obtain p where p: "map_of (cs_pending s1) me = Some p" "ph_client_salt p = cl_client_salt c1" "ph_token p = cc_connect_token config"
      "cl_state c1 = kSendingRequest" "cl_config c1 = config" "map_of (cs_connections s1) me = None"
      "sock_is (cl_socket c1) [(cc_server (cl_config c1), challenge_packet (cl_client_salt c1) (ph_server_salt p))] [] (Suc n)"
      "sock_is (cs_socket s1) [] [] (Suc m)" "cs_service s1 = cs_service s"
    by (rule first_round [OF start(1) assms(4) _ _ _ start(5) assms(5-8) r1]) (use assms start in simp_all)
  have r2: "exchange ch h me t2 u2 (c1, s1) = (c', s')" using assms(13) r1 by simp
  obtain k where k: "map_of (cs_connections s') me = Some k" "cn_salt k = session_salt c'" "cn_token k = ph_token p"
      "cl_state c' = kSendingResponse" "sock_is (cl_socket c') [(cc_server (cl_config c'), accepted_packet k)] [] n"
    by (rule second_round [OF assms(1) _ p(4) _ p(7,8,6,1,2) r2]) (use assms(2,10) p in simp_all)
  from client_connects [OF k(4,5,2) refl, of ch t3] k p(3) show ?thesis by auto
qed

definition sample_client_config :: client_config where
  "sample_client_config = \<lparr>cc_server = \<lparr>ad_ip = 0x7f000001, ad_port = 7000\<rparr>, cc_connect_token = replicate 32 7, cc_timeout_us = 5000000,
     cc_retry_interval_us = 250000, cc_keepalive_us = 100000, cc_bind = sample_address\<rparr>"

definition blank_client :: "unit client_connection" where
  "blank_client = \<lparr>cl_config = sample_client_config, cl_socket = mk_socket 100, cl_state = kDisconnected, cl_deny_reason = 0, cl_client_salt = 0,
     cl_server_salt = 0, cl_last_send_us = 0, cl_last_receive_us = 0, cl_connect_started_us = 0, cl_client_id = 0, cl_entity = 0,
     cl_reliability = mk_endpoint, cl_random = \<lparr>rnd_numbers = (\<lambda>n. word_of_nat n), rnd_drawn = 3\<rparr>, cl_service = ()\<rparr>"

definition quiet_client :: "unit client_handlers" where
  "quiet_client = \<lparr>on_client_payload = (\<lambda>_ w. w), on_client_message = (\<lambda>_ w. w)\<rparr>"

theorem handshake_completes_witness:
  "\<exists>c s k. exchange quiet_client quiet_handlers sample_address 1400000 20 (exchange quiet_client quiet_handlers sample_address 1300000 10
       (snd (client_start True sample_client_config 1000000 blank_client), blank_server)) = (c, s) \<and>
     map_of (cs_connections s) sample_address = Some k \<and> cl_state (client_update quiet_client 1500000 c) = kConnected"
proof -
  let ?c = "snd (client_start True sample_client_config 1000000 blank_client)"
  obtain c s where run: "exchange quiet_client quiet_handlers sample_address 1400000 20 (exchange quiet_client quiet_handlers sample_address 1300000 10
      (?c, blank_server)) = (c, s)" by (rule prod.exhaust)
  have two: "Suc (Suc 98) = 100" by simp
  have adm: "welcomes quiet_handlers sample_address (cc_connect_token sample_client_config) (cs_service blank_server)"
    by (simp add: welcomes_def replaces_none_def quiet_handlers_def)
  have start: "client_start True sample_client_config 1000000 blank_client = (True, ?c)"
    by (simp add: client_start_def blank_client_def mk_socket_def)
  have sock: "sock_is (cl_socket ?c) [] [] (Suc (Suc 98))" "sock_is (cs_socket blank_server) [] [] (Suc (Suc 98))"
    unfolding two by (simp_all add: sock_is_def client_start_def begin_handshake_def generate_salt_def Let_def
        blank_client_def blank_server_def mk_socket_def incoming_def)
  have tables: "map_of (cs_connections blank_server) sample_address = None" "map_of (cs_pending blank_server) sample_address = None"
      "length (cs_connections blank_server) < unat (sc_max_connections (cs_config blank_server))"
    by (simp_all add: blank_server_def)
  have conf: "length (cc_connect_token sample_client_config) = 32" "0 < cc_retry_interval_us sample_client_config"
      "cc_retry_interval_us sample_client_config \<le> 1300000" "1300000 - 1000000 \<le> cc_timeout_us sample_client_config"
    by (simp_all add: sample_client_config_def)
  from handshake_completes [OF quiet_handlers_ok(1) adm start sock tables conf run, of 1500000] run show ?thesis by blast
qed

lemma accepted_reply: "length (accepted_packet c) \<le> 21" "length (denied_packet r) \<le> 21" "length (challenge_packet v u) \<le> 21"
  by (simp_all add: accepted_packet_read length_denied_packet challenge_packet_read)

lemma send_out:
  "us_kernel_out (snd (socket_send to data s)) = us_kernel_out s \<or> us_kernel_out (snd (socket_send to data s)) = us_kernel_out s @ [(to, data)]"
  by (cases "us_kernel_room s") (simp_all add: socket_send_def)

text \<open>
  C33: a request is never amplified. Whatever the state of the server and whatever the request holds, handling it puts at
  most one datagram on the wire, to the sender, of at most 21 bytes; and a request of less than 1045 bytes is not answered
  at all.
\<close>

theorem request_not_amplified:
  assumes "server_ok s" and "length (snd d) \<le> 1200" and "read_header (snd d) = Some kConnectionRequest"
  shows "us_kernel_out (cs_socket (handle_datagram h d now s)) = us_kernel_out (cs_socket s) \<or>
    (\<exists>reply. us_kernel_out (cs_socket (handle_datagram h d now s)) = us_kernel_out (cs_socket s) @ [(fst d, reply)] \<and>
       length reply \<le> 21 \<and> 1045 \<le> length (snd d))"
proof -
  let ?body = "drop (unat kHeaderBytes) (snd d)"
  have run: "handle_datagram h d now s = handle_connection_request (fst d) ?body now s" using assms(3) by (simp add: handle_datagram_def)
  show ?thesis
  proof (cases "word_of_nat (length ?body) < 8 + kConnectTokenBytes + kConnectionRequestPadding")
    case True
    then show ?thesis by (simp add: run handle_connection_request_def)
  next
    case False
    have "length ?body < 2 ^ 32" using assms(2) by simp
    then have "1040 \<le> length ?body"
      using False by (simp add: kConnectTokenBytes_def kConnectionRequestPadding_def word_less_nat_alt unat_of_nat_less)
    then have long: "1045 \<le> length (snd d)" by (simp add: kHeaderBytes_def)
    have addr: "map_of (cs_connections s) (fst d) = Some c \<Longrightarrow> cn_address c = fst d" for c
      using assms(1) unfolding server_ok_def by (blast dest: tables_okD(1))
    have "cs_socket (handle_datagram h d now s) = cs_socket s \<or>
        (\<exists>reply. cs_socket (handle_datagram h d now s) = snd (socket_send (fst d) reply (cs_socket s)) \<and> length reply \<le> 21)"
    proof (cases "read_request ?body")
      case None
      then show ?thesis using False by (simp add: run handle_connection_request_def)
    next
      case (Some r)
      then show ?thesis
      proof (cases "map_of (cs_connections s) (fst d)")
        case None
        then show ?thesis
          using False Some accepted_reply
          by (cases r) (auto simp: run handle_connection_request_def send_defs Let_def case_prod_beta simp del: map_of_eq_None_iff)
      next
        case c: (Some c)
        then show ?thesis
          using False Some accepted_reply addr [OF c] by (cases r) (auto simp: run handle_connection_request_def send_defs simp del: map_of_eq_Some_iff)
      qed
    qed
    then show ?thesis
    proof (elim disjE exE conjE)
      fix reply
      assume "cs_socket (handle_datagram h d now s) = snd (socket_send (fst d) reply (cs_socket s))" and "length reply \<le> 21"
      then show ?thesis using send_out [of "fst d" reply "cs_socket s"] long by auto
    qed simp
  qed
qed

theorem request_not_amplified_witness:
  "us_kernel_out (cs_socket (handle_datagram quiet_handlers (sample_address, request_packet 3 (replicate 32 7)) 10 blank_server)) = [] \<or>
   (\<exists>reply. us_kernel_out (cs_socket (handle_datagram quiet_handlers (sample_address, request_packet 3 (replicate 32 7)) 10 blank_server)) =
      [(sample_address, reply)] \<and> length reply \<le> 21)"
proof -
  have ok: "server_ok blank_server" by (simp add: blank_server_def server_ok_def tables_ok_def)
  have out: "us_kernel_out (cs_socket blank_server) = []" by (simp add: blank_server_def mk_socket_def)
  have r: "read_header (request_packet 3 (replicate 32 7)) = Some kConnectionRequest" "length (request_packet 3 (replicate 32 7)) = 1045"
    using request_packet_read [of "replicate 32 7" 3] by simp_all
  from request_not_amplified [OF ok, of "(sample_address, request_packet 3 (replicate 32 7))" quiet_handlers 10] r out show ?thesis by auto
qed

lemma length_update_new: "map_of xs a = None \<Longrightarrow> length (AList.update a c xs) = Suc (length xs)"
  by (induction xs) auto

lemma length_update_same: "map_of xs a \<noteq> None \<Longrightarrow> length (AList.update a c xs) = length xs"
  by (induction xs) auto

lemma establish_adds:
  assumes "plain_service h" and "map_of (cs_connections s) a = None" and "map_of (cs_pending s) a = Some p" and "admits h a (ph_token p)"
    and s': "s' = handle_datagram h (a, response_packet (ph_client_salt p XOR ph_server_salt p)) now s"
  shows "length (cs_connections s') = Suc (length (cs_connections s))"
    and "b \<noteq> a \<Longrightarrow> map_of (cs_connections s') b = map_of (cs_connections s) b"
    and "b \<noteq> a \<Longrightarrow> map_of (cs_pending s') b = map_of (cs_pending s) b"
proof -
  let ?v = "ph_client_salt p XOR ph_server_salt p"
  obtain k t where run: "s' = establish h a ?v (ph_token p) k now t" and t: "cs_connections t = cs_connections s" "cs_pending t = cs_pending s"
    and none: "replaces_none h k (cs_service t)"
    unfolding s' by (rule handle_response [OF assms(2,3) plain_welcomes [OF assms(1,4)], of now])
  obtain c where c: "cs_connections s' = AList.update a c (AList.update a c (cs_connections s))" "cs_pending s' = AList.delete a (cs_pending s)"
    unfolding run by (rule establish_tables [OF plain_serviceD(1) [OF assms(1)] none, of a ?v "ph_token p" now]) (use t in simp)
  show "length (cs_connections s') = Suc (length (cs_connections s))" unfolding c using length_update_new [OF assms(2)] by (simp add: update_conv' length_update_same)
  show "b \<noteq> a \<Longrightarrow> map_of (cs_connections s') b = map_of (cs_connections s) b"
    and "b \<noteq> a \<Longrightarrow> map_of (cs_pending s') b = map_of (cs_pending s) b"
    unfolding c by (simp_all add: update_conv' delete_conv')
qed

lemma request_adds:
  assumes "map_of (cs_connections s) a = None" and "length (cs_connections s) < unat (sc_max_connections (cs_config s))"
    and "map_of (cs_pending s) a = None" and "length token = 32" and "v \<noteq> 0"
    and s': "s' = handle_datagram h (a, request_packet v token) now s"
  shows "\<exists>p. map_of (cs_pending s') a = Some p \<and> ph_token p = token"
    and "b \<noteq> a \<Longrightarrow> map_of (cs_pending s') b = map_of (cs_pending s) b"
    and "cs_connections s' = cs_connections s" and "cs_config s' = cs_config s"
proof -
  obtain u g where "generate_salt (cs_random s) = (u, g)" by (rule prod.exhaust)
  note run = handle_request [OF assms(1-5) this, of h now, folded s']
  show "\<exists>p. map_of (cs_pending s') a = Some p \<and> ph_token p = token" and "b \<noteq> a \<Longrightarrow> map_of (cs_pending s') b = map_of (cs_pending s) b"
    and "cs_connections s' = cs_connections s" and "cs_config s' = cs_config s"
    unfolding run by (simp_all add: send_defs update_conv')
qed

text \<open>
  C34: the limit on connections is not enforced. It is looked at when a challenge is handed out and not when the response
  establishes the connection: with room for one more connection, two clients that ask before either answers both become
  connected, and the server holds one connection more than its limit.
\<close>

theorem connection_limit_not_enforced:
  assumes "plain_service h" and "a \<noteq> b" and "admits h a token" and "admits h b token" and "length token = 32" and "v \<noteq> 0" and "w \<noteq> 0"
    and "map_of (cs_connections s) a = None" and "map_of (cs_connections s) b = None"
    and "map_of (cs_pending s) a = None" and "map_of (cs_pending s) b = None"
    and "Suc (length (cs_connections s)) = unat (sc_max_connections (cs_config s))"
  shows "\<exists>(p :: pending_handshake) (q :: pending_handshake). length (cs_connections
     (handle_datagram h (b, response_packet (ph_client_salt q XOR ph_server_salt q)) t4
       (handle_datagram h (a, response_packet (ph_client_salt p XOR ph_server_salt p)) t3
         (handle_datagram h (b, request_packet w token) t2 (handle_datagram h (a, request_packet v token) t1 s))))) =
     Suc (unat (sc_max_connections (cs_config s)))"
proof -
  let ?s1 = "handle_datagram h (a, request_packet v token) t1 s"
  let ?s2 = "handle_datagram h (b, request_packet w token) t2 ?s1"
  have limit: "length (cs_connections s) < unat (sc_max_connections (cs_config s))" using assms(12) by simp
  note r1 = request_adds [OF assms(8) limit assms(10,5,6) refl, where h = h and now = t1]
  have s1: "map_of (cs_connections ?s1) b = None" "length (cs_connections ?s1) < unat (sc_max_connections (cs_config ?s1))"
      "map_of (cs_pending ?s1) b = None"
    using r1(2) [of b] r1(3,4) limit assms(2,9,11) by simp_all
  note r2 = request_adds [OF s1 assms(5,7) refl, where h = h and now = t2]
  obtain p q where p: "map_of (cs_pending ?s2) a = Some p" "ph_token p = token" and q: "map_of (cs_pending ?s2) b = Some q" "ph_token q = token"
    using r1(1) r2(1) r2(2) [OF assms(2)] by auto
  let ?s3 = "handle_datagram h (a, response_packet (ph_client_salt p XOR ph_server_salt p)) t3 ?s2"
  have conns: "cs_connections ?s2 = cs_connections s" using r1(3) r2(3) by simp
  have a: "map_of (cs_connections ?s2) a = None" "admits h a (ph_token p)" using assms(3,8) p(2) conns by simp_all
  note e1 = establish_adds [OF assms(1) a(1) p(1) a(2) refl, where now = t3]
  have b: "map_of (cs_connections ?s3) b = None" "map_of (cs_pending ?s3) b = Some q" "admits h b (ph_token q)"
    using e1(2,3) [of b] assms(2,4,9) q conns by simp_all
  note e2 = establish_adds(1) [OF assms(1) b refl, where now = t4]
  from e1(1) e2 conns assms(12) show ?thesis by auto
qed

theorem connection_limit_not_enforced_witness:
  "\<exists>(p :: pending_handshake) (q :: pending_handshake). length (cs_connections
     (handle_datagram quiet_handlers (sample_address\<lparr>ad_port := 4001\<rparr>, response_packet (ph_client_salt q XOR ph_server_salt q)) 13
       (handle_datagram quiet_handlers (sample_address, response_packet (ph_client_salt p XOR ph_server_salt p)) 12
         (handle_datagram quiet_handlers (sample_address\<lparr>ad_port := 4001\<rparr>, request_packet 4 (replicate 32 7)) 11
           (handle_datagram quiet_handlers (sample_address, request_packet 3 (replicate 32 7)) 10 blank_server))))) = 2"
proof -
  have adm: "admits quiet_handlers a token" for a token by (simp add: admits_def quiet_handlers_def)
  have two: "sample_address \<noteq> sample_address\<lparr>ad_port := 4001\<rparr>" by (simp add: sample_address_def)
  have none: "map_of (cs_connections blank_server) a = None" "map_of (cs_pending blank_server) a = None" for a by (simp_all add: blank_server_def)
  have one: "Suc (length (cs_connections blank_server)) = unat (sc_max_connections (cs_config blank_server))"
    "Suc (unat (sc_max_connections (cs_config blank_server))) = 2" by (simp_all add: blank_server_def)
  from connection_limit_not_enforced [OF quiet_handlers_ok(2) two adm adm, of "replicate 32 7" 3 4 blank_server 13 12 11 10] none one
  show ?thesis by simp
qed


section \<open>The receive loop\<close>

lemma socket_kept [simp]:
  "us_open (snd (socket_send to data s)) = us_open s" "incoming (snd (socket_send to data s)) = incoming s"
  by (simp_all add: incoming_def)

definition kept_socket :: "'w connection_server \<Rightarrow> 'w connection_server \<Rightarrow> bool" where
  "kept_socket s s' \<longleftrightarrow> us_open (cs_socket s') = us_open (cs_socket s) \<and> incoming (cs_socket s') = incoming (cs_socket s)"

lemma kept_socket_same: "cs_socket s' = cs_socket s \<Longrightarrow> kept_socket s s'"
  by (simp add: kept_socket_def)

lemma kept_socket_send: "cs_socket s' = snd (socket_send to data (cs_socket s)) \<Longrightarrow> kept_socket s s'"
  by (simp add: kept_socket_def)

lemma kept_establish [simp]:
  "us_open (cs_socket (establish h a salt token k now s)) = us_open (cs_socket s)"
  "incoming (cs_socket (establish h a salt token k now s)) = incoming (cs_socket s)"
  unfolding establish_def
  by (simp_all add: greet_def close_client_def server_disconnect_def remove_connection_def send_defs next_client_id_def Let_def
      split: prod.split option.split)

lemma kept_handle: "kept_socket s (handle_datagram h d now s)"
proof -
  let ?body = "drop (unat kHeaderBytes) (snd d)"
  have request: "kept_socket s (handle_connection_request a ?body now s)" for a
    by (auto simp: handle_connection_request_def kept_socket_def send_defs Let_def case_prod_beta split: option.split)
  have response: "kept_socket s (handle_challenge_response h a ?body now s)" for a
    by (auto simp: handle_challenge_response_def kept_socket_def send_defs dest!: decide_tables split: option.split prod.split)
  have payload: "kept_socket s (handle_payload h a ?body now s)" for a
    by (auto simp: handle_payload_def kept_socket_def split: option.split prod.split)
  have disconnect: "kept_socket s (handle_disconnect h a ?body s)" for a
    by (auto simp: handle_disconnect_def remove_connection_def kept_socket_def split: option.split)
  show ?thesis
    using request response payload disconnect kept_socket_same [of "count_invalid s" s]
    by (auto simp: handle_datagram_def Let_def split: option.split packet_type.split)
qed

lemma drain_nil:
  assumes "us_open (cs_socket s)" and "incoming (cs_socket s) = []"
  obtains sock where "incoming sock = []" and "\<And>n. drain (Suc n) h now k s = (k, s\<lparr>cs_socket := sock\<rparr>)"
proof -
  obtain sock where "socket_receive kMaxDatagramSize (cs_socket s) = (None, sock)" and "incoming sock = []"
    using sock_receive_none [of "cs_socket s"] assms by (auto simp: sock_is_def)
  then show thesis by (intro that [of sock]) simp_all
qed

lemma drain_cons:
  assumes "us_open (cs_socket s)" and "incoming (cs_socket s) = d # inc"
  obtains sock where "us_open sock" and "incoming sock = inc"
    and "\<And>n. drain (Suc n) h now k s = (if snd d = [] then (k, s\<lparr>cs_socket := sock\<rparr>)
           else drain n h now (k + 1) (handle_datagram h (fst d, take 1200 (snd d)) now (s\<lparr>cs_socket := sock\<rparr>)))"
proof -
  obtain sock where "socket_receive kMaxDatagramSize (cs_socket s) = (Some (fst d, take 1200 (snd d)), sock)"
      and "us_open sock" and "incoming sock = inc"
    using sock_receive_one [of "cs_socket s" d inc "us_kernel_out (cs_socket s)" "us_kernel_room (cs_socket s)"] assms
    unfolding sock_is_def by metis
  then show thesis by (intro that [of sock]) simp_all
qed

lemma drain_spec:
  assumes "us_open (cs_socket s)" and "incoming (cs_socket s) = inc" and "length inc < n"
  shows "drain n h now k s = drain (Suc (length inc)) h now k s \<and>
     fst (drain n h now k s) = k + word_of_nat (length (takeWhile (\<lambda>d. snd d \<noteq> []) inc)) \<and>
     incoming (cs_socket (snd (drain n h now k s))) = tl (dropWhile (\<lambda>d. snd d \<noteq> []) inc)"
  using assms
proof (induction inc arbitrary: s k n)
  case Nil
  obtain m where n: "n = Suc m" using Nil.prems(3) by (cases n) simp_all
  from Nil.prems(1,2) show ?case
    by (rule drain_nil [of s h now k]) (simp add: n del: drain.simps(2))
next
  case (Cons d inc)
  obtain m where n: "n = Suc m" "length inc < m" using Cons.prems(3) by (cases n) simp_all
  obtain sock where sock: "us_open sock" "incoming sock = inc" and step: "\<And>n. drain (Suc n) h now k s = (if snd d = [] then (k, s\<lparr>cs_socket := sock\<rparr>)
           else drain n h now (k + 1) (handle_datagram h (fst d, take 1200 (snd d)) now (s\<lparr>cs_socket := sock\<rparr>)))"
    by (rule drain_cons [OF Cons.prems(1,2), of h now k]) simp
  let ?t = "handle_datagram h (fst d, take 1200 (snd d)) now (s\<lparr>cs_socket := sock\<rparr>)"
  have t: "us_open (cs_socket ?t)" "incoming (cs_socket ?t) = inc"
    using kept_handle [of "s\<lparr>cs_socket := sock\<rparr>" h "(fst d, take 1200 (snd d))" now] sock by (simp_all add: kept_socket_def)
  show ?case
    using Cons.IH [OF t n(2), of "k + 1"] sock by (auto simp: n(1) step add.assoc simp del: drain.simps(2))
qed

text \<open>
  C35: the receive loop ends. Its fuel is not a bound on the traffic: one step more than the datagrams that wait is enough
  and any more gives the same result; the loop handles the datagrams up to the first empty one, and returns their number.
  An empty datagram, for which the socket reports a size of 0, ends the loop with the datagrams behind it still waiting.
\<close>

theorem receive_loop_ends:
  assumes "us_open (cs_socket s)" and "length (incoming (cs_socket s)) < n"
  shows "drain n h now 0 s = drain (Suc (length (incoming (cs_socket s)))) h now 0 s \<and>
     fst (server_receive h now s) = word_of_nat (length (takeWhile (\<lambda>d. snd d \<noteq> []) (incoming (cs_socket s)))) \<and>
     incoming (cs_socket (snd (server_receive h now s))) = tl (dropWhile (\<lambda>d. snd d \<noteq> []) (incoming (cs_socket s)))"
  using drain_spec [OF assms(1) refl assms(2), of h now 0] drain_spec [OF assms(1) refl lessI, of h now 0]
  by (simp add: server_receive_def expire_pending_def case_prod_beta del: drain.simps)

theorem receive_loop_ends_witness:
  "incoming (cs_socket (snd (server_receive quiet_handlers 5
     (blank_server\<lparr>cs_socket := (mk_socket 9)\<lparr>us_kernel_in := [(sample_address, []), sample_response]\<rparr>\<rparr>)))) = [sample_response]"
proof -
  let ?s = "blank_server\<lparr>cs_socket := (mk_socket 9)\<lparr>us_kernel_in := [(sample_address, []), sample_response]\<rparr>\<rparr>"
  have o: "us_open (cs_socket ?s)" and i: "incoming (cs_socket ?s) = [(sample_address, []), sample_response]"
    by (simp_all add: mk_socket_def incoming_def sample_response_def)
  from receive_loop_ends [OF o, of 3 quiet_handlers 5] show ?thesis unfolding i by simp
qed

end
