(* ===== verification/Decimal.thy ===== *)
theory Decimal
  imports Prelude
begin

text \<open>
  Byte strings and decimal numbers, as the services exchange them: \<open>std::to_string\<close> on unsigned and signed
  integers and the \<open>strto\<close> family of the C library with base 10, as far as the source uses them. A \<open>std::string\<close> is the list of its
  bytes; a string literal is written with \<open>ascii\<close>.
\<close>

type_synonym bytes = "u8 list"

definition ascii :: "string \<Rightarrow> bytes" where
  "ascii s = map of_char s"

lemma ascii_simps [simp]: "ascii [] = []" "ascii (c # s) = of_char c # ascii s"
  by (simp_all add: ascii_def)


section \<open>Printing\<close>

fun dec :: "nat \<Rightarrow> bytes" where
  "dec n = (if n < 10 then [48 + word_of_nat n] else dec (n div 10) @ [48 + word_of_nat (n mod 10)])"

declare dec.simps [simp del]

definition dec_int :: "int \<Rightarrow> bytes" where
  "dec_int i = (if i < 0 then 45 # dec (nat (- i)) else dec (nat i))"


section \<open>Reading\<close>

definition is_digit :: "u8 \<Rightarrow> bool" where
  "is_digit b \<longleftrightarrow> 48 \<le> b \<and> b \<le> 57"

definition is_space :: "u8 \<Rightarrow> bool" where
  "is_space b \<longleftrightarrow> b = 32 \<or> 9 \<le> b \<and> b \<le> 13"

definition digits_value :: "bytes \<Rightarrow> nat" where
  "digits_value ds = foldl (\<lambda>acc d. 10 * acc + unat (d - 48)) 0 ds"

text \<open>Leading white space, an optional sign and the longest run of digits; the sign and the value, 0 without digits.\<close>

definition scan_number :: "bytes \<Rightarrow> bool \<times> nat" where
  "scan_number text =
     (let s = dropWhile is_space text;
          negative = (take 1 s = [45]);
          s = (if take 1 s = [45] \<or> take 1 s = [43] then tl s else s)
      in (negative, digits_value (takeWhile is_digit s)))"

text \<open>Values out of range are clamped.\<close>

definition strtoll :: "bytes \<Rightarrow> int" where
  "strtoll text =
     (case scan_number text of (negative, n) \<Rightarrow>
        let i = (if negative then - int n else int n) in max (- (2 ^ 63)) (min i (2 ^ 63 - 1)))"

text \<open>The sign of \<open>strtoull\<close> negates the unsigned value.\<close>

definition strtoull :: "bytes \<Rightarrow> u64" where
  "strtoull text =
     (case scan_number text of (negative, n) \<Rightarrow>
        if 2 ^ 64 \<le> n then - 1 else if negative then - word_of_nat n else word_of_nat n)"


section \<open>Numbers survive printing\<close>

lemma digit_facts:
  assumes "d < 10"
  shows "is_digit (48 + word_of_nat d)" and "unat ((48 + word_of_nat d :: u8) - 48) = d"
    and "\<not> is_space (48 + word_of_nat d)" and "(48 + word_of_nat d :: u8) \<noteq> 45" and "(48 + word_of_nat d :: u8) \<noteq> 43"
    and "(48 + word_of_nat d :: u8) \<noteq> 13"
proof -
  have d: "unat (48 + word_of_nat d :: u8) = 48 + d"
    using assms by (simp add: unat_word_ariths unat_of_nat take_bit_eq_mod)
  then show "is_digit (48 + word_of_nat d)" "\<not> is_space (48 + word_of_nat d)"
    using assms by (auto simp: is_digit_def is_space_def word_le_nat_alt word_unat_eq_iff)
  show "unat ((48 + word_of_nat d :: u8) - 48) = d"
    using assms by (simp add: unat_of_nat take_bit_eq_mod)
  show "(48 + word_of_nat d :: u8) \<noteq> 45" and "(48 + word_of_nat d :: u8) \<noteq> 43" and "(48 + word_of_nat d :: u8) \<noteq> 13"
    using d assms by (auto simp: word_unat_eq_iff)
qed

lemma dec_nonempty: "dec n \<noteq> []"
  by (subst dec.simps) simp

lemma dec_digits: "list_all is_digit (dec n)"
proof (induction n rule: dec.induct)
  case (1 n)
  then show ?case using digit_facts(1) [of n] digit_facts(1) [of "n mod 10"] by (subst dec.simps) simp
qed

lemma digits_value_dec [simp]: "digits_value (dec n) = n"
proof (induction n rule: dec.induct)
  case (1 n)
  then show ?case
    using digit_facts(2) [of n] digit_facts(2) [of "n mod 10"]
    by (subst dec.simps) (simp add: digits_value_def)
qed

lemma dec_inj: "dec m = dec n \<Longrightarrow> m = n"
  using digits_value_dec by metis

lemma digit_other: "is_digit b \<Longrightarrow> \<not> is_space b \<and> b \<noteq> 45 \<and> b \<noteq> 43 \<and> b \<noteq> 13 \<and> b \<noteq> 10"
  by (auto simp: is_digit_def is_space_def word_le_nat_alt word_unat_eq_iff)

lemma dec_no_cr: "13 \<notin> set (dec n)" "10 \<notin> set (dec n)"
  using dec_digits [of n] digit_other by (auto simp: list_all_iff)

lemma dec_int_no_cr: "13 \<notin> set (dec_int i)"
  using dec_no_cr by (simp add: dec_int_def)

lemma takeWhile_dec: "(case rest of [] \<Rightarrow> True | b # _ \<Rightarrow> \<not> is_digit b) \<Longrightarrow> takeWhile is_digit (dec n @ rest) = dec n"
  using dec_digits [of n] by (cases rest) (auto simp: list_all_iff takeWhile_append)

lemma scan_dec:
  assumes "case rest of [] \<Rightarrow> True | b # _ \<Rightarrow> \<not> is_digit b"
  shows "scan_number (dec n @ rest) = (False, n)" and "scan_number (45 # dec n @ rest) = (True, n)"
proof -
  obtain d ds where d: "dec n = d # ds" using dec_nonempty [of n] by (cases "dec n") auto
  then have digit: "is_digit d" using dec_digits [of n] by simp
  note other = digit_other [OF digit]
  then show "scan_number (dec n @ rest) = (False, n)"
    using takeWhile_dec [OF assms, of n] digits_value_dec [of n] d by (simp add: scan_number_def Let_def)
  have "\<not> is_space 45" by (simp add: is_space_def)
  then show "scan_number (45 # dec n @ rest) = (True, n)"
    using takeWhile_dec [OF assms, of n] by (simp add: scan_number_def Let_def)
qed

lemma strtoll_dec_int: "- (2 ^ 63) \<le> i \<Longrightarrow> i < 2 ^ 63 \<Longrightarrow> strtoll (dec_int i) = i"
  using scan_dec [of "[]"] by (auto simp: strtoll_def dec_int_def)

lemma strtoll_dec: "n < 2 ^ 63 \<Longrightarrow> strtoll (dec n) = int n"
  using scan_dec(1) [of "[]" n] by (simp add: strtoll_def)

lemma strtoull_dec: "strtoull (dec (unat (w :: u64))) = w"
  using scan_dec(1) [of "[]" "unat w"] unat_less_u64 [of w] by (simp add: strtoull_def)

lemma strtoull_dec_u32: "ucast (strtoull (dec (unat (w :: u32)))) = w"
proof -
  have "take_bit 64 (unat w) = unat w" using unat_less_u32 [of w] by (intro take_bit_nat_eq_self) simp
  then have "strtoull (dec (unat w)) = ucast w" using strtoull_dec [of "ucast w"] by (simp add: unsigned_ucast_eq)
  moreover have "ucast (ucast w :: u64) = w" by transfer simp
  ultimately show ?thesis by simp
qed

end
