(* ===== verification/Redis.thy ===== *)
theory Redis
  imports Decimal
begin

text \<open>
  \<open>cluster/redis.h\<close> and \<open>cluster/redis.cpp\<close>: the RESP2 client. The stream of the connection is the list of the chunks that
  \<open>recv\<close> will still return, in order; where it ends, or a chunk is empty, \<open>recv\<close> reports a closed connection or a timeout. What
  the system does in one attempt of a flush (whether \<open>connect\<close> and \<open>send\<close> succeed, what arrives afterwards) is an argument,
  the payloads that were sent are recorded in \<open>rc_sent\<close>. The texts of the system's errors are left out, so an error reply of the transport has the fixed part of its message only.
\<close>

section \<open>Replies\<close>

datatype redis_reply =
    kNil
  | kStatus bytes
  | kError bytes
  | kString bytes
  | kInteger int
  | kArray "redis_reply list"

text \<open>The members \<open>str\<close> and \<open>elements\<close> are empty where the type does not set them, \<open>integer\<close> is 0.\<close>

fun reply_str :: "redis_reply \<Rightarrow> bytes" where
  "reply_str (kStatus s) = s"
| "reply_str (kError s) = s"
| "reply_str (kString s) = s"
| "reply_str _ = []"

fun reply_elements :: "redis_reply \<Rightarrow> redis_reply list" where
  "reply_elements (kArray es) = es"
| "reply_elements _ = []"

fun is_error :: "redis_reply \<Rightarrow> bool" where
  "is_error (kError s) = True"
| "is_error _ = False"

definition reply_ok :: "redis_reply \<Rightarrow> bool" where
  "reply_ok r \<longleftrightarrow> r = kStatus (ascii ''OK'')"

definition kMaxBulkSize :: nat where "kMaxBulkSize = 67108864"
definition kCompactThreshold :: nat where "kCompactThreshold = 65536"

definition crlf :: bytes where "crlf = [13, 10]"

definition encode_resp_command :: "bytes list \<Rightarrow> bytes" where
  "encode_resp_command args =
     ascii ''*'' @ dec (length args) @ crlf @
     concat (map (\<lambda>arg. ascii ''$'' @ dec (length arg) @ crlf @ arg @ crlf) args)"


section \<open>The client\<close>

record redis_client =
  rc_open :: bool
  rc_pipeline :: bytes
  rc_queued :: nat
  rc_buffer :: bytes
  rc_cursor :: nat
  rc_commands_sent :: u64
  rc_reconnects :: u64
  rc_chunks :: "bytes list"
  rc_sent :: "bytes list"

definition open_socket :: "bool \<Rightarrow> redis_client \<Rightarrow> bool \<times> redis_client" where
  "open_socket opened c =
     (opened, if opened then c\<lparr>rc_open := True, rc_buffer := [], rc_cursor := 0, rc_chunks := []\<rparr> else c\<lparr>rc_open := False\<rparr>)"

definition redis_disconnect :: "redis_client \<Rightarrow> redis_client" where
  "redis_disconnect c = c\<lparr>rc_open := False, rc_buffer := [], rc_cursor := 0, rc_pipeline := [], rc_queued := 0, rc_chunks := []\<rparr>"

definition redis_connect :: "bool \<Rightarrow> redis_client \<Rightarrow> bool \<times> redis_client" where
  "redis_connect opened c = open_socket opened (redis_disconnect c)"

definition fill_buffer :: "redis_client \<Rightarrow> bool \<times> redis_client" where
  "fill_buffer c =
     (case rc_chunks c of
        [] \<Rightarrow> (False, c)
      | chunk # rest \<Rightarrow>
          if chunk = [] then (False, c\<lparr>rc_chunks := rest\<rparr>)
          else
            let c = c\<lparr>rc_chunks := rest\<rparr>;
                c = (if rc_cursor c > kCompactThreshold then c\<lparr>rc_buffer := drop (rc_cursor c) (rc_buffer c), rc_cursor := 0\<rparr> else c)
            in (True, c\<lparr>rc_buffer := rc_buffer c @ chunk\<rparr>))"

text \<open>\<open>std::string::find\<close> of the end of a line: what is before it.\<close>

fun find_crlf :: "bytes \<Rightarrow> nat option" where
  "find_crlf (a # b # s) = (if a = 13 \<and> b = 10 then Some 0 else map_option Suc (find_crlf (b # s)))"
| "find_crlf _ = None"

function read_line :: "redis_client \<Rightarrow> bytes option \<times> redis_client" where
  "read_line c =
     (case find_crlf (drop (rc_cursor c) (rc_buffer c)) of
        Some n \<Rightarrow> (Some (take n (drop (rc_cursor c) (rc_buffer c))), c\<lparr>rc_cursor := rc_cursor c + n + 2\<rparr>)
      | None \<Rightarrow> (case fill_buffer c of (False, c) \<Rightarrow> (None, c) | (True, c) \<Rightarrow> read_line c))"
  by pat_completeness auto
termination
  by (relation "measure (\<lambda>c. length (rc_chunks c))")
    (auto simp: fill_buffer_def Let_def split: list.splits if_splits)

function read_exact :: "nat \<Rightarrow> redis_client \<Rightarrow> bytes option \<times> redis_client" where
  "read_exact count c =
     (if length (rc_buffer c) - rc_cursor c < count
      then (case fill_buffer c of (False, c) \<Rightarrow> (None, c) | (True, c) \<Rightarrow> read_exact count c)
      else (Some (take count (drop (rc_cursor c) (rc_buffer c))), c\<lparr>rc_cursor := rc_cursor c + count\<rparr>))"
  by pat_completeness auto
termination
  by (relation "measure (\<lambda>(_, c). length (rc_chunks c))")
    (auto simp: fill_buffer_def Let_def split: list.splits if_splits)

declare read_line.simps [simp del] read_exact.simps [simp del]

primrec read_many :: "nat \<Rightarrow> (redis_client \<Rightarrow> redis_reply option \<times> redis_client) \<Rightarrow> redis_client \<Rightarrow> redis_reply list option \<times> redis_client" where
  "read_many 0 read c = (Some [], c)"
| "read_many (Suc n) read c =
     (case read c of
        (None, c) \<Rightarrow> (None, c)
      | (Some r, c) \<Rightarrow> (case read_many n read c of (None, c) \<Rightarrow> (None, c) | (Some rs, c) \<Rightarrow> (Some (r # rs), c)))"

text \<open>The tags are \<open>+\<close>, \<open>-\<close>, \<open>:\<close>, \<open>$\<close> and \<open>*\<close>. The first argument bounds the nesting of arrays.\<close>

primrec read_reply :: "nat \<Rightarrow> redis_client \<Rightarrow> redis_reply option \<times> redis_client" where
  "read_reply 0 c = (None, c)"
| "read_reply (Suc depth) c =
     (case read_line c of
        (None, c) \<Rightarrow> (None, c)
      | (Some [], c) \<Rightarrow> (None, c)
      | (Some (tag # rest), c) \<Rightarrow>
          if tag = 43 then (Some (kStatus rest), c)
          else if tag = 45 then (Some (kError rest), c)
          else if tag = 58 then (Some (kInteger (strtoll rest)), c)
          else if tag = 36 then
            let length = strtoll rest
            in if length < 0 then (Some kNil, c)
               else if nat length > kMaxBulkSize then (None, c)
               else (case read_exact (nat length + 2) c of
                       (None, c) \<Rightarrow> (None, c)
                     | (Some payload, c) \<Rightarrow> (Some (kString (take (nat length) payload)), c))
          else if tag = 42 then
            let count = strtoll rest
            in if count < 0 then (Some kNil, c)
               else (case read_many (nat count) (read_reply depth) c of (None, c) \<Rightarrow> (None, c) | (Some es, c) \<Rightarrow> (Some (kArray es), c))
          else (None, c))"

definition redis_queue :: "bytes list \<Rightarrow> redis_client \<Rightarrow> redis_client" where
  "redis_queue args c = c\<lparr>rc_pipeline := rc_pipeline c @ encode_resp_command args, rc_queued := rc_queued c + 1\<rparr>"

text \<open>One attempt: whether \<open>connect\<close> and \<open>send\<close> succeed, and the chunks that arrive behind the ones still waiting.\<close>

record attempt =
  at_connects :: bool
  at_sends :: bool
  at_chunks :: "bytes list"

text \<open>What waits on the connection bounds the nesting.\<close>

definition waiting :: "redis_client \<Rightarrow> bytes" where
  "waiting c = drop (rc_cursor c) (rc_buffer c) @ concat (rc_chunks c)"

definition close_socket :: "redis_client \<Rightarrow> redis_client" where
  "close_socket c = c\<lparr>rc_open := False, rc_buffer := [], rc_cursor := 0, rc_chunks := []\<rparr>"

text \<open>An attempt on an open connection, and the two attempts of \<open>flush\<close>; the loop ends early when \<open>connect\<close> fails.\<close>

definition exchange_on :: "attempt \<Rightarrow> bytes \<Rightarrow> nat \<Rightarrow> redis_client \<Rightarrow> redis_reply list option \<times> redis_client" where
  "exchange_on a payload expected c =
     (if \<not> at_sends a then (None, close_socket c)
      else
        let c = c\<lparr>rc_sent := rc_sent c @ [payload], rc_chunks := rc_chunks c @ at_chunks a\<rparr>
        in case read_many expected (read_reply (Suc (length (waiting c)))) c of
             (None, c) \<Rightarrow> (None, close_socket c)
           | (Some replies, c) \<Rightarrow> (Some replies, c\<lparr>rc_commands_sent := rc_commands_sent c + word_of_nat expected\<rparr>))"

primrec attempts :: "attempt list \<Rightarrow> bytes \<Rightarrow> nat \<Rightarrow> redis_client \<Rightarrow> redis_reply list option \<times> redis_client" where
  "attempts [] payload expected c = (None, c)"
| "attempts (a # as) payload expected c =
     (if rc_open c then (case exchange_on a payload expected c of (None, c) \<Rightarrow> attempts as payload expected c | (Some rs, c) \<Rightarrow> (Some rs, c))
      else case open_socket (at_connects a) c of
             (False, c) \<Rightarrow> (None, c)
           | (True, c) \<Rightarrow>
               (case exchange_on a payload expected (c\<lparr>rc_reconnects := rc_reconnects c + 1\<rparr>) of
                  (None, c) \<Rightarrow> attempts as payload expected c
                | (Some rs, c) \<Rightarrow> (Some rs, c)))"

definition transport_error :: redis_reply where
  "transport_error = kError (ascii ''transport: '')"

definition redis_flush :: "attempt \<Rightarrow> attempt \<Rightarrow> redis_client \<Rightarrow> (bool \<times> redis_reply list) \<times> redis_client" where
  "redis_flush first second c =
     (if rc_queued c = 0 then ((True, []), c)
      else
        let payload = rc_pipeline c; expected = rc_queued c; c = c\<lparr>rc_pipeline := [], rc_queued := 0\<rparr>
        in case attempts [first, second] payload expected c of
             (Some replies, c) \<Rightarrow> ((True, replies), c)
           | (None, c) \<Rightarrow> ((False, replicate expected transport_error), c))"

definition redis_command :: "attempt \<Rightarrow> attempt \<Rightarrow> bytes list \<Rightarrow> redis_client \<Rightarrow> redis_reply \<times> redis_client" where
  "redis_command first second args c =
     (case redis_flush first second (redis_queue args c) of
        ((success, replies), c) \<Rightarrow> (if \<not> success \<or> replies = [] then transport_error else hd replies, c))"



section \<open>Commands on the wire\<close>

lemma dec_crlf_cancel:
  assumes "dec m @ crlf @ x = dec n @ crlf @ y"
  shows "m = n \<and> x = y"
proof -
  have t: "takeWhile (\<lambda>b. b \<noteq> 13) (dec k @ crlf @ z) = dec k" for k z
    using dec_no_cr(1) [of k] by (subst takeWhile_append2) (auto simp: crlf_def)
  have "dec m = dec n" using t [of m x] t [of n y] assms by simp
  with assms show ?thesis using dec_inj by fastforce
qed

lemma args_cancel:
  "length xs = length ys \<Longrightarrow>
   concat (map (\<lambda>arg. ascii ''$'' @ dec (length arg) @ crlf @ arg @ crlf) xs) @ u =
   concat (map (\<lambda>arg. ascii ''$'' @ dec (length arg) @ crlf @ arg @ crlf) ys) @ v \<Longrightarrow> xs = ys \<and> u = v"
proof (induction xs ys rule: list_induct2)
  case (Cons a xs b ys)
  let ?f = "concat \<circ> map (\<lambda>arg. ascii ''$'' @ dec (length arg) @ crlf @ arg @ crlf)"
  have "dec (length a) @ crlf @ (a @ crlf @ ?f xs @ u) = dec (length b) @ crlf @ (b @ crlf @ ?f ys @ v)"
    using Cons.prems by simp
  from dec_crlf_cancel [OF this] have "a = b \<and> ?f xs @ u = ?f ys @ v" by auto
  with Cons.IH show ?case by simp
qed simp

lemma command_cancel: "encode_resp_command xs @ u = encode_resp_command ys @ v \<Longrightarrow> xs = ys \<and> u = v"
proof -
  let ?f = "\<lambda>zs. concat (map (\<lambda>arg. ascii ''$'' @ dec (length arg) @ crlf @ arg @ crlf) zs)"
  assume "encode_resp_command xs @ u = encode_resp_command ys @ v"
  then have "dec (length xs) @ crlf @ (?f xs @ u) = dec (length ys) @ crlf @ (?f ys @ v)" by (simp add: encode_resp_command_def)
  from dec_crlf_cancel [OF this] show "xs = ys \<and> u = v" by (auto dest: args_cancel)
qed

lemma commands_cancel: "concat (map encode_resp_command xs) = concat (map encode_resp_command ys) \<Longrightarrow> xs = ys"
proof (induction xs arbitrary: ys)
  case Nil
  then show ?case by (cases ys) (simp_all add: encode_resp_command_def)
next
  case (Cons x xs)
  show ?case
  proof (cases ys)
    case Nil
    with Cons.prems show ?thesis by (simp add: encode_resp_command_def)
  next
    case (Cons y zs)
    with Cons.prems command_cancel [of x "concat (map encode_resp_command xs)" y "concat (map encode_resp_command zs)"]
    show ?thesis using Cons.IH by simp
  qed
qed


section \<open>Replies from the wire\<close>

text \<open>The RESP2 form of a reply, and the replies that have one.\<close>

fun resp :: "redis_reply \<Rightarrow> bytes" where
  "resp kNil = ascii ''$-1'' @ crlf"
| "resp (kStatus s) = ascii ''+'' @ s @ crlf"
| "resp (kError s) = ascii ''-'' @ s @ crlf"
| "resp (kString s) = ascii ''$'' @ dec (length s) @ crlf @ s @ crlf"
| "resp (kInteger i) = ascii '':'' @ dec_int i @ crlf"
| "resp (kArray rs) = ascii ''*'' @ dec (length rs) @ crlf @ concat (map resp rs)"

fun valid_reply :: "redis_reply \<Rightarrow> bool" where
  "valid_reply kNil = True"
| "valid_reply (kStatus s) = (13 \<notin> set s)"
| "valid_reply (kError s) = (13 \<notin> set s)"
| "valid_reply (kString s) = (length s \<le> kMaxBulkSize)"
| "valid_reply (kInteger i) = (- (2 ^ 63) \<le> i \<and> i < 2 ^ 63)"
| "valid_reply (kArray rs) = (length rs < 2 ^ 63 \<and> list_all valid_reply rs)"

text \<open>A client whose cursor is in its buffer and whose connection delivers until all has arrived.\<close>

definition client_ok :: "redis_client \<Rightarrow> bool" where
  "client_ok c \<longleftrightarrow> rc_cursor c \<le> length (rc_buffer c) \<and> [] \<notin> set (rc_chunks c)"

definition available :: "redis_client \<Rightarrow> bytes" where
  "available c = drop (rc_cursor c) (rc_buffer c)"

lemma waiting_available: "waiting c = available c @ concat (rc_chunks c)"
  by (simp add: waiting_def available_def)

lemma fill_buffer_spec:
  assumes "client_ok c" and "rc_chunks c \<noteq> []"
  obtains c' where "fill_buffer c = (True, c')" and "client_ok c'" and "waiting c' = waiting c" and "rc_chunks c' = tl (rc_chunks c)"
    and "available c' = available c @ hd (rc_chunks c)"
proof -
  obtain chunk rest where ch: "rc_chunks c = chunk # rest" using assms(2) by (cases "rc_chunks c") auto
  let ?d = "c\<lparr>rc_chunks := rest\<rparr>"
  let ?e = "if rc_cursor c > kCompactThreshold then ?d\<lparr>rc_buffer := drop (rc_cursor c) (rc_buffer c), rc_cursor := 0\<rparr> else ?d"
  let ?c = "?e\<lparr>rc_buffer := rc_buffer ?e @ chunk\<rparr>"
  have chunk: "chunk \<noteq> []" using assms(1) ch by (auto simp: client_ok_def)
  have run: "fill_buffer c = (True, ?c)" by (simp add: fill_buffer_def ch chunk Let_def)
  have avail: "available ?c = available c @ chunk" using assms(1) by (simp add: available_def client_ok_def)
  show thesis
    by (rule that [OF run]) (use avail assms(1) ch in \<open>auto simp: waiting_available client_ok_def\<close>)
qed

lemma find_crlf_line: "13 \<notin> set line \<Longrightarrow> find_crlf (line @ crlf @ rest) = Some (length line)"
proof (induction line)
  case (Cons a line)
  then show ?case by (cases "line @ crlf @ rest") (auto simp: crlf_def)
qed (simp add: crlf_def)

lemma find_crlf_more: "find_crlf s = Some n \<Longrightarrow> find_crlf (s @ t) = Some n"
proof (induction s arbitrary: n rule: find_crlf.induct)
  case (1 a b s)
  then show ?case by (auto split: if_splits)
qed simp_all

lemma find_crlf_length: "find_crlf s = Some n \<Longrightarrow> n + 2 \<le> length s"
proof (induction s arbitrary: n rule: find_crlf.induct)
  case (1 a b s)
  then show ?case by (auto split: if_splits)
qed simp_all

lemma find_crlf_take:
  assumes "find_crlf s = Some n" and "s @ t = line @ crlf @ rest" and "13 \<notin> set line"
  shows "n = length line" and "take n s = line" and "drop (n + 2) s @ t = rest"
proof -
  show n: "n = length line" using find_crlf_more [OF assms(1), of t] find_crlf_line [OF assms(3), of rest] assms(2) by simp
  note len = find_crlf_length [OF assms(1)]
  have "take (n + 2) (s @ t) = line @ crlf" "drop (n + 2) (s @ t) = rest" using assms(2) n by (simp_all add: crlf_def)
  with len have "take (n + 2) s = line @ crlf" and d: "drop (n + 2) s @ t = rest" by simp_all
  then have "take n (take (n + 2) s) = line" using n by simp
  then show "take n s = line" and "drop (n + 2) s @ t = rest" using d by simp_all
qed

lemma read_line_spec:
  assumes "13 \<notin> set line"
  shows "client_ok c \<Longrightarrow> waiting c = line @ crlf @ rest \<Longrightarrow> \<exists>c'. read_line c = (Some line, c') \<and> client_ok c' \<and> waiting c' = rest"
proof (induction c rule: read_line.induct)
  case (1 c)
  show ?case
  proof (cases "find_crlf (available c)")
    case (Some n)
    have "available c @ concat (rc_chunks c) = line @ crlf @ rest" using 1(3) by (simp add: waiting_available)
    note t = find_crlf_take [OF Some this assms]
    let ?c = "c\<lparr>rc_cursor := rc_cursor c + n + 2\<rparr>"
    have run: "read_line c = (Some line, ?c)" using Some t by (subst read_line.simps) (simp add: available_def)
    have "client_ok ?c" using find_crlf_length [OF Some] 1(2) by (simp add: client_ok_def available_def)
    moreover have "waiting ?c = rest" using t(3) by (simp add: waiting_available available_def add.commute)
    ultimately show ?thesis using run by blast
  next
    case None
    have "rc_chunks c \<noteq> []" using None 1(3) find_crlf_line [OF assms, of rest] by (auto simp: waiting_available)
    from fill_buffer_spec [OF 1(2) this] obtain c' where c': "fill_buffer c = (True, c')" "client_ok c'" "waiting c' = waiting c" by metis
    have "read_line c = read_line c'" using None c'(1) by (subst read_line.simps) (simp add: available_def)
    with 1(1) [OF None [unfolded available_def] c'(1) [symmetric]] c' 1(3) show ?thesis by simp
  qed
qed

lemma read_exact_spec:
  "client_ok c \<Longrightarrow> waiting c = data @ rest \<Longrightarrow> n = length data \<Longrightarrow>
   \<exists>c'. read_exact n c = (Some data, c') \<and> client_ok c' \<and> waiting c' = rest"
proof (induction n c rule: read_exact.induct)
  case (1 n c)
  have n: "n = length data" by (rule 1(4))
  have avail: "length (rc_buffer c) - rc_cursor c = length (available c)" by (simp add: available_def)
  show ?case
  proof (cases "length (available c) < length data")
    case True
    have "rc_chunks c \<noteq> []"
    proof
      assume "rc_chunks c = []"
      then have "length (available c) = length data + length rest" using 1(3) by (simp add: waiting_available)
      with True show False by simp
    qed
    from fill_buffer_spec [OF 1(2) this] obtain c' where c': "fill_buffer c = (True, c')" "client_ok c'" "waiting c' = waiting c" by metis
    have step: "read_exact n c = read_exact n c'" using True c'(1) avail n by (subst read_exact.simps) simp
    have "length (rc_buffer c) - rc_cursor c < n" using True avail n by simp
    from 1(1) [OF this c'(1) [symmetric]] c'(2,3) 1(3) n show ?thesis unfolding step by simp
  next
    case False
    let ?c = "c\<lparr>rc_cursor := rc_cursor c + length data\<rparr>"
    have w: "available c @ concat (rc_chunks c) = data @ rest" using 1(3) by (simp add: waiting_available)
    then have "take (length data) (available c @ concat (rc_chunks c)) = data" "drop (length data) (available c @ concat (rc_chunks c)) = rest"
      by simp_all
    then have t: "take (length data) (available c) = data" "drop (length data) (available c) @ concat (rc_chunks c) = rest"
      using False by simp_all
    have enough: "\<not> length (rc_buffer c) - rc_cursor c < n" using False avail n by simp
    have "read_exact n c = (Some (take n (available c)), c\<lparr>rc_cursor := rc_cursor c + n\<rparr>)"
      by (subst read_exact.simps) (simp only: enough if_False available_def)
    then have "read_exact n c = (Some data, ?c)" unfolding n t(1) .
    moreover have "client_ok ?c" using 1(2) enough n by (auto simp: client_ok_def)
    moreover have "waiting ?c = rest" using t(2) by (simp add: waiting_available available_def add.commute)
    ultimately show ?thesis by blast
  qed
qed

lemma read_many_spec:
  assumes "\<And>r c rest. r \<in> set rs \<Longrightarrow> client_ok c \<Longrightarrow> waiting c = resp r @ rest \<Longrightarrow> \<exists>c'. read c = (Some r, c') \<and> client_ok c' \<and> waiting c' = rest"
  shows "client_ok c \<Longrightarrow> waiting c = concat (map resp rs) @ rest \<Longrightarrow>
    \<exists>c'. read_many (length rs) read c = (Some rs, c') \<and> client_ok c' \<and> waiting c' = rest"
  using assms
proof (induction rs arbitrary: c)
  case (Cons r rs)
  have "waiting c = resp r @ concat (map resp rs) @ rest" using Cons.prems(2) by simp
  from Cons.prems(3) [OF _ Cons.prems(1) this] obtain c1 where c1: "read c = (Some r, c1)" "client_ok c1" "waiting c1 = concat (map resp rs) @ rest"
    by auto
  from Cons.IH [OF c1(2,3)] Cons.prems(3) obtain c2 where "read_many (length rs) read c1 = (Some rs, c2)" "client_ok c2" "waiting c2 = rest"
    by auto
  with c1(1) show ?case by simp
qed simp

lemma length_member: "r \<in> set rs \<Longrightarrow> length (resp r) \<le> length (concat (map resp rs))"
  by (induction rs) auto

lemma read_reply_line:
  assumes "client_ok c" and "waiting c = tag # line @ crlf @ rest" and "13 \<notin> set (tag # line)"
  obtains c' where "client_ok c'" and "waiting c' = rest" and "read_line c = (Some (tag # line), c')"
  using read_line_spec [OF assms(3,1), of rest] assms(2) by auto

lemma read_reply_spec:
  "valid_reply r \<Longrightarrow> client_ok c \<Longrightarrow> waiting c = resp r @ rest \<Longrightarrow> length (resp r) \<le> d \<Longrightarrow>
   \<exists>c'. read_reply d c = (Some r, c') \<and> client_ok c' \<and> waiting c' = rest"
proof (induction r arbitrary: c d rest)
  case kNil
  obtain e where d: "d = Suc e" using kNil(4) by (cases d) simp_all
  have "waiting c = 36 # [45, 49] @ crlf @ rest" using kNil(3) by simp
  from read_reply_line [OF kNil(2) this] obtain c' where c': "client_ok c'" "waiting c' = rest" "read_line c = (Some (36 # [45, 49]), c')" by auto
  moreover have "strtoll [45, 49] = - 1" by code_simp
  ultimately show ?case by (simp add: d)
next
  case (kStatus s)
  obtain e where d: "d = Suc e" using kStatus(4) by (cases d) simp_all
  have "waiting c = 43 # s @ crlf @ rest" using kStatus(3) by simp
  from read_reply_line [OF kStatus(2) this] obtain c' where "client_ok c'" "waiting c' = rest" "read_line c = (Some (43 # s), c')"
    using kStatus(1) by auto
  then show ?case by (simp add: d)
next
  case (kError s)
  obtain e where d: "d = Suc e" using kError(4) by (cases d) simp_all
  have "waiting c = 45 # s @ crlf @ rest" using kError(3) by simp
  from read_reply_line [OF kError(2) this] obtain c' where "client_ok c'" "waiting c' = rest" "read_line c = (Some (45 # s), c')"
    using kError(1) by auto
  then show ?case by (simp add: d)
next
  case (kString s)
  obtain e where d: "d = Suc e" using kString(4) by (cases d) simp_all
  have "waiting c = 36 # dec (length s) @ crlf @ s @ crlf @ rest" using kString(3) by simp
  from read_reply_line [OF kString(2) this] obtain c1 where c1: "client_ok c1" "waiting c1 = (s @ crlf) @ rest"
      "read_line c = (Some (36 # dec (length s)), c1)" using dec_no_cr(1) by auto
  from read_exact_spec [OF c1(1,2), of "length s + 2"] obtain c2 where c2: "read_exact (length s + 2) c1 = (Some (s @ crlf), c2)" "client_ok c2" "waiting c2 = rest"
    by (auto simp: crlf_def)
  have "strtoll (dec (length s)) = int (length s)" using kString(1) by (intro strtoll_dec) (simp add: kMaxBulkSize_def)
  with c1 c2 kString(1) show ?case by (simp add: d)
next
  case (kInteger i)
  obtain e where d: "d = Suc e" using kInteger(4) by (cases d) simp_all
  have "waiting c = 58 # dec_int i @ crlf @ rest" using kInteger(3) by simp
  from read_reply_line [OF kInteger(2) this] obtain c' where "client_ok c'" "waiting c' = rest" "read_line c = (Some (58 # dec_int i), c')"
    using dec_int_no_cr by auto
  then show ?case using kInteger(1) by (simp add: d strtoll_dec_int)
next
  case (kArray rs)
  obtain e where d: "d = Suc e" using kArray.prems(4) by (cases d) simp_all
  have "waiting c = 42 # dec (length rs) @ crlf @ concat (map resp rs) @ rest" using kArray.prems(3) by simp
  from read_reply_line [OF kArray.prems(2) this] obtain c1 where c1: "client_ok c1" "waiting c1 = concat (map resp rs) @ rest"
      "read_line c = (Some (42 # dec (length rs)), c1)" using dec_no_cr(1) by auto
  have short: "length (resp r) \<le> e" if "r \<in> set rs" for r
  proof -
    have "length (resp r) \<le> length (concat (map resp rs))" using that by (rule length_member)
    then show ?thesis using kArray.prems(4) d by simp
  qed
  have step: "\<exists>c'. read_reply e k = (Some r, c') \<and> client_ok c' \<and> waiting c' = u"
    if "r \<in> set rs" "client_ok k" "waiting k = resp r @ u" for r k u
    using kArray.IH [OF that(1) _ that(2,3) short [OF that(1)]] kArray.prems(1) that(1) by (simp add: list_all_iff)
  have "\<exists>c2. read_many (length rs) (read_reply e) c1 = (Some rs, c2) \<and> client_ok c2 \<and> waiting c2 = rest"
    by (rule read_many_spec [OF _ c1(1,2)]) (rule step)
  then obtain c2 where c2: "read_many (length rs) (read_reply e) c1 = (Some rs, c2)" "client_ok c2" "waiting c2 = rest" by blast
  have "strtoll (dec (length rs)) = int (length rs)" using kArray.prems(1) by (intro strtoll_dec) simp
  with c1 c2 show ?case by (simp add: d)
qed


text \<open>Reading changes the buffer, the cursor and the stream only.\<close>

definition other_fields :: "redis_client \<Rightarrow> bool \<times> bytes \<times> nat \<times> bytes list" where
  "other_fields c = (rc_open c, rc_pipeline c, rc_queued c, rc_sent c)"

lemma fill_buffer_keeps: "fill_buffer c = (b, c') \<Longrightarrow> other_fields c' = other_fields c"
  by (auto simp: fill_buffer_def other_fields_def Let_def split: list.splits if_splits)

lemma read_line_keeps: "read_line c = (r, c') \<Longrightarrow> other_fields c' = other_fields c"
proof (induction c arbitrary: r c' rule: read_line.induct)
  case (1 c)
  obtain b d where d: "fill_buffer c = (b, d)" by (rule prod.exhaust)
  note keeps = fill_buffer_keeps [OF d]
  show ?case
  proof (cases "find_crlf (drop (rc_cursor c) (rc_buffer c))")
    case None
    with 1 d keeps show ?thesis by (cases b) (auto simp: read_line.simps [of c])
  next
    case (Some n)
    with 1(2) show ?thesis by (auto simp: read_line.simps [of c] other_fields_def)
  qed
qed

lemma read_exact_keeps: "read_exact n c = (r, c') \<Longrightarrow> other_fields c' = other_fields c"
proof (induction n c arbitrary: r c' rule: read_exact.induct)
  case (1 n c)
  obtain b d where d: "fill_buffer c = (b, d)" by (rule prod.exhaust)
  note keeps = fill_buffer_keeps [OF d]
  show ?case
  proof (cases "length (rc_buffer c) - rc_cursor c < n")
    case True
    with 1 d keeps show ?thesis by (cases b) (auto simp: read_exact.simps [of n c])
  next
    case False
    with 1(2) show ?thesis by (auto simp: read_exact.simps [of n c] other_fields_def)
  qed
qed

lemma read_many_keeps:
  assumes "\<And>c r c'. read c = (r, c') \<Longrightarrow> other_fields c' = other_fields c"
  shows "read_many n read c = (rs, c') \<Longrightarrow> other_fields c' = other_fields c"
proof (induction n arbitrary: c rs c')
  case (Suc n)
  obtain r d where d: "read c = (r, d)" by (rule prod.exhaust)
  obtain qs e where e: "read_many n read d = (qs, e)" by (rule prod.exhaust)
  from Suc.prems d e Suc.IH [OF e] assms [OF d] show ?case by (auto split: option.splits)
qed simp

lemma read_reply_keeps: "read_reply d c = (r, c') \<Longrightarrow> other_fields c' = other_fields c"
proof (induction d arbitrary: c r c')
  case (Suc d)
  obtain line e where e: "read_line c = (line, e)" by (rule prod.exhaust)
  note keeps = read_line_keeps [OF e]
  have many: "other_fields k' = other_fields k" if "read_many n (read_reply d) k = (rs, k')" for n k rs k'
    by (rule read_many_keeps [OF _ that]) (rule Suc.IH)
  show ?case
  proof (cases line)
    case None
    with Suc.prems e keeps show ?thesis by simp
  next
    case (Some bs)
    show ?thesis
    proof (cases bs)
      case Nil
      with Some Suc.prems e keeps show ?thesis by simp
    next
      case (Cons tag rest)
      with Some Suc.prems e keeps show ?thesis
        by (auto simp: Let_def split: if_splits option.splits prod.splits dest!: read_exact_keeps many)
    qed
  qed
qed simp


section \<open>Properties\<close>

definition queue_all :: "bytes list list \<Rightarrow> redis_client \<Rightarrow> redis_client" where
  "queue_all cmds c = fold redis_queue cmds c"

lemma queue_all_fields:
  "rc_pipeline (queue_all cmds c) = rc_pipeline c @ concat (map encode_resp_command cmds)" "rc_queued (queue_all cmds c) = rc_queued c + length cmds"
  "rc_open (queue_all cmds c) = rc_open c" "rc_buffer (queue_all cmds c) = rc_buffer c" "rc_cursor (queue_all cmds c) = rc_cursor c"
  "rc_chunks (queue_all cmds c) = rc_chunks c" "rc_sent (queue_all cmds c) = rc_sent c"
  by (induction cmds arbitrary: c) (simp_all add: queue_all_def redis_queue_def)

text \<open>
  C36: commands cannot be forged. Two batches of queued commands give the same bytes on the wire only if they are the same
  commands with the same arguments, whatever bytes the arguments hold: a player name with line breaks or RESP markers in it
  stays an argument.
\<close>

theorem commands_unambiguous:
  assumes "xs \<noteq> ys"
  shows "rc_pipeline (queue_all xs c) \<noteq> rc_pipeline (queue_all ys c)"
  using assms commands_cancel [of xs ys] by (auto simp: queue_all_fields)

definition blank_redis :: redis_client where
  "blank_redis = \<lparr>rc_open = True, rc_pipeline = [], rc_queued = 0, rc_buffer = [], rc_cursor = 0, rc_commands_sent = 0, rc_reconnects = 0,
     rc_chunks = [], rc_sent = []\<rparr>"

theorem commands_unambiguous_witness:
  "rc_pipeline (queue_all [[ascii ''DEL'', ascii ''a'' @ crlf @ ascii ''*1'']] blank_redis) \<noteq>
   rc_pipeline (queue_all [[ascii ''DEL'', ascii ''a''], [ascii ''*1'']] blank_redis)"
  by (rule commands_unambiguous) simp

text \<open>
  C37: a flush returns the replies of the server. On a connection with nothing left over, with the replies of the queued
  commands arriving in any division into chunks, the flush sends the batch once and returns exactly those replies in order,
  and leaves nothing behind.
\<close>

theorem flush_returns_replies:
  assumes "rc_open c" and "client_ok c" and "waiting c = []" and "rc_queued c = length rs" and "rs \<noteq> []" and "list_all valid_reply rs"
    and "at_sends a" and "[] \<notin> set (at_chunks a)" and "concat (at_chunks a) = concat (map resp rs)"
  shows "\<exists>c'. redis_flush a b c = ((True, rs), c') \<and> rc_sent c' = rc_sent c @ [rc_pipeline c] \<and> rc_queued c' = 0 \<and>
     rc_open c' \<and> client_ok c' \<and> waiting c' = []"
proof -
  let ?c = "c\<lparr>rc_pipeline := [], rc_queued := 0, rc_sent := rc_sent c @ [rc_pipeline c], rc_chunks := rc_chunks c @ at_chunks a\<rparr>"
  let ?d = "Suc (length (waiting ?c))"
  have ok: "client_ok ?c" using assms(2,8) by (simp add: client_ok_def)
  have w: "waiting ?c = concat (map resp rs) @ []" using assms(3,9) by (simp add: waiting_def)
  have short: "length (resp r) \<le> ?d" if "r \<in> set rs" for r
  proof -
    have "length (resp r) \<le> length (concat (map resp rs))" using that by (rule length_member)
    then show ?thesis using w by simp
  qed
  have step: "\<exists>c'. read_reply ?d k = (Some r, c') \<and> client_ok c' \<and> waiting c' = u"
    if "r \<in> set rs" "client_ok k" "waiting k = resp r @ u" for r k u
    using read_reply_spec [OF _ that(2,3) short [OF that(1)]] assms(6) that(1) by (simp add: list_all_iff)
  have "\<exists>c'. read_many (length rs) (read_reply ?d) ?c = (Some rs, c') \<and> client_ok c' \<and> waiting c' = []"
    by (rule read_many_spec [OF _ ok w]) (rule step)
  then obtain c' where c': "read_many (length rs) (read_reply ?d) ?c = (Some rs, c')" "client_ok c'" "waiting c' = []" by blast
  have "other_fields c' = other_fields ?c" by (rule read_many_keeps [OF _ c'(1)]) (rule read_reply_keeps)
  then have f: "rc_open c'" "rc_sent c' = rc_sent c @ [rc_pipeline c]" "rc_queued c' = 0" using assms(1) by (simp_all add: other_fields_def)
  have "exchange_on a (rc_pipeline c) (length rs) (c\<lparr>rc_pipeline := [], rc_queued := 0\<rparr>) =
      (Some rs, c'\<lparr>rc_commands_sent := rc_commands_sent c' + word_of_nat (length rs)\<rparr>)"
    using assms(7) c'(1) by (simp add: exchange_on_def Let_def)
  then have "redis_flush a b c = ((True, rs), c'\<lparr>rc_commands_sent := rc_commands_sent c' + word_of_nat (length rs)\<rparr>)"
    using assms(1,4,5) by (simp add: redis_flush_def Let_def)
  with f c'(2,3) show ?thesis by (simp add: client_ok_def waiting_def)
qed


theorem flush_returns_replies_witness:
  "\<exists>c. redis_flush \<lparr>at_connects = True, at_sends = True, at_chunks = [ascii '':1'', [13], [10] @ ascii ''$2'' @ crlf @ ascii ''ab'', crlf]\<rparr>
       \<lparr>at_connects = False, at_sends = False, at_chunks = []\<rparr> (queue_all [[ascii ''A''], [ascii ''B'']] blank_redis) =
     ((True, [kInteger 1, kString (ascii ''ab'')]), c)"
proof -
  let ?a = "\<lparr>at_connects = True, at_sends = True, at_chunks = [ascii '':1'', [13], [10] @ ascii ''$2'' @ crlf @ ascii ''ab'', crlf]\<rparr>"
  let ?c = "queue_all [[ascii ''A''], [ascii ''B'']] blank_redis" and ?rs = "[kInteger 1, kString (ascii ''ab'')]"
  have c: "rc_open ?c" "client_ok ?c" "waiting ?c = []" "rc_queued ?c = length ?rs"
    by (simp_all add: queue_all_fields blank_redis_def client_ok_def waiting_def)
  have rs: "list_all valid_reply ?rs" by (simp add: kMaxBulkSize_def)
  have a: "at_sends ?a" "[] \<notin> set (at_chunks ?a)" by (simp_all add: crlf_def)
  have "dec 1 = ascii ''1''" "dec 2 = ascii ''2''" by (subst dec.simps, simp)+
  then have "concat (at_chunks ?a) = concat (map resp ?rs)" by (simp add: crlf_def dec_int_def numeral_2_eq_2)
  from flush_returns_replies [OF c _ rs a this] show ?thesis by blast
qed

text \<open>From here on a literal stands for itself.\<close>

declare ascii_simps [simp del]

end
