(* ===== verification/Presence.thy ===== *)
theory Presence
  imports Redis
begin

text \<open>
  \<open>cluster/presence.h\<close> and \<open>cluster/presence.cpp\<close>: the registry of shards and players in Redis. The Redis server is a
  parameter: \<open>exec\<close> executes one command on the server's state. A flush of the client is seen through what it makes the server
  execute (\<open>flush_effect\<close>): the whole batch, or a prefix of it before the transport breaks and the client tries again. The wall
  clock is an argument. The tick time of a shard, a double that the registry only prints and reads back, is kept as its text.
\<close>

section \<open>A flush, seen from the server\<close>

type_synonym 'd exec = "bytes list \<Rightarrow> 'd \<Rightarrow> redis_reply \<times> 'd"

primrec run_commands :: "'d exec \<Rightarrow> bytes list list \<Rightarrow> 'd \<Rightarrow> redis_reply list \<times> 'd" where
  "run_commands exec [] d = ([], d)"
| "run_commands exec (cmd # cmds) d =
     (case exec cmd d of (r, d) \<Rightarrow> case run_commands exec cmds d of (rs, d) \<Rightarrow> (r # rs, d))"

text \<open>An attempt is answered, or breaks after the server has executed the first commands of the batch.\<close>

datatype outcome = Answered | Broken nat

definition flush_effect :: "'d exec \<Rightarrow> outcome \<Rightarrow> outcome \<Rightarrow> bytes list list \<Rightarrow> 'd \<Rightarrow> (bool \<times> redis_reply list) \<times> 'd" where
  "flush_effect exec first second cmds d =
     (if cmds = [] then ((True, []), d)
      else case first of
        Answered \<Rightarrow> (case run_commands exec cmds d of (rs, d) \<Rightarrow> ((True, rs), d))
      | Broken k \<Rightarrow>
          let d = snd (run_commands exec (take k cmds) d)
          in case second of
               Answered \<Rightarrow> (case run_commands exec cmds d of (rs, d) \<Rightarrow> ((True, rs), d))
             | Broken j \<Rightarrow> ((False, replicate (length cmds) transport_error), snd (run_commands exec (take j cmds) d)))"

record 'd registry =
  rg_prefix :: bytes
  rg_connected :: bool
  rg_queue :: "bytes list list"
  rg_outcomes :: "(outcome \<times> outcome) list"
  rg_db :: 'd

text \<open>
  The outcomes of the flushes to come; where the list ends every attempt is answered. A flush with commands leaves the
  connection open if it was answered and closed otherwise.
\<close>

definition next_outcome :: "'d registry \<Rightarrow> outcome \<times> outcome" where
  "next_outcome g = (case rg_outcomes g of [] \<Rightarrow> (Answered, Answered) | p # _ \<Rightarrow> p)"

definition queue :: "bytes list \<Rightarrow> 'd registry \<Rightarrow> 'd registry" where
  "queue cmd g = g\<lparr>rg_queue := rg_queue g @ [cmd]\<rparr>"

definition flush :: "'d exec \<Rightarrow> 'd registry \<Rightarrow> (bool \<times> redis_reply list) \<times> 'd registry" where
  "flush exec g =
     (case next_outcome g of (first, second) \<Rightarrow>
        case flush_effect exec first second (rg_queue g) (rg_db g) of
          (result, d) \<Rightarrow>
            (result, if rg_queue g = [] then g
                     else g\<lparr>rg_connected := fst result, rg_queue := [], rg_outcomes := tl (rg_outcomes g), rg_db := d\<rparr>))"

definition command :: "'d exec \<Rightarrow> bytes list \<Rightarrow> 'd registry \<Rightarrow> redis_reply \<times> 'd registry" where
  "command exec args g =
     (case flush exec (queue args g) of
        ((success, replies), g) \<Rightarrow> (if \<not> success \<or> replies = [] then transport_error else hd replies, g))"


section \<open>Data\<close>

record shard_info =
  si_id :: bytes
  si_udp_endpoint :: bytes
  si_http_endpoint :: bytes
  si_player_count :: u32
  si_capacity :: u32
  si_tick_p99_ms :: bytes
  si_heartbeat_ms :: u64
  si_draining :: bool

definition accepting :: "shard_info \<Rightarrow> bool" where
  "accepting s \<longleftrightarrow> \<not> si_draining s \<and> si_player_count s < si_capacity s"

record presence_record =
  pr_player_id :: bytes
  pr_shard_id :: bytes
  pr_region :: u32
  pr_session_token :: u64
  pr_updated_ms :: u64

definition shard_key :: "'d registry \<Rightarrow> bytes \<Rightarrow> bytes" where
  "shard_key g i = rg_prefix g @ ascii '':shard:'' @ i"

definition presence_key :: "'d registry \<Rightarrow> bytes \<Rightarrow> bytes" where
  "presence_key g i = rg_prefix g @ ascii '':presence:'' @ i"

definition members_key :: "'d registry \<Rightarrow> bytes" where
  "members_key g = rg_prefix g @ ascii '':shards''"

definition roster_key :: "'d registry \<Rightarrow> bytes \<Rightarrow> bytes" where
  "roster_key g i = rg_prefix g @ ascii '':roster:'' @ i"

definition dec_word :: "'a::len word \<Rightarrow> bytes" where
  "dec_word w = dec (unat w)"

text \<open>The alternating list of fields and values that \<open>HGETALL\<close> returns.\<close>

fun field :: "redis_reply list \<Rightarrow> bytes \<Rightarrow> bytes" where
  "field (a # b # es) name = (if reply_str a = name then reply_str b else field es name)"
| "field _ name = []"

definition field_u64 :: "redis_reply list \<Rightarrow> bytes \<Rightarrow> u64" where
  "field_u64 es name = (let v = field es name in if v = [] then 0 else strtoull v)"

definition parse_shard :: "bytes \<Rightarrow> redis_reply list \<Rightarrow> shard_info" where
  "parse_shard i hash =
     \<lparr>si_id = i, si_udp_endpoint = field hash (ascii ''udp''), si_http_endpoint = field hash (ascii ''http''),
      si_player_count = ucast (field_u64 hash (ascii ''players'')), si_capacity = ucast (field_u64 hash (ascii ''capacity'')),
      si_tick_p99_ms = field hash (ascii ''tick_p99_ms''), si_heartbeat_ms = field_u64 hash (ascii ''heartbeat''),
      si_draining = (field hash (ascii ''draining'') = ascii ''1'')\<rparr>"

definition registry_connect :: "bool \<Rightarrow> bytes \<Rightarrow> 'd registry \<Rightarrow> bool \<times> 'd registry" where
  "registry_connect opened key_prefix g = (opened, g\<lparr>rg_prefix := key_prefix, rg_connected := opened, rg_queue := []\<rparr>)"

definition registry_disconnect :: "'d registry \<Rightarrow> 'd registry" where
  "registry_disconnect g = g\<lparr>rg_connected := False, rg_queue := []\<rparr>"


section \<open>Shards\<close>

definition heartbeat_shard :: "'d exec \<Rightarrow> u64 \<Rightarrow> shard_info \<Rightarrow> u32 \<Rightarrow> 'd registry \<Rightarrow> bool \<times> 'd registry" where
  "heartbeat_shard exec wall_ms shard ttl_ms g =
     (if si_id shard = [] then (False, g)
      else
        let key = shard_key g (si_id shard);
            g = queue [ascii ''HSET'', key, ascii ''udp'', si_udp_endpoint shard, ascii ''http'', si_http_endpoint shard,
                       ascii ''players'', dec_word (si_player_count shard), ascii ''capacity'', dec_word (si_capacity shard),
                       ascii ''tick_p99_ms'', si_tick_p99_ms shard, ascii ''heartbeat'', dec_word wall_ms,
                       ascii ''draining'', if si_draining shard then ascii ''1'' else ascii ''0''] g;
            g = queue [ascii ''PEXPIRE'', key, dec_word ttl_ms] g;
            g = queue [ascii ''SADD'', members_key g, si_id shard] g
        in case flush exec g of ((success, replies), g) \<Rightarrow> (success \<and> list_all (\<lambda>r. \<not> is_error r) replies, g))"

definition remove_shard :: "'d exec \<Rightarrow> bytes \<Rightarrow> 'd registry \<Rightarrow> bool \<times> 'd registry" where
  "remove_shard exec shard_id g =
     (let g = queue [ascii ''DEL'', shard_key g shard_id] g;
          g = queue [ascii ''SREM'', members_key g, shard_id] g;
          g = queue [ascii ''DEL'', roster_key g shard_id] g
      in case flush exec g of ((success, _), g) \<Rightarrow> (success, g))"

definition queue_prune :: "bytes \<Rightarrow> 'd registry \<Rightarrow> 'd registry" where
  "queue_prune i g = queue [ascii ''DEL'', roster_key g i] (queue [ascii ''SREM'', members_key g, i] g)"

definition live_shards :: "'d exec \<Rightarrow> 'd registry \<Rightarrow> (shard_info list \<times> u32) \<times> 'd registry" where
  "live_shards exec g =
     (case command exec [ascii ''SMEMBERS'', members_key g] g of (members, g) \<Rightarrow>
        if reply_elements members = [] then (([], 0), g)
        else
          let ids = map reply_str (reply_elements members);
              g = fold (\<lambda>i g. queue [ascii ''HGETALL'', shard_key g i] g) ids g
          in case flush exec g of ((success, hashes), g) \<Rightarrow>
               if \<not> success \<or> length hashes \<noteq> length ids then (([], 0), g)
               else
                 let found = zip ids hashes;
                     live = map (\<lambda>(i, h). parse_shard i (reply_elements h)) (filter (\<lambda>(i, h). reply_elements h \<noteq> []) found);
                     dead = map fst (filter (\<lambda>(i, h). reply_elements h = []) found)
                 in if dead = [] then ((live, 0), g)
                    else case flush exec (fold queue_prune dead g) of (_, g) \<Rightarrow> ((live, word_of_nat (length dead)), g))"

definition get_shard :: "'d exec \<Rightarrow> bytes \<Rightarrow> 'd registry \<Rightarrow> shard_info option \<times> 'd registry" where
  "get_shard exec shard_id g =
     (case command exec [ascii ''HGETALL'', shard_key g shard_id] g of (hash, g) \<Rightarrow>
        (if reply_elements hash = [] then None else Some (parse_shard shard_id (reply_elements hash)), g))"


section \<open>Presence\<close>

definition queue_set_presence :: "u64 \<Rightarrow> presence_record \<Rightarrow> u32 \<Rightarrow> 'd registry \<Rightarrow> 'd registry" where
  "queue_set_presence wall_ms r ttl_ms g =
     (let key = presence_key g (pr_player_id r);
          ttl = dec_word ttl_ms;
          g = queue [ascii ''HSET'', key, ascii ''shard'', pr_shard_id r, ascii ''region'', dec_word (pr_region r),
                     ascii ''session'', dec_word (pr_session_token r), ascii ''updated'', dec_word wall_ms] g;
          g = queue [ascii ''PEXPIRE'', key, ttl] g;
          g = queue [ascii ''SADD'', roster_key g (pr_shard_id r), pr_player_id r] g
      in queue [ascii ''PEXPIRE'', roster_key g (pr_shard_id r), ttl] g)"

definition set_presence :: "'d exec \<Rightarrow> u64 \<Rightarrow> presence_record \<Rightarrow> u32 \<Rightarrow> 'd registry \<Rightarrow> bool \<times> 'd registry" where
  "set_presence exec wall_ms r ttl_ms g =
     (case flush exec (queue_set_presence wall_ms r ttl_ms g) of
        ((success, replies), g) \<Rightarrow> (success \<and> list_all (\<lambda>r. \<not> is_error r) replies, g))"

definition get_presence :: "'d exec \<Rightarrow> bytes \<Rightarrow> 'd registry \<Rightarrow> presence_record option \<times> 'd registry" where
  "get_presence exec player_id g =
     (case command exec [ascii ''HGETALL'', presence_key g player_id] g of (hash, g) \<Rightarrow>
        (let es = reply_elements hash
         in if es = [] then None
            else Some \<lparr>pr_player_id = player_id, pr_shard_id = field es (ascii ''shard''), pr_region = ucast (field_u64 es (ascii ''region'')),
                       pr_session_token = field_u64 es (ascii ''session''), pr_updated_ms = field_u64 es (ascii ''updated'')\<rparr>, g))"

definition clear_presence :: "'d exec \<Rightarrow> bytes \<Rightarrow> 'd registry \<Rightarrow> bool \<times> 'd registry" where
  "clear_presence exec player_id g =
     (case get_presence exec player_id g of (found, g) \<Rightarrow>
        let g = (case found of
                   Some r \<Rightarrow> if pr_shard_id r \<noteq> [] then queue [ascii ''SREM'', roster_key g (pr_shard_id r), player_id] g else g
                 | None \<Rightarrow> g);
            g = queue [ascii ''DEL'', presence_key g player_id] g
        in case flush exec g of ((success, _), g) \<Rightarrow> (success, g))"

text \<open>
  The two scripts, as the sequences of calls they make when the server runs them. \<open>redis.call\<close> raises an error reply and
  thereby ends the script; a missing field reads as \<open>false\<close>.
\<close>

primrec script_calls :: "'d exec \<Rightarrow> bytes list list \<Rightarrow> 'd \<Rightarrow> redis_reply \<times> 'd" where
  "script_calls exec [] d = (kInteger 1, d)"
| "script_calls exec (cmd # cmds) d =
     (case exec cmd d of (r, d) \<Rightarrow> if is_error r then (r, d) else script_calls exec cmds d)"

definition transfer_script :: "'d exec \<Rightarrow> bytes \<Rightarrow> bytes \<Rightarrow> bytes \<Rightarrow> bytes \<Rightarrow> bytes \<Rightarrow> bytes \<Rightarrow> bytes \<Rightarrow> bytes \<Rightarrow> bytes \<Rightarrow> 'd \<Rightarrow> redis_reply \<times> 'd" where
  "transfer_script exec key1 key2 key3 arg1 arg2 arg3 arg4 arg5 arg6 d =
     (case exec [ascii ''HGET'', key1, ascii ''shard''] d of (current, d) \<Rightarrow>
        if is_error current then (current, d)
        else if current \<noteq> kNil \<and> current \<noteq> kString arg1 then (kInteger 0, d)
        else script_calls exec
          [[ascii ''HSET'', key1, ascii ''shard'', arg2, ascii ''region'', arg3, ascii ''updated'', arg4],
           [ascii ''PEXPIRE'', key1, arg5],
           [ascii ''SREM'', key2, arg6],
           [ascii ''SADD'', key3, arg6],
           [ascii ''PEXPIRE'', key3, arg5]] d)"

definition claim_script :: "'d exec \<Rightarrow> bytes \<Rightarrow> bytes \<Rightarrow> bytes \<Rightarrow> bytes \<Rightarrow> bytes \<Rightarrow> bytes \<Rightarrow> bytes \<Rightarrow> bytes \<Rightarrow> 'd \<Rightarrow> redis_reply \<times> 'd" where
  "claim_script exec key1 key2 arg1 arg2 arg3 arg4 arg5 arg6 d =
     (case exec [ascii ''HGET'', key1, ascii ''shard''] d of (current, d) \<Rightarrow>
        if is_error current then (current, d)
        else if current \<noteq> kNil \<and> current \<noteq> kString arg1 then (current, d)
        else script_calls exec
          [[ascii ''HSET'', key1, ascii ''shard'', arg1, ascii ''region'', arg2, ascii ''session'', arg3, ascii ''updated'', arg4],
           [ascii ''PEXPIRE'', key1, arg5],
           [ascii ''SADD'', key2, arg6],
           [ascii ''PEXPIRE'', key2, arg5]] d)"

text \<open>A script is sent as its text; the name stands for it here.\<close>

definition kTransferScript :: bytes where "kTransferScript = ascii ''kTransferScript''"
definition kClaimScript :: bytes where "kClaimScript = ascii ''kClaimScript''"

definition queue_transfer_presence :: "u64 \<Rightarrow> bytes \<Rightarrow> bytes \<Rightarrow> bytes \<Rightarrow> u32 \<Rightarrow> u32 \<Rightarrow> 'd registry \<Rightarrow> 'd registry" where
  "queue_transfer_presence wall_ms player_id from_shard to_shard region ttl_ms g =
     queue [ascii ''EVAL'', kTransferScript, ascii ''3'', presence_key g player_id, roster_key g from_shard, roster_key g to_shard,
            from_shard, to_shard, dec_word region, dec_word wall_ms, dec_word ttl_ms, player_id] g"

definition transfer_presence :: "'d exec \<Rightarrow> u64 \<Rightarrow> bytes \<Rightarrow> bytes \<Rightarrow> bytes \<Rightarrow> u32 \<Rightarrow> u32 \<Rightarrow> 'd registry \<Rightarrow> bool \<times> 'd registry" where
  "transfer_presence exec wall_ms player_id from_shard to_shard region ttl_ms g =
     (case flush exec (queue_transfer_presence wall_ms player_id from_shard to_shard region ttl_ms g) of
        ((success, replies), g) \<Rightarrow> (success \<and> replies \<noteq> [] \<and> hd replies = kInteger 1, g))"

text \<open>Whether the claim took, and otherwise the owner that the reply names, which is set unless the reply is an error.\<close>

definition claim_presence :: "'d exec \<Rightarrow> u64 \<Rightarrow> presence_record \<Rightarrow> u32 \<Rightarrow> 'd registry \<Rightarrow> (bool \<times> bytes option) \<times> 'd registry" where
  "claim_presence exec wall_ms r ttl_ms g =
     (case command exec [ascii ''EVAL'', kClaimScript, ascii ''2'', presence_key g (pr_player_id r), roster_key g (pr_shard_id r),
            pr_shard_id r, dec_word (pr_region r), dec_word (pr_session_token r), dec_word wall_ms, dec_word ttl_ms, pr_player_id r] g of
        (reply, g) \<Rightarrow>
          (if is_error reply then (False, None) else if reply = kInteger 1 then (True, None) else (False, Some (reply_str reply)), g))"

definition players_on_shard :: "'d exec \<Rightarrow> bytes \<Rightarrow> 'd registry \<Rightarrow> bytes list \<times> 'd registry" where
  "players_on_shard exec shard_id g =
     (case command exec [ascii ''SMEMBERS'', roster_key g shard_id] g of (members, g) \<Rightarrow> (map reply_str (reply_elements members), g))"

end
