(* ===== verification/Shard.thy ===== *)
theory Shard
  imports Presence Migration Region_Map "HOL-Library.List_Lexorder"
begin

text \<open>
  The store of handoff tickets (\<open>cluster/migration.cpp\<close>) and the coordinator of a shard (\<open>cluster/shard.h\<close>,
  \<open>cluster/shard.cpp\<close>). The store keeps its counters and works on the registry of the coordinator. The random generator of
  the tokens is a sequence of numbers and the count of those drawn; shard names are sorted in the lexicographic order
  of their bytes, as \<open>std::string\<close> compares.
\<close>

section \<open>Tickets in Redis\<close>

record migration_store =
  ms_issued :: u64
  ms_redeemed :: u64
  ms_rejected :: u64

definition ticket_key :: "u64 \<Rightarrow> 'd registry \<Rightarrow> bytes" where
  "ticket_key token g = rg_prefix g @ ascii '':ticket:'' @ dec_word token"

definition discard :: "'d exec \<Rightarrow> u64 \<Rightarrow> 'd registry \<Rightarrow> bool \<times> 'd registry" where
  "discard exec token g = (case command exec [ascii ''DEL'', ticket_key token g] g of (reply, g) \<Rightarrow> (reply = kInteger 1, g))"

definition stamp :: "u64 \<Rightarrow> migration_ticket \<Rightarrow> migration_ticket" where
  "stamp wall_ms ticket = (if mt_issued_ms ticket = 0 then ticket\<lparr>mt_issued_ms := wall_ms\<rparr> else ticket)"

definition publish_and_transfer :: "'d exec \<Rightarrow> u64 \<Rightarrow> migration_ticket \<Rightarrow> u32 \<Rightarrow> u32 \<Rightarrow> migration_store \<times> 'd registry \<Rightarrow>
    bool \<times> migration_store \<times> 'd registry" where
  "publish_and_transfer exec wall_ms ticket ttl_ms presence_ttl_ms mg =
     (case mg of (m, g) \<Rightarrow>
        let stamped = stamp wall_ms ticket;
            blob = encode_migration_ticket stamped
        in if blob = [] then (False, m, g)
           else
             let g = queue [ascii ''SET'', ticket_key (mt_token stamped) g, blob, ascii ''PX'', dec_word ttl_ms, ascii ''NX''] g;
                 g = queue_transfer_presence wall_ms (mt_player_id stamped) (mt_from_shard stamped) (mt_to_shard stamped)
                       (mt_region stamped) presence_ttl_ms g
             in case flush exec g of ((success, replies), g) \<Rightarrow>
                  if \<not> success \<or> length replies \<noteq> 2 then (False, m, g)
                  else if \<not> reply_ok (replies ! 0) then (False, m, g)
                  else
                    let m = m\<lparr>ms_issued := ms_issued m + 1\<rparr>
                    in if replies ! 1 \<noteq> kInteger 1
                       then (case discard exec (mt_token stamped) g of (_, g) \<Rightarrow> (False, m, g))
                       else (True, m, g))"

definition redeem :: "'d exec \<Rightarrow> u64 \<Rightarrow> migration_store \<times> 'd registry \<Rightarrow> migration_ticket option \<times> migration_store \<times> 'd registry" where
  "redeem exec token mg =
     (case mg of (m, g) \<Rightarrow>
        case command exec [ascii ''GETDEL'', ticket_key token g] g of (reply, g) \<Rightarrow>
          case (case reply of kString blob \<Rightarrow> decode_migration_ticket blob | _ \<Rightarrow> None) of
            None \<Rightarrow> (None, m\<lparr>ms_rejected := ms_rejected m + 1\<rparr>, g)
          | Some ticket \<Rightarrow>
              if mt_token ticket \<noteq> token then (None, m\<lparr>ms_rejected := ms_rejected m + 1\<rparr>, g)
              else (Some ticket, m\<lparr>ms_redeemed := ms_redeemed m + 1\<rparr>, g))"


section \<open>The coordinator\<close>

record shard_config =
  sh_id :: bytes
  sh_udp_endpoint :: bytes
  sh_http_endpoint :: bytes
  sh_capacity :: u32
  sh_heartbeat_ttl_ms :: u32
  sh_refresh_interval_ms :: u32
  sh_presence_ttl_ms :: u32
  sh_ticket_ttl_ms :: u32
  sh_regions :: region_map

record handoff_plan =
  hp_token :: u64
  hp_target_region :: u32
  hp_target_shard :: bytes
  hp_target_endpoint :: bytes

record 'd shard_coordinator =
  sc_shard_config :: shard_config
  sc_registry :: "'d registry"
  sc_tickets :: migration_store
  sc_members :: "shard_info list"
  sc_region_owner :: "bytes list"
  sc_endpoints :: "bytes \<rightharpoonup> bytes"
  sc_last_refresh_ms :: u64
  sc_tokens :: "nat \<Rightarrow> u64"
  sc_drawn :: nat
  sc_handoffs_started :: u64
  sc_handoffs_accepted :: u64
  sc_handoffs_declined :: u64
  sc_shards_pruned :: u32

definition recompute_ownership :: "'d shard_coordinator \<Rightarrow> 'd shard_coordinator" where
  "recompute_ownership c =
     (let me = sh_id (sc_shard_config c);
          ids = map si_id (filter (\<lambda>s. \<not> (si_draining s \<and> si_id s \<noteq> me)) (sc_members c))
      in c\<lparr>sc_endpoints := foldl (\<lambda>m s. m(si_id s \<mapsto> si_udp_endpoint s)) Map.empty (sc_members c),
           sc_region_owner := assign_regions (sort ids) (region_count (sh_regions (sc_shard_config c)))\<rparr>)"

definition self_info :: "u32 \<Rightarrow> bytes \<Rightarrow> 'd shard_coordinator \<Rightarrow> shard_info" where
  "self_info player_count tick_p99_ms c =
     (let config = sc_shard_config c
      in \<lparr>si_id = sh_id config, si_udp_endpoint = sh_udp_endpoint config, si_http_endpoint = sh_http_endpoint config,
          si_player_count = player_count, si_capacity = sh_capacity config, si_tick_p99_ms = tick_p99_ms, si_heartbeat_ms = 0,
          si_draining = False\<rparr>)"

definition refresh :: "'d exec \<Rightarrow> u64 \<Rightarrow> u64 \<Rightarrow> u32 \<Rightarrow> bytes \<Rightarrow> bool \<Rightarrow> 'd shard_coordinator \<Rightarrow> bool \<times> 'd shard_coordinator" where
  "refresh exec wall_ms now_ms player_count tick_p99_ms force c =
     (if \<not> force \<and> now_ms - sc_last_refresh_ms c < ucast (sh_refresh_interval_ms (sc_shard_config c)) then (False, c)
      else
        let c = c\<lparr>sc_last_refresh_ms := now_ms\<rparr>
        in case heartbeat_shard exec wall_ms (self_info player_count tick_p99_ms c) (sh_heartbeat_ttl_ms (sc_shard_config c)) (sc_registry c) of
             (False, g) \<Rightarrow> (False, c\<lparr>sc_registry := g\<rparr>)
           | (True, g) \<Rightarrow>
               case live_shards exec g of ((members, pruned), g) \<Rightarrow>
                 let c = c\<lparr>sc_registry := g, sc_shards_pruned := sc_shards_pruned c + pruned\<rparr>
                 in if members = [] then (False, c)
                    else let c' = recompute_ownership (c\<lparr>sc_members := members\<rparr>)
                         in (sc_region_owner c' \<noteq> sc_region_owner c, c'))"

definition coordinator_start :: "'d exec \<Rightarrow> bool \<Rightarrow> u64 \<Rightarrow> (nat \<Rightarrow> u64) \<Rightarrow> shard_config \<Rightarrow> bytes \<Rightarrow> 'd shard_coordinator \<Rightarrow>
    bool \<times> 'd shard_coordinator" where
  "coordinator_start exec opened wall_ms tokens config key_prefix c =
     (let c = c\<lparr>sc_shard_config := config, sc_region_owner := replicate (unat (region_count (sh_regions config))) [],
               sc_tokens := tokens, sc_drawn := 0\<rparr>
      in case registry_connect opened key_prefix (sc_registry c) of
           (False, g) \<Rightarrow> (False, c\<lparr>sc_registry := g\<rparr>)
         | (True, g) \<Rightarrow> refresh exec wall_ms wall_ms 0 (ascii ''0.000000'') True (c\<lparr>sc_registry := g\<rparr>))"

definition coordinator_stop :: "'d exec \<Rightarrow> 'd shard_coordinator \<Rightarrow> 'd shard_coordinator" where
  "coordinator_stop exec c =
     (if \<not> rg_connected (sc_registry c) then c
      else case remove_shard exec (sh_id (sc_shard_config c)) (sc_registry c) of
             (_, g) \<Rightarrow> c\<lparr>sc_registry := registry_disconnect g\<rparr>)"

definition owns_region :: "u32 \<Rightarrow> 'd shard_coordinator \<Rightarrow> bool" where
  "owns_region region c \<longleftrightarrow> unat region < length (sc_region_owner c) \<and> sc_region_owner c ! unat region = sh_id (sc_shard_config c)"

definition owned_regions :: "'d shard_coordinator \<Rightarrow> u32 list" where
  "owned_regions c = map word_of_nat (filter (\<lambda>r. sc_region_owner c ! r = sh_id (sc_shard_config c)) [0..<length (sc_region_owner c)])"

definition owner_of_region :: "u32 \<Rightarrow> 'd shard_coordinator \<Rightarrow> bytes" where
  "owner_of_region region c = (if unat region < length (sc_region_owner c) then sc_region_owner c ! unat region else [])"

definition endpoint_of_shard :: "bytes \<Rightarrow> 'd shard_coordinator \<Rightarrow> bytes option" where
  "endpoint_of_shard shard_id c = (case sc_endpoints c shard_id of Some e \<Rightarrow> if e = [] then None else Some e | None \<Rightarrow> None)"

definition spawn_region :: "'d shard_coordinator \<Rightarrow> u32" where
  "spawn_region c = (case owned_regions c of [] \<Rightarrow> 0 | r # _ \<Rightarrow> r)"

definition next_token :: "'d shard_coordinator \<Rightarrow> u64 \<times> 'd shard_coordinator" where
  "next_token c = (let t = sc_tokens c (sc_drawn c) in (if t = 0 then 1 else t, c\<lparr>sc_drawn := sc_drawn c + 1\<rparr>))"

text \<open>
  The region of the position is undefined where its coordinates are no numbers or too large for an integer; the result is
  then nothing at all, otherwise whether there is a plan.
\<close>

definition plan_handoff :: "'d exec \<Rightarrow> u64 \<Rightarrow> bytes \<Rightarrow> u32 \<Rightarrow> vec2 \<Rightarrow> vec2 \<Rightarrow> tick \<Rightarrow> u32 \<Rightarrow> 'd shard_coordinator \<Rightarrow>
    (handoff_plan option \<times> 'd shard_coordinator) option" where
  "plan_handoff exec wall_ms player_id current_region position velocity tick last_input_sequence c =
     map_option (\<lambda>target_region.
         let config = sc_shard_config c; owner = owner_of_region target_region c
         in if target_region = kInvalidRegion \<or> owner = [] \<or> owner = sh_id config then (None, c)
            else case endpoint_of_shard owner c of
              None \<Rightarrow> (None, c\<lparr>sc_handoffs_declined := sc_handoffs_declined c + 1\<rparr>)
            | Some endpoint \<Rightarrow>
                (case next_token c of (token, c) \<Rightarrow>
                   let ticket = \<lparr>mt_token = token, mt_player_id = player_id, mt_from_shard = sh_id config, mt_to_shard = owner,
                                mt_region = target_region, mt_tick = tick, mt_position = position, mt_velocity = velocity,
                                mt_last_input_sequence = last_input_sequence, mt_issued_ms = 0\<rparr>
                   in case publish_and_transfer exec wall_ms ticket (sh_ticket_ttl_ms config) (sh_presence_ttl_ms config) (sc_tickets c, sc_registry c) of
                        (False, m, g) \<Rightarrow> (None, c\<lparr>sc_tickets := m, sc_registry := g, sc_handoffs_declined := sc_handoffs_declined c + 1\<rparr>)
                      | (True, m, g) \<Rightarrow>
                          (Some \<lparr>hp_token = token, hp_target_region = target_region, hp_target_shard = owner, hp_target_endpoint = endpoint\<rparr>,
                           c\<lparr>sc_tickets := m, sc_registry := g, sc_handoffs_started := sc_handoffs_started c + 1\<rparr>)))
       (handoff_target (sh_regions (sc_shard_config c)) current_region (vx position) (vy position))"

definition accept_handoff :: "'d exec \<Rightarrow> u64 \<Rightarrow> 'd shard_coordinator \<Rightarrow> migration_ticket option \<times> 'd shard_coordinator" where
  "accept_handoff exec token c =
     (case redeem exec token (sc_tickets c, sc_registry c) of
        (found, m, g) \<Rightarrow>
          let c = c\<lparr>sc_tickets := m, sc_registry := g\<rparr>
          in case found of
               None \<Rightarrow> (None, c)
             | Some ticket \<Rightarrow>
                 if mt_to_shard ticket \<noteq> sh_id (sc_shard_config c) then (None, c)
                 else (Some ticket, c\<lparr>sc_handoffs_accepted := sc_handoffs_accepted c + 1\<rparr>))"

definition touch_presence :: "'d exec \<Rightarrow> u64 \<Rightarrow> presence_record \<Rightarrow> 'd shard_coordinator \<Rightarrow> bool \<times> 'd shard_coordinator" where
  "touch_presence exec wall_ms r c =
     (case set_presence exec wall_ms r (sh_presence_ttl_ms (sc_shard_config c)) (sc_registry c) of (b, g) \<Rightarrow> (b, c\<lparr>sc_registry := g\<rparr>))"

definition queue_touch_presence :: "u64 \<Rightarrow> presence_record \<Rightarrow> 'd shard_coordinator \<Rightarrow> 'd shard_coordinator" where
  "queue_touch_presence wall_ms r c =
     c\<lparr>sc_registry := queue_set_presence wall_ms r (sh_presence_ttl_ms (sc_shard_config c)) (sc_registry c)\<rparr>"

definition flush_presence :: "'d exec \<Rightarrow> 'd shard_coordinator \<Rightarrow> bool \<times> 'd shard_coordinator" where
  "flush_presence exec c =
     (case flush exec (sc_registry c) of ((success, replies), g) \<Rightarrow>
        (success \<and> list_all (\<lambda>r. \<not> is_error r) replies, c\<lparr>sc_registry := g\<rparr>))"

definition claim_player :: "'d exec \<Rightarrow> u64 \<Rightarrow> presence_record \<Rightarrow> 'd shard_coordinator \<Rightarrow> (bool \<times> bytes option) \<times> 'd shard_coordinator" where
  "claim_player exec wall_ms r c =
     (case claim_presence exec wall_ms r (sh_presence_ttl_ms (sc_shard_config c)) (sc_registry c) of (x, g) \<Rightarrow> (x, c\<lparr>sc_registry := g\<rparr>))"

definition release_player :: "'d exec \<Rightarrow> bytes \<Rightarrow> 'd shard_coordinator \<Rightarrow> bool \<times> 'd shard_coordinator" where
  "release_player exec player_id c =
     (case clear_presence exec player_id (sc_registry c) of (b, g) \<Rightarrow> (b, c\<lparr>sc_registry := g\<rparr>))"

end
