(* ===== verification/Redis_Service.thy ===== *)
theory Redis_Service
  imports Shard "HOL-Library.AList"
begin

text \<open>
  What the cluster layer relies on of the Redis server, as the laws of an interface: the documented effect of the commands it
  sends on the keys of the database. A store of association lists satisfies them.
\<close>

section \<open>The interface\<close>

datatype redis_value = Str bytes | Hash "bytes \<rightharpoonup> bytes" | Members "bytes set"

definition flat :: "(bytes \<times> bytes) list \<Rightarrow> bytes list" where
  "flat fvs = concat (map (\<lambda>(f, v). [f, v]) fvs)"

definition set_fields :: "(bytes \<times> bytes) list \<Rightarrow> (bytes \<rightharpoonup> bytes) \<Rightarrow> bytes \<rightharpoonup> bytes" where
  "set_fields fvs h = foldl (\<lambda>h (f, v). h(f \<mapsto> v)) h fvs"

definition hash_at :: "redis_value option \<Rightarrow> (bytes \<rightharpoonup> bytes) option" where
  "hash_at v = (case v of None \<Rightarrow> Some Map.empty | Some (Hash h) \<Rightarrow> Some h | _ \<Rightarrow> None)"

definition set_at :: "redis_value option \<Rightarrow> bytes set option" where
  "set_at v = (case v of None \<Rightarrow> Some {} | Some (Members s) \<Rightarrow> Some s | _ \<Rightarrow> None)"

text \<open>The keys of a registry hold what the cluster layer puts there: sets for rosters, hashes for presence records.\<close>

definition typed_keys :: "'d registry \<Rightarrow> (bytes \<rightharpoonup> redis_value) \<Rightarrow> bool" where
  "typed_keys g ks \<longleftrightarrow> (\<forall>i. set_at (ks (roster_key g i)) \<noteq> None) \<and> (\<forall>i. hash_at (ks (presence_key g i)) \<noteq> None)"

text \<open>The shard that the presence record of a player names.\<close>

definition owner_in :: "'d registry \<Rightarrow> (bytes \<rightharpoonup> redis_value) \<Rightarrow> bytes \<Rightarrow> bytes option" where
  "owner_in g ks player = (case hash_at (ks (presence_key g player)) of Some h \<Rightarrow> h (ascii ''shard'') | None \<Rightarrow> None)"

text \<open>No attempt of the flushes to come breaks.\<close>

definition fault_free :: "'d registry \<Rightarrow> bool" where
  "fault_free g \<longleftrightarrow> list_all (\<lambda>p. fst p = Answered) (rg_outcomes g)"

lemma key_distinct [simp]:
  "presence_key g i \<noteq> roster_key g j" "roster_key g j \<noteq> presence_key g i" "ticket_key t g \<noteq> presence_key g i" "presence_key g i \<noteq> ticket_key t g"
  "ticket_key t g \<noteq> roster_key g i" "roster_key g i \<noteq> ticket_key t g"
  by (simp_all add: presence_key_def roster_key_def ticket_key_def ascii_simps)

lemma presence_key_inj [simp]: "presence_key g i = presence_key g j \<longleftrightarrow> i = j"
  by (simp add: presence_key_def)

lemma queue_fields [simp]:
  "rg_prefix (queue cmd g) = rg_prefix g" "rg_db (queue cmd g) = rg_db g" "rg_outcomes (queue cmd g) = rg_outcomes g"
  "rg_queue (queue cmd g) = rg_queue g @ [cmd]"
  by (simp_all add: queue_def)

lemma keys_of_prefix:
  assumes "rg_prefix g' = rg_prefix g"
  shows "presence_key g' = presence_key g" and "roster_key g' = roster_key g" and "ticket_key t g' = ticket_key t g"
  using assms by (auto simp: presence_key_def roster_key_def ticket_key_def)

lemma of_prefix:
  assumes "rg_prefix g' = rg_prefix g"
  shows "typed_keys g' ks = typed_keys g ks" and "owner_in g' ks p = owner_in g ks p"
  by (simp_all add: typed_keys_def owner_in_def keys_of_prefix [OF assms])

lemma next_answered: "fault_free g \<Longrightarrow> fst (next_outcome g) = Answered"
  by (auto simp: fault_free_def next_outcome_def split: list.split)

text \<open>A flush that is answered.\<close>

lemma flush_answered:
  assumes "fault_free g" and "rg_queue g \<noteq> []" and "run_commands exec (rg_queue g) (rg_db g) = (rs, d)" and "flush exec g = (r, g')"
  shows "r = (True, rs)" and "rg_db g' = d" and "rg_queue g' = []" and "rg_prefix g' = rg_prefix g" and "fault_free g'"
proof -
  obtain b where b: "next_outcome g = (Answered, b)" using next_answered [OF assms(1)] by (cases "next_outcome g") simp
  then have run: "(r, g') = ((True, rs), g\<lparr>rg_connected := True, rg_queue := [], rg_outcomes := tl (rg_outcomes g), rg_db := d\<rparr>)"
    using assms(2-4) by (simp add: flush_def flush_effect_def)
  have "list_all (\<lambda>p. fst p = Answered) (tl (rg_outcomes g))" using assms(1) by (cases "rg_outcomes g") (simp_all add: fault_free_def)
  with run show "r = (True, rs)" "rg_db g' = d" "rg_queue g' = []" "rg_prefix g' = rg_prefix g" "fault_free g'"
    by (simp_all add: fault_free_def)
qed

lemma command_answered:
  assumes "fault_free g" and "rg_queue g = []" and "exec args (rg_db g) = (reply, d)" and "command exec args g = (r, g')"
  shows "r = reply" and "rg_db g' = d" and "rg_queue g' = []" and "rg_prefix g' = rg_prefix g" and "fault_free g'"
proof -
  obtain x g1 where f: "flush exec (queue args g) = (x, g1)" by (rule prod.exhaust)
  have q: "fault_free (queue args g)" "rg_queue (queue args g) \<noteq> []" "run_commands exec (rg_queue (queue args g)) (rg_db (queue args g)) = ([reply], d)"
    using assms(1-3) by (simp_all add: fault_free_def)
  note a = flush_answered [OF q f]
  have "(r, g') = (reply, g1)" using assms(4) f a(1) by (simp add: command_def)
  with a show "r = reply" "rg_db g' = d" "rg_queue g' = []" "rg_prefix g' = rg_prefix g" "fault_free g'" by simp_all
qed

text \<open>The two commands of a publication and what is made of their replies.\<close>

definition publish_batch :: "u64 \<Rightarrow> migration_ticket \<Rightarrow> u32 \<Rightarrow> u32 \<Rightarrow> 'd registry \<Rightarrow> bytes list list" where
  "publish_batch wall_ms t ttl_ms presence_ttl_ms g =
     [[ascii ''SET'', ticket_key (mt_token t) g, encode_migration_ticket t, ascii ''PX'', dec_word ttl_ms, ascii ''NX''],
      [ascii ''EVAL'', kTransferScript, ascii ''3'', presence_key g (mt_player_id t), roster_key g (mt_from_shard t), roster_key g (mt_to_shard t),
       mt_from_shard t, mt_to_shard t, dec_word (mt_region t), dec_word wall_ms, dec_word presence_ttl_ms, mt_player_id t]]"

lemma publish_runs:
  assumes "rg_queue g = []" and "t = stamp now ticket" and "encode_migration_ticket t \<noteq> []"
  shows "publish_and_transfer exec now ticket ttl pttl (m, g) =
    (case flush exec (g\<lparr>rg_queue := publish_batch now t ttl pttl g\<rparr>) of ((success, replies), g) \<Rightarrow>
       if \<not> success \<or> length replies \<noteq> 2 then (False, m, g)
       else if \<not> reply_ok (replies ! 0) then (False, m, g)
       else if replies ! 1 \<noteq> kInteger 1
       then (case discard exec (mt_token t) g of (_, g) \<Rightarrow> (False, m\<lparr>ms_issued := ms_issued m + 1\<rparr>, g))
       else (True, m\<lparr>ms_issued := ms_issued m + 1\<rparr>, g))"
proof -
  have k: "presence_key (g\<lparr>rg_queue := q\<rparr>) = presence_key g" "roster_key (g\<lparr>rg_queue := q\<rparr>) = roster_key g" for q
    by (rule keys_of_prefix; simp)+
  obtain b rs g' where "flush exec (g\<lparr>rg_queue := publish_batch now t ttl pttl g\<rparr>) = ((b, rs), g')" by (metis prod.exhaust)
  then show ?thesis
    using assms by (simp add: publish_and_transfer_def publish_batch_def queue_transfer_presence_def queue_def k Let_def)
qed

text \<open>The ticket of a token in a reply and in the database.\<close>

definition ticket_in :: "u64 \<Rightarrow> redis_reply \<Rightarrow> migration_ticket option" where
  "ticket_in token reply =
     (case (case reply of kString blob \<Rightarrow> decode_migration_ticket blob | _ \<Rightarrow> None) of
        None \<Rightarrow> None | Some t \<Rightarrow> if mt_token t \<noteq> token then None else Some t)"

definition ticket_at :: "u64 \<Rightarrow> redis_value option \<Rightarrow> migration_ticket option" where
  "ticket_at token v = (case v of Some (Str blob) \<Rightarrow> ticket_in token (kString blob) | _ \<Rightarrow> None)"

text \<open>The times to live that the cluster layer sends: a positive number of milliseconds, in decimal. Only these have a law.\<close>

definition is_ttl :: "bytes \<Rightarrow> bool" where
  "is_ttl t \<longleftrightarrow> (\<exists>n :: u32. 0 < n \<and> t = dec_word n)"

lemma ttl_word: "0 < (n :: u32) \<Longrightarrow> is_ttl (dec_word n)"
  by (auto simp: is_ttl_def)

locale redis_service =
  fixes exec :: "'d exec" and keys :: "'d \<Rightarrow> bytes \<rightharpoonup> redis_value"
  assumes set_nx: "is_ttl t \<Longrightarrow> exec [ascii ''SET'', k, v, ascii ''PX'', t, ascii ''NX''] d = (r, d') \<Longrightarrow>
      (if keys d k = None then r = kStatus (ascii ''OK'') \<and> keys d' = (keys d)(k \<mapsto> Str v) else r = kNil \<and> keys d' = keys d)"
    and getdel: "exec [ascii ''GETDEL'', k] d = (r, d') \<Longrightarrow>
      (case keys d k of
         Some (Str v) \<Rightarrow> r = kString v \<and> keys d' = (keys d)(k := None)
       | None \<Rightarrow> r = kNil \<and> keys d' = keys d
       | _ \<Rightarrow> is_error r \<and> keys d' = keys d)"
    and del: "exec [ascii ''DEL'', k] d = (r, d') \<Longrightarrow> r = kInteger (if keys d k = None then 0 else 1) \<and> keys d' = (keys d)(k := None)"
    and hget: "exec [ascii ''HGET'', k, f] d = (r, d') \<Longrightarrow>
      keys d' = keys d \<and>
      (case hash_at (keys d k) of
         None \<Rightarrow> is_error r
       | Some h \<Rightarrow> r = (case h f of None \<Rightarrow> kNil | Some v \<Rightarrow> kString v))"
    and hset: "fvs \<noteq> [] \<Longrightarrow> exec (ascii ''HSET'' # k # flat fvs) d = (r, d') \<Longrightarrow>
      (case hash_at (keys d k) of
         None \<Rightarrow> is_error r \<and> keys d' = keys d
       | Some h \<Rightarrow> \<not> is_error r \<and> keys d' = (keys d)(k \<mapsto> Hash (set_fields fvs h)))"
    and hgetall: "exec [ascii ''HGETALL'', k] d = (r, d') \<Longrightarrow>
      keys d' = keys d \<and>
      (case hash_at (keys d k) of
         None \<Rightarrow> is_error r
       | Some h \<Rightarrow> \<exists>fvs. distinct (map fst fvs) \<and> map_of fvs = h \<and> r = kArray (map kString (flat fvs)))"
    and pexpire: "is_ttl t \<Longrightarrow> exec [ascii ''PEXPIRE'', k, t] d = (r, d') \<Longrightarrow> \<not> is_error r \<and> keys d' = keys d"
    and sadd: "exec [ascii ''SADD'', k, m] d = (r, d') \<Longrightarrow>
      (case set_at (keys d k) of
         None \<Rightarrow> is_error r \<and> keys d' = keys d
       | Some s \<Rightarrow> \<not> is_error r \<and> keys d' = (keys d)(k \<mapsto> Members (insert m s)))"
    and srem: "exec [ascii ''SREM'', k, m] d = (r, d') \<Longrightarrow>
      (case set_at (keys d k) of
         None \<Rightarrow> is_error r \<and> keys d' = keys d
       | Some s \<Rightarrow> \<not> is_error r \<and> keys d' = (keys d)(k := (if s - {m} = {} then None else Some (Members (s - {m})))))"
    and eval_transfer: "exec [ascii ''EVAL'', kTransferScript, ascii ''3'', k1, k2, k3, a1, a2, a3, a4, a5, a6] d =
      transfer_script exec k1 k2 k3 a1 a2 a3 a4 a5 a6 d"
    and eval_claim: "exec [ascii ''EVAL'', kClaimScript, ascii ''2'', k1, k2, a1, a2, a3, a4, a5, a6] d =
      claim_script exec k1 k2 a1 a2 a3 a4 a5 a6 d"
begin

text \<open>The transfer: it takes exactly if the record names the source or nobody, and then names the target.\<close>

lemma transfer_calls:
  assumes ttl: "is_ttl t" and sets: "set_at (keys d k2) \<noteq> None" "set_at (keys d k3) \<noteq> None" and ne: "k1 \<noteq> k2" "k1 \<noteq> k3"
    and h: "hash_at (keys d k1) = Some h" and fvs: "fvs \<noteq> []"
    and run: "script_calls exec [ascii ''HSET'' # k1 # flat fvs, [ascii ''PEXPIRE'', k1, t], [ascii ''SREM'', k2, m], [ascii ''SADD'', k3, m],
          [ascii ''PEXPIRE'', k3, t]] d = (r, d')"
  shows "r = kInteger 1" and "keys d' k1 = Some (Hash (set_fields fvs h))" and "k \<notin> {k1, k2, k3} \<Longrightarrow> keys d' k = keys d k"
    and "set_at (keys d' k2) \<noteq> None" and "set_at (keys d' k3) \<noteq> None"
proof -
  obtain r1 d1 where e1: "exec (ascii ''HSET'' # k1 # flat fvs) d = (r1, d1)" by (rule prod.exhaust)
  obtain r2 d2 where e2: "exec [ascii ''PEXPIRE'', k1, t] d1 = (r2, d2)" by (rule prod.exhaust)
  obtain r3 d3 where e3: "exec [ascii ''SREM'', k2, m] d2 = (r3, d3)" by (rule prod.exhaust)
  obtain r4 d4 where e4: "exec [ascii ''SADD'', k3, m] d3 = (r4, d4)" by (rule prod.exhaust)
  obtain r5 d5 where e5: "exec [ascii ''PEXPIRE'', k3, t] d4 = (r5, d5)" by (rule prod.exhaust)
  have s1: "\<not> is_error r1" "keys d1 = (keys d)(k1 \<mapsto> Hash (set_fields fvs h))" using hset [OF fvs e1] h by simp_all
  have s2: "\<not> is_error r2" "keys d2 = keys d1" using pexpire [OF ttl e2] by simp_all
  obtain s where s: "set_at (keys d2 k2) = Some s" using sets(1) s1 s2 ne by auto
  have s3: "\<not> is_error r3" "keys d3 = (keys d2)(k2 := (if s - {m} = {} then None else Some (Members (s - {m}))))"
    using srem [OF e3] s by simp_all
  have "set_at (keys d3 k3) \<noteq> None" using s3(2) sets(2) s1 s2 ne s by (cases "k3 = k2") (auto simp: set_at_def)
  then obtain u where u: "set_at (keys d3 k3) = Some u" by auto
  have s4: "\<not> is_error r4" "keys d4 = (keys d3)(k3 \<mapsto> Members (insert m u))" using sadd [OF e4] u by simp_all
  have s5: "\<not> is_error r5" "keys d5 = keys d4" using pexpire [OF ttl e5] by simp_all
  have out: "r = kInteger 1" "d' = d5" using run e1 e2 e3 e4 e5 s1(1) s2(1) s3(1) s4(1) s5(1) by simp_all
  show "r = kInteger 1" by (rule out(1))
  show "keys d' k1 = Some (Hash (set_fields fvs h))" using s1(2) s2(2) s3(2) s4(2) s5(2) out(2) ne by simp
  show "k \<notin> {k1, k2, k3} \<Longrightarrow> keys d' k = keys d k" using s1(2) s2(2) s3(2) s4(2) s5(2) out(2) by simp
  show "set_at (keys d' k2) \<noteq> None" "set_at (keys d' k3) \<noteq> None"
    using s3(2) s4(2) s5(2) out(2) by (auto simp: set_at_def)
qed

lemma transfer_spec:
  assumes ttl: "is_ttl a5" and sets: "set_at (keys d k2) \<noteq> None" "set_at (keys d k3) \<noteq> None" and ne: "k1 \<noteq> k2" "k1 \<noteq> k3"
    and h: "hash_at (keys d k1) = Some h"
    and run: "transfer_script exec k1 k2 k3 a1 a2 a3 a4 a5 a6 d = (r, d')"
  shows "h (ascii ''shard'') \<notin> {None, Some a1} \<Longrightarrow> r = kInteger 0 \<and> keys d' = keys d"
    and "h (ascii ''shard'') \<in> {None, Some a1} \<Longrightarrow>
      r = kInteger 1 \<and> keys d' k1 = Some (Hash (set_fields [(ascii ''shard'', a2), (ascii ''region'', a3), (ascii ''updated'', a4)] h)) \<and>
      (\<forall>k. k \<notin> {k1, k2, k3} \<longrightarrow> keys d' k = keys d k) \<and> set_at (keys d' k2) \<noteq> None \<and> set_at (keys d' k3) \<noteq> None"
proof -
  obtain cur d1 where e: "exec [ascii ''HGET'', k1, ascii ''shard''] d = (cur, d1)" by (rule prod.exhaust)
  have cur: "keys d1 = keys d" "cur = (case h (ascii ''shard'') of None \<Rightarrow> kNil | Some v \<Rightarrow> kString v)" using hget [OF e] h by simp_all
  then have noerr: "\<not> is_error cur" by (simp split: option.split)
  show "r = kInteger 0 \<and> keys d' = keys d" if "h (ascii ''shard'') \<notin> {None, Some a1}"
    using that run noerr cur by (auto simp: transfer_script_def e split: option.splits)
  show "r = kInteger 1 \<and> keys d' k1 = Some (Hash (set_fields [(ascii ''shard'', a2), (ascii ''region'', a3), (ascii ''updated'', a4)] h)) \<and>
      (\<forall>k. k \<notin> {k1, k2, k3} \<longrightarrow> keys d' k = keys d k) \<and> set_at (keys d' k2) \<noteq> None \<and> set_at (keys d' k3) \<noteq> None"
    if "h (ascii ''shard'') \<in> {None, Some a1}"
  proof -
    let ?fvs = "[(ascii ''shard'', a2), (ascii ''region'', a3), (ascii ''updated'', a4)]"
    have "script_calls exec [ascii ''HSET'' # k1 # flat ?fvs, [ascii ''PEXPIRE'', k1, a5], [ascii ''SREM'', k2, a6], [ascii ''SADD'', k3, a6],
          [ascii ''PEXPIRE'', k3, a5]] d1 = (r, d')"
      using that run noerr cur unfolding transfer_script_def e prod.case by (auto simp: flat_def split: option.splits)
    note t = transfer_calls [of a5 d1, unfolded cur(1), OF ttl sets ne h _ this]
    show ?thesis using t cur(1) by auto
  qed
qed

text \<open>The effect of the two commands of a publication on the server.\<close>

lemma publish_commands:
  assumes ttl: "is_ttl t" "is_ttl a5" and typed: "typed_keys g (keys d)" and free: "keys d (ticket_key token g) = None"
    and run: "run_commands exec [[ascii ''SET'', ticket_key token g, blob, ascii ''PX'', t, ascii ''NX''],
        [ascii ''EVAL'', kTransferScript, ascii ''3'', presence_key g player, roster_key g src, roster_key g dst, src, dst, a3, a4, a5, player]] d = (rs, d')"
  shows "owner_in g (keys d) player \<notin> {None, Some src} \<Longrightarrow>
      rs = [kStatus (ascii ''OK''), kInteger 0] \<and> keys d' = (keys d)(ticket_key token g \<mapsto> Str blob)"
    and "owner_in g (keys d) player \<in> {None, Some src} \<Longrightarrow>
      rs = [kStatus (ascii ''OK''), kInteger 1] \<and> keys d' (ticket_key token g) = Some (Str blob) \<and> owner_in g (keys d') player = Some dst \<and>
      typed_keys g (keys d')"
proof -
  obtain r1 d1 where e1: "exec [ascii ''SET'', ticket_key token g, blob, ascii ''PX'', t, ascii ''NX''] d = (r1, d1)" by (rule prod.exhaust)
  obtain r2 d2 where e2: "transfer_script exec (presence_key g player) (roster_key g src) (roster_key g dst) src dst a3 a4 a5 player d1 = (r2, d2)"
    by (rule prod.exhaust)
  have s1: "r1 = kStatus (ascii ''OK'')" "keys d1 = (keys d)(ticket_key token g \<mapsto> Str blob)" using set_nx [OF ttl(1) e1] free by simp_all
  have out: "rs = [r1, r2]" "d' = d2" using run e1 e2 by (simp_all add: eval_transfer)
  have sets: "set_at (keys d1 (roster_key g src)) \<noteq> None" "set_at (keys d1 (roster_key g dst)) \<noteq> None"
    using typed by (simp_all add: s1(2) typed_keys_def)
  obtain h where h: "hash_at (keys d1 (presence_key g player)) = Some h" using typed by (auto simp: s1(2) typed_keys_def)
  have own: "owner_in g (keys d) player = h (ascii ''shard'')" using h by (simp add: owner_in_def s1(2))
  note t = transfer_spec [OF ttl(2) sets _ _ h e2]
  show "owner_in g (keys d) player \<notin> {None, Some src} \<Longrightarrow>
      rs = [kStatus (ascii ''OK''), kInteger 0] \<and> keys d' = (keys d)(ticket_key token g \<mapsto> Str blob)"
    using t(1) own s1 out by simp
  assume "owner_in g (keys d) player \<in> {None, Some src}"
  then have t2: "r2 = kInteger 1"
    "keys d2 (presence_key g player) = Some (Hash (set_fields [(ascii ''shard'', dst), (ascii ''region'', a3), (ascii ''updated'', a4)] h))"
    "\<And>k. k \<notin> {presence_key g player, roster_key g src, roster_key g dst} \<Longrightarrow> keys d2 k = keys d1 k"
    "set_at (keys d2 (roster_key g src)) \<noteq> None" "set_at (keys d2 (roster_key g dst)) \<noteq> None"
    using t(2) own by simp_all
  have "keys d' (ticket_key token g) = Some (Str blob)" using t2(3) [of "ticket_key token g"] s1(2) out by simp
  moreover have "owner_in g (keys d') player = Some dst"
    using t2(2) out(2) by (simp add: owner_in_def hash_at_def set_fields_def ascii_simps)
  moreover have "typed_keys g (keys d')"
  proof -
    have "set_at (keys d' (roster_key g i)) \<noteq> None" for i
      using t2(4,5) t2(3) [of "roster_key g i"] typed s1(2) out(2)
      by (cases "roster_key g i \<in> {roster_key g src, roster_key g dst}") (auto simp: typed_keys_def)
    moreover have "hash_at (keys d' (presence_key g i)) \<noteq> None" for i
      using t2(2) t2(3) [of "presence_key g i"] typed s1(2) out(2)
      by (cases "i = player") (auto simp: typed_keys_def hash_at_def)
    ultimately show ?thesis by (simp add: typed_keys_def)
  qed
  ultimately show "rs = [kStatus (ascii ''OK''), kInteger 1] \<and> keys d' (ticket_key token g) = Some (Str blob) \<and>
      owner_in g (keys d') player = Some dst \<and> typed_keys g (keys d')" using s1(1) out t2(1) by simp
qed

lemma publish_commands_taken:
  assumes ttl: "is_ttl t" "is_ttl a5" and typed: "typed_keys g (keys d)" and taken: "keys d (ticket_key token g) \<noteq> None"
    and run: "run_commands exec [[ascii ''SET'', ticket_key token g, blob, ascii ''PX'', t, ascii ''NX''],
        [ascii ''EVAL'', kTransferScript, ascii ''3'', presence_key g player, roster_key g src, roster_key g dst, src, dst, a3, a4, a5, player]] d = (rs, d')"
  shows "\<exists>r. rs = [kNil, r] \<and> (owner_in g (keys d) player \<notin> {None, Some src} \<longrightarrow> keys d' = keys d)"
proof -
  obtain r1 d1 where e1: "exec [ascii ''SET'', ticket_key token g, blob, ascii ''PX'', t, ascii ''NX''] d = (r1, d1)" by (rule prod.exhaust)
  obtain r2 d2 where e2: "transfer_script exec (presence_key g player) (roster_key g src) (roster_key g dst) src dst a3 a4 a5 player d1 = (r2, d2)"
    by (rule prod.exhaust)
  have s1: "r1 = kNil" "keys d1 = keys d" using set_nx [OF ttl(1) e1] taken by (simp_all split: if_splits)
  have out: "rs = [r1, r2]" "d' = d2" using run e1 e2 by (simp_all add: eval_transfer)
  have sets: "set_at (keys d1 (roster_key g src)) \<noteq> None" "set_at (keys d1 (roster_key g dst)) \<noteq> None"
    using typed by (simp_all add: s1(2) typed_keys_def)
  obtain h where h: "hash_at (keys d1 (presence_key g player)) = Some h" using typed by (auto simp: s1(2) typed_keys_def)
  have own: "owner_in g (keys d) player = h (ascii ''shard'')" using h by (simp add: owner_in_def s1(2))
  show ?thesis using transfer_spec(1) [OF ttl(2) sets _ _ h e2] own s1 out by simp
qed

text \<open>A publication without faults: it succeeds only for an owned player and a free token, and a lost race leaves no trace.\<close>

lemma discard_spec:
  assumes "fault_free g" and "rg_queue g = []" and "discard exec token g = (b, g')"
  shows "keys (rg_db g') = (keys (rg_db g))(ticket_key token g := None)" and "rg_prefix g' = rg_prefix g"
proof -
  obtain r d where e: "exec [ascii ''DEL'', ticket_key token g] (rg_db g) = (r, d)" by (rule prod.exhaust)
  obtain r' g1 where c: "command exec [ascii ''DEL'', ticket_key token g] g = (r', g1)" by (rule prod.exhaust)
  note a = command_answered [OF assms(1,2) e c]
  have "g' = g1" using assms(3) c by (simp add: discard_def)
  with a del [OF e] show "keys (rg_db g') = (keys (rg_db g))(ticket_key token g := None)" and "rg_prefix g' = rg_prefix g" by simp_all
qed

lemma publish_spec:
  assumes ttl: "0 < ttl" "0 < pttl" and ok: "typed_keys g (keys (rg_db g))" "fault_free g" "rg_queue g = []" and t: "t = stamp now ticket"
    and run: "publish_and_transfer exec now ticket ttl pttl (m, g) = (b, m', g')"
  shows "b \<Longrightarrow> owner_in g (keys (rg_db g)) (mt_player_id t) \<in> {None, Some (mt_from_shard t)} \<and>
      keys (rg_db g') (ticket_key (mt_token t) g) = Some (Str (encode_migration_ticket t)) \<and> encode_migration_ticket t \<noteq> [] \<and>
      owner_in g (keys (rg_db g')) (mt_player_id t) = Some (mt_to_shard t) \<and> typed_keys g (keys (rg_db g')) \<and> rg_prefix g' = rg_prefix g"
    and "owner_in g (keys (rg_db g)) (mt_player_id t) \<notin> {None, Some (mt_from_shard t)} \<Longrightarrow> \<not> b \<and> keys (rg_db g') = keys (rg_db g)"
proof -
  let ?batch = "publish_batch now t ttl pttl g"
  let ?g = "g\<lparr>rg_queue := ?batch\<rparr>"
  let ?A = "b \<longrightarrow> owner_in g (keys (rg_db g)) (mt_player_id t) \<in> {None, Some (mt_from_shard t)} \<and>
      keys (rg_db g') (ticket_key (mt_token t) g) = Some (Str (encode_migration_ticket t)) \<and> encode_migration_ticket t \<noteq> [] \<and>
      owner_in g (keys (rg_db g')) (mt_player_id t) = Some (mt_to_shard t) \<and> typed_keys g (keys (rg_db g')) \<and> rg_prefix g' = rg_prefix g"
  let ?B = "owner_in g (keys (rg_db g)) (mt_player_id t) \<notin> {None, Some (mt_from_shard t)} \<longrightarrow> \<not> b \<and> keys (rg_db g') = keys (rg_db g)"
  have "?A \<and> ?B"
  proof (cases "encode_migration_ticket t = []")
    case True
    then show ?thesis using run by (simp add: publish_and_transfer_def t)
  next
    case False
    obtain rs d where cmds: "run_commands exec ?batch (rg_db g) = (rs, d)" by (rule prod.exhaust)
    obtain x g1 where f: "flush exec ?g = (x, g1)" by (rule prod.exhaust)
    have q: "fault_free ?g" "rg_queue ?g \<noteq> []" "run_commands exec (rg_queue ?g) (rg_db ?g) = (rs, d)"
      using ok(2) cmds by (simp_all add: fault_free_def publish_batch_def)
    note g1 = flush_answered [OF q f]
    note step = publish_runs [OF ok(3) t False, of exec ttl pttl m, unfolded f g1(1) run]
    have pre: "rg_prefix g1 = rg_prefix g" using g1(4) by simp
    note cmds' = cmds [unfolded publish_batch_def]
    show ?thesis
    proof (cases "keys (rg_db g) (ticket_key (mt_token t) g) = None")
      case False
      from publish_commands_taken [OF ttl_word [OF ttl(1)] ttl_word [OF ttl(2)] ok(1) False cmds'] obtain r where r: "rs = [kNil, r]"
        "owner_in g (keys (rg_db g)) (mt_player_id t) \<notin> {None, Some (mt_from_shard t)} \<longrightarrow> keys d = keys (rg_db g)" by blast
      then show ?thesis using step g1(2) by (simp add: reply_ok_def)
    next
      case True
      note pc = publish_commands [OF ttl_word [OF ttl(1)] ttl_word [OF ttl(2)] ok(1) True cmds']
      show ?thesis
      proof (cases "owner_in g (keys (rg_db g)) (mt_player_id t) \<in> {None, Some (mt_from_shard t)}")
        case own: True
        then show ?thesis using pc(2) step g1(2) pre \<open>encode_migration_ticket t \<noteq> []\<close> by (simp add: reply_ok_def)
      next
        case own: False
        obtain y g2 where dis: "discard exec (mt_token t) g1 = (y, g2)" by (rule prod.exhaust)
        note d2 = discard_spec [OF g1(5,3) dis]
        have rs: "rs = [kStatus (ascii ''OK''), kInteger 0]" "keys d = (keys (rg_db g))(ticket_key (mt_token t) g \<mapsto> Str (encode_migration_ticket t))"
          using pc(1) own by simp_all
        have "\<not> b \<and> g' = g2" using step dis rs(1) by (simp add: reply_ok_def)
        moreover have "keys (rg_db g2) = keys (rg_db g)"
          using d2(1) rs(2) g1(2) keys_of_prefix(3) [OF pre] True by (auto simp: fun_eq_iff)
        ultimately show ?thesis using own by simp
      qed
    qed
  qed
  then show "b \<Longrightarrow> owner_in g (keys (rg_db g)) (mt_player_id t) \<in> {None, Some (mt_from_shard t)} \<and>
      keys (rg_db g') (ticket_key (mt_token t) g) = Some (Str (encode_migration_ticket t)) \<and> encode_migration_ticket t \<noteq> [] \<and>
      owner_in g (keys (rg_db g')) (mt_player_id t) = Some (mt_to_shard t) \<and> typed_keys g (keys (rg_db g')) \<and> rg_prefix g' = rg_prefix g"
    and "owner_in g (keys (rg_db g)) (mt_player_id t) \<notin> {None, Some (mt_from_shard t)} \<Longrightarrow> \<not> b \<and> keys (rg_db g') = keys (rg_db g)" by simp_all
qed

lemma redeem_spec:
  assumes "fault_free g" and "rg_queue g = []" and run: "redeem exec token (m, g) = (r, m', g')"
  shows "r = ticket_at token (keys (rg_db g) (ticket_key token g))"
    and "r \<noteq> None \<Longrightarrow> keys (rg_db g') = (keys (rg_db g))(ticket_key token g := None)"
    and "rg_prefix g' = rg_prefix g" and "rg_queue g' = []" and "fault_free g'"
proof -
  obtain x d where e: "exec [ascii ''GETDEL'', ticket_key token g] (rg_db g) = (x, d)" by (rule prod.exhaust)
  obtain x' g1 where c: "command exec [ascii ''GETDEL'', ticket_key token g] g = (x', g1)" by (rule prod.exhaust)
  note a = command_answered [OF assms(1,2) e c]
  note gd = getdel [OF e]
  have r: "r = ticket_in token x" and g': "g' = g1"
    using run unfolding redeem_def prod.case c a(1) ticket_in_def by (auto split: option.splits if_splits)
  have "ticket_in token x = ticket_at token (keys (rg_db g) (ticket_key token g)) \<and>
      (ticket_in token x \<noteq> None \<longrightarrow> keys d = (keys (rg_db g))(ticket_key token g := None))"
  proof (cases "\<exists>v. keys (rg_db g) (ticket_key token g) = Some (Str v)")
    case True
    then obtain v where "keys (rg_db g) (ticket_key token g) = Some (Str v)" by blast
    then show ?thesis using gd by (simp add: ticket_in_def ticket_at_def)
  next
    case False
    then have "x = kNil \<or> is_error x" using gd by (cases "keys (rg_db g) (ticket_key token g)") (auto split: redis_value.splits)
    then have "ticket_in token x = None" by (cases x) (simp_all add: ticket_in_def)
    moreover have "ticket_at token (keys (rg_db g) (ticket_key token g)) = None"
      using False by (auto simp: ticket_at_def split: option.split redis_value.split)
    ultimately show ?thesis by simp
  qed
  then show "r = ticket_at token (keys (rg_db g) (ticket_key token g))"
    and "r \<noteq> None \<Longrightarrow> keys (rg_db g') = (keys (rg_db g))(ticket_key token g := None)"
    using r g' a(2) by simp_all
  show "rg_prefix g' = rg_prefix g" and "rg_queue g' = []" and "fault_free g'" using a g' by simp_all
qed

text \<open>A publication whose first attempt is executed but not answered, and whose second is.\<close>

lemma publish_retried:
  assumes ttl: "0 < ttl" "0 < pttl" and ok: "typed_keys g (keys (rg_db g))" "rg_queue g = []" "rg_outcomes g = (Broken 2, Answered) # rest" and t: "t = stamp now ticket"
    and own: "owner_in g (keys (rg_db g)) (mt_player_id t) \<in> {None, Some (mt_from_shard t)}" and ne: "mt_from_shard t \<noteq> mt_to_shard t"
    and free: "keys (rg_db g) (ticket_key (mt_token t) g) = None" and blob: "encode_migration_ticket t \<noteq> []"
    and run: "publish_and_transfer exec now ticket ttl pttl (m, g) = (b, m', g')"
  shows "\<not> b" and "owner_in g (keys (rg_db g')) (mt_player_id t) = Some (mt_to_shard t)"
    and "keys (rg_db g') (ticket_key (mt_token t) g) = Some (Str (encode_migration_ticket t))"
proof -
  let ?batch = "publish_batch now t ttl pttl g"
  obtain rs1 d1 where c1: "run_commands exec ?batch (rg_db g) = (rs1, d1)" by (rule prod.exhaust)
  obtain rs2 d2 where c2: "run_commands exec ?batch d1 = (rs2, d2)" by (rule prod.exhaust)
  note p1 = publish_commands(2) [OF ttl_word [OF ttl(1)] ttl_word [OF ttl(2)] ok(1) free c1 [unfolded publish_batch_def] own]
  have taken: "keys d1 (ticket_key (mt_token t) g) \<noteq> None" using p1 by simp
  from publish_commands_taken [OF ttl_word [OF ttl(1)] ttl_word [OF ttl(2)] _ taken c2 [unfolded publish_batch_def]] p1 ne obtain r where r: "rs2 = [kNil, r]" "keys d2 = keys d1" by auto
  have "flush exec (g\<lparr>rg_queue := ?batch\<rparr>) = ((True, rs2), g\<lparr>rg_connected := True, rg_queue := [], rg_outcomes := rest, rg_db := d2\<rparr>)"
    using ok(3) c1 c2 by (simp add: flush_def next_outcome_def flush_effect_def publish_batch_def)
  with publish_runs [OF ok(2) t blob, of exec ttl pttl m] run r(1) have "(b, m', g') = (False, m, g\<lparr>rg_connected := True, rg_queue := [], rg_outcomes := rest, rg_db := d2\<rparr>)"
    by (simp add: reply_ok_def)
  with p1 r(2) show "\<not> b" and "owner_in g (keys (rg_db g')) (mt_player_id t) = Some (mt_to_shard t)"
    and "keys (rg_db g') (ticket_key (mt_token t) g) = Some (Str (encode_migration_ticket t))" by simp_all
qed

text \<open>A claim: it takes exactly if the record names the claimant or nobody, and then it writes the record.\<close>

lemma claim_spec:
  assumes ttl: "0 < ttl" and g: "fault_free g" and q: "rg_queue g = []" and typed: "typed_keys g (keys (rg_db g))" and run: "claim_presence exec now r ttl g = (x, g')"
  shows "owner_in g (keys (rg_db g)) (pr_player_id r) \<in> {None, Some (pr_shard_id r)} \<Longrightarrow>
      x = (True, None) \<and> (\<exists>h. keys (rg_db g') (presence_key g (pr_player_id r)) = Some (Hash (set_fields [(ascii ''shard'', pr_shard_id r),
        (ascii ''region'', dec_word (pr_region r)), (ascii ''session'', dec_word (pr_session_token r)), (ascii ''updated'', dec_word now)] h)))"
    and "owner_in g (keys (rg_db g)) (pr_player_id r) = Some s \<Longrightarrow> s \<noteq> pr_shard_id r \<Longrightarrow> x = (False, Some s) \<and> keys (rg_db g') = keys (rg_db g)"
proof -
  let ?k1 = "presence_key g (pr_player_id r)" and ?k2 = "roster_key g (pr_shard_id r)"
  let ?cmd = "[ascii ''EVAL'', kClaimScript, ascii ''2'', ?k1, ?k2, pr_shard_id r, dec_word (pr_region r), dec_word (pr_session_token r), dec_word now,
      dec_word ttl, pr_player_id r]"
  let ?fvs = "[(ascii ''shard'', pr_shard_id r), (ascii ''region'', dec_word (pr_region r)), (ascii ''session'', dec_word (pr_session_token r)),
      (ascii ''updated'', dec_word now)]"
  obtain y d where e: "exec ?cmd (rg_db g) = (y, d)" by (rule prod.exhaust)
  obtain y' g1 where c: "command exec ?cmd g = (y', g1)" by (rule prod.exhaust)
  note a = command_answered [OF g q e c]
  obtain h where h: "hash_at (keys (rg_db g) ?k1) = Some h" using typed by (auto simp: typed_keys_def)
  have own: "owner_in g (keys (rg_db g)) (pr_player_id r) = h (ascii ''shard'')" using h by (simp add: owner_in_def)
  obtain cur d1 where e1: "exec [ascii ''HGET'', ?k1, ascii ''shard''] (rg_db g) = (cur, d1)" by (rule prod.exhaust)
  have cur: "keys d1 = keys (rg_db g)" "cur = (case h (ascii ''shard'') of None \<Rightarrow> kNil | Some v \<Rightarrow> kString v)" using hget [OF e1] h by simp_all
  then have noerr: "\<not> is_error cur" by (simp split: option.split)
  have x: "x = (if is_error y then (False, None) else if y = kInteger 1 then (True, None) else (False, Some (reply_str y)))" "g' = g1"
    using run c a(1) by (simp_all add: claim_presence_def)
  note script = e [unfolded eval_claim claim_script_def e1 prod.case]
  show "x = (False, Some s) \<and> keys (rg_db g') = keys (rg_db g)"
    if "owner_in g (keys (rg_db g)) (pr_player_id r) = Some s" "s \<noteq> pr_shard_id r"
    using that script noerr cur own x a(2) by auto
  assume "owner_in g (keys (rg_db g)) (pr_player_id r) \<in> {None, Some (pr_shard_id r)}"
  then have calls: "script_calls exec [ascii ''HSET'' # ?k1 # flat ?fvs, [ascii ''PEXPIRE'', ?k1, dec_word ttl], [ascii ''SADD'', ?k2, pr_player_id r],
      [ascii ''PEXPIRE'', ?k2, dec_word ttl]] d1 = (y, d)"
    using script noerr cur own by (auto simp: flat_def split: option.splits)
  obtain r1 e1' where s1: "exec (ascii ''HSET'' # ?k1 # flat ?fvs) d1 = (r1, e1')" by (rule prod.exhaust)
  obtain r2 e2 where s2: "exec [ascii ''PEXPIRE'', ?k1, dec_word ttl] e1' = (r2, e2)" by (rule prod.exhaust)
  obtain r3 e3 where s3: "exec [ascii ''SADD'', ?k2, pr_player_id r] e2 = (r3, e3)" by (rule prod.exhaust)
  obtain r4 e4 where s4: "exec [ascii ''PEXPIRE'', ?k2, dec_word ttl] e3 = (r4, e4)" by (rule prod.exhaust)
  have k1: "\<not> is_error r1" "keys e1' = (keys (rg_db g))(?k1 \<mapsto> Hash (set_fields ?fvs h))" using hset [OF _ s1] h cur(1) by simp_all
  have k2: "\<not> is_error r2" "keys e2 = keys e1'" using pexpire [OF ttl_word [OF ttl] s2] by simp_all
  obtain u where "set_at (keys e2 ?k2) = Some u" using typed k1(2) k2(2) by (auto simp: typed_keys_def)
  then have k3: "\<not> is_error r3" "keys e3 = (keys e2)(?k2 \<mapsto> Members (insert (pr_player_id r) u))" using sadd [OF s3] by simp_all
  have k4: "\<not> is_error r4" "keys e4 = keys e3" using pexpire [OF ttl_word [OF ttl] s4] by simp_all
  have "y = kInteger 1" "d = e4" using calls s1 s2 s3 s4 k1(1) k2(1) k3(1) k4(1) by simp_all
  then show "x = (True, None) \<and> (\<exists>h. keys (rg_db g') ?k1 = Some (Hash (set_fields ?fvs h)))"
    using x a(2) k1(2) k2(2) k3(2) k4(2) by auto
qed

end

section \<open>A store that satisfies the laws\<close>

datatype ref_value = RStr bytes | RHash "(bytes \<times> bytes) list" | RSet "bytes list"

type_synonym ref_store = "(bytes \<times> ref_value) list"

fun abs_value :: "ref_value \<Rightarrow> redis_value" where
  "abs_value (RStr v) = Str v"
| "abs_value (RHash al) = Hash (map_of al)"
| "abs_value (RSet xs) = Members (set xs)"

definition ref_keys :: "ref_store \<Rightarrow> bytes \<rightharpoonup> redis_value" where
  "ref_keys db k = map_option abs_value (map_of db k)"

definition wrong_type :: redis_reply where
  "wrong_type = kError (ascii ''WRONGTYPE'')"

fun ref_hset :: "bytes list \<Rightarrow> (bytes \<times> bytes) list \<Rightarrow> (bytes \<times> bytes) list" where
  "ref_hset (f # v # rest) al = ref_hset rest (AList.update f v al)"
| "ref_hset _ al = al"

definition hash_of :: "ref_value option \<Rightarrow> (bytes \<times> bytes) list option" where
  "hash_of v = (case v of None \<Rightarrow> Some [] | Some (RHash al) \<Rightarrow> Some al | _ \<Rightarrow> None)"

definition set_of :: "ref_value option \<Rightarrow> bytes list option" where
  "set_of v = (case v of None \<Rightarrow> Some [] | Some (RSet xs) \<Rightarrow> Some xs | _ \<Rightarrow> None)"

definition ref_command :: "bytes \<Rightarrow> bytes \<Rightarrow> bytes list \<Rightarrow> ref_store \<Rightarrow> redis_reply \<times> ref_store" where
  "ref_command op k args db =
     (let v = map_of db k
      in if op = ascii ''SET'' then (if v = None then (kStatus (ascii ''OK''), AList.update k (RStr (hd args)) db) else (kNil, db))
         else if op = ascii ''GETDEL'' then
           (case v of None \<Rightarrow> (kNil, db) | Some (RStr s) \<Rightarrow> (kString s, AList.delete k db) | _ \<Rightarrow> (wrong_type, db))
         else if op = ascii ''DEL'' then (kInteger (if v = None then 0 else 1), AList.delete k db)
         else if op = ascii ''HGET'' then
           (case hash_of v of
              None \<Rightarrow> (wrong_type, db)
            | Some al \<Rightarrow> (case map_of al (hd args) of None \<Rightarrow> kNil | Some x \<Rightarrow> kString x, db))
         else if op = ascii ''HSET'' then
           (case hash_of v of None \<Rightarrow> (wrong_type, db) | Some al \<Rightarrow> (kInteger 1, AList.update k (RHash (ref_hset args al)) db))
         else if op = ascii ''HGETALL'' then
           (case hash_of v of None \<Rightarrow> (wrong_type, db) | Some al \<Rightarrow> (kArray (map kString (flat (AList.clearjunk al))), db))
         else if op = ascii ''PEXPIRE'' then (kInteger (if v = None then 0 else 1), db)
         else if op = ascii ''SADD'' then
           (case set_of v of None \<Rightarrow> (wrong_type, db) | Some xs \<Rightarrow> (kInteger 1, AList.update k (RSet (hd args # xs)) db))
         else if op = ascii ''SREM'' then
           (case set_of v of
              None \<Rightarrow> (wrong_type, db)
            | Some xs \<Rightarrow>
                let ys = filter (\<lambda>x. x \<noteq> hd args) xs
                in (kInteger 1, if ys = [] then AList.delete k db else AList.update k (RSet ys) db))
         else if op = ascii ''SMEMBERS'' then
           (case set_of v of None \<Rightarrow> (wrong_type, db) | Some xs \<Rightarrow> (kArray (map kString (remdups xs)), db))
         else (kError (ascii ''ERR''), db))"

fun ref_plain :: "bytes list \<Rightarrow> ref_store \<Rightarrow> redis_reply \<times> ref_store" where
  "ref_plain (op # k # args) db = ref_command op k args db"
| "ref_plain _ db = (kError (ascii ''ERR''), db)"

definition ref_script :: "bytes list \<Rightarrow> ref_store \<Rightarrow> redis_reply \<times> ref_store" where
  "ref_script args db =
     (case args of
        [s, n, k1, k2, k3, a1, a2, a3, a4, a5, a6] \<Rightarrow>
          transfer_script ref_plain k1 k2 k3 a1 a2 a3 a4 a5 a6 db
      | [s, n, k1, k2, a1, a2, a3, a4, a5, a6] \<Rightarrow> claim_script ref_plain k1 k2 a1 a2 a3 a4 a5 a6 db
      | _ \<Rightarrow> (kError (ascii ''ERR''), db))"

definition ref_exec :: "bytes list \<Rightarrow> ref_store \<Rightarrow> redis_reply \<times> ref_store" where
  "ref_exec cmd db = (if take 1 cmd = [ascii ''EVAL''] then ref_script (tl cmd) db else ref_plain cmd db)"


lemma ref_keys_update: "ref_keys (AList.update k v db) = (ref_keys db)(k \<mapsto> abs_value v)"
  by (auto simp: ref_keys_def update_conv' fun_eq_iff)

lemma ref_keys_delete: "ref_keys (AList.delete k db) = (ref_keys db)(k := None)"
  by (auto simp: ref_keys_def delete_conv' fun_eq_iff)

lemma ref_keys_None: "ref_keys db k = None \<longleftrightarrow> map_of db k = None"
  by (simp add: ref_keys_def)

lemma ref_hset_fields: "map_of (ref_hset (flat fvs) al) = set_fields fvs (map_of al)"
  by (induction fvs arbitrary: al) (auto simp: flat_def set_fields_def update_conv')

lemma hash_at_ref: "hash_at (ref_keys db k) = map_option map_of (hash_of (map_of db k))"
  by (auto simp: hash_at_def ref_keys_def hash_of_def split: option.split ref_value.split)

lemma set_at_ref: "set_at (ref_keys db k) = map_option set (set_of (map_of db k))"
  by (auto simp: set_at_def ref_keys_def set_of_def split: option.split ref_value.split)

lemma plain_exec: "op \<noteq> ascii ''EVAL'' \<Longrightarrow> ref_exec (op # args) = ref_plain (op # args)"
  by (rule ext) (simp add: ref_exec_def)

lemma script_calls_cong: "list_all (\<lambda>cmd. e cmd = f cmd) cmds \<Longrightarrow> script_calls e cmds d = script_calls f cmds d"
  by (induction cmds arbitrary: d) (simp_all split: prod.split)

lemma ops_differ: "ascii ''HGET'' \<noteq> ascii ''EVAL''" "ascii ''HSET'' \<noteq> ascii ''EVAL''" "ascii ''PEXPIRE'' \<noteq> ascii ''EVAL''"
  "ascii ''SADD'' \<noteq> ascii ''EVAL''" "ascii ''SREM'' \<noteq> ascii ''EVAL''" "ascii ''SET'' \<noteq> ascii ''EVAL''" "ascii ''GETDEL'' \<noteq> ascii ''EVAL''"
  "ascii ''DEL'' \<noteq> ascii ''EVAL''" "ascii ''HGETALL'' \<noteq> ascii ''EVAL''"
  by (simp_all add: ascii_simps)

lemma ref_transfer: "transfer_script ref_exec k1 k2 k3 a1 a2 a3 a4 a5 a6 d = transfer_script ref_plain k1 k2 k3 a1 a2 a3 a4 a5 a6 d"
  by (simp add: transfer_script_def plain_exec ops_differ split: prod.split)

lemma ref_claim: "claim_script ref_exec k1 k2 a1 a2 a3 a4 a5 a6 d = claim_script ref_plain k1 k2 a1 a2 a3 a4 a5 a6 d"
  by (simp add: claim_script_def plain_exec ops_differ split: prod.split)

text \<open>One equation per command.\<close>

lemma ref_commands:
  "ref_exec [ascii ''SET'', k, v, p, t, n] db =
     (if map_of db k = None then (kStatus (ascii ''OK''), AList.update k (RStr v) db) else (kNil, db))"
  "ref_exec [ascii ''GETDEL'', k] db =
     (case map_of db k of None \<Rightarrow> (kNil, db) | Some (RStr s) \<Rightarrow> (kString s, AList.delete k db) | _ \<Rightarrow> (wrong_type, db))"
  "ref_exec [ascii ''DEL'', k] db = (kInteger (if map_of db k = None then 0 else 1), AList.delete k db)"
  "ref_exec [ascii ''HGET'', k, f] db =
     (case hash_of (map_of db k) of None \<Rightarrow> (wrong_type, db) | Some al \<Rightarrow> (case map_of al f of None \<Rightarrow> kNil | Some x \<Rightarrow> kString x, db))"
  "ref_exec (ascii ''HSET'' # k # args) db =
     (case hash_of (map_of db k) of None \<Rightarrow> (wrong_type, db) | Some al \<Rightarrow> (kInteger 1, AList.update k (RHash (ref_hset args al)) db))"
  "ref_exec [ascii ''HGETALL'', k] db =
     (case hash_of (map_of db k) of None \<Rightarrow> (wrong_type, db) | Some al \<Rightarrow> (kArray (map kString (flat (AList.clearjunk al))), db))"
  "ref_exec [ascii ''PEXPIRE'', k, t] db = (kInteger (if map_of db k = None then 0 else 1), db)"
  "ref_exec [ascii ''SADD'', k, m] db =
     (case set_of (map_of db k) of None \<Rightarrow> (wrong_type, db) | Some xs \<Rightarrow> (kInteger 1, AList.update k (RSet (m # xs)) db))"
  "ref_exec [ascii ''SREM'', k, m] db =
     (case set_of (map_of db k) of
        None \<Rightarrow> (wrong_type, db)
      | Some xs \<Rightarrow> (kInteger 1, if filter (\<lambda>x. x \<noteq> m) xs = [] then AList.delete k db else AList.update k (RSet (filter (\<lambda>x. x \<noteq> m) xs)) db))"
  by (simp_all add: ref_exec_def ref_command_def Let_def ascii_simps split: option.split)

lemma wrong_type_error [simp]: "is_error wrong_type"
  by (simp add: wrong_type_def)

lemma filter_all_set: "filter (\<lambda>x. x \<noteq> m) xs = [] \<longleftrightarrow> set xs - {m} = {}"
  by (auto simp: filter_empty_conv)

interpretation ref: redis_service ref_exec ref_keys
proof (unfold_locales, goal_cases)
  case (1 t k v d r d')
  then show ?case by (auto simp: ref_commands ref_keys_None ref_keys_update split: if_splits)
next
  case (2 k d r d')
  then show ?case by (auto simp: ref_commands ref_keys_def [of d k] ref_keys_delete split: option.splits ref_value.splits)
next
  case (3 k d r d')
  then show ?case by (auto simp: ref_commands ref_keys_None ref_keys_delete)
next
  case (4 k f d r d')
  then show ?case by (auto simp: ref_commands hash_at_ref split: option.splits)
next
  case (5 fvs k d r d')
  then show ?case by (auto simp: ref_commands hash_at_ref ref_keys_update ref_hset_fields split: option.splits)
next
  case (6 k d r d')
  then show ?case
    by (cases "hash_of (map_of d k)")
      (auto simp: ref_commands hash_at_ref intro!: exI [of _ "AList.clearjunk al" for al] simp: distinct_clearjunk map_of_clearjunk)
next
  case (7 k t d r d')
  then show ?case by (auto simp: ref_commands)
next
  case (8 k m d r d')
  then show ?case by (auto simp: ref_commands set_at_ref ref_keys_update split: option.splits)
next
  case (9 k m d r d')
  then show ?case
    by (auto simp: ref_commands set_at_ref ref_keys_update ref_keys_delete filter_all_set set_diff_eq split: option.splits if_splits)
next
  case 10
  then show ?case by (simp add: ref_exec_def ref_script_def ref_transfer)
next
  case 11
  then show ?case by (simp add: ref_exec_def ref_script_def ref_claim)
qed

end
