(* ===== verification/Handoff.thy ===== *)
theory Handoff
  imports Redis_Service "HOL-Library.Multiset"
begin

text \<open>
  The handoff of a player between two shards over the registry: what the source publishes the target gets, once; a handoff that
  loses its race leaves no trace; what a broken connection does to it; and that all shards derive the same ownership.
\<close>

section \<open>Publication and acceptance\<close>

context redis_service
begin

lemma publish_succeeds:
  assumes ttl: "0 < ttl" "0 < pttl" and ok: "typed_keys g (keys (rg_db g))" "fault_free g" "rg_queue g = []" and t: "t = stamp now ticket"
    and own: "owner_in g (keys (rg_db g)) (mt_player_id t) \<in> {None, Some (mt_from_shard t)}"
    and free: "keys (rg_db g) (ticket_key (mt_token t) g) = None" and blob: "encode_migration_ticket t \<noteq> []"
  shows "fst (publish_and_transfer exec now ticket ttl pttl (m, g))"
proof -
  let ?batch = "publish_batch now t ttl pttl g"
  let ?g = "g\<lparr>rg_queue := ?batch\<rparr>"
  obtain rs d where cmds: "run_commands exec ?batch (rg_db g) = (rs, d)" by (rule prod.exhaust)
  obtain x g1 where f: "flush exec ?g = (x, g1)" by (rule prod.exhaust)
  have q: "fault_free ?g" "rg_queue ?g \<noteq> []" "run_commands exec (rg_queue ?g) (rg_db ?g) = (rs, d)"
    using ok(2) cmds by (simp_all add: fault_free_def publish_batch_def)
  note g1 = flush_answered [OF q f]
  have "rs = [kStatus (ascii ''OK''), kInteger 1]" using publish_commands(2) [OF ttl_word [OF ttl(1)] ttl_word [OF ttl(2)] ok(1) free cmds [unfolded publish_batch_def] own] by simp
  with publish_runs [OF ok(3) t blob, of exec ttl pttl m] f g1(1) show ?thesis by (simp add: reply_ok_def)
qed

lemma accept_spec:
  assumes "fault_free (sc_registry c)" and "rg_queue (sc_registry c) = []" and "accept_handoff exec token c = (found, c')"
  shows "found = (case ticket_at token (keys (rg_db (sc_registry c)) (ticket_key token (sc_registry c))) of
      None \<Rightarrow> None | Some t \<Rightarrow> if mt_to_shard t \<noteq> sh_id (sc_shard_config c) then None else Some t)"
    and "found \<noteq> None \<Longrightarrow> keys (rg_db (sc_registry c')) = (keys (rg_db (sc_registry c)))(ticket_key token (sc_registry c) := None)"
proof -
  obtain r m g where r: "redeem exec token (sc_tickets c, sc_registry c) = (r, m, g)" by (metis prod.exhaust)
  note s = redeem_spec [OF assms(1,2) r]
  have out: "found = (case r of None \<Rightarrow> None | Some t \<Rightarrow> if mt_to_shard t \<noteq> sh_id (sc_shard_config c) then None else Some t)"
    "sc_registry c' = g" using assms(3) r by (auto simp: accept_handoff_def Let_def split: option.splits if_splits)
  show "found = (case ticket_at token (keys (rg_db (sc_registry c)) (ticket_key token (sc_registry c))) of
      None \<Rightarrow> None | Some t \<Rightarrow> if mt_to_shard t \<noteq> sh_id (sc_shard_config c) then None else Some t)"
    using out(1) s(1) by simp
  show "found \<noteq> None \<Longrightarrow> keys (rg_db (sc_registry c')) = (keys (rg_db (sc_registry c)))(ticket_key token (sc_registry c) := None)"
    using out s(2) by (auto split: option.splits)
qed

end


section \<open>Plans\<close>

text \<open>The ticket that a plan publishes.\<close>

definition planned_ticket :: "u64 \<Rightarrow> bytes \<Rightarrow> vec2 \<Rightarrow> vec2 \<Rightarrow> tick \<Rightarrow> u32 \<Rightarrow> bytes \<Rightarrow> handoff_plan \<Rightarrow> migration_ticket" where
  "planned_ticket wall_ms player_id position velocity tick last_input_sequence source plan =
     stamp wall_ms \<lparr>mt_token = hp_token plan, mt_player_id = player_id, mt_from_shard = source, mt_to_shard = hp_target_shard plan,
       mt_region = hp_target_region plan, mt_tick = tick, mt_position = position, mt_velocity = velocity,
       mt_last_input_sequence = last_input_sequence, mt_issued_ms = 0\<rparr>"

lemma plan_published:
  assumes "plan_handoff exec now player region pos vel tick seq a = Some (Some plan, a')"
  obtains m g where "publish_and_transfer exec now \<lparr>mt_token = hp_token plan, mt_player_id = player, mt_from_shard = sh_id (sc_shard_config a),
      mt_to_shard = hp_target_shard plan, mt_region = hp_target_region plan, mt_tick = tick, mt_position = pos, mt_velocity = vel,
      mt_last_input_sequence = seq, mt_issued_ms = 0\<rparr> (sh_ticket_ttl_ms (sc_shard_config a)) (sh_presence_ttl_ms (sc_shard_config a))
      (sc_tickets a, sc_registry a) = (True, m, g)"
    and "sc_registry a' = g" and "hp_target_shard plan = owner_of_region (hp_target_region plan) a" and "hp_target_shard plan \<noteq> []"
    and "hp_target_shard plan \<noteq> sh_id (sc_shard_config a)"
proof -
  obtain z where z: "handoff_target (sh_regions (sc_shard_config a)) region (vx pos) (vy pos) = Some z"
    using assms by (auto simp: plan_handoff_def)
  let ?owner = "owner_of_region z a"
  have cond: "\<not> (z = kInvalidRegion \<or> ?owner = [] \<or> ?owner = sh_id (sc_shard_config a))"
    using assms z by (auto simp: plan_handoff_def Let_def)
  obtain e where e: "endpoint_of_shard ?owner a = Some e"
    using assms z cond by (auto simp: plan_handoff_def Let_def split: option.splits)
  obtain token a1 where tok: "next_token a = (token, a1)" by (rule prod.exhaust)
  have a1: "sc_tickets a1 = sc_tickets a" "sc_registry a1 = sc_registry a" using tok by (auto simp: next_token_def Let_def)
  let ?t = "\<lparr>mt_token = token, mt_player_id = player, mt_from_shard = sh_id (sc_shard_config a),
      mt_to_shard = ?owner, mt_region = z, mt_tick = tick, mt_position = pos, mt_velocity = vel,
      mt_last_input_sequence = seq, mt_issued_ms = 0\<rparr>"
  obtain b m g where pub: "publish_and_transfer exec now ?t (sh_ticket_ttl_ms (sc_shard_config a)) (sh_presence_ttl_ms (sc_shard_config a))
      (sc_tickets a, sc_registry a) = (b, m, g)" by (metis prod.exhaust)
  have "b \<and> plan = \<lparr>hp_token = token, hp_target_region = z, hp_target_shard = ?owner, hp_target_endpoint = e\<rparr> \<and> sc_registry a' = g"
    using assms z cond e tok pub a1 by (cases b) (auto simp: plan_handoff_def Let_def)
  then show thesis using pub cond by (intro that [of m g]) simp_all
qed

text \<open>A plan succeeds for an owned player with a fresh token.\<close>

lemma plan_result:
  assumes "handoff_target (sh_regions (sc_shard_config a)) region (vx pos) (vy pos) = Some z"
    and "z \<noteq> kInvalidRegion" and "owner_of_region z a \<noteq> []" and "owner_of_region z a \<noteq> sh_id (sc_shard_config a)"
    and "endpoint_of_shard (owner_of_region z a) a = Some e" and "next_token a = (token, a1)"
    and "fst (publish_and_transfer exec now \<lparr>mt_token = token, mt_player_id = player, mt_from_shard = sh_id (sc_shard_config a),
      mt_to_shard = owner_of_region z a, mt_region = z, mt_tick = tick, mt_position = pos, mt_velocity = vel,
      mt_last_input_sequence = seq, mt_issued_ms = 0\<rparr> (sh_ticket_ttl_ms (sc_shard_config a)) (sh_presence_ttl_ms (sc_shard_config a))
      (sc_tickets a1, sc_registry a1))"
  shows "\<exists>a'. plan_handoff exec now player region pos vel tick seq a =
    Some (Some \<lparr>hp_token = token, hp_target_region = z, hp_target_shard = owner_of_region z a, hp_target_endpoint = e\<rparr>, a')"
  using assms by (auto simp: plan_handoff_def Let_def split: prod.splits bool.splits)

context redis_service
begin

lemma handoff_reaches_target:
  assumes ttl: "0 < sh_ticket_ttl_ms (sc_shard_config a)" "0 < sh_presence_ttl_ms (sc_shard_config a)" and ok: "typed_keys (sc_registry a) (keys (rg_db (sc_registry a)))" "fault_free (sc_registry a)" "rg_queue (sc_registry a) = []"
    and names: "player \<noteq> []" "length player \<le> 1023" "length (sh_id (sc_shard_config a)) \<le> 1023" "length (hp_target_shard plan) \<le> 1023"
    and plan: "plan_handoff exec now player region pos vel tick seq a = Some (Some plan, a')"
    and b: "rg_prefix (sc_registry b) = rg_prefix (sc_registry a)" "rg_db (sc_registry b) = rg_db (sc_registry a')"
      "fault_free (sc_registry b)" "rg_queue (sc_registry b) = []" "sh_id (sc_shard_config b) = hp_target_shard plan"
    and acc: "accept_handoff exec (hp_token plan) b = (found, b')"
  shows "found = Some (planned_ticket now player pos vel tick seq (sh_id (sc_shard_config a)) plan)"
    and "owner_in (sc_registry a) (keys (rg_db (sc_registry b'))) player = Some (hp_target_shard plan)"
    and "rg_prefix (sc_registry c) = rg_prefix (sc_registry a) \<Longrightarrow> rg_db (sc_registry c) = rg_db (sc_registry b') \<Longrightarrow>
      fault_free (sc_registry c) \<Longrightarrow> rg_queue (sc_registry c) = [] \<Longrightarrow> fst (accept_handoff exec (hp_token plan) c) = None"
proof -
  let ?t = "planned_ticket now player pos vel tick seq (sh_id (sc_shard_config a)) plan"
  let ?ga = "sc_registry a"
  obtain m g where pub: "publish_and_transfer exec now \<lparr>mt_token = hp_token plan, mt_player_id = player, mt_from_shard = sh_id (sc_shard_config a),
      mt_to_shard = hp_target_shard plan, mt_region = hp_target_region plan, mt_tick = tick, mt_position = pos, mt_velocity = vel,
      mt_last_input_sequence = seq, mt_issued_ms = 0\<rparr> (sh_ticket_ttl_ms (sc_shard_config a)) (sh_presence_ttl_ms (sc_shard_config a))
      (sc_tickets a, sc_registry a) = (True, m, g)" and g: "sc_registry a' = g" using plan_published [OF plan] by metis
  have t: "mt_token ?t = hp_token plan" "mt_player_id ?t = player" "mt_from_shard ?t = sh_id (sc_shard_config a)" "mt_to_shard ?t = hp_target_shard plan"
    by (simp_all add: planned_ticket_def stamp_def)
  note p = publish_spec(1) [OF ttl ok planned_ticket_def [of now player pos vel tick seq "sh_id (sc_shard_config a)" plan] pub]
  have stored: "keys (rg_db g) (ticket_key (hp_token plan) ?ga) = Some (Str (encode_migration_ticket ?t))" "encode_migration_ticket ?t \<noteq> []"
    and own: "owner_in ?ga (keys (rg_db g)) player = Some (hp_target_shard plan)" using p t by simp_all
  have "length (ticket_bits ?t) \<le> 8 * 508" using encode_ticket_full [of ?t] stored(2) by (cases "length (ticket_bits ?t) \<le> 8 * 508") simp_all
  moreover have "ticket_ok ?t" using names t by (simp add: ticket_ok_def)
  ultimately have dec: "decode_migration_ticket (encode_migration_ticket ?t) = Some ?t" by (intro ticket_blob_decodes(1))
  have kb: "ticket_key (hp_token plan) (sc_registry b) = ticket_key (hp_token plan) ?ga" by (rule keys_of_prefix(3) [OF b(1)])
  have at: "ticket_at (hp_token plan) (keys (rg_db (sc_registry b)) (ticket_key (hp_token plan) (sc_registry b))) = Some ?t"
    using stored(1) dec t(1) b(2) g by (simp add: kb ticket_at_def ticket_in_def)
  note s = accept_spec [OF b(3,4) acc]
  show found: "found = Some ?t" using s(1) at t(4) b(5) by simp
  have keys': "keys (rg_db (sc_registry b')) = (keys (rg_db g))(ticket_key (hp_token plan) ?ga := None)"
    using s(2) found kb b(2) g by simp
  show "owner_in ?ga (keys (rg_db (sc_registry b'))) player = Some (hp_target_shard plan)"
    using own unfolding keys' by (simp add: owner_in_def)
  assume c: "rg_prefix (sc_registry c) = rg_prefix ?ga" "rg_db (sc_registry c) = rg_db (sc_registry b')" "fault_free (sc_registry c)" "rg_queue (sc_registry c) = []"
  obtain found' c' where run: "accept_handoff exec (hp_token plan) c = (found', c')" by (rule prod.exhaust)
  have "keys (rg_db (sc_registry c)) (ticket_key (hp_token plan) (sc_registry c)) = None"
    using c(2) keys' by (simp add: keys_of_prefix(3) [OF c(1)])
  then show "fst (accept_handoff exec (hp_token plan) c) = None" using accept_spec(1) [OF c(3,4) run] run by (simp add: ticket_at_def)
qed

end


section \<open>A sample cluster\<close>

text \<open>A registry over the reference store, with a player \<open>p\<close> on a shard \<open>a\<close>, and two coordinators.\<close>

definition sample_registry :: "bytes \<Rightarrow> ref_store registry" where
  "sample_registry owner = \<lparr>rg_prefix = ascii ''m'', rg_connected = True, rg_queue = [], rg_outcomes = [],
     rg_db = [(ascii ''m:presence:p'', RHash [(ascii ''shard'', owner)])]\<rparr>"

definition sample_shard :: "bytes \<Rightarrow> ref_store shard_coordinator" where
  "sample_shard name = \<lparr>sc_shard_config = \<lparr>sh_id = name, sh_udp_endpoint = [], sh_http_endpoint = [], sh_capacity = 512, sh_heartbeat_ttl_ms = 4000,
       sh_refresh_interval_ms = 1000, sh_presence_ttl_ms = 15000, sh_ticket_ttl_ms = 10000, sh_regions = mk_region_map\<rparr>,
     sc_registry = sample_registry (ascii ''a''), sc_tickets = \<lparr>ms_issued = 0, ms_redeemed = 0, ms_rejected = 0\<rparr>, sc_members = [],
     sc_region_owner = [ascii ''a'', ascii ''b'', ascii ''a'', ascii ''b''], sc_endpoints = [ascii ''b'' \<mapsto> ascii ''e:1''], sc_last_refresh_ms = 0,
     sc_tokens = (\<lambda>_. 77), sc_drawn = 0, sc_handoffs_started = 0, sc_handoffs_accepted = 0, sc_handoffs_declined = 0, sc_shards_pruned = 0\<rparr>"

definition handed_ticket :: migration_ticket where
  "handed_ticket = \<lparr>mt_token = 77, mt_player_id = ascii ''p'', mt_from_shard = ascii ''a'', mt_to_shard = ascii ''b'', mt_region = 1, mt_tick = 9,
     mt_position = vec 0x44960000 0x42c80000, mt_velocity = vec 0 0, mt_last_input_sequence = 4, mt_issued_ms = 0\<rparr>"

lemma sample_presence: "presence_key (sample_registry x) i = ascii ''m:presence:p'' \<longleftrightarrow> i = ascii ''p''"
  "ascii ''m:presence:p'' = presence_key (sample_registry x) i \<longleftrightarrow> i = ascii ''p''"
  "roster_key (sample_registry x) i \<noteq> ascii ''m:presence:p''" "ticket_key w (sample_registry x) \<noteq> ascii ''m:presence:p''"
  by (auto simp: presence_key_def roster_key_def ticket_key_def sample_registry_def ascii_simps)

lemma sample_registry_ok:
  "typed_keys (sample_registry x) (ref_keys (rg_db (sample_registry x)))" "fault_free (sample_registry x)" "rg_queue (sample_registry x) = []"
  "owner_in (sample_registry x) (ref_keys (rg_db (sample_registry x))) (ascii ''p'') = Some x"
  "ref_keys (rg_db (sample_registry x)) (ticket_key w (sample_registry x)) = None"
proof -
  have db: "rg_db (sample_registry x) = [(ascii ''m:presence:p'', RHash [(ascii ''shard'', x)])]" by (simp add: sample_registry_def)
  show "typed_keys (sample_registry x) (ref_keys (rg_db (sample_registry x)))"
    using sample_presence [where x = x] by (auto simp: typed_keys_def ref_keys_def db set_at_def hash_at_def)
  show "fault_free (sample_registry x)" "rg_queue (sample_registry x) = []" by (simp_all add: sample_registry_def fault_free_def)
  show "owner_in (sample_registry x) (ref_keys (rg_db (sample_registry x))) (ascii ''p'') = Some x"
    using sample_presence(1) [where x = x and i = "ascii ''p''"] by (simp add: owner_in_def ref_keys_def db hash_at_def)
  show "ref_keys (rg_db (sample_registry x)) (ticket_key w (sample_registry x)) = None"
    using sample_presence(4) [where w = w and x = x] by (simp add: ref_keys_def db)
qed

lemma handed_ticket_fits: "ticket_ok (stamp 5 handed_ticket)" "length (ticket_bits (stamp 5 handed_ticket)) \<le> 8 * 508"
  by code_simp+

section \<open>Properties\<close>

text \<open>
  C38: a handoff reaches its target, once. Whatever the Redis server is, as long as it does what the commands document, no
  reply is lost and no key has expired: after the source has planned a handoff, the target shard gets exactly the ticket of the
  plan (player, position, velocity, tick and last input as they were at the source), the presence record names the target, and
  nobody can redeem the ticket a second time. The two times to live are positive and the names have at most 1023 bytes.
\<close>

theorem handoff_end_to_end:
  fixes a b c :: "'d shard_coordinator"
  assumes "redis_service exec keys" and "0 < sh_ticket_ttl_ms (sc_shard_config a)" and "0 < sh_presence_ttl_ms (sc_shard_config a)"
    and "typed_keys (sc_registry a) (keys (rg_db (sc_registry a)))" and "fault_free (sc_registry a)" and "rg_queue (sc_registry a) = []"
    and "player \<noteq> []" and "length player \<le> 1023" and "length (sh_id (sc_shard_config a)) \<le> 1023" and "length (hp_target_shard plan) \<le> 1023"
    and "plan_handoff exec now player region pos vel tick seq a = Some (Some plan, a')"
    and "rg_prefix (sc_registry b) = rg_prefix (sc_registry a)" and "rg_db (sc_registry b) = rg_db (sc_registry a')"
    and "fault_free (sc_registry b)" and "rg_queue (sc_registry b) = []" and "sh_id (sc_shard_config b) = hp_target_shard plan"
    and "accept_handoff exec (hp_token plan) b = (found, b')"
    and "rg_prefix (sc_registry c) = rg_prefix (sc_registry a)" and "rg_db (sc_registry c) = rg_db (sc_registry b')"
    and "fault_free (sc_registry c)" and "rg_queue (sc_registry c) = []"
  shows "found = Some (planned_ticket now player pos vel tick seq (sh_id (sc_shard_config a)) plan) \<and>
    owner_in (sc_registry a) (keys (rg_db (sc_registry b'))) player = Some (hp_target_shard plan) \<and>
    fst (accept_handoff exec (hp_token plan) c) = None"
  using redis_service.handoff_reaches_target [OF assms(1-17)] assms(18-) by simp

definition sample_on :: "bytes \<Rightarrow> ref_store \<Rightarrow> ref_store shard_coordinator" where
  "sample_on name db = (sample_shard name)\<lparr>sc_registry := (sample_registry (ascii ''a''))\<lparr>rg_db := db\<rparr>\<rparr>"

lemma sample_names: "ascii ''p'' \<noteq> []" "ascii ''b'' \<noteq> []" "ascii ''b'' \<noteq> ascii ''a''" "ascii ''a'' \<noteq> ascii ''b''"
  "length (ascii ''p'') \<le> 1023" "length (ascii ''a'') \<le> 1023" "length (ascii ''b'') \<le> 1023"
  by (simp_all add: ascii_def)

lemma sample_plan:
  obtains a where "plan_handoff ref_exec 5 (ascii ''p'') 0 (vec 0x44960000 0x42c80000) (vec 0 0) 9 4 (sample_shard (ascii ''a'')) =
    Some (Some \<lparr>hp_token = 77, hp_target_region = 1, hp_target_shard = ascii ''b'', hp_target_endpoint = ascii ''e:1''\<rparr>, a)"
proof -
  let ?a = "sample_shard (ascii ''a'')" and ?pos = "vec 0x44960000 0x42c80000"
  have fields: "sh_id (sc_shard_config ?a) = ascii ''a''" "sc_registry ?a = sample_registry (ascii ''a'')" by (simp_all add: sample_shard_def)
  have target: "handoff_target (sh_regions (sc_shard_config ?a)) 0 (vx ?pos) (vy ?pos) = Some 1" by code_simp
  have own: "owner_of_region 1 ?a = ascii ''b''" by (simp add: owner_of_region_def sample_shard_def)
  have e: "endpoint_of_shard (owner_of_region 1 ?a) ?a = Some (ascii ''e:1'')"
    unfolding own by (simp add: endpoint_of_shard_def sample_shard_def ascii_simps)
  have tok: "next_token ?a = (77, ?a\<lparr>sc_drawn := 1\<rparr>)" by (simp add: next_token_def sample_shard_def)
  have ticket: "\<lparr>mt_token = 77, mt_player_id = ascii ''p'', mt_from_shard = sh_id (sc_shard_config ?a), mt_to_shard = owner_of_region 1 ?a, mt_region = 1,
      mt_tick = 9, mt_position = ?pos, mt_velocity = vec 0 0, mt_last_input_sequence = 4, mt_issued_ms = 0\<rparr> = handed_ticket"
    by (simp add: handed_ticket_def fields own)
  have ttl: "0 < sh_ticket_ttl_ms (sc_shard_config ?a)" "0 < sh_presence_ttl_ms (sc_shard_config ?a)" by (simp_all add: sample_shard_def)
  have t: "mt_player_id (stamp 5 handed_ticket) = ascii ''p''" "mt_from_shard (stamp 5 handed_ticket) = ascii ''a''"
    by (simp_all add: stamp_def handed_ticket_def)
  have pub: "fst (publish_and_transfer ref_exec 5 handed_ticket (sh_ticket_ttl_ms (sc_shard_config ?a)) (sh_presence_ttl_ms (sc_shard_config ?a))
      (sc_tickets (?a\<lparr>sc_drawn := 1\<rparr>), sc_registry (?a\<lparr>sc_drawn := 1\<rparr>)))"
    using ref.publish_succeeds [OF ttl sample_registry_ok(1-3) refl _ sample_registry_ok(5) ticket_blob_decodes(2) [OF handed_ticket_fits], of "ascii ''a''"]
      sample_registry_ok(4) [of "ascii ''a''"] t by (simp add: fields)
  have "\<exists>a'. plan_handoff ref_exec 5 (ascii ''p'') 0 ?pos (vec 0 0) 9 4 ?a =
      Some (Some \<lparr>hp_token = 77, hp_target_region = 1, hp_target_shard = owner_of_region 1 ?a, hp_target_endpoint = ascii ''e:1''\<rparr>, a')"
    by (rule plan_result [OF target _ _ _ e tok]) (use pub [unfolded handed_ticket_def] own fields sample_names in \<open>simp_all add: kInvalidRegion_def\<close>)
  with that show thesis unfolding own by blast
qed

theorem handoff_end_to_end_witness:
  "\<exists>plan a b. plan_handoff ref_exec 5 (ascii ''p'') 0 (vec 0x44960000 0x42c80000) (vec 0 0) 9 4 (sample_shard (ascii ''a'')) = Some (Some plan, a) \<and>
     accept_handoff ref_exec 77 (sample_on (ascii ''b'') (rg_db (sc_registry a))) = (Some (stamp 5 handed_ticket), b) \<and>
     fst (accept_handoff ref_exec 77 (sample_on (ascii ''b'') (rg_db (sc_registry b)))) = None"
proof -
  let ?plan = "\<lparr>hp_token = 77, hp_target_region = 1, hp_target_shard = ascii ''b'', hp_target_endpoint = ascii ''e:1''\<rparr>"
  obtain a where plan: "plan_handoff ref_exec 5 (ascii ''p'') 0 (vec 0x44960000 0x42c80000) (vec 0 0) 9 4 (sample_shard (ascii ''a'')) = Some (Some ?plan, a)"
    by (rule sample_plan)
  obtain found b where acc: "accept_handoff ref_exec (hp_token ?plan) (sample_on (ascii ''b'') (rg_db (sc_registry a))) = (found, b)" by (rule prod.exhaust)
  have on: "sc_registry (sample_on x db) = (sample_registry (ascii ''a''))\<lparr>rg_db := db\<rparr>" "sh_id (sc_shard_config (sample_on x db)) = x" for x db
    by (simp_all add: sample_on_def sample_shard_def)
  have reg: "sc_registry (sample_shard (ascii ''a'')) = sample_registry (ascii ''a'')" "sh_id (sc_shard_config (sample_shard (ascii ''a''))) = ascii ''a''"
      "sh_ticket_ttl_ms (sc_shard_config (sample_shard (ascii ''a''))) = 10000" "sh_presence_ttl_ms (sc_shard_config (sample_shard (ascii ''a''))) = 15000"
    by (simp_all add: sample_shard_def)
  have free: "fault_free ((sample_registry x)\<lparr>rg_db := db\<rparr>)" "rg_queue ((sample_registry x)\<lparr>rg_db := db\<rparr>) = []"
      "rg_prefix ((sample_registry x)\<lparr>rg_db := db\<rparr>) = rg_prefix (sample_registry x)" for x db
    by (simp_all add: fault_free_def sample_registry_def)
  have planned: "planned_ticket 5 (ascii ''p'') (vec 0x44960000 0x42c80000) (vec 0 0) 9 4 (ascii ''a'') ?plan = stamp 5 handed_ticket"
    by (simp add: planned_ticket_def handed_ticket_def)
  have "found = Some (planned_ticket 5 (ascii ''p'') (vec 0x44960000 0x42c80000) (vec 0 0) 9 4 (sh_id (sc_shard_config (sample_shard (ascii ''a'')))) ?plan) \<and>
      owner_in (sc_registry (sample_shard (ascii ''a''))) (ref_keys (rg_db (sc_registry b))) (ascii ''p'') = Some (hp_target_shard ?plan) \<and>
      fst (accept_handoff ref_exec (hp_token ?plan) (sample_on (ascii ''b'') (rg_db (sc_registry b)))) = None"
    by (rule handoff_end_to_end [OF ref.redis_service_axioms _ _ _ _ _ _ _ _ _ plan _ _ _ _ _ acc])
      (use sample_registry_ok [of "ascii ''a''"] sample_names in \<open>simp_all add: on reg free\<close>)
  with plan acc planned show ?thesis by (simp add: reg)
qed

text \<open>
  C39: a handoff that loses its race leaves no trace, as long as every command is answered. If the presence record names another
  shard than the source, because the player has reconnected elsewhere or a second handoff was faster, the publication fails and
  every key of the database is as before: the record is untouched and the ticket is gone again.
\<close>

theorem lost_race_changes_nothing:
  assumes "redis_service exec keys" and "0 < ttl" and "0 < pttl" and "typed_keys g (keys (rg_db g))" and "fault_free g" and "rg_queue g = []"
    and "owner_in g (keys (rg_db g)) (mt_player_id ticket) = Some other" and "other \<noteq> mt_from_shard ticket"
    and "publish_and_transfer exec now ticket ttl pttl (m, g) = (success, m', g')"
  shows "\<not> success \<and> keys (rg_db g') = keys (rg_db g)"
proof -
  have t: "mt_player_id (stamp now ticket) = mt_player_id ticket" "mt_from_shard (stamp now ticket) = mt_from_shard ticket"
    by (simp_all add: stamp_def)
  show ?thesis
    using redis_service.publish_spec(2) [OF assms(1-6) refl assms(9)] assms(7,8) unfolding t by auto
qed

theorem lost_race_changes_nothing_witness:
  "\<exists>m g. publish_and_transfer ref_exec 5 handed_ticket 10 20 (\<lparr>ms_issued = 0, ms_redeemed = 0, ms_rejected = 0\<rparr>, sample_registry (ascii ''c'')) = (False, m, g) \<and>
     ref_keys (rg_db g) = ref_keys (rg_db (sample_registry (ascii ''c'')))"
proof -
  obtain success m g where run: "publish_and_transfer ref_exec 5 handed_ticket 10 20 (\<lparr>ms_issued = 0, ms_redeemed = 0, ms_rejected = 0\<rparr>,
      sample_registry (ascii ''c'')) = (success, m, g)" by (metis prod.exhaust)
  have own: "owner_in (sample_registry (ascii ''c'')) (ref_keys (rg_db (sample_registry (ascii ''c'')))) (mt_player_id handed_ticket) = Some (ascii ''c'')"
    "ascii ''c'' \<noteq> mt_from_shard handed_ticket"
    using sample_registry_ok(4) [of "ascii ''c''"] by (simp_all add: handed_ticket_def ascii_def)
  have ttl: "(0 :: u32) < 10" "(0 :: u32) < 20" by simp_all
  from lost_race_changes_nothing [OF ref.redis_service_axioms ttl sample_registry_ok(1-3) own run] run show ?thesis by simp
qed

text \<open>
  C40: a handoff is lost when the connection to Redis breaks between the execution of its commands and their replies. The
  client repeats the batch on a new connection, the ticket is there already and the presence record names the target already,
  and the source reports that there is no handoff: the player stays where it is, while its presence record names the other
  shard and the ticket is not discarded.
\<close>

theorem retried_handoff_moves_presence:
  assumes "redis_service exec keys" and "0 < ttl" and "0 < pttl" and "typed_keys g (keys (rg_db g))" and "rg_queue g = []" and "rg_outcomes g = (Broken 2, Answered) # rest"
    and "owner_in g (keys (rg_db g)) (mt_player_id ticket) = Some (mt_from_shard ticket)" and "mt_from_shard ticket \<noteq> mt_to_shard ticket"
    and "keys (rg_db g) (ticket_key (mt_token ticket) g) = None" and "encode_migration_ticket (stamp now ticket) \<noteq> []"
    and "publish_and_transfer exec now ticket ttl pttl (m, g) = (success, m', g')"
  shows "\<not> success \<and> owner_in g (keys (rg_db g')) (mt_player_id ticket) = Some (mt_to_shard ticket) \<and>
    keys (rg_db g') (ticket_key (mt_token ticket) g) = Some (Str (encode_migration_ticket (stamp now ticket)))"
proof -
  have t: "mt_player_id (stamp now ticket) = mt_player_id ticket" "mt_from_shard (stamp now ticket) = mt_from_shard ticket"
    "mt_to_shard (stamp now ticket) = mt_to_shard ticket" "mt_token (stamp now ticket) = mt_token ticket"
    by (simp_all add: stamp_def)
  have own: "owner_in g (keys (rg_db g)) (mt_player_id ticket) \<in> {None, Some (mt_from_shard ticket)}" using assms(7) by simp
  show ?thesis
    using redis_service.publish_retried [OF assms(1-6) refl, where now = now and ticket = ticket, unfolded t, OF own assms(8-11)] by simp
qed

theorem retried_handoff_moves_presence_witness:
  "\<exists>m g. publish_and_transfer ref_exec 5 handed_ticket 10 20 (\<lparr>ms_issued = 0, ms_redeemed = 0, ms_rejected = 0\<rparr>,
       (sample_registry (ascii ''a''))\<lparr>rg_outcomes := [(Broken 2, Answered)]\<rparr>) = (False, m, g) \<and>
     owner_in (sample_registry (ascii ''a'')) (ref_keys (rg_db g)) (ascii ''p'') = Some (ascii ''b'')"
proof -
  let ?g = "(sample_registry (ascii ''a''))\<lparr>rg_outcomes := [(Broken 2, Answered)]\<rparr>"
  obtain success m g where run: "publish_and_transfer ref_exec 5 handed_ticket 10 20 (\<lparr>ms_issued = 0, ms_redeemed = 0, ms_rejected = 0\<rparr>, ?g) = (success, m, g)"
    by (metis prod.exhaust)
  have pre: "rg_prefix ?g = rg_prefix (sample_registry (ascii ''a''))" and db: "rg_db ?g = rg_db (sample_registry (ascii ''a''))" by simp_all
  have typed: "typed_keys ?g (ref_keys (rg_db ?g))" using sample_registry_ok(1) [of "ascii ''a''"] unfolding of_prefix [OF pre] db .
  have q: "rg_queue ?g = []" "rg_outcomes ?g = (Broken 2, Answered) # []" using sample_registry_ok(3) [of "ascii ''a''"] by simp_all
  have h: "mt_player_id handed_ticket = ascii ''p''" "mt_from_shard handed_ticket = ascii ''a''" "mt_to_shard handed_ticket = ascii ''b''"
    by (simp_all add: handed_ticket_def)
  have own: "owner_in ?g (ref_keys (rg_db ?g)) (mt_player_id handed_ticket) = Some (mt_from_shard handed_ticket)"
    using sample_registry_ok(4) [of "ascii ''a''"] unfolding of_prefix [OF pre] db h .
  have ne: "mt_from_shard handed_ticket \<noteq> mt_to_shard handed_ticket" unfolding h by (rule sample_names(4))
  have free: "ref_keys (rg_db ?g) (ticket_key (mt_token handed_ticket) ?g) = None"
    using sample_registry_ok(5) [of "ascii ''a''"] unfolding keys_of_prefix(3) [OF pre] db .
  have ttl: "(0 :: u32) < 10" "(0 :: u32) < 20" by simp_all
  from retried_handoff_moves_presence [OF ref.redis_service_axioms ttl typed q own ne free ticket_blob_decodes(2) [OF handed_ticket_fits] run] run
  show ?thesis unfolding of_prefix [OF pre] h by simp
qed

text \<open>
  Ownership needs no election. Two coordinators that have read the same shards, in whatever order the database lists them,
  and none of them draining, assign every region to the same shard.
\<close>

definition sample_info :: "bytes \<Rightarrow> shard_info" where
  "sample_info name = \<lparr>si_id = name, si_udp_endpoint = [], si_http_endpoint = [], si_player_count = 0, si_capacity = 512, si_tick_p99_ms = [],
     si_heartbeat_ms = 0, si_draining = False\<rparr>"

theorem ownership_agrees:
  assumes "mset (sc_members a) = mset (sc_members b)" and "list_all (\<lambda>s. \<not> si_draining s) (sc_members a)"
    and "sh_regions (sc_shard_config a) = sh_regions (sc_shard_config b)"
  shows "owner_of_region r (recompute_ownership a) = owner_of_region r (recompute_ownership b)"
proof -
  have none: "list_all (\<lambda>s. \<not> si_draining s) (sc_members b)" using assms(1,2) by (metis list_all_iff set_mset_mset)
  have all: "filter (\<lambda>s. \<not> (si_draining s \<and> si_id s \<noteq> me)) xs = xs" if "list_all (\<lambda>s. \<not> si_draining s) xs" for me and xs :: "shard_info list"
    using that by (simp add: list_all_iff)
  have "mset (map si_id (sc_members a)) = mset (map si_id (sc_members b))" using assms(1) by simp
  then have "sort (map si_id (sc_members a)) = sort (map si_id (sc_members b))"
    by (intro properties_for_sort) (simp_all add: sorted_sort)
  then show ?thesis
    using all [OF assms(2)] all [OF none] assms(3) by (simp add: recompute_ownership_def owner_of_region_def Let_def)
qed


theorem ownership_agrees_witness:
  "owner_of_region 3 (recompute_ownership ((sample_shard (ascii ''a''))\<lparr>sc_members := [sample_info (ascii ''b''), sample_info (ascii ''a'')]\<rparr>)) =
   owner_of_region 3 (recompute_ownership ((sample_shard (ascii ''b''))\<lparr>sc_members := [sample_info (ascii ''a''), sample_info (ascii ''b'')]\<rparr>))"
  by (rule ownership_agrees) (simp_all add: sample_info_def sample_shard_def)

end
