(* ===== verification/Address_Text.thy ===== *)
theory Address_Text
  imports Udp_Socket Decimal
begin

text \<open>
  \<open>net/address.h\<close> and \<open>net/address.cpp\<close>: endpoints as text. \<open>inet_pton\<close> is modelled as POSIX describes it for IPv4, four numbers
  of one to three digits up to 255; the resolver \<open>getaddrinfo\<close> is a parameter that gives the first address of a name.
\<close>

section \<open>Text\<close>

primrec split_on :: "u8 \<Rightarrow> bytes \<Rightarrow> bytes list" where
  "split_on b [] = [[]]"
| "split_on b (x # xs) = (if x = b then [] # split_on b xs else case split_on b xs of [] \<Rightarrow> [[x]] | p # ps \<Rightarrow> (x # p) # ps)"

text \<open>What is before and behind the last occurrence, as \<open>rfind\<close> and \<open>substr\<close> cut it.\<close>

definition cut_last :: "u8 \<Rightarrow> bytes \<Rightarrow> (bytes \<times> bytes) option" where
  "cut_last b text =
     (case dropWhile (\<lambda>x. x \<noteq> b) (rev text) of
        [] \<Rightarrow> None
      | _ # before \<Rightarrow> Some (rev before, rev (takeWhile (\<lambda>x. x \<noteq> b) (rev text))))"

text \<open>What a C function sees of a string.\<close>

definition c_str :: "bytes \<Rightarrow> bytes" where
  "c_str text = takeWhile (\<lambda>x. x \<noteq> 0) text"

text \<open>\<open>strtol\<close> with its end pointer: the number, if there are digits and nothing behind them.\<close>

definition strtol_all :: "bytes \<Rightarrow> int option" where
  "strtol_all text =
     (let s = dropWhile is_space text;
          digits = (if take 1 s = [45] \<or> take 1 s = [43] then tl s else s)
      in if digits = [] \<or> \<not> list_all is_digit digits then None else Some (strtoll text))"

definition octet :: "bytes \<Rightarrow> nat option" where
  "octet part =
     (if part \<noteq> [] \<and> length part \<le> 3 \<and> list_all is_digit part \<and> digits_value part \<le> 255 then Some (digits_value part) else None)"

definition inet_pton :: "bytes \<Rightarrow> u32 option" where
  "inet_pton host =
     (case map octet (split_on 46 host) of
        [Some a, Some b, Some c, Some d] \<Rightarrow> Some (word_of_nat (((a * 256 + b) * 256 + c) * 256 + d))
      | _ \<Rightarrow> None)"


section \<open>The operations\<close>

definition dec_byte :: "u32 \<Rightarrow> nat \<Rightarrow> bytes" where
  "dec_byte ip shift = dec (unat (drop_bit shift ip AND 0xff))"

definition address_to_string :: "address \<Rightarrow> bytes" where
  "address_to_string a =
     dec_byte (ad_ip a) 24 @ 46 # dec_byte (ad_ip a) 16 @ 46 # dec_byte (ad_ip a) 8 @ 46 # dec_byte (ad_ip a) 0 @ 58 # dec (unat (ad_port a))"

definition address_valid :: "address \<Rightarrow> bool" where
  "address_valid a \<longleftrightarrow> ad_port a \<noteq> 0"

definition address_parse :: "(bytes \<Rightarrow> u32 option) \<Rightarrow> bytes \<Rightarrow> address option" where
  "address_parse resolve text =
     (case cut_last 58 text of
        None \<Rightarrow> None
      | Some (host, port_text) \<Rightarrow>
          if host = [] \<or> port_text = [] then None
          else case strtol_all (c_str port_text) of
            None \<Rightarrow> None
          | Some port \<Rightarrow>
              if port \<le> 0 \<or> port > 65535 then None
              else let at_port = (\<lambda>ip. \<lparr>ad_ip = ip, ad_port = word_of_int port\<rparr>)
                   in if host = ascii ''*'' \<or> host = ascii ''0.0.0.0'' then Some (at_port 0)
                      else case inet_pton (c_str host) of
                        Some ip \<Rightarrow> Some (at_port ip)
                      | None \<Rightarrow> map_option at_port (resolve (c_str host)))"


section \<open>Lemmas\<close>

lemma split_on_last: "b \<notin> set xs \<Longrightarrow> split_on b xs = [xs]"
  by (induction xs) auto

lemma split_on_first: "b \<notin> set xs \<Longrightarrow> split_on b (xs @ b # ys) = xs # split_on b ys"
  by (induction xs) auto

lemma dec_free: "\<not> is_digit b \<Longrightarrow> b \<notin> set (dec n)"
  using dec_digits [of n] by (auto simp: list_all_iff)

lemma not_digits [simp]: "\<not> is_digit 46" "\<not> is_digit 58" "\<not> is_digit 0"
  by (simp_all add: is_digit_def)

lemma length_dec_byte: "n < 256 \<Longrightarrow> length (dec n) \<le> 3"
  by (subst dec.simps, subst dec.simps, subst dec.simps) simp

lemma byte_of_ip: "unat (drop_bit n (ip :: u32) AND 255) = unat ip div 2 ^ n mod 256"
proof -
  have "drop_bit n ip AND 255 = take_bit 8 (drop_bit n ip)" by (simp add: take_bit_eq_mask mask_numeral)
  then have "unat (drop_bit n ip AND 255) = take_bit 8 (drop_bit n (unat ip))" by (simp only: unsigned_take_bit_eq unat_drop_bit_eq)
  then show ?thesis by (simp add: take_bit_eq_mod drop_bit_eq_div)
qed

lemma octet_dec: "n < 256 \<Longrightarrow> octet (dec n) = Some n"
  using length_dec_byte [of n] dec_digits [of n] dec_nonempty [of n] by (simp add: octet_def)

lemma bytes_of_ip: "((unat ip div 2 ^ 24 mod 256 * 256 + unat ip div 2 ^ 16 mod 256) * 256 + unat ip div 2 ^ 8 mod 256) * 256 + unat ip mod 256 = unat (ip :: u32)"
proof -
  have step: "a div 256 * 256 + a mod 256 = a" for a :: nat by simp
  have a: "unat ip div 2 ^ 24 mod 256 = unat ip div 2 ^ 16 div 256" using unat_less_u32 [of ip] by (simp add: div_mult2_eq [symmetric])
  have b: "unat ip div 2 ^ 16 = unat ip div 2 ^ 8 div 256" "unat ip div 2 ^ 8 = unat ip div 256" by (simp_all add: div_mult2_eq [symmetric])
  show ?thesis unfolding a step unfolding b(1) step unfolding b(2) step ..
qed

lemma inet_pton_dec:
  "a < 256 \<Longrightarrow> b < 256 \<Longrightarrow> c < 256 \<Longrightarrow> d < 256 \<Longrightarrow>
   inet_pton (dec a @ 46 # dec b @ 46 # dec c @ 46 # dec d) = Some (word_of_nat (((a * 256 + b) * 256 + c) * 256 + d))"
  by (simp add: inet_pton_def split_on_first split_on_last dec_free octet_dec)

lemma inet_pton_printed:
  "inet_pton (dec_byte ip 24 @ 46 # dec_byte ip 16 @ 46 # dec_byte ip 8 @ 46 # dec_byte ip 0) = Some ip"
proof -
  have b: "unat (drop_bit n ip AND 255) < 256" for n by (simp add: byte_of_ip)
  let ?b = "\<lambda>n. unat (drop_bit n ip AND 255)"
  have "((?b 24 * 256 + ?b 16) * 256 + ?b 8) * 256 + ?b 0 = unat ip"
    unfolding byte_of_ip power_0 div_by_1 by (rule bytes_of_ip)
  then show ?thesis
    unfolding dec_byte_def inet_pton_dec [OF b b b b] by simp
qed

lemma cut_last_append: "b \<notin> set ys \<Longrightarrow> cut_last b (xs @ b # ys) = Some (xs, ys)"
  by (simp add: cut_last_def takeWhile_append dropWhile_append)

lemma strtol_all_dec: "n < 2 ^ 63 \<Longrightarrow> strtol_all (dec n) = Some (int n)"
proof -
  assume n: "n < 2 ^ 63"
  obtain d ds where d: "dec n = d # ds" using dec_nonempty [of n] by (cases "dec n") auto
  then have "is_digit d" using dec_digits [of n] by simp
  with digit_other [OF this] dec_digits [of n] strtoll_dec [OF n] show ?thesis by (simp add: strtol_all_def d Let_def)
qed

lemma c_str_free: "0 \<notin> set s \<Longrightarrow> c_str s = s"
  unfolding c_str_def by (induction s) auto



section \<open>Printing and parsing\<close>

text \<open>
  An endpoint survives being printed and parsed, whatever the resolver does: the endpoints that a shard advertises in the
  registry and that travel in redirects and session grants are the ones that clients dial.
\<close>

lemma address_roundtrip:
  assumes "address_valid a"
  shows "address_parse resolve (address_to_string a) = Some a"
proof -
  let ?host = "dec_byte (ad_ip a) 24 @ 46 # dec_byte (ad_ip a) 16 @ 46 # dec_byte (ad_ip a) 8 @ 46 # dec_byte (ad_ip a) 0"
  let ?port = "unat (ad_port a)"
  have p: "0 < ?port" "?port < 65536" using assms unat_less_u16 [of "ad_port a"] by (simp_all add: address_valid_def unat_gt_0)
  have free: "0 \<notin> set ?host" "0 \<notin> set (dec ?port)" by (simp_all add: dec_byte_def dec_free)
  have "address_to_string a = ?host @ 58 # dec ?port" by (simp add: address_to_string_def)
  then have cut: "cut_last 58 (address_to_string a) = Some (?host, dec ?port)" by (simp only:) (rule cut_last_append, simp add: dec_free)
  have num: "strtol_all (c_str (dec ?port)) = Some (int ?port)" using p(2) by (simp add: c_str_free free strtol_all_dec)
  have ip: "inet_pton (c_str ?host) = Some (ad_ip a)" unfolding c_str_free [OF free(1)] by (rule inet_pton_printed)
  have any: "?host = ascii ''0.0.0.0'' \<Longrightarrow> ad_ip a = 0" using ip by (auto simp: c_str_free free)  (simp add: inet_pton_def octet_def is_digit_def digits_value_def)
  have star: "?host \<noteq> ascii ''*''" by (auto simp: dec_byte_def)
  have port: "word_of_int (int ?port) = ad_port a" by simp
  have bounds: "\<not> (int ?port \<le> 0 \<or> int ?port > 65535)" using p by linarith
  show ?thesis
    unfolding address_parse_def cut option.case prod.case num Let_def ip port
    using bounds any star dec_nonempty [of ?port] by (cases "?host = ascii ''0.0.0.0''") simp_all
qed

end
