(* ===== verification/World_Server.thy ===== *)
theory World_Server
  imports Connection_Invariant Snapshot World Shard Messages Address_Text
begin

text \<open>
  \<open>app/world_server.h\<close> and \<open>app/world_server.cpp\<close>: the shard process, as the service of a connection server. Its state is the
  record \<open>world_service\<close>; the handlers that it installs in the connection server are functions on this record, and the steps
  of the tick are functions on the connection server that holds it. The wall clock is a sequence of readings, Redis, the sine
  and cosine and \<open>std::nth_element\<close> are parameters as in the layers below. Metrics, the HTTP endpoints and the viewer are left
  out. Where a layer below has no result because C++ leaves the behaviour undefined the flag \<open>sv_undefined\<close> is set, and
  \<open>sv_destroyed\<close> where the connect handler would close its own connection, which is used again after the call.
\<close>

section \<open>Data\<close>

definition kSnapshotChannelBytes :: u32 where "kSnapshotChannelBytes = 1"
definition kPendingAdmitTtlMs :: u64 where "kPendingAdmitTtlMs = 15000"
definition kRedeemedTicketTtlMs :: u64 where "kRedeemedTicketTtlMs = 30000"
definition kPresenceRefreshMs :: u64 where "kPresenceRefreshMs = 2000"

record world_server_config =
  wsc_shard :: bytes
  wsc_udp_bind :: address
  wsc_key_prefix :: bytes
  wsc_params :: world_params
  wsc_interest :: interest_config
  wsc_regions :: region_map
  wsc_capacity :: u32
  wsc_drifters :: u32
  wsc_max_connections :: u32
  wsc_reconnect_grace_ms :: u32
  wsc_redirect_grace_ticks :: u32
  wsc_connection_timeout_us :: u64
  wsc_advertise :: bool
  wsc_advertise_udp :: bytes
  wsc_advertise_http :: bytes

record world_player =
  pl_client :: client_id
  pl_player_id :: bytes
  pl_entity :: entity_id
  pl_region :: u32
  pl_session_token :: u64
  pl_last_input_sequence :: u32
  pl_acked_snapshot_tick :: tick
  pl_redirect_deadline :: tick
  pl_redirecting :: bool
  pl_migrated_in :: bool
  pl_replication :: replication_state

record ghost_state =
  gh_position :: vec2
  gh_velocity :: vec2
  gh_last_input_sequence :: u32
  gh_region :: u32
  gh_session_token :: u64
  gh_expires_ms :: u64

record world_server_stats =
  st_ticks :: u64
  st_snapshots_sent :: u64
  st_snapshot_bytes :: u64
  st_inputs_received :: u64
  st_migrations_out :: u64
  st_migrations_in :: u64
  st_reconnects_resumed :: u64
  st_timeouts :: u64
  st_denied_connects :: u64

record pending_admit =
  pa_client :: client_id
  pa_credential :: connect_credential
  pa_ticket :: "migration_ticket option"
  pa_region :: u32
  pa_expires_ms :: u64

text \<open>\<open>sv_entering\<close> is the admission that the connect handler works on.\<close>

record 'd world_service =
  sv_config :: world_server_config
  sv_world :: world
  sv_coordinator :: "'d shard_coordinator"
  sv_players :: "(client_id \<times> world_player) list"
  sv_by_player_id :: "(bytes \<times> client_id) list"
  sv_ghosts :: "(bytes \<times> ghost_state) list"
  sv_pending_admits :: "(client_id \<times> pending_admit) list"
  sv_pending_by_player :: "(bytes \<times> client_id) list"
  sv_redeemed_tickets :: "(u64 \<times> migration_ticket) list"
  sv_stats :: world_server_stats
  sv_scratch :: bytes
  sv_next_client :: client_id
  sv_last_presence_refresh_ms :: u64
  sv_entering :: "pending_admit option"
  sv_clock :: "nat \<Rightarrow> u64"
  sv_readings :: nat
  sv_undefined :: bool
  sv_destroyed :: bool

definition read_wall_ms :: "'d world_service \<Rightarrow> u64 \<times> 'd world_service" where
  "read_wall_ms w = (sv_clock w (sv_readings w), w\<lparr>sv_readings := sv_readings w + 1\<rparr>)"

definition set_undefined :: "'d world_service \<Rightarrow> 'd world_service" where
  "set_undefined w = w\<lparr>sv_undefined := True\<rparr>"


section \<open>Admission\<close>

definition refuse :: "deny_reason \<Rightarrow> 'd world_service \<Rightarrow> admit_decision \<times> 'd world_service" where
  "refuse reason w =
     (\<lparr>ad_admit = False, ad_reason = reason, ad_client_id = 0\<rparr>,
      w\<lparr>sv_stats := (sv_stats w)\<lparr>st_denied_connects := st_denied_connects (sv_stats w) + 1\<rparr>\<rparr>)"

text \<open>A migration credential names a ticket, redeemed before or now; a session credential must match the presence record.\<close>

definition find_ticket :: "'d exec \<Rightarrow> u64 \<Rightarrow> 'd world_service \<Rightarrow> migration_ticket option \<times> 'd world_service" where
  "find_ticket exec token w =
     (case map_of (sv_redeemed_tickets w) token of
        Some ticket \<Rightarrow> (Some ticket, w)
      | None \<Rightarrow>
          case accept_handoff exec token (sv_coordinator w) of
            (None, c) \<Rightarrow> (None, w\<lparr>sv_coordinator := c\<rparr>)
          | (Some ticket, c) \<Rightarrow>
              (Some ticket, w\<lparr>sv_coordinator := c, sv_redeemed_tickets := AList.update token ticket (sv_redeemed_tickets w)\<rparr>))"

definition check_credential :: "'d exec \<Rightarrow> connect_credential \<Rightarrow> 'd world_service \<Rightarrow>
    (deny_reason + migration_ticket option \<times> u32) \<times> 'd world_service" where
  "check_credential exec credential w =
     (if cc_kind credential = kMigration
      then case find_ticket exec (cc_token credential) w of
        (None, w) \<Rightarrow> (Inl kBadToken, w)
      | (Some ticket, w) \<Rightarrow>
          (if mt_player_id ticket \<noteq> cc_player_id credential then Inl kBadToken else Inr (Some ticket, mt_region ticket), w)
      else if wsc_advertise (sv_config w)
      then case get_presence exec (cc_player_id credential) (sc_registry (sv_coordinator w)) of (found, g) \<Rightarrow>
        let w = w\<lparr>sv_coordinator := (sv_coordinator w)\<lparr>sc_registry := g\<rparr>\<rparr>
        in (case found of
              None \<Rightarrow> Inl kBadToken
            | Some r \<Rightarrow>
                if pr_session_token r \<noteq> cc_token credential then Inl kBadToken
                else if pr_shard_id r \<noteq> wsc_shard (sv_config w) then Inl kWrongRegion
                else Inr (None, pr_region r), w)
      else (Inr (None, 0), w))"

definition admitted_region :: "u32 \<Rightarrow> 'd world_service \<Rightarrow> u32" where
  "admitted_region region w =
     (if \<not> owns_region region (sv_coordinator w) \<and> wsc_advertise (sv_config w)
      then case owned_regions (sv_coordinator w) of [] \<Rightarrow> region | owned # _ \<Rightarrow> owned
      else region)"

definition admit_new :: "'d exec \<Rightarrow> connect_credential \<Rightarrow> u64 \<Rightarrow> 'd world_service \<Rightarrow> admit_decision \<times> 'd world_service" where
  "admit_new exec credential now_ms w =
     (if unat (wsc_capacity (sv_config w)) \<le> length (sv_players w) then refuse kServerFull w
      else case check_credential exec credential w of
        (Inl reason, w) \<Rightarrow> refuse reason w
      | (Inr (ticket, region), w) \<Rightarrow>
          let client = sv_next_client w;
              admitted = \<lparr>pa_client = client, pa_credential = credential, pa_ticket = ticket, pa_region = admitted_region region w,
                pa_expires_ms = now_ms + kPendingAdmitTtlMs\<rparr>
          in (\<lparr>ad_admit = True, ad_reason = kBadToken, ad_client_id = client\<rparr>,
              w\<lparr>sv_next_client := client + 1, sv_pending_admits := AList.update client admitted (sv_pending_admits w),
                sv_pending_by_player := AList.update (cc_player_id credential) client (sv_pending_by_player w)\<rparr>))"

definition admit :: "'d exec \<Rightarrow> address \<Rightarrow> connect_token \<Rightarrow> 'd world_service \<Rightarrow> admit_decision \<times> 'd world_service" where
  "admit exec sender token w =
     (case decode_credential token of
        None \<Rightarrow> refuse kBadToken w
      | Some credential \<Rightarrow>
          case read_wall_ms w of (now_ms, w) \<Rightarrow>
            case Option.bind (map_of (sv_pending_by_player w) (cc_player_id credential)) (map_of (sv_pending_admits w)) of
              Some entry \<Rightarrow>
                if pa_expires_ms entry > now_ms \<and> cc_token (pa_credential entry) = cc_token credential
                then (\<lparr>ad_admit = True, ad_reason = kBadToken, ad_client_id = pa_client entry\<rparr>, w)
                else admit_new exec credential now_ms w
            | None \<Rightarrow> admit_new exec credential now_ms w)"


section \<open>Joining and leaving\<close>

text \<open>The connect handler up to the call that closes a stale session of the player.\<close>

definition begin_connect :: "connection \<Rightarrow> 'd world_service \<Rightarrow> (u32 \<times> string) option \<times> 'd world_service" where
  "begin_connect connection w =
     (case map_of (sv_pending_admits w) (cn_client_id connection) of
        None \<Rightarrow> (None, w\<lparr>sv_entering := None, sv_destroyed := True\<rparr>)
      | Some admitted \<Rightarrow>
          let player_id = cc_player_id (pa_credential admitted)
          in (case map_of (sv_by_player_id w) player_id of
                None \<Rightarrow> None
              | Some existing \<Rightarrow> if existing \<noteq> cn_client_id connection then Some (existing, ''replaced by a newer session'') else None,
              w\<lparr>sv_pending_admits := AList.delete (cn_client_id connection) (sv_pending_admits w),
                sv_pending_by_player := AList.delete player_id (sv_pending_by_player w), sv_entering := Some admitted\<rparr>))"

text \<open>The constants \<open>1000.f\<close> and \<open>0.25f\<close>. A spawn point is spread around the centre of the region.\<close>

definition f_thousand :: f32 where "f_thousand = 0x447a0000"
definition f_quarter :: f32 where "f_quarter = 0x3e800000"

definition spread_axis :: "u32 \<Rightarrow> f32 \<Rightarrow> f32" where
  "spread_axis n offset = f_mul (f_sub (f_div (f_of_int (uint (n mod 2000))) f_thousand) f_one) offset"

definition spawn_point :: "region_map \<Rightarrow> u32 \<Rightarrow> client_id \<Rightarrow> vec2" where
  "spawn_point regions region client =
     (case center_of regions region of (cx, cy) \<Rightarrow>
        let spread = hash_u32 (client * 2654435761); offset = f_mul (region_size regions) f_quarter
        in vec (f_add cx (spread_axis spread offset)) (f_add cy (spread_axis (drop_bit 11 spread) offset)))"

text \<open>Where a player enters: from its ticket, from its ghost, or at a spawn point; position, velocity, last input, region.\<close>

definition entry_point :: "pending_admit \<Rightarrow> client_id \<Rightarrow> 'd world_service \<Rightarrow> (vec2 \<times> vec2 \<times> u32 \<times> u32) \<times> 'd world_service" where
  "entry_point admitted client w =
     (let player_id = cc_player_id (pa_credential admitted); stats = sv_stats w
      in case pa_ticket admitted of
           Some t \<Rightarrow> ((mt_position t, mt_velocity t, mt_last_input_sequence t, pa_region admitted),
             w\<lparr>sv_stats := stats\<lparr>st_migrations_in := st_migrations_in stats + 1\<rparr>\<rparr>)
         | None \<Rightarrow>
             case map_of (sv_ghosts w) player_id of
               None \<Rightarrow> ((spawn_point (wsc_regions (sv_config w)) (pa_region admitted) client, vec 0 0, 0, pa_region admitted), w)
             | Some ghost \<Rightarrow>
                 case read_wall_ms w of (now_ms, w) \<Rightarrow>
                   if gh_expires_ms ghost > now_ms \<and> gh_session_token ghost = cc_token (pa_credential admitted)
                   then ((gh_position ghost, gh_velocity ghost, gh_last_input_sequence ghost, gh_region ghost),
                     w\<lparr>sv_stats := stats\<lparr>st_reconnects_resumed := st_reconnects_resumed stats + 1\<rparr>,
                       sv_ghosts := AList.delete player_id (sv_ghosts w)\<rparr>)
                   else ((spawn_point (wsc_regions (sv_config w)) (pa_region admitted) client, vec 0 0, 0, pa_region admitted), w))"

text \<open>The value-initialized \<open>ReplicationState\<close>.\<close>

definition mk_replication_state :: replication_state where
  "mk_replication_state = \<lparr>rp_config = mk_interest_config, rp_quantizers = quantizers_from mk_world_params, rp_params = mk_world_params,
     rp_history = [], rp_last_acked_tick = 0, rp_has_acked = False, rp_priority = [], rp_stats = mk_replication_stats\<rparr>"

definition new_player :: "pending_admit \<Rightarrow> client_id \<Rightarrow> entity_id \<Rightarrow> u32 \<Rightarrow> u32 \<Rightarrow> world_server_config \<Rightarrow> world_player" where
  "new_player admitted client entity region last_sequence config =
     \<lparr>pl_client = client, pl_player_id = cc_player_id (pa_credential admitted), pl_entity = entity, pl_region = region,
      pl_session_token = cc_token (pa_credential admitted), pl_last_input_sequence = last_sequence, pl_acked_snapshot_tick = 0,
      pl_redirect_deadline = 0, pl_redirecting = False, pl_migrated_in = pa_ticket admitted \<noteq> None,
      pl_replication = replication_configure (wsc_interest config) (wsc_params config) mk_replication_state\<rparr>"

definition send_event :: "bytes \<Rightarrow> connection \<Rightarrow> connection" where
  "send_event data connection = connection\<lparr>cn_reliability := queue_reliable channel_kEvent data (cn_reliability connection)\<rparr>"

definition presence_of :: "'d world_service \<Rightarrow> world_player \<Rightarrow> presence_record" where
  "presence_of w player =
     \<lparr>pr_player_id = pl_player_id player, pr_shard_id = wsc_shard (sv_config w), pr_region = pl_region player,
      pr_session_token = pl_session_token player, pr_updated_ms = 0\<rparr>"

definition announce :: "'d exec \<Rightarrow> world_player \<Rightarrow> 'd world_service \<Rightarrow> 'd world_service" where
  "announce exec player w =
     (if wsc_advertise (sv_config w)
      then case read_wall_ms w of (now_ms, w) \<Rightarrow>
        w\<lparr>sv_coordinator := snd (touch_presence exec now_ms (presence_of w player) (sv_coordinator w))\<rparr>
      else w)"

definition config_event :: "world_player \<Rightarrow> 'd world_service \<Rightarrow> bytes" where
  "config_event player w =
     (case encode_world_config \<lparr>wc_entity = pl_entity player, wc_tick = w_tick (sv_world w), wc_region = pl_region player,
          wc_world_size = wp_size (wsc_params (sv_config w)), wc_tick_rate = wp_tick_rate (wsc_params (sv_config w)),
          wc_shard_id = wsc_shard (sv_config w)\<rparr>
        (replicate (unat kMaxReliableMessageSize) 0) kMaxReliableMessageSize of (n, buffer) \<Rightarrow> take (unat n) buffer)"

definition finish_connect :: "'d exec \<Rightarrow> connection \<Rightarrow> 'd world_service \<Rightarrow> connection \<times> 'd world_service" where
  "finish_connect exec connection w =
     (case sv_entering w of
        None \<Rightarrow> (connection, w)
      | Some admitted \<Rightarrow>
          let client = cn_client_id connection
          in case entry_point admitted client (w\<lparr>sv_entering := None\<rparr>) of ((position, velocity, last_sequence, region), w) \<Rightarrow>
               case spawn_player client position (sv_world w) of (entity, world) \<Rightarrow>
                 let player = new_player admitted client entity region last_sequence (sv_config w);
                     players = (if map_of (sv_players w) client = None then sv_players w @ [(client, player)] else sv_players w);
                     w = w\<lparr>sv_world := adopt_entity entity client position velocity last_sequence world,
                           sv_by_player_id := AList.update (pl_player_id player) client (sv_by_player_id w), sv_players := players\<rparr>;
                     player = (case map_of players client of Some p \<Rightarrow> p | None \<Rightarrow> player);
                     w = announce exec player w;
                     event = config_event player w
                 in (send_event event (connection\<lparr>cn_entity := entity\<rparr>), w))"

text \<open>A player that leaves without being redirected leaves a ghost.\<close>

definition leave_ghost :: "world_player \<Rightarrow> 'd world_service \<Rightarrow> 'd world_service" where
  "leave_ghost player w =
     (let index = es_find (w_entities (sv_world w)) (pl_entity player)
      in if index < 0 then w
         else case read_wall_ms w of (now_ms, w) \<Rightarrow>
           let es = w_entities (sv_world w); i = nat index
           in w\<lparr>sv_ghosts := AList.update (pl_player_id player)
                \<lparr>gh_position = es_position es ! i, gh_velocity = es_velocity es ! i, gh_last_input_sequence = es_last_input_sequence es ! i,
                 gh_region = pl_region player, gh_session_token = pl_session_token player,
                 gh_expires_ms = now_ms + ucast (wsc_reconnect_grace_ms (sv_config w))\<rparr> (sv_ghosts w)\<rparr>)"

definition drop_player :: "client_id \<Rightarrow> world_player \<Rightarrow> 'd world_service \<Rightarrow> 'd world_service" where
  "drop_player client player w =
     w\<lparr>sv_world := despawn (pl_entity player) (sv_world w),
       sv_by_player_id := (if map_of (sv_by_player_id w) (pl_player_id player) = Some client
                           then AList.delete (pl_player_id player) (sv_by_player_id w) else sv_by_player_id w),
       sv_players := AList.delete client (sv_players w)\<rparr>"

definition handle_leave :: "connection \<Rightarrow> string \<Rightarrow> 'd world_service \<Rightarrow> 'd world_service" where
  "handle_leave connection reason w =
     (case map_of (sv_players w) (cn_client_id connection) of
        None \<Rightarrow> w
      | Some player \<Rightarrow>
          let w = (if pl_redirecting player then w
                   else let w = leave_ghost player w
                        in w\<lparr>sv_stats := (sv_stats w)\<lparr>st_timeouts := st_timeouts (sv_stats w) + 1\<rparr>\<rparr>)
          in drop_player (cn_client_id connection) player w)"


section \<open>Inputs\<close>

fun queue_inputs :: "client_id \<Rightarrow> move_input list \<Rightarrow> u32 \<Rightarrow> world \<Rightarrow> (u32 \<times> world) option" where
  "queue_inputs client [] newest world = Some (newest, world)"
| "queue_inputs client (input # inputs) newest world =
     Option.bind (quantize_input input) (\<lambda>input.
       Option.bind (queue_input client input world) (\<lambda>world.
         queue_inputs client inputs (if mi_sequence input > newest then mi_sequence input else newest) world))"

definition take_ack :: "tick \<Rightarrow> world_player \<Rightarrow> world_player" where
  "take_ack acked player =
     (if acked \<noteq> 0 \<and> acked \<noteq> pl_acked_snapshot_tick player
      then player\<lparr>pl_acked_snapshot_tick := acked, pl_replication := acknowledge acked (pl_replication player)\<rparr> else player)"

definition handle_input :: "connection \<Rightarrow> bytes \<Rightarrow> 'd world_service \<Rightarrow> 'd world_service" where
  "handle_input connection data w =
     (if data = [] \<or> hd data \<noteq> channel_kInput then w
      else case map_of (sv_players w) (cn_client_id connection) of
        None \<Rightarrow> w
      | Some player \<Rightarrow>
          if pl_redirecting player then w
          else case decode_input_packet data (word_of_nat (length data)) of
            None \<Rightarrow> w
          | Some packet \<Rightarrow>
              case queue_inputs (cn_client_id connection) (ip_inputs packet) (pl_last_input_sequence player) (sv_world w) of
                None \<Rightarrow> set_undefined w
              | Some (newest, world) \<Rightarrow>
                  let player = take_ack (ip_acked_snapshot_tick packet) (player\<lparr>pl_last_input_sequence := newest\<rparr>);
                      stats = sv_stats w
                  in w\<lparr>sv_world := world, sv_players := AList.update (cn_client_id connection) player (sv_players w),
                       sv_stats := stats\<lparr>st_inputs_received := st_inputs_received stats + word_of_nat (length (ip_inputs packet))\<rparr>\<rparr>)"

definition world_handlers :: "'d exec \<Rightarrow> 'd world_service handlers" where
  "world_handlers exec = \<lparr>on_admit = Some (admit exec), on_replaced = begin_connect, on_connect = finish_connect exec,
     on_disconnect = handle_leave, on_payload = (\<lambda>c data w. (c, handle_input c data w)), on_message = (\<lambda>c m w. (c, w))\<rparr>"


section \<open>The tick\<close>

type_synonym 'd shard = "'d world_service connection_server"

definition on_service :: "('d world_service \<Rightarrow> 'd world_service) \<Rightarrow> 'd shard \<Rightarrow> 'd shard" where
  "on_service f s = s\<lparr>cs_service := f (cs_service s)\<rparr>"

text \<open>A snapshot for one player, sent through its connection.\<close>

definition snapshot_capacity :: "world_server_config \<Rightarrow> u32" where
  "snapshot_capacity config = min (ic_max_snapshot_bytes (wsc_interest config)) (kMaxDatagramSize - 64 - kSnapshotChannelBytes)"

definition count_snapshot :: "u32 \<Rightarrow> 'd world_service \<Rightarrow> 'd world_service" where
  "count_snapshot n w =
     (let stats = sv_stats w
      in w\<lparr>sv_stats := stats\<lparr>st_snapshots_sent := st_snapshots_sent stats + 1, st_snapshot_bytes := st_snapshot_bytes stats + ucast n\<rparr>\<rparr>)"

definition put_player :: "client_id \<Rightarrow> world_player \<Rightarrow> 'd world_service \<Rightarrow> 'd world_service" where
  "put_player client player w = w\<lparr>sv_players := AList.update client player (sv_players w)\<rparr>"

definition replicate_player :: "(nat \<Rightarrow> (nat \<times> f32) list \<Rightarrow> (nat \<times> f32) list) \<Rightarrow> u64 \<Rightarrow> 'd shard \<Rightarrow> client_id \<Rightarrow> 'd shard" where
  "replicate_player nth_element now s client =
     (let w = cs_service s
      in case (map_of (sv_players w) client, find_client client s) of
           (Some player, Some connection) \<Rightarrow>
             if pl_redirecting player then s
             else (case encode_snapshot nth_element (sv_world w) (pl_entity player) (pl_last_input_sequence player)
                     (drop (unat kSnapshotChannelBytes) (sv_scratch w)) (snapshot_capacity (sv_config w)) (pl_replication player) of
                     None \<Rightarrow> on_service set_undefined s
                   | Some (n, out, replication) \<Rightarrow>
                       let scratch = channel_kSnapshot # out;
                           s = on_service (\<lambda>w. put_player client (player\<lparr>pl_replication := replication\<rparr>) (w\<lparr>sv_scratch := scratch\<rparr>)) s
                       in if n = 0 then s
                          else on_service (count_snapshot n)
                            (snd (send_payload (cn_address connection) (take (unat (n + kSnapshotChannelBytes)) scratch) now s)))
         | _ \<Rightarrow> s)"

definition replicate_all :: "(nat \<Rightarrow> (nat \<times> f32) list \<Rightarrow> (nat \<times> f32) list) \<Rightarrow> u64 \<Rightarrow> 'd shard \<Rightarrow> 'd shard" where
  "replicate_all nth_element now s = foldl (replicate_player nth_element now) s (map fst (sv_players (cs_service s)))"

text \<open>One player of the scan for migrations: the new state, and whether the grace of its redirect is over.\<close>

definition redirect_event :: "handoff_plan \<Rightarrow> bytes" where
  "redirect_event plan =
     (case encode_migrate_redirect \<lparr>mr_ticket = hp_token plan, mr_region = hp_target_region plan, mr_endpoint = hp_target_endpoint plan,
          mr_shard_id = hp_target_shard plan\<rparr> (replicate (unat kMaxReliableMessageSize) 0) kMaxReliableMessageSize of
        (n, buffer) \<Rightarrow> take (unat n) buffer)"

definition mark_redirected :: "client_id \<Rightarrow> world_player \<Rightarrow> 'd world_service \<Rightarrow> 'd world_service" where
  "mark_redirected client player w =
     (let stats = sv_stats w
      in (put_player client (player\<lparr>pl_redirecting := True,
            pl_redirect_deadline := w_tick (sv_world w) + wsc_redirect_grace_ticks (sv_config w)\<rparr>) w)
         \<lparr>sv_stats := stats\<lparr>st_migrations_out := st_migrations_out stats + 1\<rparr>\<rparr>)"

definition start_handoff :: "'d exec \<Rightarrow> client_id \<Rightarrow> world_player \<Rightarrow> vec2 \<Rightarrow> vec2 \<Rightarrow> 'd shard \<Rightarrow> 'd shard" where
  "start_handoff exec client player position velocity s =
     (case read_wall_ms (cs_service s) of (now_ms, w) \<Rightarrow>
        case plan_handoff exec now_ms (pl_player_id player) (pl_region player) position velocity (w_tick (sv_world w))
               (pl_last_input_sequence player) (sv_coordinator w) of
          None \<Rightarrow> s\<lparr>cs_service := set_undefined w\<rparr>
        | Some (plan, c) \<Rightarrow>
            let s = s\<lparr>cs_service := w\<lparr>sv_coordinator := c\<rparr>\<rparr>
            in case (plan, find_client client s) of
                 (Some plan, Some connection) \<Rightarrow>
                   let event = redirect_event plan
                   in if event = [] then s
                      else on_service (mark_redirected client player)
                        (s\<lparr>cs_connections := AList.update (cn_address connection) (send_event event connection) (cs_connections s)\<rparr>)
               | _ \<Rightarrow> s)"

definition check_migration :: "'d exec \<Rightarrow> 'd shard \<Rightarrow> client_id \<Rightarrow> 'd shard" where
  "check_migration exec s client =
     (let w = cs_service s; es = w_entities (sv_world w)
      in case map_of (sv_players w) client of
           None \<Rightarrow> s
         | Some player \<Rightarrow>
             let index = es_find es (pl_entity player)
             in if pl_redirecting player \<or> index < 0 then s
                else let position = es_position es ! nat index; velocity = es_velocity es ! nat index
                     in case handoff_target (wsc_regions (sv_config w)) (pl_region player) (vx position) (vy position) of
                          None \<Rightarrow> on_service set_undefined s
                        | Some target \<Rightarrow>
                            if target = kInvalidRegion then s
                            else if owns_region target (sv_coordinator w)
                            then on_service (put_player client (player\<lparr>pl_region := target\<rparr>)) s
                            else start_handoff exec client player position velocity s)"

definition redirect_expired :: "world \<Rightarrow> world_player \<Rightarrow> bool" where
  "redirect_expired world player \<longleftrightarrow> pl_redirecting player \<and> w_tick world \<ge> pl_redirect_deadline player"

definition expire_redirect :: "'d exec \<Rightarrow> 'd shard \<Rightarrow> client_id \<Rightarrow> 'd shard" where
  "expire_redirect exec s client =
     (case find_client client s of
        Some connection \<Rightarrow> server_disconnect (world_handlers exec) (cn_address connection) ''migrated to another shard'' s
      | None \<Rightarrow>
          (case map_of (sv_players (cs_service s)) client of
             None \<Rightarrow> s
           | Some player \<Rightarrow>
               on_service (\<lambda>w. w\<lparr>sv_world := despawn (pl_entity player) (sv_world w),
                 sv_by_player_id := AList.delete (pl_player_id player) (sv_by_player_id w),
                 sv_players := AList.delete client (sv_players w)\<rparr>) s))"

definition check_migrations :: "'d exec \<Rightarrow> 'd shard \<Rightarrow> 'd shard" where
  "check_migrations exec s =
     (if \<not> wsc_advertise (sv_config (cs_service s)) then s
      else let w = cs_service s;
               expired = map fst (filter (\<lambda>(client, player). redirect_expired (sv_world w) player) (sv_players w));
               s = foldl (check_migration exec) s (map fst (sv_players w))
           in foldl (expire_redirect exec) s expired)"

text \<open>The heartbeat: membership, the presence of the residents in one batch, and what has outlived its time.\<close>

definition expire_ghosts :: "u64 \<Rightarrow> 'd world_service \<Rightarrow> 'd world_service" where
  "expire_ghosts now_ms w = w\<lparr>sv_ghosts := filter (\<lambda>(i, ghost). \<not> gh_expires_ms ghost \<le> now_ms) (sv_ghosts w)\<rparr>"

definition queue_resident :: "u64 \<Rightarrow> 'd world_service \<Rightarrow> world_player \<Rightarrow> 'd world_service" where
  "queue_resident wall w player =
     (if pl_redirecting player then w
      else w\<lparr>sv_coordinator := queue_touch_presence wall (presence_of w player) (sv_coordinator w)\<rparr>)"

definition refresh_presence :: "'d exec \<Rightarrow> u64 \<Rightarrow> 'd world_service \<Rightarrow> 'd world_service" where
  "refresh_presence exec now_ms w =
     (let (wall, w) = read_wall_ms (w\<lparr>sv_last_presence_refresh_ms := now_ms\<rparr>);
          w = foldl (queue_resident wall) w (map snd (sv_players w));
          w = expire_ghosts now_ms (w\<lparr>sv_coordinator := snd (flush_presence exec (sv_coordinator w))\<rparr>)
      in w\<lparr>sv_redeemed_tickets := filter (\<lambda>(token, ticket). \<not> mt_issued_ms ticket + kRedeemedTicketTtlMs < now_ms) (sv_redeemed_tickets w)\<rparr>)"

definition refresh_cluster :: "'d exec \<Rightarrow> bytes \<Rightarrow> 'd world_service \<Rightarrow> 'd world_service" where
  "refresh_cluster exec tick_p99_ms w =
     (if \<not> wsc_advertise (sv_config w) then w
      else let (now_ms, w) = read_wall_ms w;
               (wall, w) = read_wall_ms w;
               w = w\<lparr>sv_coordinator := snd (refresh exec wall now_ms (word_of_nat (length (sv_players w))) tick_p99_ms False (sv_coordinator w))\<rparr>
           in if now_ms - sv_last_presence_refresh_ms w \<ge> kPresenceRefreshMs then refresh_presence exec now_ms w else w)"

definition step_service :: "(f32 \<Rightarrow> f32) \<Rightarrow> (f32 \<Rightarrow> f32) \<Rightarrow> 'd world_service \<Rightarrow> 'd world_service" where
  "step_service cosf sinf w = (case world_step cosf sinf (sv_world w) of None \<Rightarrow> set_undefined w | Some world \<Rightarrow> w\<lparr>sv_world := world\<rparr>)"

definition count_tick :: "'d world_service \<Rightarrow> 'd world_service" where
  "count_tick w = w\<lparr>sv_stats := (sv_stats w)\<lparr>st_ticks := st_ticks (sv_stats w) + 1\<rparr>\<rparr>"

definition world_tick :: "'d exec \<Rightarrow> (f32 \<Rightarrow> f32) \<Rightarrow> (f32 \<Rightarrow> f32) \<Rightarrow> (nat \<Rightarrow> (nat \<times> f32) list \<Rightarrow> (nat \<times> f32) list) \<Rightarrow> bytes \<Rightarrow> u64 \<Rightarrow>
    'd shard \<Rightarrow> 'd shard" where
  "world_tick exec cosf sinf nth_element tick_p99_ms now s =
     (let h = world_handlers exec;
          s = snd (server_receive h now s);
          s = on_service (step_service cosf sinf) s;
          s = replicate_all nth_element now s;
          s = check_migrations exec s;
          s = timeout_connections h now s;
          s = server_flush now s;
          s = on_service (refresh_cluster exec tick_p99_ms) s
      in on_service count_tick s)"

text \<open>The idle time before a tick: the readings of the clock and what has arrived at each.\<close>

definition arrive :: "datagram list \<Rightarrow> nat \<Rightarrow> 'd shard \<Rightarrow> 'd shard" where
  "arrive ds room s = s\<lparr>cs_socket := (cs_socket s)\<lparr>us_kernel_in := us_kernel_in (cs_socket s) @ ds, us_kernel_room := room\<rparr>\<rparr>"

definition drain_until :: "'d exec \<Rightarrow> u64 \<Rightarrow> (u64 \<times> datagram list \<times> nat) list \<Rightarrow> 'd shard \<Rightarrow> 'd shard" where
  "drain_until exec target_us slices s =
     (let s = foldl (\<lambda>s (now, ds, room). snd (server_receive (world_handlers exec) now (arrive ds room s))) s
                (takeWhile (\<lambda>(now, _). now + 1500 < target_us) slices)
      in s\<lparr>cs_socket := flush_sends (cs_socket s)\<rparr>)"

definition resident_player_count :: "'d world_service \<Rightarrow> u32" where
  "resident_player_count w = word_of_nat (length (filter (\<lambda>(client, player). \<not> pl_redirecting player) (sv_players w)))"

definition player_by_id :: "bytes \<Rightarrow> 'd world_service \<Rightarrow> world_player option" where
  "player_by_id player_id w = Option.bind (map_of (sv_by_player_id w) player_id) (map_of (sv_players w))"

section \<open>Starting and stopping\<close>

text \<open>
  What the system gives at the start: whether the socket can be bound and Redis reached, the addresses that were bound, and the
  tokens that the generator of the coordinator draws.
\<close>

record start_environment =
  se_bound :: bool
  se_udp_local :: address
  se_http_local :: address
  se_redis_open :: bool
  se_tokens :: "nat \<Rightarrow> u64"

definition ws_server_config :: "world_server_config \<Rightarrow> server_config" where
  "ws_server_config config =
     \<lparr>sc_bind = wsc_udp_bind config, sc_max_connections = wsc_max_connections config, sc_timeout_us = wsc_connection_timeout_us config,
      sc_keepalive_us = 100000\<rparr>"

definition ws_shard_config :: "start_environment \<Rightarrow> world_server_config \<Rightarrow> shard_config" where
  "ws_shard_config env config =
     \<lparr>sh_id = wsc_shard config,
      sh_udp_endpoint = (if wsc_advertise_udp config = [] then address_to_string (se_udp_local env) else wsc_advertise_udp config),
      sh_http_endpoint = (if wsc_advertise_http config = [] then address_to_string (se_http_local env) else wsc_advertise_http config),
      sh_capacity = wsc_capacity config, sh_heartbeat_ttl_ms = 4000, sh_refresh_interval_ms = 1000, sh_presence_ttl_ms = 15000,
      sh_ticket_ttl_ms = 10000, sh_regions = wsc_regions config\<rparr>"

definition join_cluster :: "'d exec \<Rightarrow> start_environment \<Rightarrow> world_server_config \<Rightarrow> 'd world_service \<Rightarrow> bool \<times> 'd world_service" where
  "join_cluster exec env config w =
     (if wsc_advertise config
      then case read_wall_ms w of (wall, w) \<Rightarrow>
        case coordinator_start exec (se_redis_open env) wall (se_tokens env) (ws_shard_config env config) (wsc_key_prefix config)
               (sv_coordinator w) of (started, c) \<Rightarrow> (started, w\<lparr>sv_coordinator := c\<rparr>)
      else (True, w))"

definition drifter_axis :: "u32 \<Rightarrow> world_params \<Rightarrow> f32" where
  "drifter_axis n params = f_mul (f_div (f_of_int (uint (n mod 1000))) f_thousand) (wp_size params)"

definition drifter_point :: "world_params \<Rightarrow> u32 \<Rightarrow> vec2" where
  "drifter_point params i =
     (let seed = hash_u32 (i * 2654435761 + 17) in vec (drifter_axis seed params) (drifter_axis (drop_bit 10 seed) params))"

definition spawn_drifters :: "world_server_config \<Rightarrow> 'd world_service \<Rightarrow> 'd world_service" where
  "spawn_drifters config w =
     w\<lparr>sv_world := foldl (\<lambda>world i. snd (spawn_drifter (drifter_point (wsc_params config) (word_of_nat i)) world)) (sv_world w)
         [0..<unat (wsc_drifters config)]\<rparr>"

definition configure_service :: "world_server_config \<Rightarrow> 'd world_service \<Rightarrow> 'd world_service" where
  "configure_service config w =
     (let w = w\<lparr>sv_config := config\<rparr>
      in case world_configure (wsc_params config) 64 (sv_world w) of None \<Rightarrow> set_undefined w | Some world \<Rightarrow> w\<lparr>sv_world := world\<rparr>)"

definition world_server_start :: "'d exec \<Rightarrow> start_environment \<Rightarrow> world_server_config \<Rightarrow> 'd shard \<Rightarrow> bool \<times> 'd shard" where
  "world_server_start exec env config s =
     (case server_start (se_bound env) (ws_server_config config) (on_service (configure_service config) s) of
        (False, s) \<Rightarrow> (False, s)
      | (True, s) \<Rightarrow>
          case join_cluster exec env config (cs_service s) of
            (False, w) \<Rightarrow> (False, server_stop (s\<lparr>cs_service := w\<rparr>))
          | (True, w) \<Rightarrow> (True, s\<lparr>cs_service := (spawn_drifters config w)\<lparr>sv_scratch := replicate (unat kMaxDatagramSize) 0\<rparr>\<rparr>))"

definition world_server_stop :: "'d exec \<Rightarrow> 'd shard \<Rightarrow> 'd shard" where
  "world_server_stop exec s =
     (let s = server_stop s
      in if wsc_advertise (sv_config (cs_service s))
         then on_service (\<lambda>w. w\<lparr>sv_coordinator := coordinator_stop exec (sv_coordinator w)\<rparr>) s else s)"

end
