(* ===== verification/World_Server_Invariant.thy ===== *)
theory World_Server_Invariant
  imports World_Server
begin

text \<open>
  The roster of a shard under any traffic: the players, their names and the connections stay in step, a player has one session at
  a time, the capacity is kept, and every connection finds the admission it was granted.
\<close>

section \<open>The invariant\<close>

text \<open>The players and the index by name.\<close>

definition roster_ok :: "(client_id \<rightharpoonup> world_player) \<Rightarrow> (bytes \<rightharpoonup> client_id) \<Rightarrow> bool" where
  "roster_ok players names \<longleftrightarrow>
     (\<forall>n c. names n = Some c \<longleftrightarrow> (\<exists>p. players c = Some p \<and> pl_player_id p = n))"

lemma roster_okD: "roster_ok players names \<Longrightarrow> names n = Some c \<longleftrightarrow> (\<exists>p. players c = Some p \<and> pl_player_id p = n)"
  by (simp add: roster_ok_def)

text \<open>
  The server and its service agree: the clients of the connections are the players and those that are about to enter (\<open>ex\<close>),
  and all of them were numbered by the counter of clients.
\<close>

definition linked :: "client_id set \<Rightarrow> 'd shard \<Rightarrow> bool" where
  "linked ex s \<longleftrightarrow> server_ok s \<and> distinct (map fst (sv_players (cs_service s))) \<and>
     roster_ok (map_of (sv_players (cs_service s))) (map_of (sv_by_player_id (cs_service s))) \<and>
     (\<forall>a c. map_of (cs_connections s) a = Some c \<longrightarrow> map_of (cs_by_client s) (cn_client_id c) = Some a) \<and>
     dom (map_of (cs_by_client s)) = dom (map_of (sv_players (cs_service s))) \<union> ex \<and>
     dom (map_of (sv_players (cs_service s))) \<inter> ex = {} \<and>
     (\<forall>i\<in>dom (map_of (cs_by_client s)). 0 < i \<and> i < sv_next_client (cs_service s)) \<and> \<not> sv_destroyed (cs_service s)"

definition settled :: "'d world_service \<Rightarrow> bool" where
  "settled w \<longleftrightarrow> sv_pending_admits w = [] \<and> sv_pending_by_player w = [] \<and> sv_entering w = None \<and> 0 < sv_next_client w \<and>
     length (sv_players w) \<le> unat (wsc_capacity (sv_config w))"

definition shard_ok :: "'d shard \<Rightarrow> bool" where
  "shard_ok s \<longleftrightarrow> linked {} s \<and> settled (cs_service s)"

lemma roster_remove:
  assumes ok: "roster_ok players names" and c: "players c = Some p"
  shows "roster_ok (players(c := None)) (names(pl_player_id p := None))"
  unfolding roster_ok_def
proof (intro allI)
  fix n d
  have own: "names (pl_player_id p) = Some c" using c roster_okD [OF ok] by blast
  show "(names(pl_player_id p := None)) n = Some d \<longleftrightarrow> (\<exists>q. (players(c := None)) d = Some q \<and> pl_player_id q = n)"
    using roster_okD [OF ok, of n d] own c by (cases "d = c"; cases "n = pl_player_id p") auto
qed

lemma roster_add:
  assumes ok: "roster_ok players names" and c: "players c = None" and n: "names (pl_player_id p) = None"
  shows "roster_ok (players(c \<mapsto> p)) (names(pl_player_id p \<mapsto> c))"
  unfolding roster_ok_def
proof (intro allI)
  fix n' d
  show "(names(pl_player_id p \<mapsto> c)) n' = Some d \<longleftrightarrow> (\<exists>q. (players(c \<mapsto> p)) d = Some q \<and> pl_player_id q = n')"
    using roster_okD [OF ok, of n' d] c n by (cases "d = c"; cases "n' = pl_player_id p") auto
qed


section \<open>Steps that change neither players nor connections\<close>

text \<open>The fields of a service that the invariant reads.\<close>

definition names_of :: "'d world_service \<Rightarrow> (client_id \<times> bytes) list" where
  "names_of w = map (\<lambda>(c, p). (c, pl_player_id p)) (sv_players w)"

definition same_roster :: "'d world_service \<Rightarrow> 'd world_service \<Rightarrow> bool" where
  "same_roster w w' \<longleftrightarrow> names_of w' = names_of w \<and> sv_by_player_id w' = sv_by_player_id w \<and>
     sv_pending_admits w' = sv_pending_admits w \<and> sv_pending_by_player w' = sv_pending_by_player w \<and> sv_entering w' = sv_entering w \<and>
     sv_next_client w' = sv_next_client w \<and> wsc_capacity (sv_config w') = wsc_capacity (sv_config w) \<and> sv_destroyed w' = sv_destroyed w"

lemma same_roster_refl [simp]: "same_roster w w"
  by (simp add: same_roster_def)

lemma same_roster_trans: "same_roster a b \<Longrightarrow> same_roster b c \<Longrightarrow> same_roster a c"
  by (simp add: same_roster_def)

lemma names_of_map: "map_option pl_player_id (map_of (sv_players w) c) = map_of (names_of w) c"
proof -
  have "map_option pl_player_id (map_of xs c) = map_of (map (\<lambda>(c, p). (c, pl_player_id p)) xs) c" for xs :: "(client_id \<times> world_player) list"
    by (induction xs) auto
  then show ?thesis by (simp add: names_of_def)
qed

lemma names_of_keys: "map fst (names_of w) = map fst (sv_players w)" "length (names_of w) = length (sv_players w)"
  by (simp_all add: names_of_def case_prod_beta o_def)

lemma roster_names:
  assumes "\<And>c. map_option pl_player_id (players' c) = map_option pl_player_id (players c)"
  shows "roster_ok players' names = roster_ok players names"
proof -
  have "(\<exists>p. players' c = Some p \<and> pl_player_id p = n) \<longleftrightarrow> (\<exists>p. players c = Some p \<and> pl_player_id p = n)" for c n
    using assms [of c] by (cases "players c"; cases "players' c") auto
  then show ?thesis by (simp add: roster_ok_def)
qed

lemma linked_quiet:
  assumes ok: "linked ex s" and "server_ok s'" and clients: "cs_by_client s' = cs_by_client s"
    and conns: "\<And>a c. map_of (cs_connections s') a = Some c \<Longrightarrow> \<exists>e. map_of (cs_connections s) a = Some e \<and> same_identity e c"
    and same: "same_roster (cs_service s) (cs_service s')"
  shows "linked ex s'"
proof -
  have names: "map_option pl_player_id (map_of (sv_players (cs_service s')) c) = map_option pl_player_id (map_of (sv_players (cs_service s)) c)" for c
    using same by (simp add: names_of_map same_roster_def)
  then have "map_of (sv_players (cs_service s')) c = None \<longleftrightarrow> map_of (sv_players (cs_service s)) c = None" for c
    by (metis map_option_is_None)
  then have "dom (map_of (sv_players (cs_service s'))) = dom (map_of (sv_players (cs_service s)))"
    by (simp add: dom_def del: map_of_eq_None_iff)
  moreover have "distinct (map fst (sv_players (cs_service s')))"
    using ok same names_of_keys(1) unfolding linked_def same_roster_def by metis
  moreover have "map_of (cs_by_client s') (cn_client_id c) = Some a" if c: "map_of (cs_connections s') a = Some c" for a c
  proof -
    obtain e where "map_of (cs_connections s) a = Some e" "same_identity e c" using conns [OF c] by blast
    with ok show ?thesis unfolding linked_def clients same_identity_def by metis
  qed
  ultimately show ?thesis
    using ok assms(2) same roster_names [OF names] by (simp add: linked_def clients same_roster_def)
qed

lemma settled_quiet: "settled w \<Longrightarrow> same_roster w w' \<Longrightarrow> settled w'"
  using names_of_keys(2) unfolding settled_def same_roster_def by metis

lemma shard_ok_quiet:
  assumes "shard_ok s" and "server_ok s'" and "cs_by_client s' = cs_by_client s"
    and "\<And>a c. map_of (cs_connections s') a = Some c \<Longrightarrow> \<exists>e. map_of (cs_connections s) a = Some e \<and> same_identity e c"
    and "same_roster (cs_service s) (cs_service s')"
  shows "shard_ok s'"
  using assms linked_quiet settled_quiet unfolding shard_ok_def by blast

lemma shard_ok_server: "shard_ok s \<Longrightarrow> server_ok s"
  by (simp add: shard_ok_def linked_def)

lemma shard_ok_service:
  assumes "shard_ok s" and "same_roster (cs_service s) w"
  shows "shard_ok (s\<lparr>cs_service := w\<rparr>)"
proof (rule shard_ok_quiet [OF assms(1)])
  show "server_ok (s\<lparr>cs_service := w\<rparr>)" using shard_ok_server [OF assms(1)] by (simp add: server_ok_def)
qed (use assms(2) in auto)

lemma shard_ok_touch:
  assumes "shard_ok s" and "map_of (cs_connections s) a = Some c" and "same_identity c d"
    and "cs_connections s' = AList.update a d (cs_connections s)" "cs_pending s' = cs_pending s" "cs_by_client s' = cs_by_client s"
    and "same_roster (cs_service s) (cs_service s')"
  shows "shard_ok s'"
proof (rule shard_ok_quiet [OF assms(1) _ assms(6) _ assms(7)])
  show "server_ok s'" by (rule server_ok_touch [OF shard_ok_server [OF assms(1)] assms(2-6)])
  show "\<exists>e. map_of (cs_connections s) b = Some e \<and> same_identity e k" if "map_of (cs_connections s') b = Some k" for b k
    using that assms(2-4) by (cases "b = a") (auto simp: update_conv' simp del: map_of_eq_Some_iff)
qed


section \<open>The handlers\<close>

lemma read_wall_roster: "read_wall_ms w = (t, w') \<Longrightarrow> same_roster w w'"
  by (auto simp: read_wall_ms_def same_roster_def names_of_def)

lemma undefined_roster [simp]: "same_roster w (set_undefined w)"
  by (simp add: set_undefined_def same_roster_def names_of_def)

lemma refuse_roster: "refuse reason w = (d, w') \<Longrightarrow> same_roster w w' \<and> \<not> ad_admit d"
  by (auto simp: refuse_def same_roster_def names_of_def)

lemma check_credential_roster: "check_credential exec credential w = (r, w') \<Longrightarrow> same_roster w w'"
  by (auto simp: check_credential_def find_ticket_def same_roster_def names_of_def Let_def split: if_splits option.splits prod.splits)

text \<open>An admission is for the next client, with room for it.\<close>

lemma admit_cases:
  assumes "settled w" and "admit exec a token w = (d, w')"
  obtains (refused) "\<not> ad_admit d" and "same_roster w w'"
  | (admitted) x v where "ad_admit d" and "ad_client_id d = sv_next_client w" and "same_roster w v"
      and "length (sv_players w) < unat (wsc_capacity (sv_config w))"
      and "w' = v\<lparr>sv_next_client := sv_next_client w + 1, sv_pending_admits := [(sv_next_client w, x)],
             sv_pending_by_player := [(cc_player_id (pa_credential x), sv_next_client w)]\<rparr>"
proof (cases "decode_credential token")
  case None
  with assms(2) refused show thesis by (auto simp: admit_def dest: refuse_roster)
next
  case (Some credential)
  obtain now w1 where now: "read_wall_ms w = (now, w1)" by (rule prod.exhaust)
  note w1 = read_wall_roster [OF now]
  have "sv_pending_by_player w1 = []" using assms(1) w1 by (simp add: settled_def same_roster_def)
  with Some now assms(2) have run: "admit_new exec credential now w1 = (d, w')" by (simp add: admit_def)
  show thesis
  proof (cases "unat (wsc_capacity (sv_config w1)) \<le> length (sv_players w1)")
    case True
    with run have "refuse kServerFull w1 = (d, w')" by (simp add: admit_new_def)
    with refused w1 show thesis by (auto dest: refuse_roster intro: same_roster_trans)
  next
    case False
    obtain r v where r: "check_credential exec credential w1 = (r, v)" by (rule prod.exhaust)
    have v: "same_roster w v" using w1 check_credential_roster [OF r] by (rule same_roster_trans)
    show thesis
    proof (cases r)
      case (Inl reason)
      with run r False have "refuse reason v = (d, w')" by (simp add: admit_new_def)
      with refused v show thesis by (auto dest: refuse_roster intro: same_roster_trans)
    next
      case (Inr tr)
      obtain ticket region where tr: "tr = (ticket, region)" by (rule prod.exhaust)
      have len: "length (sv_players w) < unat (wsc_capacity (sv_config w))"
        using False w1 names_of_keys(2) [of w] names_of_keys(2) [of w1] by (simp add: same_roster_def)
      have pend: "sv_pending_admits v = []" "sv_pending_by_player v = []" "sv_next_client v = sv_next_client w"
        using assms(1) v by (simp_all add: settled_def same_roster_def)
      let ?x = "\<lparr>pa_client = sv_next_client w, pa_credential = credential, pa_ticket = ticket, pa_region = admitted_region region v,
        pa_expires_ms = now + kPendingAdmitTtlMs\<rparr>"
      show thesis
        using run r False Inr tr pend len v by (intro admitted [of v ?x]) (auto simp: admit_new_def Let_def)
    qed
  qed
qed

lemma leave_ghost_roster [simp]: "same_roster w (leave_ghost p w)" "sv_players (leave_ghost p w) = sv_players w" "sv_config (leave_ghost p w) = sv_config w"
  by (simp_all add: leave_ghost_def read_wall_ms_def same_roster_def names_of_def Let_def)

text \<open>A player that leaves is taken out of both tables.\<close>

lemma handle_leave_tables:
  assumes "map_of (sv_players w) (cn_client_id c) = Some p" and "map_of (sv_by_player_id w) (pl_player_id p) = Some (cn_client_id c)"
  shows "sv_players (handle_leave c reason w) = AList.delete (cn_client_id c) (sv_players w)"
    and "sv_by_player_id (handle_leave c reason w) = AList.delete (pl_player_id p) (sv_by_player_id w)"
    and "sv_pending_admits (handle_leave c reason w) = sv_pending_admits w" "sv_pending_by_player (handle_leave c reason w) = sv_pending_by_player w"
      "sv_entering (handle_leave c reason w) = sv_entering w" "sv_next_client (handle_leave c reason w) = sv_next_client w"
      "sv_config (handle_leave c reason w) = sv_config w" "sv_destroyed (handle_leave c reason w) = sv_destroyed w"
proof -
  let ?w = "if pl_redirecting p then w else let w = leave_ghost p w in w\<lparr>sv_stats := (sv_stats w)\<lparr>st_timeouts := st_timeouts (sv_stats w) + 1\<rparr>\<rparr>"
  have run: "handle_leave c reason w = drop_player (cn_client_id c) p ?w" using assms(1) by (simp add: handle_leave_def Let_def)
  have same: "same_roster w ?w" "sv_players ?w = sv_players w" "sv_config ?w = sv_config w"
    using leave_ghost_roster(1) [of w p] by (auto simp: same_roster_def names_of_def Let_def)
  then show "sv_players (handle_leave c reason w) = AList.delete (cn_client_id c) (sv_players w)"
    and "sv_by_player_id (handle_leave c reason w) = AList.delete (pl_player_id p) (sv_by_player_id w)"
    and "sv_pending_admits (handle_leave c reason w) = sv_pending_admits w" "sv_pending_by_player (handle_leave c reason w) = sv_pending_by_player w"
      "sv_entering (handle_leave c reason w) = sv_entering w" "sv_next_client (handle_leave c reason w) = sv_next_client w"
      "sv_config (handle_leave c reason w) = sv_config w" "sv_destroyed (handle_leave c reason w) = sv_destroyed w"
    using assms(2) unfolding run drop_player_def same_roster_def by simp_all
qed

lemma handlers_world:
  "on_admit (world_handlers exec) = Some (admit exec)" "on_replaced (world_handlers exec) = begin_connect"
  "on_connect (world_handlers exec) = finish_connect exec" "on_disconnect (world_handlers exec) = handle_leave"
  "on_payload (world_handlers exec) c data w = (c, handle_input c data w)" "on_message (world_handlers exec) c m w = (c, w)"
  by (simp_all add: world_handlers_def)

lemma finish_connect_identity: "same_identity c (fst (finish_connect exec c w))"
  by (simp add: finish_connect_def send_event_def same_identity_def Let_def split: option.split prod.split)

lemma begin_connect_other: "fst (begin_connect c w) = Some r \<Longrightarrow> fst r \<noteq> cn_client_id c"
  by (auto simp: begin_connect_def Let_def split: option.splits if_splits)

lemma world_handlers_ok: "handlers_ok (world_handlers exec)"
  unfolding handlers_ok_def handlers_world fst_conv
  by (intro conjI allI impI; (rule finish_connect_identity same_identity_refl | erule begin_connect_other))


section \<open>Leaving\<close>

lemma linkedD:
  assumes "linked ex s"
  shows "server_ok s" and "distinct (map fst (sv_players (cs_service s)))"
    and "roster_ok (map_of (sv_players (cs_service s))) (map_of (sv_by_player_id (cs_service s)))"
    and "map_of (cs_connections s) a = Some c \<Longrightarrow> map_of (cs_by_client s) (cn_client_id c) = Some a"
    and "dom (map_of (cs_by_client s)) = dom (map_of (sv_players (cs_service s))) \<union> ex"
    and "dom (map_of (sv_players (cs_service s))) \<inter> ex = {}"
    and "i \<in> dom (map_of (cs_by_client s)) \<Longrightarrow> 0 < i \<and> i < sv_next_client (cs_service s)"
    and "\<not> sv_destroyed (cs_service s)"
  using assms unfolding linked_def by auto

lemma remove_linked:
  assumes ok: "linked ex s" and c: "map_of (cs_connections s) a = Some c" and ex: "cn_client_id c \<notin> ex"
  shows "linked ex (remove_connection (world_handlers exec) a reason s)"
    and "length (sv_players (cs_service (remove_connection (world_handlers exec) a reason s))) \<le> length (sv_players (cs_service s))"
    and "sv_pending_admits (cs_service (remove_connection (world_handlers exec) a reason s)) = sv_pending_admits (cs_service s)"
      "sv_pending_by_player (cs_service (remove_connection (world_handlers exec) a reason s)) = sv_pending_by_player (cs_service s)"
      "sv_entering (cs_service (remove_connection (world_handlers exec) a reason s)) = sv_entering (cs_service s)"
      "sv_next_client (cs_service (remove_connection (world_handlers exec) a reason s)) = sv_next_client (cs_service s)"
      "sv_config (cs_service (remove_connection (world_handlers exec) a reason s)) = sv_config (cs_service s)"
    and "map_of (sv_players (cs_service (remove_connection (world_handlers exec) a reason s))) = (map_of (sv_players (cs_service s)))(cn_client_id c := None)"
    and "map_of (sv_players (cs_service s)) (cn_client_id c) = Some p \<Longrightarrow>
      map_of (sv_by_player_id (cs_service (remove_connection (world_handlers exec) a reason s))) = (map_of (sv_by_player_id (cs_service s)))(pl_player_id p := None)"
proof -
  let ?s = "remove_connection (world_handlers exec) a reason s" and ?i = "cn_client_id c" and ?w = "cs_service s"
  have "?i \<in> dom (map_of (cs_by_client s))" using linkedD(4) [OF ok c] by (simp add: domIff)
  with linkedD(5) [OF ok] ex obtain q where q: "map_of (sv_players ?w) ?i = Some q" by blast
  have n: "map_of (sv_by_player_id ?w) (pl_player_id q) = Some ?i" using roster_okD [OF linkedD(3) [OF ok]] q by blast
  note leave = handle_leave_tables [OF q n, of reason]
  have run: "cs_service ?s = handle_leave c reason ?w" "cs_by_client ?s = AList.delete ?i (cs_by_client s)"
      "cs_connections ?s = AList.delete a (cs_connections s)"
    using c by (simp_all add: remove_connection_def handlers_world del: map_of_eq_Some_iff)
  show players: "map_of (sv_players (cs_service ?s)) = (map_of (sv_players ?w))(?i := None)" by (simp add: run leave delete_conv')
  show "map_of (sv_by_player_id (cs_service ?s)) = (map_of (sv_by_player_id ?w))(pl_player_id p := None)"
    if "map_of (sv_players ?w) ?i = Some p" using that q by (simp add: run leave delete_conv' del: map_of_eq_Some_iff)
  show "length (sv_players (cs_service ?s)) \<le> length (sv_players ?w)" by (simp add: run leave length_delete_le)
  show "sv_pending_admits (cs_service ?s) = sv_pending_admits ?w" "sv_pending_by_player (cs_service ?s) = sv_pending_by_player ?w"
      "sv_entering (cs_service ?s) = sv_entering ?w" "sv_next_client (cs_service ?s) = sv_next_client ?w" "sv_config (cs_service ?s) = sv_config ?w"
    by (simp_all add: run leave)
  have clients: "map_of (cs_by_client ?s) = (map_of (cs_by_client s))(?i := None)" by (simp add: run delete_conv')
  show "linked ex ?s"
    unfolding linked_def
  proof (intro conjI allI impI)
    show "server_ok ?s" by (rule remove_ok [OF linkedD(1) [OF ok]])
    show "distinct (map fst (sv_players (cs_service ?s)))" using linkedD(2) [OF ok] by (simp add: run leave distinct_delete)
    show "roster_ok (map_of (sv_players (cs_service ?s))) (map_of (sv_by_player_id (cs_service ?s)))"
      using roster_remove [OF linkedD(3) [OF ok] q] by (simp add: run leave delete_conv')
    show "map_of (cs_by_client ?s) (cn_client_id e) = Some b" if e: "map_of (cs_connections ?s) b = Some e" for b e
    proof -
      have b: "b \<noteq> a" "map_of (cs_connections s) b = Some e" using e by (auto simp: run delete_conv' simp del: map_of_eq_Some_iff split: if_splits)
      have "map_of (cs_by_client s) (cn_client_id e) = Some b" by (rule linkedD(4) [OF ok b(2)])
      moreover have "cn_client_id e \<noteq> ?i" using linkedD(4) [OF ok b(2)] linkedD(4) [OF ok c] b(1) by auto
      ultimately show ?thesis by (simp add: clients)
    qed
    show "dom (map_of (cs_by_client ?s)) = dom (map_of (sv_players (cs_service ?s))) \<union> ex"
      unfolding clients players using linkedD(5) [OF ok] ex by auto
    show "dom (map_of (sv_players (cs_service ?s))) \<inter> ex = {}" unfolding players using linkedD(6) [OF ok] by auto
    show "\<forall>i\<in>dom (map_of (cs_by_client ?s)). 0 < i \<and> i < sv_next_client (cs_service ?s)"
    proof
      fix i assume "i \<in> dom (map_of (cs_by_client ?s))"
      then have "i \<in> dom (map_of (cs_by_client s))" unfolding clients by (simp split: if_splits)
      then show "0 < i \<and> i < sv_next_client (cs_service ?s)" unfolding run leave by (rule linkedD(7) [OF ok])
    qed
    show "\<not> sv_destroyed (cs_service ?s)" unfolding run leave by (rule linkedD(8) [OF ok])
  qed
qed

lemma remove_shard_ok: "shard_ok s \<Longrightarrow> shard_ok (remove_connection (world_handlers exec) a reason s)"
proof (cases "map_of (cs_connections s) a")
  case None
  then show "shard_ok s \<Longrightarrow> shard_ok (remove_connection (world_handlers exec) a reason s)" by (simp add: remove_connection_def)
next
  case (Some c)
  assume "shard_ok s"
  then have ok: "linked {} s" "settled (cs_service s)" by (simp_all add: shard_ok_def)
  note r = remove_linked [OF ok(1) Some, where exec = exec and reason = reason]
  show ?thesis using r(1-7) ok(2) by (simp add: shard_ok_def settled_def)
qed


section \<open>Joining\<close>

lemma entry_point_roster: "entry_point x k w = (r, w') \<Longrightarrow> same_roster w w' \<and> sv_players w' = sv_players w \<and> sv_config w' = sv_config w"
  by (auto simp: entry_point_def read_wall_ms_def same_roster_def names_of_def Let_def split: option.splits if_splits)

lemma announce_roster: "same_roster w (announce exec p w) \<and> sv_players (announce exec p w) = sv_players w \<and> sv_config (announce exec p w) = sv_config w"
  by (simp add: announce_def read_wall_ms_def same_roster_def names_of_def)

text \<open>The rest of the connect handler adds one player under the name of its credential.\<close>

lemma finish_connect_tables:
  assumes x: "sv_entering w = Some x" and new: "map_of (sv_players w) (cn_client_id c) = None"
  obtains p where "sv_players (snd (finish_connect exec c w)) = sv_players w @ [(cn_client_id c, p)]"
    and "pl_player_id p = cc_player_id (pa_credential x)"
    and "sv_by_player_id (snd (finish_connect exec c w)) = AList.update (cc_player_id (pa_credential x)) (cn_client_id c) (sv_by_player_id w)"
    and "sv_entering (snd (finish_connect exec c w)) = None" and "sv_pending_admits (snd (finish_connect exec c w)) = sv_pending_admits w"
    and "sv_pending_by_player (snd (finish_connect exec c w)) = sv_pending_by_player w"
    and "sv_next_client (snd (finish_connect exec c w)) = sv_next_client w" and "sv_config (snd (finish_connect exec c w)) = sv_config w"
    and "sv_destroyed (snd (finish_connect exec c w)) = sv_destroyed w"
proof -
  let ?k = "cn_client_id c"
  obtain position velocity newest region w1 where e: "entry_point x ?k (w\<lparr>sv_entering := None\<rparr>) = ((position, velocity, newest, region), w1)"
    by (metis prod.exhaust)
  note w1 = entry_point_roster [OF e]
  obtain entity world where sp: "spawn_player ?k position (sv_world w1) = (entity, world)" by (rule prod.exhaust)
  define p where "p = new_player x ?k entity region newest (sv_config w1)"
  define w2 where "w2 = w1\<lparr>sv_world := adopt_entity entity ?k position velocity newest world,
     sv_by_player_id := AList.update (pl_player_id p) ?k (sv_by_player_id w1), sv_players := sv_players w1 @ [(?k, p)]\<rparr>"
  have look: "map_of (sv_players w1) ?k = None" "map_of (sv_players w1 @ [(?k, p)]) ?k = Some p"
    using new w1 by (simp_all add: map_add_def del: map_of_eq_None_iff map_of_eq_Some_iff)
  have run: "snd (finish_connect exec c w) = announce exec p w2"
    unfolding finish_connect_def x option.case Let_def e prod.case sp p_def [symmetric] w2_def
    using look(1) by (simp add: map_add_def del: map_of_eq_None_iff)
  have p: "pl_player_id p = cc_player_id (pa_credential x)" by (simp add: p_def new_player_def)
  have w2: "sv_players w2 = sv_players w @ [(?k, p)]" "sv_by_player_id w2 = AList.update (pl_player_id p) ?k (sv_by_player_id w)"
    "sv_entering w2 = None" "sv_pending_admits w2 = sv_pending_admits w" "sv_pending_by_player w2 = sv_pending_by_player w"
    "sv_next_client w2 = sv_next_client w" "sv_config w2 = sv_config w" "sv_destroyed w2 = sv_destroyed w"
    using w1 by (simp_all add: w2_def same_roster_def)
  show thesis
    by (rule that [of p]) (use announce_roster [of w2 exec p] w2 p in \<open>simp_all add: run same_roster_def\<close>)
qed

text \<open>What the messages of a closed connection change.\<close>

lemma linked_send [simp]: "linked ex (server_send to data s) = linked ex s"
  by (simp add: linked_def server_ok_def)

text \<open>
  A service that is about to let client \<open>k\<close> in under the name of \<open>x\<close>: after closing a session of the same player the name is free.
\<close>

lemma close_session:
  assumes ok: "linked {k} s" and c: "map_of (cs_connections s) a = Some c" "cn_client_id c = k"
    and stale: "replaced = (case map_of (sv_by_player_id (cs_service s)) name of None \<Rightarrow> None | Some i \<Rightarrow> if i \<noteq> k then Some (i, reason) else None)"
    and s': "s' = (case replaced of None \<Rightarrow> s | Some r \<Rightarrow> close_client (world_handlers exec) r s)"
  shows "linked {k} s'" and "map_of (cs_connections s') a = Some c" and "map_of (sv_by_player_id (cs_service s')) name = None"
    and "map_of (sv_players (cs_service s')) k = None"
    and "length (sv_players (cs_service s')) \<le> length (sv_players (cs_service s))"
    and "sv_pending_admits (cs_service s') = sv_pending_admits (cs_service s)"
      "sv_pending_by_player (cs_service s') = sv_pending_by_player (cs_service s)" "sv_entering (cs_service s') = sv_entering (cs_service s)"
      "sv_next_client (cs_service s') = sv_next_client (cs_service s)" "sv_config (cs_service s') = sv_config (cs_service s)"
proof -
  have out: "map_of (sv_players (cs_service s)) k = None" using linkedD(6) [OF ok] by auto
  have "linked {k} s' \<and> map_of (cs_connections s') a = Some c \<and> map_of (sv_by_player_id (cs_service s')) name = None \<and>
    map_of (sv_players (cs_service s')) k = None \<and> length (sv_players (cs_service s')) \<le> length (sv_players (cs_service s)) \<and>
    sv_pending_admits (cs_service s') = sv_pending_admits (cs_service s) \<and>
    sv_pending_by_player (cs_service s') = sv_pending_by_player (cs_service s) \<and> sv_entering (cs_service s') = sv_entering (cs_service s) \<and>
    sv_next_client (cs_service s') = sv_next_client (cs_service s) \<and> sv_config (cs_service s') = sv_config (cs_service s)"
  proof (cases "map_of (sv_by_player_id (cs_service s)) name")
    case None
    then have "s' = s" using stale s' by simp
    then show ?thesis using ok c None out by simp
  next
    case (Some i)
    then obtain p where p: "map_of (sv_players (cs_service s)) i = Some p" "pl_player_id p = name"
      using roster_okD [OF linkedD(3) [OF ok]] by blast
    with out have i: "i \<noteq> k" by auto
    have "i \<in> dom (map_of (cs_by_client s))" using p linkedD(5) [OF ok] by blast
    then obtain b where b: "map_of (cs_by_client s) i = Some b" by blast
    have t: "tables_ok (map_of (cs_connections s)) (map_of (cs_pending s)) (map_of (cs_by_client s))"
      using linkedD(1) [OF ok] by (simp add: server_ok_def)
    obtain e where e: "map_of (cs_connections s) b = Some e" "cn_client_id e = i" using tables_okD(2) [OF t b] by blast
    have eb: "cn_address e = b" by (rule tables_okD(1) [OF t e(1)])
    let ?send = "server_send b (disconnect_packet (cn_salt e) 32)"
    let ?t = "?send (?send (?send s))"
    have run: "s' = remove_connection (world_handlers exec) b reason ?t"
      using stale s' Some i b e eb by (simp add: close_client_def find_client_def server_disconnect_def Let_def del: map_of_eq_Some_iff)
    have ok': "linked {k} ?t" using ok by simp
    have e': "map_of (cs_connections ?t) b = Some e" using e by simp
    have ex: "cn_client_id e \<notin> {k}" using i e by simp
    note r = remove_linked [OF ok' e' ex, where exec = exec and reason = reason, folded run]
    have "b \<noteq> a" using e c i by auto
    then have "map_of (cs_connections s') a = Some c"
      using e' c by (simp add: run remove_connection_def delete_conv' del: map_of_eq_Some_iff)
    moreover have "map_of (sv_by_player_id (cs_service s')) name = None" using r(9) [of p] p e(2) by simp
    moreover have "map_of (sv_players (cs_service s')) k = None" using r(8) out by simp
    ultimately show ?thesis using r(1-7) by simp
  qed
  then show "linked {k} s'" and "map_of (cs_connections s') a = Some c" and "map_of (sv_by_player_id (cs_service s')) name = None"
    and "map_of (sv_players (cs_service s')) k = None"
    and "length (sv_players (cs_service s')) \<le> length (sv_players (cs_service s))"
    and "sv_pending_admits (cs_service s') = sv_pending_admits (cs_service s)"
      "sv_pending_by_player (cs_service s') = sv_pending_by_player (cs_service s)" "sv_entering (cs_service s') = sv_entering (cs_service s)"
      "sv_next_client (cs_service s') = sv_next_client (cs_service s)" "sv_config (cs_service s') = sv_config (cs_service s)"
    by blast+
qed


text \<open>The server with the new connection of client \<open>k\<close>, the next one, which is not a player yet.\<close>

lemma enter_linked:
  assumes lk: "linked {} s" and a: "map_of (cs_connections s) a = None" and k: "k = sv_next_client (cs_service s)" "0 < k" "k < k + 1"
    and same: "names_of (cs_service s') = names_of (cs_service s)" "sv_by_player_id (cs_service s') = sv_by_player_id (cs_service s)"
      "sv_next_client (cs_service s') = k + 1" "sv_destroyed (cs_service s') = sv_destroyed (cs_service s)"
    and c: "cn_address c = a" "cn_client_id c = k" "cs_connections s' = AList.update a c (cs_connections s)"
      "cs_pending s' = AList.delete a (cs_pending s)" "cs_by_client s' = AList.update k a (cs_by_client s)"
  shows "linked {k} s'"
  unfolding linked_def
proof (intro conjI allI impI)
  have clients: "map_of (cs_by_client s') = (map_of (cs_by_client s))(k \<mapsto> a)" by (simp add: c update_conv')
  have old: "i \<noteq> k \<and> 0 < i \<and> i < k + 1" if "i \<in> dom (map_of (cs_by_client s))" for i
    using linkedD(7) [OF lk that] k by (auto intro: less_trans)
  have players: "map_option pl_player_id (map_of (sv_players (cs_service s')) i) = map_option pl_player_id (map_of (sv_players (cs_service s)) i)" for i
    using same by (simp add: names_of_map)
  have "map_of (sv_players (cs_service s')) i = None \<longleftrightarrow> map_of (sv_players (cs_service s)) i = None" for i
    using players [of i] by (metis map_option_is_None)
  then have domp: "dom (map_of (sv_players (cs_service s'))) = dom (map_of (sv_players (cs_service s)))"
    by (simp add: dom_def del: map_of_eq_None_iff)
  show "server_ok s'" using established_ok [OF linkedD(1) [OF lk] a c(1,3,4)] c(2,5) by simp
  show "distinct (map fst (sv_players (cs_service s')))" using linkedD(2) [OF lk] same(1) names_of_keys(1) by metis
  show "roster_ok (map_of (sv_players (cs_service s'))) (map_of (sv_by_player_id (cs_service s')))"
    using linkedD(3) [OF lk] roster_names [OF players] same(2) by simp
  show "map_of (cs_by_client s') (cn_client_id e) = Some b" if e: "map_of (cs_connections s') b = Some e" for b e
  proof (cases "b = a")
    case True
    then show ?thesis using e c(2,3) by (simp add: clients update_conv' del: map_of_eq_Some_iff)
  next
    case False
    then have "map_of (cs_connections s) b = Some e" using e c(3) by (simp add: update_conv' del: map_of_eq_Some_iff)
    then have "map_of (cs_by_client s) (cn_client_id e) = Some b" by (rule linkedD(4) [OF lk])
    then show ?thesis using old [of "cn_client_id e"] by (auto simp: clients simp del: map_of_eq_Some_iff)
  qed
  show "dom (map_of (cs_by_client s')) = dom (map_of (sv_players (cs_service s'))) \<union> {k}"
    unfolding clients using linkedD(5) [OF lk] domp by simp
  show "dom (map_of (sv_players (cs_service s'))) \<inter> {k} = {}" using linkedD(5) [OF lk] domp old by auto
  show "\<forall>i\<in>dom (map_of (cs_by_client s')). 0 < i \<and> i < sv_next_client (cs_service s')"
    unfolding clients same using old k by (auto simp del: map_of_eq_Some_iff)
  show "\<not> sv_destroyed (cs_service s')" using linkedD(8) [OF lk] same(4) by simp
qed

text \<open>The same server once the player is entered.\<close>

lemma entered_linked:
  assumes ok: "linked {k} s" and own: "map_of (cs_connections s) a = Some c" "same_identity c e"
    and free: "map_of (sv_by_player_id (cs_service s)) (pl_player_id p) = None"
    and w: "sv_players w = sv_players (cs_service s) @ [(k, p)]" "sv_by_player_id w = AList.update (pl_player_id p) k (sv_by_player_id (cs_service s))"
      "sv_next_client w = sv_next_client (cs_service s)" "sv_destroyed w = sv_destroyed (cs_service s)"
    and s': "s' = s\<lparr>cs_connections := AList.update a e (cs_connections s), cs_service := w\<rparr>"
  shows "linked {} s'"
  unfolding linked_def
proof (intro conjI allI impI)
  have out: "map_of (sv_players (cs_service s)) k = None" using linkedD(6) [OF ok] by auto
  have names: "map_of (sv_players w) = (map_of (sv_players (cs_service s)))(k \<mapsto> p)"
    using out by (auto simp: w map_add_def fun_eq_iff simp del: map_of_eq_None_iff split: option.split)
  show "server_ok s'" by (rule server_ok_touch [OF linkedD(1) [OF ok] own]) (simp_all add: s')
  show "distinct (map fst (sv_players (cs_service s')))"
    using linkedD(2) [OF ok] out map_of_eq_None_iff [of "sv_players (cs_service s)" k] by (simp add: s' w)
  show "roster_ok (map_of (sv_players (cs_service s'))) (map_of (sv_by_player_id (cs_service s')))"
    using roster_add [OF linkedD(3) [OF ok] out free] by (simp add: s' names w(2) update_conv')
  show "map_of (cs_by_client s') (cn_client_id f) = Some b" if f: "map_of (cs_connections s') b = Some f" for b f
  proof (cases "b = a")
    case True
    then have "cn_client_id f = cn_client_id c" using f own(2) by (simp add: s' update_conv' same_identity_def del: map_of_eq_Some_iff)
    then show ?thesis using linkedD(4) [OF ok own(1)] True by (simp add: s')
  next
    case False
    then have "map_of (cs_connections s) b = Some f" using f by (simp add: s' update_conv' del: map_of_eq_Some_iff)
    then show ?thesis using linkedD(4) [OF ok] by (simp add: s')
  qed
  show "dom (map_of (cs_by_client s')) = dom (map_of (sv_players (cs_service s'))) \<union> {}"
    using linkedD(5) [OF ok] by (simp add: s' names)
  show "\<forall>i\<in>dom (map_of (cs_by_client s')). 0 < i \<and> i < sv_next_client (cs_service s')"
    using linkedD(7) [OF ok] by (simp add: s' w)
  show "\<not> sv_destroyed (cs_service s')" using linkedD(8) [OF ok] by (simp add: s' w)
qed simp

lemma join_ok:
  assumes ok: "shard_ok s" and a: "map_of (cs_connections s) a = None" and adm: "admit exec a token (cs_service s) = (d, w)" "ad_admit d"
    and room: "sv_next_client (cs_service s) + 1 \<noteq> 0"
    and t: "cs_connections t = cs_connections s" "cs_pending t = cs_pending s" "cs_by_client t = cs_by_client s" "cs_service t = w"
  shows "shard_ok (establish (world_handlers exec) a salt token' (ad_client_id d) now t)"
    and "sv_next_client (cs_service (establish (world_handlers exec) a salt token' (ad_client_id d) now t)) = sv_next_client (cs_service s) + 1"
proof -
  let ?w = "cs_service s" and ?h = "world_handlers exec"
  have lk: "linked {} s" and st: "settled ?w" using ok by (simp_all add: shard_ok_def)
  obtain x v where k: "ad_client_id d = sv_next_client ?w" and v: "same_roster ?w v" and len: "length (sv_players ?w) < unat (wsc_capacity (sv_config ?w))"
    and w: "w = v\<lparr>sv_next_client := sv_next_client ?w + 1, sv_pending_admits := [(sv_next_client ?w, x)],
             sv_pending_by_player := [(cc_player_id (pa_credential x), sv_next_client ?w)]\<rparr>"
    by (rule admit_cases [OF st adm(1)]) (use adm(2) in blast)+
  let ?k = "sv_next_client ?w" and ?name = "cc_player_id (pa_credential x)"
  have k0: "0 < ?k" "ad_client_id d \<noteq> 0" using st k by (auto simp: settled_def)
  have kk: "?k < ?k + 1" using room by unat_arith
  obtain c s1 where c': "establish ?h a salt token' (ad_client_id d) now t = greet ?h c s1" "cn_address c = a"
      "cs_connections s1 = AList.update a c (cs_connections t)" "cs_pending s1 = AList.delete a (cs_pending t)"
      "cs_by_client s1 = AList.update (cn_client_id c) a (cs_by_client t)" "cn_client_id c = ad_client_id d" "cs_service s1 = cs_service t"
    by (rule establish_run [of ?h a salt token' "ad_client_id d" now t]) (use k0 in blast)
  note c = c'(1,2) c'(3,4) [unfolded t] c'(5) [unfolded t c'(6) k] c'(6) [unfolded k] c'(7) [unfolded t]
  define w2 where "w2 = w\<lparr>sv_pending_admits := [], sv_pending_by_player := [], sv_entering := Some x\<rparr>"
  define s2 where "s2 = s1\<lparr>cs_service := w2\<rparr>"
  have w2: "names_of w2 = names_of ?w" "sv_by_player_id w2 = sv_by_player_id ?w" "sv_next_client w2 = ?k + 1"
      "wsc_capacity (sv_config w2) = wsc_capacity (sv_config ?w)" "sv_entering w2 = Some x" "sv_pending_admits w2 = []"
      "sv_pending_by_player w2 = []" "sv_destroyed w2 = sv_destroyed ?w"
    using v by (simp_all add: w2_def w same_roster_def names_of_def)
  define replaced where "replaced = (case map_of (sv_by_player_id (cs_service s2)) ?name of None \<Rightarrow> None
      | Some i \<Rightarrow> if i \<noteq> ?k then Some (i, ''replaced by a newer session'') else None)"
  have begin_connect: "begin_connect c w = (replaced, w2)"
    using v unfolding begin_connect_def c(6) w2_def replaced_def s2_def by (simp add: w same_roster_def Let_def)
  have lk2: "linked {?k} s2" by (rule enter_linked [OF lk a refl k0(1) kk]) (use w2 c in \<open>simp_all add: s2_def\<close>)
  have own: "map_of (cs_connections s2) a = Some c" using c by (simp add: s2_def update_conv')
  define s3 where "s3 = (case replaced of None \<Rightarrow> s2 | Some r \<Rightarrow> close_client ?h r s2)"
  note s3 = close_session [OF lk2 own c(6) replaced_def s3_def]
  have enter: "sv_entering (cs_service s3) = Some x" using s3(8) by (simp add: s2_def w2)
  have new: "map_of (sv_players (cs_service s3)) (cn_client_id c) = None" using s3(4) c(6) by simp
  obtain e w4 where e: "finish_connect exec c (cs_service s3) = (e, w4)" by (rule prod.exhaust)
  obtain p where p: "sv_players w4 = sv_players (cs_service s3) @ [(?k, p)]" "pl_player_id p = ?name"
      "sv_by_player_id w4 = AList.update ?name ?k (sv_by_player_id (cs_service s3))" "sv_entering w4 = None"
      "sv_pending_admits w4 = []" "sv_pending_by_player w4 = []" "sv_next_client w4 = sv_next_client (cs_service s3)"
      "sv_config w4 = sv_config w2" "sv_destroyed w4 = sv_destroyed (cs_service s3)"
    by (rule finish_connect_tables [OF enter new, of exec]) (use s3(6,7,10) in \<open>simp add: e c(6) s2_def w2\<close>)
  have same: "same_identity c e" using finish_connect_identity [of c exec "cs_service s3"] e by simp
  define s4 where "s4 = s3\<lparr>cs_connections := AList.update a e (cs_connections s3), cs_service := w4\<rparr>"
  have run: "establish ?h a salt token' (ad_client_id d) now t = send_accepted e s4"
    unfolding c(1) greet_def handlers_world c(7) begin_connect prod.case Let_def s2_def [symmetric] s3_def [symmetric] e s4_def c(2) ..
  have next4: "sv_next_client w4 = ?k + 1" using p(7) s3(9) by (simp add: s2_def w2)
  have "linked {} s4" by (rule entered_linked [OF s3(1,2) same _ _ _ _ _ s4_def, of p]) (use s3(3) p in simp_all)
  moreover have "length (sv_players w2) = length (sv_players ?w)" using w2(1) names_of_keys(2) by metis
  then have "settled w4"
    using s3(5) len less_trans [OF k0(1) kk] next4 by (simp add: settled_def p(1,4-6,8) s2_def w2)
  ultimately have "shard_ok s4" by (simp add: shard_ok_def s4_def)
  then show "shard_ok (establish ?h a salt token' (ad_client_id d) now t)"
    and "sv_next_client (cs_service (establish ?h a salt token' (ad_client_id d) now t)) = ?k + 1"
    by (simp_all add: run send_defs shard_ok_def s4_def next4)
qed


section \<open>Datagrams\<close>

lemma names_update:
  assumes "map_of xs c = Some p" and "pl_player_id q = pl_player_id p"
  shows "map (\<lambda>(c, p). (c, pl_player_id p)) (AList.update c q xs) = map (\<lambda>(c, p). (c, pl_player_id p)) xs"
  using assms(1) by (induction xs) (auto simp: assms(2) split: if_splits)

lemma put_player_roster: "map_of (sv_players w) c = Some p \<Longrightarrow> pl_player_id q = pl_player_id p \<Longrightarrow> same_roster w (put_player c q w)"
  by (simp add: same_roster_def put_player_def names_of_def names_update del: map_of_eq_Some_iff)

lemma take_ack_id [simp]: "pl_player_id (take_ack t p) = pl_player_id p"
  by (simp add: take_ack_def)

lemma handle_input_roster: "same_roster w (handle_input c data w)"
proof (cases "map_of (sv_players w) (cn_client_id c)")
  case (Some p)
  note put = names_update [OF Some]
  show ?thesis
    using put by (auto simp: handle_input_def Let_def Some same_roster_def names_of_def set_undefined_def simp del: map_of_eq_Some_iff split: option.split)
qed (simp add: handle_input_def)

lemma dispatch_roster:
  assumes "dispatch (world_handlers exec) payload messages c w = (c', w')"
  shows "same_roster w w'"
proof -
  have "foldl (\<lambda>(c, w) m. on_message (world_handlers exec) c m w) q messages = q" for q
    by (induction messages) (simp_all add: handlers_world split: prod.split)
  with assms handle_input_roster show ?thesis by (auto simp: dispatch_def handlers_world split: option.splits)
qed

lemma payload_roster: "same_roster (cs_service s) (cs_service (handle_payload (world_handlers exec) a body now s))"
  by (auto simp: handle_payload_def count_invalid_def split: option.split prod.split dest: dispatch_roster)

lemma request_service: "cs_service (handle_connection_request a body now s) = cs_service s"
  by (simp add: handle_connection_request_def send_defs count_invalid_def Let_def case_prod_beta split: option.split)

lemma request_shard_ok: "shard_ok s \<Longrightarrow> shard_ok (handle_connection_request a body now s)"
  by (rule shard_ok_quiet [where s = s], assumption, rule request_ok [OF shard_ok_server], assumption;
      cases rule: request_cases [of a body now s]; auto simp: request_service)

lemma payload_shard_ok:
  assumes ok: "shard_ok s"
  shows "shard_ok (handle_payload (world_handlers exec) a body now s)"
proof -
  let ?s = "handle_payload (world_handlers exec) a body now s"
  note same = payload_roster [of s exec a body now]
  show ?thesis
    using world_handlers_ok
  proof (cases rule: payload_cases [of "world_handlers exec" a body now s])
    case ignored
    then show ?thesis by (intro shard_ok_quiet [OF ok payload_ok [OF world_handlers_ok shard_ok_server [OF ok]] _ _ same]) auto
  next
    case (touched c d)
    then show ?thesis by (intro shard_ok_touch [OF ok _ _ _ _ _ same])
  qed
qed

lemma refused_shard_ok:
  assumes ok: "shard_ok s" and "same_roster (cs_service s) (cs_service s')"
    and "cs_connections s' = cs_connections s" "cs_by_client s' = cs_by_client s" "cs_pending s' = AList.delete a (cs_pending s)"
  shows "shard_ok s'"
proof (rule shard_ok_quiet [OF ok])
  show "server_ok s'"
    using shard_ok_server [OF ok] assms(3-) tables_forget [of "map_of (cs_connections s)" "map_of (cs_pending s)" "map_of (cs_by_client s)" a]
    by (simp add: server_ok_def delete_conv' distinct_delete)
qed (use assms in auto)

lemma response_shard_ok:
  assumes ok: "shard_ok s" and room: "sv_next_client (cs_service s) + 1 \<noteq> 0" and s': "s' = handle_challenge_response (world_handlers exec) a body now s"
  shows "shard_ok s' \<and> sv_next_client (cs_service s') \<in> {sv_next_client (cs_service s), sv_next_client (cs_service s) + 1}"
proof (cases "\<exists>p. map_of (cs_connections s) a = None \<and> map_of (cs_pending s) a = Some p \<and> read_salt body = Some (ph_client_salt p XOR ph_server_salt p)")
  case False
  then have "cs_service s' = cs_service s \<and> cs_connections s' = cs_connections s \<and> cs_pending s' = cs_pending s \<and> cs_by_client s' = cs_by_client s"
    by (auto simp: s' handle_challenge_response_def send_defs count_invalid_def split: option.split)
  then show ?thesis using ok by (simp add: shard_ok_def linked_def server_ok_def)
next
  case True
  then obtain p where p: "map_of (cs_connections s) a = None" "map_of (cs_pending s) a = Some p"
      "read_salt body = Some (ph_client_salt p XOR ph_server_salt p)" by blast
  obtain d w where d: "admit exec a (ph_token p) (cs_service s) = (d, w)" by (rule prod.exhaust)
  let ?t = "s\<lparr>cs_next_client_id := cs_next_client_id s + 1, cs_service := w\<rparr>"
  have dec: "decide (world_handlers exec) a (ph_token p) s = (d, ?t)" by (simp add: decide_def handlers_world next_client_id_def d)
  show ?thesis
  proof (cases "ad_admit d")
    case True
    have "s' = establish (world_handlers exec) a (ph_client_salt p XOR ph_server_salt p) (ph_token p) (ad_client_id d) now ?t"
      using p True by (simp add: s' handle_challenge_response_def dec)
    with join_ok [OF ok p(1) d True room, of ?t] show ?thesis by simp
  next
    case False
    have st: "settled (cs_service s)" using ok by (simp add: shard_ok_def)
    have "same_roster (cs_service s) w" by (rule admit_cases [OF st d]) (use False in auto)
    moreover have "cs_service s' = w" "cs_connections s' = cs_connections s" "cs_by_client s' = cs_by_client s" "cs_pending s' = AList.delete a (cs_pending s)"
      using p False by (simp_all add: s' handle_challenge_response_def dec send_defs)
    ultimately show ?thesis using refused_shard_ok [OF ok, of s' a] by (simp add: same_roster_def)
  qed
qed

lemma remove_next: "shard_ok s \<Longrightarrow> sv_next_client (cs_service (remove_connection (world_handlers exec) a reason s)) = sv_next_client (cs_service s)"
proof (cases "map_of (cs_connections s) a")
  case (Some c)
  assume "shard_ok s"
  then have "linked {} s" by (simp add: shard_ok_def)
  from remove_linked(6) [OF this Some] show ?thesis by simp
qed (simp add: remove_connection_def)

lemma datagram_shard_ok:
  assumes ok: "shard_ok s" and room: "sv_next_client (cs_service s) + 1 \<noteq> 0" and s': "s' = handle_datagram (world_handlers exec) d now s"
  shows "shard_ok s' \<and> sv_next_client (cs_service s') \<in> {sv_next_client (cs_service s), sv_next_client (cs_service s) + 1}"
proof -
  have count: "shard_ok (count_invalid s)" "cs_service (count_invalid s) = cs_service s"
    using ok by (simp_all add: shard_ok_def linked_def server_ok_def count_invalid_def)
  have payload: "sv_next_client (cs_service (handle_payload (world_handlers exec) a body now s)) = sv_next_client (cs_service s)" for a body
    using payload_roster unfolding same_roster_def by blast
  have leave: "shard_ok (handle_disconnect (world_handlers exec) a body s)"
      "sv_next_client (cs_service (handle_disconnect (world_handlers exec) a body s)) = sv_next_client (cs_service s)" for a body
    using ok by (auto simp: handle_disconnect_def remove_shard_ok remove_next split: option.split)
  note response = response_shard_ok [OF ok room refl, of exec]
  show ?thesis
    unfolding s' handle_datagram_def Let_def
    using response request_shard_ok [OF ok] payload_shard_ok [OF ok] count leave
    by (auto simp: payload request_service split: option.split packet_type.split)
qed


section \<open>The tick\<close>

lemma socket_shard_ok [simp]: "shard_ok (s\<lparr>cs_socket := sock\<rparr>) = shard_ok s"
  by (simp add: shard_ok_def linked_def server_ok_def)

lemma next_client_room:
  fixes x :: u32
  assumes "unat x + Suc n < 2 ^ 32"
  shows "unat (x + 1) = unat x + 1" and "x + 1 \<noteq> 0"
proof -
  show *: "unat (x + 1) = unat x + 1" using assms by (simp add: unat_word_ariths)
  show "x + 1 \<noteq> 0" using * by (metis add_is_0 one_neq_zero unat_0)
qed

text \<open>The loop over datagrams admits at most one client per datagram.\<close>

lemma drain_shard_ok:
  "shard_ok s \<Longrightarrow> unat (sv_next_client (cs_service s)) + n < 2 ^ 32 \<Longrightarrow> drain n (world_handlers exec) now k s = (m, s') \<Longrightarrow> shard_ok s'"
proof (induction n arbitrary: k s)
  case (Suc n)
  obtain r sock where r: "socket_receive kMaxDatagramSize (cs_socket s) = (r, sock)" by (rule prod.exhaust)
  let ?s = "s\<lparr>cs_socket := sock\<rparr>"
  have ok: "shard_ok ?s" using Suc.prems(1) by simp
  show ?case
  proof (cases "\<exists>d. r = Some d \<and> snd d \<noteq> []")
    case False
    with r Suc.prems(3) ok show ?thesis by (auto split: option.splits if_splits)
  next
    case True
    then obtain d where d: "r = Some d" "snd d \<noteq> []" by blast
    let ?t = "handle_datagram (world_handlers exec) d now ?s"
    have room: "sv_next_client (cs_service ?s) + 1 \<noteq> 0" using next_client_room(2) [OF Suc.prems(2)] by simp
    note t = datagram_shard_ok [OF ok room refl, of exec d now]
    have "unat (sv_next_client (cs_service ?t)) \<le> unat (sv_next_client (cs_service s)) + 1" using t next_client_room(1) [OF Suc.prems(2)] by auto
    with t Suc.prems(2) have "shard_ok ?t" "unat (sv_next_client (cs_service ?t)) + n < 2 ^ 32" by simp_all
    then show ?thesis using Suc.IH [of ?t "k + 1"] Suc.prems(3) r d by simp
  qed
qed simp

lemma expire_shard_ok: "shard_ok s \<Longrightarrow> shard_ok (expire_pending now s)"
  by (rule shard_ok_quiet [where s = s], assumption, rule expire_ok [OF shard_ok_server], assumption) (auto simp: expire_pending_def)

definition clients_left :: "'d shard \<Rightarrow> bool" where
  "clients_left s \<longleftrightarrow> unat (sv_next_client (cs_service s)) + Suc (length (incoming (cs_socket s))) < 2 ^ 32"

lemma receive_shard_ok:
  assumes "shard_ok s" and "clients_left s"
  shows "shard_ok (snd (server_receive (world_handlers exec) now s))"
proof -
  obtain m s' where d: "drain (Suc (length (incoming (cs_socket s)))) (world_handlers exec) now 0 s = (m, s')" by (rule prod.exhaust)
  have "shard_ok s'" by (rule drain_shard_ok [OF assms(1) _ d]) (use assms(2) in \<open>simp add: clients_left_def\<close>)
  then show ?thesis unfolding server_receive_def d by (simp add: expire_shard_ok)
qed

lemma on_service_ok: "shard_ok s \<Longrightarrow> same_roster (cs_service s) (f (cs_service s)) \<Longrightarrow> shard_ok (on_service f s)"
  by (simp add: on_service_def shard_ok_service)

lemma send_payload_service: "cs_service (snd (send_payload a data now s)) = cs_service s"
  by (simp add: send_payload_def split: option.split prod.split)

lemma send_payload_shard_ok: "shard_ok s \<Longrightarrow> shard_ok (snd (send_payload a data now s))"
proof (cases rule: send_payload_cases [of a data now s])
  case (touched c d)
  assume "shard_ok s"
  then show ?thesis by (rule shard_ok_touch [OF _ touched]) (simp add: send_payload_service)
qed simp

lemma replicate_player_ok:
  assumes ok: "shard_ok s"
  shows "shard_ok (replicate_player nth_element now s client)"
proof (cases "map_of (sv_players (cs_service s)) client")
  case (Some p)
  have put: "same_roster (cs_service s) (put_player client (p\<lparr>pl_replication := r\<rparr>) ((cs_service s)\<lparr>sv_scratch := x\<rparr>))" for r x
    using put_player_roster [of "(cs_service s)\<lparr>sv_scratch := x\<rparr>" client p "p\<lparr>pl_replication := r\<rparr>"] Some
    by (simp add: same_roster_def names_of_def put_player_def)
  have count: "same_roster w (count_snapshot n w)" for n and w :: "'a world_service"
    by (simp add: count_snapshot_def same_roster_def names_of_def Let_def)
  show ?thesis
    unfolding replicate_player_def Let_def Some
    using ok put by (auto intro!: on_service_ok send_payload_shard_ok count split: option.split prod.split)
qed (use ok in \<open>simp add: replicate_player_def\<close>)

lemma foldl_shard_ok: "(\<And>s x. shard_ok s \<Longrightarrow> shard_ok (f s x)) \<Longrightarrow> shard_ok s \<Longrightarrow> shard_ok (foldl f s xs)"
  by (induction xs arbitrary: s) auto

lemma start_handoff_ok:
  assumes ok: "shard_ok s" and p: "map_of (sv_players (cs_service s)) client = Some p"
  shows "shard_ok (start_handoff exec client p position velocity s)"
proof -
  obtain t w where w: "read_wall_ms (cs_service s) = (t, w)" by (rule prod.exhaust)
  note same = read_wall_roster [OF w]
  have players: "sv_players w = sv_players (cs_service s)" using w by (auto simp: read_wall_ms_def)
  have undef: "shard_ok (s\<lparr>cs_service := set_undefined w\<rparr>)" by (rule shard_ok_service [OF ok same_roster_trans [OF same undefined_roster]])
  have plan: "shard_ok (s\<lparr>cs_service := w\<lparr>sv_coordinator := c\<rparr>\<rparr>)" for c
    using same by (intro shard_ok_service [OF ok]) (simp add: same_roster_def names_of_def)
  have redirect: "shard_ok (on_service (mark_redirected client p) (s\<lparr>cs_service := w\<lparr>sv_coordinator := c\<rparr>,
      cs_connections := AList.update (cn_address k) (send_event event k) (cs_connections s)\<rparr>))"
    if k: "find_client client s = Some k" for c k event
  proof -
    obtain a where a: "map_of (cs_by_client s) client = Some a" "map_of (cs_connections s) a = Some k"
      using k by (auto simp: find_client_def simp del: map_of_eq_Some_iff split: bind_splits)
    have tables: "tables_ok (map_of (cs_connections s)) (map_of (cs_pending s)) (map_of (cs_by_client s))"
      using shard_ok_server [OF ok] by (simp add: server_ok_def)
    have addr: "cn_address k = a" by (rule tables_okD(1) [OF tables a(2)])
    have put: "names_of (put_player client (p\<lparr>pl_redirecting := True, pl_redirect_deadline := t\<rparr>) v) = names_of v"
      if "sv_players v = sv_players w" for t and v :: "'a world_service"
      using put_player_roster [of v client p] p players that by (simp add: same_roster_def)
    show ?thesis
      by (rule shard_ok_touch [OF ok a(2), of "send_event event k"])
        (use same players put in \<open>simp_all add: addr send_event_def on_service_def mark_redirected_def put_player_def Let_def same_roster_def names_of_def\<close>)
  qed
  show ?thesis
    unfolding start_handoff_def w prod.case Let_def
    using undef plan redirect by (auto simp: find_client_def split: option.split)
qed


lemma check_migration_ok:
  assumes ok: "shard_ok s"
  shows "shard_ok (check_migration exec s client)"
proof (cases "map_of (sv_players (cs_service s)) client")
  case (Some p)
  have region: "same_roster (cs_service s) (put_player client (p\<lparr>pl_region := r\<rparr>) (cs_service s))" for r
    by (rule put_player_roster [OF Some]) simp
  show ?thesis
    unfolding check_migration_def Let_def Some
    using ok start_handoff_ok [OF ok Some] region by (auto intro!: on_service_ok split: option.split)
qed (use ok in \<open>simp add: check_migration_def\<close>)

lemma send_shard_ok [simp]: "shard_ok (server_send to data s) = shard_ok s"
  by (simp add: shard_ok_def)

lemma server_disconnect_shard_ok: "shard_ok s \<Longrightarrow> shard_ok (server_disconnect (world_handlers exec) a reason s)"
  by (auto simp: server_disconnect_def Let_def intro!: remove_shard_ok split: option.split)

lemma unconnected_client:
  assumes ok: "shard_ok s" and none: "find_client client s = None"
  shows "map_of (sv_players (cs_service s)) client = None"
proof -
  have lk: "linked {} s" using ok by (simp add: shard_ok_def)
  then have tables: "tables_ok (map_of (cs_connections s)) (map_of (cs_pending s)) (map_of (cs_by_client s))"
    by (simp add: linked_def server_ok_def)
  have "map_of (cs_by_client s) client = None"
  proof (rule ccontr)
    assume "map_of (cs_by_client s) client \<noteq> None"
    then obtain a where a: "map_of (cs_by_client s) client = Some a" by blast
    from tables_okD(2) [OF tables a] none a show False by (auto simp: find_client_def simp del: map_of_eq_Some_iff)
  qed
  then show ?thesis using linkedD(5) [OF lk] by (metis Un_empty_right domIff)
qed

lemma expire_redirect_ok:
  assumes ok: "shard_ok s"
  shows "shard_ok (expire_redirect exec s client)"
proof (cases "find_client client s")
  case None
  with unconnected_client [OF ok None] ok show ?thesis by (simp add: expire_redirect_def)
qed (use ok in \<open>simp add: expire_redirect_def server_disconnect_shard_ok\<close>)

lemma check_migrations_ok: "shard_ok s \<Longrightarrow> shard_ok (check_migrations exec s)"
  by (auto simp: check_migrations_def Let_def intro!: foldl_shard_ok check_migration_ok expire_redirect_ok)

lemma timeout_shard_ok: "shard_ok s \<Longrightarrow> shard_ok (timeout_connections (world_handlers exec) now s)"
  unfolding timeout_connections_def by (rule foldl_shard_ok) (simp_all add: remove_shard_ok)

lemma flush_connection_shard_ok:
  assumes ok: "shard_ok s"
  shows "shard_ok (flush_connection now a s)"
proof (cases "map_of (cs_connections s) a")
  case (Some c)
  let ?c = "c\<lparr>cn_reliability := ep_update now (cn_reliability c)\<rparr>"
  have "shard_ok (s\<lparr>cs_connections := AList.update a ?c (cs_connections s)\<rparr>)"
    by (rule shard_ok_touch [OF ok Some, of ?c]) simp_all
  with Some show ?thesis by (auto simp: flush_connection_def Let_def intro: send_payload_shard_ok)
qed (use ok in \<open>simp add: flush_connection_def\<close>)

lemma flush_shard_ok: "shard_ok s \<Longrightarrow> shard_ok (server_flush now s)"
  by (auto simp: server_flush_def Let_def intro!: foldl_shard_ok flush_connection_shard_ok)

lemma step_roster: "same_roster w (step_service cosf sinf w)"
  by (simp add: step_service_def same_roster_def names_of_def set_undefined_def split: option.split)

lemma queue_residents_roster: "same_roster w (foldl (queue_resident wall) w ps)"
proof (induction ps arbitrary: w)
  case (Cons p ps)
  have "same_roster w (queue_resident wall w p)" by (simp add: queue_resident_def same_roster_def names_of_def)
  from same_roster_trans [OF this Cons.IH] show ?case by simp
qed simp

lemma refresh_presence_roster: "same_roster w (refresh_presence exec now_ms w)"
proof -
  let ?w = "w\<lparr>sv_last_presence_refresh_ms := now_ms\<rparr>"
  obtain wall w1 where w1: "read_wall_ms ?w = (wall, w1)" by (rule prod.exhaust)
  have "same_roster w w1" using read_wall_roster [OF w1] by (simp add: same_roster_def names_of_def)
  from same_roster_trans [OF this queue_residents_roster] show ?thesis
    unfolding refresh_presence_def w1 Let_def prod.case by (simp add: expire_ghosts_def same_roster_def names_of_def)
qed

lemma refresh_cluster_roster: "same_roster w (refresh_cluster exec p99 w)"
proof -
  obtain now w1 where w1: "read_wall_ms w = (now, w1)" by (rule prod.exhaust)
  obtain wall w2 where w2: "read_wall_ms w1 = (wall, w2)" by (rule prod.exhaust)
  let ?w = "w2\<lparr>sv_coordinator := snd (refresh exec wall now (word_of_nat (length (sv_players w2))) p99 False (sv_coordinator w2))\<rparr>"
  have "same_roster w ?w"
    using same_roster_trans [OF read_wall_roster [OF w1] read_wall_roster [OF w2]] by (simp add: same_roster_def names_of_def)
  then show ?thesis
    unfolding refresh_cluster_def w1 w2 Let_def prod.case by (auto intro: same_roster_trans [OF _ refresh_presence_roster])
qed

lemma count_tick_roster: "same_roster w (count_tick w)"
  by (simp add: count_tick_def same_roster_def names_of_def)

lemma world_tick_ok:
  assumes "shard_ok s" and "clients_left s"
  shows "shard_ok (world_tick exec cosf sinf nth_element p99 now s)"
  unfolding world_tick_def Let_def replicate_all_def
  by (intro on_service_ok count_tick_roster refresh_cluster_roster step_roster flush_shard_ok timeout_shard_ok check_migrations_ok
      foldl_shard_ok replicate_player_ok receive_shard_ok assms)

section \<open>Runs of a shard\<close>

text \<open>
  A run starts a fresh shard; then datagrams arrive, the idle time receives and flushes, and ticks pass, in any order, as long as
  the counter of clients, a number of 32 bits that is never reused, has room for the datagrams that wait.
\<close>

definition fresh_shard :: "'d shard \<Rightarrow> bool" where
  "fresh_shard s \<longleftrightarrow> cs_connections s = [] \<and> cs_pending s = [] \<and> cs_by_client s = [] \<and> sv_players (cs_service s) = [] \<and>
     sv_by_player_id (cs_service s) = [] \<and> sv_pending_admits (cs_service s) = [] \<and> sv_pending_by_player (cs_service s) = [] \<and>
     sv_entering (cs_service s) = None \<and> sv_next_client (cs_service s) = 1 \<and> \<not> sv_destroyed (cs_service s)"

inductive shard_run :: "'d exec \<Rightarrow> (f32 \<Rightarrow> f32) \<Rightarrow> (f32 \<Rightarrow> f32) \<Rightarrow> (nat \<Rightarrow> (nat \<times> f32) list \<Rightarrow> (nat \<times> f32) list) \<Rightarrow> 'd shard \<Rightarrow> bool"
  for exec cosf sinf nth_element where
  started: "fresh_shard s \<Longrightarrow> world_server_start exec env config s = (True, s') \<Longrightarrow> shard_run exec cosf sinf nth_element s'"
| arrived: "shard_run exec cosf sinf nth_element s \<Longrightarrow> shard_run exec cosf sinf nth_element (arrive ds room s)"
| received: "shard_run exec cosf sinf nth_element s \<Longrightarrow> clients_left s \<Longrightarrow>
    shard_run exec cosf sinf nth_element (snd (server_receive (world_handlers exec) now s))"
| flushed: "shard_run exec cosf sinf nth_element s \<Longrightarrow> shard_run exec cosf sinf nth_element (s\<lparr>cs_socket := flush_sends (cs_socket s)\<rparr>)"
| ticked: "shard_run exec cosf sinf nth_element s \<Longrightarrow> clients_left s \<Longrightarrow>
    shard_run exec cosf sinf nth_element (world_tick exec cosf sinf nth_element p99 now s)"

lemma fresh_ok: "fresh_shard s \<Longrightarrow> shard_ok s"
  by (simp add: fresh_shard_def shard_ok_def linked_def settled_def server_ok_def tables_ok_def roster_ok_def)

lemma configure_roster: "fresh_shard s \<Longrightarrow> fresh_shard (on_service (configure_service config) s)"
  by (simp add: fresh_shard_def on_service_def configure_service_def set_undefined_def Let_def split: option.split)

lemma fresh_socket: "fresh_shard s \<Longrightarrow> fresh_shard (s\<lparr>cs_config := c, cs_socket := sock\<rparr>)"
  by (simp add: fresh_shard_def)

lemma join_cluster_roster: "join_cluster exec env config w = (r, w') \<Longrightarrow> same_roster w w'"
  by (auto simp: join_cluster_def read_wall_ms_def same_roster_def names_of_def split: if_splits prod.splits)

lemma started_ok:
  assumes fresh: "fresh_shard s" and run: "world_server_start exec env config s = (True, s')"
  shows "shard_ok s'"
proof -
  obtain r t where t: "server_start (se_bound env) (ws_server_config config) (on_service (configure_service config) s) = (r, t)"
    by (rule prod.exhaust)
  obtain q w where w: "join_cluster exec env config (cs_service t) = (q, w)" by (rule prod.exhaust)
  have "fresh_shard t" using t fresh_socket [OF configure_roster [OF fresh]] by (auto simp: server_start_def split: prod.splits)
  then have ok: "shard_ok t" by (rule fresh_ok)
  have s': "s' = t\<lparr>cs_service := (spawn_drifters config w)\<lparr>sv_scratch := replicate (unat kMaxDatagramSize) 0\<rparr>\<rparr>"
    using run by (simp add: world_server_start_def t w split: bool.splits)
  have "same_roster (cs_service t) ((spawn_drifters config w)\<lparr>sv_scratch := replicate (unat kMaxDatagramSize) 0\<rparr>)"
    using join_cluster_roster [OF w] by (simp add: same_roster_def names_of_def spawn_drifters_def)
  then show ?thesis unfolding s' by (rule shard_ok_service [OF ok])
qed

lemma shard_run_ok: "shard_run exec cosf sinf nth_element s \<Longrightarrow> shard_ok s"
  by (induction rule: shard_run.induct) (simp_all add: started_ok receive_shard_ok world_tick_ok arrive_def)

text \<open>
  C3: the session tables of a shard. However datagrams arrive and ticks pass after the start, and whatever Redis answers, the
  clients with a connection are exactly the players; a player is found under its name and no other client plays under that name;
  there are never more players than the capacity; no admission is left behind, and the connect handler always finds the admission
  that its connection was granted, so that it never closes the connection it works on.
\<close>

theorem shard_roster_consistent:
  assumes "shard_run exec cosf sinf nth_element s"
  shows "dom (map_of (cs_by_client s)) = dom (map_of (sv_players (cs_service s))) \<and>
     (\<forall>client player. map_of (sv_players (cs_service s)) client = Some player \<longrightarrow>
        (\<exists>connection. find_client client s = Some connection \<and> cn_client_id connection = client) \<and>
        player_by_id (pl_player_id player) (cs_service s) = Some player \<and>
        (\<forall>other p. map_of (sv_players (cs_service s)) other = Some p \<and> pl_player_id p = pl_player_id player \<longrightarrow> other = client)) \<and>
     length (sv_players (cs_service s)) \<le> unat (wsc_capacity (sv_config (cs_service s))) \<and>
     sv_pending_admits (cs_service s) = [] \<and> \<not> sv_destroyed (cs_service s)"
proof -
  have ok: "linked {} s" "settled (cs_service s)" using shard_run_ok [OF assms] by (simp_all add: shard_ok_def)
  then have roster: "roster_ok (map_of (sv_players (cs_service s))) (map_of (sv_by_player_id (cs_service s)))"
    and d: "dom (map_of (cs_by_client s)) = dom (map_of (sv_players (cs_service s)))" by (simp_all add: linked_def)
  have found: "\<exists>connection. find_client i s = Some connection \<and> cn_client_id connection = i" if "i \<in> dom (map_of (cs_by_client s))" for i
    using that ok(1) by (fastforce simp: linked_def server_ok_def tables_ok_def find_client_def)
  have named: "map_of (sv_by_player_id (cs_service s)) (pl_player_id p) = Some c" if "map_of (sv_players (cs_service s)) c = Some p" for c p
    using roster_okD [OF roster] that by blast
  show ?thesis
  proof (intro conjI allI impI)
    fix client player assume p: "map_of (sv_players (cs_service s)) client = Some player"
    show "\<exists>connection. find_client client s = Some connection \<and> cn_client_id connection = client" using found d p by blast
    show "player_by_id (pl_player_id player) (cs_service s) = Some player" using named p by (simp add: player_by_id_def)
    show "other = client" if "map_of (sv_players (cs_service s)) other = Some q \<and> pl_player_id q = pl_player_id player" for other q
      using that named [OF p] named [of other q] by simp
  qed (use ok d in \<open>auto simp: linked_def settled_def\<close>)
qed

text \<open>A shard alone: it does not join a cluster and nobody answers as Redis.\<close>

definition sample_config :: world_server_config where
  "sample_config = \<lparr>wsc_shard = ascii ''world-a'', wsc_udp_bind = \<lparr>ad_ip = 0, ad_port = 7000\<rparr>, wsc_key_prefix = ascii ''morton'',
     wsc_params = mk_world_params, wsc_interest = mk_interest_config, wsc_regions = mk_region_map, wsc_capacity = 512, wsc_drifters = 0,
     wsc_max_connections = 4096, wsc_reconnect_grace_ms = 20000, wsc_redirect_grace_ticks = 45, wsc_connection_timeout_us = 5000000,
     wsc_advertise = False, wsc_advertise_udp = [], wsc_advertise_http = []\<rparr>"

definition sample_environment :: start_environment where
  "sample_environment = \<lparr>se_bound = True, se_udp_local = \<lparr>ad_ip = 0, ad_port = 7000\<rparr>, se_http_local = \<lparr>ad_ip = 0, ad_port = 7001\<rparr>,
     se_redis_open = False, se_tokens = (\<lambda>_. 0)\<rparr>"

definition sample_service :: "'d \<Rightarrow> 'd world_service" where
  "sample_service d = \<lparr>sv_config = sample_config, sv_world = mk_world,
     sv_coordinator = \<lparr>sc_shard_config = ws_shard_config sample_environment sample_config,
       sc_registry = \<lparr>rg_prefix = [], rg_connected = False, rg_queue = [], rg_outcomes = [], rg_db = d\<rparr>,
       sc_tickets = \<lparr>ms_issued = 0, ms_redeemed = 0, ms_rejected = 0\<rparr>, sc_members = [], sc_region_owner = [], sc_endpoints = Map.empty,
       sc_last_refresh_ms = 0, sc_tokens = (\<lambda>_. 0), sc_drawn = 0, sc_handoffs_started = 0, sc_handoffs_accepted = 0,
       sc_handoffs_declined = 0, sc_shards_pruned = 0\<rparr>,
     sv_players = [], sv_by_player_id = [], sv_ghosts = [], sv_pending_admits = [], sv_pending_by_player = [], sv_redeemed_tickets = [],
     sv_stats = \<lparr>st_ticks = 0, st_snapshots_sent = 0, st_snapshot_bytes = 0, st_inputs_received = 0, st_migrations_out = 0,
       st_migrations_in = 0, st_reconnects_resumed = 0, st_timeouts = 0, st_denied_connects = 0\<rparr>,
     sv_scratch = [], sv_next_client = 1, sv_last_presence_refresh_ms = 0, sv_entering = None, sv_clock = (\<lambda>n. word_of_nat n), sv_readings = 0,
     sv_undefined = False, sv_destroyed = False\<rparr>"

definition sample_host :: "unit shard" where
  "sample_host = \<lparr>cs_config = ws_server_config sample_config, cs_socket = mk_socket 100, cs_connections = [], cs_pending = [], cs_by_client = [],
     cs_handshakes_completed = 0, cs_handshakes_denied = 0, cs_invalid_packets = 0, cs_random = \<lparr>rnd_numbers = (\<lambda>n. word_of_nat n), rnd_drawn = 0\<rparr>,
     cs_next_client_id = 1, cs_service = sample_service ()\<rparr>"

theorem shard_roster_consistent_witness:
  "\<exists>s. world_server_start (\<lambda>c d. (transport_error, d)) sample_environment sample_config sample_host = (True, s) \<and>
     \<not> sv_destroyed (cs_service (world_tick (\<lambda>c d. (transport_error, d)) (\<lambda>_. f_one) (\<lambda>_. 0) (\<lambda>n xs. xs) [] 5000
       (arrive [sample_response] 100 s)))"
proof -
  let ?x = "\<lambda>c (d :: unit). (transport_error, d)"
  have fresh: "fresh_shard sample_host" by (simp add: fresh_shard_def sample_host_def sample_service_def)
  have "fst (world_server_start ?x sample_environment sample_config sample_host) = True"
    by (simp add: world_server_start_def server_start_def socket_open_def join_cluster_def sample_environment_def sample_config_def Let_def)
  then obtain s where s: "world_server_start ?x sample_environment sample_config sample_host = (True, s)" by (metis prod.collapse)
  have "cs_service s = (spawn_drifters sample_config (configure_service sample_config (sample_service ())))\<lparr>sv_scratch := replicate (unat kMaxDatagramSize) 0\<rparr>"
      and "incoming (cs_socket s) = []"
    using s by (auto simp: world_server_start_def server_start_def socket_open_def socket_close_def join_cluster_def sample_environment_def sample_config_def
        sample_host_def on_service_def mk_socket_def incoming_def Let_def)
  then have "clients_left (arrive [sample_response] 100 s)"
    by (simp add: clients_left_def arrive_def incoming_def spawn_drifters_def configure_service_def set_undefined_def sample_service_def Let_def split: option.split)
  note run = shard_run.ticked [OF shard_run.arrived [OF shard_run.started [OF fresh s]] this]
  show ?thesis using shard_roster_consistent [OF run] s by blast
qed

end
