(* ===== verification/Reconnect.thy ===== *)
theory Reconnect
  imports World_Server_Invariant World_Invariant
begin

text \<open>
  A session over two connections: the state that a player leaves behind and the state in which it comes back.
\<close>

section \<open>An entity that enters\<close>

lemma es_view_row: "es_view s e = Some r \<Longrightarrow> \<exists>i. es_index_of s e = Some i \<and> r = entity_row s (unat i)"
  by (auto simp: es_view_def)

lemma es_find_index: "es_find s e = (case es_index_of s e of None \<Rightarrow> -1 | Some i \<Rightarrow> uint i)"
  by (simp add: es_find_def split: option.split)

text \<open>The rows are written where the index points.\<close>

lemma placed_view:
  assumes wf: "es_wf s" and i: "es_index_of s e = Some i"
  shows "es_view (s\<lparr>es_position := (es_position s)[unat i := p], es_velocity := (es_velocity s)[unat i := v],
      es_owner := (es_owner s)[unat i := c], es_last_input_sequence := (es_last_input_sequence s)[unat i := n]\<rparr>) =
    (es_view s)(e \<mapsto> (entity_row s (unat i))\<lparr>e_position := p, e_velocity := v, e_owner := c, e_last_input_sequence := n\<rparr>)"
proof
  fix f
  have here: "unat i < length (es_id s)" "es_id s ! unat i = e" using es_wf_indexD [OF wf i] by simp_all
  have cols: "length (es_position s) = length (es_id s)" "length (es_velocity s) = length (es_id s)" "length (es_owner s) = length (es_id s)"
      "length (es_last_input_sequence s) = length (es_id s)" using wf by (simp_all add: es_wf_def)
  have apart: "unat j \<noteq> unat i" if "es_index_of s f = Some j" "f \<noteq> e" for j using es_wf_indexD [OF wf that(1)] that(2) here by auto
  show "es_view (s\<lparr>es_position := (es_position s)[unat i := p], es_velocity := (es_velocity s)[unat i := v],
      es_owner := (es_owner s)[unat i := c], es_last_input_sequence := (es_last_input_sequence s)[unat i := n]\<rparr>) f =
    ((es_view s)(e \<mapsto> (entity_row s (unat i))\<lparr>e_position := p, e_velocity := v, e_owner := c, e_last_input_sequence := n\<rparr>)) f"
    using here i apart cols by (cases "f = e"; cases "es_index_of s f") (simp_all add: es_view_def entity_row_def)
qed

definition entered_entity :: "entity_id \<Rightarrow> client_id \<Rightarrow> vec2 \<Rightarrow> vec2 \<Rightarrow> u32 \<Rightarrow> entity" where
  "entered_entity e c p v n = \<lparr>e_position = p, e_velocity = v, e_kind = entity_kind_code kPlayer, e_owner = c, e_last_input_sequence = n,
     e_ai_seed = hash_u32 (e * 2654435761)\<rparr>"

lemma spawn_adopt_view:
  assumes wf: "es_wf (w_entities w)" and new: "es_view (w_entities w) (w_next_entity w) = None" and room: "0 < es_room (w_entities w)"
    and spawn: "spawn_player c p w = (e, w1)"
  shows "e = w_next_entity w"
    and "es_view (w_entities (adopt_entity e c p v n w1)) = (es_view (w_entities w))(e \<mapsto> entered_entity e c p v n)"
proof -
  show e: "e = w_next_entity w" using spawn by (simp add: spawn_player_def Let_def)
  let ?s = "snd (es_add e kPlayer p c (w_entities w))"
  have w1: "w_entities w1 = ?s" using spawn by (auto simp: spawn_player_def Let_def)
  note added = es_add_law [OF wf new room, folded e, of kPlayer p c]
  obtain i where i: "es_index_of ?s e = Some i" "entity_row ?s (unat i) = entered_entity e c p (vec 0 0) 0"
    using es_view_row [of ?s e] by (auto simp: added(2) entered_entity_def)
  have "w_entities (adopt_entity e c p v n w1) = ?s\<lparr>es_position := (es_position ?s)[unat i := p], es_velocity := (es_velocity ?s)[unat i := v],
      es_owner := (es_owner ?s)[unat i := c], es_last_input_sequence := (es_last_input_sequence ?s)[unat i := n]\<rparr>"
    using i(1) by (simp add: adopt_entity_def w1 es_find_index Let_def)
  then show "es_view (w_entities (adopt_entity e c p v n w1)) = (es_view (w_entities w))(e \<mapsto> entered_entity e c p v n)"
    by (simp only: placed_view [OF added(1) i(1)] i(2)) (simp add: entered_entity_def added(2))
qed

text \<open>A departure frees a row.\<close>

lemma despawn_view:
  assumes wf: "es_wf (w_entities w)" and e: "es_view (w_entities w) e = Some r"
  shows "es_wf (w_entities (despawn e w))" and "es_view (w_entities (despawn e w)) = (es_view (w_entities w))(e := None)"
    and "0 < es_room (w_entities (despawn e w))" and "w_next_entity (despawn e w) = w_next_entity w"
proof -
  obtain i where i: "es_index_of (w_entities w) e = Some i" using es_view_row [OF e] by blast
  have s: "w_entities (despawn e w) = snd (es_remove e (w_entities w))" "w_next_entity (despawn e w) = w_next_entity w"
    using i by (simp_all add: despawn_def es_find_index Let_def)
  note removed = es_remove_some [OF wf i]
  show "es_wf (w_entities (despawn e w))" "es_view (w_entities (despawn e w)) = (es_view (w_entities w))(e := None)"
    using removed(2,3) by (simp_all add: s)
  show "0 < es_room (w_entities (despawn e w))" using removed(4) wf unfolding s es_room_def es_wf_def by simp
  show "w_next_entity (despawn e w) = w_next_entity w" by (rule s)
qed


section \<open>Leaving and coming back\<close>

definition ghost_of :: "world_player \<Rightarrow> entity \<Rightarrow> u64 \<Rightarrow> ghost_state" where
  "ghost_of player e expires = \<lparr>gh_position = e_position e, gh_velocity = e_velocity e, gh_last_input_sequence = e_last_input_sequence e,
     gh_region = pl_region player, gh_session_token = pl_session_token player, gh_expires_ms = expires\<rparr>"

lemma leave_state:
  assumes "map_of (sv_players w) (cn_client_id old) = Some player" and "\<not> pl_redirecting player"
    and "es_view (w_entities (sv_world w)) (pl_entity player) = Some e"
  shows "sv_world (handle_leave old reason w) = despawn (pl_entity player) (sv_world w)"
    and "sv_ghosts (handle_leave old reason w) = AList.update (pl_player_id player)
      (ghost_of player e (sv_clock w (sv_readings w) + ucast (wsc_reconnect_grace_ms (sv_config w)))) (sv_ghosts w)"
    and "sv_players (handle_leave old reason w) = AList.delete (cn_client_id old) (sv_players w)"
    and "sv_by_player_id (handle_leave old reason w) = (if map_of (sv_by_player_id w) (pl_player_id player) = Some (cn_client_id old)
      then AList.delete (pl_player_id player) (sv_by_player_id w) else sv_by_player_id w)"
    and "sv_clock (handle_leave old reason w) = sv_clock w"
proof -
  obtain i where i: "es_index_of (w_entities (sv_world w)) (pl_entity player) = Some i" "e = entity_row (w_entities (sv_world w)) (unat i)"
    using es_view_row [OF assms(3)] by blast
  show "sv_world (handle_leave old reason w) = despawn (pl_entity player) (sv_world w)"
    "sv_ghosts (handle_leave old reason w) = AList.update (pl_player_id player)
      (ghost_of player e (sv_clock w (sv_readings w) + ucast (wsc_reconnect_grace_ms (sv_config w)))) (sv_ghosts w)"
    "sv_players (handle_leave old reason w) = AList.delete (cn_client_id old) (sv_players w)"
    "sv_by_player_id (handle_leave old reason w) = (if map_of (sv_by_player_id w) (pl_player_id player) = Some (cn_client_id old)
      then AList.delete (pl_player_id player) (sv_by_player_id w) else sv_by_player_id w)"
    "sv_clock (handle_leave old reason w) = sv_clock w"
    using assms(1,2) i
    by (simp_all add: handle_leave_def drop_player_def leave_ghost_def read_wall_ms_def es_find_index ghost_of_def entity_row_def Let_def)
qed

lemma announce_world: "sv_world (announce exec p w) = sv_world w" "sv_ghosts (announce exec p w) = sv_ghosts w"
    "sv_by_player_id (announce exec p w) = sv_by_player_id w" "sv_players (announce exec p w) = sv_players w"
  by (simp_all add: announce_def read_wall_ms_def)

text \<open>The connect handler of a player without a stale session that finds its ghost in time.\<close>

lemma resume_state:
  assumes a: "sv_entering w = Some a" "pa_ticket a = None" "cc_player_id (pa_credential a) = name"
    and g: "map_of (sv_ghosts w) name = Some g" "gh_expires_ms g > sv_clock w (sv_readings w)" "gh_session_token g = cc_token (pa_credential a)"
    and none: "map_of (sv_players w) (cn_client_id new) = None"
    and spawn: "spawn_player (cn_client_id new) (gh_position g) (sv_world w) = (e, world)"
    and run: "finish_connect exec new w = (c, w')"
  shows "sv_world w' = adopt_entity e (cn_client_id new) (gh_position g) (gh_velocity g) (gh_last_input_sequence g) world"
    and "sv_ghosts w' = AList.delete name (sv_ghosts w)"
    and "map_of (sv_players w') (cn_client_id new) = Some (new_player a (cn_client_id new) e (gh_region g) (gh_last_input_sequence g) (sv_config w))"
    and "map_of (sv_by_player_id w') name = Some (cn_client_id new)" and "cn_entity c = e"
proof -
  let ?k = "cn_client_id new" and ?p = "new_player a (cn_client_id new) e (gh_region g) (gh_last_input_sequence g) (sv_config w)"
  obtain w1 where w1: "entry_point a ?k (w\<lparr>sv_entering := None\<rparr>) = ((gh_position g, gh_velocity g, gh_last_input_sequence g, gh_region g), w1)"
      "sv_world w1 = sv_world w" "sv_ghosts w1 = AList.delete name (sv_ghosts w)" "sv_players w1 = sv_players w" "sv_config w1 = sv_config w"
    using a g by (auto simp: entry_point_def read_wall_ms_def Let_def)
  have p: "pl_player_id ?p = name" using a(3) by (simp add: new_player_def)
  have here: "map_of (sv_players w @ [(?k, ?p)]) ?k = Some ?p" using none by (simp add: map_add_def)
  show "sv_world w' = adopt_entity e ?k (gh_position g) (gh_velocity g) (gh_last_input_sequence g) world"
    "sv_ghosts w' = AList.delete name (sv_ghosts w)" "map_of (sv_players w') ?k = Some ?p"
    "map_of (sv_by_player_id w') name = Some ?k" "cn_entity c = e"
    using run a(1) none
    by (auto simp add: finish_connect_def w1 spawn here announce_world p send_event_def update_conv' Let_def simp del: map_of_append)
qed


section \<open>While a player is away\<close>

text \<open>
  What happens to the service while the player called \<open>name\<close> is away and its ghost has not expired: admissions, other players
  that connect, leave, send input or are handed off, ticks, snapshots, and heartbeats before the ghost expires. The guards say that
  the player itself does not come and go.
\<close>

inductive absence :: "'d exec \<Rightarrow> (f32 \<Rightarrow> f32) \<Rightarrow> (f32 \<Rightarrow> f32) \<Rightarrow> bytes \<Rightarrow> u64 \<Rightarrow> 'd world_service \<Rightarrow> 'd world_service \<Rightarrow> bool"
  for exec cosf sinf name expires w where
  gone: "absence exec cosf sinf name expires w w"
| admitting: "absence exec cosf sinf name expires w v \<Longrightarrow> absence exec cosf sinf name expires w (snd (admit exec sender token v))"
| beginning: "absence exec cosf sinf name expires w v \<Longrightarrow> absence exec cosf sinf name expires w (snd (begin_connect connection v))"
| finishing: "absence exec cosf sinf name expires w v \<Longrightarrow> \<forall>a. sv_entering v = Some a \<longrightarrow> cc_player_id (pa_credential a) \<noteq> name \<Longrightarrow>
    absence exec cosf sinf name expires w (snd (finish_connect exec connection v))"
| leaving: "absence exec cosf sinf name expires w v \<Longrightarrow>
    \<forall>p. map_of (sv_players v) (cn_client_id connection) = Some p \<longrightarrow> pl_player_id p \<noteq> name \<Longrightarrow>
    absence exec cosf sinf name expires w (handle_leave connection reason v)"
| playing: "absence exec cosf sinf name expires w v \<Longrightarrow> absence exec cosf sinf name expires w (handle_input connection data v)"
| stepping: "absence exec cosf sinf name expires w v \<Longrightarrow> absence exec cosf sinf name expires w (step_service cosf sinf v)"
| replicating: "absence exec cosf sinf name expires w v \<Longrightarrow>
    absence exec cosf sinf name expires w (put_player client p (v\<lparr>sv_scratch := scratch\<rparr>))"
| tallying: "absence exec cosf sinf name expires w v \<Longrightarrow> absence exec cosf sinf name expires w (count_snapshot n v)"
| relocating: "absence exec cosf sinf name expires w v \<Longrightarrow> absence exec cosf sinf name expires w (put_player client p v)"
| planning: "absence exec cosf sinf name expires w v \<Longrightarrow> absence exec cosf sinf name expires w (v\<lparr>sv_coordinator := c\<rparr>)"
| reading: "absence exec cosf sinf name expires w v \<Longrightarrow> absence exec cosf sinf name expires w (v\<lparr>sv_readings := k\<rparr>)"
| redirecting: "absence exec cosf sinf name expires w v \<Longrightarrow> absence exec cosf sinf name expires w (mark_redirected client p v)"
| faulting: "absence exec cosf sinf name expires w v \<Longrightarrow> absence exec cosf sinf name expires w (set_undefined v)"
| refreshing: "absence exec cosf sinf name expires w v \<Longrightarrow> sv_clock v (sv_readings v) < expires \<Longrightarrow>
    absence exec cosf sinf name expires w (refresh_cluster exec p99 v)"
| counting: "absence exec cosf sinf name expires w v \<Longrightarrow> absence exec cosf sinf name expires w (count_tick v)"

text \<open>What the operations do to the ghosts and to the index by name.\<close>

lemma check_credential_frame:
  "check_credential exec c v = (r, v') \<Longrightarrow> sv_ghosts v' = sv_ghosts v \<and> sv_by_player_id v' = sv_by_player_id v"
  by (auto simp: check_credential_def find_ticket_def Let_def split: if_splits prod.splits option.splits)

lemma admit_new_frame: "admit_new exec c now v = (d, v') \<Longrightarrow> sv_ghosts v' = sv_ghosts v \<and> sv_by_player_id v' = sv_by_player_id v"
  by (auto simp: admit_new_def refuse_def Let_def dest!: check_credential_frame split: if_splits prod.splits sum.splits)

lemma admit_frame: "sv_ghosts (snd (admit exec sender token v)) = sv_ghosts v \<and> sv_by_player_id (snd (admit exec sender token v)) = sv_by_player_id v"
proof (cases "decode_credential token")
  case (Some c)
  obtain d v' where a: "admit_new exec c (sv_clock v (sv_readings v)) (v\<lparr>sv_readings := Suc (sv_readings v)\<rparr>) = (d, v')" by (rule prod.exhaust)
  from Some admit_new_frame [OF a] show ?thesis by (simp add: admit_def read_wall_ms_def a split: option.split)
qed (simp add: admit_def refuse_def)

lemma begin_connect_frame:
  "sv_ghosts (snd (begin_connect c v)) = sv_ghosts v \<and> sv_by_player_id (snd (begin_connect c v)) = sv_by_player_id v"
  by (simp add: begin_connect_def Let_def split: option.split)

lemma handle_input_frame: "sv_ghosts (handle_input c data v) = sv_ghosts v \<and> sv_by_player_id (handle_input c data v) = sv_by_player_id v"
  by (simp add: handle_input_def set_undefined_def Let_def split: option.split prod.split)

lemma entry_point_ghosts:
  assumes "entry_point a k v = (r, v')" and "cc_player_id (pa_credential a) \<noteq> name"
  shows "map_of (sv_ghosts v') name = map_of (sv_ghosts v) name" and "sv_by_player_id v' = sv_by_player_id v"
  using assms by (auto simp: entry_point_def read_wall_ms_def delete_conv' Let_def split: option.splits if_splits)

lemma finish_connect_ghosts:
  assumes "\<forall>a. sv_entering v = Some a \<longrightarrow> cc_player_id (pa_credential a) \<noteq> name"
  shows "map_of (sv_ghosts (snd (finish_connect exec c v))) name = map_of (sv_ghosts v) name"
    and "map_of (sv_by_player_id (snd (finish_connect exec c v))) name = map_of (sv_by_player_id v) name"
proof -
  have "map_of (sv_ghosts (snd (finish_connect exec c v))) name = map_of (sv_ghosts v) name \<and>
      map_of (sv_by_player_id (snd (finish_connect exec c v))) name = map_of (sv_by_player_id v) name"
  proof (cases "sv_entering v")
    case None
    then show ?thesis by (simp add: finish_connect_def)
  next
    case (Some a)
    then have a: "cc_player_id (pa_credential a) \<noteq> name" using assms by simp
    obtain pos vel seq region v1 where e: "entry_point a (cn_client_id c) (v\<lparr>sv_entering := None\<rparr>) = ((pos, vel, seq, region), v1)" by (metis prod.exhaust)
    obtain entity world where sp: "spawn_player (cn_client_id c) pos (sv_world v1) = (entity, world)" by (rule prod.exhaust)
    have id: "pl_player_id (new_player a k entity region seq config) = cc_player_id (pa_credential a)" for k config by (simp add: new_player_def)
    from entry_point_ghosts [OF e a] a Some show ?thesis by (simp add: finish_connect_def e sp id announce_world update_conv' Let_def)
  qed
  then show "map_of (sv_ghosts (snd (finish_connect exec c v))) name = map_of (sv_ghosts v) name"
    "map_of (sv_by_player_id (snd (finish_connect exec c v))) name = map_of (sv_by_player_id v) name" by simp_all
qed

lemma handle_leave_ghosts:
  assumes "\<forall>p. map_of (sv_players v) (cn_client_id c) = Some p \<longrightarrow> pl_player_id p \<noteq> name"
  shows "map_of (sv_ghosts (handle_leave c reason v)) name = map_of (sv_ghosts v) name"
    and "map_of (sv_by_player_id (handle_leave c reason v)) name = map_of (sv_by_player_id v) name"
proof -
  have "map_of (sv_ghosts (handle_leave c reason v)) name = map_of (sv_ghosts v) name \<and>
      map_of (sv_by_player_id (handle_leave c reason v)) name = map_of (sv_by_player_id v) name"
  proof (cases "map_of (sv_players v) (cn_client_id c)")
    case (Some p)
    then have "pl_player_id p \<noteq> name" using assms by simp
    then show ?thesis
      using Some by (simp add: handle_leave_def leave_ghost_def drop_player_def read_wall_ms_def update_conv' delete_conv' Let_def)
  qed (simp add: handle_leave_def)
  then show "map_of (sv_ghosts (handle_leave c reason v)) name = map_of (sv_ghosts v) name"
    "map_of (sv_by_player_id (handle_leave c reason v)) name = map_of (sv_by_player_id v) name" by simp_all
qed

text \<open>A heartbeat removes the ghosts that have expired and no others.\<close>

lemma queue_residents_frame:
  "sv_ghosts (foldl (queue_resident wall) v ps) = sv_ghosts v \<and> sv_by_player_id (foldl (queue_resident wall) v ps) = sv_by_player_id v \<and>
   sv_world (foldl (queue_resident wall) v ps) = sv_world v"
  by (induction ps arbitrary: v) (simp_all add: queue_resident_def)

lemma map_of_filter_kept: "map_of xs k = Some g \<Longrightarrow> P (k, g) \<Longrightarrow> map_of (filter P xs) k = Some g"
  by (induction xs) (auto split: if_splits)

lemma refresh_presence_ghosts:
  assumes "map_of (sv_ghosts v) name = Some g" and "now_ms < gh_expires_ms g"
  shows "map_of (sv_ghosts (refresh_presence exec now_ms v)) name = Some g" and "sv_by_player_id (refresh_presence exec now_ms v) = sv_by_player_id v"
proof -
  have keep: "map_of (filter (\<lambda>(i, ghost). \<not> gh_expires_ms ghost \<le> now_ms) (sv_ghosts v)) name = Some g"
    using assms by (intro map_of_filter_kept) simp_all
  show "map_of (sv_ghosts (refresh_presence exec now_ms v)) name = Some g" "sv_by_player_id (refresh_presence exec now_ms v) = sv_by_player_id v"
    using keep by (simp_all add: refresh_presence_def expire_ghosts_def read_wall_ms_def queue_residents_frame Let_def)
qed

lemma refresh_cluster_ghosts:
  assumes "map_of (sv_ghosts v) name = Some g" and "sv_clock v (sv_readings v) < gh_expires_ms g"
  shows "map_of (sv_ghosts (refresh_cluster exec p99 v)) name = Some g" and "sv_by_player_id (refresh_cluster exec p99 v) = sv_by_player_id v"
proof -
  let ?v = "v\<lparr>sv_readings := Suc (Suc (sv_readings v)), sv_coordinator := snd (refresh exec (sv_clock v (Suc (sv_readings v)))
      (sv_clock v (sv_readings v)) (word_of_nat (length (sv_players v))) p99 False (sv_coordinator v))\<rparr>"
  have "map_of (sv_ghosts ?v) name = Some g" using assms(1) by simp
  note r = refresh_presence_ghosts [OF this assms(2), of exec]
  show "map_of (sv_ghosts (refresh_cluster exec p99 v)) name = Some g" "sv_by_player_id (refresh_cluster exec p99 v) = sv_by_player_id v"
    using r assms(1) by (simp_all add: refresh_cluster_def read_wall_ms_def Let_def)
qed

lemma absence_keeps:
  assumes "absence exec cosf sinf name expires w v" and g: "map_of (sv_ghosts w) name = Some g" "gh_expires_ms g = expires"
    and away: "map_of (sv_by_player_id w) name = None"
  shows "map_of (sv_ghosts v) name = Some g \<and> map_of (sv_by_player_id v) name = None"
  using assms(1)
proof induction
  case gone
  then show ?case using g away by simp
next
  case (admitting v sender token)
  then show ?case using admit_frame by metis
next
  case (beginning v connection)
  then show ?case using begin_connect_frame by metis
next
  case (finishing v connection)
  then show ?case using finish_connect_ghosts by metis
next
  case (leaving v connection reason)
  then show ?case using handle_leave_ghosts by metis
next
  case (playing v connection data)
  then show ?case using handle_input_frame by metis
next
  case (stepping v)
  then show ?case by (simp add: step_service_def set_undefined_def split: option.split)
next
  case (replicating v client p scratch)
  then show ?case by (simp add: put_player_def)
next
  case (tallying v n)
  then show ?case by (simp add: count_snapshot_def Let_def)
next
  case (relocating v client p)
  then show ?case by (simp add: put_player_def)
next
  case (planning v c)
  then show ?case by simp
next
  case (reading v k)
  then show ?case by simp
next
  case (redirecting v client p)
  then show ?case by (simp add: mark_redirected_def put_player_def Let_def)
next
  case (faulting v)
  then show ?case by (simp add: set_undefined_def)
next
  case (refreshing v p99)
  then show ?case using refresh_cluster_ghosts [of v name g exec p99] g(2) by simp
next
  case (counting v)
  then show ?case by (simp add: count_tick_def)
qed

text \<open>
  All that a tick does after it has received is part of an absence, heartbeat included: the connections that it closes are those of
  other players.
\<close>

definition absent :: "'d exec \<Rightarrow> (f32 \<Rightarrow> f32) \<Rightarrow> (f32 \<Rightarrow> f32) \<Rightarrow> bytes \<Rightarrow> u64 \<Rightarrow> 'd world_service \<Rightarrow> 'd shard \<Rightarrow> bool" where
  "absent exec cosf sinf name expires w s \<longleftrightarrow> shard_ok s \<and> absence exec cosf sinf name expires w (cs_service s) \<and>
     map_of (sv_by_player_id (cs_service s)) name = None"

lemma absent_fold: "(\<And>s x. absent exec cosf sinf name expires w s \<Longrightarrow> absent exec cosf sinf name expires w (f s x)) \<Longrightarrow>
    absent exec cosf sinf name expires w s \<Longrightarrow> absent exec cosf sinf name expires w (foldl f s xs)"
  by (induction xs arbitrary: s) simp_all

lemma absent_others: "absent exec cosf sinf name expires w s \<Longrightarrow> map_of (sv_players (cs_service s)) c = Some p \<Longrightarrow> pl_player_id p \<noteq> name"
proof
  assume a: "absent exec cosf sinf name expires w s" and p: "map_of (sv_players (cs_service s)) c = Some p" "pl_player_id p = name"
  have s: "shard_ok s" "map_of (sv_by_player_id (cs_service s)) name = None" using a by (simp_all only: absent_def)
  have "roster_ok (map_of (sv_players (cs_service s))) (map_of (sv_by_player_id (cs_service s)))"
    using s(1) unfolding shard_ok_def by (blast dest: linkedD(3))
  from roster_okD [OF this, of name c] p have "map_of (sv_by_player_id (cs_service s)) name = Some c" by metis
  with s(2) show False by simp
qed

lemma remove_absent:
  assumes "absent exec cosf sinf name expires w s"
  shows "absent exec cosf sinf name expires w (remove_connection (world_handlers exec) a reason s)"
proof (cases "map_of (cs_connections s) a")
  case (Some c)
  have "\<forall>p. map_of (sv_players (cs_service s)) (cn_client_id c) = Some p \<longrightarrow> pl_player_id p \<noteq> name" using absent_others [OF assms] by blast
  note l = this handle_leave_ghosts(2) [OF this, of reason]
  have s: "shard_ok s" "absence exec cosf sinf name expires w (cs_service s)" "map_of (sv_by_player_id (cs_service s)) name = None"
    using assms by (simp_all add: absent_def)
  have "cs_service (remove_connection (world_handlers exec) a reason s) = handle_leave c reason (cs_service s)"
    using Some by (simp add: remove_connection_def world_handlers_def)
  with remove_shard_ok [OF s(1), of exec a reason] leaving [OF s(2) l(1), of reason] l(2) s(3) show ?thesis
    unfolding absent_def by metis
qed (use assms in \<open>simp add: remove_connection_def\<close>)

lemma disconnect_absent:
  "absent exec cosf sinf name expires w s \<Longrightarrow> absent exec cosf sinf name expires w (server_disconnect (world_handlers exec) a reason s)"
proof (cases "map_of (cs_connections s) a")
  case (Some c)
  assume "absent exec cosf sinf name expires w s"
  then have "absent exec cosf sinf name expires w (server_send to data (server_send to data (server_send to data s)))" for to data
    by (simp add: absent_def)
  from remove_absent [OF this] Some show ?thesis by (simp add: server_disconnect_def Let_def)
qed (simp add: server_disconnect_def)

lemma replicate_absent:
  assumes "absent exec cosf sinf name expires w s"
  shows "absent exec cosf sinf name expires w (replicate_player nth_element now s client)"
proof -
  have ok: "shard_ok (replicate_player nth_element now s client)" using assms replicate_player_ok by (auto simp: absent_def)
  have run: "absence exec cosf sinf name expires w (cs_service (replicate_player nth_element now s client))"
    using assms by (auto simp: absent_def replicate_player_def Let_def on_service_def send_payload_service
        intro!: faulting replicating tallying split: option.split prod.split)
  have names: "sv_by_player_id (cs_service (replicate_player nth_element now s client)) = sv_by_player_id (cs_service s)"
    by (auto simp: replicate_player_def Let_def on_service_def send_payload_service set_undefined_def put_player_def count_snapshot_def
        split: option.split prod.split)
  from ok run names assms show ?thesis by (simp add: absent_def)
qed

lemma start_handoff_absence:
  assumes "absence exec cosf sinf name expires w (cs_service s)"
  shows "absence exec cosf sinf name expires w (cs_service (start_handoff exec client p position velocity s))"
    and "sv_by_player_id (cs_service (start_handoff exec client p position velocity s)) = sv_by_player_id (cs_service s)"
proof -
  let ?w = "cs_service s"
  have undef: "absence exec cosf sinf name expires w (set_undefined (?w\<lparr>sv_readings := Suc (sv_readings ?w)\<rparr>))"
    by (intro faulting reading assms)
  have plan: "absence exec cosf sinf name expires w (?w\<lparr>sv_readings := Suc (sv_readings ?w), sv_coordinator := c\<rparr>)" for c
    by (intro planning reading assms)
  show "absence exec cosf sinf name expires w (cs_service (start_handoff exec client p position velocity s))"
    using undef plan by (auto simp: start_handoff_def read_wall_ms_def on_service_def Let_def intro!: redirecting split: option.split)
  show "sv_by_player_id (cs_service (start_handoff exec client p position velocity s)) = sv_by_player_id (cs_service s)"
    by (auto simp: start_handoff_def read_wall_ms_def on_service_def set_undefined_def mark_redirected_def put_player_def Let_def split: option.split)
qed

lemma migration_absent:
  assumes "absent exec cosf sinf name expires w s"
  shows "absent exec cosf sinf name expires w (check_migration exec s client)"
proof -
  have ok: "shard_ok (check_migration exec s client)" using assms check_migration_ok by (auto simp: absent_def)
  have ab: "absence exec cosf sinf name expires w (cs_service s)" using assms by (simp add: absent_def)
  note start = start_handoff_absence [OF ab]
  have run: "absence exec cosf sinf name expires w (cs_service (check_migration exec s client))"
    using ab start(1) by (auto simp: check_migration_def on_service_def Let_def intro!: faulting relocating split: option.split)
  have names: "sv_by_player_id (cs_service (check_migration exec s client)) = sv_by_player_id (cs_service s)"
    using start(2) by (auto simp: check_migration_def on_service_def put_player_def set_undefined_def Let_def split: option.split)
  from ok run names assms show ?thesis by (simp add: absent_def)
qed

lemma redirect_absent:
  assumes "absent exec cosf sinf name expires w s"
  shows "absent exec cosf sinf name expires w (expire_redirect exec s client)"
proof (cases "find_client client s")
  case None
  have "shard_ok s" using assms by (simp add: absent_def)
  then have "map_of (sv_players (cs_service s)) client = None" by (rule unconnected_client [OF _ None])
  with None assms show ?thesis by (simp add: expire_redirect_def)
qed (use assms disconnect_absent in \<open>auto simp: expire_redirect_def\<close>)

lemma flush_service: "cs_service (server_flush now (s :: 'd shard)) = cs_service s"
proof -
  have one: "cs_service (flush_connection now a s) = cs_service s" for a and s :: "'d shard"
    by (simp add: flush_connection_def send_payload_service Let_def split: option.split)
  have "cs_service (foldl (\<lambda>s a. flush_connection now a s) s xs) = cs_service s" for xs and s :: "'d shard"
    by (induction xs arbitrary: s) (simp_all add: one)
  then show ?thesis by (simp add: server_flush_def Let_def)
qed

lemma tick_absence:
  assumes "absent exec cosf sinf name expires w s"
    and t: "t = server_flush now (timeout_connections (world_handlers exec) now (check_migrations exec
      (replicate_all nth_element now (on_service (step_service cosf sinf) s))))"
    and "sv_clock (cs_service t) (sv_readings (cs_service t)) < expires"
  shows "absence exec cosf sinf name expires w (cs_service (on_service count_tick (on_service (refresh_cluster exec p99) t)))"
proof -
  have "absent exec cosf sinf name expires w (on_service (step_service cosf sinf) s)"
  proof -
    have s: "shard_ok s" "absence exec cosf sinf name expires w (cs_service s)" "map_of (sv_by_player_id (cs_service s)) name = None"
      using assms(1) by (simp_all add: absent_def)
    have "sv_by_player_id (step_service cosf sinf (cs_service s)) = sv_by_player_id (cs_service s)"
      by (simp add: step_service_def set_undefined_def split: option.split)
    with on_service_ok [of s "step_service cosf sinf", OF s(1) step_roster] stepping [OF s(2)] s(3) show ?thesis by (simp add: absent_def on_service_def)
  qed
  then have "absent exec cosf sinf name expires w (replicate_all nth_element now (on_service (step_service cosf sinf) s))"
    unfolding replicate_all_def by (intro absent_fold replicate_absent)
  then have "absent exec cosf sinf name expires w (check_migrations exec (replicate_all nth_element now (on_service (step_service cosf sinf) s)))"
    unfolding check_migrations_def Let_def by (auto intro!: absent_fold intro: redirect_absent migration_absent)
  then have "absent exec cosf sinf name expires w (timeout_connections (world_handlers exec) now
      (check_migrations exec (replicate_all nth_element now (on_service (step_service cosf sinf) s))))"
    unfolding timeout_connections_def by (intro absent_fold remove_absent)
  then have "absence exec cosf sinf name expires w (cs_service t)" by (simp add: t flush_service absent_def)
  from counting [OF refreshing [OF this assms(3), of p99]] show ?thesis by (simp add: on_service_def)
qed

text \<open>An admission with a session credential, when none is pending for the player.\<close>

lemma admit_session_state:
  assumes "decode_credential token = Some c" and "cc_kind c = kSession" and "map_of (sv_pending_by_player v) (cc_player_id c) = None"
    and "admit exec sender token v = (d, w)" and "ad_admit d"
  shows "\<exists>a. map_of (sv_pending_admits w) (ad_client_id d) = Some a \<and> pa_credential a = c \<and> pa_ticket a = None"
    and "sv_world w = sv_world v" and "sv_players w = sv_players v" and "sv_clock w = sv_clock v"
proof -
  obtain now v1 where now: "read_wall_ms v = (now, v1)" by (rule prod.exhaust)
  have v1: "sv_world v1 = sv_world v" "sv_players v1 = sv_players v" "sv_clock v1 = sv_clock v" "sv_pending_by_player v1 = sv_pending_by_player v"
    using now by (auto simp: read_wall_ms_def)
  obtain r v2 where r: "check_credential exec c v1 = (r, v2)" by (rule prod.exhaust)
  have v2: "sv_world v2 = sv_world v1" "sv_players v2 = sv_players v1" "sv_clock v2 = sv_clock v1"
    using r assms(2) by (auto simp: check_credential_def Let_def split: if_splits prod.splits)
  have tick: "ticket = None" if "r = Inr (ticket, region)" for ticket region
    using r that assms(2) by (auto simp: check_credential_def Let_def split: if_splits prod.splits option.splits)
  have run: "admit_new exec c now v1 = (d, w)" using assms(1,3,4) now v1(4) by (simp add: admit_def)
  have room: "\<not> unat (wsc_capacity (sv_config v1)) \<le> length (sv_players v1)"
    using run assms(5) by (auto simp: admit_new_def refuse_def)
  obtain ticket region where tr: "r = Inr (ticket, region)"
    using run assms(5) room r by (cases r) (auto simp: admit_new_def refuse_def)
  show "\<exists>a. map_of (sv_pending_admits w) (ad_client_id d) = Some a \<and> pa_credential a = c \<and> pa_ticket a = None"
    "sv_world w = sv_world v" "sv_players w = sv_players v" "sv_clock w = sv_clock v"
    using run room r tr tick [OF tr] v1 v2 by (auto simp: admit_new_def Let_def update_conv')
qed

text \<open>
  C4: a session survives the loss of its connection. A player that is not being handed off leaves; while it is away the shard
  admits, simulates, replicates, hands off and refreshes as usual; then the player is admitted with a credential of its name and
  session token and its connection is established before the reconnect grace is over. It is then the same player in the same region
  under a new client, its new entity has the position, the velocity and the last input of the one that was removed when it left,
  no other entity is touched, and its ghost is gone. At its return the world has a fresh entity and room, and no admission of the
  player is pending.
\<close>

theorem reconnect_resumes:
  assumes player: "map_of (sv_players w) (cn_client_id old) = Some player" "\<not> pl_redirecting player"
      "map_of (sv_by_player_id w) (pl_player_id player) = Some (cn_client_id old)"
    and entity: "es_view (w_entities (sv_world w)) (pl_entity player) = Some e" "es_wf (w_entities (sv_world w))"
    and expires: "expires = sv_clock w (sv_readings w) + ucast (wsc_reconnect_grace_ms (sv_config w))"
    and away: "absence exec cosf sinf (pl_player_id player) expires (handle_leave old reason w) v"
    and world: "es_wf (w_entities (sv_world v))" "es_view (w_entities (sv_world v)) (w_next_entity (sv_world v)) = None"
      "0 < es_room (w_entities (sv_world v))"
    and credential: "decode_credential token = Some \<lparr>cc_kind = kSession, cc_token = pl_session_token player, cc_player_id = pl_player_id player\<rparr>"
      "map_of (sv_pending_by_player v) (pl_player_id player) = None"
    and admitted: "admit exec sender token v = (d, w1)" "ad_admit d" "cn_client_id new = ad_client_id d" "map_of (sv_players v) (ad_client_id d) = None"
      "sv_clock w1 (sv_readings w1) < expires"
    and connect: "begin_connect new w1 = (replaced, w2)" "finish_connect exec new w2 = (c, w')"
  shows "es_view (w_entities (sv_world (handle_leave old reason w))) = (es_view (w_entities (sv_world w)))(pl_entity player := None) \<and>
     replaced = None \<and>
     (\<exists>p. player_by_id (pl_player_id player) w' = Some p \<and> pl_client p = ad_client_id d \<and> pl_player_id p = pl_player_id player \<and>
        pl_region p = pl_region player \<and> pl_session_token p = pl_session_token player \<and>
        pl_last_input_sequence p = e_last_input_sequence e \<and> cn_entity c = pl_entity p \<and>
        es_view (w_entities (sv_world v)) (pl_entity p) = None \<and>
        es_view (w_entities (sv_world w')) = (es_view (w_entities (sv_world v)))(pl_entity p \<mapsto>
          entered_entity (pl_entity p) (ad_client_id d) (e_position e) (e_velocity e) (e_last_input_sequence e))) \<and>
     map_of (sv_ghosts w') (pl_player_id player) = None"
proof -
  let ?k = "ad_client_id d" and ?name = "pl_player_id player" and ?g = "ghost_of player e expires"
  note gone = leave_state [OF player(1,2) entity(1), of reason, folded expires]
  have left: "map_of (sv_ghosts (handle_leave old reason w)) ?name = Some ?g" "map_of (sv_by_player_id (handle_leave old reason w)) ?name = None"
    using player(3) by (simp_all add: gone(2,4) update_conv' delete_conv')
  have here: "map_of (sv_ghosts v) ?name = Some ?g" "map_of (sv_by_player_id v) ?name = None"
    using absence_keeps [OF away left(1) _ left(2)] by (simp_all add: ghost_of_def)
  obtain a where a: "map_of (sv_pending_admits w1) ?k = Some a" "pa_ticket a = None"
      "pa_credential a = \<lparr>cc_kind = kSession, cc_token = pl_session_token player, cc_player_id = ?name\<rparr>"
    and w1: "sv_world w1 = sv_world v" "sv_players w1 = sv_players v" "sv_clock w1 = sv_clock v"
    using admit_session_state [OF credential(1) _ _ admitted(1,2)] credential(2) by auto
  have frame: "sv_ghosts w1 = sv_ghosts v" "sv_by_player_id w1 = sv_by_player_id v" using admit_frame [of exec sender token v] admitted(1) by simp_all
  have w2: "replaced = None" "sv_entering w2 = Some a" "sv_world w2 = sv_world v" "sv_ghosts w2 = sv_ghosts v" "sv_players w2 = sv_players v"
      "sv_clock w2 = sv_clock w1" "sv_readings w2 = sv_readings w1"
    using connect(1) a here(2) w1 frame by (auto simp: begin_connect_def admitted(3) Let_def)
  have ghost: "map_of (sv_ghosts w2) ?name = Some ?g" using here(1) by (simp add: w2(4))
  have none: "map_of (sv_players w2) (cn_client_id new) = None" using admitted(4) by (simp add: w2(5) admitted(3))
  obtain f world' where sp: "spawn_player (cn_client_id new) (gh_position ?g) (sv_world w2) = (f, world')" by (rule prod.exhaust)
  have name: "cc_player_id (pa_credential a) = ?name" "cc_token (pa_credential a) = pl_session_token player" using a(3) by simp_all
  have time: "gh_expires_ms ?g > sv_clock w2 (sv_readings w2)" "gh_session_token ?g = cc_token (pa_credential a)"
    using admitted(5) name(2) by (simp_all add: ghost_of_def w2(6,7))
  note again = resume_state [OF w2(2) a(2) name(1) ghost time none sp connect(2)]
  note view = spawn_adopt_view(2) [OF world [folded w2(3)] sp, where v = "gh_velocity ?g" and n = "gh_last_input_sequence ?g"]
  have fresh: "es_view (w_entities (sv_world v)) f = None" using world(2) spawn_adopt_view(1) [OF world [folded w2(3)] sp] by (simp add: w2(3))
  have "es_view (w_entities (sv_world w')) = (es_view (w_entities (sv_world v)))(f \<mapsto> entered_entity f ?k (e_position e) (e_velocity e) (e_last_input_sequence e))"
    using view by (simp add: again(1) w2(3) admitted(3) ghost_of_def)
  with again(2-5) w2(1) name fresh despawn_view(2) [OF entity(2,1)] show ?thesis
    by (simp add: gone(1) player_by_id_def new_player_def ghost_of_def delete_conv' admitted(3))
qed

text \<open>
  A shard \<open>world-a\<close> with one player, called \<open>p\<close>, that stands on entity 1, a clock that advances by three seconds from reading to
  reading, and a registry whose presence records name this shard and the token 77.
\<close>

definition sample_answers :: "unit exec" where
  "sample_answers cmd d = (if take 1 cmd = [ascii ''HGETALL'']
     then kArray (map kString [ascii ''shard'', ascii ''world-a'', ascii ''session'', dec 77]) else kInteger 0, d)"

definition sample_connection :: "client_id \<Rightarrow> connection" where
  "sample_connection client = \<lparr>cn_client_id = client, cn_address = sample_address, cn_salt = 0, cn_token = [], cn_entity = kInvalidEntity,
     cn_last_receive_us = 0, cn_last_send_us = 0, cn_connected_at_us = 0, cn_disconnecting = False, cn_reliability = mk_endpoint\<rparr>"

definition sample_credential :: connect_credential where
  "sample_credential = \<lparr>cc_kind = kSession, cc_token = 77, cc_player_id = ascii ''p''\<rparr>"

definition sample_admit :: pending_admit where
  "sample_admit = \<lparr>pa_client = 1, pa_credential = sample_credential, pa_ticket = None, pa_region = 0, pa_expires_ms = 15000\<rparr>"

definition sample_resident :: "unit world_service" where
  "sample_resident = (sample_service ())\<lparr>sv_config := sample_config\<lparr>wsc_advertise := True\<rparr>,
     sv_world := snd (spawn_player 1 (vec 0x44800000 0x44800000) mk_world), sv_next_client := 2, sv_clock := (\<lambda>n. word_of_nat (3000 * n)),
     sv_players := [(1, new_player sample_admit 1 1 3 7 sample_config)], sv_by_player_id := [(ascii ''p'', 1)]\<rparr>"

definition sample_left :: "unit world_service" where
  "sample_left = handle_leave (sample_connection 1) ''timed out'' sample_resident"

definition sample_later :: "unit world_service" where
  "sample_later = refresh_cluster sample_answers [] sample_left"

lemma queue_residents_rest:
  "sv_players (foldl (queue_resident wall) v ps) = sv_players v \<and> sv_config (foldl (queue_resident wall) v ps) = sv_config v \<and>
   sv_pending_by_player (foldl (queue_resident wall) v ps) = sv_pending_by_player v \<and> sv_clock (foldl (queue_resident wall) v ps) = sv_clock v \<and>
   sv_next_client (foldl (queue_resident wall) v ps) = sv_next_client v \<and> sv_readings (foldl (queue_resident wall) v ps) = sv_readings v"
  by (induction ps arbitrary: v) (simp_all add: queue_resident_def)

lemma refresh_cluster_rest:
  "sv_world (refresh_cluster exec p99 v) = sv_world v \<and> sv_players (refresh_cluster exec p99 v) = sv_players v \<and>
   sv_config (refresh_cluster exec p99 v) = sv_config v \<and> sv_pending_by_player (refresh_cluster exec p99 v) = sv_pending_by_player v \<and>
   sv_clock (refresh_cluster exec p99 v) = sv_clock v \<and> sv_next_client (refresh_cluster exec p99 v) = sv_next_client v \<and>
   sv_readings (refresh_cluster exec p99 v) \<le> sv_readings v + 3"
  by (simp add: refresh_cluster_def refresh_presence_def expire_ghosts_def read_wall_ms_def queue_residents_frame queue_residents_rest Let_def)

text \<open>A registry without faults stays one.\<close>

lemma flush_clear: "flush exec g = (x, g') \<Longrightarrow> rg_outcomes g = [] \<Longrightarrow> rg_queue g' = [] \<and> rg_outcomes g' = []"
  by (auto simp: flush_def split: prod.splits if_splits)

lemma queue_outcomes [simp]: "rg_outcomes (queue cmd g) = rg_outcomes g" "rg_outcomes (queue_prune i g) = rg_outcomes g"
  by (simp_all add: queue_def queue_prune_def)

lemma fold_outcomes:
  "rg_outcomes (fold (\<lambda>i g. queue [op, shard_key g i] g) ids g) = rg_outcomes g" "rg_outcomes (fold queue_prune ids g) = rg_outcomes g"
  by (induction ids arbitrary: g) simp_all

lemma heartbeat_outcomes: "heartbeat_shard exec wall s ttl g = (b, g') \<Longrightarrow> rg_outcomes g = [] \<Longrightarrow> rg_outcomes g' = []"
  by (auto simp: heartbeat_shard_def Let_def dest!: flush_clear split: if_splits prod.splits)

lemma command_outcomes: "command exec cmd g = (x, g') \<Longrightarrow> rg_outcomes g = [] \<Longrightarrow> rg_outcomes g' = []"
  by (auto simp: command_def dest!: flush_clear split: prod.splits)

lemma live_outcomes: "live_shards exec g = (x, g') \<Longrightarrow> rg_outcomes g = [] \<Longrightarrow> rg_outcomes g' = []"
  by (auto simp: live_shards_def fold_outcomes Let_def dest!: flush_clear command_outcomes split: if_splits prod.splits)

lemma refresh_outcomes: "rg_outcomes (sc_registry c) = [] \<Longrightarrow> rg_outcomes (sc_registry (snd (refresh exec wall now n p99 b c))) = []"
  by (auto simp: refresh_def recompute_ownership_def Let_def dest!: heartbeat_outcomes live_outcomes split: prod.split bool.split)

lemma queue_residents_outcomes:
  "rg_outcomes (sc_registry (sv_coordinator (foldl (queue_resident wall) v ps))) = rg_outcomes (sc_registry (sv_coordinator v))"
  by (induction ps arbitrary: v) (simp_all add: queue_resident_def queue_touch_presence_def queue_set_presence_def Let_def)

lemma refresh_presence_registry:
  assumes "rg_outcomes (sc_registry (sv_coordinator v)) = []"
  shows "rg_queue (sc_registry (sv_coordinator (refresh_presence exec now v))) = []"
    and "rg_outcomes (sc_registry (sv_coordinator (refresh_presence exec now v))) = []"
  using assms by (auto simp: refresh_presence_def expire_ghosts_def flush_presence_def read_wall_ms_def queue_residents_outcomes Let_def
      dest!: flush_clear split: prod.split)

lemma sample_record:
  assumes "rg_queue g = []" and "rg_outcomes g = []"
  shows "\<exists>r g'. get_presence sample_answers player g = (Some r, g') \<and> pr_shard_id r = ascii ''world-a'' \<and> pr_session_token r = 77"
proof -
  have "strtoull (dec 77) = 77" using strtoull_dec [of 77] by simp
  then show ?thesis
    using assms by (simp add: get_presence_def command_def flush_def flush_effect_def next_outcome_def sample_answers_def queue_def field_u64_def
        dec_nonempty Let_def)
qed

lemma sample_left_state:
  "sv_config sample_left = sample_config\<lparr>wsc_advertise := True\<rparr>" "sv_players sample_left = []" "sv_pending_by_player sample_left = []"
  "sv_next_client sample_left = 2" "sv_clock sample_left = (\<lambda>n. word_of_nat (3000 * n))" "sv_last_presence_refresh_ms sample_left = 0"
  "rg_outcomes (sc_registry (sv_coordinator sample_left)) = []"
  by (simp_all add: sample_left_def handle_leave_def sample_resident_def sample_connection_def new_player_def leave_ghost_def drop_player_def
      read_wall_ms_def sample_service_def Let_def)

lemma sample_entity:
  "w_entities (sv_world sample_resident) = snd (es_add 1 kPlayer (vec 0x44800000 0x44800000) 1 es_empty)" "w_next_entity (sv_world sample_resident) = 2"
  "es_wf (w_entities (sv_world sample_resident))"
  "es_view (w_entities (sv_world sample_resident)) 1 = Some (entered_entity 1 1 (vec 0x44800000 0x44800000) (vec 0 0) 0)"
  "es_view (w_entities (sv_world sample_resident)) 2 = None"
proof -
  show s: "w_entities (sv_world sample_resident) = snd (es_add 1 kPlayer (vec 0x44800000 0x44800000) 1 es_empty)"
    by (simp add: sample_resident_def spawn_player_def mk_world_def Let_def)
  show "w_next_entity (sv_world sample_resident) = 2" by (simp add: sample_resident_def spawn_player_def mk_world_def Let_def)
  have blank: "es_view es_empty k = None" for k by (simp add: es_view_def es_empty_def)
  have room: "0 < es_room es_empty" by (simp add: es_room_def es_empty_def)
  note added = es_add_law [OF es_wf_empty blank room, of 1 kPlayer "vec 0x44800000 0x44800000" 1]
  show "es_wf (w_entities (sv_world sample_resident))"
    "es_view (w_entities (sv_world sample_resident)) 1 = Some (entered_entity 1 1 (vec 0x44800000 0x44800000) (vec 0 0) 0)"
    "es_view (w_entities (sv_world sample_resident)) 2 = None"
    unfolding s using added blank by (simp_all add: entered_entity_def)
qed

lemma sample_left_reading: "sv_readings sample_left = 1"
proof -
  obtain i where "es_index_of (w_entities (sv_world sample_resident)) 1 = Some i" using es_view_row [OF sample_entity(4)] by blast
  moreover have "pl_entity (new_player sample_admit 1 1 3 7 sample_config) = 1" "\<not> pl_redirecting (new_player sample_admit 1 1 3 7 sample_config)"
    by (simp_all add: new_player_def)
  moreover have "map_of (sv_players sample_resident) (cn_client_id (sample_connection 1)) = Some (new_player sample_admit 1 1 3 7 sample_config)"
      "sv_readings sample_resident = 0"
    by (simp_all add: sample_resident_def sample_connection_def sample_service_def)
  ultimately show ?thesis
    by (simp add: sample_left_def handle_leave_def leave_ghost_def drop_player_def read_wall_ms_def es_find_index Let_def)
qed

lemma sample_later_state:
  "sv_world sample_later = sv_world sample_left" "sv_config sample_later = sample_config\<lparr>wsc_advertise := True\<rparr>" "sv_players sample_later = []"
  "sv_pending_by_player sample_later = []" "sv_next_client sample_later = 2" "sv_clock sample_later = (\<lambda>n. word_of_nat (3000 * n))"
  "sv_readings sample_later \<le> 4" "rg_queue (sc_registry (sv_coordinator sample_later)) = []"
  "rg_outcomes (sc_registry (sv_coordinator sample_later)) = []"
proof -
  show "sv_world sample_later = sv_world sample_left" "sv_config sample_later = sample_config\<lparr>wsc_advertise := True\<rparr>" "sv_players sample_later = []"
    "sv_pending_by_player sample_later = []" "sv_next_client sample_later = 2" "sv_clock sample_later = (\<lambda>n. word_of_nat (3000 * n))"
    "sv_readings sample_later \<le> 4"
    unfolding sample_later_def using refresh_cluster_rest [of sample_answers "[]" sample_left] by (simp_all add: sample_left_state sample_left_reading)
  let ?v = "sample_left\<lparr>sv_readings := Suc (Suc (Suc 0)), sv_coordinator := snd (refresh sample_answers (word_of_nat 6000) (word_of_nat 3000) 0 [] False (sv_coordinator sample_left))\<rparr>"
  have later: "sample_later = refresh_presence sample_answers (word_of_nat 3000) ?v"
    by (simp add: sample_later_def refresh_cluster_def read_wall_ms_def sample_left_state sample_left_reading kPresenceRefreshMs_def Let_def)
  have "rg_outcomes (sc_registry (sv_coordinator ?v)) = []" using refresh_outcomes [OF sample_left_state(7)] by simp
  from refresh_presence_registry [OF this] show "rg_queue (sc_registry (sv_coordinator sample_later)) = []"
    "rg_outcomes (sc_registry (sv_coordinator sample_later)) = []" unfolding later by simp_all
qed

lemma sample_admitted:
  assumes "decode_credential token = Some sample_credential"
  obtains d w1 where "admit sample_answers sample_address token sample_later = (d, w1)" and "ad_admit d" and "ad_client_id d = 2"
    and "sv_clock w1 (sv_readings w1) < 20000"
proof -
  let ?v = "sample_later\<lparr>sv_readings := Suc (sv_readings sample_later)\<rparr>"
  obtain r g where r: "get_presence sample_answers (ascii ''p'') (sc_registry (sv_coordinator sample_later)) = (Some r, g)"
      "pr_shard_id r = ascii ''world-a''" "pr_session_token r = 77"
    using sample_record [OF sample_later_state(8,9)] by blast
  let ?v2 = "?v\<lparr>sv_coordinator := (sv_coordinator sample_later)\<lparr>sc_registry := g\<rparr>\<rparr>"
  have c: "check_credential sample_answers sample_credential ?v = (Inr (None, pr_region r), ?v2)"
    using r by (simp add: check_credential_def sample_credential_def sample_later_state sample_config_def Let_def)
  obtain d w1 where run: "admit sample_answers sample_address token sample_later = (d, w1)" by (rule prod.exhaust)
  have "sample_credential = \<lparr>cc_kind = kSession, cc_token = 77, cc_player_id = ascii ''p''\<rparr>" by (simp add: sample_credential_def)
  then have w1: "ad_admit d" "ad_client_id d = 2" "sv_clock w1 = (\<lambda>n. word_of_nat (3000 * n))" "sv_readings w1 = Suc (sv_readings sample_later)"
    using run assms c by (auto simp: admit_def admit_new_def read_wall_ms_def sample_later_state sample_config_def Let_def)
  have "unat (word_of_nat (3000 * Suc (sv_readings sample_later)) :: u64) = 3000 * Suc (sv_readings sample_later)"
    by (rule unat_of_nat_less) (use sample_later_state(7) in simp)
  then have "unat (word_of_nat (3000 * Suc (sv_readings sample_later)) :: u64) < 20000" using sample_later_state(7) by simp
  then have "sv_clock w1 (sv_readings w1) < 20000" unfolding w1(3,4) word_less_nat_alt by simp
  with run w1(1,2) show thesis by (rule that)
qed

theorem reconnect_resumes_witness:
  "\<exists>token d w1 c w' p e. decode_credential token = Some sample_credential \<and>
     admit sample_answers sample_address token (refresh_cluster sample_answers [] (handle_leave (sample_connection 1) ''timed out'' sample_resident)) = (d, w1) \<and>
     finish_connect sample_answers (sample_connection 2) (snd (begin_connect (sample_connection 2) w1)) = (c, w') \<and>
     player_by_id (ascii ''p'') w' = Some p \<and> pl_region p = 3 \<and> es_view (w_entities (sv_world w')) (pl_entity p) = Some e \<and>
     e_position e = vec 0x44800000 0x44800000"
proof -
  let ?p = "new_player sample_admit 1 1 3 7 sample_config" and ?e = "entered_entity 1 1 (vec 0x44800000 0x44800000) (vec 0 0) 0"
  have id: "cn_client_id (sample_connection k) = k" for k by (simp add: sample_connection_def)
  have p: "pl_player_id ?p = ascii ''p''" "pl_entity ?p = 1" "pl_region ?p = 3" "pl_session_token ?p = 77" "\<not> pl_redirecting ?p"
    by (simp_all add: new_player_def sample_admit_def sample_credential_def)
  have "cc_player_id sample_credential \<noteq> []" "length (cc_player_id sample_credential) \<le> kMaxPlayerIdBytes"
    by (simp_all add: sample_credential_def kMaxPlayerIdBytes_def)
  then obtain token where tok: "decode_credential token = Some sample_credential"
    using credential_roundtrip [of sample_credential] by (auto split: if_splits bind_splits)
  obtain d w1 where adm: "admit sample_answers sample_address token sample_later = (d, w1)" "ad_admit d" "ad_client_id d = 2"
      "sv_clock w1 (sv_readings w1) < 20000" by (rule sample_admitted [OF tok])
  obtain replaced w2 where b: "begin_connect (sample_connection 2) w1 = (replaced, w2)" by (rule prod.exhaust)
  obtain c w' where f: "finish_connect sample_answers (sample_connection 2) w2 = (c, w')" by (rule prod.exhaust)
  have res: "map_of (sv_players sample_resident) (cn_client_id (sample_connection 1)) = Some ?p"
      "map_of (sv_by_player_id sample_resident) (pl_player_id ?p) = Some (cn_client_id (sample_connection 1))"
    unfolding p id by (simp_all add: sample_resident_def)
  have time: "20000 = sv_clock sample_resident (sv_readings sample_resident) + ucast (wsc_reconnect_grace_ms (sv_config sample_resident))"
    by (simp add: sample_resident_def sample_service_def sample_config_def)
  have early: "sv_clock sample_left (sv_readings sample_left) < 20000" by (simp add: sample_left_state sample_left_reading)
  have away: "absence sample_answers (\<lambda>_. f_one) (\<lambda>_. 0) (pl_player_id ?p) 20000 (handle_leave (sample_connection 1) ''timed out'' sample_resident) sample_later"
    using refreshing [OF gone, OF early, of sample_answers "\<lambda>_. f_one" "\<lambda>_. 0" _ "[]"] by (simp add: sample_later_def sample_left_def)
  have ent: "es_view (w_entities (sv_world sample_resident)) (pl_entity ?p) = Some ?e" using sample_entity(4) by (simp add: p(2))
  note gone = leave_state [OF res(1) p(5) ent, of "''timed out''", folded sample_left_def]
  note rest = despawn_view [OF sample_entity(3) ent]
  have world: "es_wf (w_entities (sv_world sample_later))" "es_view (w_entities (sv_world sample_later)) (w_next_entity (sv_world sample_later)) = None"
      "0 < es_room (w_entities (sv_world sample_later))"
    unfolding sample_later_state gone(1) using rest sample_entity(2,5) by simp_all
  have cred: "decode_credential token = Some \<lparr>cc_kind = kSession, cc_token = pl_session_token ?p, cc_player_id = pl_player_id ?p\<rparr>"
      "map_of (sv_pending_by_player sample_later) (pl_player_id ?p) = None" "cn_client_id (sample_connection 2) = ad_client_id d"
      "map_of (sv_players sample_later) (ad_client_id d) = None"
    using tok adm(3) by (simp_all add: sample_credential_def p id sample_later_state)
  note result = reconnect_resumes [OF res(1) p(5) res(2) ent sample_entity(3) time away world cred(1,2) adm(1,2) cred(3,4) adm(4) b f]
  obtain q where "player_by_id (ascii ''p'') w' = Some q" "pl_region q = 3" "es_view (w_entities (sv_world w')) (pl_entity q) =
      Some (entered_entity (pl_entity q) (ad_client_id d) (e_position ?e) (e_velocity ?e) (e_last_input_sequence ?e))"
    using result unfolding p by auto
  then show ?thesis using tok adm(1) b f by (auto simp: sample_later_def sample_left_def entered_entity_def)
qed

end
