(* ===== verification/Shard_Start.thy ===== *)
theory Shard_Start
  imports World_Server_Invariant World_Invariant
begin

text \<open>
  The world of a shard that has just started: where its drifters stand, and that it is one of the worlds for which every tick
  has a result.
\<close>

section \<open>The square of the drifters\<close>

lemma size_nonneg: "world_params_ok p \<Longrightarrow> 0 \<le> f_units (wp_size p)"
proof -
  assume p: "world_params_ok p"
  have f: "f_finite (wp_size p)" "f_finite (wp_player_radius p)" "0 \<le> f_units (wp_player_radius p)"
      "f_units (wp_player_radius p) \<le> f_units (f_sub (wp_size p) (wp_player_radius p))"
    using p by (simp_all add: world_params_ok_def movement_ok_def)
  have "f_key (f_sub (wp_size p) (wp_player_radius p)) \<le> f_key (wp_size p)"
    unfolding f_key_sub [OF f(1,2)] by (rule rkey_le [OF f(1)]) (use f(3) in simp_all)
  then have "f_units (f_sub (wp_size p) (wp_player_radius p)) \<le> f_units (wp_size p)" by (simp only: f_units_le_iff)
  with f(3,4) show ?thesis by simp
qed

text \<open>A fraction of the size: a number of thousandths below one, times the size.\<close>

lemma drifter_axis_range:
  assumes p: "world_params_ok p"
  shows "f_finite (drifter_axis n p)" and "0 \<le> f_units (drifter_axis n p)" and "f_units (drifter_axis n p) \<le> f_units (wp_size p)"
proof -
  let ?n = "uint (n mod 1000)"
  have "?n = uint n mod 1000" by (simp add: uint_mod_distrib)
  then have n: "0 \<le> ?n" "?n < 1000" using pos_mod_bound [of 1000 "uint n"] by simp_all
  have x: "f_finite (f_of_int ?n)" "f_units (f_of_int ?n) = ?n * 2 ^ 149" using n by (simp_all add: f_of_int_exact)
  have c: "f_finite f_thousand" "f_units f_thousand = 1000 * 2 ^ 149" by code_simp+
  let ?q = "f_div (f_of_int ?n) f_thousand"
  have d: "(0 :: int) < 1000 * 2 ^ 149" by simp
  have k: "f_key ?q = rkey (?n * 2 ^ 149 * 2 ^ 149) (1000 * 2 ^ 149)" using f_key_div(1) [OF x(1) c(1)] by (simp add: c(2) x(2))
  have "f_units 0 * (1000 * 2 ^ 149) \<le> ?n * 2 ^ 149 * 2 ^ 149" "?n * 2 ^ 149 * 2 ^ 149 \<le> f_units f_one * (1000 * 2 ^ 149)"
    using n by (simp_all add: zero_units f_one_units)
  note q = rounded_between [OF k d zero_units(1) f_one_units(1) this]
  have size: "f_finite (wp_size p)" "0 \<le> f_units (wp_size p)" using p size_nonneg by (simp_all add: world_params_ok_def f_within_def)
  have e: "(0 :: int) < 2 ^ 149" by simp
  have "f_units 0 * 2 ^ 149 \<le> f_units ?q * f_units (wp_size p)" "f_units ?q * f_units (wp_size p) \<le> f_units (wp_size p) * 2 ^ 149"
    using q(2,3) size(2) mult_right_mono [of "f_units ?q" "2 ^ 149" "f_units (wp_size p)"] by (simp_all add: zero_units f_one_units mult.commute)
  note r = rounded_between [OF f_key_mul [OF q(1) size(1)] e zero_units(1) size(1) this]
  show "f_finite (drifter_axis n p)" "0 \<le> f_units (drifter_axis n p)" "f_units (drifter_axis n p) \<le> f_units (wp_size p)"
    unfolding drifter_axis_def using r by (simp_all add: zero_units)
qed

lemma drifter_point_on_world: "world_params_ok p \<Longrightarrow> on_world p (drifter_point p i)"
  by (simp add: on_world_def drifter_point_def Let_def drifter_axis_range)


section \<open>The world of a started shard\<close>

lemma drifters_run:
  assumes "world_run cosf sinf p n w" and p: "world_params_ok p" and "w_next_entity w = 1" and "es_id (w_entities w) = []" and "k < 4294967295"
  shows "world_run cosf sinf p n (foldl (\<lambda>world i. snd (spawn_drifter (drifter_point p (word_of_nat i)) world)) w [0..<k]) \<and>
    w_next_entity (foldl (\<lambda>world i. snd (spawn_drifter (drifter_point p (word_of_nat i)) world)) w [0..<k]) = word_of_nat (Suc k) \<and>
    length (es_id (w_entities (foldl (\<lambda>world i. snd (spawn_drifter (drifter_point p (word_of_nat i)) world)) w [0..<k]))) = k"
  using assms(5)
proof (induction k)
  case 0
  then show ?case using assms by simp
next
  case (Suc k)
  let ?w = "foldl (\<lambda>world i. snd (spawn_drifter (drifter_point p (word_of_nat i)) world)) w [0..<k]"
  have w: "world_run cosf sinf p n ?w" "w_next_entity ?w = word_of_nat (Suc k)" "length (es_id (w_entities ?w)) = k" using Suc by simp_all
  have "unat (word_of_nat (Suc k) :: u32) = Suc k" by (rule unat_of_nat_less) (use Suc.prems in simp)
  then have "w_next_entity ?w \<noteq> 0xffffffff" using w(2) Suc.prems by (auto simp: word_unat_eq_iff)
  from world_run.drifting [OF w(1) drifter_point_on_world [OF p] this, of "word_of_nat k"] w(2,3) show ?case
    by (simp add: spawn_drifter_def es_add_def Let_def)
qed

lemma started_world:
  assumes "world_server_start exec env config s = (True, s')" and "world_configure (wsc_params config) 64 (sv_world (cs_service s)) = Some w0"
  shows "sv_world (cs_service s') =
    foldl (\<lambda>world i. snd (spawn_drifter (drifter_point (wsc_params config) (word_of_nat i)) world)) w0 [0..<unat (wsc_drifters config)]"
proof -
  obtain t where t: "server_start (se_bound env) (ws_server_config config) (on_service (configure_service config) s) = (True, t)"
    using assms(1) by (auto simp: world_server_start_def split: prod.splits bool.splits)
  obtain w where w: "join_cluster exec env config (cs_service t) = (True, w)"
    using assms(1) by (auto simp: world_server_start_def t split: prod.splits bool.splits)
  have "sv_world (cs_service t) = w0"
    using t assms(2) by (auto simp: server_start_def on_service_def configure_service_def Let_def split: prod.splits)
  moreover have "sv_world w = sv_world (cs_service t)"
    using w by (auto simp: join_cluster_def read_wall_ms_def split: if_splits prod.splits)
  ultimately show ?thesis using assms(1) by (auto simp: world_server_start_def t w spawn_drifters_def)
qed

text \<open>
  C30: the start of a shard. When a shard starts, whatever Redis answers, its world holds as many drifters as configured, each
  standing in the square of the world, some of them beyond the walls of the arena; the first tick has a result, and after it every
  drifter is between the walls. The parameters are ones for which the movement is bounded and the grid covers the world.
\<close>

theorem started_world_ticks:
  assumes "world_server_start exec env config s = (True, s')" and "sv_world (cs_service s) = mk_world"
    and "world_configure (wsc_params config) 64 mk_world = Some w0" and "arena_grid (wsc_params config) (w_grid w0)"
    and "world_params_ok (wsc_params config)" and "unit_circle cosf sinf" and "wsc_drifters config < 0xffffffff"
  shows "length (es_id (w_entities (sv_world (cs_service s')))) = unat (wsc_drifters config) \<and>
    (\<forall>v\<in>set (es_position (w_entities (sv_world (cs_service s')))). on_world (wsc_params config) v) \<and>
    (\<exists>w. world_step cosf sinf (sv_world (cs_service s')) = Some w \<and>
       es_id (w_entities w) = es_id (w_entities (sv_world (cs_service s'))) \<and>
       (\<forall>v\<in>set (es_position (w_entities w)). in_arena (wsc_params config) v))"
proof -
  let ?p = "wsc_params config" and ?w = "sv_world (cs_service s')"
  have w0: "w_next_entity w0 = 1" "es_id (w_entities w0) = []"
    using assms(3) by (auto simp: world_configure_def mk_world_def es_empty_def bind_eq_Some_conv split: if_splits)
  have k: "unat (wsc_drifters config) < 4294967295" using assms(7) by (simp add: word_less_nat_alt)
  note run = drifters_run [OF world_run.configured [OF assms(3), of cosf sinf] assms(5) w0 k,
      folded started_world [OF assms(1) assms(3) [folded assms(2)]]]
  have ok: "world_ok ?w" "w_params ?w = ?p" using world_run_ok [of cosf sinf ?p 64 ?w] run assms(3-6) by auto
  obtain w where "world_step cosf sinf ?w = Some w" "es_id (w_entities w) = es_id (w_entities ?w)"
      "\<forall>v\<in>set (es_position (w_entities w)). in_arena ?p v"
    using world_step_ok [OF ok(1) assms(6)] ok(2) by metis
  with run ok show ?thesis by (auto simp: world_ok_def rows_ok_def)
qed

text \<open>The default parameters and 300 drifters.\<close>

theorem started_world_ticks_witness:
  "\<exists>s w. world_server_start (\<lambda>c d. (transport_error, d)) sample_environment (sample_config\<lparr>wsc_drifters := 300\<rparr>) sample_host = (True, s) \<and>
     length (es_id (w_entities (sv_world (cs_service s)))) = 300 \<and> world_step (\<lambda>_. f_one) (\<lambda>_. 0) (sv_world (cs_service s)) = Some w \<and>
     (\<forall>v\<in>set (es_position (w_entities w)). in_arena mk_world_params v)"
proof -
  let ?x = "\<lambda>c (d :: unit). (transport_error, d)" and ?c = "sample_config\<lparr>wsc_drifters := 300\<rparr>"
  have "fst (world_server_start ?x sample_environment ?c sample_host) = True"
    by (simp add: world_server_start_def server_start_def socket_open_def join_cluster_def sample_environment_def sample_config_def Let_def)
  then obtain s where s: "world_server_start ?x sample_environment ?c sample_host = (True, s)" by (metis prod.collapse)
  have c: "sv_world (cs_service sample_host) = mk_world" "wsc_params ?c = mk_world_params" "wsc_drifters ?c = 300" "wsc_drifters ?c < 0xffffffff"
    by (simp_all add: sample_host_def sample_service_def sample_config_def)
  from started_world_ticks [OF s c(1) _ _ _ sample_world_setup(4) c(4)] sample_world_setup(1-3) s show ?thesis
    unfolding c(2,3) by auto
qed

end
