(* ===== verification/Http.thy ===== *)
theory Http
  imports Address_Text
begin

text \<open>
  \<open>net/http.h\<close>, \<open>net/http.cpp\<close> and \<open>net/http_client.cpp\<close>: requests and responses as bytes. What \<open>recv\<close> returns is a list of chunks,
  an empty one for a closed or silent peer; a handler is a function on the state of the service behind it. Sockets and the
  thread of the listener are left out.
\<close>

section \<open>Text\<close>

text \<open>\<open>std::string::find\<close>.\<close>

fun find_sub :: "bytes \<Rightarrow> bytes \<Rightarrow> nat option" where
  "find_sub needle [] = (if needle = [] then Some 0 else None)"
| "find_sub needle (x # xs) = (if take (length needle) (x # xs) = needle then Some 0 else map_option Suc (find_sub needle xs))"

definition crlf :: bytes where "crlf = [13, 10]"

definition hex_digit :: "u8 \<Rightarrow> nat option" where
  "hex_digit c =
     (if 48 \<le> c \<and> c \<le> 57 then Some (unat (c - 48))
      else if 97 \<le> c \<and> c \<le> 102 then Some (unat (c - 97) + 10)
      else if 65 \<le> c \<and> c \<le> 70 then Some (unat (c - 65) + 10) else None)"

definition percent :: "u8 \<Rightarrow> bytes \<Rightarrow> u8 option" where
  "percent c rest =
     (if c = 37 \<and> 2 \<le> length rest
      then case (hex_digit (rest ! 0), hex_digit (rest ! 1)) of (Some high, Some low) \<Rightarrow> Some (word_of_nat (high * 16 + low)) | _ \<Rightarrow> None
      else None)"

fun url_decode :: "bytes \<Rightarrow> bytes" where
  "url_decode [] = []"
| "url_decode (c # rest) =
     (if c = 43 then 32 # url_decode rest
      else case percent c rest of Some b \<Rightarrow> b # url_decode (drop 2 rest) | None \<Rightarrow> c # url_decode rest)"

definition hex_char :: "nat \<Rightarrow> u8" where
  "hex_char n = (if n < 10 then 48 + word_of_nat n else 87 + word_of_nat n)"

definition escape_char :: "u8 \<Rightarrow> bytes" where
  "escape_char c =
     (if c = 34 then [92, 34] else if c = 92 then [92, 92] else if c = 10 then [92, 110] else if c = 13 then [92, 114]
      else if c = 9 then [92, 116]
      else if c < 32 then [92, 117, 48, 48, hex_char (unat c div 16), hex_char (unat c mod 16)] else [c])"

definition json_escape :: "bytes \<Rightarrow> bytes" where
  "json_escape text = concat (map escape_char text)"


section \<open>Requests\<close>

record http_request =
  rq_method :: bytes
  rq_path :: bytes
  rq_query :: "bytes \<rightharpoonup> bytes"
  rq_headers :: "bytes \<rightharpoonup> bytes"
  rq_body :: bytes

definition query_value :: "http_request \<Rightarrow> bytes \<Rightarrow> bytes" where
  "query_value request key = (case rq_query request key of None \<Rightarrow> [] | Some v \<Rightarrow> v)"

definition kMaxRequestBytes :: nat where "kMaxRequestBytes = 256 * 1024"

definition header_mark :: bytes where "header_mark = [13, 10, 13, 10]"

definition declared_length :: "bytes \<Rightarrow> nat \<Rightarrow> u64" where
  "declared_length buffer header_end =
     (let marker = (case find_sub (ascii ''Content-Length:'') buffer of
                      None \<Rightarrow> find_sub (ascii ''content-length:'') buffer | Some m \<Rightarrow> Some m)
      in case marker of Some m \<Rightarrow> if m < header_end then strtoull (drop (m + 15) buffer) else 0 | None \<Rightarrow> 0)"

definition request_complete :: "bytes \<Rightarrow> bool" where
  "request_complete buffer =
     (case find_sub header_mark buffer of
        None \<Rightarrow> False
      | Some header_end \<Rightarrow> word_of_nat (header_end + 4) + declared_length buffer header_end \<le> (word_of_nat (length buffer) :: u64))"

fun receive_request :: "bytes list \<Rightarrow> bytes \<Rightarrow> bytes option" where
  "receive_request chunks buffer =
     (if kMaxRequestBytes \<le> length buffer then Some buffer
      else case chunks of
        [] \<Rightarrow> None
      | chunk # rest \<Rightarrow>
          if chunk = [] then None
          else if request_complete (buffer @ chunk) then Some (buffer @ chunk) else receive_request rest (buffer @ chunk))"

declare receive_request.simps [simp del]

text \<open>Extraction with \<open>>>\<close>: a word and what follows it.\<close>

definition next_word :: "bytes \<Rightarrow> bytes \<times> bytes" where
  "next_word text = (let s = dropWhile is_space text in (takeWhile (\<lambda>b. \<not> is_space b) s, dropWhile (\<lambda>b. \<not> is_space b) s))"

definition parse_pair :: "(bytes \<rightharpoonup> bytes) \<Rightarrow> bytes \<Rightarrow> (bytes \<rightharpoonup> bytes)" where
  "parse_pair query pair =
     (if pair = [] then query
      else case find_sub [61] pair of
        None \<Rightarrow> query(url_decode pair \<mapsto> [])
      | Some n \<Rightarrow> query(url_decode (take n pair) \<mapsto> url_decode (drop (n + 1) pair)))"

definition parse_query :: "bytes \<Rightarrow> bytes \<rightharpoonup> bytes" where
  "parse_query query = foldl parse_pair Map.empty (split_on 38 query)"

definition parse_target :: "bytes \<Rightarrow> bytes \<times> (bytes \<rightharpoonup> bytes)" where
  "parse_target target =
     (case find_sub [63] target of
        None \<Rightarrow> (url_decode target, Map.empty)
      | Some n \<Rightarrow> (url_decode (take n target), parse_query (drop (n + 1) target)))"

lemma find_sub_bound: "find_sub needle hay = Some n \<Longrightarrow> n + length needle \<le> length hay"
proof (induction hay arbitrary: n)
  case (Cons x xs)
  show ?case
  proof (cases "take (length needle) (x # xs) = needle")
    case True
    then have "length (take (length needle) (x # xs)) = length needle" by (simp only:)
    moreover have "n = 0" using Cons.prems unfolding find_sub.simps if_P [OF True] by simp
    ultimately show ?thesis by simp
  next
    case False
    have "map_option Suc (find_sub needle xs) = Some n" using Cons.prems unfolding find_sub.simps if_not_P [OF False] .
    then show ?thesis using Cons.IH by auto
  qed
qed (simp split: if_splits)

text \<open>The lines up to an empty one, or up to the last that is terminated.\<close>

function header_lines :: "bytes \<Rightarrow> bytes list" where
  "header_lines text =
     (case find_sub crlf text of
        None \<Rightarrow> []
      | Some n \<Rightarrow> if n = 0 then [] else take n text # header_lines (drop (n + 2) text))"
  by pat_completeness auto
termination
  by (relation "measure length") (auto dest!: find_sub_bound simp: crlf_def)

declare header_lines.simps [simp del]

definition to_lower :: "u8 \<Rightarrow> u8" where
  "to_lower c = (if 65 \<le> c \<and> c \<le> 90 then c + 32 else c)"

definition parse_header :: "(bytes \<rightharpoonup> bytes) \<Rightarrow> bytes \<Rightarrow> (bytes \<rightharpoonup> bytes)" where
  "parse_header headers line =
     (case find_sub [58] line of
        None \<Rightarrow> headers
      | Some n \<Rightarrow> headers(map to_lower (take n line) \<mapsto> dropWhile (\<lambda>b. b = 32 \<or> b = 9) (drop (n + 1) line)))"

definition parse_request :: "bytes \<Rightarrow> http_request option" where
  "parse_request buffer =
     (case (find_sub header_mark buffer, find_sub crlf buffer) of
        (Some header_end, Some n) \<Rightarrow>
          let (verb, rest) = next_word (take n buffer);
              (path, query) = parse_target (fst (next_word rest))
          in Some \<lparr>rq_method = verb, rq_path = path, rq_query = query,
               rq_headers = foldl parse_header Map.empty (header_lines (drop (n + 2) buffer)), rq_body = drop (header_end + 4) buffer\<rparr>
      | _ \<Rightarrow> None)"


section \<open>Responses\<close>

record http_response =
  rs_status :: int
  rs_content_type :: bytes
  rs_body :: bytes
  rs_headers :: "(bytes \<times> bytes) list"

definition response_text :: "bytes \<Rightarrow> http_response" where
  "response_text body = \<lparr>rs_status = 200, rs_content_type = ascii ''text/plain; charset=utf-8'', rs_body = body, rs_headers = []\<rparr>"
definition response_json :: "bytes \<Rightarrow> http_response" where
  "response_json body = \<lparr>rs_status = 200, rs_content_type = ascii ''application/json'', rs_body = body, rs_headers = []\<rparr>"
definition response_html :: "bytes \<Rightarrow> http_response" where
  "response_html body = \<lparr>rs_status = 200, rs_content_type = ascii ''text/html; charset=utf-8'', rs_body = body, rs_headers = []\<rparr>"
definition not_found :: http_response where
  "not_found = \<lparr>rs_status = 404, rs_content_type = ascii ''text/plain; charset=utf-8'', rs_body = ascii ''not found'', rs_headers = []\<rparr>"
definition bad_request :: "bytes \<Rightarrow> http_response" where
  "bad_request reason = \<lparr>rs_status = 400, rs_content_type = ascii ''text/plain; charset=utf-8'', rs_body = reason, rs_headers = []\<rparr>"

definition status_text :: "int \<Rightarrow> bytes" where
  "status_text status =
     (if status = 400 then ascii ''Bad Request'' else if status = 404 then ascii ''Not Found'' else if status = 409 then ascii ''Conflict''
      else if status = 500 then ascii ''Internal Server Error'' else if status = 503 then ascii ''Service Unavailable'' else ascii ''OK'')"

definition render_response :: "http_response \<Rightarrow> bytes" where
  "render_response r =
     ascii ''HTTP/1.1 '' @ dec_int (rs_status r) @ ascii '' '' @ status_text (rs_status r) @ crlf @
     ascii ''Content-Type: '' @ rs_content_type r @ crlf @
     ascii ''Content-Length: '' @ dec (length (rs_body r)) @ crlf @
     ascii ''Connection: close'' @ crlf @
     concat (map (\<lambda>(key, value). key @ ascii '': '' @ value @ crlf) (rs_headers r)) @ crlf @ rs_body r"


section \<open>The server\<close>

type_synonym 'w http_handler = "http_request \<Rightarrow> 'w \<Rightarrow> http_response \<times> 'w"

record 'w http_server =
  hs_routes :: "bytes \<rightharpoonup> 'w http_handler"
  hs_fallback :: "'w http_handler option"
  hs_requests_served :: u64

definition route :: "bytes \<Rightarrow> bytes \<Rightarrow> 'w http_handler \<Rightarrow> 'w http_server \<Rightarrow> 'w http_server" where
  "route verb path handler h = h\<lparr>hs_routes := (hs_routes h)(verb @ ascii '' '' @ path \<mapsto> handler)\<rparr>"

definition http_dispatch :: "'w http_server \<Rightarrow> http_request \<Rightarrow> 'w \<Rightarrow> http_response \<times> 'w" where
  "http_dispatch h request w =
     (case hs_routes h (rq_method request @ ascii '' '' @ rq_path request) of
        Some handler \<Rightarrow> handler request w
      | None \<Rightarrow> case hs_fallback h of Some handler \<Rightarrow> handler request w | None \<Rightarrow> (not_found, w))"

definition handle_client :: "bytes list \<Rightarrow> 'w http_server \<Rightarrow> 'w \<Rightarrow> bytes option \<times> 'w http_server \<times> 'w" where
  "handle_client chunks h w =
     (case Option.bind (receive_request chunks []) parse_request of
        None \<Rightarrow> (None, h, w)
      | Some request \<Rightarrow>
          case http_dispatch h request w of (response, w) \<Rightarrow>
            (Some (render_response response), h\<lparr>hs_requests_served := hs_requests_served h + 1\<rparr>, w))"


section \<open>The client\<close>

record http_fetch =
  hf_ok :: bool
  hf_status :: int
  hf_body :: bytes
  hf_error :: bytes

definition fetch_request :: "address \<Rightarrow> bytes \<Rightarrow> bytes \<Rightarrow> bytes \<Rightarrow> bytes" where
  "fetch_request server verb target body =
     verb @ ascii '' '' @ target @ ascii '' HTTP/1.1'' @ crlf @
     ascii ''Host: '' @ address_to_string server @ crlf @
     ascii ''Connection: close'' @ crlf @
     ascii ''Content-Length: '' @ dec (length body) @ crlf @ crlf @ body"

fun receive_response :: "bytes list \<Rightarrow> bytes \<Rightarrow> bytes" where
  "receive_response [] buffer = buffer"
| "receive_response (chunk # chunks) buffer =
     (if 1024 * 1024 \<le> length buffer \<or> chunk = [] then buffer else receive_response chunks (buffer @ chunk))"

definition read_response :: "bytes \<Rightarrow> http_fetch" where
  "read_response response =
     (case find_sub header_mark response of
        Some header_end \<Rightarrow>
          if length response < 12 then \<lparr>hf_ok = False, hf_status = 0, hf_body = [], hf_error = ascii ''malformed response''\<rparr>
          else let status = sint (word_of_int (strtoll (drop 9 response)) :: 32 word)
               in \<lparr>hf_ok = (200 \<le> status \<and> status < 300), hf_status = status, hf_body = drop (header_end + 4) response, hf_error = []\<rparr>
      | None \<Rightarrow> \<lparr>hf_ok = False, hf_status = 0, hf_body = [], hf_error = ascii ''malformed response''\<rparr>)"

definition json_lookup :: "bytes \<Rightarrow> bytes \<Rightarrow> bytes" where
  "json_lookup json key =
     (let needle = 34 # key @ [34, 58]
      in case find_sub needle json of
           None \<Rightarrow> []
         | Some n \<Rightarrow>
             (case drop (n + length needle) json of
                [] \<Rightarrow> []
              | c # rest \<Rightarrow>
                  if c = 34 then (case find_sub [34] rest of None \<Rightarrow> [] | Some m \<Rightarrow> take m rest)
                  else takeWhile (\<lambda>b. b \<noteq> 44 \<and> b \<noteq> 125) (c # rest)))"

end
