(* ===== verification/Matchmaker.thy ===== *)
theory Matchmaker
  imports Shard Http
begin

text \<open>
  \<open>cluster/matchmaker.h\<close> and \<open>cluster/matchmaker.cpp\<close>: the assignment of players to shards. The random numbers and the wall clock are
  parameters, Redis is the parameter of the registry. The lock makes an assignment one step of a matchmaker.
\<close>

section \<open>Load factors\<close>

text \<open>
  A load factor is a \<open>double\<close>, the quotient of two numbers of 32 bits. The quotients that are not 0 are at least \<open>2 ^ -32\<close> and have 53
  significant bits, so they and their differences are whole numbers of units of \<open>2 ^ -96\<close>, far from the subnormal numbers; the
  operations are exact computations with one rounding to nearest even.
\<close>

function expo53 :: "int \<Rightarrow> nat" where
  "expo53 n = (if n < 2 ^ 53 then 0 else Suc (expo53 (n div 2)))"
  by pat_completeness auto
termination
  by (relation "measure nat") auto

declare expo53.simps [simp del]

definition round53 :: "int \<Rightarrow> int \<Rightarrow> int" where
  "round53 num den =
     (let e = expo53 (num div den); d = den * 2 ^ e; m = num div d; r = num mod d
      in (if d < 2 * r \<or> d = 2 * r \<and> odd m then m + 1 else m) * 2 ^ e)"

definition load_factor :: "shard_info \<Rightarrow> int" where
  "load_factor shard = (if si_capacity shard = 0 then 2 ^ 96 else round53 (uint (si_player_count shard) * 2 ^ 96) (uint (si_capacity shard)))"

definition load_delta :: "shard_info \<Rightarrow> shard_info \<Rightarrow> int" where
  "load_delta a b = (let x = load_factor a - load_factor b in if x < 0 then - round53 (- x) 1 else round53 x 1)"

text \<open>The literal \<open>0.0001\<close>.\<close>

definition load_tolerance :: int where
  "load_tolerance = round53 (2 ^ 96) 10000"


section \<open>Assignment\<close>

record matchmaker_config =
  mc_key_prefix :: bytes
  mc_session_ttl_ms :: u32
  mc_regions :: region_map

record session_grant =
  sg_ok :: bool
  sg_reconnect :: bool
  sg_player_id :: bytes
  sg_shard_id :: bytes
  sg_udp_endpoint :: bytes
  sg_region :: u32
  sg_session_token :: u64
  sg_reason :: bytes

record 'd matchmaker =
  mm_config :: matchmaker_config
  mm_registry :: "'d registry"
  mm_tokens :: "nat \<Rightarrow> u64"
  mm_drawn :: nat
  mm_grants :: u64
  mm_reconnects :: u64
  mm_rejections :: u64

definition refused_grant :: "bytes \<Rightarrow> bytes \<Rightarrow> session_grant" where
  "refused_grant player_id reason = \<lparr>sg_ok = False, sg_reconnect = False, sg_player_id = player_id, sg_shard_id = [], sg_udp_endpoint = [],
     sg_region = 0, sg_session_token = 0, sg_reason = reason\<rparr>"

definition better_shard :: "shard_info option \<Rightarrow> shard_info \<Rightarrow> shard_info option" where
  "better_shard best shard =
     (if \<not> accepting shard then best
      else case best of
        None \<Rightarrow> Some shard
      | Some b \<Rightarrow>
          let delta = load_delta shard b
          in if delta < - load_tolerance then Some shard
             else if delta \<le> load_tolerance \<and> si_id shard < si_id b then Some shard else best)"

definition pick_shard :: "shard_info list \<Rightarrow> shard_info option" where
  "pick_shard live = foldl better_shard None live"

definition live_shard :: "shard_info list \<Rightarrow> bytes \<Rightarrow> shard_info option" where
  "live_shard live i = find (\<lambda>s. si_id s = i) live"

text \<open>The first region that the chosen shard owns, 0 if there is none.\<close>

definition first_region :: "region_map \<Rightarrow> shard_info list \<Rightarrow> bytes \<Rightarrow> u32" where
  "first_region regions live chosen =
     (let ids = sort (map si_id (filter (\<lambda>s. \<not> si_draining s) live));
          owners = assign_regions ids (region_count regions)
      in case find (\<lambda>r. owners ! r = chosen) [0..<length owners] of None \<Rightarrow> 0 | Some r \<Rightarrow> word_of_nat r)"

definition reconnect_grant :: "bytes \<Rightarrow> shard_info \<Rightarrow> u32 \<Rightarrow> u64 \<Rightarrow> session_grant" where
  "reconnect_grant player_id owner region token = \<lparr>sg_ok = True, sg_reconnect = True, sg_player_id = player_id, sg_shard_id = si_id owner,
     sg_udp_endpoint = si_udp_endpoint owner, sg_region = region, sg_session_token = token, sg_reason = []\<rparr>"

definition draw_token :: "'d matchmaker \<Rightarrow> u64 \<times> 'd matchmaker" where
  "draw_token m =
     (let t = mm_tokens m (mm_drawn m) in (if t = 0 then 1 else t, m\<lparr>mm_drawn := mm_drawn m + 1\<rparr>))"

definition reject_player :: "bytes \<Rightarrow> bytes \<Rightarrow> 'd matchmaker \<Rightarrow> session_grant \<times> 'd matchmaker" where
  "reject_player player_id reason m = (refused_grant player_id reason, m\<lparr>mm_rejections := mm_rejections m + 1\<rparr>)"

definition assign_new :: "'d exec \<Rightarrow> u64 \<Rightarrow> shard_info list \<Rightarrow> bytes \<Rightarrow> 'd matchmaker \<Rightarrow> session_grant \<times> 'd matchmaker" where
  "assign_new exec wall_ms live player_id m =
     (case pick_shard live of
        None \<Rightarrow> reject_player player_id (ascii ''all shards full or draining'') m
      | Some chosen \<Rightarrow>
          case draw_token m of (token, m) \<Rightarrow>
            let r = \<lparr>pr_player_id = player_id, pr_shard_id = si_id chosen, pr_region = first_region (mc_regions (mm_config m)) live (si_id chosen),
                     pr_session_token = token, pr_updated_ms = 0\<rparr>
            in case claim_presence exec wall_ms r (mc_session_ttl_ms (mm_config m)) (mm_registry m) of
                 ((True, _), g) \<Rightarrow>
                   (\<lparr>sg_ok = True, sg_reconnect = False, sg_player_id = player_id, sg_shard_id = si_id chosen,
                     sg_udp_endpoint = si_udp_endpoint chosen, sg_region = pr_region r, sg_session_token = pr_session_token r, sg_reason = []\<rparr>,
                    m\<lparr>mm_registry := g, mm_grants := mm_grants m + 1\<rparr>)
               | ((False, current_owner), g) \<Rightarrow>
                   (case live_shard live (case current_owner of None \<Rightarrow> [] | Some i \<Rightarrow> i) of
                      None \<Rightarrow> reject_player player_id (ascii ''presence claim lost'') (m\<lparr>mm_registry := g\<rparr>)
                    | Some winner \<Rightarrow>
                        case get_presence exec player_id g of (owned, g) \<Rightarrow>
                          (reconnect_grant player_id winner (case owned of None \<Rightarrow> 0 | Some p \<Rightarrow> pr_region p)
                             (case owned of None \<Rightarrow> 0 | Some p \<Rightarrow> pr_session_token p),
                           m\<lparr>mm_registry := g, mm_reconnects := mm_reconnects m + 1\<rparr>)))"

definition assign :: "'d exec \<Rightarrow> u64 \<Rightarrow> bytes \<Rightarrow> 'd matchmaker \<Rightarrow> session_grant \<times> 'd matchmaker" where
  "assign exec wall_ms player_id m =
     (case live_shards exec (mm_registry m) of ((live, _), g) \<Rightarrow>
        if live = [] then reject_player player_id (ascii ''no live shards'') (m\<lparr>mm_registry := g\<rparr>)
        else case get_presence exec player_id g of
          (None, g) \<Rightarrow> assign_new exec wall_ms live player_id (m\<lparr>mm_registry := g\<rparr>)
        | (Some existing, g) \<Rightarrow>
            if pr_shard_id existing = [] then assign_new exec wall_ms live player_id (m\<lparr>mm_registry := g\<rparr>)
            else case live_shard live (pr_shard_id existing) of
              Some owner \<Rightarrow>
                if si_draining owner then assign_new exec wall_ms live player_id (m\<lparr>mm_registry := snd (clear_presence exec player_id g)\<rparr>)
                else (reconnect_grant player_id owner (pr_region existing) (pr_session_token existing),
                      m\<lparr>mm_registry := snd (set_presence exec wall_ms existing (mc_session_ttl_ms (mm_config m)) g),
                        mm_reconnects := mm_reconnects m + 1\<rparr>)
            | None \<Rightarrow> assign_new exec wall_ms live player_id (m\<lparr>mm_registry := snd (clear_presence exec player_id g)\<rparr>))"

definition release :: "'d exec \<Rightarrow> bytes \<Rightarrow> 'd matchmaker \<Rightarrow> bool \<times> 'd matchmaker" where
  "release exec player_id m = (case clear_presence exec player_id (mm_registry m) of (b, g) \<Rightarrow> (b, m\<lparr>mm_registry := g\<rparr>))"

definition matchmaker_shards :: "'d exec \<Rightarrow> 'd matchmaker \<Rightarrow> shard_info list \<times> 'd matchmaker" where
  "matchmaker_shards exec m = (case live_shards exec (mm_registry m) of ((live, _), g) \<Rightarrow> (live, m\<lparr>mm_registry := g\<rparr>))"


section \<open>The HTTP interface\<close>

definition session_grant_json :: "session_grant \<Rightarrow> bytes" where
  "session_grant_json grant =
     (if \<not> sg_ok grant then ascii ''{\"ok\":false,\"reason\":\"'' @ json_escape (sg_reason grant) @ ascii ''\"}''
      else ascii ''{\"ok\":true,\"reconnect\":'' @ (if sg_reconnect grant then ascii ''true'' else ascii ''false'') @
        ascii '',\"player\":\"'' @ json_escape (sg_player_id grant) @ ascii ''\",\"shard\":\"'' @ json_escape (sg_shard_id grant) @
        ascii ''\",\"endpoint\":\"'' @ json_escape (sg_udp_endpoint grant) @ ascii ''\",\"region\":'' @ dec_word (sg_region grant) @
        ascii '',\"token\":\"'' @ dec_word (sg_session_token grant) @ ascii ''\"}'')"

definition session_handler :: "'d exec \<Rightarrow> u64 \<Rightarrow> 'd matchmaker http_handler" where
  "session_handler exec wall_ms request m =
     (let player = query_value request (ascii ''player'')
      in if player = [] \<or> length player > 64 then (bad_request (ascii ''player id must be 1-64 characters''), m)
         else case assign exec wall_ms player m of (grant, m) \<Rightarrow>
           let response = response_json (session_grant_json grant)
           in (if sg_ok grant then response else response\<lparr>rs_status := 503\<rparr>, m))"

definition release_handler :: "'d exec \<Rightarrow> 'd matchmaker http_handler" where
  "release_handler exec request m =
     (let player = query_value request (ascii ''player'')
      in if player = [] then (bad_request (ascii ''player id required''), m)
         else case release exec player m of (_, m) \<Rightarrow> (response_json (ascii ''{\"ok\":true}''), m))"

definition health_handler :: "'d matchmaker http_handler" where
  "health_handler request m =
     (response_json (ascii ''{\"ok\":'' @ (if rg_connected (mm_registry m) then ascii ''true'' else ascii ''false'') @ ascii ''}''), m)"

text \<open>The routes; the list of the shards and the metrics print doubles and are left out.\<close>

definition matchmaker_routes :: "'d exec \<Rightarrow> u64 \<Rightarrow> 'd matchmaker http_server \<Rightarrow> 'd matchmaker http_server" where
  "matchmaker_routes exec wall_ms h =
     route (ascii ''DELETE'') (ascii ''/session'') (release_handler exec)
       (route (ascii ''GET'') (ascii ''/session'') (session_handler exec wall_ms)
         (route (ascii ''POST'') (ascii ''/session'') (session_handler exec wall_ms)
           (route (ascii ''GET'') (ascii ''/health'') health_handler h)))"

definition matchmaker_start :: "bool \<Rightarrow> bool \<Rightarrow> (nat \<Rightarrow> u64) \<Rightarrow> matchmaker_config \<Rightarrow> 'd matchmaker \<Rightarrow> bool \<times> 'd matchmaker" where
  "matchmaker_start redis_open bound tokens config m =
     (let m = m\<lparr>mm_config := config, mm_tokens := tokens, mm_drawn := 0\<rparr>
      in case registry_connect redis_open (mc_key_prefix config) (mm_registry m) of
           (False, g) \<Rightarrow> (False, m\<lparr>mm_registry := g\<rparr>)
         | (True, g) \<Rightarrow> (bound, m\<lparr>mm_registry := g\<rparr>))"

definition matchmaker_stop :: "'d matchmaker \<Rightarrow> 'd matchmaker" where
  "matchmaker_stop m = m\<lparr>mm_registry := registry_disconnect (mm_registry m)\<rparr>"

end
