(* ===== verification/Session.thy ===== *)
theory Session
  imports Redis_Service Matchmaker World_Server_Invariant
begin

text \<open>
  From the matchmaker to the shard: a session that was granted is recorded in the registry, and the shard it names admits its
  holder.
\<close>

section \<open>The interface to the directory of shards\<close>

declare ascii_simps [simp del]

text \<open>A presence record in the database.\<close>

definition recorded :: "'d registry \<Rightarrow> (bytes \<rightharpoonup> redis_value) \<Rightarrow> bytes \<Rightarrow> bytes \<Rightarrow> u32 \<Rightarrow> u64 \<Rightarrow> bool" where
  "recorded g ks player shard region token \<longleftrightarrow>
     (\<exists>h. ks (presence_key g player) = Some (Hash h) \<and> h (ascii ''shard'') = Some shard \<and> h (ascii ''region'') = Some (dec_word region) \<and>
        h (ascii ''session'') = Some (dec_word token))"

text \<open>What does not touch the presence records.\<close>

definition keeps_presence :: "'d registry \<Rightarrow> (bytes \<rightharpoonup> redis_value) \<Rightarrow> (bytes \<rightharpoonup> redis_value) \<Rightarrow> bool" where
  "keeps_presence g ks ks' \<longleftrightarrow> (\<forall>i. ks' (presence_key g i) = ks (presence_key g i)) \<and> (typed_keys g ks \<longrightarrow> typed_keys g ks')"

lemma keeps_refl [simp]: "keeps_presence g ks ks"
  by (simp add: keeps_presence_def)

lemma keeps_trans: "keeps_presence g a b \<Longrightarrow> keeps_presence g b c \<Longrightarrow> keeps_presence g a c"
  by (simp add: keeps_presence_def)

lemma keeps_owner: "keeps_presence g ks ks' \<Longrightarrow> owner_in g ks' p = owner_in g ks p"
  by (simp add: keeps_presence_def owner_in_def)

lemma members_distinct [simp]: "members_key g \<noteq> presence_key g i" "presence_key g i \<noteq> members_key g" "members_key g \<noteq> roster_key g i" "roster_key g i \<noteq> members_key g"
  by (simp_all add: members_key_def presence_key_def roster_key_def ascii_simps)

lemma field_flat: "field (map kString (flat fvs)) name = (case map_of fvs name of Some v \<Rightarrow> v | None \<Rightarrow> [])"
  by (induction fvs) (auto simp: flat_def)

text \<open>A registry whose connection works and has nothing queued.\<close>

definition idle :: "'d registry \<Rightarrow> bool" where
  "idle g \<longleftrightarrow> fault_free g \<and> rg_queue g = []"

text \<open>The choice of a shard.\<close>

lemma better_shard_member: "better_shard best s = Some c \<Longrightarrow> accepting s \<and> c = s \<or> best = Some c"
  by (auto simp: better_shard_def Let_def split: if_splits option.splits)

lemma pick_fold: "foldl better_shard best live = Some c \<Longrightarrow> c \<in> set live \<and> accepting c \<or> best = Some c"
  by (induction live arbitrary: best) (auto dest: better_shard_member)

lemma pick_shard_member: "pick_shard live = Some c \<Longrightarrow> c \<in> set live \<and> accepting c"
  using pick_fold [of None live c] by (simp add: pick_shard_def)

locale redis_directory = redis_service +
  assumes smembers: "exec [ascii ''SMEMBERS'', k] d = (r, d') \<Longrightarrow>
      keys d' = keys d \<and>
      (case set_at (keys d k) of
         None \<Rightarrow> is_error r
       | Some s \<Rightarrow> \<exists>ms. distinct ms \<and> set ms = s \<and> r = kArray (map kString ms))"
begin

lemma command_idle:
  assumes "idle g" and "command exec args g = (r, g')"
  shows "idle g'" and "rg_prefix g' = rg_prefix g" and "exec args (rg_db g) = (r, rg_db g')"
proof -
  obtain y d where e: "exec args (rg_db g) = (y, d)" by (rule prod.exhaust)
  have g: "fault_free g" "rg_queue g = []" using assms(1) by (simp_all add: idle_def)
  note a = command_answered [OF g e assms(2)]
  show "idle g'" "rg_prefix g' = rg_prefix g" "exec args (rg_db g) = (r, rg_db g')" using a e by (simp_all add: idle_def)
qed

lemma flush_idle:
  assumes "fault_free g" and "flush exec g = (x, g')"
  shows "idle g'" and "rg_prefix g' = rg_prefix g" and "rg_db g' = snd (run_commands exec (rg_queue g) (rg_db g))"
    and "rg_queue g \<noteq> [] \<Longrightarrow> x = (True, fst (run_commands exec (rg_queue g) (rg_db g)))"
proof -
  obtain rs d where run: "run_commands exec (rg_queue g) (rg_db g) = (rs, d)" by (rule prod.exhaust)
  have "idle g' \<and> rg_prefix g' = rg_prefix g \<and> rg_db g' = d \<and> (rg_queue g \<noteq> [] \<longrightarrow> x = (True, rs))"
  proof (cases "rg_queue g = []")
    case True
    then show ?thesis using assms run by (auto simp: flush_def idle_def split: prod.splits)
  next
    case False
    then show ?thesis using flush_answered [OF assms(1) False run assms(2)] by (simp add: idle_def)
  qed
  then show "idle g'" "rg_prefix g' = rg_prefix g" "rg_db g' = snd (run_commands exec (rg_queue g) (rg_db g))"
    "rg_queue g \<noteq> [] \<Longrightarrow> x = (True, fst (run_commands exec (rg_queue g) (rg_db g)))" using run by simp_all
qed

lemma commands_keep:
  assumes "\<And>cmd d r d'. cmd \<in> set cmds \<Longrightarrow> exec cmd d = (r, d') \<Longrightarrow> keeps_presence g (keys d) (keys d')"
  shows "keeps_presence g (keys d) (keys (snd (run_commands exec cmds d)))"
  using assms
proof (induction cmds arbitrary: d)
  case (Cons cmd cmds)
  obtain r d' where e: "exec cmd d = (r, d')" by (rule prod.exhaust)
  then have "keeps_presence g (keys d) (keys d')" using Cons.prems [OF _ e] by simp
  moreover have "keeps_presence g (keys d') (keys (snd (run_commands exec cmds d')))" by (rule Cons.IH, rule Cons.prems) auto
  ultimately show ?case using keeps_trans by (auto simp: e split: prod.split)
qed simp

lemma read_keeps:
  "exec [ascii ''SMEMBERS'', k] d = (r, d') \<Longrightarrow> keeps_presence g (keys d) (keys d')" "exec [ascii ''HGETALL'', k] d = (r, d') \<Longrightarrow> keeps_presence g (keys d) (keys d')"
  using smembers hgetall by (auto simp: keeps_presence_def)

lemma prune_keeps:
  "exec [ascii ''SREM'', members_key g, m] d = (r, d') \<Longrightarrow> keeps_presence g (keys d) (keys d')"
  "exec [ascii ''DEL'', roster_key g i] d = (r, d') \<Longrightarrow> keeps_presence g (keys d) (keys d')"
proof -
  show "keeps_presence g (keys d) (keys d')" if "exec [ascii ''SREM'', members_key g, m] d = (r, d')"
    using srem [OF that] by (cases "set_at (keys d (members_key g))") (simp_all add: keeps_presence_def typed_keys_def)
  show "keeps_presence g (keys d) (keys d')" if "exec [ascii ''DEL'', roster_key g i] d = (r, d')"
    using del [OF that] by (auto simp: keeps_presence_def typed_keys_def set_at_def)
qed

text \<open>The list of live shards.\<close>

lemma queue_all: "fold (\<lambda>i g. queue [op, shard_key g i] g) ids g = g\<lparr>rg_queue := rg_queue g @ map (\<lambda>i. [op, shard_key g i]) ids\<rparr>"
  by (induction ids arbitrary: g) (simp_all add: queue_def shard_key_def)

lemma queue_prunes:
  "fold queue_prune ids g = g\<lparr>rg_queue := rg_queue g @ concat (map (\<lambda>i. [[ascii ''SREM'', members_key g, i], [ascii ''DEL'', roster_key g i]]) ids)\<rparr>"
  by (induction ids arbitrary: g) (simp_all add: queue_prune_def queue_def members_key_def roster_key_def)

lemma queued_flush:
  assumes g: "idle g" and f: "flush exec (g\<lparr>rg_queue := cmds\<rparr>) = (x, g')"
    and keep: "\<And>cmd d r d'. cmd \<in> set cmds \<Longrightarrow> exec cmd d = (r, d') \<Longrightarrow> keeps_presence g (keys d) (keys d')"
  shows "idle g'" and "rg_prefix g' = rg_prefix g" and "keeps_presence g (keys (rg_db g)) (keys (rg_db g'))"
proof -
  have ff: "fault_free (g\<lparr>rg_queue := cmds\<rparr>)" using g by (simp add: idle_def fault_free_def)
  note a = flush_idle [OF ff f]
  show "idle g'" "rg_prefix g' = rg_prefix g" using a(1,2) by simp_all
  show "keeps_presence g (keys (rg_db g)) (keys (rg_db g'))" unfolding a(3) using commands_keep [OF keep] by simp
qed

lemma keeps_of_prefix:
  assumes "rg_prefix g' = rg_prefix g"
  shows "keeps_presence g' = keeps_presence g"
  by (intro ext) (simp add: keeps_presence_def of_prefix [OF assms] keys_of_prefix [OF assms])

lemma live_shards_keep:
  assumes g: "idle g" and run: "live_shards exec g = (x, g')"
  shows "idle g' \<and> rg_prefix g' = rg_prefix g \<and> keeps_presence g (keys (rg_db g)) (keys (rg_db g'))"
proof -
  obtain r g1 where c: "command exec [ascii ''SMEMBERS'', members_key g] g = (r, g1)" by (rule prod.exhaust)
  note a = command_idle [OF g c]
  have k1: "keeps_presence g (keys (rg_db g)) (keys (rg_db g1))" by (rule read_keeps(1) [OF a(3)])
  show ?thesis
  proof (cases "reply_elements r = []")
    case True
    then show ?thesis using run a k1 by (simp add: live_shards_def c)
  next
    case False
    define ids where "ids = map reply_str (reply_elements r)"
    obtain ok hs g2 where f: "flush exec (g1\<lparr>rg_queue := map (\<lambda>i. [ascii ''HGETALL'', shard_key g1 i]) ids\<rparr>) = ((ok, hs), g2)" by (metis prod.exhaust)
    have q1: "rg_queue g1 = []" using a(1) by (simp add: idle_def)
    have reads: "keeps_presence g1 (keys d) (keys d')" if "cmd \<in> set (map (\<lambda>i. [ascii ''HGETALL'', shard_key g1 i]) ids)" "exec cmd d = (s, d')" for cmd d s d'
      using that read_keeps(2) by auto
    note b = queued_flush [OF a(1) f reads]
    have g2: "idle g2" "rg_prefix g2 = rg_prefix g" "keeps_presence g (keys (rg_db g)) (keys (rg_db g2))"
      using b(1,2) a(2) keeps_trans [OF k1] b(3) unfolding keeps_of_prefix [OF a(2)] by simp_all
    let ?dead = "map fst (filter (\<lambda>(i, h). reply_elements h = []) (zip ids hs))"
    obtain y g3 where p: "flush exec (fold queue_prune ?dead g2) = (y, g3)" by (rule prod.exhaust)
    have q2: "rg_queue g2 = []" using g2(1) by (simp add: idle_def)
    have prunes: "keeps_presence g2 (keys d) (keys d')"
      if "cmd \<in> set (concat (map (\<lambda>i. [[ascii ''SREM'', members_key g2, i], [ascii ''DEL'', roster_key g2 i]]) ?dead))" "exec cmd d = (s, d')" for cmd d s d'
      using that prune_keeps by fastforce
    note e = queued_flush [OF g2(1) p [unfolded queue_prunes q2 append_Nil] prunes]
    have g3: "idle g3" "rg_prefix g3 = rg_prefix g" "keeps_presence g (keys (rg_db g)) (keys (rg_db g3))"
      using e(1,2) g2(2) keeps_trans [OF g2(3)] e(3) unfolding keeps_of_prefix [OF g2(2)] by simp_all
    have "g' = g2 \<or> g' = g3"
      using run p unfolding live_shards_def c prod.case if_not_P [OF False] Let_def ids_def [symmetric] queue_all q1 append_Nil f
      by (auto split: if_splits)
    then show ?thesis using g2 g3 by auto
  qed
qed

text \<open>Reading a presence record.\<close>

lemma typed_presence: "typed_keys g ks \<Longrightarrow> hash_at (ks (presence_key g i)) \<noteq> None"
  by (simp add: typed_keys_def)

lemma get_presence_spec:
  assumes g: "idle g" and typed: "hash_at (keys (rg_db g) (presence_key g player)) \<noteq> None" and run: "get_presence exec player g = (found, g')"
  shows "idle g'" and "rg_prefix g' = rg_prefix g" and "keys (rg_db g') = keys (rg_db g)"
    and "found = None \<Longrightarrow> owner_in g (keys (rg_db g)) player = None"
    and "found = Some r \<Longrightarrow> pr_player_id r = player \<and> (case owner_in g (keys (rg_db g)) player of None \<Rightarrow> pr_shard_id r = [] | Some s \<Rightarrow> pr_shard_id r = s)"
    and "recorded g (keys (rg_db g)) player shard region token \<Longrightarrow>
      \<exists>r. found = Some r \<and> pr_shard_id r = shard \<and> pr_region r = region \<and> pr_session_token r = token"
proof -
  obtain y g1 where c: "command exec [ascii ''HGETALL'', presence_key g player] g = (y, g1)" by (rule prod.exhaust)
  note a = command_idle [OF g c]
  obtain h where h: "hash_at (keys (rg_db g) (presence_key g player)) = Some h" using typed by auto
  obtain fvs where fvs: "map_of fvs = h" "y = kArray (map kString (flat fvs))" "keys (rg_db g1) = keys (rg_db g)" using hgetall [OF a(3)] h by auto
  have own: "owner_in g (keys (rg_db g)) player = h (ascii ''shard'')" using h by (simp add: owner_in_def)
  have empty: "flat fvs = [] \<longleftrightarrow> fvs = []" by (cases fvs) (auto simp: flat_def)
  have lookup: "field (map kString (flat fvs)) name = (case h name of Some v \<Rightarrow> v | None \<Rightarrow> [])" for name by (simp add: field_flat fvs(1))
  have out: "g' = g1" "found = (if fvs = [] then None else Some \<lparr>pr_player_id = player, pr_shard_id = field (map kString (flat fvs)) (ascii ''shard''),
      pr_region = ucast (field_u64 (map kString (flat fvs)) (ascii ''region'')), pr_session_token = field_u64 (map kString (flat fvs)) (ascii ''session''),
      pr_updated_ms = field_u64 (map kString (flat fvs)) (ascii ''updated'')\<rparr>)"
    using run by (auto simp: get_presence_def c fvs(2) empty Let_def split: if_splits)
  show "idle g'" "rg_prefix g' = rg_prefix g" "keys (rg_db g') = keys (rg_db g)" using a out(1) fvs(3) by simp_all
  show "owner_in g (keys (rg_db g)) player = None" if "found = None" using that out(2) fvs(1) own by (auto split: if_splits)
  show "pr_player_id r = player \<and> (case owner_in g (keys (rg_db g)) player of None \<Rightarrow> pr_shard_id r = [] | Some s \<Rightarrow> pr_shard_id r = s)" if "found = Some r"
    using that out(2) unfolding own lookup by (auto split: if_splits option.split)
  show "\<exists>r. found = Some r \<and> pr_shard_id r = shard \<and> pr_region r = region \<and> pr_session_token r = token"
    if "recorded g (keys (rg_db g)) player shard region token"
  proof -
    have rec: "h (ascii ''shard'') = Some shard" "h (ascii ''region'') = Some (dec_word region)" "h (ascii ''session'') = Some (dec_word token)"
      using that h by (auto simp: recorded_def hash_at_def)
    have ne: "fvs \<noteq> []" using rec(1) fvs(1) by auto
    have "field_u64 (map kString (flat fvs)) (ascii ''session'') = token"
      unfolding field_u64_def lookup rec(3) using strtoull_dec [of token] by (simp add: dec_word_def dec_nonempty Let_def)
    moreover have "ucast (field_u64 (map kString (flat fvs)) (ascii ''region'')) = region"
      unfolding field_u64_def lookup rec(2) using strtoull_dec_u32 [of region] by (simp add: dec_word_def dec_nonempty Let_def)
    ultimately show ?thesis using out(2) ne rec(1) by (simp add: lookup)
  qed
qed

text \<open>Writing and removing one.\<close>

lemma set_fields_presence:
  "set_fields [(ascii ''shard'', s), (ascii ''region'', dec_word n), (ascii ''session'', dec_word t), (ascii ''updated'', u)] h (ascii ''shard'') = Some s"
  "set_fields [(ascii ''shard'', s), (ascii ''region'', dec_word n), (ascii ''session'', dec_word t), (ascii ''updated'', u)] h (ascii ''region'') = Some (dec_word n)"
  "set_fields [(ascii ''shard'', s), (ascii ''region'', dec_word n), (ascii ''session'', dec_word t), (ascii ''updated'', u)] h (ascii ''session'') = Some (dec_word t)"
  by (simp_all add: set_fields_def ascii_simps)

lemma set_presence_spec:
  assumes ttl: "0 < ttl" and g: "idle g" and typed: "typed_keys g (keys (rg_db g))" and run: "set_presence exec now r ttl g = (x, g')"
  shows "recorded g (keys (rg_db g')) (pr_player_id r) (pr_shard_id r) (pr_region r) (pr_session_token r)" and "rg_prefix g' = rg_prefix g"
proof -
  let ?k = "presence_key g (pr_player_id r)" and ?s = "roster_key g (pr_shard_id r)"
  let ?fvs = "[(ascii ''shard'', pr_shard_id r), (ascii ''region'', dec_word (pr_region r)), (ascii ''session'', dec_word (pr_session_token r)), (ascii ''updated'', dec_word now)]"
  let ?cmds = "[ascii ''HSET'' # ?k # flat ?fvs, [ascii ''PEXPIRE'', ?k, dec_word ttl], [ascii ''SADD'', ?s, pr_player_id r], [ascii ''PEXPIRE'', ?s, dec_word ttl]]"
  have q: "queue_set_presence now r ttl g = g\<lparr>rg_queue := ?cmds\<rparr>"
    using g by (simp add: queue_set_presence_def queue_def idle_def roster_key_def flat_def Let_def)
  obtain y g1 where f: "flush exec (g\<lparr>rg_queue := ?cmds\<rparr>) = (y, g1)" by (rule prod.exhaust)
  have ff: "fault_free (g\<lparr>rg_queue := ?cmds\<rparr>)" using g by (simp add: idle_def fault_free_def)
  note a = flush_idle [OF ff f]
  have g': "g' = g1" using run by (auto simp: set_presence_def q f split: prod.splits)
  obtain h where h: "hash_at (keys (rg_db g) ?k) = Some h" using typed by (auto simp: typed_keys_def)
  obtain r1 d1 where e1: "exec (ascii ''HSET'' # ?k # flat ?fvs) (rg_db g) = (r1, d1)" by (rule prod.exhaust)
  obtain r2 d2 where e2: "exec [ascii ''PEXPIRE'', ?k, dec_word ttl] d1 = (r2, d2)" by (rule prod.exhaust)
  obtain r3 d3 where e3: "exec [ascii ''SADD'', ?s, pr_player_id r] d2 = (r3, d3)" by (rule prod.exhaust)
  obtain r4 d4 where e4: "exec [ascii ''PEXPIRE'', ?s, dec_word ttl] d3 = (r4, d4)" by (rule prod.exhaust)
  have k1: "keys d1 ?k = Some (Hash (set_fields ?fvs h))" using hset [OF _ e1] h by simp
  have k3: "keys d3 ?k = keys d2 ?k" using sadd [OF e3] by (simp split: option.splits)
  have "keys (rg_db g') ?k = Some (Hash (set_fields ?fvs h))"
    using k1 k3 pexpire [OF ttl_word [OF ttl] e2] pexpire [OF ttl_word [OF ttl] e4] by (simp add: g' a(3) e1 e2 e3 e4)
  then show "recorded g (keys (rg_db g')) (pr_player_id r) (pr_shard_id r) (pr_region r) (pr_session_token r)"
    by (simp add: recorded_def set_fields_presence)
  show "rg_prefix g' = rg_prefix g" using a(2) g' by simp
qed

lemma run_commands_snoc: "snd (run_commands exec (cmds @ [c]) d) = snd (exec c (snd (run_commands exec cmds d)))"
  by (induction cmds arbitrary: d) (simp_all add: case_prod_beta)

lemma clear_presence_spec:
  assumes g: "idle g" and typed: "typed_keys g (keys (rg_db g))" and run: "clear_presence exec player g = (x, g')"
  shows "idle g'" and "rg_prefix g' = rg_prefix g" and "typed_keys g (keys (rg_db g'))" and "owner_in g (keys (rg_db g')) player = None"
proof -
  obtain found g1 where p: "get_presence exec player g = (found, g1)" by (rule prod.exhaust)
  note a = get_presence_spec [OF g typed_presence [OF typed] p]
  let ?k = "presence_key g player"
  define front where "front = (case found of Some r \<Rightarrow> if pr_shard_id r \<noteq> [] then [[ascii ''SREM'', roster_key g (pr_shard_id r), player]] else [] | None \<Rightarrow> [])"
  have g1: "rg_queue g1 = []" "fault_free g1" using a(1) by (simp_all add: idle_def)
  have key: "presence_key g1 = presence_key g" "roster_key g1 = roster_key g" using keys_of_prefix [OF a(2)] by simp_all
  obtain y g2 where f: "flush exec (g1\<lparr>rg_queue := front @ [[ascii ''DEL'', ?k]]\<rparr>) = (y, g2)" by (rule prod.exhaust)
  have ff: "fault_free (g1\<lparr>rg_queue := front @ [[ascii ''DEL'', ?k]]\<rparr>)" using g1(2) by (simp add: fault_free_def)
  note b = flush_idle [OF ff f]
  have qs: "queue cmd g1 = g1\<lparr>rg_queue := [cmd]\<rparr>" "queue cmd (g1\<lparr>rg_queue := [c]\<rparr>) = g1\<lparr>rg_queue := [c, cmd]\<rparr>"
      "presence_key (g1\<lparr>rg_queue := z\<rparr>) = presence_key g" for cmd c z using g1(1) key by (simp_all add: queue_def presence_key_def fun_eq_iff)
  have g': "g' = g2"
    using run f by (auto simp: clear_presence_def p front_def qs key Let_def split: prod.splits option.splits if_splits)
  define d1 where "d1 = snd (run_commands exec front (rg_db g1))"
  have front: "typed_keys g (keys d1)"
  proof (cases "front = []")
    case True
    then show ?thesis using typed a(3) by (simp add: d1_def)
  next
    case False
    then obtain s where s: "front = [[ascii ''SREM'', roster_key g s, player]]" by (auto simp: front_def split: option.splits if_splits)
    obtain r e where e: "exec [ascii ''SREM'', roster_key g s, player] (rg_db g1) = (r, e)" by (rule prod.exhaust)
    obtain m where m: "set_at (keys (rg_db g1) (roster_key g s)) = Some m" using typed a(3) by (auto simp: typed_keys_def)
    have "typed_keys g (keys e)" using srem [OF e] m typed a(3) by (auto simp: typed_keys_def set_at_def)
    then show ?thesis by (simp add: d1_def s e)
  qed
  obtain r e where e: "exec [ascii ''DEL'', ?k] d1 = (r, e)" by (rule prod.exhaust)
  have db: "rg_db g' = e" using b(3) e g' by (simp add: run_commands_snoc d1_def)
  have ks: "keys e = (keys d1)(?k := None)" using del [OF e] by simp
  show "idle g'" "rg_prefix g' = rg_prefix g" using b(1,2) a(2) g' by simp_all
  show "typed_keys g (keys (rg_db g'))" using front by (auto simp: db ks typed_keys_def hash_at_def)
  show "owner_in g (keys (rg_db g')) player = None" by (simp add: db ks owner_in_def hash_at_def)
qed

text \<open>A grant for a player that nobody owns claims the record.\<close>

lemma assign_new_recorded:
  assumes ttl: "0 < mc_session_ttl_ms (mm_config m)" and g: "idle (mm_registry m)" "typed_keys (mm_registry m) (keys (rg_db (mm_registry m)))"
    and free: "owner_in (mm_registry m) (keys (rg_db (mm_registry m))) player = None"
    and run: "assign_new exec now live player m = (grant, m')" and ok: "sg_ok grant"
  shows "recorded (mm_registry m) (keys (rg_db (mm_registry m'))) player (sg_shard_id grant) (sg_region grant) (sg_session_token grant)"
    and "\<exists>s \<in> set live. accepting s \<and> sg_shard_id grant = si_id s \<and> sg_udp_endpoint grant = si_udp_endpoint s"
proof -
  obtain chosen where chosen: "pick_shard live = Some chosen" using run ok by (auto simp: assign_new_def reject_player_def refused_grant_def split: option.splits)
  obtain token m1 where t: "draw_token m = (token, m1)" "mm_registry m1 = mm_registry m" "mm_config m1 = mm_config m" by (simp add: draw_token_def Let_def)
  let ?r = "\<lparr>pr_player_id = player, pr_shard_id = si_id chosen, pr_region = first_region (mc_regions (mm_config m1)) live (si_id chosen),
      pr_session_token = token, pr_updated_ms = 0\<rparr>"
  obtain x g1 where c: "claim_presence exec now ?r (mc_session_ttl_ms (mm_config m1)) (mm_registry m) = (x, g1)" by (rule prod.exhaust)
  have idle: "fault_free (mm_registry m)" "rg_queue (mm_registry m) = []" using g(1) by (simp_all add: idle_def)
  obtain h where h: "x = (True, None)" "keys (rg_db g1) (presence_key (mm_registry m) player) = Some (Hash (set_fields [(ascii ''shard'', si_id chosen),
      (ascii ''region'', dec_word (pr_region ?r)), (ascii ''session'', dec_word token), (ascii ''updated'', dec_word now)] h))"
    using claim_spec(1) [OF _ idle g(2) c] ttl t(3) free by auto
  have out: "sg_shard_id grant = si_id chosen" "sg_region grant = pr_region ?r" "sg_session_token grant = token" "mm_registry m' = g1"
      "sg_udp_endpoint grant = si_udp_endpoint chosen"
    using run by (auto simp: assign_new_def chosen t(1,2) c h(1) Let_def)
  show "recorded (mm_registry m) (keys (rg_db (mm_registry m'))) player (sg_shard_id grant) (sg_region grant) (sg_session_token grant)"
    using h(2) by (simp add: recorded_def out set_fields_presence)
  show "\<exists>s \<in> set live. accepting s \<and> sg_shard_id grant = si_id s \<and> sg_udp_endpoint grant = si_udp_endpoint s"
    using pick_shard_member [OF chosen] out(1,5) by blast
qed

lemma assign_recorded:
  assumes ttl: "0 < mc_session_ttl_ms (mm_config m)" and g: "idle (mm_registry m)" "typed_keys (mm_registry m) (keys (rg_db (mm_registry m)))"
    and named: "owner_in (mm_registry m) (keys (rg_db (mm_registry m))) player \<noteq> Some []"
    and run: "assign exec now player m = (grant, m')" and ok: "sg_ok grant"
  shows "recorded (mm_registry m) (keys (rg_db (mm_registry m'))) player (sg_shard_id grant) (sg_region grant) (sg_session_token grant)"
proof -
  let ?g = "mm_registry m"
  obtain live n g1 where l: "live_shards exec ?g = ((live, n), g1)" by (metis prod.exhaust)
  have g1: "idle g1" "rg_prefix g1 = rg_prefix ?g" "keeps_presence ?g (keys (rg_db ?g)) (keys (rg_db g1))" using live_shards_keep [OF g(1) l] by simp_all
  have typed: "typed_keys g1 (keys (rg_db g1))" using g1(3) g(2) by (simp add: of_prefix [OF g1(2)] keeps_presence_def)
  have own: "owner_in g1 (keys (rg_db g1)) player = owner_in ?g (keys (rg_db ?g)) player" by (simp add: of_prefix [OF g1(2)] keeps_owner [OF g1(3)])
  have live: "live \<noteq> []" using run ok by (auto simp: assign_def l reject_player_def refused_grant_def)
  obtain found g2 where p: "get_presence exec player g1 = (found, g2)" by (rule prod.exhaust)
  note a = get_presence_spec [OF g1(1) typed_presence [OF typed] p]
  have g2: "idle g2" "rg_prefix g2 = rg_prefix ?g" "typed_keys g2 (keys (rg_db g2))" "owner_in g2 (keys (rg_db g2)) player = owner_in ?g (keys (rg_db ?g)) player"
    using a(1-3) g1(2) typed own by (simp_all add: of_prefix [OF a(2)])
  obtain b g3 where c: "clear_presence exec player g2 = (b, g3)" by (rule prod.exhaust)
  note cleared = clear_presence_spec [OF g2(1,3) c]
  have new: ?thesis if "assign_new exec now live player (m\<lparr>mm_registry := g'\<rparr>) = (grant, m')" "idle g'" "rg_prefix g' = rg_prefix ?g"
      "typed_keys g' (keys (rg_db g'))" "owner_in g' (keys (rg_db g')) player = None" for g'
    using assign_new_recorded(1) [OF _ _ _ _ that(1) ok] ttl that(2-5) by (simp add: recorded_def keys_of_prefix [OF that(3)])
  have g3: "idle g3" "rg_prefix g3 = rg_prefix ?g" "typed_keys g3 (keys (rg_db g3))" "owner_in g3 (keys (rg_db g3)) player = None"
    using cleared g2(2) by (simp_all add: of_prefix [OF cleared(2)])
  show ?thesis
  proof (cases found)
    case None
    then show ?thesis using new [of g2] run live g2 a(4) own by (simp add: assign_def l p)
  next
    case (Some r)
    show ?thesis
    proof (cases "pr_shard_id r = []")
      case True
      then have "owner_in ?g (keys (rg_db ?g)) player = None" using a(5) [OF Some] own named by (auto split: option.splits)
      then show ?thesis using new [of g2] run live g2 Some True by (simp add: assign_def l p)
    next
      case False
      show ?thesis
      proof (cases "\<exists>owner. live_shard live (pr_shard_id r) = Some owner \<and> \<not> si_draining owner")
        case True
        then obtain owner where o: "live_shard live (pr_shard_id r) = Some owner" "\<not> si_draining owner" by blast
        obtain b' g4 where s: "set_presence exec now r (mc_session_ttl_ms (mm_config m)) g2 = (b', g4)" by (rule prod.exhaust)
        have "recorded g2 (keys (rg_db g4)) player (pr_shard_id r) (pr_region r) (pr_session_token r)"
          using set_presence_spec(1) [OF ttl g2(1,3) s] a(5) [OF Some] by simp
        moreover have "si_id owner = pr_shard_id r" using o(1) by (auto simp: live_shard_def find_Some_iff)
        ultimately show ?thesis
          using run live Some False o s g2(2) by (auto simp: assign_def l p reconnect_grant_def recorded_def keys_of_prefix [OF g2(2)])
      next
        case none: False
        then have "assign_new exec now live player (m\<lparr>mm_registry := g3\<rparr>) = (grant, m')"
          using run live Some False c by (auto simp: assign_def l p split: option.splits if_splits)
        then show ?thesis using new g3 by blast
      qed
    qed
  qed
qed

text \<open>A player that nobody owns gets a session as soon as a shard accepts players.\<close>

lemma assign_free:
  assumes ttl: "0 < mc_session_ttl_ms (mm_config m)" and g: "idle (mm_registry m)" "typed_keys (mm_registry m) (keys (rg_db (mm_registry m)))"
    and free: "owner_in (mm_registry m) (keys (rg_db (mm_registry m))) player = None"
    and l: "live_shards exec (mm_registry m) = ((live, n), g1)" and c: "pick_shard live = Some chosen"
    and run: "assign exec now player m = (grant, m')"
  shows "sg_ok grant \<and> sg_shard_id grant = si_id chosen"
proof -
  let ?g = "mm_registry m"
  have g1: "idle g1" "rg_prefix g1 = rg_prefix ?g" "keeps_presence ?g (keys (rg_db ?g)) (keys (rg_db g1))" using live_shards_keep [OF g(1) l] by simp_all
  have typed: "typed_keys g1 (keys (rg_db g1))" using g1(3) g(2) by (simp add: of_prefix [OF g1(2)] keeps_presence_def)
  have own: "owner_in g1 (keys (rg_db g1)) player = None" by (simp add: of_prefix [OF g1(2)] keeps_owner [OF g1(3)] free)
  obtain found g2 where p: "get_presence exec player g1 = (found, g2)" by (rule prod.exhaust)
  note a = get_presence_spec [OF g1(1) typed_presence [OF typed] p]
  have g2: "fault_free g2" "rg_queue g2 = []" "typed_keys g2 (keys (rg_db g2))" "owner_in g2 (keys (rg_db g2)) player = None"
    using a(1-3) typed own by (simp_all add: of_prefix [OF a(2)] idle_def)
  have "pr_shard_id r = []" if "found = Some r" for r using a(5) [OF that] own by simp
  moreover have "live \<noteq> []" using c by (auto simp: pick_shard_def)
  ultimately have new: "assign_new exec now live player (m\<lparr>mm_registry := g2\<rparr>) = (grant, m')"
    using run by (auto simp: assign_def l p split: option.splits)
  obtain token m1 where t: "draw_token (m\<lparr>mm_registry := g2\<rparr>) = (token, m1)" "mm_registry m1 = g2" "mm_config m1 = mm_config m" by (simp add: draw_token_def Let_def)
  let ?r = "\<lparr>pr_player_id = player, pr_shard_id = si_id chosen, pr_region = first_region (mc_regions (mm_config m1)) live (si_id chosen),
      pr_session_token = token, pr_updated_ms = 0\<rparr>"
  obtain x g3 where cl: "claim_presence exec now ?r (mc_session_ttl_ms (mm_config m1)) g2 = (x, g3)" by (rule prod.exhaust)
  have "x = (True, None)" using claim_spec(1) [OF _ g2(1-3) cl] ttl t(3) g2(4) by simp
  then show ?thesis using new by (auto simp: assign_new_def c t(1,2) cl Let_def)
qed

end

interpretation refd: redis_directory ref_exec ref_keys
proof
  fix k d r and d' :: ref_store
  assume "ref_exec [ascii ''SMEMBERS'', k] d = (r, d')"
  then have "(r, d') = (case set_of (map_of d k) of None \<Rightarrow> (wrong_type, d) | Some xs \<Rightarrow> (kArray (map kString (remdups xs)), d))"
    by (simp add: ref_exec_def ref_command_def Let_def ascii_simps)
  then show "ref_keys d' = ref_keys d \<and> (case set_at (ref_keys d k) of None \<Rightarrow> is_error r | Some s \<Rightarrow> \<exists>ms. distinct ms \<and> set ms = s \<and> r = kArray (map kString ms))"
    by (cases "set_of (map_of d k)") (auto simp: set_at_ref intro!: exI [of _ "remdups xs" for xs])
qed


section \<open>Admission of a granted session\<close>

context redis_directory
begin

lemma admit_session:
  assumes c: "decode_credential token = Some c" "cc_kind c = kSession"
    and w: "wsc_advertise (sv_config w)" "sv_pending_by_player w = []" "length (sv_players w) < unat (wsc_capacity (sv_config w))"
    and g: "idle (sc_registry (sv_coordinator w))"
    and rec: "recorded (sc_registry (sv_coordinator w)) (keys (rg_db (sc_registry (sv_coordinator w)))) (cc_player_id c) (wsc_shard (sv_config w)) region (cc_token c)"
    and run: "admit exec sender token w = (d, w')"
  shows "ad_admit d \<and> (\<exists>a. map_of (sv_pending_admits w') (ad_client_id d) = Some a \<and> pa_credential a = c \<and> pa_ticket a = None \<and>
      (owns_region region (sv_coordinator w) \<longrightarrow> pa_region a = region))"
proof -
  let ?g = "sc_registry (sv_coordinator w)" and ?w = "w\<lparr>sv_readings := Suc (sv_readings w)\<rparr>"
  obtain found g1 where p: "get_presence exec (cc_player_id c) ?g = (found, g1)" by (rule prod.exhaust)
  have h: "hash_at (keys (rg_db ?g) (presence_key ?g (cc_player_id c))) \<noteq> None" using rec by (auto simp: recorded_def hash_at_def)
  obtain r where r: "found = Some r" "pr_shard_id r = wsc_shard (sv_config w)" "pr_region r = region" "pr_session_token r = cc_token c"
    using get_presence_spec(6) [OF g h p rec] by blast
  define w2 where "w2 = ?w\<lparr>sv_coordinator := (sv_coordinator w)\<lparr>sc_registry := g1\<rparr>\<rparr>"
  have cred: "check_credential exec c ?w = (Inr (None, region), w2)"
    using c(2) w(1) p r by (simp add: check_credential_def w2_def Let_def)
  have "\<not> unat (wsc_capacity (sv_config ?w)) \<le> length (sv_players ?w)" using w(3) by simp
  then have "(d, w') = (let client = sv_next_client w2; admitted = \<lparr>pa_client = client, pa_credential = c, pa_ticket = None,
        pa_region = admitted_region region w2, pa_expires_ms = sv_clock w (sv_readings w) + kPendingAdmitTtlMs\<rparr>
      in (\<lparr>ad_admit = True, ad_reason = kBadToken, ad_client_id = client\<rparr>,
          w2\<lparr>sv_next_client := client + 1, sv_pending_admits := AList.update client admitted (sv_pending_admits w2),
            sv_pending_by_player := AList.update (cc_player_id c) client (sv_pending_by_player w2)\<rparr>))"
    using run c(1) w(2) by (simp add: admit_def read_wall_ms_def admit_new_def cred)
  moreover have "admitted_region region w2 = region" if "owns_region region (sv_coordinator w)"
    using that by (simp add: admitted_region_def w2_def owns_region_def)
  ultimately show ?thesis by (auto simp: Let_def update_conv')
qed

end

text \<open>
  C5: from the matchmaker to the shard. When the matchmaker grants a session, new or resumed, the shard that the grant names admits the
  player with the token of the grant and in the region of the grant if it still owns it, provided the player id fits a credential, the
  shard has room and no admission pending, every registry command is answered and the record has not expired; the registry may be any
  server that does what the commands document.
\<close>

theorem granted_session_admitted:
  assumes "redis_directory exec keys" and "0 < mc_session_ttl_ms (mm_config m)"
    and "idle (mm_registry m)" and "typed_keys (mm_registry m) (keys (rg_db (mm_registry m)))"
    and "owner_in (mm_registry m) (keys (rg_db (mm_registry m))) player \<noteq> Some []"
    and "assign exec now player m = (grant, m')" and "sg_ok grant"
    and cred: "encode_credential \<lparr>cc_kind = kSession, cc_token = sg_session_token grant, cc_player_id = player\<rparr> = Some token"
    and w: "wsc_shard (sv_config w) = sg_shard_id grant" "wsc_advertise (sv_config w)" "sv_pending_by_player w = []"
      "length (sv_players w) < unat (wsc_capacity (sv_config w))"
    and g: "idle (sc_registry (sv_coordinator w))" "rg_prefix (sc_registry (sv_coordinator w)) = rg_prefix (mm_registry m)"
      "rg_db (sc_registry (sv_coordinator w)) = rg_db (mm_registry m')"
    and run: "admit exec sender token w = (d, w')"
  shows "ad_admit d \<and> (\<exists>a. map_of (sv_pending_admits w') (ad_client_id d) = Some a \<and> cc_player_id (pa_credential a) = player \<and>
      cc_token (pa_credential a) = sg_session_token grant \<and> pa_ticket a = None \<and>
      (owns_region (sg_region grant) (sv_coordinator w) \<longrightarrow> pa_region a = sg_region grant))"
proof -
  let ?c = "\<lparr>cc_kind = kSession, cc_token = sg_session_token grant, cc_player_id = player\<rparr>"
  have c: "decode_credential token = Some ?c" using credential_roundtrip [of ?c] cred by (auto split: if_splits)
  have "recorded (mm_registry m) (keys (rg_db (mm_registry m'))) player (sg_shard_id grant) (sg_region grant) (sg_session_token grant)"
    by (rule redis_directory.assign_recorded [OF assms(1-7)])
  then have rec: "recorded (sc_registry (sv_coordinator w)) (keys (rg_db (sc_registry (sv_coordinator w)))) (cc_player_id ?c) (wsc_shard (sv_config w))
      (sg_region grant) (cc_token ?c)" using w(1) by (simp add: g(3) recorded_def keys_of_prefix [OF g(2)])
  have "cc_kind ?c = kSession" by simp
  from redis_directory.admit_session [OF assms(1) c this w(2-4) g(1) rec run] show ?thesis by auto
qed

text \<open>A directory with one shard, \<open>a\<close>, and a matchmaker.\<close>

definition sample_directory :: ref_store where
  "sample_directory = [(ascii ''m:shards'', RSet [ascii ''a'']), (ascii ''m:shard:a'', RHash [(ascii ''udp'', ascii ''10.0.0.1:7000''), (ascii ''capacity'', dec_word (512 :: u64))])]"

definition directory_registry :: "ref_store \<Rightarrow> ref_store registry" where
  "directory_registry db = \<lparr>rg_prefix = ascii ''m'', rg_connected = True, rg_queue = [], rg_outcomes = [], rg_db = db\<rparr>"

definition sample_matchmaker :: "ref_store matchmaker" where
  "sample_matchmaker = \<lparr>mm_config = \<lparr>mc_key_prefix = ascii ''m'', mc_session_ttl_ms = 15000, mc_regions = mk_region_map\<rparr>, mm_registry = directory_registry sample_directory,
     mm_tokens = (\<lambda>_. 77), mm_drawn = 0, mm_grants = 0, mm_reconnects = 0, mm_rejections = 0\<rparr>"

definition sample_member :: "ref_store \<Rightarrow> ref_store world_service" where
  "sample_member db = (sample_service db)\<lparr>sv_config := sample_config\<lparr>wsc_shard := ascii ''a'', wsc_advertise := True\<rparr>,
     sv_coordinator := (sv_coordinator (sample_service db))\<lparr>sc_registry := directory_registry db\<rparr>\<rparr>"

lemma sample_live: "\<exists>s g. live_shards ref_exec (directory_registry sample_directory) = (([s], 0), g) \<and> si_id s = ascii ''a'' \<and> accepting s"
proof -
  have "strtoull (dec_word (512 :: u64)) = 512" unfolding dec_word_def by (rule strtoull_dec)
  then show ?thesis
    by (simp add: live_shards_def command_def flush_def flush_effect_def next_outcome_def queue_def directory_registry_def sample_directory_def
        members_key_def shard_key_def ref_exec_def ref_command_def set_of_def hash_of_def flat_def parse_shard_def accepting_def field_u64_def
        dec_word_def dec_nonempty ascii_simps Let_def)
qed

lemma sample_typed: "typed_keys (directory_registry sample_directory) (ref_keys sample_directory)"
  by (auto simp: typed_keys_def ref_keys_def sample_directory_def roster_key_def presence_key_def directory_registry_def set_at_def hash_at_def ascii_simps)

theorem granted_session_admitted_witness:
  "\<exists>grant m' token. assign ref_exec 5 (ascii ''p'') sample_matchmaker = (grant, m') \<and> sg_ok grant \<and>
     encode_credential \<lparr>cc_kind = kSession, cc_token = sg_session_token grant, cc_player_id = ascii ''p''\<rparr> = Some token \<and>
     ad_admit (fst (admit ref_exec sample_address token (sample_member (rg_db (mm_registry m')))))"
proof -
  obtain grant m' where a: "assign ref_exec 5 (ascii ''p'') sample_matchmaker = (grant, m')" by (rule prod.exhaust)
  have m: "idle (mm_registry sample_matchmaker)" "mm_registry sample_matchmaker = directory_registry sample_directory"
      "rg_db (directory_registry sample_directory) = sample_directory"
    by (simp_all add: sample_matchmaker_def directory_registry_def idle_def fault_free_def)
  have free: "owner_in (mm_registry sample_matchmaker) (ref_keys (rg_db (mm_registry sample_matchmaker))) (ascii ''p'') = None"
    unfolding m by (simp add: owner_in_def ref_keys_def sample_directory_def presence_key_def directory_registry_def hash_at_def ascii_simps)
  have typed: "typed_keys (mm_registry sample_matchmaker) (ref_keys (rg_db (mm_registry sample_matchmaker)))" unfolding m by (rule sample_typed)
  obtain s g where live: "live_shards ref_exec (mm_registry sample_matchmaker) = (([s], 0), g)" "si_id s = ascii ''a''" "accepting s"
    unfolding m using sample_live by blast
  have pick: "pick_shard [s] = Some s" using live(3) by (simp add: pick_shard_def better_shard_def)
  have ttl: "0 < mc_session_ttl_ms (mm_config sample_matchmaker)" by (simp add: sample_matchmaker_def)
  from refd.assign_free [OF ttl m(1) typed free live(1) pick a] live(2) have ok: "sg_ok grant" "sg_shard_id grant = ascii ''a''" by simp_all
  have own: "owner_in (mm_registry sample_matchmaker) (ref_keys (rg_db (mm_registry sample_matchmaker))) (ascii ''p'') \<noteq> Some []" using free by simp
  let ?c = "\<lparr>cc_kind = kSession, cc_token = sg_session_token grant, cc_player_id = ascii ''p''\<rparr>"
  have "cc_player_id ?c \<noteq> []" "length (cc_player_id ?c) \<le> kMaxPlayerIdBytes" by (simp_all add: ascii_simps kMaxPlayerIdBytes_def)
  then obtain token where t: "encode_credential ?c = Some token" using credential_roundtrip [of ?c] by (auto split: if_splits bind_splits)
  let ?w = "sample_member (rg_db (mm_registry m'))"
  obtain d w' where adm: "admit ref_exec sample_address token ?w = (d, w')" by (rule prod.exhaust)
  have w: "wsc_shard (sv_config ?w) = sg_shard_id grant" "wsc_advertise (sv_config ?w)" "sv_pending_by_player ?w = []"
      "length (sv_players ?w) < unat (wsc_capacity (sv_config ?w))" "idle (sc_registry (sv_coordinator ?w))"
      "rg_prefix (sc_registry (sv_coordinator ?w)) = rg_prefix (mm_registry sample_matchmaker)" "rg_db (sc_registry (sv_coordinator ?w)) = rg_db (mm_registry m')"
    using ok(2) by (simp_all add: sample_member_def sample_service_def sample_config_def directory_registry_def sample_matchmaker_def idle_def fault_free_def)
  from granted_session_admitted [OF refd.redis_directory_axioms ttl m(1) typed own a ok(1) t w adm] show ?thesis using a ok(1) t adm by auto
qed

end
