(* ===== verification/Game_Client.thy ===== *)
theory Game_Client
  imports Connection Client_View Http Messages
begin

text \<open>
  \<open>app/game_client.h\<close> and \<open>app/game_client.cpp\<close>: the client that owns a connection and a view. Its own members are the service of the
  client connection; the answers of the matchmaker and the resolver are parameters. An input whose axes are not numbers has no
  encoding in C++ and sets \<open>gc_undefined\<close>.
\<close>

section \<open>Data\<close>

record game_client_config =
  gcc_player_id :: bytes
  gcc_matchmaker :: address
  gcc_direct_shard :: address
  gcc_session_token :: u64
  gcc_params :: world_params
  gcc_view :: client_view_config
  gcc_timeout_us :: u64
  gcc_bind :: address

record game_client_stats =
  gs_snapshots_received :: u32
  gs_snapshots_applied :: u32
  gs_migrations :: u32
  gs_reconnects :: u32
  gs_inputs_sent :: u32
  gs_bytes_received :: u64
  gs_bytes_sent :: u64

record game_service =
  gc_config :: game_client_config
  gc_view :: client_view
  gc_shard_id :: bytes
  gc_shard_endpoint :: address
  gc_session_token :: u64
  gc_local_entity :: entity_id
  gc_region :: u32
  gc_pending_redirect :: bool
  gc_redirect :: migrate_redirect_event
  gc_input_window :: "move_input list"
  gc_client_tick :: tick
  gc_last_update_us :: u64
  gc_stats :: game_client_stats
  gc_undefined :: bool

type_synonym game_client = "game_service client_connection"

definition on_game :: "(game_service \<Rightarrow> game_service) \<Rightarrow> game_client \<Rightarrow> game_client" where
  "on_game f c = c\<lparr>cl_service := f (cl_service c)\<rparr>"


section \<open>The session\<close>

definition build_credential :: "credential_kind \<Rightarrow> u64 \<Rightarrow> game_service \<Rightarrow> connect_token option" where
  "build_credential kind token w = encode_credential \<lparr>cc_kind = kind, cc_token = token, cc_player_id = gcc_player_id (gc_config w)\<rparr>"

definition session_target :: "bytes \<Rightarrow> bytes" where
  "session_target player_id = ascii ''/session?player='' @ player_id"

text \<open>Up to three attempts, as long as nothing answers.\<close>

fun try_fetch :: "nat \<Rightarrow> nat \<Rightarrow> (nat \<Rightarrow> http_fetch) \<Rightarrow> http_fetch" where
  "try_fetch 0 i fetch = fetch (i - 1)"
| "try_fetch (Suc n) i fetch = (if hf_ok (fetch i) \<or> hf_status (fetch i) \<noteq> 0 then fetch i else try_fetch n (i + 1) fetch)"

definition read_session :: "(bytes \<Rightarrow> u32 option) \<Rightarrow> bytes \<Rightarrow> game_service \<Rightarrow> bool \<times> game_service" where
  "read_session resolve body w =
     (let endpoint = json_lookup body (ascii ''endpoint'');
          token = json_lookup body (ascii ''token'');
          w = w\<lparr>gc_shard_id := json_lookup body (ascii ''shard''), gc_region := ucast (strtoull (json_lookup body (ascii ''region'')))\<rparr>
      in if endpoint = [] \<or> token = [] then (False, w)
         else case address_parse resolve endpoint of
           None \<Rightarrow> (False, w)
         | Some a \<Rightarrow>
             let stats = gc_stats w;
                 w = w\<lparr>gc_shard_endpoint := a, gc_session_token := strtoull token,
                       gc_stats := (if json_lookup body (ascii ''reconnect'') = ascii ''true'' then stats\<lparr>gs_reconnects := gs_reconnects stats + 1\<rparr> else stats)\<rparr>
             in (gc_session_token w \<noteq> 0, w))"

definition request_session :: "(bytes \<Rightarrow> u32 option) \<Rightarrow> (address \<Rightarrow> bytes \<Rightarrow> bytes \<Rightarrow> nat \<Rightarrow> http_fetch) \<Rightarrow> game_service \<Rightarrow> bool \<times> game_service" where
  "request_session resolve http w =
     (if \<not> address_valid (gcc_matchmaker (gc_config w)) then (False, w)
      else let response = try_fetch 3 0 (http (gcc_matchmaker (gc_config w)) (ascii ''POST'') (session_target (gcc_player_id (gc_config w))))
           in if \<not> hf_ok response then (False, w) else read_session resolve (hf_body response) w)"

definition game_client_start :: "(bytes \<Rightarrow> u32 option) \<Rightarrow> (address \<Rightarrow> bytes \<Rightarrow> bytes \<Rightarrow> nat \<Rightarrow> http_fetch) \<Rightarrow> bool \<Rightarrow> u64 \<Rightarrow> game_client_config \<Rightarrow>
    game_client \<Rightarrow> bool \<times> game_client" where
  "game_client_start resolve http opened now config c =
     (let w = cl_service c;
          w = w\<lparr>gc_config := config, gc_view := view_configure (gcc_params config) (gcc_view config) (gc_view w)\<rparr>;
          (ready, w) = (if address_valid (gcc_direct_shard config)
                        then (True, w\<lparr>gc_shard_endpoint := gcc_direct_shard config, gc_session_token := gcc_session_token config\<rparr>)
                        else request_session resolve http w);
          c = c\<lparr>cl_service := w\<rparr>
      in if \<not> ready then (False, c)
         else case build_credential kSession (gc_session_token w) w of
           None \<Rightarrow> (False, c)
         | Some token \<Rightarrow>
             client_start opened \<lparr>cc_server = gc_shard_endpoint w, cc_connect_token = token, cc_timeout_us = gcc_timeout_us config,
               cc_retry_interval_us = 100000, cc_keepalive_us = 100000, cc_bind = gcc_bind config\<rparr> now c)"

definition game_client_stop :: "game_client \<Rightarrow> game_client" where
  "game_client_stop c = client_stop c"


section \<open>Snapshots and events\<close>

definition handle_snapshot :: "bytes \<Rightarrow> game_service \<Rightarrow> game_service" where
  "handle_snapshot data w =
     (if length data \<le> 1 \<or> hd data \<noteq> channel_kSnapshot then w
      else let stats = gc_stats w;
               stats = stats\<lparr>gs_snapshots_received := gs_snapshots_received stats + 1, gs_bytes_received := gs_bytes_received stats + word_of_nat (length data)\<rparr>
           in case apply_snapshot (tl data) (word_of_nat (length data) - 1) (gc_view w) of (applied, view) \<Rightarrow>
                w\<lparr>gc_view := view, gc_stats := (if applied then stats\<lparr>gs_snapshots_applied := gs_snapshots_applied stats + 1\<rparr> else stats)\<rparr>)"

definition handle_event :: "reliable_message \<Rightarrow> game_service \<Rightarrow> game_service" where
  "handle_event m w =
     (let payload = rm_payload m; n = word_of_nat (length payload)
      in if rm_channel m \<noteq> channel_kEvent \<or> payload = [] then w
         else if hd payload = event_kWorldConfig
         then (case decode_world_config payload n of
                 None \<Rightarrow> w
               | Some event \<Rightarrow> w\<lparr>gc_local_entity := wc_entity event, gc_region := wc_region event, gc_shard_id := wc_shard_id event,
                                 gc_view := set_local_entity (wc_entity event) (gc_view w)\<rparr>)
         else if hd payload = event_kMigrateRedirect
         then (case decode_migrate_redirect payload n of
                 None \<Rightarrow> w
               | Some event \<Rightarrow> w\<lparr>gc_redirect := event, gc_pending_redirect := True\<rparr>)
         else w)"

definition game_handlers :: "game_service client_handlers" where
  "game_handlers = \<lparr>on_client_payload = handle_snapshot, on_client_message = handle_event\<rparr>"


section \<open>Migration and the game loop\<close>

text \<open>The velocity of the last local entity in the render list.\<close>

definition local_velocity :: "render_entity list \<Rightarrow> vec2" where
  "local_velocity rs = foldl (\<lambda>v e. if re_is_local e then re_velocity e else v) (vec 0 0) rs"

definition apply_redirect :: "(bytes \<Rightarrow> u32 option) \<Rightarrow> u64 \<Rightarrow> game_client \<Rightarrow> game_client" where
  "apply_redirect resolve now c =
     (let c = on_game (\<lambda>w. w\<lparr>gc_pending_redirect := False\<rparr>) c; w = cl_service c; redirect = gc_redirect w
      in case address_parse resolve (mr_endpoint redirect) of
           None \<Rightarrow> c
         | Some endpoint \<Rightarrow>
             case build_credential kMigration (mr_ticket redirect) w of
               None \<Rightarrow> c
             | Some token \<Rightarrow>
                 let position = ms_position (cv_predicted (gc_view w)); velocity = local_velocity (cv_render (gc_view w))
                 in on_game (\<lambda>w. w\<lparr>gc_shard_endpoint := endpoint, gc_shard_id := mr_shard_id redirect, gc_region := mr_region redirect,
                      gc_local_entity := kInvalidEntity, gc_stats := (gc_stats w)\<lparr>gs_migrations := gs_migrations (gc_stats w) + 1\<rparr>,
                      gc_view := adopt_migrated_state kInvalidEntity position velocity (gc_view w)\<rparr>)
                    (client_redirect endpoint token now c))"

text \<open>The constant \<open>1000000.f\<close>.\<close>

definition f_million :: f32 where "f_million = 0x49742400"

definition advance_view :: "u64 \<Rightarrow> game_service \<Rightarrow> game_service" where
  "advance_view now w =
     (if gc_last_update_us w \<noteq> 0 \<and> now > gc_last_update_us w
      then w\<lparr>gc_view := view_advance (f_div (f_of_int (uint (now - gc_last_update_us w))) f_million) (gc_view w)\<rparr> else w)\<lparr>gc_last_update_us := now\<rparr>"

definition game_client_update :: "(bytes \<Rightarrow> u32 option) \<Rightarrow> u64 \<Rightarrow> game_client \<Rightarrow> game_client" where
  "game_client_update resolve now c =
     (let c = client_update game_handlers now c;
          c = (if gc_pending_redirect (cl_service c) then apply_redirect resolve now c else c)
      in on_game (advance_view now) c)"

definition push_window :: "move_input \<Rightarrow> move_input list \<Rightarrow> move_input list" where
  "push_window input window = (let window = window @ [input] in if length window > kInputRedundancy then tl window else window)"

definition send_input :: "vec2 \<Rightarrow> bool \<Rightarrow> u64 \<Rightarrow> game_client \<Rightarrow> game_client" where
  "send_input axis sprint now c =
     (let w = cl_service c
      in if cl_state c \<noteq> kConnected \<or> gc_local_entity w = kInvalidEntity then c
         else let w = w\<lparr>gc_client_tick := gc_client_tick w + 1\<rparr>
              in case push_input axis sprint (gc_client_tick w) (gc_view w) of
                   None \<Rightarrow> c\<lparr>cl_service := w\<lparr>gc_undefined := True\<rparr>\<rparr>
                 | Some (input, view) \<Rightarrow>
                     let w = w\<lparr>gc_view := view, gc_input_window := push_window input (gc_input_window w)\<rparr>;
                         packet = \<lparr>ip_client_tick = gc_client_tick w, ip_acked_snapshot_tick = cv_latest_tick view, ip_inputs = gc_input_window w\<rparr>
                     in case encode_input_packet packet (replicate (unat kMaxDatagramSize) 0) kMaxDatagramSize of
                          None \<Rightarrow> c\<lparr>cl_service := w\<lparr>gc_undefined := True\<rparr>\<rparr>
                        | Some (n, buffer) \<Rightarrow>
                            if n = 0 then c\<lparr>cl_service := w\<rparr>
                            else case client_send_payload (take (unat n) buffer) now (c\<lparr>cl_service := w\<rparr>) of
                              (False, c) \<Rightarrow> c
                            | (True, c) \<Rightarrow> on_game (\<lambda>w. w\<lparr>gc_stats := (gc_stats w)\<lparr>gs_inputs_sent := gs_inputs_sent (gc_stats w) + 1,
                                gs_bytes_sent := gs_bytes_sent (gc_stats w) + ucast n\<rparr>\<rparr>) c)"

end
