(* ===== verification/Migration_Path.thy ===== *)
theory Migration_Path
  imports Handoff Session Game_Client Connection_Handshake
begin

text \<open>
  A migration from end to end: the plan of the source shard, the redirect that the client receives, the credential it builds and
  the admission at the target shard.
\<close>

section \<open>The redirect\<close>

declare ascii_simps [simp del]

definition plan_redirect :: "handoff_plan \<Rightarrow> migrate_redirect_event" where
  "plan_redirect plan = \<lparr>mr_ticket = hp_token plan, mr_region = hp_target_region plan, mr_endpoint = hp_target_endpoint plan, mr_shard_id = hp_target_shard plan\<rparr>"

lemma redirect_event_bits:
  assumes "redirect_event plan \<noteq> []"
  shows "\<exists>pad. bytes_bits (redirect_event plan) = migrate_redirect_bits (plan_redirect plan) @ pad" and "length (redirect_event plan) \<le> 512"
proof -
  let ?buf = "replicate (unat kMaxReliableMessageSize) (0 :: u8)" and ?c = "kMaxReliableMessageSize"
  obtain n out where run: "encode_migrate_redirect (plan_redirect plan) ?buf ?c = (n, out)" by (rule prod.exhaust)
  have ev: "redirect_event plan = take (unat n) out" using run by (simp add: redirect_event_def plan_redirect_def)
  have c: "unat ?c \<le> length ?buf" "unat ?c < 268435456" by (simp_all add: kMaxReliableMessageSize_def)
  note run' = run [unfolded encode_migrate_redirect_def]
  have fit: "length (migrate_redirect_bits (plan_redirect plan)) \<le> 8 * unat ?c"
  proof (rule ccontr)
    assume "\<not> ?thesis"
    then have "fst (n, out) = 0" unfolding run' [symmetric] by (intro finish_writer_full [OF emits_migrate_redirect c]) simp
    then show False using assms ev by simp
  qed
  note w = finish_writer_fits [OF emits_migrate_redirect c fit run']
  show "\<exists>pad. bytes_bits (redirect_event plan) = migrate_redirect_bits (plan_redirect plan) @ pad" unfolding ev w(4) by blast
  show "length (redirect_event plan) \<le> 512" using w(3) by (simp add: ev kMaxReliableMessageSize_def)
qed

lemma redirect_event_fits:
  assumes "length (migrate_redirect_bits (plan_redirect plan)) \<le> 8 * 512"
  shows "redirect_event plan \<noteq> []"
proof -
  let ?buf = "replicate (unat kMaxReliableMessageSize) (0 :: u8)" and ?c = "kMaxReliableMessageSize"
  obtain n out where run: "encode_migrate_redirect (plan_redirect plan) ?buf ?c = (n, out)" by (rule prod.exhaust)
  have "unat n = (length (migrate_redirect_bits (plan_redirect plan)) + 7) div 8" "unat n \<le> length out"
    by (rule finish_writer_fits [OF emits_migrate_redirect _ _ _ run [unfolded encode_migrate_redirect_def]];
        use assms in \<open>simp add: kMaxReliableMessageSize_def\<close>)+
  moreover have "8 \<le> length (migrate_redirect_bits (plan_redirect plan))" by (simp add: migrate_redirect_bits_def)
  ultimately have "0 < unat n" "out \<noteq> []" by auto
  then show ?thesis using run by (simp add: redirect_event_def plan_redirect_def)
qed

lemma first_byte: "bytes_bits xs = bits_of (b :: u8) 8 @ rest \<Longrightarrow> xs \<noteq> [] \<Longrightarrow> hd xs = b"
  by (cases xs) (auto simp: bytes_bits_def dest: bits_of_inj_eq [rotated])

lemma redirect_received:
  assumes "redirect_event plan \<noteq> []" and "hp_target_endpoint plan \<noteq> []" and "length (hp_target_endpoint plan) \<le> 1023"
    and "length (hp_target_shard plan) \<le> 1023"
    and "rm_channel m = channel_kEvent" and "rm_payload m = redirect_event plan"
  shows "handle_event m w = w\<lparr>gc_redirect := plan_redirect plan, gc_pending_redirect := True\<rparr>"
proof -
  obtain pad where bits: "bytes_bits (redirect_event plan) = migrate_redirect_bits (plan_redirect plan) @ pad" using redirect_event_bits(1) [OF assms(1)] by blast
  have "brc.frames read_migrate_redirect (migrate_redirect_bits (plan_redirect plan)) (plan_redirect plan)"
    using assms(2-4) by (intro frames_migrate_redirect) (simp_all add: plan_redirect_def)
  from whole_frames [OF this bits] redirect_event_bits(2) [OF assms(1)]
  have "decode_migrate_redirect (redirect_event plan) (word_of_nat (length (redirect_event plan))) = Some (plan_redirect plan)"
    by (simp add: decode_migrate_redirect_def)
  moreover have "hd (redirect_event plan) = event_kMigrateRedirect"
    using bits assms(1) unfolding migrate_redirect_bits_def append_assoc by (rule first_byte)
  ultimately show ?thesis using assms(1,5,6) by (simp add: handle_event_def event_kMigrateRedirect_def event_kWorldConfig_def Let_def)
qed


section \<open>Admission with a ticket\<close>

lemma admit_ticket:
  assumes c: "decode_credential token = Some c" "cc_kind c = kMigration"
    and w: "sv_pending_by_player w = []" "length (sv_players w) < unat (wsc_capacity (sv_config w))" "map_of (sv_redeemed_tickets w) (cc_token c) = None"
    and found: "accept_handoff exec (cc_token c) (sv_coordinator w) = (Some t, k)" "mt_player_id t = cc_player_id c"
    and run: "admit exec sender token w = (d, w')"
  shows "ad_admit d \<and> (\<exists>a. map_of (sv_pending_admits w') (ad_client_id d) = Some a \<and> pa_credential a = c \<and> pa_ticket a = Some t)"
proof -
  let ?w = "w\<lparr>sv_readings := Suc (sv_readings w)\<rparr>"
  define w2 where "w2 = ?w\<lparr>sv_coordinator := k, sv_redeemed_tickets := AList.update (cc_token c) t (sv_redeemed_tickets w)\<rparr>"
  have cred: "check_credential exec c ?w = (Inr (Some t, mt_region t), w2)"
    using c(2) w(3) found by (simp add: check_credential_def find_ticket_def w2_def)
  have "\<not> unat (wsc_capacity (sv_config ?w)) \<le> length (sv_players ?w)" using w(2) by simp
  then have "(d, w') = (let client = sv_next_client w2; admitted = \<lparr>pa_client = client, pa_credential = c, pa_ticket = Some t,
        pa_region = admitted_region (mt_region t) w2, pa_expires_ms = sv_clock w (sv_readings w) + kPendingAdmitTtlMs\<rparr>
      in (\<lparr>ad_admit = True, ad_reason = kBadToken, ad_client_id = client\<rparr>,
          w2\<lparr>sv_next_client := client + 1, sv_pending_admits := AList.update client admitted (sv_pending_admits w2),
            sv_pending_by_player := AList.update (cc_player_id c) client (sv_pending_by_player w2)\<rparr>))"
    using run c(1) w(1) by (simp add: admit_def read_wall_ms_def admit_new_def cred)
  then show ?thesis by (auto simp: Let_def update_conv')
qed

text \<open>
  The service of a shard is one for which the handshake completes: it admits the token, and a player without a session replaces
  nobody.
\<close>

lemma world_handlers_welcome:
  assumes "admit exec sender token w = (d, w')" and "ad_admit d" and "ad_client_id d \<noteq> 0"
    and "map_of (sv_pending_admits w') (ad_client_id d) = Some x" and "map_of (sv_by_player_id w') (cc_player_id (pa_credential x)) = None"
  shows "welcomes (world_handlers exec) sender token w"
  using assms by (simp add: welcomes_def world_handlers_def replaces_none_def begin_connect_def Let_def)

text \<open>
  C6: a migration over all parts. When the source shard has planned a handoff and its redirect reaches the client, the client turns
  to the endpoint of the target with its predicted position, and the credential it presents there is admitted with the very ticket
  of the plan: the player enters the target with the position, the velocity and the last input it had at the source. The target must
  have room and no admission pending, every registry command is answered, the ticket has not expired, the player id has at most
  20 bytes and the names and the endpoint at most 1023.
\<close>

theorem migrated_player_admitted:
  fixes a :: "'d shard_coordinator"
  assumes redis: "redis_service exec keys" "0 < sh_ticket_ttl_ms (sc_shard_config a)" "0 < sh_presence_ttl_ms (sc_shard_config a)"
    and src: "typed_keys (sc_registry a) (keys (rg_db (sc_registry a)))" "fault_free (sc_registry a)" "rg_queue (sc_registry a) = []"
    and names: "player \<noteq> []" "length player \<le> kMaxPlayerIdBytes" "length (sh_id (sc_shard_config a)) \<le> 1023" "length (hp_target_shard plan) \<le> 1023"
      "length (hp_target_endpoint plan) \<le> 1023"
    and plan: "plan_handoff exec now player region pos vel tick seq a = Some (Some plan, a')"
    and event: "redirect_event plan \<noteq> []" "rm_channel m = channel_kEvent" "rm_payload m = redirect_event plan"
    and client: "gcc_player_id (gc_config (cl_service c)) = player" "address_parse resolve (hp_target_endpoint plan) = Some endpoint"
      "c' = apply_redirect resolve t (on_game (handle_event m) c)"
    and target: "rg_prefix (sc_registry (sv_coordinator w)) = rg_prefix (sc_registry a)" "rg_db (sc_registry (sv_coordinator w)) = rg_db (sc_registry a')"
      "fault_free (sc_registry (sv_coordinator w))" "rg_queue (sc_registry (sv_coordinator w)) = []"
      "sh_id (sc_shard_config (sv_coordinator w)) = hp_target_shard plan"
    and room: "sv_pending_by_player w = []" "length (sv_players w) < unat (wsc_capacity (sv_config w))" "map_of (sv_redeemed_tickets w) (hp_token plan) = None"
    and run: "admit exec sender (cc_connect_token (cl_config c')) w = (d, w')"
  shows "cc_server (cl_config c') = endpoint \<and> cl_state c' = kSendingRequest \<and>
     ms_position (cv_predicted (gc_view (cl_service c'))) = ms_position (cv_predicted (gc_view (cl_service c))) \<and> ad_admit d \<and>
     (\<exists>adm. map_of (sv_pending_admits w') (ad_client_id d) = Some adm \<and> cc_player_id (pa_credential adm) = player \<and>
        fst (entry_point adm (ad_client_id d) w') = (pos, vel, seq, pa_region adm))"
proof -
  let ?cred = "\<lparr>cc_kind = kMigration, cc_token = hp_token plan, cc_player_id = player\<rparr>"
  obtain token where tok: "encode_credential ?cred = Some token" "decode_credential token = Some ?cred"
    using credential_roundtrip [of ?cred] names(1,2) by (auto split: if_splits bind_splits)
  have ne: "hp_target_endpoint plan \<noteq> []" using client(2) by (auto simp: address_parse_def cut_last_def)
  note ev = redirect_received [OF event(1) ne names(5,4) event(2,3)]
  have c': "cc_server (cl_config c') = endpoint" "cc_connect_token (cl_config c') = token" "cl_state c' = kSendingRequest"
      "ms_position (cv_predicted (gc_view (cl_service c'))) = ms_position (cv_predicted (gc_view (cl_service c)))"
    using client tok(1) by (auto simp: apply_redirect_def on_game_def ev plan_redirect_def build_credential_def client_redirect_def
        begin_handshake_def adopt_migrated_state_def Let_def split: prod.splits)
  obtain found k where acc: "accept_handoff exec (hp_token plan) (sv_coordinator w) = (found, k)" by (rule prod.exhaust)
  have len: "length player \<le> 1023" using names(2) by (simp add: kMaxPlayerIdBytes_def)
  let ?t = "planned_ticket now player pos vel tick seq (sh_id (sc_shard_config a)) plan"
  have f: "found = Some ?t"
    by (rule redis_service.handoff_reaches_target(1) [OF redis src names(1) len names(3,4) plan target acc])
  have t: "mt_player_id ?t = player" "mt_position ?t = pos" "mt_velocity ?t = vel" "mt_last_input_sequence ?t = seq"
    by (simp_all add: planned_ticket_def stamp_def)
  have "\<exists>adm. map_of (sv_pending_admits w') (ad_client_id d) = Some adm \<and> pa_credential adm = ?cred \<and> pa_ticket adm = Some ?t" "ad_admit d"
    using admit_ticket [OF tok(2) _ room(1,2) _ _ _ run [unfolded c'(2)]] room(3) acc f t(1) by auto
  then show ?thesis using c'(1,3,4) t(2-4) by (auto simp: entry_point_def Let_def)
qed

text \<open>The sample cluster, its player \<open>p\<close> and the shard \<open>b\<close> after the plan.\<close>

definition sample_plan_value :: handoff_plan where
  "sample_plan_value = \<lparr>hp_token = 77, hp_target_region = 1, hp_target_shard = ascii ''b'', hp_target_endpoint = ascii ''e:1''\<rparr>"

definition unset_view :: client_view where
  "unset_view = \<lparr>cv_params = mk_world_params, cv_config = mk_client_view_config, cv_quantizers = quantizers_from mk_world_params,
     cv_local_entity = 0, cv_predicted = zero_move_state, cv_authoritative = zero_move_state, cv_correction_offset = vec 0 0,
     cv_input_history = [], cv_next_input_sequence = 1, cv_last_acknowledged_input = 0, cv_baselines = [], cv_frames = [],
     cv_latest_tick = 0, cv_has_snapshot = False, cv_render_tick = 0, cv_render_clock_started = False, cv_render = [],
     cv_stats = mk_client_view_stats\<rparr>"

definition sample_player :: game_service where
  "sample_player = \<lparr>gc_config = \<lparr>gcc_player_id = ascii ''p'', gcc_matchmaker = \<lparr>ad_ip = 0, ad_port = 0\<rparr>, gcc_direct_shard = sample_address, gcc_session_token = 5,
       gcc_params = mk_world_params, gcc_view = mk_client_view_config, gcc_timeout_us = 5000000, gcc_bind = \<lparr>ad_ip = 0, ad_port = 0\<rparr>\<rparr>,
     gc_view = view_configure mk_world_params mk_client_view_config unset_view, gc_shard_id = ascii ''a'', gc_shard_endpoint = sample_address, gc_session_token = 5, gc_local_entity = 1, gc_region = 0,
     gc_pending_redirect = False, gc_redirect = plan_redirect sample_plan_value, gc_input_window = [], gc_client_tick = 0, gc_last_update_us = 0,
     gc_stats = \<lparr>gs_snapshots_received = 0, gs_snapshots_applied = 0, gs_migrations = 0, gs_reconnects = 0, gs_inputs_sent = 0, gs_bytes_received = 0, gs_bytes_sent = 0\<rparr>,
     gc_undefined = False\<rparr>"

definition sample_game :: game_client where
  "sample_game = \<lparr>cl_config = sample_client_config, cl_socket = mk_socket 100, cl_state = kConnected, cl_deny_reason = 0, cl_client_salt = 0, cl_server_salt = 0,
     cl_last_send_us = 0, cl_last_receive_us = 0, cl_connect_started_us = 0, cl_client_id = 1, cl_entity = 1, cl_reliability = mk_endpoint,
     cl_random = \<lparr>rnd_numbers = (\<lambda>n. word_of_nat n), rnd_drawn = 0\<rparr>, cl_service = sample_player\<rparr>"

definition sample_message :: reliable_message where
  "sample_message = \<lparr>rm_id = 0, rm_channel = channel_kEvent, rm_sends = 1, rm_payload = redirect_event sample_plan_value\<rparr>"

definition sample_target :: "ref_store \<Rightarrow> ref_store world_service" where
  "sample_target db = (sample_service db)\<lparr>sv_config := sample_config\<lparr>wsc_shard := ascii ''b'', wsc_advertise := True\<rparr>, sv_coordinator := sample_on (ascii ''b'') db\<rparr>"

theorem migrated_player_admitted_witness:
  "\<exists>a plan c'. plan_handoff ref_exec 5 (ascii ''p'') 0 (vec 0x44960000 0x42c80000) (vec 0 0) 9 4 (sample_shard (ascii ''a'')) = Some (Some plan, a) \<and>
     c' = apply_redirect (\<lambda>_. Some 9) 0 (on_game (handle_event sample_message) sample_game) \<and> cc_server (cl_config c') = \<lparr>ad_ip = 9, ad_port = 1\<rparr> \<and>
     ad_admit (fst (admit ref_exec sample_address (cc_connect_token (cl_config c')) (sample_target (rg_db (sc_registry a)))))"
proof -
  let ?plan = sample_plan_value and ?c = "apply_redirect (\<lambda>_. Some 9) 0 (on_game (handle_event sample_message) sample_game)"
  obtain a where plan: "plan_handoff ref_exec 5 (ascii ''p'') 0 (vec 0x44960000 0x42c80000) (vec 0 0) 9 4 (sample_shard (ascii ''a'')) = Some (Some ?plan, a)"
    unfolding sample_plan_value_def by (rule sample_plan)
  let ?w = "sample_target (rg_db (sc_registry a))"
  obtain d w' where adm: "admit ref_exec sample_address (cc_connect_token (cl_config ?c)) ?w = (d, w')" by (rule prod.exhaust)
  have reg: "sc_registry (sample_shard (ascii ''a'')) = sample_registry (ascii ''a'')" "sh_id (sc_shard_config (sample_shard (ascii ''a''))) = ascii ''a''"
    by (simp_all add: sample_shard_def)
  have names: "ascii ''p'' \<noteq> []" "length (ascii ''p'') \<le> kMaxPlayerIdBytes" "length (sh_id (sc_shard_config (sample_shard (ascii ''a'')))) \<le> 1023"
      "length (hp_target_shard ?plan) \<le> 1023" "length (hp_target_endpoint ?plan) \<le> 1023"
    unfolding reg by (simp_all add: kMaxPlayerIdBytes_def sample_plan_value_def ascii_simps)
  have "length (migrate_redirect_bits (plan_redirect ?plan)) = 128" by code_simp
  then have ev: "redirect_event ?plan \<noteq> []" by (intro redirect_event_fits) simp
  have msg: "rm_channel sample_message = channel_kEvent" "rm_payload sample_message = redirect_event ?plan" by (simp_all add: sample_message_def)
  have client: "gcc_player_id (gc_config (cl_service sample_game)) = ascii ''p''" by (simp add: sample_game_def sample_player_def)
  have dial: "address_parse (\<lambda>_. Some 9) (hp_target_endpoint ?plan) = Some \<lparr>ad_ip = 9, ad_port = 1\<rparr>" by code_simp
  have w: "rg_prefix (sc_registry (sv_coordinator ?w)) = rg_prefix (sc_registry (sample_shard (ascii ''a'')))"
      "rg_db (sc_registry (sv_coordinator ?w)) = rg_db (sc_registry a)" "fault_free (sc_registry (sv_coordinator ?w))"
      "rg_queue (sc_registry (sv_coordinator ?w)) = []" "sh_id (sc_shard_config (sv_coordinator ?w)) = hp_target_shard ?plan"
      "sv_pending_by_player ?w = []" "length (sv_players ?w) < unat (wsc_capacity (sv_config ?w))" "map_of (sv_redeemed_tickets ?w) (hp_token ?plan) = None"
    by (simp_all add: sample_target_def sample_on_def sample_shard_def sample_registry_def fault_free_def sample_plan_value_def sample_service_def sample_config_def)
  have src: "typed_keys (sc_registry (sample_shard (ascii ''a''))) (ref_keys (rg_db (sc_registry (sample_shard (ascii ''a'')))))"
      "fault_free (sc_registry (sample_shard (ascii ''a'')))" "rg_queue (sc_registry (sample_shard (ascii ''a''))) = []"
    unfolding reg by (rule sample_registry_ok)+
  have ttl: "0 < sh_ticket_ttl_ms (sc_shard_config (sample_shard (ascii ''a'')))" "0 < sh_presence_ttl_ms (sc_shard_config (sample_shard (ascii ''a'')))"
    by (simp_all add: sample_shard_def)
  from migrated_player_admitted [OF ref.redis_service_axioms ttl src names plan ev msg client dial refl w adm] plan adm show ?thesis by auto
qed

end
