(* ===== verification/Http_Exchange.thy ===== *)
theory Http_Exchange
  imports Http
begin

text \<open>
  Searching in text, and an exchange of a request and a response between the client and the server of \<open>net/http\<close>, however the
  stream is cut into chunks.
\<close>

section \<open>Searching\<close>

lemma find_here: "take (length needle) xs = needle \<Longrightarrow> find_sub needle xs = Some 0"
  by (cases xs) (simp_all del: take_Cons')

lemma find_next: "take (length needle) (x # xs) \<noteq> needle \<Longrightarrow> find_sub needle (x # xs) = map_option Suc (find_sub needle xs)"
  by (simp only: find_sub.simps if_False)

lemma find_other: "x \<noteq> b \<Longrightarrow> find_sub (b # needle) (x # xs) = map_option Suc (find_sub (b # needle) xs)"
  by (rule find_next) simp

lemma find_skip: "b \<notin> set xs \<Longrightarrow> find_sub (b # needle) (xs @ ys) = map_option (\<lambda>n. n + length xs) (find_sub (b # needle) ys)"
proof (induction xs)
  case Nil
  then show ?case by (cases "find_sub (b # needle) ys") simp_all
next
  case (Cons x xs)
  then have "find_sub (b # needle) ((x # xs) @ ys) = map_option Suc (find_sub (b # needle) (xs @ ys))"
    unfolding append_Cons by (intro find_other) auto
  with Cons show ?case by (cases "find_sub (b # needle) ys") simp_all
qed

lemma find_byte: "b \<notin> set xs \<Longrightarrow> find_sub [b] (xs @ b # ys) = Some (length xs)"
  by (simp add: find_skip find_here)

lemma find_byte_none: "b \<notin> set xs \<Longrightarrow> find_sub [b] xs = None"
  using find_skip [of b xs "[]" "[]"] by simp

lemma find_sound: "find_sub needle xs = Some n \<Longrightarrow> take (length needle) (drop n xs) = needle"
proof (induction xs arbitrary: n)
  case (Cons x xs)
  show ?case
  proof (cases "take (length needle) (x # xs) = needle")
    case True
    then show ?thesis using Cons.prems find_here [OF True] by auto
  next
    case False
    then show ?thesis using Cons find_next [OF False] by auto
  qed
qed (simp split: if_splits)

text \<open>What is found in the front of a text is found in the text, and the other way round.\<close>

lemma find_append: "find_sub needle xs = Some n \<Longrightarrow> find_sub needle (xs @ ys) = Some n"
proof (induction xs arbitrary: n)
  case Nil
  then show ?case by (cases ys) (auto split: if_splits)
next
  case (Cons x xs)
  show ?case
  proof (cases "take (length needle) (x # xs) = needle")
    case True
    then have len: "length needle \<le> length (x # xs)" by (metis length_take min.cobounded1)
    have "n = 0" using Cons.prems find_here [OF True] by simp
    moreover have "take (length needle) ((x # xs) @ ys) = needle" using True len by (simp only: take_append) simp
    ultimately show ?thesis using find_here by blast
  next
    case False
    then obtain m where m: "find_sub needle xs = Some m" "n = Suc m" using Cons.prems find_next [OF False] by auto
    have "length needle \<le> length (x # xs)" using find_sub_bound [OF Cons.prems] by simp
    then have "take (length needle) ((x # xs) @ ys) \<noteq> needle" using False by (simp only: take_append) simp
    then show ?thesis using find_next [of needle x "xs @ ys"] Cons.IH [OF m(1)] m(2) by simp
  qed
qed

lemma find_prefix: "find_sub needle (xs @ ys) = Some n \<Longrightarrow> n + length needle \<le> length xs \<Longrightarrow> find_sub needle xs = Some n"
proof (induction xs arbitrary: n)
  case Nil
  then show ?case by simp
next
  case (Cons x xs)
  have split: "take (length needle) ((x # xs) @ ys) = take (length needle) (x # xs)"
    unfolding take_append using Cons.prems(2) by simp
  show ?case
  proof (cases "take (length needle) (x # xs) = needle")
    case True
    then show ?thesis using Cons.prems(1) find_here [of needle "(x # xs) @ ys"] find_here [OF True] split by simp
  next
    case False
    then have "take (length needle) (x # (xs @ ys)) \<noteq> needle" using split by simp
    then obtain m where m: "find_sub needle (xs @ ys) = Some m" "n = Suc m" using Cons.prems(1) find_next [of needle x "xs @ ys"] by auto
    then show ?thesis using Cons.IH [OF m(1)] Cons.prems(2) find_next [OF False] by simp
  qed
qed

text \<open>A text of lines.\<close>

definition lines_text :: "bytes list \<Rightarrow> bytes" where
  "lines_text ls = concat (map (\<lambda>l. l @ crlf) ls)"

lemma lines_text_simps [simp]: "lines_text [] = []" "lines_text (l # ls) = l @ crlf @ lines_text ls"
  by (simp_all add: lines_text_def)

definition plain_line :: "bytes \<Rightarrow> bool" where
  "plain_line l \<longleftrightarrow> l \<noteq> [] \<and> 13 \<notin> set l"

lemma find_crlf: "13 \<notin> set l \<Longrightarrow> find_sub crlf (l @ crlf @ rest) = Some (length l)"
  by (simp add: crlf_def find_skip find_here)

lemma find_mark_line:
  assumes "13 \<notin> set l" and "rest \<noteq> []" and "hd rest \<noteq> 13"
  shows "find_sub header_mark (l @ crlf @ rest) = map_option (\<lambda>n. n + length l + 2) (find_sub header_mark rest)"
proof -
  obtain y ys where rest: "rest = y # ys" "y \<noteq> 13" using assms(2,3) by (cases rest) auto
  have "take (length header_mark) (13 # 10 # rest) \<noteq> header_mark" using rest by (simp add: header_mark_def)
  then have "find_sub header_mark (13 # 10 # rest) = map_option Suc (find_sub header_mark (10 # rest))" by (rule find_next)
  moreover have "find_sub header_mark (10 # rest) = map_option Suc (find_sub header_mark rest)" unfolding header_mark_def by (rule find_other) simp
  ultimately have "find_sub header_mark (crlf @ rest) = map_option (\<lambda>n. n + 2) (find_sub header_mark rest)"
    by (cases "find_sub header_mark rest") (simp_all add: crlf_def)
  then show ?thesis using find_skip [OF assms(1), of "[10, 13, 10]" "crlf @ rest"]
    by (cases "find_sub header_mark rest") (simp_all add: header_mark_def)
qed

lemma find_mark:
  assumes "ls \<noteq> []" and "list_all plain_line ls"
  shows "find_sub header_mark (lines_text ls @ crlf @ body) = Some (length (lines_text ls) - 2)"
  using assms
proof (induction ls)
  case (Cons l ls)
  show ?case
  proof (cases "ls = []")
    case True
    have "find_sub header_mark (crlf @ crlf @ body) = Some 0" by (rule find_here) (simp add: header_mark_def crlf_def)
    then show ?thesis using Cons.prems find_skip [of 13 l "[10, 13, 10]" "crlf @ crlf @ body"]
      by (simp add: True plain_line_def header_mark_def) (simp add: crlf_def)
  next
    case False
    then obtain k ks where ls: "ls = k # ks" by (cases ls) auto
    then have k: "k \<noteq> []" "13 \<notin> set k" "13 \<notin> set l" using Cons.prems by (simp_all add: plain_line_def)
    have "hd (lines_text ls @ crlf @ body) \<noteq> 13" "lines_text ls @ crlf @ body \<noteq> []"
      using k hd_in_set [OF k(1)] by (auto simp: ls simp del: hd_in_set)
    from find_mark_line [OF k(3) this(2,1)] Cons.IH [OF False] Cons.prems False
    show ?thesis by (simp add: ls crlf_def)
  qed
qed simp

lemma header_lines_text: "list_all plain_line ls \<Longrightarrow> header_lines (lines_text ls @ crlf @ body) = ls"
proof (induction ls)
  case Nil
  have "find_sub crlf (crlf @ body) = Some 0" by (rule find_here) (simp add: crlf_def)
  then show ?case by (subst header_lines.simps) simp
next
  case (Cons l ls)
  then have "find_sub crlf (l @ crlf @ lines_text ls @ crlf @ body) = Some (length l)" by (intro find_crlf) (simp add: plain_line_def)
  moreover have "drop (length l + 2) (l @ crlf @ lines_text ls @ crlf @ body) = lines_text ls @ crlf @ body" by (simp add: crlf_def)
  ultimately show ?case using Cons by (subst header_lines.simps) (simp add: plain_line_def)
qed

text \<open>A line that does not contain what is looked for is passed over.\<close>

lemma find_line:
  assumes "13 \<notin> set needle" and "10 \<notin> set needle"
  shows "find_sub needle l = None \<Longrightarrow> find_sub needle (l @ crlf @ rest) = map_option (\<lambda>n. n + length l + 2) (find_sub needle rest)"
proof (induction l)
  case Nil
  then obtain b ns where n: "needle = b # ns" "13 \<noteq> b" "10 \<noteq> b" using assms by (cases needle) auto
  then show ?case using find_other [OF n(2), of ns "10 # rest"] find_other [OF n(3), of ns rest]
    by (cases "find_sub needle rest") (simp_all add: crlf_def)
next
  case (Cons x l)
  have here: "take (length needle) (x # l) \<noteq> needle" using Cons.prems find_here by fastforce
  then have none: "find_sub needle l = None" using Cons.prems find_next [OF here] by simp
  have "take (length needle) ((x # l) @ crlf @ rest) \<noteq> needle"
  proof
    assume e: "take (length needle) ((x # l) @ crlf @ rest) = needle"
    show False
    proof (cases "length needle \<le> length (x # l)")
      case True
      then show False using e here unfolding take_append by simp
    next
      case False
      then have "length (x # l) < length needle" by simp
      then have "take (length needle) ((x # l) @ crlf @ rest) ! length (x # l) = ((x # l) @ crlf @ rest) ! length (x # l)" by (rule nth_take)
      then have "needle ! length (x # l) = ((x # l) @ crlf @ rest) ! length (x # l)" unfolding e .
      then have "needle ! length (x # l) = 13" unfolding nth_append by (simp add: crlf_def)
      then show False using assms(1) False by (metis not_le nth_mem)
    qed
  qed
  then show ?case using find_next [of needle x "l @ crlf @ rest"] Cons.IH [OF none] by (cases "find_sub needle rest") simp_all
qed


section \<open>The request\<close>

definition visible :: "bytes \<Rightarrow> bool" where
  "visible w \<longleftrightarrow> w \<noteq> [] \<and> list_all (\<lambda>b. \<not> is_space b \<and> b \<noteq> 58) w"

definition request_lines :: "address \<Rightarrow> bytes \<Rightarrow> bytes \<Rightarrow> bytes \<Rightarrow> bytes list" where
  "request_lines server verb target body =
     [verb @ ascii '' '' @ target @ ascii '' HTTP/1.1'', ascii ''Host: '' @ address_to_string server, ascii ''Connection: close'',
      ascii ''Content-Length: '' @ dec (length body)]"

lemma fetch_lines: "fetch_request server verb target body = lines_text (request_lines server verb target body) @ crlf @ body"
  by (simp add: fetch_request_def request_lines_def)

lemma address_chars: "b \<in> set (address_to_string a) \<Longrightarrow> is_digit b \<or> b = 46 \<or> b = 58"
  using dec_digits by (auto simp: address_to_string_def dec_byte_def list_all_iff)

lemma visible_chars: "visible w \<Longrightarrow> 13 \<notin> set w \<and> 58 \<notin> set w"
  by (auto simp: visible_def list_all_iff is_space_def)

lemma request_lines_plain:
  assumes "visible verb" and "visible target"
  shows "list_all plain_line (request_lines server verb target body)"
proof -
  have "13 \<notin> set (address_to_string server)" using address_chars [of 13 server] by (auto simp: is_digit_def)
  then show ?thesis using visible_chars [OF assms(1)] visible_chars [OF assms(2)] by (simp add: request_lines_def plain_line_def dec_no_cr)
qed

text \<open>The length is declared in the last line of the header and nowhere before.\<close>

lemma find_length:
  assumes "visible verb" and "visible target"
  shows "\<exists>m. find_sub (ascii ''Content-Length:'') (fetch_request server verb target body) = Some m \<and>
    m + 15 < length (lines_text (request_lines server verb target body)) \<and>
    drop (m + 15) (fetch_request server verb target body) = 32 # dec (length body) @ crlf @ crlf @ body"
proof -
  define n where "n = ascii ''Content-Length:''"
  obtain l1 l2 l3 l4 where l: "request_lines server verb target body = [l1, l2, l3, l4]" "l1 = verb @ ascii '' '' @ target @ ascii '' HTTP/1.1''"
      "l2 = ascii ''Host: '' @ address_to_string server" "l3 = ascii ''Connection: close''" "l4 = n @ 32 # dec (length body)"
    by (simp add: request_lines_def n_def)
  have n: "13 \<notin> set n" "10 \<notin> set n" "58 \<in> set n" "length n = 15" by (simp_all add: n_def)
  obtain ns where ns: "n = 67 # ns" by (simp add: n_def)
  have f1: "find_sub n l1 = None"
  proof (rule ccontr)
    assume "find_sub n l1 \<noteq> None"
    then obtain i where "take (length n) (drop i l1) = n" using find_sound by blast
    then have "set n \<subseteq> set l1" by (metis set_drop_subset set_take_subset subset_trans)
    then have "58 \<in> set l1" using n(3) by blast
    then show False using visible_chars [OF assms(1)] visible_chars [OF assms(2)] by (simp add: l(2))
  qed
  have "67 \<notin> set l2" using address_chars [of 67 server] by (auto simp: l(3) is_digit_def)
  then have f2: "find_sub n l2 = None" using find_skip [of 67 l2 ns "[]"] by (simp add: ns)
  have f3: "find_sub n l3 = None" unfolding l(4) n_def by code_simp
  have f4: "find_sub n (l4 @ crlf @ crlf @ body) = Some 0" unfolding l(5) by (rule find_here) simp
  let ?m = "length l1 + 2 + (length l2 + 2) + (length l3 + 2)"
  have r: "fetch_request server verb target body = l1 @ crlf @ l2 @ crlf @ l3 @ crlf @ l4 @ crlf @ crlf @ body" by (simp add: fetch_lines l(1))
  have "find_sub n (fetch_request server verb target body) = Some ?m"
    unfolding r find_line [OF n(1,2) f1] find_line [OF n(1,2) f2] find_line [OF n(1,2) f3] f4 by simp
  moreover have "drop (?m + 15) (fetch_request server verb target body) = 32 # dec (length body) @ crlf @ crlf @ body"
  proof -
    let ?front = "l1 @ crlf @ l2 @ crlf @ l3 @ crlf @ n"
    have "fetch_request server verb target body = ?front @ 32 # dec (length body) @ crlf @ crlf @ body" by (simp add: r l(5))
    moreover have "length ?front = ?m + 15" by (simp add: crlf_def n(4))
    ultimately show ?thesis by (metis append_eq_conv_conj)
  qed
  moreover have "?m + 15 < length (lines_text (request_lines server verb target body))" by (simp add: l(1) n(4) crlf_def) (simp add: l(5) n(4))
  ultimately show ?thesis unfolding n_def by blast
qed

lemma scan_length: "strtoull (32 # dec n @ crlf @ rest) = (if 2 ^ 64 \<le> n then - 1 else word_of_nat n)"
proof -
  have "scan_number (32 # dec n @ crlf @ rest) = scan_number (dec n @ crlf @ rest)" by (simp add: scan_number_def is_space_def)
  also have "\<dots> = (False, n)" by (rule scan_dec(1)) (simp add: crlf_def is_digit_def)
  finally show ?thesis by (simp add: strtoull_def)
qed

text \<open>A request is complete when its last byte is there, and not before.\<close>

lemma request_complete_front:
  assumes vis: "visible verb" "visible target" and r: "fetch_request server verb target body = p @ q" "length (p @ q) \<le> kMaxRequestBytes"
  shows "request_complete p \<longleftrightarrow> q = []"
proof -
  let ?ls = "request_lines server verb target body"
  let ?h = "length (lines_text ?ls) - 2"
  obtain m where m: "find_sub (ascii ''Content-Length:'') (p @ q) = Some m" "m + 15 < length (lines_text ?ls)"
      "drop (m + 15) (p @ q) = 32 # dec (length body) @ crlf @ crlf @ body" using find_length [OF vis, of server body] r(1) by auto
  have mark: "find_sub header_mark (p @ q) = Some ?h"
    using find_mark [OF _ request_lines_plain [OF vis], of server body body] unfolding r(1) [symmetric] fetch_lines by (simp add: request_lines_def)
  have len: "length (p @ q) = ?h + 4 + length body" "?h + 2 = length (lines_text ?ls)"
    unfolding r(1) [symmetric] fetch_lines by (simp_all add: request_lines_def crlf_def)
  show ?thesis
  proof (cases "?h + 4 \<le> length p")
    case True
    then have found: "find_sub header_mark p = Some ?h" using find_prefix [OF mark] by (simp add: header_mark_def)
    have "find_sub (ascii ''Content-Length:'') p = Some m" by (rule find_prefix [OF m(1)]) (use True m(2) in simp)
    moreover have "m < ?h" using m(2) len(2) by simp
    moreover have "strtoull (drop (m + 15) p) = word_of_nat (length body)"
    proof -
      have front: "32 # dec (length body) @ crlf @ crlf @ body = drop (m + 15) p @ q" using m(3) True m(2) len(2) by simp
      have "length (32 # dec (length body) @ crlf @ crlf @ body) = length (p @ q) - (m + 15)" using m(3) length_drop by metis
      then have "length (drop (m + 15) p) \<ge> length (32 # dec (length body) @ crlf @ crlf)" using True m(2) len by (simp add: crlf_def)
      then obtain t where "drop (m + 15) p = (32 # dec (length body) @ crlf @ crlf) @ t"
        using front append_eq_append_conv_if [of "32 # dec (length body) @ crlf @ crlf" body "drop (m + 15) p" q] by (metis append_Cons append_assoc append_take_drop_id)
      then show ?thesis using scan_length [of "length body" "crlf @ t"] len(1) r(2) by (simp add: kMaxRequestBytes_def)
    qed
    ultimately have "declared_length p ?h = word_of_nat (length body)" by (simp add: declared_length_def)
    moreover have "(word_of_nat (?h + 4) + word_of_nat (length body) :: u64) \<le> word_of_nat (length p) \<longleftrightarrow> length (p @ q) \<le> length p"
    proof -
      have small: "unat (word_of_nat k :: u64) = k" if "k \<le> length (p @ q)" for k
        using that r(2) by (intro unat_of_nat_less) (simp add: kMaxRequestBytes_def)
      have "word_of_nat (?h + 4) + word_of_nat (length body) = (word_of_nat (length (p @ q)) :: u64)" unfolding len(1) by (simp only: of_nat_add)
      then show ?thesis using small [of "length (p @ q)"] small [of "length p"] by (simp only: word_le_nat_alt) simp
    qed
    ultimately show ?thesis by (simp add: request_complete_def found)
  next
    case False
    then have "find_sub header_mark p = None"
    proof (rule contrapos_np)
      assume "find_sub header_mark p \<noteq> None"
      then obtain i where i: "find_sub header_mark p = Some i" by auto
      then show "?h + 4 \<le> length p" using find_append [OF i, of q] mark find_sub_bound [OF i] by (simp add: header_mark_def)
    qed
    moreover have "q \<noteq> []" using False len(1) by auto
    ultimately show ?thesis by (simp add: request_complete_def)
  qed
qed

lemma receive_chunks:
  assumes vis: "visible verb" "visible target"
  shows "fetch_request server verb target body = p @ concat chunks \<Longrightarrow> length (p @ concat chunks) \<le> kMaxRequestBytes \<Longrightarrow> [] \<notin> set chunks \<Longrightarrow>
    chunks \<noteq> [] \<Longrightarrow> receive_request chunks p = Some (p @ concat chunks)"
proof (induction chunks arbitrary: p)
  case (Cons c cs)
  have "length c > 0" using Cons.prems(3) by auto
  moreover have "length p + length c \<le> kMaxRequestBytes" using Cons.prems(2) by simp
  ultimately have "length p < kMaxRequestBytes" by linarith
  moreover have "request_complete (p @ c) \<longleftrightarrow> concat cs = []" using Cons.prems by (intro request_complete_front [OF vis]) simp_all
  moreover have "concat cs = [] \<longleftrightarrow> cs = []" using Cons.prems by (cases cs) auto
  ultimately show ?case using Cons by (subst receive_request.simps) (auto simp: not_le)
qed simp

lemma next_word_first: "list_all (\<lambda>b. \<not> is_space b) w \<Longrightarrow> w \<noteq> [] \<Longrightarrow> next_word (w @ 32 # rest) = (w, 32 # rest)"
proof -
  assume w: "list_all (\<lambda>b. \<not> is_space b) w" "w \<noteq> []"
  then have "dropWhile is_space (w @ 32 # rest) = w @ 32 # rest" by (cases w) simp_all
  moreover have "is_space 32" by (simp add: is_space_def)
  ultimately show ?thesis using w(1) by (auto simp: next_word_def list_all_iff takeWhile_append dropWhile_append)
qed

lemma visible_word: "visible w \<Longrightarrow> list_all (\<lambda>b. \<not> is_space b) w" "visible w \<Longrightarrow> w \<noteq> []"
  by (auto simp: visible_def list_all_iff)

lemma next_word_space: "next_word (32 # rest) = next_word rest"
  by (simp add: next_word_def is_space_def)

lemma parse_header_line:
  "58 \<notin> set k \<Longrightarrow> v \<noteq> [] \<Longrightarrow> hd v \<noteq> 32 \<Longrightarrow> hd v \<noteq> 9 \<Longrightarrow> parse_header h (k @ 58 # 32 # v) = h(map to_lower k \<mapsto> v)"
  by (cases v) (simp_all add: parse_header_def find_byte)

definition fetched_request :: "address \<Rightarrow> bytes \<Rightarrow> bytes \<Rightarrow> bytes \<Rightarrow> http_request" where
  "fetched_request server verb target body =
     \<lparr>rq_method = verb, rq_path = fst (parse_target target), rq_query = snd (parse_target target),
      rq_headers = [ascii ''host'' \<mapsto> address_to_string server, ascii ''connection'' \<mapsto> ascii ''close'', ascii ''content-length'' \<mapsto> dec (length body)],
      rq_body = body\<rparr>"

lemma digit_head: "hd (dec n) \<noteq> 32" "hd (dec n) \<noteq> 9" "hd (address_to_string a) \<noteq> 32" "hd (address_to_string a) \<noteq> 9" "address_to_string a \<noteq> []"
proof -
  have d: "hd (dec k) \<noteq> 32 \<and> hd (dec k) \<noteq> 9" for k using dec_digits [of k] dec_nonempty [of k] by (cases "dec k") (auto simp: is_digit_def)
  then show "hd (dec n) \<noteq> 32" "hd (dec n) \<noteq> 9" by simp_all
  show "hd (address_to_string a) \<noteq> 32" "hd (address_to_string a) \<noteq> 9" "address_to_string a \<noteq> []"
    using d [of "unat (drop_bit 24 (ad_ip a) AND 255)"] dec_nonempty by (simp_all add: address_to_string_def dec_byte_def)
qed

lemma parse_fetched:
  assumes vis: "visible verb" "visible target"
  shows "parse_request (fetch_request server verb target body) = Some (fetched_request server verb target body)"
proof -
  let ?ls = "request_lines server verb target body"
  obtain l1 rest where ls: "?ls = l1 # rest" "l1 = verb @ 32 # target @ 32 # ascii ''HTTP/1.1''"
      "rest = [ascii ''Host'' @ 58 # 32 # address_to_string server, ascii ''Connection'' @ 58 # 32 # ascii ''close'', ascii ''Content-Length'' @ 58 # 32 # dec (length body)]"
    by (simp add: request_lines_def)
  have plain: "list_all plain_line ?ls" by (rule request_lines_plain [OF vis])
  have mark: "find_sub header_mark (fetch_request server verb target body) = Some (length (lines_text ?ls) - 2)"
    unfolding fetch_lines by (rule find_mark [OF _ plain]) (simp add: ls)
  have r: "fetch_request server verb target body = l1 @ crlf @ lines_text rest @ crlf @ body" by (simp add: fetch_lines ls(1))
  have front: "take (length l1) (fetch_request server verb target body) = l1" by (simp add: r)
  have first: "find_sub crlf (fetch_request server verb target body) = Some (length l1)"
    unfolding r using plain by (intro find_crlf) (simp add: ls(1) plain_line_def)
  have after: "drop (length l1 + 2) (fetch_request server verb target body) = lines_text rest @ crlf @ body" by (simp add: r crlf_def)
  have body: "drop (length (lines_text ?ls) - 2 + 4) (fetch_request server verb target body) = body"
  proof -
    have "length (lines_text ?ls) - 2 + 4 = length (lines_text ?ls @ crlf)" by (simp add: ls(1) crlf_def)
    then show ?thesis unfolding fetch_lines append_assoc [symmetric] by (metis append_eq_conv_conj)
  qed
  have words: "next_word l1 = (verb, 32 # target @ 32 # ascii ''HTTP/1.1'')" "next_word (32 # target @ 32 # ascii ''HTTP/1.1'') = (target, 32 # ascii ''HTTP/1.1'')"
    unfolding ls(2) next_word_space by (rule next_word_first [OF visible_word [OF vis(1)]], rule next_word_first [OF visible_word [OF vis(2)]])
  have headers: "foldl parse_header Map.empty (header_lines (lines_text rest @ crlf @ body)) = rq_headers (fetched_request server verb target body)"
  proof -
    have free: "58 \<notin> set (ascii ''Host'')" "58 \<notin> set (ascii ''Connection'')" "58 \<notin> set (ascii ''Content-Length'')"
        "hd (ascii ''close'') \<noteq> 32" "hd (ascii ''close'') \<noteq> 9" "ascii ''close'' \<noteq> []" by simp_all
    have "header_lines (lines_text rest @ crlf @ body) = rest" using header_lines_text [of rest body] plain by (simp add: ls(1))
    then show ?thesis
      by (simp only: ls(3) foldl.simps parse_header_line [OF free(1) digit_head(5,3,4)] parse_header_line [OF free(2,6,4,5)]
          parse_header_line [OF free(3) dec_nonempty digit_head(1,2)]) (simp add: fetched_request_def to_lower_def)
  qed
  show ?thesis
    unfolding parse_request_def mark first option.case prod.case Let_def front words(1) words(2) [THEN arg_cong, of fst] after headers body
    by (cases "parse_target target") (simp add: fetched_request_def)
qed


section \<open>The response\<close>

definition plain_response :: "http_response \<Rightarrow> bool" where
  "plain_response r \<longleftrightarrow> - (2 ^ 31) \<le> rs_status r \<and> rs_status r < 2 ^ 31 \<and> 13 \<notin> set (rs_content_type r) \<and> rs_headers r = []"

definition response_lines :: "http_response \<Rightarrow> bytes list" where
  "response_lines r = [ascii ''HTTP/1.1 '' @ dec_int (rs_status r) @ ascii '' '' @ status_text (rs_status r), ascii ''Content-Type: '' @ rs_content_type r,
     ascii ''Content-Length: '' @ dec (length (rs_body r)), ascii ''Connection: close'']"

lemma render_lines: "rs_headers r = [] \<Longrightarrow> render_response r = lines_text (response_lines r) @ crlf @ rs_body r"
  by (simp add: render_response_def response_lines_def)

lemma strtoll_dec_int_rest: "- (2 ^ 63) \<le> i \<Longrightarrow> i < 2 ^ 63 \<Longrightarrow> strtoll (dec_int i @ 32 # rest) = i"
  using scan_dec [of "32 # rest"] by (auto simp: strtoll_def dec_int_def is_digit_def)

lemma sint_int: "- (2 ^ 31) \<le> i \<Longrightarrow> i < 2 ^ 31 \<Longrightarrow> sint (word_of_int i :: 32 word) = i"
  by (simp add: sint_sbintrunc' signed_take_bit_int_eq_self)

lemma read_rendered:
  assumes "plain_response r"
  shows "read_response (render_response r) =
    \<lparr>hf_ok = (200 \<le> rs_status r \<and> rs_status r < 300), hf_status = rs_status r, hf_body = rs_body r, hf_error = []\<rparr>"
proof -
  have p: "- (2 ^ 31) \<le> rs_status r" "rs_status r < 2 ^ 31" "13 \<notin> set (rs_content_type r)" "rs_headers r = []"
    using assms by (simp_all add: plain_response_def)
  have plain: "list_all plain_line (response_lines r)"
    using p(3) by (simp add: response_lines_def plain_line_def dec_int_no_cr dec_no_cr status_text_def)
  let ?n = "length (lines_text (response_lines r)) - 2"
  have mark: "find_sub header_mark (render_response r) = Some ?n"
    unfolding render_lines [OF p(4)] by (rule find_mark [OF _ plain]) (simp add: response_lines_def)
  have len: "?n + 4 = length (lines_text (response_lines r) @ crlf)" by (simp add: response_lines_def crlf_def)
  have body: "drop (?n + 4) (render_response r) = rs_body r"
    unfolding len render_lines [OF p(4)] append_assoc [symmetric] by (metis append_eq_conv_conj)
  obtain rest where "drop 9 (render_response r) = dec_int (rs_status r) @ 32 # rest" by (simp add: render_response_def)
  then have status: "strtoll (drop 9 (render_response r)) = rs_status r" using p(1,2) by (simp add: strtoll_dec_int_rest)
  have "\<not> length (render_response r) < 12" by (simp add: render_response_def)
  then show ?thesis
    unfolding read_response_def mark option.case if_not_P [OF \<open>\<not> length (render_response r) < 12\<close>] Let_def status sint_int [OF p(1,2)] body by simp
qed

lemma receive_all:
  "[] \<notin> set chunks \<Longrightarrow> length (p @ concat chunks) \<le> 1024 * 1024 \<Longrightarrow> receive_response chunks p = p @ concat chunks"
proof (induction chunks arbitrary: p)
  case (Cons c cs)
  have "length c > 0" using Cons.prems(1) by auto
  moreover have "length p + length c \<le> 1024 * 1024" using Cons.prems(2) by simp
  ultimately have "length p < 1024 * 1024" by linarith
  then show ?case using Cons.IH [of "p @ c"] Cons.prems by auto
qed simp

text \<open>
  C7: an exchange over HTTP. A request of at most 256 KiB that \<open>http_fetch\<close> sends, with a verb and a target that are not empty and have
  no white space and no colon, reaches the route of the server as the verb, the decoded path and query and the body it was made of,
  however TCP cuts it into chunks; and if the response has no further headers and at most 1 MiB, the client reads the status and the
  body that the handler returned, however the response is cut.
\<close>

theorem http_exchange:
  assumes "visible verb" and "visible target"
    and "concat chunks = fetch_request server verb target body" and "[] \<notin> set chunks" and "length (concat chunks) \<le> kMaxRequestBytes"
    and "http_dispatch h (fetched_request server verb target body) w = (r, w')" and "plain_response r"
    and "concat replies = render_response r" and "[] \<notin> set replies" and "length (concat replies) \<le> 1024 * 1024"
  shows "handle_client chunks h w = (Some (render_response r), h\<lparr>hs_requests_served := hs_requests_served h + 1\<rparr>, w') \<and>
    read_response (receive_response replies []) =
      \<lparr>hf_ok = (200 \<le> rs_status r \<and> rs_status r < 300), hf_status = rs_status r, hf_body = rs_body r, hf_error = []\<rparr>"
proof
  have "chunks \<noteq> []" using assms(3) by (auto simp: fetch_request_def)
  then have "receive_request chunks [] = Some (concat chunks)"
    using receive_chunks [OF assms(1,2), of server body "[]" chunks] assms(3-5) by simp
  then show "handle_client chunks h w = (Some (render_response r), h\<lparr>hs_requests_served := hs_requests_served h + 1\<rparr>, w')"
    using assms(6) by (simp add: handle_client_def assms(3) parse_fetched [OF assms(1,2)])
  show "read_response (receive_response replies []) =
      \<lparr>hf_ok = (200 \<le> rs_status r \<and> rs_status r < 300), hf_status = rs_status r, hf_body = rs_body r, hf_error = []\<rparr>"
    using receive_all [of replies "[]"] assms(8-10) read_rendered [OF assms(7)] by simp
qed

definition sample_routes :: "unit http_server" where
  "sample_routes = route (ascii ''POST'') (ascii ''/session'') (\<lambda>request w. (response_json (query_value request (ascii ''player'')), w))
     \<lparr>hs_routes = Map.empty, hs_fallback = None, hs_requests_served = 0\<rparr>"

text \<open>A request for a session, cut after 20 bytes, and its response, cut there too.\<close>

definition sample_post :: bytes where
  "sample_post = fetch_request \<lparr>ad_ip = 0x7f000001, ad_port = 8080\<rparr> (ascii ''POST'') (ascii ''/session?player=p+1'') []"

theorem http_exchange_witness:
  "\<exists>reply h. handle_client [take 20 sample_post, drop 20 sample_post] sample_routes () = (Some reply, h, ()) \<and> hs_requests_served h = 1 \<and>
     hf_status (read_response (receive_response [take 20 reply, drop 20 reply] [])) = 200 \<and>
     hf_body (read_response (receive_response [take 20 reply, drop 20 reply] [])) = ascii ''p 1''"
proof -
  let ?a = "\<lparr>ad_ip = 0x7f000001, ad_port = 8080\<rparr>" and ?v = "ascii ''POST''" and ?t = "ascii ''/session?player=p+1''" and ?r = "response_json (ascii ''p 1'')"
  have vis: "visible ?v" "visible ?t" by code_simp+
  have target: "parse_target ?t = (ascii ''/session'', [ascii ''player'' \<mapsto> ascii ''p 1''])"
  proof -
    have "find_sub [63] ?t = Some 8" "url_decode (take 8 ?t) = ascii ''/session''" "split_on 38 (drop (8 + 1) ?t) = [ascii ''player=p+1'']"
      "find_sub [61] (ascii ''player=p+1'') = Some 6" "url_decode (take 6 (ascii ''player=p+1'')) = ascii ''player''"
      "url_decode (drop (6 + 1) (ascii ''player=p+1'')) = ascii ''p 1''" "ascii ''player=p+1'' \<noteq> []" by code_simp+
    then show ?thesis by (simp only: parse_target_def parse_query_def parse_pair_def option.case foldl.simps if_False)
  qed
  have split: "concat [take 20 x, drop 20 x] = x" for x :: bytes by simp
  have len1: "length (fetch_request ?a ?v ?t []) = 97"
    by (simp add: fetch_request_def address_to_string_def dec_byte_def dec.simps crlf_def)
  have len2: "length (render_response ?r) = 92" by code_simp
  have cut: "20 < length x \<Longrightarrow> [] \<notin> set [take 20 x, drop 20 x]" for x :: bytes by auto
  have ne: "[] \<notin> set [take 20 (fetch_request ?a ?v ?t []), drop 20 (fetch_request ?a ?v ?t [])]"
      "[] \<notin> set [take 20 (render_response ?r), drop 20 (render_response ?r)]" by (rule cut, unfold len1 len2, simp)+
  have d: "http_dispatch sample_routes (fetched_request ?a ?v ?t []) () = (?r, ())"
    unfolding fetched_request_def target by (simp add: http_dispatch_def sample_routes_def route_def query_value_def)
  have plain: "plain_response ?r" by (simp add: plain_response_def response_json_def)
  have "length (concat [take 20 (fetch_request ?a ?v ?t []), drop 20 (fetch_request ?a ?v ?t [])]) \<le> kMaxRequestBytes"
    "length (concat [take 20 (render_response ?r), drop 20 (render_response ?r)]) \<le> 1024 * 1024"
    unfolding split len1 len2 kMaxRequestBytes_def by simp_all
  note run = http_exchange [OF vis split ne(1) this(1) d plain split ne(2) this(2), folded sample_post_def]
  have r: "rs_body ?r = ascii ''p 1''" "rs_status ?r = 200" by (simp_all only: response_json_def http_response.simps)
  have "hs_requests_served (sample_routes\<lparr>hs_requests_served := hs_requests_served sample_routes + 1\<rparr>) = 1"
    by (simp add: sample_routes_def route_def)
  with run show ?thesis
    by (intro exI [of _ "render_response ?r"] exI [of _ "sample_routes\<lparr>hs_requests_served := hs_requests_served sample_routes + 1\<rparr>"])
      (simp only: http_fetch.simps r simp_thms)
qed

end
