(* ===== verification/Grant_Text.thy ===== *)
theory Grant_Text
  imports Matchmaker Game_Client Http_Exchange
begin

text \<open>
  The answer of the matchmaker as text, and what the client reads from it. The reader \<open>json_lookup\<close> searches for a quoted key, so the
  proof is about where such a key can occur.
\<close>

section \<open>What follows a key\<close>

fun starts :: "bytes \<Rightarrow> bytes \<Rightarrow> bool" where
  "starts [] ys = True"
| "starts (x # xs) [] = False"
| "starts (x # xs) (y # ys) = (x = y \<and> starts xs ys)"

lemma starts_take: "starts xs ys \<longleftrightarrow> take (length xs) ys = xs"
  by (induction xs ys rule: starts.induct) auto

lemma starts_append: "starts xs ys \<longleftrightarrow> (\<exists>zs. ys = xs @ zs)"
  by (induction xs ys rule: starts.induct) auto

definition after :: "bytes \<Rightarrow> bytes \<Rightarrow> bytes option" where
  "after needle text = map_option (\<lambda>n. drop (n + length needle) text) (find_sub needle text)"

lemma after_hit: "after needle (needle @ ys) = Some ys"
  by (simp add: after_def find_here)

lemma after_next: "\<not> starts needle (y # ys) \<Longrightarrow> after needle (y # ys) = after needle ys"
  using find_next [of needle y ys] by (cases "find_sub needle ys") (simp_all add: after_def starts_take)

lemma after_pass: "(\<And>s t. xs = s @ t \<Longrightarrow> t \<noteq> [] \<Longrightarrow> \<not> starts needle (t @ ys)) \<Longrightarrow> after needle (xs @ ys) = after needle ys"
proof (induction xs)
  case (Cons x xs)
  have "\<not> starts needle (x # xs @ ys)" using Cons.prems [of "[]" "x # xs"] by simp
  moreover have "after needle (xs @ ys) = after needle ys" using Cons.prems [of "x # s" for s] by (intro Cons.IH) auto
  ultimately show ?case by (simp add: after_next)
qed simp

lemma after_skip: "b \<notin> set xs \<Longrightarrow> after (b # needle) (xs @ ys) = after (b # needle) ys"
proof (rule after_pass)
  fix s t assume "b \<notin> set xs" "xs = s @ t" "t \<noteq> []"
  then show "\<not> starts (b # needle) (t @ ys)" by (cases t) auto
qed

lemma json_lookup_after:
  "json_lookup json key = (case after (34 # key @ [34, 58]) json of
     None \<Rightarrow> [] | Some t \<Rightarrow> (case t of [] \<Rightarrow> [] | c # rest \<Rightarrow>
       if c = 34 then (case find_sub [34] rest of None \<Rightarrow> [] | Some m \<Rightarrow> take m rest) else takeWhile (\<lambda>b. b \<noteq> 44 \<and> b \<noteq> 125) (c # rest)))"
  by (simp add: json_lookup_def after_def Let_def split: option.split)


section \<open>Escaped text\<close>

text \<open>Every quotation mark is preceded by a backslash.\<close>

fun guarded_quotes :: "bytes \<Rightarrow> bool" where
  "guarded_quotes (x # y # ys) = ((y = 34 \<longrightarrow> x = 92) \<and> guarded_quotes (y # ys))"
| "guarded_quotes _ = True"

lemma guarded_append:
  "guarded_quotes xs \<Longrightarrow> guarded_quotes ys \<Longrightarrow> (ys \<noteq> [] \<Longrightarrow> hd ys \<noteq> 34) \<Longrightarrow> guarded_quotes (xs @ ys)"
proof (induction xs)
  case (Cons x xs)
  then show ?case by (cases xs; cases ys) auto
qed simp

lemma guarded_split: "guarded_quotes (a @ x # 34 # b) \<Longrightarrow> x = 92"
proof (induction a)
  case (Cons y a)
  then show ?case by (cases a) auto
qed simp

lemma guarded_suffix: "guarded_quotes (a @ b) \<Longrightarrow> guarded_quotes b"
proof (induction a)
  case (Cons y a)
  then show ?case by (cases "a @ b") auto
qed simp

lemma hex_char_other: "n < 16 \<Longrightarrow> hex_char n \<noteq> 34"
  by (auto simp: hex_char_def word_unat_eq_iff unat_word_ariths unat_of_nat take_bit_eq_mod)

lemma escape_char_guarded: "guarded_quotes (escape_char c)" "escape_char c \<noteq> []" "hd (escape_char c) \<noteq> 34"
proof -
  have "unat c div 16 < 16" "unat c mod 16 < 16" using unat_less_u8 [of c] by (simp_all add: less_mult_imp_div_less)
  then show "guarded_quotes (escape_char c)" "escape_char c \<noteq> []" "hd (escape_char c) \<noteq> 34" by (auto simp: escape_char_def hex_char_other)
qed

lemma json_escape_guarded: "guarded_quotes (json_escape v)" "json_escape v \<noteq> [] \<Longrightarrow> hd (json_escape v) \<noteq> 34"
proof -
  have "guarded_quotes (json_escape v) \<and> (json_escape v \<noteq> [] \<longrightarrow> hd (json_escape v) \<noteq> 34)"
    unfolding json_escape_def
  proof (induction v)
    case (Cons c v)
    then show ?case using escape_char_guarded [of c] by (auto intro!: guarded_append)
  qed simp
  then show "guarded_quotes (json_escape v)" "json_escape v \<noteq> [] \<Longrightarrow> hd (json_escape v) \<noteq> 34" by simp_all
qed

text \<open>No key begins inside a quoted value that is followed by something other than a colon.\<close>

lemma after_value:
  assumes key: "key \<noteq> []" "34 \<notin> set key" "92 \<notin> set key" and c: "c \<noteq> 58" "c \<noteq> hd key"
  shows "after (34 # key @ [34, 58]) ((34 # json_escape v @ [34]) @ c # rest) = after (34 # key @ [34, 58]) (c # rest)"
proof (rule after_pass)
  fix s t assume st: "34 # json_escape v @ [34] = s @ t" "t \<noteq> []"
  obtain t' where t': "t = t' @ [34]" using st by (metis append_butlast_last_id last_append last_snoc append_Cons)
  show "\<not> starts (34 # key @ [34, 58]) (t @ c # rest)"
  proof
    assume "starts (34 # key @ [34, 58]) (t @ c # rest)"
    then obtain z where z: "t' @ 34 # c # rest = 34 # key @ 34 # 58 # z" using t' by (auto simp: starts_append)
    show False
    proof (cases t')
      case Nil
      then show False using z c(2) key(1) by (cases key) auto
    next
      case (Cons x u)
      have g: "guarded_quotes u"
      proof -
        have "34 # json_escape v = s @ x # u" using st(1) t' Cons by (metis append_Cons append_assoc butlast_snoc)
        then show ?thesis using json_escape_guarded(1) [of v] guarded_suffix [of "s @ [x]" u] guarded_suffix [of "tl (s @ [x])" u]
          by (cases s) auto
      qed
      have e: "u @ 34 # c # rest = key @ 34 # 58 # z" using z Cons by simp
      consider zs where "u = key @ zs" "zs @ 34 # c # rest = 34 # 58 # z" | zs where "key = u @ zs" "34 # c # rest = zs @ 34 # 58 # z"
        using e by (auto simp: append_eq_append_conv2)
      then show False
      proof cases
        case 1
        show False
        proof (cases zs)
          case Nil
          then show False using 1(2) c(1) by simp
        next
          case (Cons y ys)
          then have "y = 34" using 1(2) by simp
          obtain k l where k: "key = k @ [l]" using key(1) by (metis append_butlast_last_id)
          have "u = k @ l # 34 # ys" using 1(1) Cons \<open>y = 34\<close> k by simp
          then have "l = 92" using g guarded_split by blast
          then show False using key(3) k by simp
        qed
      next
        case 2
        show False
        proof (cases zs)
          case Nil
          then show False using 2(2) c(1) by simp
        next
          case (Cons y ys)
          then have "y = 34" using 2(2) by simp
          then show False using key(2) 2(1) Cons by simp
        qed
      qed
    qed
  qed
qed


section \<open>The answer\<close>

definition plain_text :: "bytes \<Rightarrow> bool" where
  "plain_text s \<longleftrightarrow> list_all (\<lambda>b. 32 \<le> b \<and> b \<noteq> 34 \<and> b \<noteq> 92) s"

lemma json_escape_plain: "plain_text s \<Longrightarrow> json_escape s = s"
proof (induction s)
  case (Cons c s)
  then have "escape_char c = [c]" by (auto simp: plain_text_def escape_char_def not_less)
  then show ?case using Cons by (simp add: json_escape_def plain_text_def)
qed (simp add: json_escape_def)

text \<open>The answer, cut at its keys; a key is passed over by looking at its letters.\<close>

definition quoted :: "bytes \<Rightarrow> bytes" where
  "quoted v = 34 # v @ [34]"

definition key_text :: "bytes \<Rightarrow> bytes" where
  "key_text key = 34 # key @ [34, 58]"

lemma grant_text:
  assumes "sg_ok grant"
  shows "session_grant_json grant = 123 # key_text (ascii ''ok'') @ ascii ''true'' @ 44 # key_text (ascii ''reconnect'') @
     (if sg_reconnect grant then ascii ''true'' else ascii ''false'') @ 44 # key_text (ascii ''player'') @ quoted (json_escape (sg_player_id grant)) @
     44 # key_text (ascii ''shard'') @ quoted (json_escape (sg_shard_id grant)) @ 44 # key_text (ascii ''endpoint'') @ quoted (json_escape (sg_udp_endpoint grant)) @
     44 # key_text (ascii ''region'') @ dec_word (sg_region grant) @ 44 # key_text (ascii ''token'') @ quoted (dec_word (sg_session_token grant)) @ [125]"
  using assms by (simp add: session_grant_json_def key_text_def quoted_def)

lemma after_other: "x \<noteq> 34 \<Longrightarrow> after (key_text k) (x # ys) = after (key_text k) ys"
  by (simp add: after_next key_text_def)

lemma after_here: "after (key_text k) (key_text k @ ys) = Some ys"
  by (rule after_hit)

text \<open>Another key is passed over.\<close>

lemma after_key:
  assumes k: "k \<noteq> []" "34 \<notin> set k" "58 \<notin> set k" and j: "34 \<notin> set j" "58 \<notin> set j" and ne: "j \<noteq> k"
  shows "after (key_text k) (key_text j @ ys) = after (key_text k) ys"
  unfolding key_text_def
proof (rule after_pass)
  fix s t assume st: "34 # j @ [34, 58] = s @ t" "t \<noteq> []"
  show "\<not> starts (34 # k @ [34, 58]) (t @ ys)"
  proof (cases s)
    case Nil
    have "\<not> starts (k @ [34, 58]) (j @ [34, 58] @ ys)"
    proof
      assume "starts (k @ [34, 58]) (j @ [34, 58] @ ys)"
      then obtain z where z: "j @ 34 # 58 # ys = k @ 34 # 58 # z" by (auto simp: starts_append)
      have cut: "34 \<notin> set l \<Longrightarrow> takeWhile (\<lambda>b. b \<noteq> 34) (l @ 34 # r) = l" for l r :: bytes by (induction l) auto
      show False using arg_cong [OF z, of "takeWhile (\<lambda>b. b \<noteq> 34)"] cut [OF j(1)] cut [OF k(2)] ne by simp
    qed
    then show ?thesis using Nil st(1) by auto
  next
    case (Cons x s')
    then have st': "j @ [34, 58] = s' @ t" using st(1) by simp
    consider zs where "j = s' @ zs" "t = zs @ [34, 58]" | zs where "s' = j @ zs" "[34, 58] = zs @ t" using st' by (auto simp: append_eq_append_conv2)
    then show ?thesis
    proof cases
      case 1
      show ?thesis
      proof (cases zs)
        case Nil
        then show ?thesis using 1 k by (cases k) auto
      next
        case (Cons b bs)
        then show ?thesis using 1 j(1) by auto
      qed
    next
      case 2
      then have "t = [34, 58] \<or> t = [58]" using st(2) by (auto simp: append_eq_Cons_conv Cons_eq_append_conv)
      then show ?thesis using k by (cases k) auto
    qed
  qed
qed

lemma after_quoted:
  assumes "k \<noteq> []" "34 \<notin> set k" "92 \<notin> set k" "44 \<notin> set k"
  shows "after (key_text k) (quoted (json_escape v) @ 44 # rest) = after (key_text k) (44 # rest)"
proof -
  have "44 \<noteq> hd k" using assms(1,4) by (cases k) auto
  with after_value [OF assms(1-3), of 44 v rest] show ?thesis by (simp add: key_text_def quoted_def)
qed

lemma after_plain: "34 \<notin> set xs \<Longrightarrow> after (key_text k) (xs @ ys) = after (key_text k) ys"
  unfolding key_text_def by (rule after_skip)

lemma lookup_quoted: "after (key_text key) json = Some (quoted v @ rest) \<Longrightarrow> 34 \<notin> set v \<Longrightarrow> json_lookup json key = v"
  by (simp add: json_lookup_after key_text_def quoted_def find_byte)

lemma lookup_plain:
  assumes "after (key_text key) json = Some (v @ 44 # rest)" and "v \<noteq> []" and "34 \<notin> set v" "44 \<notin> set v" "125 \<notin> set v"
  shows "json_lookup json key = v"
proof -
  obtain c u where v: "v = c # u" "c \<noteq> 34" using assms(2,3) by (cases v) auto
  have "takeWhile (\<lambda>b. b \<noteq> 44 \<and> b \<noteq> 125) (v @ 44 # rest) = v" using assms(4,5) by (induction v) auto
  then show ?thesis using assms(1) v by (simp add: json_lookup_after key_text_def)
qed

text \<open>The keys of the answer.\<close>

definition grant_keys :: "bytes list" where
  "grant_keys = [ascii ''ok'', ascii ''reconnect'', ascii ''player'', ascii ''shard'', ascii ''endpoint'', ascii ''region'', ascii ''token'']"

lemma grant_key:
  assumes "k \<in> set grant_keys"
  shows "k \<noteq> [] \<and> 34 \<notin> set k \<and> 58 \<notin> set k \<and> 92 \<notin> set k \<and> 44 \<notin> set k"
  using assms by (auto simp: grant_keys_def)

lemma after_grant_key: "k \<in> set grant_keys \<Longrightarrow> j \<in> set grant_keys \<Longrightarrow> j \<noteq> k \<Longrightarrow> after (key_text k) (key_text j @ ys) = after (key_text k) ys"
  using grant_key [of k] grant_key [of j] by (intro after_key) auto

lemma after_grant_value: "k \<in> set grant_keys \<Longrightarrow> after (key_text k) (quoted (json_escape v) @ 44 # rest) = after (key_text k) (44 # rest)"
  using grant_key [of k] by (intro after_quoted) auto

lemma dec_word_free: "34 \<notin> set (dec_word w)" "44 \<notin> set (dec_word w)" "125 \<notin> set (dec_word w)" "dec_word w \<noteq> []"
  using dec_digits [of "unat w"] dec_nonempty [of "unat w"] by (auto simp: dec_word_def list_all_iff is_digit_def)

lemmas after_rules = after_other after_plain after_grant_key after_grant_value after_here dec_word_free

lemma grant_lookups:
  assumes ok: "sg_ok grant" and s: "plain_text (sg_shard_id grant)" and e: "plain_text (sg_udp_endpoint grant)"
  shows "json_lookup (session_grant_json grant) (ascii ''shard'') = sg_shard_id grant"
    and "json_lookup (session_grant_json grant) (ascii ''endpoint'') = sg_udp_endpoint grant"
    and "json_lookup (session_grant_json grant) (ascii ''token'') = dec_word (sg_session_token grant)"
    and "json_lookup (session_grant_json grant) (ascii ''region'') = dec_word (sg_region grant)"
    and "json_lookup (session_grant_json grant) (ascii ''reconnect'') = (if sg_reconnect grant then ascii ''true'' else ascii ''false'')"
proof -
  have free: "34 \<notin> set t" if "plain_text t" for t using that by (auto simp: plain_text_def list_all_iff)
  note json = grant_text [OF ok]
  have keys: "ascii ''ok'' \<in> set grant_keys" "ascii ''reconnect'' \<in> set grant_keys" "ascii ''player'' \<in> set grant_keys" "ascii ''shard'' \<in> set grant_keys"
      "ascii ''endpoint'' \<in> set grant_keys" "ascii ''region'' \<in> set grant_keys" "ascii ''token'' \<in> set grant_keys" unfolding grant_keys_def by simp_all
  have "\<exists>r. after (key_text (ascii ''shard'')) (session_grant_json grant) = Some (quoted (json_escape (sg_shard_id grant)) @ r)"
    unfolding json using keys by (simp add: after_rules)
  then show "json_lookup (session_grant_json grant) (ascii ''shard'') = sg_shard_id grant"
    using lookup_quoted free [OF s] unfolding json_escape_plain [OF s] by blast
  have "\<exists>r. after (key_text (ascii ''endpoint'')) (session_grant_json grant) = Some (quoted (json_escape (sg_udp_endpoint grant)) @ r)"
    unfolding json using keys by (simp add: after_rules)
  then show "json_lookup (session_grant_json grant) (ascii ''endpoint'') = sg_udp_endpoint grant"
    using lookup_quoted free [OF e] unfolding json_escape_plain [OF e] by blast
  have "\<exists>r. after (key_text (ascii ''token'')) (session_grant_json grant) = Some (quoted (dec_word (sg_session_token grant)) @ r)"
    unfolding json using keys by (simp add: after_rules)
  then show "json_lookup (session_grant_json grant) (ascii ''token'') = dec_word (sg_session_token grant)" using lookup_quoted dec_word_free(1) by blast
  have "\<exists>r. after (key_text (ascii ''region'')) (session_grant_json grant) = Some (dec_word (sg_region grant) @ 44 # r)"
    unfolding json using keys by (simp add: after_rules)
  then show "json_lookup (session_grant_json grant) (ascii ''region'') = dec_word (sg_region grant)" using lookup_plain dec_word_free by blast
  have "\<exists>r. after (key_text (ascii ''reconnect'')) (session_grant_json grant) = Some ((if sg_reconnect grant then ascii ''true'' else ascii ''false'') @ 44 # r)"
    unfolding json using keys by (simp add: after_rules)
  then obtain r where r: "after (key_text (ascii ''reconnect'')) (session_grant_json grant) = Some ((if sg_reconnect grant then ascii ''true'' else ascii ''false'') @ 44 # r)" ..
  show "json_lookup (session_grant_json grant) (ascii ''reconnect'') = (if sg_reconnect grant then ascii ''true'' else ascii ''false'')"
    by (rule lookup_plain [OF r]) simp_all
qed

lemma address_plain: "plain_text (address_to_string a)"
proof -
  have "32 \<le> b \<and> b \<noteq> 34 \<and> b \<noteq> 92" if "b \<in> set (address_to_string a)" for b
    using address_chars [OF that] by (auto simp: is_digit_def word_le_nat_alt)
  then show ?thesis by (simp add: plain_text_def list_all_iff)
qed


section \<open>Property\<close>

text \<open>
  C8: a client that reads the matchmaker's answer learns the session exactly. For a grant with a token that is not zero, an
  endpoint printed from an address with a port, and a shard name that needs no escaping, the client takes over the name, the region,
  the endpoint and the token of the grant and counts a reconnect if and only if the grant is one. The player id is any byte string,
  also one that contains quotation marks or looks like a key of the answer: escaping keeps it from being read as another field.
\<close>

theorem session_response_read:
  assumes ok: "sg_ok grant" and shard: "plain_text (sg_shard_id grant)"
    and endpoint: "sg_udp_endpoint grant = address_to_string a" "address_valid a" and token: "sg_session_token grant \<noteq> 0"
  shows "read_session resolve (session_grant_json grant) w =
    (True, w\<lparr>gc_shard_id := sg_shard_id grant, gc_region := sg_region grant, gc_shard_endpoint := a, gc_session_token := sg_session_token grant,
       gc_stats := (if sg_reconnect grant then (gc_stats w)\<lparr>gs_reconnects := gs_reconnects (gc_stats w) + 1\<rparr> else gc_stats w)\<rparr>)"
proof -
  have plain: "plain_text (sg_udp_endpoint grant)" unfolding endpoint(1) by (rule address_plain)
  note fields = grant_lookups [OF ok shard plain]
  have tok: "strtoull (dec_word (sg_session_token grant)) = sg_session_token grant" "ucast (strtoull (dec_word (sg_region grant))) = sg_region grant"
    by (simp_all add: dec_word_def strtoull_dec strtoull_dec_u32)
  have ne: "address_to_string a \<noteq> []" by (simp add: address_to_string_def)
  show ?thesis
    unfolding read_session_def fields Let_def tok endpoint(1) address_roundtrip [OF endpoint(2)]
    using ne dec_word_free(4) token by simp
qed

theorem session_response_read_witness:
  "\<forall>w. read_session (\<lambda>_. None)
     (session_grant_json \<lparr>sg_ok = True, sg_reconnect = False, sg_player_id = ascii ''\",\"token\":\"7'', sg_shard_id = ascii ''s1'',
        sg_udp_endpoint = address_to_string \<lparr>ad_ip = 0x7f000001, ad_port = 4000\<rparr>, sg_region = 3, sg_session_token = 99, sg_reason = []\<rparr>) w =
   (True, w\<lparr>gc_shard_id := ascii ''s1'', gc_region := 3, gc_shard_endpoint := \<lparr>ad_ip = 0x7f000001, ad_port = 4000\<rparr>, gc_session_token := 99,
     gc_stats := gc_stats w\<rparr>)"
  by (intro allI, subst session_response_read) (simp_all add: address_valid_def plain_text_def)

end
