(* ===== verification/Shard_Choice.thy ===== *)
theory Shard_Choice
  imports Matchmaker
begin

text \<open>
  Which shard the matchmaker chooses. Load factors closer than a tolerance count as equal, so the comparison is not transitive and the
  choice is the least loaded shard only when the loads are equal or clearly apart.
\<close>

section \<open>Comparing loads\<close>

lemma round53_nonneg: "0 \<le> num \<Longrightarrow> 0 < den \<Longrightarrow> 0 \<le> round53 num den"
  by (auto simp: round53_def Let_def intro!: mult_nonneg_nonneg add_nonneg_nonneg simp: pos_imp_zdiv_nonneg_iff)

lemma round53_zero: "0 < den \<Longrightarrow> round53 0 den = 0"
  by (simp add: round53_def Let_def expo53.simps)

lemma load_tolerance_nonneg: "0 \<le> load_tolerance"
  unfolding load_tolerance_def by (rule round53_nonneg) simp_all

lemma load_delta_self: "load_factor a = load_factor b \<Longrightarrow> load_delta a b = 0"
  by (simp add: load_delta_def round53_zero)

lemma load_delta_less: "load_factor a < load_factor b \<Longrightarrow> load_delta a b \<le> 0"
  by (simp add: load_delta_def Let_def round53_nonneg)

lemma load_delta_greater: "load_factor b \<le> load_factor a \<Longrightarrow> 0 \<le> load_delta a b"
  by (simp add: load_delta_def Let_def round53_nonneg)

definition apart :: "shard_info \<Rightarrow> shard_info \<Rightarrow> bool" where
  "apart a b \<longleftrightarrow> load_factor a = load_factor b \<or> load_tolerance < \<bar>load_delta a b\<bar>"

definition preferred :: "shard_info \<Rightarrow> shard_info \<Rightarrow> bool" where
  "preferred a b \<longleftrightarrow> load_factor a < load_factor b \<or> load_factor a = load_factor b \<and> si_id a \<le> si_id b"

lemma preferred_refl: "preferred a a"
  by (simp add: preferred_def)

lemma preferred_trans: "preferred a b \<Longrightarrow> preferred b c \<Longrightarrow> preferred a c"
  by (auto simp: preferred_def)

lemma better_shard_refuses: "\<not> accepting s \<Longrightarrow> better_shard best s = best"
  by (simp add: better_shard_def)

lemma better_shard_some:
  assumes acc: "accepting s" and ap: "apart s b"
  shows "\<exists>c. better_shard (Some b) s = Some c \<and> c \<in> {s, b} \<and> preferred c s \<and> preferred c b"
proof -
  consider (eq) "load_factor s = load_factor b" | (lt) "load_factor s < load_factor b" | (gt) "load_factor b < load_factor s" by linarith
  then show ?thesis
  proof cases
    case eq
    then show ?thesis using acc load_delta_self [OF eq] load_tolerance_nonneg by (auto simp: better_shard_def preferred_def)
  next
    case lt
    then have "load_delta s b < - load_tolerance" using ap load_delta_less [OF lt] by (auto simp: apart_def)
    then show ?thesis using acc lt by (simp add: better_shard_def preferred_def)
  next
    case gt
    then have "load_tolerance < load_delta s b" using ap load_delta_greater [of b s] by (auto simp: apart_def)
    then show ?thesis using acc gt load_tolerance_nonneg by (simp add: better_shard_def preferred_def)
  qed
qed

definition chosen_among :: "shard_info option \<Rightarrow> shard_info set \<Rightarrow> bool" where
  "chosen_among best S = (case best of None \<Rightarrow> S = {} | Some b \<Rightarrow> b \<in> S \<and> (\<forall>s\<in>S. preferred b s))"

lemma pick_shard_fold:
  assumes "\<forall>a\<in>S \<union> {s \<in> set live. accepting s}. \<forall>b\<in>S \<union> {s \<in> set live. accepting s}. apart a b" and "chosen_among best S"
  shows "chosen_among (foldl better_shard best live) (S \<union> {s \<in> set live. accepting s})"
  using assms
proof (induction live arbitrary: best S)
  case (Cons s live)
  show ?case
  proof (cases "accepting s")
    case False
    then have "{t \<in> set (s # live). accepting t} = {t \<in> set live. accepting t}" by auto
    with Cons False show ?thesis by (simp add: better_shard_refuses)
  next
    case True
    have un: "S \<union> {t \<in> set (s # live). accepting t} = insert s S \<union> {t \<in> set live. accepting t}" using True by auto
    have "chosen_among (better_shard best s) (insert s S)"
    proof (cases best)
      case None
      then show ?thesis using Cons.prems(2) True by (simp add: chosen_among_def better_shard_def preferred_refl)
    next
      case (Some b)
      then have b: "b \<in> S" "\<forall>t\<in>S. preferred b t" using Cons.prems(2) by (simp_all add: chosen_among_def)
      have "apart s b" using Cons.prems(1) b(1) True by simp
      then obtain c where c: "better_shard (Some b) s = Some c" "c \<in> {s, b}" "preferred c s" "preferred c b" using better_shard_some [OF True] by blast
      have "preferred c t" if "t \<in> S" for t using preferred_trans [OF c(4)] b(2) that by blast
      then show ?thesis using c b Some by (auto simp: chosen_among_def)
    qed
    with Cons.IH [of "insert s S" "better_shard best s"] Cons.prems(1) un show ?thesis by simp
  qed
qed simp


section \<open>Property\<close>

text \<open>
  C9: the choice of a shard for a new player. Nothing is chosen if and only if no live shard accepts players. Otherwise, when the load
  factors of the accepting shards are equal or differ by more than the tolerance, the chosen shard accepts players, no accepting shard
  has a smaller load factor, and among those with the same load factor it has the smallest name, whatever the order of the list.
\<close>

theorem pick_shard_least_loaded:
  assumes "\<forall>a\<in>set live. \<forall>b\<in>set live. accepting a \<longrightarrow> accepting b \<longrightarrow>
      load_factor a = load_factor b \<or> load_tolerance < \<bar>load_delta a b\<bar>"
  shows "case pick_shard live of
      None \<Rightarrow> \<forall>s\<in>set live. \<not> accepting s
    | Some best \<Rightarrow> best \<in> set live \<and> accepting best \<and>
        (\<forall>s\<in>set live. accepting s \<longrightarrow> load_factor best < load_factor s \<or> load_factor best = load_factor s \<and> si_id best \<le> si_id s)"
proof -
  have "chosen_among (pick_shard live) ({} \<union> {s \<in> set live. accepting s})"
    unfolding pick_shard_def using assms by (intro pick_shard_fold) (auto simp: apart_def chosen_among_def)
  then show ?thesis by (auto simp: chosen_among_def preferred_def split: option.splits)
qed

definition sample_info :: "string \<Rightarrow> u32 \<Rightarrow> shard_info" where
  "sample_info name players = \<lparr>si_id = ascii name, si_udp_endpoint = [], si_http_endpoint = [], si_player_count = players, si_capacity = 100000,
     si_tick_p99_ms = [], si_heartbeat_ms = 0, si_draining = False\<rparr>"

theorem pick_shard_least_loaded_witness:
  "pick_shard [sample_info ''c'' 500, sample_info ''b'' 20, sample_info ''a'' 20] = Some (sample_info ''a'' 20)"
proof -
  let ?live = "[sample_info ''c'' 500, sample_info ''b'' 20, sample_info ''a'' 20]"
  have "\<forall>a\<in>set ?live. \<forall>b\<in>set ?live. accepting a \<longrightarrow> accepting b \<longrightarrow> load_factor a = load_factor b \<or> load_tolerance < \<bar>load_delta a b\<bar>"
    by code_simp
  note p = pick_shard_least_loaded [OF this]
  have acc: "\<forall>s\<in>set ?live. accepting s" by code_simp
  have least: "\<forall>s\<in>set ?live. (\<forall>t\<in>set ?live. load_factor s < load_factor t \<or> load_factor s = load_factor t \<and> si_id s \<le> si_id t) \<longrightarrow> s = sample_info ''a'' 20"
    by code_simp
  show ?thesis using p acc least by (auto split: option.splits)
qed

text \<open>
  The tolerance makes the comparison depend on the order: three shards at loads 0.00018, 0.00009 and 0, each within the tolerance of the
  next, and the fullest is chosen because of its name.
\<close>

lemma pick_shard_drifts:
  "pick_shard [sample_info ''c'' 0, sample_info ''b'' 9, sample_info ''a'' 18] = Some (sample_info ''a'' 18) \<and>
   load_tolerance < load_delta (sample_info ''a'' 18) (sample_info ''c'' 0)"
  by code_simp

end
