(* ===== verification/Websocket.thy ===== *)
theory Websocket
  imports Http "HOL-Library.Sublist"
begin

text \<open>
  \<open>net/websocket.h\<close> and \<open>net/websocket.cpp\<close>: the broadcast of the world's state to viewers. What \<open>recv\<close>, \<open>send\<close> and \<open>accept\<close> do in
  a round of the service loop is an argument of the round. Descriptors are numbers.
\<close>

section \<open>The accept key\<close>

definition kMagicGuid :: bytes where
  "kMagicGuid = ascii ''258EAFA5-E914-47DA-95CA-C5AB0DC85B11''"

definition rotate_left :: "u32 \<Rightarrow> nat \<Rightarrow> u32" where
  "rotate_left v bits = push_bit bits v OR drop_bit (32 - bits) v"

function pad_zeros :: "bytes \<Rightarrow> bytes" where
  "pad_zeros m = (if length m mod 64 = 56 then m else pad_zeros (m @ [0]))"
  by pat_completeness auto
termination
proof (relation "measure (\<lambda>m. if length m mod 64 \<le> 56 then 56 - length m mod 64 else 120 - length m mod 64)")
  fix m :: bytes assume "length m mod 64 \<noteq> 56"
  moreover have "length m mod 64 < 64" by simp
  ultimately show "(m @ [0], m) \<in> measure (\<lambda>m. if length m mod 64 \<le> 56 then 56 - length m mod 64 else 120 - length m mod 64)"
    by (auto simp: mod_Suc)
qed simp

declare pad_zeros.simps [simp del]

definition be_bytes :: "nat \<Rightarrow> u64 \<Rightarrow> bytes" where
  "be_bytes n x = map (\<lambda>i. ucast (drop_bit (i * 8) x AND 0xff)) (rev [0..<n])"

lemma length_be_bytes: "length (be_bytes n x) = n"
  by (simp add: be_bytes_def)

definition sha1_message :: "bytes \<Rightarrow> bytes" where
  "sha1_message data = pad_zeros (data @ [0x80]) @ be_bytes 8 (word_of_nat (length data) * 8)"

definition be_word :: "bytes \<Rightarrow> u32" where
  "be_word p = push_bit 24 (ucast (p ! 0)) OR push_bit 16 (ucast (p ! 1)) OR push_bit 8 (ucast (p ! 2)) OR ucast (p ! 3)"

definition schedule_step :: "u32 list \<Rightarrow> nat \<Rightarrow> u32 list" where
  "schedule_step w i = w @ [rotate_left (w ! (i - 3) XOR w ! (i - 8) XOR w ! (i - 14) XOR w ! (i - 16)) 1]"

definition sha1_schedule :: "bytes \<Rightarrow> u32 list" where
  "sha1_schedule block = foldl schedule_step (map (\<lambda>i. be_word (drop (i * 4) block)) [0..<16]) [16..<80]"

type_synonym sha1_state = "u32 \<times> u32 \<times> u32 \<times> u32 \<times> u32"

definition sha1_mix :: "nat \<Rightarrow> u32 \<Rightarrow> u32 \<Rightarrow> u32 \<Rightarrow> u32 \<times> u32" where
  "sha1_mix i b c d =
     (if i < 20 then ((b AND c) OR (NOT b AND d), 0x5a827999)
      else if i < 40 then (b XOR c XOR d, 0x6ed9eba1)
      else if i < 60 then ((b AND c) OR (b AND d) OR (c AND d), 0x8f1bbcdc)
      else (b XOR c XOR d, 0xca62c1d6))"

fun sha1_round :: "sha1_state \<Rightarrow> nat \<times> u32 \<Rightarrow> sha1_state" where
  "sha1_round (a, b, c, d, e) (i, w) =
     (case sha1_mix i b c d of (f, k) \<Rightarrow> (rotate_left a 5 + f + e + k + w, a, rotate_left b 30, c, d))"

fun sha1_block :: "sha1_state \<Rightarrow> bytes \<Rightarrow> sha1_state" where
  "sha1_block (h0, h1, h2, h3, h4) block =
     (case foldl sha1_round (h0, h1, h2, h3, h4) (zip [0..<80] (sha1_schedule block)) of
        (a, b, c, d, e) \<Rightarrow> (h0 + a, h1 + b, h2 + c, h3 + d, h4 + e))"

fun sha1_blocks :: "nat \<Rightarrow> bytes \<Rightarrow> sha1_state \<Rightarrow> sha1_state" where
  "sha1_blocks 0 message h = h"
| "sha1_blocks (Suc n) message h = sha1_blocks n (drop 64 message) (sha1_block h (take 64 message))"

definition sha1 :: "bytes \<Rightarrow> bytes" where
  "sha1 data =
     (let message = sha1_message data
      in case sha1_blocks ((length message + 63) div 64) message (0x67452301, 0xefcdab89, 0x98badcfe, 0x10325476, 0xc3d2e1f0) of
           (a, b, c, d, e) \<Rightarrow> concat (map (\<lambda>h. be_bytes 4 (ucast h)) [a, b, c, d, e]))"

definition kAlphabet :: bytes where
  "kAlphabet = ascii ''ABCDEFGHIJKLMNOPQRSTUVWXYZabcdefghijklmnopqrstuvwxyz0123456789+/''"

definition sextet :: "u32 \<Rightarrow> nat \<Rightarrow> u8" where
  "sextet chunk shift = kAlphabet ! unat (drop_bit shift chunk AND 0x3f)"

fun base64_encode :: "bytes \<Rightarrow> bytes" where
  "base64_encode [] = []"
| "base64_encode [x] = (let c = push_bit 16 (ucast x) in [sextet c 18, sextet c 12, 61, 61])"
| "base64_encode [x, y] = (let c = push_bit 16 (ucast x) OR push_bit 8 (ucast y) in [sextet c 18, sextet c 12, sextet c 6, 61])"
| "base64_encode (x # y # z # rest) =
     (let c = push_bit 16 (ucast x) OR push_bit 8 (ucast y) OR ucast z in sextet c 18 # sextet c 12 # sextet c 6 # sextet c 0 # base64_encode rest)"

definition websocket_accept_key :: "bytes \<Rightarrow> bytes" where
  "websocket_accept_key client_key = base64_encode (sha1 (client_key @ kMagicGuid))"


section \<open>Frames\<close>

definition encode_text_frame :: "bytes \<Rightarrow> bytes" where
  "encode_text_frame payload =
     (let size = length payload
      in 0x81 # (if size < 126 then [word_of_nat size]
                 else if size \<le> 0xffff then 126 # be_bytes 2 (word_of_nat size)
                 else 127 # be_bytes 8 (word_of_nat size)) @ payload)"


section \<open>The handshake\<close>

definition kMaxHandshakeBytes :: nat where "kMaxHandshakeBytes = 8192"

definition is_blank :: "u8 \<Rightarrow> bool" where
  "is_blank b \<longleftrightarrow> b = 32 \<or> b = 9"

definition header_value :: "bytes \<Rightarrow> bytes \<Rightarrow> bytes" where
  "header_value request name =
     (let needle = crlf @ name @ [58]
      in case find_sub needle (map to_lower request) of
           None \<Rightarrow> []
         | Some start \<Rightarrow>
             let rest = drop (start + length needle) request
             in case find_sub crlf rest of
                  None \<Rightarrow> []
                | Some n \<Rightarrow> rev (dropWhile is_blank (rev (dropWhile is_blank (take n rest)))))"

text \<open>What arrives in the intervals of the handshake; an empty chunk is a closed or silent connection.\<close>

fun receive_handshake :: "bytes list \<Rightarrow> bytes \<Rightarrow> bytes option" where
  "receive_handshake chunks request =
     (if find_sub header_mark request \<noteq> None then Some request
      else if kMaxHandshakeBytes < length request then None
      else case chunks of [] \<Rightarrow> None | c # cs \<Rightarrow> if c = [] then None else receive_handshake cs (request @ c))"

declare receive_handshake.simps [simp del]

definition handshake_response :: "bytes \<Rightarrow> bytes" where
  "handshake_response key =
     ascii ''HTTP/1.1 101 Switching Protocols'' @ crlf @ ascii ''Upgrade: websocket'' @ crlf @ ascii ''Connection: Upgrade'' @ crlf @
     ascii ''Sec-WebSocket-Accept: '' @ websocket_accept_key key @ crlf @ crlf"

text \<open>The response that is sent; the second argument tells whether the kernel takes all of it.\<close>

definition handshake :: "bytes list \<Rightarrow> bool \<Rightarrow> bool \<times> bytes" where
  "handshake chunks sends =
     (case receive_handshake chunks [] of
        None \<Rightarrow> (False, [])
      | Some request \<Rightarrow>
          if take 4 request \<noteq> ascii ''GET '' then (False, [])
          else let key = header_value request (ascii ''sec-websocket-key'')
               in if key = [] then (False, []) else (sends, handshake_response key))"


section \<open>Peers\<close>

definition kMaxIncomingBytes :: nat where "kMaxIncomingBytes = 64 * 1024"

definition kMaxOutgoingBytes :: nat where "kMaxOutgoingBytes = 4 * 1024 * 1024"

text \<open>The last member is not in the source: the bytes of frames that the kernel has taken.\<close>

record ws_peer =
  wp_fd :: nat
  wp_outgoing :: bytes
  wp_incoming :: bytes
  wp_closing :: bool
  wp_taken :: bytes

text \<open>Results of \<open>recv\<close> and \<open>send\<close> on a socket that does not block; an empty result of \<open>recv\<close> is the end of the stream.\<close>

datatype recv_result = Received bytes | Recv_again | Recv_failed

datatype send_result = Sent nat | Send_again | Send_failed

fun ws_drain :: "recv_result list \<Rightarrow> ws_peer \<Rightarrow> ws_peer" where
  "ws_drain [] peer = peer"
| "ws_drain (Recv_again # rs) peer = peer"
| "ws_drain (Recv_failed # rs) peer = peer\<lparr>wp_closing := True\<rparr>"
| "ws_drain (Received b # rs) peer =
     (if b = [] then peer\<lparr>wp_closing := True\<rparr>
      else let peer = peer\<lparr>wp_incoming := wp_incoming peer @ b\<rparr>
           in if kMaxIncomingBytes < length (wp_incoming peer) then peer\<lparr>wp_closing := True\<rparr>
              else if hd (wp_incoming peer) AND 0x0f = 8 then peer\<lparr>wp_closing := True\<rparr>
              else ws_drain rs (peer\<lparr>wp_incoming := []\<rparr>))"

fun ws_pump :: "send_result list \<Rightarrow> ws_peer \<Rightarrow> ws_peer" where
  "ws_pump rs peer =
     (if wp_outgoing peer = [] then peer
      else case rs of
        [] \<Rightarrow> peer
      | Send_again # rs \<Rightarrow> peer
      | Send_failed # rs \<Rightarrow> peer\<lparr>wp_closing := True\<rparr>
      | Sent n # rs \<Rightarrow>
          if n = 0 then peer\<lparr>wp_closing := True\<rparr>
          else ws_pump rs (peer\<lparr>wp_outgoing := drop n (wp_outgoing peer), wp_taken := wp_taken peer @ take n (wp_outgoing peer)\<rparr>))"

declare ws_pump.simps [simp del]


section \<open>The server\<close>

record websocket_config =
  wsk_max_clients :: u32
  wsk_max_queued_frames :: u32

record websocket_server =
  wss_config :: websocket_config
  wss_running :: bool
  wss_queue :: "bytes list"
  wss_peers :: "ws_peer list"
  wss_clients :: u32
  wss_frames_sent :: u64
  wss_frames_dropped :: u64

text \<open>The outcome of creating, binding and listening is an argument.\<close>

definition websocket_start :: "bool \<Rightarrow> websocket_config \<Rightarrow> websocket_server \<Rightarrow> bool \<times> websocket_server" where
  "websocket_start listening config s =
     (if listening then (True, s\<lparr>wss_config := config, wss_running := True\<rparr>) else (False, s\<lparr>wss_config := config\<rparr>))"

definition websocket_stop :: "websocket_server \<Rightarrow> websocket_server" where
  "websocket_stop s =
     (if \<not> wss_running s then s else s\<lparr>wss_running := False, wss_peers := [], wss_clients := 0, wss_queue := []\<rparr>)"

fun trim_queue :: "nat \<Rightarrow> bytes list \<Rightarrow> nat \<Rightarrow> bytes list \<times> nat" where
  "trim_queue limit [] dropped = ([], dropped)"
| "trim_queue limit (t # ts) dropped = (if limit < length (t # ts) then trim_queue limit ts (dropped + 1) else (t # ts, dropped))"

text \<open>The part of \<open>publish\<close> under the lock.\<close>

definition push_text :: "bytes \<Rightarrow> websocket_server \<Rightarrow> websocket_server" where
  "push_text t s =
     (case trim_queue (unat (wsk_max_queued_frames (wss_config s))) (wss_queue s @ [t]) 0 of (q, n) \<Rightarrow>
        s\<lparr>wss_queue := q, wss_frames_dropped := wss_frames_dropped s + word_of_nat n\<rparr>)"

definition publish :: "bytes \<Rightarrow> websocket_server \<Rightarrow> websocket_server" where
  "publish t s = (if \<not> wss_running s \<or> wss_clients s = 0 then s else push_text t s)"

text \<open>A waiting connection: its descriptor, what it sends during the handshake, and whether the response is sent as a whole.\<close>

fun accept_peer :: "(nat \<times> bytes list \<times> bool) option \<Rightarrow> websocket_server \<Rightarrow> websocket_server" where
  "accept_peer None s = s"
| "accept_peer (Some (fd, chunks, sends)) s =
     (if unat (wsk_max_clients (wss_config s)) \<le> length (wss_peers s) \<or> \<not> fst (handshake chunks sends) then s
      else let peers = wss_peers s @ [\<lparr>wp_fd = fd, wp_outgoing = [], wp_incoming = [], wp_closing = False, wp_taken = []\<rparr>]
           in s\<lparr>wss_peers := peers, wss_clients := word_of_nat (length peers)\<rparr>)"

definition offer_frame :: "ws_peer \<times> u64 \<times> u64 \<Rightarrow> bytes \<Rightarrow> ws_peer \<times> u64 \<times> u64" where
  "offer_frame st frame =
     (case st of (peer, sent, dropped) \<Rightarrow>
        if kMaxOutgoingBytes < length (wp_outgoing peer) + length frame then (peer, sent, dropped + 1)
        else (peer\<lparr>wp_outgoing := wp_outgoing peer @ frame\<rparr>, sent + 1, dropped))"

text \<open>What the kernel reports for a peer in a round: whether it is ready, and the results of \<open>recv\<close> and \<open>send\<close>.\<close>

record peer_events =
  pe_ready :: bool
  pe_recvs :: "recv_result list"
  pe_sends :: "send_result list"

definition serve_peer :: "bytes list \<Rightarrow> bool \<Rightarrow> peer_events \<Rightarrow> ws_peer \<times> u64 \<times> u64 \<Rightarrow> ws_peer \<times> u64 \<times> u64" where
  "serve_peer frames polled ev st =
     (case st of (peer, sent, dropped) \<Rightarrow>
        let peer = (if polled \<and> pe_ready ev then ws_drain (pe_recvs ev) peer else peer)
        in if wp_closing peer then (peer, sent, dropped)
           else case foldl offer_frame (peer, sent, dropped) frames of (peer, sent, dropped) \<Rightarrow> (ws_pump (pe_sends ev) peer, sent, dropped))"

text \<open>The peers in order, with their index; the counters are threaded through. Only the peers that were there before the call of
  \<open>poll\<close> are polled.\<close>

fun serve_peers :: "bytes list \<Rightarrow> nat \<Rightarrow> (nat \<Rightarrow> peer_events) \<Rightarrow> nat \<Rightarrow> ws_peer list \<Rightarrow> u64 \<times> u64 \<Rightarrow> ws_peer list \<times> u64 \<times> u64" where
  "serve_peers frames polled evs i [] st = ([], st)"
| "serve_peers frames polled evs i (p # ps) (sent, dropped) =
     (case serve_peer frames (i < polled) (evs i) (p, sent, dropped) of (p', sent, dropped) \<Rightarrow>
        case serve_peers frames polled evs (i + 1) ps (sent, dropped) of (ps', st) \<Rightarrow> (p' # ps', st))"

definition serve_round :: "(nat \<times> bytes list \<times> bool) option \<Rightarrow> (nat \<Rightarrow> peer_events) \<Rightarrow> websocket_server \<Rightarrow> websocket_server" where
  "serve_round waiting evs s =
     (let polled = length (wss_peers s);
          s = accept_peer waiting s;
          frames = map encode_text_frame (wss_queue s)
      in case serve_peers frames polled evs 0 (wss_peers s) (wss_frames_sent s, wss_frames_dropped s) of (peers, sent, dropped) \<Rightarrow>
           let peers = filter (\<lambda>p. \<not> wp_closing p) peers
           in s\<lparr>wss_queue := [], wss_peers := peers, wss_clients := word_of_nat (length peers), wss_frames_sent := sent, wss_frames_dropped := dropped\<rparr>)"

end
