(* ===== verification/Websocket_Stream.thy ===== *)
theory Websocket_Stream
  imports Websocket
begin

text \<open>
  What a viewer receives. The reader of frames is the reference, written after RFC 6455 for unmasked text frames; it reads from a
  stream as many frames as are complete.
\<close>

section \<open>Reading frames\<close>

definition be_nat :: "bytes \<Rightarrow> nat" where
  "be_nat bs = foldl (\<lambda>n b. n * 256 + unat b) 0 bs"

definition cut_payload :: "nat \<Rightarrow> bytes \<Rightarrow> (bytes \<times> bytes) option" where
  "cut_payload n bs = (if n \<le> length bs then Some (take n bs, drop n bs) else None)"

definition read_frame :: "bytes \<Rightarrow> (bytes \<times> bytes) option" where
  "read_frame bs =
     (case bs of
        b # l # rest \<Rightarrow>
          if b \<noteq> 0x81 then None
          else if unat l < 126 then cut_payload (unat l) rest
          else if l = 126 then (if length rest < 2 then None else cut_payload (be_nat (take 2 rest)) (drop 2 rest))
          else if l = 127 then (if length rest < 8 then None else cut_payload (be_nat (take 8 rest)) (drop 8 rest))
          else None
      | _ \<Rightarrow> None)"

lemma cut_payload_length: "cut_payload n bs = Some (t, rest) \<Longrightarrow> length rest \<le> length bs"
  by (auto simp: cut_payload_def split: if_splits)

lemma read_frame_length: "read_frame bs = Some (t, rest) \<Longrightarrow> length rest < length bs"
  by (auto simp: read_frame_def split: list.splits if_splits dest!: cut_payload_length)

function read_frames :: "bytes \<Rightarrow> bytes list" where
  "read_frames bs = (case read_frame bs of None \<Rightarrow> [] | Some (t, rest) \<Rightarrow> t # read_frames rest)"
  by pat_completeness auto
termination
  by (relation "measure length") (auto dest: read_frame_length)

declare read_frames.simps [simp del]

lemma cut_payload_more: "cut_payload n bs = Some (t, rest) \<Longrightarrow> cut_payload n (bs @ tail) = Some (t, rest @ tail)"
  by (auto simp: cut_payload_def split: if_splits)

lemma read_frame_more: "read_frame bs = Some (t, rest) \<Longrightarrow> read_frame (bs @ tail) = Some (t, rest @ tail)"
proof -
  assume a: "read_frame bs = Some (t, rest)"
  then obtain b l r where bs: "bs = b # l # r" by (auto simp: read_frame_def split: list.splits)
  have "b = 0x81" using a by (simp add: bs read_frame_def split: if_splits)
  then consider "unat l < 126" "cut_payload (unat l) r = Some (t, rest)"
    | "l = 126" "2 \<le> length r" "cut_payload (be_nat (take 2 r)) (drop 2 r) = Some (t, rest)"
    | "l = 127" "8 \<le> length r" "cut_payload (be_nat (take 8 r)) (drop 8 r) = Some (t, rest)"
    using a by (auto simp: bs read_frame_def not_less split: if_splits)
  then show ?thesis by cases (simp_all add: bs read_frame_def \<open>b = 0x81\<close> cut_payload_more)
qed

lemma read_frames_more: "prefix (read_frames bs) (read_frames (bs @ tail))"
proof (induction bs rule: read_frames.induct)
  case (1 bs)
  show ?case
  proof (cases "read_frame bs")
    case None
    then show ?thesis by (simp add: read_frames.simps [of bs])
  next
    case (Some f)
    obtain t rest where f: "f = (t, rest)" by (cases f)
    then show ?thesis using Some read_frame_more [of bs t rest tail] 1 [OF Some, of t rest]
      by (simp add: read_frames.simps [of bs] read_frames.simps [of "bs @ tail"])
  qed
qed


section \<open>Big-endian numbers\<close>

lemma byte_of_size: "unat (ucast (drop_bit k (x :: u64) AND 0xff) :: u8) = unat x div 2 ^ k mod 256"
proof -
  have "drop_bit k x AND 0xff = take_bit 8 (drop_bit k x)" by (simp add: take_bit_eq_mask mask_numeral)
  then have "unat (drop_bit k x AND 0xff) = take_bit 8 (drop_bit k (unat x))" by (simp only: unsigned_take_bit_eq unat_drop_bit_eq)
  moreover have "unat (ucast (drop_bit k x AND 0xff) :: u8) = take_bit 8 (unat (drop_bit k x AND 0xff))" by (simp only: unsigned_ucast_eq) simp
  ultimately show ?thesis by (simp add: take_bit_eq_mod drop_bit_eq_div)
qed

lemma be_nat_foldl: "foldl (\<lambda>n b. n * 256 + unat b) a bs = a * 256 ^ length bs + be_nat bs"
proof (induction bs arbitrary: a rule: rev_induct)
  case (snoc b bs)
  moreover have "be_nat (bs @ [b]) = be_nat bs * 256 + unat b" by (simp add: be_nat_def)
  ultimately show ?case by (simp add: distrib_right)
qed (simp add: be_nat_def)

lemma be_nat_cons: "be_nat (b # bs) = unat b * 256 ^ length bs + be_nat bs"
  using be_nat_foldl [of "unat b" bs] by (simp add: be_nat_def)

lemma be_nat_bytes: "be_nat (be_bytes n x) = unat x mod 256 ^ n"
proof (induction n)
  case (Suc n)
  have "be_bytes (Suc n) x = ucast (drop_bit (n * 8) x AND 0xff) # be_bytes n x" by (simp add: be_bytes_def)
  then have "be_nat (be_bytes (Suc n) x) = unat x div 256 ^ n mod 256 * 256 ^ n + unat x mod 256 ^ n"
    using Suc by (simp add: be_nat_cons length_be_bytes byte_of_size mult.commute [of n] power_mult)
  then show ?case using mod_mult2_eq [of "unat x" "256 ^ n" 256] by (simp add: mult.commute)
qed (simp add: be_nat_def be_bytes_def)

lemma be_nat_size:
  "n < 65536 \<Longrightarrow> be_nat (be_bytes 2 (word_of_nat n)) = n" "n < 2 ^ 64 \<Longrightarrow> be_nat (be_bytes 8 (word_of_nat n)) = n"
  by (simp_all add: be_nat_bytes unat_of_nat_less)

lemma read_encoded: "length t < 2 ^ 64 \<Longrightarrow> read_frame (encode_text_frame t @ rest) = Some (t, rest)"
proof -
  assume t: "length t < 2 ^ 64"
  have small: "unat (word_of_nat (length t) :: u8) = length t" if "length t < 126" using that by (simp add: unat_of_nat_less)
  consider "length t < 126" | "126 \<le> length t" "length t \<le> 65535" | "65535 < length t" by linarith
  then show ?thesis
  proof cases
    case 1
    then show ?thesis by (simp add: encode_text_frame_def read_frame_def small cut_payload_def)
  next
    case 2
    then show ?thesis by (simp add: encode_text_frame_def read_frame_def length_be_bytes be_nat_size cut_payload_def)
  next
    case 3
    then show ?thesis using t by (simp add: encode_text_frame_def read_frame_def length_be_bytes be_nat_size cut_payload_def)
  qed
qed

lemma read_encoded_frames: "list_all (\<lambda>t. length t < 2 ^ 64) ts \<Longrightarrow> read_frames (concat (map encode_text_frame ts)) = ts"
proof (induction ts)
  case Nil
  then show ?case by (simp add: read_frames.simps read_frame_def)
next
  case (Cons t ts)
  then show ?case by (simp add: read_frames.simps [of "encode_text_frame t @ rest" for rest] read_encoded)
qed


section \<open>Rounds of the service\<close>

abbreviation stream :: "ws_peer \<Rightarrow> bytes" where
  "stream p \<equiv> wp_taken p @ wp_outgoing p"

lemma drain_stream: "wp_taken (ws_drain rs p) = wp_taken p" "wp_outgoing (ws_drain rs p) = wp_outgoing p"
  by (induction rs p rule: ws_drain.induct) (auto simp: Let_def)

lemma pump_stream: "stream (ws_pump rs p) = stream p" "length (wp_outgoing (ws_pump rs p)) \<le> length (wp_outgoing p)"
proof (induction rs p rule: ws_pump.induct)
  case (1 rs p)
  { case 1 show ?case by (subst (1 2) ws_pump.simps) (auto simp: "1.IH" split: list.split send_result.split) }
  { case 2 show ?case by (subst ws_pump.simps) (auto split: list.split send_result.split intro: order_trans [OF "1.IH"(2)]) }
qed

lemma offer_stream:
  assumes "foldl offer_frame (p, a, b) (map encode_text_frame q) = (p', a', b')" and "length (wp_outgoing p) \<le> kMaxOutgoingBytes"
  shows "length (wp_outgoing p') \<le> kMaxOutgoingBytes \<and> (\<exists>ts. subseq ts q \<and> stream p' = stream p @ concat (map encode_text_frame ts))"
  using assms
proof (induction q arbitrary: p a b)
  case (Cons t q)
  show ?case
  proof (cases "kMaxOutgoingBytes < length (wp_outgoing p) + length (encode_text_frame t)")
    case True
    then have "length (wp_outgoing p') \<le> kMaxOutgoingBytes \<and> (\<exists>ts. subseq ts q \<and> stream p' = stream p @ concat (map encode_text_frame ts))"
      using Cons.IH [of p a "b + 1"] Cons.prems by (simp add: offer_frame_def)
    then show ?thesis by (auto intro: list_emb_Cons)
  next
    case False
    let ?p = "p\<lparr>wp_outgoing := wp_outgoing p @ encode_text_frame t\<rparr>"
    obtain ts where "length (wp_outgoing p') \<le> kMaxOutgoingBytes" "subseq ts q" "stream p' = stream ?p @ concat (map encode_text_frame ts)"
      using Cons.IH [of ?p "a + 1" b] Cons.prems False by (auto simp: offer_frame_def)
    then show ?thesis by (intro conjI exI [of _ "t # ts"]) simp_all
  qed
qed auto

definition carries :: "bytes list \<Rightarrow> ws_peer \<Rightarrow> bool" where
  "carries published p \<longleftrightarrow> length (wp_outgoing p) \<le> kMaxOutgoingBytes \<and>
     (\<exists>ts. subseq ts published \<and> stream p = concat (map encode_text_frame ts))"

lemma carries_more: "carries published p \<Longrightarrow> carries (published @ tail) p"
  by (auto simp: carries_def intro: subseq_order.trans)

lemma serve_peer_carries:
  assumes "carries published p" and "serve_peer (map encode_text_frame q) polled ev (p, a, b) = (p', a', b')"
  shows "carries (published @ q) p'"
proof -
  define d where "d = (if polled \<and> pe_ready ev then ws_drain (pe_recvs ev) p else p)"
  have d: "wp_taken d = wp_taken p" "wp_outgoing d = wp_outgoing p" by (simp_all add: d_def drain_stream)
  show ?thesis
  proof (cases "wp_closing d")
    case True
    then show ?thesis using assms d carries_more by (simp add: serve_peer_def d_def [symmetric] Let_def carries_def)
  next
    case False
    obtain o' a'' b'' where o: "foldl offer_frame (d, a, b) (map encode_text_frame q) = (o', a'', b'')" by (rule prod_cases3)
    obtain ts where ts: "subseq ts published" "stream p = concat (map encode_text_frame ts)" using assms(1) by (auto simp: carries_def)
    obtain us where us: "length (wp_outgoing o') \<le> kMaxOutgoingBytes" "subseq us q" "stream o' = stream d @ concat (map encode_text_frame us)"
      using offer_stream [OF o] assms(1) d by (auto simp: carries_def)
    have p': "p' = ws_pump (pe_sends ev) o'" using assms(2) False o by (simp add: serve_peer_def d_def [symmetric] Let_def)
    have "stream p' = concat (map encode_text_frame (ts @ us))" using us(3) ts(2) d by (simp add: p' pump_stream(1))
    moreover have "subseq (ts @ us) (published @ q)" using ts(1) us(2) by (rule list_emb_append_mono)
    ultimately show ?thesis using us(1) pump_stream(2) [of "pe_sends ev" o'] p' by (auto simp: carries_def)
  qed
qed

lemma serve_peers_carry:
  assumes "serve_peers (map encode_text_frame q) n evs i ps st = (ps', st')" and "\<forall>p\<in>set ps. carries published p"
  shows "length ps' = length ps \<and> (\<forall>p\<in>set ps'. carries (published @ q) p)"
  using assms
proof (induction ps arbitrary: i st ps' st')
  case (Cons p ps)
  obtain a b where st: "st = (a, b)" by (cases st)
  obtain p' c d where p': "serve_peer (map encode_text_frame q) (i < n) (evs i) (p, a, b) = (p', c, d)" by (rule prod_cases3)
  obtain r s where r: "serve_peers (map encode_text_frame q) n evs (i + 1) ps (c, d) = (r, s)" by (rule prod.exhaust)
  show ?case using Cons.prems Cons.IH [OF r] serve_peer_carries [OF _ p'] r by (auto simp: st p')
qed simp


section \<open>Runs of a server\<close>

lemma trim_queue_drop: "trim_queue n q d = (drop (length q - n) q, d + (length q - n))"
  by (induction n q d rule: trim_queue.induct) (auto simp: Suc_diff_le)

text \<open>
  A server that has been started; a publisher may have looked at the counters before the round that is running, so the locked part of
  \<open>publish\<close> is a step of its own as well.
\<close>

inductive ws_run :: "websocket_config \<Rightarrow> bytes list \<Rightarrow> websocket_server \<Rightarrow> bool" where
  ws_started: "wss_peers s = [] \<Longrightarrow> wss_queue s = [] \<Longrightarrow> wss_clients s = 0 \<Longrightarrow> ws_run config [] (snd (websocket_start True config s))"
| ws_published: "ws_run config published s \<Longrightarrow> length t < 2 ^ 64 \<Longrightarrow> ws_run config (published @ [t]) (publish t s)"
| ws_pushed: "ws_run config published s \<Longrightarrow> length t < 2 ^ 64 \<Longrightarrow> ws_run config (published @ [t]) (push_text t s)"
| ws_served: "ws_run config published s \<Longrightarrow> wss_running s \<Longrightarrow> ws_run config published (serve_round waiting evs s)"
| ws_stopped: "ws_run config published s \<Longrightarrow> ws_run config published (websocket_stop s)"

definition history :: "bytes list \<Rightarrow> websocket_server \<Rightarrow> bool" where
  "history published s \<longleftrightarrow> (\<exists>past rest. published = past @ rest \<and> subseq (wss_queue s) rest \<and> (\<forall>p\<in>set (wss_peers s). carries past p))"

lemma historyE:
  assumes "history published s"
  obtains past rest where "published = past @ rest" "subseq (wss_queue s) rest" "\<forall>p\<in>set (wss_peers s). carries past p"
  using assms by (auto simp: history_def)

definition ws_ok :: "websocket_config \<Rightarrow> bytes list \<Rightarrow> websocket_server \<Rightarrow> bool" where
  "ws_ok config published s \<longleftrightarrow> wss_config s = config \<and> list_all (\<lambda>t. length t < 2 ^ 64) published \<and>
     length (wss_queue s) \<le> unat (wsk_max_queued_frames config) \<and> length (wss_peers s) \<le> unat (wsk_max_clients config) \<and>
     wss_clients s = word_of_nat (length (wss_peers s)) \<and> history published s"

lemma push_text_ok:
  assumes "ws_ok config published s" and "length t < 2 ^ 64"
  shows "ws_ok config (published @ [t]) (push_text t s)"
proof -
  obtain past rest where h: "published = past @ rest" "subseq (wss_queue s) rest" "\<forall>p\<in>set (wss_peers s). carries past p"
    using assms(1) by (auto simp: ws_ok_def elim: historyE)
  let ?n = "unat (wsk_max_queued_frames config)"
  have "subseq (wss_queue s @ [t]) (rest @ [t])" using h(2) by simp
  moreover have "subseq (drop k q) q" for k and q :: "bytes list" by (metis append_take_drop_id list_emb_append2 subseq_order.refl)
  ultimately have "subseq (drop (length (wss_queue s @ [t]) - ?n) (wss_queue s @ [t])) (rest @ [t])" by (blast intro: subseq_order.trans)
  then have "history (published @ [t]) (push_text t s)"
    using assms(1) h unfolding history_def by (intro exI [of _ past] exI [of _ "rest @ [t]"]) (simp add: push_text_def trim_queue_drop ws_ok_def)
  then show ?thesis using assms by (auto simp: ws_ok_def push_text_def trim_queue_drop)
qed

lemma accept_peer_ok: "ws_ok config published s \<Longrightarrow> ws_ok config published (accept_peer waiting s)"
proof (cases waiting)
  case (Some c)
  obtain fd chunks sends where c: "c = (fd, chunks, sends)" by (rule prod_cases3)
  have new: "carries past \<lparr>wp_fd = fd, wp_outgoing = [], wp_incoming = [], wp_closing = False, wp_taken = []\<rparr>" for past
    by (auto simp: carries_def kMaxOutgoingBytes_def intro: exI [of _ "[]"])
  assume "ws_ok config published s"
  moreover from this have "history published (accept_peer waiting s)" unfolding Some c by (auto simp: ws_ok_def history_def Let_def new)
  ultimately show ?thesis unfolding Some c by (auto simp: ws_ok_def Let_def)
qed simp

lemma serve_round_ok:
  assumes "ws_ok config published s"
  shows "ws_ok config published (serve_round waiting evs s)"
proof -
  define s1 where "s1 = accept_peer waiting s"
  have ok: "ws_ok config published s1" unfolding s1_def by (rule accept_peer_ok [OF assms])
  then obtain past rest where h: "published = past @ rest" "subseq (wss_queue s1) rest" "\<forall>p\<in>set (wss_peers s1). carries past p"
    by (auto simp: ws_ok_def elim: historyE)
  obtain ps a b where r: "serve_peers (map encode_text_frame (wss_queue s1)) (length (wss_peers s)) evs 0 (wss_peers s1)
      (wss_frames_sent s1, wss_frames_dropped s1) = (ps, a, b)" by (rule prod_cases3)
  note c = serve_peers_carry [OF r h(3)]
  have "carries published p" if "p \<in> set ps" for p
  proof -
    have p: "carries (past @ wss_queue s1) p" using c that by blast
    have "subseq (past @ wss_queue s1) published" unfolding h(1) using h(2) by (intro list_emb_append_mono) simp_all
    then show ?thesis using p by (auto simp: carries_def intro: subseq_order.trans)
  qed
  then have "history published (serve_round waiting evs s)"
    unfolding history_def by (intro exI [of _ published] exI [of _ "[]"]) (simp add: serve_round_def Let_def s1_def [symmetric] r)
  moreover have "length (filter (\<lambda>p. \<not> wp_closing p) ps) \<le> length (wss_peers s1)" using c length_filter_le [of _ ps] by metis
  ultimately show ?thesis using ok by (simp add: serve_round_def Let_def s1_def [symmetric] r ws_ok_def)
qed

lemma ws_run_ok: "ws_run config published s \<Longrightarrow> ws_ok config published s"
proof (induction rule: ws_run.induct)
  case (ws_started s config)
  then show ?case by (simp add: ws_ok_def history_def websocket_start_def)
next
  case (ws_published config published s t)
  have "history (published @ [t]) s"
  proof -
    obtain past rest where h: "published = past @ rest" "subseq (wss_queue s) rest" "\<forall>p\<in>set (wss_peers s). carries past p"
      using ws_published.IH by (auto simp: ws_ok_def elim: historyE)
    then show ?thesis unfolding history_def by (intro exI [of _ past] exI [of _ "rest @ [t]"]) (auto intro: subseq_order.trans)
  qed
  then have "ws_ok config (published @ [t]) s" using ws_published by (simp add: ws_ok_def)
  then show ?case using push_text_ok [OF ws_published.IH ws_published(2)] by (simp add: publish_def)
next
  case (ws_stopped config published s)
  then show ?case by (auto simp: websocket_stop_def ws_ok_def history_def)
qed (blast intro: push_text_ok serve_round_ok)+


lemma carries_texts:
  assumes "history published s" and "list_all (\<lambda>t. length t < 2 ^ 64) published" and "p \<in> set (wss_peers s)"
  shows "length (wp_outgoing p) \<le> kMaxOutgoingBytes \<and> (\<exists>texts. subseq texts published \<and>
    stream p = concat (map encode_text_frame texts) \<and> read_frames (stream p) = texts \<and> prefix (read_frames (wp_taken p)) texts)"
proof -
  obtain past rest where h: "published = past @ rest" "carries past p" using assms(1) by (rule historyE) (use assms(3) in blast)
  then obtain ts where ts: "subseq ts past" "stream p = concat (map encode_text_frame ts)" "length (wp_outgoing p) \<le> kMaxOutgoingBytes"
    by (auto simp: carries_def)
  have sub: "subseq ts published" unfolding h(1) using ts(1) by (rule subseq_rev_drop_many)
  have "x \<in> set published" if "x \<in> set ts" for x using list_emb_set [OF sub that] by auto
  then have "list_all (\<lambda>t. length t < 2 ^ 64) ts" using assms(2) unfolding list_all_iff by blast
  then have "read_frames (stream p) = ts" unfolding ts(2) by (rule read_encoded_frames)
  moreover from this have "prefix (read_frames (wp_taken p)) ts" using read_frames_more [of "wp_taken p" "wp_outgoing p"] by simp
  ultimately show ?thesis using sub ts(2,3) by blast
qed


section \<open>Property\<close>

text \<open>
  C10: what viewers receive. Whatever the viewers and the network do and whoever publishes at whatever moment, the bytes a viewer has
  been given, with those still queued for it, are whole text frames of RFC 6455 whose texts are published ones in the order of their
  publication, so what it can read at any moment is a prefix of such a sequence: a slow viewer misses whole states and never sees a
  torn one. The queue, the number of viewers and the bytes queued for each stay within their limits.
\<close>

theorem viewer_streams_whole_frames:
  assumes "ws_run config published s"
  shows "length (wss_queue s) \<le> unat (wsk_max_queued_frames config) \<and> length (wss_peers s) \<le> unat (wsk_max_clients config) \<and>
    unat (wss_clients s) = length (wss_peers s) \<and>
    (\<forall>p\<in>set (wss_peers s). length (wp_outgoing p) \<le> kMaxOutgoingBytes \<and>
       (\<exists>texts. subseq texts published \<and> wp_taken p @ wp_outgoing p = concat (map encode_text_frame texts) \<and>
          read_frames (wp_taken p @ wp_outgoing p) = texts \<and> prefix (read_frames (wp_taken p)) texts))"
proof -
  have ok: "ws_ok config published s" by (rule ws_run_ok [OF assms])
  have peers: "length (wss_peers s) \<le> unat (wsk_max_clients config)" "wss_clients s = word_of_nat (length (wss_peers s))" using ok by (simp_all only: ws_ok_def)
  have "length (wss_peers s) < 4294967296" using peers(1) unat_less_u32 by (rule le_less_trans)
  then have n: "unat (wss_clients s) = length (wss_peers s)" unfolding peers(2) by (simp add: unat_of_nat_less)
  have "history published s" "list_all (\<lambda>t. length t < 2 ^ 64) published" using ok by (simp_all only: ws_ok_def)
  then have streams: "\<forall>p\<in>set (wss_peers s). length (wp_outgoing p) \<le> kMaxOutgoingBytes \<and> (\<exists>texts. subseq texts published \<and>
      stream p = concat (map encode_text_frame texts) \<and> read_frames (stream p) = texts \<and> prefix (read_frames (wp_taken p)) texts)"
    by (blast dest: carries_texts)
  show ?thesis using ok peers n streams by (simp only: ws_ok_def)
qed

text \<open>A viewer connects while nothing is queued, a text is published, and the next round hands the first two bytes of its frame to the kernel.\<close>

definition sample_request :: bytes where
  "sample_request = ascii ''GET / HTTP/1.1'' @ crlf @ ascii ''Sec-WebSocket-Key: x'' @ crlf @ crlf"

definition sample_sockets :: websocket_config where
  "sample_sockets = \<lparr>wsk_max_clients = 2, wsk_max_queued_frames = 8\<rparr>"

definition sample_start :: websocket_server where
  "sample_start = \<lparr>wss_config = sample_sockets, wss_running = True, wss_queue = [], wss_peers = [], wss_clients = 0, wss_frames_sent = 0, wss_frames_dropped = 0\<rparr>"

definition sample_events :: "nat \<Rightarrow> peer_events" where
  "sample_events i = \<lparr>pe_ready = False, pe_recvs = [], pe_sends = [Sent 2]\<rparr>"

definition sample_viewed :: websocket_server where
  "sample_viewed = serve_round None sample_events (publish (ascii ''hi'') (serve_round (Some (7, [sample_request], True)) sample_events sample_start))"

lemma handshake_accepts:
  "fst (handshake chunks sends) = (case receive_handshake chunks [] of None \<Rightarrow> False
     | Some request \<Rightarrow> take 4 request = ascii ''GET '' \<and> header_value request (ascii ''sec-websocket-key'') \<noteq> [] \<and> sends)"
  by (simp add: handshake_def Let_def split: option.split)

lemma sample_handshake: "fst (handshake [sample_request] True)"
proof -
  have "receive_handshake [sample_request] [] = Some sample_request" by code_simp
  moreover have "take 4 sample_request = ascii ''GET ''" "header_value sample_request (ascii ''sec-websocket-key'') \<noteq> []" by code_simp+
  ultimately show ?thesis by (simp add: handshake_accepts)
qed

lemma sample_viewed_peers:
  "wss_peers sample_viewed = [\<lparr>wp_fd = 7, wp_outgoing = ascii ''hi'', wp_incoming = [], wp_closing = False, wp_taken = [0x81, 2]\<rparr>]"
  by (simp add: sample_viewed_def serve_round_def sample_handshake sample_start_def sample_sockets_def sample_events_def serve_peer_def publish_def push_text_def
      trim_queue_drop Let_def encode_text_frame_def offer_frame_def kMaxOutgoingBytes_def ws_pump.simps)

theorem viewer_streams_whole_frames_witness:
  "unat (wss_clients sample_viewed) = 1 \<and> read_frames ([0x81, 2] @ ascii ''hi'') = [ascii ''hi''] \<and> subseq [ascii ''hi''] [ascii ''hi'']"
proof -
  have "ws_run sample_sockets [] (snd (websocket_start True sample_sockets sample_start))" by (rule ws_started) (simp_all add: sample_start_def)
  then have "ws_run sample_sockets [] sample_start" by (simp add: websocket_start_def sample_start_def)
  then have r: "ws_run sample_sockets [] (serve_round (Some (7, [sample_request], True)) sample_events sample_start)"
    by (rule ws_served) (simp add: sample_start_def)
  have "ws_run sample_sockets ([] @ [ascii ''hi'']) (publish (ascii ''hi'') (serve_round (Some (7, [sample_request], True)) sample_events sample_start))"
    by (rule ws_published [OF r]) simp
  then have "ws_run sample_sockets ([] @ [ascii ''hi'']) sample_viewed" unfolding sample_viewed_def
    by (rule ws_served) (simp add: serve_round_def sample_start_def publish_def push_text_def Let_def sample_handshake split: prod.splits)
  then have run: "ws_run sample_sockets [ascii ''hi''] sample_viewed" by (simp only: append_Nil)
  from viewer_streams_whole_frames [OF run] obtain texts where t: "unat (wss_clients sample_viewed) = 1" "subseq texts [ascii ''hi'']"
      "[0x81, 2] @ ascii ''hi'' = concat (map encode_text_frame texts)" "read_frames ([0x81, 2] @ ascii ''hi'') = texts"
    unfolding sample_viewed_peers by auto
  have "texts \<noteq> []" using t(3) by auto
  then have "texts = [ascii ''hi'']" using t(2) by (cases texts) (auto split: if_splits)
  then show ?thesis using t by simp
qed

end
