(* ===== verification/Websocket_Key.thy ===== *)
theory Websocket_Key
  imports Websocket
begin

text \<open>
  The accept key of the handshake: the padding keeps the hash inside its message, and the text of the digest can be decoded again. The
  decoder is the reference, written after RFC 4648.
\<close>

section \<open>The digest\<close>

lemma pad_zeros_length: "length (pad_zeros m) mod 64 = 56"
  by (induction m rule: pad_zeros.induct) (subst pad_zeros.simps, simp)

text \<open>The message is cut into whole blocks, so no word of a block is read behind its end.\<close>

lemma sha1_message_blocks: "length (sha1_message data) mod 64 = 0"
proof -
  have "(length (pad_zeros (data @ [128])) + 8) mod 64 = (length (pad_zeros (data @ [128])) mod 64 + 8) mod 64" by (simp only: mod_add_left_eq)
  then show ?thesis by (simp add: sha1_message_def length_be_bytes pad_zeros_length)
qed

lemma length_sha1: "length (sha1 data) = 20"
  by (simp add: sha1_def length_be_bytes Let_def split: prod.split)


section \<open>Decoding\<close>

definition letter :: "u8 \<Rightarrow> nat option" where
  "letter b =
     (if 65 \<le> b \<and> b \<le> 90 then Some (unat (b - 65)) else if 97 \<le> b \<and> b \<le> 122 then Some (unat (b - 97) + 26)
      else if 48 \<le> b \<and> b \<le> 57 then Some (unat (b - 48) + 52) else if b = 43 then Some 62 else if b = 47 then Some 63 else None)"

definition group :: "nat \<Rightarrow> nat \<Rightarrow> nat \<Rightarrow> nat \<Rightarrow> bytes" where
  "group a b c d = (let n = ((a * 64 + b) * 64 + c) * 64 + d in [word_of_nat (n div 65536), word_of_nat (n div 256 mod 256), word_of_nat (n mod 256)])"

fun base64_decode :: "bytes \<Rightarrow> bytes option" where
  "base64_decode [] = Some []"
| "base64_decode (a # b # c # d # rest) =
     (case (letter a, letter b) of
        (Some i, Some j) \<Rightarrow>
          if c = 61 \<and> d = 61 \<and> rest = [] then Some (take 1 (group i j 0 0))
          else (case letter c of None \<Rightarrow> None | Some k \<Rightarrow>
            if d = 61 \<and> rest = [] then Some (take 2 (group i j k 0))
            else case letter d of None \<Rightarrow> None | Some l \<Rightarrow> map_option (\<lambda>r. group i j k l @ r) (base64_decode rest))
      | _ \<Rightarrow> None)"
| "base64_decode _ = None"

lemma letters: "map letter kAlphabet = map Some [0..<64]"
  by code_simp

lemma letter_nth: "i < 64 \<Longrightarrow> letter (kAlphabet ! i) = Some i"
  using arg_cong [OF letters, of "\<lambda>xs. xs ! i"] arg_cong [OF letters, of length] by simp

lemma letter_pad: "letter 61 = None"
  by (simp add: letter_def)

lemma sextet_letter: "letter (sextet c k) = Some (unat c div 2 ^ k mod 64)" "sextet c k \<noteq> 61"
proof -
  have "unat (drop_bit k c AND 0x3f) = unat c div 2 ^ k mod 64"
  proof -
    have "drop_bit k c AND 0x3f = take_bit 6 (drop_bit k c)" by (simp add: take_bit_eq_mask mask_numeral)
    then have "unat (drop_bit k c AND 0x3f) = take_bit 6 (drop_bit k (unat c))" by (simp only: unsigned_take_bit_eq unat_drop_bit_eq)
    then show ?thesis by (simp add: take_bit_eq_mod drop_bit_eq_div)
  qed
  then show l: "letter (sextet c k) = Some (unat c div 2 ^ k mod 64)" by (simp add: sextet_def letter_nth)
  then show "sextet c k \<noteq> 61" using letter_pad by auto
qed

lemma sextets: "n < 16777216 \<Longrightarrow>
   ((n div 262144 mod 64 * 64 + n div 4096 mod 64) * 64 + n div 64 mod 64) * 64 + n mod 64 = (n :: nat)"
proof -
  assume n: "n < 16777216"
  have step: "a div 64 * 64 + a mod 64 = a" for a :: nat by simp
  have a: "n div 262144 mod 64 = n div 4096 div 64" "n div 4096 = n div 64 div 64" using n by (simp_all add: div_mult2_eq [symmetric])
  show ?thesis unfolding a(1) step unfolding a(2) step ..
qed

lemma chunk_value:
  "unat (push_bit 16 (ucast x) OR push_bit 8 (ucast y) OR ucast z :: u32) = unat (x :: u8) * 65536 + unat (y :: u8) * 256 + unat (z :: u8)"
proof -
  have high: "\<not> bit w n" if "8 \<le> n" for w :: u8 and n using that bit_imp_le_length [of w n] by auto
  have yz: "push_bit 8 (ucast y) OR ucast z = (push_bit 8 (ucast y) + ucast z :: u32)"
    by (rule disjunctive_add [symmetric]) (auto simp: bit_push_bit_iff bit_ucast_iff high)
  have xyz: "push_bit 16 (ucast x) OR (push_bit 8 (ucast y) OR ucast z) = (push_bit 16 (ucast x) + (push_bit 8 (ucast y) + ucast z) :: u32)"
    unfolding yz [symmetric] by (rule disjunctive_add [symmetric]) (auto simp: bit_push_bit_iff bit_or_iff bit_ucast_iff high)
  have e: "push_bit 16 (ucast x) OR push_bit 8 (ucast y) OR ucast z = (word_of_nat (unat x * 65536 + unat y * 256 + unat z) :: u32)"
    unfolding or.assoc xyz by (simp add: push_bit_eq_mult mult.commute)
  have "unat x * 65536 + unat y * 256 + unat z < 4294967296" using unat_less_u8 [of x] unat_less_u8 [of y] unat_less_u8 [of z] by linarith
  then show ?thesis unfolding e by (rule unat_of_nat_less [where 'a = 32, simplified])
qed

lemma group_value:
  fixes x y z :: u8
  assumes "n = unat x * 65536 + unat y * 256 + unat z"
  shows "group (n div 262144 mod 64) (n div 4096 mod 64) (n div 64 mod 64) (n mod 64) = [x, y, z]"
proof -
  have b: "unat x < 256" "unat y < 256" "unat z < 256" by (rule unat_less_u8)+
  have n: "n < 16777216" using assms b by linarith
  have e: "n = (unat x * 256 + unat y) * 256 + unat z" using assms by simp
  have d: "n div 256 = unat x * 256 + unat y" "n mod 256 = unat z" unfolding e mod_mult_self3 using b(3) by simp_all
  have "n div 65536 = n div 256 div 256" by (simp add: div_mult2_eq [symmetric])
  then have "n div 65536 = unat x" "n div 256 mod 256 = unat y" using b(2) by (simp_all add: d)
  then show ?thesis unfolding group_def Let_def sextets [OF n] using d(2) by simp
qed

lemma length_base64: "length (base64_encode data) = (length data + 2) div 3 * 4"
proof (induction data rule: base64_encode.induct)
  case (4 x y z rest)
  have "(length (x # y # z # rest) + 2) div 3 = Suc ((length rest + 2) div 3)" by simp
  then show ?case using 4 by (simp only: base64_encode.simps Let_def list.size) simp
qed (simp_all add: Let_def)

lemma base64_roundtrip: "base64_decode (base64_encode data) = Some data"
proof (induction data rule: base64_encode.induct)
  case (2 x)
  have "unat (push_bit 16 (ucast x) :: u32) = unat x * 65536 + unat (0 :: u8) * 256 + unat (0 :: u8)" using chunk_value [of x 0 0] by simp
  then show ?case using group_value [of "unat x * 65536" x 0 0] by (simp add: Let_def sextet_letter)
next
  case (3 x y)
  have "unat (push_bit 16 (ucast x) OR push_bit 8 (ucast y) :: u32) = unat x * 65536 + unat y * 256 + unat (0 :: u8)" using chunk_value [of x y 0] by simp
  then show ?case using group_value [of "unat x * 65536 + unat y * 256" x y 0] by (simp add: Let_def sextet_letter)
next
  case (4 x y z rest)
  then show ?case using group_value [OF refl, of x y z] by (simp add: Let_def sextet_letter chunk_value)
qed simp


section \<open>The accept value\<close>

text \<open>
  For every key the accept value is a text of 28 characters that decodes to the 20 bytes of the digest of
  the key and the protocol's identifier.
\<close>

theorem accept_key_decodes:
  "base64_decode (websocket_accept_key key) = Some (sha1 (key @ kMagicGuid)) \<and> length (sha1 (key @ kMagicGuid)) = 20 \<and>
   length (websocket_accept_key key) = 28"
  by (simp add: websocket_accept_key_def base64_roundtrip length_sha1 length_base64)

end
