(* ===== verification/Spec2Isabelle.thy ===== *)
theory Spec2Isabelle
  imports Reliable_Retention Reliable_Loss World_Invariant Region_Map Migration View_Invariant Replication Connection_Handshake Handoff Reconnect Shard_Start
    Migration_Path Grant_Text Shard_Choice Websocket_Stream Websocket_Key
begin

text \<open>
  Verification library for Morton, a sharded real-time game backend in C++20.

  \<^bold>\<open>The program.\<close> A world server simulates the entities of its regions at a fixed tick. Clients reach it through its own
  protocol over UDP: a handshake with salts, a layer of sequence numbers and acknowledgements that also carries reliable
  messages, inputs upwards and delta-compressed snapshots downwards. A client predicts its own player from its inputs, reconciles
  with each snapshot and interpolates the others. The servers of a cluster find each other in Redis; which server owns which
  region is derived from the list of live shards, and a player who crosses a border is handed to the neighbouring shard with a
  ticket that can be redeemed once. A matchmaker places new players.

  \<^bold>\<open>The theories\<close>, in the order of the layers, with the files under \<open>src/src/\<close> that they model.

  \<^item> \<open>Prelude\<close>: machine integers, bit strings and the lemmas on lists, words and the state monad that the others share.
  \<^item> \<open>F32\<close>, \<open>F32_Laws\<close>: binary32 on bit patterns, round to nearest even; monotonicity and bounds of the operations.
    \<open>Core_Types\<close>: \<open>core/types.h\<close>, \<open>net/protocol.h\<close>.
  \<^item> \<open>Codec\<close>, \<open>Bitstream\<close>, \<open>Stream_Fields\<close>: \<open>proto/bitstream.h\<close>. \<open>Codec\<close> states a sink and a source of fields as
    locales and proves once what holds for whole messages; the writer and the reader of the source are their interpretations.
    The writer appends exactly the bits of a field or latches its flag and never stores behind its capacity; reading returns
    what was written; a message that does not fit or is cut short is noticed.
  \<^item> \<open>Quantizer\<close>, \<open>Movement\<close>, \<open>Messages\<close>: the \<open>Quantizer\<close> of \<open>proto/bitstream.h\<close>, \<open>sim/movement.h\<close>,
    \<open>proto/messages.h\<close>. Snapping is idempotent, so that the prediction of a client and the server integrate the same inputs;
    a player stays in the arena with a bounded speed; messages survive encoding.
  \<^item> \<open>Sequence_Buffer\<close>, \<open>Reliability\<close>, \<open>Reliable_Packets\<close>, \<open>Reliable_Delivery\<close>, \<open>Reliable_Retention\<close>, \<open>Reliable_Loss\<close>:
    \<open>net/sequence_buffer.h\<close>, \<open>net/reliability.h\<close>, \<open>net/reliability.cpp\<close>. The buffer refines a sliding window; over a network
    that loses, repeats and reorders, the delivered messages are a prefix of the queued ones, and a message stays queued until
    it has arrived, with two exceptions that are theorems as well.
  \<^item> \<open>Udp_Socket\<close>, \<open>Connection\<close>, \<open>Connection_Invariant\<close>, \<open>Connection_Handshake\<close>: \<open>net/udp_socket.h\<close>, \<open>net/udp_socket.cpp\<close>,
    \<open>net/connection.h\<close>, \<open>net/connection.cpp\<close>. Batching keeps the order of datagrams; the tables of the server stay
    consistent under any traffic, a connection needs the salts of a handshake, a handshake without loss completes with a server
    that has room and a service that admits the token, a spoofed request is not amplified, the receive loop ends; the limit on
    connections is not enforced.
  \<^item> \<open>Morton_Code\<close>, \<open>Counting_Sort\<close>, \<open>Spatial_Grid\<close>, \<open>Grid_Pairs\<close>: \<open>spatial/morton.h\<close>, \<open>spatial/grid.h\<close>, \<open>spatial/grid.cpp\<close>.
    Keys are a bijection; a query finds exactly the entities of the cells its box covers; the walk over pairs misses none and
    repeats none.
  \<^item> \<open>Entity_Store\<close>, \<open>World\<close>, \<open>World_Invariant\<close>: \<open>sim/world.h\<close>, \<open>sim/world.cpp\<close>. The store of columns refines a map; with spawn
    points in the square of the world (\<open>on_world\<close>; some drifters appear beyond a wall) every reachable world has a next tick, after
    which all entities are between the walls of the arena (\<open>in_arena\<close>).
  \<^item> \<open>Snapshot\<close>, \<open>Snapshot_Agreement\<close>, \<open>Client_View\<close>, \<open>View_Invariant\<close>, \<open>Replication\<close>: \<open>proto/snapshot.h\<close>,
    \<open>proto/snapshot.cpp\<close>, \<open>sim/client_view.h\<close>, \<open>sim/client_view.cpp\<close>. A snapshot is decoded to the frame that the server
    remembers for it and fits its budget; over a faulty network every frame of the view is one that the server sent for that
    tick, and a snapshot that arrives in time is shown.
  \<^item> \<open>Region_Map\<close>, \<open>Migration\<close>: \<open>sim/region.h\<close>, \<open>cluster/migration.h\<close>, \<open>cluster/migration.cpp\<close>. Regions, the hysteresis of
    the handoff on the default map, the assignment to shards; the ticket and its checksum.
  \<^item> \<open>Decimal\<close>, \<open>Redis\<close>, \<open>Presence\<close>, \<open>Shard\<close>, \<open>Redis_Service\<close>, \<open>Handoff\<close>: \<open>cluster/redis.h\<close>, \<open>cluster/redis.cpp\<close>,
    \<open>cluster/presence.h\<close>, \<open>cluster/presence.cpp\<close>, \<open>cluster/shard.h\<close>, \<open>cluster/shard.cpp\<close> and the ticket store of
    \<open>cluster/migration.cpp\<close>. Commands cannot be forged through their arguments and replies are read whatever way they are cut
    into chunks. The Redis server is a parameter with the documented effect of its commands as a locale, which a store of
    association lists satisfies; a command with a time to live has a law only if that time is a positive number, and keys do not
    expire between the steps of a theorem. As long as every command is answered, a handoff reaches its target once and a lost race
    leaves no trace; all shards derive the same ownership.
  \<^item> \<open>Address_Text\<close>: \<open>net/address.h\<close>, \<open>net/address.cpp\<close>. An endpoint survives printing and parsing.
  \<^item> \<open>World_Server\<close>, \<open>World_Server_Invariant\<close>, \<open>Shard_Start\<close>, \<open>Reconnect\<close>: \<open>app/world_server.h\<close>, \<open>app/world_server.cpp\<close>, the service on top of
    the connection server: starting a shard, admitting, joining, leaving, inputs, snapshots, migrations, the heartbeat and the tick.
    Under any traffic the players of a shard are its connected clients, one per player id and within the capacity; the world of
    a shard that has started has a first tick; a player that is admitted again in time resumes where it was, whatever the shard did
    while it was away (\<open>absence\<close>, which covers all that a tick does after it has received).
  \<^item> \<open>Http\<close>, \<open>Http_Exchange\<close>: \<open>net/http.h\<close>, \<open>net/http.cpp\<close>, \<open>net/http_client.h\<close>, \<open>net/http_client.cpp\<close>. Requests and responses
    as text; an exchange delivers the request to its route and the answer to the client, whatever way TCP cuts them.
  \<^item> \<open>Matchmaker\<close>, \<open>Shard_Choice\<close>, \<open>Session\<close>: \<open>cluster/matchmaker.h\<close>, \<open>cluster/matchmaker.cpp\<close>. The choice of a shard; a session that
    the matchmaker grants is honoured by the shard it names.
  \<^item> \<open>Game_Client\<close>, \<open>Migration_Path\<close>, \<open>Grant_Text\<close>: \<open>app/game_client.h\<close>, \<open>app/game_client.cpp\<close>, the service on top of the client
    connection. The client reads a grant exactly; a migration from the plan over the redirect and the new connection to the
    admission at the target keeps the state of the player.
  \<^item> \<open>Websocket\<close>, \<open>Websocket_Stream\<close>, \<open>Websocket_Key\<close>: \<open>net/websocket.h\<close>, \<open>net/websocket.cpp\<close>, the broadcast of states to viewers. The
    stream of a viewer consists of whole frames of published texts in order, within the limits; the accept key decodes to the digest.

  \<^bold>\<open>How the code is read.\<close> A class is a record of its members, a member function a function from its arguments and the record
  to the result and the new record; the bit streams and what is written with them are programs of the state monad. \<open>u8\<close> to
  \<open>u64\<close> are words and wrap; a size that indexes memory is a natural number. A result of type \<open>option\<close> is missing where the
  source returns \<open>false\<close>; the operations on floats, the grid, the world and the client view have no result where C++ leaves the
  behaviour undefined (a NaN converted to an integer, an index out of range) or a \<open>MORTON_CHECK\<close> aborts, and theorems show that
  this does not happen. Floats are binary32 in round-to-nearest without excess precision or fused operations. A hash map is an
  association list whose order stands for the unspecified order of iteration, or a map where nothing iterates over it.

  \<^bold>\<open>Parameters\<close> stand for what is outside the source: the sine and cosine of the C library (between -1 and 1 for finite angles), the partition of
  \<open>std::nth_element\<close>, random numbers, the clocks, the kernel's queues of datagrams and the outcome of system calls, the handlers
  of a connection, the resolver of names, and the Redis server. The handlers of a connection do not call back into it, except that the
  connect handler of a service may name a client to be replaced, whose connection the server then closes as the source does. The wall
  clock of a shard is a sequence of readings, so that two readings in one operation may differ. The members \<open>sv_undefined\<close>,
  \<open>sv_destroyed\<close> and \<open>gc_undefined\<close> record that an operation of the world or the view inside a service had no result.

  \<^bold>\<open>Bounds and fuel.\<close> The theorems on streams need capacities below 268435456 bytes, so that counts of bits fit 32 bits. The
  theorems on reliable streams hold for up to 32768 messages and 65536 packets, before the 16-bit identifiers wrap around. The receive loops take one step more than datagrams are waiting, and
  the reading of nested replies descends at most as deep as bytes are waiting: each step or level consumes one, so neither bound is
  ever reached. All other recursions are structural or have a measure.

  \<^bold>\<open>Not modelled.\<close> The metrics registry and its histograms, logging, the clocks and the viewer page do not influence the
  simulation. The texts of system errors, hard socket errors, the listening sockets and threads of the HTTP and WebSocket servers, the
  load test and the command lines are input and output. Doubles occur as load factors, which the matchmaker compares and which are
  modelled as whole numbers of units of \<open>2 ^ -96\<close>, and as statistics, which are kept as text or left out.
\<close>

end
